(* ===== verification/PB_Prelude.thy ===== *)
theory PB_Prelude
  imports Main "HOL-Library.Word"
begin

text \<open>
  Shared vocabulary of the development: the machine integer types of the Rust sources,
  checked and saturating arithmetic on values kept as \<open>nat\<close> with their width written out,
  the error-returning results (\<open>Inl\<close> for \<open>Err\<close>, \<open>Inr\<close> for \<open>Ok\<close>), writes into a fixed-size
  buffer, little- and big-endian byte encodings, and the generic lemmas on them that the
  component theories use.
\<close>

unbundle bit_operations_syntax

type_synonym u8 = "8 word"
type_synonym u16 = "16 word"
type_synonym u32 = "32 word"
type_synonym u64 = "64 word"
type_synonym bytes = "u8 list"

named_theorems result_simps "unfolding of error-returning sequences"
named_theorems checked_simps "characterisation of checked arithmetic"

section \<open>Checked and saturating arithmetic\<close>

text \<open>
  Counters and sizes are \<open>nat\<close>. The Rust operations \<open>checked_add\<close>, \<open>checked_mul\<close>,
  \<open>saturating_sub\<close>, \<open>saturating_add\<close> are written with the width they have in the code;
  \<open>usize\<close> is 64 bits wide on the only target (x86-64).
\<close>

definition u64_limit :: nat where
  "u64_limit = 2 ^ 64"

definition u32_limit :: nat where
  "u32_limit = 2 ^ 32"

definition checked_add :: "nat \<Rightarrow> nat \<Rightarrow> nat option" where
  "checked_add a b = (if a + b < u64_limit then Some (a + b) else None)"

definition checked_mul :: "nat \<Rightarrow> nat \<Rightarrow> nat option" where
  "checked_mul a b = (if a * b < u64_limit then Some (a * b) else None)"

definition sat_add :: "nat \<Rightarrow> nat \<Rightarrow> nat" where
  "sat_add a b = min (a + b) (u64_limit - 1)"

definition sat_add32 :: "nat \<Rightarrow> nat \<Rightarrow> nat" where
  "sat_add32 a b = min (a + b) (u32_limit - 1)"

lemma u64_limit_eq: "u64_limit = 18446744073709551616"
  by (simp add: u64_limit_def)

lemma u32_limit_eq: "u32_limit = 4294967296"
  by (simp add: u32_limit_def)

lemma checked_add_Some [checked_simps]:
  "checked_add a b = Some c \<longleftrightarrow> c = a + b \<and> a + b < u64_limit"
  by (auto simp: checked_add_def)

lemma checked_add_None [checked_simps]:
  "checked_add a b = None \<longleftrightarrow> u64_limit \<le> a + b"
  by (simp add: checked_add_def not_less)

lemma checked_mul_Some [checked_simps]:
  "checked_mul a b = Some c \<longleftrightarrow> c = a * b \<and> a * b < u64_limit"
  by (auto simp: checked_mul_def)

lemma checked_mul_None [checked_simps]:
  "checked_mul a b = None \<longleftrightarrow> u64_limit \<le> a * b"
  by (simp add: checked_mul_def not_less)

section \<open>Results\<close>

definition bind_result :: "'e + 'a \<Rightarrow> ('a \<Rightarrow> 'e + 'b) \<Rightarrow> 'e + 'b" where
  "bind_result m f = (case m of Inl e \<Rightarrow> Inl e | Inr a \<Rightarrow> f a)"

definition ok_or :: "'a option \<Rightarrow> 'e \<Rightarrow> 'e + 'a" where
  "ok_or m e = (case m of None \<Rightarrow> Inl e | Some a \<Rightarrow> Inr a)"

lemma bind_result_simps [simp]:
  "bind_result (Inl e) f = Inl e"
  "bind_result (Inr a) f = f a"
  by (simp_all add: bind_result_def)

lemma bind_result_Inr [result_simps]:
  "bind_result m f = Inr b \<longleftrightarrow> (\<exists>a. m = Inr a \<and> f a = Inr b)"
  by (cases m) auto

lemma bind_result_Inl [result_simps]:
  "bind_result m f = Inl e \<longleftrightarrow> m = Inl e \<or> (\<exists>a. m = Inr a \<and> f a = Inl e)"
  by (cases m) auto

lemma ok_or_simps [simp]:
  "ok_or None e = Inl e"
  "ok_or (Some a) e = Inr a"
  by (simp_all add: ok_or_def)

lemma ok_or_Inr [result_simps]: "ok_or m e = Inr a \<longleftrightarrow> m = Some a"
  by (cases m) auto

lemma ok_or_Inl [result_simps]: "ok_or m e = Inl e' \<longleftrightarrow> m = None \<and> e' = e"
  by (cases m) auto

section \<open>Writes into a buffer of fixed size\<close>

definition write_at :: "'a list \<Rightarrow> nat \<Rightarrow> 'a list \<Rightarrow> 'a list" where
  "write_at buf i xs = take i buf @ xs @ drop (i + length xs) buf"

definition slice :: "'a list \<Rightarrow> nat \<Rightarrow> nat \<Rightarrow> 'a list" where
  "slice xs i j = take (j - i) (drop i xs)"

lemma length_write_at [simp]:
  "i + length xs \<le> length buf \<Longrightarrow> length (write_at buf i xs) = length buf"
  by (simp add: write_at_def)

lemma take_write_at:
  "i + length xs \<le> length buf \<Longrightarrow> take (i + length xs) (write_at buf i xs) = take i buf @ xs"
  by (simp add: write_at_def)

lemma write_at_Nil [simp]: "write_at buf i [] = buf"
  by (simp add: write_at_def)

lemma length_slice: "i \<le> j \<Longrightarrow> j \<le> length xs \<Longrightarrow> length (slice xs i j) = j - i"
  by (simp add: slice_def)

lemma length_slice_min: "length (slice xs i j) = min (j - i) (length xs - i)"
  by (simp add: slice_def)

lemma nth_slice: "i + k < j \<Longrightarrow> i + k < length xs \<Longrightarrow> slice xs i j ! k = xs ! (i + k)"
  by (simp add: slice_def)

lemma nth_write_at:
  "i + length xs \<le> length buf \<Longrightarrow> k < length buf \<Longrightarrow>
   write_at buf i xs ! k = (if i \<le> k \<and> k < i + length xs then xs ! (k - i) else buf ! k)"
  by (auto simp: write_at_def nth_append min_def)

lemma slice_write_at_disjoint:
  assumes "i + length xs \<le> length buf" and "b \<le> i \<or> i + length xs \<le> a"
  shows "slice (write_at buf i xs) a b = slice buf a b"
  using assms by (auto intro!: nth_equalityI simp: length_slice_min nth_slice nth_write_at)

lemma slice_write_at_same:
  "i + length xs \<le> length buf \<Longrightarrow> slice (write_at buf i xs) i (i + length xs) = xs"
  by (simp add: slice_def write_at_def)

lemma slice_update_disjoint:
  "k < a \<or> b \<le> k \<Longrightarrow> slice (xs[k := x]) a b = slice xs a b"
  by (auto intro!: nth_equalityI simp: length_slice_min nth_slice)

lemma take_Suc_update:
  "n < length xs \<Longrightarrow> take (Suc n) (xs[n := x]) = take n xs @ [x]"
  by (simp add: take_Suc_conv_app_nth)

section \<open>Byte encodings of integers\<close>

definition le_bytes :: "nat \<Rightarrow> nat \<Rightarrow> bytes" where
  "le_bytes n v = map (\<lambda>i. of_nat (v div 256 ^ i)) [0..<n]"

definition be_bytes :: "nat \<Rightarrow> nat \<Rightarrow> bytes" where
  "be_bytes n v = rev (le_bytes n v)"

fun le_value :: "bytes \<Rightarrow> nat" where
  "le_value [] = 0"
| "le_value (b # bs) = unat b + 256 * le_value bs"

lemma length_le_bytes [simp]: "length (le_bytes n v) = n"
  by (simp add: le_bytes_def)

lemma length_be_bytes [simp]: "length (be_bytes n v) = n"
  by (simp add: be_bytes_def)

lemma le_bytes_Suc: "le_bytes (Suc n) v = of_nat v # le_bytes n (v div 256)"
proof -
  have "map (\<lambda>i. of_nat (v div 256 ^ i)) [1..<Suc n] =
      map (\<lambda>i. of_nat (v div 256 div 256 ^ i) :: u8) [0..<n]"
    by (simp add: map_Suc_upt [symmetric] div_mult2_eq o_def del: upt_Suc)
  then show ?thesis
    by (simp add: le_bytes_def upt_conv_Cons del: upt_Suc)
qed

lemma unat_of_nat_u8: "unat (of_nat v :: u8) = v mod 256"
  by (simp add: unat_of_nat)

lemma le_value_le_bytes: "le_value (le_bytes n v) = v mod 256 ^ n"
proof (induction n arbitrary: v)
  case 0
  then show ?case by (simp add: le_bytes_def)
next
  case (Suc n)
  show ?case
    by (simp add: le_bytes_Suc Suc.IH unat_of_nat_u8 mod_mult2_eq)
qed

lemma le_value_less: "le_value bs < 256 ^ length bs"
proof (induction bs)
  case Nil
  then show ?case by simp
next
  case (Cons b bs)
  have "unat b < 256" by (rule less_le_trans [OF unsigned_less]) simp
  with Cons.IH show ?case by simp
qed

section \<open>Conversions between words\<close>

lemma ucast_u8_u16_ucast: "ucast (ucast (c :: u8) :: u16) = c"
  by (rule bit_word_eqI) (simp add: bit_simps)

end
