(* ===== verification/PB_Editor.thy ===== *)
theory PB_Editor
  imports PB_Prelude
begin

text \<open>
  The line editor (\<open>src/editor.rs\<close>): a 512 byte buffer, the prompt counter, the flag that
  discards an over-long line until Enter and the pending half of a CR LF pair. One key press
  is \<open>process_key\<close>; the calls on the \<open>Output\<close> trait object are returned as a list of
  \<open>editor_output\<close> values in call order. The abstract editor keeps the typed line as a list; the
  refinement lemma relates the two, and the trace lemmas state what the callers rely on.
\<close>

section \<open>State and operations\<close>

definition LINE_CAPACITY :: nat where
  "LINE_CAPACITY = 512"

datatype flow = Continue | PromptIndexOverflow

datatype editor_output =
    LiveAscii u8
  | EraseLast
  | Accepted nat bytes
  | Rejected nat
  | Prompt nat

record editor =
  buffer :: bytes
  len :: nat
  prompt_index :: nat
  discard_until_enter :: bool
  pending_terminator :: u8

definition editor_new :: editor where
  "editor_new = \<lparr>buffer = replicate LINE_CAPACITY 0, len = 0, prompt_index = 1,
     discard_until_enter = False, pending_terminator = 0\<rparr>"

definition CR :: u8 where "CR = 13"
definition LF :: u8 where "LF = 10"

definition is_terminator :: "u8 \<Rightarrow> bool" where
  "is_terminator c \<longleftrightarrow> c = CR \<or> c = LF"

definition editor_clear :: "editor \<Rightarrow> editor" where
  "editor_clear e = e\<lparr>buffer := replicate (length (buffer e)) 0, len := 0\<rparr>"

definition current_byte :: "u16 \<Rightarrow> u8" where
  "current_byte unicode = (if unicode \<le> 255 then ucast unicode else 0)"

definition discard_key :: "editor \<Rightarrow> u8 \<Rightarrow> flow \<times> editor \<times> editor_output list" where
  "discard_key e c =
     (if is_terminator c then
        let e' = e\<lparr>pending_terminator := c, discard_until_enter := False\<rparr> in
        case checked_add (prompt_index e') 1 of
          None \<Rightarrow> (PromptIndexOverflow, e', [])
        | Some v \<Rightarrow> (Continue, e'\<lparr>prompt_index := v\<rparr>, [Prompt v])
      else (Continue, e, []))"

definition enter_key :: "editor \<Rightarrow> u8 \<Rightarrow> flow \<times> editor \<times> editor_output list" where
  "enter_key e c =
     (case checked_add (prompt_index e) 1 of
        None \<Rightarrow> (PromptIndexOverflow, editor_clear e, [])
      | Some next \<Rightarrow>
          (Continue,
           (editor_clear e)\<lparr>prompt_index := next, pending_terminator := c\<rparr>,
           [Accepted (prompt_index e) (take (len e) (buffer e)), Prompt next]))"

definition backspace_key :: "editor \<Rightarrow> flow \<times> editor \<times> editor_output list" where
  "backspace_key e =
     (if len e \<noteq> 0
      then (Continue, e\<lparr>len := len e - 1, buffer := (buffer e)[len e - 1 := 0]\<rparr>, [EraseLast])
      else (Continue, e, []))"

definition printable_key :: "editor \<Rightarrow> u8 \<Rightarrow> flow \<times> editor \<times> editor_output list" where
  "printable_key e c =
     (if len e = LINE_CAPACITY then
        (if checked_add (prompt_index e) 1 = None
         then (PromptIndexOverflow, editor_clear e, [])
         else (Continue, (editor_clear e)\<lparr>discard_until_enter := True\<rparr>,
               [Rejected (prompt_index e)]))
      else (Continue, e\<lparr>buffer := (buffer e)[len e := c], len := len e + 1\<rparr>, [LiveAscii c]))"

definition process_key :: "editor \<Rightarrow> u16 \<Rightarrow> flow \<times> editor \<times> editor_output list" where
  "process_key e unicode =
     (let c = current_byte unicode in
      if (pending_terminator e = CR \<and> c = LF) \<or> (pending_terminator e = LF \<and> c = CR)
      then (Continue, e\<lparr>pending_terminator := 0\<rparr>, [])
      else
        let e' = e\<lparr>pending_terminator := 0\<rparr> in
        if discard_until_enter e' then discard_key e' c
        else if is_terminator c then enter_key e' c
        else if c = 8 then backspace_key e'
        else if 0x20 \<le> c \<and> c \<le> 0x7e \<and> unicode \<le> 255 then printable_key e' c
        else (Continue, e', []))"

text \<open>A run of the input loop: it stops at the first overflow of the prompt counter.\<close>

fun run_keys :: "editor \<Rightarrow> u16 list \<Rightarrow> flow \<times> editor \<times> editor_output list" where
  "run_keys e [] = (Continue, e, [])"
| "run_keys e (k # ks) =
     (case process_key e k of
        (Continue, e', out) \<Rightarrow>
          (case run_keys e' ks of (f, e'', out') \<Rightarrow> (f, e'', out @ out'))
      | (PromptIndexOverflow, e', out) \<Rightarrow> (PromptIndexOverflow, e', out))"

section \<open>Invariant\<close>

definition printable :: "u8 \<Rightarrow> bool" where
  "printable c \<longleftrightarrow> 0x20 \<le> c \<and> c \<le> 0x7e"

definition editor_inv :: "editor \<Rightarrow> bool" where
  "editor_inv e \<longleftrightarrow>
     length (buffer e) = LINE_CAPACITY \<and> len e \<le> LINE_CAPACITY \<and>
     list_all printable (take (len e) (buffer e)) \<and>
     drop (len e) (buffer e) = replicate (LINE_CAPACITY - len e) 0 \<and>
     1 \<le> prompt_index e \<and> prompt_index e < u64_limit \<and>
     (discard_until_enter e \<longrightarrow> len e = 0 \<and> prompt_index e + 1 < u64_limit)"

lemma editor_inv_new: "editor_inv editor_new"
  by (simp add: editor_inv_def editor_new_def LINE_CAPACITY_def u64_limit_eq)

lemma editor_inv_pending: "editor_inv e \<Longrightarrow> editor_inv (e\<lparr>pending_terminator := c\<rparr>)"
  by (simp add: editor_inv_def)

lemma editor_inv_clear:
  "editor_inv e \<Longrightarrow> editor_inv (editor_clear e) \<and> len (editor_clear e) = 0"
  by (simp add: editor_inv_def editor_clear_def)

lemma editor_inv_discard_key:
  "editor_inv e \<Longrightarrow> discard_until_enter e \<Longrightarrow> discard_key e c = (f, e', out) \<Longrightarrow>
     editor_inv e' \<and> f = Continue"
  by (auto simp: discard_key_def editor_inv_def Let_def checked_simps
      split: if_splits option.splits)

lemma editor_inv_enter_key:
  "editor_inv e \<Longrightarrow> \<not> discard_until_enter e \<Longrightarrow> enter_key e c = (f, e', out) \<Longrightarrow> editor_inv e'"
  by (auto simp: enter_key_def editor_inv_def editor_clear_def checked_simps
      split: option.splits)

lemma editor_inv_backspace_key:
  assumes inv: "editor_inv e" and step: "backspace_key e = (f, e', out)"
  shows "editor_inv e'"
proof (cases "len e = 0")
  case True
  with inv step show ?thesis by (simp add: backspace_key_def)
next
  case False
  then obtain n where n: "len e = Suc n" by (cases "len e") auto
  with inv have bound: "n < length (buffer e)" and cap: "n < LINE_CAPACITY"
    by (auto simp: editor_inv_def)
  have "drop n ((buffer e)[n := 0]) = 0 # drop (Suc n) (buffer e)"
    using bound by (simp add: Cons_nth_drop_Suc [symmetric] drop_update_swap)
  also have "\<dots> = replicate (LINE_CAPACITY - n) 0"
    using inv n cap by (simp add: editor_inv_def Suc_diff_Suc [symmetric])
  finally have tail: "drop n ((buffer e)[n := 0]) = replicate (LINE_CAPACITY - n) 0" .
  have "list_all printable (take n ((buffer e)[n := 0]))"
    using inv n bound by (simp add: editor_inv_def take_Suc_conv_app_nth)
  with tail inv n step show ?thesis
    by (auto simp: backspace_key_def editor_inv_def)
qed

lemma editor_inv_printable_key:
  assumes inv: "editor_inv e" and c: "printable c" and nd: "\<not> discard_until_enter e"
    and step: "printable_key e c = (f, e', out)"
  shows "editor_inv e'"
proof (cases "len e = LINE_CAPACITY")
  case True
  with inv step nd show ?thesis
    by (auto simp: printable_key_def editor_inv_def editor_clear_def checked_simps
        split: if_splits)
next
  case False
  with inv have bound: "len e < length (buffer e)" by (simp add: editor_inv_def)
  have "drop (Suc (len e)) ((buffer e)[len e := c]) = drop (Suc (len e)) (buffer e)"
    by simp
  also have "\<dots> = tl (drop (len e) (buffer e))"
    by (simp add: drop_Suc tl_drop)
  also have "\<dots> = replicate (LINE_CAPACITY - Suc (len e)) 0"
    using inv by (simp add: editor_inv_def)
  finally have "drop (Suc (len e)) ((buffer e)[len e := c]) =
      replicate (LINE_CAPACITY - Suc (len e)) 0" .
  with False inv c nd step bound show ?thesis
    by (auto simp: printable_key_def editor_inv_def take_Suc_update)
qed

lemma editor_inv_process_key:
  assumes inv: "editor_inv e" and step: "process_key e k = (f, e', out)"
  shows "editor_inv e'"
proof -
  let ?e = "e\<lparr>pending_terminator := 0\<rparr>"
  have inv0: "editor_inv ?e" using inv by (rule editor_inv_pending)
  from step show ?thesis
    using inv0 editor_inv_discard_key [OF inv0] editor_inv_enter_key [OF inv0]
      editor_inv_backspace_key [OF inv0] editor_inv_printable_key [OF inv0]
    by (auto simp: process_key_def Let_def printable_def split: if_splits)
qed

lemma editor_inv_run_keys:
  "editor_inv e \<Longrightarrow> run_keys e ks = (f, e', out) \<Longrightarrow> editor_inv e'"
proof (induction ks arbitrary: e f e' out)
  case Nil
  then show ?case by simp
next
  case (Cons k ks)
  then show ?case
    by (auto split: prod.splits flow.splits dest: editor_inv_process_key)
qed

section \<open>The abstract editor\<close>

text \<open>
  The contract of the component: the line is a list, discarding is a mode, and the discard
  mode cannot overflow the prompt counter (the code tests for the overflow there too, but
  has already excluded it when it rejected the line).
\<close>

datatype line_mode = Typing bytes | Discarding

record line_editor =
  mode :: line_mode
  index :: nat
  pending :: u8

definition spec_new :: line_editor where
  "spec_new = \<lparr>mode = Typing [], index = 1, pending = 0\<rparr>"

definition editor_abs :: "editor \<Rightarrow> line_editor" where
  "editor_abs e =
     \<lparr>mode = (if discard_until_enter e then Discarding else Typing (take (len e) (buffer e))),
      index = prompt_index e, pending = pending_terminator e\<rparr>"

definition completes_pair :: "u8 \<Rightarrow> u8 \<Rightarrow> bool" where
  "completes_pair p c \<longleftrightarrow> (p = CR \<and> c = LF) \<or> (p = LF \<and> c = CR)"

definition spec_typing :: "nat \<Rightarrow> bytes \<Rightarrow> u8 \<Rightarrow> flow \<times> line_editor \<times> editor_output list" where
  "spec_typing i line c =
     (let full = (i + 1 < u64_limit) in
      if is_terminator c then
        (if full
         then (Continue, \<lparr>mode = Typing [], index = i + 1, pending = c\<rparr>,
               [Accepted i line, Prompt (i + 1)])
         else (PromptIndexOverflow, \<lparr>mode = Typing [], index = i, pending = 0\<rparr>, []))
      else if c = 8 then
        (Continue, \<lparr>mode = Typing (butlast line), index = i, pending = 0\<rparr>,
         if line = [] then [] else [EraseLast])
      else if printable c then
        (if length line \<noteq> LINE_CAPACITY
         then (Continue, \<lparr>mode = Typing (line @ [c]), index = i, pending = 0\<rparr>, [LiveAscii c])
         else if full
         then (Continue, \<lparr>mode = Discarding, index = i, pending = 0\<rparr>, [Rejected i])
         else (PromptIndexOverflow, \<lparr>mode = Typing [], index = i, pending = 0\<rparr>, []))
      else (Continue, \<lparr>mode = Typing line, index = i, pending = 0\<rparr>, []))"

definition spec_key :: "line_editor \<Rightarrow> u16 \<Rightarrow> flow \<times> line_editor \<times> editor_output list" where
  "spec_key a k =
     (let c = current_byte k in
      if completes_pair (pending a) c then (Continue, a\<lparr>pending := 0\<rparr>, [])
      else case mode a of
        Discarding \<Rightarrow>
          (if is_terminator c
           then (Continue, \<lparr>mode = Typing [], index = index a + 1, pending = c\<rparr>,
                 [Prompt (index a + 1)])
           else (Continue, a\<lparr>pending := 0\<rparr>, []))
      | Typing line \<Rightarrow> spec_typing (index a) line c)"

fun spec_run :: "line_editor \<Rightarrow> u16 list \<Rightarrow> flow \<times> line_editor \<times> editor_output list" where
  "spec_run a [] = (Continue, a, [])"
| "spec_run a (k # ks) =
     (case spec_key a k of
        (Continue, a', out) \<Rightarrow>
          (case spec_run a' ks of (f, a'', out') \<Rightarrow> (f, a'', out @ out'))
      | (PromptIndexOverflow, a', out) \<Rightarrow> (PromptIndexOverflow, a', out))"

subsection \<open>Refinement\<close>

lemma printable_current_byte: "printable (current_byte k) \<Longrightarrow> k \<le> 255"
  by (auto simp: printable_def current_byte_def split: if_splits)

lemma process_key_eq:
  "process_key e k =
     (let e0 = e\<lparr>pending_terminator := 0\<rparr>; c = current_byte k in
      if completes_pair (pending_terminator e) c then (Continue, e0, [])
      else if discard_until_enter e then discard_key e0 c
      else if is_terminator c then enter_key e0 c
      else if c = 8 then backspace_key e0
      else if printable c then printable_key e0 c
      else (Continue, e0, []))"
proof -
  have "printable (current_byte k) \<longleftrightarrow>
      0x20 \<le> current_byte k \<and> current_byte k \<le> 0x7e \<and> k \<le> 255"
    using printable_current_byte [of k] by (auto simp: printable_def)
  then show ?thesis
    by (simp add: process_key_def completes_pair_def Let_def)
qed

lemma spec_discard_key:
  "editor_inv e \<Longrightarrow> discard_until_enter e \<Longrightarrow> pending_terminator e = 0 \<Longrightarrow>
   discard_key e c = (f, e', out) \<Longrightarrow>
   (f, editor_abs e', out) =
     (if is_terminator c
      then (Continue, \<lparr>mode = Typing [], index = prompt_index e + 1, pending = c\<rparr>,
            [Prompt (prompt_index e + 1)])
      else (Continue, (editor_abs e)\<lparr>pending := 0\<rparr>, []))"
  by (auto simp: discard_key_def editor_abs_def editor_inv_def Let_def checked_simps
      split: if_splits option.splits)

lemma abs_backspace:
  assumes "editor_inv e" and "len e \<noteq> 0"
  shows "take (len e - 1) ((buffer e)[len e - 1 := 0]) = butlast (take (len e) (buffer e))"
  using assms by (simp add: editor_inv_def butlast_take)

lemma spec_typing_key:
  assumes inv: "editor_inv e" and nd: "\<not> discard_until_enter e"
    and p: "pending_terminator e = 0"
  shows "is_terminator c \<Longrightarrow> enter_key e c = (f, e', out) \<Longrightarrow>
      spec_typing (prompt_index e) (take (len e) (buffer e)) c = (f, editor_abs e', out)"
    and "c = 8 \<Longrightarrow> backspace_key e = (f, e', out) \<Longrightarrow>
      spec_typing (prompt_index e) (take (len e) (buffer e)) c = (f, editor_abs e', out)"
    and "\<not> is_terminator c \<Longrightarrow> c \<noteq> 8 \<Longrightarrow> printable c \<Longrightarrow> printable_key e c = (f, e', out) \<Longrightarrow>
      spec_typing (prompt_index e) (take (len e) (buffer e)) c = (f, editor_abs e', out)"
    and "\<not> is_terminator c \<Longrightarrow> c \<noteq> 8 \<Longrightarrow> \<not> printable c \<Longrightarrow>
      spec_typing (prompt_index e) (take (len e) (buffer e)) c = (Continue, editor_abs e, [])"
proof -
  have lenb: "length (buffer e) = LINE_CAPACITY" and le: "len e \<le> LINE_CAPACITY"
    using inv by (auto simp: editor_inv_def)
  have empty: "take (len e) (buffer e) = [] \<longleftrightarrow> len e = 0"
    using lenb by (auto simp: LINE_CAPACITY_def)
  show "is_terminator c \<Longrightarrow> enter_key e c = (f, e', out) \<Longrightarrow>
      spec_typing (prompt_index e) (take (len e) (buffer e)) c = (f, editor_abs e', out)"
    using nd p
    by (auto simp: spec_typing_def enter_key_def editor_abs_def editor_clear_def checked_simps
        split: option.splits)
  show "c = 8 \<Longrightarrow> backspace_key e = (f, e', out) \<Longrightarrow>
      spec_typing (prompt_index e) (take (len e) (buffer e)) c = (f, editor_abs e', out)"
    using nd p abs_backspace [OF inv] empty
    by (auto simp: spec_typing_def backspace_key_def editor_abs_def is_terminator_def
        CR_def LF_def split: if_splits)
  show "\<not> is_terminator c \<Longrightarrow> c \<noteq> 8 \<Longrightarrow> printable c \<Longrightarrow> printable_key e c = (f, e', out) \<Longrightarrow>
      spec_typing (prompt_index e) (take (len e) (buffer e)) c = (f, editor_abs e', out)"
    using nd p lenb le
    by (auto simp: spec_typing_def printable_key_def editor_abs_def editor_clear_def
        checked_simps take_Suc_update split: if_splits)
  show "\<not> is_terminator c \<Longrightarrow> c \<noteq> 8 \<Longrightarrow> \<not> printable c \<Longrightarrow>
      spec_typing (prompt_index e) (take (len e) (buffer e)) c = (Continue, editor_abs e, [])"
    using nd p by (simp add: spec_typing_def editor_abs_def)
qed

lemma process_key_refines:
  assumes inv: "editor_inv e" and step: "process_key e k = (f, e', out)"
  shows "spec_key (editor_abs e) k = (f, editor_abs e', out)"
proof -
  let ?e = "e\<lparr>pending_terminator := 0\<rparr>" and ?c = "current_byte k"
  have inv0: "editor_inv ?e" using inv by (rule editor_inv_pending)
  show ?thesis
  proof (cases "completes_pair (pending_terminator e) ?c")
    case True
    with step show ?thesis
      by (auto simp: spec_key_def process_key_eq editor_abs_def Let_def)
  next
    case np: False
    show ?thesis
    proof (cases "discard_until_enter e")
      case True
      with np step have "discard_key ?e ?c = (f, e', out)"
        by (simp add: process_key_eq Let_def)
      from spec_discard_key [OF inv0 _ _ this] np True show ?thesis
        by (auto simp: spec_key_def editor_abs_def)
    next
      case False
      from np step False have "(if is_terminator ?c then enter_key ?e ?c
          else if ?c = 8 then backspace_key ?e
          else if printable ?c then printable_key ?e ?c else (Continue, ?e, [])) = (f, e', out)"
        by (simp add: process_key_eq Let_def)
      then have "spec_typing (prompt_index ?e) (take (len ?e) (buffer ?e)) ?c =
          (f, editor_abs e', out)"
        using spec_typing_key [OF inv0] False by (auto split: if_splits)
      with np False show ?thesis
        by (simp add: spec_key_def editor_abs_def)
    qed
  qed
qed

lemma run_keys_refines:
  "editor_inv e \<Longrightarrow> run_keys e ks = (f, e', out) \<Longrightarrow>
     spec_run (editor_abs e) ks = (f, editor_abs e', out)"
proof (induction ks arbitrary: e f e' out)
  case Nil
  then show ?case by simp
next
  case (Cons k ks)
  obtain f1 e1 out1 where s: "process_key e k = (f1, e1, out1)" by (cases "process_key e k")
  from Cons.prems(1) s have r: "spec_key (editor_abs e) k = (f1, editor_abs e1, out1)"
    by (rule process_key_refines)
  from Cons.prems(1) s have i: "editor_inv e1" by (rule editor_inv_process_key)
  show ?case
  proof (cases f1)
    case Continue
    obtain f2 e2 out2 where t: "run_keys e1 ks = (f2, e2, out2)" by (cases "run_keys e1 ks")
    from Cons.IH [OF i t] Cons.prems(2) s r t Continue show ?thesis by simp
  next
    case PromptIndexOverflow
    with Cons.prems(2) s r show ?thesis by simp
  qed
qed

lemma editor_abs_new: "editor_abs editor_new = spec_new"
  by (simp add: editor_abs_def editor_new_def spec_new_def)

lemmas editor_run_facts = editor_inv_run_keys [OF editor_inv_new]
  run_keys_refines [OF editor_inv_new, unfolded editor_abs_new]

section \<open>Observations on the calls to the output\<close>

text \<open>
  \<open>echo\<close> replays the calls on a display line: it fails when a line is accepted that is not
  the line on display, or when something is erased from an empty line. \<open>closed\<close> and
  \<open>announced\<close> collect the prompt numbers that were closed (accepted or rejected) and opened.
\<close>

fun echo :: "bytes \<Rightarrow> editor_output list \<Rightarrow> bytes option" where
  "echo cur [] = Some cur"
| "echo cur (LiveAscii c # os) = echo (cur @ [c]) os"
| "echo cur (EraseLast # os) = (if cur = [] then None else echo (butlast cur) os)"
| "echo cur (Accepted i line # os) = (if line = cur then echo [] os else None)"
| "echo cur (Rejected i # os) = echo [] os"
| "echo cur (Prompt i # os) = echo cur os"

fun closed :: "editor_output list \<Rightarrow> nat list" where
  "closed [] = []"
| "closed (Accepted i line # os) = i # closed os"
| "closed (Rejected i # os) = i # closed os"
| "closed (_ # os) = closed os"

fun announced :: "editor_output list \<Rightarrow> nat list" where
  "announced [] = []"
| "announced (Prompt i # os) = i # announced os"
| "announced (_ # os) = announced os"

fun output_ok :: "editor_output \<Rightarrow> bool" where
  "output_ok (LiveAscii c) = printable c"
| "output_ok (Accepted i line) = (length line \<le> LINE_CAPACITY \<and> list_all printable line)"
| "output_ok _ = True"

definition display :: "line_editor \<Rightarrow> bytes" where
  "display a = (case mode a of Typing line \<Rightarrow> line | Discarding \<Rightarrow> [])"

definition next_open :: "line_editor \<Rightarrow> nat" where
  "next_open a = index a + (if mode a = Discarding then 1 else 0)"

definition spec_inv :: "line_editor \<Rightarrow> bool" where
  "spec_inv a \<longleftrightarrow> length (display a) \<le> LINE_CAPACITY \<and> list_all printable (display a)"

lemma echo_append: "echo cur (xs @ ys) = Option.bind (echo cur xs) (\<lambda>c. echo c ys)"
  by (induction cur xs rule: echo.induct) auto

lemma closed_append: "closed (xs @ ys) = closed xs @ closed ys"
  by (induction xs rule: closed.induct) auto

lemma announced_append: "announced (xs @ ys) = announced xs @ announced ys"
  by (induction xs rule: announced.induct) auto

lemma list_all_butlast: "list_all P xs \<Longrightarrow> list_all P (butlast xs)"
  by (auto simp: list_all_iff dest: in_set_butlastD)

lemma spec_key_facts:
  assumes "spec_key a k = (f, a', out)"
  shows "spec_inv a \<Longrightarrow> spec_inv a' \<and> list_all output_ok out"
    and "f = Continue \<Longrightarrow> echo (display a) out = Some (display a')"
    and "echo (display a) out \<noteq> None"
    and "closed out = [next_open a..<next_open a'] \<and> next_open a \<le> next_open a'"
    and "announced out = [index a + 1..<index a' + 1] \<and> index a \<le> index a'"
  using assms
  by (auto simp: spec_key_def spec_typing_def spec_inv_def display_def next_open_def Let_def
      list_all_butlast split: if_splits line_mode.splits)

lemma spec_run_facts:
  "spec_run a ks = (f, a', out) \<Longrightarrow>
     (spec_inv a \<longrightarrow> spec_inv a' \<and> list_all output_ok out) \<and>
     (f = Continue \<longrightarrow> echo (display a) out = Some (display a')) \<and>
     echo (display a) out \<noteq> None \<and>
     closed out = [next_open a..<next_open a'] \<and> next_open a \<le> next_open a' \<and>
     announced out = [index a + 1..<index a' + 1] \<and> index a \<le> index a'"
proof (induction ks arbitrary: a f a' out)
  case Nil
  then show ?case by simp
next
  case (Cons k ks)
  obtain f1 a1 out1 where s: "spec_key a k = (f1, a1, out1)" by (cases "spec_key a k")
  note step = spec_key_facts [OF s]
  show ?case
  proof (cases f1)
    case PromptIndexOverflow
    with Cons.prems s step show ?thesis by auto
  next
    case Continue
    obtain f2 a2 out2 where t: "spec_run a1 ks = (f2, a2, out2)" by (cases "spec_run a1 ks")
    from Continue Cons.prems s t have out: "out = out1 @ out2" and res: "f = f2" "a' = a2"
      by auto
    note ih = Cons.IH [OF t]
    have "closed out = [next_open a..<next_open a']"
      using step(4) ih out res
      by (simp add: closed_append) (metis le_Suc_ex upt_add_eq_append)
    moreover have "announced out = [index a + 1..<index a' + 1]"
      using step(5) ih out res upt_add_eq_append [of "index a + 1" "index a1 + 1"]
      by (simp add: announced_append del: upt_Suc) (metis add_Suc le_Suc_ex upt_add_eq_append le_add1 add_Suc_right Suc_le_mono)
    ultimately show ?thesis
      using step ih Continue out res by (auto simp: echo_append)
  qed
qed

lemmas editor_trace_facts = spec_run_facts [OF editor_run_facts(2)]

section \<open>Properties\<close>

text \<open>
  C29: The editor implements the abstract line editor: from the initial state, for every
  sequence of key presses, the code returns the same flow, makes the same calls on the
  output in the same order, and ends in a state whose abstraction is the abstract editor's.
\<close>

theorem editor_refines_line_editor:
  "case run_keys editor_new ks of (f, e, out) \<Rightarrow>
     spec_run spec_new ks = (f, editor_abs e, out)"
  by (auto dest: editor_run_facts)

text \<open>
  Whatever keys arrive, every accepted line has at most 512 bytes, all of them printable
  ASCII, only printable characters are echoed, and the buffer past the cursor is zero.
\<close>

theorem editor_outputs_bounded:
  "case run_keys editor_new ks of (f, e, out) \<Rightarrow>
     list_all output_ok out \<and> editor_inv e"
  using editor_trace_facts [of ks]
  by (auto simp: spec_new_def spec_inv_def display_def dest: editor_run_facts(1))

text \<open>
  What is accepted is what was echoed: replaying the calls on a display line never
  erases from an empty line, never accepts a line other than the one displayed, and while
  the counter has not overflowed the display equals the buffer up to the cursor.
\<close>

theorem editor_accepts_what_it_echoed:
  "case run_keys editor_new ks of
     (Continue, e, out) \<Rightarrow> echo [] out = Some (take (len e) (buffer e))
   | (PromptIndexOverflow, e, out) \<Rightarrow> echo [] out \<noteq> None"
proof -
  obtain f e out where r: "run_keys editor_new ks = (f, e, out)" by (cases "run_keys editor_new ks")
  have "display spec_new = []" by (simp add: display_def spec_new_def)
  moreover have "display (editor_abs e) = take (len e) (buffer e)"
    using editor_run_facts(1) [OF r] by (auto simp: display_def editor_abs_def editor_inv_def)
  ultimately show ?thesis
    using editor_trace_facts [OF r] r by (cases f) auto
qed

text \<open>
  Prompts are numbered consecutively from 1: the accepted and rejected prompts are
  1, 2, 3, \<open>\<dots>\<close> without gap or repetition, and each later prompt is announced once.
\<close>

theorem editor_numbers_prompts_consecutively:
  "case run_keys editor_new ks of (f, e, out) \<Rightarrow>
     closed out = [1..<prompt_index e + (if discard_until_enter e then 1 else 0)] \<and>
     announced out = [2..<prompt_index e + 1]"
proof -
  obtain f e out where r: "run_keys editor_new ks = (f, e, out)" by (cases "run_keys editor_new ks")
  have "next_open (editor_abs e) = prompt_index e + (if discard_until_enter e then 1 else 0)"
    by (simp add: next_open_def editor_abs_def)
  then show ?thesis
    using editor_trace_facts [OF r] r
    by (simp add: spec_new_def next_open_def editor_abs_def numeral_2_eq_2 del: upt_Suc)
qed

lemma ucast_u8_le: "(ucast (c :: u8) :: u16) \<le> 255"
proof -
  have "unat c < 256" by (rule less_le_trans [OF unsigned_less]) simp
  then have "unat (ucast c :: u16) < 256" by (simp add: unsigned_ucast_eq take_bit_nat_eq_self)
  then show ?thesis by (simp add: word_le_nat_alt)
qed

lemma current_byte_ucast [simp]: "current_byte (ucast c) = c"
  by (simp add: current_byte_def ucast_u8_le ucast_u8_u16_ucast)

lemma printable_not_control:
  "printable c \<Longrightarrow> c \<noteq> CR \<and> c \<noteq> LF \<and> c \<noteq> 8"
  by (auto simp: printable_def CR_def LF_def)

lemma spec_run_typing:
  "list_all printable xs \<Longrightarrow> length line + length xs \<le> LINE_CAPACITY \<Longrightarrow>
   spec_run \<lparr>mode = Typing line, index = i, pending = p\<rparr> (map ucast xs @ ks) =
     (case spec_run \<lparr>mode = Typing (line @ xs), index = i, pending = (if xs = [] then p else 0)\<rparr> ks of
        (f, a, out) \<Rightarrow> (f, a, map LiveAscii xs @ out))"
proof (induction xs arbitrary: line p)
  case Nil
  then show ?case by (simp split: prod.splits)
next
  case (Cons x xs)
  then show ?case
    by (auto simp: spec_key_def spec_typing_def completes_pair_def is_terminator_def Let_def
        dest: printable_not_control split: prod.splits)
qed

text \<open>
  Typing a printable line of at most 512 bytes and Enter, sent as CR LF, echoes each
  character, accepts exactly that line once, and leaves an empty editor at prompt 2.
\<close>

theorem editor_accepts_typed_line:
  assumes "list_all printable line" and "length line \<le> 512"
  shows "case run_keys editor_new (map ucast line @ [13, 10]) of (f, e, out) \<Rightarrow>
    f = Continue \<and> out = map LiveAscii line @ [Accepted 1 line, Prompt 2] \<and>
    e = editor_new\<lparr>prompt_index := 2\<rparr>"
proof -
  obtain f e out where r: "run_keys editor_new (map ucast line @ [13, 10]) = (f, e, out)"
    by (cases "run_keys editor_new (map ucast line @ [13, 10])")
  have "spec_run spec_new (map ucast line @ [13, 10]) =
      (Continue, \<lparr>mode = Typing [], index = 2, pending = 0\<rparr>,
       map LiveAscii line @ [Accepted 1 line, Prompt 2])"
    using assms
    by (simp add: spec_new_def spec_run_typing LINE_CAPACITY_def)
      (simp add: spec_key_def spec_typing_def current_byte_def completes_pair_def
        is_terminator_def CR_def LF_def u64_limit_eq)
  with editor_run_facts [OF r]
  have res: "f = Continue" "out = map LiveAscii line @ [Accepted 1 line, Prompt 2]"
    and abs: "editor_abs e = \<lparr>mode = Typing [], index = 2, pending = 0\<rparr>" and inv: "editor_inv e"
    by auto
  from abs inv have "len e = 0" "buffer e = replicate LINE_CAPACITY 0"
    "prompt_index e = 2" "\<not> discard_until_enter e" "pending_terminator e = 0"
    by (auto simp: editor_abs_def editor_inv_def LINE_CAPACITY_def split: if_splits)
  then have "e = editor_new\<lparr>prompt_index := 2\<rparr>"
    by (simp add: editor_new_def)
  with r res show ?thesis by simp
qed

theorem editor_accepts_typed_line_witness:
  "case run_keys editor_new (map ucast [0x68, 0x69 :: u8] @ [13, 10]) of (f, e, out) \<Rightarrow>
    f = Continue \<and> out = map LiveAscii [0x68, 0x69] @ [Accepted 1 [0x68, 0x69], Prompt 2] \<and>
    e = editor_new\<lparr>prompt_index := 2\<rparr>"
  by (rule editor_accepts_typed_line) (simp_all add: printable_def)

end
