(* ===== verification/PB_History.thy ===== *)
theory PB_History
  imports PB_Prelude
begin

text \<open>
  The console scrollback (\<open>src/console_history.rs\<close>): 2,048 physical rows of 256 cells used
  as a ring buffer, with the length and the hard-break flag of each row. The abstract
  scrollback is the list of logical lines, oldest first; the refinement lemmas show that
  writing appends to that list and that the viewport is a window of it.
\<close>

section \<open>State and operations\<close>

definition MAX_COLUMNS :: nat where "MAX_COLUMNS = 256"
definition HISTORY_LINES :: nat where "HISTORY_LINES = 2048"

record console_history =
  cells :: "u16 list"
  lengths :: "nat list"
  hard_breaks :: "bool list"
  width :: nat
  rows :: nat
  head :: nat
  count :: nat
  column :: nat
  view_offset :: nat

definition history_new :: console_history where
  "history_new =
     \<lparr>cells = replicate (MAX_COLUMNS * HISTORY_LINES) 0, lengths = replicate HISTORY_LINES 0,
      hard_breaks = replicate HISTORY_LINES False, width = 80, rows = 25, head = 0, count = 1,
      column = 0, view_offset = 0\<rparr>"

definition history_reset :: "console_history \<Rightarrow> console_history" where
  "history_reset h =
     h\<lparr>cells := replicate (length (cells h)) 0, lengths := replicate (length (lengths h)) 0,
       hard_breaks := replicate (length (hard_breaks h)) False, head := 0, count := 1,
       column := 0, view_offset := 0\<rparr>"

definition configure :: "console_history \<Rightarrow> nat \<Rightarrow> nat \<Rightarrow> console_history" where
  "configure h columns rs =
     history_reset (h\<lparr>width := max 1 (min columns MAX_COLUMNS), rows := max rs 1\<rparr>)"

definition return_to_bottom :: "console_history \<Rightarrow> bool \<times> console_history" where
  "return_to_bottom h = (view_offset h \<noteq> 0, h\<lparr>view_offset := 0\<rparr>)"

definition advance_line :: "console_history \<Rightarrow> console_history" where
  "advance_line h =
     (let hd' = (head h + 1) mod HISTORY_LINES in
      h\<lparr>head := hd',
        count := (if count h < HISTORY_LINES then count h + 1 else count h),
        cells := write_at (cells h) (hd' * MAX_COLUMNS) (replicate MAX_COLUMNS 0),
        lengths := (lengths h)[hd' := 0],
        hard_breaks := (hard_breaks h)[hd' := False],
        column := 0\<rparr>)"

definition write_unit :: "console_history \<Rightarrow> u16 \<Rightarrow> console_history" where
  "write_unit h u =
     (if u = 0x08 then h\<lparr>column := column h - 1\<rparr>
      else if u = 0x0d then h\<lparr>column := 0\<rparr>
      else if u = 0x0a then advance_line (h\<lparr>hard_breaks := (hard_breaks h)[head h := True]\<rparr>)
      else
        let at = head h * MAX_COLUMNS + column h;
            h1 = h\<lparr>cells := (cells h)[at := u], column := column h + 1,
                   lengths := (lengths h)[head h := max (lengths h ! head h) (column h + 1)]\<rparr>
        in if column h1 = width h1 then advance_line h1 else h1)"

definition history_write :: "console_history \<Rightarrow> u16 list \<Rightarrow> console_history" where
  "history_write h units = foldl write_unit h units"

definition page_up :: "console_history \<Rightarrow> bool \<times> console_history" where
  "page_up h =
     (let maximum = count h - rows h;
          next = min maximum (sat_add (view_offset h) (rows h))
      in (next \<noteq> view_offset h, h\<lparr>view_offset := next\<rparr>))"

definition page_down :: "console_history \<Rightarrow> bool \<times> console_history" where
  "page_down h =
     (let next = view_offset h - rows h in (next \<noteq> view_offset h, h\<lparr>view_offset := next\<rparr>))"

definition viewport_end :: "console_history \<Rightarrow> nat" where
  "viewport_end h = count h - view_offset h"

definition viewport_start :: "console_history \<Rightarrow> nat" where
  "viewport_start h = viewport_end h - rows h"

definition viewport_len :: "console_history \<Rightarrow> nat" where
  "viewport_len h = viewport_end h - viewport_start h"

definition viewport_line :: "console_history \<Rightarrow> nat \<Rightarrow> u16 list \<times> bool" where
  "viewport_line h row =
     (let logical = viewport_start h + row;
          oldest = (head h + HISTORY_LINES + 1 - count h) mod HISTORY_LINES;
          physical = (oldest + logical) mod HISTORY_LINES;
          start = physical * MAX_COLUMNS
      in (slice (cells h) start (start + lengths h ! physical), hard_breaks h ! physical))"

definition viewport_cursor :: "console_history \<Rightarrow> nat \<times> nat" where
  "viewport_cursor h =
     (if view_offset h \<noteq> 0 then
        let last = viewport_len h - 1 in
        (min (length (fst (viewport_line h last))) (width h - 1), last)
      else (column h, viewport_len h - 1))"

section \<open>The logical lines\<close>

definition physical :: "console_history \<Rightarrow> nat \<Rightarrow> nat" where
  "physical h i =
     ((head h + HISTORY_LINES + 1 - count h) mod HISTORY_LINES + i) mod HISTORY_LINES"

definition row_at :: "console_history \<Rightarrow> nat \<Rightarrow> u16 list \<times> bool" where
  "row_at h p =
     (slice (cells h) (p * MAX_COLUMNS) (p * MAX_COLUMNS + lengths h ! p), hard_breaks h ! p)"

definition logical_lines :: "console_history \<Rightarrow> (u16 list \<times> bool) list" where
  "logical_lines h = map (\<lambda>i. row_at h (physical h i)) [0..<count h]"

definition history_inv :: "console_history \<Rightarrow> bool" where
  "history_inv h \<longleftrightarrow>
     length (cells h) = MAX_COLUMNS * HISTORY_LINES \<and> length (lengths h) = HISTORY_LINES \<and>
     length (hard_breaks h) = HISTORY_LINES \<and>
     1 \<le> width h \<and> width h \<le> MAX_COLUMNS \<and> 1 \<le> rows h \<and>
     head h < HISTORY_LINES \<and> 1 \<le> count h \<and> count h \<le> HISTORY_LINES \<and>
     column h < width h \<and> column h \<le> lengths h ! head h \<and>
     list_all (\<lambda>n. n \<le> MAX_COLUMNS) (lengths h) \<and>
     view_offset h \<le> count h - rows h"

lemmas history_consts = MAX_COLUMNS_def HISTORY_LINES_def

lemma physical_eq:
  assumes "head h < HISTORY_LINES" and "1 \<le> count h" and "count h \<le> HISTORY_LINES"
    and "i < count h"
  shows "physical h i =
    (if head h + 1 + i < count h then head h + HISTORY_LINES + 1 + i - count h
     else head h + 1 + i - count h)"
proof -
  have "physical h i = (head h + HISTORY_LINES + 1 - count h + i) mod HISTORY_LINES"
    by (simp add: physical_def mod_add_left_eq)
  also have "head h + HISTORY_LINES + 1 - count h + i = head h + HISTORY_LINES + 1 + i - count h"
    using assms by simp
  finally show ?thesis
    using assms by (auto simp: le_mod_geq)
qed

lemma physical_bound: "physical h i < HISTORY_LINES"
  by (simp add: physical_def HISTORY_LINES_def)

lemma length_logical_lines [simp]: "length (logical_lines h) = count h"
  by (simp add: logical_lines_def)

lemma logical_lines_nth: "i < count h \<Longrightarrow> logical_lines h ! i = row_at h (physical h i)"
  by (simp add: logical_lines_def)

lemma history_inv_lengths: "history_inv h \<Longrightarrow> p < HISTORY_LINES \<Longrightarrow> lengths h ! p \<le> MAX_COLUMNS"
  by (simp add: history_inv_def list_all_length)

lemma row_in_range:
  assumes "history_inv h" and "p < HISTORY_LINES"
  shows "p * MAX_COLUMNS + lengths h ! p \<le> length (cells h)"
proof -
  have "lengths h ! p \<le> MAX_COLUMNS" using assms by (rule history_inv_lengths)
  then show ?thesis using assms by (simp add: history_inv_def history_consts)
qed

section \<open>The abstract scrollback\<close>

type_synonym scrollback = "(u16 list \<times> bool) list \<times> nat"

definition put_cell :: "u16 list \<Rightarrow> nat \<Rightarrow> u16 \<Rightarrow> u16 list" where
  "put_cell line col u = (if col < length line then line[col := u] else line @ [u])"

definition new_line :: "(u16 list \<times> bool) list \<Rightarrow> (u16 list \<times> bool) list" where
  "new_line ls = (if length ls < HISTORY_LINES then ls else tl ls) @ [([], False)]"

definition replace_last :: "'a list \<Rightarrow> 'a \<Rightarrow> 'a list" where
  "replace_last xs x = butlast xs @ [x]"

definition scrollback_unit :: "nat \<Rightarrow> scrollback \<Rightarrow> u16 \<Rightarrow> scrollback" where
  "scrollback_unit w s u =
     (case s of (ls, col) \<Rightarrow>
        if u = 0x08 then (ls, col - 1)
        else if u = 0x0d then (ls, 0)
        else if u = 0x0a then (new_line (replace_last ls (fst (last ls), True)), 0)
        else
          let ls' = replace_last ls (put_cell (fst (last ls)) col u, snd (last ls))
          in if col + 1 = w then (new_line ls', 0) else (ls', col + 1))"

definition scrollback_of :: "console_history \<Rightarrow> scrollback" where
  "scrollback_of h = (logical_lines h, column h)"

subsection \<open>Writing one row\<close>

lemma physical_cong:
  "head h' = head h \<Longrightarrow> count h' = count h \<Longrightarrow> physical h' i = physical h i"
  by (simp add: physical_def)

lemma physical_last:
  assumes "head h < HISTORY_LINES" and "1 \<le> count h" and "count h \<le> HISTORY_LINES"
  shows "physical h (count h - 1) = head h"
  using physical_eq [OF assms, of "count h - 1"] assms by auto

lemma physical_not_head:
  assumes "head h < HISTORY_LINES" and "1 \<le> count h" and "count h \<le> HISTORY_LINES"
    and "i < count h - 1"
  shows "physical h i \<noteq> head h"
  using physical_eq [OF assms(1-3), of i] assms by auto

lemma logical_lines_set_head:
  assumes inv: "head h < HISTORY_LINES" "1 \<le> count h" "count h \<le> HISTORY_LINES"
    and same: "head h' = head h" "count h' = count h"
    and frame: "\<And>p. p \<noteq> head h \<Longrightarrow> p < HISTORY_LINES \<Longrightarrow> row_at h' p = row_at h p"
  shows "logical_lines h' = replace_last (logical_lines h) (row_at h' (head h))"
proof (rule nth_equalityI)
  show "length (logical_lines h') = length (replace_last (logical_lines h) (row_at h' (head h)))"
    using inv same by (simp add: replace_last_def)
next
  fix i assume "i < length (logical_lines h')"
  then have i: "i < count h" using same by simp
  show "logical_lines h' ! i = replace_last (logical_lines h) (row_at h' (head h)) ! i"
  proof (cases "i = count h - 1")
    case True
    then show ?thesis
      using i inv same physical_last [OF inv] physical_cong [OF same, of i]
      by (simp add: logical_lines_nth replace_last_def nth_append)
  next
    case False
    with i have "i < count h - 1" by simp
    then show ?thesis
      using i same physical_not_head [OF inv] physical_cong [OF same, of i] frame
        physical_bound [of h i]
      by (simp add: logical_lines_nth replace_last_def nth_append nth_butlast)
  qed
qed

lemma last_logical_lines:
  assumes "history_inv h"
  shows "last (logical_lines h) = row_at h (head h)"
proof -
  have "logical_lines h \<noteq> []" using assms by (auto simp: history_inv_def logical_lines_def)
  then show ?thesis
    using assms physical_last [of h]
    by (simp add: last_conv_nth logical_lines_nth history_inv_def)
qed

subsection \<open>Advancing to a new row\<close>

lemma row_at_advance:
  assumes "history_inv h" and "p < HISTORY_LINES"
  shows "row_at (advance_line h) p =
    (if p = (head h + 1) mod HISTORY_LINES then ([], False) else row_at h p)"
proof -
  let ?n = "(head h + 1) mod HISTORY_LINES"
  have n: "?n < HISTORY_LINES" by (simp add: HISTORY_LINES_def)
  have lens: "length (cells h) = MAX_COLUMNS * HISTORY_LINES" "length (lengths h) = HISTORY_LINES"
    "length (hard_breaks h) = HISTORY_LINES" "lengths h ! p \<le> MAX_COLUMNS"
    using assms history_inv_lengths by (auto simp: history_inv_def)
  have end_row: "?n * MAX_COLUMNS + MAX_COLUMNS \<le> length (cells h)"
    using n lens by (simp add: history_consts)
  show ?thesis
  proof (cases "p = ?n")
    case True
    then show ?thesis
      using lens n by (simp add: row_at_def advance_line_def Let_def slice_def)
  next
    case False
    then have "p * MAX_COLUMNS + lengths h ! p \<le> ?n * MAX_COLUMNS \<or>
        ?n * MAX_COLUMNS + MAX_COLUMNS \<le> p * MAX_COLUMNS"
      using lens(4) unfolding MAX_COLUMNS_def by linarith
    then have "slice (write_at (cells h) (?n * MAX_COLUMNS) (replicate MAX_COLUMNS 0))
        (p * MAX_COLUMNS) (p * MAX_COLUMNS + lengths h ! p) =
      slice (cells h) (p * MAX_COLUMNS) (p * MAX_COLUMNS + lengths h ! p)"
      using end_row by (intro slice_write_at_disjoint) simp_all
    then show ?thesis
      using False by (simp add: row_at_def advance_line_def Let_def)
  qed
qed

lemma logical_lines_advance:
  assumes inv: "history_inv h"
  shows "logical_lines (advance_line h) = new_line (logical_lines h)"
proof (rule nth_equalityI)
  show "length (logical_lines (advance_line h)) = length (new_line (logical_lines h))"
    using inv by (auto simp: advance_line_def new_line_def Let_def history_inv_def)
next
  fix i assume i: "i < length (logical_lines (advance_line h))"
  let ?g = "advance_line h"
  have b: "head h < HISTORY_LINES" "1 \<le> count h" "count h \<le> HISTORY_LINES"
    using inv by (auto simp: history_inv_def)
  have hd': "head ?g = (if head h + 1 = HISTORY_LINES then 0 else head h + 1)"
    using b(1) by (auto simp: advance_line_def Let_def)
  have cnt: "count ?g = (if count h < HISTORY_LINES then count h + 1 else count h)"
    by (simp add: advance_line_def Let_def)
  have g: "head ?g < HISTORY_LINES" "1 \<le> count ?g" "count ?g \<le> HISTORY_LINES"
    using b hd' cnt by (auto simp: HISTORY_LINES_def)
  have hd_mod: "head ?g = (head h + 1) mod HISTORY_LINES"
    by (simp add: advance_line_def Let_def)
  show "logical_lines ?g ! i = new_line (logical_lines h) ! i"
  proof (cases "i = count ?g - 1")
    case True
    then show ?thesis
      using i physical_last [OF g] row_at_advance [OF inv physical_bound, of ?g i] hd_mod cnt b
      by (auto simp: logical_lines_nth new_line_def nth_append)
  next
    case False
    with i have i': "i < count ?g - 1" by simp
    have "physical ?g i = physical h (if count h < HISTORY_LINES then i else Suc i)"
      using physical_eq [OF g, of i] physical_eq [OF b, of "if count h < HISTORY_LINES then i else Suc i"]
        i' b hd' cnt by (auto split: if_splits)
    then have "row_at ?g (physical ?g i) = row_at h (physical h (if count h < HISTORY_LINES then i else Suc i))"
      using physical_not_head [OF g i'] hd_mod row_at_advance [OF inv physical_bound, of ?g i] by simp
    then show ?thesis
      using i i' cnt by (auto simp: logical_lines_nth new_line_def nth_append nth_tl)
  qed
qed

subsection \<open>One unit\<close>

definition store_cell :: "console_history \<Rightarrow> u16 \<Rightarrow> console_history" where
  "store_cell h u =
     h\<lparr>cells := (cells h)[head h * MAX_COLUMNS + column h := u], column := column h + 1,
       lengths := (lengths h)[head h := max (lengths h ! head h) (column h + 1)]\<rparr>"

lemma row_at_store_cell:
  assumes inv: "history_inv h" and p: "p < HISTORY_LINES"
  shows "row_at (store_cell h u) p =
    (if p = head h then (put_cell (fst (row_at h p)) (column h) u, hard_breaks h ! p)
     else row_at h p)"
proof -
  have lens: "length (cells h) = MAX_COLUMNS * HISTORY_LINES" "length (lengths h) = HISTORY_LINES"
    "lengths h ! p \<le> MAX_COLUMNS" "head h < HISTORY_LINES"
    and col: "column h < MAX_COLUMNS" "column h \<le> lengths h ! head h"
    using inv p history_inv_lengths by (auto simp: history_inv_def)
  show ?thesis
  proof (cases "p = head h")
    case False
    then have "head h * MAX_COLUMNS + column h < p * MAX_COLUMNS \<or>
        p * MAX_COLUMNS + lengths h ! p \<le> head h * MAX_COLUMNS + column h"
      using lens(3) col(1) unfolding MAX_COLUMNS_def by linarith
    with False show ?thesis
      by (simp add: row_at_def store_cell_def slice_update_disjoint)
  next
    case True
    let ?row = "drop (head h * MAX_COLUMNS) (cells h)"
    have room: "lengths h ! head h \<le> length ?row" "column h < length ?row"
      using lens col True by (simp_all add: history_consts)
    have "take (max (lengths h ! head h) (column h + 1)) (?row[column h := u]) =
        put_cell (take (lengths h ! head h) ?row) (column h) u"
    proof (cases "column h < lengths h ! head h")
      case True
      then have "max (lengths h ! head h) (column h + 1) = lengths h ! head h" by simp
      with True show ?thesis using room by (simp add: put_cell_def take_update_swap)
    next
      case False
      with col have "lengths h ! head h = column h" by simp
      then show ?thesis using room by (simp add: put_cell_def take_Suc_update)
    qed
    with True lens show ?thesis
      by (simp add: row_at_def store_cell_def slice_def drop_update_swap)
  qed
qed

lemma history_inv_advance:
  assumes "history_inv h"
  shows "history_inv (advance_line h)"
proof -
  have "(head h + 1) mod HISTORY_LINES < HISTORY_LINES" by (simp add: HISTORY_LINES_def)
  with assms show ?thesis
    by (auto simp: history_inv_def advance_line_def Let_def history_consts
        list_all_length nth_list_update)
qed

lemma history_inv_store_cell:
  assumes "history_inv h" and "column h + 1 \<noteq> width h"
  shows "history_inv (store_cell h u)"
  using assms by (auto simp: history_inv_def store_cell_def list_all_length nth_list_update)

lemma history_inv_store_advance:
  assumes "history_inv h"
  shows "history_inv (advance_line (store_cell h u))"
proof -
  have "(head h + 1) mod HISTORY_LINES < HISTORY_LINES" by (simp add: HISTORY_LINES_def)
  with assms show ?thesis
    by (auto simp: history_inv_def advance_line_def store_cell_def Let_def history_consts
        list_all_length nth_list_update)
qed

lemma write_unit_store:
  "u \<notin> {0x08, 0x0d, 0x0a} \<Longrightarrow> write_unit h u =
     (if column h + 1 = width h then advance_line (store_cell h u) else store_cell h u)"
  by (simp add: write_unit_def store_cell_def Let_def)

lemma history_inv_hard_break:
  "history_inv h \<Longrightarrow> history_inv (h\<lparr>hard_breaks := (hard_breaks h)[head h := True]\<rparr>)"
  by (simp add: history_inv_def)

lemma history_inv_write_unit:
  assumes inv: "history_inv h"
  shows "history_inv (write_unit h u)"
proof (cases "u \<in> {0x08, 0x0d, 0x0a}")
  case True
  then show ?thesis
    using history_inv_advance [OF history_inv_hard_break [OF inv]] inv
    by (auto simp: write_unit_def history_inv_def)
next
  case False
  then show ?thesis
    using history_inv_store_cell [OF inv] history_inv_store_advance [OF inv]
    by (simp add: write_unit_store)
qed

lemma logical_lines_store_cell:
  assumes inv: "history_inv h"
  shows "logical_lines (store_cell h u) =
    replace_last (logical_lines h)
      (put_cell (fst (last (logical_lines h))) (column h) u, snd (last (logical_lines h)))"
proof -
  have "logical_lines (store_cell h u) =
      replace_last (logical_lines h) (row_at (store_cell h u) (head h))"
    using inv row_at_store_cell [OF inv]
    by (intro logical_lines_set_head) (auto simp: history_inv_def store_cell_def)
  then show ?thesis
    using row_at_store_cell [OF inv, of "head h"] last_logical_lines [OF inv] inv
    by (simp add: history_inv_def row_at_def)
qed

lemma logical_lines_hard_break:
  assumes inv: "history_inv h"
  shows "logical_lines (h\<lparr>hard_breaks := (hard_breaks h)[head h := True]\<rparr>) =
    replace_last (logical_lines h) (fst (last (logical_lines h)), True)"
proof -
  let ?h = "h\<lparr>hard_breaks := (hard_breaks h)[head h := True]\<rparr>"
  have "logical_lines ?h = replace_last (logical_lines h) (row_at ?h (head h))"
    using inv by (intro logical_lines_set_head) (auto simp: history_inv_def row_at_def)
  then show ?thesis
    using last_logical_lines [OF inv] inv by (simp add: history_inv_def row_at_def)
qed

lemma advance_line_store_full:
  assumes inv: "history_inv h"
  shows "logical_lines (advance_line (store_cell h u)) = new_line (logical_lines (store_cell h u))"
proof -
  let ?g = "(store_cell h u)\<lparr>column := 0\<rparr>"
  have "history_inv ?g"
    using inv by (auto simp: history_inv_def store_cell_def list_all_length nth_list_update)
  moreover have "advance_line ?g = advance_line (store_cell h u)"
    by (simp add: advance_line_def Let_def)
  moreover have "logical_lines ?g = logical_lines (store_cell h u)"
    by (simp add: logical_lines_def row_at_def physical_def)
  ultimately show ?thesis using logical_lines_advance [of ?g] by simp
qed

lemma write_unit_refines:
  assumes inv: "history_inv h"
  shows "scrollback_of (write_unit h u) = scrollback_unit (width h) (scrollback_of h) u"
proof (cases "u \<in> {0x08, 0x0d, 0x0a}")
  case True
  have lines: "\<And>c. logical_lines (h\<lparr>column := c\<rparr>) = logical_lines h"
    by (simp add: logical_lines_def row_at_def physical_def)
  have adv: "column (advance_line g) = 0" for g by (simp add: advance_line_def Let_def)
  from True show ?thesis
    using logical_lines_advance [OF history_inv_hard_break [OF inv]]
      logical_lines_hard_break [OF inv] lines adv
    by (auto simp: write_unit_def scrollback_of_def scrollback_unit_def)
next
  case False
  have adv: "column (advance_line g) = 0" for g by (simp add: advance_line_def Let_def)
  from False show ?thesis
    using advance_line_store_full [OF inv] logical_lines_store_cell [OF inv] adv
    by (auto simp: write_unit_store scrollback_of_def scrollback_unit_def Let_def)
      (simp_all add: store_cell_def)
qed

lemma write_unit_frame:
  "width (write_unit h u) = width h \<and> rows (write_unit h u) = rows h \<and>
   view_offset (write_unit h u) = view_offset h"
  by (simp add: write_unit_def advance_line_def Let_def)

lemma history_write_facts:
  "history_inv h \<Longrightarrow>
     history_inv (history_write h units) \<and>
     scrollback_of (history_write h units) = foldl (scrollback_unit (width h)) (scrollback_of h) units \<and>
     width (history_write h units) = width h \<and> rows (history_write h units) = rows h \<and>
     view_offset (history_write h units) = view_offset h"
proof (induction units arbitrary: h)
  case Nil
  then show ?case by (simp add: history_write_def)
next
  case (Cons u units)
  from Cons.IH [OF history_inv_write_unit [OF Cons.prems]] show ?case
    using write_unit_refines [OF Cons.prems] write_unit_frame [of h u]
    by (simp add: history_write_def)
qed

section \<open>Reachable states\<close>

datatype history_op =
  Write "u16 list" | PageUp | PageDown | Bottom | Reset | Configure nat nat

fun history_step :: "console_history \<Rightarrow> history_op \<Rightarrow> console_history" where
  "history_step h (Write units) = history_write h units"
| "history_step h PageUp = snd (page_up h)"
| "history_step h PageDown = snd (page_down h)"
| "history_step h Bottom = snd (return_to_bottom h)"
| "history_step h Reset = history_reset h"
| "history_step h (Configure columns rs) = configure h columns rs"

definition history_run :: "history_op list \<Rightarrow> console_history" where
  "history_run ops = foldl history_step history_new ops"

lemma history_inv_new: "history_inv history_new"
  by (simp add: history_inv_def history_new_def history_consts list_all_length)

lemma history_inv_configure:
  "history_inv h \<Longrightarrow> history_inv (configure h columns rs)"
  by (auto simp: history_inv_def configure_def history_reset_def history_consts list_all_length)

lemma history_inv_reset: "history_inv h \<Longrightarrow> history_inv (history_reset h)"
  by (auto simp: history_inv_def history_reset_def history_consts list_all_length)

lemma history_inv_offset:
  "history_inv h \<Longrightarrow> n \<le> count h - rows h \<Longrightarrow> history_inv (h\<lparr>view_offset := n\<rparr>)"
  by (simp add: history_inv_def)

lemma history_inv_step: "history_inv h \<Longrightarrow> history_inv (history_step h oper)"
proof (cases oper)
  case PageDown
  moreover assume "history_inv h"
  moreover from this have "view_offset h - rows h \<le> count h - rows h"
    by (auto simp: history_inv_def)
  ultimately show ?thesis by (simp add: page_down_def Let_def history_inv_offset)
qed (auto simp: page_up_def return_to_bottom_def Let_def history_inv_offset
    history_inv_configure history_inv_reset history_write_facts)

lemma history_inv_run: "history_inv (history_run ops)"
proof -
  have "history_inv h \<Longrightarrow> history_inv (foldl history_step h ops)" for h
    by (induction ops arbitrary: h) (auto simp: history_inv_step)
  then show ?thesis using history_inv_new by (simp add: history_run_def)
qed

section \<open>What is retained\<close>

text \<open>The transcript without the 2,048 line limit, and the part of it that is retained.\<close>

definition transcript_unit :: "nat \<Rightarrow> scrollback \<Rightarrow> u16 \<Rightarrow> scrollback" where
  "transcript_unit w s u =
     (case s of (ls, col) \<Rightarrow>
        if u = 0x08 then (ls, col - 1)
        else if u = 0x0d then (ls, 0)
        else if u = 0x0a then (replace_last ls (fst (last ls), True) @ [([], False)], 0)
        else
          let ls' = replace_last ls (put_cell (fst (last ls)) col u, snd (last ls))
          in if col + 1 = w then (ls' @ [([], False)], 0) else (ls', col + 1))"

definition retained :: "'a list \<Rightarrow> 'a list" where
  "retained ls = drop (length ls - HISTORY_LINES) ls"

lemma retained_last: "ls \<noteq> [] \<Longrightarrow> last (retained ls) = last ls"
  by (simp add: retained_def HISTORY_LINES_def last_drop)

lemma retained_replace_last: "ls \<noteq> [] \<Longrightarrow> replace_last (retained ls) x = retained (replace_last ls x)"
  by (cases ls rule: rev_cases) (simp_all add: replace_last_def retained_def HISTORY_LINES_def)

lemma retained_new_line: "new_line (retained ls) = retained (ls @ [([], False)])"
proof (cases "length ls < HISTORY_LINES")
  case True
  then show ?thesis by (simp add: new_line_def retained_def)
next
  case False
  then have "length (retained ls) = HISTORY_LINES" by (simp add: retained_def)
  moreover have "tl (retained ls) = drop (length ls + 1 - HISTORY_LINES) ls"
    using False by (simp add: retained_def tl_drop drop_Suc [symmetric] Suc_diff_le)
  ultimately show ?thesis using False
    by (simp add: new_line_def) (simp add: retained_def HISTORY_LINES_def)
qed

lemma scrollback_retains:
  "ls \<noteq> [] \<Longrightarrow> scrollback_unit w (retained ls, col) u =
     map_prod retained id (transcript_unit w (ls, col) u)"
  by (auto simp: scrollback_unit_def transcript_unit_def retained_last retained_replace_last
      retained_new_line Let_def)

lemma transcript_nonempty: "ls \<noteq> [] \<Longrightarrow> fst (transcript_unit w (ls, col) u) \<noteq> []"
  by (auto simp: transcript_unit_def replace_last_def Let_def)

lemma scrollback_run_retains:
  "ls \<noteq> [] \<Longrightarrow> foldl (scrollback_unit w) (retained ls, col) units =
     map_prod retained id (foldl (transcript_unit w) (ls, col) units)"
proof (induction units arbitrary: ls col)
  case Nil
  then show ?case by simp
next
  case (Cons u units)
  obtain ls' col' where t: "transcript_unit w (ls, col) u = (ls', col')"
    by (cases "transcript_unit w (ls, col) u")
  with transcript_nonempty [OF Cons.prems, of w col u] have "ls' \<noteq> []" by simp
  with Cons.IH [of ls' col'] scrollback_retains [OF Cons.prems, of w col u] t
  show ?case by simp
qed

section \<open>The viewport\<close>

lemma viewport_line_eq: "viewport_line h row = row_at h (physical h (viewport_start h + row))"
  by (simp add: viewport_line_def physical_def row_at_def Let_def)

lemma viewport_bounds:
  "viewport_start h \<le> viewport_end h" "viewport_end h \<le> count h" "viewport_len h \<le> rows h"
  by (simp_all add: viewport_start_def viewport_end_def viewport_len_def)

lemma viewport_lines:
  "map (viewport_line h) [0..<viewport_len h] =
     slice (logical_lines h) (viewport_start h) (viewport_end h)"
  using viewport_bounds [of h]
  by (intro nth_equalityI)
    (auto simp: length_slice nth_slice viewport_len_def logical_lines_nth viewport_line_eq)

lemma page_up_offset:
  assumes "history_inv h"
  shows "snd (page_up h) = h\<lparr>view_offset := min (count h - rows h) (view_offset h + rows h)\<rparr>"
proof -
  have "count h - rows h \<le> u64_limit - 1"
    using assms by (auto simp: history_inv_def history_consts u64_limit_eq)
  then show ?thesis by (simp add: page_up_def sat_add_def Let_def min_def)
qed

fun page_ups :: "nat \<Rightarrow> console_history \<Rightarrow> console_history" where
  "page_ups 0 h = h"
| "page_ups (Suc n) h = page_ups n (snd (page_up h))"

lemma page_ups_offset:
  "history_inv h \<Longrightarrow>
     page_ups n h = h\<lparr>view_offset := min (count h - rows h) (view_offset h + n * rows h)\<rparr>"
proof (induction n arbitrary: h)
  case 0
  then have "view_offset h \<le> count h - rows h" by (simp add: history_inv_def)
  then show ?case by simp
next
  case (Suc n)
  have "history_inv (snd (page_up h))"
    using history_inv_step [OF Suc.prems, of PageUp] by simp
  from Suc.IH [OF this] show ?case
    by (auto simp: page_up_offset [OF Suc.prems])
qed

lemma page_covers:
  assumes "i < count (h :: console_history)" and "1 \<le> rows h" and "n = (count h - 1 - i) div rows h"
  shows "let g = h\<lparr>view_offset := min (count h - rows h) (n * rows h)\<rparr> in
    viewport_start g \<le> i \<and> i < viewport_end g"
proof -
  define m where "m = count h - 1 - i"
  have "n * rows h + m mod rows h = m"
    using assms(3) by (simp add: m_def)
  moreover have "m mod rows h < rows h" using assms(2) by simp
  ultimately have "n * rows h \<le> m" and "m < n * rows h + rows h" by linarith+
  with assms(1) show ?thesis
    by (auto simp: viewport_start_def viewport_end_def m_def min_def)
qed

section \<open>Properties\<close>

text \<open>
  C30: Writing to the ring buffer is writing to an unbounded transcript of which the newest
  2,048 lines are kept: after any sequence of operations and a new configuration, the logical
  lines are the last 2,048 lines of the transcript of the units written, with the cursor
  column of the transcript.
\<close>

theorem history_keeps_newest_lines:
  "let h = configure (history_run ops) columns rs;
       g = history_write h units;
       (ls, col) = foldl (transcript_unit (width h)) ([([], False)], 0) units
   in logical_lines g = retained ls \<and> column g = col \<and> view_offset g = 0"
proof -
  let ?h = "configure (history_run ops) columns rs"
  have inv: "history_inv ?h" by (intro history_inv_configure history_inv_run)
  have fresh: "scrollback_of ?h = (retained [([], False)], 0)"
    using inv
    by (simp add: scrollback_of_def configure_def history_reset_def logical_lines_def row_at_def
        retained_def slice_def history_inv_def physical_def HISTORY_LINES_def)
  show ?thesis
    using history_write_facts [OF inv, of units] fresh
      scrollback_run_retains [of "[([], False)]" "width ?h" 0 units]
    by (auto simp: scrollback_of_def Let_def split: prod.splits)
      (simp add: configure_def history_reset_def)
qed

text \<open>
  In every reachable state of the scrollback, under any sequence of writes, page
  movements, resets and configurations, the invariant holds: every cell and row index used is
  in range, the cursor is left of the width, at most 2,048 lines are held and the view offset
  never passes the oldest line.
\<close>

theorem history_invariant: "history_inv (history_run ops)"
  by (rule history_inv_run)

text \<open>
  In every reachable state the viewport is a window of the logical lines: the rows that
  \<open>viewport_line\<close> returns are those lines in order, there are at most as many as the
  screen has rows, and the cursor row is inside the window.
\<close>

theorem history_viewport_is_window:
  "let h = history_run ops in
     map (viewport_line h) [0..<viewport_len h] =
       slice (logical_lines h) (viewport_start h) (viewport_end h) \<and>
     viewport_len h \<le> rows h \<and> 0 < viewport_len h \<and>
     fst (viewport_cursor h) < width h \<and> snd (viewport_cursor h) < viewport_len h"
proof -
  let ?h = "history_run ops"
  have inv: "history_inv ?h" by (rule history_inv_run)
  then have "0 < viewport_len ?h" and "0 < width ?h" and "column ?h < width ?h"
    by (auto simp: history_inv_def viewport_len_def viewport_start_def viewport_end_def)
  then show ?thesis
    using viewport_lines [of ?h] viewport_bounds [of ?h]
    by (auto simp: viewport_cursor_def Let_def)
qed

text \<open>
  C31: Every retained line can be reached by paging up: from the bottom of any reachable
  scrollback, the line with index \<open>i\<close> is in the viewport after as many page-up keys as there
  are full screens of newer lines below it.
\<close>

theorem history_paging_reaches_line:
  assumes "i < count (history_run ops)"
  shows "let h = snd (return_to_bottom (history_run ops));
             g = page_ups ((count h - 1 - i) div rows h) h
         in viewport_start g \<le> i \<and> i < viewport_end g"
proof -
  let ?h = "snd (return_to_bottom (history_run ops))"
  have inv: "history_inv ?h"
    using history_inv_step [OF history_inv_run, of ops Bottom] by simp
  have "view_offset ?h = 0" by (simp add: return_to_bottom_def)
  then have "page_ups n ?h = ?h\<lparr>view_offset := min (count ?h - rows ?h) (n * rows ?h)\<rparr>" for n
    using page_ups_offset [OF inv, of n] by simp
  moreover have "1 \<le> rows ?h" "i < count ?h"
    using inv assms by (auto simp: history_inv_def return_to_bottom_def)
  ultimately show ?thesis
    using page_covers [of i ?h] by simp
qed

theorem history_paging_reaches_line_witness:
  "let h = snd (return_to_bottom (history_run []));
       g = page_ups ((count h - 1 - 0) div rows h) h
   in viewport_start g \<le> 0 \<and> 0 < viewport_end g"
  by (rule history_paging_reaches_line) (simp add: history_run_def history_new_def)

end
