(* ===== verification/PB_Utf8.thy ===== *)
theory PB_Utf8
  imports PB_Prelude
begin

text \<open>
  The incremental UTF-8 to UTF-16 decoder of the model REPL and the CR LF normalisation of
  console text (\<open>src/repl_contract.rs\<close>). \<open>utf8_push\<close> is \<open>Utf8Decoder::push\<close>: it prepends the
  carried bytes, scans, and commits the output and the new carry only if the whole piece is
  valid. The specification is the Unicode encoding form of a list of scalar values.
\<close>

section \<open>The decoder\<close>

datatype utf8_error = Invalid | Incomplete | Nul | Capacity

record utf8_decoder =
  carry :: bytes
  carry_len :: nat

definition utf8_new :: utf8_decoder where
  "utf8_new = \<lparr>carry = [0, 0, 0], carry_len = 0\<rparr>"

definition utf8_reset :: "utf8_decoder \<Rightarrow> utf8_decoder" where
  "utf8_reset d = d\<lparr>carry := [0, 0, 0], carry_len := 0\<rparr>"

definition utf8_finish :: "utf8_decoder \<Rightarrow> utf8_error + unit" where
  "utf8_finish d = (if carry_len d = 0 then Inr () else Inl Incomplete)"

definition needed_bytes :: "u8 \<Rightarrow> utf8_error + nat" where
  "needed_bytes first =
     (if first = 0 then Inl Nul
      else if first \<le> 0x7f then Inr 1
      else if 0xc2 \<le> first \<and> first \<le> 0xdf then Inr 2
      else if 0xe0 \<le> first \<and> first \<le> 0xef then Inr 3
      else if 0xf0 \<le> first \<and> first \<le> 0xf4 then Inr 4
      else Inl Invalid)"

definition continuation :: "u8 \<Rightarrow> bool" where
  "continuation b \<longleftrightarrow> b AND 0xc0 = 0x80"

definition bad_second :: "u8 \<Rightarrow> u8 \<Rightarrow> bool" where
  "bad_second first second \<longleftrightarrow>
     \<not> continuation second \<or> (first = 0xe0 \<and> second < 0xa0) \<or> (first = 0xed \<and> second \<ge> 0xa0) \<or>
     (first = 0xf0 \<and> second < 0x90) \<or> (first = 0xf4 \<and> second \<ge> 0x90)"

definition point2 :: "u8 \<Rightarrow> u8 \<Rightarrow> u32" where
  "point2 a b = push_bit 6 (ucast (a AND 0x1f)) OR ucast (b AND 0x3f)"

definition point3 :: "u8 \<Rightarrow> u8 \<Rightarrow> u8 \<Rightarrow> u32" where
  "point3 a b c = push_bit 12 (ucast (a AND 0x0f)) OR push_bit 6 (ucast (b AND 0x3f)) OR
     ucast (c AND 0x3f)"

definition point4 :: "u8 \<Rightarrow> u8 \<Rightarrow> u8 \<Rightarrow> u8 \<Rightarrow> u32" where
  "point4 a b c d = push_bit 18 (ucast (a AND 7)) OR push_bit 12 (ucast (b AND 0x3f)) OR
     push_bit 6 (ucast (c AND 0x3f)) OR ucast (d AND 0x3f)"

definition code_point :: "bytes \<Rightarrow> nat \<Rightarrow> utf8_error + u32" where
  "code_point bs needed =
     (let first = bs ! 0 in
      if needed = 1 then Inr (ucast first)
      else if needed = 2 then Inr (point2 first (bs ! 1))
      else if needed = 3 then
        (if (first = 0xe0 \<and> bs ! 1 < 0xa0) \<or> (first = 0xed \<and> bs ! 1 \<ge> 0xa0) then Inl Invalid
         else Inr (point3 first (bs ! 1) (bs ! 2)))
      else
        (if (first = 0xf0 \<and> bs ! 1 < 0x90) \<or> (first = 0xf4 \<and> bs ! 1 \<ge> 0x90) then Inl Invalid
         else Inr (point4 first (bs ! 1) (bs ! 2) (bs ! 3))))"

datatype scan_step = Fail utf8_error | Carry | Point u32 nat

text \<open>One pass of the scan loop on the bytes from \<open>at\<close> on (a non-empty list).\<close>

definition scan_one :: "bytes \<Rightarrow> scan_step" where
  "scan_one bs =
     (case needed_bytes (bs ! 0) of
        Inl e \<Rightarrow> Fail e
      | Inr needed \<Rightarrow>
          if needed \<ge> 2 \<and> length bs \<ge> 2 \<and> bad_second (bs ! 0) (bs ! 1) then Fail Invalid
          else if length bs < needed then
            (if list_all continuation (tl bs) then Carry else Fail Invalid)
          else if \<not> list_all continuation (take (needed - 1) (tl bs)) then Fail Invalid
          else (case code_point bs needed of
              Inl e \<Rightarrow> Fail e
            | Inr point \<Rightarrow>
                if point = 0 \<or> (0xd800 \<le> point \<and> point \<le> 0xdfff) \<or> point > 0x10ffff
                then Fail (if point = 0 then Nul else Invalid)
                else Point point needed))"

definition STAGED_UNITS :: nat where "STAGED_UNITS = 132"

definition stage_point :: "u16 list \<Rightarrow> u32 \<Rightarrow> utf8_error + u16 list" where
  "stage_point staged point =
     (if point \<le> 0xffff then
        (if length staged = STAGED_UNITS then Inl Capacity else Inr (staged @ [ucast point]))
      else if length staged + 2 > STAGED_UNITS then Inl Capacity
      else
        let value = point - 0x10000 in
        Inr (staged @ [0xd800 OR ucast (drop_bit 10 value), 0xdc00 OR ucast (value AND 0x3ff)]))"

lemma needed_bytes_pos: "needed_bytes b = Inr n \<Longrightarrow> 1 \<le> n \<and> n \<le> 4"
  by (auto simp: needed_bytes_def split: if_splits)

lemma scan_one_Point_pos: "scan_one bs = Point p n \<Longrightarrow> 1 \<le> n \<and> n \<le> length bs"
  by (auto simp: scan_one_def dest: needed_bytes_pos split: sum.splits if_splits)

function scan :: "bytes \<Rightarrow> u16 list \<Rightarrow> utf8_error + u16 list \<times> bytes" where
  "scan bs staged =
     (if bs = [] then Inr (staged, [])
      else case scan_one bs of
        Fail e \<Rightarrow> Inl e
      | Carry \<Rightarrow> Inr (staged, bs)
      | Point p n \<Rightarrow> bind_result (stage_point staged p) (\<lambda>staged'. scan (drop n bs) staged'))"
  by pat_completeness auto
termination
  by (relation "measure (\<lambda>(bs, staged). length bs)") (auto dest: scan_one_Point_pos)

declare scan.simps [simp del]

definition utf8_push ::
  "utf8_decoder \<Rightarrow> bytes \<Rightarrow> u16 list \<Rightarrow> (utf8_error + nat) \<times> utf8_decoder \<times> u16 list" where
  "utf8_push d piece output_buf =
     (if length piece > 128 then (Inl Capacity, d, output_buf)
      else case scan (take (carry_len d) (carry d) @ piece) [] of
        Inl e \<Rightarrow> (Inl e, d, output_buf)
      | Inr (staged, rest) \<Rightarrow>
          if length output_buf < length staged then (Inl Capacity, d, output_buf)
          else (Inr (length staged),
                d\<lparr>carry := write_at [0, 0, 0] 0 rest, carry_len := length rest\<rparr>,
                write_at output_buf 0 staged))"

section \<open>Unicode encoding forms\<close>

definition scalar :: "nat \<Rightarrow> bool" where
  "scalar c \<longleftrightarrow> 0 < c \<and> (c < 0xd800 \<or> (0xe000 \<le> c \<and> c < 0x110000))"

definition utf8_encode :: "nat \<Rightarrow> bytes" where
  "utf8_encode c =
     (if c < 0x80 then [of_nat c]
      else if c < 0x800 then [of_nat (0xc0 + c div 64), of_nat (0x80 + c mod 64)]
      else if c < 0x10000 then
        [of_nat (0xe0 + c div 4096), of_nat (0x80 + c div 64 mod 64), of_nat (0x80 + c mod 64)]
      else
        [of_nat (0xf0 + c div 262144), of_nat (0x80 + c div 4096 mod 64),
         of_nat (0x80 + c div 64 mod 64), of_nat (0x80 + c mod 64)])"

definition utf16_encode :: "nat \<Rightarrow> u16 list" where
  "utf16_encode c =
     (if c < 0x10000 then [of_nat c]
      else [of_nat (0xd800 + (c - 0x10000) div 1024), of_nat (0xdc00 + (c - 0x10000) mod 1024)])"

abbreviation utf8_text :: "nat list \<Rightarrow> bytes" where
  "utf8_text cs \<equiv> concat (map utf8_encode cs)"

abbreviation utf16_text :: "nat list \<Rightarrow> u16 list" where
  "utf16_text cs \<equiv> concat (map utf16_encode cs)"

section \<open>Bytes as numbers\<close>

lemma u8_less: "unat (b :: u8) < 256"
  by (rule less_le_trans [OF unsigned_less]) simp


lemma continuation_nat: "continuation b \<longleftrightarrow> 128 \<le> unat b \<and> unat b < 192"
proof -
  have "list_all (\<lambda>n. continuation (of_nat n) \<longleftrightarrow> 128 \<le> n \<and> n < 192) [0..<256]"
    by code_simp
  then have "n < 256 \<Longrightarrow> continuation (of_nat n) \<longleftrightarrow> 128 \<le> n \<and> n < 192" for n
    by (simp add: list_all_iff del: upt_rec_numeral)
  from this [OF u8_less, of b] show ?thesis by simp
qed

lemma u8_eq_numeral: "(b :: u8) = numeral n \<longleftrightarrow> unat b = unat (numeral n :: u8)"
  by (metis unsigned_word_eqI)

lemma nat_push_or: "y < 2 ^ n \<Longrightarrow> push_bit n x OR y = x * 2 ^ n + (y :: nat)"
proof -
  assume y: "y < 2 ^ n"
  have "push_bit n x AND y = 0"
  proof (rule bit_eqI)
    fix i
    show "bit (push_bit n x AND y) i = bit (0 :: nat) i"
    proof (cases "i < n")
      case True
      then show ?thesis by (simp add: bit_and_iff bit_push_bit_iff)
    next
      case False
      have "take_bit n y = y" using y by (simp add: take_bit_nat_eq_self)
      then have "\<not> bit y i" using False by (metis bit_take_bit_iff)
      then show ?thesis by (simp add: bit_and_iff)
    qed
  qed
  then show ?thesis by (simp add: disjunctive_add_eq_or [symmetric] push_bit_eq_mult)
qed

lemma nat_and_masks:
  "(x :: nat) AND 63 = x mod 64" "x AND 31 = x mod 32" "x AND 15 = x mod 16" "x AND 7 = x mod 8"
  "x AND 1023 = x mod 1024"
  using take_bit_eq_mask [of 6 x] take_bit_eq_mask [of 5 x] take_bit_eq_mask [of 4 x]
    take_bit_eq_mask [of 3 x] take_bit_eq_mask [of 10 x]
  by (simp_all add: mask_eq_exp_minus_1 take_bit_eq_mod)

lemma unat_ucast_u32: "unat (ucast (b :: u8) :: u32) = unat b"
  using u8_less [of b] by (simp add: unsigned_ucast_eq take_bit_nat_eq_self)

lemma unat_push_ucast:
  assumes "x < 64" and "n \<le> 18" and "unat (b :: u8) = x"
  shows "unat (push_bit n (ucast b :: u32)) = push_bit n x"
proof -
  have "push_bit n x \<le> 63 * 2 ^ 18"
    unfolding push_bit_eq_mult
    using assms(1,2) by (intro mult_le_mono power_increasing) simp_all
  then show ?thesis
    using assms(3) by (simp add: unsigned_push_bit_eq unat_ucast_u32 take_bit_nat_eq_self)
qed

lemma unat_and_masks:
  "unat ((b :: u8) AND 0x3f) = unat b mod 64" "unat (b AND 0x1f) = unat b mod 32"
  "unat (b AND 0x0f) = unat b mod 16" "unat (b AND 7) = unat b mod 8"
  by (simp_all add: unsigned_and_eq nat_and_masks)

lemma unat_point2: "unat (point2 a b) = unat a mod 32 * 64 + unat b mod 64"
proof -
  have "unat (point2 a b) = push_bit 6 (unat a mod 32) OR (unat b mod 64)"
    by (simp add: point2_def unsigned_or_eq unat_ucast_u32 unat_and_masks
        unat_push_ucast [where x = "unat a mod 32"] less_trans [OF mod_less_divisor [of 32]])
  also have "\<dots> = unat a mod 32 * 64 + unat b mod 64"
    using nat_push_or [of "unat b mod 64" 6 "unat a mod 32"] by simp
  finally show ?thesis .
qed

lemma unat_point3:
  "unat (point3 a b c) = unat a mod 16 * 4096 + unat b mod 64 * 64 + unat c mod 64"
proof -
  have "unat (point3 a b c) =
      push_bit 12 (unat a mod 16) OR (push_bit 6 (unat b mod 64) OR (unat c mod 64))"
    by (simp add: point3_def unsigned_or_eq unat_ucast_u32 unat_and_masks or.assoc
        unat_push_ucast [where x = "unat a mod 16"] unat_push_ucast [where x = "unat b mod 64"]
        less_trans [OF mod_less_divisor [of 16]])
  also have "push_bit 6 (unat b mod 64) OR (unat c mod 64) = unat b mod 64 * 64 + unat c mod 64"
    using nat_push_or [of "unat c mod 64" 6 "unat b mod 64"] by simp
  also have "push_bit 12 (unat a mod 16) OR \<dots> = unat a mod 16 * 4096 + \<dots>"
  proof -
    have "unat b mod 64 * 64 + unat c mod 64 < 2 ^ 12"
      using mod_less_divisor [of 64 "unat b"] mod_less_divisor [of 64 "unat c"] by simp
    from nat_push_or [OF this] show ?thesis by simp
  qed
  finally show ?thesis by simp
qed

lemma unat_point4:
  "unat (point4 a b c d) =
     unat a mod 8 * 262144 + unat b mod 64 * 4096 + unat c mod 64 * 64 + unat d mod 64"
proof -
  have "unat (point4 a b c d) =
      push_bit 18 (unat a mod 8) OR (push_bit 12 (unat b mod 64) OR
        (push_bit 6 (unat c mod 64) OR (unat d mod 64)))"
    by (simp add: point4_def unsigned_or_eq unat_ucast_u32 unat_and_masks or.assoc
        unat_push_ucast [where x = "unat a mod 8"] unat_push_ucast [where x = "unat b mod 64"]
        unat_push_ucast [where x = "unat c mod 64"] less_trans [OF mod_less_divisor [of 8]])
  also have "push_bit 6 (unat c mod 64) OR (unat d mod 64) = unat c mod 64 * 64 + unat d mod 64"
    using nat_push_or [of "unat d mod 64" 6 "unat c mod 64"] by simp
  also have "push_bit 12 (unat b mod 64) OR \<dots> = unat b mod 64 * 4096 + \<dots>"
  proof -
    have "unat c mod 64 * 64 + unat d mod 64 < 2 ^ 12"
      using mod_less_divisor [of 64 "unat c"] mod_less_divisor [of 64 "unat d"] by simp
    from nat_push_or [OF this] show ?thesis by simp
  qed
  also have "push_bit 18 (unat a mod 8) OR \<dots> = unat a mod 8 * 262144 + \<dots>"
  proof -
    have "unat b mod 64 * 4096 + (unat c mod 64 * 64 + unat d mod 64) < 2 ^ 18"
      using mod_less_divisor [of 64 "unat b"] mod_less_divisor [of 64 "unat c"]
        mod_less_divisor [of 64 "unat d"] by simp
    from nat_push_or [OF this] show ?thesis by simp
  qed
  finally show ?thesis by simp
qed

section \<open>One scan step\<close>

text \<open>The guards of the code as conditions on the numerical values of the bytes.\<close>

lemma needed_bytes_nat:
  "needed_bytes b =
     (let n = unat b in
      if n = 0 then Inl Nul else if n \<le> 127 then Inr 1
      else if 194 \<le> n \<and> n \<le> 223 then Inr 2
      else if 224 \<le> n \<and> n \<le> 239 then Inr 3
      else if 240 \<le> n \<and> n \<le> 244 then Inr 4 else Inl Invalid)"
  by (simp add: needed_bytes_def word_le_nat_alt unat_eq_0 Let_def)

lemma bad_second_nat:
  "bad_second a b \<longleftrightarrow>
     \<not> continuation b \<or> (unat a = 224 \<and> unat b < 160) \<or> (unat a = 237 \<and> unat b \<ge> 160) \<or>
     (unat a = 240 \<and> unat b < 144) \<or> (unat a = 244 \<and> unat b \<ge> 144)"
  by (simp add: bad_second_def word_le_nat_alt word_less_nat_alt u8_eq_numeral)

definition scalar_value :: "bytes \<Rightarrow> nat" where
  "scalar_value bs =
     (case bs of
        [a] \<Rightarrow> unat a
      | [a, b] \<Rightarrow> unat a mod 32 * 64 + unat b mod 64
      | [a, b, c] \<Rightarrow> unat a mod 16 * 4096 + unat b mod 64 * 64 + unat c mod 64
      | [a, b, c, d] \<Rightarrow>
          unat a mod 8 * 262144 + unat b mod 64 * 4096 + unat c mod 64 * 64 + unat d mod 64
      | _ \<Rightarrow> 0)"

lemma of_nat_unat_eq: "unat (b :: u8) = n \<Longrightarrow> of_nat n = b"
  by auto

lemma mod_window: "m * k \<le> a \<Longrightarrow> a < m * k + m \<Longrightarrow> a = m * k + a mod (m :: nat)"
proof -
  assume "m * k \<le> a" and "a < m * k + m"
  then obtain r where "a = m * k + r" and "r < m" by (metis le_Suc_ex nat_add_left_cancel_less)
  then show ?thesis by simp
qed

lemma base64_digits:
  assumes "x < 64" "y < 64" "z < (64 :: nat)"
  shows "(q * 64 + z) div 64 = q" "(q * 64 + z) mod 64 = z"
    and "(q * 4096 + y * 64 + z) div 4096 = q" "(q * 4096 + y * 64 + z) div 64 mod 64 = y"
    and "(q * 4096 + y * 64 + z) mod 64 = z"
    and "(q * 262144 + x * 4096 + y * 64 + z) div 262144 = q"
    and "(q * 262144 + x * 4096 + y * 64 + z) div 4096 mod 64 = x"
    and "(q * 262144 + x * 4096 + y * 64 + z) div 64 mod 64 = y"
    and "(q * 262144 + x * 4096 + y * 64 + z) mod 64 = z"
proof -
  have d: "(p * 64 + r) div 64 = p" "(p * 64 + r) mod 64 = r" if "r < 64" for p r :: nat
    using that by simp_all
  have n3: "q * 4096 + y * 64 + z = (q * 64 + y) * 64 + z" by simp
  have n4: "q * 262144 + x * 4096 + y * 64 + z = ((q * 64 + x) * 64 + y) * 64 + z" by simp
  have dd: "n div 4096 = n div 64 div 64" "n div 262144 = n div 64 div 64 div 64" for n :: nat
    using div_mult2_eq [of n 64 64] div_mult2_eq [of n "64 * 64" 64] by simp_all
  show "(q * 64 + z) div 64 = q" "(q * 64 + z) mod 64 = z" using d assms by blast+
  show "(q * 4096 + y * 64 + z) div 4096 = q" "(q * 4096 + y * 64 + z) div 64 mod 64 = y"
    "(q * 4096 + y * 64 + z) mod 64 = z"
    unfolding n3 dd by (simp_all only: d assms)
  show "(q * 262144 + x * 4096 + y * 64 + z) div 262144 = q"
    "(q * 262144 + x * 4096 + y * 64 + z) div 4096 mod 64 = x"
    "(q * 262144 + x * 4096 + y * 64 + z) div 64 mod 64 = y"
    "(q * 262144 + x * 4096 + y * 64 + z) mod 64 = z"
    unfolding n4 dd by (simp_all only: d assms)
qed

lemma encode2:
  assumes "194 \<le> unat a" "unat a \<le> 223" "128 \<le> unat b" "unat b < 192"
  shows "utf8_encode (unat a mod 32 * 64 + unat b mod 64) = [a, b]"
    and "scalar (unat a mod 32 * 64 + unat b mod 64)"
proof -
  let ?c = "unat a mod 32 * 64 + unat b mod 64"
  have a: "unat a = 192 + unat a mod 32" and b: "unat b = 128 + unat b mod 64"
    using mod_window [of 32 6 "unat a"] mod_window [of 64 2 "unat b"] assms by simp_all
  have "unat a mod 32 < 32" "unat b mod 64 < 64" by simp_all
  then have c: "0x80 \<le> ?c" "?c < 0x800" using assms(1) a by linarith+
  moreover have "0xc0 + ?c div 64 = unat a" "0x80 + ?c mod 64 = unat b"
    using a b base64_digits(1,2) [of 0 0 "unat b mod 64" "unat a mod 32"] by simp_all
  ultimately show "utf8_encode ?c = [a, b]"
    using of_nat_unat_eq [of a] of_nat_unat_eq [of b] by (simp add: utf8_encode_def)
  have "scalar n" if "0x80 \<le> n" "n < 0x800" for n using that by (simp add: scalar_def)
  from this [OF c] show "scalar ?c" .
qed

lemma encode3:
  assumes "224 \<le> unat a" "unat a \<le> 239" "128 \<le> unat b" "unat b < 192" "128 \<le> unat c" "unat c < 192"
    and "\<not> (unat a = 224 \<and> unat b < 160)" "\<not> (unat a = 237 \<and> unat b \<ge> 160)"
  shows "utf8_encode (unat a mod 16 * 4096 + unat b mod 64 * 64 + unat c mod 64) = [a, b, c]"
    and "scalar (unat a mod 16 * 4096 + unat b mod 64 * 64 + unat c mod 64)"
proof -
  define x y z where "x = unat a mod 16" "y = unat b mod 64" "z = unat c mod 64"
  have a: "unat a = 224 + x" and b: "unat b = 128 + y" and c: "unat c = 128 + z"
    using mod_window [of 16 14 "unat a"] mod_window [of 64 2 "unat b"]
      mod_window [of 64 2 "unat c"] assms unfolding x_y_z_def by simp_all
  have lt: "x < 16" "y < 64" "z < 64" by (simp_all add: x_y_z_def)
  let ?c = "x * 4096 + y * 64 + z"
  consider "x < 13" | "x = 13" | "14 \<le> x" by linarith
  then have "?c < 0xd800 \<or> 0xe000 \<le> ?c"
    by cases (use assms(8) a b lt in linarith)+
  then have r: "0x800 \<le> ?c" "?c < 0x10000" "?c < 0xd800 \<or> 0xe000 \<le> ?c"
    using assms(7) a b lt by linarith+
  moreover have "?c div 4096 = x" "?c div 64 mod 64 = y" "?c mod 64 = z"
    using base64_digits(3-5) [of 0 y z x] lt by simp_all
  ultimately show "utf8_encode (unat a mod 16 * 4096 + unat b mod 64 * 64 + unat c mod 64) = [a, b, c]"
    using a b c of_nat_unat_eq [of a] of_nat_unat_eq [of b] of_nat_unat_eq [of c]
    unfolding x_y_z_def [symmetric] by (simp add: utf8_encode_def)
  show "scalar (unat a mod 16 * 4096 + unat b mod 64 * 64 + unat c mod 64)"
    using r unfolding x_y_z_def [symmetric] by (auto simp: scalar_def)
qed

lemma encode4:
  assumes "240 \<le> unat a" "unat a \<le> 244" "128 \<le> unat b" "unat b < 192" "128 \<le> unat c" "unat c < 192"
    and "128 \<le> unat d" "unat d < 192"
    and "\<not> (unat a = 240 \<and> unat b < 144)" "\<not> (unat a = 244 \<and> unat b \<ge> 144)"
  shows "utf8_encode (unat a mod 8 * 262144 + unat b mod 64 * 4096 + unat c mod 64 * 64 + unat d mod 64)
      = [a, b, c, d]"
    and "scalar (unat a mod 8 * 262144 + unat b mod 64 * 4096 + unat c mod 64 * 64 + unat d mod 64)"
    and "unat a mod 8 * 262144 + unat b mod 64 * 4096 + unat c mod 64 * 64 + unat d mod 64 \<ge> 0x10000"
proof -
  define w x y z where "w = unat a mod 8" "x = unat b mod 64" "y = unat c mod 64" "z = unat d mod 64"
  have a: "unat a = 240 + w" and b: "unat b = 128 + x" and c: "unat c = 128 + y"
    and d: "unat d = 128 + z"
    using mod_window [of 8 30 "unat a"] mod_window [of 64 2 "unat b"]
      mod_window [of 64 2 "unat c"] mod_window [of 64 2 "unat d"] assms
    unfolding w_x_y_z_def by simp_all
  have lt: "w < 8" "x < 64" "y < 64" "z < 64" by (simp_all add: w_x_y_z_def)
  let ?c = "w * 262144 + x * 4096 + y * 64 + z"
  have r: "0x10000 \<le> ?c" "?c < 0x110000"
    using assms(1,2,9,10) a b lt by linarith+
  moreover have "?c div 262144 = w" "?c div 4096 mod 64 = x" "?c div 64 mod 64 = y" "?c mod 64 = z"
    using base64_digits(6-9) [of x y z w] lt by simp_all
  ultimately show
    "utf8_encode (unat a mod 8 * 262144 + unat b mod 64 * 4096 + unat c mod 64 * 64 + unat d mod 64)
      = [a, b, c, d]"
    using a b c d of_nat_unat_eq [of a] of_nat_unat_eq [of b] of_nat_unat_eq [of c]
      of_nat_unat_eq [of d]
    unfolding w_x_y_z_def [symmetric] by (simp add: utf8_encode_def)
  show "scalar (unat a mod 8 * 262144 + unat b mod 64 * 4096 + unat c mod 64 * 64 + unat d mod 64)"
    "unat a mod 8 * 262144 + unat b mod 64 * 4096 + unat c mod 64 * 64 + unat d mod 64 \<ge> 0x10000"
    using r unfolding w_x_y_z_def [symmetric] by (auto simp: scalar_def)
qed

text \<open>Well-formed byte sequences of one scalar value, as the guards accept them.\<close>

fun well_formed :: "bytes \<Rightarrow> bool" where
  "well_formed [a] = (0 < unat a \<and> unat a \<le> 127)"
| "well_formed [a, b] = (194 \<le> unat a \<and> unat a \<le> 223 \<and> \<not> bad_second a b)"
| "well_formed [a, b, c] =
     (224 \<le> unat a \<and> unat a \<le> 239 \<and> \<not> bad_second a b \<and> continuation c)"
| "well_formed [a, b, c, d] =
     (240 \<le> unat a \<and> unat a \<le> 244 \<and> \<not> bad_second a b \<and> continuation c \<and> continuation d)"
| "well_formed _ = False"

lemma well_formed_length: "well_formed w \<Longrightarrow> 1 \<le> length w \<and> length w \<le> 4"
  by (cases w rule: well_formed.cases) auto

lemma well_formed_encode:
  assumes "well_formed w"
  shows "utf8_encode (scalar_value w) = w" and "scalar (scalar_value w)"
proof -
  have "utf8_encode (scalar_value w) = w \<and> scalar (scalar_value w)"
    using assms
  proof (cases w rule: well_formed.cases)
    case (1 a)
    with assms show ?thesis by (simp add: scalar_value_def utf8_encode_def scalar_def)
  next
    case (2 a b)
    with assms show ?thesis using encode2 [of a b]
      by (simp add: scalar_value_def bad_second_nat continuation_nat)
  next
    case (3 a b c)
    with assms show ?thesis using encode3 [of a b c]
      by (simp add: scalar_value_def bad_second_nat continuation_nat)
  next
    case (4 a b c d)
    with assms show ?thesis using encode4 [of a b c d]
      by (simp add: scalar_value_def bad_second_nat continuation_nat)
  qed simp_all
  then show "utf8_encode (scalar_value w) = w" and "scalar (scalar_value w)" by simp_all
qed

lemma unat_of_nat_u8_small: "n < 256 \<Longrightarrow> unat (of_nat n :: u8) = n"
  by (simp add: unat_of_nat_u8)

lemma lead_mods:
  "x < 32 \<Longrightarrow> (192 + x) mod 32 = (x :: nat)" "x < 16 \<Longrightarrow> (224 + x) mod 16 = x"
  "x < 8 \<Longrightarrow> (240 + x) mod 8 = x" "x < 64 \<Longrightarrow> (128 + x) mod 64 = x"
  using mod_mult_self3 [of 6 32 x] mod_mult_self3 [of 14 16 x] mod_mult_self3 [of 30 8 x]
    mod_mult_self3 [of 2 64 x]
  by simp_all

lemma base64_split:
  "c = c div 4096 * 4096 + c div 64 mod 64 * 64 + c mod (64 :: nat)"
  "c = c div 262144 * 262144 + c div 4096 mod 64 * 4096 + c div 64 mod 64 * 64 + c mod 64"
proof -
  have "c = c div 64 * 64 + c mod 64" "c div 64 = c div 4096 * 64 + c div 64 mod 64"
    "c div 4096 = c div 262144 * 64 + c div 4096 mod 64"
    using div_mult_mod_eq [of "c div 64" 64] div_mult_mod_eq [of "c div 4096" 64]
      div_mult2_eq [of c 64 64] div_mult2_eq [of c 4096 64] by simp_all
  then show "c = c div 4096 * 4096 + c div 64 mod 64 * 64 + c mod 64"
    "c = c div 262144 * 262144 + c div 4096 mod 64 * 4096 + c div 64 mod 64 * 64 + c mod 64"
    by linarith+
qed

lemma encode_well_formed:
  assumes c: "scalar c"
  shows "well_formed (utf8_encode c)" and "scalar_value (utf8_encode c) = c"
proof -
  have "well_formed (utf8_encode c) \<and> scalar_value (utf8_encode c) = c"
  proof -
    consider "c < 0x80" | "0x80 \<le> c" "c < 0x800" | "0x800 \<le> c" "c < 0x10000" | "0x10000 \<le> c"
      by linarith
    then show ?thesis
    proof cases
      case 1
      with c show ?thesis
        by (simp add: utf8_encode_def scalar_value_def scalar_def unat_of_nat_u8_small)
    next
      case 2
      define x y where "x = c div 64" "y = c mod 64"
      have eq: "c = x * 64 + y" and lt: "y < 64" by (simp_all add: x_y_def)
      then have "2 \<le> x" "x < 32" using 2 by linarith+
      then show ?thesis using 2 lt eq [symmetric]
        by (simp add: utf8_encode_def scalar_value_def bad_second_nat continuation_nat
            unat_of_nat_u8_small lead_mods del: of_nat_add flip: x_y_def)
    next
      case 3
      define x y z where "x = c div 4096" "y = c div 64 mod 64" "z = c mod 64"
      have eq: "c = x * 4096 + y * 64 + z" and lt: "y < 64" "z < 64"
        using base64_split(1) [of c] by (simp_all add: x_y_z_def)
      have "x < 16" "0 < x \<or> \<not> y < 32" "x = 13 \<longrightarrow> \<not> 32 \<le> y"
        using 3 c eq lt by (auto simp: scalar_def)
      then show ?thesis using 3 lt eq [symmetric]
        by (simp add: utf8_encode_def scalar_value_def bad_second_nat continuation_nat
            unat_of_nat_u8_small lead_mods del: of_nat_add flip: x_y_z_def)
    next
      case 4
      define w x y z where "w = c div 262144" "x = c div 4096 mod 64" "y = c div 64 mod 64" "z = c mod 64"
      have eq: "c = w * 262144 + x * 4096 + y * 64 + z" and lt: "x < 64" "y < 64" "z < 64"
        using base64_split(2) [of c] by (simp_all add: w_x_y_z_def)
      have "w \<le> 4" "0 < w \<or> \<not> x < 16" "w = 4 \<longrightarrow> \<not> 16 \<le> x"
        using 4 c eq lt by (auto simp: scalar_def)
      then show ?thesis using 4 lt eq [symmetric]
        by (simp add: utf8_encode_def scalar_value_def bad_second_nat continuation_nat
            unat_of_nat_u8_small lead_mods del: of_nat_add flip: w_x_y_z_def)
    qed
  qed
  then show "well_formed (utf8_encode c)" and "scalar_value (utf8_encode c) = c" by simp_all
qed

lemma not_bad_second:
  "\<not> bad_second a b \<Longrightarrow> continuation b \<and> \<not> (a = 0xe0 \<and> b < 0xa0) \<and> \<not> (a = 0xed \<and> b \<ge> 0xa0) \<and>
     \<not> (a = 0xf0 \<and> b < 0x90) \<and> \<not> (a = 0xf4 \<and> b \<ge> 0x90)"
  by (auto simp: bad_second_def)

lemma code_point_well_formed:
  assumes "well_formed w"
  shows "\<exists>p. code_point (w @ rest) (length w) = Inr p \<and> unat p = scalar_value w"
  using assms
  by (cases w rule: well_formed.cases)
    (auto simp: code_point_def scalar_value_def unat_ucast_u32 unat_point2 unat_point3
      unat_point4 dest: not_bad_second)

lemma scan_one_well_formed:
  assumes w: "well_formed w"
  shows "scan_one (w @ rest) = Point (of_nat (scalar_value w)) (length w)"
proof -
  obtain p where p: "code_point (w @ rest) (length w) = Inr p" "unat p = scalar_value w"
    using code_point_well_formed [OF w] by blast
  then have pw: "p = of_nat (scalar_value w)" by (metis of_nat_unat ucast_id)
  have need: "needed_bytes ((w @ rest) ! 0) = Inr (length w)"
    using w by (cases w rule: well_formed.cases) (auto simp: needed_bytes_nat Let_def)
  have sec: "\<not> (length w \<ge> 2 \<and> bad_second ((w @ rest) ! 0) ((w @ rest) ! 1))"
    using w by (cases w rule: well_formed.cases) auto
  have cont: "list_all continuation (take (length w - 1) (tl (w @ rest)))"
    using w by (cases w rule: well_formed.cases) (auto dest: not_bad_second)
  have "p \<noteq> 0" "\<not> (0xd800 \<le> p \<and> p \<le> 0xdfff)" "\<not> p > 0x10ffff"
    using well_formed_encode(2) [OF w] p(2)
    by (auto simp: scalar_def word_le_nat_alt word_less_nat_alt)
  with need sec cont p(1) pw show ?thesis by (auto simp: scan_one_def)
qed

lemma scan_one_carry:
  assumes w: "well_formed (pre @ post)" and ne: "pre \<noteq> []" "post \<noteq> []"
  shows "scan_one pre = Carry"
proof -
  have need: "needed_bytes (pre ! 0) = Inr (length (pre @ post))"
  proof -
    have "needed_bytes ((pre @ post) ! 0) = Inr (length (pre @ post))"
      using w by (cases "pre @ post" rule: well_formed.cases) (auto simp: needed_bytes_nat Let_def)
    with ne show ?thesis by (simp add: nth_append)
  qed
  have cont: "list_all continuation (tl (pre @ post))"
    using w by (cases "pre @ post" rule: well_formed.cases) (auto dest: not_bad_second)
  have sec: "\<not> (2 \<le> length pre \<and> bad_second (pre ! 0) (pre ! 1))"
  proof
    assume two: "2 \<le> length pre \<and> bad_second (pre ! 0) (pre ! 1)"
    then have "bad_second ((pre @ post) ! 0) ((pre @ post) ! 1)" using ne by (simp add: nth_append)
    moreover have "3 \<le> length (pre @ post)" using two ne by (cases post) auto
    ultimately show False using w by (cases "pre @ post" rule: well_formed.cases) auto
  qed
  have "tl (pre @ post) = tl pre @ post" using ne by simp
  with need cont sec ne show ?thesis by (auto simp: scan_one_def)
qed

lemma scan_one_Point_well_formed:
  assumes "scan_one bs = Point p n"
  shows "well_formed (take n bs) \<and> n \<le> length bs"
proof -
  obtain need: "needed_bytes (bs ! 0) = Inr n" and len: "n \<le> length bs"
    and sec: "\<not> (n \<ge> 2 \<and> length bs \<ge> 2 \<and> bad_second (bs ! 0) (bs ! 1))"
    and cont: "list_all continuation (take (n - 1) (tl bs))"
    using assms by (auto simp: scan_one_def split: sum.splits if_splits)
  obtain a rest where bs: "bs = a # rest"
    using len needed_bytes_pos [OF need] by (cases bs) auto
  have "n = 1 \<or> n = 2 \<or> n = 3 \<or> n = 4" using needed_bytes_pos [OF need] by linarith
  then show ?thesis
    using need len sec cont bs
    by (cases rest; cases "tl rest"; cases "tl (tl rest)")
      (auto simp: needed_bytes_nat Let_def numeral_eq_Suc split: if_splits)
qed

section \<open>Scanning a piece\<close>

lemma unat_of_nat_u32: "n < 2 ^ 32 \<Longrightarrow> unat (of_nat n :: u32) = n"
  by (simp add: unat_of_nat)

lemma unat_of_nat_u16: "n < 2 ^ 16 \<Longrightarrow> unat (of_nat n :: u16) = n"
  by (simp add: unat_of_nat)

lemma surrogate_high:
  assumes "v < 1024"
  shows "(0xd800 :: u16) OR of_nat v = of_nat (0xd800 + v)"
    and "(0xdc00 :: u16) OR of_nat v = of_nat (0xdc00 + v)"
proof -
  have n: "(55296 :: nat) OR v = 55296 + v" "(56320 :: nat) OR v = 56320 + v"
    using nat_push_or [of v 10 54] nat_push_or [of v 10 55] assms
    by (simp_all add: push_bit_eq_mult)
  have "unat ((0xd800 :: u16) OR of_nat v) = unat (of_nat (0xd800 + v) :: u16)"
    "unat ((0xdc00 :: u16) OR of_nat v) = unat (of_nat (0xdc00 + v) :: u16)"
    using assms n
    by (simp_all add: unsigned_or_eq unat_of_nat_u16 del: of_nat_add)
  then show "(0xd800 :: u16) OR of_nat v = of_nat (0xd800 + v)"
    "(0xdc00 :: u16) OR of_nat v = of_nat (0xdc00 + v)"
    by (metis unsigned_word_eqI)+
qed

lemma stage_point_scalar:
  assumes c: "scalar c"
  shows "stage_point staged (of_nat c) =
    (if (if c < 0x10000 then length staged = STAGED_UNITS else STAGED_UNITS < length staged + 2)
     then Inl Capacity else Inr (staged @ utf16_encode c))"
proof -
  have lt: "c < 0x110000" using c by (auto simp: scalar_def)
  then have u: "unat (of_nat c :: u32) = c" by (simp add: unat_of_nat_u32)
  show ?thesis
  proof (cases "c < 0x10000")
    case True
    then have "(of_nat c :: u32) \<le> 0xffff" using u by (simp add: word_le_nat_alt)
    moreover have "(ucast (of_nat c :: u32) :: u16) = of_nat c"
      by (metis u unat_of_nat of_nat_unat)
    ultimately show ?thesis using True by (auto simp: stage_point_def utf16_encode_def)
  next
    case False
    then have big: "\<not> (of_nat c :: u32) \<le> 0xffff" using u by (simp add: word_le_nat_alt)
    let ?v = "of_nat c - 0x10000 :: u32"
    have v: "?v = of_nat (c - 0x10000)" using False by simp
    have uv: "unat ?v = c - 0x10000" using lt unfolding v by (simp add: unat_of_nat_u32)
    have "take_bit 32 (c - 0x10000) = c - 0x10000" using lt by (simp add: take_bit_nat_eq_self)
    then have hi: "unat (drop_bit 10 ?v) = (c - 0x10000) div 1024"
      by (simp only: unsigned_drop_bit_eq) (simp add: uv drop_bit_eq_div)
    have lo: "unat (?v AND 0x3ff) = (c - 0x10000) mod 1024"
      by (simp add: unsigned_and_eq uv nat_and_masks)
    have "(ucast (drop_bit 10 ?v) :: u16) = of_nat ((c - 0x10000) div 1024)"
      "(ucast (?v AND 0x3ff) :: u16) = of_nat ((c - 0x10000) mod 1024)"
      using hi lo by (metis of_nat_unat)+
    moreover have "(c - 0x10000) div 1024 < 1024" "(c - 0x10000) mod 1024 < 1024"
      using lt by (simp_all add: less_mult_imp_div_less)
    ultimately show ?thesis
      using big False surrogate_high
      by (auto simp: stage_point_def utf16_encode_def Let_def)
  qed
qed

lemma utf16_not_longer:
  "length (utf16_encode c) \<le> length (utf8_encode c)" "1 \<le> length (utf16_encode c)"
  by (simp_all add: utf16_encode_def utf8_encode_def)

lemma utf16_text_not_longer: "length (utf16_text cs) \<le> length (utf8_text cs)"
  by (induction cs) (auto simp: utf16_not_longer add_mono)

lemma scan_cons:
  assumes c: "scalar c" and room: "length staged + length (utf16_encode c) \<le> STAGED_UNITS"
  shows "scan (utf8_encode c @ rest) staged = scan rest (staged @ utf16_encode c)"
proof -
  have w: "well_formed (utf8_encode c)" "scalar_value (utf8_encode c) = c"
    using encode_well_formed [OF c] by auto
  have "stage_point staged (of_nat c) = Inr (staged @ utf16_encode c)"
    using room by (auto simp: stage_point_scalar [OF c] utf16_encode_def split: if_splits)
  then show ?thesis
    using scan_one_well_formed [OF w(1), of rest] w well_formed_length [OF w(1)]
    by (subst scan.simps) auto
qed

lemma scan_text:
  "list_all scalar cs \<Longrightarrow> length staged + length (utf16_text cs) \<le> STAGED_UNITS \<Longrightarrow>
     scan (utf8_text cs @ rest) staged = scan rest (staged @ utf16_text cs)"
proof (induction cs arbitrary: staged)
  case Nil
  then show ?case by simp
next
  case (Cons c cs)
  then show ?case
    using scan_cons [of c staged "utf8_text cs @ rest"] by simp
qed

lemma scan_sound:
  "scan bs staged = Inr (staged', rest) \<Longrightarrow>
     \<exists>cs. list_all scalar cs \<and> bs = utf8_text cs @ rest \<and> staged' = staged @ utf16_text cs \<and>
       (rest = [] \<or> scan_one rest = Carry)"
proof (induction bs staged rule: scan.induct)
  case (1 bs staged)
  show ?case
  proof (cases "bs = []")
    case True
    with "1.prems" show ?thesis by (subst (asm) scan.simps) (auto intro: exI [of _ "[]"])
  next
    case False
    show ?thesis
    proof (cases "scan_one bs")
      case (Fail e)
      with "1.prems" False show ?thesis by (subst (asm) scan.simps) simp
    next
      case Carry
      with "1.prems" False show ?thesis
        by (subst (asm) scan.simps) (auto intro: exI [of _ "[]"])
    next
      case (Point p n)
      from scan_one_Point_well_formed [OF Point]
      have w: "well_formed (take n bs)" and n: "n \<le> length bs" by auto
      let ?c = "scalar_value (take n bs)"
      have c: "scalar ?c" "utf8_encode ?c = take n bs" using well_formed_encode [OF w] by auto
      have p: "p = of_nat ?c" using scan_one_well_formed [OF w, of "drop n bs"] Point by simp
      from "1.prems" False Point obtain s where s: "stage_point staged p = Inr s"
        and rec: "scan (drop n bs) s = Inr (staged', rest)"
        by (subst (asm) scan.simps) (auto simp: result_simps)
      from s p have s': "s = staged @ utf16_encode ?c"
        by (auto simp: stage_point_scalar [OF c(1)] split: if_splits)
      from "1.IH" [OF False Point] rec obtain cs where "list_all scalar cs"
        "drop n bs = utf8_text cs @ rest" "staged' = s @ utf16_text cs"
        "rest = [] \<or> scan_one rest = Carry" by blast
      moreover from this have "bs = utf8_encode ?c @ utf8_text cs @ rest"
        using append_take_drop_id [of n bs] c(2) by simp
      ultimately show ?thesis using c(1) s'
        by (intro exI [of _ "?c # cs"]) simp
    qed
  qed
qed

lemma scan_one_Carry_length: "scan_one bs = Carry \<Longrightarrow> length bs \<le> 3"
  by (auto simp: scan_one_def dest: needed_bytes_pos split: sum.splits if_splits)

lemma scan_one_Fail: "scan_one bs = Fail e \<Longrightarrow> e \<noteq> Capacity"
proof -
  have "needed_bytes b = Inl e \<Longrightarrow> e \<noteq> Capacity" for b
    by (auto simp: needed_bytes_def split: if_splits)
  moreover have "code_point bs n = Inl e \<Longrightarrow> e \<noteq> Capacity" for n
    by (auto simp: code_point_def Let_def split: if_splits)
  ultimately show "scan_one bs = Fail e \<Longrightarrow> e \<noteq> Capacity"
    by (auto simp: scan_one_def split: sum.splits if_splits)
qed

lemma scan_not_capacity:
  "length staged + length bs \<le> STAGED_UNITS \<Longrightarrow> length staged < STAGED_UNITS \<Longrightarrow>
     scan bs staged \<noteq> Inl Capacity"
proof (induction bs staged rule: scan.induct)
  case (1 bs staged)
  show ?case
  proof (cases "bs = [] \<or> (\<forall>p n. scan_one bs \<noteq> Point p n)")
    case True
    then show ?thesis
      using scan_one_Fail [of bs] by (subst scan.simps) (auto split: scan_step.splits)
  next
    case False
    then obtain p n where Point: "scan_one bs = Point p n" and ne: "bs \<noteq> []" by blast
    from scan_one_Point_well_formed [OF Point]
    have w: "well_formed (take n bs)" and n: "n \<le> length bs" by auto
    let ?c = "scalar_value (take n bs)"
    have c: "scalar ?c" "utf8_encode ?c = take n bs" using well_formed_encode [OF w] by auto
    have p: "p = of_nat ?c" using scan_one_well_formed [OF w, of "drop n bs"] Point by simp
    have short: "length (utf16_encode ?c) \<le> n" using utf16_not_longer(1) [of ?c] c(2) n by simp
    then have s: "stage_point staged p = Inr (staged @ utf16_encode ?c)"
      using p "1.prems" n by (auto simp: stage_point_scalar [OF c(1)] utf16_encode_def split: if_splits)
    show ?thesis
    proof (cases "drop n bs = []")
      case True
      then show ?thesis using ne Point s by (subst scan.simps) (simp add: scan.simps)
    next
      case False
      then have "scan (drop n bs) (staged @ utf16_encode ?c) \<noteq> Inl Capacity"
        using "1.IH" [OF ne Point] "1.prems" short n by simp
      then show ?thesis using ne Point s by (subst scan.simps) simp
    qed
  qed
qed

section \<open>Feeding a stream of pieces\<close>

fun utf8_feed :: "utf8_decoder \<Rightarrow> bytes list \<Rightarrow> (utf8_error + u16 list) \<times> utf8_decoder" where
  "utf8_feed d [] = (Inr [], d)"
| "utf8_feed d (p # ps) =
     (case utf8_push d p (replicate STAGED_UNITS 0) of
        (Inl e, d', buf) \<Rightarrow> (Inl e, d')
      | (Inr n, d', buf) \<Rightarrow>
          (case utf8_feed d' ps of
             (Inl e, d'') \<Rightarrow> (Inl e, d'')
           | (Inr us, d'') \<Rightarrow> (Inr (take n buf @ us), d'')))"

declare utf8_feed.simps(2) [simp del]

definition carried :: "utf8_decoder \<Rightarrow> bytes" where
  "carried d = take (carry_len d) (carry d)"

definition utf8_inv :: "utf8_decoder \<Rightarrow> bool" where
  "utf8_inv d \<longleftrightarrow> length (carry d) = 3 \<and> carry_len d \<le> 3 \<and>
     (carried d = [] \<or> scan_one (carried d) = Carry)"

lemma utf8_inv_new: "utf8_inv utf8_new" "carried utf8_new = []"
  by (simp_all add: utf8_inv_def utf8_new_def carried_def)

lemma utf8_inv_carried: "utf8_inv d \<Longrightarrow> length (carried d) = carry_len d"
  by (simp add: utf8_inv_def carried_def)

lemma utf8_push_Inr:
  assumes inv: "utf8_inv d" and len: "length piece \<le> 128" and buf: "STAGED_UNITS \<le> length buf"
    and scan: "scan (carried d @ piece) [] = Inr (staged, rest)"
  shows "\<exists>d'. utf8_push d piece buf = (Inr (length staged), d', write_at buf 0 staged) \<and>
    utf8_inv d' \<and> carried d' = rest \<and> length staged \<le> length buf"
proof -
  obtain cs where cs: "carried d @ piece = utf8_text cs @ rest" "staged = utf16_text cs"
    and rest: "rest = [] \<or> scan_one rest = Carry"
    using scan_sound [OF scan] by auto
  have "length staged \<le> length (carried d @ piece)"
    using utf16_text_not_longer [of cs] cs by simp
  also have "\<dots> \<le> 131" using inv len utf8_inv_carried [OF inv] by (simp add: utf8_inv_def)
  finally have "length staged \<le> length buf" using buf by (simp add: STAGED_UNITS_def)
  moreover have "length rest \<le> 3" using rest scan_one_Carry_length by auto
  ultimately show ?thesis
    using scan len inv rest
    by (auto simp: utf8_push_def carried_def utf8_inv_def write_at_def)
qed

lemma utf8_push_Inl:
  assumes "length piece \<le> 128" and "scan (carried d @ piece) [] = Inl e"
  shows "utf8_push d piece buf = (Inl e, d, buf)"
  using assms by (simp add: utf8_push_def carried_def)

lemma utf8_feed_Cons:
  assumes inv: "utf8_inv d" and len: "length p \<le> 128"
    and scan: "scan (carried d @ p) [] = Inr (staged, rest)"
  shows "\<exists>d'. utf8_inv d' \<and> carried d' = rest \<and>
    utf8_feed d (p # ps) =
      (case utf8_feed d' ps of (Inl e, d'') \<Rightarrow> (Inl e, d'') | (Inr us, d'') \<Rightarrow> (Inr (staged @ us), d''))"
proof -
  obtain d' where "utf8_push d p (replicate STAGED_UNITS 0) =
      (Inr (length staged), d', write_at (replicate STAGED_UNITS 0) 0 staged)"
    "utf8_inv d'" "carried d' = rest" "length staged \<le> length (replicate STAGED_UNITS 0)"
    using utf8_push_Inr [OF inv len _ scan, of "replicate STAGED_UNITS 0"] by auto
  then show ?thesis
    by (intro exI [of _ d'])
      (simp add: utf8_feed.simps(2) write_at_def split: prod.split sum.split)
qed

lemma utf8_feed_sound:
  "utf8_inv d \<Longrightarrow> list_all (\<lambda>p. length p \<le> 128) ps \<Longrightarrow> utf8_feed d ps = (Inr us, d') \<Longrightarrow>
     \<exists>cs. list_all scalar cs \<and> carried d @ concat ps = utf8_text cs @ carried d' \<and>
       us = utf16_text cs \<and> utf8_inv d'"
proof (induction ps arbitrary: d us)
  case Nil
  then show ?case by (auto intro: exI [of _ "[]"])
next
  case (Cons p ps)
  then have len: "length p \<le> 128" by simp
  show ?case
  proof (cases "scan (carried d @ p) []")
    case (Inl e)
    with Cons.prems utf8_push_Inl [OF len Inl] show ?thesis by (simp add: utf8_feed.simps(2))
  next
    case (Inr r)
    obtain staged rest where r: "r = (staged, rest)" by (cases r)
    from Inr r have scan: "scan (carried d @ p) [] = Inr (staged, rest)" by simp
    from utf8_feed_Cons [OF Cons.prems(1) len scan, of ps] obtain d1 where
      d1: "utf8_inv d1" "carried d1 = rest" and feed: "utf8_feed d (p # ps) = (case utf8_feed d1 ps of
        (Inl e, d'') \<Rightarrow> (Inl e, d'') | (Inr us, d'') \<Rightarrow> (Inr (staged @ us), d''))" by blast
    from feed Cons.prems(3) obtain us1 where us1: "utf8_feed d1 ps = (Inr us1, d')" "us = staged @ us1"
      by (auto split: prod.splits sum.splits)
    note d1 = d1 us1
    from Cons.IH [OF d1(1) _ d1(3)] Cons.prems(2) obtain cs2 where cs2: "list_all scalar cs2"
      "rest @ concat ps = utf8_text cs2 @ carried d'" "us1 = utf16_text cs2" "utf8_inv d'"
      using d1(2) by auto
    from scan_sound [OF scan] obtain cs1 where "list_all scalar cs1"
      "carried d @ p = utf8_text cs1 @ rest" "staged = utf16_text cs1" by auto
    moreover from this have "carried d @ p @ concat ps = utf8_text cs1 @ rest @ concat ps"
      by (metis append_assoc)
    ultimately show ?thesis using cs2 d1(4)
      by (intro exI [of _ "cs1 @ cs2"]) simp
  qed
qed

lemma text_prefix_split:
  "xs @ ys = utf8_text cs \<Longrightarrow>
     \<exists>cs1 cs2 tail. cs = cs1 @ cs2 \<and> xs = utf8_text cs1 @ tail \<and> tail @ ys = utf8_text cs2 \<and>
       (tail = [] \<or> (\<exists>c cs3 post. cs2 = c # cs3 \<and> utf8_encode c = tail @ post \<and> post \<noteq> []))"
proof (induction cs arbitrary: xs)
  case Nil
  then show ?case by simp
next
  case (Cons c cs)
  show ?case
  proof (cases "length xs < length (utf8_encode c)")
    case True
    then have "xs @ drop (length xs) (utf8_encode c) = utf8_encode c"
      using Cons.prems by (simp add: append_eq_append_conv_if split: if_splits)
        (metis append_take_drop_id)
    with Cons.prems True show ?thesis
      by (intro exI [of _ "[]"] exI [of _ "c # cs"] exI [of _ xs]) (auto intro!: exI [of _ "drop (length xs) (utf8_encode c)"])
  next
    case False
    then obtain xs' where xs: "xs = utf8_encode c @ xs'" "xs' @ ys = utf8_text cs"
      using Cons.prems by (auto simp: append_eq_append_conv_if split: if_splits)
        (metis append_take_drop_id)
    from Cons.IH [OF xs(2)] obtain cs1 cs2 tail where "cs = cs1 @ cs2"
      "xs' = utf8_text cs1 @ tail" "tail @ ys = utf8_text cs2"
      "tail = [] \<or> (\<exists>c cs3 post. cs2 = c # cs3 \<and> utf8_encode c = tail @ post \<and> post \<noteq> [])"
      by blast
    with xs(1) show ?thesis
      by (intro exI [of _ "c # cs1"] exI [of _ cs2] exI [of _ tail]) simp
  qed
qed

lemma scan_partial:
  assumes "scalar c" and "utf8_encode c = tail @ post" and "post \<noteq> []"
  shows "scan tail staged = Inr (staged, tail)"
proof (cases "tail = []")
  case True
  then show ?thesis by (simp add: scan.simps)
next
  case False
  with assms encode_well_formed(1) [OF assms(1)] have "scan_one tail = Carry"
    by (intro scan_one_carry) auto
  with False show ?thesis by (subst scan.simps) simp
qed

lemma utf8_feed_complete:
  "utf8_inv d \<Longrightarrow> list_all (\<lambda>p. length p \<le> 128) ps \<Longrightarrow> list_all scalar cs \<Longrightarrow>
   carried d @ concat ps = utf8_text cs \<Longrightarrow>
     \<exists>d'. utf8_feed d ps = (Inr (utf16_text cs), d') \<and> utf8_inv d' \<and> carried d' = []"
proof (induction ps arbitrary: d cs)
  case Nil
  have "cs = []"
  proof (rule ccontr)
    assume "cs \<noteq> []"
    then obtain c cs' where cs: "cs = c # cs'" by (cases cs) auto
    with Nil.prems have "carried d = utf8_encode c @ utf8_text cs'" and "scalar c" by auto
    with encode_well_formed(1) [of c] have "scan_one (carried d) \<noteq> Carry" "carried d \<noteq> []"
      using scan_one_well_formed [of "utf8_encode c" "utf8_text cs'"] by auto
    with Nil.prems(1) show False by (simp add: utf8_inv_def)
  qed
  with Nil.prems show ?case by simp
next
  case (Cons p ps)
  then have len: "length p \<le> 128" by simp
  from Cons.prems(4) have "(carried d @ p) @ concat ps = utf8_text cs" by simp
  from text_prefix_split [OF this] obtain cs1 cs2 tail where split: "cs = cs1 @ cs2"
    "carried d @ p = utf8_text cs1 @ tail" "tail @ concat ps = utf8_text cs2"
    and tail: "tail = [] \<or> (\<exists>c cs3 post. cs2 = c # cs3 \<and> utf8_encode c = tail @ post \<and> post \<noteq> [])"
    by blast
  have "length (carried d @ p) \<le> 131"
    using Cons.prems(1) len utf8_inv_carried [OF Cons.prems(1)] by (simp add: utf8_inv_def)
  then have room: "length (utf16_text cs1) \<le> STAGED_UNITS"
    using utf16_text_not_longer [of cs1] split(2) by (simp add: STAGED_UNITS_def)
  have "scan tail s = Inr (s, tail)" for s
    using tail Cons.prems(3) split(1) by (auto simp: scan_partial) (simp add: scan.simps)
  then have "scan (carried d @ p) [] = Inr (utf16_text cs1, tail)"
    using scan_text [of cs1 "[]" tail] room Cons.prems(3) split by simp
  from utf8_feed_Cons [OF Cons.prems(1) len this, of ps] obtain d1 where d1: "utf8_inv d1"
    "carried d1 = tail" "utf8_feed d (p # ps) = (case utf8_feed d1 ps of
      (Inl e, d'') \<Rightarrow> (Inl e, d'') | (Inr us, d'') \<Rightarrow> (Inr (utf16_text cs1 @ us), d''))" by blast
  from Cons.IH [OF d1(1), of cs2] Cons.prems(2,3) split d1(2) obtain d' where
    "utf8_feed d1 ps = (Inr (utf16_text cs2), d')" "utf8_inv d'" "carried d' = []" by auto
  with d1(3) split(1) show ?case by simp
qed

section \<open>Console text\<close>

text \<open>
  \<open>render_console_text\<close> inserts a CR before every LF that does not follow one, across calls.
  The first loop counts the units needed, the second writes them.
\<close>

definition unit_CR :: u16 where "unit_CR = 13"
definition unit_LF :: u16 where "unit_LF = 10"

definition count_unit :: "utf8_error + nat \<times> bool \<Rightarrow> u16 \<Rightarrow> utf8_error + nat \<times> bool" where
  "count_unit acc u = bind_result acc (\<lambda>(needed, preceding_cr).
     (if u = unit_LF \<and> \<not> preceding_cr
      then bind_result (ok_or (checked_add needed 1) Capacity) (\<lambda>n. Inr (n, u = unit_CR))
      else Inr (needed, u = unit_CR)))"

definition render_unit :: "u16 list \<times> bool \<Rightarrow> u16 \<Rightarrow> u16 list \<times> bool" where
  "render_unit acc u = (case acc of (written, preceding_cr) \<Rightarrow>
     (written @ (if u = unit_LF \<and> \<not> preceding_cr then [unit_CR, u] else [u]), u = unit_CR))"

definition render_console_text ::
  "u16 list \<Rightarrow> bool \<Rightarrow> u16 list \<Rightarrow> (utf8_error + nat) \<times> bool \<times> u16 list" where
  "render_console_text input previous_was_cr output_buf =
     (case foldl count_unit (Inr (length input, previous_was_cr)) input of
        Inl e \<Rightarrow> (Inl e, previous_was_cr, output_buf)
      | Inr (needed, _) \<Rightarrow>
          if length output_buf < needed then (Inl Capacity, previous_was_cr, output_buf)
          else (case foldl render_unit ([], previous_was_cr) input of (written, cr) \<Rightarrow>
            (Inr (length written), cr, write_at output_buf 0 written)))"

fun crlf_text :: "bool \<Rightarrow> u16 list \<Rightarrow> u16 list" where
  "crlf_text cr [] = []"
| "crlf_text cr (u # us) =
     (if u = unit_LF \<and> \<not> cr then [unit_CR, u] else [u]) @ crlf_text (u = unit_CR) us"

definition ends_cr :: "bool \<Rightarrow> u16 list \<Rightarrow> bool" where
  "ends_cr cr us = (if us = [] then cr else last us = unit_CR)"

fun lf_after_cr :: "bool \<Rightarrow> u16 list \<Rightarrow> bool" where
  "lf_after_cr cr [] = True"
| "lf_after_cr cr (u # us) = ((u = unit_LF \<longrightarrow> cr) \<and> lf_after_cr (u = unit_CR) us)"

lemma unit_CR_LF [simp]: "unit_CR \<noteq> unit_LF" "unit_LF \<noteq> unit_CR"
  by (simp_all add: unit_CR_def unit_LF_def)

lemma render_units:
  "foldl render_unit (w, cr) us = (w @ crlf_text cr us, ends_cr cr us)"
  by (induction us arbitrary: w cr) (auto simp: render_unit_def ends_cr_def)

lemma length_crlf_text: "length us \<le> length (crlf_text cr us)"
proof (induction us arbitrary: cr)
  case (Cons u us)
  from Cons.IH [of False] Cons.IH [of "u = unit_CR"] show ?case by auto
qed simp

lemma count_unit_Inr:
  "u = unit_LF \<Longrightarrow> \<not> cr \<Longrightarrow> Suc n < u64_limit \<Longrightarrow> count_unit (Inr (n, cr)) u = Inr (Suc n, False)"
  "\<not> (u = unit_LF \<and> \<not> cr) \<Longrightarrow> count_unit (Inr (n, cr)) u = Inr (n, u = unit_CR)"
  by (auto simp: count_unit_def checked_add_def)

lemma count_units:
  "n + (length (crlf_text cr us) - length us) < u64_limit \<Longrightarrow>
   foldl count_unit (Inr (n, cr)) us =
     Inr (n + (length (crlf_text cr us) - length us), ends_cr cr us)"
proof (induction us arbitrary: n cr)
  case Nil
  then show ?case by (simp add: ends_cr_def)
next
  case (Cons u us)
  have le: "length us \<le> length (crlf_text (u = unit_CR) us)" by (rule length_crlf_text)
  show ?case
  proof (cases "u = unit_LF \<and> \<not> cr")
    case True
    then have less: "Suc n + (length (crlf_text False us) - length us) < u64_limit"
      using Cons.prems le by (simp add: Suc_diff_le)
    then have "Suc n < u64_limit" by simp
    then have "count_unit (Inr (n, cr)) u = Inr (Suc n, False)"
      using True by (simp add: count_unit_Inr(1))
    then show ?thesis
      using Cons.IH [OF less] True le by (auto simp: ends_cr_def Suc_diff_le)
  next
    case False
    then have step: "count_unit (Inr (n, cr)) u = Inr (n, u = unit_CR)"
      and crlf: "crlf_text cr (u # us) = u # crlf_text (u = unit_CR) us"
      by (auto simp: count_unit_Inr(2))
    have "n + (length (crlf_text (u = unit_CR) us) - length us) < u64_limit"
      using Cons.prems unfolding crlf by simp
    from Cons.IH [OF this] show ?thesis
      unfolding crlf by (auto simp: step ends_cr_def)
  qed
qed

lemma crlf_text_append:
  "crlf_text cr (xs @ ys) = crlf_text cr xs @ crlf_text (ends_cr cr xs) ys"
  by (induction xs arbitrary: cr) (auto simp: ends_cr_def)

lemma crlf_text_lf_after_cr: "lf_after_cr cr (crlf_text cr us)"
  by (induction us arbitrary: cr) auto

lemma crlf_text_idem: "lf_after_cr cr us \<Longrightarrow> crlf_text cr us = us"
  by (induction us arbitrary: cr) auto

section \<open>History tokens and commands\<close>

definition CONTEXT_TOKENS :: nat where "CONTEXT_TOKENS = 32768"
definition IM_END :: nat where "IM_END = 151645"

definition is_event_toggle_command :: "bytes \<Rightarrow> bool" where
  "is_event_toggle_command line \<longleftrightarrow> line = [0x2f, 0x65, 0x76, 0x65, 0x6e, 0x74, 0x73]"

definition is_help_command :: "bytes \<Rightarrow> bool" where
  "is_help_command line \<longleftrightarrow> line = [0x2f, 0x68, 0x65, 0x6c, 0x70]"

definition is_new_command :: "bytes \<Rightarrow> bool" where
  "is_new_command line \<longleftrightarrow> line = [0x2f, 0x6e, 0x65, 0x77]"

definition is_status_command :: "bytes \<Rightarrow> bool" where
  "is_status_command line \<longleftrightarrow> line = [0x2f, 0x73, 0x74, 0x61, 0x74, 0x75, 0x73]"

record selected_token_failure =
  generated :: nat
  partial :: bool

definition selected_token_failure :: "nat \<Rightarrow> nat \<Rightarrow> selected_token_failure" where
  "selected_token_failure completed_tokens visible_tokens =
     \<lparr>generated = sat_add32 completed_tokens 1, partial = (visible_tokens \<noteq> 0)\<rparr>"

definition commit_eos :: "nat list \<Rightarrow> nat list \<Rightarrow> nat \<Rightarrow> (unit + nat) \<times> nat list" where
  "commit_eos committed working working_len =
     (if working_len = 0 \<or> working_len > CONTEXT_TOKENS \<or> working ! (working_len - 1) \<noteq> IM_END
      then (Inl (), committed)
      else (Inr working_len,
            write_at (replicate (length committed) 0) 0 (take working_len working)))"

section \<open>Properties\<close>

text \<open>
  C32: Round trip under any splitting: the UTF-8 encoding of any list of scalar values other
  than NUL, cut into pieces of at most 128 bytes at arbitrary places (inside a character too),
  decodes to the UTF-16 encoding of the same list, and the decoder then reports a complete
  text.
\<close>

theorem utf8_decodes_encoded_text:
  assumes "list_all scalar cs" and "list_all (\<lambda>p. length p \<le> 128) ps"
    and "concat ps = utf8_text cs"
  shows "case utf8_feed utf8_new ps of (res, d) \<Rightarrow>
    res = Inr (utf16_text cs) \<and> utf8_finish d = Inr ()"
proof -
  obtain d where "utf8_feed utf8_new ps = (Inr (utf16_text cs), d)" "utf8_inv d" "carried d = []"
    using utf8_feed_complete [OF utf8_inv_new(1) assms(2,1)] assms(3) utf8_inv_new(2) by auto
  moreover from this have "carry_len d = 0" using utf8_inv_carried [of d] by simp
  ultimately show ?thesis by (simp add: utf8_finish_def)
qed

theorem utf8_decodes_encoded_text_witness:
  "case utf8_feed utf8_new [[0x68, 0xe2, 0x82], [0xac, 0xf0, 0x9f], [0x98, 0x80]] of (res, d) \<Rightarrow>
    res = Inr (utf16_text [0x68, 0x20ac, 0x1f600]) \<and> utf8_finish d = Inr ()"
  by (rule utf8_decodes_encoded_text) (simp_all add: scalar_def utf8_encode_def)

text \<open>
  C33: Soundness: whenever a stream of pieces is accepted, its bytes are the UTF-8 encoding of
  some scalar values followed by the bytes still carried, and the units produced are the
  UTF-16 encoding of exactly these values: no overlong form, surrogate, NUL or value above
  U+10FFFF is accepted, and nothing is dropped or invented.
\<close>

theorem utf8_accepts_only_encoded_text:
  "list_all (\<lambda>p. length p \<le> 128) ps \<Longrightarrow>
   case utf8_feed utf8_new ps of
     (Inl e, d) \<Rightarrow> True
   | (Inr us, d) \<Rightarrow> (\<exists>cs. list_all scalar cs \<and> concat ps = utf8_text cs @ carried d \<and>
        us = utf16_text cs)"
  using utf8_feed_sound [OF utf8_inv_new(1)] utf8_inv_new(2)
  by (fastforce split: prod.splits sum.splits)

theorem utf8_accepts_only_encoded_text_witness:
  "case utf8_feed utf8_new [[0xc3], [0xa9, 0xe2]] of
     (Inl e, d) \<Rightarrow> True
   | (Inr us, d) \<Rightarrow> (\<exists>cs. list_all scalar cs \<and> concat [[0xc3], [0xa9, 0xe2]] = utf8_text cs @ carried d \<and>
        us = utf16_text cs)"
  by (rule utf8_accepts_only_encoded_text) simp

text \<open>
  A push is transactional: with a piece of at most 128 bytes and room for 132 units it
  either fails without changing the decoder or the output buffer, and then never for lack of
  room in the staging array, or it keeps the decoder invariant and writes only the first
  \<open>n\<close> units.
\<close>

theorem utf8_push_transactional:
  assumes "utf8_inv d" and "length piece \<le> 128" and "STAGED_UNITS \<le> length buf"
  shows "case utf8_push d piece buf of
      (Inl e, d', buf') \<Rightarrow> d' = d \<and> buf' = buf \<and> e \<noteq> Capacity
    | (Inr n, d', buf') \<Rightarrow> utf8_inv d' \<and> n \<le> length buf \<and> drop n buf' = drop n buf \<and>
        length buf' = length buf"
proof (cases "scan (carried d @ piece) []")
  case (Inl e)
  have "length (carried d @ piece) \<le> STAGED_UNITS"
    using assms(1,2) utf8_inv_carried [OF assms(1)] by (simp add: utf8_inv_def STAGED_UNITS_def)
  then have "e \<noteq> Capacity"
    using scan_not_capacity [of "[]" "carried d @ piece"] Inl by (auto simp: STAGED_UNITS_def)
  then show ?thesis using utf8_push_Inl [OF assms(2) Inl] by simp
next
  case (Inr r)
  obtain staged rest where "r = (staged, rest)" by (cases r)
  with utf8_push_Inr [OF assms, of staged rest] Inr show ?thesis
    by (auto simp: write_at_def)
qed

theorem utf8_push_transactional_witness:
  "case utf8_push utf8_new [0xff] (replicate 132 7) of
      (Inl e, d', buf') \<Rightarrow> d' = utf8_new \<and> buf' = replicate 132 7 \<and> e \<noteq> Capacity
    | (Inr n, d', buf') \<Rightarrow> utf8_inv d' \<and> n \<le> length (replicate 132 (7 :: u16)) \<and>
        drop n buf' = drop n (replicate 132 7) \<and> length buf' = length (replicate 132 (7 :: u16))"
  by (rule utf8_push_transactional) (simp_all add: utf8_inv_new STAGED_UNITS_def)

text \<open>
  Console text: with a large enough buffer, rendering writes the text with a CR before
  every LF that had none, reports exactly the units written, and rendering a text in two
  calls gives the same units as rendering it in one.
\<close>

theorem render_console_text_inserts_cr:
  assumes "length (crlf_text cr (xs @ ys)) \<le> length buf" and "length buf < u64_limit"
  shows "case render_console_text xs cr buf of (res, cr', buf') \<Rightarrow>
    res = Inr (length (crlf_text cr xs)) \<and> take (length (crlf_text cr xs)) buf' = crlf_text cr xs \<and>
    lf_after_cr cr (crlf_text cr xs) \<and>
    (case render_console_text ys cr' buf of (res2, cr'', buf'') \<Rightarrow>
       res2 = Inr (length (crlf_text cr' ys)) \<and>
       crlf_text cr (xs @ ys) =
         take (length (crlf_text cr xs)) buf' @ take (length (crlf_text cr' ys)) buf'')"
proof -
  have one: "render_console_text us c buf =
      (Inr (length (crlf_text c us)), ends_cr c us, write_at buf 0 (crlf_text c us))"
    if "length (crlf_text c us) \<le> length buf" for us c
    using that assms(2) count_units [of "length us" c us] length_crlf_text [of us c]
    by (simp add: render_console_text_def render_units)
  have "length (crlf_text cr xs) \<le> length buf" "length (crlf_text (ends_cr cr xs) ys) \<le> length buf"
    using assms(1) by (simp_all add: crlf_text_append)
  with one [of cr xs] one [of "ends_cr cr xs" ys] show ?thesis
    by (simp add: crlf_text_append crlf_text_lf_after_cr write_at_def)
qed

theorem render_console_text_inserts_cr_witness:
  "case render_console_text [65, 10] False (replicate 8 0) of (res, cr', buf') \<Rightarrow>
    res = Inr (length (crlf_text False [65, 10])) \<and>
    take (length (crlf_text False [65, 10])) buf' = crlf_text False [65, 10] \<and>
    lf_after_cr False (crlf_text False [65, 10]) \<and>
    (case render_console_text [10, 66] cr' (replicate 8 0) of (res2, cr'', buf'') \<Rightarrow>
       res2 = Inr (length (crlf_text cr' [10, 66])) \<and>
       crlf_text False ([65, 10] @ [10, 66]) =
         take (length (crlf_text False [65, 10])) buf' @ take (length (crlf_text cr' [10, 66])) buf'')"
  by (rule render_console_text_inserts_cr) (simp_all add: unit_CR_def unit_LF_def u64_limit_eq)

end
