(* ===== verification/PB_Sink.thy ===== *)
theory PB_Sink
  imports PB_Prelude
begin

text \<open>
  Text output shared by the event records of \<open>src/model_contract.rs\<close> and the status line of
  \<open>src/status_bar.rs\<close>: byte-string literals, the two loops of \<open>push_decimal\<close> over the digit
  array, and the interface \<open>byte_sink\<close> of a place that bytes are pushed to. The locale proves
  once what the number-printing loops and a sequence of pushes append; the record and the
  status line interpret it with their own overflow behaviour.
\<close>

section \<open>Byte-string literals\<close>

definition ascii :: "string \<Rightarrow> bytes" where
  "ascii s = map of_char s"

lemma ascii_simps [simp]:
  "ascii [] = []"
  "ascii (c # cs) = of_char c # ascii cs"
  by (simp_all add: ascii_def)

lemma length_ascii [simp]: "length (ascii s) = length s"
  by (simp add: ascii_def)

section \<open>Decimal numbers\<close>

text \<open>
  The first loop of \<open>push_decimal\<close> stores the digits in an array of 20 bytes, lowest first;
  the second pushes them one at a time from the highest.
\<close>

definition digit_byte :: "nat \<Rightarrow> u8" where
  "digit_byte v = 48 + of_nat (v mod 10)"

function fill_digits :: "nat \<Rightarrow> bytes \<times> nat \<Rightarrow> bytes \<times> nat" where
  "fill_digits v (digits, used) =
     (if v = 0 then (digits, used)
      else fill_digits (v div 10) (digits[used := digit_byte v], used + 1))"
  by pat_completeness auto
termination by (relation "measure fst") auto

declare fill_digits.simps [simp del]

primrec emit_digits :: "('s \<Rightarrow> bytes \<Rightarrow> 's) \<Rightarrow> bytes \<Rightarrow> nat \<Rightarrow> 's \<Rightarrow> 's" where
  "emit_digits put digits 0 s = s"
| "emit_digits put digits (Suc used) s = emit_digits put digits used (put s [digits ! used])"

text \<open>The text the loops are to produce, and the number a text denotes.\<close>

fun low_digits :: "nat \<Rightarrow> bytes" where
  "low_digits v = (if v = 0 then [] else digit_byte v # low_digits (v div 10))"

declare low_digits.simps [simp del]

definition decimal_text :: "nat \<Rightarrow> bytes" where
  "decimal_text v = (if v = 0 then [48] else rev (low_digits v))"

definition decimal_value :: "bytes \<Rightarrow> nat" where
  "decimal_value bs = foldl (\<lambda>n b. n * 10 + (unat b - 48)) 0 bs"

lemma low_digits_0 [simp]: "low_digits 0 = []"
  by (simp add: low_digits.simps)

lemma low_digits_step: "v \<noteq> 0 \<Longrightarrow> low_digits v = digit_byte v # low_digits (v div 10)"
  by (subst low_digits.simps) simp

lemma unat_digit_byte: "unat (digit_byte v) = 48 + v mod 10"
proof -
  have less: "v mod 10 < 10" by simp
  then have "unat (of_nat (v mod 10) :: u8) = v mod 10"
    by (simp add: unat_of_nat_u8)
  moreover have "unat (48 :: u8) = 48" by simp
  ultimately show ?thesis
    unfolding digit_byte_def using less by (subst unat_word_ariths(1)) simp
qed

lemma decimal_value_append:
  "decimal_value (bs @ [b]) = decimal_value bs * 10 + (unat b - 48)"
  by (simp add: decimal_value_def)

lemma decimal_value_low_digits: "decimal_value (rev (low_digits v)) = v"
proof (induction v rule: low_digits.induct)
  case (1 v)
  show ?case
  proof (cases "v = 0")
    case True
    then show ?thesis by (simp add: decimal_value_def)
  next
    case False
    with 1 show ?thesis
      by (simp add: low_digits_step decimal_value_append unat_digit_byte)
  qed
qed

lemma decimal_value_text: "decimal_value (decimal_text v) = v"
  by (simp add: decimal_text_def decimal_value_low_digits)
     (simp add: decimal_value_def)

lemma low_digits_length_le: "v < 10 ^ n \<Longrightarrow> length (low_digits v) \<le> n"
proof (induction n arbitrary: v)
  case 0
  then show ?case by simp
next
  case (Suc n)
  show ?case
  proof (cases "v = 0")
    case False
    have "v div 10 < 10 ^ n" using Suc.prems by (simp add: less_mult_imp_div_less)
    with Suc.IH False show ?thesis by (simp add: low_digits_step)
  qed simp
qed

lemma low_digits_u64: "length (low_digits (unat (v :: u64))) \<le> 20"
proof (rule low_digits_length_le)
  have "unat v < 2 ^ 64" by (rule less_le_trans [OF unsigned_less]) simp
  then show "unat v < 10 ^ 20" by simp
qed

lemma decimal_text_length: "length (decimal_text (unat (v :: u64))) \<le> 20"
  using low_digits_u64 [of v] by (simp add: decimal_text_def)

lemma decimal_text_nonempty: "decimal_text v \<noteq> []"
  by (auto simp: decimal_text_def low_digits_step)

lemma fill_digits_gen:
  "used + length (low_digits v) \<le> length digits \<Longrightarrow>
   fill_digits v (digits, used) =
     (write_at digits used (low_digits v), used + length (low_digits v))"
proof (induction v arbitrary: digits used rule: low_digits.induct)
  case (1 v)
  show ?case
  proof (cases "v = 0")
    case True
    then show ?thesis by (simp add: fill_digits.simps)
  next
    case False
    have room: "Suc used + length (low_digits (v div 10)) \<le> length digits"
      using 1 (2) False by (simp add: low_digits_step)
    have "write_at (digits[used := digit_byte v]) (Suc used) (low_digits (v div 10)) =
        write_at digits used (low_digits v)"
      using room False
      by (simp add: write_at_def low_digits_step take_Suc_update drop_update_cancel)
    moreover have "fill_digits v (digits, used) =
        fill_digits (v div 10) (digits[used := digit_byte v], Suc used)"
      using False by (subst fill_digits.simps) simp
    ultimately show ?thesis
      using "1.IH" [OF False, of "Suc used" "digits[used := digit_byte v]"] room False
      by (simp add: low_digits_step)
  qed
qed

lemma fill_digits_u64:
  fixes v :: u64
  shows "fill_digits (unat v) (replicate 20 0, 0) =
     (low_digits (unat v) @ replicate (20 - length (low_digits (unat v))) 0,
      length (low_digits (unat v)))"
  using low_digits_u64 [of v] by (simp add: fill_digits_gen write_at_def)

section \<open>The interface of a byte sink\<close>

text \<open>
  \<open>put\<close> is the push operation, \<open>view\<close> what a reader of the sink sees, and \<open>absorb\<close> the effect
  of a push on that view. The only law between pushes is that pushing two strings one after
  the other has the effect of pushing their concatenation: a sink may truncate or fail on
  overflow, but not depending on how the text was cut into pushes.
\<close>

locale byte_sink =
  fixes valid :: "'s \<Rightarrow> bool"
    and put :: "'s \<Rightarrow> bytes \<Rightarrow> 's"
    and view :: "'s \<Rightarrow> 'v"
    and absorb :: "'v \<Rightarrow> bytes \<Rightarrow> 'v"
  assumes put_valid: "valid s \<Longrightarrow> valid (put s bs)"
    and view_put: "valid s \<Longrightarrow> view (put s bs) = absorb (view s) bs"
    and absorb_append: "absorb (absorb v as) bs = absorb v (as @ bs)"
    and absorb_Nil: "valid s \<Longrightarrow> absorb (view s) [] = view s"
begin

lemma put_all_valid: "valid s \<Longrightarrow> valid (foldl put s fs)"
  by (induction fs arbitrary: s) (auto simp: put_valid)

lemma view_put_all: "valid s \<Longrightarrow> view (foldl put s fs) = absorb (view s) (concat fs)"
proof (induction fs arbitrary: s)
  case Nil
  then show ?case by (simp add: absorb_Nil)
next
  case (Cons f fs)
  then show ?case by (simp add: put_valid view_put absorb_append)
qed

lemma emit_digits_valid: "valid s \<Longrightarrow> valid (emit_digits put digits n s)"
  by (induction n arbitrary: s) (auto simp: put_valid)

lemma view_emit_digits:
  "valid s \<Longrightarrow> n \<le> length digits \<Longrightarrow>
   view (emit_digits put digits n s) = absorb (view s) (rev (take n digits))"
proof (induction n arbitrary: s)
  case 0
  then show ?case by (simp add: absorb_Nil)
next
  case (Suc n)
  then show ?case
    by (simp add: put_valid view_put absorb_append take_Suc_conv_app_nth)
qed

lemma view_emit_decimal:
  fixes v :: u64
  assumes "valid s" and "fill_digits (unat v) (replicate 20 0, 0) = (digits, used)"
  shows "view (emit_digits put digits used s) = absorb (view s) (rev (low_digits (unat v)))"
  using assms by (auto simp: fill_digits_u64 view_emit_digits)
end

end
