(* ===== verification/PB_Contract.thy ===== *)
theory PB_Contract
  imports PB_Sink
begin

text \<open>
  The pure contracts of \<open>src/model_contract.rs\<close>: the event record with its sticky overflow,
  the acquisition and cleanup masks, the mode and timer classification, the frequency derived
  from three calibration samples, the decisions about a file read, and the error tuple that
  every storage, read, guard, allocation, inference and cleanup failure is reported with.
  A resource mask is a \<open>u32\<close>, an EFI status a \<open>u64\<close>, a size or an offset a \<open>nat\<close> below
  \<open>2 ^ 64\<close>; the texts of an error tuple are HOL strings.
\<close>

section \<open>Error tuples\<close>

definition EFI_SUCCESS :: u64 where "EFI_SUCCESS = 0"
definition EFI_DEVICE_ERROR :: u64 where "EFI_DEVICE_ERROR = 0x8000000000000007"
definition EFI_OUT_OF_RESOURCES :: u64 where "EFI_OUT_OF_RESOURCES = 0x8000000000000009"
definition EFI_NOT_FOUND :: u64 where "EFI_NOT_FOUND = 0x800000000000000e"
definition ALL_CLEANUP :: u32 where "ALL_CLEANUP = 0x3ff"

record error_tuple =
  et_code :: string
  et_phase :: string
  et_efi :: "u64 option"
  et_model :: "u64 list option"
  et_inference :: "u64 list option"
  et_region :: "string option"
  et_attempted :: u32
  et_ok :: u32

definition error_tuple ::
  "string \<Rightarrow> string \<Rightarrow> u64 option \<Rightarrow> u64 list option \<Rightarrow> u64 list option \<Rightarrow> string option \<Rightarrow>
   u32 \<Rightarrow> u32 \<Rightarrow> error_tuple" where
  "error_tuple code phase efi model inference region attempted ok =
     \<lparr>et_code = code, et_phase = phase, et_efi = efi, et_model = model,
      et_inference = inference, et_region = region, et_attempted = attempted, et_ok = ok\<rparr>"

section \<open>Resource masks\<close>

definition FILE_BIT :: u32 where "FILE_BIT = push_bit 0 1"
definition ROOT_BIT :: u32 where "ROOT_BIT = push_bit 1 1"
definition SIMPLE_FS_BIT :: u32 where "SIMPLE_FS_BIT = push_bit 2 1"
definition LOADED_IMAGE_BIT :: u32 where "LOADED_IMAGE_BIT = push_bit 3 1"

definition region_cleanup_bit :: "nat \<Rightarrow> u32" where
  "region_cleanup_bit index = push_bit (9 - index) 1"

definition acquired_mask :: "bool \<Rightarrow> bool \<Rightarrow> bool \<Rightarrow> bool \<Rightarrow> bool list \<Rightarrow> u32" where
  "acquired_mask file root simple_fs loaded_image regions =
    (let mask = 0;
         mask = (if file then mask OR FILE_BIT else mask);
         mask = (if root then mask OR ROOT_BIT else mask);
         mask = (if simple_fs then mask OR SIMPLE_FS_BIT else mask);
         mask = (if loaded_image then mask OR LOADED_IMAGE_BIT else mask)
     in fold (\<lambda>index mask. if regions ! index then mask OR region_cleanup_bit index else mask)
          [0..<length regions] mask)"

definition primary_survives_cleanup :: "'a option \<Rightarrow> 'a option \<Rightarrow> 'a option" where
  "primary_survives_cleanup primary cleanup =
     (case primary of Some v \<Rightarrow> Some v | None \<Rightarrow> cleanup)"

record cleanup_masks =
  cp_attempted :: u32
  cp_ok :: u32

definition cleanup_plan :: "u32 \<Rightarrow> u32 \<Rightarrow> u32 \<Rightarrow> cleanup_masks" where
  "cleanup_plan acquired callable failed =
     \<lparr>cp_attempted = acquired, cp_ok = acquired AND callable AND NOT failed\<rparr>"

function next_bit_from :: "nat \<Rightarrow> u32 \<Rightarrow> nat option" where
  "next_bit_from b pending =
     (if b < 10
      then if pending AND push_bit b 1 \<noteq> 0 then Some b else next_bit_from (b + 1) pending
      else None)"
  by pat_completeness auto
termination by (relation "measure (\<lambda>(b, _). 10 - b)") auto

declare next_bit_from.simps [simp del]

definition next_cleanup_bit :: "u32 \<Rightarrow> nat option" where
  "next_cleanup_bit pending = next_bit_from 0 pending"

section \<open>Event records\<close>

definition RECORD_CAPACITY :: nat where "RECORD_CAPACITY = 511"

definition MODEL_RECORD_FATAL :: bytes where
  "MODEL_RECORD_FATAL =
     ascii (''PROMPTBOOT_EVENT v=1 event=FATAL code=MODEL_RECORD phase=record efi_status=none '' @
            ''model_error=none inference_error=none region=none cleanup_attempted=00000000 '' @
            ''cleanup_ok=00000000'') @ [13, 10]"

record model_record =
  rec_data :: bytes
  rec_length :: nat
  rec_overflow :: bool

definition record_new :: model_record where
  "record_new = \<lparr>rec_data = replicate RECORD_CAPACITY 0, rec_length = 0, rec_overflow = False\<rparr>"

definition record_push :: "model_record \<Rightarrow> bytes \<Rightarrow> model_record" where
  "record_push r bs =
     (if rec_overflow r \<or> length bs > length (rec_data r) - rec_length r
      then r\<lparr>rec_overflow := True\<rparr>
      else r\<lparr>rec_data := write_at (rec_data r) (rec_length r) bs,
             rec_length := rec_length r + length bs\<rparr>)"

definition record_push_decimal :: "model_record \<Rightarrow> u64 \<Rightarrow> model_record" where
  "record_push_decimal r v =
     (if v = 0 then record_push r [48]
      else case fill_digits (unat v) (replicate 20 0, 0) of
             (digits, used) \<Rightarrow> emit_digits record_push digits used r)"

definition record_as_bytes :: "model_record \<Rightarrow> bytes" where
  "record_as_bytes r =
     (if rec_overflow r then MODEL_RECORD_FATAL else take (rec_length r) (rec_data r))"

definition record_emission :: "model_record \<Rightarrow> error_tuple + bytes" where
  "record_emission r =
     (if rec_overflow r
      then Inl (error_tuple ''MODEL_RECORD'' ''record'' None None None None 0 0)
      else Inr (record_as_bytes r))"

section \<open>Modes, timers and calibration\<close>

datatype mode = LoadOnly | FirstToken | Identity | Repl

definition mode_parse :: "string \<Rightarrow> mode option" where
  "mode_parse v =
     (if v = ''model_load_only'' then Some LoadOnly
      else if v = ''model_first_token'' then Some FirstToken
      else if v = ''model_identity_self_test'' then Some Identity
      else if v = ''model_repl'' then Some Repl
      else None)"

datatype timer_class = TimedInvariant | UntimedNonInvariant

definition timer_class :: "mode \<Rightarrow> bool \<Rightarrow> bool \<Rightarrow> unit + timer_class" where
  "timer_class m rdtscp invariant =
     (if \<not> rdtscp then Inl ()
      else if invariant then Inr TimedInvariant
      else case m of LoadOnly \<Rightarrow> Inr UntimedNonInvariant | Repl \<Rightarrow> Inr UntimedNonInvariant
           | _ \<Rightarrow> Inl ())"

definition derive_frequency :: "nat list \<Rightarrow> u32 list \<Rightarrow> unit + nat" where
  "derive_frequency deltas aux =
     (if list_ex (\<lambda>v. v = 0) deltas \<or> aux ! 0 \<noteq> aux ! 1 \<or> aux ! 0 \<noteq> aux ! 2 then Inl ()
      else case checked_mul (sort deltas ! 1) 10 of
             None \<Rightarrow> Inl ()
           | Some hz \<Rightarrow> if 1000000000 \<le> hz \<and> hz \<le> 10000000000 then Inr hz else Inl ())"

section \<open>File reads\<close>

datatype read_decision = Advance nat | Complete | Truncated | Oversized | Read

definition read_decision :: "nat \<Rightarrow> nat \<Rightarrow> u64 \<Rightarrow> bool \<Rightarrow> read_decision" where
  "read_decision requested returned status eof =
     (if status \<noteq> EFI_SUCCESS \<or> returned > requested then Read
      else if eof then (if returned = 0 then Complete else Oversized)
      else if returned = 0 then Truncated
      else Advance returned)"

definition checked_read_offset :: "nat \<Rightarrow> nat \<Rightarrow> nat \<Rightarrow> unit + nat" where
  "checked_read_offset off returned whole =
     (case checked_add off returned of
        None \<Rightarrow> Inl ()
      | Some n \<Rightarrow> if n > whole then Inl () else Inr n)"

definition read_failure :: "read_decision \<Rightarrow> u64 \<Rightarrow> error_tuple option" where
  "read_failure decision status =
     (let failure = (\<lambda>code. Some (error_tuple code ''read''
            (if status = EFI_SUCCESS then None else Some status)
            None None None ALL_CLEANUP ALL_CLEANUP))
      in case decision of
           Truncated \<Rightarrow> failure ''MODEL_TRUNCATED''
         | Oversized \<Rightarrow> failure ''MODEL_OVERSIZED''
         | Read \<Rightarrow> failure ''MODEL_READ''
         | _ \<Rightarrow> None)"

record read_progress =
  rp_offset :: nat
  rp_total :: nat

definition progress_new :: "nat \<Rightarrow> read_progress" where
  "progress_new whole = \<lparr>rp_offset = 0, rp_total = whole\<rparr>"

definition progress_apply ::
  "read_progress \<Rightarrow> nat \<Rightarrow> nat \<Rightarrow> u64 \<Rightarrow> bool \<Rightarrow> read_decision \<times> read_progress" where
  "progress_apply p requested returned status eof =
     (case read_decision requested returned status eof of
        Advance count \<Rightarrow>
          (case checked_read_offset (rp_offset p) count (rp_total p) of
             Inr n \<Rightarrow> (Advance count, p\<lparr>rp_offset := n\<rparr>)
           | Inl _ \<Rightarrow> (Read, p))
      | decision \<Rightarrow> (decision, p))"

section \<open>Guards\<close>

datatype guard_failure = WeightsTail | IndexTail | LogitsTail | PromptSlack | PromptTail

definition first_guard_failure :: "bool list \<Rightarrow> guard_failure option" where
  "first_guard_failure valid =
     (if \<not> valid ! 0 then Some WeightsTail
      else if \<not> valid ! 1 then Some IndexTail
      else if \<not> valid ! 2 then Some LogitsTail
      else if \<not> valid ! 3 then Some PromptSlack
      else if \<not> valid ! 4 then Some PromptTail
      else None)"

definition guard_failure :: "guard_failure \<Rightarrow> error_tuple" where
  "guard_failure f =
     (let region = (case f of WeightsTail \<Rightarrow> ''weights'' | IndexTail \<Rightarrow> ''index''
                      | LogitsTail \<Rightarrow> ''logits'' | PromptSlack \<Rightarrow> ''prompt''
                      | PromptTail \<Rightarrow> ''prompt'')
      in error_tuple ''MODEL_GUARD'' ''guard'' None None None (Some region)
           ALL_CLEANUP ALL_CLEANUP)"

definition timer_failure :: "u64 option \<Rightarrow> error_tuple" where
  "timer_failure status = error_tuple ''MODEL_TIMER'' ''timer'' status None None None 0 0"

section \<open>Storage failures and the transitions of the storage protocol\<close>

datatype storage_failure =
    LoadedStatus | LoadedAbi | SimpleStatus | SimpleAbi | OpenVolumeStatus | RootNull
  | RootAbi bool | FileOpen bool | FileNull | FileAbi bool

definition storage_failure :: "storage_failure \<Rightarrow> u64 option \<Rightarrow> error_tuple" where
  "storage_failure kind status =
     (let (code, phase, acquired, callable) =
       (case kind of
          LoadedStatus \<Rightarrow> (''MODEL_LOADED_IMAGE'', ''loaded_image'', 0, 0)
        | LoadedAbi \<Rightarrow> (''MODEL_LOADED_IMAGE'', ''loaded_image'', 0x008, 0x008)
        | SimpleStatus \<Rightarrow> (''MODEL_SIMPLE_FS'', ''simple_fs'', 0x008, 0x008)
        | SimpleAbi \<Rightarrow> (''MODEL_SIMPLE_FS'', ''simple_fs'', 0x00c, 0x00c)
        | OpenVolumeStatus \<Rightarrow> (''MODEL_OPEN_VOLUME'', ''open_volume'', 0x00c, 0x00c)
        | RootNull \<Rightarrow> (''MODEL_OPEN_VOLUME'', ''open_volume'', 0x00c, 0x00c)
        | RootAbi close_callable \<Rightarrow>
            (''MODEL_FILE_ABI'', ''root_abi'', 0x00e, if close_callable then 0x00e else 0x00c)
        | FileOpen missing \<Rightarrow>
            (if missing then (''MODEL_MISSING'', ''open'', 0x00e, 0x00e)
             else (''MODEL_OPEN'', ''open'', 0x00e, 0x00e))
        | FileNull \<Rightarrow> (''MODEL_OPEN'', ''open'', 0x00e, 0x00e)
        | FileAbi close_callable \<Rightarrow>
            (''MODEL_FILE_ABI'', ''file_abi'', 0x00f, if close_callable then 0x00f else 0x00e))
      in error_tuple code phase status None None None acquired callable)"

definition loaded_transition :: "u64 \<Rightarrow> bool \<Rightarrow> u32 \<Rightarrow> bool \<Rightarrow> error_tuple option" where
  "loaded_transition status interface revision device =
     (if status \<noteq> EFI_SUCCESS then Some (storage_failure LoadedStatus (Some status))
      else if \<not> interface \<or> revision < 0x1000 \<or> \<not> device
      then Some (storage_failure LoadedAbi None)
      else None)"

definition simple_transition :: "u64 \<Rightarrow> bool \<Rightarrow> u64 \<Rightarrow> bool \<Rightarrow> error_tuple option" where
  "simple_transition status interface revision open_volume =
     (if status \<noteq> EFI_SUCCESS then Some (storage_failure SimpleStatus (Some status))
      else if \<not> interface \<or> revision < 0x10000 \<or> \<not> open_volume
      then Some (storage_failure SimpleAbi None)
      else None)"

definition volume_transition :: "u64 \<Rightarrow> bool \<Rightarrow> error_tuple option" where
  "volume_transition status root =
     (if status \<noteq> EFI_SUCCESS then Some (storage_failure OpenVolumeStatus (Some status))
      else if \<not> root then Some (storage_failure RootNull None)
      else None)"

definition file_abi_transition ::
  "bool \<Rightarrow> u64 \<Rightarrow> bool \<Rightarrow> bool \<Rightarrow> bool \<Rightarrow> error_tuple option" where
  "file_abi_transition root revision can_open can_close can_read =
     (if revision \<ge> 0x10000 \<and> can_open \<and> can_close \<and> can_read then None
      else if root then Some (storage_failure (RootAbi can_close) None)
      else Some (storage_failure (FileAbi can_close) None))"

definition file_open_transition :: "u64 \<Rightarrow> bool \<Rightarrow> error_tuple option" where
  "file_open_transition status interface =
     (if status \<noteq> EFI_SUCCESS
      then Some (storage_failure (FileOpen (status = EFI_NOT_FOUND)) (Some status))
      else if \<not> interface then Some (storage_failure FileNull None)
      else None)"

section \<open>Model, engine, allocation and cleanup failures\<close>

datatype contract_failure_kind =
  ModelChecksum | ModelIdentity | ModelIndex | Engine | Prefill | Top8

definition classified_failure :: "contract_failure_kind \<Rightarrow> u64 list \<Rightarrow> error_tuple" where
  "classified_failure kind values =
     (case kind of
        ModelChecksum \<Rightarrow> error_tuple ''MODEL_CHECKSUM'' ''verify'' None (Some (take 7 values))
          None None ALL_CLEANUP ALL_CLEANUP
      | ModelIdentity \<Rightarrow> error_tuple ''MODEL_IDENTITY'' ''verify'' None (Some (take 7 values))
          None None ALL_CLEANUP ALL_CLEANUP
      | ModelIndex \<Rightarrow> error_tuple ''MODEL_INDEX'' ''index'' None (Some (take 7 values))
          None None ALL_CLEANUP ALL_CLEANUP
      | Engine \<Rightarrow> error_tuple ''MODEL_ENGINE'' ''init'' None None (Some values)
          None ALL_CLEANUP ALL_CLEANUP
      | Prefill \<Rightarrow> error_tuple ''MODEL_PREFILL'' ''prefill'' None None (Some values)
          None ALL_CLEANUP ALL_CLEANUP
      | Top8 \<Rightarrow> error_tuple ''MODEL_TOP8'' ''top8'' None None (Some values)
          None ALL_CLEANUP ALL_CLEANUP)"

definition allocation_prior :: "u32 list" where
  "allocation_prior = [0x00f, 0x20f, 0x30f, 0x38f, 0x3cf, 0x3ef]"

definition region_names :: "string list" where
  "region_names = [''weights'', ''index'', ''kv'', ''scratch'', ''logits'', ''prompt'']"

definition allocation_status_failure :: "nat \<Rightarrow> u64 \<Rightarrow> error_tuple" where
  "allocation_status_failure index status =
     error_tuple ''MODEL_OOM'' ''allocate'' (Some status) None None
       (Some (region_names ! index)) (allocation_prior ! index) (allocation_prior ! index)"

definition allocation_failure :: "nat \<Rightarrow> error_tuple" where
  "allocation_failure index = allocation_status_failure index EFI_OUT_OF_RESOURCES"

definition cleanup_failure :: "nat \<Rightarrow> error_tuple option \<Rightarrow> error_tuple" where
  "cleanup_failure b primary =
     (let ok = ALL_CLEANUP AND NOT (push_bit b 1)
      in case primary of
           Some v \<Rightarrow> v\<lparr>et_attempted := ALL_CLEANUP, et_ok := ok\<rparr>
         | None \<Rightarrow>
             (let region = (if b = 4 then Some ''prompt'' else if b = 5 then Some ''logits''
                else if b = 6 then Some ''scratch'' else if b = 7 then Some ''kv''
                else if b = 8 then Some ''index'' else if b = 9 then Some ''weights'' else None)
              in error_tuple ''MODEL_CLEANUP'' ''cleanup'' (Some EFI_DEVICE_ERROR) None None
                   region ALL_CLEANUP ok))"

section \<open>Records as byte sinks\<close>

definition record_wf :: "model_record \<Rightarrow> bool" where
  "record_wf r \<longleftrightarrow> length (rec_data r) = RECORD_CAPACITY \<and> rec_length r \<le> RECORD_CAPACITY"

text \<open>What a reader sees: the text pushed so far, or nothing once a push did not fit.\<close>

definition record_view :: "model_record \<Rightarrow> bytes option" where
  "record_view r = (if rec_overflow r then None else Some (take (rec_length r) (rec_data r)))"

definition record_absorb :: "bytes option \<Rightarrow> bytes \<Rightarrow> bytes option" where
  "record_absorb v bs =
     (case v of None \<Rightarrow> None
      | Some xs \<Rightarrow> if length (xs @ bs) \<le> RECORD_CAPACITY then Some (xs @ bs) else None)"

lemma record_new_wf: "record_wf record_new"
  by (simp add: record_wf_def record_new_def)

lemma record_push_wf: "record_wf r \<Longrightarrow> record_wf (record_push r bs)"
  by (auto simp: record_wf_def record_push_def)

lemma record_push_view:
  "record_wf r \<Longrightarrow> record_view (record_push r bs) = record_absorb (record_view r) bs"
  by (auto simp: record_wf_def record_push_def record_view_def record_absorb_def take_write_at)

interpretation event_record: byte_sink record_wf record_push record_view record_absorb
proof unfold_locales
  show "record_absorb (record_absorb v as) bs = record_absorb v (as @ bs)" for v as bs
    by (auto simp: record_absorb_def split: option.splits)
  show "record_absorb (record_view r) [] = record_view r" if "record_wf r" for r
    using that by (auto simp: record_absorb_def record_view_def record_wf_def)
qed (simp_all add: record_push_wf record_push_view)

lemma record_push_decimal_wf: "record_wf r \<Longrightarrow> record_wf (record_push_decimal r v)"
  by (auto simp: record_push_decimal_def record_push_wf event_record.emit_digits_valid
      split: prod.split)

lemma record_push_decimal_view:
  assumes "record_wf r"
  shows "record_view (record_push_decimal r v) =
     record_absorb (record_view r) (decimal_text (unat v))"
proof (cases "v = 0")
  case True
  then show ?thesis
    using assms by (simp add: record_push_decimal_def record_push_view decimal_text_def)
next
  case False
  then have "unat v \<noteq> 0" by (simp add: unat_eq_0)
  then have "decimal_text (unat v) = rev (low_digits (unat v))"
    by (simp add: decimal_text_def)
  with False assms show ?thesis
    by (auto simp: record_push_decimal_def event_record.view_emit_decimal split: prod.split)
qed

text \<open>The fields an event record is built from, and the text they stand for.\<close>

datatype field = Text bytes | Decimal u64

fun push_field :: "model_record \<Rightarrow> field \<Rightarrow> model_record" where
  "push_field r (Text bs) = record_push r bs"
| "push_field r (Decimal v) = record_push_decimal r v"

fun field_text :: "field \<Rightarrow> bytes" where
  "field_text (Text bs) = bs"
| "field_text (Decimal v) = decimal_text (unat v)"

lemma push_fields_view:
  "record_wf r \<Longrightarrow>
   record_wf (foldl push_field r fs) \<and>
   record_view (foldl push_field r fs) =
     record_absorb (record_view r) (concat (map field_text fs))"
proof (induction fs arbitrary: r)
  case Nil
  then show ?case by (simp add: event_record.absorb_Nil)
next
  case (Cons f fs)
  have "record_wf (push_field r f)"
    using Cons.prems by (cases f) (simp_all add: record_push_wf record_push_decimal_wf)
  moreover have "record_view (push_field r f) = record_absorb (record_view r) (field_text f)"
    using Cons.prems by (cases f) (simp_all add: record_push_view record_push_decimal_view)
  ultimately show ?case
    by (simp add: Cons.IH event_record.absorb_append)
qed

lemma record_view_new: "record_view record_new = Some []"
  by (simp add: record_view_def record_new_def)

lemma record_emission_view:
  "record_emission r =
     (case record_view r of
        None \<Rightarrow> Inl (error_tuple ''MODEL_RECORD'' ''record'' None None None None 0 0)
      | Some xs \<Rightarrow> Inr xs)"
  by (simp add: record_emission_def record_view_def record_as_bytes_def)

section \<open>Cleanup order and masks\<close>

lemma next_bit_from_step:
  "next_bit_from b p =
     (if b < 10 then if bit p b then Some b else next_bit_from (Suc b) p else None)"
  by (subst next_bit_from.simps) (simp only: bit_iff_and_push_bit_not_eq_0 Suc_eq_plus1)

lemma next_bit_from_Some:
  "next_bit_from b p = Some k \<longleftrightarrow>
     b \<le> k \<and> k < 10 \<and> bit p k \<and> (\<forall>c. b \<le> c \<and> c < k \<longrightarrow> \<not> bit p c)"
proof (induction "10 - b" arbitrary: b)
  case 0
  then show ?case by (subst next_bit_from_step) auto
next
  case (Suc n)
  then have IH: "next_bit_from (Suc b) p = Some k \<longleftrightarrow>
      Suc b \<le> k \<and> k < 10 \<and> bit p k \<and> (\<forall>c. Suc b \<le> c \<and> c < k \<longrightarrow> \<not> bit p c)"
    by (metis Suc_diff_Suc Suc_inject zero_less_Suc zero_less_diff)
  show ?case
  proof (cases "bit p b")
    case True
    then show ?thesis using Suc.hyps(2) by (subst next_bit_from_step) (auto simp: not_less [symmetric])
  next
    case False
    then have "(\<forall>c. b \<le> c \<and> c < k \<longrightarrow> \<not> bit p c) \<longleftrightarrow> (\<forall>c. Suc b \<le> c \<and> c < k \<longrightarrow> \<not> bit p c)"
      by (metis Suc_leD Suc_leI le_neq_implies_less)
    moreover have "b = k \<Longrightarrow> \<not> bit p k" using False by simp
    ultimately show ?thesis
      using Suc.hyps(2) False IH by (subst next_bit_from_step) (auto simp: Suc_le_eq nat_less_le)
  qed
qed

lemma next_cleanup_bit_Some:
  "next_cleanup_bit p = Some k \<longleftrightarrow> k < 10 \<and> bit p k \<and> (\<forall>c<k. \<not> bit p c)"
  by (simp add: next_cleanup_bit_def next_bit_from_Some)

lemma next_cleanup_bit_None: "next_cleanup_bit p = None \<longleftrightarrow> (\<forall>c<10. \<not> bit p c)"
proof
  assume none: "next_cleanup_bit p = None"
  show "\<forall>c<10. \<not> bit p c"
  proof (rule ccontr)
    assume "\<not> (\<forall>c<10. \<not> bit p c)"
    then have ex: "\<exists>c. c < 10 \<and> bit p c" by blast
    define k where "k = (LEAST c. c < 10 \<and> bit p c)"
    have "k < 10 \<and> bit p k" unfolding k_def using ex by (rule LeastI_ex)
    moreover from this have "\<forall>c<k. \<not> bit p c"
      unfolding k_def using not_less_Least by fastforce
    ultimately have "next_cleanup_bit p = Some k" by (simp add: next_cleanup_bit_Some)
    with none show False by simp
  qed
next
  assume "\<forall>c<10. \<not> bit p c"
  then show "next_cleanup_bit p = None"
    by (cases "next_cleanup_bit p") (auto simp: next_cleanup_bit_Some)
qed

lemma bit_push_one: "bit (push_bit n 1 :: u32) k \<longleftrightarrow> k = n \<and> n < 32"
  by (auto simp: bit_simps)

lemma bit_region: "bit (region_cleanup_bit j) k \<longleftrightarrow> k = 9 - j"
  unfolding region_cleanup_bit_def bit_push_one by auto

lemma bit_storage_bits:
  "bit FILE_BIT k \<longleftrightarrow> k = 0" "bit ROOT_BIT k \<longleftrightarrow> k = 1"
  "bit SIMPLE_FS_BIT k \<longleftrightarrow> k = 2" "bit LOADED_IMAGE_BIT k \<longleftrightarrow> k = 3"
  unfolding FILE_BIT_def ROOT_BIT_def SIMPLE_FS_BIT_def LOADED_IMAGE_BIT_def bit_push_one
  by auto

lemma bit_if_or: "bit (if b then m OR w else m) k \<longleftrightarrow> bit m k \<or> b \<and> bit (w :: u32) k"
  by (simp add: bit_or_iff)

lemma bit_fold_regions:
  "k < 32 \<Longrightarrow>
   bit (fold (\<lambda>index m. if P index then m OR region_cleanup_bit index else m) js m) k
     \<longleftrightarrow> bit m k \<or> (\<exists>j \<in> set js. P j \<and> 9 - j = k)"
proof (induction js arbitrary: m)
  case Nil
  then show ?case by simp
next
  case (Cons j js)
  then show ?case
    by (auto simp: bit_or_iff bit_region)
qed

lemma bit_acquired_mask:
  assumes "k < 32"
  shows "bit (acquired_mask file root simple loaded regions) k \<longleftrightarrow>
     (k = 0 \<and> file) \<or> (k = 1 \<and> root) \<or> (k = 2 \<and> simple) \<or> (k = 3 \<and> loaded)
     \<or> (\<exists>i < length regions. regions ! i \<and> 9 - i = k)"
proof -
  define m where "m = (let mask = 0 :: u32;
         mask = (if file then mask OR FILE_BIT else mask);
         mask = (if root then mask OR ROOT_BIT else mask);
         mask = (if simple then mask OR SIMPLE_FS_BIT else mask)
     in (if loaded then mask OR LOADED_IMAGE_BIT else mask))"
  have "bit m k \<longleftrightarrow> (k = 0 \<and> file) \<or> (k = 1 \<and> root) \<or> (k = 2 \<and> simple) \<or> (k = 3 \<and> loaded)"
    unfolding m_def Let_def bit_if_or bit_storage_bits by auto
  moreover have "bit (fold (\<lambda>index m. if regions ! index then m OR region_cleanup_bit index else m)
        [0..<length regions] m) k
      \<longleftrightarrow> bit m k \<or> (\<exists>j \<in> set [0..<length regions]. regions ! j \<and> 9 - j = k)"
    using assms by (rule bit_fold_regions)
  moreover have "(\<exists>j \<in> set [0..<length regions]. regions ! j \<and> 9 - j = k)
      \<longleftrightarrow> (\<exists>i < length regions. regions ! i \<and> 9 - i = k)"
    by auto
  moreover have "acquired_mask file root simple loaded regions =
      fold (\<lambda>index m. if regions ! index then m OR region_cleanup_bit index else m)
        [0..<length regions] m"
    unfolding acquired_mask_def m_def Let_def by (rule refl)
  ultimately show ?thesis by (simp only: disj_assoc)
qed

lemma unat_acquired_zero:
  "acquired_mask False False False False [False, False, False, False, False, False] = 0"
  by code_simp

section \<open>Reading a file\<close>

text \<open>One callback result of the firmware: requested and returned bytes, status, end of file.\<close>

definition progress_step ::
  "read_progress \<Rightarrow> nat \<times> nat \<times> u64 \<times> bool \<Rightarrow> read_progress" where
  "progress_step p cb =
     (case cb of (requested, returned, status, eof) \<Rightarrow>
        snd (progress_apply p requested returned status eof))"

lemma progress_apply_cases:
  "progress_apply p requested returned status eof =
     (if status \<noteq> EFI_SUCCESS \<or> requested < returned then (Read, p)
      else if eof then (if returned = 0 then Complete else Oversized, p)
      else if returned = 0 then (Truncated, p)
      else if rp_offset p + returned < u64_limit \<and> rp_offset p + returned \<le> rp_total p
      then (Advance returned, p\<lparr>rp_offset := rp_offset p + returned\<rparr>)
      else (Read, p))"
  by (auto simp: progress_apply_def read_decision_def checked_read_offset_def checked_add_def)

lemma progress_step_total [simp]: "rp_total (progress_step p cb) = rp_total p"
  by (cases cb) (simp add: progress_step_def progress_apply_cases)

lemma progress_step_bounded:
  "rp_offset p \<le> rp_total p \<Longrightarrow>
   rp_offset p \<le> rp_offset (progress_step p cb) \<and> rp_offset (progress_step p cb) \<le> rp_total p"
  by (cases cb) (simp add: progress_step_def progress_apply_cases)

lemma progress_run_bounded:
  "rp_offset p \<le> rp_total p \<Longrightarrow>
   rp_total (foldl progress_step p cbs) = rp_total p \<and>
   rp_offset p \<le> rp_offset (foldl progress_step p cbs) \<and>
   rp_offset (foldl progress_step p cbs) \<le> rp_total p"
proof (induction cbs arbitrary: p)
  case Nil
  then show ?case by simp
next
  case (Cons cb cbs)
  have "rp_offset (progress_step p cb) \<le> rp_total (progress_step p cb)"
    using progress_step_bounded [OF Cons.prems, of cb] by simp
  from Cons.IH [OF this] progress_step_bounded [OF Cons.prems, of cb]
  show ?case by simp
qed

section \<open>Calibration\<close>

definition median3 :: "nat \<Rightarrow> nat \<Rightarrow> nat \<Rightarrow> nat" where
  "median3 a b c = max (min a b) (min (max a b) c)"

lemma sort_three: "sort [a, b, c] ! 1 = median3 a b (c :: nat)"
  by (auto simp: median3_def min_def max_def)

section \<open>Properties\<close>

text \<open>
  An event record built by any sequence of \<open>push\<close> and \<open>push_decimal\<close> calls is emitted
  as exactly the concatenation of the field texts when that fits in 511 bytes, and as the
  \<open>MODEL_RECORD\<close> error otherwise; nothing is ever truncated, and \<open>as_bytes\<close> shows the
  fatal text from the first push that does not fit on.
\<close>

theorem record_emits_fields_or_fatal:
  "record_emission (foldl push_field record_new fs) =
     (if length (concat (map field_text fs)) \<le> RECORD_CAPACITY
      then Inr (concat (map field_text fs))
      else Inl (error_tuple ''MODEL_RECORD'' ''record'' None None None None 0 0))
   \<and> record_as_bytes (foldl push_field record_new fs) =
     (if length (concat (map field_text fs)) \<le> RECORD_CAPACITY
      then concat (map field_text fs) else MODEL_RECORD_FATAL)"
proof -
  let ?r = "foldl push_field record_new fs"
  have view: "record_view ?r = record_absorb (Some []) (concat (map field_text fs))"
    using push_fields_view [OF record_new_wf, of fs] by (simp add: record_view_new)
  then have "record_emission ?r =
     (if length (concat (map field_text fs)) \<le> RECORD_CAPACITY
      then Inr (concat (map field_text fs))
      else Inl (error_tuple ''MODEL_RECORD'' ''record'' None None None None 0 0))"
    by (simp add: record_emission_view record_absorb_def)
  moreover have "record_as_bytes ?r =
      (case record_view ?r of None \<Rightarrow> MODEL_RECORD_FATAL | Some xs \<Rightarrow> xs)"
    by (simp add: record_as_bytes_def record_view_def)
  ultimately show ?thesis by (simp add: view record_absorb_def)
qed

text \<open>
  A number of any 64-bit value pushed to an empty record is emitted as decimal digits that
  read back as that value; the digit array of 20 bytes is never overrun.
\<close>

theorem record_decimal_round_trip:
  "case record_emission (record_push_decimal record_new v) of
     Inl _ \<Rightarrow> False
   | Inr digits \<Rightarrow> decimal_value digits = unat v \<and> digits \<noteq> [] \<and> length digits \<le> 20
       \<and> list_all (\<lambda>b. 48 \<le> unat b \<and> unat b \<le> 57) digits"
proof -
  have digits: "list_all (\<lambda>b. 48 \<le> unat b \<and> unat b \<le> 57) (low_digits n)" for n
  proof (induction n rule: low_digits.induct)
    case (1 n)
    then show ?case
      by (cases "n = 0") (auto simp: low_digits_step unat_digit_byte)
  qed
  have "record_view (record_push_decimal record_new v) = Some (decimal_text (unat v))"
    using decimal_text_length [of v]
    by (simp add: record_push_decimal_view record_new_wf record_view_new record_absorb_def
        RECORD_CAPACITY_def)
  then show ?thesis
    using digits [of "unat v"] decimal_text_length [of v]
    by (simp add: record_emission_view decimal_value_text decimal_text_nonempty)
       (simp add: decimal_text_def)
qed

text \<open>
  The frequency derived from three calibration samples is accepted exactly when no sample
  is zero, the three processor identifications agree, and ten times the median sample is
  between 1 GHz and 10 GHz; it is then that product, so one outlier among the samples cannot
  change it beyond its neighbour and the order of the samples is irrelevant.
\<close>

theorem derive_frequency_median:
  "derive_frequency [a, b, c] [x, y, z] = Inr hz \<longleftrightarrow>
     0 < a \<and> 0 < b \<and> 0 < c \<and> x = y \<and> x = z \<and>
     hz = 10 * median3 a b c \<and> 10 ^ 9 \<le> hz \<and> hz \<le> 10 ^ 10"
proof -
  have "checked_mul (sort [a, b, c] ! 1) 10 =
      (if median3 a b c * 10 < u64_limit then Some (median3 a b c * 10) else None)"
    by (simp only: sort_three checked_mul_def)
  then show ?thesis
    unfolding derive_frequency_def by (auto simp: u64_limit_eq simp del: sort_key_simps)
qed

text \<open>
  Whatever results the file-read callback reports, in any number and order, the offset
  never decreases and never passes the total, so the slice a read is stored to stays inside
  the model region; a result that is not accepted leaves the offset as it was.
\<close>

theorem read_progress_stays_in_file:
  "rp_offset (foldl progress_step (progress_new n) cbs) \<le> n
   \<and> rp_offset (foldl progress_step (progress_new n) cbs)
       \<le> rp_offset (foldl progress_step (progress_new n) (cbs @ later))"
  using progress_run_bounded [of "progress_new n" cbs]
    progress_run_bounded [of "foldl progress_step (progress_new n) cbs" later]
  by (simp add: progress_new_def)

end
