(* ===== verification/PB_Errors.thy ===== *)
theory PB_Errors
  imports PB_Prelude
begin

text \<open>
  The numbered statuses, domains and field kinds of \<open>src/crates/promptboot-core/src/model.rs\<close>
  (prefixes \<open>MS\<close>, \<open>ED\<close>, \<open>FK\<close>) and of \<open>inference.rs\<close> (prefixes \<open>IS\<close>, \<open>ID\<close>, \<open>IK\<close>, and \<open>ST\<close>
  for the engine state), with their C discriminants, and the error values built from them.
  The discriminants are shown distinct, and an error value determines what it was built from.
\<close>

section \<open>Sizes of the engine\<close>

definition KV_BYTES :: nat where "KV_BYTES = 805306368"
definition SCRATCH_BYTES :: nat where "SCRATCH_BYTES = 262144"
definition LOGIT_WORDS :: nat where "LOGIT_WORDS = 151936"
definition NO_LAYER :: nat where "NO_LAYER = 4294967295"
definition NO_TENSOR :: nat where "NO_TENSOR = 4294967295"

section \<open>Enumerations\<close>

datatype model_status =
    MS_OK | MS_LENGTH | MS_FULL_HASH | MS_MAGIC | MS_VERSION | MS_ENDIAN | MS_IDENTITY
  | MS_RESERVED | MS_ARITHMETIC_OVERFLOW | MS_ALIGNMENT | MS_ORDER | MS_OVERLAP | MS_PADDING
  | MS_SECTION_HASH | MS_TENSOR_HASH | MS_CONTENT_HASH | MS_SECTION_SCHEMA
  | MS_TENSOR_SCHEMA | MS_TOKENIZER_SCHEMA | MS_UTF8 | MS_TOKEN_ID | MS_INPUT
  | MS_OUTPUT_CAPACITY | MS_SCRATCH_CAPACITY | MS_INDEX_CAPACITY | MS_INDEX_ALIGNMENT
  | MS_INDEX_CORRUPT | MS_STATE

fun ms_code :: "model_status \<Rightarrow> nat" where
  "ms_code MS_OK = 0"
| "ms_code MS_LENGTH = 1"
| "ms_code MS_FULL_HASH = 2"
| "ms_code MS_MAGIC = 3"
| "ms_code MS_VERSION = 4"
| "ms_code MS_ENDIAN = 5"
| "ms_code MS_IDENTITY = 6"
| "ms_code MS_RESERVED = 7"
| "ms_code MS_ARITHMETIC_OVERFLOW = 8"
| "ms_code MS_ALIGNMENT = 9"
| "ms_code MS_ORDER = 10"
| "ms_code MS_OVERLAP = 11"
| "ms_code MS_PADDING = 12"
| "ms_code MS_SECTION_HASH = 13"
| "ms_code MS_TENSOR_HASH = 14"
| "ms_code MS_CONTENT_HASH = 15"
| "ms_code MS_SECTION_SCHEMA = 16"
| "ms_code MS_TENSOR_SCHEMA = 17"
| "ms_code MS_TOKENIZER_SCHEMA = 18"
| "ms_code MS_UTF8 = 19"
| "ms_code MS_TOKEN_ID = 20"
| "ms_code MS_INPUT = 21"
| "ms_code MS_OUTPUT_CAPACITY = 22"
| "ms_code MS_SCRATCH_CAPACITY = 23"
| "ms_code MS_INDEX_CAPACITY = 24"
| "ms_code MS_INDEX_ALIGNMENT = 25"
| "ms_code MS_INDEX_CORRUPT = 26"
| "ms_code MS_STATE = 27"

definition ms_all :: "model_status list" where
  "ms_all =
     [MS_OK, MS_LENGTH, MS_FULL_HASH, MS_MAGIC, MS_VERSION, MS_ENDIAN, MS_IDENTITY, MS_RESERVED
      , MS_ARITHMETIC_OVERFLOW, MS_ALIGNMENT, MS_ORDER, MS_OVERLAP, MS_PADDING, MS_SECTION_HASH
      , MS_TENSOR_HASH, MS_CONTENT_HASH, MS_SECTION_SCHEMA, MS_TENSOR_SCHEMA
      , MS_TOKENIZER_SCHEMA, MS_UTF8, MS_TOKEN_ID, MS_INPUT, MS_OUTPUT_CAPACITY
      , MS_SCRATCH_CAPACITY, MS_INDEX_CAPACITY, MS_INDEX_ALIGNMENT, MS_INDEX_CORRUPT, MS_STATE]"

lemma ms_all_nth: "ms_all ! ms_code k = k"
  by (cases k) (simp_all add: ms_all_def)

lemma ms_code_less: "ms_code k < 28"
  by (cases k) simp_all

lemma ms_code_inject [simp]: "ms_code a = ms_code b \<longleftrightarrow> a = b"
  by (metis ms_all_nth)

datatype error_domain =
    ED_NONE | ED_HEADER | ED_SECTION | ED_TENSOR | ED_TOKEN | ED_MERGE | ED_CHAT | ED_INDEX
  | ED_USER | ED_RENDERED_OUTPUT | ED_TOKEN_OUTPUT | ED_PIECE_OUTPUT | ED_SCRATCH

fun ed_code :: "error_domain \<Rightarrow> nat" where
  "ed_code ED_NONE = 0"
| "ed_code ED_HEADER = 1"
| "ed_code ED_SECTION = 2"
| "ed_code ED_TENSOR = 3"
| "ed_code ED_TOKEN = 4"
| "ed_code ED_MERGE = 5"
| "ed_code ED_CHAT = 6"
| "ed_code ED_INDEX = 7"
| "ed_code ED_USER = 8"
| "ed_code ED_RENDERED_OUTPUT = 9"
| "ed_code ED_TOKEN_OUTPUT = 10"
| "ed_code ED_PIECE_OUTPUT = 11"
| "ed_code ED_SCRATCH = 12"

definition ed_all :: "error_domain list" where
  "ed_all =
     [ED_NONE, ED_HEADER, ED_SECTION, ED_TENSOR, ED_TOKEN, ED_MERGE, ED_CHAT, ED_INDEX, ED_USER
      , ED_RENDERED_OUTPUT, ED_TOKEN_OUTPUT, ED_PIECE_OUTPUT, ED_SCRATCH]"

lemma ed_all_nth: "ed_all ! ed_code k = k"
  by (cases k) (simp_all add: ed_all_def)

lemma ed_code_less: "ed_code k < 13"
  by (cases k) simp_all

lemma ed_code_inject [simp]: "ed_code a = ed_code b \<longleftrightarrow> a = b"
  by (metis ed_all_nth)

datatype field_kind =
    FK_NONE | FK_FILE_BYTES | FK_BASE_ALIGNMENT | FK_DIGEST_BYTE | FK_MAGIC_BYTE | FK_VERSION
  | FK_ENDIAN | FK_HEADER_FIELD | FK_RESERVED_BYTE | FK_SECTION_ID | FK_ELEMENT_TYPE
  | FK_RANGE_START | FK_RANGE_LENGTH | FK_ORDER | FK_GAP_BYTE | FK_TENSOR_ID | FK_LAYER
  | FK_ROLE | FK_DTYPE | FK_RANK | FK_DIMENSION | FK_BLOCK_LENGTH | FK_TOKEN_OFFSET
  | FK_TOKEN_TYPE | FK_UTF8_BYTE | FK_MERGE_LEFT | FK_MERGE_RIGHT | FK_MERGE_RESULT
  | FK_MERGE_DUPLICATE | FK_CONCAT_BYTE | FK_TEMPLATE_BYTE | FK_INDEX_HASH_BYTE
  | FK_INDEX_MAX_DISPLACEMENT | FK_INDEX_MAX_CLUSTER | FK_INDEX_HIT_BOUND
  | FK_INDEX_MISS_BOUND | FK_USER_BYTE | FK_TOKEN_ID_FIELD | FK_CAPACITY | FK_STATE_FIELD
  | FK_OP_ADD | FK_OP_MUL | FK_OP_USIZE

fun fk_code :: "field_kind \<Rightarrow> nat" where
  "fk_code FK_NONE = 0"
| "fk_code FK_FILE_BYTES = 1"
| "fk_code FK_BASE_ALIGNMENT = 2"
| "fk_code FK_DIGEST_BYTE = 3"
| "fk_code FK_MAGIC_BYTE = 4"
| "fk_code FK_VERSION = 5"
| "fk_code FK_ENDIAN = 6"
| "fk_code FK_HEADER_FIELD = 7"
| "fk_code FK_RESERVED_BYTE = 8"
| "fk_code FK_SECTION_ID = 9"
| "fk_code FK_ELEMENT_TYPE = 10"
| "fk_code FK_RANGE_START = 11"
| "fk_code FK_RANGE_LENGTH = 12"
| "fk_code FK_ORDER = 13"
| "fk_code FK_GAP_BYTE = 14"
| "fk_code FK_TENSOR_ID = 15"
| "fk_code FK_LAYER = 16"
| "fk_code FK_ROLE = 17"
| "fk_code FK_DTYPE = 18"
| "fk_code FK_RANK = 19"
| "fk_code FK_DIMENSION = 20"
| "fk_code FK_BLOCK_LENGTH = 21"
| "fk_code FK_TOKEN_OFFSET = 22"
| "fk_code FK_TOKEN_TYPE = 23"
| "fk_code FK_UTF8_BYTE = 24"
| "fk_code FK_MERGE_LEFT = 25"
| "fk_code FK_MERGE_RIGHT = 26"
| "fk_code FK_MERGE_RESULT = 27"
| "fk_code FK_MERGE_DUPLICATE = 28"
| "fk_code FK_CONCAT_BYTE = 29"
| "fk_code FK_TEMPLATE_BYTE = 30"
| "fk_code FK_INDEX_HASH_BYTE = 31"
| "fk_code FK_INDEX_MAX_DISPLACEMENT = 32"
| "fk_code FK_INDEX_MAX_CLUSTER = 33"
| "fk_code FK_INDEX_HIT_BOUND = 34"
| "fk_code FK_INDEX_MISS_BOUND = 35"
| "fk_code FK_USER_BYTE = 36"
| "fk_code FK_TOKEN_ID_FIELD = 37"
| "fk_code FK_CAPACITY = 38"
| "fk_code FK_STATE_FIELD = 39"
| "fk_code FK_OP_ADD = 40"
| "fk_code FK_OP_MUL = 41"
| "fk_code FK_OP_USIZE = 42"

definition fk_all :: "field_kind list" where
  "fk_all =
     [FK_NONE, FK_FILE_BYTES, FK_BASE_ALIGNMENT, FK_DIGEST_BYTE, FK_MAGIC_BYTE, FK_VERSION
      , FK_ENDIAN, FK_HEADER_FIELD, FK_RESERVED_BYTE, FK_SECTION_ID, FK_ELEMENT_TYPE
      , FK_RANGE_START, FK_RANGE_LENGTH, FK_ORDER, FK_GAP_BYTE, FK_TENSOR_ID, FK_LAYER, FK_ROLE
      , FK_DTYPE, FK_RANK, FK_DIMENSION, FK_BLOCK_LENGTH, FK_TOKEN_OFFSET, FK_TOKEN_TYPE
      , FK_UTF8_BYTE, FK_MERGE_LEFT, FK_MERGE_RIGHT, FK_MERGE_RESULT, FK_MERGE_DUPLICATE
      , FK_CONCAT_BYTE, FK_TEMPLATE_BYTE, FK_INDEX_HASH_BYTE, FK_INDEX_MAX_DISPLACEMENT
      , FK_INDEX_MAX_CLUSTER, FK_INDEX_HIT_BOUND, FK_INDEX_MISS_BOUND, FK_USER_BYTE
      , FK_TOKEN_ID_FIELD, FK_CAPACITY, FK_STATE_FIELD, FK_OP_ADD, FK_OP_MUL, FK_OP_USIZE]"

lemma fk_all_nth: "fk_all ! fk_code k = k"
  by (cases k) (simp_all add: fk_all_def)

lemma fk_code_less: "fk_code k < 43"
  by (cases k) simp_all

lemma fk_code_inject [simp]: "fk_code a = fk_code b \<longleftrightarrow> a = b"
  by (metis fk_all_nth)

datatype inference_status =
    IS_OK | IS_STATE | IS_CONTEXT | IS_TOKEN_ID | IS_CAPACITY | IS_ALIGNMENT
  | IS_NONFINITE_INPUT | IS_NONFINITE_OUTPUT | IS_MODEL | IS_ARITHMETIC | IS_FAULTED

fun is_code :: "inference_status \<Rightarrow> nat" where
  "is_code IS_OK = 0"
| "is_code IS_STATE = 1"
| "is_code IS_CONTEXT = 2"
| "is_code IS_TOKEN_ID = 3"
| "is_code IS_CAPACITY = 4"
| "is_code IS_ALIGNMENT = 5"
| "is_code IS_NONFINITE_INPUT = 6"
| "is_code IS_NONFINITE_OUTPUT = 7"
| "is_code IS_MODEL = 8"
| "is_code IS_ARITHMETIC = 9"
| "is_code IS_FAULTED = 10"

definition is_all :: "inference_status list" where
  "is_all =
     [IS_OK, IS_STATE, IS_CONTEXT, IS_TOKEN_ID, IS_CAPACITY, IS_ALIGNMENT, IS_NONFINITE_INPUT
      , IS_NONFINITE_OUTPUT, IS_MODEL, IS_ARITHMETIC, IS_FAULTED]"

lemma is_all_nth: "is_all ! is_code k = k"
  by (cases k) (simp_all add: is_all_def)

lemma is_code_less: "is_code k < 11"
  by (cases k) simp_all

lemma is_code_inject [simp]: "is_code a = is_code b \<longleftrightarrow> a = b"
  by (metis is_all_nth)

datatype inference_domain =
    ID_NONE | ID_INIT | ID_PROMPT | ID_EMBEDDING | ID_ATTN_NORM | ID_Q | ID_K | ID_V | ID_ROPE
  | ID_KV | ID_ATTENTION | ID_ATTN_OUTPUT | ID_FFN_NORM | ID_GATE | ID_UP | ID_SWIGLU
  | ID_DOWN | ID_OUTPUT_NORM | ID_LOGITS | ID_ARGMAX | ID_RESET

fun id_code :: "inference_domain \<Rightarrow> nat" where
  "id_code ID_NONE = 0"
| "id_code ID_INIT = 1"
| "id_code ID_PROMPT = 2"
| "id_code ID_EMBEDDING = 3"
| "id_code ID_ATTN_NORM = 4"
| "id_code ID_Q = 5"
| "id_code ID_K = 6"
| "id_code ID_V = 7"
| "id_code ID_ROPE = 8"
| "id_code ID_KV = 9"
| "id_code ID_ATTENTION = 10"
| "id_code ID_ATTN_OUTPUT = 11"
| "id_code ID_FFN_NORM = 12"
| "id_code ID_GATE = 13"
| "id_code ID_UP = 14"
| "id_code ID_SWIGLU = 15"
| "id_code ID_DOWN = 16"
| "id_code ID_OUTPUT_NORM = 17"
| "id_code ID_LOGITS = 18"
| "id_code ID_ARGMAX = 19"
| "id_code ID_RESET = 20"

definition id_all :: "inference_domain list" where
  "id_all =
     [ID_NONE, ID_INIT, ID_PROMPT, ID_EMBEDDING, ID_ATTN_NORM, ID_Q, ID_K, ID_V, ID_ROPE, ID_KV
      , ID_ATTENTION, ID_ATTN_OUTPUT, ID_FFN_NORM, ID_GATE, ID_UP, ID_SWIGLU, ID_DOWN
      , ID_OUTPUT_NORM, ID_LOGITS, ID_ARGMAX, ID_RESET]"

lemma id_all_nth: "id_all ! id_code k = k"
  by (cases k) (simp_all add: id_all_def)

lemma id_code_less: "id_code k < 21"
  by (cases k) simp_all

lemma id_code_inject [simp]: "id_code a = id_code b \<longleftrightarrow> a = b"
  by (metis id_all_nth)

text \<open>
  The engine compares domains by their discriminants (\<open>domain as u32 <= DOWN as u32\<close>): the order
  of the enumeration is a linear order.
\<close>

instantiation inference_domain :: linorder
begin

definition less_eq_inference_domain :: "inference_domain \<Rightarrow> inference_domain \<Rightarrow> bool" where
  "less_eq_inference_domain a b \<longleftrightarrow> id_code a \<le> id_code b"

definition less_inference_domain :: "inference_domain \<Rightarrow> inference_domain \<Rightarrow> bool" where
  "less_inference_domain a b \<longleftrightarrow> id_code a < id_code b"

instance
  by standard (auto simp: less_eq_inference_domain_def less_inference_domain_def)

end

datatype inference_field_kind =
    IK_NONE | IK_STATE | IK_TOKEN | IK_CONTEXT | IK_BYTES | IK_ALIGNMENT | IK_TENSOR
  | IK_FINITE | IK_ADD | IK_MUL | IK_USIZE | IK_RESERVE | IK_LOGITS | IK_FAULT | IK_SELECTED

fun ik_code :: "inference_field_kind \<Rightarrow> nat" where
  "ik_code IK_NONE = 0"
| "ik_code IK_STATE = 1"
| "ik_code IK_TOKEN = 2"
| "ik_code IK_CONTEXT = 3"
| "ik_code IK_BYTES = 4"
| "ik_code IK_ALIGNMENT = 5"
| "ik_code IK_TENSOR = 6"
| "ik_code IK_FINITE = 7"
| "ik_code IK_ADD = 8"
| "ik_code IK_MUL = 9"
| "ik_code IK_USIZE = 10"
| "ik_code IK_RESERVE = 11"
| "ik_code IK_LOGITS = 12"
| "ik_code IK_FAULT = 13"
| "ik_code IK_SELECTED = 14"

definition ik_all :: "inference_field_kind list" where
  "ik_all =
     [IK_NONE, IK_STATE, IK_TOKEN, IK_CONTEXT, IK_BYTES, IK_ALIGNMENT, IK_TENSOR, IK_FINITE
      , IK_ADD, IK_MUL, IK_USIZE, IK_RESERVE, IK_LOGITS, IK_FAULT, IK_SELECTED]"

lemma ik_all_nth: "ik_all ! ik_code k = k"
  by (cases k) (simp_all add: ik_all_def)

lemma ik_code_less: "ik_code k < 15"
  by (cases k) simp_all

lemma ik_code_inject [simp]: "ik_code a = ik_code b \<longleftrightarrow> a = b"
  by (metis ik_all_nth)

datatype inference_state =
    ST_RESET | ST_READY | ST_EOS | ST_FAULTED

fun st_code :: "inference_state \<Rightarrow> nat" where
  "st_code ST_RESET = 0"
| "st_code ST_READY = 1"
| "st_code ST_EOS = 2"
| "st_code ST_FAULTED = 3"

definition st_all :: "inference_state list" where
  "st_all =
     [ST_RESET, ST_READY, ST_EOS, ST_FAULTED]"

lemma st_all_nth: "st_all ! st_code k = k"
  by (cases k) (simp_all add: st_all_def)

lemma st_code_less: "st_code k < 4"
  by (cases k) simp_all

lemma st_code_inject [simp]: "st_code a = st_code b \<longleftrightarrow> a = b"
  by (metis st_all_nth)

section \<open>Error values\<close>

definition detail :: "nat \<Rightarrow> u32 \<Rightarrow> u64" where
  "detail kind sub = push_bit 32 (of_nat kind) OR ucast sub"

record model_error =
  me_status :: u32
  me_domain :: u32
  me_index :: u32
  me_reserved :: u32
  me_offset :: u64
  me_needed :: u64
  me_available :: u64
  me_detail :: u64

definition model_error_new ::
  "model_status \<Rightarrow> error_domain \<Rightarrow> u32 \<Rightarrow> u64 \<Rightarrow> u64 \<Rightarrow> u64 \<Rightarrow> field_kind \<Rightarrow> u32 \<Rightarrow>
   model_error" where
  "model_error_new status domain index off needed available kind sub =
     \<lparr>me_status = of_nat (ms_code status), me_domain = of_nat (ed_code domain),
      me_index = index, me_reserved = 0, me_offset = off, me_needed = needed,
      me_available = available, me_detail = detail (fk_code kind) sub\<rparr>"

record inference_error =
  ie_status :: u32
  ie_domain :: u32
  ie_layer :: u32
  ie_position :: u32
  ie_tensor_id :: u32
  ie_reserved :: u32
  ie_needed :: u64
  ie_available :: u64
  ie_detail :: u64

definition inference_error_new ::
  "inference_status \<Rightarrow> inference_domain \<Rightarrow> u32 \<Rightarrow> u32 \<Rightarrow> u32 \<Rightarrow> u64 \<Rightarrow> u64 \<Rightarrow>
   inference_field_kind \<Rightarrow> u32 \<Rightarrow> inference_error" where
  "inference_error_new status domain layer position tensor_id needed available kind sub =
     \<lparr>ie_status = of_nat (is_code status), ie_domain = of_nat (id_code domain),
      ie_layer = layer, ie_position = position, ie_tensor_id = tensor_id, ie_reserved = 0,
      ie_needed = needed, ie_available = available, ie_detail = detail (ik_code kind) sub\<rparr>"

definition digest_mismatch ::
  "model_status \<Rightarrow> error_domain \<Rightarrow> u32 \<Rightarrow> u64 \<Rightarrow> bytes \<Rightarrow> bytes \<Rightarrow> field_kind \<Rightarrow>
   model_error option" where
  "digest_mismatch status domain index off expected actual kind =
     (case find (\<lambda>at. expected ! at \<noteq> actual ! at) [0..<32] of
        None \<Rightarrow> None
      | Some at \<Rightarrow> Some (model_error_new status domain index off
          (ucast (expected ! at)) (ucast (actual ! at)) kind (of_nat at)))"

definition full_hash_mismatch :: "bytes \<Rightarrow> bytes \<Rightarrow> model_error option" where
  "full_hash_mismatch expected actual =
     digest_mismatch MS_FULL_HASH ED_HEADER 0 0 expected actual FK_DIGEST_BYTE"

lemma of_nat_u32_inject:
  "a < u32_limit \<Longrightarrow> b < u32_limit \<Longrightarrow> (of_nat a :: u32) = of_nat b \<longleftrightarrow> a = b"
  by (simp add: word_unat_eq_iff unat_of_nat u32_limit_eq)

lemma status_codes_inject [simp]:
  "(of_nat (ms_code a) :: u32) = of_nat (ms_code b) \<longleftrightarrow> a = b"
  "(of_nat (ed_code c) :: u32) = of_nat (ed_code d) \<longleftrightarrow> c = d"
  "(of_nat (is_code e) :: u32) = of_nat (is_code f) \<longleftrightarrow> e = f"
  "(of_nat (id_code g) :: u32) = of_nat (id_code h) \<longleftrightarrow> g = h"
  using ms_code_less [of a] ms_code_less [of b] ed_code_less [of c] ed_code_less [of d]
    is_code_less [of e] is_code_less [of f] id_code_less [of g] id_code_less [of h]
  by (simp_all add: of_nat_u32_inject u32_limit_eq)

text \<open>The two halves of a detail word.\<close>

lemma detail_sub: "ucast (detail kind sub) = sub"
  by (rule bit_word_eqI) (simp add: detail_def bit_simps)

lemma detail_kind: "kind < u32_limit \<Longrightarrow> unat (drop_bit 32 (detail kind sub)) = kind"
proof -
  assume less: "kind < u32_limit"
  have high: "\<not> bit (of_nat kind :: u64) n" if "32 \<le> n" for n
  proof -
    have "(2::nat) ^ 32 \<le> 2 ^ n" using that by (rule power_increasing) simp
    then have "kind div 2 ^ n = 0" using less by (simp add: u32_limit_def)
    then show ?thesis by (simp add: bit_simps bit_iff_odd [of kind])
  qed
  have no_sub: "\<not> bit sub (32 + n)" for n
    using bit_imp_le_length [of sub "32 + n"] by auto
  have "drop_bit 32 (detail kind sub) = of_nat kind"
    by (rule bit_word_eqI) (use high no_sub in \<open>auto simp: detail_def bit_simps not_le [symmetric]\<close>)
  then show ?thesis using less by (simp add: unat_of_nat u32_limit_eq)
qed

lemma detail_inject:
  "kind < u32_limit \<Longrightarrow> kind' < u32_limit \<Longrightarrow>
   detail kind sub = detail kind' sub' \<longleftrightarrow> kind = kind' \<and> sub = sub'"
  by (metis detail_kind detail_sub)

lemma field_kind_bounds: "fk_code k < u32_limit" "ik_code l < u32_limit"
  using fk_code_less [of k] ik_code_less [of l] by (simp_all add: u32_limit_eq)

lemma digest_mismatch_None:
  "digest_mismatch status domain index off expected actual kind = None \<longleftrightarrow>
     (\<forall>i<32. expected ! i = actual ! i)"
  by (auto simp: digest_mismatch_def find_None_iff find_Some_iff split: option.splits)

lemma digest_equal: 
  "length expected = 32 \<Longrightarrow> length actual = 32 \<Longrightarrow>
   digest_mismatch status domain index off expected actual kind = None \<longleftrightarrow> expected = actual"
  by (auto simp: digest_mismatch_None list_eq_iff_nth_eq)

section \<open>Properties\<close>

text \<open>
  An error value identifies the failure: two \<open>ModelError\<close> values, and two
  \<open>InferenceError\<close> values, are equal only if status, domain, location, the two quantities,
  the field kind and the sub-index they were built from are all equal. No two statuses or
  field kinds share a discriminant, and packing kind and sub-index into one word loses nothing.
\<close>

theorem error_values_injective:
  "(model_error_new s d i off n a k sub = model_error_new s' d' i' off' n' a' k' sub' \<longleftrightarrow>
      (s, d, i, off, n, a, k, sub) = (s', d', i', off', n', a', k', sub'))
   \<and> (inference_error_new t e l p q n a m sub = inference_error_new t' e' l' p' q' n' a' m' sub' \<longleftrightarrow>
      (t, e, l, p, q, n, a, m, sub) = (t', e', l', p', q', n', a', m', sub'))"
  by (simp add: model_error_new_def inference_error_new_def detail_inject field_kind_bounds)

end
