(* ===== verification/PB_Events.thy ===== *)
theory PB_Events
  imports PB_Contract PB_Errors
begin

text \<open>
  The event records of \<open>src/model_target.rs\<close>: hexadecimal output and the parsing of a pinned
  digest, the failure value carried to the end of a run, and one builder per record. A builder
  returns the record; \<open>emit_built\<close> hands it to the record sink, a parameter here
  (\<open>emit_record\<close> of \<open>main.rs\<close> writes to the firmware's serial port and console).
\<close>

section \<open>Hexadecimal text\<close>

definition hex_alphabet :: bytes where
  "hex_alphabet = ascii ''0123456789abcdef''"

primrec push_hex :: "model_record \<Rightarrow> u64 \<Rightarrow> nat \<Rightarrow> model_record" where
  "push_hex r v 0 = r"
| "push_hex r v (Suc at) =
     push_hex (record_push r [hex_alphabet ! unat (drop_bit (at * 4) v AND 15)]) v at"

definition hex_digit :: "u8 \<Rightarrow> u8" where
  "hex_digit b =
     (if 48 \<le> b \<and> b \<le> 57 then b - 48
      else if 97 \<le> b \<and> b \<le> 102 then b - 97 + 10
      else if 65 \<le> b \<and> b \<le> 70 then b - 65 + 10
      else 0xff)"

definition parse_sha :: "bytes \<Rightarrow> bytes" where
  "parse_sha input =
     map (\<lambda>index. push_bit 4 (hex_digit (input ! (index * 2)))
                   OR hex_digit (input ! (index * 2 + 1))) [0..<32]"

definition hex_text :: "u64 \<Rightarrow> nat \<Rightarrow> bytes" where
  "hex_text v n = map (\<lambda>at. hex_alphabet ! unat (drop_bit (at * 4) v AND 15)) (rev [0..<n])"

lemma length_hex_text [simp]: "length (hex_text v n) = n"
  by (simp add: hex_text_def)

lemma push_hex_view:
  "record_wf r \<Longrightarrow> record_wf (push_hex r v n) \<and>
   record_view (push_hex r v n) = record_absorb (record_view r) (hex_text v n)"
proof (induction n arbitrary: r)
  case 0
  then show ?case by (simp add: hex_text_def event_record.absorb_Nil)
next
  case (Suc n)
  then show ?case
    by (simp add: record_push_wf record_push_view hex_text_def event_record.absorb_append)
qed

lemmas record_text_wf = record_new_wf record_push_wf record_push_decimal_wf
  push_hex_view [THEN conjunct1]

lemmas record_text_view = record_push_view record_push_decimal_view
  push_hex_view [THEN conjunct2] event_record.absorb_append record_view_new

text \<open>The text of a digest, two digits to the byte.\<close>

definition digest_text :: "bytes \<Rightarrow> bytes" where
  "digest_text ds = concat (map (\<lambda>b. hex_text (ucast b) 2) ds)"

lemma length_digest_text: "length (digest_text ds) = 2 * length ds"
  by (induction ds) (simp_all add: digest_text_def)

lemma hex_byte_round:
  "push_bit 4 (hex_digit (hex_text (ucast (b :: u8)) 2 ! 0)) OR hex_digit (hex_text (ucast b) 2 ! 1) = b"
proof -
  have all: "list_all (\<lambda>n. push_bit 4 (hex_digit (hex_text (ucast (of_nat n :: u8)) 2 ! 0))
      OR hex_digit (hex_text (ucast (of_nat n :: u8)) 2 ! 1) = of_nat n) [0..<256]"
    by code_simp
  have "unat b \<in> set [0..<256]"
    using unsigned_less [of b] by simp
  with all have "push_bit 4 (hex_digit (hex_text (ucast (of_nat (unat b) :: u8)) 2 ! 0))
      OR hex_digit (hex_text (ucast (of_nat (unat b) :: u8)) 2 ! 1) = of_nat (unat b)"
    unfolding list_all_iff by blast
  then show ?thesis by simp
qed

lemma nth_digest_text:
  "i < length ds \<Longrightarrow> j < 2 \<Longrightarrow> digest_text ds ! (i * 2 + j) = hex_text (ucast (ds ! i)) 2 ! j"
proof (induction ds arbitrary: i)
  case Nil
  then show ?case by simp
next
  case (Cons d ds)
  show ?case
  proof (cases i)
    case 0
    with Cons.prems show ?thesis by (simp add: digest_text_def nth_append)
  next
    case (Suc k)
    with Cons.prems Cons.IH [of k] show ?thesis
      by (simp add: digest_text_def nth_append)
  qed
qed

section \<open>Failures\<close>

record failure =
  fl_code :: bytes
  fl_phase :: bytes
  fl_efi :: "u64 option"
  fl_model :: "model_error option"
  fl_inference :: "inference_error option"
  fl_region :: "bytes option"

definition failure_simple :: "bytes \<Rightarrow> bytes \<Rightarrow> failure" where
  "failure_simple code phase =
     \<lparr>fl_code = code, fl_phase = phase, fl_efi = None, fl_model = None, fl_inference = None,
      fl_region = None\<rparr>"

definition failure_contract :: "error_tuple \<Rightarrow> failure" where
  "failure_contract t =
     \<lparr>fl_code = ascii (et_code t), fl_phase = ascii (et_phase t), fl_efi = et_efi t,
      fl_model = None, fl_inference = None, fl_region = map_option ascii (et_region t)\<rparr>"

definition failure_model :: "bytes \<Rightarrow> bytes \<Rightarrow> model_error \<Rightarrow> failure" where
  "failure_model code phase e = (failure_simple code phase)\<lparr>fl_model := Some e\<rparr>"

definition failure_inference :: "bytes \<Rightarrow> bytes \<Rightarrow> inference_error \<Rightarrow> failure" where
  "failure_inference code phase e = (failure_simple code phase)\<lparr>fl_inference := Some e\<rparr>"

definition failure_efi :: "bytes \<Rightarrow> bytes \<Rightarrow> u64 \<Rightarrow> failure" where
  "failure_efi code phase status = (failure_simple code phase)\<lparr>fl_efi := Some status\<rparr>"

definition model_error_words :: "model_error \<Rightarrow> u64 list" where
  "model_error_words e =
     [ucast (me_status e), ucast (me_domain e), ucast (me_index e), me_offset e, me_needed e,
      me_available e, me_detail e]"

definition inference_error_words :: "inference_error \<Rightarrow> u64 list" where
  "inference_error_words e =
     [ucast (ie_status e), ucast (ie_domain e), ucast (ie_layer e), ucast (ie_position e),
      ucast (ie_tensor_id e), ie_needed e, ie_available e, ie_detail e]"

definition classified_model_failure :: "contract_failure_kind \<Rightarrow> model_error \<Rightarrow> failure" where
  "classified_model_failure kind e =
     (let t = classified_failure kind (model_error_words e @ [0])
      in \<lparr>fl_code = ascii (et_code t), fl_phase = ascii (et_phase t), fl_efi = None,
          fl_model = Some e, fl_inference = None, fl_region = None\<rparr>)"

definition classified_inference_failure ::
  "contract_failure_kind \<Rightarrow> inference_error \<Rightarrow> failure" where
  "classified_inference_failure kind e =
     (let t = classified_failure kind (inference_error_words e)
      in \<lparr>fl_code = ascii (et_code t), fl_phase = ascii (et_phase t), fl_efi = None,
          fl_model = None, fl_inference = Some e, fl_region = None\<rparr>)"

section \<open>The fatal record\<close>

definition push_words :: "model_record \<Rightarrow> u64 list \<Rightarrow> model_record" where
  "push_words r ws =
     fold (\<lambda>(at, v) r. record_push_decimal (if at \<noteq> 0 then record_push r (ascii '','') else r) v)
       (enumerate 0 ws) r"

definition failure_record :: "failure \<Rightarrow> u32 \<Rightarrow> u32 \<Rightarrow> model_record" where
  "failure_record f attempted ok =
    (let r = record_new;
         r = record_push r (ascii ''PROMPTBOOT_EVENT v=1 event=FATAL code='');
         r = record_push r (fl_code f);
         r = record_push r (ascii '' phase='');
         r = record_push r (fl_phase f);
         r = record_push r (ascii '' efi_status='');
         r = (case fl_efi f of Some v \<Rightarrow> push_hex r v 16
              | None \<Rightarrow> record_push r (ascii ''none''));
         r = record_push r (ascii '' model_error='');
         r = (case fl_model f of Some e \<Rightarrow> push_words r (model_error_words e)
              | None \<Rightarrow> record_push r (ascii ''none''));
         r = record_push r (ascii '' inference_error='');
         r = (case fl_inference f of Some e \<Rightarrow> push_words r (inference_error_words e)
              | None \<Rightarrow> record_push r (ascii ''none''));
         r = record_push r (ascii '' region='');
         r = record_push r (case fl_region f of Some n \<Rightarrow> n | None \<Rightarrow> ascii ''none'');
         r = record_push r (ascii '' cleanup_attempted='');
         r = push_hex r (ucast attempted) 8;
         r = record_push r (ascii '' cleanup_ok='');
         r = push_hex r (ucast ok) 8
     in record_push r [13, 10])"

text \<open>The text of the record, as the reader of the serial log parses it.\<close>

fun words_text :: "u64 list \<Rightarrow> bytes" where
  "words_text [] = []"
| "words_text [v] = decimal_text (unat v)"
| "words_text (v # vs) = decimal_text (unat v) @ ascii '','' @ words_text vs"

definition failure_text :: "failure \<Rightarrow> u32 \<Rightarrow> u32 \<Rightarrow> bytes" where
  "failure_text f attempted ok =
     ascii ''PROMPTBOOT_EVENT v=1 event=FATAL code='' @ fl_code f
     @ ascii '' phase='' @ fl_phase f
     @ ascii '' efi_status='' @ (case fl_efi f of Some v \<Rightarrow> hex_text v 16 | None \<Rightarrow> ascii ''none'')
     @ ascii '' model_error=''
     @ (case fl_model f of Some e \<Rightarrow> words_text (model_error_words e) | None \<Rightarrow> ascii ''none'')
     @ ascii '' inference_error=''
     @ (case fl_inference f of Some e \<Rightarrow> words_text (inference_error_words e)
        | None \<Rightarrow> ascii ''none'')
     @ ascii '' region='' @ (case fl_region f of Some n \<Rightarrow> n | None \<Rightarrow> ascii ''none'')
     @ ascii '' cleanup_attempted='' @ hex_text (ucast attempted) 8
     @ ascii '' cleanup_ok='' @ hex_text (ucast ok) 8 @ [13, 10]"

lemma push_words_from:
  "record_wf r \<Longrightarrow> k \<noteq> 0 \<Longrightarrow>
   record_wf (fold (\<lambda>(at, v) r. record_push_decimal
     (if at \<noteq> 0 then record_push r (ascii '','') else r) v) (enumerate k ws) r) \<and>
   record_view (fold (\<lambda>(at, v) r. record_push_decimal
     (if at \<noteq> 0 then record_push r (ascii '','') else r) v) (enumerate k ws) r) =
   record_absorb (record_view r)
     (concat (map (\<lambda>v. ascii '','' @ decimal_text (unat v)) ws))"
proof (induction ws arbitrary: r k)
  case Nil
  then show ?case by (simp add: event_record.absorb_Nil)
next
  case (Cons w ws)
  then show ?case
    by (simp add: record_text_wf record_text_view del: ascii_simps)
qed

lemma words_text_Cons:
  "words_text (v # vs) =
     decimal_text (unat v) @ concat (map (\<lambda>v. ascii '','' @ decimal_text (unat v)) vs)"
  by (induction vs arbitrary: v) (simp_all del: ascii_simps)

lemma push_words_view:
  assumes "record_wf r"
  shows "record_wf (push_words r ws) \<and>
    record_view (push_words r ws) = record_absorb (record_view r) (words_text ws)"
proof (cases ws)
  case Nil
  with assms show ?thesis by (simp add: push_words_def event_record.absorb_Nil)
next
  case (Cons v vs)
  with assms push_words_from [of "record_push_decimal r v" 1 vs] show ?thesis
    by (simp add: push_words_def record_text_wf record_text_view words_text_Cons
        del: ascii_simps)
qed

lemma length_words_text_le: "length (words_text ws) \<le> 21 * length ws - 1"
proof -
  have "length (concat (map (\<lambda>v. ascii '','' @ decimal_text (unat (v :: u64))) vs)) \<le> 21 * length vs"
    for vs
  proof (induction vs)
    case (Cons v vs)
    then show ?case using decimal_text_length [of v] by simp
  qed simp
  then show ?thesis
    using decimal_text_length by (cases ws) (force simp: words_text_Cons add_le_mono)+
qed

lemma option_push_wf:
  "record_wf r \<Longrightarrow> record_wf (case m of Some v \<Rightarrow> push_hex r v n | None \<Rightarrow> record_push r none)"
  "record_wf r \<Longrightarrow> record_wf (case l of Some e \<Rightarrow> push_words r (g e) | None \<Rightarrow> record_push r none)"
  by (auto simp: record_text_wf push_words_view split: option.splits)

lemma option_push_view:
  "record_wf r \<Longrightarrow> record_view (case m of Some v \<Rightarrow> push_hex r v n | None \<Rightarrow> record_push r none) =
     record_absorb (record_view r) (case m of Some v \<Rightarrow> hex_text v n | None \<Rightarrow> none)"
  "record_wf r \<Longrightarrow> record_view (case l of Some e \<Rightarrow> push_words r (g e) | None \<Rightarrow> record_push r none) =
     record_absorb (record_view r) (case l of Some e \<Rightarrow> words_text (g e) | None \<Rightarrow> none)"
  by (auto simp: record_text_view push_words_view split: option.splits)

lemma failure_record_view:
  "record_view (failure_record f attempted ok) =
     record_absorb (Some []) (failure_text f attempted ok)"
  unfolding failure_record_def failure_text_def Let_def
  by (simp only: record_text_wf record_text_view option_push_wf option_push_view append_assoc)

lemma failure_text_length:
  "length (failure_text f attempted ok) \<le>
     473 + length (fl_code f) + length (fl_phase f)
     + length (case fl_region f of Some n \<Rightarrow> n | None \<Rightarrow> ascii ''none'')"
proof -
  have "length (case fl_efi f of Some v \<Rightarrow> hex_text v 16 | None \<Rightarrow> ascii ''none'') \<le> 16"
    by (simp split: option.split)
  moreover have "length (case fl_model f of Some e \<Rightarrow> words_text (model_error_words e)
      | None \<Rightarrow> ascii ''none'') \<le> 146"
    using length_words_text_le [of "model_error_words e" for e]
    by (auto simp: model_error_words_def split: option.split intro: order_trans)
  moreover have "length (case fl_inference f of Some e \<Rightarrow> words_text (inference_error_words e)
      | None \<Rightarrow> ascii ''none'') \<le> 167"
    using length_words_text_le [of "inference_error_words e" for e]
    by (auto simp: inference_error_words_def split: option.split intro: order_trans)
  ultimately show ?thesis
    unfolding failure_text_def by (simp only: length_append length_ascii length_hex_text) simp
qed

section \<open>The other records\<close>

record region_spec =
  rs_name :: bytes
  rs_pages :: nat
  rs_active :: nat
  rs_guard :: nat

definition region_record :: "bytes \<Rightarrow> region_spec \<Rightarrow> u64 \<Rightarrow> u64 \<Rightarrow> u64 \<Rightarrow> model_record" where
  "region_record phase spec base current high =
    (let r = record_new;
         r = record_push r (ascii ''PROMPTBOOT_EVENT v=1 event=MODEL_REGION phase='');
         r = record_push r phase;
         r = record_push r (ascii '' name='');
         r = record_push r (rs_name spec);
         r = record_push r (ascii '' base='');
         r = push_hex r base 16;
         r = record_push r (ascii '' requested='');
         r = record_push_decimal r (of_nat (rs_active spec));
         r = record_push r (ascii '' committed='');
         r = record_push_decimal r (of_nat (rs_pages spec * 4096));
         r = record_push r (ascii '' current='');
         r = record_push_decimal r current;
         r = record_push r (ascii '' high_water='');
         r = record_push_decimal r high;
         r = record_push r (ascii '' guard_bytes='');
         r = record_push_decimal r (of_nat (rs_guard spec));
         r = record_push r (ascii '' guard='');
         r = record_push r (if rs_guard spec = 0 then ascii ''none'' else ascii ''a5'')
     in record_push r [13, 10])"

definition started_record :: "bytes \<Rightarrow> bytes \<Rightarrow> model_record" where
  "started_record mode build_id =
    (let r = record_new;
         r = record_push r (ascii ''PROMPTBOOT_EVENT v=1 event=MODEL_LOAD_STARTED mode='');
         r = record_push r mode;
         r = record_push r (ascii '' build_id='');
         r = record_push r build_id
     in record_push r
          (ascii '' path='' @ [92] @ ascii ''MODEL.PBT model_bytes=426762944'' @ [13, 10]))"

definition cleanup_record :: "u32 \<Rightarrow> u32 \<Rightarrow> model_record" where
  "cleanup_record attempted ok =
    (let r = record_new;
         r = record_push r (ascii ''PROMPTBOOT_EVENT v=1 event=MODEL_CLEANUP_COMPLETE attempted='');
         r = push_hex r (ucast attempted) 8;
         r = record_push r (ascii '' ok='');
         r = push_hex r (ucast ok) 8
     in record_push r (ascii '' first_error=none'' @ [13, 10]))"

definition complete_record :: "bytes \<Rightarrow> bytes \<Rightarrow> model_record" where
  "complete_record mode build_id =
    (let r = record_new;
         r = record_push r (ascii ''PROMPTBOOT_EVENT v=1 event=MODEL_TARGET_COMPLETE mode='');
         r = record_push r mode;
         r = record_push r (ascii '' build_id='');
         r = record_push r build_id
     in record_push r [13, 10])"

definition first_token_record ::
  "u32 \<Rightarrow> u32 \<Rightarrow> u32 \<Rightarrow> u32 \<Rightarrow> (u32 \<times> u32) list \<Rightarrow> u64 \<Rightarrow> model_record" where
  "first_token_record position selected bits eos top8 kv =
    (let r = record_new;
         r = record_push r (ascii ''PROMPTBOOT_EVENT v=1 event=MODEL_FIRST_TOKEN position='');
         r = record_push_decimal r (ucast position);
         r = record_push r (ascii '' selected_id='');
         r = record_push_decimal r (ucast selected);
         r = record_push r (ascii '' selected_logit_bits='');
         r = push_hex r (ucast bits) 8;
         r = record_push r (ascii '' eos='');
         r = record_push_decimal r (ucast eos);
         r = record_push r (ascii '' top8='');
         r = fold (\<lambda>(index, token, logit_bits) r.
               let r = (if index \<noteq> 0 then record_push r (ascii '','') else r);
                   r = record_push_decimal r (ucast token);
                   r = record_push r (ascii '':'')
               in push_hex r (ucast logit_bits) 8) (enumerate 0 top8) r;
         r = record_push r (ascii '' kv_current='');
         r = record_push_decimal r kv
     in record_push r [13, 10])"

definition emit_checked :: "(bytes \<Rightarrow> bool) \<Rightarrow> bytes \<Rightarrow> failure + unit" where
  "emit_checked emit_record bs =
     (if emit_record bs then Inr ()
      else Inl (failure_simple (ascii ''MODEL_RECORD'') (ascii ''record'')))"

definition emit_built :: "(bytes \<Rightarrow> bool) \<Rightarrow> model_record \<Rightarrow> failure + unit" where
  "emit_built emit_record r =
     (case record_emission r of
        Inr bs \<Rightarrow> emit_checked emit_record bs
      | Inl t \<Rightarrow> Inl (failure_contract t))"

section \<open>Properties\<close>

text \<open>
  The fatal record says what failed: for every failure whose code, phase and region name
  together are at most 38 bytes long (every failure of the code is), whatever status, model
  error and inference error it carries and whatever the cleanup masks are, the record is
  emitted complete, as the text that names each of them in its place; the generic overflow
  record can never replace it.
\<close>

theorem failure_record_complete:
  assumes "length (fl_code f) + length (fl_phase f)
      + length (case fl_region f of Some n \<Rightarrow> n | None \<Rightarrow> ascii ''none'') \<le> 38"
  shows "record_emission (failure_record f attempted ok) = Inr (failure_text f attempted ok)"
proof -
  have "length (failure_text f attempted ok) \<le> RECORD_CAPACITY"
    using failure_text_length [of f attempted ok] assms by (simp add: RECORD_CAPACITY_def)
  then show ?thesis
    by (simp add: record_emission_view failure_record_view record_absorb_def)
qed

theorem failure_record_complete_witness:
  "record_emission (failure_record (failure_contract (storage_failure LoadedAbi None)) 8 8)
   = Inr (failure_text (failure_contract (storage_failure LoadedAbi None)) 8 8)"
proof (rule failure_record_complete)
  show "length (fl_code (failure_contract (storage_failure LoadedAbi None)))
      + length (fl_phase (failure_contract (storage_failure LoadedAbi None)))
      + length (case fl_region (failure_contract (storage_failure LoadedAbi None)) of
          Some n \<Rightarrow> n | None \<Rightarrow> ascii ''none'') \<le> 38"
    by (simp add: failure_contract_def storage_failure_def error_tuple_def)
qed

text \<open>
  Every failure that the storage, read, guard, timer, allocation, model, engine and cleanup
  contracts can produce is short enough for its record: the sum of the three texts is at most
  38 bytes in each case, so \<open>failure_record_complete\<close> covers all of them.
\<close>

theorem contract_failures_fit:
  "let fits = (\<lambda>f. length (fl_code f) + length (fl_phase f)
         + length (case fl_region f of Some n \<Rightarrow> n | None \<Rightarrow> ascii ''none'') \<le> 38)
   in fits (failure_contract (storage_failure kind status))
    \<and> fits (failure_contract (guard_failure guard))
    \<and> fits (failure_contract (timer_failure status))
    \<and> fits (failure_contract (cleanup_failure b None))
    \<and> list_all (\<lambda>i. fits (failure_contract (allocation_status_failure i s))) [0..<6]
    \<and> (case read_failure decision s of None \<Rightarrow> True | Some t \<Rightarrow> fits (failure_contract t))
    \<and> fits (classified_model_failure k e) \<and> fits (classified_inference_failure k ie)"
proof -
  note unfold = failure_contract_def error_tuple_def
  let ?fits = "\<lambda>f. length (fl_code f) + length (fl_phase f)
         + length (case fl_region f of Some n \<Rightarrow> n | None \<Rightarrow> ascii ''none'') \<le> 38"
  have "?fits (failure_contract (storage_failure kind status))"
    by (cases kind) (auto simp: storage_failure_def unfold)
  moreover have "?fits (failure_contract (guard_failure guard))"
    by (cases guard) (simp_all add: guard_failure_def unfold)
  moreover have "?fits (failure_contract (timer_failure status))"
    by (simp add: timer_failure_def unfold)
  moreover have "?fits (failure_contract (cleanup_failure b None))"
    by (auto simp: cleanup_failure_def unfold)
  moreover have "list_all (\<lambda>i. ?fits (failure_contract (allocation_status_failure i s))) [0..<6]"
    by (simp add: allocation_status_failure_def region_names_def unfold upt_rec)
  moreover have "case read_failure decision s of None \<Rightarrow> True | Some t \<Rightarrow> ?fits (failure_contract t)"
    by (cases decision) (simp_all add: read_failure_def unfold)
  moreover have "?fits (classified_model_failure k e)"
    by (cases k) (simp_all add: classified_model_failure_def classified_failure_def
        error_tuple_def)
  moreover have "?fits (classified_inference_failure k ie)"
    by (cases k) (simp_all add: classified_inference_failure_def classified_failure_def
        error_tuple_def)
  ultimately show ?thesis unfolding Let_def by blast
qed

text \<open>
  Parsing the text form of a digest gives the digest back: for every 32 byte digest,
  \<open>parse_sha\<close> applied to its 64 hexadecimal digits (as \<open>push_hex\<close> prints them, byte by byte)
  is that digest, so the pinned digest the loaded model is compared with is the one written in
  the source.
\<close>

theorem parse_sha_round_trip:
  assumes "length ds = 32"
  shows "parse_sha (digest_text ds) = ds"
proof (rule nth_equalityI)
  show "length (parse_sha (digest_text ds)) = length ds"
    using assms by (simp add: parse_sha_def)
next
  fix i assume "i < length (parse_sha (digest_text ds))"
  then have i: "i < 32" by (simp add: parse_sha_def)
  have "parse_sha (digest_text ds) ! i =
      push_bit 4 (hex_digit (digest_text ds ! (i * 2 + 0)))
        OR hex_digit (digest_text ds ! (i * 2 + 1))"
    using i by (simp add: parse_sha_def)
  also have "\<dots> = ds ! i"
    using i assms by (simp only: nth_digest_text hex_byte_round)
  finally show "parse_sha (digest_text ds) ! i = ds ! i" .
qed

theorem parse_sha_round_trip_witness:
  "parse_sha (digest_text (map of_nat [0..<32])) = map of_nat [0..<32]"
  by (rule parse_sha_round_trip) simp

end
