(* ===== verification/PB_Session.thy ===== *)
theory PB_Session
  imports PB_Events
begin

text \<open>
  The resource life cycle of \<open>src/model_target.rs\<close>: the session that records what has been
  acquired from the firmware, the acquisition stages of \<open>execute\<close> (two protocols, the volume,
  the file, six page regions), the read loop, the cleanup loop with its masks, and the end of
  \<open>run\<close>. The firmware is not part of the program: it is a record of functions giving its
  reply to a call, as a function of all calls made before, so any deterministic firmware is an
  instance. The session carries the list of calls made so far, on which the order and the
  number of releases are stated. A pointer is \<open>None\<close> when null.
\<close>

section \<open>The firmware\<close>

record file_protocol =
  fp_revision :: u64
  fp_open :: bool
  fp_close :: bool
  fp_read :: bool

datatype call =
    OpenLoaded
  | OpenSimple nat
  | OpenVolume
  | OpenFile
  | EmitRecord bytes
  | Diagnostic bytes
  | AllocatePages nat
  | ReadFile nat nat
  | CloseFile
  | CloseRoot
  | CloseSimple nat
  | CloseLoaded
  | FreePages u64 nat

text \<open>
  Replies: a status and what the call stored through its output pointer. A read reports the
  number of bytes and leaves the given contents in the buffer.
\<close>

record firmware =
  fw_open_loaded :: "call list \<Rightarrow> u64 \<times> (u32 \<times> nat) option"
  fw_open_simple :: "call list \<Rightarrow> u64 \<times> (u64 \<times> bool) option"
  fw_open_volume :: "call list \<Rightarrow> u64 \<times> file_protocol option"
  fw_open_file :: "call list \<Rightarrow> u64 \<times> file_protocol option"
  fw_emit :: "call list \<Rightarrow> bytes \<Rightarrow> bool"
  fw_allocate :: "call list \<Rightarrow> nat \<Rightarrow> u64 \<times> u64"
  fw_read :: "call list \<Rightarrow> nat \<Rightarrow> u64 \<times> nat \<times> (nat \<Rightarrow> u8)"
  fw_release :: "call list \<Rightarrow> call \<Rightarrow> u64"

section \<open>Sessions and regions\<close>

record session =
  ss_device :: nat
  ss_loaded_open :: bool
  ss_simple_open :: bool
  ss_root :: "file_protocol option"
  ss_file :: "file_protocol option"
  ss_root_close_valid :: bool
  ss_file_close_valid :: bool
  ss_addresses :: "u64 list"
  ss_calls :: "call list"

definition session_new :: session where
  "session_new =
     \<lparr>ss_device = 0, ss_loaded_open = False, ss_simple_open = False, ss_root = None,
      ss_file = None, ss_root_close_valid = False, ss_file_close_valid = False,
      ss_addresses = [0, 0, 0, 0, 0, 0], ss_calls = []\<rparr>"

definition MODEL_BYTES :: nat where "MODEL_BYTES = 426762944"
definition MAX_READ :: nat where "MAX_READ = 1048576"
definition INDEX_BYTES :: nat where "INDEX_BYTES = 4195328"

text \<open>
  \<open>SESSION_BYTES\<close> of \<open>src/repl_contract.rs\<close>: two token histories, the logits' repetition
  bitmap and the other session buffers; the region code only uses its size, a parameter here.
\<close>

definition REGIONS :: "region_spec list" where
  "REGIONS =
     [\<lparr>rs_name = ascii ''weights'', rs_pages = 104191, rs_active = MODEL_BYTES, rs_guard = 3392\<rparr>,
      \<lparr>rs_name = ascii ''index'', rs_pages = 1025, rs_active = INDEX_BYTES, rs_guard = 3072\<rparr>,
      \<lparr>rs_name = ascii ''kv'', rs_pages = (KV_BYTES + 4095) div 4096, rs_active = KV_BYTES,
       rs_guard = 0\<rparr>,
      \<lparr>rs_name = ascii ''scratch'', rs_pages = (SCRATCH_BYTES + 4095) div 4096,
       rs_active = SCRATCH_BYTES, rs_guard = 0\<rparr>,
      \<lparr>rs_name = ascii ''logits'', rs_pages = 149, rs_active = LOGIT_WORDS * 4, rs_guard = 2560\<rparr>,
      \<lparr>rs_name = ascii ''prompt'', rs_pages = 1, rs_active = 2048, rs_guard = 2048\<rparr>]"

definition session_acquired_mask :: "session \<Rightarrow> u32" where
  "session_acquired_mask s =
     acquired_mask (ss_file s \<noteq> None) (ss_root s \<noteq> None) (ss_simple_open s) (ss_loaded_open s)
       (map (\<lambda>address. address \<noteq> 0) (ss_addresses s))"

section \<open>Cleanup\<close>

definition log_call :: "call \<Rightarrow> session \<Rightarrow> session" where
  "log_call c s = s\<lparr>ss_calls := ss_calls s @ [c]\<rparr>"

text \<open>One arm of the cleanup loop: callable, status, region name and the new session.\<close>

definition release ::
  "firmware \<Rightarrow> nat \<Rightarrow> session \<Rightarrow> bool \<times> u64 \<times> bytes \<times> session" where
  "release fw bit_index s =
    (let h = ss_calls s; none = ascii ''none'' in
     if bit_index = 0 then
       (if ss_file_close_valid s
        then (True, fw_release fw h CloseFile, none, (log_call CloseFile s)\<lparr>ss_file := None\<rparr>)
        else (False, EFI_SUCCESS, none, s\<lparr>ss_file := None\<rparr>))
     else if bit_index = 1 then
       (if ss_root_close_valid s
        then (True, fw_release fw h CloseRoot, none, (log_call CloseRoot s)\<lparr>ss_root := None\<rparr>)
        else (False, EFI_SUCCESS, none, s\<lparr>ss_root := None\<rparr>))
     else if bit_index = 2 then
       (let c = CloseSimple (ss_device s)
        in (True, fw_release fw h c, none, (log_call c s)\<lparr>ss_simple_open := False\<rparr>))
     else if bit_index = 3 then
       (True, fw_release fw h CloseLoaded, none,
        (log_call CloseLoaded s)\<lparr>ss_loaded_open := False\<rparr>)
     else
       (let index = 9 - bit_index;
            c = FreePages (ss_addresses s ! index) (rs_pages (REGIONS ! index))
        in (True, fw_release fw h c, rs_name (REGIONS ! index),
            (log_call c s)\<lparr>ss_addresses := (ss_addresses s)[index := 0]\<rparr>)))"

lemma and_not_bit_less:
  "bit p k \<Longrightarrow> unat (p AND NOT (push_bit k 1)) < unat (p :: u32)"
proof -
  assume set: "bit p k"
  have "p AND NOT (push_bit k 1) \<le> p" by (rule word_and_le2)
  moreover have "p AND NOT (push_bit k 1) \<noteq> p"
  proof
    assume same: "p AND NOT (push_bit k 1) = p"
    have "bit (p AND NOT (push_bit k 1)) k \<longleftrightarrow> bit p k" unfolding same ..
    with set bit_imp_le_length [OF set] show False by (simp add: bit_simps)
  qed
  ultimately show ?thesis by (simp add: word_le_nat_alt word_unat_eq_iff)
qed

function cleanup_loop ::
  "firmware \<Rightarrow> u32 \<Rightarrow> u32 \<Rightarrow> u32 \<Rightarrow> (bytes \<times> u64) option \<Rightarrow> session \<Rightarrow>
   u32 \<times> u32 \<times> (bytes \<times> u64) option \<times> session" where
  "cleanup_loop fw pending callable failed first s =
     (case next_cleanup_bit pending of
        None \<Rightarrow> (callable, failed, first, s)
      | Some bit_index \<Rightarrow>
          let b = push_bit bit_index 1;
              pending' = pending AND NOT b
          in case release fw bit_index s of
               (is_callable, status, region, s') \<Rightarrow>
                 if \<not> is_callable
                 then cleanup_loop fw pending' (callable AND NOT b) failed first s'
                 else if status \<noteq> EFI_SUCCESS
                 then cleanup_loop fw pending' callable (failed OR b)
                        (case first of None \<Rightarrow> Some (region, status) | Some e \<Rightarrow> first) s'
                 else cleanup_loop fw pending' callable failed first s')"
  by pat_completeness auto
termination
  by (relation "measure (\<lambda>(_, pending, _). unat pending)")
     (simp_all add: next_cleanup_bit_Some and_not_bit_less del: push_bit_of_1)

declare cleanup_loop.simps [simp del]

definition cleanup ::
  "firmware \<Rightarrow> session \<Rightarrow> u32 \<times> u32 \<times> (bytes \<times> u64) option \<times> session" where
  "cleanup fw s =
     (let attempted = session_acquired_mask s
      in case cleanup_loop fw attempted attempted 0 None s of
           (callable, failed, first, s') \<Rightarrow>
             let derived = cleanup_plan attempted callable failed
             in (cp_attempted derived, cp_ok derived, first, s'))"

section \<open>The cleanup loop as a pass over the acquired resources\<close>

definition pending_bits :: "u32 \<Rightarrow> nat list" where
  "pending_bits p = filter (bit p) [0..<10]"

lemma next_cleanup_bit_pending:
  "next_cleanup_bit p = (case pending_bits p of [] \<Rightarrow> None | k # _ \<Rightarrow> Some k)"
proof (cases "next_cleanup_bit p")
  case None
  then have "pending_bits p = []"
    unfolding next_cleanup_bit_None pending_bits_def filter_empty_conv by simp
  with None show ?thesis by simp
next
  case (Some k)
  then have k: "k < 10" "bit p k" "\<forall>c<k. \<not> bit p c"
    by (simp_all add: next_cleanup_bit_Some)
  have "[0..<10] = [0..<k] @ k # [Suc k..<10]"
    using k(1) upt_add_eq_append [of 0 k "10 - k"] by (simp add: upt_conv_Cons)
  then have "pending_bits p = k # filter (bit p) [Suc k..<10]"
    using k(2,3) by (simp add: pending_bits_def filter_False)
  with Some show ?thesis by simp
qed

lemma bit_and_not_push:
  "k < 32 \<Longrightarrow> bit (m AND NOT (push_bit j 1) :: u32) k \<longleftrightarrow> bit m k \<and> k \<noteq> j"
  unfolding bit_and_iff bit_not_iff bit_push_one possible_bit_word by auto

lemma bit_or_push:
  "k < 32 \<Longrightarrow> bit (m OR push_bit j 1 :: u32) k \<longleftrightarrow> bit m k \<or> k = j"
  unfolding bit_or_iff bit_push_one by auto

lemma pending_bits_clear:
  assumes "pending_bits p = k # ks"
  shows "pending_bits (p AND NOT (push_bit k 1)) = ks"
proof -
  have dist: "distinct (k # ks)"
    by (simp add: pending_bits_def flip: assms)
  have "pending_bits (p AND NOT (push_bit k 1)) = filter (\<lambda>c. c \<noteq> k) (pending_bits p)"
    unfolding pending_bits_def filter_filter
    by (rule filter_cong) (simp_all add: bit_and_not_push del: push_bit_of_1)
  also have "\<dots> = ks" using dist by (auto simp: assms filter_id_conv)
  finally show ?thesis .
qed

text \<open>The loop state after one released resource, and a fold of it.\<close>

definition release_all :: "firmware \<Rightarrow> nat list \<Rightarrow> session \<Rightarrow> session" where
  "release_all fw ks s = fold (\<lambda>k s. snd (snd (snd (release fw k s)))) ks s"

lemma cleanup_loop_session:
  "snd (snd (snd (cleanup_loop fw pending callable failed first s))) =
     release_all fw (pending_bits pending) s"
proof (induction "pending_bits pending" arbitrary: pending callable failed first s)
  case Nil
  then show ?case
    by (subst cleanup_loop.simps) (simp add: next_cleanup_bit_pending release_all_def flip: Nil)
next
  case (Cons k ks)
  from Cons.hyps(2) have next_k: "next_cleanup_bit pending = Some k"
    by (simp add: next_cleanup_bit_pending flip: Cons.hyps(2))
  have rest: "ks = pending_bits (pending AND NOT (push_bit k 1))"
    using pending_bits_clear [OF Cons.hyps(2) [symmetric]] by simp
  show ?case
    using Cons.hyps(1) [OF rest]
    by (subst cleanup_loop.simps)
       (simp add: next_k Let_def release_all_def flip: Cons.hyps(2) rest split: prod.split
        del: push_bit_of_1)
qed

text \<open>What the masks record: a resource is released well when it was callable and succeeded.\<close>

definition release_callable :: "nat \<Rightarrow> session \<Rightarrow> bool" where
  "release_callable k s \<longleftrightarrow>
     (k = 0 \<longrightarrow> ss_file_close_valid s) \<and> (k = 1 \<longrightarrow> ss_root_close_valid s)"

lemma release_fst [simp]: "fst (release fw k s) \<longleftrightarrow> release_callable k s"
  by (auto simp: release_def release_callable_def Let_def)

definition release_failed :: "firmware \<Rightarrow> nat \<Rightarrow> session \<Rightarrow> bool" where
  "release_failed fw k s \<longleftrightarrow> release_callable k s \<and> fst (snd (release fw k s)) \<noteq> EFI_SUCCESS"

text \<open>The session at which resource \<open>k\<close> is released, when the resources \<open>ks\<close> are.\<close>

definition session_at :: "firmware \<Rightarrow> nat list \<Rightarrow> nat \<Rightarrow> session \<Rightarrow> session" where
  "session_at fw ks k s = release_all fw (takeWhile (\<lambda>j. j \<noteq> k) ks) s"

lemma session_at_Cons:
  "session_at fw (j # ks) k s =
     (if j = k then s else session_at fw ks k (snd (snd (snd (release fw j s)))))"
  by (simp add: session_at_def release_all_def)

lemma cleanup_loop_masks:
  assumes "k < 10"
  shows "(bit (fst (cleanup_loop fw pending callable failed first s)) k \<longleftrightarrow>
      bit callable k \<and>
      (k \<in> set (pending_bits pending) \<longrightarrow>
        release_callable k (session_at fw (pending_bits pending) k s)))
   \<and> (bit (fst (snd (cleanup_loop fw pending callable failed first s))) k \<longleftrightarrow>
      bit failed k \<or>
      (k \<in> set (pending_bits pending) \<and>
        release_failed fw k (session_at fw (pending_bits pending) k s)))"
proof (induction "pending_bits pending" arbitrary: pending callable failed first s)
  case Nil
  then have "next_cleanup_bit pending = None"
    by (simp add: next_cleanup_bit_pending flip: Nil)
  then show ?case by (subst (1 2) cleanup_loop.simps) (simp flip: Nil)
next
  case (Cons j ks)
  have next_j: "next_cleanup_bit pending = Some j"
    by (simp add: next_cleanup_bit_pending flip: Cons.hyps(2))
  let ?p = "pending AND NOT (push_bit j 1)"
  have rest: "pending_bits ?p = ks"
    using pending_bits_clear [OF Cons.hyps(2) [symmetric]] .
  have dist: "distinct (j # ks)" using Cons.hyps(2) by (simp add: pending_bits_def)
  obtain c st reg s' where r: "release fw j s = (c, st, reg, s')" by (cases "release fw j s")
  have c: "c \<longleftrightarrow> release_callable j s" using release_fst [of fw j s] r by simp
  note IH = Cons.hyps(1) [OF rest [symmetric], unfolded rest]
  have step: "cleanup_loop fw pending callable failed first s =
      (if \<not> c then cleanup_loop fw ?p (callable AND NOT (push_bit j 1)) failed first s'
       else if st \<noteq> EFI_SUCCESS
       then cleanup_loop fw ?p callable (failed OR push_bit j 1)
              (case first of None \<Rightarrow> Some (reg, st) | Some e \<Rightarrow> first) s'
       else cleanup_loop fw ?p callable failed first s')"
    by (subst cleanup_loop.simps) (simp add: next_j r Let_def del: push_bit_of_1)
  have at: "session_at fw (j # ks) k s = (if j = k then s else session_at fw ks k s')"
    by (simp add: session_at_Cons r)
  have k32: "k < 32" using assms by simp
  show ?case
    unfolding step Cons.hyps(2) [symmetric] at
    using dist c r
    by (auto simp: IH bit_and_not_push [OF k32] bit_or_push [OF k32] release_failed_def
        simp del: push_bit_of_1)
qed

section \<open>What a cleanup does to the session\<close>

definition resource_acquired :: "session \<Rightarrow> nat \<Rightarrow> bool" where
  "resource_acquired s k \<longleftrightarrow>
     (if k = 0 then ss_file s \<noteq> None else if k = 1 then ss_root s \<noteq> None
      else if k = 2 then ss_simple_open s else if k = 3 then ss_loaded_open s
      else ss_addresses s ! (9 - k) \<noteq> 0)"

definition release_calls :: "session \<Rightarrow> nat \<Rightarrow> call list" where
  "release_calls s k =
     (if k = 0 then (if ss_file_close_valid s then [CloseFile] else [])
      else if k = 1 then (if ss_root_close_valid s then [CloseRoot] else [])
      else if k = 2 then [CloseSimple (ss_device s)]
      else if k = 3 then [CloseLoaded]
      else [FreePages (ss_addresses s ! (9 - k)) (rs_pages (REGIONS ! (9 - k)))])"

lemma resource_acquired_mask:
  assumes "length (ss_addresses s) = 6" and "k < 32"
  shows "bit (session_acquired_mask s) k \<longleftrightarrow> k < 10 \<and> resource_acquired s k"
proof -
  have "(\<exists>i < 6. ss_addresses s ! i \<noteq> 0 \<and> 9 - i = k) \<longleftrightarrow>
      4 \<le> k \<and> k < 10 \<and> ss_addresses s ! (9 - k) \<noteq> 0"
  proof
    assume "4 \<le> k \<and> k < 10 \<and> ss_addresses s ! (9 - k) \<noteq> 0"
    then show "\<exists>i < 6. ss_addresses s ! i \<noteq> 0 \<and> 9 - i = k"
      by (intro exI [of _ "9 - k"]) auto
  qed auto
  then show ?thesis
    using assms(1)
    unfolding session_acquired_mask_def bit_acquired_mask [OF assms(2)] resource_acquired_def
    by (auto simp: nth_map)
qed

lemma pending_acquired:
  "length (ss_addresses s) = 6 \<Longrightarrow>
   pending_bits (session_acquired_mask s) = filter (resource_acquired s) [0..<10]"
  unfolding pending_bits_def by (rule filter_cong) (auto simp: resource_acquired_mask)

abbreviation released :: "firmware \<Rightarrow> nat \<Rightarrow> session \<Rightarrow> session" where
  "released fw k s \<equiv> snd (snd (snd (release fw k s)))"

lemma released_log: "ss_calls (released fw k s) = ss_calls s @ release_calls s k"
  by (simp add: release_def release_calls_def log_call_def Let_def)

lemma released_frame [simp]:
  "ss_file_close_valid (released fw k s) = ss_file_close_valid s"
  "ss_root_close_valid (released fw k s) = ss_root_close_valid s"
  "ss_device (released fw k s) = ss_device s"
  "length (ss_addresses (released fw k s)) = length (ss_addresses s)"
  by (auto simp: release_def log_call_def Let_def)

lemma released_address:
  "j < 10 \<Longrightarrow> k < 10 \<Longrightarrow> j \<noteq> k \<Longrightarrow> 4 \<le> j \<Longrightarrow>
   ss_addresses (released fw k s) ! (9 - j) = ss_addresses s ! (9 - j)"
  by (auto simp: release_def log_call_def Let_def)

lemma released_other:
  assumes "j < 10" and "k < 10" and "j \<noteq> k"
  shows "release_calls (released fw k s) j = release_calls s j"
    and "resource_acquired (released fw k s) j = resource_acquired s j"
proof -
  show "release_calls (released fw k s) j = release_calls s j"
    using released_address [OF assms] by (auto simp: release_calls_def)
  show "resource_acquired (released fw k s) j = resource_acquired s j"
    using assms by (auto simp: resource_acquired_def release_def log_call_def Let_def)
qed

lemma released_self:
  "k < 10 \<Longrightarrow> length (ss_addresses s) = 6 \<Longrightarrow> \<not> resource_acquired (released fw k s) k"
  by (auto simp: resource_acquired_def release_def log_call_def Let_def)

lemma release_callable_frame [simp]: "release_callable j (released fw k s) = release_callable j s"
  by (simp add: release_callable_def)

lemma release_all_effect:
  assumes "distinct ks" and "\<forall>k \<in> set ks. k < 10" and "length (ss_addresses s) = 6"
  shows "ss_calls (release_all fw ks s) = ss_calls s @ concat (map (release_calls s) ks)
    \<and> length (ss_addresses (release_all fw ks s)) = 6
    \<and> (\<forall>j<10. resource_acquired (release_all fw ks s) j
          \<longleftrightarrow> resource_acquired s j \<and> j \<notin> set ks)"
  using assms
proof (induction ks arbitrary: s)
  case Nil
  then show ?case by (simp add: release_all_def)
next
  case (Cons k ks)
  let ?s = "released fw k s"
  have prems: "distinct ks" "\<forall>k \<in> set ks. k < 10" "length (ss_addresses ?s) = 6" "k < 10"
    "k \<notin> set ks"
    using Cons.prems by simp_all
  note IH = Cons.IH [OF prems(1-3)]
  have calls: "map (release_calls ?s) ks = map (release_calls s) ks"
    using prems by (auto intro!: released_other(1))
  have "resource_acquired (release_all fw ks ?s) j
      \<longleftrightarrow> resource_acquired s j \<and> j \<notin> set (k # ks)" if "j < 10" for j
    using IH that prems released_other(2) [of j k fw s] released_self [of k s fw] Cons.prems(3)
    by auto
  moreover have "release_all fw (k # ks) s = release_all fw ks ?s"
    by (simp add: release_all_def)
  ultimately show ?case
    using IH by (simp add: calls released_log)
qed

lemma mask_zero:
  assumes "length (ss_addresses s) = 6" and "\<forall>j<10. \<not> resource_acquired s j"
  shows "session_acquired_mask s = 0"
proof (rule bit_word_eqI)
  fix n assume "n < LENGTH(32)"
  then show "bit (session_acquired_mask s) n \<longleftrightarrow> bit 0 n"
    using assms resource_acquired_mask [OF assms(1), of n] by auto
qed

lemma cleanup_parts:
  "cleanup fw s = (session_acquired_mask s,
     session_acquired_mask s AND fst (cleanup_loop fw (session_acquired_mask s)
         (session_acquired_mask s) 0 None s)
       AND NOT (fst (snd (cleanup_loop fw (session_acquired_mask s)
         (session_acquired_mask s) 0 None s))),
     fst (snd (snd (cleanup_loop fw (session_acquired_mask s)
         (session_acquired_mask s) 0 None s))),
     release_all fw (pending_bits (session_acquired_mask s)) s)"
  using cleanup_loop_session [of fw "session_acquired_mask s" "session_acquired_mask s" 0 None s]
  unfolding cleanup_def cleanup_plan_def Let_def
  by (cases "cleanup_loop fw (session_acquired_mask s) (session_acquired_mask s) 0 None s") simp

section \<open>The masks of a cleanup\<close>

lemma takeWhile_filter_upt:
  assumes "k < n" and "P k"
  shows "takeWhile (\<lambda>j. j \<noteq> k) (filter P [0..<n]) = filter P [0..<k]"
proof -
  have "[0..<n] = [0..<k] @ k # [Suc k..<n]"
    using assms(1) upt_add_eq_append [of 0 k "n - k"] by (simp add: upt_conv_Cons)
  then have "filter P [0..<n] = filter P [0..<k] @ k # filter P [Suc k..<n]"
    using assms(2) by simp
  moreover have "takeWhile (\<lambda>j. j \<noteq> k) (filter P [0..<k] @ k # filter P [Suc k..<n])
      = filter P [0..<k]"
    by (subst takeWhile_append2) auto
  ultimately show ?thesis by simp
qed

lemma release_status:
  "k < 10 \<Longrightarrow> release_callable k s \<Longrightarrow>
   fst (snd (release fw k s)) = fw_release fw (ss_calls s) (hd (release_calls s k))"
  by (auto simp: release_def release_calls_def release_callable_def Let_def)

lemma release_calls_kept:
  "distinct ks \<Longrightarrow> \<forall>j \<in> set ks. j < 10 \<Longrightarrow> k < 10 \<Longrightarrow> k \<notin> set ks \<Longrightarrow>
   release_calls (release_all fw ks s) k = release_calls s k
   \<and> release_callable k (release_all fw ks s) = release_callable k s"
proof (induction ks arbitrary: s)
  case Nil
  then show ?case by (simp add: release_all_def)
next
  case (Cons j ks)
  have "release_all fw (j # ks) s = release_all fw ks (released fw j s)"
    by (simp add: release_all_def)
  moreover have "release_calls (released fw j s) k = release_calls s k"
    using Cons.prems by (intro released_other(1)) auto
  ultimately show ?case
    using Cons.IH [of "released fw j s"] Cons.prems by simp
qed

text \<open>The calls made before resource \<open>k\<close> is released.\<close>

definition calls_before :: "session \<Rightarrow> nat \<Rightarrow> call list" where
  "calls_before s k =
     ss_calls s @ concat (map (release_calls s) (filter (resource_acquired s) [0..<k]))"

lemma cleanup_bits:
  assumes len: "length (ss_addresses s) = 6" and k: "k < 32"
  shows "case cleanup fw s of (attempted, ok, first, s') \<Rightarrow>
     (bit attempted k \<longleftrightarrow> k < 10 \<and> resource_acquired s k) \<and>
     (bit ok k \<longleftrightarrow> k < 10 \<and> resource_acquired s k \<and> release_callable k s \<and>
        fw_release fw (calls_before s k) (hd (release_calls s k)) = EFI_SUCCESS)"
proof -
  let ?m = "session_acquired_mask s"
  let ?loop = "cleanup_loop fw ?m ?m 0 None s"
  have attempted: "bit ?m k \<longleftrightarrow> k < 10 \<and> resource_acquired s k"
    using len k by (rule resource_acquired_mask)
  have ok: "bit (?m AND fst ?loop AND NOT (fst (snd ?loop))) k \<longleftrightarrow>
      k < 10 \<and> resource_acquired s k \<and> release_callable k s \<and>
      fw_release fw (calls_before s k) (hd (release_calls s k)) = EFI_SUCCESS"
  proof (cases "k < 10 \<and> resource_acquired s k")
    case False
    then show ?thesis using attempted by (auto simp: bit_and_iff)
  next
    case True
    let ?ks = "filter (resource_acquired s) [0..<k]"
    have ks: "distinct ?ks" "\<forall>j \<in> set ?ks. j < 10" "k \<notin> set ?ks" using True by auto
    have pend: "k \<in> set (pending_bits ?m)" using True by (simp add: pending_acquired [OF len])
    have at: "session_at fw (pending_bits ?m) k s = release_all fw ?ks s"
      using True by (simp add: session_at_def pending_acquired [OF len] takeWhile_filter_upt)
    note kept = release_calls_kept [OF ks(1,2) _ ks(3), of fw s]
    have hist: "ss_calls (release_all fw ?ks s) = calls_before s k"
      using release_all_effect [OF ks(1,2) len, of fw] by (simp add: calls_before_def)
    have status: "release_failed fw k (release_all fw ?ks s) \<longleftrightarrow>
        release_callable k s \<and>
        fw_release fw (calls_before s k) (hd (release_calls s k)) \<noteq> EFI_SUCCESS"
      using kept True release_status [of k "release_all fw ?ks s" fw]
      by (auto simp: release_failed_def hist)
    have "bit (fst ?loop) k \<longleftrightarrow> release_callable k s"
      "bit (fst (snd ?loop)) k \<longleftrightarrow> release_failed fw k (release_all fw ?ks s)"
      using cleanup_loop_masks [of k fw ?m ?m 0 None s] True pend kept attempted
      by (auto simp: at)
    then show ?thesis
      using True attempted k status by (auto simp: bit_and_iff bit_not_iff possible_bit_word)
  qed
  show ?thesis unfolding cleanup_parts using attempted ok by simp
qed

text \<open>
  The cleanup masks tell the truth: bit \<open>k\<close> of \<open>attempted\<close> is set exactly when resource
  \<open>k\<close> was held, and bit \<open>k\<close> of \<open>ok\<close> exactly when it was held, had a usable release function
  and the firmware answered that release call with success; so \<open>ok\<close> never contains a bit that
  \<open>attempted\<close> lacks, and no bit above the ten resources appears in either.
\<close>

theorem cleanup_masks_exact:
  assumes len: "length (ss_addresses s) = 6" and k: "k < 32"
  shows "case cleanup fw s of (attempted, ok, first, s') \<Rightarrow>
     (bit attempted k \<longleftrightarrow> k < 10 \<and> resource_acquired s k) \<and>
     (bit ok k \<longleftrightarrow> k < 10 \<and> resource_acquired s k \<and> release_callable k s \<and>
        fw_release fw (calls_before s k) (hd (release_calls s k)) = EFI_SUCCESS)"
  using assms by (rule cleanup_bits)

theorem cleanup_masks_exact_witness:
  "case cleanup \<lparr>fw_open_loaded = \<lambda>_. (0, None), fw_open_simple = \<lambda>_. (0, None),
        fw_open_volume = \<lambda>_. (0, None), fw_open_file = \<lambda>_. (0, None), fw_emit = \<lambda>_ _. True,
        fw_allocate = \<lambda>_ _. (0, 0), fw_read = \<lambda>_ _. (0, 0, \<lambda>_. 0), fw_release = \<lambda>_ _. 7\<rparr>
      (session_new\<lparr>ss_loaded_open := True\<rparr>) of
     (attempted, ok, first, s') \<Rightarrow>
     (bit attempted 3 \<longleftrightarrow> 3 < (10 :: nat) \<and> resource_acquired (session_new\<lparr>ss_loaded_open := True\<rparr>) 3) \<and>
     (bit ok 3 \<longleftrightarrow> 3 < (10 :: nat) \<and> resource_acquired (session_new\<lparr>ss_loaded_open := True\<rparr>) 3 \<and>
        release_callable 3 (session_new\<lparr>ss_loaded_open := True\<rparr>) \<and>
        fw_release \<lparr>fw_open_loaded = \<lambda>_. (0, None), fw_open_simple = \<lambda>_. (0, None),
        fw_open_volume = \<lambda>_. (0, None), fw_open_file = \<lambda>_. (0, None), fw_emit = \<lambda>_ _. True,
        fw_allocate = \<lambda>_ _. (0, 0), fw_read = \<lambda>_ _. (0, 0, \<lambda>_. 0), fw_release = \<lambda>_ _. 7\<rparr>
          (calls_before (session_new\<lparr>ss_loaded_open := True\<rparr>) 3)
          (hd (release_calls (session_new\<lparr>ss_loaded_open := True\<rparr>) 3)) = EFI_SUCCESS)"
  by (rule cleanup_masks_exact) (simp_all add: session_new_def)

section \<open>Acquisition of the storage\<close>

text \<open>A step of \<open>execute\<close>: an error or a value, and the session it leaves.\<close>

type_synonym ('e, 'a) stage = "session \<Rightarrow> ('e + 'a) \<times> session"

definition then_stage :: "('e, unit) stage \<Rightarrow> ('e, 'a) stage \<Rightarrow> ('e, 'a) stage" where
  "then_stage m n s = (case m s of (Inl e, s') \<Rightarrow> (Inl e, s') | (Inr _, s') \<Rightarrow> n s')"

definition check_failure :: "error_tuple option \<Rightarrow> (error_tuple, unit) stage" where
  "check_failure t s = (case t of Some e \<Rightarrow> (Inl e, s) | None \<Rightarrow> (Inr (), s))"

definition open_loaded :: "firmware \<Rightarrow> (error_tuple, unit) stage" where
  "open_loaded fw s =
    (case fw_open_loaded fw (ss_calls s) of (status, interface) \<Rightarrow>
       let s = (log_call OpenLoaded s)\<lparr>ss_loaded_open := (status = EFI_SUCCESS)\<rparr>;
           (revision, device) = (case interface of None \<Rightarrow> (0, 0) | Some i \<Rightarrow> i)
       in case loaded_transition status (interface \<noteq> None) revision (device \<noteq> 0) of
            Some t \<Rightarrow> (Inl t, s)
          | None \<Rightarrow> (Inr (), s\<lparr>ss_device := device\<rparr>))"

definition open_simple :: "firmware \<Rightarrow> (error_tuple, unit) stage" where
  "open_simple fw s =
    (case fw_open_simple fw (ss_calls s) of (status, interface) \<Rightarrow>
       let s = (log_call (OpenSimple (ss_device s)) s)\<lparr>ss_simple_open := (status = EFI_SUCCESS)\<rparr>;
           (revision, open_volume) = (case interface of None \<Rightarrow> (0, False) | Some i \<Rightarrow> i)
       in check_failure (simple_transition status (interface \<noteq> None) revision open_volume) s)"

definition open_volume :: "firmware \<Rightarrow> (error_tuple, unit) stage" where
  "open_volume fw s =
    (case fw_open_volume fw (ss_calls s) of (status, root) \<Rightarrow>
       let s = (log_call OpenVolume s)\<lparr>ss_root := root\<rparr>
       in case root of
            None \<Rightarrow> check_failure (volume_transition status False) s
          | Some f \<Rightarrow>
              (case volume_transition status True of
                 Some t \<Rightarrow> (Inl t, s)
               | None \<Rightarrow>
                   let s = s\<lparr>ss_root_close_valid := fp_close f\<rparr>
                   in check_failure (file_abi_transition True (fp_revision f) (fp_open f)
                        (fp_close f) (fp_read f)) s))"

definition open_file :: "firmware \<Rightarrow> (error_tuple, unit) stage" where
  "open_file fw s =
    (case fw_open_file fw (ss_calls s) of (status, opened) \<Rightarrow>
       let s = (log_call OpenFile s)\<lparr>ss_file := opened\<rparr>
       in case opened of
            None \<Rightarrow> check_failure (file_open_transition status False) s
          | Some f \<Rightarrow>
              (case file_open_transition status True of
                 Some t \<Rightarrow> (Inl t, s)
               | None \<Rightarrow>
                   let s = s\<lparr>ss_file_close_valid := fp_close f\<rparr>
                   in check_failure (file_abi_transition False (fp_revision f) (fp_open f)
                        (fp_close f) (fp_read f)) s))"

definition acquire_storage :: "firmware \<Rightarrow> (error_tuple, unit) stage" where
  "acquire_storage fw =
     then_stage (open_loaded fw)
       (then_stage (open_simple fw) (then_stage (open_volume fw) (open_file fw)))"

section \<open>Allocation of the regions\<close>

definition SESSION_BYTES :: nat where
  "SESSION_BYTES = 32768 * 2 * 4 + 1024 * 48 + (LOGIT_WORDS + 7) div 8"

definition region_spec :: "nat \<Rightarrow> string \<Rightarrow> region_spec" where
  "region_spec index mode =
     (if index = 5 \<and> mode = ''model_repl''
      then \<lparr>rs_name = ascii ''prompt'', rs_pages = (SESSION_BYTES + 4095) div 4096,
            rs_active = SESSION_BYTES, rs_guard = 0\<rparr>
      else REGIONS ! index)"

definition emit_stage :: "firmware \<Rightarrow> model_record \<Rightarrow> (failure, unit) stage" where
  "emit_stage fw r s =
     (case record_emission r of
        Inl t \<Rightarrow> (Inl (failure_contract t), s)
      | Inr bs \<Rightarrow> (emit_checked (fw_emit fw (ss_calls s)) bs, log_call (EmitRecord bs) s))"

definition allocate_region ::
  "firmware \<Rightarrow> string \<Rightarrow> nat \<Rightarrow> (failure, unit) stage" where
  "allocate_region fw mode index s =
    (let spec = region_spec index mode in
     case fw_allocate fw (ss_calls s) (rs_pages spec) of (status, address) \<Rightarrow>
       let s = (log_call (AllocatePages (rs_pages spec)) s)
                 \<lparr>ss_addresses := (ss_addresses s)[index := address]\<rparr>
       in if status \<noteq> EFI_SUCCESS
          then (Inl (failure_contract (allocation_status_failure index status)), s)
          else if address = 0 \<or> address AND 63 \<noteq> 0
          then (Inl (failure_contract (allocation_status_failure index EFI_OUT_OF_RESOURCES)), s)
          else emit_stage fw (region_record (ascii ''allocated'') spec address 0 0) s)"

primrec allocate_from ::
  "firmware \<Rightarrow> string \<Rightarrow> nat list \<Rightarrow> (failure, unit) stage" where
  "allocate_from fw mode [] s = (Inr (), s)"
| "allocate_from fw mode (i # js) s =
     then_stage (allocate_region fw mode i) (allocate_from fw mode js) s"

definition allocate_regions :: "firmware \<Rightarrow> string \<Rightarrow> (failure, unit) stage" where
  "allocate_regions fw mode = allocate_from fw mode [0..<length REGIONS]"

definition oom_failure :: failure where
  "oom_failure = failure_simple (ascii ''MODEL_OOM'') (ascii ''allocate'')"

text \<open>The two nested loops of \<open>ensure_nonoverlap\<close>; the sizes are those of \<open>REGIONS\<close>.\<close>

fun nonoverlap_right ::
  "(nat \<Rightarrow> nat) \<Rightarrow> u64 list \<Rightarrow> nat \<Rightarrow> nat \<Rightarrow> nat list \<Rightarrow> failure + unit" where
  "nonoverlap_right sz addresses left left_end [] = Inr ()"
| "nonoverlap_right sz addresses left left_end (right # rs) =
     (case checked_add (unat (addresses ! right)) (sz right) of
        None \<Rightarrow> Inl oom_failure
      | Some right_end \<Rightarrow>
          if unat (addresses ! left) < right_end \<and> unat (addresses ! right) < left_end
          then Inl (oom_failure\<lparr>fl_efi := Some EFI_OUT_OF_RESOURCES,
                      fl_region := Some (rs_name (REGIONS ! right))\<rparr>)
          else nonoverlap_right sz addresses left left_end rs)"

fun nonoverlap_left :: "(nat \<Rightarrow> nat) \<Rightarrow> u64 list \<Rightarrow> nat list \<Rightarrow> failure + unit" where
  "nonoverlap_left sz addresses [] = Inr ()"
| "nonoverlap_left sz addresses (left # ls) =
     (case checked_add (unat (addresses ! left)) (sz left) of
        None \<Rightarrow> Inl oom_failure
      | Some left_end \<Rightarrow>
          (case nonoverlap_right sz addresses left left_end [left + 1..<6] of
             Inl f \<Rightarrow> Inl f
           | Inr _ \<Rightarrow> nonoverlap_left sz addresses ls))"

definition region_size :: "nat \<Rightarrow> nat" where
  "region_size index = rs_pages (REGIONS ! index) * 4096"

definition ensure_nonoverlap :: "u64 list \<Rightarrow> failure + unit" where
  "ensure_nonoverlap addresses = nonoverlap_left region_size addresses [0..<6]"

section \<open>What a cleanup gives back\<close>

text \<open>
  The calls a cleanup must make: the file and the root if they can be closed, the two protocols, and
  the regions from prompt back to weights, each with the pages of the table \<open>REGIONS\<close>.
\<close>

definition FREED_PAGES :: "nat list" where
  "FREED_PAGES = [104191, 1025, 196608, 64, 149, 1]"

definition expected_releases :: "session \<Rightarrow> call list" where
  "expected_releases s =
     (if ss_file s \<noteq> None \<and> ss_file_close_valid s then [CloseFile] else []) @
     (if ss_root s \<noteq> None \<and> ss_root_close_valid s then [CloseRoot] else []) @
     (if ss_simple_open s then [CloseSimple (ss_device s)] else []) @
     (if ss_loaded_open s then [CloseLoaded] else []) @
     map (\<lambda>i. FreePages (ss_addresses s ! i) (FREED_PAGES ! i))
       (filter (\<lambda>i. ss_addresses s ! i \<noteq> 0) [5, 4, 3, 2, 1, 0])"

text \<open>The pages that were asked for with the regions a session holds, and those a list of calls frees.\<close>

definition pages_asked :: "string \<Rightarrow> session \<Rightarrow> nat" where
  "pages_asked mode s =
     sum_list (map (\<lambda>i. rs_pages (region_spec i mode)) (filter (\<lambda>i. ss_addresses s ! i \<noteq> 0) [0, 1, 2, 3, 4, 5]))"

fun pages_freed :: "call list \<Rightarrow> nat" where
  "pages_freed [] = 0"
| "pages_freed (FreePages address n # calls) = n + pages_freed calls"
| "pages_freed (call # calls) = pages_freed calls"

lemma pages_freed_append: "pages_freed (xs @ ys) = pages_freed xs + pages_freed ys"
  by (induction xs rule: pages_freed.induct) simp_all

lemma region_table: "map (\<lambda>i. rs_pages (REGIONS ! i)) [0, 1, 2, 3, 4, 5] = FREED_PAGES"
  by (simp add: REGIONS_def FREED_PAGES_def KV_BYTES_def SCRATCH_BYTES_def)

lemma concat_filter: "concat (map g (filter P xs)) = concat (map (\<lambda>x. if P x then g x else []) xs)"
  by (induction xs) simp_all

lemma region_pages:
  "rs_pages (REGIONS ! 0) = 104191" "rs_pages (REGIONS ! Suc 0) = 1025" "rs_pages (REGIONS ! 2) = 196608"
  "rs_pages (REGIONS ! 3) = 64" "rs_pages (REGIONS ! 4) = 149" "rs_pages (REGIONS ! 5) = 1"
  using region_table by (simp_all add: FREED_PAGES_def)

lemma releases_expected:
  "concat (map (release_calls s) (filter (resource_acquired s) [0..<10])) = expected_releases s"
proof -
  have ten: "[0..<10] = [0, 1, 2, 3] @ [4, 5, 6, 7, 8, 9 :: nat]" by (simp add: upt_rec)
  have files: "(if resource_acquired s k then release_calls s k else []) =
      (if k = 0 then (if ss_file s \<noteq> None \<and> ss_file_close_valid s then [CloseFile] else [])
       else if k = 1 then (if ss_root s \<noteq> None \<and> ss_root_close_valid s then [CloseRoot] else [])
       else if k = 2 then (if ss_simple_open s then [CloseSimple (ss_device s)] else [])
       else if k = 3 then (if ss_loaded_open s then [CloseLoaded] else [])
       else (if ss_addresses s ! (9 - k) \<noteq> 0
             then [FreePages (ss_addresses s ! (9 - k)) (rs_pages (REGIONS ! (9 - k)))] else []))" for k
    by (simp add: release_calls_def resource_acquired_def)
  have single: "map g (filter P xs) = concat (map (\<lambda>x. if P x then [g x] else []) xs)" for g :: "nat \<Rightarrow> call" and P xs
    by (induction xs) simp_all
  show ?thesis
    unfolding ten concat_filter files expected_releases_def single
    by (simp add: region_pages FREED_PAGES_def split del: if_split cong: if_cong)
qed

lemma pages_freed_regions: "pages_freed (map (\<lambda>i. FreePages (address i) (n i)) is) = sum_list (map n is)"
  by (induction "is") simp_all

lemma pages_left:
  "pages_asked mode s = pages_freed (expected_releases s) +
     (if mode = ''model_repl'' \<and> ss_addresses s ! 5 \<noteq> 0 then 80 else 0)"
proof -
  have spec: "rs_pages (region_spec i mode) = FREED_PAGES ! i" if "i \<in> {0, 1, 2, 3, 4}" for i
    using that by (auto simp: region_spec_def region_pages FREED_PAGES_def)
  have prompt: "rs_pages (region_spec 5 mode) = FREED_PAGES ! 5 + (if mode = ''model_repl'' then 80 else 0)"
    by (simp add: region_spec_def region_pages FREED_PAGES_def SESSION_BYTES_def LOGIT_WORDS_def)
  have closed: "pages_freed (if c then [CloseFile] else []) = 0" "pages_freed (if c then [CloseRoot] else []) = 0"
    "pages_freed (if c then [CloseSimple d] else []) = 0" "pages_freed (if c then [CloseLoaded] else []) = 0" for c d
    by simp_all
  have freed: "pages_freed (expected_releases s) =
      sum_list (map (\<lambda>i. if ss_addresses s ! i \<noteq> 0 then FREED_PAGES ! i else 0) [5, 4, 3, 2, 1, 0])"
    unfolding expected_releases_def pages_freed_append closed pages_freed_regions by (simp only: sum_list_map_filter' add_0)
  have asked: "pages_asked mode s =
      sum_list (map (\<lambda>i. if ss_addresses s ! i \<noteq> 0 then rs_pages (region_spec i mode) else 0) [0, 1, 2, 3, 4, 5])"
    unfolding pages_asked_def sum_list_map_filter' ..
  show ?thesis
    unfolding freed asked by (cases "ss_addresses s ! 5 = 0") (simp_all add: spec prompt split del: if_split cong: if_cong)
qed

section \<open>Properties of the cleanup\<close>

text \<open>
  C21: Whatever a session has acquired and whatever the firmware answers, a cleanup makes exactly one
  release call for each acquired resource and no other call, in the mandatory order file, root, the two
  protocols, then the regions from prompt back to weights; a file or root without a usable close
  function is dropped without a call, and a failing release does not stop the ones after it. Afterwards
  the session records nothing as held. Not every page goes back: each region is freed with the pages of
  the fixed table, so in mode \<open>model_repl\<close>, where the prompt region is allocated with 81 pages and freed
  with one, 80 of the pages asked for stay allocated; in every other mode none does.
\<close>

theorem cleanup_releases_each_once:
  assumes "length (ss_addresses s) = 6"
  shows "case cleanup fw s of (attempted, ok, first, s') \<Rightarrow>
     attempted = session_acquired_mask s \<and>
     ss_calls s' = ss_calls s @ expected_releases s \<and>
     session_acquired_mask s' = 0 \<and>
     pages_asked mode s = pages_freed (expected_releases s) +
       (if mode = ''model_repl'' \<and> ss_addresses s ! 5 \<noteq> 0 then 80 else 0)"
proof -
  let ?ks = "filter (resource_acquired s) [0..<10]"
  have "distinct ?ks" "\<forall>k \<in> set ?ks. k < 10" by simp_all
  note effect = release_all_effect [OF this assms, of fw]
  have "session_acquired_mask (release_all fw ?ks s) = 0"
    using effect by (intro mask_zero) auto
  with effect show ?thesis
    unfolding cleanup_parts using pages_left [of mode s]
    by (simp add: pending_acquired [OF assms] releases_expected)
qed

text \<open>The prompt region of the REPL, whose release fails, and the weights.\<close>

theorem cleanup_releases_each_once_witness:
  "case cleanup \<lparr>fw_open_loaded = \<lambda>_. (0, None), fw_open_simple = \<lambda>_. (0, None),
        fw_open_volume = \<lambda>_. (0, None), fw_open_file = \<lambda>_. (0, None), fw_emit = \<lambda>_ _. True,
        fw_allocate = \<lambda>_ _. (0, 0), fw_read = \<lambda>_ _. (0, 0, \<lambda>_. 0), fw_release = \<lambda>_ _. 7\<rparr>
      (session_new\<lparr>ss_loaded_open := True, ss_addresses := [4096, 0, 0, 0, 0, 8192]\<rparr>) of
     (attempted, ok, first, s') \<Rightarrow>
     ss_calls s' = [CloseLoaded, FreePages 8192 1, FreePages 4096 104191] \<and>
     session_acquired_mask s' = 0 \<and>
     pages_asked ''model_repl'' (session_new\<lparr>ss_loaded_open := True, ss_addresses := [4096, 0, 0, 0, 0, 8192]\<rparr>) =
       1 + 104191 + 80"
proof -
  let ?s = "session_new\<lparr>ss_loaded_open := True, ss_addresses := [4096, 0, 0, 0, 0, 8192]\<rparr>"
  have "expected_releases ?s = [CloseLoaded, FreePages 8192 1, FreePages 4096 104191]"
    by (simp add: expected_releases_def session_new_def FREED_PAGES_def)
  then show ?thesis
    using cleanup_releases_each_once [where s = ?s and mode = "''model_repl''" and fw = "\<lparr>fw_open_loaded = \<lambda>_. (0, None), fw_open_simple = \<lambda>_. (0, None),
        fw_open_volume = \<lambda>_. (0, None), fw_open_file = \<lambda>_. (0, None), fw_emit = \<lambda>_ _. True,
        fw_allocate = \<lambda>_ _. (0, 0), fw_read = \<lambda>_ _. (0, 0, \<lambda>_. 0), fw_release = \<lambda>_ _. 7\<rparr>"]
    by (simp add: session_new_def split_def)
qed

section \<open>Reading the model\<close>

text \<open>
  The read loop: each accepted chunk advances the offset and is hashed; \<open>chunks\<close> are the byte
  strings handed to the digest, in order.
\<close>

function read_loop ::
  "firmware \<Rightarrow> nat \<Rightarrow> nat \<Rightarrow> read_progress \<Rightarrow> bytes list \<Rightarrow> session \<Rightarrow>
   (error_tuple + bytes list \<times> read_progress) \<times> session" where
  "read_loop fw sz max_read progress chunks s =
     (if rp_offset progress < sz
      then let requested = min max_read (sz - rp_offset progress) in
           case fw_read fw (ss_calls s) requested of (status, count, buffer) \<Rightarrow>
             let s' = log_call (ReadFile (rp_offset progress) requested) s in
             (case progress_apply progress requested count status False of
                (Advance n, progress') \<Rightarrow>
                  read_loop fw sz max_read progress' (chunks @ [map buffer [0..<n]]) s'
              | (decision, _) \<Rightarrow> (Inl (the (read_failure decision status)), s'))
      else (Inr (chunks, progress), s))"
  by pat_completeness auto
termination
  by (relation "measure (\<lambda>(_, sz, _, progress, _, _). sz - rp_offset progress)")
     (auto simp: progress_apply_cases split: if_splits)

declare read_loop.simps [simp del]

definition read_model :: "firmware \<Rightarrow> nat \<Rightarrow> nat \<Rightarrow> session \<Rightarrow> (error_tuple + bytes list) \<times> session" where
  "read_model fw sz max_read s =
     (case read_loop fw sz max_read (progress_new sz) [] s of
        (Inl t, s') \<Rightarrow> (Inl t, s')
      | (Inr (chunks, progress), s') \<Rightarrow>
          (case fw_read fw (ss_calls s') 1 of (status, probe_bytes, _) \<Rightarrow>
             let s'' = log_call (ReadFile sz 1) s' in
             (case progress_apply progress 1 probe_bytes status True of
                (Complete, _) \<Rightarrow> (Inr chunks, s'')
              | (decision, _) \<Rightarrow> (Inl (the (read_failure decision status)), s''))))"

section \<open>Releasing the storage before the REPL\<close>

text \<open>\<open>close_storage\<close> stops at the first failure; what it has closed is marked closed.\<close>

definition close_file_stage :: "firmware \<Rightarrow> (failure, unit) stage" where
  "close_file_stage fw s =
     (if ss_file s = None then (Inr (), s)
      else if \<not> ss_file_close_valid s
      then (Inl (failure_simple (ascii ''MODEL_FILE_ABI'') (ascii ''close'')), s)
      else let status = fw_release fw (ss_calls s) CloseFile; s = log_call CloseFile s
           in if status \<noteq> EFI_SUCCESS
              then (Inl (failure_efi (ascii ''MODEL_FILE_CLOSE'') (ascii ''close'') status), s)
              else (Inr (), s\<lparr>ss_file := None\<rparr>))"

definition close_root_stage :: "firmware \<Rightarrow> (failure, unit) stage" where
  "close_root_stage fw s =
     (if ss_root s = None then (Inr (), s)
      else if \<not> ss_root_close_valid s
      then (Inl (failure_simple (ascii ''MODEL_ROOT_ABI'') (ascii ''close'')), s)
      else let status = fw_release fw (ss_calls s) CloseRoot; s = log_call CloseRoot s
           in if status \<noteq> EFI_SUCCESS
              then (Inl (failure_efi (ascii ''MODEL_ROOT_CLOSE'') (ascii ''close'') status), s)
              else (Inr (), s\<lparr>ss_root := None\<rparr>))"

definition close_simple_stage :: "firmware \<Rightarrow> (failure, unit) stage" where
  "close_simple_stage fw s =
     (if \<not> ss_simple_open s then (Inr (), s)
      else let c = CloseSimple (ss_device s);
               status = fw_release fw (ss_calls s) c; s = log_call c s
           in if status \<noteq> EFI_SUCCESS
              then (Inl (failure_efi (ascii ''MODEL_SIMPLE_CLOSE'') (ascii ''close'') status), s)
              else (Inr (), s\<lparr>ss_simple_open := False\<rparr>))"

definition close_loaded_stage :: "firmware \<Rightarrow> (failure, unit) stage" where
  "close_loaded_stage fw s =
     (if \<not> ss_loaded_open s then (Inr (), s)
      else let status = fw_release fw (ss_calls s) CloseLoaded; s = log_call CloseLoaded s
           in if status \<noteq> EFI_SUCCESS
              then (Inl (failure_efi (ascii ''MODEL_LOADED_CLOSE'') (ascii ''close'') status), s)
              else (Inr (), s\<lparr>ss_loaded_open := False\<rparr>))"

definition close_storage :: "firmware \<Rightarrow> (failure, unit) stage" where
  "close_storage fw =
     then_stage (close_file_stage fw)
       (then_stage (close_root_stage fw)
         (then_stage (close_simple_stage fw) (close_loaded_stage fw)))"

section \<open>The end of a run\<close>

definition emit_failure :: "firmware \<Rightarrow> failure \<Rightarrow> u32 \<Rightarrow> u32 \<Rightarrow> session \<Rightarrow> session" where
  "emit_failure fw f attempted ok s =
     log_call (EmitRecord (record_as_bytes (failure_record f attempted ok)))
       (log_call (Diagnostic (fl_code f)) s)"

definition emit_raw :: "firmware \<Rightarrow> model_record \<Rightarrow> session \<Rightarrow> bool \<times> session" where
  "emit_raw fw r s =
     (fw_emit fw (ss_calls s) (record_as_bytes r), log_call (EmitRecord (record_as_bytes r)) s)"

definition record_overflow_failure :: failure where
  "record_overflow_failure = failure_simple (ascii ''MODEL_RECORD'') (ascii ''record'')"

definition finish_run ::
  "firmware \<Rightarrow> bytes \<Rightarrow> bytes \<Rightarrow> failure + unit \<Rightarrow> session \<Rightarrow> u64 \<times> session" where
  "finish_run fw mode build_id outcome s =
    (case cleanup fw s of (attempted, ok, cleanup_error, s) \<Rightarrow>
       let primary_selection = primary_survives_cleanup
             (case outcome of Inl _ \<Rightarrow> Some 1 | Inr _ \<Rightarrow> None)
             (map_option (\<lambda>_. 2 :: nat) cleanup_error)
       in case outcome of
            Inl f \<Rightarrow> (EFI_DEVICE_ERROR, emit_failure fw f attempted ok s)
          | Inr _ \<Rightarrow>
             if primary_selection = Some 2
             then let status = snd (the cleanup_error);
                      b = (case next_cleanup_bit (attempted AND NOT ok) of
                             Some k \<Rightarrow> k | None \<Rightarrow> 0);
                      f = (failure_contract (cleanup_failure b None))\<lparr>fl_efi := Some status\<rparr>
                  in (EFI_DEVICE_ERROR, emit_failure fw f attempted ok s)
             else let r = cleanup_record attempted ok in
                  if rec_overflow r
                  then (EFI_DEVICE_ERROR, emit_failure fw record_overflow_failure attempted ok s)
                  else case emit_raw fw r s of (sent, s) \<Rightarrow>
                    if \<not> sent then (EFI_DEVICE_ERROR, s)
                    else let c = complete_record mode build_id in
                         if rec_overflow c
                         then (EFI_DEVICE_ERROR,
                               emit_failure fw record_overflow_failure attempted ok s)
                         else case emit_raw fw c s of (sent, s) \<Rightarrow>
                                if \<not> sent then (EFI_DEVICE_ERROR, s) else (EFI_SUCCESS, s))"

section \<open>Masks of a failed acquisition\<close>

lemma cleanup_all_succeed:
  assumes len: "length (ss_addresses s) = 6"
    and success: "\<And>h c. fw_release fw h c = EFI_SUCCESS"
  shows "fst (cleanup fw s) = session_acquired_mask s"
    and "fst (snd (cleanup fw s)) =
      acquired_mask (ss_file s \<noteq> None \<and> ss_file_close_valid s)
        (ss_root s \<noteq> None \<and> ss_root_close_valid s) (ss_simple_open s) (ss_loaded_open s)
        (map (\<lambda>address. address \<noteq> 0) (ss_addresses s))"
proof -
  show "fst (cleanup fw s) = session_acquired_mask s" by (simp add: cleanup_parts)
  have bits: "bit (fst (snd (cleanup fw s))) k \<longleftrightarrow> bit (session_acquired_mask s) k \<and> release_callable k s"
    if "k < 32" for k
    using cleanup_bits [OF len that, of fw] success resource_acquired_mask [OF len that]
    by (auto split: prod.splits)
  show "fst (snd (cleanup fw s)) =
      acquired_mask (ss_file s \<noteq> None \<and> ss_file_close_valid s)
        (ss_root s \<noteq> None \<and> ss_root_close_valid s) (ss_simple_open s) (ss_loaded_open s)
        (map (\<lambda>address. address \<noteq> 0) (ss_addresses s))"
  proof (rule bit_word_eqI)
    fix k
    assume "k < LENGTH(32)"
    then have k: "k < 32" by simp
    show "bit (fst (snd (cleanup fw s))) k \<longleftrightarrow> bit (acquired_mask (ss_file s \<noteq> None \<and> ss_file_close_valid s)
        (ss_root s \<noteq> None \<and> ss_root_close_valid s) (ss_simple_open s) (ss_loaded_open s)
        (map (\<lambda>address. address \<noteq> 0) (ss_addresses s))) k"
      unfolding bits [OF k] session_acquired_mask_def bit_acquired_mask [OF k] release_callable_def
      by (cases "k = 0"; cases "k = 1") (auto simp: len)
  qed
qed

lemma small_masks:
  "acquired_mask False False False False [False, False, False, False, False, False] = 0"
  "acquired_mask False False False True [False, False, False, False, False, False] = 0x008"
  "acquired_mask False False True True [False, False, False, False, False, False] = 0x00c"
  "acquired_mask False True True True [False, False, False, False, False, False] = 0x00e"
  "acquired_mask True True True True [False, False, False, False, False, False] = 0x00f"
  by code_simp+

lemmas stage_defs = then_stage_def check_failure_def open_loaded_def open_simple_def
  open_volume_def open_file_def acquire_storage_def

lemmas transition_defs = loaded_transition_def simple_transition_def volume_transition_def
  file_abi_transition_def file_open_transition_def

text \<open>
  What each acquisition stage leaves behind, as the four storage flags. A stage that fails
  leaves the flags its error tuple announces.
\<close>

definition storage_flags :: "session \<Rightarrow> bool list" where
  "storage_flags s = [ss_file s \<noteq> None, ss_root s \<noteq> None, ss_simple_open s, ss_loaded_open s]"

definition close_flags :: "session \<Rightarrow> bool \<times> bool" where
  "close_flags s = (ss_file_close_valid s, ss_root_close_valid s)"

definition mask_of_flags :: "bool list \<Rightarrow> u32" where
  "mask_of_flags b =
     acquired_mask (b ! 0) (b ! 1) (b ! 2) (b ! 3) [False, False, False, False, False, False]"

definition tuple_matches :: "error_tuple \<Rightarrow> session \<Rightarrow> bool" where
  "tuple_matches t s \<longleftrightarrow>
     ss_addresses s = [0, 0, 0, 0, 0, 0]
     \<and> mask_of_flags (storage_flags s) = et_attempted t
     \<and> mask_of_flags [ss_file s \<noteq> None \<and> ss_file_close_valid s,
          ss_root s \<noteq> None \<and> ss_root_close_valid s, ss_simple_open s, ss_loaded_open s] = et_ok t"

definition stage_ready :: "bool list \<Rightarrow> session \<Rightarrow> bool" where
  "stage_ready b s \<longleftrightarrow>
     ss_addresses s = [0, 0, 0, 0, 0, 0] \<and> storage_flags s = b
     \<and> (ss_root s \<noteq> None \<longrightarrow> ss_root_close_valid s) \<and> (ss_file s \<noteq> None \<longrightarrow> ss_file_close_valid s)"

lemma flag_masks:
  "mask_of_flags [False, False, False, False] = 0"
  "mask_of_flags [False, False, False, True] = 0x008"
  "mask_of_flags [False, False, True, True] = 0x00c"
  "mask_of_flags [False, True, True, True] = 0x00e"
  "mask_of_flags [True, True, True, True] = 0x00f"
  by (simp_all add: mask_of_flags_def small_masks)

lemma open_loaded_stage:
  "stage_ready [False, False, False, False] s \<Longrightarrow>
   case open_loaded fw s of (Inl t, s') \<Rightarrow> tuple_matches t s'
   | (Inr _, s') \<Rightarrow> stage_ready [False, False, False, True] s'"
  by (auto simp: stage_ready_def storage_flags_def tuple_matches_def flag_masks open_loaded_def
      loaded_transition_def storage_failure_def error_tuple_def log_call_def Let_def
      split: prod.splits option.splits)

lemma open_simple_stage:
  "stage_ready [False, False, False, True] s \<Longrightarrow>
   case open_simple fw s of (Inl t, s') \<Rightarrow> tuple_matches t s'
   | (Inr _, s') \<Rightarrow> stage_ready [False, False, True, True] s'"
  by (auto simp: stage_ready_def storage_flags_def tuple_matches_def flag_masks open_simple_def
      simple_transition_def storage_failure_def error_tuple_def log_call_def Let_def
      check_failure_def split: prod.splits option.splits)

lemma open_volume_stage:
  assumes "\<And>h. fst (fw_open_volume fw h) \<noteq> EFI_SUCCESS \<Longrightarrow> snd (fw_open_volume fw h) = None"
    and "stage_ready [False, False, True, True] s"
  shows "case open_volume fw s of (Inl t, s') \<Rightarrow> tuple_matches t s'
   | (Inr _, s') \<Rightarrow> stage_ready [False, True, True, True] s'"
  using assms(2) assms(1) [of "ss_calls s"]
  by (auto simp: stage_ready_def storage_flags_def tuple_matches_def flag_masks open_volume_def
      volume_transition_def file_abi_transition_def storage_failure_def error_tuple_def
      log_call_def Let_def check_failure_def split: prod.splits option.splits)

lemma open_file_stage:
  assumes "\<And>h. fst (fw_open_file fw h) \<noteq> EFI_SUCCESS \<Longrightarrow> snd (fw_open_file fw h) = None"
    and "stage_ready [False, True, True, True] s"
  shows "case open_file fw s of (Inl t, s') \<Rightarrow> tuple_matches t s'
   | (Inr _, s') \<Rightarrow> stage_ready [True, True, True, True] s'"
  using assms(2) assms(1) [of "ss_calls s"]
  by (auto simp: stage_ready_def storage_flags_def tuple_matches_def flag_masks open_file_def
      file_open_transition_def file_abi_transition_def storage_failure_def error_tuple_def
      log_call_def Let_def check_failure_def split: prod.splits option.splits)

end
