(* ===== verification/PB_Lifecycle.thy ===== *)
theory PB_Lifecycle
  imports PB_Session
begin

text \<open>
  Properties of the resource life cycle of \<open>src/model_target.rs\<close> that span its stages: the
  masks of a failed acquisition and of a failed allocation against the contract tables, the
  overlap check of the six regions, the read loop, the storage release before the REPL, and
  the end of a run.
\<close>

text \<open>A firmware that answers every call with success and hands out the given replies.\<close>

definition good_file :: file_protocol where
  "good_file = \<lparr>fp_revision = 0x10000, fp_open = True, fp_close = True, fp_read = True\<rparr>"

definition sample_firmware :: firmware where
  "sample_firmware =
     \<lparr>fw_open_loaded = \<lambda>_. (0, Some (0x1000, 1)), fw_open_simple = \<lambda>_. (0, Some (0x10000, True)),
      fw_open_volume = \<lambda>_. (0, Some good_file), fw_open_file = \<lambda>_. (EFI_NOT_FOUND, None),
      fw_emit = \<lambda>_ _. True, fw_allocate = \<lambda>_ _. (EFI_OUT_OF_RESOURCES, 0),
      fw_read = \<lambda>_ _. (0, 0, \<lambda>_. 0), fw_release = \<lambda>_ _. 0\<rparr>"

section \<open>Storage\<close>

text \<open>
  The masks announced in the error tuple of a failing storage stage are the masks the
  cleanup then reports: for every firmware that leaves its output pointer null when it reports
  an error (as the UEFI specification has it) and that releases what it is asked to, if
  acquiring the storage fails with tuple \<open>t\<close>, a cleanup of the session returns exactly
  \<open>t\<close>'s \<open>attempted\<close> and \<open>ok\<close>; if it succeeds, all four storage resources are held.
\<close>

theorem storage_failure_masks_match_cleanup:
  assumes "\<And>h. fst (fw_open_volume fw h) \<noteq> EFI_SUCCESS \<Longrightarrow> snd (fw_open_volume fw h) = None"
    and "\<And>h. fst (fw_open_file fw h) \<noteq> EFI_SUCCESS \<Longrightarrow> snd (fw_open_file fw h) = None"
    and "\<And>h c. fw_release fw h c = EFI_SUCCESS"
  shows "case acquire_storage fw session_new of (r, s) \<Rightarrow>
     (case cleanup fw s of (attempted, ok, _, _) \<Rightarrow>
       (case r of Inl t \<Rightarrow> attempted = et_attempted t \<and> ok = et_ok t
        | Inr _ \<Rightarrow> attempted = 0x00f \<and> ok = 0x00f))"
proof -
  obtain r s where run: "acquire_storage fw session_new = (r, s)" by (cases "acquire_storage fw session_new")
  have start: "stage_ready [False, False, False, False] session_new"
    by (simp add: stage_ready_def session_new_def storage_flags_def)
  have "case r of Inl t \<Rightarrow> tuple_matches t s | Inr _ \<Rightarrow> stage_ready [True, True, True, True] s"
    using run start open_loaded_stage [of session_new fw]
      open_simple_stage [of "snd (open_loaded fw session_new)" fw]
      open_volume_stage [OF assms(1), of "snd (open_simple fw (snd (open_loaded fw session_new)))"]
      open_file_stage [OF assms(2),
        of "snd (open_volume fw (snd (open_simple fw (snd (open_loaded fw session_new)))))"]
    by (auto simp: acquire_storage_def then_stage_def split: prod.splits sum.splits)
  note result = this
  have zero: "ss_addresses s = [0, 0, 0, 0, 0, 0]"
    using result by (cases r) (auto simp: tuple_matches_def stage_ready_def)
  then have len: "length (ss_addresses s) = 6" by simp
  note masks = cleanup_all_succeed [OF len assms(3)]
  have "fst (cleanup fw s) = mask_of_flags (storage_flags s)"
    by (simp add: masks session_acquired_mask_def zero mask_of_flags_def storage_flags_def)
  moreover have "fst (snd (cleanup fw s)) =
      mask_of_flags [ss_file s \<noteq> None \<and> ss_file_close_valid s,
          ss_root s \<noteq> None \<and> ss_root_close_valid s, ss_simple_open s, ss_loaded_open s]"
    by (simp add: masks zero mask_of_flags_def)
  ultimately show ?thesis
    using result unfolding run
    by (cases r) (auto simp: tuple_matches_def stage_ready_def storage_flags_def flag_masks
        split: prod.splits)
qed

theorem storage_failure_masks_match_cleanup_witness:
  "case acquire_storage sample_firmware session_new of (r, s) \<Rightarrow>
     (case cleanup sample_firmware s of (attempted, ok, _, _) \<Rightarrow>
       (case r of Inl t \<Rightarrow> attempted = et_attempted t \<and> ok = et_ok t
        | Inr _ \<Rightarrow> attempted = 0x00f \<and> ok = 0x00f))"
  by (rule storage_failure_masks_match_cleanup)
     (simp_all add: sample_firmware_def EFI_SUCCESS_def)

section \<open>Allocation\<close>

lemma length_REGIONS: "length REGIONS = 6"
  by (simp add: REGIONS_def)

text \<open>The session while regions are allocated: storage held, regions below \<open>i\<close> held.\<close>

definition allocated_upto :: "nat \<Rightarrow> session \<Rightarrow> bool" where
  "allocated_upto i s \<longleftrightarrow>
     storage_flags s = [True, True, True, True] \<and>
     map (\<lambda>address. address \<noteq> 0) (ss_addresses s) = map (\<lambda>j. j < i) [0..<6]"

definition prior_mask :: "nat \<Rightarrow> u32" where
  "prior_mask i = acquired_mask True True True True (map (\<lambda>j. j < i) [0..<6])"

lemma prior_masks: "map prior_mask [0..<7] = allocation_prior @ [ALL_CLEANUP]"
  by code_simp

lemma allocated_mask: "allocated_upto i s \<Longrightarrow> session_acquired_mask s = prior_mask i"
  by (simp add: allocated_upto_def session_acquired_mask_def prior_mask_def storage_flags_def)

lemma prior_mask_nth: "i < 6 \<Longrightarrow> prior_mask i = allocation_prior ! i"
proof -
  assume i: "i < 6"
  have "length allocation_prior = 6" by (simp add: allocation_prior_def)
  moreover have "prior_mask i = map prior_mask [0..<7] ! i" using i by (subst nth_map) simp_all
  ultimately show ?thesis using i by (simp only: prior_masks nth_append if_True)
qed

lemma prior_mask_all: "prior_mask 6 = ALL_CLEANUP"
  by code_simp

lemma allocated_set:
  assumes "allocated_upto i s" and "i < 6"
  shows "allocated_upto (if address = 0 then i else Suc i)
    ((log_call c s)\<lparr>ss_addresses := (ss_addresses s)[i := address]\<rparr>)"
proof -
  have "map (\<lambda>address. address \<noteq> 0) ((ss_addresses s)[i := address]) =
      (map (\<lambda>j. j < i) [0..<6])[i := address \<noteq> 0]"
    using assms(1) by (simp add: allocated_upto_def map_update)
  moreover have "(map (\<lambda>j. j < i) [0..<6])[i := address \<noteq> 0] =
      map (\<lambda>j. j < (if address = 0 then i else Suc i)) [0..<6]"
    using assms(2) by (intro nth_equalityI) (auto simp: nth_list_update simp del: upt_conv_Cons)
  ultimately show ?thesis
    using assms(1) by (simp add: allocated_upto_def storage_flags_def log_call_def)
qed

lemma log_call_allocated [simp]: "allocated_upto i (log_call c s) = allocated_upto i s"
  by (simp add: allocated_upto_def storage_flags_def log_call_def)

text \<open>What may come out of the allocation of the regions from \<open>i\<close> on.\<close>

definition allocation_outcome :: "failure + unit \<Rightarrow> session \<Rightarrow> bool" where
  "allocation_outcome r s \<longleftrightarrow>
     (case r of
        Inr _ \<Rightarrow> session_acquired_mask s = ALL_CLEANUP
      | Inl f \<Rightarrow> fl_code f = ascii ''MODEL_RECORD'' \<or>
          list_ex (\<lambda>i. session_acquired_mask s = et_attempted (allocation_status_failure i (the (fl_efi f)))
            \<and> f = failure_contract (allocation_status_failure i (the (fl_efi f)))) [0..<6])"

lemma allocation_failure_outcome:
  assumes "i < 6" and "session_acquired_mask s = prior_mask i"
  shows "allocation_outcome (Inl (failure_contract (allocation_status_failure i status))) s"
proof -
  have "failure_contract (allocation_status_failure i status) =
      failure_contract (allocation_status_failure i
        (the (fl_efi (failure_contract (allocation_status_failure i status)))))"
    by (simp add: failure_contract_def allocation_status_failure_def error_tuple_def)
  then show ?thesis
    unfolding allocation_outcome_def
    using assms by (auto simp: list_ex_iff prior_mask_nth allocation_status_failure_def
        error_tuple_def intro!: bexI [of _ i])
qed

lemma emit_stage_code:
  "emit_stage fw r s = (Inl f, s') \<Longrightarrow> fl_code f = ascii ''MODEL_RECORD''"
  by (auto simp: emit_stage_def emit_checked_def record_emission_def failure_contract_def
      failure_simple_def error_tuple_def split: sum.splits if_splits)

lemma emit_stage_log:
  "emit_stage fw r s = (res, s') \<Longrightarrow> s' = s \<or> (\<exists>c. s' = log_call c s)"
  by (auto simp: emit_stage_def split: sum.splits)

lemma allocate_from_outcome:
  assumes fail: "\<And>h n. fst (fw_allocate fw h n) \<noteq> EFI_SUCCESS \<Longrightarrow> snd (fw_allocate fw h n) = 0"
    and align: "\<And>h n. snd (fw_allocate fw h n) AND 63 = 0"
  shows "i \<le> 6 \<Longrightarrow> allocated_upto i s \<Longrightarrow>
    case allocate_from fw mode [i..<6] s of (r, s') \<Rightarrow> allocation_outcome r s'"
proof (induction "6 - i" arbitrary: i s)
  case 0
  then have "i = 6" by simp
  with 0 allocated_mask [of 6 s] show ?case
    by (simp add: allocation_outcome_def prior_mask_all)
next
  case (Suc n)
  then have i: "i < 6" by simp
  obtain status address where reply:
    "fw_allocate fw (ss_calls s) (rs_pages (region_spec i mode)) = (status, address)"
    by fastforce
  let ?s = "(log_call (AllocatePages (rs_pages (region_spec i mode))) s)
      \<lparr>ss_addresses := (ss_addresses s)[i := address]\<rparr>"
  have next_state: "allocated_upto (if address = 0 then i else Suc i) ?s"
    using allocated_set [OF Suc.prems(2) i] .
  have list: "[i..<6] = i # [Suc i..<6]" using i by (simp add: upt_conv_Cons)
  have ok: "status \<noteq> EFI_SUCCESS \<Longrightarrow> address = 0" and al: "address AND 63 = 0"
    using fail [of "ss_calls s" "rs_pages (region_spec i mode)"]
      align [of "ss_calls s" "rs_pages (region_spec i mode)"] by (simp_all add: reply)
  show ?case
  proof (cases "address = 0")
    case True
    then have "session_acquired_mask ?s = prior_mask i"
      using next_state allocated_mask by simp
    with True show ?thesis
      unfolding list
      by (auto simp: then_stage_def allocate_region_def reply Let_def
          intro: allocation_failure_outcome [OF i])
  next
    case False
    then have next_state: "allocated_upto (Suc i) ?s" and st: "status = EFI_SUCCESS"
      using next_state ok by auto
    obtain r s' where emit: "emit_stage fw
        (region_record (ascii ''allocated'') (region_spec i mode) address 0 0) ?s = (r, s')"
      by fastforce
    have s': "allocated_upto (Suc i) s'"
      using emit_stage_log [OF emit] next_state by auto
    have "allocate_region fw mode i s = (r, s')"
      using False st al emit
      by (simp add: allocate_region_def reply Let_def del: ascii_simps)
    then show ?thesis
      using Suc.hyps(1) [of "Suc i" s'] Suc.hyps(2) s' i emit_stage_code
      unfolding list
      by (cases r) (use emit in \<open>auto simp: then_stage_def allocation_outcome_def\<close>)
  qed
qed

text \<open>
  The masks of the allocation table are the masks a cleanup would report: starting with the
  storage held, for every firmware that leaves the address slot zero when it reports an error
  and returns 64-byte aligned addresses (pages), if allocation fails at region \<open>i\<close> then exactly
  the resources of \<open>allocation_status_failure i\<close> are held (the four storage resources and the
  regions before \<open>i\<close>), and after success all ten are. The only other failure is a record that
  could not be written.
\<close>

theorem allocation_masks_match_table:
  assumes "\<And>h n. fst (fw_allocate fw h n) \<noteq> EFI_SUCCESS \<Longrightarrow> snd (fw_allocate fw h n) = 0"
    and "\<And>h n. snd (fw_allocate fw h n) AND 63 = 0"
    and "stage_ready [True, True, True, True] s"
  shows "case allocate_regions fw mode s of
     (Inr _, s') \<Rightarrow> session_acquired_mask s' = ALL_CLEANUP
   | (Inl f, s') \<Rightarrow> fl_code f = ascii ''MODEL_RECORD'' \<or>
       list_ex (\<lambda>i. session_acquired_mask s' =
             et_attempted (allocation_status_failure i (the (fl_efi f)))
           \<and> f = failure_contract (allocation_status_failure i (the (fl_efi f)))) [0..<6]"
proof -
  have "allocated_upto 0 s"
    using assms(3) by (simp add: stage_ready_def allocated_upto_def upt_rec)
  then show ?thesis
    using allocate_from_outcome [OF assms(1,2), of 0 s mode]
    unfolding allocate_regions_def length_REGIONS allocation_outcome_def
    by (auto split: prod.split sum.split simp del: ascii_simps)
qed

theorem allocation_masks_match_table_witness:
  "case allocate_regions sample_firmware ''model_repl''
      (session_new\<lparr>ss_loaded_open := True, ss_simple_open := True, ss_root := Some good_file,
        ss_file := Some good_file, ss_root_close_valid := True, ss_file_close_valid := True\<rparr>) of
     (Inr _, s') \<Rightarrow> session_acquired_mask s' = ALL_CLEANUP
   | (Inl f, s') \<Rightarrow> fl_code f = ascii ''MODEL_RECORD'' \<or>
       list_ex (\<lambda>i. session_acquired_mask s' =
             et_attempted (allocation_status_failure i (the (fl_efi f)))
           \<and> f = failure_contract (allocation_status_failure i (the (fl_efi f)))) [0..<6]"
  by (rule allocation_masks_match_table)
     (simp_all add: sample_firmware_def stage_ready_def session_new_def storage_flags_def)

section \<open>Overlap of the regions\<close>

definition region_end :: "(nat \<Rightarrow> nat) \<Rightarrow> u64 list \<Rightarrow> nat \<Rightarrow> nat" where
  "region_end sz addresses i = unat (addresses ! i) + sz i"

lemma nonoverlap_right_Inr:
  "nonoverlap_right sz addresses left left_end rs = Inr () \<longleftrightarrow>
     list_all (\<lambda>r. region_end sz addresses r < u64_limit \<and>
       (region_end sz addresses r \<le> unat (addresses ! left) \<or> left_end \<le> unat (addresses ! r))) rs"
  by (induction rs)
     (auto simp: region_end_def checked_add_def not_less not_le split: option.splits if_splits)

lemma nonoverlap_left_Inr:
  "nonoverlap_left sz addresses ls = Inr () \<longleftrightarrow>
     list_all (\<lambda>l. region_end sz addresses l < u64_limit \<and>
       list_all (\<lambda>r. region_end sz addresses r < u64_limit \<and>
         (region_end sz addresses r \<le> unat (addresses ! l)
          \<or> region_end sz addresses l \<le> unat (addresses ! r))) [l + 1..<6]) ls"
proof (induction ls)
  case Nil
  then show ?case by simp
next
  case (Cons l ls)
  show ?case
  proof (cases "region_end sz addresses l < u64_limit")
    case False
    then show ?thesis by (simp add: region_end_def checked_add_def)
  next
    case True
    then have "checked_add (unat (addresses ! l)) (sz l) = Some (region_end sz addresses l)"
      by (simp add: region_end_def checked_add_def)
    with True Cons.IH nonoverlap_right_Inr [of sz addresses l "region_end sz addresses l" "[l + 1..<6]"]
    show ?thesis by (auto split: sum.split simp del: upt_Suc)
  qed
qed

text \<open>
  The overlap check accepts six addresses exactly when every region, taken with the size
  \<open>REGIONS\<close> gives it, ends below \<open>2 ^ 64\<close> and each two of them are disjoint.
\<close>

theorem nonoverlap_accepts_disjoint_regions:
  "ensure_nonoverlap addresses = Inr () \<longleftrightarrow>
     list_all (\<lambda>l. unat (addresses ! l) + region_size l < 2 ^ 64 \<and>
       list_all (\<lambda>r. unat (addresses ! r) + region_size r \<le> unat (addresses ! l)
          \<or> unat (addresses ! l) + region_size l \<le> unat (addresses ! r)) [l + 1..<6]) [0..<6]"
proof -
  have "list_all (\<lambda>l. P l \<and> list_all (\<lambda>r. P r \<and> Q l r) [l + 1..<6]) [0..<6] \<longleftrightarrow>
      list_all (\<lambda>l. P l \<and> list_all (Q l) [l + 1..<6]) [0..<6]" for P :: "nat \<Rightarrow> bool" and Q
    by (force simp: list_all_iff)
  from this [of "\<lambda>l. region_end region_size addresses l < u64_limit"
      "\<lambda>l r. region_end region_size addresses r \<le> unat (addresses ! l)
          \<or> region_end region_size addresses l \<le> unat (addresses ! r)"]
  show ?thesis
    unfolding ensure_nonoverlap_def nonoverlap_left_Inr by (simp add: region_end_def u64_limit_def)
qed

text \<open>
  The check and the cleanup do not cover the prompt region of the REPL: in mode
  \<open>model_repl\<close> the region is allocated with 81 pages, but \<open>ensure_nonoverlap\<close> and \<open>cleanup\<close>
  use the one page of \<open>REGIONS\<close>. Addresses at which the allocated prompt region contains the
  start of the index region pass the check, and the cleanup asks the firmware to free one page
  of the 81.
\<close>

theorem repl_prompt_region_uncovered:
  "let addresses = [0x80000000, 0x201000, 0x40000000, 0x10000000, 0x11000000, 0x200000]
   in rs_pages (region_spec 5 ''model_repl'') = 81
    \<and> ensure_nonoverlap addresses = Inr ()
    \<and> unat (addresses ! 5) \<le> unat (addresses ! 1)
    \<and> unat (addresses ! 1) < unat (addresses ! 5) + rs_pages (region_spec 5 ''model_repl'') * 4096
    \<and> release_calls (session_new\<lparr>ss_addresses := addresses\<rparr>) 4 = [FreePages 0x200000 1]"
proof -
  have "ensure_nonoverlap [0x80000000, 0x201000, 0x40000000, 0x10000000, 0x11000000, 0x200000]
      = Inr ()"
    unfolding ensure_nonoverlap_def nonoverlap_left_Inr
    by (simp add: region_end_def u64_limit_def upt_rec region_size_def REGIONS_def
        KV_BYTES_def SCRATCH_BYTES_def)
  then show ?thesis
    by (simp add: release_calls_def REGIONS_def region_spec_def SESSION_BYTES_def
        LOGIT_WORDS_def)
qed

section \<open>Reading the model\<close>

lemma read_loop_result:
  assumes "rp_total progress = sz" and "rp_offset progress \<le> sz"
    and "length (concat chunks) = rp_offset progress"
    and "list_all (\<lambda>c. c \<noteq> [] \<and> length c \<le> max_read) chunks"
  shows "case read_loop fw sz max_read progress chunks s of
      (Inr (chunks', progress'), s') \<Rightarrow>
        length (concat chunks') = sz \<and> rp_offset progress' = sz \<and> rp_total progress' = sz \<and>
        list_all (\<lambda>c. c \<noteq> [] \<and> length c \<le> max_read) chunks'
    | (Inl t, s') \<Rightarrow> et_code t \<in> {''MODEL_TRUNCATED'', ''MODEL_READ''}"
  using assms
proof (induction fw sz max_read progress chunks s rule: read_loop.induct)
  case (1 fw sz max_read progress chunks s)
  show ?case
  proof (cases "rp_offset progress < sz")
    case False
    with 1 (2-) show ?thesis by (subst read_loop.simps) simp
  next
    case True
    let ?req = "min max_read (sz - rp_offset progress)"
    obtain status count buffer where reply:
      "fw_read fw (ss_calls s) ?req = (status, count, buffer)" by (metis prod_cases3)
    let ?s = "log_call (ReadFile (rp_offset progress) ?req) s"
    show ?thesis
    proof (cases "status = EFI_SUCCESS \<and> count \<le> ?req \<and> count \<noteq> 0
        \<and> rp_offset progress + count < u64_limit")
      case accepted: True
      then have accept: "progress_apply progress ?req count status False =
          (Advance count, progress\<lparr>rp_offset := rp_offset progress + count\<rparr>)"
        using True "1.prems"(1) by (auto simp: progress_apply_cases)
      have step: "read_loop fw sz max_read progress chunks s =
          read_loop fw sz max_read (progress\<lparr>rp_offset := rp_offset progress + count\<rparr>)
            (chunks @ [map buffer [0..<count]]) ?s"
        using True by (subst read_loop.simps) (simp add: reply accept Let_def)
      show ?thesis
        unfolding step
        using accepted True "1.prems"
        by (intro "1.IH" [OF True refl reply [symmetric] refl refl accept [symmetric] refl]) auto
    next
      case False
      then have "progress_apply progress ?req count status False = (Truncated, progress) \<and> status = EFI_SUCCESS
          \<or> progress_apply progress ?req count status False = (Read, progress)"
        using True "1.prems"(1) by (auto simp: progress_apply_cases)
      then have "\<exists>d. d \<in> {Truncated, Read} \<and> read_loop fw sz max_read progress chunks s =
          (Inl (the (read_failure d status)), ?s)"
        using True by (subst read_loop.simps) (auto simp: reply Let_def)
      then show ?thesis
        by (auto simp: read_failure_def error_tuple_def)
    qed
  qed
qed

text \<open>
  C34: The model is read completely or an error is reported: whatever the firmware answers, when
  \<open>read_model\<close> succeeds the byte strings given to the digest have exactly the size of the file
  in total, none is empty and none longer than the largest request; when it fails, the error is
  one of the three read errors (so the unwrapped failure exists). The loop always ends.
\<close>

theorem read_model_complete_or_error:
  "case read_model fw sz max_read s of
     (Inr chunks, s') \<Rightarrow> length (concat chunks) = sz
       \<and> list_all (\<lambda>c. c \<noteq> [] \<and> length c \<le> max_read) chunks
   | (Inl t, s') \<Rightarrow> et_code t \<in> {''MODEL_TRUNCATED'', ''MODEL_OVERSIZED'', ''MODEL_READ''}"
proof -
  have "case read_loop fw sz max_read (progress_new sz) [] s of
      (Inr (chunks', progress'), s') \<Rightarrow>
        length (concat chunks') = sz \<and> rp_offset progress' = sz \<and> rp_total progress' = sz \<and>
        list_all (\<lambda>c. c \<noteq> [] \<and> length c \<le> max_read) chunks'
    | (Inl t, s') \<Rightarrow> et_code t \<in> {''MODEL_TRUNCATED'', ''MODEL_READ''}"
    by (rule read_loop_result) (simp_all add: progress_new_def)
  then show ?thesis
    unfolding read_model_def
    by (auto simp: Let_def progress_apply_cases read_failure_def error_tuple_def
        split: prod.splits sum.splits)
qed

section \<open>Releasing the storage\<close>

lemma close_storage_success:
  assumes "close_storage fw s = (Inr (), s')"
  shows "ss_calls s' = ss_calls s @
      concat (map (release_calls s) (filter (resource_acquired s) [0..<4]))
    \<and> ss_addresses s' = ss_addresses s
    \<and> (\<forall>k<10. resource_acquired s' k \<longleftrightarrow> 4 \<le> k \<and> resource_acquired s k)"
proof -
  have four: "[0..<4] = [0, 1, 2, 3 :: nat]" by (simp add: upt_rec)
  have storage: "ss_file s' = None" "ss_root s' = None" "\<not> ss_simple_open s'" "\<not> ss_loaded_open s'"
    "ss_addresses s' = ss_addresses s"
    using assms
    by (auto simp: close_storage_def then_stage_def close_file_stage_def close_root_stage_def
        close_simple_stage_def close_loaded_stage_def Let_def log_call_def
        split: if_splits prod.splits sum.splits)
  moreover have "ss_calls s' = ss_calls s @
      concat (map (release_calls s) (filter (resource_acquired s) [0..<4]))"
    using assms unfolding four
    by (auto simp: close_storage_def then_stage_def close_file_stage_def close_root_stage_def
        close_simple_stage_def close_loaded_stage_def Let_def log_call_def
        resource_acquired_def release_calls_def
        split: if_splits prod.splits sum.splits)
  ultimately show ?thesis by (auto simp: resource_acquired_def)
qed

text \<open>
  Closing the storage before the REPL never leads to a double release: when
  \<open>close_storage\<close> succeeds, it has released the storage in the cleanup order, and the cleanup
  after it makes exactly the calls that were left, so both together make the same calls, in the
  same order, as a cleanup of the session on its own.
\<close>

theorem close_storage_then_cleanup:
  assumes "length (ss_addresses s) = 6"
  shows "case close_storage fw s of
     (Inr _, s') \<Rightarrow> (case cleanup fw s' of (_, _, _, s'') \<Rightarrow>
        ss_calls s'' = ss_calls s @
          concat (map (release_calls s) (filter (resource_acquired s) [0..<10])))
   | (Inl f, s') \<Rightarrow> fl_phase f = ascii ''close''"
proof (cases "close_storage fw s")
  case (Pair r s')
  show ?thesis
  proof (cases r)
    case (Inl f)
    with Pair have "close_storage fw s = (Inl f, s')" by simp
    then have "fl_phase f = ascii ''close''"
      by (auto simp: close_storage_def then_stage_def close_file_stage_def close_root_stage_def
          close_simple_stage_def close_loaded_stage_def Let_def failure_simple_def
          failure_efi_def split: if_splits prod.splits sum.splits simp del: ascii_simps)
    with Pair Inl show ?thesis by simp
  next
    case (Inr u)
    with Pair have run: "close_storage fw s = (Inr (), s')" by simp
    note closed = close_storage_success [OF run]
    have len: "length (ss_addresses s') = 6" using closed assms by simp
    let ?ks = "filter (resource_acquired s') [0..<10]"
    have "[0..<10] = [0..<4] @ [4..<10::nat]" by (simp add: upt_rec)
    then have split: "filter P [0..<10] = filter P [0..<4] @ filter P [4..<10]"
      for P :: "nat \<Rightarrow> bool" by simp
    have ks: "?ks = filter (resource_acquired s) [4..<10]"
    proof -
      have "filter (resource_acquired s') [0..<4] = []"
        using closed by (auto simp: filter_empty_conv)
      moreover have "filter (resource_acquired s') [4..<10] = filter (resource_acquired s) [4..<10]"
        using closed by (intro filter_cong) auto
      ultimately show ?thesis by (simp add: split)
    qed
    have calls: "map (release_calls s') ?ks = map (release_calls s) ?ks"
      unfolding ks using closed by (auto simp: release_calls_def)
    have "distinct ?ks" "\<forall>k \<in> set ?ks. k < 10" by simp_all
    note effect = release_all_effect [OF this len, of fw]
    have "ss_calls (snd (snd (snd (cleanup fw s')))) =
        ss_calls s' @ concat (map (release_calls s') ?ks)"
      unfolding cleanup_parts pending_acquired [OF len] snd_conv using effect by (rule conjunct1)
    also have "\<dots> = ss_calls s @ concat (map (release_calls s)
        (filter (resource_acquired s) [0..<4] @ filter (resource_acquired s) [4..<10]))"
      unfolding calls unfolding ks map_append concat_append using closed by simp
    finally have "ss_calls (snd (snd (snd (cleanup fw s')))) = ss_calls s @
        concat (map (release_calls s) (filter (resource_acquired s) [0..<10]))"
      unfolding split .
    then show ?thesis
      unfolding run by (cases "cleanup fw s'") simp
  qed
qed

theorem close_storage_then_cleanup_witness:
  "case close_storage sample_firmware (session_new\<lparr>ss_loaded_open := True\<rparr>) of
     (Inr _, s') \<Rightarrow> (case cleanup sample_firmware s' of (_, _, _, s'') \<Rightarrow>
        ss_calls s'' = ss_calls (session_new\<lparr>ss_loaded_open := True\<rparr>) @
          concat (map (release_calls (session_new\<lparr>ss_loaded_open := True\<rparr>))
            (filter (resource_acquired (session_new\<lparr>ss_loaded_open := True\<rparr>)) [0..<10])))
   | (Inl f, s') \<Rightarrow> fl_phase f = ascii ''close''"
  by (rule close_storage_then_cleanup) (simp add: session_new_def)

section \<open>The end of a run\<close>

lemma cleanup_session:
  "length (ss_addresses s) = 6 \<Longrightarrow> cleanup fw s = (a, ok, first, s') \<Longrightarrow>
   session_acquired_mask s' = 0"
proof -
  assume len: "length (ss_addresses s) = 6" and run: "cleanup fw s = (a, ok, first, s')"
  let ?ks = "filter (resource_acquired s) [0..<10]"
  have "distinct ?ks" "\<forall>k \<in> set ?ks. k < 10" by simp_all
  note effect = release_all_effect [OF this len, of fw]
  have "s' = release_all fw ?ks s"
    using run by (simp add: cleanup_parts pending_acquired [OF len])
  then show ?thesis using effect by (intro mask_zero) auto
qed

lemma acquired_log [simp]: "session_acquired_mask (log_call c s) = session_acquired_mask s"
  by (simp add: session_acquired_mask_def log_call_def)

lemma cleanup_calls:
  "length (ss_addresses s) = 6 \<Longrightarrow> cleanup fw s = (a, ok, first, s') \<Longrightarrow>
   ss_calls s' = ss_calls s @ expected_releases s"
proof -
  assume len: "length (ss_addresses s) = 6" and run: "cleanup fw s = (a, ok, first, s')"
  let ?ks = "filter (resource_acquired s) [0..<10]"
  have "distinct ?ks" "\<forall>k \<in> set ?ks. k < 10" by simp_all
  note effect = release_all_effect [OF this len, of fw]
  have "s' = release_all fw ?ks s"
    using run by (simp add: cleanup_parts pending_acquired [OF len])
  then show ?thesis using effect releases_expected [of s] by simp
qed

text \<open>
  C20: However a run ends, \<open>finish_run\<close> makes the release call of every resource the session holds,
  before anything else and each once, and the session records nothing as held. The pages asked for with
  the regions are freed but for the 80 of the prompt region in mode \<open>model_repl\<close>, which stay allocated.
  Success is returned only when the run succeeded and no release failed; when the run failed, the status
  is an error and the last two things that happen, after the cleanup, are the diagnostic and the fatal
  record with the run's own failure (a cleanup error never hides it) and the masks of that cleanup.
\<close>

theorem finish_run_releases_and_reports:
  assumes "length (ss_addresses s) = 6"
  shows "case finish_run fw mode_name build_id outcome s of (status, s') \<Rightarrow>
     session_acquired_mask s' = 0 \<and>
     take (length (ss_calls s @ expected_releases s)) (ss_calls s') = ss_calls s @ expected_releases s \<and>
     pages_asked mode s = pages_freed (drop (length (ss_calls s)) (ss_calls s')) +
       (if mode = ''model_repl'' \<and> ss_addresses s ! 5 \<noteq> 0 then 80 else 0) \<and>
     (case cleanup fw s of (attempted, ok, first, s1) \<Rightarrow>
       (case outcome of
          Inl f \<Rightarrow> status = EFI_DEVICE_ERROR \<and>
            ss_calls s' = ss_calls s1 @ [Diagnostic (fl_code f),
              EmitRecord (record_as_bytes (failure_record f attempted ok))]
        | Inr _ \<Rightarrow> status = EFI_DEVICE_ERROR \<or> status = EFI_SUCCESS \<and> first = None))"
proof -
  obtain a ok first s1 where run: "cleanup fw s = (a, ok, first, s1)"
    by (cases "cleanup fw s")
  have held: "session_acquired_mask s1 = 0" using cleanup_session [OF assms run] .
  have calls: "ss_calls s1 = ss_calls s @ expected_releases s" using cleanup_calls [OF assms run] .
  obtain status s' where finish: "finish_run fw mode_name build_id outcome s = (status, s')" by fastforce
  have "\<exists>more. ss_calls s' = ss_calls s1 @ more \<and> pages_freed more = 0"
    using finish by (cases outcome; cases first)
      (auto simp: finish_run_def run Let_def emit_failure_def emit_raw_def log_call_def
        primary_survives_cleanup_def split: if_splits)
  then have "take (length (ss_calls s @ expected_releases s)) (ss_calls s') = ss_calls s @ expected_releases s"
    "pages_freed (drop (length (ss_calls s)) (ss_calls s')) = pages_freed (expected_releases s)"
    by (auto simp: calls pages_freed_append)
  moreover have "session_acquired_mask s' = 0 \<and>
      (case outcome of
         Inl f \<Rightarrow> status = EFI_DEVICE_ERROR \<and>
           ss_calls s' = ss_calls s1 @ [Diagnostic (fl_code f), EmitRecord (record_as_bytes (failure_record f a ok))]
       | Inr _ \<Rightarrow> status = EFI_DEVICE_ERROR \<or> status = EFI_SUCCESS \<and> first = None)"
    using held finish by (cases outcome; cases first)
      (auto simp: finish_run_def run Let_def emit_failure_def emit_raw_def log_call_def
        primary_survives_cleanup_def session_acquired_mask_def split: if_splits)
  ultimately show ?thesis
    using pages_left [of mode s] by (simp add: finish run)
qed

text \<open>A run of the REPL that succeeds and holds the weights and the prompt region.\<close>

theorem finish_run_releases_and_reports_witness:
  "case finish_run sample_firmware (ascii ''model_repl'') (ascii ''x'') (Inr ())
      (session_new\<lparr>ss_loaded_open := True, ss_addresses := [4096, 0, 0, 0, 0, 8192]\<rparr>) of (status, s') \<Rightarrow>
     session_acquired_mask s' = 0 \<and>
     take 3 (ss_calls s') = [CloseLoaded, FreePages 8192 1, FreePages 4096 104191]"
proof -
  let ?s = "session_new\<lparr>ss_loaded_open := True, ss_addresses := [4096, 0, 0, 0, 0, 8192]\<rparr>"
  have "expected_releases ?s = [CloseLoaded, FreePages 8192 1, FreePages 4096 104191]" "ss_calls ?s = []"
    by (simp_all add: expected_releases_def session_new_def FREED_PAGES_def)
  then show ?thesis
    using finish_run_releases_and_reports [where s = ?s and fw = sample_firmware and mode = "''model_repl''"
      and mode_name = "ascii ''model_repl''" and build_id = "ascii ''x''" and outcome = "Inr ()"]
    by (simp add: session_new_def split_def numeral_3_eq_3)
qed

end
