(* ===== verification/PB_Status.thy ===== *)
theory PB_Status
  imports PB_Sink PB_History
begin

text \<open>
  The console policy of \<open>src/console_contract.rs\<close> and the status bar of \<open>src/status_bar.rs\<close>:
  statuses and bindings of the UEFI console, the status row written over the content with its
  cursor and attribute restored, the periodic timer, the number of scrolls a text causes, the
  wrapped content output and the status lines. Callbacks into the firmware are functions of the
  calls made before, as everywhere in this development; statuses are \<open>nat\<close>, zero being success.
\<close>

section \<open>Console results\<close>

definition EFI_ERROR_BIT :: nat where "EFI_ERROR_BIT = 2 ^ 63"
definition EFI_NOT_READY :: nat where "EFI_NOT_READY = 2 ^ 63 + 6"
definition EFI_SHIFT_STATE_VALID :: u32 where "EFI_SHIFT_STATE_VALID = 0x80000000"
definition EFI_RIGHT_CONTROL_PRESSED :: u32 where "EFI_RIGHT_CONTROL_PRESSED = 4"
definition EFI_LEFT_CONTROL_PRESSED :: u32 where "EFI_LEFT_CONTROL_PRESSED = 8"

datatype console_failure =
    ClearFailure | InputMissing | ResetMissing | ReadMissing | EventMissing | WaitMissing
  | ResetFailure | WaitFailure | WaitIndex | ReadFailure

fun console_code :: "console_failure \<Rightarrow> bytes" where
  "console_code ClearFailure = ascii ''CONSOLE_CLEAR''"
| "console_code InputMissing = ascii ''CONSOLE_INPUT_MISSING''"
| "console_code ResetMissing = ascii ''CONSOLE_RESET_MISSING''"
| "console_code ReadMissing = ascii ''CONSOLE_READ_MISSING''"
| "console_code EventMissing = ascii ''CONSOLE_EVENT_MISSING''"
| "console_code WaitMissing = ascii ''CONSOLE_WAIT_MISSING''"
| "console_code ResetFailure = ascii ''CONSOLE_RESET''"
| "console_code WaitFailure = ascii ''CONSOLE_WAIT''"
| "console_code WaitIndex = ascii ''CONSOLE_WAIT_INDEX''"
| "console_code ReadFailure = ascii ''CONSOLE_READ''"

definition clear_result :: "nat \<Rightarrow> console_failure + unit" where
  "clear_result status = (if status = 0 then Inr () else Inl ClearFailure)"

definition validate_bindings ::
  "nat \<Rightarrow> nat \<Rightarrow> nat \<Rightarrow> nat \<Rightarrow> nat \<Rightarrow> console_failure + unit" where
  "validate_bindings con_in reset read wait_for_key wait_for_event =
     (if con_in = 0 then Inl InputMissing
      else if reset = 0 then Inl ResetMissing
      else if read = 0 then Inl ReadMissing
      else if wait_for_key = 0 then Inl EventMissing
      else if wait_for_event = 0 then Inl WaitMissing
      else Inr ())"

definition reset_result :: "nat \<Rightarrow> console_failure + unit" where
  "reset_result status = (if status = 0 then Inr () else Inl ResetFailure)"

definition wait_result :: "nat \<Rightarrow> nat \<Rightarrow> console_failure + unit" where
  "wait_result status index =
     (if status \<noteq> 0 then Inl WaitFailure else if index \<noteq> 0 then Inl WaitIndex else Inr ())"

definition read_result :: "nat \<Rightarrow> console_failure + bool" where
  "read_result status =
     (if status = 0 then Inr True
      else if status = EFI_NOT_READY then Inr False else Inl ReadFailure)"

definition is_generation_interrupt :: "u16 \<Rightarrow> u32 \<Rightarrow> bool" where
  "is_generation_interrupt unicode_char key_shift_state \<longleftrightarrow>
     (if unicode_char = 3 then True
      else let control =
             (key_shift_state AND (EFI_RIGHT_CONTROL_PRESSED OR EFI_LEFT_CONTROL_PRESSED) \<noteq> 0)
           in key_shift_state AND EFI_SHIFT_STATE_VALID \<noteq> 0 \<and> control
              \<and> (unicode_char = 0x43 \<or> unicode_char = 0x63))"

section \<open>Waiting and first errors\<close>

definition USIZE_MAX :: nat where "USIZE_MAX = 2 ^ 64 - 1"

datatype wait_source = Key | Timer

definition wait_source :: "nat \<Rightarrow> nat \<Rightarrow> nat + wait_source" where
  "wait_source status index =
     (if status \<noteq> 0 then Inl status
      else if index = 0 then Inr Key
      else if index = 1 then Inr Timer
      else Inl USIZE_MAX)"

definition first_error :: "nat option \<Rightarrow> nat \<Rightarrow> nat option" where
  "first_error first status =
     (if first \<noteq> None then first else if status = 0 then None else Some status)"

definition wait_key_first ::
  "'e \<Rightarrow> 'e \<Rightarrow> ('e list \<Rightarrow> nat \<Rightarrow> nat \<times> nat) \<Rightarrow> nat + wait_source" where
  "wait_key_first key timer wait =
     (case wait [key, timer] USIZE_MAX of (status, index) \<Rightarrow> wait_source status index)"

section \<open>The status row\<close>

definition inverted_attribute :: "32 word \<Rightarrow> nat" where
  "inverted_attribute attribute =
     (let wide = (scast attribute :: u64);
          foreground = wide AND 0x0f;
          background = drop_bit 4 wide AND 0x07
      in unat (background OR push_bit 4 (foreground AND 0x07)))"

datatype console_call = SetCursor nat nat | SetAttribute nat | OutputUnits "u16 list"

type_synonym console_reply = "console_call list \<Rightarrow> console_call \<Rightarrow> nat"

definition render_status_row ::
  "console_reply \<Rightarrow> nat \<Rightarrow> nat \<Rightarrow> nat \<Rightarrow> nat \<Rightarrow> u16 list \<Rightarrow> console_call list \<Rightarrow>
   (nat + unit) \<times> console_call list" where
  "render_status_row reply old_attribute old_column old_row status_row units h =
    (let call = (\<lambda>c (first, h). (first_error first (reply h c), h @ [c]));
         s = call (SetCursor 0 status_row) (None, h);
         s = (if fst s = None
              then call (SetAttribute (inverted_attribute (of_nat old_attribute))) s else s);
         s = (if fst s = None then call (OutputUnits units) s else s);
         s = call (SetAttribute old_attribute) s;
         s = call (SetCursor old_column old_row) s
     in case s of
          (Some status, h) \<Rightarrow> (Inl status, h)
        | (None, h) \<Rightarrow> (Inr (), h))"

section \<open>The periodic timer\<close>

definition STATUS_PERIOD_100NS :: nat where "STATUS_PERIOD_100NS = 5000000"
definition TIMER_CANCEL :: nat where "TIMER_CANCEL = 0"
definition TIMER_PERIODIC :: nat where "TIMER_PERIODIC = 1"

datatype timer_failure_kind = CreateFailed nat | SetFailed nat | CancelFailed nat | CloseFailed nat

datatype 'e timer_call = CreateEvent | SetTimer 'e nat nat | CloseEvent 'e

definition cleanup_periodic_timer ::
  "('e timer_call list \<Rightarrow> 'e timer_call \<Rightarrow> nat) \<Rightarrow> 'e \<Rightarrow> 'e timer_call list \<Rightarrow>
   (timer_failure_kind + unit) \<times> 'e timer_call list" where
  "cleanup_periodic_timer reply event h =
    (let cancel = reply h (SetTimer event TIMER_CANCEL 0);
         h = h @ [SetTimer event TIMER_CANCEL 0];
         close_status = reply h (CloseEvent event);
         h = h @ [CloseEvent event]
     in (if cancel \<noteq> 0 then Inl (CancelFailed cancel)
         else if close_status \<noteq> 0 then Inl (CloseFailed close_status)
         else Inr (), h))"

definition start_periodic_timer ::
  "('e timer_call list \<Rightarrow> nat + 'e) \<Rightarrow> ('e timer_call list \<Rightarrow> 'e timer_call \<Rightarrow> nat) \<Rightarrow>
   'e timer_call list \<Rightarrow> (timer_failure_kind + 'e) \<times> 'e timer_call list" where
  "start_periodic_timer create reply h =
    (case create h of
       Inl status \<Rightarrow> (Inl (CreateFailed status), h @ [CreateEvent])
     | Inr event \<Rightarrow>
        (let h = h @ [CreateEvent];
             set_call = SetTimer event TIMER_PERIODIC STATUS_PERIOD_100NS;
             status = reply h set_call;
             h = h @ [set_call]
         in if status \<noteq> 0
            then (Inl (SetFailed status), snd (cleanup_periodic_timer reply event h))
            else (Inr event, h)))"

definition primary_or_cleanup :: "'e + 't \<Rightarrow> 'e + unit \<Rightarrow> 'e + 't" where
  "primary_or_cleanup primary cleanup =
     (case primary of Inl e \<Rightarrow> Inl e
      | Inr v \<Rightarrow> (case cleanup of Inl e \<Rightarrow> Inl e | Inr _ \<Rightarrow> Inr v))"

section \<open>Runtime memory and turns\<close>

datatype 'e runtime_memory_failure = Memory | Emit 'e

definition measure_status_memory :: "u64 option \<Rightarrow> unit + u64" where
  "measure_status_memory measured = ok_or measured ()"

definition with_runtime_memory ::
  "u64 option \<Rightarrow> (u64 \<Rightarrow> 'e + 't) \<Rightarrow> 'e runtime_memory_failure + u64 \<times> 't" where
  "with_runtime_memory measured emit =
     (case measure_status_memory measured of
        Inl _ \<Rightarrow> Inl Memory
      | Inr memory \<Rightarrow>
          (case emit memory of Inl e \<Rightarrow> Inl (Emit e) | Inr emitted \<Rightarrow> Inr (memory, emitted)))"

datatype turn_completion = TurnSuccess | RecoverableFailure | FatalFailure

definition waiting_render_failure_is_terminal :: "turn_completion \<Rightarrow> bool" where
  "waiting_render_failure_is_terminal turn = (case turn of FatalFailure \<Rightarrow> False | _ \<Rightarrow> True)"

section \<open>Lines kept on the serial console\<close>

text \<open>The inner loop: how far the prefix matches, from \<open>index\<close> on.\<close>

function match_from :: "u16 list \<Rightarrow> bytes \<Rightarrow> nat \<Rightarrow> nat" where
  "match_from units pre index =
     (if index < length pre \<and> units ! index = ucast (pre ! index)
      then match_from units pre (index + 1) else index)"
  by pat_completeness auto
termination by (relation "measure (\<lambda>(_, pre, index). length pre - index)") auto

declare match_from.simps [simp del]

definition starts_with :: "u16 list \<Rightarrow> bytes \<Rightarrow> bool" where
  "starts_with units pre \<longleftrightarrow>
     length units \<ge> length pre \<and> match_from units pre 0 = length pre"

definition is_serial_evidence_line :: "u16 list \<Rightarrow> bool" where
  "is_serial_evidence_line units \<longleftrightarrow>
     list_ex (starts_with units)
       [ascii ''PROMPTBOOT_EVENT'', ascii ''events: on'', ascii ''events: off'']"

definition is_event_boundary_line :: "u16 list \<Rightarrow> bool" where
  "is_event_boundary_line units \<longleftrightarrow>
     list_ex (starts_with units) [ascii ''events: on'', ascii ''events: off'']"

section \<open>The runtime snapshot\<close>

datatype runtime_state = Loading | Waiting | Inferring

fun state_label :: "runtime_state \<Rightarrow> bytes" where
  "state_label Loading = ascii ''loading''"
| "state_label Waiting = ascii ''waiting''"
| "state_label Inferring = ascii ''inferring''"

datatype cpu_mode = Serial | Mp

fun cpu_label :: "cpu_mode \<Rightarrow> bytes" where
  "cpu_label Serial = ascii ''serial''"
| "cpu_label Mp = ascii ''mp''"

record cpu_topology =
  ct_mode :: cpu_mode
  ct_active :: u32
  ct_workers :: u32
  ct_enabled :: "u32 option"
  ct_processors :: "u32 option"

definition UNKNOWN_SERIAL :: cpu_topology where
  "UNKNOWN_SERIAL = \<lparr>ct_mode = Serial, ct_active = 1, ct_workers = 0, ct_enabled = None,
     ct_processors = None\<rparr>"

record runtime_snapshot =
  rt_state :: runtime_state
  rt_cpu :: cpu_topology
  rt_memory_baseline :: u64
  rt_memory_free :: u64
  rt_committed_tokens :: u32
  rt_engine_position :: u32
  rt_context_limit :: u32
  rt_generation_reserve :: u32

definition consumed_since_boot :: "runtime_snapshot \<Rightarrow> u64" where
  "consumed_since_boot s =
     (if rt_memory_free s \<le> rt_memory_baseline s
      then rt_memory_baseline s - rt_memory_free s else 0)"

definition bar_context :: "runtime_snapshot \<Rightarrow> u32" where
  "bar_context s =
     (case rt_state s of Inferring \<Rightarrow> rt_engine_position s
      | Loading \<Rightarrow> rt_committed_tokens s | Waiting \<Rightarrow> rt_committed_tokens s)"

definition bounded_status_geometry :: "nat \<Rightarrow> nat \<Rightarrow> (nat \<times> nat) option" where
  "bounded_status_geometry columns rs =
     (if columns < 2 \<or> rs < 2 then None
      else Some (if columns > MAX_COLUMNS then MAX_COLUMNS else columns, rs))"

definition inference_status_due :: "nat \<Rightarrow> bool" where
  "inference_status_due completed_tokens \<longleftrightarrow> completed_tokens \<noteq> 0 \<and> completed_tokens mod 4 = 0"

section \<open>Scrolling and wrapping\<close>

definition scroll_down :: "nat \<Rightarrow> nat \<Rightarrow> nat \<Rightarrow> nat \<times> nat" where
  "scroll_down content_rows row scrolls =
     (if row + 1 \<ge> content_rows then (content_rows - 1, scrolls + 1) else (row + 1, scrolls))"

definition scroll_unit :: "nat \<Rightarrow> nat \<Rightarrow> u16 \<Rightarrow> nat \<times> nat \<times> nat \<Rightarrow> nat \<times> nat \<times> nat" where
  "scroll_unit w content_rows u s =
     (case s of (col, row, scrolls) \<Rightarrow>
       if u = 0x0008 then (col - 1, row, scrolls)
       else if u = 0x000d then (0, row, scrolls)
       else if u = 0x000a then (col, scroll_down content_rows row scrolls)
       else if col + 1 = w then (0, scroll_down content_rows row scrolls)
       else (col + 1, row, scrolls))"

definition native_scrolls_for_output ::
  "u16 list \<Rightarrow> nat \<Rightarrow> nat \<Rightarrow> nat \<Rightarrow> nat \<Rightarrow> nat option" where
  "native_scrolls_for_output units col row w content_rows =
     (if w = 0 \<or> content_rows = 0 \<or> col \<ge> w \<or> row \<ge> content_rows then None
      else Some (snd (snd (fold (scroll_unit w content_rows) units (col, row, 0)))))"

text \<open>
  The loop of \<open>write_content_with_wrap\<close>: \<open>index\<close> runs over the text, \<open>start\<close> is the first unit
  not written yet; the callback replies to each output made so far.
\<close>

type_synonym output_reply = "u16 list list \<Rightarrow> u16 list \<Rightarrow> nat"

function wrap_loop ::
  "output_reply \<Rightarrow> u16 list \<Rightarrow> nat \<Rightarrow> nat \<Rightarrow> nat \<Rightarrow> nat \<Rightarrow> u16 list list \<Rightarrow>
   (nat + nat \<times> nat) \<times> u16 list list" where
  "wrap_loop reply units w index start col h =
     (if index < length units then
        (let u = units ! index in
         if u = 0x0008 then wrap_loop reply units w (index + 1) start (col - 1) h
         else if u = 0x000d then wrap_loop reply units w (index + 1) start 0 h
         else if u = 0x000a then wrap_loop reply units w (index + 1) start col h
         else if col + 1 = w then
           (let piece = slice units start (index + 1);
                status = reply h piece;
                h = h @ [piece]
            in if status \<noteq> 0 then (Inl status, h)
               else let status = reply h [0x000d, 0x000a]; h = h @ [[0x000d, 0x000a]]
                    in if status \<noteq> 0 then (Inl status, h)
                       else wrap_loop reply units w (index + 1) (index + 1) 0 h)
         else wrap_loop reply units w (index + 1) start (col + 1) h)
      else (Inr (start, col), h))"
  by pat_completeness auto
termination
  by (relation "measure (\<lambda>(_, units, _, index, _, _, _). length units - index)") auto

declare wrap_loop.simps [simp del]

definition write_content_with_wrap ::
  "output_reply \<Rightarrow> u16 list \<Rightarrow> nat \<Rightarrow> nat \<Rightarrow> u16 list list \<Rightarrow> (nat + nat) \<times> u16 list list" where
  "write_content_with_wrap reply units col w h =
     (if w = 0 \<or> col \<ge> w then (Inl USIZE_MAX, h)
      else case wrap_loop reply units w 0 0 col h of
        (Inl status, h) \<Rightarrow> (Inl status, h)
      | (Inr (start, col), h) \<Rightarrow>
          if start < length units
          then let piece = drop start units; status = reply h piece; h = h @ [piece]
               in if status \<noteq> 0 then (Inl status, h) else (Inr col, h)
          else (Inr col, h))"

section \<open>Status lines\<close>

record line =
  ln_output :: bytes
  ln_length :: nat

definition line_new :: "bytes \<Rightarrow> line" where
  "line_new buf = \<lparr>ln_output = buf, ln_length = 0\<rparr>"

definition push_byte :: "line \<Rightarrow> u8 \<Rightarrow> line" where
  "push_byte l b =
     (if ln_length l < length (ln_output l)
      then l\<lparr>ln_output := (ln_output l)[ln_length l := b], ln_length := ln_length l + 1\<rparr>
      else l)"

definition line_push :: "line \<Rightarrow> bytes \<Rightarrow> line" where
  "line_push l bs = foldl push_byte l bs"

text \<open>The do-while loop of the status line's \<open>push_decimal\<close>: at least one digit.\<close>

function line_digits :: "nat \<Rightarrow> bytes \<times> nat \<Rightarrow> bytes \<times> nat" where
  "line_digits v (digits, cnt) =
     (let digits' = digits[cnt := digit_byte v]
      in if v div 10 = 0 then (digits', cnt + 1) else line_digits (v div 10) (digits', cnt + 1))"
  by pat_completeness auto
termination by (relation "measure fst") auto

declare line_digits.simps [simp del]

definition line_push_decimal :: "line \<Rightarrow> u64 \<Rightarrow> line" where
  "line_push_decimal l v =
     (case line_digits (unat v) (replicate 20 0, 0) of
        (digits, cnt) \<Rightarrow> emit_digits line_push digits cnt l)"

definition push_optional :: "line \<Rightarrow> u32 option \<Rightarrow> line" where
  "push_optional l v =
     (case v of Some n \<Rightarrow> line_push_decimal l (ucast n)
      | None \<Rightarrow> line_push l (ascii ''unknown''))"

definition activity :: "u8 \<Rightarrow> u8" where
  "activity frame =
     (let f = frame AND 3 in if f = 0 then 124 else if f = 1 then 47 else if f = 2 then 45 else 92)"

definition loading_line :: "u8 \<Rightarrow> bytes \<Rightarrow> nat \<times> bytes" where
  "loading_line frame buf =
    (let l = line_new buf;
         l = line_push l (ascii '' promptboot ['');
         l = push_byte l (activity frame);
         l = line_push l (ascii ''] loading'')
     in (ln_length l, ln_output l))"

definition runtime_line :: "runtime_snapshot \<Rightarrow> u8 \<Rightarrow> bytes \<Rightarrow> nat \<times> bytes" where
  "runtime_line snapshot frame buf =
    (let l = line_new buf;
         l = line_push l (ascii '' promptboot ['');
         l = push_byte l (activity frame);
         l = line_push l (ascii ''] '');
         l = line_push l (state_label (rt_state snapshot));
         l = line_push l (ascii '' | CPU '');
         l = line_push_decimal l (ucast (ct_active (rt_cpu snapshot)));
         l = push_byte l 47;
         l = push_optional l (ct_enabled (rt_cpu snapshot));
         l = line_push l (ascii '' | MEM '');
         l = line_push_decimal l (rt_memory_free snapshot div (1024 * 1024));
         l = line_push l (ascii '' MiB free | CTX '');
         l = line_push_decimal l (ucast (bar_context snapshot));
         l = push_byte l 47;
         l = line_push_decimal l (ucast (rt_context_limit snapshot))
     in (ln_length l, ln_output l))"

section \<open>The status line as a byte sink\<close>

definition line_wf :: "bytes \<Rightarrow> line \<Rightarrow> bool" where
  "line_wf buf l \<longleftrightarrow> length (ln_output l) = length buf \<and> ln_length l \<le> length buf
     \<and> drop (ln_length l) (ln_output l) = drop (ln_length l) buf"

definition line_view :: "line \<Rightarrow> nat \<times> bytes" where
  "line_view l = (length (ln_output l), take (ln_length l) (ln_output l))"

definition line_absorb :: "nat \<times> bytes \<Rightarrow> bytes \<Rightarrow> nat \<times> bytes" where
  "line_absorb v bs = (case v of (cap, xs) \<Rightarrow> (cap, take cap (xs @ bs)))"

lemma push_byte_wf: "line_wf buf l \<Longrightarrow> line_wf buf (push_byte l b)"
  by (auto simp: line_wf_def push_byte_def drop_update_cancel)
     (metis drop_Suc tl_drop)

lemma push_byte_view:
  "line_wf buf l \<Longrightarrow> line_view (push_byte l b) = line_absorb (line_view l) [b]"
  by (auto simp: line_wf_def push_byte_def line_view_def line_absorb_def take_Suc_update)

lemma line_absorb_append: "line_absorb (line_absorb v as) bs = line_absorb v (as @ bs)"
  by (cases v) (simp add: line_absorb_def min_def)

lemma line_absorb_Nil: "line_wf buf l \<Longrightarrow> line_absorb (line_view l) [] = line_view l"
  by (simp add: line_wf_def line_view_def line_absorb_def)

lemma line_push_facts:
  "line_wf buf l \<Longrightarrow> line_wf buf (line_push l bs) \<and>
   line_view (line_push l bs) = line_absorb (line_view l) bs"
proof (induction bs arbitrary: l)
  case Nil
  then show ?case by (simp add: line_push_def line_absorb_Nil)
next
  case (Cons b bs)
  from Cons.IH [OF push_byte_wf [OF Cons.prems, of b]] Cons.prems show ?case
    by (simp add: line_push_def push_byte_view line_absorb_append)
qed

interpretation status_line: byte_sink "line_wf buf" line_push line_view line_absorb for buf
  by unfold_locales (simp_all add: line_push_facts line_absorb_append line_absorb_Nil)

lemma line_digits_gen:
  "v \<noteq> 0 \<Longrightarrow> line_digits v (digits, cnt) = fill_digits v (digits, cnt)"
proof (induction v arbitrary: digits cnt rule: less_induct)
  case (less v)
  show ?case
  proof (cases "v div 10 = 0")
    case True
    with less.prems show ?thesis
      by (subst line_digits.simps, subst fill_digits.simps) (simp add: fill_digits.simps)
  next
    case False
    have "v div 10 < v" using less.prems by simp
    from less.IH [OF this False] False less.prems show ?thesis
      by (subst line_digits.simps, subst fill_digits.simps) simp
  qed
qed

lemma line_push_decimal_facts:
  assumes "line_wf buf l"
  shows "line_wf buf (line_push_decimal l v) \<and>
    line_view (line_push_decimal l v) = line_absorb (line_view l) (decimal_text (unat v))"
proof (cases "v = 0")
  case True
  have "line_digits 0 (replicate 20 0, 0) = ((replicate 20 0)[0 := 48], 1)"
    by (subst line_digits.simps) (simp add: digit_byte_def)
  then have "line_push_decimal l v = line_push l [48]"
    using True by (simp add: line_push_decimal_def)
  with assms True show ?thesis by (simp add: line_push_facts decimal_text_def)
next
  case False
  then have nz: "unat v \<noteq> 0" by (simp add: unat_eq_0)
  then have text10: "decimal_text (unat v) = rev (low_digits (unat v))"
    by (simp add: decimal_text_def)
  obtain digits cnt where fill: "fill_digits (unat v) (replicate 20 0, 0) = (digits, cnt)"
    by (cases "fill_digits (unat v) (replicate 20 0, 0)")
  then have "line_push_decimal l v = emit_digits line_push digits cnt l"
    using nz by (simp add: line_push_decimal_def line_digits_gen)
  then show ?thesis
    using assms status_line.view_emit_decimal [OF assms fill]
      status_line.emit_digits_valid [OF assms]
    by (simp add: text10)
qed

lemma push_optional_facts:
  "line_wf buf l \<Longrightarrow> line_wf buf (push_optional l m) \<and>
   line_view (push_optional l m) = line_absorb (line_view l)
     (case m of Some n \<Rightarrow> decimal_text (unat (ucast n :: u64)) | None \<Rightarrow> ascii ''unknown'')"
  by (simp add: push_optional_def line_push_facts line_push_decimal_facts del: ascii_simps
      split: option.split)

lemma line_new_facts:
  "line_wf buf (line_new buf)" "line_view (line_new buf) = (length buf, [])"
  by (simp_all add: line_wf_def line_new_def line_view_def)

text \<open>The full text of the status line.\<close>

definition runtime_text :: "runtime_snapshot \<Rightarrow> u8 \<Rightarrow> bytes" where
  "runtime_text s frame =
     ascii '' promptboot ['' @ [activity frame] @ ascii ''] '' @ state_label (rt_state s)
     @ ascii '' | CPU '' @ decimal_text (unat (ucast (ct_active (rt_cpu s)) :: u64)) @ [47]
     @ (case ct_enabled (rt_cpu s) of Some n \<Rightarrow> decimal_text (unat (ucast n :: u64))
        | None \<Rightarrow> ascii ''unknown'')
     @ ascii '' | MEM '' @ decimal_text (unat (rt_memory_free s div (1024 * 1024)))
     @ ascii '' MiB free | CTX '' @ decimal_text (unat (ucast (bar_context s) :: u64)) @ [47]
     @ decimal_text (unat (ucast (rt_context_limit s) :: u64))"

lemma line_result:
  assumes "line_wf buf l" and "line_view l = line_absorb (length buf, []) txt"
  shows "ln_length l = min (length txt) (length buf)
    \<and> ln_output l = take (length buf) txt @ drop (length txt) buf"
proof -
  have wf: "length (ln_output l) = length buf" "ln_length l \<le> length buf"
    "drop (ln_length l) (ln_output l) = drop (ln_length l) buf"
    using assms(1) by (simp_all add: line_wf_def)
  have view: "take (ln_length l) (ln_output l) = take (length buf) txt"
    using assms(2) by (simp add: line_view_def line_absorb_def)
  then have len: "ln_length l = min (length txt) (length buf)"
    using arg_cong [OF view, of length] wf(1,2) unfolding length_take by linarith
  have "ln_output l = take (ln_length l) (ln_output l) @ drop (ln_length l) (ln_output l)"
    by simp
  then have "ln_output l = take (length buf) txt @ drop (ln_length l) buf"
    by (simp only: view wf(3))
  then show ?thesis using len by (simp add: min_def split: if_splits)
qed

section \<open>Prefixes\<close>

lemma match_from_full:
  assumes "index \<le> length pre" and "length pre \<le> length units"
  shows "match_from units pre index = length pre \<longleftrightarrow>
     (\<forall>i. index \<le> i \<and> i < length pre \<longrightarrow> units ! i = ucast (pre ! i))"
  using assms(1)
proof (induction "length pre - index" arbitrary: index)
  case 0
  then have "match_from units pre index = index" by (subst match_from.simps) simp
  with 0 assms(1) show ?case by auto
next
  case (Suc n)
  show ?case
  proof (cases "units ! index = ucast (pre ! index)")
    case True
    have "index < length pre" using Suc.hyps(2) by simp
    with True have "match_from units pre index = match_from units pre (index + 1)"
      by (subst match_from.simps) simp
    with Suc.hyps(1) [of "index + 1"] Suc.hyps(2) True show ?thesis
      by (auto simp: Suc_le_eq) (metis le_neq_implies_less)
  next
    case False
    then have "match_from units pre index = index" by (subst match_from.simps) simp
    with False Suc.hyps(2) show ?thesis by auto
  qed
qed

lemma starts_with_take: "starts_with units pre \<longleftrightarrow> take (length pre) units = map ucast pre"
proof (cases "length pre \<le> length units")
  case True
  then show ?thesis
    by (auto simp: starts_with_def match_from_full list_eq_iff_nth_eq)
next
  case False
  then show ?thesis
    by (auto simp: starts_with_def dest: arg_cong [where f = length])
qed

section \<open>Scrolls and wrapped text\<close>

text \<open>The cursor on a screen without a last row.\<close>

definition position_unit :: "nat \<Rightarrow> u16 \<Rightarrow> nat \<times> nat \<Rightarrow> nat \<times> nat" where
  "position_unit w u s =
     (case s of (col, row) \<Rightarrow>
       if u = 0x0008 then (col - 1, row)
       else if u = 0x000d then (0, row)
       else if u = 0x000a then (col, row + 1)
       else if col + 1 = w then (0, row + 1)
       else (col + 1, row))"

lemma scroll_unit_position:
  assumes "0 < n" and "row < n" and "scrolls > 0 \<longrightarrow> row = n - 1"
  shows "case scroll_unit w n u (col, row, scrolls) of (col', row', scrolls') \<Rightarrow>
     row' < n \<and> (scrolls' > 0 \<longrightarrow> row' = n - 1) \<and>
     position_unit w u (col, row + scrolls) = (col', row' + scrolls')"
  using assms by (auto simp: scroll_unit_def position_unit_def scroll_down_def)

lemma scrolls_position:
  "0 < n \<Longrightarrow> row < n \<Longrightarrow> scrolls > 0 \<longrightarrow> row = n - 1 \<Longrightarrow>
   case fold (scroll_unit w n) units (col, row, scrolls) of (col', row', scrolls') \<Rightarrow>
     row' < n \<and> (scrolls' > 0 \<longrightarrow> row' = n - 1) \<and>
     fold (position_unit w) units (col, row + scrolls) = (col', row' + scrolls')"
proof (induction units arbitrary: col row scrolls)
  case Nil
  then show ?case by simp
next
  case (Cons u us)
  obtain c r s where step: "scroll_unit w n u (col, row, scrolls) = (c, r, s)"
    by (metis prod_cases3)
  have "r < n" "s > 0 \<longrightarrow> r = n - 1"
    "position_unit w u (col, row + scrolls) = (c, r + s)"
    using scroll_unit_position [OF Cons.prems, of w u col] by (simp_all add: step)
  with Cons.IH [of r s c] Cons.prems(1) show ?case by (simp add: step)
qed

text \<open>The content text with a CR LF after every full row, and the cursor column after it.\<close>

fun wrapped :: "nat \<Rightarrow> nat \<Rightarrow> u16 list \<Rightarrow> u16 list" where
  "wrapped w col [] = []"
| "wrapped w col (u # us) =
     (if u = 0x0008 then u # wrapped w (col - 1) us
      else if u = 0x000d then u # wrapped w 0 us
      else if u = 0x000a then u # wrapped w col us
      else if col + 1 = w then u # 0x000d # 0x000a # wrapped w 0 us
      else u # wrapped w (col + 1) us)"

fun wrapped_column :: "nat \<Rightarrow> nat \<Rightarrow> u16 list \<Rightarrow> nat" where
  "wrapped_column w col [] = col"
| "wrapped_column w col (u # us) =
     (if u = 0x0008 then wrapped_column w (col - 1) us
      else if u = 0x000d then wrapped_column w 0 us
      else if u = 0x000a then wrapped_column w col us
      else if col + 1 = w then wrapped_column w 0 us
      else wrapped_column w (col + 1) us)"

lemma wrapped_column_less: "col < w \<Longrightarrow> wrapped_column w col us < w"
  by (induction us arbitrary: col) auto

lemma slice_snoc:
  "start \<le> index \<Longrightarrow> index < length units \<Longrightarrow>
   slice units start (Suc index) = slice units start index @ [units ! index]"
  by (simp add: slice_def Suc_diff_le take_Suc_conv_app_nth)

lemma wrap_loop_facts:
  "start \<le> index \<Longrightarrow> index \<le> length units \<Longrightarrow>
   case wrap_loop reply units w index start col h of
     (Inr (start', col'), h') \<Rightarrow> start' \<le> length units \<and>
       concat h' @ drop start' units =
         concat h @ slice units start index @ wrapped w col (drop index units) \<and>
       col' = wrapped_column w col (drop index units)
   | (Inl st, h') \<Rightarrow> st \<noteq> 0 \<and> (\<exists>rest. concat h' @ rest =
         concat h @ slice units start index @ wrapped w col (drop index units))"
proof (induction "length units - index" arbitrary: index start col h)
  case 0
  then have "index = length units" "start \<le> length units" by simp_all
  then show ?case
    by (subst wrap_loop.simps) (simp add: slice_def)
next
  case (Suc n)
  then have i: "index < length units" by simp
  then have drop_i: "drop index units = units ! index # drop (Suc index) units"
    by (simp add: Cons_nth_drop_Suc)
  note snoc = slice_snoc [OF Suc.prems(1) i]
  have n: "n = length units - Suc index" using Suc.hyps(2) by simp
  note IH = Suc.hyps(1) [OF n]
  let ?u = "units ! index"
  have same: "Suc index \<le> length units" "start \<le> Suc index" using i Suc.prems by simp_all
  show ?case
  proof (cases "?u \<noteq> 0x0008 \<and> ?u \<noteq> 0x000d \<and> ?u \<noteq> 0x000a \<and> col + 1 = w")
    case False
    define c where "c = (if ?u = 0x0008 then col - 1 else if ?u = 0x000d then 0
      else if ?u = 0x000a then col else col + 1)"
    have step: "wrap_loop reply units w index start col h =
        wrap_loop reply units w (Suc index) start c h"
      using i False by (subst wrap_loop.simps) (auto simp: c_def Let_def)
    have wr: "wrapped w col (drop index units) = ?u # wrapped w c (drop (Suc index) units)"
      "wrapped_column w col (drop index units) = wrapped_column w c (drop (Suc index) units)"
      using False by (auto simp: drop_i c_def)
    show ?thesis
      using IH [OF same(2,1), where col = c and h = h]
      unfolding step wr snoc append_assoc append_Cons append_Nil .
  next
    case True
    let ?piece = "slice units start (Suc index)"
    let ?h = "h @ [?piece]" let ?h2 = "h @ [?piece, [0x000d, 0x000a]]"
    have step: "wrap_loop reply units w index start col h =
        (if reply h ?piece \<noteq> 0 then (Inl (reply h ?piece), ?h)
         else if reply ?h [0x000d, 0x000a] \<noteq> 0 then (Inl (reply ?h [0x000d, 0x000a]), ?h2)
         else wrap_loop reply units w (Suc index) (Suc index) 0 ?h2)"
      using i True by (subst wrap_loop.simps) (simp add: Let_def)
    have wr: "wrapped w col (drop index units) =
        ?u # 0x000d # 0x000a # wrapped w 0 (drop (Suc index) units)"
      "wrapped_column w col (drop index units) = wrapped_column w 0 (drop (Suc index) units)"
      using True by (simp_all add: drop_i)
    have empty: "slice units (Suc index) (Suc index) = []" by (simp add: slice_def)
    show ?thesis
      using IH [OF order_refl same(1), where col = 0 and h = ?h2] unfolding step wr
      by (auto simp: snoc empty split: sum.splits)
  qed
qed

section \<open>Properties\<close>

text \<open>
  C35: The status row never leaves the console in its own state: whatever the firmware answers,
  the last two calls set the attribute and the cursor back; the text is written only if the
  cursor and the inverted attribute were set; and the result is the status of the first call
  that failed, or success when none did.
\<close>

theorem status_row_restores_console:
  "case render_status_row reply attr col row status_row units h of (res, h') \<Rightarrow>
     (let a = SetCursor 0 status_row;
          b = SetAttribute (inverted_attribute (of_nat attr))
      in h' = h @ (if reply h a \<noteq> 0 then [a]
                   else if reply (h @ [a]) b \<noteq> 0 then [a, b] else [a, b, OutputUnits units])
                @ [SetAttribute attr, SetCursor col row]) \<and>
     res = (case find (\<lambda>k. reply (take k h') (h' ! k) \<noteq> 0) [length h..<length h'] of
              None \<Rightarrow> Inr () | Some k \<Rightarrow> Inl (reply (take k h') (h' ! k)))"
proof -
  let ?a = "SetCursor 0 status_row"
  let ?b = "SetAttribute (inverted_attribute (of_nat attr))"
  let ?c = "OutputUnits units"
  have upt: "[n..<n + 3] = [n, n + 1, n + 2]" "[n..<n + 4] = [n, n + 1, n + 2, n + 3]"
    "[n..<n + 5] = [n, n + 1, n + 2, n + 3, n + 4]" for n :: nat
    by (simp_all add: upt_rec)
  consider "reply h ?a \<noteq> 0" | "reply h ?a = 0" "reply (h @ [?a]) ?b \<noteq> 0"
    | "reply h ?a = 0" "reply (h @ [?a]) ?b = 0" by blast
  then show ?thesis
  proof cases
    case 1
    then show ?thesis
      by (simp add: render_status_row_def first_error_def Let_def nth_append upt(1))
  next
    case 2
    then show ?thesis
      by (simp add: render_status_row_def first_error_def Let_def nth_append upt(2))
  next
    case 3
    then show ?thesis
      by (auto simp add: render_status_row_def first_error_def Let_def nth_append upt(3))
  qed
qed

text \<open>
  No timer event is lost: a periodic timer that is returned has been created and started
  with the 500 ms period; when starting it fails, the event is cancelled and closed before the
  start failure is returned, and a failed creation makes no other call. An event handed to the
  cleanup is always cancelled and closed, whatever the firmware answers, and a cancel failure is
  reported before a close failure.
\<close>

theorem timer_started_or_released:
  "(case start_periodic_timer create reply h of
     (Inr e, h') \<Rightarrow> create h = Inr e
       \<and> h' = h @ [CreateEvent, SetTimer e TIMER_PERIODIC STATUS_PERIOD_100NS]
   | (Inl (CreateFailed st), h') \<Rightarrow> create h = Inl st \<and> h' = h @ [CreateEvent]
   | (Inl (SetFailed st), h') \<Rightarrow> st \<noteq> 0 \<and> (\<exists>e. create h = Inr e
       \<and> h' = h @ [CreateEvent, SetTimer e TIMER_PERIODIC STATUS_PERIOD_100NS,
              SetTimer e TIMER_CANCEL 0, CloseEvent e])
   | _ \<Rightarrow> False)
   \<and> snd (cleanup_periodic_timer reply e h) = h @ [SetTimer e TIMER_CANCEL 0, CloseEvent e]
   \<and> (fst (cleanup_periodic_timer reply e h) = Inr () \<longleftrightarrow>
       reply h (SetTimer e TIMER_CANCEL 0) = 0
       \<and> reply (h @ [SetTimer e TIMER_CANCEL 0]) (CloseEvent e) = 0)"
  by (auto simp: start_periodic_timer_def cleanup_periodic_timer_def Let_def split: sum.split)

text \<open>
  The lines that are kept on the serial console are exactly those that start with one of
  the three markers; every boundary line is also an evidence line.
\<close>

theorem evidence_lines_by_prefix:
  "(is_serial_evidence_line units \<longleftrightarrow>
     list_ex (\<lambda>p. take (length p) units = map ucast p)
       [ascii ''PROMPTBOOT_EVENT'', ascii ''events: on'', ascii ''events: off''])
   \<and> (is_event_boundary_line units \<longleftrightarrow>
     list_ex (\<lambda>p. take (length p) units = map ucast p)
       [ascii ''events: on'', ascii ''events: off''])"
proof -
  have "starts_with units = (\<lambda>p. take (length p) units = map ucast p)"
    by (simp add: fun_eq_iff starts_with_take)
  then show ?thesis
    by (simp only: is_serial_evidence_line_def is_event_boundary_line_def)
qed

text \<open>
  The number of scrolls a text causes is the number of rows by which the cursor would pass
  the last content row on a screen without end: the code's loop, which keeps the cursor on the
  last row, counts exactly these, for every text, position and geometry it accepts.
\<close>

theorem native_scrolls_is_overflow:
  "native_scrolls_for_output units col row w content_rows =
     (if w = 0 \<or> content_rows = 0 \<or> w \<le> col \<or> content_rows \<le> row then None
      else Some (snd (fold (position_unit w) units (col, row)) - (content_rows - 1)))"
proof -
  have "snd (snd (fold (scroll_unit w content_rows) units (col, row, 0))) =
      snd (fold (position_unit w) units (col, row)) - (content_rows - 1)"
    if "0 < content_rows" "row < content_rows"
    using scrolls_position [OF that, of 0 w units col]
    by (auto split: prod.splits)
  then show ?thesis by (auto simp: native_scrolls_for_output_def)
qed

text \<open>
  Wrapped output writes the whole text and only it, with a CR LF after each full row: when
  \<open>write_content_with_wrap\<close> succeeds the units it output, in order, are the text with those line
  ends inserted and the returned column is the cursor column, left of the width; when the
  firmware reports an error, what was output up to there is a prefix of that text. A geometry
  the console cannot have is refused without output.
\<close>

theorem wrapped_output_is_whole_text:
  "case write_content_with_wrap reply units col w [] of
     (Inr c, h) \<Rightarrow> concat h = wrapped w col units \<and> c = wrapped_column w col units \<and> c < w
   | (Inl st, h) \<Rightarrow> st \<noteq> 0 \<and> (\<exists>rest. concat h @ rest = wrapped w col units)"
proof (cases "w = 0 \<or> col \<ge> w")
  case True
  then show ?thesis by (simp add: write_content_with_wrap_def USIZE_MAX_def)
next
  case False
  then have w: "col < w" by simp
  have facts: "case wrap_loop reply units w 0 0 col [] of
     (Inr (start', col'), h') \<Rightarrow> start' \<le> length units \<and>
       concat h' @ drop start' units = wrapped w col units \<and>
       col' = wrapped_column w col units
   | (Inl st, h') \<Rightarrow> st \<noteq> 0 \<and> (\<exists>rest. concat h' @ rest = wrapped w col units)"
    using wrap_loop_facts [where start = 0 and index = 0 and h = "[]" and units = units and w = w
        and col = col and reply = reply]
    by (auto simp: slice_def split: sum.splits prod.splits)
  obtain r h where run: "wrap_loop reply units w 0 0 col [] = (r, h)" by fastforce
  show ?thesis
  proof (cases r)
    case (Inl st)
    then show ?thesis using facts w by (simp add: write_content_with_wrap_def run)
  next
    case (Inr sc)
    obtain start c where sc: "sc = (start, c)" by (cases sc)
    have "start \<le> length units" "concat h @ drop start units = wrapped w col units"
      "c = wrapped_column w col units"
      using facts by (simp_all add: run Inr sc)
    then show ?thesis
      using w wrapped_column_less [OF w, of units]
      by (cases "start < length units"; cases "reply h (drop start units) = 0")
         (auto simp: write_content_with_wrap_def run Inr sc Let_def)
  qed
qed

text \<open>
  The status line is the full text, cut at the end of the buffer: for every snapshot, frame
  and buffer, the number of bytes reported and the bytes written are those of the first bytes of
  the text that fit, and the rest of the buffer is untouched.
\<close>

theorem runtime_line_is_truncated_text:
  "runtime_line s frame buf =
     (min (length (runtime_text s frame)) (length buf),
      take (length buf) (runtime_text s frame) @ drop (length (runtime_text s frame)) buf)"
proof -
  define l where "l = (let l = line_new buf;
         l = line_push l (ascii '' promptboot ['');
         l = push_byte l (activity frame);
         l = line_push l (ascii ''] '');
         l = line_push l (state_label (rt_state s));
         l = line_push l (ascii '' | CPU '');
         l = line_push_decimal l (ucast (ct_active (rt_cpu s)));
         l = push_byte l 47;
         l = push_optional l (ct_enabled (rt_cpu s));
         l = line_push l (ascii '' | MEM '');
         l = line_push_decimal l (rt_memory_free s div (1024 * 1024));
         l = line_push l (ascii '' MiB free | CTX '');
         l = line_push_decimal l (ucast (bar_context s));
         l = push_byte l 47
     in line_push_decimal l (ucast (rt_context_limit s)))"
  note wf = line_new_facts(1) [of buf] line_push_facts [of buf, THEN conjunct1]
    push_byte_wf [of buf] line_push_decimal_facts [of buf, THEN conjunct1]
    push_optional_facts [of buf, THEN conjunct1]
  note view = line_new_facts(2) line_push_facts [of buf, THEN conjunct2] push_byte_view [of buf]
    line_push_decimal_facts [of buf, THEN conjunct2] push_optional_facts [of buf, THEN conjunct2]
    line_absorb_append
  have "line_wf buf l"
    unfolding l_def Let_def by (intro wf)
  moreover have "line_view l = line_absorb (length buf, []) (runtime_text s frame)"
    unfolding l_def Let_def runtime_text_def
    by (simp only: wf view append_assoc)
  ultimately have "ln_length l = min (length (runtime_text s frame)) (length buf)
    \<and> ln_output l = take (length buf) (runtime_text s frame) @ drop (length (runtime_text s frame)) buf"
    by (rule line_result)
  moreover have "runtime_line s frame buf = (ln_length l, ln_output l)"
    unfolding runtime_line_def l_def Let_def by (rule refl)
  ultimately show ?thesis by simp
qed

end
