(* ===== verification/PB_Arena.thy ===== *)
theory PB_Arena
  imports PB_Prelude
begin

text \<open>
  The bump allocator of \<open>src/crates/promptboot-core/src/arena.rs\<close> and the numbered statuses of
  the primitive interface. An arena is its storage bytes, the address they start at and the
  counters; sizes and offsets are \<open>nat\<close> with the \<open>u64\<close> checks written out. The interface
  \<open>region_allocator\<close> states what a bump allocator promises for one allocation; the locale
  derives what any sequence of allocations yields, and the arena interprets it.
\<close>

section \<open>Statuses\<close>

datatype primitive_status =
    PS_OK | PS_NULL | PS_ALIGNMENT | PS_LENGTH | PS_OVERLAP | PS_ARITHMETIC_OVERFLOW
  | PS_ARENA_CAPACITY | PS_ARENA_SEALED | PS_BLOCK_ENCODING | PS_DIMENSION | PS_INDEX
  | PS_STATE | PS_NONFINITE_INPUT | PS_NONFINITE_OUTPUT | PS_UNSUPPORTED_OPERATION

fun ps_code :: "primitive_status \<Rightarrow> nat" where
  "ps_code PS_OK = 0"
| "ps_code PS_NULL = 1"
| "ps_code PS_ALIGNMENT = 2"
| "ps_code PS_LENGTH = 3"
| "ps_code PS_OVERLAP = 4"
| "ps_code PS_ARITHMETIC_OVERFLOW = 5"
| "ps_code PS_ARENA_CAPACITY = 6"
| "ps_code PS_ARENA_SEALED = 7"
| "ps_code PS_BLOCK_ENCODING = 8"
| "ps_code PS_DIMENSION = 9"
| "ps_code PS_INDEX = 10"
| "ps_code PS_STATE = 11"
| "ps_code PS_NONFINITE_INPUT = 12"
| "ps_code PS_NONFINITE_OUTPUT = 13"
| "ps_code PS_UNSUPPORTED_OPERATION = 14"

lemma ps_code_zero [simp]: "ps_code s = 0 \<longleftrightarrow> s = PS_OK"
  by (cases s) simp_all

section \<open>The arena\<close>

record region =
  rg_offset :: nat
  rg_length :: nat

record arena_usage =
  us_capacity :: nat
  us_requested :: nat
  us_committed :: nat
  us_current :: nat
  us_high_water :: nat

record arena_error =
  ae_status :: primitive_status
  ae_needed :: nat
  ae_available :: nat

definition arena_error :: "primitive_status \<Rightarrow> nat \<Rightarrow> nat \<Rightarrow> arena_error" where
  "arena_error status needed available =
     \<lparr>ae_status = status, ae_needed = needed, ae_available = available\<rparr>"

record arena =
  ar_base :: nat
  ar_storage :: bytes
  ar_requested :: nat
  ar_committed :: nat
  ar_current :: nat
  ar_high_water :: nat
  ar_sealed :: bool

definition arena_new :: "nat \<Rightarrow> bytes \<Rightarrow> arena_error + arena" where
  "arena_new base storage =
     (if storage = [] then Inl (arena_error PS_ARENA_CAPACITY 1 0)
      else if base mod 64 \<noteq> 0 then Inl (arena_error PS_ALIGNMENT 64 0)
      else Inr \<lparr>ar_base = base, ar_storage = storage, ar_requested = 0, ar_committed = 0,
                ar_current = 0, ar_high_water = 0, ar_sealed = False\<rparr>)"

definition is_power_of_two :: "u32 \<Rightarrow> bool" where
  "is_power_of_two a \<longleftrightarrow> a \<noteq> 0 \<and> a AND (a - 1) = 0"

text \<open>\<open>x & !mask\<close> on 64-bit values.\<close>

definition clear_low :: "nat \<Rightarrow> nat \<Rightarrow> nat" where
  "clear_low x low = unat ((of_nat x :: u64) AND NOT (of_nat low))"

definition arena_allocate :: "arena \<Rightarrow> nat \<Rightarrow> u32 \<Rightarrow> (arena_error + region) \<times> arena" where
  "arena_allocate a n alignment =
    (let capacity = length (ar_storage a);
         overflow = (Inl (arena_error PS_ARITHMETIC_OVERFLOW n capacity), a)
     in if ar_sealed a then (Inl (arena_error PS_ARENA_SEALED n capacity), a)
        else if n = 0 then (Inl (arena_error PS_LENGTH 1 0), a)
        else if alignment = 0 \<or> \<not> is_power_of_two alignment \<or> alignment > 64
        then (Inl (arena_error PS_ALIGNMENT (unat alignment) 64), a)
        else
          let low = unat alignment - 1 in
          case checked_add (ar_committed a) low of
            None \<Rightarrow> overflow
          | Some v \<Rightarrow>
            let off = clear_low v low in
            (case checked_add off n of
               None \<Rightarrow> overflow
             | Some e \<Rightarrow>
               (case checked_add (ar_requested a) n of
                  None \<Rightarrow> overflow
                | Some requested \<Rightarrow>
                  (case checked_add (ar_current a) n of
                     None \<Rightarrow> overflow
                   | Some current \<Rightarrow>
                     if e > capacity
                     then (Inl (arena_error PS_ARENA_CAPACITY e capacity), a)
                     else (Inr \<lparr>rg_offset = off, rg_length = n\<rparr>,
                           a\<lparr>ar_requested := requested, ar_committed := e,
                             ar_current := current,
                             ar_high_water := (if current > ar_high_water a then current
                                               else ar_high_water a)\<rparr>)))))"

definition arena_seal :: "arena \<Rightarrow> (arena_error + unit) \<times> arena" where
  "arena_seal a =
     (if ar_sealed a then (Inl (arena_error PS_STATE 0 0), a)
      else (Inr (), a\<lparr>ar_sealed := True\<rparr>))"

definition arena_reset :: "arena \<Rightarrow> (arena_error + unit) \<times> arena" where
  "arena_reset a =
     (if \<not> ar_sealed a then (Inl (arena_error PS_STATE 0 0), a)
      else if ar_committed a \<ge> u64_limit
      then (Inl (arena_error PS_ARITHMETIC_OVERFLOW (ar_committed a) (length (ar_storage a))), a)
      else (Inr (), a\<lparr>ar_storage := write_at (ar_storage a) 0 (replicate (ar_committed a) 0),
              ar_requested := 0, ar_committed := 0, ar_current := 0, ar_sealed := False\<rparr>))"

definition arena_usage_of :: "arena \<Rightarrow> arena_usage" where
  "arena_usage_of a =
     \<lparr>us_capacity = length (ar_storage a), us_requested = ar_requested a,
      us_committed = ar_committed a, us_current = ar_current a,
      us_high_water = ar_high_water a\<rparr>"

definition region_bounds :: "arena \<Rightarrow> region \<Rightarrow> arena_error + nat \<times> nat" where
  "region_bounds a r =
     (if rg_length r = 0 then Inl (arena_error PS_LENGTH 1 0)
      else case checked_add (rg_offset r) (rg_length r) of
        None \<Rightarrow> Inl (arena_error PS_ARITHMETIC_OVERFLOW (rg_length r) (ar_committed a))
      | Some e \<Rightarrow>
          if e > ar_committed a then Inl (arena_error PS_LENGTH e (ar_committed a))
          else Inr (rg_offset r, e))"

definition arena_region :: "arena \<Rightarrow> region \<Rightarrow> arena_error + bytes" where
  "arena_region a r =
     (if \<not> ar_sealed a then Inl (arena_error PS_STATE 0 0)
      else bind_result (region_bounds a r)
             (\<lambda>(first, e). Inr (take (e - first) (drop first (ar_storage a)))))"

text \<open>\<open>region_mut\<close>: the same bounds, and what a caller writes there stays in the region.\<close>

definition arena_region_mut :: "arena \<Rightarrow> region \<Rightarrow> (bytes \<Rightarrow> bytes) \<Rightarrow> (arena_error + unit) \<times> arena" where
  "arena_region_mut a r f =
     (if \<not> ar_sealed a then (Inl (arena_error PS_STATE 0 0), a)
      else case region_bounds a r of
        Inl e \<Rightarrow> (Inl e, a)
      | Inr (first, e) \<Rightarrow>
          (Inr (), a\<lparr>ar_storage := write_at (ar_storage a) first
             (f (take (e - first) (drop first (ar_storage a))))\<rparr>))"

section \<open>Alignment\<close>

lemma and_not_low:
  fixes w :: u64
  shows "unat (w AND NOT (mask k)) = unat w - unat w mod 2 ^ k"
proof -
  have "w = (w AND NOT (mask k)) + (w AND mask k)"
    by (subst disjunctive_add_eq_or) (auto simp: bit_eq_iff bit_simps)
  then have "w AND NOT (mask k) = w - (w AND mask k)" by (metis add_diff_cancel_right')
  moreover have "unat (w - (w AND mask k)) = unat w - unat (w AND mask k)"
    by (rule unat_sub) (rule word_and_le2)
  moreover have "unat (w AND mask k) = take_bit k (unat w)"
    by (simp add: unsigned_take_bit_eq flip: take_bit_eq_mask)
  ultimately show ?thesis by (simp only: take_bit_eq_mod)
qed

lemma power_of_two_cases:
  assumes "is_power_of_two a" and "a \<le> 64"
  shows "\<exists>k\<le>6. unat a = 2 ^ k"
proof -
  have all: "list_all (\<lambda>n. is_power_of_two (of_nat n) \<longrightarrow> list_ex (\<lambda>k. n = 2 ^ k) [0..<7]) [0..<65]"
    by code_simp
  have "unat a \<le> 64" using assms(2) by (simp add: word_le_nat_alt)
  then have "unat a \<in> set [0..<65]" by simp
  with all have "is_power_of_two (of_nat (unat a)) \<longrightarrow> list_ex (\<lambda>k. unat a = 2 ^ k) [0..<7]"
    unfolding list_all_iff by blast
  with assms(1) have "list_ex (\<lambda>k. unat a = 2 ^ k) [0..<7]" by simp
  then obtain k where "k \<in> set [0..<7]" and pow: "unat a = 2 ^ k"
    unfolding list_ex_iff by blast
  then have "k \<le> 6" by simp
  with pow show ?thesis by blast
qed

lemma clear_low_align:
  assumes "x < u64_limit" and "al = 2 ^ k" and "k \<le> 6"
  shows "clear_low x (al - 1) = x - x mod al"
proof -
  have "(of_nat (2 ^ k - 1) :: u64) = mask k"
    by (simp add: mask_eq_exp_minus_1 of_nat_diff)
  moreover have "unat (of_nat x :: u64) = x"
    using assms(1) by (simp add: unat_of_nat u64_limit_eq)
  ultimately show ?thesis using assms(2) by (simp add: clear_low_def and_not_low)
qed

text \<open>Rounding up to an alignment.\<close>

definition align_to :: "nat \<Rightarrow> nat \<Rightarrow> nat" where
  "align_to x al = (x + (al - 1)) - (x + (al - 1)) mod al"

lemma align_up:
  fixes x al :: nat
  assumes "0 < al"
  shows "al dvd align_to x al" and "x \<le> align_to x al" and "align_to x al < x + al"
proof -
  have less: "(x + (al - 1)) mod al < al" using assms by simp
  have div_mod: "align_to x al = (x + (al - 1)) div al * al"
    by (simp add: align_to_def minus_mod_eq_div_mult)
  show "al dvd align_to x al" unfolding div_mod by simp
  show "x \<le> align_to x al" "align_to x al < x + al"
    unfolding align_to_def using less assms by linarith+
qed

section \<open>The interface of a region allocator\<close>

text \<open>
  \<open>used\<close> is how far the region storage is taken, \<open>limit\<close> its size and \<open>origin\<close> the address it
  starts at. A successful allocation returns a region of the requested length, aligned in the
  address space, behind everything taken so far; a failing one changes nothing.
\<close>

locale region_allocator =
  fixes ok :: "'s \<Rightarrow> bool"
    and alloc :: "'s \<Rightarrow> nat \<Rightarrow> u32 \<Rightarrow> ('e + region) \<times> 's"
    and used :: "'s \<Rightarrow> nat"
    and limit :: "'s \<Rightarrow> nat"
    and origin :: "'s \<Rightarrow> nat"
  assumes alloc_ok: "ok s \<Longrightarrow> ok (snd (alloc s n al))"
    and alloc_fail: "alloc s n al = (Inl e, s') \<Longrightarrow> s' = s"
    and alloc_limit: "limit (snd (alloc s n al)) = limit s"
    and alloc_origin: "origin (snd (alloc s n al)) = origin s"
    and alloc_region: "ok s \<Longrightarrow> alloc s n al = (Inr r, s') \<Longrightarrow>
        rg_length r = n \<and> 0 < n \<and> used s \<le> rg_offset r \<and> rg_offset r + n = used s' \<and>
        used s' \<le> limit s \<and> (origin s + rg_offset r) mod unat al = 0"
begin

text \<open>A sequence of requests; the regions of the successful ones, in order.\<close>

fun alloc_all :: "'s \<Rightarrow> (nat \<times> u32) list \<Rightarrow> (region \<times> u32) list \<times> 's" where
  "alloc_all s [] = ([], s)"
| "alloc_all s ((n, al) # reqs) =
     (case alloc s n al of
        (Inl e, s') \<Rightarrow> alloc_all s' reqs
      | (Inr r, s') \<Rightarrow> (case alloc_all s' reqs of (rs, s'') \<Rightarrow> ((r, al) # rs, s'')))"

lemma alloc_all_disjoint:
  "ok s \<Longrightarrow> alloc_all s reqs = (rs, s') \<Longrightarrow>
   ok s' \<and> limit s' = limit s \<and> used s \<le> used s' \<and>
   list_all (\<lambda>(r, al). used s \<le> rg_offset r \<and> 0 < rg_length r \<and>
     rg_offset r + rg_length r \<le> used s' \<and> rg_offset r + rg_length r \<le> limit s \<and>
     (origin s + rg_offset r) mod unat al = 0) rs \<and>
   sorted_wrt (\<lambda>r r'. rg_offset r + rg_length r \<le> rg_offset r') (map fst rs)"
proof (induction reqs arbitrary: s rs)
  case Nil
  then show ?case by simp
next
  case (Cons req reqs)
  obtain n al where req: "req = (n, al)" by (cases req)
  obtain x t where step: "alloc s n al = (x, t)" by (cases "alloc s n al")
  have t: "ok t" "limit t = limit s" "origin t = origin s"
    using alloc_ok [OF Cons.prems(1), of n al] alloc_limit [of s n al] alloc_origin [of s n al]
    by (simp_all add: step)
  show ?case
  proof (cases x)
    case (Inl e)
    then have "t = s" using alloc_fail step by simp
    with Inl Cons.IH [OF Cons.prems(1), of rs] Cons.prems(2) step req show ?thesis by simp
  next
    case (Inr r)
    obtain rs0 where rest: "alloc_all t reqs = (rs0, s')" and rs: "rs = (r, al) # rs0"
      using Cons.prems(2) step req Inr by (auto split: prod.splits)
    from alloc_region [OF Cons.prems(1) step [unfolded Inr]] have r:
      "rg_length r = n" "0 < n" "used s \<le> rg_offset r" "rg_offset r + n = used t"
      "used t \<le> limit s" "(origin s + rg_offset r) mod unat al = 0" by simp_all
    have IH: "ok s' \<and> limit s' = limit t \<and> used t \<le> used s'"
      "list_all (\<lambda>(r, al). used t \<le> rg_offset r \<and> 0 < rg_length r \<and>
         rg_offset r + rg_length r \<le> used s' \<and> rg_offset r + rg_length r \<le> limit t \<and>
         (origin t + rg_offset r) mod unat al = 0) rs0"
      "sorted_wrt (\<lambda>r r'. rg_offset r + rg_length r \<le> rg_offset r') (map fst rs0)"
      using Cons.IH [OF t(1) rest] by simp_all
    have "list_all (\<lambda>(r, al). used s \<le> rg_offset r \<and> 0 < rg_length r \<and>
         rg_offset r + rg_length r \<le> used s' \<and> rg_offset r + rg_length r \<le> limit s \<and>
         (origin s + rg_offset r) mod unat al = 0) rs0"
      using IH(2) r t by (auto simp: list_all_iff)
    moreover have "\<forall>r' \<in> set (map fst rs0). rg_offset r + rg_length r \<le> rg_offset r'"
      using IH(2) r by (auto simp: list_all_iff)
    ultimately show ?thesis using IH r t by (simp add: rs)
  qed
qed

end

section \<open>The arena as a region allocator\<close>

definition arena_inv :: "arena \<Rightarrow> bool" where
  "arena_inv a \<longleftrightarrow> ar_base a mod 64 = 0 \<and> ar_storage a \<noteq> []
     \<and> ar_requested a = ar_current a \<and> ar_current a \<le> ar_committed a
     \<and> ar_committed a \<le> length (ar_storage a) \<and> ar_current a \<le> ar_high_water a
     \<and> ar_high_water a \<le> length (ar_storage a)"

lemma arena_allocate_Inr:
  assumes "arena_allocate a n al = (Inr r, a')"
  shows "\<not> ar_sealed a \<and> 0 < n \<and> (\<exists>k\<le>6. unat al = 2 ^ k) \<and>
    rg_length r = n \<and> rg_offset r = align_to (ar_committed a) (unat al) \<and>
    rg_offset r + n \<le> length (ar_storage a) \<and>
    a' = a\<lparr>ar_requested := ar_requested a + n, ar_committed := rg_offset r + n,
           ar_current := ar_current a + n,
           ar_high_water := max (ar_current a + n) (ar_high_water a)\<rparr>"
proof -
  have al: "is_power_of_two al" "al \<le> 64"
    using assms by (auto simp: arena_allocate_def Let_def not_less split: if_splits)
  then obtain k where k: "k \<le> 6" "unat al = 2 ^ k" using power_of_two_cases by blast
  then have pow: "\<exists>k\<le>6. unat al = 2 ^ k" by blast
  have low: "clear_low (ar_committed a + (unat al - Suc 0)) (unat al - Suc 0) =
      align_to (ar_committed a) (unat al)"
    if "ar_committed a + (unat al - Suc 0) < u64_limit"
    using clear_low_align [OF that k(2) k(1)] by (simp add: align_to_def)
  have "\<not> ar_sealed a \<and> 0 < n \<and>
    rg_length r = n \<and> rg_offset r = align_to (ar_committed a) (unat al) \<and>
    rg_offset r + n \<le> length (ar_storage a) \<and>
    a' = a\<lparr>ar_requested := ar_requested a + n, ar_committed := rg_offset r + n,
           ar_current := ar_current a + n,
           ar_high_water := max (ar_current a + n) (ar_high_water a)\<rparr>"
    using assms
    by (auto simp: arena_allocate_def Let_def low checked_add_Some max_def
        split: if_splits option.splits)
  with pow show ?thesis by simp
qed

lemma arena_allocate_fail: "arena_allocate a n al = (Inl e, a') \<Longrightarrow> a' = a"
  by (auto simp: arena_allocate_def Let_def split: if_splits option.splits)

lemma arena_allocate_inv:
  assumes "arena_inv a"
  shows "arena_inv (snd (arena_allocate a n al))"
proof (cases "arena_allocate a n al")
  case (Pair r a')
  show ?thesis
  proof (cases r)
    case (Inl e)
    with Pair arena_allocate_fail [of a n al e a'] assms show ?thesis by simp
  next
    case (Inr rg)
    note res = arena_allocate_Inr [OF Pair [unfolded Inr]]
    have "0 < unat al" using res by auto
    then have "ar_committed a \<le> rg_offset rg" using res align_up(2) by simp
    moreover define off where "off = rg_offset rg"
    moreover have "a' = a\<lparr>ar_requested := ar_requested a + n, ar_committed := off + n,
        ar_current := ar_current a + n, ar_high_water := max (ar_current a + n) (ar_high_water a)\<rparr>"
      "off + n \<le> length (ar_storage a)"
      using res by (simp_all add: off_def)
    ultimately show ?thesis
      using assms by (simp add: Pair arena_inv_def)
  qed
qed

interpretation arena: region_allocator arena_inv arena_allocate ar_committed
  "\<lambda>a. length (ar_storage a)" ar_base
proof unfold_locales
  fix s n al e s' r
  show "arena_inv s \<Longrightarrow> arena_inv (snd (arena_allocate s n al))" by (rule arena_allocate_inv)
  show "arena_allocate s n al = (Inl e, s') \<Longrightarrow> s' = s" by (rule arena_allocate_fail)
  show "length (ar_storage (snd (arena_allocate s n al))) = length (ar_storage s)"
    "ar_base (snd (arena_allocate s n al)) = ar_base s"
    by (auto simp: arena_allocate_def Let_def split: option.split)
  assume inv: "arena_inv s" and run: "arena_allocate s n al = (Inr r, s')"
  note res = arena_allocate_Inr [OF run]
  then obtain k where k: "k \<le> 6" "unat al = 2 ^ k" by blast
  then have pos: "0 < unat al" by simp
  have "unat al dvd rg_offset r" using res align_up(1) [OF pos] by simp
  moreover have "unat al dvd 64"
    using k le_imp_power_dvd [of k 6 "2 :: nat"] by simp
  then have "unat al dvd ar_base s" using inv by (auto simp: arena_inv_def mod_eq_0_iff_dvd intro: dvd_trans)
  ultimately have "(ar_base s + rg_offset r) mod unat al = 0" by (simp add: mod_eq_0_iff_dvd)
  then show "rg_length r = n \<and> 0 < n \<and> ar_committed s \<le> rg_offset r \<and>
      rg_offset r + n = ar_committed s' \<and> ar_committed s' \<le> length (ar_storage s) \<and>
      (ar_base s + rg_offset r) mod unat al = 0"
    using res align_up(2) [OF pos, of "ar_committed s"] by auto
qed

section \<open>Runs of an arena\<close>

fun arena_alloc_all :: "arena \<Rightarrow> (nat \<times> u32) list \<Rightarrow> (region \<times> u32) list \<times> arena" where
  "arena_alloc_all a [] = ([], a)"
| "arena_alloc_all a ((n, al) # reqs) =
     (case arena_allocate a n al of
        (Inl e, a') \<Rightarrow> arena_alloc_all a' reqs
      | (Inr r, a') \<Rightarrow> (case arena_alloc_all a' reqs of (rs, a'') \<Rightarrow> ((r, al) # rs, a'')))"

lemma arena_alloc_all_eq: "arena_alloc_all a reqs = arena.alloc_all a reqs"
  by (induction a reqs rule: arena_alloc_all.induct) (simp_all split: prod.split sum.split)

datatype arena_op = Allocate nat u32 | Seal | Reset

fun arena_step :: "arena \<Rightarrow> arena_op \<Rightarrow> arena" where
  "arena_step a (Allocate n al) = snd (arena_allocate a n al)"
| "arena_step a Seal = snd (arena_seal a)"
| "arena_step a Reset = snd (arena_reset a)"

lemma arena_new_inv: "arena_new base storage = Inr a \<Longrightarrow>
   arena_inv a \<and> ar_storage a = storage \<and> ar_base a = base"
  by (auto simp: arena_new_def arena_inv_def split: if_splits)

lemma arena_step_inv:
  assumes "arena_inv a"
  shows "arena_inv (arena_step a op) \<and> length (ar_storage (arena_step a op)) = length (ar_storage a)"
proof (cases op)
  case (Allocate n al)
  then show ?thesis
    using arena_allocate_inv [OF assms] arena.alloc_limit by simp
next
  case Seal
  with assms show ?thesis by (simp add: arena_seal_def arena_inv_def)
next
  case Reset
  have "length (write_at (ar_storage a) 0 (replicate (ar_committed a) 0)) = length (ar_storage a)"
    using assms by (intro length_write_at) (simp add: arena_inv_def)
  moreover from this have "ar_storage a \<noteq> [] \<Longrightarrow>
      write_at (ar_storage a) 0 (replicate (ar_committed a) 0) \<noteq> []"
    by (metis length_0_conv)
  ultimately show ?thesis
    using assms Reset by (auto simp: arena_reset_def arena_inv_def)
qed

lemma arena_run_inv:
  "arena_inv a \<Longrightarrow> arena_inv (foldl arena_step a ops)
   \<and> length (ar_storage (foldl arena_step a ops)) = length (ar_storage a)"
proof (induction ops arbitrary: a)
  case (Cons op ops)
  show ?case using Cons.IH [of "arena_step a op"] arena_step_inv [OF Cons.prems, of op] by simp
qed simp

section \<open>Properties\<close>

text \<open>
  Allocation is safe: from a new arena, for every sequence of requests (failing ones
  included), the regions of the successful requests lie inside the storage, are not empty, are
  pairwise disjoint and ascending, and each starts at an address divisible by the alignment it
  was requested with.
\<close>

theorem arena_regions_disjoint_aligned:
  "case arena_new base storage of
     Inl e \<Rightarrow> storage = [] \<or> 0 < base mod 64
   | Inr a \<Rightarrow>
       (case arena_alloc_all a reqs of (rs, a') \<Rightarrow>
         list_all (\<lambda>(r, al). 0 < rg_length r \<and> rg_offset r + rg_length r \<le> length storage \<and>
           (base + rg_offset r) mod unat al = 0) rs \<and>
         sorted_wrt (\<lambda>r r'. rg_offset r + rg_length r \<le> rg_offset r') (map fst rs))"
proof (cases "arena_new base storage")
  case (Inl e)
  then show ?thesis by (auto simp: arena_new_def split: if_splits)
next
  case (Inr a)
  obtain rs a' where run: "arena.alloc_all a reqs = (rs, a')" by (cases "arena.alloc_all a reqs")
  have a: "arena_inv a" "ar_storage a = storage" "ar_base a = base"
    using arena_new_inv [OF Inr] by simp_all
  from arena.alloc_all_disjoint [OF a(1) run] show ?thesis
    by (auto simp: Inr arena_alloc_all_eq run a list_all_iff)
qed

text \<open>
  The counters stay consistent in every reachable arena, under any sequence of allocations,
  seals and resets: requested and current agree, current is at most committed, committed at most
  the capacity, the high-water mark is at least current and at most the capacity, and the
  storage keeps its size.
\<close>

theorem arena_counters_consistent:
  "case arena_new base storage of
     Inl e \<Rightarrow> True
   | Inr a \<Rightarrow>
       (let u = arena_usage_of (foldl arena_step a ops)
        in us_requested u = us_current u \<and> us_current u \<le> us_committed u \<and>
           us_committed u \<le> us_capacity u \<and> us_current u \<le> us_high_water u \<and>
           us_high_water u \<le> us_capacity u \<and> us_capacity u = length storage)"
proof (cases "arena_new base storage")
  case (Inr a)
  then have "arena_inv a" "ar_storage a = storage" using arena_new_inv [OF Inr] by simp_all
  with arena_run_inv [of a ops] show ?thesis
    by (simp add: Inr arena_usage_of_def arena_inv_def Let_def)
qed simp

text \<open>
  C23: Writing through one region changes nothing else: if a caller writes to region \<open>r\<close> of a sealed
  arena (any new contents of the same size), the storage before the region and behind it, up to the
  end of the memory and past the committed bytes, is what it was, and so are the counters; reading
  a region \<open>r'\<close> that does not overlap it gives the same bytes before and after, and reading \<open>r\<close> gives
  what was written.
\<close>

theorem arena_region_isolation:
  assumes "arena_inv a"
    and "arena_region_mut a r f = (Inr (), a')"
    and "\<And>xs. length (f xs) = length xs"
    and "rg_offset r + rg_length r \<le> rg_offset r' \<or> rg_offset r' + rg_length r' \<le> rg_offset r"
  shows "take (rg_offset r) (ar_storage a') = take (rg_offset r) (ar_storage a)
    \<and> drop (rg_offset r + rg_length r) (ar_storage a') = drop (rg_offset r + rg_length r) (ar_storage a)
    \<and> length (ar_storage a') = length (ar_storage a) \<and> arena_usage_of a' = arena_usage_of a
    \<and> ar_base a' = ar_base a \<and> ar_sealed a'
    \<and> arena_region a' r' = arena_region a r'
    \<and> (case arena_region a r of Inl e \<Rightarrow> False | Inr old \<Rightarrow> arena_region a' r = Inr (f old))"
proof -
  obtain first e where b: "region_bounds a r = Inr (first, e)" and sealed: "ar_sealed a"
    and a': "a' = a\<lparr>ar_storage := write_at (ar_storage a) first
             (f (take (e - first) (drop first (ar_storage a))))\<rparr>"
    using assms(2) by (auto simp: arena_region_mut_def split: if_splits sum.splits)
  have bounds: "first = rg_offset r" "e = rg_offset r + rg_length r" "e \<le> ar_committed a"
    using b by (auto simp: region_bounds_def checked_add_Some split: if_splits option.splits)
  have fits: "e \<le> length (ar_storage a)" using bounds assms(1) by (simp add: arena_inv_def)
  let ?new = "f (take (e - first) (drop first (ar_storage a)))"
  have len: "length ?new = rg_length r" using bounds fits by (simp add: assms(3))
  have same: "region_bounds a' q = region_bounds a q" for q
    by (simp add: region_bounds_def a' split: option.split)
  have other: "slice (write_at (ar_storage a) first ?new) i j = slice (ar_storage a) i j"
    if "rg_offset r + rg_length r \<le> i \<or> j \<le> rg_offset r" for i j
    using bounds fits len that by (intro slice_write_at_disjoint) auto
  have own: "slice (write_at (ar_storage a) first ?new) first e = ?new"
    using slice_write_at_same [of first ?new "ar_storage a"] bounds fits len by simp
  have rd: "arena_region c q = bind_result (region_bounds c q)
      (\<lambda>(first, e). Inr (slice (ar_storage c) first e))" if "ar_sealed c" for c q
    using that by (simp add: arena_region_def slice_def)
  have sealed': "ar_sealed a'" using sealed by (simp add: a')
  have "arena_region a' r' = arena_region a r'"
  proof (cases "region_bounds a r'")
    case (Inr p)
    then obtain i j where p: "p = (i, j)" "i = rg_offset r'" "j = rg_offset r' + rg_length r'"
      by (auto simp: region_bounds_def checked_add_Some split: if_splits option.splits)
    have "slice (ar_storage a') i j = slice (ar_storage a) i j"
      unfolding a' using other [of i j] assms(4) p by simp
    with Inr p show ?thesis by (simp add: rd sealed sealed' same)
  next
    case (Inl x)
    then show ?thesis by (simp add: rd sealed sealed' same)
  qed
  moreover have "arena_region a' r = Inr (f (slice (ar_storage a) first e))"
  proof -
    have "ar_storage a' = write_at (ar_storage a) first ?new" by (simp add: a')
    then have "slice (ar_storage a') first e = f (slice (ar_storage a) first e)"
      using own by (simp only: slice_def)
    then show ?thesis unfolding rd [OF sealed'] same b by simp
  qed
  moreover have "arena_region a r = Inr (slice (ar_storage a) first e)"
    by (simp add: rd sealed b)
  moreover have "take (rg_offset r) (ar_storage a') = take (rg_offset r) (ar_storage a)"
    "drop (rg_offset r + rg_length r) (ar_storage a') = drop (rg_offset r + rg_length r) (ar_storage a)"
    "length (ar_storage a') = length (ar_storage a)"
    using bounds fits len unfolding a' by (simp_all add: write_at_def)
  moreover from this(3) have "arena_usage_of a' = arena_usage_of a" "ar_base a' = ar_base a"
    by (simp_all add: arena_usage_of_def a')
  ultimately show ?thesis using sealed' by simp
qed

definition sample_arena :: arena where
  "sample_arena =
     \<lparr>ar_base = 64, ar_storage = [7, 7, 7, 7], ar_requested = 4, ar_committed = 4,
      ar_current = 4, ar_high_water = 4, ar_sealed = True\<rparr>"

text \<open>Six bytes of which four are committed, in two regions: the first region is reversed.\<close>

definition two_regions :: arena where
  "two_regions =
     \<lparr>ar_base = 64, ar_storage = [1, 2, 3, 4, 5, 6], ar_requested = 4, ar_committed = 4,
      ar_current = 4, ar_high_water = 4, ar_sealed = True\<rparr>"

definition first_reversed :: arena where
  "first_reversed = two_regions\<lparr>ar_storage := [2, 1, 3, 4, 5, 6]\<rparr>"

theorem arena_region_isolation_witness:
  "drop 2 (ar_storage first_reversed) = [3, 4, 5, 6]
   \<and> arena_region first_reversed \<lparr>rg_offset = 2, rg_length = 2\<rparr> = Inr [3, 4]
   \<and> arena_region first_reversed \<lparr>rg_offset = 0, rg_length = 2\<rparr> = Inr [2, 1]"
proof -
  have "arena_inv two_regions" by (simp add: arena_inv_def two_regions_def)
  moreover have "arena_region_mut two_regions \<lparr>rg_offset = 0, rg_length = 2\<rparr> rev = (Inr (), first_reversed)"
    by (simp add: arena_region_mut_def region_bounds_def two_regions_def first_reversed_def checked_add_def
        u64_limit_eq write_at_def)
  ultimately have "drop 2 (ar_storage first_reversed) = drop 2 (ar_storage two_regions)
    \<and> arena_region first_reversed \<lparr>rg_offset = 2, rg_length = 2\<rparr> = arena_region two_regions \<lparr>rg_offset = 2, rg_length = 2\<rparr>
    \<and> (case arena_region two_regions \<lparr>rg_offset = 0, rg_length = 2\<rparr> of Inl e \<Rightarrow> False
        | Inr old \<Rightarrow> arena_region first_reversed \<lparr>rg_offset = 0, rg_length = 2\<rparr> = Inr (rev old))"
    using arena_region_isolation [of two_regions "\<lparr>rg_offset = 0, rg_length = 2\<rparr>" rev first_reversed
      "\<lparr>rg_offset = 2, rg_length = 2\<rparr>"] by (simp add: numeral_2_eq_2)
  then show ?thesis
    by (simp add: two_regions_def arena_region_def region_bounds_def checked_add_def u64_limit_eq)
qed

text \<open>
  A reset really ends the previous use: on a sealed arena it zeroes every committed byte and
  no other, clears the counters but keeps the high-water mark, and no region handed out before
  can be read after the arena is sealed again, until it is allocated anew; on an arena that is
  not sealed it is refused and changes nothing.
\<close>

theorem arena_reset_ends_use:
  assumes "arena_inv a" and "ar_committed a < u64_limit"
  shows "case arena_reset a of
     (Inl e, a') \<Rightarrow> \<not> ar_sealed a \<and> a' = a \<and> ae_status e = PS_STATE
   | (Inr _, a') \<Rightarrow> ar_storage a' = replicate (ar_committed a) 0 @ drop (ar_committed a) (ar_storage a)
       \<and> ar_committed a' = 0 \<and> ar_high_water a' = ar_high_water a
       \<and> (case arena_region (snd (arena_seal a')) r of Inl e \<Rightarrow> True | Inr xs \<Rightarrow> False)"
proof (cases "ar_sealed a")
  case False
  then show ?thesis by (simp add: arena_reset_def arena_error_def)
next
  case True
  have gone: "region_bounds c r = Inl (arena_error PS_LENGTH 1 0)
      \<or> (\<exists>x. region_bounds c r = Inl x)" if "ar_committed c = 0" for c
    using that by (auto simp: region_bounds_def checked_add_Some split: option.splits)
  define a' where "a' = snd (arena_reset a)"
  have reset: "arena_reset a = (Inr (), a')"
    and a': "ar_storage a' = write_at (ar_storage a) 0 (replicate (ar_committed a) 0)"
      "ar_committed a' = 0" "ar_high_water a' = ar_high_water a" "\<not> ar_sealed a'"
    using True assms(2) by (simp_all add: arena_reset_def a'_def)
  have "ar_committed (snd (arena_seal a')) = 0" "ar_sealed (snd (arena_seal a'))"
    using a' by (simp_all add: arena_seal_def)
  then obtain x where "arena_region (snd (arena_seal a')) r = Inl x"
    using gone [of "snd (arena_seal a')"] by (auto simp: arena_region_def)
  then show ?thesis
    by (simp add: reset a' write_at_def)
qed

theorem arena_reset_ends_use_witness:
  "case arena_reset sample_arena of
     (Inl e, a') \<Rightarrow> \<not> ar_sealed sample_arena \<and> a' = sample_arena \<and> ae_status e = PS_STATE
   | (Inr _, a') \<Rightarrow> ar_storage a' =
         replicate (ar_committed sample_arena) 0 @ drop (ar_committed sample_arena) (ar_storage sample_arena)
       \<and> ar_committed a' = 0 \<and> ar_high_water a' = ar_high_water sample_arena
       \<and> (case arena_region (snd (arena_seal a')) \<lparr>rg_offset = 0, rg_length = 2\<rparr> of
            Inl e \<Rightarrow> True | Inr xs \<Rightarrow> False)"
  by (rule arena_reset_ends_use) (simp_all add: arena_inv_def sample_arena_def u64_limit_def)

end
