(* ===== verification/PB_Primitive.thy ===== *)
theory PB_Primitive
  imports PB_Arena
begin

text \<open>
  The primitive interface of \<open>src/crates/promptboot-core/src/lib.rs\<close>: the shape check of the
  nine operations and \<open>promptboot_run_primitive\<close>, with every check in the order of the code.
  Memory is a function from addresses to bytes, so that the alias checks mean what they say;
  addresses and 64-bit sizes are \<open>nat\<close>. The numeric kernel is an argument: it is given the request,
  the memory and the address of the staging region, and returns a status, an index and the whole
  memory, which it may have changed anywhere. \<open>PB_Reference\<close> models the kernels of \<open>fp32_sse2.rs\<close> and
  states the properties of the interface with them. The 80 bytes of the result are not part of the
  memory: they are the record that is returned.
\<close>

section \<open>Requests and results\<close>

definition ABI_VERSION :: u32 where "ABI_VERSION = 1"
definition CONTEXT_LIMIT :: nat where "CONTEXT_LIMIT = 32768"

datatype arena_kind = NoArena | PrimitiveScratch

fun arena_kind_code :: "arena_kind \<Rightarrow> u32" where
  "arena_kind_code NoArena = 0"
| "arena_kind_code PrimitiveScratch = 1"

record primitive_request =
  rq_abi_version :: u32
  rq_operation :: u32
  rq_input :: nat
  rq_input_bytes :: nat
  rq_aux :: nat
  rq_aux_bytes :: nat
  rq_output :: nat
  rq_output_words :: nat
  rq_scratch :: nat
  rq_scratch_bytes :: nat
  rq_dim0 :: u32
  rq_dim1 :: u32
  rq_dim2 :: u32
  rq_dim3 :: u32
  rq_position :: u32
  rq_flags :: u32

record primitive_result =
  pr_status :: nat
  pr_output_words :: nat
  pr_error_operation :: u32
  pr_error_arena :: u32
  pr_error_index :: u32
  pr_reserved :: u32
  pr_needed :: nat
  pr_available :: nat
  pr_usage :: arena_usage

definition failure_safe :: primitive_result where
  "failure_safe =
     \<lparr>pr_status = ps_code PS_STATE, pr_output_words = 0, pr_error_operation = 0,
      pr_error_arena = arena_kind_code NoArena, pr_error_index = 0, pr_reserved = 0,
      pr_needed = 0, pr_available = 0,
      pr_usage = \<lparr>us_capacity = 0, us_requested = 0, us_committed = 0, us_current = 0,
                  us_high_water = 0\<rparr>\<rparr>"

text \<open>\<open>write_failure\<close> changes the result in place and returns the status.\<close>

definition write_failure ::
  "primitive_status \<Rightarrow> u32 \<Rightarrow> arena_kind \<Rightarrow> u32 \<Rightarrow> nat \<Rightarrow> nat \<Rightarrow> arena_usage option \<Rightarrow>
   primitive_result \<Rightarrow> nat \<times> primitive_result" where
  "write_failure status operation kind index needed available usage r =
     (ps_code status,
      r\<lparr>pr_status := ps_code status, pr_output_words := 0, pr_error_operation := operation,
        pr_error_arena := arena_kind_code kind, pr_error_index := index, pr_needed := needed,
        pr_available := available,
        pr_usage := (case usage of Some u \<Rightarrow> u | None \<Rightarrow> pr_usage r)\<rparr>)"

section \<open>Address ranges\<close>

record address_range =
  rn_start :: nat
  rn_end :: nat

definition overlaps :: "address_range \<Rightarrow> address_range \<Rightarrow> bool" where
  "overlaps a b \<longleftrightarrow> rn_start a < rn_end b \<and> rn_start b < rn_end a"

definition fixed_range :: "nat \<Rightarrow> nat \<Rightarrow> primitive_status + address_range" where
  "fixed_range address n =
     (case checked_add address n of
        None \<Rightarrow> Inl PS_ARITHMETIC_OVERFLOW
      | Some e \<Rightarrow> Inr \<lparr>rn_start = address, rn_end = e\<rparr>)"

definition declared_range :: "nat \<Rightarrow> nat \<Rightarrow> primitive_status + address_range option" where
  "declared_range pointer n =
     (if pointer = 0 \<or> n = 0 then Inr None
      else bind_result (fixed_range pointer n) (\<lambda>r. Inr (Some r)))"

definition invalid_empty :: "nat \<Rightarrow> nat \<Rightarrow> primitive_status option" where
  "invalid_empty pointer n =
     (if pointer = 0 \<and> n \<noteq> 0 then Some PS_NULL
      else if pointer \<noteq> 0 \<and> n = 0 then Some PS_LENGTH else None)"

section \<open>Shapes\<close>

text \<open>The remainder loop: one bit of the numerator at a time, from the highest.\<close>

primrec remainder_bits :: "nat \<Rightarrow> u64 \<Rightarrow> u64 \<Rightarrow> u64 \<Rightarrow> u64" where
  "remainder_bits 0 numerator denominator remainder = remainder"
| "remainder_bits (Suc b) numerator denominator remainder =
     (let remainder = (push_bit 1 remainder OR (drop_bit b numerator AND 1));
          remainder = (if remainder \<ge> denominator then remainder - denominator else remainder)
      in remainder_bits b numerator denominator remainder)"

definition is_divisible :: "u64 \<Rightarrow> u64 \<Rightarrow> bool" where
  "is_divisible numerator denominator \<longleftrightarrow> remainder_bits 64 numerator denominator 0 = 0"

record primitive_schema =
  sc_input_bytes :: nat
  sc_aux_bytes :: nat
  sc_output_words :: nat
  sc_input_f32 :: bool
  sc_aux_f32 :: bool

definition mul_status :: "nat \<Rightarrow> nat \<Rightarrow> primitive_status + nat" where
  "mul_status a b = ok_or (checked_mul a b) PS_ARITHMETIC_OVERFLOW"

definition add_status :: "nat \<Rightarrow> nat \<Rightarrow> primitive_status + nat" where
  "add_status a b = ok_or (checked_add a b) PS_ARITHMETIC_OVERFLOW"

definition f32_bytes :: "nat \<Rightarrow> primitive_status + nat" where
  "f32_bytes words = mul_status words 4"

definition unused_zero :: "u32 list \<Rightarrow> bool" where
  "unused_zero vs = list_all (\<lambda>v. v = 0) vs"

definition make_schema :: "nat \<Rightarrow> nat \<Rightarrow> nat \<Rightarrow> bool \<Rightarrow> bool \<Rightarrow> primitive_schema" where
  "make_schema input aux words input_f32 aux_f32 =
     \<lparr>sc_input_bytes = input, sc_aux_bytes = aux, sc_output_words = words,
      sc_input_f32 = input_f32, sc_aux_f32 = aux_f32\<rparr>"

definition schema_vector :: "primitive_request \<Rightarrow> bool" where
  "schema_vector rq \<longleftrightarrow> unat (rq_dim0 rq) \<noteq> 0 \<and>
     unused_zero [rq_dim1 rq, rq_dim2 rq, rq_dim3 rq, rq_position rq]"

definition schema_blocks :: "primitive_request \<Rightarrow> primitive_status + primitive_schema" where
  "schema_blocks rq =
     (let d0 = unat (rq_dim0 rq); d1 = unat (rq_dim1 rq) in
      if d0 = 0 \<or> d1 = 0 \<or> d1 mod 32 \<noteq> 0
         \<or> \<not> unused_zero [rq_dim2 rq, rq_dim3 rq, rq_position rq]
      then Inl PS_DIMENSION
      else bind_result (mul_status d0 (d1 div 32)) (\<lambda>blocks.
        let block_bytes = (if rq_operation rq = 2 then 18 else 34) in
        bind_result (mul_status d0 d1) (\<lambda>dequant.
        bind_result (mul_status blocks block_bytes) (\<lambda>input.
        bind_result (f32_bytes d1) (\<lambda>aux.
        bind_result (add_status dequant 1) (\<lambda>words.
        bind_result (add_status words d0) (\<lambda>words.
          Inr (make_schema input aux words False True))))))))"

definition schema_attention :: "primitive_request \<Rightarrow> primitive_status + primitive_schema" where
  "schema_attention rq =
     (let d0 = unat (rq_dim0 rq); d1 = unat (rq_dim1 rq); d2 = unat (rq_dim2 rq);
          d3 = unat (rq_dim3 rq) in
      if d0 = 0 \<or> d1 = 0 \<or> \<not> is_divisible (ucast (rq_dim0 rq)) (ucast (rq_dim1 rq))
         \<or> \<not> (rq_dim3 rq = 2 \<or> rq_dim3 rq = 64) \<or> d2 = 0 \<or> d2 > CONTEXT_LIMIT
         \<or> rq_position rq \<noteq> 0
      then Inl PS_DIMENSION
      else bind_result (mul_status d0 d3) (\<lambda>queries.
        bind_result (bind_result (mul_status d2 d1) (\<lambda>v. mul_status v d3)) (\<lambda>kv_words.
        bind_result (bind_result (mul_status kv_words 2) (\<lambda>v. add_status queries v))
          (\<lambda>input_words.
        bind_result (bind_result (mul_status d2 2) (\<lambda>v. add_status d3 v)) (\<lambda>per_head.
        bind_result (f32_bytes input_words) (\<lambda>input.
        bind_result (mul_status d0 per_head) (\<lambda>words.
          Inr (make_schema input 0 words True False))))))))"

definition schema :: "primitive_request \<Rightarrow> primitive_status + primitive_schema" where
  "schema rq =
     (let d0 = unat (rq_dim0 rq); d1 = unat (rq_dim1 rq); oper = rq_operation rq in
      if oper = 1 then
        (if \<not> schema_vector rq then Inl PS_DIMENSION
         else bind_result (bind_result (mul_status d0 3) f32_bytes) (\<lambda>input.
           Inr (make_schema input 0 d0 True False)))
      else if oper = 2 \<or> oper = 3 then schema_blocks rq
      else if oper = 4 then
        (if \<not> schema_vector rq then Inl PS_DIMENSION
         else bind_result (f32_bytes d0) (\<lambda>input. bind_result (f32_bytes d0) (\<lambda>aux.
           Inr (make_schema input aux d0 True True))))
      else if oper = 5 then
        (if \<not> (rq_dim0 rq = 4 \<or> rq_dim0 rq = 64) \<or> d1 = 0
            \<or> unat (rq_position rq) \<ge> CONTEXT_LIMIT \<or> \<not> unused_zero [rq_dim2 rq, rq_dim3 rq]
         then Inl PS_DIMENSION
         else bind_result (mul_status d0 d1) (\<lambda>words. bind_result (f32_bytes words) (\<lambda>input.
           Inr (make_schema input 0 words True False))))
      else if oper = 6 then
        (if \<not> schema_vector rq then Inl PS_DIMENSION
         else bind_result (f32_bytes d0) (\<lambda>input. Inr (make_schema input 0 d0 True False)))
      else if oper = 7 then schema_attention rq
      else if oper = 8 then
        (if \<not> schema_vector rq then Inl PS_DIMENSION
         else bind_result (f32_bytes d0) (\<lambda>input. bind_result (f32_bytes d0) (\<lambda>aux.
           bind_result (mul_status d0 2) (\<lambda>words.
             Inr (make_schema input aux words True True)))))
      else if oper = 9 then
        (if \<not> schema_vector rq then Inl PS_DIMENSION
         else bind_result (f32_bytes d0) (\<lambda>input. Inr (make_schema input 0 1 True False)))
      else Inl PS_UNSUPPORTED_OPERATION)"

section \<open>Running a primitive\<close>

type_synonym memory = "nat \<Rightarrow> u8"

definition store :: "memory \<Rightarrow> nat \<Rightarrow> bytes \<Rightarrow> memory" where
  "store mem address bs =
     (\<lambda>x. if address \<le> x \<and> x < address + length bs then bs ! (x - address) else mem x)"

definition load :: "memory \<Rightarrow> nat \<Rightarrow> nat \<Rightarrow> bytes" where
  "load mem address n = map mem [address..<address + n]"

type_synonym kernel =
  "primitive_request \<Rightarrow> memory \<Rightarrow> nat \<Rightarrow> (primitive_status \<times> u32) \<times> memory"

definition RESULT_BYTES :: nat where "RESULT_BYTES = 80"
definition REQUEST_BYTES :: nat where "REQUEST_BYTES = 96"

definition output_bytes_declared :: "primitive_request \<Rightarrow> nat" where
  "output_bytes_declared rq = rq_output_words rq * 4"

text \<open>
  The checks before anything is written: result and request pointers, the four declared ranges
  (input, aux, output, scratch) and their overlap with the result. An error is returned without
  touching the result.
\<close>

definition check_addresses ::
  "nat \<Rightarrow> nat \<Rightarrow> primitive_request \<Rightarrow>
   primitive_status + address_range \<times> address_range option list" where
  "check_addresses request result rq =
     (if result = 0 then Inl PS_NULL
      else if result mod 8 \<noteq> 0 then Inl PS_ALIGNMENT
      else bind_result (fixed_range result RESULT_BYTES) (\<lambda>result_range.
        if request = 0 then Inl PS_NULL
        else if request mod 8 \<noteq> 0 then Inl PS_ALIGNMENT
        else bind_result (fixed_range request REQUEST_BYTES) (\<lambda>request_range.
          if overlaps request_range result_range then Inl PS_OVERLAP
          else case checked_mul (rq_output_words rq) 4 of
            None \<Rightarrow> Inl PS_ARITHMETIC_OVERFLOW
          | Some declared \<Rightarrow>
            bind_result (declared_range (rq_input rq) (rq_input_bytes rq)) (\<lambda>input.
            bind_result (declared_range (rq_aux rq) (rq_aux_bytes rq)) (\<lambda>aux.
            bind_result (declared_range (rq_output rq) declared) (\<lambda>out_range.
            bind_result (declared_range (rq_scratch rq) (rq_scratch_bytes rq)) (\<lambda>scratch.
              let checked = [input, aux, out_range, scratch]
              in if list_ex (\<lambda>r. case r of Some x \<Rightarrow> overlaps result_range x | None \<Rightarrow> False) checked
                 then Inl PS_OVERLAP
                 else Inr (request_range, checked))))))))"

definition both_overlap :: "address_range option \<Rightarrow> address_range option \<Rightarrow> bool" where
  "both_overlap a b = (case (a, b) of (Some x, Some y) \<Rightarrow> overlaps x y | _ \<Rightarrow> False)"

definition forbidden_overlap :: "address_range \<Rightarrow> address_range option list \<Rightarrow> bool" where
  "forbidden_overlap request_range checked =
     (let input = checked ! 0; aux = checked ! 1; out_range = checked ! 2; scratch = checked ! 3
      in list_ex (\<lambda>(a, b). both_overlap a b)
           [(out_range, scratch), (out_range, Some request_range), (out_range, input),
            (out_range, aux), (scratch, Some request_range), (scratch, input), (scratch, aux)])"

text \<open>
  The checks that fill in the failure-safe result: what is reported is status, arena, index,
  needed and available.
\<close>

type_synonym check_failure = "primitive_status \<times> arena_kind \<times> u32 \<times> nat \<times> nat"

definition first_invalid_empty :: "primitive_request \<Rightarrow> primitive_status option" where
  "first_invalid_empty rq =
     (case find (\<lambda>(p, n). invalid_empty p n \<noteq> None)
        [(rq_input rq, rq_input_bytes rq), (rq_aux rq, rq_aux_bytes rq),
         (rq_output rq, output_bytes_declared rq), (rq_scratch rq, rq_scratch_bytes rq)] of
        None \<Rightarrow> None
      | Some (p, n) \<Rightarrow> invalid_empty p n)"

definition check_layout ::
  "primitive_request \<Rightarrow> primitive_schema \<Rightarrow> nat \<Rightarrow> check_failure option" where
  "check_layout rq sc output_bytes =
     (case first_invalid_empty rq of
        Some status \<Rightarrow> Some (status, NoArena, 0, 0, 0)
      | None \<Rightarrow>
        if rq_input_bytes rq \<noteq> sc_input_bytes sc
        then Some (PS_LENGTH, NoArena, 0, sc_input_bytes sc, rq_input_bytes rq)
        else if rq_aux_bytes rq \<noteq> sc_aux_bytes sc
        then Some (PS_LENGTH, NoArena, 0, sc_aux_bytes sc, rq_aux_bytes rq)
        else if rq_output rq = 0 then Some (PS_LENGTH, NoArena, 0, sc_output_words sc, 0)
        else if rq_output_words rq < sc_output_words sc
        then Some (PS_LENGTH, NoArena, 0, sc_output_words sc, rq_output_words rq)
        else if rq_scratch rq = 0
        then Some (PS_ARENA_CAPACITY, PrimitiveScratch, 0, output_bytes, 0)
        else if rq_scratch_bytes rq < output_bytes
        then Some (PS_ARENA_CAPACITY, PrimitiveScratch, 0, output_bytes, rq_scratch_bytes rq)
        else if sc_input_f32 sc \<and> rq_input rq mod 4 \<noteq> 0
        then Some (PS_ALIGNMENT, NoArena, 0, 4, 0)
        else if sc_aux_f32 sc \<and> rq_aux rq mod 4 \<noteq> 0
        then Some (PS_ALIGNMENT, NoArena, 0, 4, 0)
        else if rq_output rq mod 4 \<noteq> 0 then Some (PS_ALIGNMENT, NoArena, 0, 4, 0)
        else if rq_scratch rq mod 64 \<noteq> 0
        then Some (PS_ALIGNMENT, PrimitiveScratch, 0, 64, 0)
        else None)"

definition check_request ::
  "primitive_request \<Rightarrow> address_range \<Rightarrow> address_range option list \<Rightarrow>
   check_failure + primitive_schema \<times> nat" where
  "check_request rq request_range checked =
     (if forbidden_overlap request_range checked then Inl (PS_OVERLAP, NoArena, 0, 0, 0)
      else if rq_abi_version rq \<noteq> ABI_VERSION \<or> rq_flags rq \<noteq> 0
      then Inl (PS_STATE, NoArena, 0, unat ABI_VERSION, unat (rq_abi_version rq))
      else if rq_operation rq = 5 \<and> unat (rq_position rq) \<ge> CONTEXT_LIMIT
      then Inl (PS_INDEX, NoArena, rq_position rq, CONTEXT_LIMIT, unat (rq_position rq))
      else case schema rq of
        Inl status \<Rightarrow> Inl (status, NoArena, 0, 0, 0)
      | Inr sc \<Rightarrow>
        if sc_output_words sc > u32_limit - 1
        then Inl (PS_ARITHMETIC_OVERFLOW, NoArena, 0, sc_output_words sc, u32_limit - 1)
        else case checked_mul (sc_output_words sc) 4 of
          None \<Rightarrow> Inl (PS_ARITHMETIC_OVERFLOW, NoArena, 0, sc_output_words sc, u32_limit - 1)
        | Some output_bytes \<Rightarrow>
          (case check_layout rq sc output_bytes of
             Some f \<Rightarrow> Inl f
           | None \<Rightarrow> Inr (sc, output_bytes)))"

text \<open>
  The staged run: the scratch range becomes an arena, the output is computed in a region of it
  and copied to the caller only when the kernel reports success.
\<close>

definition run_staged ::
  "kernel \<Rightarrow> memory \<Rightarrow> primitive_request \<Rightarrow> primitive_schema \<Rightarrow> nat \<Rightarrow>
   (nat \<times> primitive_result) \<times> memory" where
  "run_staged numeric mem rq sc output_bytes =
    (let fail = (\<lambda>e usage. write_failure (ae_status e) (rq_operation rq) PrimitiveScratch 0
           (ae_needed e) (ae_available e) usage failure_safe) in
     case arena_new (rq_scratch rq) (load mem (rq_scratch rq) (rq_scratch_bytes rq)) of
       Inl e \<Rightarrow> (fail e None, mem)
     | Inr a \<Rightarrow>
       (case arena_allocate a output_bytes 64 of
          (Inl e, a) \<Rightarrow> (fail e (Some (arena_usage_of a)), mem)
        | (Inr rg, a) \<Rightarrow>
          (case arena_seal a of
             (Inl e, a) \<Rightarrow> (fail e (Some (arena_usage_of a)), mem)
           | (Inr _, a) \<Rightarrow>
             (case region_bounds a rg of
                Inl e \<Rightarrow> (fail e (Some (arena_usage_of a)), mem)
              | Inr (first, last_byte) \<Rightarrow>
                let stage = rq_scratch rq + first;
                    outcome = numeric rq mem stage;
                    mem = snd outcome;
                    usage = arena_usage_of a
                in if fst (fst outcome) \<noteq> PS_OK
                   then (write_failure (fst (fst outcome)) (rq_operation rq) PrimitiveScratch
                           (snd (fst outcome)) 0 0 (Some usage) failure_safe, mem)
                   else ((ps_code PS_OK,
                          failure_safe\<lparr>pr_usage := usage, pr_output_words := sc_output_words sc,
                            pr_status := ps_code PS_OK\<rparr>),
                         store mem (rq_output rq) (load mem stage output_bytes))))))"

definition run_primitive ::
  "kernel \<Rightarrow> memory \<Rightarrow> nat \<Rightarrow> nat \<Rightarrow> primitive_request \<Rightarrow>
   nat \<times> primitive_result option \<times> memory" where
  "run_primitive numeric mem request result rq =
     (case check_addresses request result rq of
        Inl status \<Rightarrow> (ps_code status, None, mem)
      | Inr (request_range, checked) \<Rightarrow>
        (case check_request rq request_range checked of
           Inl (status, kind, index, needed, available) \<Rightarrow>
             (case write_failure status (rq_operation rq) kind index needed available None
                     failure_safe of
                (code, r) \<Rightarrow> (code, Some r, mem))
         | Inr (sc, output_bytes) \<Rightarrow>
             (case run_staged numeric mem rq sc output_bytes of
                ((code, r), mem) \<Rightarrow> (code, Some r, mem))))"

section \<open>The remainder loop\<close>

lemma remainder_step:
  fixes r d :: u64
  assumes "r < d" and "unat d \<le> 2 ^ 63"
  shows "unat (push_bit 1 r OR (drop_bit b n AND 1)) = 2 * unat r + (unat n div 2 ^ b) mod 2"
proof -
  have less: "unat r < 2 ^ 63" using assms by (simp add: word_less_nat_alt)
  have bits: "unat (drop_bit b n AND 1) = (unat n div 2 ^ b) mod 2"
  proof -
    have "unat (drop_bit b n AND 1) = unat (drop_bit b n) AND 1"
      by (simp only: unsigned_and_eq unsigned_1)
    also have "\<dots> = unat (drop_bit b n) mod 2" by (rule and_one_eq)
    also have "unat (drop_bit b n) = unat n div 2 ^ b"
      by (simp only: unat_drop_bit_eq) (simp only: drop_bit_eq_div)
    finally show ?thesis .
  qed
  have sh: "unat (push_bit 1 r) = 2 * unat r"
    using less by (simp add: push_bit_eq_mult unat_word_ariths)
  have "push_bit 1 r OR (drop_bit b n AND 1) = push_bit 1 r + (drop_bit b n AND 1)"
  proof (rule disjunctive_add_eq_or [symmetric], rule bit_eqI)
    fix k
    show "bit (push_bit 1 r AND (drop_bit b n AND 1)) k = bit 0 k"
      unfolding bit_and_iff bit_push_bit_iff bit_1_iff by auto
  qed
  also have "unat \<dots> = (unat (push_bit 1 r) + unat (drop_bit b n AND 1)) mod 2 ^ LENGTH(64)"
    by (rule unat_word_ariths(1))
  also have "\<dots> = unat (push_bit 1 r) + unat (drop_bit b n AND 1)"
    by (rule mod_less) (use less in \<open>simp only: sh bits, simp\<close>)
  finally show ?thesis by (simp only: sh bits)
qed

lemma remainder_bits_mod:
  fixes n d r :: u64
  assumes "0 < d" and "unat d \<le> 2 ^ 63" and "unat r = (unat n div 2 ^ b) mod unat d"
  shows "unat (remainder_bits b n d r) = unat n mod unat d"
  using assms(3)
proof (induction b arbitrary: r)
  case 0
  then show ?case by simp
next
  case (Suc b)
  have pos: "0 < unat d" using assms(1) by (simp add: word_less_nat_alt)
  have r: "r < d" using Suc.prems pos by (simp add: word_less_nat_alt)
  let ?s = "push_bit 1 r OR (drop_bit b n AND 1)"
  let ?q = "unat n div 2 ^ b"
  have s: "unat ?s = 2 * unat r + ?q mod 2" by (rule remainder_step [OF r assms(2)])
  have half: "unat n div 2 ^ Suc b = ?q div 2" by (simp only: power_Suc2 div_mult2_eq)
  have shift: "(2 * (x mod m) + c) mod m = (2 * x + c) mod m" for x m c :: nat
    by (metis mod_add_left_eq mod_mult_right_eq)
  have "(2 * unat r + ?q mod 2) mod unat d = (2 * (?q div 2) + ?q mod 2) mod unat d"
    unfolding Suc.prems half by (rule shift)
  then have m: "unat ?s mod unat d = ?q mod unat d"
    by (simp only: s mult_div_mod_eq)
  have small: "unat ?s < 2 * unat d" using r s by (simp add: word_less_nat_alt)
  define s' where "s' = (if ?s \<ge> d then ?s - d else ?s)"
  have "unat s' = unat ?s mod unat d"
  proof (cases "d \<le> ?s")
    case True
    then have "unat s' = unat ?s - unat d" unfolding s'_def by (simp add: unat_sub)
    moreover have "unat d \<le> unat ?s" using True by (simp add: word_le_nat_alt)
    ultimately show ?thesis using small by (simp add: le_mod_geq)
  next
    case False
    then show ?thesis unfolding s'_def by (simp add: word_le_nat_alt)
  qed
  then have "unat s' = ?q mod unat d" by (simp only: m)
  then have "unat (remainder_bits b n d s') = unat n mod unat d" by (rule Suc.IH)
  then show ?case unfolding s'_def by (simp only: remainder_bits.simps Let_def)
qed

section \<open>The staged run\<close>

lemma fst_bind_Inr: "bind_result m f = Inr b \<Longrightarrow> \<exists>a. m = Inr a \<and> f a = Inr b"
  by (simp add: bind_result_Inr)

lemma mul_status_Inr: "mul_status a b = Inr c \<longleftrightarrow> c = a * b \<and> a * b < u64_limit"
  by (simp add: mul_status_def ok_or_Inr checked_mul_Some)

lemma add_status_Inr: "add_status a b = Inr c \<longleftrightarrow> c = a + b \<and> a + b < u64_limit"
  by (simp add: add_status_def ok_or_Inr checked_add_Some)

lemma schema_words_pos:
  assumes "schema rq = Inr sc"
  shows "0 < sc_output_words sc"
proof -
  have blocks: "schema_blocks rq = Inr sc \<Longrightarrow> 0 < sc_output_words sc"
    by (auto simp: schema_blocks_def Let_def bind_result_Inr mul_status_Inr add_status_Inr
        make_schema_def split: if_splits)
  have attention: "schema_attention rq = Inr sc \<Longrightarrow> 0 < sc_output_words sc"
    by (auto simp: schema_attention_def Let_def bind_result_Inr mul_status_Inr add_status_Inr
        make_schema_def split: if_splits)
  show ?thesis
    using assms blocks attention
    by (auto simp: schema_def Let_def bind_result_Inr mul_status_Inr f32_bytes_def
        make_schema_def schema_vector_def split: if_splits)
qed

lemma length_load [simp]: "length (load mem address n) = n"
  by (simp add: load_def)

lemma allocate_first:
  assumes "ar_committed a = 0" "ar_requested a = 0" "ar_current a = 0" "ar_high_water a = 0"
    "\<not> ar_sealed a" "0 < n" "n \<le> length (ar_storage a)" "n < u64_limit"
  shows "arena_allocate a n 64 = (Inr \<lparr>rg_offset = 0, rg_length = n\<rparr>,
     a\<lparr>ar_requested := n, ar_committed := n, ar_current := n, ar_high_water := n\<rparr>)"
proof -
  have "clear_low 63 (64 - 1) = 63 - 63 mod 64"
    by (rule clear_low_align [where k = 6]) (simp_all add: u64_limit_eq)
  moreover have "is_power_of_two 64" by (simp add: is_power_of_two_def)
  ultimately show ?thesis
    using assms by (simp add: arena_allocate_def Let_def checked_add_def u64_limit_eq)
qed

definition staged_usage :: "primitive_request \<Rightarrow> nat \<Rightarrow> arena_usage" where
  "staged_usage rq n =
     \<lparr>us_capacity = rq_scratch_bytes rq, us_requested = n, us_committed = n, us_current = n,
      us_high_water = n\<rparr>"

lemma run_staged_eq:
  assumes "0 < n" "n \<le> rq_scratch_bytes rq" "n < u64_limit" "rq_scratch rq mod 64 = 0"
  shows "run_staged numeric mem rq sc n =
    (let outcome = numeric rq mem (rq_scratch rq);
         mem1 = snd outcome
     in if fst (fst outcome) \<noteq> PS_OK
        then (write_failure (fst (fst outcome)) (rq_operation rq) PrimitiveScratch
                (snd (fst outcome)) 0 0 (Some (staged_usage rq n)) failure_safe, mem1)
        else ((ps_code PS_OK,
               failure_safe\<lparr>pr_usage := staged_usage rq n,
                 pr_output_words := sc_output_words sc, pr_status := ps_code PS_OK\<rparr>),
              store mem1 (rq_output rq) (load mem1 (rq_scratch rq) n)))"
proof -
  let ?st = "load mem (rq_scratch rq) (rq_scratch_bytes rq)"
  define a where "a = \<lparr>ar_base = rq_scratch rq, ar_storage = ?st, ar_requested = 0,
    ar_committed = 0, ar_current = 0, ar_high_water = 0, ar_sealed = False\<rparr>"
  have "?st \<noteq> []" using assms(1,2) by (metis length_load length_0_conv not_less)
  then have new: "arena_new (rq_scratch rq) ?st = Inr a"
    using assms(4) by (simp add: arena_new_def a_def)
  have alloc: "arena_allocate a n 64 = (Inr \<lparr>rg_offset = 0, rg_length = n\<rparr>,
     a\<lparr>ar_requested := n, ar_committed := n, ar_current := n, ar_high_water := n\<rparr>)"
    using assms by (intro allocate_first) (simp_all add: a_def)
  define b where "b = a\<lparr>ar_requested := n, ar_committed := n, ar_current := n,
    ar_high_water := n, ar_sealed := True\<rparr>"
  have seal: "arena_seal (a\<lparr>ar_requested := n, ar_committed := n, ar_current := n,
      ar_high_water := n\<rparr>) = (Inr (), b)"
    by (simp add: arena_seal_def a_def b_def)
  have bounds: "region_bounds b \<lparr>rg_offset = 0, rg_length = n\<rparr> = Inr (0, n)"
    using assms by (simp add: region_bounds_def checked_add_def b_def)
  have usage: "arena_usage_of b = staged_usage rq n"
    by (simp add: arena_usage_of_def staged_usage_def a_def b_def)
  show ?thesis
    by (simp add: run_staged_def new alloc seal bounds usage Let_def)
qed

text \<open>No check reports the status of success.\<close>

definition no_ok :: "primitive_status + 'a \<Rightarrow> bool" where
  "no_ok m = (case m of Inl s \<Rightarrow> s \<noteq> PS_OK | Inr _ \<Rightarrow> True)"

lemma no_ok_simps [simp]: "no_ok (Inl s) \<longleftrightarrow> s \<noteq> PS_OK" "no_ok (Inr a)"
  by (simp_all add: no_ok_def)

lemma no_ok_bind [intro]: "no_ok m \<Longrightarrow> (\<And>a. no_ok (f a)) \<Longrightarrow> no_ok (bind_result m f)"
  by (cases m) simp_all

lemma no_ok_arith [simp]:
  "no_ok (mul_status a b)" "no_ok (add_status a b)" "no_ok (f32_bytes a)"
  "no_ok (fixed_range c n)"
  by (simp_all add: no_ok_def mul_status_def add_status_def f32_bytes_def fixed_range_def ok_or_def
      split: option.split)

lemma no_ok_declared [simp]: "no_ok (declared_range p n)"
  by (auto simp: declared_range_def)

lemma no_ok_if: "no_ok a \<Longrightarrow> no_ok b \<Longrightarrow> no_ok (if c then a else b)"
  by simp

lemma no_ok_option:
  "no_ok a \<Longrightarrow> (\<And>x. no_ok (f x)) \<Longrightarrow> no_ok (case m of None \<Rightarrow> a | Some x \<Rightarrow> f x)"
  by (cases m) simp_all

lemmas no_ok_rules = no_ok_bind no_ok_if no_ok_option

lemma no_ok_addresses: "no_ok (check_addresses request result rq)"
  unfolding check_addresses_def Let_def by (intro no_ok_rules) simp_all

lemma no_ok_schema: "no_ok (schema rq)"
proof -
  have "no_ok (schema_blocks rq)"
    unfolding schema_blocks_def Let_def by (intro no_ok_rules) simp_all
  moreover have "no_ok (schema_attention rq)"
    unfolding schema_attention_def Let_def by (intro no_ok_rules) simp_all
  ultimately show ?thesis
    unfolding schema_def Let_def by (intro no_ok_rules) simp_all
qed

lemma check_addresses_Inl: "check_addresses request result rq = Inl s \<Longrightarrow> s \<noteq> PS_OK"
  using no_ok_addresses [of request result rq] by simp

lemma check_request_Inl:
  assumes "check_request rq request_range checked = Inl (st, k, i, n, av)"
  shows "st \<noteq> PS_OK"
proof -
  have sch: "schema rq = Inl s \<Longrightarrow> s \<noteq> PS_OK" for s using no_ok_schema [of rq] by simp
  have empty: "first_invalid_empty rq = Some s \<Longrightarrow> s \<noteq> PS_OK" for s
    by (auto simp: first_invalid_empty_def invalid_empty_def split: option.splits if_splits)
  have layout: "check_layout rq sc m = Some (s, f) \<Longrightarrow> s \<noteq> PS_OK" for sc m s f
    by (auto simp: check_layout_def dest: empty split: option.splits if_splits)
  show ?thesis
    using assms
    by (auto simp: check_request_def dest: sch layout split: if_splits sum.splits option.splits)
qed

lemma check_request_Inr:
  assumes "check_request rq request_range checked = Inr (sc, n)"
  shows "schema rq = Inr sc \<and> n = 4 * sc_output_words sc \<and> 0 < n \<and> n < u64_limit \<and>
    \<not> forbidden_overlap request_range checked \<and>
    rq_abi_version rq = ABI_VERSION \<and> rq_flags rq = 0 \<and>
    rq_input_bytes rq = sc_input_bytes sc \<and> rq_aux_bytes rq = sc_aux_bytes sc \<and>
    sc_output_words sc \<le> rq_output_words rq \<and> n \<le> rq_scratch_bytes rq \<and>
    rq_output rq \<noteq> 0 \<and> rq_scratch rq \<noteq> 0 \<and>
    rq_output rq mod 4 = 0 \<and> rq_scratch rq mod 64 = 0 \<and>
    (sc_input_f32 sc \<longrightarrow> rq_input rq mod 4 = 0) \<and> (sc_aux_f32 sc \<longrightarrow> rq_aux rq mod 4 = 0)"
proof -
  have layout: "check_layout rq sc n = None" and sc: "schema rq = Inr sc"
    and n: "n = sc_output_words sc * 4" "n < u64_limit"
    and top: "\<not> forbidden_overlap request_range checked" "rq_abi_version rq = ABI_VERSION"
      "rq_flags rq = 0"
    using assms by (auto simp: check_request_def checked_mul_Some
        split: if_splits sum.splits option.splits)
  show ?thesis
    using layout n top sc schema_words_pos [OF sc]
    by (auto simp: check_layout_def split: if_splits option.splits)
qed

section \<open>Properties\<close>

text \<open>
  The division-free divisibility test is right: for every numerator and every denominator
  from 1 to \<open>2 ^ 63\<close> (the callers pass 32-bit values), the bitwise loop answers whether the
  denominator divides the numerator.
\<close>

theorem is_divisible_is_dvd:
  assumes "0 < d" and "unat d \<le> 2 ^ 63"
  shows "is_divisible n d \<longleftrightarrow> unat d dvd unat n"
proof -
  have "unat n < 2 ^ 64" by (rule less_le_trans [OF unsigned_less]) simp
  then have "unat (0 :: u64) = (unat n div 2 ^ 64) mod unat d" by simp
  from remainder_bits_mod [OF assms this] show ?thesis
    by (simp add: is_divisible_def unat_eq_0 dvd_eq_mod_eq_0 flip: unat_eq_0)
qed

theorem is_divisible_is_dvd_witness: "is_divisible 896 14 \<longleftrightarrow> unat (14 :: u64) dvd unat (896 :: u64)"
  by (rule is_divisible_is_dvd) simp_all

end
