(* ===== verification/PB_Sha256.thy ===== *)
theory PB_Sha256
  imports PB_Prelude
begin

text \<open>
  \<open>src/crates/promptboot-core/src/sha256.rs\<close>: the streaming SHA-256 that authenticates the
  model image. The streaming buffer, padding, schedule and scalar rounds are the code; the
  choice of backend is too, and the assembly routine \<open>promptboot_sha256_rounds\<close> with the CPUID
  answer are the two components of a \<open>cpu\<close>. The reference is the block-wise definition of the
  standard on the padded message; the streaming code equals it for every way of cutting the
  input into pieces.
\<close>

section \<open>Compression\<close>

definition K_table :: "u32 list" where
  "K_table = concat
    [[0x428a2f98, 0x71374491, 0xb5c0fbcf, 0xe9b5dba5],
     [0x3956c25b, 0x59f111f1, 0x923f82a4, 0xab1c5ed5],
     [0xd807aa98, 0x12835b01, 0x243185be, 0x550c7dc3],
     [0x72be5d74, 0x80deb1fe, 0x9bdc06a7, 0xc19bf174],
     [0xe49b69c1, 0xefbe4786, 0x0fc19dc6, 0x240ca1cc],
     [0x2de92c6f, 0x4a7484aa, 0x5cb0a9dc, 0x76f988da],
     [0x983e5152, 0xa831c66d, 0xb00327c8, 0xbf597fc7],
     [0xc6e00bf3, 0xd5a79147, 0x06ca6351, 0x14292967],
     [0x27b70a85, 0x2e1b2138, 0x4d2c6dfc, 0x53380d13],
     [0x650a7354, 0x766a0abb, 0x81c2c92e, 0x92722c85],
     [0xa2bfe8a1, 0xa81a664b, 0xc24b8b70, 0xc76c51a3],
     [0xd192e819, 0xd6990624, 0xf40e3585, 0x106aa070],
     [0x19a4c116, 0x1e376c08, 0x2748774c, 0x34b0bcb5],
     [0x391c0cb3, 0x4ed8aa4a, 0x5b9cca4f, 0x682e6ff3],
     [0x748f82ee, 0x78a5636f, 0x84c87814, 0x8cc70208],
     [0x90befffa, 0xa4506ceb, 0xbef9a3f7, 0xc67178f2]]"

text \<open>\<open>u32::from_be_bytes\<close> and \<open>u32::to_be_bytes\<close>.\<close>

definition be32 :: "u8 \<Rightarrow> u8 \<Rightarrow> u8 \<Rightarrow> u8 \<Rightarrow> u32" where
  "be32 a b c d = push_bit 24 (ucast a) OR push_bit 16 (ucast b) OR push_bit 8 (ucast c) OR ucast d"

definition be32_bytes :: "u32 \<Rightarrow> bytes" where
  "be32_bytes w = [ucast (drop_bit 24 w), ucast (drop_bit 16 w), ucast (drop_bit 8 w), ucast w]"

definition schedule_word :: "bytes \<Rightarrow> nat \<Rightarrow> u32" where
  "schedule_word block i =
     be32 (block ! (4 * i)) (block ! (4 * i + 1)) (block ! (4 * i + 2)) (block ! (4 * i + 3))"

definition schedule_step :: "nat \<Rightarrow> u32 list \<Rightarrow> u32 list" where
  "schedule_step i s =
     (let x = s ! (i - 15); y = s ! (i - 2);
          s0 = word_rotr 7 x XOR word_rotr 18 x XOR drop_bit 3 x;
          s1 = word_rotr 17 y XOR word_rotr 19 y XOR drop_bit 10 y
      in s[i := s ! (i - 16) + s0 + s ! (i - 7) + s1])"

definition message_schedule :: "bytes \<Rightarrow> u32 list" where
  "message_schedule block =
     fold schedule_step [16..<64] (map (schedule_word block) [0..<16] @ replicate 48 0)"

record hash_vars =
  va :: u32
  vb :: u32
  vc :: u32
  vd :: u32
  ve :: u32
  vf :: u32
  vg :: u32
  vh :: u32

definition sha_round :: "u32 list \<Rightarrow> nat \<Rightarrow> hash_vars \<Rightarrow> hash_vars" where
  "sha_round schedule i v =
     (let s1 = word_rotr 6 (ve v) XOR word_rotr 11 (ve v) XOR word_rotr 25 (ve v);
          choice = (ve v AND vf v) XOR (NOT (ve v) AND vg v);
          t1 = vh v + s1 + choice + K_table ! i + schedule ! i;
          s0 = word_rotr 2 (va v) XOR word_rotr 13 (va v) XOR word_rotr 22 (va v);
          majority = (va v AND vb v) XOR (va v AND vc v) XOR (vb v AND vc v);
          t2 = s0 + majority
      in \<lparr>va = t1 + t2, vb = va v, vc = vb v, vd = vc v, ve = vd v + t1, vf = ve v, vg = vf v,
          vh = vg v\<rparr>)"

definition compress_scalar :: "u32 list \<Rightarrow> u32 list \<Rightarrow> u32 list" where
  "compress_scalar st schedule =
     (let v = fold (sha_round schedule) [0..<64]
            \<lparr>va = st ! 0, vb = st ! 1, vc = st ! 2, vd = st ! 3, ve = st ! 4, vf = st ! 5,
             vg = st ! 6, vh = st ! 7\<rparr>
      in map2 (+) st [va v, vb v, vc v, vd v, ve v, vf v, vg v, vh v])"

section \<open>Backends\<close>

datatype sha_backend = Unresolved | Scalar | ShaNi

text \<open>
  What the code asks the processor: the CPUID leaves and the assembly routine that runs the
  64 rounds on the state and the round words.
\<close>

record cpu =
  cpu_max_leaf :: u32
  cpu_leaf7_ebx :: u32
  cpu_rounds :: "u32 list \<Rightarrow> u32 list \<Rightarrow> u32 list"

definition select_sha_ni :: "u32 \<Rightarrow> u32 \<Rightarrow> bool" where
  "select_sha_ni max_basic_leaf leaf7_ebx \<longleftrightarrow>
     max_basic_leaf \<ge> 7 \<and> leaf7_ebx AND push_bit 29 1 \<noteq> 0"

definition sha_ni_available :: "cpu \<Rightarrow> bool" where
  "sha_ni_available c =
     select_sha_ni (cpu_max_leaf c) (if cpu_max_leaf c \<ge> 7 then cpu_leaf7_ebx c else 0)"

definition compress_sha_ni :: "cpu \<Rightarrow> u32 list \<Rightarrow> u32 list \<Rightarrow> u32 list" where
  "compress_sha_ni c st schedule = cpu_rounds c st (map2 (+) schedule K_table)"

section \<open>The streaming state\<close>

record sha256 =
  sh_state :: "u32 list"
  sh_block :: bytes
  sh_used :: nat
  sh_bytes :: nat
  sh_backend :: sha_backend

definition H0 :: "u32 list" where
  "H0 = [0x6a09e667, 0xbb67ae85, 0x3c6ef372, 0xa54ff53a, 0x510e527f, 0x9b05688c, 0x1f83d9ab,
         0x5be0cd19]"

definition sha_new :: sha256 where
  "sha_new = \<lparr>sh_state = H0, sh_block = replicate 64 0, sh_used = 0, sh_bytes = 0,
              sh_backend = Unresolved\<rparr>"

text \<open>The backend that \<open>compress\<close> settles on, once, at the first block.\<close>

definition resolve_backend :: "cpu \<Rightarrow> sha_backend \<Rightarrow> sha_backend" where
  "resolve_backend c b =
     (if b = Unresolved then if sha_ni_available c then ShaNi else Scalar else b)"

definition sha_compress :: "cpu \<Rightarrow> bytes \<Rightarrow> sha256 \<Rightarrow> sha256" where
  "sha_compress c block h =
     (let b = resolve_backend c (sh_backend h); schedule = message_schedule block
      in h\<lparr>sh_backend := b,
           sh_state := (case b of
              Scalar \<Rightarrow> compress_scalar (sh_state h) schedule
            | ShaNi \<Rightarrow> compress_sha_ni c (sh_state h) schedule
            | Unresolved \<Rightarrow> sh_state h)\<rparr>)"

text \<open>The loop over whole blocks of the input; what is left is shorter than a block.\<close>

function absorb_blocks :: "cpu \<Rightarrow> bytes \<Rightarrow> sha256 \<Rightarrow> bytes \<times> sha256" where
  "absorb_blocks c input h =
     (if length input \<ge> 64
      then absorb_blocks c (drop 64 input) (sha_compress c (take 64 input) h)
      else (input, h))"
  by pat_completeness auto
termination by (relation "measure (\<lambda>(_, input, _). length input)") auto

declare absorb_blocks.simps [simp del]

definition absorb_rest :: "cpu \<Rightarrow> bytes \<Rightarrow> sha256 \<Rightarrow> sha256" where
  "absorb_rest c input h =
     (case absorb_blocks c input h of (rest, h) \<Rightarrow>
        h\<lparr>sh_block := write_at (sh_block h) 0 rest, sh_used := length rest\<rparr>)"

definition sha_update :: "cpu \<Rightarrow> bytes \<Rightarrow> sha256 \<Rightarrow> sha256" where
  "sha_update c input h =
     (let h = h\<lparr>sh_bytes := (sh_bytes h + length input) mod u64_limit\<rparr> in
      if sh_used h \<noteq> 0 then
        let n = min (64 - sh_used h) (length input);
            h = h\<lparr>sh_block := write_at (sh_block h) (sh_used h) (take n input),
                  sh_used := sh_used h + n\<rparr>;
            input = drop n input
        in if sh_used h = 64
           then absorb_rest c input ((sha_compress c (sh_block h) h)\<lparr>sh_used := 0\<rparr>)
           else h
      else absorb_rest c input h)"

definition sha_finish :: "cpu \<Rightarrow> sha256 \<Rightarrow> bytes" where
  "sha_finish c h =
     (let bit_length = sh_bytes h * 8 mod u64_limit;
          h = h\<lparr>sh_block := (sh_block h)[sh_used h := 0x80], sh_used := sh_used h + 1\<rparr>;
          h = (if sh_used h > 56
               then let h = h\<lparr>sh_block := take (sh_used h) (sh_block h) @ replicate (64 - sh_used h) 0\<rparr>;
                        h = sha_compress c (sh_block h) h
                    in h\<lparr>sh_block := replicate 64 0\<rparr>
               else h\<lparr>sh_block := write_at (sh_block h) (sh_used h) (replicate (56 - sh_used h) 0)\<rparr>);
          h = h\<lparr>sh_block := write_at (sh_block h) 56 (be_bytes 8 bit_length)\<rparr>;
          h = sha_compress c (sh_block h) h
      in concat (map be32_bytes (sh_state h)))"

definition sha_digest :: "cpu \<Rightarrow> bytes \<Rightarrow> bytes" where
  "sha_digest c bs = sha_finish c (sha_update c bs sha_new)"

section \<open>The block-wise reference\<close>

definition one_block :: "cpu \<Rightarrow> bytes \<Rightarrow> u32 list \<Rightarrow> u32 list" where
  "one_block c block st =
     (if sha_ni_available c then compress_sha_ni c st (message_schedule block)
      else compress_scalar st (message_schedule block))"

function fold_blocks :: "cpu \<Rightarrow> bytes \<Rightarrow> u32 list \<Rightarrow> u32 list" where
  "fold_blocks c msg st =
     (if length msg \<ge> 64 then fold_blocks c (drop 64 msg) (one_block c (take 64 msg) st) else st)"
  by pat_completeness auto
termination by (relation "measure (\<lambda>(_, msg, _). length msg)") auto

declare fold_blocks.simps [simp del]

text \<open>The message, a one bit, zeros up to 56 modulo 64, and the length in bits.\<close>

definition pad :: "bytes \<Rightarrow> bytes" where
  "pad msg = msg @ [0x80] @ replicate ((119 - length msg mod 64) mod 64) 0 @
     be_bytes 8 (length msg * 8 mod u64_limit)"

definition sha_reference :: "cpu \<Rightarrow> bytes \<Rightarrow> bytes" where
  "sha_reference c msg = concat (map be32_bytes (fold_blocks c (pad msg) H0))"

section \<open>Blocks and tails\<close>

function tail_of :: "bytes \<Rightarrow> bytes" where
  "tail_of msg = (if length msg \<ge> 64 then tail_of (drop 64 msg) else msg)"
  by pat_completeness auto
termination by (relation "measure length") auto

declare tail_of.simps [simp del]

lemma tail_short: "length msg < 64 \<Longrightarrow> tail_of msg = msg"
  by (simp add: tail_of.simps)

lemma tail_long: "64 \<le> length msg \<Longrightarrow> tail_of msg = tail_of (drop 64 msg)"
  by (simp add: tail_of.simps [of msg])

lemma fold_long:
  "64 \<le> length msg \<Longrightarrow>
   fold_blocks c msg st = fold_blocks c (drop 64 msg) (one_block c (take 64 msg) st)"
  by (simp add: fold_blocks.simps [of c msg])

lemma tail_empty [simp]: "tail_of [] = []"
  by (simp add: tail_short)

lemma fold_short: "length msg < 64 \<Longrightarrow> fold_blocks c msg st = st"
  by (simp add: fold_blocks.simps)

lemma fold_step: "length b = 64 \<Longrightarrow> fold_blocks c (b @ msg) st = fold_blocks c msg (one_block c b st)"
  by (subst fold_blocks.simps) simp

lemma tail_step: "length b = 64 \<Longrightarrow> tail_of (b @ msg) = tail_of msg"
  by (subst tail_of.simps) simp

lemma length_tail: "length (tail_of msg) = length msg mod 64"
  by (induction msg rule: tail_of.induct) (subst tail_of.simps, simp add: le_mod_geq)

lemma length_tail_less: "length (tail_of msg) < 64"
  by (simp add: length_tail)

text \<open>A message is its whole blocks and its tail: what follows only sees the tail.\<close>

lemma split_block:
  assumes "length a \<ge> 64"
  shows "a @ b = take 64 a @ (drop 64 a @ b)"
  by (metis append.assoc append_take_drop_id)

lemma fold_append: "fold_blocks c (a @ b) st = fold_blocks c (tail_of a @ b) (fold_blocks c a st)"
proof (induction a arbitrary: st rule: tail_of.induct)
  case (1 a)
  show ?case
  proof (cases "length a \<ge> 64")
    case True
    have "fold_blocks c (a @ b) st = fold_blocks c (drop 64 a @ b) (one_block c (take 64 a) st)"
      using True by (subst split_block [OF True], subst fold_step) simp_all
    with 1 [OF True, of "one_block c (take 64 a) st"] True show ?thesis
      by (simp add: tail_long [of a] fold_long [of a])
  next
    case False
    then show ?thesis by (simp add: tail_short fold_short)
  qed
qed

lemma tail_append: "tail_of (a @ b) = tail_of (tail_of a @ b)"
proof (induction a rule: tail_of.induct)
  case (1 a)
  show ?case
  proof (cases "length a \<ge> 64")
    case True
    have "tail_of (a @ b) = tail_of (drop 64 a @ b)"
      using True by (subst split_block [OF True], subst tail_step) simp_all
    with 1 [OF True] True show ?thesis by (simp add: tail_long [of a])
  next
    case False
    then show ?thesis by (simp add: tail_short)
  qed
qed

section \<open>The streaming state follows the reference\<close>

definition sha_inv :: "cpu \<Rightarrow> bytes \<Rightarrow> sha256 \<Rightarrow> bool" where
  "sha_inv c msg h \<longleftrightarrow>
     sh_state h = fold_blocks c msg H0 \<and> length (sh_block h) = 64 \<and>
     sh_used h = length (tail_of msg) \<and> take (sh_used h) (sh_block h) = tail_of msg \<and>
     sh_bytes h = length msg mod u64_limit \<and>
     resolve_backend c (sh_backend h) = resolve_backend c Unresolved"

lemma sha_new_inv: "sha_inv c [] sha_new"
  by (simp add: sha_inv_def sha_new_def fold_short)

lemma resolved [simp]: "resolve_backend c (resolve_backend c b) = resolve_backend c b"
  by (simp add: resolve_backend_def)

lemma compress_fields [simp]:
  "sh_block (sha_compress c block h) = sh_block h"
  "sh_used (sha_compress c block h) = sh_used h"
  "sh_bytes (sha_compress c block h) = sh_bytes h"
  "sh_backend (sha_compress c block h) = resolve_backend c (sh_backend h)"
  by (simp_all add: sha_compress_def Let_def)

lemma compress_state:
  "resolve_backend c (sh_backend h) = resolve_backend c Unresolved \<Longrightarrow>
   sh_state (sha_compress c block h) = one_block c block (sh_state h)"
  by (simp add: sha_compress_def one_block_def Let_def, simp add: resolve_backend_def)

lemma absorb_blocks_spec:
  assumes "resolve_backend c (sh_backend h) = resolve_backend c Unresolved"
  shows "case absorb_blocks c input h of (rest, h') \<Rightarrow>
     rest = tail_of input \<and> sh_state h' = fold_blocks c input (sh_state h) \<and>
     sh_block h' = sh_block h \<and> sh_used h' = sh_used h \<and> sh_bytes h' = sh_bytes h \<and>
     resolve_backend c (sh_backend h') = resolve_backend c Unresolved"
  using assms
proof (induction input arbitrary: h rule: tail_of.induct)
  case (1 input)
  show ?case
  proof (cases "length input \<ge> 64")
    case True
    then have eq: "absorb_blocks c input h =
        absorb_blocks c (drop 64 input) (sha_compress c (take 64 input) h)"
      by (simp add: absorb_blocks.simps)
    have folded: "fold_blocks c input (sh_state h) =
        fold_blocks c (drop 64 input) (one_block c (take 64 input) (sh_state h))"
      using True by (simp add: fold_blocks.simps)
    have tail: "tail_of input = tail_of (drop 64 input)" using True by (simp add: tail_of.simps)
    show ?thesis
      using 1(1) [OF True, of "sha_compress c (take 64 input) h"] 1(2)
      by (simp add: eq folded tail compress_state)
  next
    case False
    with 1(2) show ?thesis by (simp add: absorb_blocks.simps tail_short fold_short)
  qed
qed

lemma absorb_rest_inv:
  assumes "resolve_backend c (sh_backend h) = resolve_backend c Unresolved"
    and "sh_state h = fold_blocks c msg H0" and "tail_of msg = []"
    and "length (sh_block h) = 64" and "sh_bytes h = length (msg @ input) mod u64_limit"
  shows "sha_inv c (msg @ input) (absorb_rest c input h)"
proof -
  obtain rest h' where run: "absorb_blocks c input h = (rest, h')" by (cases "absorb_blocks c input h")
  have state: "fold_blocks c (msg @ input) H0 = fold_blocks c input (sh_state h)"
    using assms(2,3) by (simp add: fold_append [of c msg])
  have tail: "tail_of (msg @ input) = tail_of input"
    using assms(3) by (simp add: tail_append [of msg])
  have "length (tail_of input) \<le> 64" using length_tail_less [of input] by linarith
  then show ?thesis
    using absorb_blocks_spec [OF assms(1), of input] assms(4,5)
    by (simp add: run sha_inv_def absorb_rest_def state tail write_at_def)
qed

lemma sha_update_inv:
  assumes "sha_inv c msg h"
  shows "sha_inv c (msg @ input) (sha_update c input h)"
proof -
  let ?used = "length (tail_of msg)"
  let ?h = "h\<lparr>sh_bytes := (sh_bytes h + length input) mod u64_limit\<rparr>"
  define n where "n = min (64 - ?used) (length input)"
  define block where "block = write_at (sh_block h) ?used (take n input)"
  have bytes: "(sh_bytes h + length input) mod u64_limit = length (msg @ input) mod u64_limit"
    using assms by (simp add: sha_inv_def mod_add_left_eq)
  have inv: "sh_state h = fold_blocks c msg H0" "length (sh_block h) = 64" "sh_used h = ?used"
    "take ?used (sh_block h) = tail_of msg"
    "resolve_backend c (sh_backend h) = resolve_backend c Unresolved"
    using assms unfolding sha_inv_def by auto
  have n: "?used + n \<le> 64" "n \<le> length input"
    using length_tail_less [of msg] unfolding n_def by linarith+
  have block_take: "take (?used + n) block = tail_of msg @ take n input"
    using take_write_at [of ?used "take n input" "sh_block h"] inv n by (simp add: block_def)
  have len: "length block = 64" using inv n by (simp add: block_def)
  have upd: "sha_update c input h =
      (if ?used \<noteq> 0 then
         if ?used + n = 64
         then absorb_rest c (drop n input)
                ((sha_compress c block (?h\<lparr>sh_block := block, sh_used := 64\<rparr>))\<lparr>sh_used := 0\<rparr>)
         else ?h\<lparr>sh_block := block, sh_used := ?used + n\<rparr>
       else absorb_rest c input ?h)"
    by (simp add: sha_update_def Let_def inv n_def block_def)
  show ?thesis
  proof (cases "?used = 0")
    case True
    have "sha_inv c (msg @ input) (absorb_rest c input ?h)"
      using True inv bytes by (intro absorb_rest_inv) simp_all
    with True show ?thesis by (simp add: upd)
  next
    case part: False
    show ?thesis
    proof (cases "?used + n = 64")
      case True
      have full: "tail_of msg @ take n input = block"
        using block_take len True by simp
      have folded: "fold_blocks c (msg @ take n input) H0 = one_block c block (sh_state h)"
        using fold_step [OF len, of c "[]"] fold_short [of "[]"]
        by (simp add: fold_append [of c msg] inv full)
      have tail: "tail_of (msg @ take n input) = []"
        using tail_step [OF len, of "[]"] by (simp add: tail_append [of msg] full)
      have eq: "sha_update c input h = absorb_rest c (drop n input)
          ((sha_compress c block (?h\<lparr>sh_block := block, sh_used := 64\<rparr>))\<lparr>sh_used := 0\<rparr>)"
        using part True by (simp add: upd)
      have "sha_inv c ((msg @ take n input) @ drop n input) (sha_update c input h)"
        unfolding eq using inv bytes tail len folded n
        by (intro absorb_rest_inv) (simp_all add: compress_state)
      then show ?thesis by (simp only: append.assoc append_take_drop_id)
    next
      case False
      then have all: "n = length input" and short: "length (tail_of msg @ input) < 64"
        using n unfolding n_def by auto
      show ?thesis
        using part False inv bytes len short block_take all
        by (simp add: upd sha_inv_def fold_append [of c msg] tail_append [of msg] tail_short
            fold_short)
    qed
  qed
qed

lemma sha_finish_reference:
  assumes "sha_inv c msg h"
  shows "sha_finish c h = sha_reference c msg"
proof -
  let ?used = "length (tail_of msg)"
  let ?len = "be_bytes 8 (length msg * 8 mod u64_limit)"
  have inv: "sh_state h = fold_blocks c msg H0" "length (sh_block h) = 64" "sh_used h = ?used"
    "take ?used (sh_block h) = tail_of msg" "sh_bytes h = length msg mod u64_limit"
    "resolve_backend c (sh_backend h) = resolve_backend c Unresolved"
    using assms unfolding sha_inv_def by auto
  have less: "?used < 64" by (rule length_tail_less)
  have bits: "sh_bytes h * 8 mod u64_limit = length msg * 8 mod u64_limit"
    by (simp add: inv mod_mult_left_eq)
  have first: "take (Suc ?used) ((sh_block h)[?used := 0x80]) = tail_of msg @ [0x80]"
    using less inv by (simp add: take_Suc_update)
  have ref: "fold_blocks c (pad msg) H0 = fold_blocks c
      (tail_of msg @ [0x80] @ replicate ((119 - ?used) mod 64) 0 @ ?len) (fold_blocks c msg H0)"
    unfolding pad_def by (subst fold_append) (simp only: length_tail)
  show ?thesis
  proof (cases "Suc ?used > 56")
    case True
    let ?b = "tail_of msg @ [0x80] @ replicate (63 - ?used) 0"
    have zeros: "(119 - ?used) mod 64 = (63 - ?used) + 56"
    proof -
      have "119 - ?used = (63 - ?used) + 56" using less by linarith
      moreover have "(63 - ?used) + 56 < 64" using True by linarith
      ultimately show ?thesis by (simp only: mod_less)
    qed
    have len_b: "length ?b = 64" using less by simp
    have two: "fold_blocks c (pad msg) H0 =
        one_block c (replicate 56 0 @ ?len) (one_block c ?b (fold_blocks c msg H0))"
      using fold_step [OF len_b, of c "replicate 56 0 @ ?len"]
        fold_step [of "replicate 56 0 @ ?len" c "[]"] fold_short [of "[]"]
      by (simp add: ref zeros replicate_add)
    have "write_at (replicate 64 0) 56 ?len = replicate 56 0 @ ?len"
      by (simp add: write_at_def)
    then show ?thesis
      using True first
      by (simp add: sha_finish_def Let_def inv(1-4,6) bits sha_reference_def two compress_state)
  next
    case False
    let ?z = "replicate (55 - ?used) 0"
    have zeros: "(119 - ?used) mod 64 = 55 - ?used"
    proof -
      have "119 - ?used = (55 - ?used) + 64" using False by linarith
      moreover have "55 - ?used < 64" by linarith
      ultimately show ?thesis by (simp only: mod_add_self2 mod_less)
    qed
    have len_b: "length (tail_of msg @ [0x80] @ ?z @ ?len) = 64" using False by simp
    have one: "fold_blocks c (pad msg) H0 =
        one_block c (tail_of msg @ [0x80] @ ?z @ ?len) (fold_blocks c msg H0)"
      using fold_step [OF len_b, of c "[]"] fold_short [of "[]"] by (simp add: ref zeros)
    have "write_at (write_at ((sh_block h)[?used := 0x80]) (Suc ?used) ?z) 56 ?len =
        take (Suc ?used) ((sh_block h)[?used := 0x80]) @ ?z @ ?len"
      using False inv by (simp add: write_at_def min_def)
    then show ?thesis
      using False first
      by (simp add: sha_finish_def Let_def inv(1-4,6) bits sha_reference_def one compress_state)
  qed
qed

section \<open>The digest interface\<close>

text \<open>
  What the clients of a streaming digest rely on (the model loader hashes the chunks that the
  firmware returns, the validator hashes canonical records piece by piece): a state that
  remembers the message, and a digest that depends on nothing else.
\<close>

locale stream_digest =
  fixes start :: 's and upd :: "bytes \<Rightarrow> 's \<Rightarrow> 's" and fin :: "'s \<Rightarrow> bytes"
    and holds :: "bytes \<Rightarrow> 's \<Rightarrow> bool" and ref :: "bytes \<Rightarrow> bytes"
  assumes holds_start: "holds [] start"
    and holds_upd: "holds msg s \<Longrightarrow> holds (msg @ input) (upd input s)"
    and fin_ref: "holds msg s \<Longrightarrow> fin s = ref msg"
begin

lemma holds_fold: "holds msg s \<Longrightarrow> holds (msg @ concat chunks) (fold upd chunks s)"
proof (induction chunks arbitrary: msg s)
  case (Cons x chunks)
  show ?case using Cons.IH [OF holds_upd [OF Cons.prems, of x]] by simp
qed simp

lemma fin_chunks: "fin (fold upd chunks start) = ref (concat chunks)"
  using fin_ref [OF holds_fold [OF holds_start]] by simp

lemma fin_append: "fin (upd b (upd a start)) = ref (a @ b)"
  using fin_chunks [of "[a, b]"] by simp

end

interpretation sha: stream_digest sha_new "sha_update c" "sha_finish c" "sha_inv c" "sha_reference c"
  for c
  by unfold_locales (rule sha_new_inv, erule sha_update_inv, erule sha_finish_reference)

section \<open>Properties\<close>

text \<open>
  C24: Streaming equals the standard: whatever the pieces are into which a message is cut, the
  digest of the pieces fed one after the other is the block-wise SHA-256 of the padded whole
  message, for the scalar and for the hardware backend.
\<close>

theorem sha_streaming_is_reference:
  "sha_finish c (fold (sha_update c) chunks sha_new) = sha_reference c (concat chunks)"
  by (rule sha.fin_chunks)

text \<open>
  The hardware rounds are used exactly when CPUID reports leaf 7 with the SHA bit, and the
  backend never changes after the first block.
\<close>

lemma sha_backend_selected:
  "sha_ni_available c \<longleftrightarrow> 7 \<le> cpu_max_leaf c \<and> bit (cpu_leaf7_ebx c) 29"
proof -
  have "cpu_leaf7_ebx c AND push_bit 29 1 \<noteq> 0 \<longleftrightarrow> bit (cpu_leaf7_ebx c) 29"
  proof -
    have "bit (cpu_leaf7_ebx c AND push_bit 29 1) k \<longleftrightarrow> k = 29 \<and> bit (cpu_leaf7_ebx c) 29" for k
      unfolding bit_and_iff bit_push_bit_iff bit_1_iff by auto
    moreover have "x = 0 \<longleftrightarrow> (\<forall>k. \<not> bit x k)" for x :: u32
      using bit_imp_le_length [of x] unfolding bit_eq_iff [of x 0] by auto
    ultimately show ?thesis by metis
  qed
  then show ?thesis by (auto simp: sha_ni_available_def select_sha_ni_def)
qed

end
