(* ===== verification/PB_Model.thy ===== *)
theory PB_Model
  imports PB_Errors PB_Sha256 PB_Sink PB_Utf8
begin

text \<open>
  \<open>src/crates/promptboot-core/src/model.rs\<close>: the authenticated model image. The whole of
  \<open>open_authenticated\<close> is modelled, check by check in the order of the code: header, section
  table, tensor directory, token table, merges, chat template; then the accessors of
  \<open>ModelView\<close>. An image is a list of bytes with the address it is loaded at. Integers read from
  the image are \<open>nat\<close> (at most 64 bits wide); they are only compared and used as positions.
\<close>

section \<open>Constants\<close>

definition IMAGE_BYTES :: nat where "IMAGE_BYTES = 426762944"
definition VOCAB_COUNT :: nat where "VOCAB_COUNT = 151936"
definition MERGE_COUNT :: nat where "MERGE_COUNT = 151387"
definition TENSOR_COUNT :: nat where "TENSOR_COUNT = 291"
definition IMAGE_CONTEXT :: nat where "IMAGE_CONTEXT = 32768"
definition TOKEN_BYTES :: nat where "TOKEN_BYTES = 1372758"

definition SECTION_OFFSETS :: "nat list" where
  "SECTION_OFFSETS = [704, 608512, 1981312, 2133248, 3949952, 3952512, 3980480]"

definition SECTION_LENGTHS :: "nat list" where
  "SECTION_LENGTHS = [607748, 1372758, 151936, 1816644, 2509, 27936, 422782464]"

definition SECTION_COUNTS :: "nat list" where
  "SECTION_COUNTS = [151937, 1372758, 151936, 151387, 2509, 291, 422782464]"

definition SECTION_TYPES :: "nat list" where
  "SECTION_TYPES = [1, 2, 2, 3, 2, 4, 2]"

fun hex_nibble :: "u8 \<Rightarrow> u8" where
  "hex_nibble b =
     (if 48 \<le> b \<and> b \<le> 57 then b - 48 else if 97 \<le> b \<and> b \<le> 102 then b - 97 + 10 else 0)"

fun hex_pairs :: "bytes \<Rightarrow> bytes" where
  "hex_pairs (a # b # rest) = (push_bit 4 (hex_nibble a) OR hex_nibble b) # hex_pairs rest"
| "hex_pairs _ = []"

definition SOURCE_HASH :: bytes where
  "SOURCE_HASH = hex_pairs (ascii
     ''7671c0c304e6ce5a7fc577bcb12aba01e2c155cc2efd29b2213c95b18edaf6ed'')"

definition TOKEN_DIGEST :: bytes where
  "TOKEN_DIGEST = hex_pairs (ascii
     ''8656e079473b857729cf444f772368cd6428dcd64513d46aac3f694b2f695282'')"

definition TYPE_DIGEST :: bytes where
  "TYPE_DIGEST = hex_pairs (ascii
     ''f3760e7fbfc96d388f5b8d7cd67c5cd46535c8682ff84ebc9817cda61bc98f4d'')"

definition MERGE_DIGEST :: bytes where
  "MERGE_DIGEST = hex_pairs (ascii
     ''907981a313a6e78ef2223229042674a39cd4995ee4c4ed40a31b58754e82c26c'')"

text \<open>The configuration that an opened image reports; it is the frozen one.\<close>

record model_config =
  mc_version :: nat
  mc_context_limit :: nat
  mc_block_count :: nat
  mc_embedding :: nat
  mc_feed_forward :: nat
  mc_query_heads :: nat
  mc_kv_heads :: nat
  mc_head_dim :: nat
  mc_vocab_count :: nat
  mc_merge_count :: nat
  mc_tensor_count :: nat
  mc_bos :: nat
  mc_eos :: nat
  mc_pad :: nat
  mc_add_bos :: nat
  mc_model_bytes :: nat
  mc_tensor_data_bytes :: nat

definition CONFIG :: model_config where
  "CONFIG =
     \<lparr>mc_version = 1, mc_context_limit = IMAGE_CONTEXT, mc_block_count = 24, mc_embedding = 896,
      mc_feed_forward = 4864, mc_query_heads = 14, mc_kv_heads = 2, mc_head_dim = 64,
      mc_vocab_count = VOCAB_COUNT, mc_merge_count = MERGE_COUNT,
      mc_tensor_count = TENSOR_COUNT, mc_bos = 151643, mc_eos = 151645, mc_pad = 151643,
      mc_add_bos = 0, mc_model_bytes = IMAGE_BYTES, mc_tensor_data_bytes = 422782464\<rparr>"

section \<open>Reading the image\<close>

definition u16_at :: "bytes \<Rightarrow> nat \<Rightarrow> nat" where
  "u16_at bs at = le_value (slice bs at (at + 2))"

definition u32_at :: "bytes \<Rightarrow> nat \<Rightarrow> nat" where
  "u32_at bs at = le_value (slice bs at (at + 4))"

definition u64_at :: "bytes \<Rightarrow> nat \<Rightarrow> nat" where
  "u64_at bs at = le_value (slice bs at (at + 8))"

abbreviation model_fail ::
  "model_status \<Rightarrow> error_domain \<Rightarrow> nat \<Rightarrow> nat \<Rightarrow> nat \<Rightarrow> nat \<Rightarrow> field_kind \<Rightarrow> nat \<Rightarrow> model_error"
  where
  "model_fail status domain index off needed available kind sub \<equiv>
     model_error_new status domain (of_nat index) (of_nat off) (of_nat needed)
       (of_nat available) kind (of_nat sub)"

definition scalar_error :: "model_status \<Rightarrow> nat \<Rightarrow> nat \<Rightarrow> nat \<Rightarrow> field_kind \<Rightarrow> model_error" where
  "scalar_error status off expected actual kind =
     model_fail status ED_HEADER off off expected actual kind 0"

definition require :: "bool \<Rightarrow> 'e \<Rightarrow> 'e + unit" where
  "require b e = (if b then Inr () else Inl e)"

text \<open>A loop that returns at the first failing check.\<close>

fun check_all :: "('a \<Rightarrow> 'e + unit) \<Rightarrow> 'a list \<Rightarrow> 'e + unit" where
  "check_all f [] = Inr ()"
| "check_all f (x # xs) = bind_result (f x) (\<lambda>_. check_all f xs)"

definition none_or :: "'e option \<Rightarrow> 'e + unit" where
  "none_or m = (case m of Some e \<Rightarrow> Inl e | None \<Rightarrow> Inr ())"

text \<open>
  \<open>core::str::from_utf8\<close>: the characters, or the length of the longest prefix that is valid.
\<close>

definition first_char :: "bytes \<Rightarrow> nat option" where
  "first_char bs =
     find (\<lambda>n. n \<le> length bs \<and> (well_formed (take n bs) \<or> take n bs = [0])) [1, 2, 3, 4]"

lemma first_char_pos: "first_char bs = Some n \<Longrightarrow> 0 < n \<and> n \<le> length bs"
  by (auto simp: first_char_def split: if_splits)

function from_utf8 :: "bytes \<Rightarrow> nat + nat list" where
  "from_utf8 bs =
     (if bs = [] then Inr []
      else case first_char bs of
        None \<Rightarrow> Inl 0
      | Some n \<Rightarrow>
          (case from_utf8 (drop n bs) of
             Inl valid \<Rightarrow> Inl (n + valid)
           | Inr points \<Rightarrow> Inr (scalar_value (take n bs) # points)))"
  by pat_completeness auto
termination by (relation "measure length") (auto dest: first_char_pos)

declare from_utf8.simps [simp del]

section \<open>The header\<close>

definition MAGIC :: bytes where "MAGIC = ascii ''PBTQW25'' @ [0]"

definition check_magic :: "bytes \<Rightarrow> model_error + unit" where
  "check_magic bs = check_all (\<lambda>at. require (bs ! at = MAGIC ! at)
     (model_fail MS_MAGIC ED_HEADER at at (unat (MAGIC ! at)) (unat (bs ! at)) FK_MAGIC_BYTE at))
     [0..<8]"

definition EXPECTED32 :: "(nat \<times> nat \<times> field_kind \<times> model_status) list" where
  "EXPECTED32 =
    [(8, 1, FK_VERSION, MS_VERSION),
     (12, 256, FK_HEADER_FIELD, MS_IDENTITY),
     (16, 0x01020304, FK_ENDIAN, MS_ENDIAN),
     (20, 7, FK_HEADER_FIELD, MS_IDENTITY),
     (24, 291, FK_HEADER_FIELD, MS_IDENTITY),
     (28, 151936, FK_HEADER_FIELD, MS_IDENTITY),
     (32, 151387, FK_HEADER_FIELD, MS_IDENTITY),
     (36, IMAGE_CONTEXT, FK_HEADER_FIELD, MS_IDENTITY),
     (40, 24, FK_HEADER_FIELD, MS_IDENTITY),
     (44, 896, FK_HEADER_FIELD, MS_IDENTITY),
     (48, 4864, FK_HEADER_FIELD, MS_IDENTITY),
     (52, 14, FK_HEADER_FIELD, MS_IDENTITY),
     (56, 2, FK_HEADER_FIELD, MS_IDENTITY),
     (60, 64, FK_HEADER_FIELD, MS_IDENTITY),
     (64, 151645, FK_HEADER_FIELD, MS_IDENTITY),
     (68, 151643, FK_HEADER_FIELD, MS_IDENTITY),
     (72, 151643, FK_HEADER_FIELD, MS_IDENTITY),
     (76, 0, FK_HEADER_FIELD, MS_IDENTITY)]"

definition EXPECTED64 :: "(nat \<times> nat) list" where
  "EXPECTED64 =
    [(80, 428730208), (88, IMAGE_BYTES), (96, 256), (104, 448), (112, 5947744),
     (120, 422782464)]"

definition check_header :: "bytes \<Rightarrow> model_error + unit" where
  "check_header bs =
     bind_result (check_magic bs) (\<lambda>_.
     bind_result (check_all (\<lambda>(off, expected, kind, status).
         require (u32_at bs off = expected)
           (scalar_error status off expected (u32_at bs off) kind)) EXPECTED32) (\<lambda>_.
     bind_result (check_all (\<lambda>(off, expected).
         require (u64_at bs off = expected)
           (scalar_error MS_IDENTITY off expected (u64_at bs off) FK_HEADER_FIELD))
           EXPECTED64) (\<lambda>_.
     bind_result (check_all (\<lambda>at.
         require (bs ! (128 + at) = SOURCE_HASH ! at)
           (model_fail MS_IDENTITY ED_HEADER (128 + at) (128 + at) (unat (SOURCE_HASH ! at))
             (unat (bs ! (128 + at))) FK_DIGEST_BYTE at)) [0..<32]) (\<lambda>_.
     check_all (\<lambda>at.
         require (bs ! at = 0)
           (model_fail MS_RESERVED ED_HEADER at at 0 (unat (bs ! at)) FK_RESERVED_BYTE
             (at - 192))) [192..<256]))))"

section \<open>The section table\<close>

record image_section =
  sec_offset :: nat
  sec_length :: nat

definition section_actuals :: "bytes \<Rightarrow> nat \<Rightarrow> nat list" where
  "section_actuals bs ordinal =
     (let base = 256 + ordinal * 64 in
      [u32_at bs base, u32_at bs (base + 4), u64_at bs (base + 8), u64_at bs (base + 16),
       u64_at bs (base + 24)])"

definition section_expected :: "nat \<Rightarrow> nat list" where
  "section_expected ordinal =
     [ordinal + 1, SECTION_TYPES ! ordinal, SECTION_COUNTS ! ordinal, SECTION_OFFSETS ! ordinal,
      SECTION_LENGTHS ! ordinal]"

definition SECTION_KINDS :: "field_kind list" where
  "SECTION_KINDS =
     [FK_SECTION_ID, FK_ELEMENT_TYPE, FK_RANGE_LENGTH, FK_RANGE_START, FK_RANGE_LENGTH]"

definition FIELD_OFFSETS :: "nat list" where "FIELD_OFFSETS = [0, 4, 8, 16, 24]"

definition check_section :: "bytes \<Rightarrow> nat \<Rightarrow> nat \<Rightarrow> model_error + unit" where
  "check_section bs previous_end ordinal =
    (let base = 256 + ordinal * 64; actuals = section_actuals bs ordinal;
         expected = section_expected ordinal; start = actuals ! 3 in
     bind_result (check_all (\<lambda>field.
        require (actuals ! field = expected ! field)
          (model_fail MS_SECTION_SCHEMA ED_SECTION ordinal (base + FIELD_OFFSETS ! field)
            (expected ! field) (actuals ! field) (SECTION_KINDS ! field)
            (FIELD_OFFSETS ! field))) [0, 1, 2, 4]) (\<lambda>_.
     bind_result (require (start mod 64 = 0)
        (model_fail MS_ALIGNMENT ED_SECTION ordinal (base + 16) 64 (start mod 64)
          FK_RANGE_START 16)) (\<lambda>_.
     bind_result (require (previous_end \<le> start)
        (model_fail MS_OVERLAP ED_SECTION ordinal (base + 16) previous_end start
          FK_RANGE_START 16)) (\<lambda>_.
     bind_result (require (start = expected ! 3)
        (model_fail MS_SECTION_SCHEMA ED_SECTION ordinal (base + 16) (expected ! 3) start
          FK_RANGE_START 16)) (\<lambda>_.
     check_all (\<lambda>at.
        require (bs ! at = 0)
          (model_fail MS_PADDING ED_SECTION ordinal at 0 (unat (bs ! at)) FK_GAP_BYTE
            (at - previous_end))) [previous_end..<start])))))"

fun open_sections ::
  "bytes \<Rightarrow> nat list \<Rightarrow> nat \<Rightarrow> image_section list \<Rightarrow> model_error + nat \<times> image_section list" where
  "open_sections bs [] previous_end sections = Inr (previous_end, sections)"
| "open_sections bs (ordinal # rest) previous_end sections =
     bind_result (check_section bs previous_end ordinal) (\<lambda>_.
       let start = section_actuals bs ordinal ! 3; n = section_actuals bs ordinal ! 4 in
       case checked_add start n of
         None \<Rightarrow> Inl (model_fail MS_ARITHMETIC_OVERFLOW ED_SECTION ordinal
           (256 + ordinal * 64 + 24) (u64_limit - 1 - start) n FK_OP_ADD 0)
       | Some e \<Rightarrow> open_sections bs rest e (sections @ [\<lparr>sec_offset = start, sec_length = n\<rparr>]))"

section \<open>The tensor directory\<close>

record tensor_meta =
  tm_id :: nat
  tm_layer :: nat
  tm_role :: nat
  tm_dtype :: nat
  tm_rank :: nat
  tm_dims :: "nat list"
  tm_offset :: nat
  tm_length :: nat
  tm_elements :: nat

text \<open>Layer, role, dtype, rank and dimensions of the frozen schema.\<close>

definition expected_tensor :: "nat \<Rightarrow> nat \<times> nat \<times> nat \<times> nat \<times> nat list" where
  "expected_tensor tid =
    (if tid = 0 then (0xffff, 1, 2, 2, [896, 151936, 1, 1])
     else if tid = 289 then (0xffff, 2, 1, 1, [896, 1, 1, 1])
     else if tid = 290 then (0xffff, 3, 3, 2, [896, 151936, 1, 1])
     else
       let layer = (tid - 1) div 12; slot = (tid - 1) mod 12; role = 10 + slot in
       if slot = 0 \<or> slot = 4 then (layer, role, 1, 1, [896, 1, 1, 1])
       else if slot = 1 then (layer, role, 2, 2, [4864, 896, 1, 1])
       else if slot = 2 \<or> slot = 3 then (layer, role, 2, 2, [896, 4864, 1, 1])
       else if slot = 5 \<or> slot = 10 then (layer, role, 1, 1, [128, 1, 1, 1])
       else if slot = 6 \<or> slot = 11 then (layer, role, 2, 2, [896, 128, 1, 1])
       else if slot = 7 \<or> slot = 9 then (layer, role, 2, 2, [896, 896, 1, 1])
       else if slot = 8 then (layer, role, 1, 1, [896, 1, 1, 1])
       else (0, 0, 0, 0, [0, 0, 0, 0]))"

definition tensor_at :: "nat \<Rightarrow> nat" where
  "tensor_at tid = SECTION_OFFSETS ! 5 + tid * 96"

definition tensor_meta_at :: "bytes \<Rightarrow> nat \<Rightarrow> tensor_meta" where
  "tensor_meta_at bs tid =
    (let at = tensor_at tid; (_, _, _, _, dims) = expected_tensor tid in
     \<lparr>tm_id = u32_at bs at, tm_layer = u16_at bs (at + 4), tm_role = u16_at bs (at + 6),
      tm_dtype = u32_at bs (at + 8), tm_rank = u32_at bs (at + 12),
      tm_dims = [u32_at bs (at + 16), u32_at bs (at + 20), u32_at bs (at + 24),
                 u32_at bs (at + 28)],
      tm_offset = u64_at bs (at + 32), tm_length = u64_at bs (at + 40),
      tm_elements = dims ! 0 * dims ! 1 * dims ! 2 * dims ! 3\<rparr>)"

definition tensor_bytes :: "nat \<Rightarrow> nat \<Rightarrow> nat" where
  "tensor_bytes dtype elements =
    (let quantized = (\<lambda>n. if elements mod 32 = 0 then checked_mul (elements div 32) n else None)
     in case (if dtype = 1 then checked_mul elements 4
              else if dtype = 2 then quantized 18
              else if dtype = 3 then quantized 34 else None) of
          Some v \<Rightarrow> v | None \<Rightarrow> 0)"

definition tensor_fields :: "tensor_meta \<Rightarrow> nat \<Rightarrow> (nat \<times> nat \<times> field_kind \<times> nat) list" where
  "tensor_fields meta tid =
    (case expected_tensor tid of (layer, role, dtype, rank, dims) \<Rightarrow>
      [(tm_id meta, tid, FK_TENSOR_ID, 0), (tm_layer meta, layer, FK_LAYER, 4),
       (tm_role meta, role, FK_ROLE, 6), (tm_dtype meta, dtype, FK_DTYPE, 8),
       (tm_rank meta, rank, FK_RANK, 12)])"

definition check_tensor :: "bytes \<Rightarrow> nat \<Rightarrow> nat \<Rightarrow> model_error + unit" where
  "check_tensor bs previous_end tid =
    (let at = tensor_at tid; meta = tensor_meta_at bs tid;
         (_, _, dtype, _, dims) = expected_tensor tid;
         n = tensor_bytes dtype (tm_elements meta) in
     bind_result (check_all (\<lambda>(actual, expected, kind, off).
        require (actual = expected)
          (model_fail MS_TENSOR_SCHEMA ED_TENSOR tid (at + off) expected actual kind 0))
        (tensor_fields meta tid)) (\<lambda>_.
     bind_result (check_all (\<lambda>dim.
        require (tm_dims meta ! dim = dims ! dim)
          (model_fail MS_TENSOR_SCHEMA ED_TENSOR tid (at + 16 + dim * 4) (dims ! dim)
            (tm_dims meta ! dim) FK_DIMENSION dim)) [0..<4]) (\<lambda>_.
     bind_result (require (tm_length meta = n)
        (model_fail MS_TENSOR_SCHEMA ED_TENSOR tid (at + 40) n (tm_length meta) FK_BLOCK_LENGTH
          dtype)) (\<lambda>_.
     bind_result (require (tm_offset meta = previous_end)
        (model_fail (if tm_offset meta < previous_end then MS_OVERLAP else MS_ORDER) ED_TENSOR tid
          (at + 32) previous_end (tm_offset meta) FK_RANGE_START 0)) (\<lambda>_.
     bind_result (require (tm_offset meta mod 64 = 0)
        (model_fail MS_ALIGNMENT ED_TENSOR tid (at + 32) 64 (tm_offset meta mod 64)
          FK_RANGE_START 0)) (\<lambda>_.
     check_all (\<lambda>reserved.
        require (bs ! (at + reserved) = 0)
          (model_fail MS_RESERVED ED_TENSOR tid (at + reserved) 0 (unat (bs ! (at + reserved)))
            FK_RESERVED_BYTE (reserved - 80))) [80..<96]))))))"

fun tensor_loop :: "bytes \<Rightarrow> nat list \<Rightarrow> nat \<Rightarrow> model_error + nat" where
  "tensor_loop bs [] previous_end = Inr previous_end"
| "tensor_loop bs (tid # rest) previous_end =
     bind_result (check_tensor bs previous_end tid) (\<lambda>_.
       let meta = tensor_meta_at bs tid in
       case checked_add (tm_offset meta) (tm_length meta) of
         None \<Rightarrow> Inl (model_fail MS_ARITHMETIC_OVERFLOW ED_TENSOR tid (tensor_at tid + 40)
           (u64_limit - 1 - tm_offset meta) (tm_length meta) FK_OP_ADD 0)
       | Some e \<Rightarrow> tensor_loop bs rest e)"

definition validate_tensors :: "bytes \<Rightarrow> model_error + unit" where
  "validate_tensors bs =
     bind_result (tensor_loop bs [0..<TENSOR_COUNT] (SECTION_OFFSETS ! 6)) (\<lambda>previous_end.
       require (previous_end = IMAGE_BYTES)
         (model_fail MS_TENSOR_SCHEMA ED_TENSOR 290 previous_end IMAGE_BYTES previous_end
           FK_RANGE_LENGTH 0))"

section \<open>Tokens, merges and the template\<close>

record token_state =
  ts_prior :: nat
  ts_counts :: "nat list"
  ts_token_sha :: sha256
  ts_type_sha :: sha256

definition token_slice :: "bytes \<Rightarrow> nat \<Rightarrow> nat \<Rightarrow> nat \<Rightarrow> bytes" where
  "token_slice bs token_base first last_byte = slice bs (token_base + first) (token_base + last_byte)"

definition count_index :: "nat \<Rightarrow> nat option" where
  "count_index token_type =
     (if token_type = 1 then Some 0 else if token_type = 3 then Some 1
      else if token_type = 4 then Some 2 else if token_type = 5 then Some 3 else None)"

text \<open>The bases are those of the sections 1 (offsets), 2 (bytes) and 3 (types).\<close>

definition check_token ::
  "cpu \<Rightarrow> bytes \<Rightarrow> nat \<Rightarrow> nat \<Rightarrow> nat \<Rightarrow> nat \<Rightarrow> token_state \<Rightarrow> model_error + token_state" where
  "check_token c bs offsets token_base type_base tid s =
    (let prior = ts_prior s; at = offsets + (tid + 1) * 4; current = u32_at bs at;
         token = token_slice bs token_base prior current;
         token_type = unat (bs ! (type_base + tid)) in
     bind_result (require (prior < current)
       (model_fail MS_TOKENIZER_SCHEMA ED_TOKEN tid at (prior + 1) current FK_TOKEN_OFFSET 1)) (\<lambda>_.
     bind_result (require (current \<le> TOKEN_BYTES)
       (model_fail MS_TOKENIZER_SCHEMA ED_TOKEN tid at TOKEN_BYTES current FK_RANGE_LENGTH 0)) (\<lambda>_.
     bind_result (case from_utf8 token of
         Inl valid \<Rightarrow> Inl (model_fail MS_UTF8 ED_TOKEN tid (token_base + prior + valid) 0
           (unat (token ! valid)) FK_UTF8_BYTE valid)
       | Inr _ \<Rightarrow> Inr ()) (\<lambda>_.
     case count_index token_type of
       None \<Rightarrow> Inl (model_fail MS_TOKENIZER_SCHEMA ED_TOKEN tid (type_base + tid) 58 token_type
         FK_TOKEN_TYPE 0)
     | Some k \<Rightarrow> Inr \<lparr>ts_prior = current, ts_counts = (ts_counts s)[k := ts_counts s ! k + 1],
         ts_token_sha = sha_update c token (sha_update c (le_bytes 8 (length token)) (ts_token_sha s)),
         ts_type_sha = sha_update c (le_bytes 8 token_type) (ts_type_sha s)\<rparr>))))"

fun token_loop ::
  "cpu \<Rightarrow> bytes \<Rightarrow> nat \<Rightarrow> nat \<Rightarrow> nat \<Rightarrow> nat list \<Rightarrow> token_state \<Rightarrow> model_error + token_state" where
  "token_loop c bs offsets token_base type_base [] s = Inr s"
| "token_loop c bs offsets token_base type_base (tid # rest) s =
     bind_result (check_token c bs offsets token_base type_base tid s)
       (token_loop c bs offsets token_base type_base rest)"

definition EXPECTED_COUNTS :: "nat list" where "EXPECTED_COUNTS = [151643, 20, 2, 271]"

definition validate_tokens :: "cpu \<Rightarrow> bytes \<Rightarrow> nat \<Rightarrow> nat \<Rightarrow> nat \<Rightarrow> model_error + unit" where
  "validate_tokens c bs offsets token_base type_base =
     bind_result (require (u32_at bs offsets = 0)
       (model_fail MS_TOKENIZER_SCHEMA ED_TOKEN 0 offsets 0 (u32_at bs offsets)
         FK_TOKEN_OFFSET 0)) (\<lambda>_.
     bind_result (token_loop c bs offsets token_base type_base [0..<VOCAB_COUNT]
       \<lparr>ts_prior = 0, ts_counts = [0, 0, 0, 0], ts_token_sha = sha_new, ts_type_sha = sha_new\<rparr>)
       (\<lambda>s.
     bind_result (require (ts_prior s = TOKEN_BYTES)
       (model_fail MS_TOKENIZER_SCHEMA ED_TOKEN VOCAB_COUNT (offsets + VOCAB_COUNT * 4) TOKEN_BYTES
         (ts_prior s) FK_TOKEN_OFFSET 2)) (\<lambda>_.
     bind_result (check_all (\<lambda>at.
       require (ts_counts s ! at = EXPECTED_COUNTS ! at)
         (model_fail MS_TOKENIZER_SCHEMA ED_TOKEN 0 type_base (EXPECTED_COUNTS ! at)
           (ts_counts s ! at) FK_TOKEN_TYPE (at + 1))) [0..<4]) (\<lambda>_.
     bind_result (none_or (digest_mismatch MS_TOKENIZER_SCHEMA ED_TOKEN 0 (of_nat token_base)
         TOKEN_DIGEST (sha_finish c (ts_token_sha s)) FK_DIGEST_BYTE)) (\<lambda>_.
     none_or (digest_mismatch MS_TOKENIZER_SCHEMA ED_TOKEN 0 (of_nat type_base) TYPE_DIGEST
         (sha_finish c (ts_type_sha s)) FK_DIGEST_BYTE))))))"

definition prior_duplicate_merge :: "bytes \<Rightarrow> nat \<Rightarrow> nat \<Rightarrow> nat \<Rightarrow> nat \<Rightarrow> nat option" where
  "prior_duplicate_merge bs merge_base rank left right =
     find (\<lambda>first_rank. u32_at bs (merge_base + first_rank * 12) = left \<and>
                        u32_at bs (merge_base + first_rank * 12 + 4) = right) [0..<rank]"

definition duplicate_merge_error :: "nat \<Rightarrow> nat \<Rightarrow> nat \<Rightarrow> model_error" where
  "duplicate_merge_error rank at first_rank =
     model_fail MS_TOKENIZER_SCHEMA ED_MERGE rank at first_rank rank FK_MERGE_DUPLICATE 0"

text \<open>An already detected fault is reported as a duplicate merge when the merge is one.\<close>

definition duplicate_or :: "bytes \<Rightarrow> nat \<Rightarrow> nat \<Rightarrow> nat \<Rightarrow> nat \<Rightarrow> nat \<Rightarrow> model_error \<Rightarrow> model_error" where
  "duplicate_or bs merge_base rank at left right e =
     (case prior_duplicate_merge bs merge_base rank left right of
        Some first_rank \<Rightarrow> duplicate_merge_error rank at first_rank
      | None \<Rightarrow> e)"

definition token_start :: "bytes \<Rightarrow> nat \<Rightarrow> nat \<Rightarrow> nat" where
  "token_start bs offsets tid = u32_at bs (offsets + tid * 4)"

definition token_at :: "bytes \<Rightarrow> nat \<Rightarrow> nat \<Rightarrow> nat \<Rightarrow> bytes" where
  "token_at bs offsets token_base tid =
     token_slice bs token_base (token_start bs offsets tid) (token_start bs offsets (tid + 1))"

definition check_merge ::
  "cpu \<Rightarrow> bytes \<Rightarrow> nat \<Rightarrow> nat \<Rightarrow> nat \<Rightarrow> nat \<Rightarrow> sha256 \<Rightarrow> model_error + sha256" where
  "check_merge c bs offsets token_base merge_base rank h =
    (let at = merge_base + rank * 12;
         left = u32_at bs at; right = u32_at bs (at + 4); res = u32_at bs (at + 8);
         left_token = token_at bs offsets token_base left;
         right_token = token_at bs offsets token_base right;
         res_start = token_start bs offsets res; res_end = token_start bs offsets (res + 1);
         expected_len = token_start bs offsets (left + 1) - token_start bs offsets left
           + token_start bs offsets (right + 1) - token_start bs offsets right in
     bind_result (check_all (\<lambda>(v, kind, off).
       require (v < VOCAB_COUNT)
         (model_fail MS_TOKENIZER_SCHEMA ED_MERGE rank off VOCAB_COUNT v kind 0))
       [(left, FK_MERGE_LEFT, at), (right, FK_MERGE_RIGHT, at + 4), (res, FK_MERGE_RESULT, at + 8)])
       (\<lambda>_.
     bind_result (require (res < 151643)
       (model_fail MS_TOKENIZER_SCHEMA ED_MERGE rank (at + 8) 151643 res FK_MERGE_RESULT 1)) (\<lambda>_.
     bind_result (require (res_end - res_start = expected_len)
       (duplicate_or bs merge_base rank at left right
         (model_fail MS_TOKENIZER_SCHEMA ED_MERGE rank (token_base + res_start) expected_len
           (res_end - res_start) FK_RANGE_LENGTH 0))) (\<lambda>_.
     bind_result (check_all (\<lambda>k.
       require (bs ! (token_base + res_start + k) = (left_token @ right_token) ! k)
         (duplicate_or bs merge_base rank at left right
           (model_fail MS_TOKENIZER_SCHEMA ED_MERGE rank (token_base + res_start + k)
             (unat ((left_token @ right_token) ! k)) (unat (bs ! (token_base + res_start + k)))
             FK_CONCAT_BYTE k))) [0..<length (left_token @ right_token)]) (\<lambda>_.
     Inr (sha_update c right_token (sha_update c [32] (sha_update c left_token
       (sha_update c (le_bytes 8 (length left_token + 1 + length right_token)) h)))))))))"

fun merge_loop ::
  "cpu \<Rightarrow> bytes \<Rightarrow> nat \<Rightarrow> nat \<Rightarrow> nat \<Rightarrow> nat list \<Rightarrow> sha256 \<Rightarrow> model_error + sha256" where
  "merge_loop c bs offsets token_base merge_base [] h = Inr h"
| "merge_loop c bs offsets token_base merge_base (rank # rest) h =
     bind_result (check_merge c bs offsets token_base merge_base rank h)
       (merge_loop c bs offsets token_base merge_base rest)"

text \<open>
  After a wrong merge digest the table is scanned once more, to report a duplicate merge first.
\<close>

definition merge_digest_error :: "bytes \<Rightarrow> nat \<Rightarrow> model_error \<Rightarrow> model_error" where
  "merge_digest_error bs merge_base e =
     (case find (\<lambda>rank. prior_duplicate_merge bs merge_base rank
               (u32_at bs (merge_base + rank * 12)) (u32_at bs (merge_base + rank * 12 + 4)) \<noteq> None)
             [1..<MERGE_COUNT] of
        None \<Rightarrow> e
      | Some rank \<Rightarrow> duplicate_merge_error rank (merge_base + rank * 12)
          (the (prior_duplicate_merge bs merge_base rank (u32_at bs (merge_base + rank * 12))
             (u32_at bs (merge_base + rank * 12 + 4)))))"

definition validate_merges :: "cpu \<Rightarrow> bytes \<Rightarrow> nat \<Rightarrow> nat \<Rightarrow> nat \<Rightarrow> model_error + unit" where
  "validate_merges c bs offsets token_base merge_base =
     bind_result (merge_loop c bs offsets token_base merge_base [0..<MERGE_COUNT] sha_new) (\<lambda>h.
       case digest_mismatch MS_TOKENIZER_SCHEMA ED_MERGE 0 (of_nat merge_base) MERGE_DIGEST
              (sha_finish c h) FK_DIGEST_BYTE of
         None \<Rightarrow> Inr ()
       | Some e \<Rightarrow> Inl (merge_digest_error bs merge_base e))"

definition validate_template :: "bytes \<Rightarrow> nat \<Rightarrow> nat \<Rightarrow> model_error + unit" where
  "validate_template bs off n =
    (let template = slice bs off (off + n) in
     bind_result (require (template ! 0 = 123)
       (model_fail MS_TOKENIZER_SCHEMA ED_CHAT 0 off 123 (unat (template ! 0))
         FK_TEMPLATE_BYTE 0)) (\<lambda>_.
     case from_utf8 template of
       Inl valid \<Rightarrow> Inl (model_fail MS_UTF8 ED_CHAT 0 (off + valid) 0 (unat (template ! valid))
         FK_UTF8_BYTE 1)
     | Inr _ \<Rightarrow> Inr ()))"

definition validate_tokenizer :: "cpu \<Rightarrow> bytes \<Rightarrow> image_section list \<Rightarrow> model_error + unit" where
  "validate_tokenizer c bs sections =
    (let off = (\<lambda>k. sec_offset (sections ! k)) in
     bind_result (validate_tokens c bs (off 0) (off 1) (off 2)) (\<lambda>_.
     bind_result (validate_merges c bs (off 0) (off 1) (off 3)) (\<lambda>_.
     validate_template bs (off 4) (sec_length (sections ! 4)))))"

section \<open>Opening an image\<close>

record model_view =
  mv_bytes :: bytes
  mv_sections :: "image_section list"
  mv_config :: model_config

definition open_authenticated :: "cpu \<Rightarrow> nat \<Rightarrow> bytes \<Rightarrow> model_error + model_view" where
  "open_authenticated c address bs =
     bind_result (require (length bs = IMAGE_BYTES)
       (model_fail MS_LENGTH ED_HEADER 0 0 IMAGE_BYTES (length bs) FK_FILE_BYTES 0)) (\<lambda>_.
     bind_result (require (address mod 64 = 0)
       (model_fail MS_ALIGNMENT ED_HEADER 0 0 64 (address mod 64) FK_BASE_ALIGNMENT 0)) (\<lambda>_.
     bind_result (check_header bs) (\<lambda>_.
     bind_result (open_sections bs [0..<7] 704 []) (\<lambda>(previous_end, sections).
     bind_result (require (previous_end = IMAGE_BYTES)
       (model_fail MS_SECTION_SCHEMA ED_SECTION 6 previous_end IMAGE_BYTES previous_end
         FK_RANGE_LENGTH 0)) (\<lambda>_.
     bind_result (validate_tensors bs) (\<lambda>_.
     bind_result (validate_tokenizer c bs sections) (\<lambda>_.
       Inr \<lparr>mv_bytes = bs, mv_sections = sections, mv_config = CONFIG\<rparr>)))))))"

section \<open>Accessors\<close>

definition view_section :: "model_view \<Rightarrow> nat \<Rightarrow> model_error + bytes" where
  "view_section v tid =
     (if \<not> (1 \<le> tid \<and> tid \<le> 7)
      then Inl (model_fail MS_SECTION_SCHEMA ED_SECTION tid 0 (2 ^ 32 + 7) tid FK_SECTION_ID 0)
      else let s = mv_sections v ! (tid - 1)
           in Inr (slice (mv_bytes v) (sec_offset s) (sec_offset s + sec_length s)))"

definition view_tensor :: "model_view \<Rightarrow> nat \<Rightarrow> model_error + tensor_meta \<times> bytes" where
  "view_tensor v tid =
     (if tid \<ge> TENSOR_COUNT
      then Inl (model_fail MS_TENSOR_SCHEMA ED_TENSOR tid 0 TENSOR_COUNT tid FK_TENSOR_ID 0)
      else let meta = tensor_meta_at (mv_bytes v) tid
           in Inr (meta, slice (mv_bytes v) (tm_offset meta) (tm_offset meta + tm_length meta)))"

definition tensor_id_for :: "nat \<Rightarrow> nat \<Rightarrow> model_error + nat" where
  "tensor_id_for layer role =
    (let packed = layer * 2 ^ 16 + role in
     if layer = 0xffff then
       (if role = 1 then Inr 0 else if role = 2 then Inr 289 else if role = 3 then Inr 290
        else Inl (model_fail MS_TENSOR_SCHEMA ED_TENSOR packed 0 (2 ^ 32 + 3) role FK_ROLE 1))
     else if layer < 24 then
       (if \<not> (10 \<le> role \<and> role \<le> 21)
        then Inl (model_fail MS_TENSOR_SCHEMA ED_TENSOR packed 0 (10 * 2 ^ 32 + 21) role FK_ROLE 0)
        else Inr (1 + layer * 12 + (role - 10)))
     else Inl (model_fail MS_TENSOR_SCHEMA ED_TENSOR packed 0 24 layer FK_LAYER 0))"

definition tensor_for :: "model_view \<Rightarrow> nat \<Rightarrow> nat \<Rightarrow> model_error + tensor_meta \<times> bytes" where
  "tensor_for v layer role = bind_result (tensor_id_for layer role) (view_tensor v)"

definition token_id_error :: "nat \<Rightarrow> model_error" where
  "token_id_error tid = model_fail MS_TOKEN_ID ED_TOKEN tid 0 VOCAB_COUNT tid FK_TOKEN_ID_FIELD 0"

definition token_bytes :: "model_view \<Rightarrow> nat \<Rightarrow> model_error + bytes" where
  "token_bytes v tid =
     (if tid \<ge> VOCAB_COUNT then Inl (token_id_error tid)
      else let offsets = sec_offset (mv_sections v ! 0);
               first = u32_at (mv_bytes v) (offsets + tid * 4);
               last_byte = u32_at (mv_bytes v) (offsets + (tid + 1) * 4);
               base = sec_offset (mv_sections v ! 1)
           in Inr (slice (mv_bytes v) (base + first) (base + last_byte)))"

definition token_type :: "model_view \<Rightarrow> nat \<Rightarrow> model_error + nat" where
  "token_type v tid =
     (if tid \<ge> VOCAB_COUNT then Inl (token_id_error tid)
      else Inr (unat (mv_bytes v ! (sec_offset (mv_sections v ! 2) + tid))))"

record merge_entry =
  mg_left :: nat
  mg_right :: nat
  mg_result :: nat
  mg_rank :: nat

definition view_merge :: "model_view \<Rightarrow> nat \<Rightarrow> model_error + merge_entry" where
  "view_merge v rank =
     (if rank \<ge> MERGE_COUNT
      then Inl (model_fail MS_TOKENIZER_SCHEMA ED_MERGE rank 0 MERGE_COUNT rank FK_MERGE_RESULT 0)
      else let at = sec_offset (mv_sections v ! 3) + rank * 12
           in Inr \<lparr>mg_left = u32_at (mv_bytes v) at, mg_right = u32_at (mv_bytes v) (at + 4),
                mg_result = u32_at (mv_bytes v) (at + 8), mg_rank = rank\<rparr>)"

section \<open>Accepted checks\<close>

lemma require_Inr [simp]: "require b e = Inr u \<longleftrightarrow> b"
  by (simp add: require_def)

lemma none_or_Inr [simp]: "none_or m = Inr u \<longleftrightarrow> m = None"
  by (simp add: none_or_def split: option.split)

lemma check_all_Inr [simp]: "check_all f xs = Inr u \<longleftrightarrow> list_all (\<lambda>x. f x = Inr ()) xs"
  by (induction xs) (auto simp: bind_result_Inr)

section \<open>Adjacent pieces\<close>

lemma slice_append:
  assumes "i \<le> j" and "j \<le> k"
  shows "slice xs i j @ slice xs j k = slice xs i k"
proof -
  have k: "k - i = (j - i) + (k - j)" using assms by simp
  have "take (k - i) (drop i xs) = take (j - i) (drop i xs) @ take (k - j) (drop (j - i) (drop i xs))"
    unfolding k by (rule take_add)
  then show ?thesis using assms by (simp add: slice_def)
qed

lemma concat_slices:
  assumes "\<And>i. i < n \<Longrightarrow> b i \<le> b (Suc i)"
  shows "concat (map (\<lambda>i. slice xs (b i) (b (Suc i))) [0..<n]) = slice xs (b 0) (b n) \<and> b 0 \<le> b n"
  using assms
proof (induction n)
  case 0
  then show ?case by (simp add: slice_def)
next
  case (Suc n)
  then have IH: "concat (map (\<lambda>i. slice xs (b i) (b (Suc i))) [0..<n]) = slice xs (b 0) (b n)"
    "b 0 \<le> b n" by simp_all
  with Suc.prems [of n] show ?case
    using slice_append [of "b 0" "b n" "b (Suc n)" xs] by simp
qed

section \<open>Sections\<close>

definition frozen_section :: "nat \<Rightarrow> image_section" where
  "frozen_section ordinal =
     \<lparr>sec_offset = SECTION_OFFSETS ! ordinal, sec_length = SECTION_LENGTHS ! ordinal\<rparr>"

lemma check_section_Inr:
  assumes "check_section bs previous_end ordinal = Inr u"
  shows "section_actuals bs ordinal = section_expected ordinal \<and>
    SECTION_OFFSETS ! ordinal mod 64 = 0 \<and> previous_end \<le> SECTION_OFFSETS ! ordinal \<and>
    list_all (\<lambda>at. bs ! at = 0) [previous_end..<SECTION_OFFSETS ! ordinal]"
proof -
  have "section_actuals bs ordinal ! 3 = SECTION_OFFSETS ! ordinal"
    and "section_actuals bs ordinal ! 0 = section_expected ordinal ! 0"
    and "section_actuals bs ordinal ! 1 = section_expected ordinal ! 1"
    and "section_actuals bs ordinal ! 2 = section_expected ordinal ! 2"
    and "section_actuals bs ordinal ! 4 = section_expected ordinal ! 4"
    using assms by (auto simp: check_section_def Let_def bind_result_Inr section_expected_def)
  then show ?thesis
    using assms
    by (simp add: check_section_def Let_def bind_result_Inr section_actuals_def
        section_expected_def)
qed

lemma open_sections_Inr:
  "open_sections bs ordinals previous_end sections = Inr (e, result) \<Longrightarrow>
   result = sections @ map frozen_section ordinals"
proof (induction ordinals arbitrary: previous_end sections)
  case (Cons ordinal ordinals)
  from Cons.prems obtain u where u: "check_section bs previous_end ordinal = Inr u"
    by (auto simp: bind_result_Inr)
  note facts = check_section_Inr [OF u]
  have fields: "section_actuals bs ordinal ! 3 = SECTION_OFFSETS ! ordinal"
    "section_actuals bs ordinal ! 4 = SECTION_LENGTHS ! ordinal"
    using facts by (simp_all add: section_expected_def)
  from Cons.prems u obtain m where
    "open_sections bs ordinals m (sections @ [frozen_section ordinal]) = Inr (e, result)"
    by (auto simp: bind_result_Inr fields frozen_section_def Let_def split: option.splits)
  from Cons.IH [OF this] show ?case by simp
qed simp

definition frozen_sections :: "image_section list" where
  "frozen_sections = map frozen_section [0..<7]"

lemma frozen_sections_nth [simp]: "k < 7 \<Longrightarrow> frozen_sections ! k = frozen_section k"
  by (simp add: frozen_sections_def)

lemma open_Inr:
  assumes "open_authenticated c address bs = Inr v"
  shows "v = \<lparr>mv_bytes = bs, mv_sections = frozen_sections, mv_config = CONFIG\<rparr>"
    "length bs = IMAGE_BYTES" "address mod 64 = 0" "check_header bs = Inr ()"
    "open_sections bs [0..<7] 704 [] = Inr (IMAGE_BYTES, frozen_sections)"
    "validate_tensors bs = Inr ()" "validate_tokenizer c bs frozen_sections = Inr ()"
  using assms open_sections_Inr [of bs "[0..<7]" 704 "[]"]
  unfolding open_authenticated_def frozen_sections_def
  by (auto simp: bind_result_Inr simp del: upt_rec_numeral)

definition gap_start :: "nat \<Rightarrow> nat" where
  "gap_start k = (if k = 0 then 704 else SECTION_OFFSETS ! (k - 1) + SECTION_LENGTHS ! (k - 1))"

lemma open_sections_gaps:
  assumes "open_sections bs [k..<n] (gap_start k) sections = Inr (e, result)" and "k \<le> n"
  shows "e = gap_start n \<and> (\<forall>j. k \<le> j \<and> j < n \<longrightarrow>
     section_actuals bs j = section_expected j \<and> SECTION_OFFSETS ! j mod 64 = 0 \<and>
     gap_start j \<le> SECTION_OFFSETS ! j \<and>
     list_all (\<lambda>at. bs ! at = 0) [gap_start j..<SECTION_OFFSETS ! j])"
  using assms
proof (induction "n - k" arbitrary: k sections)
  case 0
  then show ?case by auto
next
  case (Suc d)
  then have k: "k < n" by simp
  from Suc.prems(1) k obtain u where u: "check_section bs (gap_start k) k = Inr u"
    by (auto simp: upt_conv_Cons bind_result_Inr)
  note facts = check_section_Inr [OF u]
  have fields: "section_actuals bs k ! 3 = SECTION_OFFSETS ! k"
    "section_actuals bs k ! 4 = SECTION_LENGTHS ! k"
    using facts by (simp_all add: section_expected_def)
  from Suc.prems(1) k have
    "open_sections bs [Suc k..<n] (gap_start (Suc k)) (sections @ [frozen_section k]) =
       Inr (e, result)"
    by (auto simp: upt_conv_Cons bind_result_Inr fields frozen_section_def Let_def gap_start_def
        checked_add_Some split: option.splits)
  from Suc.hyps(1) [OF _ this] Suc.hyps(2) k
  have rest: "e = gap_start n \<and> (\<forall>j. Suc k \<le> j \<and> j < n \<longrightarrow>
     section_actuals bs j = section_expected j \<and> SECTION_OFFSETS ! j mod 64 = 0 \<and>
     gap_start j \<le> SECTION_OFFSETS ! j \<and>
     list_all (\<lambda>at. bs ! at = 0) [gap_start j..<SECTION_OFFSETS ! j])"
    by simp
  show ?case
  proof (intro conjI allI impI)
    fix j assume "k \<le> j \<and> j < n"
    with rest facts show
      "section_actuals bs j = section_expected j" "SECTION_OFFSETS ! j mod 64 = 0"
      "gap_start j \<le> SECTION_OFFSETS ! j"
      "list_all (\<lambda>at. bs ! at = 0) [gap_start j..<SECTION_OFFSETS ! j]"
      by (cases "j = k"; simp)+
  qed (use rest in simp)
qed

section \<open>Tensors\<close>

lemma check_tensor_Inr:
  assumes "check_tensor bs previous_end tid = Inr u"
  shows "tm_offset (tensor_meta_at bs tid) = previous_end \<and>
     tm_offset (tensor_meta_at bs tid) mod 64 = 0 \<and>
     tm_id (tensor_meta_at bs tid) = tid \<and>
     (case expected_tensor tid of (layer, role, dtype, rank, dims) \<Rightarrow>
        tm_layer (tensor_meta_at bs tid) = layer \<and> tm_role (tensor_meta_at bs tid) = role \<and>
        tm_dtype (tensor_meta_at bs tid) = dtype \<and>
        tm_length (tensor_meta_at bs tid) = tensor_bytes dtype (tm_elements (tensor_meta_at bs tid)))"
  using assms
  by (cases "expected_tensor tid")
    (auto simp: check_tensor_def Let_def bind_result_Inr tensor_fields_def
      simp del: upt_rec_numeral)

text \<open>The schema as a table: the embedding, twelve tensors of every layer, the final norm and the output.\<close>

definition LAYER_SCHEMA :: "(nat \<times> nat \<times> nat \<times> nat list) list" where
  "LAYER_SCHEMA =
     [(10, 1, 1, [896, 1, 1, 1]), (11, 2, 2, [4864, 896, 1, 1]), (12, 2, 2, [896, 4864, 1, 1]),
      (13, 2, 2, [896, 4864, 1, 1]), (14, 1, 1, [896, 1, 1, 1]), (15, 1, 1, [128, 1, 1, 1]),
      (16, 2, 2, [896, 128, 1, 1]), (17, 2, 2, [896, 896, 1, 1]), (18, 1, 1, [896, 1, 1, 1]),
      (19, 2, 2, [896, 896, 1, 1]), (20, 1, 1, [128, 1, 1, 1]), (21, 2, 2, [896, 128, 1, 1])]"

definition tensor_schema :: "nat \<Rightarrow> nat \<times> nat \<times> nat \<times> nat \<times> nat list" where
  "tensor_schema tid =
     (if tid = 0 then (0xffff, 1, 2, 2, [896, 151936, 1, 1])
      else if tid = 289 then (0xffff, 2, 1, 1, [896, 1, 1, 1])
      else if tid = 290 then (0xffff, 3, 3, 2, [896, 151936, 1, 1])
      else ((tid - 1) div 12, LAYER_SCHEMA ! ((tid - 1) mod 12)))"

lemma expected_is_schema: "expected_tensor tid = tensor_schema tid"
proof -
  have "k \<in> {0, 1, 2, 3, 4, 5, 6, 7, 8, 9, 10, 11}" if "k < 12" for k :: nat
    unfolding insert_iff empty_iff using that by presburger
  then have "(tid - 1) mod 12 \<in> {0, 1, 2, 3, 4, 5, 6, 7, 8, 9, 10, 11}" by simp
  then show ?thesis
    unfolding expected_tensor_def tensor_schema_def LAYER_SCHEMA_def Let_def insert_iff empty_iff
    by (elim disjE) simp_all
qed

lemma schema_dims: "case tensor_schema tid of (layer, role, dtype, rank, dims) \<Rightarrow> length dims = 4"
proof -
  have "list_all (\<lambda>(role, dtype, rank, dims). length dims = 4) LAYER_SCHEMA" "length LAYER_SCHEMA = 12" by code_simp+
  then have "case LAYER_SCHEMA ! ((tid - 1) mod 12) of (role, dtype, rank, dims) \<Rightarrow> length dims = 4"
    by (simp add: list_all_length)
  then show ?thesis by (simp add: tensor_schema_def split_def)
qed

lemma check_tensor_schema:
  assumes "check_tensor bs previous_end tid = Inr u"
  shows "(tm_layer (tensor_meta_at bs tid), tm_role (tensor_meta_at bs tid), tm_dtype (tensor_meta_at bs tid),
      tm_rank (tensor_meta_at bs tid), tm_dims (tensor_meta_at bs tid)) = tensor_schema tid"
    "tm_elements (tensor_meta_at bs tid) = prod_list (tm_dims (tensor_meta_at bs tid))"
proof -
  obtain layer role dtype rank dims where schema: "tensor_schema tid = (layer, role, dtype, rank, dims)"
    by (cases "tensor_schema tid") auto
  then have same: "expected_tensor tid = (layer, role, dtype, rank, dims)" using expected_is_schema by simp
  have four: "length dims = 4" using schema_dims [of tid] schema by simp
  let ?m = "tensor_meta_at bs tid"
  have "length (tm_dims ?m) = 4" by (simp add: tensor_meta_at_def Let_def split_def)
  moreover have each: "tm_layer ?m = layer" "tm_role ?m = role" "tm_dtype ?m = dtype" "tm_rank ?m = rank"
    "\<forall>dim<4. tm_dims ?m ! dim = dims ! dim"
    using assms same
    by (auto simp: check_tensor_def Let_def bind_result_Inr tensor_fields_def check_all_Inr require_def list_all_iff
      simp del: upt_rec_numeral split: if_splits)
  ultimately have dims: "tm_dims ?m = dims" using four by (intro nth_equalityI) auto
  then show "(tm_layer ?m, tm_role ?m, tm_dtype ?m, tm_rank ?m, tm_dims ?m) = tensor_schema tid"
    using each schema by simp
  obtain d0 d1 d2 d3 where "dims = [d0, d1, d2, d3]" using four by (auto simp: length_Suc_conv numeral_eq_Suc)
  then show "tm_elements ?m = prod_list (tm_dims ?m)"
    unfolding dims by (simp add: tensor_meta_at_def Let_def same)
qed

lemma tensor_loop_Inr:
  assumes "tensor_loop bs [k..<n] previous_end = Inr e" and "k \<le> n"
    and "previous_end = tensor_end k"
    and "\<And>j. k \<le> j \<Longrightarrow> j < n \<Longrightarrow>
      tensor_end (Suc j) = tm_offset (tensor_meta_at bs j) + tm_length (tensor_meta_at bs j)"
  shows "e = tensor_end n \<and> (\<forall>j. k \<le> j \<and> j < n \<longrightarrow>
     (\<exists>u. check_tensor bs (tensor_end j) j = Inr u))"
  using assms
proof (induction "n - k" arbitrary: k previous_end)
  case 0
  then show ?case by auto
next
  case (Suc d)
  then have k: "k < n" by simp
  from Suc.prems(1,3) k obtain u where u: "check_tensor bs (tensor_end k) k = Inr u"
    by (auto simp: upt_conv_Cons bind_result_Inr)
  from Suc.prems(1) k have "tensor_loop bs [Suc k..<n] (tensor_end (Suc k)) = Inr e"
    by (auto simp: upt_conv_Cons bind_result_Inr Let_def checked_add_Some Suc.prems(4)
        split: option.splits)
  from Suc.hyps(1) [OF _ this _ refl] Suc.hyps(2) k Suc.prems(4)
  have rest: "e = tensor_end n \<and> (\<forall>j. Suc k \<le> j \<and> j < n \<longrightarrow>
     (\<exists>u. check_tensor bs (tensor_end j) j = Inr u))"
    by simp
  show ?case
  proof (intro conjI allI impI)
    fix j assume "k \<le> j \<and> j < n"
    with rest u show "\<exists>u. check_tensor bs (tensor_end j) j = Inr u" by (cases "j = k") auto
  qed (use rest in simp)
qed

text \<open>Where tensor \<open>j\<close> ends, in the directory: the boundaries of the tiling.\<close>

definition tensor_boundary :: "bytes \<Rightarrow> nat \<Rightarrow> nat" where
  "tensor_boundary bs j = (if j = 0 then SECTION_OFFSETS ! 6
     else tm_offset (tensor_meta_at bs (j - 1)) + tm_length (tensor_meta_at bs (j - 1)))"

lemma validate_tensors_Inr:
  assumes "validate_tensors bs = Inr u"
  shows "tensor_boundary bs TENSOR_COUNT = IMAGE_BYTES \<and> (\<forall>j < TENSOR_COUNT.
     \<exists>u. check_tensor bs (tensor_boundary bs j) j = Inr u)"
proof -
  from assms have run: "tensor_loop bs [0..<TENSOR_COUNT] (SECTION_OFFSETS ! 6) = Inr IMAGE_BYTES"
    by (auto simp: validate_tensors_def bind_result_Inr simp del: upt_rec_numeral)
  have "IMAGE_BYTES = tensor_boundary bs TENSOR_COUNT \<and> (\<forall>j. 0 \<le> j \<and> j < TENSOR_COUNT \<longrightarrow>
     (\<exists>u. check_tensor bs (tensor_boundary bs j) j = Inr u))"
    by (rule tensor_loop_Inr [OF run]) (simp_all add: tensor_boundary_def)
  then show ?thesis by auto
qed

section \<open>Tokens\<close>

lemma check_token_Inr:
  assumes "check_token c bs offsets token_base type_base tid s = Inr s'"
  shows "ts_prior s < u32_at bs (offsets + (tid + 1) * 4) \<and>
    ts_prior s' = u32_at bs (offsets + (tid + 1) * 4) \<and> ts_prior s' \<le> TOKEN_BYTES \<and>
    (\<exists>points. from_utf8 (token_slice bs token_base (ts_prior s) (ts_prior s')) = Inr points) \<and>
    unat (bs ! (type_base + tid)) \<in> {1, 3, 4, 5} \<and>
    ts_token_sha s' = sha_update c (token_slice bs token_base (ts_prior s) (ts_prior s'))
      (sha_update c (le_bytes 8 (length (token_slice bs token_base (ts_prior s) (ts_prior s'))))
        (ts_token_sha s)) \<and>
    ts_type_sha s' = sha_update c (le_bytes 8 (unat (bs ! (type_base + tid)))) (ts_type_sha s)"
  using assms
  by (auto simp: check_token_def Let_def bind_result_Inr count_index_def
      split: sum.splits option.splits if_splits)

text \<open>What the canonical digests are computed over.\<close>

definition canonical_tokens :: "bytes \<Rightarrow> nat \<Rightarrow> nat \<Rightarrow> nat list \<Rightarrow> bytes" where
  "canonical_tokens bs offsets token_base tids =
     concat (map (\<lambda>tid. let token = token_at bs offsets token_base tid
                        in le_bytes 8 (length token) @ token) tids)"

definition canonical_types :: "bytes \<Rightarrow> nat \<Rightarrow> nat list \<Rightarrow> bytes" where
  "canonical_types bs type_base tids =
     concat (map (\<lambda>tid. le_bytes 8 (unat (bs ! (type_base + tid)))) tids)"

definition token_ok :: "bytes \<Rightarrow> nat \<Rightarrow> nat \<Rightarrow> nat \<Rightarrow> nat \<Rightarrow> bool" where
  "token_ok bs offsets token_base type_base tid \<longleftrightarrow>
     token_start bs offsets tid < token_start bs offsets (Suc tid) \<and>
     token_start bs offsets (Suc tid) \<le> TOKEN_BYTES \<and>
     (\<exists>points. from_utf8 (token_at bs offsets token_base tid) = Inr points) \<and>
     unat (bs ! (type_base + tid)) \<in> {1, 3, 4, 5}"

lemma token_loop_Inr:
  assumes "token_loop c bs offsets token_base type_base [k..<n] s = Inr s'" and "k \<le> n"
    and "ts_prior s = token_start bs offsets k"
    and "sha_inv c msg (ts_token_sha s)" and "sha_inv c msg' (ts_type_sha s)"
  shows "ts_prior s' = token_start bs offsets n \<and>
     (\<forall>j. k \<le> j \<and> j < n \<longrightarrow> token_ok bs offsets token_base type_base j) \<and>
     sha_inv c (msg @ canonical_tokens bs offsets token_base [k..<n]) (ts_token_sha s') \<and>
     sha_inv c (msg' @ canonical_types bs type_base [k..<n]) (ts_type_sha s')"
  using assms
proof (induction "n - k" arbitrary: k s msg msg')
  case 0
  then show ?case by (auto simp: canonical_tokens_def canonical_types_def)
next
  case (Suc d)
  then have k: "k < n" by simp
  from Suc.prems(1) k obtain s1 where s1: "check_token c bs offsets token_base type_base k s = Inr s1"
    and run: "token_loop c bs offsets token_base type_base [Suc k..<n] s1 = Inr s'"
    by (auto simp: upt_conv_Cons bind_result_Inr)
  note facts = check_token_Inr [OF s1]
  let ?token = "token_at bs offsets token_base k"
  have prior: "ts_prior s1 = token_start bs offsets (Suc k)" using facts by (simp add: token_start_def)
  have token: "token_slice bs token_base (ts_prior s) (ts_prior s1) = ?token"
    using Suc.prems(3) prior by (simp add: token_at_def)
  have shas: "ts_token_sha s1 = sha_update c ?token (sha_update c (le_bytes 8 (length ?token))
      (ts_token_sha s))"
    "ts_type_sha s1 = sha_update c (le_bytes 8 (unat (bs ! (type_base + k)))) (ts_type_sha s)"
    using facts unfolding token by simp_all
  have inv: "sha_inv c (msg @ le_bytes 8 (length ?token) @ ?token) (ts_token_sha s1)"
    "sha_inv c (msg' @ le_bytes 8 (unat (bs ! (type_base + k)))) (ts_type_sha s1)"
    using sha_update_inv [OF sha_update_inv [OF Suc.prems(4)]] sha_update_inv [OF Suc.prems(5)]
    by (simp_all add: shas)
  from Suc.hyps(1) [OF _ run _ prior inv] Suc.hyps(2) k
  have rest: "ts_prior s' = token_start bs offsets n \<and>
     (\<forall>j. Suc k \<le> j \<and> j < n \<longrightarrow> token_ok bs offsets token_base type_base j) \<and>
     sha_inv c ((msg @ le_bytes 8 (length ?token) @ ?token) @
        canonical_tokens bs offsets token_base [Suc k..<n]) (ts_token_sha s') \<and>
     sha_inv c ((msg' @ le_bytes 8 (unat (bs ! (type_base + k)))) @
        canonical_types bs type_base [Suc k..<n]) (ts_type_sha s')"
    by simp
  have ok: "token_ok bs offsets token_base type_base k"
    using facts Suc.prems(3) prior token by (simp add: token_ok_def token_start_def)
  show ?case
  proof (intro conjI allI impI)
    fix j assume "k \<le> j \<and> j < n"
    with rest ok show "token_ok bs offsets token_base type_base j" by (cases "j = k") auto
  qed (use rest k in \<open>simp_all add: canonical_tokens_def canonical_types_def Let_def upt_conv_Cons\<close>)
qed

lemma validate_tokens_Inr:
  assumes "validate_tokens c bs offsets token_base type_base = Inr u"
  shows "token_start bs offsets 0 = 0 \<and> token_start bs offsets VOCAB_COUNT = TOKEN_BYTES \<and>
     (\<forall>j < VOCAB_COUNT. token_ok bs offsets token_base type_base j) \<and>
     (\<forall>i < 32. TOKEN_DIGEST ! i =
        sha_reference c (canonical_tokens bs offsets token_base [0..<VOCAB_COUNT]) ! i) \<and>
     (\<forall>i < 32. TYPE_DIGEST ! i =
        sha_reference c (canonical_types bs type_base [0..<VOCAB_COUNT]) ! i)"
proof -
  let ?s = "\<lparr>ts_prior = 0, ts_counts = [0, 0, 0, 0], ts_token_sha = sha_new, ts_type_sha = sha_new\<rparr>"
  from assms obtain s where start: "u32_at bs offsets = 0"
    and run: "token_loop c bs offsets token_base type_base [0..<VOCAB_COUNT] ?s = Inr s"
    and all: "ts_prior s = TOKEN_BYTES"
    and digests: "\<forall>i < 32. TOKEN_DIGEST ! i = sha_finish c (ts_token_sha s) ! i"
      "\<forall>i < 32. TYPE_DIGEST ! i = sha_finish c (ts_type_sha s) ! i"
    by (auto simp: validate_tokens_def bind_result_Inr digest_mismatch_None
        simp del: upt_rec_numeral)
  have first: "ts_prior ?s = token_start bs offsets 0" using start by (simp add: token_start_def)
  have "ts_prior s = token_start bs offsets VOCAB_COUNT \<and>
     (\<forall>j. 0 \<le> j \<and> j < VOCAB_COUNT \<longrightarrow> token_ok bs offsets token_base type_base j) \<and>
     sha_inv c ([] @ canonical_tokens bs offsets token_base [0..<VOCAB_COUNT]) (ts_token_sha s) \<and>
     sha_inv c ([] @ canonical_types bs type_base [0..<VOCAB_COUNT]) (ts_type_sha s)"
    by (rule token_loop_Inr [OF run _ first]) (simp_all add: sha_new_inv)
  then show ?thesis
    using first all digests by (auto simp: sha_finish_reference)
qed

lemma length_token_at:
  assumes "token_start bs offsets (Suc tid) \<le> n" and "token_base + n \<le> length bs"
  shows "length (token_at bs offsets token_base tid) =
    token_start bs offsets (Suc tid) - token_start bs offsets tid"
  using assms by (simp add: token_at_def token_slice_def length_slice_min)

lemma check_merge_Inr:
  assumes "check_merge c bs offsets token_base merge_base rank h = Inr h'"
    and ok: "\<forall>j < VOCAB_COUNT. token_ok bs offsets token_base type_base j"
    and room: "token_base + TOKEN_BYTES \<le> length bs"
  shows "let at = merge_base + rank * 12; left = u32_at bs at; right = u32_at bs (at + 4);
       res = u32_at bs (at + 8); token = token_at bs offsets token_base in
     left < VOCAB_COUNT \<and> right < VOCAB_COUNT \<and> res < 151643 \<and>
     token res = token left @ token right \<and>
     h' = sha_update c (token right) (sha_update c [32] (sha_update c (token left)
       (sha_update c (le_bytes 8 (length (token left) + 1 + length (token right))) h)))"
proof -
  let ?at = "merge_base + rank * 12"
  let ?left = "u32_at bs ?at" and ?right = "u32_at bs (?at + 4)" and ?res = "u32_at bs (?at + 8)"
  let ?token = "token_at bs offsets token_base" and ?start = "token_start bs offsets"
  have small: "?left < VOCAB_COUNT" "?right < VOCAB_COUNT" "?res < VOCAB_COUNT" "?res < 151643"
    and len: "?start (?res + 1) - ?start ?res =
      ?start (?left + 1) - ?start ?left + ?start (?right + 1) - ?start ?right"
    and bytes: "list_all (\<lambda>k. bs ! (token_base + ?start ?res + k) = (?token ?left @ ?token ?right) ! k)
      [0..<length (?token ?left @ ?token ?right)]"
    and h': "h' = sha_update c (?token ?right) (sha_update c [32] (sha_update c (?token ?left)
       (sha_update c (le_bytes 8 (length (?token ?left) + 1 + length (?token ?right))) h)))"
    using assms(1) unfolding check_merge_def Let_def by (auto simp: bind_result_Inr)
  have tok: "?start j < ?start (Suc j)" "?start (Suc j) \<le> TOKEN_BYTES" if "j < VOCAB_COUNT" for j
    using ok that by (auto simp: token_ok_def)
  have lens: "length (?token j) = ?start (Suc j) - ?start j" if "j < VOCAB_COUNT" for j
    by (rule length_token_at [OF tok(2) [OF that] room])
  have total_len: "length (?token ?res) = length (?token ?left @ ?token ?right)"
    using len lens [OF small(1)] lens [OF small(2)] lens [OF small(3)]
      tok(1) [OF small(1)] tok(1) [OF small(2)] by simp
  have "?token ?res = ?token ?left @ ?token ?right"
  proof (rule nth_equalityI [OF total_len])
    fix k assume k: "k < length (?token ?res)"
    then have "?token ?res ! k = bs ! (token_base + ?start ?res + k)"
      using lens [OF small(3)] tok [OF small(3)] room
      by (simp add: token_at_def token_slice_def nth_slice)
    also have "\<dots> = (?token ?left @ ?token ?right) ! k"
      using bytes k total_len by (simp add: list_all_iff)
    finally show "?token ?res ! k = (?token ?left @ ?token ?right) ! k" .
  qed
  then show ?thesis using small h' by (simp add: Let_def)
qed

definition merge_ok :: "bytes \<Rightarrow> nat \<Rightarrow> nat \<Rightarrow> nat \<Rightarrow> nat \<Rightarrow> bool" where
  "merge_ok bs offsets token_base merge_base rank =
    (let at = merge_base + rank * 12; left = u32_at bs at; right = u32_at bs (at + 4);
         res = u32_at bs (at + 8); token = token_at bs offsets token_base in
     left < VOCAB_COUNT \<and> right < VOCAB_COUNT \<and> res < 151643 \<and>
     token res = token left @ token right)"

definition canonical_merges :: "bytes \<Rightarrow> nat \<Rightarrow> nat \<Rightarrow> nat \<Rightarrow> nat list \<Rightarrow> bytes" where
  "canonical_merges bs offsets token_base merge_base ranks =
     concat (map (\<lambda>rank. let at = merge_base + rank * 12;
         left = token_at bs offsets token_base (u32_at bs at);
         right = token_at bs offsets token_base (u32_at bs (at + 4))
       in le_bytes 8 (length left + 1 + length right) @ left @ [32] @ right) ranks)"

lemma sha_update4_inv:
  "sha_inv c msg h \<Longrightarrow> sha_inv c (msg @ w @ x @ y @ z)
     (sha_update c z (sha_update c y (sha_update c x (sha_update c w h))))"
  using sha_update_inv [OF sha_update_inv [OF sha_update_inv [OF sha_update_inv]],
    of c msg h w x y z] by simp

lemma merge_loop_Inr:
  assumes "merge_loop c bs offsets token_base merge_base ranks h = Inr h'"
    and "\<forall>j < VOCAB_COUNT. token_ok bs offsets token_base type_base j"
    and "token_base + TOKEN_BYTES \<le> length bs" and "sha_inv c msg h"
  shows "list_all (merge_ok bs offsets token_base merge_base) ranks \<and>
     sha_inv c (msg @ canonical_merges bs offsets token_base merge_base ranks) h'"
  using assms(1,4)
proof (induction ranks arbitrary: h msg)
  case Nil
  then show ?case by (simp add: canonical_merges_def)
next
  case (Cons rank ranks)
  from Cons.prems(1) obtain h1 where h1: "check_merge c bs offsets token_base merge_base rank h = Inr h1"
    and run: "merge_loop c bs offsets token_base merge_base ranks h1 = Inr h'"
    by (auto simp: bind_result_Inr)
  note facts = check_merge_Inr [OF h1 assms(2,3), unfolded Let_def]
  let ?left = "token_at bs offsets token_base (u32_at bs (merge_base + rank * 12))"
  let ?right = "token_at bs offsets token_base (u32_at bs (merge_base + rank * 12 + 4))"
  have "h1 = sha_update c ?right (sha_update c [32] (sha_update c ?left
      (sha_update c (le_bytes 8 (length ?left + 1 + length ?right)) h)))"
    using facts by simp
  then have "sha_inv c (msg @ le_bytes 8 (length ?left + 1 + length ?right) @ ?left @ [32] @ ?right) h1"
    using sha_update4_inv [OF Cons.prems(2)] by (simp only:)
  from Cons.IH [OF run this] facts show ?case
    by (simp add: canonical_merges_def merge_ok_def Let_def)
qed

lemma validate_merges_Inr:
  assumes "validate_merges c bs offsets token_base merge_base = Inr u"
    and "\<forall>j < VOCAB_COUNT. token_ok bs offsets token_base type_base j"
    and "token_base + TOKEN_BYTES \<le> length bs"
  shows "list_all (merge_ok bs offsets token_base merge_base) [0..<MERGE_COUNT] \<and>
     (\<forall>i < 32. MERGE_DIGEST ! i = sha_reference c
        (canonical_merges bs offsets token_base merge_base [0..<MERGE_COUNT]) ! i)"
proof -
  from assms(1) obtain h where
    run: "merge_loop c bs offsets token_base merge_base [0..<MERGE_COUNT] sha_new = Inr h"
    and digest: "\<forall>i < 32. MERGE_DIGEST ! i = sha_finish c h ! i"
    by (auto simp: validate_merges_def bind_result_Inr digest_mismatch_None
        simp del: upt_rec_numeral split: option.splits)
  from merge_loop_Inr [OF run assms(2,3) sha_new_inv] digest
  show ?thesis by (auto simp: sha_finish_reference)
qed

section \<open>An opened image\<close>

lemma frozen_simps [simp]:
  "sec_offset (frozen_section k) = SECTION_OFFSETS ! k"
  "sec_length (frozen_section k) = SECTION_LENGTHS ! k"
  by (simp_all add: frozen_section_def)

lemma section_room: "k < 7 \<Longrightarrow> SECTION_OFFSETS ! k + SECTION_LENGTHS ! k \<le> IMAGE_BYTES"
  by (auto simp: SECTION_OFFSETS_def SECTION_LENGTHS_def IMAGE_BYTES_def nth_Cons split: nat.splits)

lemma gap_start_7: "gap_start 7 = IMAGE_BYTES"
  by (simp add: gap_start_def SECTION_OFFSETS_def SECTION_LENGTHS_def IMAGE_BYTES_def)

definition frozen_view :: "bytes \<Rightarrow> model_view" where
  "frozen_view bs = \<lparr>mv_bytes = bs, mv_sections = frozen_sections, mv_config = CONFIG\<rparr>"

lemma frozen_view_simps [simp]:
  "mv_bytes (frozen_view bs) = bs" "mv_sections (frozen_view bs) = frozen_sections"
  "mv_config (frozen_view bs) = CONFIG"
  by (simp_all add: frozen_view_def)

lemma view_section_frozen:
  "k < 7 \<Longrightarrow> view_section (frozen_view bs) (Suc k) =
     Inr (slice bs (SECTION_OFFSETS ! k) (SECTION_OFFSETS ! k + SECTION_LENGTHS ! k))"
  by (simp add: view_section_def Let_def)

abbreviation image_token :: "bytes \<Rightarrow> nat \<Rightarrow> bytes" where
  "image_token bs \<equiv> token_at bs (SECTION_OFFSETS ! 0) (SECTION_OFFSETS ! 1)"

lemma token_bytes_frozen:
  "tid < VOCAB_COUNT \<Longrightarrow> token_bytes (frozen_view bs) tid = Inr (image_token bs tid)"
  by (simp add: token_bytes_def token_at_def token_slice_def token_start_def Let_def)

lemma open_tokens:
  assumes "open_authenticated c address bs = Inr v"
  shows "v = frozen_view bs"
    "token_start bs (SECTION_OFFSETS ! 0) 0 = 0"
    "token_start bs (SECTION_OFFSETS ! 0) VOCAB_COUNT = TOKEN_BYTES"
    "\<forall>j < VOCAB_COUNT. token_ok bs (SECTION_OFFSETS ! 0) (SECTION_OFFSETS ! 1) (SECTION_OFFSETS ! 2) j"
    "\<forall>i < 32. TOKEN_DIGEST ! i = sha_reference c
       (canonical_tokens bs (SECTION_OFFSETS ! 0) (SECTION_OFFSETS ! 1) [0..<VOCAB_COUNT]) ! i"
    "\<forall>i < 32. TYPE_DIGEST ! i = sha_reference c
       (canonical_types bs (SECTION_OFFSETS ! 2) [0..<VOCAB_COUNT]) ! i"
    "list_all (merge_ok bs (SECTION_OFFSETS ! 0) (SECTION_OFFSETS ! 1) (SECTION_OFFSETS ! 3))
       [0..<MERGE_COUNT]"
    "\<forall>i < 32. MERGE_DIGEST ! i = sha_reference c (canonical_merges bs (SECTION_OFFSETS ! 0)
       (SECTION_OFFSETS ! 1) (SECTION_OFFSETS ! 3) [0..<MERGE_COUNT]) ! i"
    "SECTION_OFFSETS ! 1 + TOKEN_BYTES \<le> length bs"
proof -
  note open_facts = open_Inr [OF assms]
  show "v = frozen_view bs" using open_facts(1) by (simp add: frozen_view_def)
  from open_facts(7) have tokens: "validate_tokens c bs (SECTION_OFFSETS ! 0) (SECTION_OFFSETS ! 1)
      (SECTION_OFFSETS ! 2) = Inr ()"
    and merges: "validate_merges c bs (SECTION_OFFSETS ! 0) (SECTION_OFFSETS ! 1)
      (SECTION_OFFSETS ! 3) = Inr ()"
    by (auto simp: validate_tokenizer_def Let_def bind_result_Inr)
  show room: "SECTION_OFFSETS ! 1 + TOKEN_BYTES \<le> length bs"
    using section_room [of 1] open_facts(2) by (simp add: SECTION_LENGTHS_def TOKEN_BYTES_def)
  note tokens = validate_tokens_Inr [OF tokens]
  show "token_start bs (SECTION_OFFSETS ! 0) 0 = 0"
    "token_start bs (SECTION_OFFSETS ! 0) VOCAB_COUNT = TOKEN_BYTES"
    "\<forall>i < 32. TOKEN_DIGEST ! i = sha_reference c
       (canonical_tokens bs (SECTION_OFFSETS ! 0) (SECTION_OFFSETS ! 1) [0..<VOCAB_COUNT]) ! i"
    "\<forall>i < 32. TYPE_DIGEST ! i = sha_reference c
       (canonical_types bs (SECTION_OFFSETS ! 2) [0..<VOCAB_COUNT]) ! i"
    and ok: "\<forall>j < VOCAB_COUNT.
      token_ok bs (SECTION_OFFSETS ! 0) (SECTION_OFFSETS ! 1) (SECTION_OFFSETS ! 2) j"
    using tokens by simp_all
  show "list_all (merge_ok bs (SECTION_OFFSETS ! 0) (SECTION_OFFSETS ! 1) (SECTION_OFFSETS ! 3))
       [0..<MERGE_COUNT]"
    "\<forall>i < 32. MERGE_DIGEST ! i = sha_reference c (canonical_merges bs (SECTION_OFFSETS ! 0)
       (SECTION_OFFSETS ! 1) (SECTION_OFFSETS ! 3) [0..<MERGE_COUNT]) ! i"
    using validate_merges_Inr [OF merges ok room] by simp_all
qed

lemma open_token_facts:
  assumes "open_authenticated c address bs = Inr v" and "tid < VOCAB_COUNT"
  shows "token_bytes v tid = Inr (image_token bs tid)" "image_token bs tid \<noteq> []"
    "\<exists>points. from_utf8 (image_token bs tid) = Inr points"
    "case token_type v tid of Inl e \<Rightarrow> False | Inr ty \<Rightarrow> ty \<in> {1, 3, 4, 5}"
proof -
  note facts = open_tokens [OF assms(1)]
  have ok: "token_ok bs (SECTION_OFFSETS ! 0) (SECTION_OFFSETS ! 1) (SECTION_OFFSETS ! 2) tid"
    using facts(4) assms(2) by simp
  show "token_bytes v tid = Inr (image_token bs tid)"
    using assms(2) by (simp add: facts(1) token_bytes_frozen)
  have "0 < length (image_token bs tid)"
    using ok length_token_at [OF _ facts(9), of "SECTION_OFFSETS ! 0" tid]
    by (simp add: token_ok_def)
  then show "image_token bs tid \<noteq> []" by simp
  show "\<exists>points. from_utf8 (image_token bs tid) = Inr points"
    using ok by (auto simp: token_ok_def)
  show "case token_type v tid of Inl e \<Rightarrow> False | Inr ty \<Rightarrow> ty \<in> {1, 3, 4, 5}"
    using ok assms(2) by (simp add: facts(1) token_type_def token_ok_def)
qed

lemma open_merge_facts:
  assumes "open_authenticated c address bs = Inr v" and "rank < MERGE_COUNT"
  shows "\<exists>m. view_merge v rank = Inr m \<and> mg_rank m = rank \<and> mg_left m < VOCAB_COUNT \<and>
    mg_right m < VOCAB_COUNT \<and> mg_result m < 151643 \<and>
    image_token bs (mg_result m) = image_token bs (mg_left m) @ image_token bs (mg_right m)"
  using open_tokens(1,7) [OF assms(1)] assms(2)
  by (auto simp: view_merge_def merge_ok_def Let_def list_all_iff)

lemma expected_tensor_layer:
  assumes "layer < 24" and "10 \<le> role" and "role \<le> 21"
  shows "case expected_tensor (1 + layer * 12 + (role - 10)) of (l, r, _) \<Rightarrow> l = layer \<and> r = role"
proof -
  define slot where "slot = role - 10"
  have slot: "slot < 12" "role = slot + 10" using assms by (simp_all add: slot_def)
  have "(layer * 12 + slot) div 12 = layer" "(layer * 12 + slot) mod 12 = slot"
    using slot by simp_all
  moreover have "layer * 12 + slot < 288" using assms slot by simp
  moreover have "slot \<in> {0, 1, 2, 3, 4, 5, 6, 7, 8, 9, 10, 11}"
    unfolding insert_iff empty_iff using slot(1) by presburger
  ultimately show ?thesis
    unfolding slot_def [symmetric] slot(2) expected_tensor_def
    by (auto simp: Let_def)
qed

lemma open_tensor_facts:
  assumes "open_authenticated c address bs = Inr v" and "tid < TENSOR_COUNT"
  shows "view_tensor v tid = Inr (tensor_meta_at bs tid,
      slice bs (tensor_boundary bs tid) (tensor_boundary bs (Suc tid)))"
    "tensor_boundary bs tid \<le> tensor_boundary bs (Suc tid)"
    "check_tensor bs (tensor_boundary bs tid) tid = Inr ()"
proof -
  note facts = validate_tensors_Inr [OF open_Inr(6) [OF assms(1)]]
  show check: "check_tensor bs (tensor_boundary bs tid) tid = Inr ()"
    using facts assms(2) by auto
  then have off: "tm_offset (tensor_meta_at bs tid) = tensor_boundary bs tid"
    using check_tensor_Inr [OF check] by simp
  then show "tensor_boundary bs tid \<le> tensor_boundary bs (Suc tid)"
    by (simp add: tensor_boundary_def)
  show "view_tensor v tid = Inr (tensor_meta_at bs tid,
      slice bs (tensor_boundary bs tid) (tensor_boundary bs (Suc tid)))"
    using assms(2) off open_tokens(1) [OF assms(1)]
    by (simp add: view_tensor_def Let_def) (simp add: tensor_boundary_def)
qed

lemma open_tensor_length:
  assumes "open_authenticated c address bs = Inr v" and tid: "tid < TENSOR_COUNT"
  shows "length (slice bs (tensor_boundary bs tid) (tensor_boundary bs (Suc tid))) =
    tm_length (tensor_meta_at bs tid)"
proof -
  note tensor = open_tensor_facts [OF assms(1)]
  have ends: "tensor_boundary bs TENSOR_COUNT = IMAGE_BYTES"
    using validate_tensors_Inr [OF open_Inr(6) [OF assms(1)]] by simp
  have mono: "tensor_boundary bs j \<le> tensor_boundary bs TENSOR_COUNT" if "j \<le> TENSOR_COUNT" for j
    using that by (induction rule: inc_induct) (auto intro: order_trans dest: tensor(2))
  have "tensor_boundary bs (Suc tid) - tensor_boundary bs tid = tm_length (tensor_meta_at bs tid)"
    using check_tensor_Inr [OF tensor(3) [OF tid]] by (simp add: tensor_boundary_def)
  then show ?thesis
    using mono [of "Suc tid"] tid ends open_Inr(2) [OF assms(1)] by (simp add: length_slice_min)
qed

section \<open>Properties\<close>

text \<open>
  An opened image has the frozen layout: the view keeps the bytes, every section is a full
  slice of its fixed length at its fixed 64-byte aligned offset, the sections do not overlap,
  the bytes between them are zero, and the last one ends where the image ends.
\<close>

theorem opened_image_sections:
  "case open_authenticated c address bs of
     Inl e \<Rightarrow> True
   | Inr v \<Rightarrow> mv_bytes v = bs \<and> length bs = IMAGE_BYTES \<and> address mod 64 = 0 \<and>
       mv_config v = CONFIG \<and> gap_start 7 = IMAGE_BYTES \<and>
       list_all (\<lambda>k. case view_section v (Suc k) of
           Inl e \<Rightarrow> False
         | Inr s \<Rightarrow> length s = SECTION_LENGTHS ! k \<and> SECTION_OFFSETS ! k mod 64 = 0 \<and>
             gap_start k \<le> SECTION_OFFSETS ! k \<and>
             list_all (\<lambda>at. bs ! at = 0) [gap_start k..<SECTION_OFFSETS ! k]) [0..<7]"
proof (cases "open_authenticated c address bs")
  case (Inr v)
  note facts = open_Inr [OF Inr]
  have "open_sections bs [0..<7] (gap_start 0) [] = Inr (IMAGE_BYTES, frozen_sections)"
    using facts(5) by (simp add: gap_start_def)
  note gaps = open_sections_gaps [OF this]
  have "case view_section v (Suc k) of
           Inl e \<Rightarrow> False
         | Inr s \<Rightarrow> length s = SECTION_LENGTHS ! k \<and> SECTION_OFFSETS ! k mod 64 = 0 \<and>
             gap_start k \<le> SECTION_OFFSETS ! k \<and>
             list_all (\<lambda>at. bs ! at = 0) [gap_start k..<SECTION_OFFSETS ! k]" if "k < 7" for k
    using that gaps section_room [OF that] facts(2)
    by (simp add: open_tokens(1) [OF Inr] view_section_frozen length_slice_min)
  then show ?thesis
    using facts(2,3) gap_start_7 open_tokens(1) [OF Inr]
    by (simp add: Inr list_all_iff del: upt_rec_numeral)
qed simp

text \<open>
  C18: The tensors of an opened image are the expected ones and tile the data section: every tensor of
  the directory has its own identifier, the layer, role, type, rank and dimensions of the schema, a
  64-byte aligned offset, the length that its type and dimensions require, and data of exactly this
  length; the data of all 291 tensors, in order, is the data section.
\<close>

theorem opened_image_tensors_tile:
  "case open_authenticated c address bs of
     Inl e \<Rightarrow> True
   | Inr v \<Rightarrow>
       list_all (\<lambda>tid. case view_tensor v tid of
           Inl e \<Rightarrow> False
         | Inr (meta, data) \<Rightarrow> tm_id meta = tid \<and> tm_offset meta mod 64 = 0 \<and>
             (tm_layer meta, tm_role meta, tm_dtype meta, tm_rank meta, tm_dims meta) = tensor_schema tid \<and>
             length data = tm_length meta \<and> tm_elements meta = prod_list (tm_dims meta) \<and>
             tm_length meta = tensor_bytes (tm_dtype meta) (tm_elements meta)) [0..<TENSOR_COUNT]
       \<and> Inr (concat (map (\<lambda>tid. snd (projr (view_tensor v tid))) [0..<TENSOR_COUNT]))
           = view_section v 7"
proof (cases "open_authenticated c address bs")
  case (Inr v)
  note tensor = open_tensor_facts [OF Inr]
  have ends: "tensor_boundary bs TENSOR_COUNT = IMAGE_BYTES"
    using validate_tensors_Inr [OF open_Inr(6) [OF Inr]] by simp
  have each: "case view_tensor v tid of
           Inl e \<Rightarrow> False
         | Inr (meta, data) \<Rightarrow> tm_id meta = tid \<and> tm_offset meta mod 64 = 0 \<and>
             (tm_layer meta, tm_role meta, tm_dtype meta, tm_rank meta, tm_dims meta) = tensor_schema tid \<and>
             length data = tm_length meta \<and> tm_elements meta = prod_list (tm_dims meta) \<and>
             tm_length meta = tensor_bytes (tm_dtype meta) (tm_elements meta)"
    if tid: "tid < TENSOR_COUNT" for tid
    using check_tensor_Inr [OF tensor(3) [OF tid]] check_tensor_schema [OF tensor(3) [OF tid]]
      tensor(1) [OF tid] open_tensor_length [OF Inr tid]
    by (auto split: prod.splits)
  have "concat (map (\<lambda>tid. snd (projr (view_tensor v tid))) [0..<TENSOR_COUNT]) =
      concat (map (\<lambda>tid. slice bs (tensor_boundary bs tid) (tensor_boundary bs (Suc tid)))
        [0..<TENSOR_COUNT])"
    by (intro arg_cong [where f = concat] map_cong) (simp_all add: tensor(1))
  also have "\<dots> = slice bs (tensor_boundary bs 0) (tensor_boundary bs TENSOR_COUNT)"
    using concat_slices [of TENSOR_COUNT "tensor_boundary bs" bs] tensor(2) by simp
  also have "Inr \<dots> = view_section v 7"
    using view_section_frozen [of 6 bs] ends
    by (simp add: open_tokens(1) [OF Inr] tensor_boundary_def SECTION_OFFSETS_def
        SECTION_LENGTHS_def IMAGE_BYTES_def)
  finally show ?thesis
    using each by (simp add: Inr list_all_iff del: upt_rec_numeral)
qed simp

text \<open>
  Tensors are found by layer and role: in an opened image the lookup succeeds for every role
  of the 24 layers and for the three global roles, and the directory entry it returns has
  exactly the layer and the role asked for.
\<close>

theorem tensor_for_finds_role:
  "case open_authenticated c address bs of
     Inl e \<Rightarrow> True
   | Inr v \<Rightarrow> list_all (\<lambda>(layer, role). case tensor_for v layer role of
         Inl e \<Rightarrow> False
       | Inr (meta, data) \<Rightarrow> tm_layer meta = layer \<and> tm_role meta = role)
       (List.product [0..<24] [10..<22] @ [(0xffff, 1), (0xffff, 2), (0xffff, 3)])"
proof (cases "open_authenticated c address bs")
  case (Inr v)
  have found: "case view_tensor v tid of
         Inl e \<Rightarrow> False
       | Inr (meta, data) \<Rightarrow> (case expected_tensor tid of (layer, role, _) \<Rightarrow>
           tm_layer meta = layer \<and> tm_role meta = role)" if tid: "tid < TENSOR_COUNT" for tid
    using check_tensor_Inr [OF open_tensor_facts(3) [OF Inr tid]] open_tensor_facts(1) [OF Inr tid]
    by (auto split: prod.splits)
  have layers: "case tensor_for v layer role of
         Inl e \<Rightarrow> False
       | Inr (meta, data) \<Rightarrow> tm_layer meta = layer \<and> tm_role meta = role"
    if role: "layer < 24" "10 \<le> role" "role < 22" for layer role
  proof -
    define tid where "tid = 1 + layer * 12 + (role - 10)"
    have "tid < TENSOR_COUNT" using role by (simp add: tid_def TENSOR_COUNT_def)
    moreover have "tensor_for v layer role = view_tensor v tid"
      using role by (simp add: tensor_for_def tensor_id_for_def tid_def)
    moreover have "case expected_tensor tid of (l, r, _) \<Rightarrow> l = layer \<and> r = role"
      unfolding tid_def using role by (intro expected_tensor_layer) simp_all
    ultimately show ?thesis
      using found [of tid] by (auto split: sum.splits prod.splits)
  qed
  moreover have "case tensor_for v 0xffff role of
         Inl e \<Rightarrow> False
       | Inr (meta, data) \<Rightarrow> tm_layer meta = 0xffff \<and> tm_role meta = role" if "role \<in> {1, 2, 3}" for role
    using found [of 0] found [of 289] found [of 290] that
    by (auto simp: tensor_for_def tensor_id_for_def TENSOR_COUNT_def expected_tensor_def
        split: sum.splits)
  ultimately show ?thesis
    by (auto simp: Inr list_all_iff simp del: upt_rec_numeral)
qed simp

text \<open>
  C19: The vocabulary of an opened image is well formed: every token has at least one byte and
  is valid UTF-8, the tokens in order are exactly the token section, every token type is one of
  the four known ones, and every merge names existing tokens whose bytes, joined, are the bytes
  of its result.
\<close>

theorem opened_image_vocabulary:
  "case open_authenticated c address bs of
     Inl e \<Rightarrow> True
   | Inr v \<Rightarrow>
       list_all (\<lambda>tid. (case token_bytes v tid of
           Inl e \<Rightarrow> False
         | Inr token \<Rightarrow> token \<noteq> [] \<and> (case from_utf8 token of Inl n \<Rightarrow> False | Inr points \<Rightarrow> True)) \<and>
         (case token_type v tid of Inl e \<Rightarrow> False | Inr ty \<Rightarrow> ty \<in> {1, 3, 4, 5})) [0..<VOCAB_COUNT]
       \<and> Inr (concat (map (\<lambda>tid. projr (token_bytes v tid)) [0..<VOCAB_COUNT])) = view_section v 2
       \<and> list_all (\<lambda>rank. case view_merge v rank of
           Inl e \<Rightarrow> False
         | Inr m \<Rightarrow> token_bytes v (mg_result m) =
             bind_result (token_bytes v (mg_left m)) (\<lambda>left.
               bind_result (token_bytes v (mg_right m)) (\<lambda>right. Inr (left @ right))))
         [0..<MERGE_COUNT]"
proof (cases "open_authenticated c address bs")
  case (Inr v)
  note tok = open_token_facts [OF Inr]
  note facts = open_tokens [OF Inr]
  let ?start = "token_start bs (SECTION_OFFSETS ! 0)"
  have mono: "?start j \<le> ?start (Suc j)" if "j < VOCAB_COUNT" for j
    using facts(4) that by (auto simp: token_ok_def)
  have "concat (map (\<lambda>tid. projr (token_bytes v tid)) [0..<VOCAB_COUNT]) =
      concat (map (\<lambda>tid. slice bs (SECTION_OFFSETS ! 1 + ?start tid)
        (SECTION_OFFSETS ! 1 + ?start (Suc tid))) [0..<VOCAB_COUNT])"
    by (intro arg_cong [where f = concat] map_cong)
      (simp_all add: tok(1) token_at_def token_slice_def)
  also have "\<dots> = slice bs (SECTION_OFFSETS ! 1 + ?start 0) (SECTION_OFFSETS ! 1 + ?start VOCAB_COUNT)"
    using concat_slices [of VOCAB_COUNT "\<lambda>j. SECTION_OFFSETS ! 1 + ?start j" bs] mono by simp
  also have "Inr \<dots> = view_section v 2"
    using view_section_frozen [of 1 bs] facts(1,2,3)
    by (simp add: SECTION_LENGTHS_def TOKEN_BYTES_def numeral_2_eq_2)
  finally have concat: "Inr (concat (map (\<lambda>tid. projr (token_bytes v tid)) [0..<VOCAB_COUNT])) =
      view_section v 2" .
  have merges: "case view_merge v rank of
           Inl e \<Rightarrow> False
         | Inr m \<Rightarrow> token_bytes v (mg_result m) =
             bind_result (token_bytes v (mg_left m)) (\<lambda>left.
               bind_result (token_bytes v (mg_right m)) (\<lambda>right. Inr (left @ right)))"
    if "rank < MERGE_COUNT" for rank
    using open_merge_facts [OF Inr that] tok(1) by (auto simp: VOCAB_COUNT_def)
  have tokens: "(case token_bytes v tid of
           Inl e \<Rightarrow> False
         | Inr token \<Rightarrow> token \<noteq> [] \<and> (case from_utf8 token of Inl n \<Rightarrow> False | Inr points \<Rightarrow> True)) \<and>
         (case token_type v tid of Inl e \<Rightarrow> False | Inr ty \<Rightarrow> ty \<in> {1, 3, 4, 5})"
    if "tid < VOCAB_COUNT" for tid
    using tok(2,3,4) [OF that] by (auto simp: tok(1) [OF that])
  show ?thesis
    using concat merges tokens by (simp add: Inr list_all_iff del: upt_rec_numeral)
qed simp

text \<open>
  An opened image is the authenticated one, as far as the digests say: the SHA-256 of the
  length-prefixed tokens, of the token types and of the merges written as text are the three
  frozen digests, computed by the block-wise reference.
\<close>

theorem opened_image_digests:
  "case open_authenticated c address bs of
     Inl e \<Rightarrow> True
   | Inr v \<Rightarrow>
       list_all (\<lambda>(expected, message). map ((!) (sha_reference c message)) [0..<32] = expected)
         [(TOKEN_DIGEST, concat (map (\<lambda>tid. let token = projr (token_bytes v tid)
             in le_bytes 8 (length token) @ token) [0..<VOCAB_COUNT])),
          (TYPE_DIGEST, concat (map (\<lambda>tid. le_bytes 8 (projr (token_type v tid)))
             [0..<VOCAB_COUNT])),
          (MERGE_DIGEST, concat (map (\<lambda>rank. let m = projr (view_merge v rank);
               left = projr (token_bytes v (mg_left m)); right = projr (token_bytes v (mg_right m))
             in le_bytes 8 (length left + 1 + length right) @ left @ [32] @ right)
             [0..<MERGE_COUNT]))]"
proof (cases "open_authenticated c address bs")
  case (Inr v)
  note facts = open_tokens [OF Inr]
  note tok = open_token_facts [OF Inr]
  have digest: "map ((!) actual) [0..<32] = expected"
    if "length expected = 32" "\<forall>i < 32. expected ! i = actual ! i" for expected actual :: bytes
    using that by (auto intro!: nth_equalityI simp del: upt_rec_numeral)
  have lengths: "length TOKEN_DIGEST = 32" "length TYPE_DIGEST = 32" "length MERGE_DIGEST = 32"
    by (simp_all add: TOKEN_DIGEST_def TYPE_DIGEST_def MERGE_DIGEST_def ascii_def)
  have tokens: "concat (map (\<lambda>tid. let token = projr (token_bytes v tid)
             in le_bytes 8 (length token) @ token) [0..<VOCAB_COUNT]) =
      canonical_tokens bs (SECTION_OFFSETS ! 0) (SECTION_OFFSETS ! 1) [0..<VOCAB_COUNT]"
    unfolding canonical_tokens_def
    by (intro arg_cong [where f = concat] map_cong) (simp_all add: tok(1))
  have types: "concat (map (\<lambda>tid. le_bytes 8 (projr (token_type v tid))) [0..<VOCAB_COUNT]) =
      canonical_types bs (SECTION_OFFSETS ! 2) [0..<VOCAB_COUNT]"
    unfolding canonical_types_def
    by (intro arg_cong [where f = concat] map_cong) (simp_all add: facts(1) token_type_def)
  have "concat (map (\<lambda>rank. let m = projr (view_merge v rank);
               left = projr (token_bytes v (mg_left m)); right = projr (token_bytes v (mg_right m))
             in le_bytes 8 (length left + 1 + length right) @ left @ [32] @ right)
             [0..<MERGE_COUNT]) =
      canonical_merges bs (SECTION_OFFSETS ! 0) (SECTION_OFFSETS ! 1) (SECTION_OFFSETS ! 3)
        [0..<MERGE_COUNT]"
    unfolding canonical_merges_def
    using facts(7) by (intro arg_cong [where f = concat] map_cong)
      (simp_all add: list_all_iff merge_ok_def Let_def facts(1) view_merge_def token_bytes_frozen)
  with tokens types show ?thesis
    using digest [OF lengths(1) facts(5)] digest [OF lengths(2) facts(6)]
      digest [OF lengths(3) facts(8)]
    by (simp add: Inr del: upt_rec_numeral)
qed simp

end
