(* ===== verification/PB_Index.thy ===== *)
theory PB_Index
  imports PB_Model
begin

text \<open>
  The tokenizer index of \<open>src/crates/promptboot-core/src/tokenizer.rs\<close>: the byte map, the open
  addressing hash table of the merges with linear probing, its construction
  (\<open>FrozenTokenizer::build\<close>, \<open>construct\<close>) and \<open>lookup\<close>. The index is the byte buffer of the
  code; a slot is the four little-endian words at \<open>slot * 16\<close>, and a left word of \<open>u32::MAX\<close>
  marks it empty.
\<close>

section \<open>Constants\<close>

definition INDEX_SIZE :: nat where "INDEX_SIZE = 4195328"
definition TABLE_BYTES :: nat where "TABLE_BYTES = 4194304"
definition TABLE_ENTRIES :: nat where "TABLE_ENTRIES = 262144"
definition BYTE_MAP_OFFSET :: nat where "BYTE_MAP_OFFSET = TABLE_BYTES"
definition NO_ENTRY :: nat where "NO_ENTRY = 0xffffffff"

definition INDEX_HASH :: bytes where
  "INDEX_HASH = hex_pairs (ascii
     ''393d697ecc53a12cb4ea6940f08bfbe8ba4f56bc0809a68fb28af3cbc87cc32a'')"

definition BYTE_MAP_HASH :: bytes where
  "BYTE_MAP_HASH = hex_pairs (ascii
     ''686aa5b5be47b58e8b4eee7a5632994d9e3dd851c3f69b7ddfabc39e19aa755a'')"

record tokenizer_usage =
  tu_capacity :: nat
  tu_requested :: nat
  tu_committed :: nat
  tu_current :: nat
  tu_high_water :: nat

record tokenizer =
  tk_model :: model_view
  tk_index :: bytes
  tk_usage :: tokenizer_usage

definition put_u32 :: "bytes \<Rightarrow> nat \<Rightarrow> nat \<Rightarrow> bytes" where
  "put_u32 bs at v = write_at bs at (le_bytes 4 v)"

section \<open>The hash table\<close>

definition hash_slot :: "nat \<Rightarrow> nat \<Rightarrow> nat" where
  "hash_slot left right =
     (let key = push_bit 32 (of_nat left) OR of_nat right :: u64
      in unat (drop_bit 46 (key * 0x9e3779b97f4a7c15)))"

definition slot_of :: "nat \<Rightarrow> nat \<Rightarrow> nat" where
  "slot_of initial displacement = (initial + displacement) mod TABLE_ENTRIES"

text \<open>The probe loop of \<open>lookup\<close>: at most 51 slots.\<close>

fun probe :: "bytes \<Rightarrow> nat \<Rightarrow> nat \<Rightarrow> nat \<Rightarrow> nat \<Rightarrow> nat \<Rightarrow> (nat \<times> nat) option \<times> nat" where
  "probe index left right initial displacement 0 = (None, displacement)"
| "probe index left right initial displacement (Suc n) =
     (let at = slot_of initial displacement * 16; found_left = u32_at index at in
      if found_left = NO_ENTRY then (None, displacement + 1)
      else if found_left = left \<and> u32_at index (at + 4) = right
      then (Some (u32_at index (at + 8), u32_at index (at + 12)), displacement + 1)
      else probe index left right initial (displacement + 1) n)"

definition index_lookup :: "bytes \<Rightarrow> nat \<Rightarrow> nat \<Rightarrow> (nat \<times> nat) option \<times> nat" where
  "index_lookup index left right = probe index left right (hash_slot left right) 0 51"

definition index_error :: "field_kind \<Rightarrow> nat \<Rightarrow> nat \<Rightarrow> model_error" where
  "index_error kind expected actual =
     model_fail MS_INDEX_CORRUPT ED_INDEX 0 0 expected actual kind 0"

definition first_hash_error :: "bytes \<Rightarrow> bytes \<Rightarrow> nat \<Rightarrow> model_error option" where
  "first_hash_error expected actual off =
     digest_mismatch MS_INDEX_CORRUPT ED_INDEX 0 (of_nat off) expected actual FK_INDEX_HASH_BYTE"

text \<open>The insertion loop of \<open>construct\<close>; it returns the displacement at which the merge went in.\<close>

function insert_from :: "bytes \<Rightarrow> merge_entry \<Rightarrow> nat \<Rightarrow> model_error + bytes \<times> nat" where
  "insert_from prefix m displacement =
     (if displacement \<ge> TABLE_ENTRIES
      then Inl (index_error FK_INDEX_MISS_BOUND 51 displacement)
      else
        let at = slot_of (hash_slot (mg_left m) (mg_right m)) displacement * 16;
            left = u32_at prefix at
        in if left = NO_ENTRY
           then Inr (put_u32 (put_u32 (put_u32 (put_u32 prefix at (mg_left m))
                  (at + 4) (mg_right m)) (at + 8) (mg_result m)) (at + 12) (mg_rank m),
                displacement)
           else if left = mg_left m \<and> u32_at prefix (at + 4) = mg_right m
           then Inl (model_fail MS_TOKENIZER_SCHEMA ED_MERGE (mg_rank m) 0
                  (u32_at prefix (at + 12)) (mg_rank m) FK_MERGE_DUPLICATE 0)
           else insert_from prefix m (displacement + 1))"
  by pat_completeness auto
termination by (relation "measure (\<lambda>(_, _, displacement). TABLE_ENTRIES - displacement)") auto

declare insert_from.simps [simp del]

fun insert_merges :: "model_view \<Rightarrow> nat list \<Rightarrow> bytes \<Rightarrow> nat \<Rightarrow> model_error + bytes \<times> nat" where
  "insert_merges v [] prefix max_displacement = Inr (prefix, max_displacement)"
| "insert_merges v (rank # ranks) prefix max_displacement =
     bind_result (view_merge v rank) (\<lambda>m.
     bind_result (insert_from prefix m 0) (\<lambda>(prefix, displacement).
       insert_merges v ranks prefix
         (if displacement > max_displacement then displacement else max_displacement)))"

text \<open>The longest run of occupied slots, found in two turns around the table.\<close>

fun cluster_loop :: "bytes \<Rightarrow> nat list \<Rightarrow> nat \<Rightarrow> nat \<Rightarrow> nat" where
  "cluster_loop prefix [] current max_cluster = max_cluster"
| "cluster_loop prefix (slot # slots) current max_cluster =
     (let occupied = u32_at prefix (slot mod TABLE_ENTRIES * 16) \<noteq> NO_ENTRY;
          current = (if occupied then current + 1 else 0);
          max_cluster = (if occupied \<and> current > max_cluster then current else max_cluster)
      in if slot \<ge> TABLE_ENTRIES \<and> current = 0 then max_cluster
         else cluster_loop prefix slots current max_cluster)"

fun max_hit_loop :: "model_view \<Rightarrow> bytes \<Rightarrow> nat list \<Rightarrow> nat \<Rightarrow> model_error + nat" where
  "max_hit_loop v prefix [] max_hit = Inr max_hit"
| "max_hit_loop v prefix (rank # ranks) max_hit =
     bind_result (view_merge v rank) (\<lambda>m.
       let probes = snd (index_lookup prefix (mg_left m) (mg_right m))
       in max_hit_loop v prefix ranks (if probes > max_hit then probes else max_hit))"

section \<open>The byte map\<close>

definition printable :: "nat \<Rightarrow> bool" where
  "printable b \<longleftrightarrow> (0x21 \<le> b \<and> b \<le> 0x7e) \<or> (0xa1 \<le> b \<and> b \<le> 0xac) \<or> (0xae \<le> b \<and> b \<le> 0xff)"

definition gpt2_codepoint :: "u8 \<Rightarrow> nat" where
  "gpt2_codepoint b =
     (if printable (unat b) then unat b
      else 256 + fold (\<lambda>candidate ordinal. if printable candidate then ordinal else ordinal + 1)
             [0..<unat b] 0)"

definition encoded_byte :: "u8 \<Rightarrow> bytes" where
  "encoded_byte b =
     (let point = gpt2_codepoint b in
      if point < 0x80 then [of_nat point]
      else [0xc0 OR of_nat (point div 64), 0x80 OR of_nat (point mod 64)])"

text \<open>One token of the scan: the first token that spells a byte is taken for it.\<close>

definition note_piece :: "nat \<Rightarrow> bytes \<Rightarrow> nat list \<Rightarrow> nat list" where
  "note_piece token piece byte_ids =
     (if length piece \<le> 2
      then map (\<lambda>b. if byte_ids ! b = NO_ENTRY \<and> piece = encoded_byte (of_nat b) then token
                    else byte_ids ! b) [0..<256]
      else byte_ids)"

fun scan_pieces :: "model_view \<Rightarrow> nat list \<Rightarrow> nat list \<Rightarrow> model_error + nat list" where
  "scan_pieces v [] byte_ids = Inr byte_ids"
| "scan_pieces v (token # tokens) byte_ids =
     bind_result (token_bytes v token) (\<lambda>piece.
       scan_pieces v tokens (note_piece token piece byte_ids))"

fun write_byte_map :: "nat list \<Rightarrow> nat list \<Rightarrow> bytes \<Rightarrow> model_error + bytes" where
  "write_byte_map byte_ids [] prefix = Inr prefix"
| "write_byte_map byte_ids (b # rest) prefix =
     (if byte_ids ! b = NO_ENTRY
      then Inl (model_fail MS_STATE ED_INDEX b 0 1 0 FK_STATE_FIELD 0)
      else write_byte_map byte_ids rest (put_u32 prefix (BYTE_MAP_OFFSET + b * 4) (byte_ids ! b)))"

section \<open>Construction\<close>

definition construct :: "cpu \<Rightarrow> model_view \<Rightarrow> bytes \<Rightarrow> model_error + bytes" where
  "construct c v prefix =
     bind_result (scan_pieces v [0..<VOCAB_COUNT] (replicate 256 NO_ENTRY)) (\<lambda>byte_ids.
     bind_result (write_byte_map byte_ids [0..<256] prefix) (\<lambda>prefix.
     bind_result (insert_merges v [0..<MERGE_COUNT] prefix 0) (\<lambda>(prefix, max_displacement).
     bind_result (require (max_displacement = 42)
       (index_error FK_INDEX_MAX_DISPLACEMENT 42 max_displacement)) (\<lambda>_.
     let max_cluster = cluster_loop prefix [0..<TABLE_ENTRIES * 2] 0 0 in
     bind_result (require (max_cluster = 50)
       (index_error FK_INDEX_MAX_CLUSTER 50 max_cluster)) (\<lambda>_.
     bind_result (max_hit_loop v prefix [0..<MERGE_COUNT] 0) (\<lambda>max_hit.
     bind_result (require (max_hit = 43) (index_error FK_INDEX_HIT_BOUND 43 max_hit)) (\<lambda>_.
     bind_result (require (max_cluster + 1 = 51)
       (index_error FK_INDEX_MISS_BOUND 51 (max_cluster + 1))) (\<lambda>_.
     bind_result (none_or (first_hash_error BYTE_MAP_HASH
       (sha_digest c (slice prefix BYTE_MAP_OFFSET INDEX_SIZE)) BYTE_MAP_OFFSET)) (\<lambda>_.
     bind_result (none_or (first_hash_error INDEX_HASH (sha_digest c prefix) 0)) (\<lambda>_.
     Inr prefix))))))))))"

text \<open>
  \<open>build\<close> with its storage and the address of the storage; the second component is the storage
  afterwards (zeroed when the construction fails).
\<close>

definition build ::
  "cpu \<Rightarrow> model_view \<Rightarrow> nat \<Rightarrow> bytes \<Rightarrow> (model_error + tokenizer) \<times> bytes" where
  "build c v address storage =
     (case bind_result (require (INDEX_SIZE \<le> length storage)
         (model_fail MS_INDEX_CAPACITY ED_INDEX 0 0 INDEX_SIZE (length storage) FK_CAPACITY 0)) (\<lambda>_.
       bind_result (require (address mod 64 = 0)
         (model_fail MS_INDEX_ALIGNMENT ED_INDEX 0 0 64 (address mod 64) FK_BASE_ALIGNMENT 0)) (\<lambda>_.
       bind_result (require (mc_vocab_count (mv_config v) = VOCAB_COUNT \<and>
           mc_merge_count (mv_config v) = MERGE_COUNT)
         (model_fail MS_STATE ED_INDEX 0 0 1 0 FK_STATE_FIELD 0)) (\<lambda>_.
       check_all (\<lambda>at. require (storage ! at = 0)
         (model_fail MS_STATE ED_INDEX 0 at 0 (unat (storage ! at)) FK_STATE_FIELD 1))
         [0..<INDEX_SIZE]))) of
        Inl e \<Rightarrow> (Inl e, storage)
      | Inr _ \<Rightarrow>
        let prefix = write_at (take INDEX_SIZE storage) 0 (replicate TABLE_BYTES 0xff);
            rest = drop INDEX_SIZE storage
        in case construct c v prefix of
             Inl e \<Rightarrow> (Inl e, replicate INDEX_SIZE 0 @ rest)
           | Inr prefix \<Rightarrow>
               (Inr \<lparr>tk_model = v, tk_index = prefix,
                  tk_usage = \<lparr>tu_capacity = length storage, tu_requested = INDEX_SIZE,
                    tu_committed = INDEX_SIZE, tu_current = INDEX_SIZE,
                    tu_high_water = INDEX_SIZE\<rparr>\<rparr>, prefix @ rest))"

section \<open>Words in a buffer\<close>

lemma length_put_u32 [simp]: "at + 4 \<le> length bs \<Longrightarrow> length (put_u32 bs at v) = length bs"
  by (simp add: put_u32_def)

lemma u32_at_less: "u32_at bs at < 2 ^ 32"
proof -
  have "length (slice bs at (at + 4)) \<le> 4" by (simp add: length_slice_min)
  then have "(256 :: nat) ^ length (slice bs at (at + 4)) \<le> 256 ^ 4" by (intro power_increasing) simp_all
  with le_value_less [of "slice bs at (at + 4)"] show ?thesis by (simp add: u32_at_def)
qed

lemma u32_at_put_same:
  "at + 4 \<le> length bs \<Longrightarrow> u32_at (put_u32 bs at v) at = v mod 2 ^ 32"
  using slice_write_at_same [of at "le_bytes 4 v" bs] le_value_le_bytes [of 4 v]
  by (simp add: u32_at_def put_u32_def)

lemma u32_at_put_other:
  "at + 4 \<le> length bs \<Longrightarrow> b + 4 \<le> at \<or> at + 4 \<le> b \<Longrightarrow> u32_at (put_u32 bs at v) b = u32_at bs b"
  using slice_write_at_disjoint [where i = at and xs = "le_bytes 4 v" and buf = bs and a = b
      and b = "b + 4"]
  by (simp add: u32_at_def put_u32_def)

section \<open>Slots\<close>

definition slot_entry :: "bytes \<Rightarrow> nat \<Rightarrow> merge_entry" where
  "slot_entry index s =
     \<lparr>mg_left = u32_at index (s * 16), mg_right = u32_at index (s * 16 + 4),
      mg_result = u32_at index (s * 16 + 8), mg_rank = u32_at index (s * 16 + 12)\<rparr>"

abbreviation occupied :: "bytes \<Rightarrow> nat \<Rightarrow> bool" where
  "occupied index s \<equiv> mg_left (slot_entry index s) \<noteq> NO_ENTRY"

definition merge_key :: "merge_entry \<Rightarrow> nat \<times> nat" where
  "merge_key m = (mg_left m, mg_right m)"

definition home :: "merge_entry \<Rightarrow> nat" where
  "home m = hash_slot (mg_left m) (mg_right m)"

definition put_entry :: "bytes \<Rightarrow> nat \<Rightarrow> merge_entry \<Rightarrow> bytes" where
  "put_entry index s m =
     put_u32 (put_u32 (put_u32 (put_u32 index (s * 16) (mg_left m)) (s * 16 + 4) (mg_right m))
       (s * 16 + 8) (mg_result m)) (s * 16 + 12) (mg_rank m)"

definition small_entry :: "merge_entry \<Rightarrow> bool" where
  "small_entry m \<longleftrightarrow> mg_left m < NO_ENTRY \<and> mg_right m < 2 ^ 32 \<and> mg_result m < 2 ^ 32 \<and>
     mg_rank m < 2 ^ 32"

lemma slot_less: "slot_of i d < TABLE_ENTRIES"
  by (simp add: slot_of_def TABLE_ENTRIES_def)

lemma table_room: "s < TABLE_ENTRIES \<Longrightarrow> s * 16 + 16 \<le> TABLE_BYTES"
  by (simp add: TABLE_ENTRIES_def TABLE_BYTES_def)

lemma put_entry_frame:
  assumes "s < TABLE_ENTRIES" and "TABLE_BYTES \<le> length index"
  shows "length (put_entry index s m) = length index"
    "b + 4 \<le> s * 16 \<or> s * 16 + 16 \<le> b \<Longrightarrow> u32_at (put_entry index s m) b = u32_at index b"
  using table_room [OF assms(1)] assms(2)
  by (auto simp: put_entry_def u32_at_put_other)

lemma slot_entry_put:
  assumes "s < TABLE_ENTRIES" and "TABLE_BYTES \<le> length index" and "small_entry m"
  shows "slot_entry (put_entry index s m) s' = (if s' = s then m else slot_entry index s')"
proof (cases "s' = s")
  case True
  then show ?thesis
    using table_room [OF assms(1)] assms(2,3)
    by (simp add: slot_entry_def put_entry_def u32_at_put_other u32_at_put_same small_entry_def
        NO_ENTRY_def)
next
  case False
  then have "s' * 16 + 16 \<le> s * 16 \<or> s * 16 + 16 \<le> s' * 16" by presburger
  then show ?thesis
    using False by (auto simp: slot_entry_def put_entry_frame(2) [OF assms(1,2)])
qed

lemma insert_from_Inr:
  "insert_from prefix m d = Inr (prefix', d') \<Longrightarrow>
     d \<le> d' \<and> d' < TABLE_ENTRIES \<and> \<not> occupied prefix (slot_of (home m) d') \<and>
     prefix' = put_entry prefix (slot_of (home m) d') m \<and>
     (\<forall>e. d \<le> e \<and> e < d' \<longrightarrow> occupied prefix (slot_of (home m) e) \<and>
        merge_key (slot_entry prefix (slot_of (home m) e)) \<noteq> merge_key m)"
proof (induction prefix m d rule: insert_from.induct)
  case (1 prefix m d)
  let ?at = "slot_of (home m) d * 16"
  show ?case
  proof (cases "d < TABLE_ENTRIES \<and> u32_at prefix ?at \<noteq> NO_ENTRY \<and>
      \<not> (u32_at prefix ?at = mg_left m \<and> u32_at prefix (?at + 4) = mg_right m)")
    case True
    then have step: "insert_from prefix m d = insert_from prefix m (d + 1)"
      by (subst insert_from.simps) (auto simp: Let_def home_def)
    have IH: "insert_from prefix m (d + 1) = Inr (prefix', d') \<Longrightarrow>
       d + 1 \<le> d' \<and> d' < TABLE_ENTRIES \<and> \<not> occupied prefix (slot_of (home m) d') \<and>
       prefix' = put_entry prefix (slot_of (home m) d') m \<and>
       (\<forall>e. d + 1 \<le> e \<and> e < d' \<longrightarrow> occupied prefix (slot_of (home m) e) \<and>
          merge_key (slot_entry prefix (slot_of (home m) e)) \<noteq> merge_key m)"
      using True by (intro "1.IH" [OF _ refl refl]) (auto simp: home_def)
    have here: "occupied prefix (slot_of (home m) d)"
      "merge_key (slot_entry prefix (slot_of (home m) d)) \<noteq> merge_key m"
      using True by (auto simp: slot_entry_def merge_key_def)
    show ?thesis
    proof (intro conjI allI impI)
      fix e assume "d \<le> e \<and> e < d'"
      then show "occupied prefix (slot_of (home m) e)"
        "merge_key (slot_entry prefix (slot_of (home m) e)) \<noteq> merge_key m"
        using IH here "1.prems" step by (cases "e = d"; auto)+
    qed (use IH "1.prems" step in auto)
  next
    case False
    then show ?thesis
      using "1.prems"
      by (subst (asm) insert_from.simps)
        (auto simp: Let_def home_def slot_entry_def put_entry_def split: if_splits)
  qed
qed

section \<open>The table is a map of the merges\<close>

text \<open>
  The invariant of linear probing without deletion: every merge inserted sits at some
  displacement from its home, all slots before it are occupied by other keys; every occupied
  slot holds an inserted merge; and the keys are distinct.
\<close>

definition sits_at :: "bytes \<Rightarrow> merge_entry \<Rightarrow> nat \<Rightarrow> bool" where
  "sits_at index m d \<longleftrightarrow>
     slot_entry index (slot_of (home m) d) = m \<and>
     (\<forall>e < d. occupied index (slot_of (home m) e) \<and>
        merge_key (slot_entry index (slot_of (home m) e)) \<noteq> merge_key m)"

definition table_inv :: "bytes \<Rightarrow> merge_entry list \<Rightarrow> nat \<Rightarrow> bool" where
  "table_inv index ms bound \<longleftrightarrow>
     TABLE_BYTES \<le> length index \<and>
     (\<forall>m \<in> set ms. small_entry m \<and> (\<exists>d \<le> bound. sits_at index m d)) \<and>
     (\<forall>s < TABLE_ENTRIES. occupied index s \<longrightarrow> slot_entry index s \<in> set ms) \<and>
     distinct (map merge_key ms)"

lemma table_inv_insert:
  assumes inv: "table_inv index ms bound" and small: "small_entry m"
    and ins: "insert_from index m 0 = Inr (index', d)"
  shows "table_inv index' (ms @ [m]) (max bound d) \<and> length index' = length index \<and>
    (\<forall>b \<ge> TABLE_BYTES. u32_at index' b = u32_at index b)"
proof -
  let ?s = "slot_of (home m) d"
  note facts = insert_from_Inr [OF ins]
  have room: "TABLE_BYTES \<le> length index" using inv by (simp add: table_inv_def)
  have index': "index' = put_entry index ?s m" using facts by simp
  have entry: "slot_entry index' s = (if s = ?s then m else slot_entry index s)" for s
    unfolding index' by (rule slot_entry_put [OF slot_less room small])
  have empty: "\<not> occupied index ?s" using facts by simp
  have m_occ: "mg_left m \<noteq> NO_ENTRY" using small by (simp add: small_entry_def)
  have old: "sits_at index' x e" if x: "x \<in> set ms" and sits: "sits_at index x e" for x e
  proof -
    have "mg_left x \<noteq> NO_ENTRY" using inv x by (auto simp: table_inv_def small_entry_def)
    then show ?thesis
      using sits empty unfolding sits_at_def entry by (auto simp: m_occ)
  qed
  have path: "\<forall>e < d. occupied index (slot_of (home m) e) \<and>
      merge_key (slot_entry index (slot_of (home m) e)) \<noteq> merge_key m"
    using facts by simp
  then have new: "sits_at index' m d"
    using empty by (auto simp: sits_at_def entry m_occ)
  have fresh: "merge_key x \<noteq> merge_key m" if x: "x \<in> set ms" for x
  proof
    assume key: "merge_key x = merge_key m"
    then have homes: "home x = home m" by (simp add: merge_key_def home_def)
    obtain e where e: "sits_at index x e" using inv x by (auto simp: table_inv_def)
    have at_e: "slot_entry index (slot_of (home m) e) = x"
      using e by (simp add: sits_at_def homes)
    consider "e < d" | "e = d" | "d < e" by linarith
    then show False
    proof cases
      case 1
      then show False using facts at_e key by auto
    next
      case 2
      then show False using empty at_e inv x by (auto simp: table_inv_def small_entry_def)
    next
      case 3
      then show False using e empty by (auto simp: sits_at_def homes)
    qed
  qed
  have "table_inv index' (ms @ [m]) (max bound d)"
    unfolding table_inv_def
  proof (intro conjI ballI allI impI)
    show "TABLE_BYTES \<le> length index'"
      using room put_entry_frame(1) [OF slot_less room] by (simp add: index')
    show "distinct (map merge_key (ms @ [m]))"
      using inv fresh by (force simp: table_inv_def)
    fix x assume x: "x \<in> set (ms @ [m])"
    then show "small_entry x" using inv small by (auto simp: table_inv_def)
    show "\<exists>e \<le> max bound d. sits_at index' x e"
    proof (cases "x \<in> set ms")
      case True
      then obtain e where "e \<le> bound" "sits_at index x e" using inv by (auto simp: table_inv_def)
      with old [OF True] show ?thesis by (auto intro!: exI [of _ e])
    next
      case False
      with x new show ?thesis by (auto intro!: exI [of _ d])
    qed
  next
    fix s assume "s < TABLE_ENTRIES" "occupied index' s"
    then show "slot_entry index' s \<in> set (ms @ [m])"
      using inv by (auto simp: entry table_inv_def)
  qed
  moreover have "u32_at index' b = u32_at index b" if "TABLE_BYTES \<le> b" for b
    unfolding index' using that table_room [OF slot_less, of "home m" d]
    by (intro put_entry_frame(2) [OF slot_less room]) linarith
  ultimately show ?thesis
    using put_entry_frame(1) [OF slot_less room] by (simp add: index')
qed

lemma probe_hit:
  assumes "sits_at index m d" and "k \<le> d" and "d < k + n" and "mg_left m \<noteq> NO_ENTRY"
  shows "fst (probe index (mg_left m) (mg_right m) (home m) k n) = Some (mg_result m, mg_rank m)"
  using assms(2,3)
proof (induction n arbitrary: k)
  case (Suc n)
  show ?case
  proof (cases "k = d")
    case True
    then have eq: "slot_entry index (slot_of (home m) k) = m"
      using assms(1) by (simp add: sits_at_def)
    have "u32_at index (slot_of (home m) k * 16) = mg_left m"
      "u32_at index (slot_of (home m) k * 16 + 4) = mg_right m"
      "u32_at index (slot_of (home m) k * 16 + 8) = mg_result m"
      "u32_at index (slot_of (home m) k * 16 + 12) = mg_rank m"
      using arg_cong [OF eq, of mg_left] arg_cong [OF eq, of mg_right]
        arg_cong [OF eq, of mg_result] arg_cong [OF eq, of mg_rank]
      by (simp_all add: slot_entry_def)
    then show ?thesis using assms(4) by (simp add: Let_def)
  next
    case False
    then have "occupied index (slot_of (home m) k)"
      "merge_key (slot_entry index (slot_of (home m) k)) \<noteq> merge_key m"
      using assms(1) Suc.prems by (auto simp: sits_at_def)
    then show ?thesis
      using Suc.IH [of "Suc k"] Suc.prems False
      by (auto simp: slot_entry_def merge_key_def Let_def)
  qed
qed simp

lemma probe_sound:
  "fst (probe index left right i k n) = Some (res, rank) \<Longrightarrow>
   \<exists>s < TABLE_ENTRIES. occupied index s \<and>
     slot_entry index s = \<lparr>mg_left = left, mg_right = right, mg_result = res, mg_rank = rank\<rparr>"
  by (induction n arbitrary: k)
    (auto simp: Let_def slot_entry_def split: if_splits
      intro!: exI [of _ "slot_of i k" for k] slot_less)

text \<open>Looking up a table that holds the merges \<open>ms\<close> finds exactly them.\<close>

lemma table_lookup:
  assumes "table_inv index ms bound" and "bound < 51"
  shows "fst (index_lookup index left right) = Some (res, rank) \<longleftrightarrow>
    \<lparr>mg_left = left, mg_right = right, mg_result = res, mg_rank = rank\<rparr> \<in> set ms"
proof
  assume "fst (index_lookup index left right) = Some (res, rank)"
  from probe_sound [OF this [unfolded index_lookup_def]] assms(1)
  show "\<lparr>mg_left = left, mg_right = right, mg_result = res, mg_rank = rank\<rparr> \<in> set ms"
    by (auto simp: table_inv_def)
next
  let ?m = "\<lparr>mg_left = left, mg_right = right, mg_result = res, mg_rank = rank\<rparr>"
  assume "?m \<in> set ms"
  then obtain d where "d \<le> bound" "sits_at index ?m d" "small_entry ?m"
    using assms(1) by (auto simp: table_inv_def)
  then show "fst (index_lookup index left right) = Some (res, rank)"
    using probe_hit [of index ?m d 0 51] assms(2)
    by (simp add: index_lookup_def home_def small_entry_def)
qed

section \<open>What a construction guarantees\<close>

lemma insert_merges_inv:
  assumes "insert_merges v ranks index bound = Inr (index', bound')"
    and "table_inv index ms bound"
    and "\<And>rank m. rank \<in> set ranks \<Longrightarrow> view_merge v rank = Inr m \<Longrightarrow> small_entry m"
  shows "table_inv index' (ms @ map (\<lambda>rank. projr (view_merge v rank)) ranks) bound' \<and>
    length index' = length index \<and> (\<forall>b \<ge> TABLE_BYTES. u32_at index' b = u32_at index b)"
  using assms
proof (induction ranks arbitrary: index ms bound)
  case Nil
  then show ?case by simp
next
  case (Cons rank ranks)
  from Cons.prems(1) obtain m index1 d where m: "view_merge v rank = Inr m"
    and ins: "insert_from index m 0 = Inr (index1, d)"
    and run: "insert_merges v ranks index1 (max bound d) = Inr (index', bound')"
    by (auto simp: bind_result_Inr max_def not_less split: if_splits)
  have small: "small_entry m" by (rule Cons.prems(3) [OF _ m]) simp
  note step = table_inv_insert [OF Cons.prems(2) small ins]
  have rest: "\<And>r x. r \<in> set ranks \<Longrightarrow> view_merge v r = Inr x \<Longrightarrow> small_entry x"
    by (rule Cons.prems(3)) simp_all
  have "table_inv index' ((ms @ [m]) @ map (\<lambda>rank. projr (view_merge v rank)) ranks) bound' \<and>
      length index' = length index1 \<and> (\<forall>b \<ge> TABLE_BYTES. u32_at index' b = u32_at index1 b)"
    by (rule Cons.IH [OF run conjunct1 [OF step]]) (rule rest)
  with step show ?case by (simp add: m)
qed

definition byte_ids_ok :: "model_view \<Rightarrow> nat list \<Rightarrow> bool" where
  "byte_ids_ok v ids \<longleftrightarrow> length ids = 256 \<and>
     (\<forall>b < 256. ids ! b = NO_ENTRY \<or> token_bytes v (ids ! b) = Inr (encoded_byte (of_nat b)))"

lemma scan_pieces_ok:
  "scan_pieces v tokens ids = Inr ids' \<Longrightarrow> byte_ids_ok v ids \<Longrightarrow> byte_ids_ok v ids'"
proof (induction tokens arbitrary: ids)
  case (Cons token tokens)
  from Cons.prems(1) obtain piece where piece: "token_bytes v token = Inr piece"
    and run: "scan_pieces v tokens (note_piece token piece ids) = Inr ids'"
    by (auto simp: bind_result_Inr)
  have "byte_ids_ok v (note_piece token piece ids)"
    using Cons.prems(2) piece by (auto simp: byte_ids_ok_def note_piece_def simp del: upt_rec_numeral)
  with Cons.IH [OF run] show ?case by simp
qed simp

lemma write_byte_map_Inr:
  assumes "write_byte_map ids [k..<n] index = Inr index'" and "k \<le> n"
    and "BYTE_MAP_OFFSET + n * 4 \<le> length index"
  shows "length index' = length index \<and>
    (\<forall>b. b + 4 \<le> BYTE_MAP_OFFSET + k * 4 \<longrightarrow> u32_at index' b = u32_at index b) \<and>
    (\<forall>j. k \<le> j \<and> j < n \<longrightarrow> ids ! j \<noteq> NO_ENTRY \<and>
       u32_at index' (BYTE_MAP_OFFSET + j * 4) = ids ! j mod 2 ^ 32)"
  using assms
proof (induction "n - k" arbitrary: k index)
  case 0
  then show ?case by auto
next
  case (Suc d)
  then have k: "k < n" by simp
  let ?at = "BYTE_MAP_OFFSET + k * 4"
  let ?index = "put_u32 index ?at (ids ! k)"
  have room: "?at + 4 \<le> length index" using Suc.prems(3) k by simp
  from Suc.prems(1) k have id_k: "ids ! k \<noteq> NO_ENTRY"
    and run: "write_byte_map ids [Suc k..<n] ?index = Inr index'"
    by (auto simp: upt_conv_Cons split: if_splits)
  have len: "BYTE_MAP_OFFSET + n * 4 \<le> length ?index" using Suc.prems(3) room by simp
  have k': "d = n - Suc k" "Suc k \<le> n" using Suc.hyps(2) k by simp_all
  note IH = Suc.hyps(1) [OF k'(1) run k'(2) len]
  have same: "u32_at index' ?at = ids ! k mod 2 ^ 32"
    using IH u32_at_put_same [OF room] by simp
  have before: "u32_at index' b = u32_at index b" if "b + 4 \<le> ?at" for b
    using IH that u32_at_put_other [OF room, of b] by simp
  show ?case
  proof (intro conjI allI impI)
    show "length index' = length index" using IH room by simp
    show "u32_at index' b = u32_at index b" if "b + 4 \<le> ?at" for b by (rule before [OF that])
    fix j assume "k \<le> j \<and> j < n"
    then show "ids ! j \<noteq> NO_ENTRY" "u32_at index' (BYTE_MAP_OFFSET + j * 4) = ids ! j mod 2 ^ 32"
      using IH id_k same by (cases "j = k"; simp)+
  qed
qed

text \<open>A table of \<open>0xff\<close> bytes is empty.\<close>

lemma empty_table:
  assumes "TABLE_BYTES \<le> length storage" and "table = write_at storage 0 (replicate TABLE_BYTES 0xff)"
  shows "length table = length storage" "s < TABLE_ENTRIES \<Longrightarrow> u32_at table (s * 16) = NO_ENTRY"
proof -
  show "length table = length storage" using assms by simp
  assume s: "s < TABLE_ENTRIES"
  have "slice table (s * 16) (s * 16 + 4) = [0xff, 0xff, 0xff, 0xff]"
  proof (rule nth_equalityI)
    show "length (slice table (s * 16) (s * 16 + 4)) = length [0xff, 0xff, 0xff, 0xff :: u8]"
      using assms table_room [OF s] by (simp add: length_slice_min)
    fix i assume "i < length (slice table (s * 16) (s * 16 + 4))"
    then have i: "i < 4" using assms table_room [OF s] by (simp add: length_slice_min)
    then have "slice table (s * 16) (s * 16 + 4) ! i = 0xff"
      using assms table_room [OF s] by (simp add: nth_slice nth_write_at)
    then show "slice table (s * 16) (s * 16 + 4) ! i = [0xff, 0xff, 0xff, 0xff] ! i"
      using i by (auto simp: nth_Cons split: nat.splits)
  qed
  then show "u32_at table (s * 16) = NO_ENTRY" by (simp add: u32_at_def NO_ENTRY_def)
qed

text \<open>The byte map as the tokenizer reads it.\<close>

definition byte_token :: "bytes \<Rightarrow> u8 \<Rightarrow> nat" where
  "byte_token index b = u32_at index (BYTE_MAP_OFFSET + unat b * 4)"

definition view_merges :: "model_view \<Rightarrow> merge_entry list" where
  "view_merges v = map (\<lambda>rank. projr (view_merge v rank)) [0..<MERGE_COUNT]"

lemma token_bytes_Inr_less: "token_bytes v tid = Inr t \<Longrightarrow> tid < VOCAB_COUNT"
  by (simp add: token_bytes_def split: if_splits)

lemma construct_Inr:
  assumes run: "construct c v prefix = Inr index"
    and len: "length prefix = INDEX_SIZE"
    and empty: "\<And>s. s < TABLE_ENTRIES \<Longrightarrow> u32_at prefix (s * 16) = NO_ENTRY"
    and small: "\<And>rank m. rank < MERGE_COUNT \<Longrightarrow> view_merge v rank = Inr m \<Longrightarrow> small_entry m"
  shows "length index = INDEX_SIZE \<and> table_inv index (view_merges v) 42 \<and>
    (\<forall>b. token_bytes v (byte_token index b) = Inr (encoded_byte b))"
proof -
  from run obtain ids prefix1 index' where
    scan: "scan_pieces v [0..<VOCAB_COUNT] (replicate 256 NO_ENTRY) = Inr ids"
    and bmap: "write_byte_map ids [0..<256] prefix = Inr prefix1"
    and ins: "insert_merges v [0..<MERGE_COUNT] prefix1 0 = Inr (index, 42)"
    by (auto simp: construct_def bind_result_Inr Let_def simp del: upt_rec_numeral)
  have ok: "byte_ids_ok v ids"
    by (rule scan_pieces_ok [OF scan]) (simp add: byte_ids_ok_def)
  have size: "BYTE_MAP_OFFSET + 256 * 4 \<le> length prefix"
    by (simp add: len BYTE_MAP_OFFSET_def TABLE_BYTES_def INDEX_SIZE_def)
  note map_facts = write_byte_map_Inr [OF bmap _ size]
  have slots: "u32_at prefix1 (s * 16) = NO_ENTRY" if "s < TABLE_ENTRIES" for s
    using map_facts empty [OF that] table_room [OF that] by (simp add: BYTE_MAP_OFFSET_def)
  have inv0: "table_inv prefix1 [] 0"
    using slots map_facts len
    by (auto simp: table_inv_def slot_entry_def TABLE_BYTES_def INDEX_SIZE_def)
  have final: "table_inv index ([] @ map (\<lambda>rank. projr (view_merge v rank)) [0..<MERGE_COUNT]) 42 \<and>
      length index = length prefix1 \<and> (\<forall>b \<ge> TABLE_BYTES. u32_at index b = u32_at prefix1 b)"
    by (rule insert_merges_inv [OF ins inv0]) (simp add: small)
  have "token_bytes v (byte_token index b) = Inr (encoded_byte b)" for b
  proof -
    have b: "unat b < 256" by (rule u8_less)
    have "token_bytes v (ids ! unat b) = Inr (encoded_byte b)"
      using ok b map_facts by (auto simp: byte_ids_ok_def)
    moreover from token_bytes_Inr_less [OF this] have "ids ! unat b mod 2 ^ 32 = ids ! unat b"
      by (simp add: VOCAB_COUNT_def)
    moreover have "byte_token index b = ids ! unat b mod 2 ^ 32"
      using final map_facts b by (simp add: byte_token_def BYTE_MAP_OFFSET_def)
    ultimately show ?thesis by simp
  qed
  then show ?thesis using final map_facts len by (simp add: view_merges_def)
qed

lemma build_Inr:
  assumes "fst (build c v address storage) = Inr tok"
    and small: "\<And>rank m. rank < MERGE_COUNT \<Longrightarrow> view_merge v rank = Inr m \<Longrightarrow> small_entry m"
  shows "tk_model tok = v \<and> length (tk_index tok) = INDEX_SIZE \<and>
    table_inv (tk_index tok) (view_merges v) 42 \<and>
    (\<forall>b. token_bytes v (byte_token (tk_index tok) b) = Inr (encoded_byte b))"
proof -
  let ?prefix = "write_at (take INDEX_SIZE storage) 0 (replicate TABLE_BYTES 0xff)"
  from assms(1) have room: "INDEX_SIZE \<le> length storage"
    and run: "construct c v ?prefix = Inr (tk_index tok)" and model: "tk_model tok = v"
    by (auto simp: build_def Let_def bind_result_Inr split: sum.splits)
  have "TABLE_BYTES \<le> length (take INDEX_SIZE storage)"
    using room by (simp add: TABLE_BYTES_def INDEX_SIZE_def)
  note table = empty_table [OF this refl]
  show ?thesis
    using construct_Inr [OF run _ table(2) small] table(1) room model by simp
qed

lemma open_merges_small:
  assumes "open_authenticated c address bs = Inr v" and "rank < MERGE_COUNT"
    and "view_merge v rank = Inr m"
  shows "small_entry m"
  using open_merge_facts [OF assms(1,2)] assms(2,3)
  by (auto simp: small_entry_def NO_ENTRY_def VOCAB_COUNT_def MERGE_COUNT_def)

text \<open>What an opened model and a built index give, for the clients.\<close>

lemma open_build:
  assumes "open_authenticated c address bs = Inr v" and "fst (build c v index_address storage) = Inr tok"
  shows "tk_model tok = v" "table_inv (tk_index tok) (view_merges v) 42"
    "image_token bs (byte_token (tk_index tok) b) = encoded_byte b"
    "byte_token (tk_index tok) b < VOCAB_COUNT"
proof -
  have facts: "tk_model tok = v" "table_inv (tk_index tok) (view_merges v) 42"
    "token_bytes v (byte_token (tk_index tok) b) = Inr (encoded_byte b)"
    using build_Inr [OF assms(2) open_merges_small [OF assms(1)]] by simp_all
  show "tk_model tok = v" "table_inv (tk_index tok) (view_merges v) 42" by (fact facts)+
  show less: "byte_token (tk_index tok) b < VOCAB_COUNT" by (rule token_bytes_Inr_less [OF facts(3)])
  show "image_token bs (byte_token (tk_index tok) b) = encoded_byte b"
    using open_token_facts(1) [OF assms(1) less] facts(3) by simp
qed

lemma open_lookup:
  assumes "open_authenticated c address bs = Inr v" and "fst (build c v index_address storage) = Inr tok"
  shows "fst (index_lookup (tk_index tok) left right) = Some (res, rank) \<longleftrightarrow>
    rank < MERGE_COUNT \<and> view_merge v rank =
      Inr \<lparr>mg_left = left, mg_right = right, mg_result = res, mg_rank = rank\<rparr>"
proof -
  have "\<lparr>mg_left = left, mg_right = right, mg_result = res, mg_rank = rank\<rparr> \<in> set (view_merges v)
      \<longleftrightarrow> rank < MERGE_COUNT \<and> view_merge v rank =
      Inr \<lparr>mg_left = left, mg_right = right, mg_result = res, mg_rank = rank\<rparr>" (is "?m \<in> _ \<longleftrightarrow> _")
  proof
    assume "?m \<in> set (view_merges v)"
    then obtain r where r: "r < MERGE_COUNT" "?m = projr (view_merge v r)"
      by (auto simp: view_merges_def simp del: upt_rec_numeral)
    obtain m where m: "view_merge v r = Inr m" "mg_rank m = r"
      using open_merge_facts [OF assms(1) r(1)] by auto
    then have "?m = m" using r(2) by simp
    with m r(1) show "rank < MERGE_COUNT \<and> view_merge v rank = Inr ?m" by auto
  next
    assume "rank < MERGE_COUNT \<and> view_merge v rank = Inr ?m"
    then show "?m \<in> set (view_merges v)"
      unfolding view_merges_def set_map set_upt by (intro image_eqI [of _ _ rank]) auto
  qed
  then show ?thesis
    using table_lookup [OF open_build(2) [OF assms], of left right res rank] by simp
qed

section \<open>Properties\<close>

text \<open>
  C10: The hash table is the merge table: for every opened model and every index built for it,
  and for every pair of tokens, a lookup answers with a result and a rank exactly when the
  merge of this rank joins the pair into this result; a lookup that answers none means that no
  merge joins the pair. The 51 probes are enough, and no two merges join the same pair.
\<close>

theorem index_is_merge_table:
  "case open_authenticated c address bs of
     Inl e \<Rightarrow> True
   | Inr v \<Rightarrow> (case fst (build c v index_address storage) of
       Inl e \<Rightarrow> True
     | Inr tok \<Rightarrow>
         distinct (map merge_key (view_merges v)) \<and>
         (case fst (index_lookup (tk_index tok) left right) of
            Some (res, rank) \<Rightarrow> view_merge v rank =
              Inr \<lparr>mg_left = left, mg_right = right, mg_result = res, mg_rank = rank\<rparr>
          | None \<Rightarrow> (left, right) \<notin> set (map merge_key (view_merges v))))"
proof (cases "open_authenticated c address bs")
  case opened: (Inr v)
  show ?thesis
  proof (cases "fst (build c v index_address storage)")
    case built: (Inr tok)
    note look = open_lookup [OF opened built]
    have "(left, right) \<notin> set (map merge_key (view_merges v))"
      if none: "fst (index_lookup (tk_index tok) left right) = None"
    proof
      assume "(left, right) \<in> set (map merge_key (view_merges v))"
      then obtain m where m: "m \<in> set (view_merges v)" "left = mg_left m" "right = mg_right m"
        by (auto simp: merge_key_def)
      then have "fst (index_lookup (tk_index tok) left right) = Some (mg_result m, mg_rank m)"
        using table_lookup [OF open_build(2) [OF opened built], of left right "mg_result m" "mg_rank m"]
        by (cases m rule: merge_entry.cases) simp
      with none show False by simp
    qed
    moreover have "distinct (map merge_key (view_merges v))"
      using open_build(2) [OF opened built] by (simp add: table_inv_def)
    ultimately show ?thesis
      using look by (auto simp: opened built split: option.split)
  qed (simp add: opened)
qed simp

text \<open>
  The byte map is complete and right: after a successful build every one of the 256 bytes
  has a token, and the bytes of this token are the GPT-2 spelling of the byte.
\<close>

theorem byte_map_spells_bytes:
  "case open_authenticated c address bs of
     Inl e \<Rightarrow> True
   | Inr v \<Rightarrow> (case fst (build c v index_address storage) of
       Inl e \<Rightarrow> True
     | Inr tok \<Rightarrow> token_bytes v (byte_token (tk_index tok) b) = Inr (encoded_byte b))"
proof (cases "open_authenticated c address bs")
  case opened: (Inr v)
  then show ?thesis
    using build_Inr [OF _ open_merges_small [OF opened]]
    by (fastforce simp: opened split: sum.split)
qed simp

end
