(* ===== verification/PB_Tokenizer.thy ===== *)
theory PB_Tokenizer
  imports PB_Index
begin

text \<open>
  \<open>src/crates/promptboot-core/src/tokenizer.rs\<close> from the request checks to \<open>decode_piece\<close>: the
  pre-tokenizer, byte pair merging on the scratch buffer, the chat template, the conversation
  with its history, and the decoding of a token. The scratch arena is the byte buffer of the
  code: staged tokens from 0, the current segment from 2,396, the rendered text from 4,444. A
  function that returns an error leaves its callers to clear the scratch, so its partial writes
  are not part of its result.
\<close>

section \<open>Constants and requests\<close>

definition TOKEN_SCRATCH :: nat where "TOKEN_SCRATCH = 5120"
definition STAGED_TOKENS :: nat where "STAGED_TOKENS = 0"
definition CURRENT_SEGMENT :: nat where "CURRENT_SEGMENT = 2396"
definition STAGED_RENDERED :: nat where "STAGED_RENDERED = 4444"
definition MAX_TOKENS :: nat where "MAX_TOKENS = 599"
definition MAX_SEGMENT :: nat where "MAX_SEGMENT = 512"
definition IM_START :: nat where "IM_START = 151644"
definition END_OF_TEXT :: nat where "END_OF_TEXT = 151643"
definition TOOL_CALL :: bytes where "TOOL_CALL = ascii ''<tool_call>''"
definition TOOL_END :: bytes where "TOOL_END = ascii ''</tool_call>''"

record prompt_usage =
  pu_rendered :: nat
  pu_tokens :: nat
  pu_prefix :: nat
  pu_im_start :: nat
  pu_im_end :: nat

record conversation_usage =
  cu_rendered :: nat
  cu_user :: nat
  cu_fresh :: nat
  cu_history :: nat
  cu_prompt :: nat
  cu_prefix :: nat

definition CONVERSATION_ZERO :: conversation_usage where
  "CONVERSATION_ZERO = \<lparr>cu_rendered = 0, cu_user = 0, cu_fresh = 0, cu_history = 0,
     cu_prompt = 0, cu_prefix = 0\<rparr>"

record prompt_computation =
  pc_rendered :: nat
  pc_tokens :: nat
  pc_prefix :: nat
  pc_user :: nat

definition user_byte_ok :: "u8 \<Rightarrow> bool" where
  "user_byte_ok b \<longleftrightarrow> 0x20 \<le> b \<and> b \<le> 0x7e"

definition validate_prompt_request ::
  "bytes \<Rightarrow> nat \<Rightarrow> nat \<Rightarrow> nat \<Rightarrow> nat \<Rightarrow> model_error + unit" where
  "validate_prompt_request user rendered_len token_len scratch_address scratch_len =
     bind_result (require (length user \<le> 512)
       (model_fail MS_LENGTH ED_USER 0 0 512 (length user) FK_CAPACITY 0)) (\<lambda>_.
     bind_result (check_all (\<lambda>at. require (user_byte_ok (user ! at))
       (model_fail MS_INPUT ED_USER at at 0x20007e (unat (user ! at)) FK_USER_BYTE 0))
       [0..<length user]) (\<lambda>_.
     bind_result (require (148 + length user \<le> rendered_len)
       (model_fail MS_OUTPUT_CAPACITY ED_RENDERED_OUTPUT 0 0 (148 + length user) rendered_len
         FK_CAPACITY 0)) (\<lambda>_.
     bind_result (require (MAX_TOKENS \<le> token_len)
       (model_fail MS_OUTPUT_CAPACITY ED_TOKEN_OUTPUT 0 0 MAX_TOKENS token_len FK_CAPACITY 0)) (\<lambda>_.
     bind_result (require (TOKEN_SCRATCH \<le> scratch_len)
       (model_fail MS_SCRATCH_CAPACITY ED_SCRATCH 0 0 TOKEN_SCRATCH scratch_len FK_CAPACITY 0)) (\<lambda>_.
     require (scratch_address mod 64 = 0)
       (model_fail MS_ALIGNMENT ED_SCRATCH 0 0 64 (scratch_address mod 64)
         FK_BASE_ALIGNMENT 0))))))"

definition validate_conversation_history :: "nat list \<Rightarrow> model_error + unit" where
  "validate_conversation_history history =
     require (\<not> (history = [] \<or> length history > IMAGE_CONTEXT \<or> last history \<noteq> IM_END))
       (model_fail MS_STATE ED_TOKEN_OUTPUT (length history - 1) 0 IM_END
         (if history = [] then 0 else last history) FK_STATE_FIELD 11)"

section \<open>Pre-tokens\<close>

definition is_letter :: "u8 \<Rightarrow> bool" where
  "is_letter b \<longleftrightarrow> (65 \<le> b \<and> b \<le> 90) \<or> (97 \<le> b \<and> b \<le> 122)"

definition is_digit :: "u8 \<Rightarrow> bool" where
  "is_digit b \<longleftrightarrow> 48 \<le> b \<and> b \<le> 57"

definition is_space :: "u8 \<Rightarrow> bool" where
  "is_space b \<longleftrightarrow> b \<in> {32, 9, 10, 13, 11, 12}"

definition is_punctuation :: "u8 \<Rightarrow> bool" where
  "is_punctuation b \<longleftrightarrow> \<not> is_space b \<and> \<not> is_letter b \<and> \<not> is_digit b"

definition is_newline :: "u8 \<Rightarrow> bool" where
  "is_newline b \<longleftrightarrow> b = 13 \<or> b = 10"

text \<open>An apostrophe and s, t, m, d, re, ve, ll in either case.\<close>

fun contraction_matches :: "bytes \<Rightarrow> bool" where
  "contraction_matches [a, b] = (a = 39 \<and> b \<in> {115, 83, 116, 84, 109, 77, 100, 68})"
| "contraction_matches [a, b, c] =
     (a = 39 \<and> ((b \<in> {114, 82} \<and> c \<in> {101, 69}) \<or> (b \<in> {118, 86} \<and> c \<in> {101, 69}) \<or>
       (b \<in> {108, 76} \<and> c \<in> {108, 76})))"
| "contraction_matches _ = False"

text \<open>A loop \<open>while end < text.len() && p(text[end])\<close>.\<close>

definition run_end :: "(u8 \<Rightarrow> bool) \<Rightarrow> bytes \<Rightarrow> nat \<Rightarrow> nat" where
  "run_end p input at = at + length (takeWhile p (drop at input))"

definition space_run :: "bytes \<Rightarrow> nat" where
  "space_run input =
     (let run = run_end is_space input 1;
          last_newline_end = fold (\<lambda>at e. if is_newline (input ! at) then at + 1 else e) [0..<run] 0
      in if last_newline_end \<noteq> 0 then last_newline_end
         else if run = length input then run
         else if run > 1 then run - 1 else run)"

definition pretoken_length :: "bytes \<Rightarrow> nat" where
  "pretoken_length input =
    (case find (\<lambda>n. length input \<ge> n \<and> contraction_matches (take n input)) [2, 2, 3, 3, 2, 3, 2] of
       Some n \<Rightarrow> n
     | None \<Rightarrow>
       let first = input ! 0;
           optional = (if \<not> is_newline first \<and> \<not> is_letter first \<and> \<not> is_digit first then 1 else 0);
           optional_space = (if first = 32 then 1 else 0)
       in if optional < length input \<and> is_letter (input ! optional)
          then run_end is_letter input (optional + 1)
          else if is_digit first then 1
          else if optional_space < length input \<and> is_punctuation (input ! optional_space)
          then run_end is_newline input (run_end is_punctuation input (optional_space + 1))
          else if is_space first then space_run input
          else 1)"

definition starts_with_bytes :: "bytes \<Rightarrow> bytes \<Rightarrow> bool" where
  "starts_with_bytes input p \<longleftrightarrow> length p \<le> length input \<and> take (length p) input = p"

definition next_user_defined :: "bytes \<Rightarrow> nat \<times> nat \<times> nat" where
  "next_user_defined input =
     (case find (\<lambda>at. starts_with_bytes (drop at input) TOOL_CALL \<or>
                      starts_with_bytes (drop at input) TOOL_END) [0..<length input] of
        None \<Rightarrow> (length input, 0, 0)
      | Some at \<Rightarrow> if starts_with_bytes (drop at input) TOOL_CALL
                   then (at, 151657, length TOOL_CALL) else (at, 151658, length TOOL_END))"

section \<open>Byte pair merging on the scratch buffer\<close>

type_synonym staging = "bytes \<times> nat"

text \<open>The scan for the best pair: the first of the smallest rank.\<close>

definition best_step ::
  "(nat \<Rightarrow> (nat \<times> nat) option) \<Rightarrow> nat \<Rightarrow> nat \<times> nat \<times> nat \<Rightarrow> nat \<times> nat \<times> nat" where
  "best_step look at best =
     (case look at of
        Some (res, rank) \<Rightarrow> if rank < fst best then (rank, at, res) else best
      | None \<Rightarrow> best)"

definition best_pair :: "(nat \<Rightarrow> (nat \<times> nat) option) \<Rightarrow> nat \<Rightarrow> nat \<times> nat \<times> nat" where
  "best_pair look n = fold (best_step look) [0..<n] (NO_ENTRY, 0, 0)"

definition cell :: "bytes \<Rightarrow> nat \<Rightarrow> nat" where
  "cell scratch at = u32_at scratch (CURRENT_SEGMENT + at * 4)"

definition put_cell :: "nat \<Rightarrow> nat \<Rightarrow> bytes \<Rightarrow> bytes" where
  "put_cell at v scratch = put_u32 scratch (CURRENT_SEGMENT + at * 4) v"

definition shift_cells :: "nat \<Rightarrow> nat \<Rightarrow> bytes \<Rightarrow> bytes" where
  "shift_cells first n scratch =
     fold (\<lambda>at s. put_cell at (cell s (at + 1)) s) [first..<n] scratch"

function bpe_loop :: "bytes \<Rightarrow> bytes \<Rightarrow> nat \<Rightarrow> bytes \<times> nat" where
  "bpe_loop index scratch n =
     (if n \<ge> 2 then
        (case best_pair (\<lambda>at. fst (index_lookup index (cell scratch at) (cell scratch (at + 1))))
                (n - 1) of
           (rank, at, res) \<Rightarrow>
             if rank = NO_ENTRY then (scratch, n)
             else bpe_loop index (shift_cells (at + 1) (n - 1) (put_cell at res scratch)) (n - 1))
      else (scratch, n))"
  by pat_completeness auto
termination by (relation "measure (\<lambda>(_, _, n). n)") auto

declare bpe_loop.simps [simp del]

definition stage_token :: "nat \<Rightarrow> nat \<Rightarrow> bytes \<Rightarrow> bytes" where
  "stage_token at v scratch = put_u32 scratch (STAGED_TOKENS + at * 4) v"

definition too_many_tokens :: "nat \<Rightarrow> model_error" where
  "too_many_tokens n = model_fail MS_STATE ED_TOKEN_OUTPUT 0 0 MAX_TOKENS n FK_STATE_FIELD 0"

definition bpe :: "bytes \<Rightarrow> bytes \<Rightarrow> staging \<Rightarrow> model_error + staging" where
  "bpe index input st =
    (case st of (scratch, count) \<Rightarrow>
     if length input > MAX_SEGMENT
     then Inl (model_fail MS_STATE ED_SCRATCH 0 0 MAX_SEGMENT (length input) FK_STATE_FIELD 0)
     else
       let scratch = fold (\<lambda>at s. put_cell at
             (u32_at index (BYTE_MAP_OFFSET + unat (input ! at) * 4)) s) [0..<length input] scratch
       in case bpe_loop index scratch (length input) of (scratch, n) \<Rightarrow>
            if count + n > MAX_TOKENS then Inl (too_many_tokens (count + n))
            else Inr (fold (\<lambda>at s. stage_token (count + at) (cell s at) s) [0..<n] scratch,
                      count + n))"

definition control :: "nat \<Rightarrow> staging \<Rightarrow> model_error + staging" where
  "control token st =
    (case st of (scratch, count) \<Rightarrow>
       if count \<ge> MAX_TOKENS then Inl (too_many_tokens (count + 1))
       else Inr (stage_token count token scratch, count + 1))"

text \<open>The pieces of a text are never empty, so both loops end.\<close>

lemma run_end_le: "at \<le> run_end p input at"
  by (simp add: run_end_def)

lemma space_run_pos: "0 < space_run input"
proof -
  have "1 \<le> run_end is_space input 1" by (rule run_end_le)
  then show ?thesis by (auto simp: space_run_def Let_def)
qed

lemma pretoken_length_pos: "input \<noteq> [] \<Longrightarrow> 0 < pretoken_length input"
proof -
  have "0 < run_end p input (Suc n)" for p n using run_end_le [of "Suc n" p input] by simp
  moreover have "0 < run_end q input (run_end p input (Suc n))" for p q n
    using run_end_le [of "run_end p input (Suc n)" q input] run_end_le [of "Suc n" p input] by simp
  ultimately show ?thesis
    by (auto simp: pretoken_length_def Let_def space_run_pos split: option.split if_splits)
qed

function regex_fragments :: "bytes \<Rightarrow> bytes \<Rightarrow> staging \<Rightarrow> model_error + staging" where
  "regex_fragments index input st =
     (if input = [] then Inr st
      else let n = pretoken_length input in
        bind_result (bpe index (take n input) st) (regex_fragments index (drop n input)))"
  by pat_completeness auto
termination
  by (relation "measure (\<lambda>(_, input, _). length input)") (auto intro!: diff_less dest: pretoken_length_pos)

declare regex_fragments.simps [simp del]

lemma next_user_defined_special:
  "next_user_defined input = (at, special, n) \<Longrightarrow> special \<noteq> 0 \<Longrightarrow>
     at < length input \<and> 0 < n \<and> starts_with_bytes (drop at input) (take n (drop at input)) \<and>
     take n (drop at input) = (if special = 151657 then TOOL_CALL else TOOL_END) \<and>
     special \<in> {151657, 151658}"
  by (auto simp: next_user_defined_def find_Some_iff starts_with_bytes_def TOOL_CALL_def
      TOOL_END_def ascii_def split: option.splits if_splits)

function ordinary :: "bytes \<Rightarrow> bytes \<Rightarrow> staging \<Rightarrow> model_error + staging" where
  "ordinary index input st =
     (if input = [] then Inr st
      else case next_user_defined input of (special_at, special, special_len) \<Rightarrow>
        bind_result (if special_at \<noteq> 0 then regex_fragments index (take special_at input) st
                     else Inr st) (\<lambda>st.
          let rest = drop special_at input in
          if special \<noteq> 0
          then bind_result (control special st) (ordinary index (drop special_len rest))
          else if rest \<noteq> [] then regex_fragments index rest st else Inr st))"
  by pat_completeness auto
termination
  by (relation "measure (\<lambda>(_, input, _). length input)")
    (auto dest!: next_user_defined_special [OF sym])

declare ordinary.simps [simp del]

section \<open>The chat template\<close>

definition SYSTEM_TEXT :: bytes where
  "SYSTEM_TEXT = ascii ''You are Qwen, created by Alibaba Cloud. You are a helpful assistant.''"

definition NEWLINE :: bytes where "NEWLINE = [10]"

definition TEMPLATE_BEFORE :: bytes where
  "TEMPLATE_BEFORE = ascii ''<|im_start|>system'' @ NEWLINE @ SYSTEM_TEXT @ ascii ''<|im_end|>'' @
     NEWLINE @ ascii ''<|im_start|>user'' @ NEWLINE"

definition TEMPLATE_AFTER :: bytes where
  "TEMPLATE_AFTER = ascii ''<|im_end|>'' @ NEWLINE @ ascii ''<|im_start|>assistant'' @ NEWLINE"

definition prompt_head :: "bytes \<Rightarrow> staging \<Rightarrow> model_error + staging" where
  "prompt_head index st =
     bind_result (control IM_START st) (\<lambda>st.
     bind_result (ordinary index (ascii ''system'') st) (\<lambda>st.
     bind_result (ordinary index NEWLINE st) (\<lambda>st.
     bind_result (ordinary index SYSTEM_TEXT st) (\<lambda>st.
     bind_result (control IM_END st) (\<lambda>st.
     bind_result (ordinary index NEWLINE st) (\<lambda>st.
     bind_result (control IM_START st) (\<lambda>st.
     bind_result (ordinary index (ascii ''user'') st) (\<lambda>st.
     ordinary index NEWLINE st))))))))"

definition prompt_tail :: "bytes \<Rightarrow> staging \<Rightarrow> model_error + staging" where
  "prompt_tail index st =
     bind_result (control IM_END st) (\<lambda>st.
     bind_result (ordinary index NEWLINE st) (\<lambda>st.
     bind_result (control IM_START st) (\<lambda>st.
     bind_result (ordinary index (ascii ''assistant'') st) (\<lambda>st.
     ordinary index NEWLINE st))))"

definition stage_template :: "bytes \<Rightarrow> bytes \<Rightarrow> bytes" where
  "stage_template user scratch =
     (let scratch = write_at scratch STAGED_RENDERED TEMPLATE_BEFORE;
          scratch = write_at scratch (STAGED_RENDERED + length TEMPLATE_BEFORE) user
      in write_at scratch (STAGED_RENDERED + length TEMPLATE_BEFORE + length user) TEMPLATE_AFTER)"

definition compute_prompt :: "bytes \<Rightarrow> bytes \<Rightarrow> bytes \<Rightarrow> model_error + prompt_computation \<times> bytes" where
  "compute_prompt index user scratch =
     bind_result (prompt_head index (stage_template user scratch, 0)) (\<lambda>st.
       let prefix_tokens = snd st in
     bind_result (ordinary index user st) (\<lambda>st.
       let user_tokens = snd st - prefix_tokens in
     bind_result (prompt_tail index st) (\<lambda>st.
       Inr (\<lparr>pc_rendered = length TEMPLATE_BEFORE + length user + length TEMPLATE_AFTER,
             pc_tokens = snd st, pc_prefix = prefix_tokens, pc_user = user_tokens\<rparr>, fst st))))"

definition staged_tokens :: "bytes \<Rightarrow> nat \<Rightarrow> nat list" where
  "staged_tokens scratch n = map (\<lambda>at. u32_at scratch (STAGED_TOKENS + at * 4)) [0..<n]"

definition clear_scratch :: "bytes \<Rightarrow> bytes" where
  "clear_scratch scratch = write_at scratch 0 (replicate TOKEN_SCRATCH 0)"

text \<open>\<open>render_and_tokenize\<close>: the outcome and the three buffers afterwards.\<close>

definition render_and_tokenize ::
  "tokenizer \<Rightarrow> bytes \<Rightarrow> bytes \<Rightarrow> nat list \<Rightarrow> nat \<Rightarrow> bytes \<Rightarrow>
   (model_error + prompt_usage) \<times> bytes \<times> nat list \<times> bytes" where
  "render_and_tokenize tok user rendered tokens scratch_address scratch =
     (case validate_prompt_request user (length rendered) (length tokens) scratch_address
             (length scratch) of
        Inl e \<Rightarrow> (Inl e, rendered, tokens, scratch)
      | Inr _ \<Rightarrow>
        (case compute_prompt (tk_index tok) user (take TOKEN_SCRATCH scratch) of
           Inl e \<Rightarrow> (Inl e, rendered, tokens, clear_scratch scratch)
         | Inr (computation, staged) \<Rightarrow>
             (Inr \<lparr>pu_rendered = pc_rendered computation, pu_tokens = pc_tokens computation,
                pu_prefix = pc_prefix computation, pu_im_start = 3, pu_im_end = 2\<rparr>,
              write_at rendered 0 (slice staged STAGED_RENDERED
                (STAGED_RENDERED + pc_rendered computation)),
              write_at tokens 0 (staged_tokens staged (pc_tokens computation)),
              clear_scratch scratch)))"

section \<open>Conversations\<close>

record conversation_buffers =
  cb_rendered :: bytes
  cb_staging :: "nat list"
  cb_tokens :: "nat list"
  cb_scratch :: bytes
  cb_outcome :: conversation_usage

text \<open>The loop that looks for the second start marker.\<close>

fun second_start :: "nat list \<Rightarrow> nat \<Rightarrow> nat \<Rightarrow> nat option" where
  "second_start [] at seen = None"
| "second_start (token # tokens) at seen =
     (if token = IM_START
      then if seen + 1 = 2 then Some at else second_start tokens (at + 1) (seen + 1)
      else second_start tokens (at + 1) seen)"

definition suffix_start :: "nat list \<Rightarrow> model_error + nat" where
  "suffix_start fresh =
     (case second_start fresh 0 0 of
        Some (Suc at) \<Rightarrow>
          if fresh ! at = 198 then Inr at
          else Inl (model_fail MS_STATE ED_TOKEN_OUTPUT 0 0 1 0 FK_STATE_FIELD 14)
      | _ \<Rightarrow> Inl (model_fail MS_STATE ED_TOKEN_OUTPUT 0 0 1 0 FK_STATE_FIELD 14))"

definition validate_conversation ::
  "nat list \<Rightarrow> bytes \<Rightarrow> nat \<Rightarrow> conversation_buffers \<Rightarrow> model_error + unit" where
  "validate_conversation history user scratch_address b =
     bind_result (require (length history \<le> IMAGE_CONTEXT)
       (model_fail MS_LENGTH ED_TOKEN_OUTPUT 0 0 IMAGE_CONTEXT (length history) FK_CAPACITY 10)) (\<lambda>_.
     bind_result (if history \<noteq> [] then validate_conversation_history history else Inr ()) (\<lambda>_.
     bind_result (require (MAX_TOKENS \<le> length (cb_staging b))
       (model_fail MS_OUTPUT_CAPACITY ED_TOKEN_OUTPUT 0 0 MAX_TOKENS (length (cb_staging b))
         FK_CAPACITY 12)) (\<lambda>_.
     bind_result (require (IMAGE_CONTEXT \<le> length (cb_tokens b))
       (model_fail MS_OUTPUT_CAPACITY ED_TOKEN_OUTPUT 0 0 IMAGE_CONTEXT (length (cb_tokens b))
         FK_CAPACITY 13)) (\<lambda>_.
     validate_prompt_request user (length (cb_rendered b)) (length (cb_staging b)) scratch_address
       (length (cb_scratch b))))))"

definition render_conversation ::
  "tokenizer \<Rightarrow> nat list \<Rightarrow> bytes \<Rightarrow> nat \<Rightarrow> conversation_buffers \<Rightarrow>
   (model_error + conversation_usage) \<times> conversation_buffers" where
  "render_conversation tok history user scratch_address b =
     (case validate_conversation history user scratch_address b of
        Inl e \<Rightarrow> (Inl e, b)
      | Inr _ \<Rightarrow>
        let cleared = b\<lparr>cb_scratch := clear_scratch (cb_scratch b)\<rparr> in
        (case compute_prompt (tk_index tok) user (take TOKEN_SCRATCH (cb_scratch b)) of
           Inl e \<Rightarrow> (Inl e, cleared)
         | Inr (computation, staged) \<Rightarrow>
             let fresh = staged_tokens staged (pc_tokens computation);
                 usage = \<lparr>cu_rendered = pc_rendered computation, cu_user = pc_user computation,
                   cu_fresh = pc_tokens computation, cu_history = length history, cu_prompt = 0,
                   cu_prefix = pc_prefix computation\<rparr>
             in (case (if history = [] then Inr 0 else suffix_start fresh) of
                   Inl e \<Rightarrow> (Inl e, cleared\<lparr>cb_outcome := usage\<rparr>)
                 | Inr start \<Rightarrow>
                   (case checked_add (length history) (pc_tokens computation - start) of
                      None \<Rightarrow> (Inl (model_fail MS_LENGTH ED_TOKEN_OUTPUT 0 0 IMAGE_CONTEXT
                        (u64_limit - 1) FK_OP_ADD 15), cleared\<lparr>cb_outcome := usage\<rparr>)
                    | Some prospective \<Rightarrow>
                      let usage = usage\<lparr>cu_prompt := min prospective (u32_limit - 1)\<rparr> in
                      if prospective > IMAGE_CONTEXT
                      then (Inl (model_fail MS_OUTPUT_CAPACITY ED_TOKEN_OUTPUT 0 0 IMAGE_CONTEXT
                        prospective FK_CAPACITY 16), cleared\<lparr>cb_outcome := usage\<rparr>)
                      else
                        let staging = write_at (cb_staging b) 0 fresh;
                            tokens = write_at (cb_tokens b) 0 history;
                            tokens = write_at tokens (length history)
                              (slice staging start (pc_tokens computation))
                        in (Inr usage,
                            \<lparr>cb_rendered = write_at (cb_rendered b) 0 (slice staged STAGED_RENDERED
                                (STAGED_RENDERED + pc_rendered computation)),
                             cb_staging = write_at staging 0 (replicate MAX_TOKENS 0),
                             cb_tokens = tokens,
                             cb_scratch = clear_scratch (cb_scratch b),
                             cb_outcome = usage\<rparr>)))))"

section \<open>Decoding a token\<close>

datatype piece_kind = TextPiece | EosPiece | SuppressedPiece

fun piece_code :: "piece_kind \<Rightarrow> nat" where
  "piece_code TextPiece = 1"
| "piece_code EosPiece = 2"
| "piece_code SuppressedPiece = 3"

definition state_token_error :: "nat \<Rightarrow> nat \<Rightarrow> model_error" where
  "state_token_error token actual = model_fail MS_STATE ED_TOKEN token 0 1 actual FK_STATE_FIELD 0"

definition piece_kind_of :: "nat \<Rightarrow> nat \<Rightarrow> model_error + piece_kind" where
  "piece_kind_of token ty =
     (if ty = 1 \<or> ty = 4 then Inr TextPiece
      else if ty = 3 \<and> (token = IM_END \<or> token = END_OF_TEXT) then Inr EosPiece
      else if ty = 3 \<or> ty = 5 then Inr SuppressedPiece
      else Inl (state_token_error token 0))"

definition byte_of_point :: "nat \<Rightarrow> nat option" where
  "byte_of_point point = find (\<lambda>b. gpt2_codepoint (of_nat b) = point) [0..<256]"

fun decode_points :: "nat \<Rightarrow> nat list \<Rightarrow> bytes \<Rightarrow> model_error + bytes" where
  "decode_points token [] staged = Inr staged"
| "decode_points token (point # points) staged =
     (case byte_of_point point of
        None \<Rightarrow> Inl (state_token_error token point)
      | Some b \<Rightarrow>
          if length staged = 128
          then Inl (model_fail MS_STATE ED_PIECE_OUTPUT token 0 128 (length staged + 1)
                 FK_STATE_FIELD 0)
          else decode_points token points (staged @ [of_nat b]))"

definition piece_text :: "nat \<Rightarrow> nat \<Rightarrow> bytes \<Rightarrow> model_error + bytes" where
  "piece_text token ty piece =
     (if ty = 4 then
        (if length piece > 128
         then Inl (model_fail MS_STATE ED_PIECE_OUTPUT token 0 128 (length piece) FK_STATE_FIELD 0)
         else Inr piece)
      else case from_utf8 piece of
          Inl _ \<Rightarrow> Inl (state_token_error token 0)
        | Inr points \<Rightarrow> decode_points token points [])"

definition decode_piece ::
  "tokenizer \<Rightarrow> nat \<Rightarrow> bytes \<Rightarrow> (model_error + nat \<times> nat) \<times> bytes" where
  "decode_piece tok token output_buf =
     (if token \<ge> VOCAB_COUNT then (Inl (token_id_error token), output_buf)
      else case bind_result (token_type (tk_model tok) token) (\<lambda>ty.
           bind_result (piece_kind_of token ty) (\<lambda>kind.
           bind_result (if kind = TextPiece
             then bind_result (token_bytes (tk_model tok) token) (piece_text token ty)
             else Inr []) (\<lambda>staged.
           bind_result (require (length staged \<le> length output_buf)
             (model_fail MS_OUTPUT_CAPACITY ED_PIECE_OUTPUT 0 0 (length staged) (length output_buf)
               FK_CAPACITY 0)) (\<lambda>_. Inr (kind, staged))))) of
          Inl e \<Rightarrow> (Inl e, output_buf)
        | Inr (kind, staged) \<Rightarrow>
            (Inr (piece_code kind, length staged), write_at output_buf 0 staged))"

section \<open>Best pairs\<close>

text \<open>The abstract merge step on lists of tokens: the leftmost pair of the smallest rank.\<close>

type_synonym merge_table = "nat \<Rightarrow> nat \<Rightarrow> (nat \<times> nat) option"

definition pair_rank :: "merge_table \<Rightarrow> nat list \<Rightarrow> nat \<Rightarrow> nat option" where
  "pair_rank lk ts at = map_option snd (lk (ts ! at) (ts ! Suc at))"

inductive merge_step :: "merge_table \<Rightarrow> nat list \<Rightarrow> nat list \<Rightarrow> bool" for lk where
  "Suc at < length ts \<Longrightarrow> lk (ts ! at) (ts ! Suc at) = Some (res, rank) \<Longrightarrow> rank < NO_ENTRY \<Longrightarrow>
   (\<And>j r. Suc j < length ts \<Longrightarrow> pair_rank lk ts j = Some r \<Longrightarrow> rank \<le> r \<and> (j < at \<longrightarrow> rank < r)) \<Longrightarrow>
   merge_step lk ts (take at ts @ res # drop (Suc (Suc at)) ts)"

inductive_cases merge_stepE: "merge_step lk ts ts'"

definition best_so_far :: "(nat \<Rightarrow> (nat \<times> nat) option) \<Rightarrow> nat \<Rightarrow> nat \<times> nat \<times> nat \<Rightarrow> bool" where
  "best_so_far look n b \<longleftrightarrow>
     fst b \<le> NO_ENTRY \<and>
     (fst b < NO_ENTRY \<longrightarrow> fst (snd b) < n \<and> look (fst (snd b)) = Some (snd (snd b), fst b)) \<and>
     (\<forall>j v r. j < n \<longrightarrow> look j = Some (v, r) \<longrightarrow>
        fst b \<le> r \<and> (fst b < NO_ENTRY \<and> j < fst (snd b) \<longrightarrow> fst b < r))"

lemma best_step_best:
  assumes "best_so_far look n b"
  shows "best_so_far look (Suc n) (best_step look n b)"
proof (cases "look n")
  case None
  then show ?thesis using assms by (auto simp: best_so_far_def best_step_def less_Suc_eq)
next
  case (Some p)
  obtain v r where p: "p = (v, r)" by (cases p)
  show ?thesis
  proof (cases "r < fst b")
    case True
    then show ?thesis
      using assms Some p
      by (fastforce simp: best_so_far_def best_step_def less_Suc_eq)
  next
    case False
    then show ?thesis
      using assms Some p
      by (auto simp: best_so_far_def best_step_def less_Suc_eq)
  qed
qed

lemma best_pair_best: "best_so_far look n (best_pair look n)"
proof (induction n)
  case 0
  then show ?case by (simp add: best_pair_def best_so_far_def)
next
  case (Suc n)
  from best_step_best [OF this] show ?case by (simp add: best_pair_def)
qed

lemma best_pair_cong:
  "(\<And>j. j < n \<Longrightarrow> look j = look' j) \<Longrightarrow> best_pair look n = best_pair look' n"
  unfolding best_pair_def by (intro fold_cong) (auto simp: best_step_def)

section \<open>Merging lists of tokens\<close>

definition merge_at :: "nat \<Rightarrow> nat \<Rightarrow> nat list \<Rightarrow> nat list" where
  "merge_at at res ts = take at ts @ res # drop (Suc (Suc at)) ts"

lemma length_merge_at: "Suc at < length ts \<Longrightarrow> length (merge_at at res ts) = length ts - 1"
  by (simp add: merge_at_def)

lemma best_pair_index:
  "best_pair look n = (rank, at, res) \<Longrightarrow> rank \<noteq> NO_ENTRY \<Longrightarrow>
     rank < NO_ENTRY \<and> at < n \<and> look at = Some (res, rank)"
  using best_pair_best [of look n] by (auto simp: best_so_far_def)

definition list_best :: "merge_table \<Rightarrow> nat list \<Rightarrow> nat \<times> nat \<times> nat" where
  "list_best lk ts = best_pair (\<lambda>at. lk (ts ! at) (ts ! Suc at)) (length ts - 1)"

lemma list_best_index:
  "list_best lk ts = (rank, at, res) \<Longrightarrow> rank \<noteq> NO_ENTRY \<Longrightarrow>
     rank < NO_ENTRY \<and> Suc at < length ts \<and> lk (ts ! at) (ts ! Suc at) = Some (res, rank)"
  using best_pair_index [of "\<lambda>at. lk (ts ! at) (ts ! Suc at)" "length ts - 1" rank at res]
  by (auto simp: list_best_def)

lemma list_best_least:
  "list_best lk ts = (rank, at, res) \<Longrightarrow> Suc j < length ts \<Longrightarrow>
     lk (ts ! j) (ts ! Suc j) = Some (v, r) \<Longrightarrow>
     rank \<le> r \<and> (rank < NO_ENTRY \<and> j < at \<longrightarrow> rank < r)"
proof -
  assume "list_best lk ts = (rank, at, res)" and j: "Suc j < length ts"
    and look: "lk (ts ! j) (ts ! Suc j) = Some (v, r)"
  then have "best_so_far (\<lambda>at. lk (ts ! at) (ts ! Suc at)) (length ts - 1) (rank, at, res)"
    using best_pair_best [of "\<lambda>at. lk (ts ! at) (ts ! Suc at)" "length ts - 1"]
    by (simp add: list_best_def)
  moreover have "j < length ts - 1" using j by simp
  ultimately show ?thesis using look unfolding best_so_far_def fst_conv snd_conv by blast
qed

lemma pair_rank_Some: "pair_rank lk ts j = Some r \<longleftrightarrow> (\<exists>v. lk (ts ! j) (ts ! Suc j) = Some (v, r))"
  by (auto simp: pair_rank_def)

function bpe_list :: "merge_table \<Rightarrow> nat list \<Rightarrow> nat list" where
  "bpe_list lk ts =
     (case list_best lk ts of (rank, at, res) \<Rightarrow>
        if rank = NO_ENTRY then ts else bpe_list lk (merge_at at res ts))"
  by pat_completeness auto
termination
  by (relation "measure (\<lambda>(_, ts). length ts)")
    (auto simp: length_merge_at dest!: list_best_index [OF sym])

declare bpe_list.simps [simp del]

text \<open>
  It makes merge steps until none is possible, and there is only one way to make them.
\<close>

lemma list_best_step:
  assumes "list_best lk ts = (rank, at, res)" and "rank \<noteq> NO_ENTRY"
  shows "merge_step lk ts (merge_at at res ts)"
proof -
  note idx = list_best_index [OF assms]
  show ?thesis
    unfolding merge_at_def
  proof (rule merge_step.intros)
    fix j r assume "Suc j < length ts" "pair_rank lk ts j = Some r"
    then show "rank \<le> r \<and> (j < at \<longrightarrow> rank < r)"
      using list_best_least [OF assms(1)] idx by (auto simp: pair_rank_Some)
  qed (use idx in auto)
qed

lemma list_best_none:
  assumes "list_best lk ts = (NO_ENTRY, at, res)"
  shows "\<not> merge_step lk ts ts'"
proof
  assume "merge_step lk ts ts'"
  then obtain j r k where "Suc j < length ts" "lk (ts ! j) (ts ! Suc j) = Some (r, k)" "k < NO_ENTRY"
    by (auto elim: merge_stepE)
  with list_best_least [OF assms] show False by fastforce
qed

lemma merge_step_unique:
  assumes "merge_step lk ts us" and "merge_step lk ts vs"
  shows "us = vs"
proof -
  from assms(1) obtain i r k where i: "Suc i < length ts" "lk (ts ! i) (ts ! Suc i) = Some (r, k)"
    "us = take i ts @ r # drop (Suc (Suc i)) ts"
    "\<And>j q. Suc j < length ts \<Longrightarrow> pair_rank lk ts j = Some q \<Longrightarrow> k \<le> q \<and> (j < i \<longrightarrow> k < q)"
    by (rule merge_stepE) blast
  from assms(2) obtain j s l where j: "Suc j < length ts" "lk (ts ! j) (ts ! Suc j) = Some (s, l)"
    "vs = take j ts @ s # drop (Suc (Suc j)) ts"
    "\<And>i q. Suc i < length ts \<Longrightarrow> pair_rank lk ts i = Some q \<Longrightarrow> l \<le> q \<and> (i < j \<longrightarrow> l < q)"
    by (rule merge_stepE) blast
  have "pair_rank lk ts i = Some k" "pair_rank lk ts j = Some l"
    using i j by (simp_all add: pair_rank_def)
  with i(4) [OF j(1)] j(4) [OF i(1)] have "k = l" "\<not> j < i" "\<not> i < j" by auto
  then have "i = j" by simp
  with i j show ?thesis by simp
qed

lemma bpe_list_normal:
  "(merge_step lk)\<^sup>*\<^sup>* ts (bpe_list lk ts) \<and> \<not> merge_step lk (bpe_list lk ts) us"
proof (induction lk ts rule: bpe_list.induct)
  case (1 lk ts)
  obtain rank at res where b: "list_best lk ts = (rank, at, res)" by (cases "list_best lk ts")
  show ?case
  proof (cases "rank = NO_ENTRY")
    case True
    then have "bpe_list lk ts = ts" using b by (simp add: bpe_list.simps [of lk ts])
    then show ?thesis using list_best_none [of lk ts at res us] b True by simp
  next
    case False
    then have "bpe_list lk ts = bpe_list lk (merge_at at res ts)"
      using b by (simp add: bpe_list.simps [of lk ts])
    then show ?thesis
      using 1 [OF b [symmetric] refl False] list_best_step [OF b False]
      by (auto intro: converse_rtranclp_into_rtranclp)
  qed
qed

section \<open>The scratch buffer\<close>

text \<open>Work on the current segment leaves the staged tokens and the rendered text alone.\<close>

definition segment_only :: "bytes \<Rightarrow> bytes \<Rightarrow> bool" where
  "segment_only s s' \<longleftrightarrow> length s' = length s \<and>
     take CURRENT_SEGMENT s' = take CURRENT_SEGMENT s \<and>
     drop STAGED_RENDERED s' = drop STAGED_RENDERED s"

lemma segment_only_refl [simp]: "segment_only s s"
  by (simp add: segment_only_def)

lemma segment_only_trans: "segment_only s s' \<Longrightarrow> segment_only s' s'' \<Longrightarrow> segment_only s s''"
  by (simp add: segment_only_def)

lemma put_cell_facts:
  assumes "length s = TOKEN_SCRATCH" and "at < MAX_SEGMENT"
  shows "segment_only s (put_cell at v s)" "length (put_cell at v s) = TOKEN_SCRATCH"
    "v < 2 ^ 32 \<Longrightarrow> cell (put_cell at v s) j = (if j = at then v else cell s j)"
proof -
  have room: "CURRENT_SEGMENT + at * 4 + 4 \<le> length s"
    and seg: "CURRENT_SEGMENT + at * 4 + 4 \<le> STAGED_RENDERED"
    using assms by (simp_all add: CURRENT_SEGMENT_def TOKEN_SCRATCH_def MAX_SEGMENT_def
        STAGED_RENDERED_def)
  show len: "length (put_cell at v s) = TOKEN_SCRATCH" using room assms(1) by (simp add: put_cell_def)
  show "segment_only s (put_cell at v s)"
    using len assms(1) room seg
    by (auto simp: segment_only_def put_cell_def put_u32_def write_at_def min_def)
  assume v: "v < 2 ^ 32"
  show "cell (put_cell at v s) j = (if j = at then v else cell s j)"
  proof (cases "j = at")
    case True
    then show ?thesis using v room by (simp add: cell_def put_cell_def u32_at_put_same)
  next
    case False
    then have "CURRENT_SEGMENT + j * 4 + 4 \<le> CURRENT_SEGMENT + at * 4 \<or>
      CURRENT_SEGMENT + at * 4 + 4 \<le> CURRENT_SEGMENT + j * 4" by presburger
    with False show ?thesis by (simp add: cell_def put_cell_def u32_at_put_other [OF room])
  qed
qed

lemma cell_less: "cell s j < 2 ^ 32"
  by (simp only: cell_def u32_at_less)

lemma shift_cells_facts:
  assumes "length s = TOKEN_SCRATCH" and "n \<le> MAX_SEGMENT" and "first \<le> n"
  shows "segment_only s (shift_cells first n s) \<and> length (shift_cells first n s) = TOKEN_SCRATCH \<and>
    (\<forall>j. cell (shift_cells first n s) j = (if first \<le> j \<and> j < n then cell s (j + 1) else cell s j))"
  using assms(3,2)
proof (induction n rule: dec_induct)
  case base
  then show ?case using assms(1) by (simp add: shift_cells_def)
next
  case (step n)
  let ?s = "shift_cells first n s"
  have eq: "shift_cells first (Suc n) s = put_cell n (cell ?s (n + 1)) ?s"
    using step.hyps by (simp add: shift_cells_def)
  have IH: "segment_only s ?s" "length ?s = TOKEN_SCRATCH"
    "\<And>j. cell ?s j = (if first \<le> j \<and> j < n then cell s (j + 1) else cell s j)"
    using step.IH step.prems by auto
  have n: "n < MAX_SEGMENT" using step.prems by simp
  note put = put_cell_facts [OF IH(2) n, of "cell ?s (n + 1)"]
  show ?case
    unfolding eq using put(2) put(3) [OF cell_less] IH(3) segment_only_trans [OF IH(1) put(1)]
      step.hyps by (auto simp: less_Suc_eq)
qed

definition cells :: "bytes \<Rightarrow> nat \<Rightarrow> nat list" where
  "cells s n = map (cell s) [0..<n]"

lemma length_cells [simp]: "length (cells s n) = n"
  by (simp add: cells_def)

lemma cells_nth [simp]: "j < n \<Longrightarrow> cells s n ! j = cell s j"
  by (simp add: cells_def)

lemma cells_merge:
  assumes "length s = TOKEN_SCRATCH" and "n \<le> MAX_SEGMENT" and "Suc at < n" and "res < 2 ^ 32"
  shows "cells (shift_cells (at + 1) (n - 1) (put_cell at res s)) (n - 1) = merge_at at res (cells s n)"
    "segment_only s (shift_cells (at + 1) (n - 1) (put_cell at res s))"
    "length (shift_cells (at + 1) (n - 1) (put_cell at res s)) = TOKEN_SCRATCH"
proof -
  have at: "at < MAX_SEGMENT" using assms by simp
  note put = put_cell_facts [OF assms(1) at, of res]
  have n: "n - 1 \<le> MAX_SEGMENT" "at + 1 \<le> n - 1" using assms by simp_all
  note shift = shift_cells_facts [OF put(2) n]
  show "segment_only s (shift_cells (at + 1) (n - 1) (put_cell at res s))"
    "length (shift_cells (at + 1) (n - 1) (put_cell at res s)) = TOKEN_SCRATCH"
    using shift put(1) segment_only_trans by blast+
  show "cells (shift_cells (at + 1) (n - 1) (put_cell at res s)) (n - 1) = merge_at at res (cells s n)"
  proof (rule nth_equalityI)
    show "length (cells (shift_cells (at + 1) (n - 1) (put_cell at res s)) (n - 1)) =
        length (merge_at at res (cells s n))"
      using assms(3) by (simp add: length_merge_at)
    fix j assume "j < length (cells (shift_cells (at + 1) (n - 1) (put_cell at res s)) (n - 1))"
    then have j: "j < n - 1" by simp
    have at_j: "cells (shift_cells (at + 1) (n - 1) (put_cell at res s)) (n - 1) ! j =
        (if at < j then cell s (j + 1) else if j = at then res else cell s j)"
      using shift put(3) [OF assms(4)] j by auto
    consider "j < at" | "j = at" | d where "j = Suc (at + d)"
      by (metis less_iff_Suc_add linorder_neqE_nat)
    then show "cells (shift_cells (at + 1) (n - 1) (put_cell at res s)) (n - 1) ! j =
        merge_at at res (cells s n) ! j"
      using assms(3) j unfolding at_j by cases (simp_all add: merge_at_def nth_append)
  qed
qed

lemma fill_cells_facts:
  assumes "length s = TOKEN_SCRATCH" and "n \<le> MAX_SEGMENT" and "\<And>j. f j < 2 ^ 32"
  shows "segment_only s (fold (\<lambda>at. put_cell at (f at)) [0..<n] s) \<and>
    length (fold (\<lambda>at. put_cell at (f at)) [0..<n] s) = TOKEN_SCRATCH \<and>
    cells (fold (\<lambda>at. put_cell at (f at)) [0..<n] s) n = map f [0..<n]"
  using assms(2)
proof (induction n)
  case 0
  then show ?case using assms(1) by (simp add: cells_def)
next
  case (Suc n)
  let ?s = "fold (\<lambda>at. put_cell at (f at)) [0..<n] s"
  have IH: "segment_only s ?s" "length ?s = TOKEN_SCRATCH" "cells ?s n = map f [0..<n]"
    using Suc by auto
  have n: "n < MAX_SEGMENT" using Suc.prems by simp
  note put = put_cell_facts [OF IH(2) n, of "f n"]
  have "cells (put_cell n (f n) ?s) (Suc n) = map f [0..<Suc n]"
    using IH(3) put(3) [OF assms(3)] by (simp add: cells_def)
  then show ?case using put(2) segment_only_trans [OF IH(1) put(1)] by simp
qed

definition lookup_table :: "bytes \<Rightarrow> merge_table" where
  "lookup_table index left right = fst (index_lookup index left right)"

lemma lookup_table_less: "lookup_table index left right = Some (res, rank) \<Longrightarrow> res < 2 ^ 32"
proof -
  have "fst (probe index left right i k n) = Some (res, rank) \<Longrightarrow> res < 2 ^ 32" for i k n
    by (induction n arbitrary: k) (auto simp: Let_def u32_at_less [simplified] split: if_splits)
  then show "lookup_table index left right = Some (res, rank) \<Longrightarrow> res < 2 ^ 32"
    by (simp add: lookup_table_def index_lookup_def)
qed

lemma bpe_loop_list:
  assumes "length s = TOKEN_SCRATCH" and "n \<le> MAX_SEGMENT"
  shows "case bpe_loop index s n of (s', n') \<Rightarrow>
    cells s' n' = bpe_list (lookup_table index) (cells s n) \<and> segment_only s s' \<and>
    length s' = TOKEN_SCRATCH \<and> n' \<le> n"
  using assms
proof (induction index s n rule: bpe_loop.induct)
  case (1 index s n)
  let ?lk = "lookup_table index"
  have best: "list_best ?lk (cells s n) =
      best_pair (\<lambda>at. fst (index_lookup index (cell s at) (cell s (at + 1)))) (n - 1)"
    unfolding list_best_def length_cells by (rule best_pair_cong) (simp add: lookup_table_def)
  obtain rank at res where b: "list_best ?lk (cells s n) = (rank, at, res)"
    by (cases "list_best ?lk (cells s n)")
  show ?case
  proof (cases "n \<ge> 2 \<and> rank \<noteq> NO_ENTRY")
    case True
    have idx: "Suc at < n" "?lk (cells s n ! at) (cells s n ! Suc at) = Some (res, rank)"
      using list_best_index [OF b] True unfolding length_cells by blast+
    let ?s = "shift_cells (at + 1) (n - 1) (put_cell at res s)"
    note merged = cells_merge [OF 1(2,3) idx(1) lookup_table_less [OF idx(2)]]
    have loop: "bpe_loop index s n = bpe_loop index ?s (n - 1)"
      using True b unfolding best by (subst bpe_loop.simps) simp
    have "bpe_list ?lk (cells s n) = bpe_list ?lk (merge_at at res (cells s n))"
      using True b by (subst bpe_list.simps) simp
    moreover have "case bpe_loop index ?s (n - 1) of (s', n') \<Rightarrow>
        cells s' n' = bpe_list ?lk (cells ?s (n - 1)) \<and> segment_only ?s s' \<and>
        length s' = TOKEN_SCRATCH \<and> n' \<le> n - 1"
      by (rule 1(1) [OF _ b [symmetric, unfolded best] refl]) (use True merged 1(3) in auto)
    ultimately show ?thesis
      using merged segment_only_trans [OF merged(2)] by (auto simp: loop)
  next
    case False
    have "rank = NO_ENTRY"
    proof (cases "n \<ge> 2")
      case True
      with False show ?thesis by simp
    next
      case small: False
      then have "n - 1 = 0" by simp
      then show ?thesis using b by (simp add: list_best_def best_pair_def)
    qed
    then have "bpe_list ?lk (cells s n) = cells s n" using b by (subst bpe_list.simps) simp
    moreover have "bpe_loop index s n = (s, n)"
      using \<open>rank = NO_ENTRY\<close> b unfolding best by (subst bpe_loop.simps) simp
    ultimately show ?thesis using 1(2) by simp
  qed
qed

lemma stage_token_facts:
  assumes "length s = TOKEN_SCRATCH" and "at < MAX_TOKENS"
  shows "length (stage_token at v s) = TOKEN_SCRATCH" "cell (stage_token at v s) j = cell s j"
    "drop STAGED_RENDERED (stage_token at v s) = drop STAGED_RENDERED s"
    "v < 2 ^ 32 \<Longrightarrow> staged_tokens (stage_token at v s) (Suc at) = staged_tokens s at @ [v]"
proof -
  have room: "STAGED_TOKENS + at * 4 + 4 \<le> length s"
    and below: "STAGED_TOKENS + at * 4 + 4 \<le> CURRENT_SEGMENT"
    using assms by (simp_all add: STAGED_TOKENS_def TOKEN_SCRATCH_def MAX_TOKENS_def CURRENT_SEGMENT_def)
  show "length (stage_token at v s) = TOKEN_SCRATCH" using room assms(1) by (simp add: stage_token_def)
  show "cell (stage_token at v s) j = cell s j"
    unfolding cell_def stage_token_def using below by (intro u32_at_put_other [OF room]) simp
  show "drop STAGED_RENDERED (stage_token at v s) = drop STAGED_RENDERED s"
    using room below by (simp add: stage_token_def put_u32_def write_at_def STAGED_RENDERED_def
        CURRENT_SEGMENT_def)
  assume v: "v < 2 ^ 32"
  have "u32_at (stage_token at v s) (STAGED_TOKENS + j * 4) = u32_at s (STAGED_TOKENS + j * 4)"
    if "j < at" for j
    unfolding stage_token_def using that by (intro u32_at_put_other [OF room]) simp
  then show "staged_tokens (stage_token at v s) (Suc at) = staged_tokens s at @ [v]"
    using v u32_at_put_same [OF room, of v] by (simp add: staged_tokens_def stage_token_def)
qed

lemma publish_facts:
  assumes "length s = TOKEN_SCRATCH" and "count + n \<le> MAX_TOKENS"
  shows "length (fold (\<lambda>at s. stage_token (count + at) (cell s at) s) [0..<n] s) = TOKEN_SCRATCH \<and>
    (\<forall>j. cell (fold (\<lambda>at s. stage_token (count + at) (cell s at) s) [0..<n] s) j = cell s j) \<and>
    drop STAGED_RENDERED (fold (\<lambda>at s. stage_token (count + at) (cell s at) s) [0..<n] s) =
      drop STAGED_RENDERED s \<and>
    staged_tokens (fold (\<lambda>at s. stage_token (count + at) (cell s at) s) [0..<n] s) (count + n) =
      staged_tokens s count @ cells s n"
  using assms(2)
proof (induction n)
  case 0
  then show ?case using assms(1) by (simp add: cells_def)
next
  case (Suc n)
  let ?s = "fold (\<lambda>at s. stage_token (count + at) (cell s at) s) [0..<n] s"
  have IH: "length ?s = TOKEN_SCRATCH" "\<And>j. cell ?s j = cell s j"
    "drop STAGED_RENDERED ?s = drop STAGED_RENDERED s"
    "staged_tokens ?s (count + n) = staged_tokens s count @ cells s n"
    using Suc by auto
  have n: "count + n < MAX_TOKENS" using Suc.prems by simp
  note st = stage_token_facts [OF IH(1) n, of "cell ?s n"]
  show ?case
    using st(1,2,3) st(4) [OF cell_less] IH by (simp add: cells_def)
qed

section \<open>What an operation appends\<close>

text \<open>
  An operation appends the tokens \<open>ts\<close> to the staged ones, keeping the rendered text; it
  reports an error exactly when there would be more than 599 tokens.
\<close>

definition staging_ok :: "staging \<Rightarrow> bool" where
  "staging_ok st \<longleftrightarrow> length (fst st) = TOKEN_SCRATCH \<and> snd st \<le> MAX_TOKENS"

definition appends :: "staging \<Rightarrow> nat list \<Rightarrow> model_error + staging \<Rightarrow> bool" where
  "appends st ts m \<longleftrightarrow>
     (case m of
        Inl e \<Rightarrow> snd st + length ts > MAX_TOKENS \<and> (\<exists>n>MAX_TOKENS. e = too_many_tokens n)
      | Inr st' \<Rightarrow> staging_ok st' \<and> snd st' = snd st + length ts \<and>
          staged_tokens (fst st') (snd st') = staged_tokens (fst st) (snd st) @ ts \<and>
          drop STAGED_RENDERED (fst st') = drop STAGED_RENDERED (fst st))"

lemma appends_nothing: "staging_ok st \<Longrightarrow> appends st [] (Inr st)"
  by (simp add: appends_def)

lemma appends_bind:
  assumes "appends st ts m" and "\<And>st'. staging_ok st' \<Longrightarrow> appends st' us (f st')"
  shows "appends st (ts @ us) (bind_result m f)"
proof (cases m)
  case (Inl e)
  then show ?thesis using assms(1) by (simp add: appends_def)
next
  case (Inr st')
  then have st': "staging_ok st'" "snd st' = snd st + length ts"
    "staged_tokens (fst st') (snd st') = staged_tokens (fst st) (snd st) @ ts"
    "drop STAGED_RENDERED (fst st') = drop STAGED_RENDERED (fst st)"
    using assms(1) by (auto simp: appends_def)
  show ?thesis
    using assms(2) [OF st'(1)] st' Inr by (auto simp: appends_def split: sum.splits)
qed

lemma control_appends: "staging_ok st \<Longrightarrow> token < 2 ^ 32 \<Longrightarrow> appends st [token] (control token st)"
  using stage_token_facts [of "fst st" "snd st" token]
  by (cases st) (auto simp: control_def appends_def staging_ok_def)

definition bpe_tokens :: "bytes \<Rightarrow> bytes \<Rightarrow> nat list" where
  "bpe_tokens index input = bpe_list (lookup_table index) (map (byte_token index) input)"

lemma bpe_appends:
  assumes "staging_ok st" and "length input \<le> MAX_SEGMENT"
  shows "appends st (bpe_tokens index input) (bpe index input st)"
proof -
  obtain s count where st: "st = (s, count)" by (cases st)
  have s: "length s = TOKEN_SCRATCH" using assms(1) by (simp add: st staging_ok_def)
  let ?f = "\<lambda>at. u32_at index (BYTE_MAP_OFFSET + unat (input ! at) * 4)"
  let ?s = "fold (\<lambda>at. put_cell at (?f at)) [0..<length input] s"
  have fill: "segment_only s ?s" "length ?s = TOKEN_SCRATCH"
    "cells ?s (length input) = map (byte_token index) input"
  proof -
    have small: "\<And>j. ?f j < 2 ^ 32" by (rule u32_at_less)
    have "map ?f [0..<length input] = map (byte_token index) input"
      by (rule nth_equalityI) (simp_all add: byte_token_def)
    then show "segment_only s ?s" "length ?s = TOKEN_SCRATCH"
      "cells ?s (length input) = map (byte_token index) input"
      using fill_cells_facts [OF s assms(2) small] by simp_all
  qed
  obtain s' n where loop: "bpe_loop index ?s (length input) = (s', n)"
    by (cases "bpe_loop index ?s (length input)")
  have merged: "cells s' n = bpe_tokens index input" "segment_only ?s s'" "length s' = TOKEN_SCRATCH"
    using bpe_loop_list [OF fill(2) assms(2), of index] loop fill(3) by (simp_all add: bpe_tokens_def)
  have n: "n = length (bpe_tokens index input)" using merged(1) length_cells by metis
  have frame: "take CURRENT_SEGMENT s' = take CURRENT_SEGMENT s"
    "drop STAGED_RENDERED s' = drop STAGED_RENDERED s"
    using segment_only_trans [OF fill(1) merged(2)] by (simp_all add: segment_only_def)
  have staged: "staged_tokens s' count = staged_tokens s count"
  proof -
    have "u32_at s' (STAGED_TOKENS + j * 4) = u32_at s (STAGED_TOKENS + j * 4)" if "j < count" for j
    proof -
      have "STAGED_TOKENS + j * 4 + 4 \<le> CURRENT_SEGMENT"
        using that assms(1) by (simp add: st staging_ok_def STAGED_TOKENS_def CURRENT_SEGMENT_def
            MAX_TOKENS_def)
      then have "slice x (STAGED_TOKENS + j * 4) (STAGED_TOKENS + j * 4 + 4) =
          slice (take CURRENT_SEGMENT x) (STAGED_TOKENS + j * 4) (STAGED_TOKENS + j * 4 + 4)" for x :: bytes
        by (simp add: slice_def drop_take min_def)
      then show ?thesis using frame(1) unfolding u32_at_def by metis
    qed
    then show ?thesis by (simp add: staged_tokens_def)
  qed
  show ?thesis
  proof (cases "count + n > MAX_TOKENS")
    case True
    then show ?thesis using assms(2) by (auto simp: bpe_def st loop appends_def n)
  next
    case False
    then show ?thesis
      using publish_facts [OF merged(3), of count n] assms(2) frame(2) staged merged(1)
      by (simp add: bpe_def st loop appends_def staging_ok_def n not_less)
  qed
qed

section \<open>Pieces of a text\<close>

lemma run_end_length: "at \<le> length input \<Longrightarrow> run_end p input at \<le> length input"
  using length_takeWhile_le [of p "drop at input"] by (simp add: run_end_def)

lemma fold_position_le:
  "(\<And>at e. f at e = Suc at \<or> f at e = e) \<Longrightarrow> fold f [0..<n] 0 \<le> (n::nat)"
proof (induction n)
  case (Suc n)
  have "f n (fold f [0..<n] 0) = Suc n \<or> f n (fold f [0..<n] 0) = fold f [0..<n] 0" by (rule Suc(2))
  then show ?case using Suc(1) [OF Suc(2)] by auto
qed simp

lemma newline_fold_le:
  "fold (\<lambda>at e. if is_newline (input ! at) then at + 1 else e) [0..<n] 0 \<le> n"
  by (rule fold_position_le) simp

lemma space_run_le:
  assumes "input \<noteq> []"
  shows "space_run input \<le> length input"
proof -
  let ?stop = "run_end is_space input 1"
  have run: "?stop \<le> length input"
    using assms by (intro run_end_length) (simp add: Suc_le_eq)
  then have "fold (\<lambda>at e. if is_newline (input ! at) then at + 1 else e) [0..<?stop] 0 \<le> length input"
    using newline_fold_le le_trans by blast
  then show ?thesis using run unfolding space_run_def Let_def by (auto simp del: One_nat_def)
qed

lemma pretoken_length_le:
  assumes "input \<noteq> []"
  shows "pretoken_length input \<le> length input"
proof -
  have pos: "0 < length input" using assms by simp
  have "run_end p input (Suc n) \<le> length input" if "n < length input" for p n
    using that by (intro run_end_length) simp
  moreover have "run_end q input (run_end p input (Suc n)) \<le> length input" if "n < length input" for p q n
    using that by (intro run_end_length) simp
  ultimately show ?thesis
    using pos space_run_le [OF assms]
    by (auto simp: pretoken_length_def Let_def find_Some_iff Suc_le_eq
        split: option.split if_splits)
qed

function fragments :: "bytes \<Rightarrow> bytes list" where
  "fragments input =
     (if input = [] then []
      else take (pretoken_length input) input # fragments (drop (pretoken_length input) input))"
  by pat_completeness auto
termination
  by (relation "measure length") (auto intro!: diff_less dest: pretoken_length_pos)

declare fragments.simps [simp del]

lemma concat_fragments: "concat (fragments input) = input"
proof (induction input rule: fragments.induct)
  case (1 input)
  then show ?case by (cases "input = []") (subst fragments.simps; simp)+
qed

lemma fragments_nonempty: "list_all (\<lambda>f. f \<noteq> []) (fragments input)"
proof (induction input rule: fragments.induct)
  case (1 input)
  then show ?case
    using pretoken_length_pos [of input] by (cases "input = []") (subst fragments.simps; auto)+
qed

text \<open>A text is cut at the two tool markers, and the rest into pre-tokens.\<close>

function split_text :: "bytes \<Rightarrow> (bytes + nat) list" where
  "split_text input =
     (if input = [] then []
      else case next_user_defined input of (special_at, special, special_len) \<Rightarrow>
        map Inl (fragments (take special_at input)) @
        (if special \<noteq> 0 then Inr special # split_text (drop special_len (drop special_at input))
         else map Inl (fragments (drop special_at input))))"
  by pat_completeness auto
termination
  by (relation "measure length") (auto dest!: next_user_defined_special [OF sym])

declare split_text.simps [simp del]

definition piece_tokens :: "bytes \<Rightarrow> bytes + nat \<Rightarrow> nat list" where
  "piece_tokens index p = (case p of Inl f \<Rightarrow> bpe_tokens index f | Inr special \<Rightarrow> [special])"

definition ordinary_tokens :: "bytes \<Rightarrow> bytes \<Rightarrow> nat list" where
  "ordinary_tokens index input = concat (map (piece_tokens index) (split_text input))"

definition piece_bytes :: "bytes + nat \<Rightarrow> bytes" where
  "piece_bytes p =
     (case p of Inl f \<Rightarrow> f | Inr special \<Rightarrow> if special = 151657 then TOOL_CALL else TOOL_END)"

lemma split_text_concat: "concat (map piece_bytes (split_text input)) = input"
proof (induction input rule: split_text.induct)
  case (1 input)
  show ?case
  proof (cases "input = []")
    case True
    then show ?thesis by (simp add: split_text.simps)
  next
    case False
    obtain at special n where found: "next_user_defined input = (at, special, n)"
      by (cases "next_user_defined input")
    have inl: "concat (map piece_bytes (map Inl fs)) = concat fs" for fs
      by (simp add: piece_bytes_def o_def)
    show ?thesis
    proof (cases "special = 0")
      case True
      then show ?thesis
        using False found by (subst split_text.simps) (simp add: inl concat_fragments del: map_map)
    next
      case sp: False
      note facts = next_user_defined_special [OF found sp]
      have "concat (map piece_bytes (split_text (drop n (drop at input)))) = drop n (drop at input)"
        by (rule 1 [OF False found [symmetric] refl sp])
      moreover have "piece_bytes (Inr special) = take n (drop at input)"
        using facts by (simp add: piece_bytes_def)
      ultimately have "concat (map piece_bytes (split_text input)) =
          take at input @ take n (drop at input) @ drop n (drop at input)"
        using False found sp
        by (subst split_text.simps) (simp add: inl concat_fragments del: map_map drop_drop)
      then show ?thesis by (simp only: append_take_drop_id)
    qed
  qed
qed

lemma fragments_appends:
  assumes "staging_ok st" and "length input \<le> MAX_SEGMENT"
  shows "appends st (concat (map (bpe_tokens index) (fragments input))) (regex_fragments index input st)"
  using assms
proof (induction index input st rule: regex_fragments.induct)
  case (1 index input st)
  show ?case
  proof (cases "input = []")
    case True
    then show ?thesis using appends_nothing [OF 1(2)] by (simp add: regex_fragments.simps fragments.simps)
  next
    case False
    let ?n = "pretoken_length input"
    have first: "appends st (bpe_tokens index (take ?n input)) (bpe index (take ?n input) st)"
      using 1(2,3) by (intro bpe_appends) simp_all
    have rest: "appends st' (concat (map (bpe_tokens index) (fragments (drop ?n input))))
        (regex_fragments index (drop ?n input) st')" if "staging_ok st'" for st'
      using 1(3) by (intro 1(1) [OF False refl that]) simp
    have "fragments input = take ?n input # fragments (drop ?n input)"
      using False by (simp add: fragments.simps [of input])
    moreover have "regex_fragments index input st =
        bind_result (bpe index (take ?n input) st) (regex_fragments index (drop ?n input))"
      using False by (simp add: regex_fragments.simps [of index input] Let_def)
    ultimately show ?thesis using appends_bind [OF first rest] by simp
  qed
qed

lemma next_user_defined_none: "next_user_defined input = (at, 0, n) \<Longrightarrow> at = length input"
  by (auto simp: next_user_defined_def split: option.splits if_splits)

lemma ordinary_appends:
  assumes "staging_ok st" and "length input \<le> MAX_SEGMENT"
  shows "appends st (ordinary_tokens index input) (ordinary index input st)"
  using assms
proof (induction index input st rule: ordinary.induct)
  case (1 index input st)
  show ?case
  proof (cases "input = []")
    case True
    then show ?thesis
      using appends_nothing [OF 1(2)] by (simp add: ordinary.simps ordinary_tokens_def split_text.simps)
  next
    case False
    obtain at special n where found: "next_user_defined input = (at, special, n)"
      by (cases "next_user_defined input")
    let ?rest = "drop at input"
    let ?first = "if at \<noteq> 0 then regex_fragments index (take at input) st else Inr st"
    have pieces: "concat (map (piece_tokens index) (map Inl fs)) = concat (map (bpe_tokens index) fs)" for fs
      by (simp add: piece_tokens_def o_def)
    have "appends st (concat (map (bpe_tokens index) (fragments (take at input)))) ?first"
    proof (cases "at = 0")
      case True
      then show ?thesis using appends_nothing [OF 1(2)] by (simp add: fragments.simps)
    next
      case False
      then show ?thesis using fragments_appends [OF 1(2), of "take at input" index] 1(3) by simp
    qed
    note first = this
    show ?thesis
    proof (cases "special = 0")
      case True
      then have "at = length input" using next_user_defined_none found by simp
      then have "ordinary_tokens index input = concat (map (bpe_tokens index) (fragments (take at input))) @ []"
        using False found True
        by (simp add: ordinary_tokens_def split_text.simps [of input] fragments.simps [of "[]"] pieces
            del: map_map)
      moreover have "ordinary index input st = bind_result ?first (\<lambda>st. Inr st)"
        using False found True \<open>at = length input\<close> by (simp add: ordinary.simps [of index input])
      ultimately show ?thesis using appends_bind [OF first appends_nothing] by simp
    next
      case sp: False
      note facts = next_user_defined_special [OF found sp]
      let ?after = "drop n ?rest"
      have small: "special < 2 ^ 32" using facts by auto
      have after: "appends st' (ordinary_tokens index ?after) (ordinary index ?after st')"
        if "staging_ok st'" for st'
        using 1(3) by (intro 1(1) [OF False found [symmetric] refl refl sp that]) simp
      have "ordinary_tokens index input = concat (map (bpe_tokens index) (fragments (take at input))) @
          [special] @ ordinary_tokens index ?after"
        using False found sp
        by (simp add: ordinary_tokens_def split_text.simps [of input] pieces piece_tokens_def [of _ "Inr _"]
            del: map_map drop_drop)
      moreover have "ordinary index input st = bind_result ?first (\<lambda>st.
          bind_result (control special st) (ordinary index ?after))"
        using False found sp by (simp add: ordinary.simps [of index input] Let_def del: drop_drop)
      ultimately show ?thesis
        using appends_bind [OF first appends_bind [OF control_appends [OF _ small] after]] by simp
    qed
  qed
qed

end
