(* ===== verification/PB_Prompt.thy ===== *)
theory PB_Prompt
  imports PB_Tokenizer
begin

text \<open>
  What the prompt operations of \<open>crates/promptboot-core/src/tokenizer.rs\<close> promise.
  \<open>prompt_tokens\<close> is the reference: the list of tokens of the chat template around a user text,
  built from \<open>ordinary_tokens\<close> alone, with no buffer in it. The theorems refine
  \<open>render_and_tokenize\<close> and \<open>render_conversation\<close>, with their scratch buffer and their three
  outputs, to it.
\<close>

section \<open>The reference prompt\<close>

definition prefix_tokens :: "bytes \<Rightarrow> nat list" where
  "prefix_tokens index =
     [IM_START] @ ordinary_tokens index (ascii ''system'') @ ordinary_tokens index NEWLINE @
     ordinary_tokens index SYSTEM_TEXT @ [IM_END] @ ordinary_tokens index NEWLINE @
     [IM_START] @ ordinary_tokens index (ascii ''user'') @ ordinary_tokens index NEWLINE"

definition assistant_tokens :: "bytes \<Rightarrow> nat list" where
  "assistant_tokens index =
     [IM_END] @ ordinary_tokens index NEWLINE @ [IM_START] @
     ordinary_tokens index (ascii ''assistant'') @ ordinary_tokens index NEWLINE"

definition prompt_tokens :: "bytes \<Rightarrow> bytes \<Rightarrow> nat list" where
  "prompt_tokens index user = prefix_tokens index @ ordinary_tokens index user @ assistant_tokens index"

definition prompt_text :: "bytes \<Rightarrow> bytes" where
  "prompt_text user = TEMPLATE_BEFORE @ user @ TEMPLATE_AFTER"

lemma template_lengths: "length TEMPLATE_BEFORE + length TEMPLATE_AFTER = 148"
  by code_simp

lemma length_prompt_text [simp]: "length (prompt_text user) = 148 + length user"
  using template_lengths by (simp add: prompt_text_def)

section \<open>The staged template\<close>

lemma stage_template_eq:
  assumes "length scratch = TOKEN_SCRATCH" and "length user \<le> MAX_SEGMENT"
  shows "stage_template user scratch = take STAGED_RENDERED scratch @ prompt_text user @
    drop (STAGED_RENDERED + 148 + length user) scratch"
proof -
  have len: "STAGED_RENDERED + 148 + length user \<le> length scratch"
    using assms by (simp add: STAGED_RENDERED_def TOKEN_SCRATCH_def MAX_SEGMENT_def)
  have b: "length TEMPLATE_BEFORE = 148 - length TEMPLATE_AFTER" "length TEMPLATE_AFTER \<le> 148"
    using template_lengths by simp_all
  show ?thesis
    using len b by (simp add: stage_template_def write_at_def prompt_text_def Let_def ac_simps)
qed

lemma stage_template_facts:
  assumes "length scratch = TOKEN_SCRATCH" and "length user \<le> MAX_SEGMENT"
  shows "staging_ok (stage_template user scratch, 0)"
    "take (148 + length user) (drop STAGED_RENDERED (stage_template user scratch)) = prompt_text user"
proof -
  have len: "STAGED_RENDERED + 148 + length user \<le> length scratch"
    using assms by (simp add: STAGED_RENDERED_def TOKEN_SCRATCH_def MAX_SEGMENT_def)
  show "staging_ok (stage_template user scratch, 0)"
    using len assms(1) by (simp add: staging_ok_def stage_template_eq [OF assms])
  show "take (148 + length user) (drop STAGED_RENDERED (stage_template user scratch)) = prompt_text user"
    using len by (simp add: stage_template_eq [OF assms])
qed

section \<open>The computation of a prompt\<close>

lemma staged_tokens_0: "staged_tokens s 0 = []"
  by (simp add: staged_tokens_def)

lemma short_texts:
  "length (ascii ''system'') \<le> MAX_SEGMENT" "length NEWLINE \<le> MAX_SEGMENT"
  "length SYSTEM_TEXT \<le> MAX_SEGMENT" "length (ascii ''user'') \<le> MAX_SEGMENT"
  "length (ascii ''assistant'') \<le> MAX_SEGMENT" "IM_START < 2 ^ 32" "IM_END < 2 ^ 32"
  by (simp_all add: ascii_def NEWLINE_def SYSTEM_TEXT_def MAX_SEGMENT_def IM_START_def IM_END_def)

lemma prompt_head_appends:
  "staging_ok st \<Longrightarrow> appends st (prefix_tokens index) (prompt_head index st)"
  unfolding prompt_head_def prefix_tokens_def
  by (intro appends_bind control_appends ordinary_appends short_texts)

lemma prompt_tail_appends:
  "staging_ok st \<Longrightarrow> appends st (assistant_tokens index) (prompt_tail index st)"
  unfolding prompt_tail_def assistant_tokens_def
  by (intro appends_bind control_appends ordinary_appends short_texts)

lemma compute_prompt_facts:
  assumes "length scratch = TOKEN_SCRATCH" and "length user \<le> MAX_SEGMENT"
  shows "case compute_prompt index user scratch of
      Inl e \<Rightarrow> MAX_TOKENS < length (prompt_tokens index user) \<and> (\<exists>n>MAX_TOKENS. e = too_many_tokens n)
    | Inr (p, staged) \<Rightarrow>
        p = \<lparr>pc_rendered = 148 + length user, pc_tokens = length (prompt_tokens index user),
          pc_prefix = length (prefix_tokens index), pc_user = length (ordinary_tokens index user)\<rparr> \<and>
        length (prompt_tokens index user) \<le> MAX_TOKENS \<and>
        staged_tokens staged (pc_tokens p) = prompt_tokens index user \<and>
        slice staged STAGED_RENDERED (STAGED_RENDERED + pc_rendered p) = prompt_text user"
proof -
  let ?s = "(stage_template user scratch, 0)"
  note stage = stage_template_facts [OF assms]
  have len: "length TEMPLATE_BEFORE + (length user + length TEMPLATE_AFTER) = 148 + length user"
    using template_lengths by simp
  note head = prompt_head_appends [OF stage(1), of index]
  show ?thesis
  proof (cases "prompt_head index ?s")
    case (Inl e)
    then show ?thesis using head by (simp add: compute_prompt_def appends_def prompt_tokens_def)
  next
    case h: (Inr st)
    then have st: "staging_ok st" "snd st = length (prefix_tokens index)"
      "staged_tokens (fst st) (snd st) = prefix_tokens index"
      "drop STAGED_RENDERED (fst st) = drop STAGED_RENDERED (stage_template user scratch)"
      using head by (auto simp: appends_def staged_tokens_0)
    note mid = ordinary_appends [OF st(1) assms(2), of index]
    show ?thesis
    proof (cases "ordinary index user st")
      case (Inl e)
      then show ?thesis using mid h st(2) by (simp add: compute_prompt_def appends_def prompt_tokens_def)
    next
      case m: (Inr st')
      then have st': "staging_ok st'" "snd st' = length (prefix_tokens index) + length (ordinary_tokens index user)"
        "staged_tokens (fst st') (snd st') = prefix_tokens index @ ordinary_tokens index user"
        "drop STAGED_RENDERED (fst st') = drop STAGED_RENDERED (stage_template user scratch)"
        using mid st by (auto simp: appends_def)
      note tail = prompt_tail_appends [OF st'(1), of index]
      show ?thesis
      proof (cases "prompt_tail index st'")
        case (Inl e)
        then show ?thesis
          using tail h m st(2) st'(2) by (simp add: compute_prompt_def appends_def prompt_tokens_def)
      next
        case t: (Inr st'')
        have shown: "slice (fst st'') STAGED_RENDERED (STAGED_RENDERED + (148 + length user)) = prompt_text user"
          using tail t st'(4) stage(2) by (simp add: appends_def slice_def drop_take)
        show ?thesis
          using tail h m t st(2) st'(2,3) shown
          by (auto simp: compute_prompt_def appends_def prompt_tokens_def staging_ok_def len Let_def add.assoc)
      qed
    qed
  qed
qed

section \<open>The operations\<close>

lemma write_at_0: "write_at xs 0 ys = ys @ drop (length ys) xs"
  by (simp add: write_at_def)

lemma validated_request:
  assumes "validate_prompt_request user rendered_len token_len address scratch_len = Inr u"
  shows "length user \<le> MAX_SEGMENT" "148 + length user \<le> rendered_len" "MAX_TOKENS \<le> token_len"
    "TOKEN_SCRATCH \<le> scratch_len"
  using assms by (auto simp: validate_prompt_request_def bind_result_Inr MAX_SEGMENT_def)

text \<open>
  C12: A prompt is rendered and tokenised as the chat template says. A request that is refused
  changes no buffer. Otherwise the tokens of the prompt are those of the reference, whatever the
  scratch buffer held before: if they are at most 599, the rendered text, then the tokens, are
  written at the start of their buffers and nothing behind them changes; if they are more, the
  call fails and writes neither. In both cases the 5,120 bytes of scratch are cleared.
\<close>

theorem render_is_reference:
  "case validate_prompt_request user (length rendered) (length tokens) address (length scratch) of
     Inl e \<Rightarrow> render_and_tokenize tok user rendered tokens address scratch =
       (Inl e, rendered, tokens, scratch)
   | Inr _ \<Rightarrow>
       let ts = prompt_tokens (tk_index tok) user;
           cleared = replicate TOKEN_SCRATCH 0 @ drop TOKEN_SCRATCH scratch
       in if length ts \<le> 599
          then render_and_tokenize tok user rendered tokens address scratch =
            (Inr \<lparr>pu_rendered = 148 + length user, pu_tokens = length ts,
               pu_prefix = length (prefix_tokens (tk_index tok)), pu_im_start = 3, pu_im_end = 2\<rparr>,
             prompt_text user @ drop (148 + length user) rendered, ts @ drop (length ts) tokens, cleared)
          else \<exists>n>599. render_and_tokenize tok user rendered tokens address scratch =
            (Inl (too_many_tokens n), rendered, tokens, cleared)"
proof (cases "validate_prompt_request user (length rendered) (length tokens) address (length scratch)")
  case (Inl e)
  then show ?thesis by (simp add: render_and_tokenize_def)
next
  case (Inr u)
  note ok = validated_request [OF Inr]
  have "length (take TOKEN_SCRATCH scratch) = TOKEN_SCRATCH" using ok(4) by simp
  note facts = compute_prompt_facts [OF this ok(1), of "tk_index tok"]
  show ?thesis
    using facts Inr
    by (auto simp: render_and_tokenize_def write_at_0 clear_scratch_def Let_def MAX_TOKENS_def
        split: sum.splits)
qed

section \<open>Conversations\<close>

lemma second_start_Some:
  "second_start ts at seen = Some k \<Longrightarrow> at \<le> k \<and> k - at < length ts \<and> ts ! (k - at) = IM_START \<and>
     seen + count_list (take (k - at) ts) IM_START = 1"
proof (induction ts at seen rule: second_start.induct)
  case (2 token tokens at seen)
  show ?case
  proof (cases "token = IM_START \<and> seen + 1 = 2")
    case True
    then show ?thesis using 2(3) by simp
  next
    case False
    let ?seen = "if token = IM_START then seen + 1 else seen"
    have rest: "second_start tokens (at + 1) ?seen = Some k" using 2(3) False by (auto split: if_splits)
    have IH: "at + 1 \<le> k" "k - (at + 1) < length tokens" "tokens ! (k - (at + 1)) = IM_START"
      "?seen + count_list (take (k - (at + 1)) tokens) IM_START = 1"
      using 2(1,2) rest False by (auto split: if_splits)
    have "k - at = Suc (k - (at + 1))" using IH(1) by simp
    then show ?thesis using IH by (auto split: if_splits)
  qed
qed simp

lemma suffix_start_Inr:
  assumes "suffix_start fresh = Inr start"
  shows "Suc start < length fresh" "fresh ! start = 198" "fresh ! Suc start = IM_START"
    "count_list (take (Suc start) fresh) IM_START = 1"
  using assms second_start_Some [of fresh 0 0 "Suc start"]
  by (auto simp: suffix_start_def split: option.splits nat.splits if_splits)

lemma validated_conversation:
  assumes "validate_conversation history user address b = Inr u"
  shows "validate_prompt_request user (length (cb_rendered b)) (length (cb_staging b)) address
      (length (cb_scratch b)) = Inr ()"
    "history = [] \<or> last history = IM_END" "IMAGE_CONTEXT \<le> length (cb_tokens b)"
    "length history \<le> IMAGE_CONTEXT"
  using assms by (auto simp: validate_conversation_def validate_conversation_history_def bind_result_Inr
      split: if_splits)

text \<open>The tokens a turn adds to a conversation: all of its prompt, or the part behind the first turn.\<close>

definition turn_from :: "nat list \<Rightarrow> nat list \<Rightarrow> nat \<Rightarrow> bool" where
  "turn_from history fresh start \<longleftrightarrow>
     (if history = [] then start = 0
      else last history = IM_END \<and> Suc start < length fresh \<and> fresh ! start = 198 \<and>
        fresh ! Suc start = IM_START \<and> count_list (take (Suc start) fresh) IM_START = 1)"

lemma prepared_turn:
  assumes "validate_conversation history user address b = Inr unit"
    and "compute_prompt index user (take TOKEN_SCRATCH (cb_scratch b)) = Inr (p, staged)"
  shows "pc_rendered p = 148 + length user" "pc_tokens p = length (prompt_tokens index user)"
    "staged_tokens staged (pc_tokens p) = prompt_tokens index user"
    "slice staged STAGED_RENDERED (STAGED_RENDERED + pc_rendered p) = prompt_text user"
    "pc_prefix p = length (prefix_tokens index)"
proof -
  note ok = validated_request [OF validated_conversation(1) [OF assms(1)]]
  have "length (take TOKEN_SCRATCH (cb_scratch b)) = TOKEN_SCRATCH" using ok(4) by simp
  note facts = compute_prompt_facts [OF this ok(1), of index]
  show "pc_rendered p = 148 + length user" "pc_tokens p = length (prompt_tokens index user)"
    "staged_tokens staged (pc_tokens p) = prompt_tokens index user"
    "slice staged STAGED_RENDERED (STAGED_RENDERED + pc_rendered p) = prompt_text user"
    "pc_prefix p = length (prefix_tokens index)"
    using facts by (auto simp: assms(2))
qed

lemma validated_staging:
  "validate_conversation history user address b = Inr u \<Longrightarrow> MAX_TOKENS \<le> length (cb_staging b)"
  by (auto simp: validate_conversation_def bind_result_Inr require_def split: if_splits)

lemma cleared_scratch: "clear_scratch scratch = replicate 5120 0 @ drop 5120 scratch"
  by (simp add: clear_scratch_def write_at_0 TOKEN_SCRATCH_def)

lemma published_turn:
  assumes "n = length history + (length fresh - start)"
  shows "slice (write_at staging 0 fresh) start (length fresh) = drop start fresh"
    "write_at (write_at tokens 0 history) (length history) (drop start fresh) =
       history @ drop start fresh @ drop n tokens"
  using assms by (simp_all add: write_at_0 slice_def) (simp add: write_at_def add.commute)

text \<open>The counts a request reports.\<close>

definition turn_counts :: "bytes \<Rightarrow> nat list \<Rightarrow> bytes \<Rightarrow> nat \<Rightarrow> conversation_usage" where
  "turn_counts index history user prompt =
     \<lparr>cu_rendered = 148 + length user, cu_user = length (ordinary_tokens index user),
      cu_fresh = length (prompt_tokens index user), cu_history = length history, cu_prompt = prompt,
      cu_prefix = length (prefix_tokens index)\<rparr>"

text \<open>What a request leaves in its five outputs: when it fails, and when it publishes its turn.\<close>

lemma conversation_effects:
  "case render_conversation tok history user address b of
     (Inl e, b') \<Rightarrow>
       (case validate_conversation history user address b of
          Inl e' \<Rightarrow> e' = e \<and> b' = b
        | Inr _ \<Rightarrow>
            let fresh = prompt_tokens (tk_index tok) user; u = cb_outcome b'
            in b' = b\<lparr>cb_scratch := replicate 5120 0 @ drop 5120 (cb_scratch b), cb_outcome := u\<rparr> \<and>
               (if 599 < length fresh then u = cb_outcome b
                else u = turn_counts (tk_index tok) history user 0 \<or>
                  (\<exists>start. turn_from history fresh start \<and> IMAGE_CONTEXT < cu_prompt u \<and>
                     u = turn_counts (tk_index tok) history user (length history + length (drop start fresh)))))
   | (Inr u, b') \<Rightarrow> (\<exists>start.
       let fresh = prompt_tokens (tk_index tok) user; turn = drop start fresh
       in turn_from history fresh start \<and>
          u = turn_counts (tk_index tok) history user (length history + length turn) \<and> cb_outcome b' = u \<and>
          cu_prompt u = length history + length turn \<and> cu_prompt u \<le> IMAGE_CONTEXT \<and>
          cu_fresh u = length fresh \<and>
          cb_tokens b' = history @ turn @ drop (cu_prompt u) (cb_tokens b) \<and>
          cb_rendered b' = prompt_text user @ drop (148 + length user) (cb_rendered b) \<and>
          cb_staging b' = replicate 599 0 @ drop 599 (cb_staging b) \<and> take 599 (cb_staging b') = replicate 599 0 \<and>
          cb_scratch b' = replicate 5120 0 @ drop 5120 (cb_scratch b) \<and> take 5120 (cb_scratch b') = replicate 5120 0)"
proof (cases "validate_conversation history user address b")
  case (Inl e)
  then show ?thesis by (simp add: render_conversation_def)
next
  case (Inr unit)
  let ?fresh = "prompt_tokens (tk_index tok) user"
  note request = validated_conversation [OF Inr]
  have scratch: "length (take TOKEN_SCRATCH (cb_scratch b)) = TOKEN_SCRATCH" "length user \<le> MAX_SEGMENT"
    using validated_request [OF request(1)] by simp_all
  note computed_facts = compute_prompt_facts [OF scratch, of "tk_index tok"]
  show ?thesis
  proof (cases "compute_prompt (tk_index tok) user (take TOKEN_SCRATCH (cb_scratch b))")
    case (Inl e)
    then show ?thesis using Inr computed_facts
      by (simp add: render_conversation_def Let_def cleared_scratch MAX_TOKENS_def)
  next
    case computed: (Inr pair)
    obtain p staged where pair: "pair = (p, staged)" by (cases pair)
    note p = prepared_turn [OF Inr computed [unfolded pair]]
    have user: "pc_user p = length (ordinary_tokens (tk_index tok) user)" and few: "length ?fresh \<le> 599"
      using computed_facts computed pair by (auto simp: MAX_TOKENS_def)
    let ?choice = "if history = [] then Inr 0 else suffix_start ?fresh"
    note counts = turn_counts_def user p(1,2,5)
    show ?thesis
    proof (cases ?choice)
      case (Inl e)
      then show ?thesis
        unfolding render_conversation_def Inr computed pair sum.case prod.case Let_def p(3)
        using few by (simp add: counts cleared_scratch)
    next
      case chosen: (Inr start)
      have turn: "turn_from history ?fresh start" and start: "start \<le> length ?fresh"
        using chosen request(2) suffix_start_Inr [of ?fresh start]
        by (auto simp: turn_from_def split: if_splits)
      note run = render_conversation_def Inr computed pair sum.case prod.case Let_def p(3) chosen
      show ?thesis
      proof (cases "checked_add (length history) (pc_tokens p - start)")
        case None
        then show ?thesis unfolding run using few by (simp add: counts cleared_scratch)
      next
        case (Some n)
        then have n: "n = length history + (length ?fresh - start)" by (simp add: checked_add_Some p(2))
        have "n \<le> IMAGE_CONTEXT + 599" using n few request(4) by simp
        then have exact: "min n (u32_limit - 1) = n" by (simp add: IMAGE_CONTEXT_def u32_limit_def)
        show ?thesis
        proof (cases "n > IMAGE_CONTEXT")
          case True
          then show ?thesis
            unfolding run Some option.case exact using few turn
            by (auto simp: counts cleared_scratch n [symmetric] intro!: exI [of _ start])
        next
          case False
          then show ?thesis
            unfolding run Some option.case exact unfolding p(2) published_turn [OF n]
            using turn n few validated_staging [OF Inr]
            by (auto simp: counts p(4) [unfolded p(1)] write_at_0 cleared_scratch MAX_TOKENS_def intro!: exI [of _ start])
        qed
      qed
    qed
  qed
qed

text \<open>What a request publishes: nothing, or the turn behind the history with its counts.\<close>

lemma conversation_published:
  "case render_conversation tok history user address b of
     (Inl e, b') \<Rightarrow>
       cb_rendered b' = cb_rendered b \<and> cb_staging b' = cb_staging b \<and> cb_tokens b' = cb_tokens b
   | (Inr u, b') \<Rightarrow> (\<exists>start.
       let fresh = prompt_tokens (tk_index tok) user; turn = drop start fresh
       in turn_from history fresh start \<and>
          cu_prompt u = length history + length turn \<and> cu_prompt u \<le> IMAGE_CONTEXT \<and>
          cu_fresh u = length fresh \<and> cu_prefix u = length (prefix_tokens (tk_index tok)) \<and>
          cb_tokens b' = history @ turn @ drop (cu_prompt u) (cb_tokens b) \<and>
          cb_rendered b' = prompt_text user @ drop (148 + length user) (cb_rendered b) \<and>
          take 599 (cb_staging b') = replicate 599 0 \<and>
          take 5120 (cb_scratch b') = replicate 5120 0)"
proof (cases "render_conversation tok history user address b")
  case (Pair res b')
  note effects = conversation_effects [where tok = tok and history = history and user = user and address = address
    and b = b, unfolded Pair Let_def]
  show ?thesis
  proof (cases res)
    case (Inl e)
    have same: "cb_rendered b' = cb_rendered b \<and> cb_staging b' = cb_staging b \<and> cb_tokens b' = cb_tokens b"
      if eq: "b' = b\<lparr>cb_scratch := x, cb_outcome := u\<rparr>" for x u
      using arg_cong [OF eq, of cb_rendered] arg_cong [OF eq, of cb_staging] arg_cong [OF eq, of cb_tokens] by simp
    show ?thesis
    proof (cases "validate_conversation history user address b")
      case invalid: (Inl e')
      then show ?thesis using effects Inl Pair by simp
    next
      case (Inr unit)
      then have "b' = b\<lparr>cb_scratch := replicate 5120 0 @ drop 5120 (cb_scratch b), cb_outcome := cb_outcome b'\<rparr>"
        using effects Inl by (simp only: sum.case prod.case)
      from same [OF this] show ?thesis using Inl Pair by (simp only: sum.case prod.case)
    qed
  next
    case (Inr u)
    then obtain start where facts: "turn_from history (prompt_tokens (tk_index tok) user) start"
      "u = turn_counts (tk_index tok) history user (length history + length (drop start (prompt_tokens (tk_index tok) user)))"
      "cu_prompt u \<le> IMAGE_CONTEXT"
      "cb_tokens b' = history @ drop start (prompt_tokens (tk_index tok) user) @ drop (cu_prompt u) (cb_tokens b)"
      "cb_rendered b' = prompt_text user @ drop (148 + length user) (cb_rendered b)"
      "take 599 (cb_staging b') = replicate 599 0" "take 5120 (cb_scratch b') = replicate 5120 0"
      using effects by auto
    then show ?thesis using Inr Pair by (auto simp: turn_counts_def intro!: exI [of _ start])
  qed
qed

text \<open>
  C11: A conversation turn is a transaction. A request that is refused changes nothing. If it fails later,
  the rendered text, the staged tokens and the tokens of the conversation are as they were and the
  5,120 bytes of scratch are cleared; the reported counts are as they were when the prompt has more
  than 599 tokens, and otherwise those of the request, with a length of 0 or one beyond the context. If
  it succeeds, the tokens are the history followed by the tokens of the turn, which are those of the
  reference prompt from the newline before its second start marker on (all of them for an empty
  history), the rest of every buffer is untouched, the counts are the real ones and fit the context,
  and the staged copies are erased.
\<close>

theorem conversation_is_transaction:
  "case render_conversation tok history user address b of
     (Inl e, b') \<Rightarrow>
       (case validate_conversation history user address b of
          Inl e' \<Rightarrow> e' = e \<and> b' = b
        | Inr _ \<Rightarrow>
            let fresh = prompt_tokens (tk_index tok) user; u = cb_outcome b'
            in b' = b\<lparr>cb_scratch := replicate 5120 0 @ drop 5120 (cb_scratch b), cb_outcome := u\<rparr> \<and>
               (if 599 < length fresh then u = cb_outcome b
                else u = turn_counts (tk_index tok) history user 0 \<or>
                  (\<exists>start. turn_from history fresh start \<and> IMAGE_CONTEXT < cu_prompt u \<and>
                     u = turn_counts (tk_index tok) history user (length history + length (drop start fresh)))))
   | (Inr u, b') \<Rightarrow> (\<exists>start.
       let fresh = prompt_tokens (tk_index tok) user; turn = drop start fresh
       in turn_from history fresh start \<and>
          u = turn_counts (tk_index tok) history user (length history + length turn) \<and> cb_outcome b' = u \<and>
          cu_prompt u = length history + length turn \<and> cu_prompt u \<le> IMAGE_CONTEXT \<and>
          cu_fresh u = length fresh \<and>
          cb_tokens b' = history @ turn @ drop (cu_prompt u) (cb_tokens b) \<and>
          cb_rendered b' = prompt_text user @ drop (148 + length user) (cb_rendered b) \<and>
          cb_staging b' = replicate 599 0 @ drop 599 (cb_staging b) \<and> take 599 (cb_staging b') = replicate 599 0 \<and>
          cb_scratch b' = replicate 5120 0 @ drop 5120 (cb_scratch b) \<and> take 5120 (cb_scratch b') = replicate 5120 0)"
  by (rule conversation_effects)

end
