(* ===== verification/PB_Spelling.thy ===== *)
theory PB_Spelling
  imports PB_Prompt
begin

text \<open>
  What the tokens of a text say: merging only ever replaces two neighbours by the token that
  spells both, so the tokens of a text spell the text, and \<open>decode_piece\<close> of
  \<open>crates/promptboot-core/src/tokenizer.rs\<close> gives the bytes back. The GPT-2 spelling of a byte is
  the UTF-8 encoding of its code point, and reading UTF-8 back is the code's strict decoder
  \<open>from_utf8\<close>.
\<close>

section \<open>Reading spelled bytes\<close>

lemma first_char_well_formed:
  "well_formed w \<Longrightarrow> first_char (w @ rest) = Some (length w)"
  by (cases w rule: well_formed.cases) (auto simp: first_char_def)

lemma from_utf8_text: "list_all scalar cs \<Longrightarrow> from_utf8 (utf8_text cs) = Inr cs"
proof (induction cs)
  case Nil
  then show ?case by (simp add: from_utf8.simps)
next
  case (Cons c cs)
  note wf = encode_well_formed [of c]
  have "utf8_encode c \<noteq> []" using well_formed_length [OF wf(1)] Cons.prems by auto
  then show ?case
    using Cons wf by (simp add: from_utf8.simps [of "utf8_encode c @ _"] first_char_well_formed)
qed

lemma codepoints: "map gpt2_codepoint (map of_nat [0..<256]) =
    [256..<289] @ [33..<127] @ [289..<323] @ [161..<173] @ [323] @ [174..<256]"
  by code_simp

lemma codepoint_range: "33 \<le> gpt2_codepoint b \<and> gpt2_codepoint b < 0x144"
proof -
  have "list_all (\<lambda>p. 33 \<le> p \<and> p < 0x144) (map gpt2_codepoint (map of_nat [0..<256]))"
    unfolding codepoints by (auto simp: list_all_iff simp del: upt_rec_numeral)
  moreover have "gpt2_codepoint b \<in> set (map gpt2_codepoint (map of_nat [0..<256]))"
    using u8_less [of b] unfolding set_map set_upt
    by (intro image_eqI [OF _ image_eqI [of _ _ "unat b"]]) simp_all
  ultimately show ?thesis by (simp only: list_all_iff)
qed

lemma encoded_byte_utf8: "encoded_byte b = utf8_encode (gpt2_codepoint b)"
proof -
  let ?p = "gpt2_codepoint b"
  have p: "?p < 0x144" using codepoint_range by simp
  have or: "push_bit 6 x OR y = x * 64 + (y :: nat)" if "y < 64" for x y
    using nat_push_or [of y 6 x] that by simp
  have lead: "0xc0 OR of_nat q = (of_nat (0xc0 + q) :: u8)" if "q < 64" for q
    using that or [OF that, of 3]
    by (intro unsigned_word_eqI [where 'a = nat]) (simp add: unsigned_or_eq unat_of_nat_u8_small del: of_nat_add)
  have cont: "0x80 OR of_nat q = (of_nat (0x80 + q) :: u8)" if "q < 64" for q
    using that or [OF that, of 2]
    by (intro unsigned_word_eqI [where 'a = nat]) (simp add: unsigned_or_eq unat_of_nat_u8_small del: of_nat_add)
  have "?p div 64 < 64" "?p mod 64 < 64" using p by simp_all
  then show ?thesis
    using p by (simp only: encoded_byte_def utf8_encode_def Let_def lead cont) simp
qed

lemma from_utf8_spelled: "from_utf8 (concat (map encoded_byte bs)) = Inr (map gpt2_codepoint bs)"
proof -
  have "scalar (gpt2_codepoint b)" for b using codepoint_range [of b] by (simp add: scalar_def)
  then have "from_utf8 (utf8_text (map gpt2_codepoint bs)) = Inr (map gpt2_codepoint bs)"
    by (intro from_utf8_text) (simp add: list_all_iff)
  moreover have "map encoded_byte bs = map utf8_encode (map gpt2_codepoint bs)"
    by (simp add: encoded_byte_utf8)
  ultimately show ?thesis by (simp only:)
qed

lemma byte_of_codepoint: "byte_of_point (gpt2_codepoint b) = Some (unat b)"
proof -
  let ?ps = "map gpt2_codepoint (map of_nat [0..<256])"
  have dist: "distinct ?ps" unfolding codepoints by (auto simp del: upt_rec_numeral)
  have "gpt2_codepoint (of_nat j) \<noteq> gpt2_codepoint b" if "j < unat b" for j
  proof -
    have "j < 256" "unat b < 256" using that u8_less [of b] by simp_all
    then have "?ps ! j \<noteq> ?ps ! unat b"
      using that dist by (subst nth_eq_iff_index_eq) (simp_all del: upt_rec_numeral map_map)
    then show ?thesis using \<open>j < 256\<close> \<open>unat b < 256\<close> by (simp del: upt_rec_numeral)
  qed
  then show ?thesis
    using u8_less [of b] unfolding byte_of_point_def find_Some_iff
    by (intro exI [of _ "unat b"]) (simp del: upt_rec_numeral)
qed

lemma decode_points_spelled:
  "length staged + length bs \<le> 128 \<Longrightarrow>
     decode_points t (map gpt2_codepoint bs) staged = Inr (staged @ bs)"
  by (induction bs arbitrary: staged) (auto simp: byte_of_codepoint)

lemma decode_points_overflow:
  "length staged \<le> 128 \<Longrightarrow> 128 < length staged + length bs \<Longrightarrow>
     decode_points t (map gpt2_codepoint bs) staged =
       Inl (model_fail MS_STATE ED_PIECE_OUTPUT t 0 128 129 FK_STATE_FIELD 0)"
  by (induction bs arbitrary: staged) (auto simp: byte_of_codepoint)

section \<open>Tokens that spell a text\<close>

definition spells :: "model_view \<Rightarrow> nat \<Rightarrow> bytes \<Rightarrow> bool" where
  "spells v t chunk \<longleftrightarrow> chunk \<noteq> [] \<and> token_bytes v t = Inr (concat (map encoded_byte chunk))"

lemma list_all2_merge:
  assumes all: "list_all2 P ts cs" and at: "Suc at < length ts" and new: "P res (cs ! at @ cs ! Suc at)"
  shows "\<exists>ds. concat ds = concat cs \<and> list_all2 P (merge_at at res ts) ds"
proof (intro exI conjI)
  let ?ds = "take at cs @ (cs ! at @ cs ! Suc at) # drop (Suc (Suc at)) cs"
  have "length cs = length ts" using list_all2_lengthD [OF all] by simp
  then have "cs = take at cs @ cs ! at # cs ! Suc at # drop (Suc (Suc at)) cs"
    using at by (metis Cons_nth_drop_Suc Suc_lessD id_take_nth_drop)
  then have "concat cs = concat (take at cs @ cs ! at # cs ! Suc at # drop (Suc (Suc at)) cs)"
    by simp
  then show "concat ?ds = concat cs" by simp
  show "list_all2 P (merge_at at res ts) ?ds"
    unfolding merge_at_def using all new
    by (intro list_all2_appendI list.rel_intros list_all2_takeI list_all2_dropI)
qed

lemma bpe_list_spells:
  assumes sound: "\<And>l r res rank c d. lk l r = Some (res, rank) \<Longrightarrow> P l c \<Longrightarrow> P r d \<Longrightarrow> P res (c @ d)"
    and "list_all2 P ts cs"
  shows "\<exists>ds. concat ds = concat cs \<and> list_all2 P (bpe_list lk ts) ds"
  using assms
proof (induction lk ts arbitrary: cs rule: bpe_list.induct)
  case (1 lk ts)
  obtain rank at res where b: "list_best lk ts = (rank, at, res)" by (cases "list_best lk ts")
  show ?case
  proof (cases "rank = NO_ENTRY")
    case True
    then show ?thesis using 1(3) b by (subst bpe_list.simps) auto
  next
    case False
    note idx = list_best_index [OF b False]
    have "P res (cs ! at @ cs ! Suc at)"
      using 1(2) idx list_all2_nthD [OF 1(3)] by (meson Suc_lessD)
    then obtain ds where "concat ds = concat cs" "list_all2 P (merge_at at res ts) ds"
      using list_all2_merge [OF 1(3)] idx by blast
    moreover have "\<exists>es. concat es = concat ds \<and> list_all2 P (bpe_list lk (merge_at at res ts)) es"
      by (rule 1(1) [OF b [symmetric] refl False]) (use 1(2) in blast, fact)
    moreover have "bpe_list lk ts = bpe_list lk (merge_at at res ts)"
      using b False by (subst bpe_list.simps) simp
    ultimately show ?thesis by metis
  qed
qed

lemma built_merges_spell:
  assumes "open_authenticated c address bs = Inr v" and "fst (build c v index_address storage) = Inr tok"
    and look: "lookup_table (tk_index tok) l r = Some (res, rank)" and "spells v l x" and "spells v r y"
  shows "spells v res (x @ y)"
proof -
  have "rank < MERGE_COUNT" and
    m: "view_merge v rank = Inr \<lparr>mg_left = l, mg_right = r, mg_result = res, mg_rank = rank\<rparr>"
    using look open_lookup [OF assms(1,2), of l r res rank] by (simp_all add: lookup_table_def)
  then have "image_token bs res = image_token bs l @ image_token bs r" "res < VOCAB_COUNT"
    "l < VOCAB_COUNT" "r < VOCAB_COUNT"
    using open_merge_facts [OF assms(1), of rank] by (auto simp: VOCAB_COUNT_def)
  then show ?thesis
    using assms(4,5) open_token_facts(1) [OF assms(1)] by (simp add: spells_def)
qed

lemma bpe_tokens_spell:
  assumes "open_authenticated c address bs = Inr v" and "fst (build c v index_address storage) = Inr tok"
  shows "\<exists>chunks. concat chunks = input \<and> list_all2 (spells v) (bpe_tokens (tk_index tok) input) chunks"
proof -
  have "list_all2 (spells v) (map (byte_token (tk_index tok)) input) (map (\<lambda>b. [b]) input)"
    using open_build(3,4) [OF assms] open_token_facts(1) [OF assms(1)]
    by (auto simp: list_all2_map1 list_all2_map2 spells_def intro!: list_all2_refl)
  from bpe_list_spells [OF _ this, of "lookup_table (tk_index tok)"] built_merges_spell [OF assms]
  show ?thesis unfolding bpe_tokens_def by fastforce
qed

text \<open>The two tool markers have tokens of their own.\<close>

definition marker :: "nat \<Rightarrow> bytes \<Rightarrow> bool" where
  "marker t chunk \<longleftrightarrow> (t = 151657 \<and> chunk = TOOL_CALL) \<or> (t = 151658 \<and> chunk = TOOL_END)"

lemma split_text_markers:
  "list_all (\<lambda>p. case p of Inl f \<Rightarrow> True | Inr s \<Rightarrow> marker s (piece_bytes (Inr s))) (split_text input)"
proof (induction input rule: split_text.induct)
  case (1 input)
  obtain at special n where found: "next_user_defined input = (at, special, n)"
    by (cases "next_user_defined input")
  have inl: "list_all (\<lambda>p. case p of Inl f \<Rightarrow> True | Inr s \<Rightarrow> marker s (piece_bytes (Inr s))) (map Inl fs)"
    for fs by (simp add: list_all_iff)
  show ?case
  proof (cases "input \<noteq> [] \<and> special \<noteq> 0")
    case True
    note IH = 1 [OF conjunct1 [OF True] found [symmetric] refl conjunct2 [OF True]]
    have "marker special (piece_bytes (Inr special))"
      using next_user_defined_special [OF found] True by (auto simp: marker_def piece_bytes_def)
    then show ?thesis
      using True found inl IH by (subst split_text.simps) (simp del: drop_drop)
  next
    case False
    then show ?thesis using found inl by (subst split_text.simps) auto
  qed
qed

lemma list_all2_concat_map:
  assumes "\<And>p. p \<in> set ps \<Longrightarrow> \<exists>cs. concat cs = g p \<and> list_all2 R (f p) cs"
  shows "\<exists>cs. concat cs = concat (map g ps) \<and> list_all2 R (concat (map f ps)) cs"
  using assms
proof (induction ps)
  case Nil
  then show ?case by simp
next
  case (Cons p ps)
  then obtain cs ds where "concat cs = g p" "list_all2 R (f p) cs"
    "concat ds = concat (map g ps)" "list_all2 R (concat (map f ps)) ds"
    by (meson list.set_intros)
  then show ?case by (intro exI [of _ "cs @ ds"]) (simp add: list_all2_appendI)
qed

lemma ordinary_tokens_spell:
  assumes "open_authenticated c address bs = Inr v" and "fst (build c v index_address storage) = Inr tok"
  shows "\<exists>chunks. concat chunks = input \<and>
    list_all2 (\<lambda>t chunk. marker t chunk \<or> spells v t chunk) (ordinary_tokens (tk_index tok) input) chunks"
proof -
  let ?R = "\<lambda>t chunk. marker t chunk \<or> spells v t chunk"
  have "\<exists>cs. concat cs = piece_bytes p \<and> list_all2 ?R (piece_tokens (tk_index tok) p) cs"
    if "p \<in> set (split_text input)" for p
  proof (cases p)
    case (Inl f)
    then show ?thesis
      using bpe_tokens_spell [OF assms, of f]
      by (auto simp: piece_bytes_def piece_tokens_def elim!: list_all2_mono)
  next
    case (Inr s)
    then have "marker s (piece_bytes (Inr s))" using split_text_markers [of input] that by (auto simp: list_all_iff)
    then show ?thesis using Inr by (intro exI [of _ "[piece_bytes p]"]) (simp add: piece_tokens_def)
  qed
  from list_all2_concat_map [of "split_text input" piece_bytes ?R, OF this] show ?thesis by (simp add: split_text_concat ordinary_tokens_def)
qed

lemma chunk_count: "list_all2 R ts cs \<Longrightarrow> (\<And>t c. R t c \<Longrightarrow> c \<noteq> []) \<Longrightarrow> length ts \<le> length (concat cs)"
proof (induction rule: list_all2_induct)
  case (Cons t ts c cs)
  have "c \<noteq> []" by (rule Cons.prems [OF Cons.hyps(1)])
  moreover have "length ts \<le> length (concat cs)" by (rule Cons.IH [OF Cons.prems])
  ultimately show ?case by (cases c) auto
qed simp

text \<open>
  What decoding a token must reply, for each type of token: the text of a normal (1) and a
  user-defined (4) one if it fits the 128 bytes of a piece, an end of the turn or nothing for the
  control (3) and unused (5) ones. A failure names what is too long and leaves the buffer alone.
\<close>

definition piece_reply :: "nat \<Rightarrow> nat \<Rightarrow> bytes \<Rightarrow> (model_error + nat \<times> nat) \<times> bytes" where
  "piece_reply t ty piece =
     (if ty = 1 \<or> ty = 4
      then (if length piece \<le> 128
            then (Inr (1, length piece), piece @ replicate (128 - length piece) 0)
            else (Inl (model_fail MS_STATE ED_PIECE_OUTPUT t 0 128 (if ty = 4 then length piece else 129)
                   FK_STATE_FIELD 0), replicate 128 0))
      else (Inr (if ty = 3 \<and> (t = IM_END \<or> t = END_OF_TEXT) then 2 else 3, 0), replicate 128 0))"

definition decoded_text :: "tokenizer \<Rightarrow> nat list \<Rightarrow> bytes" where
  "decoded_text tok tokens = concat (map (\<lambda>t.
     case decode_piece tok t (replicate 128 0) of (Inl e, buf) \<Rightarrow> [] | (Inr (k, n), buf) \<Rightarrow> take n buf) tokens)"

lemma decode_normal:
  assumes "tk_model tok = v" and "token_bytes v t = Inr (concat (map encoded_byte chunk))" and "token_type v t = Inr 1"
  shows "decode_piece tok t (replicate 128 0) = piece_reply t 1 chunk"
proof -
  have "t < VOCAB_COUNT" using assms(3) by (auto simp: token_type_def split: if_splits)
  then show ?thesis
    using assms decode_points_spelled [of "[]" chunk t] decode_points_overflow [of "[]" chunk t]
    by (simp add: decode_piece_def piece_reply_def piece_kind_of_def piece_text_def from_utf8_spelled
        write_at_0 require_def)
qed

lemma decode_other:
  assumes "tk_model tok = v" and "token_bytes v t = Inr piece" and "token_type v t = Inr ty" and "ty \<in> {3, 4, 5}"
  shows "decode_piece tok t (replicate 128 0) = piece_reply t ty piece"
proof -
  have "t < VOCAB_COUNT" using assms(3) by (auto simp: token_type_def split: if_splits)
  then show ?thesis
    using assms by (auto simp: decode_piece_def piece_reply_def piece_kind_of_def piece_text_def
        write_at_0 require_def)
qed

text \<open>The tokens of a text whose bytes decode to their chunks decode to the text.\<close>

lemma decoded_chunks:
  assumes "list_all2 (\<lambda>t chunk. decode_piece tok t (replicate 128 0) =
    (Inr (1, length chunk), chunk @ replicate (128 - length chunk) 0)) tokens chunks"
  shows "decoded_text tok tokens = concat chunks"
  using assms by (induction rule: list_all2_induct) (simp_all add: decoded_text_def)

lemma fresh_staging: "staging_ok (replicate TOKEN_SCRATCH 0, 0)"
  by (simp add: staging_ok_def)

lemma token_decodes:
  assumes opened: "open_authenticated c address bs = Inr v" and built: "fst (build c v index_address storage) = Inr tok"
    and chunk: "marker t chunk \<or> spells v t chunk" and t: "t < VOCAB_COUNT"
  shows "case (token_type v t, token_bytes v t) of
      (Inr ty, Inr piece) \<Rightarrow>
        if ty = 1
        then (if piece = concat (map encoded_byte chunk)
              then decode_piece tok t (replicate 128 0) = piece_reply t 1 chunk else marker t chunk)
        else (marker t chunk \<or> piece = concat (map encoded_byte chunk)) \<and>
          decode_piece tok t (replicate 128 0) = piece_reply t ty piece
    | _ \<Rightarrow> False"
proof -
  note facts = open_token_facts [OF opened t]
  obtain ty where ty: "token_type v t = Inr ty" "ty \<in> {1, 3, 4, 5}" using facts(4) by (auto split: sum.splits)
  note model = open_build(1) [OF opened built]
  show ?thesis
    using decode_normal [OF model, of t chunk] decode_other [OF model facts(1) ty(1)] ty facts(1) chunk
    by (auto simp: spells_def)
qed

text \<open>
  C0: Tokenising loses nothing. For every opened model, every index built for it and every text
  of at most 512 bytes, \<open>ordinary\<close> succeeds, and its tokens split the text into non-empty chunks,
  one for each token: a tool marker for its own token, and otherwise a chunk whose GPT-2
  spelling is the bytes of the token. Decoding each of the tokens gives what its type says, success
  or failure: for a normal token its chunk of the text, for a user-defined one its bytes as they are,
  each if it fits a piece. So whenever every token is a normal one that spells its chunk or a
  user-defined one that is its chunk, and no chunk is longer than a piece, the decoded pieces one
  after the other are the text, tool markers included.
\<close>

theorem tokenising_round_trip:
  "case open_authenticated c address bs of
     Inl e \<Rightarrow> True
   | Inr v \<Rightarrow> (case fst (build c v index_address storage) of
       Inl e \<Rightarrow> True
     | Inr tok \<Rightarrow>
        if length input \<le> 512
        then (case ordinary (tk_index tok) input (replicate TOKEN_SCRATCH 0, 0) of
            Inl e \<Rightarrow> False
          | Inr (scratch, n) \<Rightarrow> (\<exists>chunks. concat chunks = input \<and>
              list_all2 (\<lambda>t chunk. 0 < length chunk \<and>
                (case (token_type v t, token_bytes v t) of
                   (Inr ty, Inr piece) \<Rightarrow>
                     if ty = 1
                     then (if piece = concat (map encoded_byte chunk)
                           then decode_piece tok t (replicate 128 0) = piece_reply t 1 chunk else marker t chunk)
                     else (marker t chunk \<or> piece = concat (map encoded_byte chunk)) \<and>
                       decode_piece tok t (replicate 128 0) = piece_reply t ty piece
                 | _ \<Rightarrow> False)) (staged_tokens scratch n) chunks \<and>
              (if list_all2 (\<lambda>t chunk. length chunk \<le> 128 \<and>
                    (token_type v t = Inr 1 \<and> token_bytes v t = Inr (concat (map encoded_byte chunk)) \<or>
                     token_type v t = Inr 4 \<and> token_bytes v t = Inr chunk)) (staged_tokens scratch n) chunks
               then decoded_text tok (staged_tokens scratch n) = input else True)))
        else True)"
proof (cases "open_authenticated c address bs")
  case opened: (Inr v)
  show ?thesis
  proof (cases "fst (build c v index_address storage)")
    case built: (Inr tok)
    let ?R = "\<lambda>t chunk. marker t chunk \<or> spells v t chunk"
    let ?good = "\<lambda>t chunk. 0 < length chunk \<and>
      (case (token_type v t, token_bytes v t) of
         (Inr ty, Inr piece) \<Rightarrow>
           if ty = 1
           then (if piece = concat (map encoded_byte chunk)
                 then decode_piece tok t (replicate 128 0) = piece_reply t 1 chunk else marker t chunk)
           else (marker t chunk \<or> piece = concat (map encoded_byte chunk)) \<and>
             decode_piece tok t (replicate 128 0) = piece_reply t ty piece
       | _ \<Rightarrow> False)"
    let ?plain = "\<lambda>t chunk. length chunk \<le> 128 \<and>
      (token_type v t = Inr 1 \<and> token_bytes v t = Inr (concat (map encoded_byte chunk)) \<or>
       token_type v t = Inr 4 \<and> token_bytes v t = Inr chunk)"
    obtain chunks where chunks: "concat chunks = input" "list_all2 ?R (ordinary_tokens (tk_index tok) input) chunks"
      using ordinary_tokens_spell [OF opened built] by blast
    have nonempty: "chunk \<noteq> []" if "?R t chunk" for t chunk
      using that by (auto simp: marker_def spells_def TOOL_CALL_def TOOL_END_def ascii_def)
    have count: "length (ordinary_tokens (tk_index tok) input) \<le> length input"
      using chunk_count [OF chunks(2)] nonempty chunks(1) by blast
    have known: "t < VOCAB_COUNT" if "?R t chunk" for t chunk
      using that by (auto simp: marker_def spells_def VOCAB_COUNT_def token_bytes_def split: if_splits)
    have pointwise: "?good t chunk" if "?R t chunk" for t chunk
      using token_decodes [OF opened built that known [OF that]] nonempty [OF that] by simp
    have good: "list_all2 ?good (ordinary_tokens (tk_index tok) input) chunks"
      by (rule list_all2_mono [OF chunks(2)]) (rule pointwise)
    note model = open_build(1) [OF opened built]
    have plain: "decode_piece tok t (replicate 128 0) = (Inr (1, length chunk), chunk @ replicate (128 - length chunk) 0)"
      if "?plain t chunk" for t chunk
      using that decode_normal [OF model, of t chunk] decode_other [OF model, of t chunk 4] by (auto simp: piece_reply_def)
    have whole: "if list_all2 ?plain tokens chunks then decoded_text tok tokens = input else True" for tokens
    proof (cases "list_all2 ?plain tokens chunks")
      case True
      have "decoded_text tok tokens = concat chunks" by (rule decoded_chunks, rule list_all2_mono [OF True]) (rule plain)
      then show ?thesis using chunks(1) by simp
    qed simp
    show ?thesis
    proof (cases "length input \<le> 512")
      case True
      then have "length input \<le> MAX_SEGMENT" by (simp add: MAX_SEGMENT_def)
      note run = ordinary_appends [OF fresh_staging this, of "tk_index tok"]
      show ?thesis
      proof (cases "ordinary (tk_index tok) input (replicate TOKEN_SCRATCH 0, 0)")
        case (Inl e)
        then show ?thesis using run count True by (simp add: appends_def MAX_TOKENS_def)
      next
        case (Inr st)
        obtain scratch n where st: "st = (scratch, n)" by (cases st)
        have stg: "staged_tokens scratch n = ordinary_tokens (tk_index tok) input"
          using run Inr by (auto simp: st appends_def staged_tokens_0)
        have "\<exists>chunks. concat chunks = input \<and> list_all2 ?good (staged_tokens scratch n) chunks \<and>
            (if list_all2 ?plain (staged_tokens scratch n) chunks
             then decoded_text tok (staged_tokens scratch n) = input else True)"
          unfolding stg by (intro exI [of _ chunks] conjI chunks(1) good whole)
        with True show ?thesis by (simp only: opened built Inr st sum.case prod.case if_True)
      qed
    qed (simp add: opened built)
  qed (simp add: opened)
qed simp

text \<open>
  C17: Merging is right: for a piece of at most 512 bytes and any scratch buffer of its size,
  \<open>bpe\<close> succeeds; its tokens are reached from the tokens of the bytes by merging, in each step, the
  leftmost of the pairs of the smallest rank, and in the result no pair is left to merge. These
  steps are deterministic, so it is the only such list.
\<close>

theorem bpe_is_normal_form:
  "if length input \<le> 512 \<and> length scratch = 5120
   then (case bpe index input (scratch, 0) of
       Inl e \<Rightarrow> False
     | Inr (scratch', n) \<Rightarrow>
         (merge_step (lookup_table index))\<^sup>*\<^sup>* (map (byte_token index) input) (staged_tokens scratch' n) \<and>
         \<not> merge_step (lookup_table index) (staged_tokens scratch' n) other)
   else True"
proof (cases "length input \<le> 512 \<and> length scratch = 5120")
  case True
  then have ok: "staging_ok (scratch, 0)" "length input \<le> MAX_SEGMENT"
    by (simp_all add: staging_ok_def TOKEN_SCRATCH_def MAX_SEGMENT_def)
  have few: "length (bpe_tokens index input) \<le> length input"
  proof -
    have "list_all2 (\<lambda>t c. c \<noteq> []) (map (byte_token index) input) (map (\<lambda>b. [b]) input)"
      by (simp add: list_all2_map1 list_all2_map2 list_all2_same)
    from bpe_list_spells [OF _ this, of "lookup_table index"]
    obtain ds where ds: "concat ds = concat (map (\<lambda>b. [b]) input)"
      "list_all2 (\<lambda>t c. c \<noteq> []) (bpe_tokens index input) ds"
      unfolding bpe_tokens_def by auto
    show ?thesis using chunk_count [OF ds(2)] ds(1) by simp
  qed
  note run = bpe_appends [OF ok, of index]
  show ?thesis
  proof (cases "bpe index input (scratch, 0)")
    case (Inl e)
    then show ?thesis using run few True by (simp add: appends_def MAX_TOKENS_def)
  next
    case (Inr st)
    then have "staged_tokens (fst st) (snd st) = bpe_tokens index input"
      using run by (auto simp: appends_def staged_tokens_0)
    then show ?thesis
      using Inr bpe_list_normal [of "lookup_table index" "map (byte_token index) input" other]
      by (cases st) (simp add: bpe_tokens_def)
  qed
qed auto

end
