(* ===== verification/PB_Sampling.thy ===== *)
theory PB_Sampling
  imports PB_Model "HOL-Library.Multiset"
begin

text \<open>
  Choosing a token from the logits (\<open>crates/promptboot-core/src/inference.rs\<close>: \<open>top_logits_8\<close>,
  \<open>greedy_token\<close>, \<open>SamplingState\<close>, \<open>sample_token\<close>, \<open>sample_token_with_repetition\<close>) with the scalar
  routines they call in \<open>fp32_sse2.rs\<close>. Logits are binary32 bit patterns. The comparison
  \<open>ucomiss\<close> / \<open>seta\<close> is written out on the bits; the rounding instructions (\<open>addss\<close>, \<open>mulss\<close>,
  \<open>divss\<close> and the conversions) are the fields of a parameter record \<open>fpu\<close>, so every theorem holds
  for whatever they compute.
\<close>

section \<open>Errors and finiteness\<close>


abbreviation infer_fail ::
  "inference_status \<Rightarrow> inference_domain \<Rightarrow> nat \<Rightarrow> nat \<Rightarrow> nat \<Rightarrow> nat \<Rightarrow> nat \<Rightarrow> inference_field_kind \<Rightarrow>
   nat \<Rightarrow> inference_error" where
  "infer_fail status domain layer position tensor_id needed available kind sub \<equiv>
     inference_error_new status domain (of_nat layer) (of_nat position) (of_nat tensor_id)
       (of_nat needed) (of_nat available) kind (of_nat sub)"

definition logits_error :: "nat \<Rightarrow> nat \<Rightarrow> inference_error option" where
  "logits_error len position =
     (if len = LOGIT_WORDS then None
      else Some (infer_fail IS_CAPACITY ID_LOGITS NO_LAYER position NO_TENSOR LOGIT_WORDS len
        IK_LOGITS 0))"

definition finite_bits :: "u32 \<Rightarrow> bool" where
  "finite_bits b \<longleftrightarrow> b AND 0x7f800000 \<noteq> 0x7f800000"

definition nonfinite_logit :: "nat \<Rightarrow> u32 \<Rightarrow> inference_error" where
  "nonfinite_logit index b =
     infer_fail IS_NONFINITE_OUTPUT ID_ARGMAX NO_LAYER 0 NO_TENSOR 0 (unat b) IK_FINITE index"

section \<open>Comparison\<close>

text \<open>
  \<open>ucomiss\<close> followed by \<open>seta\<close>: false on a NaN, otherwise the order of the sign-magnitude
  numbers, with the two zeros equal (denormals are not flushed under the MXCSR value 0x1f80).
\<close>

definition nan_bits :: "u32 \<Rightarrow> bool" where
  "nan_bits b \<longleftrightarrow> b AND 0x7fffffff > 0x7f800000"

definition bits_key :: "u32 \<Rightarrow> int" where
  "bits_key b =
     (let magnitude = int (unat (b AND 0x7fffffff))
      in if b AND 0x80000000 = 0 then magnitude else - magnitude)"

definition fp_greater :: "u32 \<Rightarrow> u32 \<Rightarrow> bool" where
  "fp_greater left right \<longleftrightarrow> \<not> nan_bits left \<and> \<not> nan_bits right \<and> bits_key right < bits_key left"

section \<open>The eight largest logits\<close>

record top_logit =
  tl_token :: nat
  tl_bits :: u32

fun sift :: "u32 \<Rightarrow> top_logit list \<Rightarrow> nat \<Rightarrow> top_logit list \<times> nat" where
  "sift bits staged 0 = (staged, 0)"
| "sift bits staged (Suc i) =
     (if fp_greater bits (tl_bits (staged ! i))
      then sift bits (if Suc i < length staged then staged[Suc i := staged ! i] else staged) i
      else (staged, Suc i))"

definition top_step :: "nat \<Rightarrow> u32 \<Rightarrow> top_logit list \<times> nat \<Rightarrow> top_logit list \<times> nat" where
  "top_step token bits s =
     (case s of (staged, used) \<Rightarrow>
        case sift bits staged used of (staged, insertion) \<Rightarrow>
          (if insertion < length staged
           then staged[insertion := \<lparr>tl_token = token, tl_bits = bits\<rparr>] else staged,
           min (used + 1) (length staged)))"

fun top_loop ::
  "nat \<Rightarrow> u32 list \<Rightarrow> top_logit list \<times> nat \<Rightarrow> inference_error + top_logit list \<times> nat" where
  "top_loop token [] s = Inr s"
| "top_loop token (bits # rest) s =
     (if \<not> finite_bits bits then Inl (nonfinite_logit token bits)
      else top_loop (token + 1) rest (top_step token bits s))"

definition top_logits_8 ::
  "u32 list \<Rightarrow> top_logit list \<Rightarrow> (inference_error + unit) \<times> top_logit list" where
  "top_logits_8 logits output_buf =
     (case logits_error (length logits) 0 of
        Some e \<Rightarrow> (Inl e, output_buf)
      | None \<Rightarrow>
        (case top_loop 0 logits (replicate 8 \<lparr>tl_token = 0, tl_bits = 0\<rparr>, 0) of
           Inl e \<Rightarrow> (Inl e, output_buf)
         | Inr (staged, used) \<Rightarrow> (Inr (), staged)))"

section \<open>The greedy token\<close>

definition validate_sample_logits :: "u32 list \<Rightarrow> inference_error + unit" where
  "validate_sample_logits logits =
     (case logits_error (length logits) 0 of
        Some e \<Rightarrow> Inl e
      | None \<Rightarrow> check_all (\<lambda>index. require (finite_bits (logits ! index))
          (nonfinite_logit index (logits ! index))) [0..<length logits])"

definition argmax_step :: "u32 list \<Rightarrow> nat \<Rightarrow> nat \<times> u32 \<Rightarrow> nat \<times> u32" where
  "argmax_step logits index s =
     (if fp_greater (logits ! index) (snd s) then (index, logits ! index) else s)"

definition inference_argmax :: "u32 list \<Rightarrow> nat" where
  "inference_argmax logits = fst (fold (argmax_step logits) [1..<length logits] (0, logits ! 0))"

definition greedy_token :: "u32 list \<Rightarrow> inference_error + nat" where
  "greedy_token logits =
     bind_result (validate_sample_logits logits) (\<lambda>_. Inr (inference_argmax logits))"

section \<open>The generator\<close>

record sampling_state =
  ss_state :: u64
  ss_draws :: u64

definition ZERO_SEED_REPLACEMENT :: u64 where "ZERO_SEED_REPLACEMENT = 0x9e3779b97f4a7c15"

definition sampling_new :: "u64 \<Rightarrow> sampling_state" where
  "sampling_new seed =
     \<lparr>ss_state = (if seed = 0 then ZERO_SEED_REPLACEMENT else seed), ss_draws = 0\<rparr>"

definition xorshift :: "u64 \<Rightarrow> u64" where
  "xorshift v =
     (let v = v XOR drop_bit 12 v; v = v XOR push_bit 25 v in v XOR drop_bit 27 v)"

definition next_24 :: "sampling_state \<Rightarrow> nat \<times> sampling_state" where
  "next_24 s =
     (let v = xorshift (ss_state s)
      in (unat (drop_bit 40 (v * 0x2545f4914f6cdd1d)), \<lparr>ss_state = v, ss_draws = ss_draws s + 1\<rparr>))"

section \<open>The exponential\<close>

record fpu =
  fp_add :: "u32 \<Rightarrow> u32 \<Rightarrow> u32"
  fp_sub :: "u32 \<Rightarrow> u32 \<Rightarrow> u32"
  fp_mul :: "u32 \<Rightarrow> u32 \<Rightarrow> u32"
  fp_div :: "u32 \<Rightarrow> u32 \<Rightarrow> u32"
  fp_from_int :: "int \<Rightarrow> u32"
  fp_trunc_i32 :: "u32 \<Rightarrow> int"
  fp_widen :: "u32 \<Rightarrow> u64"
  fp_narrow :: "u64 \<Rightarrow> u32"
  fp_add64 :: "u64 \<Rightarrow> u64 \<Rightarrow> u64"
  fp_div64 :: "u64 \<Rightarrow> u64 \<Rightarrow> u64"
  fp_sqrt :: "u32 \<Rightarrow> u32"

definition scale_up :: "fpu \<Rightarrow> u32 \<times> int \<Rightarrow> u32 \<times> int" where
  "scale_up f s = (fp_mul f (fst s) 0x7f000000, snd s - 127)"

definition scale_down :: "fpu \<Rightarrow> u32 \<times> int \<Rightarrow> u32 \<times> int" where
  "scale_down f s = (fp_mul f (fst s) (fp_mul f 0x00800000 0x4b800000), snd s + 102)"

definition scalbnf :: "fpu \<Rightarrow> u32 \<Rightarrow> int \<Rightarrow> u32" where
  "scalbnf f v e =
     (let (v, e) =
        (if e > 127 then
           let (v, e) = scale_up f (v, e) in
           if e > 127 then let (v, e) = scale_up f (v, e) in (v, if e > 127 then 127 else e) else (v, e)
         else if e < - 126 then
           let (v, e) = scale_down f (v, e) in
           if e < - 126
           then let (v, e) = scale_down f (v, e) in (v, if e < - 126 then - 126 else e) else (v, e)
         else (v, e))
      in fp_mul f v (push_bit 23 (of_int (0x7f + e))))"

definition exp_polynomial :: "fpu \<Rightarrow> u32 \<Rightarrow> u32 \<Rightarrow> u32 \<Rightarrow> int \<Rightarrow> u32" where
  "exp_polynomial f v high low reduction =
     (let square = fp_mul f v v;
          coefficient = fp_sub f v (fp_mul f square (fp_add f 0x3e2aaa8f (fp_mul f square 0xbb355215)));
          fraction = fp_div f (fp_mul f v coefficient) (fp_sub f 0x40000000 coefficient);
          res = fp_add f 0x3f800000 (fp_add f (fp_sub f fraction low) high)
      in if reduction = 0 then res else scalbnf f res reduction)"

definition expf :: "fpu \<Rightarrow> u32 \<Rightarrow> u32" where
  "expf f v =
    (let magnitude = v AND 0x7fffffff; negative = drop_bit 31 v in
     if magnitude \<ge> 0x42aeac50 \<and> magnitude > 0x7f800000 then v
     else if magnitude \<ge> 0x42aeac50 \<and> magnitude \<ge> 0x42b17218 \<and> negative = 0
     then fp_mul f v 0x7f000000
     else if magnitude \<ge> 0x42aeac50 \<and> negative \<noteq> 0 \<and> magnitude \<ge> 0x42cff1b5 then 0
     else if magnitude > 0x3eb17218 then
       let reduction =
             (if magnitude > 0x3f851592
              then fp_trunc_i32 f (fp_add f (fp_mul f 0x3fb8aa3b v)
                     (if negative = 0 then 0x3f000000 else 0xbf000000))
              else 1 - uint negative - uint negative);
           reduction_bits = fp_from_int f reduction;
           high = fp_sub f v (fp_mul f reduction_bits 0x3f317200);
           low = fp_mul f reduction_bits 0x35bfbe8e
       in exp_polynomial f (fp_sub f high low) high low reduction
     else if magnitude > 0x39000000 then exp_polynomial f v v 0 0
     else fp_add f 0x3f800000 v)"

section \<open>Sampling\<close>

definition TOP_K :: nat where "TOP_K = 20"

definition insertion_point :: "u32 \<Rightarrow> nat list \<Rightarrow> u32 list \<Rightarrow> nat option" where
  "insertion_point v ids vs =
     find (\<lambda>at. ids ! at = 4294967295 \<or> fp_greater v (vs ! at)) [0..<TOP_K]"

definition shift_in :: "nat \<Rightarrow> 'a \<Rightarrow> 'a list \<Rightarrow> 'a list" where
  "shift_in insertion x xs =
     (fold (\<lambda>at ys. ys[at := ys ! (at - 1)]) (rev [insertion + 1..<TOP_K]) xs)[insertion := x]"

definition top_k_step :: "u32 list \<Rightarrow> nat \<Rightarrow> nat list \<times> u32 list \<Rightarrow> nat list \<times> u32 list" where
  "top_k_step logits token s =
     (case insertion_point (logits ! token) (fst s) (snd s) of
        None \<Rightarrow> s
      | Some insertion \<Rightarrow>
          (shift_in insertion token (fst s), shift_in insertion (logits ! token) (snd s)))"

definition top_k :: "u32 list \<Rightarrow> nat list \<times> u32 list" where
  "top_k logits =
     fold (top_k_step logits) [0..<length logits]
       (replicate TOP_K 4294967295, replicate TOP_K 0xff800000)"

text \<open>The loop that keeps the smallest prefix whose weight reaches the cutoff.\<close>

fun kept_prefix :: "fpu \<Rightarrow> u32 \<Rightarrow> u32 list \<Rightarrow> nat \<Rightarrow> u64 \<Rightarrow> nat \<times> u64" where
  "kept_prefix f cutoff [] at acc = (TOP_K, acc)"
| "kept_prefix f cutoff (w # ws) at acc =
     (let acc = fp_add64 f acc (fp_widen f w)
      in if \<not> fp_greater cutoff (fp_narrow f acc) then (at + 1, acc)
         else kept_prefix f cutoff ws (at + 1) acc)"

fun pick :: "fpu \<Rightarrow> u32 \<Rightarrow> (nat \<times> u32) list \<Rightarrow> u64 \<Rightarrow> nat option" where
  "pick f target [] acc = None"
| "pick f target ((token, w) # ws) acc =
     (let acc = fp_add64 f acc (fp_widen f w)
      in if fp_greater (fp_narrow f acc) target then Some token else pick f target ws acc)"

definition sample_top_k_top_p :: "fpu \<Rightarrow> u32 list \<Rightarrow> nat \<Rightarrow> nat" where
  "sample_top_k_top_p f logits random =
     (let (ids, vs) = top_k logits;
          weights = map (\<lambda>v. expf f (fp_div f (fp_sub f v (vs ! 0)) 0x3f333333)) vs;
          acc = fold (\<lambda>w acc. fp_add64 f acc (fp_widen f w)) weights 0;
          cutoff = fp_mul f (fp_narrow f acc) 0x3f4ccccd;
          (kept, kept_acc) = kept_prefix f cutoff weights 0 0;
          unit = fp_div f (fp_from_int f (int (random mod 2 ^ 24))) 0x4b800000;
          target = fp_mul f (fp_narrow f kept_acc) unit
      in case pick f target (take kept (zip ids weights)) 0 of
           Some token \<Rightarrow> token
         | None \<Rightarrow> ids ! (kept - 1))"

definition sample_validated :: "fpu \<Rightarrow> u32 list \<Rightarrow> sampling_state \<Rightarrow> nat \<times> sampling_state" where
  "sample_validated f logits s =
     (case next_24 s of (random, s) \<Rightarrow> (sample_top_k_top_p f logits random, s))"

definition sample_token ::
  "fpu \<Rightarrow> u32 list \<Rightarrow> sampling_state \<Rightarrow> (inference_error + nat) \<times> sampling_state" where
  "sample_token f logits s =
     (case validate_sample_logits logits of
        Inl e \<Rightarrow> (Inl e, s)
      | Inr _ \<Rightarrow> (case sample_validated f logits s of (token, s) \<Rightarrow> (Inr token, s)))"

section \<open>The repetition penalty\<close>

definition seen_bit :: "nat \<Rightarrow> u8" where
  "seen_bit token = push_bit (token mod 8) 1"

definition penalised :: "fpu \<Rightarrow> u32 \<Rightarrow> u32" where
  "penalised f score =
     (if score AND 0x80000000 \<noteq> 0 \<and> score AND 0x7fffffff \<noteq> 0
      then fp_mul f score 0x3f8ccccd else fp_div f score 0x3f8ccccd)"

definition penalty_step :: "fpu \<Rightarrow> nat \<Rightarrow> u32 list \<times> bytes \<Rightarrow> u32 list \<times> bytes" where
  "penalty_step f token s =
     (case s of (logits, seen) \<Rightarrow>
        if seen ! (token div 8) AND seen_bit token = 0
        then (logits[token := penalised f (logits ! token)],
              seen[token div 8 := seen ! (token div 8) OR seen_bit token])
        else s)"

definition apply_repetition_penalty ::
  "fpu \<Rightarrow> u32 list \<Rightarrow> nat list \<Rightarrow> bytes \<Rightarrow> u32 list \<times> bytes" where
  "apply_repetition_penalty f logits tokens seen =
     (case fold (penalty_step f) tokens (logits, seen) of (logits, seen) \<Rightarrow>
        (logits, fold (\<lambda>token seen. seen[token div 8 := seen ! (token div 8) AND NOT (seen_bit token)])
           tokens seen))"

definition sample_token_with_repetition ::
  "fpu \<Rightarrow> u32 list \<Rightarrow> nat list \<Rightarrow> bytes \<Rightarrow> sampling_state \<Rightarrow>
   (inference_error + nat) \<times> u32 list \<times> bytes \<times> sampling_state" where
  "sample_token_with_repetition f logits tokens seen s =
     (case bind_result (validate_sample_logits logits) (\<lambda>_.
           bind_result (require ((length logits + 7) div 8 \<le> length seen)
             (infer_fail IS_CAPACITY ID_ARGMAX NO_LAYER 0 NO_TENSOR ((length logits + 7) div 8)
               (length seen) IK_BYTES 2)) (\<lambda>_.
           check_all (\<lambda>token. require (token < length logits)
             (infer_fail IS_TOKEN_ID ID_ARGMAX NO_LAYER 0 NO_TENSOR (length logits) token IK_TOKEN 0))
             tokens)) of
        Inl e \<Rightarrow> (Inl e, logits, seen, s)
      | Inr _ \<Rightarrow>
          (case apply_repetition_penalty f logits tokens seen of (logits, seen) \<Rightarrow>
             case sample_validated f logits s of (token, s) \<Rightarrow> (Inr token, logits, seen, s)))"

section \<open>Ranking\<close>

text \<open>
  The reference order of the tokens: descending by value, equal values in ascending token order.
  It is the stable sort of the library, so that the routines below can be compared with it.
\<close>

abbreviation descending :: "nat \<times> u32 \<Rightarrow> int" where
  "descending p \<equiv> - bits_key (snd p)"

definition ranked :: "u32 list \<Rightarrow> (nat \<times> u32) list" where
  "ranked logits = sort_key descending (enumerate 0 logits)"

definition put_after :: "('a \<Rightarrow> int) \<Rightarrow> 'a \<Rightarrow> 'a list \<Rightarrow> 'a list" where
  "put_after k x ys = takeWhile (\<lambda>y. k y \<le> k x) ys @ x # dropWhile (\<lambda>y. k y \<le> k x) ys"

lemma sorted_dropWhile_greater:
  "sorted (map k ys) \<Longrightarrow> y \<in> set (dropWhile (\<lambda>y. k y \<le> c) ys) \<Longrightarrow> (c :: int) < k y"
  by (induction ys) (auto split: if_splits)

lemma sorted_put_after: "sorted (map k ys) \<Longrightarrow> sorted (map k (put_after k x ys))"
proof -
  assume sorted: "sorted (map k ys)"
  have "sorted (map k (takeWhile (\<lambda>y. k y \<le> k x) ys))" "sorted (map k (dropWhile (\<lambda>y. k y \<le> k x) ys))"
    using sorted by (metis map_append sorted_append takeWhile_dropWhile_id)+
  then show ?thesis
    using sorted_dropWhile_greater [OF sorted]
    by (fastforce simp: put_after_def sorted_append dest: set_takeWhileD)
qed

lemma filter_put_after:
  assumes "sorted (map k ys)"
  shows "filter (\<lambda>y. k z = k y) (put_after k x ys) =
    filter (\<lambda>y. k z = k y) ys @ (if k z = k x then [x] else [])"
proof -
  let ?Q = "\<lambda>y. k z = k y" and ?P = "\<lambda>y. k y \<le> k x"
  have parts: "filter ?Q ys = filter ?Q (takeWhile ?P ys) @ filter ?Q (dropWhile ?P ys)"
    unfolding filter_append [symmetric] takeWhile_dropWhile_id ..
  have put: "filter ?Q (put_after k x ys) =
      filter ?Q (takeWhile ?P ys) @ (if k z = k x then [x] else []) @ filter ?Q (dropWhile ?P ys)"
    by (simp add: put_after_def)
  show ?thesis
  proof (cases "k z = k x")
    case True
    then have "filter ?Q (dropWhile ?P ys) = []"
      using sorted_dropWhile_greater [OF assms] by (fastforce simp: filter_empty_conv)
    then show ?thesis by (simp only: put parts) simp
  next
    case False
    then show ?thesis by (simp only: put parts) simp
  qed
qed

lemma sort_key_snoc: "sort_key k (xs @ [x]) = put_after k x (sort_key k xs)"
proof (rule properties_for_sort_key)
  have "mset (takeWhile P ys) + mset (dropWhile P ys) = mset ys" for P and ys :: "'a list"
    by (metis mset_append takeWhile_dropWhile_id)
  then show "mset (put_after k x (sort_key k xs)) = mset (xs @ [x])"
    by (simp add: put_after_def)
  show "filter (\<lambda>y. k z = k y) (put_after k x (sort_key k xs)) = filter (\<lambda>y. k z = k y) (xs @ [x])"
    for z
    using sort_key_stable [of k "k z" xs]
    by (simp add: filter_put_after) (simp add: eq_commute [of "k z"])
  show "sorted (map k (put_after k x (sort_key k xs)))"
    by (rule sorted_put_after) simp
qed

lemma ranked_Nil [simp]: "ranked [] = []"
  by (simp add: ranked_def)

lemma ranked_snoc: "ranked (bs @ [b]) = put_after descending (length bs, b) (ranked bs)"
  by (simp add: ranked_def enumerate_append_eq sort_key_snoc)

lemma sorted_ranked: "sorted (map descending (ranked bs))"
  by (simp add: ranked_def)

lemma length_ranked [simp]: "length (ranked bs) = length bs"
  by (simp add: ranked_def)

lemma set_ranked: "set (ranked bs) = set (enumerate 0 bs)"
  by (simp add: ranked_def)

lemma put_after_split:
  "put_after k x ys = take (length (takeWhile (\<lambda>y. k y \<le> k x) ys)) ys @
     x # drop (length (takeWhile (\<lambda>y. k y \<le> k x) ys)) ys"
  by (simp add: put_after_def takeWhile_eq_take [symmetric] dropWhile_eq_drop [symmetric])

lemma takeWhile_take: "takeWhile P (take n xs) = take n (takeWhile P xs)"
  by (induction xs arbitrary: n) (auto simp: take_Cons')

lemma take_put_after: "take n (put_after k x (take n ys)) = take n (put_after k x ys)"
  by (auto simp: put_after_split takeWhile_take min_def drop_take take_Cons')

section \<open>Comparison of finite values\<close>

lemma and_exponent: "(n :: nat) AND 0x7f800000 = n div 2 ^ 23 mod 256 * 2 ^ 23"
proof -
  have "n AND push_bit 23 (mask 8) = push_bit 23 (take_bit 8 (drop_bit 23 n))"
    by (rule bit_eqI) (auto simp: bit_simps)
  moreover have "push_bit 23 (mask 8) = (0x7f800000 :: nat)"
    by (simp add: mask_eq_exp_minus_1 push_bit_eq_mult)
  ultimately show ?thesis by (simp add: push_bit_eq_mult take_bit_eq_mod drop_bit_eq_div)
qed

lemma and_magnitude: "(n :: nat) AND 0x7fffffff = n mod 2 ^ 31"
  using take_bit_eq_mask [of 31 n] by (simp add: mask_eq_exp_minus_1 take_bit_eq_mod)

lemma finite_not_nan: "finite_bits b \<Longrightarrow> \<not> nan_bits b"
proof
  assume "finite_bits b" "nan_bits b"
  then have "unat (b AND 0x7f800000) \<noteq> unat (0x7f800000 :: u32)"
    "unat (b AND 0x7fffffff) > unat (0x7f800000 :: u32)"
    unfolding finite_bits_def nan_bits_def
    by (blast intro: unsigned_word_eqI [where 'a = nat], simp only: word_less_nat_alt)
  then have "unat b div 2 ^ 23 mod 256 \<noteq> 255" "unat b mod 2 ^ 31 > 255 * 2 ^ 23"
    by (simp_all add: unsigned_and_eq and_exponent and_magnitude)
  moreover have "unat b mod 2 ^ 31 div 2 ^ 23 = unat b div 2 ^ 23 mod 256"
    using mod_mult2_eq [of "unat b" "2 ^ 23" 256] by simp
  moreover have "unat b mod 2 ^ 31 div 2 ^ 23 < 256"
    by (simp add: less_mult_imp_div_less)
  ultimately show False by (simp add: div_le_mono)
qed

lemma fp_greater_finite:
  "finite_bits a \<Longrightarrow> finite_bits b \<Longrightarrow> fp_greater a b \<longleftrightarrow> bits_key b < bits_key a"
  by (simp add: fp_greater_def finite_not_nan)

section \<open>The staged table is the ranking\<close>

lemma sift_facts:
  assumes "sift bits staged i = (staged', insertion)" and "i \<le> length staged"
  shows "insertion \<le> i \<and> length staged' = length staged \<and>
    (\<forall>j. insertion \<le> j \<and> j < i \<longrightarrow> fp_greater bits (tl_bits (staged ! j))) \<and>
    (insertion = 0 \<or> \<not> fp_greater bits (tl_bits (staged ! (insertion - 1)))) \<and>
    (\<forall>m < length staged. staged' ! m = (if insertion < m \<and> m \<le> i then staged ! (m - 1) else staged ! m))"
  using assms
proof (induction i arbitrary: staged)
  case (Suc i)
  show ?case
  proof (cases "fp_greater bits (tl_bits (staged ! i))")
    case True
    define nxt where "nxt = (if Suc i < length staged then staged[Suc i := staged ! i] else staged)"
    have len: "length nxt = length staged" by (simp add: nxt_def)
    have same: "nxt ! j = staged ! j" if "j \<le> i" for j using that by (simp add: nxt_def)
    have moved: "nxt ! m = (if m = Suc i then staged ! i else staged ! m)" if "m < length staged" for m
      using that by (auto simp: nxt_def nth_list_update)
    have "sift bits nxt i = (staged', insertion)" "i \<le> length nxt"
      using Suc.prems True by (simp_all add: nxt_def)
    note IH = Suc.IH [OF this, unfolded len]
    have "staged' ! m = (if insertion < m \<and> m \<le> Suc i then staged ! (m - 1) else staged ! m)"
      if "m < length staged" for m
      using IH that moved [OF that] same [of "m - 1"] by (cases "m = Suc i") auto
    moreover have "fp_greater bits (tl_bits (staged ! j))" if "insertion \<le> j" "j < Suc i" for j
      using that IH same [of j] True by (cases "j = i") (auto simp: less_Suc_eq)
    moreover have "insertion = 0 \<or> \<not> fp_greater bits (tl_bits (staged ! (insertion - 1)))"
      using IH same [of "insertion - 1"] by auto
    ultimately show ?thesis using IH by auto
  next
    case False
    then show ?thesis using Suc.prems by auto
  qed
qed auto

definition as_top :: "nat \<times> u32 \<Rightarrow> top_logit" where
  "as_top p = \<lparr>tl_token = fst p, tl_bits = snd p\<rparr>"

lemma tl_bits_as_top [simp]: "tl_bits (as_top p) = snd p"
  by (simp add: as_top_def)

text \<open>A table of fixed length that starts with the ranking as far as it has come.\<close>

definition staged_ok :: "u32 list \<Rightarrow> top_logit list \<times> nat \<Rightarrow> bool" where
  "staged_ok bs s \<longleftrightarrow> length (fst s) = 8 \<and> snd s = min (length bs) 8 \<and>
     take (snd s) (fst s) = map as_top (take 8 (ranked bs))"

lemma takeWhile_length_unique:
  assumes "p \<le> length ys" and "\<And>j. j < p \<Longrightarrow> P (ys ! j)" and "p < length ys \<Longrightarrow> \<not> P (ys ! p)"
  shows "length (takeWhile P ys) = p"
proof -
  have "takeWhile P ys = take p ys"
    using assms by (intro takeWhile_eq_take_P_nth) auto
  then show ?thesis using assms(1) by simp
qed

lemma ranked_bits: "p \<in> set (ranked bs) \<Longrightarrow> snd p \<in> set bs"
  by (cases p) (auto simp: set_ranked in_set_enumerate_eq)

lemma top_step_ok:
  assumes ok: "staged_ok bs s" and fin: "list_all finite_bits (bs @ [b])"
  shows "staged_ok (bs @ [b]) (top_step (length bs) b s)"
proof -
  obtain staged used where s: "s = (staged, used)" by (cases s)
  obtain ys where ys: "ys = take 8 (ranked bs)" by blast
  have len: "length staged = 8" and used: "used = min (length bs) 8"
    and table: "take used staged = map as_top ys"
    using ok by (auto simp: staged_ok_def s ys)
  have len_ys: "length ys = used" using used by (simp add: ys min.commute)
  have at: "staged ! j = as_top (ys ! j)" if "j < used" for j
    using that table len_ys by (metis nth_map nth_take)
  have finite: "finite_bits (snd (ys ! j))" if "j < used" for j
  proof -
    have "ys ! j \<in> set (ranked bs)" using that len_ys ys by (metis in_set_takeD nth_mem)
    then show ?thesis using ranked_bits fin by (fastforce simp: list_all_iff)
  qed
  obtain staged' insertion where sift: "sift b staged used = (staged', insertion)"
    by (cases "sift b staged used")
  have "used \<le> length staged" using used len by simp
  note facts = sift_facts [OF sift this]
  have gt: "fp_greater b (tl_bits (staged ! j)) \<longleftrightarrow> \<not> descending (ys ! j) \<le> descending (length bs, b)"
    if "j < used" for j
    using that at finite fin by (simp add: fp_greater_finite not_le)
  have sorted: "sorted (map descending ys)"
    using sorted_ranked [of bs] ys by (metis sorted_wrt_take take_map)
  have ins: "length (takeWhile (\<lambda>y. descending y \<le> descending (length bs, b)) ys) = insertion"
  proof (rule takeWhile_length_unique)
    show "insertion \<le> length ys" using facts len_ys by simp
    show "descending (ys ! j) \<le> descending (length bs, b)" if "j < insertion" for j
    proof -
      have "insertion \<le> used" using facts by blast
      then have "insertion - 1 < used" "j \<le> insertion - 1" using that by linarith+
      then have "descending (ys ! j) \<le> descending (ys ! (insertion - 1))"
        using sorted len_ys by (simp add: sorted_iff_nth_mono)
      also have "\<dots> \<le> descending (length bs, b)"
        using facts that gt [OF \<open>insertion - 1 < used\<close>] by auto
      finally show ?thesis .
    qed
    show "\<not> descending (ys ! insertion) \<le> descending (length bs, b)" if "insertion < length ys"
      using that facts gt [of insertion] len_ys by simp
  qed
  let ?new = "if insertion < 8 then staged'[insertion := as_top (length bs, b)] else staged'"
  have new: "take (min (used + 1) 8) ?new = map as_top (take 8 (put_after descending (length bs, b) ys))"
  proof (rule nth_equalityI)
    show "length (take (min (used + 1) 8) ?new) =
        length (map as_top (take 8 (put_after descending (length bs, b) ys)))"
      using facts len len_ys ins by (auto simp: put_after_split)
    fix m assume "m < length (take (min (used + 1) 8) ?new)"
    then have m: "m < 8" "m \<le> used" using facts len by auto
    have "put_after descending (length bs, b) ys ! m =
        (if m < insertion then ys ! m else if m = insertion then (length bs, b) else ys ! (m - 1))"
      unfolding put_after_split ins using m facts len_ys by (auto simp: nth_append nth_Cons')
    moreover have "m < length (put_after descending (length bs, b) ys)"
      unfolding put_after_split ins using m facts len_ys by auto
    ultimately show "take (min (used + 1) 8) ?new ! m =
        map as_top (take 8 (put_after descending (length bs, b) ys)) ! m"
      using m facts len at by (auto simp: nth_list_update)
  qed
  have "top_step (length bs) b s = (?new, min (used + 1) 8)"
    using facts len by (simp add: top_step_def s sift as_top_def)
  then show ?thesis
    using new facts len used by (auto simp: staged_ok_def ranked_snoc take_put_after ys)
qed

lemma top_loop_ok:
  assumes "staged_ok bs s" and "list_all finite_bits bs"
  shows "case top_loop (length bs) cs s of
      Inl e \<Rightarrow> \<not> list_all finite_bits cs \<and> (\<exists>j < length cs. \<not> finite_bits (cs ! j) \<and>
        list_all finite_bits (take j cs) \<and> e = nonfinite_logit (length bs + j) (cs ! j))
    | Inr s' \<Rightarrow> list_all finite_bits cs \<and> staged_ok (bs @ cs) s'"
  using assms
proof (induction cs arbitrary: bs s)
  case (Cons c cs)
  show ?case
  proof (cases "finite_bits c")
    case True
    have "staged_ok (bs @ [c]) (top_step (length bs) c s)"
      using Cons.prems True by (intro top_step_ok) simp_all
    from Cons.IH [OF this] Cons.prems True show ?thesis
      by (fastforce split: sum.splits intro: exI [of _ "Suc _"])
  next
    case False
    then show ?thesis by (auto intro: exI [of _ 0])
  qed
qed simp

section \<open>The table of the sampler is the ranking\<close>

lemma shift_fold:
  "fold (\<lambda>at ys. ys[at := ys ! (at - Suc 0)]) (rev [a..<b]) xs ! m =
     (if a \<le> m \<and> m < b \<and> m < length xs then xs ! (m - 1) else xs ! m)"
  if "0 < a"
proof (induction b arbitrary: xs)
  case (Suc b)
  show ?case
  proof (cases "a \<le> b")
    case True
    then show ?thesis
      using Suc [of "xs[b := xs ! (b - 1)]"] that
      by (cases "b < length xs") (auto simp: nth_list_update less_Suc_eq list_update_beyond not_less)
  qed auto
qed simp

lemma length_shift_fold [simp]:
  "length (fold (\<lambda>at ys. ys[at := ys ! (at - Suc 0)]) ats xs) = length xs"
  by (induction ats arbitrary: xs) simp_all

lemma shift_in_eq:
  assumes "length xs = TOP_K" and "i < TOP_K"
  shows "shift_in i x xs = take i xs @ x # take (TOP_K - 1 - i) (drop i xs)"
  using assms
  by (intro nth_equalityI) (auto simp: shift_in_def shift_fold nth_list_update nth_append nth_Cons')

definition table_ok :: "u32 list \<Rightarrow> nat list \<times> u32 list \<Rightarrow> bool" where
  "table_ok bs s \<longleftrightarrow>
     (let rs = take TOP_K (ranked bs)
      in s = (map fst rs @ replicate (TOP_K - length rs) 4294967295,
              map snd rs @ replicate (TOP_K - length rs) 0xff800000))"

lemma insertion_point_eq:
  assumes small: "\<forall>p \<in> set rs. fst p < 4294967295 \<and> \<not> nan_bits (snd p)" and "\<not> nan_bits v"
    and len: "length rs \<le> TOP_K"
  shows "insertion_point v (map fst rs @ replicate (TOP_K - length rs) 4294967295)
      (map snd rs @ replicate (TOP_K - length rs) 0xff800000) =
    (let p = length (takeWhile (\<lambda>y. descending y \<le> descending (t, v)) rs)
     in if p < TOP_K then Some p else None)"
    (is "insertion_point v ?ids ?vs = _")
proof -
  let ?P = "\<lambda>y. descending y \<le> descending (t, v)"
  let ?p = "length (takeWhile ?P rs)"
  have p: "?p \<le> length rs" by (rule length_takeWhile_le)
  have test: "(?ids ! j = 4294967295 \<or> fp_greater v (?vs ! j)) \<longleftrightarrow> length rs \<le> j \<or> \<not> ?P (rs ! j)"
    if "j < TOP_K" for j
  proof (cases "j < length rs")
    case True
    then have "fst (rs ! j) < 4294967295" "\<not> nan_bits (snd (rs ! j))" using small by simp_all
    then show ?thesis using True assms(2) by (simp add: nth_append fp_greater_def not_le)
  qed (use that in \<open>simp add: nth_append\<close>)
  have before: "?P (rs ! j)" if "j < ?p" for j using nth_length_takeWhile that
    by (metis nth_mem set_takeWhileD takeWhile_nth)
  show ?thesis
  proof (cases "?p < TOP_K")
    case True
    have "find (\<lambda>at. ?ids ! at = 4294967295 \<or> fp_greater v (?vs ! at)) [0..<TOP_K] = Some ?p"
      unfolding find_Some_iff
    proof (intro exI conjI allI impI)
      show "?p < length [0..<TOP_K]" using True by simp
      have "length rs \<le> ?p \<or> \<not> ?P (rs ! ?p)" using nth_length_takeWhile [of ?P rs] by linarith
      then show "?ids ! ([0..<TOP_K] ! ?p) = 4294967295 \<or> fp_greater v (?vs ! ([0..<TOP_K] ! ?p))"
        using True test [OF True] by simp
      show "?p = [0..<TOP_K] ! ?p" using True by simp
      show "\<not> (?ids ! ([0..<TOP_K] ! j) = 4294967295 \<or> fp_greater v (?vs ! ([0..<TOP_K] ! j)))"
        if "j < ?p" for j
        using that True p before [OF that] test [of j] by simp
    qed
    then show ?thesis using True by (simp add: insertion_point_def)
  next
    case False
    then have full: "?p = TOP_K" "length rs = TOP_K" using p len by simp_all
    have "find (\<lambda>at. ?ids ! at = 4294967295 \<or> fp_greater v (?vs ! at)) [0..<TOP_K] = None"
      unfolding find_None_iff
    proof
      assume "\<exists>x. x \<in> set [0..<TOP_K] \<and> (?ids ! x = 4294967295 \<or> fp_greater v (?vs ! x))"
      then obtain j where "j < TOP_K" "?ids ! j = 4294967295 \<or> fp_greater v (?vs ! j)" by auto
      then show False using test [of j] before [of j] full by simp
    qed
    then show ?thesis using False by (simp add: insertion_point_def)
  qed
qed

lemma top_k_step_ok:
  assumes ok: "table_ok (take n bs) s" and n: "n < length bs" and "length bs < 4294967295"
    and fin: "list_all (\<lambda>b. \<not> nan_bits b) bs"
  shows "table_ok (take (Suc n) bs) (top_k_step bs n s)"
proof -
  obtain rs where rs: "rs = take TOP_K (ranked (take n bs))" by blast
  let ?x = "(n, bs ! n)"
  let ?p = "length (takeWhile (\<lambda>y. descending y \<le> descending ?x) rs)"
  have s: "s = (map fst rs @ replicate (TOP_K - length rs) 4294967295,
      map snd rs @ replicate (TOP_K - length rs) 0xff800000)"
    using ok by (simp add: table_ok_def Let_def rs)
  have small: "\<forall>p \<in> set rs. fst p < 4294967295 \<and> \<not> nan_bits (snd p)"
  proof
    fix p assume "p \<in> set rs"
    then have "p \<in> set (ranked (take n bs))" unfolding rs by (rule in_set_takeD)
    then have "fst p < n" "snd p \<in> set bs"
      using n ranked_bits [of p "take n bs"] by (auto simp: set_ranked in_set_enumerate_eq dest: in_set_takeD)
    then show "fst p < 4294967295 \<and> \<not> nan_bits (snd p)"
      using n assms(3) fin by (auto simp: list_all_iff)
  qed
  have "\<not> nan_bits (bs ! n)" using fin n by (simp add: list_all_length)
  have len_rs: "length rs \<le> TOP_K" by (simp add: rs)
  note point = insertion_point_eq [OF small \<open>\<not> nan_bits (bs ! n)\<close> len_rs, of n]
  have p: "?p \<le> length rs" by (rule length_takeWhile_le)
  have put: "put_after descending ?x rs = take ?p rs @ ?x # drop ?p rs" by (rule put_after_split)
  have "ranked (take (Suc n) bs) = put_after descending ?x (ranked (take n bs))"
    using ranked_snoc [of "take n bs" "bs ! n"] n by (simp add: take_Suc_conv_app_nth)
  then have next_rs: "take TOP_K (ranked (take (Suc n) bs)) = take TOP_K (take ?p rs @ ?x # drop ?p rs)"
    using put take_put_after [of TOP_K descending ?x "ranked (take n bs)"] by (simp only: rs)
  show ?thesis
  proof (cases "?p < TOP_K")
    case True
    have step: "top_k_step bs n s = (shift_in ?p n (fst s), shift_in ?p (bs ! n) (snd s))"
      using point True unfolding top_k_step_def s by (simp add: Let_def)
    have lens: "length (fst s) = TOP_K" "length (snd s) = TOP_K" using len_rs by (simp_all add: s)
    show ?thesis
      unfolding table_ok_def Let_def step shift_in_eq [OF lens(1) True] shift_in_eq [OF lens(2) True] next_rs
      using p True by (auto simp: s take_map drop_map min_def take_Cons' replicate_append_same [symmetric])
  next
    case False
    then have full: "?p = TOP_K" "length rs = TOP_K" using p len_rs by simp_all
    have "top_k_step bs n s = s"
      using point False unfolding top_k_step_def s by (simp add: Let_def)
    then show ?thesis
      unfolding table_ok_def Let_def next_rs using full by (simp add: s)
  qed
qed

lemma top_k_ranked:
  assumes "list_all (\<lambda>b. \<not> nan_bits b) bs" and "length bs < 4294967295"
  shows "table_ok bs (top_k bs)"
proof -
  have "table_ok (take n bs) (fold (top_k_step bs) [0..<n]
      (replicate TOP_K 4294967295, replicate TOP_K 0xff800000))" if "n \<le> length bs" for n
    using that
  proof (induction n)
    case 0
    show ?case by (simp add: table_ok_def)
  next
    case (Suc n)
    then show ?case using top_k_step_ok [of n bs] assms by simp
  qed
  from this [of "length bs"] show ?thesis by (simp add: top_k_def)
qed

section \<open>Validated logits\<close>

lemma validate_sample_logits_cases:
  "validate_sample_logits logits =
     (if length logits = LOGIT_WORDS \<and> list_all finite_bits logits then Inr ()
      else validate_sample_logits logits) \<and>
   (validate_sample_logits logits = Inr () \<longrightarrow>
      length logits = LOGIT_WORDS \<and> list_all finite_bits logits)"
  by (auto simp: validate_sample_logits_def logits_error_def list_all_length check_all_Inr split: if_splits)

lemma validated_logits:
  assumes "validate_sample_logits logits = Inr u"
  shows "length logits = 151936" "list_all finite_bits logits" "list_all (\<lambda>b. \<not> nan_bits b) logits"
proof -
  show "length logits = 151936" "list_all finite_bits logits"
    using assms validate_sample_logits_cases [of logits] by (simp_all add: LOGIT_WORDS_def)
  then show "list_all (\<lambda>b. \<not> nan_bits b) logits" using finite_not_nan by (auto simp: list_all_iff)
qed

lemma argmax_fold:
  assumes "list_all finite_bits bs" and "0 < n" and "n \<le> length bs"
  shows "fold (argmax_step bs) [1..<n] (0, bs ! 0) = hd (ranked (take n bs))"
  using assms(2,3)
proof (induction n)
  case (Suc n)
  show ?case
  proof (cases n)
    case 0
    then show ?thesis using ranked_snoc [of "[]" "bs ! 0"] Suc.prems by (cases bs) (auto simp: put_after_def)
  next
    case (Suc m)
    have n: "n < length bs" using Suc.prems by simp
    define best where "best = hd (ranked (take n bs))"
    have "length (ranked (take n bs)) = n" using n by simp
    then obtain rest where rest: "ranked (take n bs) = best # rest"
      unfolding best_def by (metis Suc hd_Cons_tl length_0_conv nat.distinct(1))
    then have "snd best \<in> set bs"
      using ranked_bits [of best "take n bs"] by (auto dest: in_set_takeD)
    then have "fp_greater (bs ! n) (snd best) \<longleftrightarrow> bits_key (snd best) < bits_key (bs ! n)"
      using assms(1) n by (simp add: fp_greater_finite list_all_iff)
    moreover have "ranked (take (Suc n) bs) = put_after descending (n, bs ! n) (best # rest)"
      using ranked_snoc [of "take n bs" "bs ! n"] n by (simp add: take_Suc_conv_app_nth rest)
    moreover have "fold (argmax_step bs) [1..<n] (0, bs ! 0) = best"
      using Suc.IH n Suc by (simp add: best_def)
    moreover have "[1..<Suc n] = [1..<n] @ [n]" using Suc by simp
    ultimately have run: "fold (argmax_step bs) [1..<Suc n] (0, bs ! 0) = argmax_step bs n best"
      and gt: "fp_greater (bs ! n) (snd best) \<longleftrightarrow> bits_key (snd best) < bits_key (bs ! n)"
      and put: "ranked (take (Suc n) bs) = put_after descending (n, bs ! n) (best # rest)"
      by (simp_all del: upt.simps)
    show ?thesis unfolding run put by (auto simp: argmax_step_def put_after_def gt)
  qed
qed simp

lemma kept_prefix_bound:
  "at + length ws \<le> TOP_K \<Longrightarrow>
     0 < fst (kept_prefix f cutoff ws at acc) \<and> fst (kept_prefix f cutoff ws at acc) \<le> TOP_K"
  by (induction ws arbitrary: at acc) (auto simp: Let_def TOP_K_def)

lemma pick_mem: "pick f target ps acc = Some t \<Longrightarrow> t \<in> fst ` set ps"
  by (induction f target ps acc rule: pick.induct) (auto simp: Let_def split: if_splits)

lemma sample_top_k_mem:
  assumes "length (fst (top_k logits)) = TOP_K" and "length (snd (top_k logits)) = TOP_K"
  shows "sample_top_k_top_p f logits random \<in> set (fst (top_k logits))"
proof -
  obtain ids vs where tk: "top_k logits = (ids, vs)" by (cases "top_k logits")
  define weights where "weights = map (\<lambda>v. expf f (fp_div f (fp_sub f v (vs ! 0)) 0x3f333333)) vs"
  define cutoff where "cutoff = fp_mul f (fp_narrow f
    (fold (\<lambda>w acc. fp_add64 f acc (fp_widen f w)) weights 0)) 0x3f4ccccd"
  obtain kept kept_acc where kept: "kept_prefix f cutoff weights 0 0 = (kept, kept_acc)"
    by (cases "kept_prefix f cutoff weights 0 0")
  have len: "length weights = TOP_K" using assms(2) by (simp add: weights_def tk)
  have bound: "0 < kept" "kept \<le> TOP_K"
    using kept_prefix_bound [of 0 weights f cutoff 0] len by (simp_all add: kept)
  define target where "target = fp_mul f (fp_narrow f kept_acc)
    (fp_div f (fp_from_int f (int (random mod 2 ^ 24))) 0x4b800000)"
  have sample: "sample_top_k_top_p f logits random =
      (case pick f target (take kept (zip ids weights)) 0 of
         Some token \<Rightarrow> token | None \<Rightarrow> ids ! (kept - 1))"
    by (simp only: sample_top_k_top_p_def tk prod.case Let_def kept target_def
        weights_def [symmetric] cutoff_def [symmetric])
  show ?thesis
  proof (cases "pick f target (take kept (zip ids weights)) 0")
    case None
    then show ?thesis using bound assms(1) by (simp add: sample tk)
  next
    case (Some t)
    then show ?thesis
      using pick_mem [OF Some] by (auto simp: sample tk dest!: in_set_takeD dest: set_zip_leftD)
  qed
qed

section \<open>The generator has no fixed point at zero\<close>

lemma xor_zero: "a XOR b = 0 \<Longrightarrow> a = (b :: 'a :: len word)"
  by (metis xor.assoc xor.left_neutral xor_self_eq)

lemma unat_drop: "unat (drop_bit k (v :: u64)) = unat v div 2 ^ k"
proof -
  have "unat v < 2 ^ 64" using unsigned_less [of v] by simp
  then have "take_bit 64 (unat v) = unat v" by (rule take_bit_nat_eq_self)
  then show ?thesis unfolding unsigned_drop_bit_eq by (simp add: drop_bit_eq_div)
qed

lemma xor_drop_zero: "0 < k \<Longrightarrow> (v :: u64) XOR drop_bit k v = 0 \<Longrightarrow> v = 0"
proof -
  assume k: "0 < k" and "v XOR drop_bit k v = 0"
  then have "unat v = unat (drop_bit k v)" using xor_zero [of v "drop_bit k v"] by simp
  then have "unat v = unat v div 2 ^ k" by (simp only: unat_drop)
  moreover have "1 < (2 :: nat) ^ k" using k by (metis one_less_power one_less_numeral_iff semiring_norm(76))
  ultimately have "unat v = 0" by (metis div_less_dividend not_gr_zero nat_less_le)
  then show "v = 0" by (simp add: unat_eq_zero)
qed

lemma xor_push_zero: "0 < k \<Longrightarrow> (v :: u64) XOR push_bit k v = 0 \<Longrightarrow> v = 0"
proof -
  assume k: "0 < k" and "v XOR push_bit k v = 0"
  then have v: "v = push_bit k v" using xor_zero [of v "push_bit k v"] by simp
  have "\<not> bit v n" for n
  proof (induction n rule: less_induct)
    case (less n)
    then show ?case using k by (subst v) (auto simp: bit_push_bit_iff)
  qed
  then show "v = 0" by (intro bit_eqI) simp
qed

lemma xorshift_zero: "xorshift v = 0 \<Longrightarrow> v = 0"
  unfolding xorshift_def Let_def using xor_drop_zero xor_push_zero by (metis zero_less_numeral)

definition mix_right :: "nat \<Rightarrow> u64 \<Rightarrow> u64" where "mix_right k v = v XOR drop_bit k v"
definition mix_left :: "nat \<Rightarrow> u64 \<Rightarrow> u64" where "mix_left k v = v XOR push_bit k v"

lemma mix_linear:
  "mix_right k (a XOR b) = mix_right k a XOR mix_right k b"
  "mix_left k (a XOR b) = mix_left k a XOR mix_left k b"
  by (simp_all only: mix_right_def mix_left_def drop_bit_xor push_bit_xor xor.assoc xor.left_commute)

lemma xorshift_mix: "xorshift v = mix_right 27 (mix_left 25 (mix_right 12 v))"
  by (simp add: xorshift_def mix_right_def mix_left_def Let_def)

lemma xorshift_linear: "xorshift (a XOR b) = xorshift a XOR xorshift b"
  by (simp only: xorshift_mix mix_linear)

lemma xorshift_inj: "inj xorshift"
proof (rule injI)
  fix a b assume "xorshift a = xorshift b"
  then have "xorshift (a XOR b) = 0" by (simp add: xorshift_linear)
  then show "a = b" using xorshift_zero xor_zero by blast
qed

fun draws :: "nat \<Rightarrow> sampling_state \<Rightarrow> nat list \<times> sampling_state" where
  "draws 0 s = ([], s)"
| "draws (Suc n) s =
     (case next_24 s of (r, s) \<Rightarrow> case draws n s of (rs, s) \<Rightarrow> (r # rs, s))"

lemma next_24_facts:
  "fst (next_24 s) < 2 ^ 24" "ss_state s \<noteq> 0 \<Longrightarrow> ss_state (snd (next_24 s)) \<noteq> 0"
  "ss_draws (snd (next_24 s)) = ss_draws s + 1"
proof -
  have "unat (drop_bit 40 v) < 2 ^ 24" for v :: u64
  proof -
    have "unat v < 2 ^ 24 * 2 ^ 40" using unsigned_less [of v] by simp
    then have "unat v div 2 ^ 40 < 2 ^ 24" by (simp only: less_mult_imp_div_less)
    then show ?thesis by (simp only: unat_drop)
  qed
  then show "fst (next_24 s) < 2 ^ 24" by (simp add: next_24_def Let_def)
  show "ss_state s \<noteq> 0 \<Longrightarrow> ss_state (snd (next_24 s)) \<noteq> 0"
    using xorshift_zero by (auto simp: next_24_def Let_def)
  show "ss_draws (snd (next_24 s)) = ss_draws s + 1" by (simp add: next_24_def Let_def)
qed

lemma draws_facts:
  "ss_state s \<noteq> 0 \<Longrightarrow> list_all (\<lambda>r. r < 2 ^ 24) (fst (draws n s)) \<and> ss_state (snd (draws n s)) \<noteq> 0 \<and>
     ss_draws (snd (draws n s)) = ss_draws s + of_nat n"
proof (induction n arbitrary: s)
  case (Suc n)
  note step = next_24_facts [of s]
  note rest = Suc.IH [OF step(2) [OF Suc.prems]]
  show ?case using step(1,3) rest by (simp add: case_prod_beta)
qed simp

section \<open>Each token is penalised once\<close>

lemma seen_bit_exp: "seen_bit t = 2 ^ (t mod 8)"
  by (simp add: seen_bit_def push_bit_eq_mult)

definition seen_exactly :: "nat set \<Rightarrow> bytes \<Rightarrow> bool" where
  "seen_exactly T seen \<longleftrightarrow>
     (\<forall>j < length seen. \<forall>n. bit (seen ! j) n \<longleftrightarrow> n < 8 \<and> j * 8 + n \<in> T)"

lemma split_token: "n < 8 \<Longrightarrow> j * 8 + n = t \<longleftrightarrow> j = t div 8 \<and> n = t mod (8 :: nat)"
  by auto

lemma seen_test:
  "seen_exactly T seen \<Longrightarrow> t div 8 < length seen \<Longrightarrow>
     seen ! (t div 8) AND seen_bit t = 0 \<longleftrightarrow> t \<notin> T"
  by (simp add: seen_bit_exp and_exp_eq_0_iff_not_bit seen_exactly_def)

lemma seen_set:
  assumes "seen_exactly T seen" and "t div 8 < length seen"
  shows "seen_exactly (insert t T) (seen[t div 8 := seen ! (t div 8) OR seen_bit t])"
  using assms
  by (auto simp: seen_exactly_def nth_list_update seen_bit_exp bit_or_iff bit_exp_iff split_token)

lemma seen_clear:
  assumes "seen_exactly T seen" and "t div 8 < length seen"
  shows "seen_exactly (T - {t}) (seen[t div 8 := seen ! (t div 8) AND NOT (seen_bit t)])"
  using assms
  by (auto simp: seen_exactly_def nth_list_update seen_bit_exp bit_and_iff bit_not_iff bit_exp_iff
      split_token)

lemma seen_cleared:
  assumes "seen_exactly T seen" and "list_all (\<lambda>t. t div 8 < length seen) ts"
  shows "seen_exactly (T - set ts)
      (fold (\<lambda>t seen. seen[t div 8 := seen ! (t div 8) AND NOT (seen_bit t)]) ts seen) \<and>
    length (fold (\<lambda>t seen. seen[t div 8 := seen ! (t div 8) AND NOT (seen_bit t)]) ts seen) = length seen"
  using assms
proof (induction ts arbitrary: T seen)
  case (Cons t ts)
  have "seen_exactly (T - {t}) (seen[t div 8 := seen ! (t div 8) AND NOT (seen_bit t)])"
    using Cons.prems by (intro seen_clear) simp_all
  moreover have "T - {t} - set ts = T - set (t # ts)" by auto
  ultimately show ?case using Cons.IH [of "T - {t}"] Cons.prems(2) by simp
qed simp

lemma seen_nothing: "seen_exactly {} seen \<longleftrightarrow> list_all (\<lambda>b. b = 0) seen"
proof
  assume none: "seen_exactly {} seen"
  have "seen ! j = 0" if "j < length seen" for j
    using none that by (intro bit_eqI) (simp add: seen_exactly_def)
  then show "list_all (\<lambda>b. b = 0) seen" by (simp add: list_all_length)
qed (simp add: list_all_length seen_exactly_def)

definition penalty_once :: "fpu \<Rightarrow> nat set \<Rightarrow> u32 list \<Rightarrow> u32 list" where
  "penalty_once f T logits =
     map (\<lambda>i. if i \<in> T then penalised f (logits ! i) else logits ! i) [0..<length logits]"

lemma penalty_fold:
  assumes "seen_exactly T seen" and "list_all (\<lambda>t. t < length logits \<and> t div 8 < length seen) ts"
  shows "case fold (penalty_step f) ts (penalty_once f T logits, seen) of (logits', seen') \<Rightarrow>
    logits' = penalty_once f (T \<union> set ts) logits \<and> seen_exactly (T \<union> set ts) seen' \<and>
    length seen' = length seen"
  using assms
proof (induction ts arbitrary: T seen)
  case (Cons t ts)
  have t: "t < length logits" "t div 8 < length seen" using Cons.prems by simp_all
  show ?case
  proof (cases "t \<in> T")
    case True
    then have "penalty_step f t (penalty_once f T logits, seen) = (penalty_once f T logits, seen)"
      using seen_test [OF Cons.prems(1) t(2)] by (simp add: penalty_step_def)
    moreover have "T \<union> set (t # ts) = T \<union> set ts" using True by auto
    ultimately show ?thesis using Cons.IH [OF Cons.prems(1)] Cons.prems(2) by simp
  next
    case False
    let ?seen = "seen[t div 8 := seen ! (t div 8) OR seen_bit t]"
    have "(penalty_once f T logits)[t := penalised f (penalty_once f T logits ! t)] =
        penalty_once f (insert t T) logits"
      using False t by (intro nth_equalityI) (auto simp: penalty_once_def nth_list_update)
    then have "penalty_step f t (penalty_once f T logits, seen) = (penalty_once f (insert t T) logits, ?seen)"
      using False seen_test [OF Cons.prems(1) t(2)] by (simp add: penalty_step_def)
    moreover have "T \<union> set (t # ts) = insert t T \<union> set ts" by auto
    ultimately show ?thesis
      using Cons.IH [OF seen_set [OF Cons.prems(1) t(2)]] Cons.prems(2) by simp
  qed
qed simp

section \<open>Properties\<close>

text \<open>
  C28: The diagnostic of the largest logits is right. For 151,936 finite logits the eight entries
  written are the first eight of all tokens in descending order of value, equal values (the two
  zeros among them) in ascending token order, and the greedy token is the first of this order.
  Otherwise both calls fail, the error names the first logit that is not finite, and the output
  is untouched.
\<close>

theorem top_logits_are_ranking:
  "if length logits = 151936 \<and> list_all finite_bits logits
   then top_logits_8 logits output_buf = (Inr (), map as_top (take 8 (ranked logits))) \<and>
     greedy_token logits = Inr (fst (hd (ranked logits)))
   else snd (top_logits_8 logits output_buf) = output_buf \<and>
     (if length logits = 151936
      then (\<exists>j < 151936. \<not> finite_bits (logits ! j) \<and> list_all finite_bits (take j logits) \<and>
        fst (top_logits_8 logits output_buf) = Inl (nonfinite_logit j (logits ! j)))
      else (case fst (top_logits_8 logits output_buf) of
          Inl e \<Rightarrow> ie_status e = of_nat (is_code IS_CAPACITY) | Inr u \<Rightarrow> False)) \<and>
     (case greedy_token logits of Inl e \<Rightarrow> True | Inr t \<Rightarrow> False)"
proof (cases "length logits = 151936")
  case False
  then have "greedy_token logits = Inl (the (logits_error (length logits) 0))"
    by (simp add: greedy_token_def validate_sample_logits_def logits_error_def LOGIT_WORDS_def)
  with False show ?thesis
    by (simp add: top_logits_8_def logits_error_def LOGIT_WORDS_def inference_error_new_def)
next
  case True
  let ?init = "(replicate 8 \<lparr>tl_token = 0, tl_bits = 0\<rparr>, 0)"
  have "staged_ok [] ?init" by (simp add: staged_ok_def)
  note loop = top_loop_ok [OF this, of logits, simplified]
  have open8: "top_logits_8 logits output_buf =
      (case top_loop 0 logits ?init of
         Inl e \<Rightarrow> (Inl e, output_buf) | Inr (staged, used) \<Rightarrow> (Inr (), staged))"
    using True by (simp add: top_logits_8_def logits_error_def LOGIT_WORDS_def)
  show ?thesis
  proof (cases "list_all finite_bits logits")
    case fin: True
    then obtain staged used where run: "top_loop 0 logits ?init = Inr (staged, used)"
      "staged_ok logits (staged, used)"
      using loop by (cases "top_loop 0 logits ?init") auto
    then have "staged = map as_top (take 8 (ranked logits))"
      using True by (auto simp: staged_ok_def)
    moreover have "inference_argmax logits = fst (hd (ranked logits))"
      using argmax_fold [OF fin, of "length logits"] True by (simp add: inference_argmax_def)
    moreover have "validate_sample_logits logits = Inr ()"
      using validate_sample_logits_cases [of logits] fin True by (simp add: LOGIT_WORDS_def)
    ultimately show ?thesis using run True fin by (simp add: open8 greedy_token_def)
  next
    case False
    then have "\<exists>e. greedy_token logits = Inl e"
      using validated_logits(2) [of logits]
      by (cases "validate_sample_logits logits") (auto simp: greedy_token_def)
    then show ?thesis
      using loop False True by (auto simp: open8 split: sum.splits)
  qed
qed

text \<open>
  C27: Sampling draws from the twenty best tokens. When the logits are valid, whatever the
  rounding instructions compute, the token returned is one of the first twenty of the descending
  order, and the generator advances by exactly one draw; when they are not, the generator is
  untouched.
\<close>

theorem sample_token_in_top_k:
  "case sample_token f logits s of
     (Inl e, s') \<Rightarrow> s' = s
   | (Inr token, s') \<Rightarrow> token \<in> fst ` set (take 20 (ranked logits)) \<and> token < 151936 \<and>
       s' = snd (next_24 s) \<and> ss_draws s' = ss_draws s + 1"
proof (cases "validate_sample_logits logits")
  case (Inl e)
  then show ?thesis by (simp add: sample_token_def)
next
  case (Inr u)
  note valid = validated_logits [OF Inr]
  have ok: "table_ok logits (top_k logits)" using top_k_ranked valid by simp
  have len: "length (take TOP_K (ranked logits)) = TOP_K" using valid(1) by (simp add: TOP_K_def)
  have tk: "top_k logits = (map fst (take TOP_K (ranked logits)), map snd (take TOP_K (ranked logits)))"
    using ok unfolding table_ok_def Let_def len by simp
  have mem: "sample_top_k_top_p f logits r \<in> fst ` set (take 20 (ranked logits))" for r
    using sample_top_k_mem [of logits f r] len by (simp add: tk TOP_K_def)
  have "t < 151936" if "t \<in> fst ` set (take 20 (ranked logits))" for t
    using that valid(1) by (auto simp: set_ranked in_set_enumerate_eq dest!: in_set_takeD)
  then show ?thesis
    using mem by (auto simp: sample_token_def sample_validated_def Inr next_24_def Let_def)
qed

text \<open>
  C37: The random generator never gets stuck. From any seed, the zero one included, after any
  number of draws the 64-bit state is not zero, the counter holds the number of draws (modulo
  2^64), and every number drawn has 24 bits; the step of the state is injective, so no two states
  merge.
\<close>

theorem generator_never_stuck:
  "inj xorshift \<and>
   (case draws n (sampling_new seed) of (rs, s) \<Rightarrow>
      length rs = n \<and> list_all (\<lambda>r. r < 2 ^ 24) rs \<and> 0 < ss_state s \<and> ss_draws s = of_nat n)"
proof -
  have "ss_state (sampling_new seed) \<noteq> 0" by (simp add: sampling_new_def ZERO_SEED_REPLACEMENT_def)
  note facts = draws_facts [OF this, of n]
  moreover have "length (fst (draws n s)) = n" for s
    by (induction n arbitrary: s) (simp_all add: case_prod_beta)
  ultimately show ?thesis
    using xorshift_inj by (simp add: case_prod_beta sampling_new_def word_neq_0_conv)
qed

text \<open>
  The repetition penalty is applied once for each token. For tokens inside the vocabulary and
  a cleared bit map of the required size, the logit of every token that occurs, however often, is
  replaced by its penalised value, every other logit is kept, and the bit map is cleared again.
\<close>

theorem penalty_applied_once:
  "if list_all (\<lambda>t. t < length logits) tokens \<and> (length logits + 7) div 8 \<le> length seen \<and>
      list_all (\<lambda>b. b = 0) seen
   then apply_repetition_penalty f logits tokens seen =
     (map (\<lambda>i. if i \<in> set tokens then penalised f (logits ! i) else logits ! i) [0..<length logits],
      seen)
   else True"
proof (cases "list_all (\<lambda>t. t < length logits) tokens \<and> (length logits + 7) div 8 \<le> length seen \<and>
      list_all (\<lambda>b. b = 0) seen")
  case True
  have room: "list_all (\<lambda>t. t < length logits \<and> t div 8 < length seen) tokens"
    using True by (auto simp: list_all_iff)
  have none: "seen_exactly {} seen" using True seen_nothing by blast
  have start: "penalty_once f {} logits = logits" by (simp add: penalty_once_def map_nth)
  obtain logits' seen' where run: "fold (penalty_step f) tokens (logits, seen) = (logits', seen')"
    by (cases "fold (penalty_step f) tokens (logits, seen)")
  then have after: "logits' = penalty_once f (set tokens) logits" "seen_exactly (set tokens) seen'"
    "length seen' = length seen"
    using penalty_fold [OF none room, of f] by (simp_all add: start)
  let ?clear = "fold (\<lambda>t seen. seen[t div 8 := seen ! (t div 8) AND NOT (seen_bit t)]) tokens seen'"
  have "list_all (\<lambda>t. t div 8 < length seen') tokens" using room after(3) by (auto simp: list_all_iff)
  then have "seen_exactly {} ?clear" "length ?clear = length seen"
    using seen_cleared [OF after(2), of tokens] after(3) by simp_all
  then have "?clear = seen"
    using True seen_nothing by (intro nth_equalityI) (auto simp: list_all_length)
  then have "apply_repetition_penalty f logits tokens seen = (penalty_once f (set tokens) logits, seen)"
    by (simp add: apply_repetition_penalty_def run after(1))
  then show ?thesis using True by (simp add: penalty_once_def)
qed auto

end
