(* ===== verification/PB_BlockDot.thy ===== *)
theory PB_BlockDot
  imports PB_Prelude
begin

text \<open>
  The integer products of quantised blocks (\<open>fp32_sse2.rs\<close>, the \<open>global_asm!\<close> block): four assembly
  routines, for 4-bit and 8-bit weights on SSE2 and on AVX2. A register is the list of its lanes,
  lowest first: bytes, or after a widening 16-bit and 32-bit lanes. Each instruction the routines
  use is a definition, each routine is its instruction sequence. All four compute the exact integer
  product of the block.
\<close>

section \<open>Instructions\<close>

definition pand :: "bytes \<Rightarrow> bytes \<Rightarrow> bytes" where "pand x y = map2 (AND) x y"
definition psubb :: "bytes \<Rightarrow> bytes \<Rightarrow> bytes" where "psubb x y = map2 (-) x y"

text \<open>Signed comparison: a lane is all ones where the first operand is greater.\<close>

definition pcmpgtb :: "bytes \<Rightarrow> bytes \<Rightarrow> bytes" where
  "pcmpgtb x y = map2 (\<lambda>a b. if sint b < sint a then 255 else 0) x y"

definition punpcklbw :: "bytes \<Rightarrow> bytes \<Rightarrow> bytes" where
  "punpcklbw x y = concat (map2 (\<lambda>a b. [a, b]) (take 8 x) (take 8 y))"

definition punpckhbw :: "bytes \<Rightarrow> bytes \<Rightarrow> bytes" where
  "punpckhbw x y = concat (map2 (\<lambda>a b. [a, b]) (drop 8 x) (drop 8 y))"

text \<open>The bytes of a register read as 16-bit lanes, and back.\<close>

fun lanes16 :: "bytes \<Rightarrow> u16 list" where
  "lanes16 (low # high # rest) = word_cat high low # lanes16 rest"
| "lanes16 _ = []"

definition bytes16 :: "u16 list \<Rightarrow> bytes" where
  "bytes16 ws = concat (map (\<lambda>w. [ucast w, ucast (drop_bit 8 w)]) ws)"

definition psrlw :: "nat \<Rightarrow> bytes \<Rightarrow> bytes" where
  "psrlw n x = bytes16 (map (drop_bit n) (lanes16 x))"

definition pmovsxbw :: "bytes \<Rightarrow> u16 list" where "pmovsxbw x = map scast x"

fun pmaddwd :: "u16 list \<Rightarrow> u16 list \<Rightarrow> u32 list" where
  "pmaddwd (a # b # x) (c # d # y) = (scast a * scast c + scast b * scast d) # pmaddwd x y"
| "pmaddwd _ _ = []"

definition paddd :: "u32 list \<Rightarrow> u32 list \<Rightarrow> u32 list" where "paddd x y = map2 (+) x y"

definition psrldq_lanes :: "nat \<Rightarrow> u32 list \<Rightarrow> u32 list" where
  "psrldq_lanes n x = drop n x @ replicate n 0"

section \<open>The routines\<close>

definition Q4_NIBBLE_MASK :: bytes where "Q4_NIBBLE_MASK = replicate 16 15"
definition Q4_ZERO_POINT :: bytes where "Q4_ZERO_POINT = replicate 16 8"

definition low_nibbles :: "bytes \<Rightarrow> bytes" where
  "low_nibbles x = psubb (pand x Q4_NIBBLE_MASK) Q4_ZERO_POINT"

definition high_nibbles :: "bytes \<Rightarrow> bytes" where
  "high_nibbles x = psubb (pand (psrlw 4 x) Q4_NIBBLE_MASK) Q4_ZERO_POINT"

text \<open>Sign extension by comparing with zero and interleaving, then the pairwise products.\<close>

definition products_low :: "bytes \<Rightarrow> bytes \<Rightarrow> u32 list" where
  "products_low x y =
     (let zero = replicate 16 0
      in pmaddwd (lanes16 (punpcklbw x (pcmpgtb zero x))) (lanes16 (punpcklbw y (pcmpgtb zero y))))"

definition products_high :: "bytes \<Rightarrow> bytes \<Rightarrow> u32 list" where
  "products_high x y =
     (let zero = replicate 16 0
      in pmaddwd (lanes16 (punpckhbw x (pcmpgtb zero x))) (lanes16 (punpckhbw y (pcmpgtb zero y))))"

definition horizontal :: "u32 list \<Rightarrow> u32" where
  "horizontal x =
     (let x = paddd x (psrldq_lanes 2 x); x = paddd x (psrldq_lanes 1 x) in hd x)"

definition q4_block_dot_sse2 :: "bytes \<Rightarrow> bytes \<Rightarrow> u32" where
  "q4_block_dot_sse2 weights activation =
     (let first = take 16 activation; second = take 16 (drop 16 activation);
          acc = paddd (replicate 4 0) (products_low (low_nibbles weights) first);
          acc = paddd acc (products_high (low_nibbles weights) first);
          acc = paddd acc (products_low (high_nibbles weights) second);
          acc = paddd acc (products_high (high_nibbles weights) second)
      in horizontal acc)"

definition q8_block_dot_sse2 :: "bytes \<Rightarrow> bytes \<Rightarrow> u32" where
  "q8_block_dot_sse2 weights activation =
     (let first = take 16 activation; second = take 16 (drop 16 activation);
          acc = products_low (take 16 weights) first;
          acc = paddd acc (products_high (take 16 weights) first);
          acc = paddd acc (products_low (take 16 (drop 16 weights)) second);
          acc = paddd acc (products_high (take 16 (drop 16 weights)) second)
      in horizontal acc)"

definition q4_block_dot_avx2 :: "bytes \<Rightarrow> bytes \<Rightarrow> u32" where
  "q4_block_dot_avx2 weights activation =
     (let low = pmovsxbw (low_nibbles weights); high = pmovsxbw (high_nibbles weights);
          first = pmovsxbw (take 16 activation);
          second = pmovsxbw (take 16 (drop 16 activation));
          acc = paddd (pmaddwd high second) (pmaddwd low first);
          acc = paddd (take 4 acc) (drop 4 acc)
      in horizontal acc)"

definition q8_block_dot_avx2 :: "bytes \<Rightarrow> bytes \<Rightarrow> u32" where
  "q8_block_dot_avx2 weights activation =
     (let acc = paddd (pmaddwd (pmovsxbw (take 16 weights)) (pmovsxbw (take 16 activation)))
            (pmaddwd (pmovsxbw (take 16 (drop 16 weights))) (pmovsxbw (take 16 (drop 16 activation))));
          acc = paddd (take 4 acc) (drop 4 acc)
      in horizontal acc)"

section \<open>Reference product\<close>

definition dot :: "int list \<Rightarrow> int list \<Rightarrow> int" where
  "dot xs ys = sum_list (map2 (*) xs ys)"

text \<open>The weight \<open>element\<close> of a 4-bit block, as the scalar path reads it.\<close>

definition q4_quant :: "bytes \<Rightarrow> nat \<Rightarrow> int" where
  "q4_quant packed element =
     (if element < 16 then int (unat (packed ! (element mod 16) AND 15)) - 8
      else int (unat (drop_bit 4 (packed ! (element mod 16)))) - 8)"

lemma dot_Nil [simp]: "dot [] ys = 0" "dot xs [] = 0"
  by (simp_all add: dot_def)

lemma dot_Cons [simp]: "dot (x # xs) (y # ys) = x * y + dot xs ys"
  by (simp add: dot_def)

lemma dot_append:
  "length xs = length ys \<Longrightarrow> dot (xs @ xs') (ys @ ys') = dot xs ys + dot xs' ys'"
  by (simp add: dot_def)

section \<open>Lanes\<close>

lemma pair_product:
  "(scast (a :: u16) * scast c + scast b * scast d :: u32) =
     of_int (sint a * sint c + sint b * sint d)"
  by (simp only: of_int_add of_int_mult scast_eq)

lemma sum_pmaddwd:
  "length x = length y \<Longrightarrow> even (length x) \<Longrightarrow>
     sum_list (pmaddwd x y) = of_int (dot (map sint x) (map sint y))"
proof (induction x y rule: pmaddwd.induct)
  case (1 a b x c d y)
  have "sum_list (pmaddwd x y) = of_int (dot (map sint x) (map sint y))" using 1 by simp
  then show ?case
    by (simp only: pmaddwd.simps sum_list.Cons pair_product list.map dot_Cons add.assoc flip: of_int_add)
qed (simp_all, metis even_Suc_Suc_iff even_zero length_0_conv odd_Suc_minus_one One_nat_def even_Suc)

lemma length_pmaddwd: "length x = length y \<Longrightarrow> length (pmaddwd x y) = length x div 2"
  by (induction x y rule: pmaddwd.induct) auto

lemma sum_paddd: "length x = length y \<Longrightarrow> sum_list (paddd x y) = sum_list x + sum_list y"
  by (induction x y rule: list_induct2) (simp_all add: paddd_def)

lemma length_paddd [simp]: "length (paddd x y) = min (length x) (length y)"
  by (simp add: paddd_def)

lemma horizontal_sum:
  assumes "length x = 4"
  shows "horizontal x = sum_list x"
proof -
  obtain a b c d where "x = [a, b, c, d]"
    using assms by (auto simp: length_Suc_conv numeral_eq_Suc)
  then show ?thesis by (simp add: horizontal_def paddd_def psrldq_lanes_def numeral_eq_Suc add.assoc add.left_commute)
qed

lemma all_ones: "(255 :: u8) = - 1" by simp

lemma sign_lane:
  "(word_cat (if sint (x :: u8) < 0 then 255 else 0 :: u8) x :: u16) = scast x"
proof (cases "bit x 7")
  case True
  then have "sint x < 0" using bit_last_iff [of x] by simp
  then show ?thesis unfolding all_ones using True
    by (intro bit_word_eqI) (auto simp: bit_word_cat_iff bit_word_scast_iff)
next
  case False
  then have "\<not> sint x < 0" using bit_last_iff [of x] by simp
  then show ?thesis using False
    by (intro bit_word_eqI) (auto simp: bit_word_cat_iff bit_word_scast_iff bit_ucast_iff dest: bit_imp_le_length)
qed

lemma lanes16_interleave:
  "lanes16 (concat (map2 (\<lambda>a b. [a, b]) x (map (\<lambda>a. if sint a < 0 then 255 else 0) x))) = map scast x"
  by (induction x) (simp_all add: sign_lane)


lemma sint_scast_u16: "sint (scast (x :: u8) :: u16) = sint x"
  using sint_greater_eq [of x] sint_less [of x]
  by (simp add: signed_scast_eq signed_take_bit_int_eq_self_iff)

text \<open>Sign extension through a comparison with zero, on either half.\<close>

lemma unpack_sign:
  assumes "length x = 16"
  shows "lanes16 (punpcklbw x (pcmpgtb (replicate 16 0) x)) = map scast (take 8 x)"
    and "lanes16 (punpckhbw x (pcmpgtb (replicate 16 0) x)) = map scast (drop 8 x)"
proof -
  have sign: "pcmpgtb (replicate 16 0) x = map (\<lambda>a. if sint a < 0 then 255 else 0) x"
    using assms by (auto simp: pcmpgtb_def intro!: nth_equalityI)
  show "lanes16 (punpcklbw x (pcmpgtb (replicate 16 0) x)) = map scast (take 8 x)"
    unfolding punpcklbw_def sign take_map by (rule lanes16_interleave)
  show "lanes16 (punpckhbw x (pcmpgtb (replicate 16 0) x)) = map scast (drop 8 x)"
    unfolding punpckhbw_def sign drop_map by (rule lanes16_interleave)
qed

definition bdot :: "bytes \<Rightarrow> bytes \<Rightarrow> int" where
  "bdot x y = dot (map sint x) (map sint y)"

lemma sum_scast:
  "length x = length y \<Longrightarrow> even (length x) \<Longrightarrow>
     sum_list (pmaddwd (map scast x) (map scast y)) = of_int (bdot x y)"
  by (simp add: sum_pmaddwd bdot_def sint_scast_u16 o_def)

lemma bdot_append:
  "length x = length y \<Longrightarrow> bdot (x @ x') (y @ y') = bdot x y + bdot x' y'"
  by (simp add: bdot_def dot_append)

lemma bdot_halves:
  assumes "length x = length y" and "n \<le> length x"
  shows "bdot (take n x) (take n y) + bdot (drop n x) (drop n y) = bdot x y"
  using bdot_append [of "take n x" "take n y" "drop n x" "drop n y"] assms by simp

lemma products_sum:
  assumes "length x = 16" and "length y = 16"
  shows "sum_list (products_low x y) = of_int (bdot (take 8 x) (take 8 y))"
    and "sum_list (products_high x y) = of_int (bdot (drop 8 x) (drop 8 y))"
    and "length (products_low x y) = 4" and "length (products_high x y) = 4"
  using assms by (simp_all add: products_low_def products_high_def unpack_sign sum_scast length_pmaddwd)

text \<open>The last steps of the routines.\<close>

lemma sse2_sum:
  assumes "length x1 = 16" "length y1 = 16" "length x2 = 16" "length y2 = 16"
  shows "horizontal (paddd (paddd (paddd (products_low x1 y1) (products_high x1 y1))
      (products_low x2 y2)) (products_high x2 y2)) = of_int (bdot x1 y1 + bdot x2 y2)"
proof -
  have "of_int (bdot (take 8 x1) (take 8 y1)) + of_int (bdot (drop 8 x1) (drop 8 y1)) =
      (of_int (bdot x1 y1) :: u32)"
    "of_int (bdot (take 8 x2) (take 8 y2)) + of_int (bdot (drop 8 x2) (drop 8 y2)) =
      (of_int (bdot x2 y2) :: u32)"
    using assms by (simp_all add: bdot_halves flip: of_int_add)
  then show ?thesis
    using assms by (simp add: horizontal_sum sum_paddd products_sum add.assoc)
qed

lemma avx2_sum:
  assumes "length x1 = 16" "length y1 = 16" "length x2 = 16" "length y2 = 16"
  shows "(let acc = paddd (pmaddwd (pmovsxbw x1) (pmovsxbw y1)) (pmaddwd (pmovsxbw x2) (pmovsxbw y2))
      in horizontal (paddd (take 4 acc) (drop 4 acc))) = of_int (bdot x1 y1 + bdot x2 y2)"
proof -
  let ?acc = "paddd (pmaddwd (pmovsxbw x1) (pmovsxbw y1)) (pmaddwd (pmovsxbw x2) (pmovsxbw y2))"
  have len: "length ?acc = 8" using assms by (simp add: pmovsxbw_def length_pmaddwd)
  have "sum_list (take 4 ?acc) + sum_list (drop 4 ?acc) = sum_list ?acc"
    by (simp flip: sum_list.append)
  also have "\<dots> = of_int (bdot x1 y1 + bdot x2 y2)"
    using assms by (simp add: sum_paddd length_pmaddwd pmovsxbw_def sum_scast)
  finally show ?thesis using len by (simp add: horizontal_sum sum_paddd)
qed

section \<open>Nibbles\<close>

lemma length_lanes16: "even (length x) \<Longrightarrow> length (lanes16 x) = length x div 2"
  by (induction x rule: lanes16.induct) auto

lemma length_bytes16: "length (bytes16 ws) = 2 * length ws"
  by (induction ws) (simp_all add: bytes16_def)

lemma shifted_lane:
  "(ucast (drop_bit 4 (word_cat high low :: u16)) :: u8) AND 15 = drop_bit 4 (low :: u8)"
  "(ucast (drop_bit 8 (drop_bit 4 (word_cat high low :: u16))) :: u8) AND 15 = drop_bit 4 (high :: u8)"
proof -
  have m: "(15 :: u8) = mask 4" by (simp add: mask_eq_exp_minus_1)
  show "(ucast (drop_bit 4 (word_cat high low :: u16)) :: u8) AND 15 = drop_bit 4 (low :: u8)"
    unfolding m by (rule bit_word_eqI) (auto simp: bit_simps dest: bit_imp_le_length)
  show "(ucast (drop_bit 8 (drop_bit 4 (word_cat high low :: u16))) :: u8) AND 15 = drop_bit 4 (high :: u8)"
    unfolding m by (rule bit_word_eqI) (auto simp: bit_simps dest: bit_imp_le_length)
qed

lemma pand_replicate: "length x \<le> n \<Longrightarrow> pand x (replicate n m) = map (\<lambda>b. b AND m) x"
  by (auto simp: pand_def intro!: nth_equalityI)

lemma psubb_replicate: "length x \<le> n \<Longrightarrow> psubb x (replicate n m) = map (\<lambda>b. b - m) x"
  by (auto simp: psubb_def intro!: nth_equalityI)

lemma psrlw_mask: "even (length x) \<Longrightarrow> map (\<lambda>b. b AND 15) (psrlw 4 x) = map (drop_bit 4) x"
  by (induction x rule: lanes16.induct) (auto simp: psrlw_def bytes16_def shifted_lane [simplified])

lemma nibbles_map:
  assumes "length x = 16"
  shows "low_nibbles x = map (\<lambda>b. (b AND 15) - 8) x"
    and "high_nibbles x = map (\<lambda>b. drop_bit 4 b - 8) x"
proof -
  show "low_nibbles x = map (\<lambda>b. (b AND 15) - 8) x"
    using assms by (simp add: low_nibbles_def Q4_NIBBLE_MASK_def Q4_ZERO_POINT_def pand_replicate
        psubb_replicate o_def)
  have "length (psrlw 4 x) = 16" using assms by (simp add: psrlw_def length_bytes16 length_lanes16)
  then have "high_nibbles x = map (\<lambda>b. b - 8) (map (\<lambda>b. b AND 15) (psrlw 4 x))"
    by (simp add: high_nibbles_def Q4_NIBBLE_MASK_def Q4_ZERO_POINT_def pand_replicate
        psubb_replicate)
  then show "high_nibbles x = map (\<lambda>b. drop_bit 4 b - 8) x"
    using assms by (simp add: psrlw_mask)
qed

lemma sint_nibble: "unat (b :: u8) < 16 \<Longrightarrow> sint (b - 8) = int (unat b) - 8"
proof -
  assume "unat b < 16"
  then have "b = of_nat (unat b)" "unat b \<in> {..<16}" by simp_all
  moreover have "sint (of_nat n - 8 :: u8) = int n - 8" if "n \<in> {..<16}" for n
    using that by (auto simp: lessThan_nat_numeral lessThan_Suc numeral_eq_Suc)
  ultimately show ?thesis by metis
qed

lemma nibble_less: "unat (b AND 15 :: u8) < 16" "unat (drop_bit 4 b :: u8) < 16"
proof -
  have "b AND 15 = take_bit 4 b" by (simp add: take_bit_eq_mask mask_eq_exp_minus_1)
  then have "unat (b AND 15) = take_bit 4 (unat b)" by (simp only: unsigned_take_bit_eq)
  then show "unat (b AND 15 :: u8) < 16" by (simp add: take_bit_eq_mod)
  have "unat b < 2 ^ 8" using unsigned_less [of b] by simp
  then show "unat (drop_bit 4 b :: u8) < 16" by (simp only: unat_drop_bit_eq) (simp add: drop_bit_eq_div)
qed

lemma q4_quants:
  assumes "length w = 16"
  shows "map (q4_quant w) [0..<32] = map sint (low_nibbles w) @ map sint (high_nibbles w)"
  using assms
  by (intro nth_equalityI)
    (auto simp: nibbles_map nth_append q4_quant_def sint_nibble nibble_less le_mod_geq)

section \<open>Exactness\<close>

lemma dot_bound:
  "length xs = length ys \<Longrightarrow> list_all (\<lambda>x. \<bar>x\<bar> \<le> a) xs \<Longrightarrow> list_all (\<lambda>y. \<bar>y\<bar> \<le> b) ys \<Longrightarrow> 0 \<le> b \<Longrightarrow>
     \<bar>dot xs ys\<bar> \<le> int (length xs) * (a * b)"
proof (induction xs ys rule: list_induct2)
  case (Cons x xs y ys)
  have "\<bar>x * y\<bar> \<le> a * b"
    using Cons.prems unfolding abs_mult by (intro mult_mono) auto
  then show ?case using Cons by (simp add: algebra_simps)
qed simp

lemma sint_exact: "\<bar>v\<bar> < 2 ^ 31 \<Longrightarrow> sint (of_int v :: u32) = v"
  by (simp add: sint_sbintrunc' signed_take_bit_int_eq_self_iff abs_less_iff)

lemma sint_u8_bound: "\<bar>sint (b :: u8)\<bar> \<le> 128"
  using sint_greater_eq [of b] sint_less [of b] by simp

lemma take_drop_32: "length a = 32 \<Longrightarrow> take 16 a @ take 16 (drop 16 a) = a"
  by simp


lemma q4_bdot:
  assumes "length w = 16" and "length a = 32"
  shows "bdot (low_nibbles w) (take 16 a) + bdot (high_nibbles w) (take 16 (drop 16 a)) =
    dot (map (q4_quant w) [0..<32]) (map sint a)"
proof -
  have "map sint a = map sint (take 16 a) @ map sint (drop 16 a)" by (simp flip: map_append)
  then show ?thesis
    using assms by (simp add: q4_quants dot_append nibbles_map bdot_def)
qed

lemma q8_bdot:
  assumes "length w = 32" and "length a = 32"
  shows "bdot (take 16 w) (take 16 a) + bdot (take 16 (drop 16 w)) (take 16 (drop 16 a)) = bdot w a"
  using assms bdot_halves [of w a 16] by simp

lemma q4_quant_bound: "list_all (\<lambda>x. \<bar>x\<bar> \<le> 8) (map (q4_quant w) xs)"
proof -
  have "\<bar>q4_quant w e\<bar> \<le> 8" for e
  proof -
    have "\<bar>int n - 8\<bar> \<le> 8" if "n < 16" for n using that by simp
    then show ?thesis
      using nibble_less [of "w ! (e mod 16)"] unfolding q4_quant_def by presburger
  qed
  then show ?thesis by (simp add: list_all_iff)
qed

lemma sint_bytes_bound: "list_all (\<lambda>x. \<bar>x\<bar> \<le> 128) (map sint (a :: bytes))"
  using sint_u8_bound by (simp add: list_all_iff)

section \<open>Properties\<close>

text \<open>
  C26: The four assembly routines compute the integer product of a block exactly. For the 16 bytes
  of a 4-bit block and 32 activations the SSE2 and the AVX2 routine return, as a signed 32-bit
  number and without any overflow, the sum of the products of the 32 weights (nibble minus 8, low
  nibbles first, the reading of the scalar path) with the activations; for 8-bit blocks the sum of
  the products of the signed bytes.
\<close>

theorem block_dots_exact:
  "if length w4 = 16 \<and> length w8 = 32 \<and> length a = 32
   then sint (q4_block_dot_sse2 w4 a) = dot (map (q4_quant w4) [0..<32]) (map sint a) \<and>
     q4_block_dot_avx2 w4 a = q4_block_dot_sse2 w4 a \<and>
     sint (q8_block_dot_sse2 w8 a) = dot (map sint w8) (map sint a) \<and>
     q8_block_dot_avx2 w8 a = q8_block_dot_sse2 w8 a
   else True"
proof (cases "length w4 = 16 \<and> length w8 = 32 \<and> length a = 32")
  case True
  then have len: "length w4 = 16" "length w8 = 32" "length a = 32" by simp_all
  have nib: "length (low_nibbles w4) = 16" "length (high_nibbles w4) = 16"
    using len by (simp_all add: nibbles_map)
  have zero: "paddd (replicate 4 0) x = x" if "length x = 4" for x
    using that by (auto simp: paddd_def intro!: nth_equalityI)
  let ?q4 = "dot (map (q4_quant w4) [0..<32]) (map sint a)" and ?q8 = "bdot w8 a"
  have s4: "q4_block_dot_sse2 w4 a = of_int ?q4"
    using len nib by (simp add: q4_block_dot_sse2_def zero products_sum sse2_sum
        q4_bdot [OF len(1,3), symmetric])
  have a4: "q4_block_dot_avx2 w4 a = of_int ?q4"
    using avx2_sum [OF nib(2) _ nib(1), of "take 16 (drop 16 a)" "take 16 a"] len
    by (simp add: q4_block_dot_avx2_def q4_bdot [OF len(1,3), symmetric] Let_def add.commute)
  have s8: "q8_block_dot_sse2 w8 a = of_int ?q8"
    using len by (simp add: q8_block_dot_sse2_def sse2_sum q8_bdot [OF len(2,3), symmetric])
  have a8: "q8_block_dot_avx2 w8 a = of_int ?q8"
    using avx2_sum [of "take 16 w8" "take 16 a" "take 16 (drop 16 w8)" "take 16 (drop 16 a)"] len
    by (simp add: q8_block_dot_avx2_def q8_bdot [OF len(2,3), symmetric] Let_def)
  have "\<bar>?q4\<bar> \<le> int 32 * (8 * 128)"
    using dot_bound [OF _ q4_quant_bound sint_bytes_bound, of w4 "[0..<32]" a] len by simp
  moreover have "\<bar>?q8\<bar> \<le> int 32 * (128 * 128)"
    unfolding bdot_def using dot_bound [OF _ sint_bytes_bound sint_bytes_bound, of w8 a] len by simp
  ultimately show ?thesis
    using True by (simp add: s4 a4 s8 a8 sint_exact bdot_def del: upt_rec_numeral)
qed auto

end
