(* ===== verification/PB_Kernels.thy ===== *)
theory PB_Kernels
  imports PB_Sampling PB_BlockDot PB_Primitive
begin

text \<open>
  The floating point kernels of the inference engine (\<open>fp32_sse2.rs\<close>, the functions
  \<open>inference_*\<close>). A scratch region is the list of its words, a weight tensor the list of its bytes,
  the KV store a function from word indices to words. Scalar and vector instructions are those of
  the \<open>fpu\<close> parameter; a vector instruction applies the scalar one to each lane. The tables of
  cosines and sines are binary fixtures outside the sources, so they are an argument.
\<close>

section \<open>Processor selection\<close>

datatype backend = Sse2 | Avx2

definition AVX_STATE_MASK :: u64 where "AVX_STATE_MASK = 0x6"
definition AVX_LEAF1_MASK :: u32 where "AVX_LEAF1_MASK = 0x1c000000"

definition select_avx2 :: "u32 \<Rightarrow> u32 \<Rightarrow> u64 \<Rightarrow> u32 \<Rightarrow> bool" where
  "select_avx2 max_basic_leaf leaf1_ecx xcr0 leaf7_ebx \<longleftrightarrow>
     max_basic_leaf \<ge> 7 \<and> leaf1_ecx AND AVX_LEAF1_MASK = AVX_LEAF1_MASK \<and>
     xcr0 AND AVX_STATE_MASK = AVX_STATE_MASK \<and> leaf7_ebx AND push_bit 5 1 \<noteq> 0"

text \<open>\<open>None\<close> stands for the fault that reading XCR0 raises when the system has not enabled it.\<close>

definition resolve_avx2 :: "u32 \<Rightarrow> u32 \<Rightarrow> u64 option \<Rightarrow> u32 \<Rightarrow> bool option" where
  "resolve_avx2 max_basic_leaf leaf1_ecx xcr0 leaf7_ebx =
     (if max_basic_leaf < 7 \<or> leaf1_ecx AND AVX_LEAF1_MASK \<noteq> AVX_LEAF1_MASK then Some False
      else case xcr0 of None \<Rightarrow> None
        | Some x \<Rightarrow> Some (select_avx2 max_basic_leaf leaf1_ecx x leaf7_ebx))"

section \<open>Words and half precision\<close>

definition read_bits :: "bytes \<Rightarrow> nat \<Rightarrow> u32" where
  "read_bits base word = of_nat (u32_at base (word * 4))"

definition read_half :: "bytes \<Rightarrow> nat \<Rightarrow> u16" where
  "read_half base at = of_nat (u16_at base at)"

definition leading_zeros :: "u32 \<Rightarrow> nat" where
  "leading_zeros w = length (takeWhile (\<lambda>k. \<not> bit w k) (rev [0..<32]))"

definition half_to_f32_bits :: "u16 \<Rightarrow> u32" where
  "half_to_f32_bits h =
     (let sign = push_bit 16 (ucast (h AND 0x8000)) :: u32;
          exponent = ucast (drop_bit 10 h AND 0x1f) :: u32;
          fraction = ucast (h AND 0x03ff) :: u32
      in if exponent = 0 \<and> fraction = 0 then sign
         else if exponent = 0 then
           let shift = leading_zeros fraction - 21; normalized = push_bit shift fraction
           in sign OR push_bit 23 (of_nat (113 - shift)) OR push_bit 13 (normalized AND 0x03ff)
         else if exponent = 31 then sign OR 0x7f800000 OR push_bit 13 fraction
         else sign OR push_bit 23 (exponent + 112) OR push_bit 13 fraction)"

definition f32_bits_to_half :: "fpu \<Rightarrow> u32 \<Rightarrow> u16" where
  "f32_bits_to_half f b =
     (let sign = ucast (drop_bit 16 b AND 0x8000) :: u16;
          magnitude = b AND 0x7fffffff;
          base = fp_mul f (fp_mul f magnitude 0x77800000) 0x08800000;
          doubled = b + b;
          bias = doubled AND 0xff000000;
          bias = (if bias < 0x71000000 then 0x71000000 else bias);
          rounded = fp_add f (drop_bit 1 bias + 0x07800000) base;
          exponent = drop_bit 13 rounded AND 0x7c00;
          mantissa = rounded AND 0x0fff
      in if doubled > 0xff000000 then sign OR 0x7e00 else sign OR ucast (exponent + mantissa))"

definition round_half_away :: "fpu \<Rightarrow> u32 \<Rightarrow> int" where
  "round_half_away f v =
     fp_trunc_i32 f (fp_add f v (if drop_bit 31 v = 0 then 0x3f000000 else 0xbf000000))"

section \<open>Quantised rows\<close>

definition q4_block_words :: "fpu \<Rightarrow> bytes \<Rightarrow> u32 list" where
  "q4_block_words f block =
     (let scale = half_to_f32_bits (read_half block 0)
      in map (\<lambda>element. fp_mul f scale (fp_from_int f (q4_quant (drop 2 block) element))) [0..<32])"

definition inference_q4_row :: "fpu \<Rightarrow> bytes \<Rightarrow> nat \<Rightarrow> nat \<Rightarrow> u32 list" where
  "inference_q4_row f weights row columns =
     (let blocks_per_row = columns div 32; row_base = row * blocks_per_row * 18
      in concat (map (\<lambda>block_index. q4_block_words f
           (slice weights (row_base + block_index * 18) (row_base + block_index * 18 + 18)))
         [0..<blocks_per_row]))"

definition Q8_STAGING_BYTES :: nat where "Q8_STAGING_BYTES = 5184"

definition block_maximum :: "u32 list \<Rightarrow> u32" where
  "block_maximum vs =
     fold (\<lambda>v maximum. let magnitude = v AND 0x7fffffff
           in if fp_greater magnitude maximum then magnitude else maximum) vs 0"

definition prepare_block :: "fpu \<Rightarrow> u32 list \<Rightarrow> bytes" where
  "prepare_block f vs =
     (let scale = fp_div f (block_maximum vs) 0x42fe0000;
          half = f32_bits_to_half f scale;
          inverse = (if scale = 0 then 0 else fp_div f 0x3f800000 scale)
      in [ucast half, ucast (drop_bit 8 half)] @
         map (\<lambda>v. of_int (round_half_away f (fp_mul f v inverse))) vs)"

definition inference_prepare_q8 :: "fpu \<Rightarrow> u32 list \<Rightarrow> nat \<Rightarrow> bytes" where
  "inference_prepare_q8 f input columns =
     write_at (replicate Q8_STAGING_BYTES 0) 0
       (concat (map (\<lambda>block_index. prepare_block f (slice input (block_index * 32) (block_index * 32 + 32)))
          [0..<columns div 32]))"

fun q4_block_dot :: "backend \<Rightarrow> bytes \<Rightarrow> bytes \<Rightarrow> u32" where
  "q4_block_dot Sse2 = q4_block_dot_sse2"
| "q4_block_dot Avx2 = q4_block_dot_avx2"

fun q8_block_dot :: "backend \<Rightarrow> bytes \<Rightarrow> bytes \<Rightarrow> u32" where
  "q8_block_dot Sse2 = q8_block_dot_sse2"
| "q8_block_dot Avx2 = q8_block_dot_avx2"

definition q4_row_dot :: "fpu \<Rightarrow> backend \<Rightarrow> bytes \<Rightarrow> bytes \<Rightarrow> nat \<Rightarrow> nat \<Rightarrow> u32" where
  "q4_row_dot f backend weights staging columns row =
     (let blocks_per_row = columns div 32; row_base = row * blocks_per_row * 18
      in fold (\<lambda>block_index acc.
           let at = row_base + block_index * 18; sat = block_index * 34;
               integer = q4_block_dot backend (slice weights (at + 2) (at + 18))
                 (slice staging (sat + 2) (sat + 34))
           in fp_add f acc (fp_mul f (fp_mul f (fp_from_int f (sint integer))
                (half_to_f32_bits (read_half weights at)))
                (half_to_f32_bits (read_half staging sat)))) [0..<blocks_per_row] 0)"

definition q8_row_dot :: "fpu \<Rightarrow> backend \<Rightarrow> bytes \<Rightarrow> bytes \<Rightarrow> nat \<Rightarrow> nat \<Rightarrow> u32" where
  "q8_row_dot f backend weights staging columns row =
     (let blocks_per_row = columns div 32; row_base = row * blocks_per_row * 34
      in fold (\<lambda>block_index acc.
           let at = row_base + block_index * 34; sat = block_index * 34;
               integer = q8_block_dot backend (slice weights (at + 2) (at + 34))
                 (slice staging (sat + 2) (sat + 34))
           in fp_add f acc (fp_mul f (fp_from_int f (sint integer))
                (fp_mul f (half_to_f32_bits (read_half weights at))
                  (half_to_f32_bits (read_half staging sat))))) [0..<blocks_per_row] 0)"

definition q4_matvec_rows ::
  "fpu \<Rightarrow> backend \<Rightarrow> bytes \<Rightarrow> u32 list \<Rightarrow> bytes \<Rightarrow> nat \<Rightarrow> nat \<Rightarrow> nat \<Rightarrow> u32 list" where
  "q4_matvec_rows f backend weights out staging columns first last_row =
     fold (\<lambda>row out. out[row := q4_row_dot f backend weights staging columns row])
       [first..<last_row] out"

definition q8_matvec_rows ::
  "fpu \<Rightarrow> backend \<Rightarrow> bytes \<Rightarrow> u32 list \<Rightarrow> bytes \<Rightarrow> nat \<Rightarrow> nat \<Rightarrow> nat \<Rightarrow> u32 list" where
  "q8_matvec_rows f backend weights out staging columns first last_row =
     fold (\<lambda>row out. out[row := q8_row_dot f backend weights staging columns row])
       [first..<last_row] out"

section \<open>Vectors of words\<close>

definition inference_add_bias :: "fpu \<Rightarrow> u32 list \<Rightarrow> bytes \<Rightarrow> nat \<Rightarrow> u32 list" where
  "inference_add_bias f values bias words =
     fold (\<lambda>index values. values[index := fp_add f (values ! index) (read_bits bias index)])
       [0..<words] values"

definition inference_add_residual :: "fpu \<Rightarrow> u32 list \<Rightarrow> u32 list \<Rightarrow> nat \<Rightarrow> u32 list" where
  "inference_add_residual f residual update words =
     map (\<lambda>index. fp_add f (residual ! index) (update ! index)) [0..<words]"

definition inference_rmsnorm :: "fpu \<Rightarrow> u32 list \<Rightarrow> bytes \<Rightarrow> nat \<Rightarrow> u32 list" where
  "inference_rmsnorm f input weight words =
     (let acc = fold (\<lambda>index acc. fp_add64 f acc
            (fp_widen f (fp_mul f (input ! index) (input ! index)))) [0..<words] 0;
          mean = fp_narrow f (fp_div64 f acc (fp_widen f (fp_from_int f (int words))));
          inverse = fp_div f 0x3f800000 (fp_sqrt f (fp_add f mean 0x358637bd))
      in map (\<lambda>index. fp_mul f (fp_mul f (input ! index) inverse) (read_bits weight index))
           [0..<words])"

definition expf4_lane :: "fpu \<Rightarrow> u32 \<Rightarrow> u32" where
  "expf4_lane f v =
    (if v = 0xff800000 then 0
     else
       let z = fp_add f (fp_mul f v 0x3fb8aa3b) 0x4b400000;
           n = fp_sub f z 0x4b400000;
           inner = fp_sub f v (fp_mul f n 0x3f317200);
           b = fp_sub f inner (fp_mul f n 0x35bfbe8e);
           e = push_bit 23 z;
           k = e + 0x3f800000;
           absolute_n = n AND 0x7fffffff;
           u = fp_mul f b b;
           first = fp_add f (fp_mul f 0x3c072010 b) 0x3d2b9f17;
           second = fp_add f (fp_mul f 0x3e2aaf33 b) 0x3efffedb;
           polynomial = fp_add f (fp_mul f first u) second;
           j = fp_add f (fp_mul f polynomial u) (fp_mul f 0x3f7ffff6 b)
       in if \<not> fp_greater absolute_n 0x42fc0000 then fp_add f (fp_mul f j k) k
          else
            let g = (if \<not> fp_greater n 0 then 0x82000000 else 0);
                s1 = g + 0x7f000000;
                s2 = e - g;
                exceptional = fp_mul f (fp_add f (fp_mul f s2 j) s2) s1
            in if fp_greater absolute_n 0x43400000 then fp_mul f s1 s1 else exceptional)"

definition horizontal_sum4 :: "fpu \<Rightarrow> u32 list \<Rightarrow> u32" where
  "horizontal_sum4 f vs =
     (let first = fp_add f (vs ! 0) (vs ! 1); second = fp_add f (vs ! 2) (vs ! 3)
      in fp_add f first second)"

text \<open>The indices of a loop \<open>(0..n).step_by(4)\<close>.\<close>

definition steps4 :: "nat \<Rightarrow> nat list" where
  "steps4 n = map ((*) 4) [0..<(n + 3) div 4]"

definition inference_swiglu :: "fpu \<Rightarrow> u32 list \<Rightarrow> u32 list \<Rightarrow> nat \<Rightarrow> u32 list" where
  "inference_swiglu f gate up words =
     concat (map (\<lambda>index.
       let exponents = map (\<lambda>lane. expf4_lane f (fp_sub f 0 (gate ! (index + lane)))) [0..<4]
       in map (\<lambda>lane. fp_mul f
            (fp_div f (gate ! (index + lane)) (fp_add f 0x3f800000 (exponents ! lane)))
            (up ! (index + lane))) [0..<4]) (steps4 words))"

definition rope_table_bits :: "bytes \<Rightarrow> nat \<Rightarrow> nat \<Rightarrow> nat \<Rightarrow> u32" where
  "rope_table_bits table position pair component =
     read_bits table ((position * 32 + pair) * 2 + component)"

definition rope_pair :: "fpu \<Rightarrow> bytes \<Rightarrow> nat \<Rightarrow> nat \<Rightarrow> nat \<Rightarrow> u32 list \<Rightarrow> u32 list" where
  "rope_pair f table position base pair values =
     (let left = values ! (base + pair); right = values ! (base + pair + 32);
          cosine = rope_table_bits table position pair 0;
          sine = rope_table_bits table position pair 1
      in values[base + pair := fp_sub f (fp_mul f left cosine) (fp_mul f right sine),
                base + pair + 32 := fp_add f (fp_mul f left sine) (fp_mul f right cosine)])"

definition inference_rope :: "fpu \<Rightarrow> bytes \<Rightarrow> u32 list \<Rightarrow> nat \<Rightarrow> nat \<Rightarrow> u32 list" where
  "inference_rope f table values heads position =
     fold (\<lambda>head values. fold (rope_pair f table position (head * 64)) [0..<32] values)
       [0..<heads] values"


section \<open>The KV store\<close>

definition HEAD_WORDS :: nat where "HEAD_WORDS = 64"
definition KV_HEADS :: nat where "KV_HEADS = 2"
definition LAYERS :: nat where "LAYERS = 24"
definition KV_TILE :: nat where "KV_TILE = 4"
definition KV_VALUE_WORDS :: nat where "KV_VALUE_WORDS = KV_HEADS * CONTEXT_LIMIT * HEAD_WORDS"
definition KV_LAYER_WORDS :: nat where "KV_LAYER_WORDS = 2 * KV_VALUE_WORDS"

definition kv_word :: "nat \<Rightarrow> nat \<Rightarrow> nat \<Rightarrow> nat \<Rightarrow> nat \<Rightarrow> nat" where
  "kv_word layer kind position head component =
     (let base = layer * KV_LAYER_WORDS
      in if kind = 0
         then base + (((head * (CONTEXT_LIMIT div KV_TILE) + position div KV_TILE) * HEAD_WORDS +
                component) * KV_TILE + position mod KV_TILE)
         else base + KV_VALUE_WORDS + ((head * CONTEXT_LIMIT + position) * HEAD_WORDS + component))"

type_synonym kv_store = "nat \<Rightarrow> u32"

section \<open>Attention\<close>

text \<open>The division loop: one bit of the numerator at a time, from the highest.\<close>

primrec divide_bits :: "nat \<Rightarrow> u64 \<Rightarrow> u64 \<Rightarrow> u64 \<Rightarrow> u64 \<Rightarrow> u64" where
  "divide_bits 0 numerator denominator remainder quot = quot"
| "divide_bits (Suc b) numerator denominator remainder quot =
     (let remainder = (push_bit 1 remainder OR (drop_bit b numerator AND 1))
      in if remainder \<ge> denominator
         then divide_bits b numerator denominator (remainder - denominator) (quot OR push_bit b 1)
         else divide_bits b numerator denominator remainder quot)"

definition unsigned_divide :: "u64 \<Rightarrow> u64 \<Rightarrow> u64" where
  "unsigned_divide numerator denominator = divide_bits 64 numerator denominator 0 0"

text \<open>The scalar path.\<close>

definition key_dot :: "fpu \<Rightarrow> u32 list \<Rightarrow> kv_store \<Rightarrow> nat \<Rightarrow> nat \<Rightarrow> nat \<Rightarrow> nat \<Rightarrow> u64" where
  "key_dot f query kv layer query_head kv_head position =
     fold (\<lambda>component acc. fp_add64 f acc (fp_widen f
         (fp_mul f (query ! (query_head * 64 + component))
            (kv (kv_word layer 0 position kv_head component))))) [0..<64] 0"

definition attention_scores_sse2 ::
  "fpu \<Rightarrow> u32 list \<Rightarrow> kv_store \<Rightarrow> nat \<Rightarrow> nat \<Rightarrow> nat \<Rightarrow> nat \<Rightarrow> u32 list \<Rightarrow> u32 list" where
  "attention_scores_sse2 f query kv layer query_head kv_head positions scores =
     fold (\<lambda>position scores. scores[position :=
         fp_mul f (fp_narrow f (key_dot f query kv layer query_head kv_head position)) 0x3e000000])
       [0..<positions] scores"

definition attention_values_sse2 ::
  "fpu \<Rightarrow> kv_store \<Rightarrow> u32 list \<Rightarrow> nat \<Rightarrow> nat \<Rightarrow> nat \<Rightarrow> nat \<Rightarrow> u32 list \<Rightarrow> u32 list" where
  "attention_values_sse2 f kv probabilities layer query_head kv_head positions out =
     fold (\<lambda>component out. out[query_head * 64 + component := fp_narrow f
         (fold (\<lambda>position acc. fp_add64 f acc (fp_widen f
             (fp_mul f (probabilities ! position) (kv (kv_word layer 1 position kv_head component)))))
           [0..<positions] 0)]) [0..<64] out"

text \<open>Vector instructions, on four binary32 lanes or two binary64 lanes.\<close>

definition mul_ps :: "fpu \<Rightarrow> u32 list \<Rightarrow> u32 list \<Rightarrow> u32 list" where "mul_ps f = map2 (fp_mul f)"
definition add_pd :: "fpu \<Rightarrow> u64 list \<Rightarrow> u64 list \<Rightarrow> u64 list" where "add_pd f = map2 (fp_add64 f)"
definition cvtps_pd :: "fpu \<Rightarrow> u32 list \<Rightarrow> u64 list" where "cvtps_pd f x = map (fp_widen f) (take 2 x)"
definition cvtpd_ps :: "fpu \<Rightarrow> u64 list \<Rightarrow> u32 list" where "cvtpd_ps f x = map (fp_narrow f) x @ [0, 0]"
definition movehl_ps :: "u32 list \<Rightarrow> u32 list \<Rightarrow> u32 list" where "movehl_ps x y = drop 2 y @ drop 2 x"
definition loadu_ps :: "kv_store \<Rightarrow> nat \<Rightarrow> u32 list" where
  "loadu_ps kv word = map (\<lambda>lane. kv (word + lane)) [0..<4]"

definition attention_maskload4 :: "kv_store \<Rightarrow> nat \<Rightarrow> nat \<Rightarrow> u32 list" where
  "attention_maskload4 kv word remaining =
     map (\<lambda>lane. if remaining > lane then kv (word + lane) else 0) [0..<4]"

definition accumulate :: "fpu \<Rightarrow> u32 list \<Rightarrow> u64 list \<times> u64 list \<Rightarrow> u64 list \<times> u64 list" where
  "accumulate f products acc =
     (add_pd f (fst acc) (cvtps_pd f products),
      add_pd f (snd acc) (cvtps_pd f (movehl_ps products products)))"

definition converted4 :: "fpu \<Rightarrow> u64 list \<times> u64 list \<Rightarrow> u32 list" where
  "converted4 f acc =
     (let converted = cvtpd_ps f (fst acc) @ cvtpd_ps f (snd acc)
      in [converted ! 0, converted ! 1, converted ! 4, converted ! 5])"

definition attention_scores_avx2 ::
  "fpu \<Rightarrow> u32 list \<Rightarrow> kv_store \<Rightarrow> nat \<Rightarrow> nat \<Rightarrow> nat \<Rightarrow> nat \<Rightarrow> nat \<Rightarrow> u32 list \<Rightarrow> u32 list" where
  "attention_scores_avx2 f query kv layer query_head kv_head positions softmax_span scores =
     fold (\<lambda>position scores.
         let remaining = min (positions - position) 4;
             acc = fold (\<lambda>component acc.
                 let query_lanes = replicate 4 (query ! (query_head * 64 + component));
                     key = kv_word layer 0 position kv_head component;
                     keys = (if remaining = 4 then loadu_ps kv key
                             else attention_maskload4 kv key remaining)
                 in accumulate f (mul_ps f query_lanes keys) acc) [0..<64] ([0, 0], [0, 0])
         in write_at scores position (mul_ps f (converted4 f acc) (replicate 4 0x3e000000)))
       (steps4 softmax_span) scores"

definition attention_values_avx2 ::
  "fpu \<Rightarrow> kv_store \<Rightarrow> u32 list \<Rightarrow> nat \<Rightarrow> nat \<Rightarrow> nat \<Rightarrow> nat \<Rightarrow> u32 list \<Rightarrow> u32 list" where
  "attention_values_avx2 f kv probabilities layer query_head kv_head positions out =
     fold (\<lambda>component out.
         let acc = fold (\<lambda>position acc.
               accumulate f (mul_ps f (replicate 4 (probabilities ! position))
                 (loadu_ps kv (kv_word layer 1 position kv_head component))) acc)
               [0..<positions] ([0, 0], [0, 0])
         in write_at out (query_head * 64 + component) (converted4 f acc))
       (steps4 64) out"

definition attention_scores ::
  "fpu \<Rightarrow> backend \<Rightarrow> u32 list \<Rightarrow> kv_store \<Rightarrow> nat \<Rightarrow> nat \<Rightarrow> nat \<Rightarrow> nat \<Rightarrow> nat \<Rightarrow> u32 list \<Rightarrow> u32 list" where
  "attention_scores f b query kv layer query_head kv_head positions softmax_span scores =
     (case b of
        Avx2 \<Rightarrow> attention_scores_avx2 f query kv layer query_head kv_head positions softmax_span scores
      | Sse2 \<Rightarrow> attention_scores_sse2 f query kv layer query_head kv_head positions scores)"

definition attention_values ::
  "fpu \<Rightarrow> backend \<Rightarrow> kv_store \<Rightarrow> u32 list \<Rightarrow> nat \<Rightarrow> nat \<Rightarrow> nat \<Rightarrow> nat \<Rightarrow> u32 list \<Rightarrow> u32 list" where
  "attention_values f b kv probabilities layer query_head kv_head positions out =
     (case b of
        Avx2 \<Rightarrow> attention_values_avx2 f kv probabilities layer query_head kv_head positions out
      | Sse2 \<Rightarrow> attention_values_sse2 f kv probabilities layer query_head kv_head positions out)"

definition score_maximum :: "u32 list \<Rightarrow> nat \<Rightarrow> u32" where
  "score_maximum scores positions =
     fold (\<lambda>position maximum. let score = scores ! position
         in if fp_greater score maximum then score else maximum) [0..<positions] 0xff800000"

definition mask_scores :: "nat \<Rightarrow> nat \<Rightarrow> u32 list \<Rightarrow> u32 list" where
  "mask_scores positions softmax_span scores =
     fold (\<lambda>masked scores. scores[masked := 0xff800000]) [positions..<softmax_span] scores"

definition exponentials :: "fpu \<Rightarrow> u32 \<Rightarrow> nat \<Rightarrow> u32 list \<Rightarrow> u32 list \<times> u64" where
  "exponentials f maximum softmax_span scores =
     fold (\<lambda>position (scores, acc).
         let probabilities = map (expf4_lane f)
               (map (\<lambda>lane. fp_sub f (scores ! (position + lane)) maximum) [0..<4])
         in (write_at scores position probabilities,
             fp_add64 f acc (fp_widen f (horizontal_sum4 f probabilities))))
       (steps4 softmax_span) (scores, 0)"

definition softmax_scores :: "fpu \<Rightarrow> nat \<Rightarrow> nat \<Rightarrow> u32 list \<Rightarrow> u32 list" where
  "softmax_scores f positions softmax_span scores =
     (let maximum = score_maximum scores positions;
          scores = mask_scores positions softmax_span scores
      in case exponentials f maximum softmax_span scores of (scores, acc) \<Rightarrow>
           let normalizer = fp_narrow f (fp_div64 f 0x3ff0000000000000 acc)
           in fold (\<lambda>position scores. scores[position := fp_mul f (scores ! position) normalizer])
                [0..<positions] scores)"

definition attention_head ::
  "fpu \<Rightarrow> backend \<Rightarrow> u32 list \<Rightarrow> kv_store \<Rightarrow> nat \<Rightarrow> nat \<Rightarrow> nat \<Rightarrow> nat \<Rightarrow>
   u32 list \<times> u32 list \<Rightarrow> u32 list \<times> u32 list" where
  "attention_head f b query kv layer positions softmax_span query_head s =
     (case s of (out, scores) \<Rightarrow>
        let kv_head = unat (unsigned_divide (of_nat query_head) 7);
            scores = attention_scores f b query kv layer query_head kv_head positions softmax_span scores;
            scores = softmax_scores f positions softmax_span scores
        in (attention_values f b kv scores layer query_head kv_head positions out, scores))"

definition inference_attention ::
  "fpu \<Rightarrow> backend \<Rightarrow> u32 list \<Rightarrow> kv_store \<Rightarrow> u32 list \<Rightarrow> u32 list \<Rightarrow> nat \<Rightarrow> nat \<Rightarrow> nat \<Rightarrow>
   u32 list \<times> u32 list" where
  "inference_attention f b query kv out scores layer current_position softmax_span =
     (let positions = current_position + 1
      in fold (attention_head f b query kv layer positions softmax_span) [0..<14] (out, scores))"


section \<open>Half precision is exact\<close>

text \<open>The value of a half precision number times \<open>2^24\<close>, of a binary32 number times \<open>2^149\<close>.\<close>

definition half_scaled :: "u16 \<Rightarrow> int" where
  "half_scaled h =
     (let m = int (unat (h AND 0x3ff)); e = unat (drop_bit 10 h AND 0x1f);
          v = (if e = 0 then m else (m + 2 ^ 10) * 2 ^ (e - 1))
      in if bit h 15 then - v else v)"

definition f32_scaled :: "u32 \<Rightarrow> int" where
  "f32_scaled b =
     (let m = int (unat (b AND 0x7fffff)); e = unat (drop_bit 23 b AND 0xff);
          v = (if e = 0 then m else (m + 2 ^ 23) * 2 ^ (e - 1))
      in if bit b 31 then - v else v)"

lemma f32_parts:
  fixes x m :: u32 and s :: bool
  defines "b \<equiv> push_bit 31 (of_bool s) OR push_bit 23 (take_bit 8 x) OR take_bit 23 m"
  shows "b AND 0x7fffff = take_bit 23 m" "drop_bit 23 b AND 0xff = take_bit 8 x" "bit b 31 = s"
proof -
  have m23: "(0x7fffff :: u32) = mask 23" and m8: "(0xff :: u32) = mask 8"
    by (simp_all add: mask_eq_exp_minus_1)
  show "b AND 0x7fffff = take_bit 23 m"
    unfolding m23 b_def by (rule bit_word_eqI) (auto simp: bit_simps)
  show "drop_bit 23 b AND 0xff = take_bit 8 x"
    unfolding m8 b_def by (rule bit_word_eqI) (auto simp: bit_simps)
  show "bit b 31 = s" unfolding b_def by (simp add: bit_simps)
qed

lemma f32_scaled_parts:
  assumes "x < 2 ^ 8" and "m < 2 ^ 23"
  shows "f32_scaled (push_bit 31 (of_bool s) OR push_bit 23 (of_nat x) OR of_nat m) =
    (if s then - 1 else 1) * (if x = 0 then int m else (int m + 2 ^ 23) * 2 ^ (x - 1))"
proof -
  have t: "take_bit 8 (of_nat x) = (of_nat x :: u32)" "take_bit 23 (of_nat m) = (of_nat m :: u32)"
    using assms by (metis of_nat_take_bit take_bit_nat_eq_self)+
  have u: "unat (of_nat x :: u32) = x" "unat (of_nat m :: u32) = m"
    using assms by (simp_all add: unat_of_nat)
  show ?thesis
    using f32_parts [of s "of_nat x" "of_nat m"] unfolding t
    by (simp add: f32_scaled_def Let_def u)
qed

lemma push_of_nat: "push_bit n (of_nat m :: u32) = of_nat (m * 2 ^ n)"
  by (simp add: push_bit_eq_mult)

lemma f32_class:
  fixes s :: bool and x m :: nat
  assumes "x < 2 ^ 8" and "m < 2 ^ 23"
  defines "b \<equiv> push_bit 31 (of_bool s) OR push_bit 23 (of_nat x) OR of_nat m"
  shows "finite_bits b \<longleftrightarrow> x \<noteq> 255" and "nan_bits b \<longleftrightarrow> x = 255 \<and> 0 < m" and "bit b 31 = s"
proof -
  have t: "take_bit 8 (of_nat x) = (of_nat x :: u32)" "take_bit 23 (of_nat m) = (of_nat m :: u32)"
    using assms(1,2) by (metis of_nat_take_bit take_bit_nat_eq_self)+
  note parts = f32_parts [of s "of_nat x" "of_nat m", unfolded t, folded b_def]
  show "bit b 31 = s" by (rule parts(3))
  have u: "unat (of_nat x :: u32) = x" "unat (of_nat m :: u32) = m"
    using assms(1,2) by (simp_all add: unat_of_nat)
  have field: "b AND 0x7f800000 = push_bit 23 (drop_bit 23 b AND 0xff)"
  proof -
    have "(0x7f800000 :: u32) = push_bit 23 0xff" by simp
    then show ?thesis
      by (auto intro!: bit_word_eqI simp only: bit_simps le_add_diff_inverse o_def)
  qed
  have "(0x7f800000 :: u32) = push_bit 23 (of_nat 255)" by simp
  moreover have "push_bit 23 (of_nat x :: u32) = push_bit 23 (of_nat 255) \<longleftrightarrow> x = 255"
  proof -
    have "unat (of_nat (x * 2 ^ 23) :: u32) = x * 2 ^ 23" "unat (of_nat (255 * 2 ^ 23) :: u32) = 255 * 2 ^ 23"
      using assms(1) by (simp_all only: unat_of_nat, simp_all)
    then show ?thesis unfolding push_of_nat word_unat_eq_iff by simp
  qed
  ultimately show "finite_bits b \<longleftrightarrow> x \<noteq> 255"
    unfolding finite_bits_def field parts(2) by simp
  have "b AND 0x7fffffff = push_bit 23 (take_bit 8 (of_nat x)) OR take_bit 23 (of_nat m)"
  proof -
    have m: "(0x7fffffff :: u32) = mask 31" by (simp add: mask_eq_exp_minus_1)
    define g where "g = (push_bit 31 (of_bool s) :: u32)"
    have g: "bit g n \<longleftrightarrow> n = 31 \<and> s" for n
      unfolding g_def by (cases "n = 31") (auto simp only: bit_simps, simp_all)
    have b: "b = g OR push_bit 23 (take_bit 8 (of_nat x)) OR take_bit 23 (of_nat m)"
      by (simp only: b_def t g_def)
    show ?thesis unfolding b m by (auto intro!: bit_word_eqI simp: bit_simps g)
  qed
  also have "\<dots> = push_bit 23 (take_bit 8 (of_nat x)) + take_bit 23 (of_nat m)"
    by (rule disjunctive_add_eq_or [symmetric], rule bit_word_eqI) (auto simp: bit_simps)
  also have "\<dots> = of_nat (x * 2 ^ 23 + m)" by (simp only: t push_of_nat of_nat_add)
  finally have "unat (b AND 0x7fffffff) = (x * 2 ^ 23 + m) mod 2 ^ LENGTH(32)"
    by (simp only: unat_of_nat)
  then have "unat (b AND 0x7fffffff) = x * 2 ^ 23 + m" using assms(1,2) by simp
  then show "nan_bits b \<longleftrightarrow> x = 255 \<and> 0 < m"
    using assms(1,2) by (auto simp: nan_bits_def word_less_nat_alt)
qed

lemma leading_zeros_bit:
  assumes "k < 32" and "bit w k" and "\<And>j. k < j \<Longrightarrow> j < 32 \<Longrightarrow> \<not> bit w j"
  shows "leading_zeros w = 31 - k"
proof -
  have "[0..<n] = [0..<k] @ k # [Suc k..<n]" if "k < n" for n
    using that upt_add_eq_append [of 0 k "n - k"] by (simp add: upt_conv_Cons)
  from this [OF assms(1)] have split: "rev [0..<32] = rev [Suc k..<32] @ k # rev [0..<k]"
    by (simp del: upt_rec_numeral)
  have "takeWhile (\<lambda>k. \<not> bit w k) (rev [0..<32]) = rev [Suc k..<32]"
    unfolding split using assms by (simp add: takeWhile_append del: upt_rec_numeral)
  then show ?thesis unfolding leading_zeros_def by simp
qed


lemma bit_unat: "bit (w :: u32) k \<longleftrightarrow> odd (unat w div 2 ^ k)"
proof -
  have "bit (unat w) k \<longleftrightarrow> bit w k" by (simp add: bit_unsigned_iff)
  then show ?thesis by (simp add: bit_iff_odd)
qed

lemma leading_zeros_fraction:
  assumes "2 ^ k \<le> unat w" and "unat w < 2 ^ Suc k" and "k < 32"
  shows "leading_zeros w = 31 - k"
proof (rule leading_zeros_bit)
  have "unat w div 2 ^ k = 1" using assms by (intro div_nat_eqI) auto
  then show "bit w k" by (simp add: bit_unat)
  fix j assume "k < j" "j < 32"
  then have "unat w < 2 ^ j" using assms(2) by (meson Suc_leI le_trans less_le_trans one_le_numeral power_increasing)
  then show "\<not> bit w j" by (simp add: bit_unat)
qed (rule assms(3))

lemma half_parts:
  "unat (ucast (drop_bit 10 h AND 0x1f) :: u32) = unat (drop_bit 10 (h :: u16) AND 0x1f)"
  "unat (ucast (h AND 0x3ff) :: u32) = unat (h AND 0x3ff)"
  "unat (drop_bit 10 h AND 0x1f) < 32" "unat (h AND 0x3ff) < 1024"
proof -
  have m: "(0x1f :: u16) = mask 5" "(0x3ff :: u16) = mask 10" by (simp_all add: mask_eq_exp_minus_1)
  show "unat (drop_bit 10 h AND 0x1f) < 32" "unat (h AND 0x3ff) < 1024"
    unfolding m take_bit_eq_mask [symmetric] unsigned_take_bit_eq by (simp_all add: take_bit_eq_mod)
  then show "unat (ucast (drop_bit 10 h AND 0x1f) :: u32) = unat (drop_bit 10 (h :: u16) AND 0x1f)"
    "unat (ucast (h AND 0x3ff) :: u32) = unat (h AND 0x3ff)"
    by (simp_all add: unsigned_ucast_eq take_bit_nat_eq_self)
qed

lemma half_sign: "(push_bit 16 (ucast (h AND 0x8000 :: u16)) :: u32) = push_bit 31 (of_bool (bit h 15))"
proof -
  have "h AND 0x8000 = push_bit 15 (of_bool (bit h 15))"
  proof -
    have "(0x8000 :: u16) = push_bit 15 1" by simp
    then show ?thesis by (auto intro!: bit_word_eqI simp only: bit_simps diff_is_0_eq dest!: le_antisym)
  qed
  then show ?thesis by (cases "bit h 15") simp_all
qed


text \<open>The result of the conversion in parts: sign, exponent field and fraction field.\<close>

lemma half_normal:
  fixes h :: u16
  defines "e \<equiv> unat (drop_bit 10 h AND 0x1f)" and "m \<equiv> unat (h AND 0x3ff)"
  assumes "e \<noteq> 0" and "e \<noteq> 31"
  shows "half_to_f32_bits h =
    push_bit 31 (of_bool (bit h 15)) OR push_bit 23 (of_nat (e + 112)) OR of_nat (m * 2 ^ 13)"
proof -
  have "(ucast (drop_bit 10 h AND 0x1f) :: u32) = of_nat e" "(ucast (h AND 0x3ff) :: u32) = of_nat m"
    by (simp_all add: e_def m_def)
  moreover have "e < 32" unfolding e_def by (rule half_parts(3))
  then have "(of_nat e :: u32) \<noteq> 0" "(of_nat e :: u32) \<noteq> 31"
    using assms(3,4) by (simp_all add: word_unat_eq_iff unat_of_nat)
  ultimately show ?thesis
    unfolding half_to_f32_bits_def half_sign Let_def
    by (simp only: if_False simp_thms push_of_nat [of 13] of_nat_add of_nat_numeral)
qed

lemma shifted_range:
  fixes m k :: nat
  assumes "2 ^ k \<le> m" and "m < 2 ^ Suc k" and "k < 10"
  shows "1024 \<le> m * 2 ^ (10 - k)" and "m * 2 ^ (10 - k) < 2048"
proof -
  have "2 ^ k * 2 ^ (10 - k) \<le> m * 2 ^ (10 - k)" using assms(1) by simp
  moreover have "m * 2 ^ (10 - k) < 2 ^ Suc k * 2 ^ (10 - k)"
    using assms(2) by (rule mult_strict_right_mono) simp
  ultimately show "1024 \<le> m * 2 ^ (10 - k)" "m * 2 ^ (10 - k) < 2048"
    using assms(3) by (simp_all flip: power_add power_Suc)
qed

lemma half_subnormal:
  fixes h :: u16
  defines "m \<equiv> unat (h AND 0x3ff)"
  assumes "unat (drop_bit 10 h AND 0x1f) = 0" and "2 ^ k \<le> m" and "m < 2 ^ Suc k" and "k < 10"
  shows "half_to_f32_bits h =
    push_bit 31 (of_bool (bit h 15)) OR push_bit 23 (of_nat (103 + k)) OR
    of_nat ((m * 2 ^ (10 - k) - 1024) * 2 ^ 13)"
proof -
  have "drop_bit 10 h AND 0x1f = 0" using assms(2) unat_eq_zero by blast
  then have e: "(ucast (drop_bit 10 h AND 0x1f) :: u32) = 0" by (simp only: unsigned_0)
  have m: "(ucast (h AND 0x3ff) :: u32) = of_nat m" by (simp add: m_def)
  have small: "m < 1024" unfolding m_def by (rule half_parts(4))
  then have u: "unat (of_nat m :: u32) = m" by (simp add: unat_of_nat)
  have lz: "leading_zeros (of_nat m) = 31 - k"
    by (rule leading_zeros_fraction) (use assms u in auto)
  let ?n = "m * 2 ^ (10 - k)"
  note n = shifted_range [OF assms(3-5)]
  have "push_bit (10 - k) (of_nat m :: u32) AND 0x3ff = of_nat (?n - 1024)"
  proof -
    have "(0x3ff :: u32) = mask 10" by (simp add: mask_eq_exp_minus_1)
    then have "push_bit (10 - k) (of_nat m :: u32) AND 0x3ff = take_bit 10 (of_nat ?n)"
      by (simp add: push_bit_eq_mult take_bit_eq_mask)
    also have "\<dots> = of_nat (take_bit 10 ?n)" by (simp only: of_nat_take_bit)
    also have "take_bit 10 ?n = ?n - 1024" using n by (simp add: take_bit_eq_mod le_mod_geq)
    finally show ?thesis .
  qed
  moreover have "m \<noteq> 0" using assms(3) by (metis not_less_eq_eq le_zero_eq power_not_zero zero_neq_numeral)
  then have "(of_nat m :: u32) \<noteq> 0" using u by (metis unsigned_0)
  moreover have "31 - k - 21 = 10 - k" "113 - (10 - k) = 103 + k" using assms(5) by simp_all
  ultimately show ?thesis
    unfolding half_to_f32_bits_def half_sign Let_def e m lz
    by (simp only: if_False if_True simp_thms push_of_nat [of 13])
qed

lemma half_special:
  fixes h :: u16
  assumes "drop_bit 10 h AND 0x1f = 0x1f"
  shows "half_to_f32_bits h = push_bit 31 (of_bool (bit h 15)) OR push_bit 23 (of_nat 255) OR
    of_nat (unat (h AND 0x3ff) * 2 ^ 13)"
proof -
  have e: "(ucast (drop_bit 10 h AND 0x1f) :: u32) = 31" unfolding assms by simp
  have m: "(ucast (h AND 0x3ff) :: u32) = of_nat (unat (h AND 0x3ff))" by simp
  have x: "(0x7f800000 :: u32) = push_bit 23 (of_nat 255)" by simp
  have ne: "(31 :: u32) \<noteq> 0" by simp
  show ?thesis
    unfolding half_to_f32_bits_def half_sign Let_def e x m push_of_nat [of 13]
    by (simp only: ne if_False if_True simp_thms)
qed

text \<open>
  C38: Widening a half precision number is exact. Every half precision number that is finite becomes
  a finite binary32 number of the same value, subnormal numbers and both zeros included; infinities
  and NaNs become infinities and NaNs.
\<close>

theorem half_to_f32_exact:
  "if drop_bit 10 h AND 0x1f = 0x1f
   then \<not> finite_bits (half_to_f32_bits h) \<and>
     (nan_bits (half_to_f32_bits h) \<longleftrightarrow> h AND 0x3ff \<noteq> 0)
   else finite_bits (half_to_f32_bits h) \<and>
     f32_scaled (half_to_f32_bits h) = half_scaled h * 2 ^ 125 \<and>
     (bit (half_to_f32_bits h) 31 \<longleftrightarrow> bit h 15)"
proof (cases "drop_bit 10 h AND 0x1f = 0x1f")
  case True
  define m where "m = unat (h AND 0x3ff)"
  have b: "half_to_f32_bits h =
      push_bit 31 (of_bool (bit h 15)) OR push_bit 23 (of_nat 255) OR of_nat (m * 2 ^ 13)"
    unfolding m_def by (rule half_special [OF True])
  have "m < 1024" unfolding m_def by (rule half_parts(4))
  then have "m * 2 ^ 13 < 2 ^ 23" by simp
  note f32_class [OF _ this, of 255 "bit h 15", folded b]
  moreover have "0 < m \<longleftrightarrow> h AND 0x3ff \<noteq> 0" unfolding m_def by (simp add: unat_gt_0)
  ultimately show ?thesis using True by simp
next
  case fin: False
  define e where "e = unat (drop_bit 10 h AND 0x1f)"
  define m where "m = unat (h AND 0x3ff)"
  have "drop_bit 10 h AND 0x1f = of_nat e" by (simp add: e_def)
  then have e31: "e \<noteq> 31" using fin by auto
  have e: "e < 32" and m: "m < 1024" unfolding e_def m_def by (rule half_parts)+
  have scaled: "half_scaled h = (if bit h 15 then - 1 else 1) *
      (if e = 0 then int m else (int m + 2 ^ 10) * 2 ^ (e - 1))"
    by (simp add: half_scaled_def Let_def e_def m_def)
  show ?thesis
  proof (cases "e = 0")
    case False
    have b: "half_to_f32_bits h = push_bit 31 (of_bool (bit h 15)) OR push_bit 23 (of_nat (e + 112)) OR
        of_nat (m * 2 ^ 13)"
      using half_normal [of h] False e31 unfolding e_def m_def by blast
    have small: "e + 112 < 2 ^ 8" "m * 2 ^ 13 < 2 ^ 23" using e m by simp_all
    have "(int m * 2 ^ 13 + 2 ^ 23) * 2 ^ (e + 111) = (int m + 2 ^ 10) * 2 ^ (e - 1) * 2 ^ 125"
    proof -
      have "2 ^ 13 * 2 ^ (e + 111) = (2 :: int) ^ (e - 1) * 2 ^ 125"
      proof -
        have "13 + (e + 111) = e - 1 + 125" using False by simp
        then show ?thesis by (simp only: power_add [symmetric])
      qed
      then have "(int m + 2 ^ 10) * (2 ^ 13 * 2 ^ (e + 111)) = (int m + 2 ^ 10) * (2 ^ (e - 1) * 2 ^ 125)"
        by (simp only:)
      then show ?thesis by (simp add: algebra_simps)
    qed
    then show ?thesis
      using fin e31 False f32_class [OF small, of "bit h 15", folded b] e
        f32_scaled_parts [OF small, of "bit h 15", folded b]
      by (simp add: scaled ac_simps)
  next
    case zero: True
    show ?thesis
    proof (cases "m = 0")
      case True
      have "drop_bit 10 h AND 0x1f = 0" "h AND 0x3ff = 0"
        using zero True unfolding e_def m_def by (auto simp: unat_eq_zero)
      then have b: "half_to_f32_bits h = push_bit 31 (of_bool (bit h 15)) OR push_bit 23 (of_nat 0) OR of_nat 0"
        unfolding half_to_f32_bits_def half_sign Let_def by simp
      show ?thesis
        using fin zero True f32_class [of 0 0 "bit h 15", folded b]
          f32_scaled_parts [of 0 0 "bit h 15", folded b]
        by (simp add: scaled)
    next
      case False
      obtain k where k: "2 ^ k \<le> m" "m < 2 ^ Suc k"
        using ex_power_ivl1 [of 2 m] False by auto
      have "k < 10"
      proof (rule ccontr)
        assume "\<not> k < 10"
        then have "(2 :: nat) ^ 10 \<le> 2 ^ k" by (intro power_increasing) simp_all
        with k(1) m show False by simp
      qed
      let ?f = "m * 2 ^ (10 - k) - 1024"
      have b: "half_to_f32_bits h = push_bit 31 (of_bool (bit h 15)) OR push_bit 23 (of_nat (103 + k)) OR
          of_nat (?f * 2 ^ 13)"
        using half_subnormal [of h k] zero k \<open>k < 10\<close> unfolding e_def m_def by blast
      have n: "1024 \<le> m * 2 ^ (10 - k)" "m * 2 ^ (10 - k) < 2048"
        using shifted_range [OF k \<open>k < 10\<close>] by simp_all
      then have small: "103 + k < 2 ^ 8" "?f * 2 ^ 13 < 2 ^ 23" using \<open>k < 10\<close> by simp_all
      have "(int (?f * 2 ^ 13) + 2 ^ 23) * 2 ^ (103 + k - 1) = int m * 2 ^ 125"
      proof -
        have "int (?f * 2 ^ 13) + 2 ^ 23 = int (m * 2 ^ (10 - k)) * 2 ^ 13"
          using n(1) by (simp add: of_nat_diff algebra_simps)
        moreover have "(2 :: int) ^ (10 - k) * 2 ^ 13 * 2 ^ (103 + k - 1) = 2 ^ 125"
          using \<open>k < 10\<close> by (simp flip: power_add)
        ultimately show ?thesis by (simp add: mult.assoc)
      qed
      then show ?thesis
        using fin zero f32_class [OF small, of "bit h 15", folded b] \<open>k < 10\<close>
          f32_scaled_parts [OF small, of "bit h 15", folded b]
        by (simp add: scaled)
    qed
  qed
qed

end
