(* ===== verification/PB_Reference.thy ===== *)
theory PB_Reference
  imports PB_Kernels
begin

text \<open>
  The reference kernels behind the primitive interface (\<open>execute\<close> of \<open>fp32_sse2.rs\<close> and the nine
  operations it calls), on the memory of \<open>PB_Primitive\<close>: they read and write words through raw
  pointers, so every write is a store at an address, and nothing but their own loops keeps it inside
  the staging region. The properties of the interface are stated here, with these kernels. Products of
  dimensions are \<open>nat\<close>: the interface calls a kernel only for shapes whose products fit 64 bits.
\<close>

section \<open>Words of the memory\<close>

definition word_at :: "memory \<Rightarrow> nat \<Rightarrow> nat \<Rightarrow> u32" where
  "word_at mem base word = read_bits (load mem (base + word * 4) 4) 0"

definition put_word :: "nat \<Rightarrow> nat \<Rightarrow> u32 \<Rightarrow> memory \<Rightarrow> memory" where
  "put_word base word bits mem = store mem (base + word * 4) (le_bytes 4 (unat bits))"

definition check_finite :: "memory \<Rightarrow> nat \<Rightarrow> nat \<Rightarrow> u32 + unit" where
  "check_finite mem base words =
     (case find (\<lambda>index. \<not> finite_bits (word_at mem base index)) [0..<words] of
        Some index \<Rightarrow> Inl (of_nat index)
      | None \<Rightarrow> Inr ())"

section \<open>The nine operations\<close>

definition bias_residual :: "fpu \<Rightarrow> nat \<Rightarrow> nat \<Rightarrow> nat \<Rightarrow> memory \<Rightarrow> memory" where
  "bias_residual f input out n mem =
     fold (\<lambda>index mem. put_word out index
         (fp_add f (fp_add f (word_at mem input index) (word_at mem input (n + index)))
            (word_at mem input (n * 2 + index))) mem) [0..<n] mem"

text \<open>The value of an element of a block, which starts with its half precision scale.\<close>

definition block_quant :: "memory \<Rightarrow> nat \<Rightarrow> bool \<Rightarrow> nat \<Rightarrow> int" where
  "block_quant mem block q4 element =
     (if q4 then
        let packed = mem (block + (2 + element mod 16)) in
        if element < 16 then int (unat (packed AND 0x0f)) - 8 else int (unat (drop_bit 4 packed)) - 8
      else sint (mem (block + (2 + element))))"

definition dequantize_block ::
  "fpu \<Rightarrow> nat \<Rightarrow> nat \<Rightarrow> nat \<Rightarrow> bool \<Rightarrow> nat \<times> nat \<Rightarrow> memory \<Rightarrow> (u32 + unit) \<times> memory" where
  "dequantize_block f input out columns q4 at mem =
     (case at of (row, block_index) \<Rightarrow>
        let blocks_per_row = columns div 32;
            block_number = row * blocks_per_row + block_index;
            block = input + block_number * (if q4 then 18 else 34);
            scale = half_to_f32_bits (read_half (load mem block 2) 0)
        in if \<not> finite_bits scale then (Inl (of_nat block_number), mem)
           else (Inr (), fold (\<lambda>element mem. put_word out (row * columns + block_index * 32 + element)
                   (fp_mul f scale (fp_from_int f (block_quant mem block q4 element))) mem) [0..<32] mem))"

fun dequantize_blocks ::
  "fpu \<Rightarrow> nat \<Rightarrow> nat \<Rightarrow> nat \<Rightarrow> bool \<Rightarrow> (nat \<times> nat) list \<Rightarrow> memory \<Rightarrow> (u32 + unit) \<times> memory" where
  "dequantize_blocks f input out columns q4 [] mem = (Inr (), mem)"
| "dequantize_blocks f input out columns q4 (at # rest) mem =
     (case dequantize_block f input out columns q4 at mem of
        (Inl index, mem) \<Rightarrow> (Inl index, mem)
      | (Inr _, mem) \<Rightarrow> dequantize_blocks f input out columns q4 rest mem)"

definition row_total :: "fpu \<Rightarrow> nat \<Rightarrow> nat \<Rightarrow> nat \<Rightarrow> nat \<Rightarrow> memory \<Rightarrow> u32" where
  "row_total f aux out columns row mem =
     fold (\<lambda>column total. fp_add f total
         (fp_mul f (word_at mem out (row * columns + column)) (word_at mem aux column))) [0..<columns] 0"

definition quantized ::
  "fpu \<Rightarrow> nat \<Rightarrow> nat \<Rightarrow> nat \<Rightarrow> nat \<Rightarrow> nat \<Rightarrow> bool \<Rightarrow> memory \<Rightarrow> (u32 + unit) \<times> memory" where
  "quantized f input aux out rws columns q4 mem =
     (case dequantize_blocks f input out columns q4 (List.product [0..<rws] [0..<columns div 32]) mem of
        (Inl index, mem) \<Rightarrow> (Inl index, mem)
      | (Inr _, mem) \<Rightarrow>
          let dot_base = rws * columns in
          (Inr (), fold (\<lambda>row mem.
             let tot = row_total f aux out columns row mem;
                 mem = (if row = 0 then put_word out dot_base tot mem else mem)
             in put_word out (dot_base + 1 + row) tot mem) [0..<rws] mem))"

definition rmsnorm :: "fpu \<Rightarrow> nat \<Rightarrow> nat \<Rightarrow> nat \<Rightarrow> nat \<Rightarrow> memory \<Rightarrow> memory" where
  "rmsnorm f input aux out n mem =
     (let squares = fold (\<lambda>index squares.
            let v = word_at mem input index in fp_add f squares (fp_mul f v v)) [0..<n] 0;
          inverse = fp_div f 0x3f800000
            (fp_sqrt f (fp_add f (fp_div f squares (fp_from_int f (int n))) 0x358637bd))
      in fold (\<lambda>index mem. put_word out index
           (fp_mul f (fp_mul f (word_at mem input index) inverse) (word_at mem aux index)) mem) [0..<n] mem)"

text \<open>The table of cosines and sines is a binary fixture outside the sources; it is an argument.\<close>

definition rope_step ::
  "fpu \<Rightarrow> bytes \<Rightarrow> nat \<Rightarrow> nat \<Rightarrow> nat \<Rightarrow> nat \<Rightarrow> nat \<times> nat \<Rightarrow> memory \<Rightarrow> memory" where
  "rope_step f table input out head_dim position at mem =
     (case at of (head, pair) \<Rightarrow>
        let half = head_dim div 2; stride = (if head_dim = 4 then 16 else 1); base = head * head_dim;
            cosine = rope_table_bits table position (pair * stride) 0;
            sine = rope_table_bits table position (pair * stride) 1;
            left = word_at mem input (base + pair); right = word_at mem input (base + pair + half);
            mem = put_word out (base + pair) (fp_sub f (fp_mul f left cosine) (fp_mul f right sine)) mem
        in put_word out (base + pair + half) (fp_add f (fp_mul f left sine) (fp_mul f right cosine)) mem)"

definition rope :: "fpu \<Rightarrow> bytes \<Rightarrow> nat \<Rightarrow> nat \<Rightarrow> nat \<Rightarrow> nat \<Rightarrow> nat \<Rightarrow> memory \<Rightarrow> memory" where
  "rope f table input out head_dim heads position mem =
     fold (rope_step f table input out head_dim position)
       (List.product [0..<heads] [0..<head_dim div 2]) mem"

definition word_maximum :: "memory \<Rightarrow> nat \<Rightarrow> nat \<Rightarrow> u32" where
  "word_maximum mem input n =
     fold (\<lambda>index maximum. let v = word_at mem input index in if fp_greater v maximum then v else maximum)
       [1..<n] (word_at mem input 0)"

definition softmax :: "fpu \<Rightarrow> nat \<Rightarrow> nat \<Rightarrow> nat \<Rightarrow> memory \<Rightarrow> memory" where
  "softmax f input out n mem =
     (let maximum = word_maximum mem input n;
          (mem, tot) = fold (\<lambda>index (mem, tot).
              let v = expf f (fp_sub f (word_at mem input index) maximum)
              in (put_word out index v mem, fp_add f tot v)) [0..<n] (mem, 0)
      in fold (\<lambda>index mem. put_word out index (fp_div f (word_at mem out index) tot) mem) [0..<n] mem)"

text \<open>One query head of the attention: scores, probabilities and the weighted sum of the values.\<close>

definition gqa_scores ::
  "fpu \<Rightarrow> nat \<Rightarrow> nat \<Rightarrow> nat \<Rightarrow> nat \<Rightarrow> nat \<Rightarrow> nat \<Rightarrow> nat \<Rightarrow> nat \<Rightarrow> nat \<Rightarrow> u32 \<Rightarrow> memory \<Rightarrow> memory \<times> u32" where
  "gqa_scores f input out keys_base score_base query_head kv_head kv_heads positions head_dim scale mem =
     fold (\<lambda>position (mem, maximum).
         let tot = fold (\<lambda>element tot.
               let key = keys_base + (position * kv_heads + kv_head) * head_dim + element
               in fp_add f tot (fp_mul f (word_at mem input (query_head * head_dim + element))
                    (word_at mem input key))) [0..<head_dim] 0;
             score = fp_mul f tot scale
         in (put_word out (score_base + position) score mem,
             if fp_greater score maximum then score else maximum)) [0..<positions] (mem, 0xff800000)"

definition gqa_probabilities ::
  "fpu \<Rightarrow> nat \<Rightarrow> nat \<Rightarrow> nat \<Rightarrow> nat \<Rightarrow> u32 \<Rightarrow> memory \<Rightarrow> memory" where
  "gqa_probabilities f out probability_base score_base positions maximum mem =
     (let (mem, tot) = fold (\<lambda>position (mem, tot).
            let probability = expf f (fp_sub f (word_at mem out (score_base + position)) maximum)
            in (put_word out (probability_base + position) probability mem, fp_add f tot probability))
          [0..<positions] (mem, 0)
      in fold (\<lambda>position mem. put_word out (probability_base + position)
           (fp_div f (word_at mem out (probability_base + position)) tot) mem) [0..<positions] mem)"

definition gqa_values ::
  "fpu \<Rightarrow> nat \<Rightarrow> nat \<Rightarrow> nat \<Rightarrow> nat \<Rightarrow> nat \<Rightarrow> nat \<Rightarrow> nat \<Rightarrow> nat \<Rightarrow> nat \<Rightarrow> memory \<Rightarrow> memory" where
  "gqa_values f input out values_base result_base probability_base kv_head kv_heads positions head_dim mem =
     fold (\<lambda>element mem.
         let tot = fold (\<lambda>position tot.
               let at = values_base + (position * kv_heads + kv_head) * head_dim + element
               in fp_add f tot (fp_mul f (word_at mem out (probability_base + position)) (word_at mem input at)))
               [0..<positions] 0
         in put_word out (result_base + element) tot mem) [0..<head_dim] mem"

definition gqa_head ::
  "fpu \<Rightarrow> nat \<Rightarrow> nat \<Rightarrow> nat \<Rightarrow> nat \<Rightarrow> nat \<Rightarrow> nat \<Rightarrow> nat \<Rightarrow> memory \<Rightarrow> memory" where
  "gqa_head f input out query_heads kv_heads positions head_dim query_head mem =
     (let keys_base = query_heads * head_dim;
          values_base = keys_base + positions * kv_heads * head_dim;
          group = unsigned_divide (of_nat query_heads) (of_nat kv_heads);
          scale = fp_div f 0x3f800000 (fp_sqrt f (fp_from_int f (int head_dim)));
          per_head = head_dim + positions * 2;
          kv_head = unat (unsigned_divide (of_nat query_head) group);
          result_base = query_head * per_head;
          probability_base = result_base + head_dim;
          score_base = probability_base + positions;
          (mem, maximum) = gqa_scores f input out keys_base score_base query_head kv_head kv_heads positions
            head_dim scale mem;
          mem = gqa_probabilities f out probability_base score_base positions maximum mem
      in gqa_values f input out values_base result_base probability_base kv_head kv_heads positions head_dim mem)"

definition gqa_attention ::
  "fpu \<Rightarrow> nat \<Rightarrow> nat \<Rightarrow> nat \<Rightarrow> nat \<Rightarrow> nat \<Rightarrow> nat \<Rightarrow> memory \<Rightarrow> memory" where
  "gqa_attention f input out query_heads kv_heads positions head_dim mem =
     fold (gqa_head f input out query_heads kv_heads positions head_dim) [0..<query_heads] mem"

definition silu_swiglu :: "fpu \<Rightarrow> nat \<Rightarrow> nat \<Rightarrow> nat \<Rightarrow> nat \<Rightarrow> memory \<Rightarrow> memory" where
  "silu_swiglu f input aux out n mem =
     fold (\<lambda>index mem.
         let x = word_at mem input index;
             exponent = expf f (x XOR 0x80000000);
             sigmoid = fp_div f 0x3f800000 (fp_add f 0x3f800000 exponent);
             silu = fp_mul f x sigmoid;
             mem = put_word out index (fp_mul f silu (word_at mem aux index)) mem
         in put_word out (n + index) silu mem) [0..<n] mem"

definition argmax_word :: "memory \<Rightarrow> nat \<Rightarrow> nat \<Rightarrow> nat" where
  "argmax_word mem input n =
     fst (fold (\<lambda>index (selected, best).
            let v = word_at mem input index in if fp_greater v best then (index, v) else (selected, best))
          [1..<n] (0, word_at mem input 0))"

definition argmax :: "nat \<Rightarrow> nat \<Rightarrow> nat \<Rightarrow> memory \<Rightarrow> memory" where
  "argmax input out n mem = put_word out 0 (of_nat (argmax_word mem input n)) mem"

section \<open>Executing an operation\<close>

definition finite_input_words :: "primitive_request \<Rightarrow> nat" where
  "finite_input_words rq =
     (let d0 = unat (rq_dim0 rq); d1 = unat (rq_dim1 rq); d2 = unat (rq_dim2 rq); d3 = unat (rq_dim3 rq);
          oper = rq_operation rq
      in if oper = 1 then d0 * 3
         else if oper = 4 \<or> oper = 6 \<or> oper = 8 \<or> oper = 9 then d0
         else if oper = 5 then d0 * d1
         else if oper = 7 then d0 * d3 + d2 * d1 * d3 * 2 else 0)"

definition finite_aux_words :: "primitive_request \<Rightarrow> nat" where
  "finite_aux_words rq =
     (let oper = rq_operation rq
      in if oper = 2 \<or> oper = 3 then unat (rq_dim1 rq)
         else if oper = 4 \<or> oper = 8 then unat (rq_dim0 rq) else 0)"

text \<open>The operation itself: an error index for a bad block, or the number of words to check.\<close>

definition numeric_operation ::
  "fpu \<Rightarrow> bytes \<Rightarrow> primitive_request \<Rightarrow> nat \<Rightarrow> memory \<Rightarrow> ((primitive_status \<times> u32) + nat) \<times> memory" where
  "numeric_operation f table rq out mem =
     (let d0 = unat (rq_dim0 rq); d1 = unat (rq_dim1 rq); d2 = unat (rq_dim2 rq); d3 = unat (rq_dim3 rq);
          oper = rq_operation rq; input = rq_input rq; aux = rq_aux rq
      in if oper = 1 then (Inr d0, bias_residual f input out d0 mem)
         else if oper = 2 \<or> oper = 3 then
           (case quantized f input aux out d0 d1 (oper = 2) mem of
              (Inl index, mem) \<Rightarrow> (Inl (PS_BLOCK_ENCODING, index), mem)
            | (Inr _, mem) \<Rightarrow> (Inr (d0 * d1 + 1 + d0), mem))
         else if oper = 4 then (Inr d0, rmsnorm f input aux out d0 mem)
         else if oper = 5 then (Inr (d0 * d1), rope f table input out d0 d1 (unat (rq_position rq)) mem)
         else if oper = 6 then (Inr d0, softmax f input out d0 mem)
         else if oper = 7 then (Inr (d0 * (d3 + d2 * 2)), gqa_attention f input out d0 d1 d2 d3 mem)
         else if oper = 8 then (Inr (d0 * 2), silu_swiglu f input aux out d0 mem)
         else if oper = 9 then (Inl (PS_OK, 0), argmax input out d0 mem)
         else (Inl (PS_UNSUPPORTED_OPERATION, 0), mem))"

definition execute :: "fpu \<Rightarrow> bytes \<Rightarrow> kernel" where
  "execute f table rq mem out =
     (case check_finite mem (rq_input rq) (finite_input_words rq) of
        Inl index \<Rightarrow> ((PS_NONFINITE_INPUT, index), mem)
      | Inr _ \<Rightarrow>
        (case check_finite mem (rq_aux rq) (finite_aux_words rq) of
           Inl index \<Rightarrow> ((PS_NONFINITE_INPUT, index), mem)
         | Inr _ \<Rightarrow>
           (case numeric_operation f table rq out mem of
              (Inl outcome, mem) \<Rightarrow> (outcome, mem)
            | (Inr words, mem) \<Rightarrow>
                (case check_finite mem out words of
                   Inl index \<Rightarrow> ((PS_NONFINITE_OUTPUT, index), mem)
                 | Inr _ \<Rightarrow> ((PS_OK, 0), mem)))))"

section \<open>Where the kernels write\<close>

text \<open>The memory differs at most in the \<open>n\<close> words from \<open>base\<close> on.\<close>

definition confined :: "nat \<Rightarrow> nat \<Rightarrow> memory \<Rightarrow> memory \<Rightarrow> bool" where
  "confined base n mem mem' \<longleftrightarrow> (\<forall>x. base \<le> x \<and> x < base + n * 4 \<or> mem' x = mem x)"

named_theorems confined_rules

lemma confined_refl [confined_rules]: "confined base n mem mem"
  by (simp add: confined_def)

lemma confined_trans: "confined base n m1 m2 \<Longrightarrow> confined base n m2 m3 \<Longrightarrow> confined base n m1 m3"
  unfolding confined_def by metis

lemma confined_put [confined_rules]: "word < n \<Longrightarrow> confined base n mem (put_word base word b mem)"
  by (auto simp: confined_def put_word_def store_def)

lemma confined_put_after: "word < n \<Longrightarrow> confined base n m1 m2 \<Longrightarrow> confined base n m1 (put_word base word b m2)"
  by (rule confined_trans [OF _ confined_put])

lemma confined_fold:
  "(\<And>x m. x \<in> set xs \<Longrightarrow> confined base n m (step x m)) \<Longrightarrow> confined base n mem (fold step xs mem)"
proof (induction xs arbitrary: mem)
  case (Cons x xs)
  have "confined base n mem (step x mem)" by (rule Cons.prems) simp
  moreover have "confined base n (step x mem) (fold step xs (step x mem))" by (rule Cons.IH) (simp add: Cons.prems)
  ultimately show ?case unfolding fold_simps by (rule confined_trans)
qed (simp add: confined_refl)

lemma confined_fold_pair:
  "(\<And>x m c. x \<in> set xs \<Longrightarrow> confined base n m (fst (step x (m, c)))) \<Longrightarrow>
     confined base n mem (fst (fold step xs (mem, c)))"
proof (induction xs arbitrary: mem c)
  case (Cons x xs)
  obtain m' c' where step: "step x (mem, c) = (m', c')" by fastforce
  have "confined base n mem m'" using Cons.prems [of x mem c] step by simp
  moreover have "confined base n m' (fst (fold step xs (m', c')))" by (rule Cons.IH) (simp add: Cons.prems)
  ultimately show ?case unfolding fold_simps step by (rule confined_trans)
qed (simp add: confined_refl)

text \<open>The place of an element in a row of a table.\<close>

lemma row_place: "i < a \<Longrightarrow> j < b \<Longrightarrow> i * b + j < a * (b :: nat)"
proof -
  assume "i < a" "j < b"
  then have "i * b + j < Suc i * b" by simp
  also have "\<dots> \<le> a * b" using \<open>i < a\<close> by (intro mult_le_mono1) simp
  finally show ?thesis .
qed

lemma confined_bias: "confined out n mem (bias_residual f input out n mem)"
  unfolding bias_residual_def by (rule confined_fold) (simp add: confined_put)

lemma confined_block:
  assumes "row < rws" "block < columns div 32" "rws * columns \<le> n"
  shows "confined out n mem (snd (dequantize_block f input out columns q4 (row, block) mem))"
proof -
  have "row * columns + block * 32 + element < n" if "element < 32" for element
  proof -
    have "block * 32 + element < columns div 32 * 32" using row_place [OF assms(2) that] by simp
    then have "block * 32 + element < columns" using div_times_less_eq_dividend [of columns 32] by linarith
    from row_place [OF assms(1) this] assms(3) show ?thesis by simp
  qed
  then show ?thesis
    by (auto simp: dequantize_block_def Let_def confined_refl intro!: confined_fold confined_put)
qed

lemma confined_blocks:
  assumes "\<forall>(row, block) \<in> set blocks. row < rws \<and> block < columns div 32" "rws * columns \<le> n"
  shows "confined out n mem (snd (dequantize_blocks f input out columns q4 blocks mem))"
  using assms(1)
proof (induction blocks arbitrary: mem)
  case (Cons at rest)
  obtain row block where at: "at = (row, block)" by fastforce
  obtain res mem' where step: "dequantize_block f input out columns q4 at mem = (res, mem')" by fastforce
  have first: "confined out n mem mem'"
    using confined_block [of row rws block columns n out mem f input q4] Cons.prems assms(2) step by (simp add: at)
  moreover have "confined out n mem' (snd (dequantize_blocks f input out columns q4 rest mem'))"
    by (rule Cons.IH) (use Cons.prems in simp)
  ultimately show ?case using step confined_trans by (auto split: sum.split)
qed (simp add: confined_refl)

lemma confined_quantized:
  "confined out (rws * columns + 1 + rws) mem (snd (quantized f input aux out rws columns q4 mem))"
proof -
  let ?n = "rws * columns + 1 + rws"
  obtain res mem' where blocks: "dequantize_blocks f input out columns q4
      (List.product [0..<rws] [0..<columns div 32]) mem = (res, mem')" by fastforce
  have first: "confined out ?n mem mem'"
    using confined_blocks [of "List.product [0..<rws] [0..<columns div 32]" rws columns ?n out mem f input q4] blocks
    by auto
  have "confined out ?n mem' (fold (\<lambda>row mem.
      let tot = row_total f aux out columns row mem;
          mem = (if row = 0 then put_word out (rws * columns) tot mem else mem)
      in put_word out (rws * columns + 1 + row) tot mem) [0..<rws] mem')"
    by (rule confined_fold) (auto simp: Let_def intro!: confined_put_after confined_refl)
  from confined_trans [OF first this] show ?thesis
    using first blocks by (simp add: quantized_def Let_def split: sum.split)
qed

lemma confined_rmsnorm: "confined out n mem (rmsnorm f input aux out n mem)"
  unfolding rmsnorm_def Let_def by (rule confined_fold) (simp add: confined_put)

lemma confined_rope:
  assumes "head_dim mod 2 = 0"
  shows "confined out (head_dim * heads) mem (rope f table input out head_dim heads position mem)"
  unfolding rope_def
proof (rule confined_fold)
  fix at m
  assume "at \<in> set (List.product [0..<heads] [0..<head_dim div 2])"
  then obtain head pair where at: "at = (head, pair)" "head < heads" "pair < head_dim div 2" by auto
  have "pair + head_dim div 2 < head_dim" using at(3) assms by presburger
  then have "head * head_dim + (pair + head_dim div 2) < head_dim * heads" "head * head_dim + pair < head_dim * heads"
    using row_place [OF at(2), of "pair + head_dim div 2" head_dim] row_place [OF at(2), of pair head_dim]
    by (simp_all add: mult.commute)
  then show "confined out (head_dim * heads) m (rope_step f table input out head_dim position at m)"
    by (simp add: rope_step_def at(1) Let_def add.assoc confined_put_after confined_put)
qed

lemma confined_softmax: "confined out n mem (softmax f input out n mem)"
proof -
  obtain mem' tot where pass: "fold (\<lambda>index (m, tot).
      let v = expf f (fp_sub f (word_at m input index) (word_maximum mem input n))
      in (put_word out index v m, fp_add f tot v)) [0..<n] (mem, 0) = (mem', tot)" by fastforce
  have "confined out n mem (fst (fold (\<lambda>index (m, tot).
      let v = expf f (fp_sub f (word_at m input index) (word_maximum mem input n))
      in (put_word out index v m, fp_add f tot v)) [0..<n] (mem, 0)))"
    by (rule confined_fold_pair) (simp add: Let_def confined_put)
  then have "confined out n mem mem'" unfolding pass by simp
  moreover have "confined out n mem' (fold (\<lambda>index m. put_word out index (fp_div f (word_at m out index) tot) m) [0..<n] mem')"
    by (rule confined_fold) (simp add: confined_put)
  ultimately show ?thesis unfolding softmax_def Let_def pass [unfolded Let_def] prod.case by (rule confined_trans)
qed

lemma confined_scores:
  assumes "score_base + positions \<le> n"
  shows "confined out n mem (fst (gqa_scores f input out keys_base score_base query_head kv_head kv_heads positions
    head_dim scale mem))"
  unfolding gqa_scores_def using assms by (intro confined_fold_pair) (simp add: Let_def confined_put)

lemma confined_probabilities:
  assumes "probability_base + positions \<le> n"
  shows "confined out n mem (gqa_probabilities f out probability_base score_base positions maximum mem)"
proof -
  let ?pass = "fold (\<lambda>position (m, tot).
      let probability = expf f (fp_sub f (word_at m out (score_base + position)) maximum)
      in (put_word out (probability_base + position) probability m, fp_add f tot probability)) [0..<positions] (mem, 0)"
  obtain mem' tot where pass: "?pass = (mem', tot)" by fastforce
  have "confined out n mem (fst ?pass)"
    by (rule confined_fold_pair) (use assms in \<open>simp add: Let_def confined_put\<close>)
  then have "confined out n mem mem'" unfolding pass by simp
  moreover have "confined out n mem' (fold (\<lambda>position m. put_word out (probability_base + position)
      (fp_div f (word_at m out (probability_base + position)) tot) m) [0..<positions] mem')"
    by (rule confined_fold) (use assms in \<open>simp add: confined_put\<close>)
  ultimately show ?thesis unfolding gqa_probabilities_def Let_def pass [unfolded Let_def] prod.case by (rule confined_trans)
qed

lemma confined_values:
  assumes "result_base + head_dim \<le> n"
  shows "confined out n mem (gqa_values f input out values_base result_base probability_base kv_head kv_heads
    positions head_dim mem)"
  unfolding gqa_values_def using assms by (intro confined_fold) (simp add: Let_def confined_put)

lemma confined_attention:
  "confined out (query_heads * (head_dim + positions * 2)) mem
     (gqa_attention f input out query_heads kv_heads positions head_dim mem)"
  unfolding gqa_attention_def
proof (rule confined_fold)
  fix query_head m
  assume "query_head \<in> set [0..<query_heads]"
  then have q: "query_head < query_heads" by simp
  let ?per = "head_dim + positions * 2"
  let ?n = "query_heads * ?per"
  have "query_head * ?per + ?per = Suc query_head * ?per" by simp
  also have "\<dots> \<le> ?n" using q by (intro mult_le_mono1) simp
  finally have room: "query_head * ?per + head_dim + positions + positions \<le> ?n" by simp
  then have "query_head * ?per + head_dim + positions \<le> ?n" "query_head * ?per + head_dim \<le> ?n" by simp_all
  with room show "confined out ?n m (gqa_head f input out query_heads kv_heads positions head_dim query_head m)"
    unfolding gqa_head_def Let_def split_def
    by (intro confined_trans [OF confined_scores confined_trans [OF confined_probabilities confined_values]])
qed

lemma confined_swiglu: "confined out (n * 2) mem (silu_swiglu f input aux out n mem)"
  unfolding silu_swiglu_def by (rule confined_fold) (simp add: Let_def confined_put_after confined_put)

lemma confined_argmax: "confined out (Suc 0) mem (argmax input out n mem)"
  by (simp add: argmax_def confined_put)

section \<open>The operations and their shapes\<close>

text \<open>The words an operation writes, from the dimensions of its request.\<close>

definition shape_words :: "primitive_request \<Rightarrow> nat" where
  "shape_words rq =
     (let d0 = unat (rq_dim0 rq); d1 = unat (rq_dim1 rq); d2 = unat (rq_dim2 rq); d3 = unat (rq_dim3 rq);
          oper = rq_operation rq
      in if oper = 2 \<or> oper = 3 then d0 * d1 + 1 + d0 else if oper = 5 then d0 * d1
         else if oper = 7 then d0 * (d3 + d2 * 2) else if oper = 8 then d0 * 2
         else if oper = 9 then 1 else d0)"

lemma schema_shape:
  assumes "schema rq = Inr sc"
  shows "sc_output_words sc = shape_words rq" "rq_operation rq = 5 \<Longrightarrow> unat (rq_dim0 rq) mod 2 = 0"
proof -
  have blocks: "schema_blocks rq = Inr sc \<Longrightarrow>
      sc_output_words sc = unat (rq_dim0 rq) * unat (rq_dim1 rq) + 1 + unat (rq_dim0 rq)"
    by (auto simp: schema_blocks_def Let_def bind_result_Inr mul_status_Inr add_status_Inr
        make_schema_def split: if_splits)
  have attention: "schema_attention rq = Inr sc \<Longrightarrow>
      sc_output_words sc = unat (rq_dim0 rq) * (unat (rq_dim3 rq) + unat (rq_dim2 rq) * 2)"
    by (auto simp: schema_attention_def Let_def bind_result_Inr mul_status_Inr add_status_Inr
        make_schema_def split: if_splits)
  show "sc_output_words sc = shape_words rq"
    using assms blocks attention
    by (auto simp: schema_def shape_words_def Let_def bind_result_Inr mul_status_Inr f32_bytes_def
        make_schema_def split: if_splits)
  show "unat (rq_dim0 rq) mod 2 = 0" if "rq_operation rq = 5"
    using assms that by (auto simp: schema_def Let_def split: if_splits)
qed

lemma numeric_operation_confined:
  assumes "schema rq = Inr sc"
  shows "confined out (sc_output_words sc) mem (snd (numeric_operation f table rq out mem))"
    "fst (numeric_operation f table rq out mem) = Inr words \<Longrightarrow> words = sc_output_words sc"
    "fst (numeric_operation f table rq out mem) = Inl (PS_OK, index) \<Longrightarrow> rq_operation rq = 9"
proof -
  note shape = schema_shape [OF assms]
  have quant: "confined out (unat (rq_dim0 rq) * unat (rq_dim1 rq) + 1 + unat (rq_dim0 rq)) mem m \<and> m = m'"
    if "quantized f (rq_input rq) (rq_aux rq) out (unat (rq_dim0 rq)) (unat (rq_dim1 rq)) q4 mem = (res, m)" "m = m'"
    for res m m' q4
    using confined_quantized [of out "unat (rq_dim0 rq)" "unat (rq_dim1 rq)" mem f "rq_input rq" "rq_aux rq" q4] that by simp
  show "confined out (sc_output_words sc) mem (snd (numeric_operation f table rq out mem))"
    using shape unfolding numeric_operation_def shape_words_def Let_def
    by (auto simp: confined_bias confined_rmsnorm confined_rope confined_softmax confined_attention confined_swiglu
      confined_argmax confined_refl split: prod.split sum.split dest!: quant)
  show "words = sc_output_words sc" if "fst (numeric_operation f table rq out mem) = Inr words"
    using that shape unfolding numeric_operation_def shape_words_def Let_def
    by (auto split: prod.splits sum.splits if_splits)
  show "rq_operation rq = 9" if "fst (numeric_operation f table rq out mem) = Inl (PS_OK, index)"
    using that unfolding numeric_operation_def Let_def by (auto split: prod.splits sum.splits if_splits)
qed

lemma execute_confined:
  assumes "schema rq = Inr sc"
  shows "confined out (sc_output_words sc) mem (snd (execute f table rq mem out))"
  using numeric_operation_confined(1) [OF assms, of out mem f table]
  by (auto simp: execute_def confined_refl split: sum.split prod.split)

lemma check_finite_Inr: "check_finite mem base words = Inr u \<longleftrightarrow> list_all (\<lambda>i. finite_bits (word_at mem base i)) [0..<words]"
  by (auto simp: check_finite_def find_None_iff find_Some_iff list_all_iff split: option.split)

text \<open>What a kernel that succeeds has checked.\<close>

lemma execute_ok:
  assumes "schema rq = Inr sc" "fst (fst (execute f table rq mem out)) = PS_OK"
  shows "list_all (\<lambda>i. finite_bits (word_at mem (rq_input rq) i)) [0..<finite_input_words rq]"
    "list_all (\<lambda>i. finite_bits (word_at mem (rq_aux rq) i)) [0..<finite_aux_words rq]"
    "rq_operation rq \<noteq> 9 \<Longrightarrow>
       list_all (\<lambda>i. finite_bits (word_at (snd (execute f table rq mem out)) out i)) [0..<sc_output_words sc]"
    "rq_operation rq = 9 \<Longrightarrow> snd (execute f table rq mem out) = argmax (rq_input rq) out (unat (rq_dim0 rq)) mem"
proof -
  obtain u where input: "check_finite mem (rq_input rq) (finite_input_words rq) = Inr u"
    using assms(2) by (auto simp: execute_def split: sum.splits)
  obtain v where aux: "check_finite mem (rq_aux rq) (finite_aux_words rq) = Inr v"
    using assms(2) input by (auto simp: execute_def split: sum.splits)
  show "list_all (\<lambda>i. finite_bits (word_at mem (rq_input rq) i)) [0..<finite_input_words rq]"
    "list_all (\<lambda>i. finite_bits (word_at mem (rq_aux rq) i)) [0..<finite_aux_words rq]"
    using input aux by (simp_all add: check_finite_Inr)
  obtain res mem' where run: "numeric_operation f table rq out mem = (res, mem')" by fastforce
  note facts = numeric_operation_confined(2,3) [OF assms(1), of f table out mem, unfolded run fst_conv]
  show "list_all (\<lambda>i. finite_bits (word_at (snd (execute f table rq mem out)) out i)) [0..<sc_output_words sc]"
    if "rq_operation rq \<noteq> 9"
  proof (cases res)
    case (Inl outcome)
    then show ?thesis using assms(2) input aux run facts(2) that by (cases outcome) (simp add: execute_def)
  next
    case (Inr words)
    have fin: "check_finite mem' out words = Inr ()" "snd (execute f table rq mem out) = mem'"
      using assms(2) input aux run Inr by (auto simp: execute_def split: sum.splits)
    then show ?thesis using facts(1) Inr by (simp add: check_finite_Inr)
  qed
  show "snd (execute f table rq mem out) = argmax (rq_input rq) out (unat (rq_dim0 rq)) mem" if "rq_operation rq = 9"
    using input aux that by (simp add: execute_def numeric_operation_def Let_def)
qed

lemma word_at_put: "word_at (put_word base word b mem) base word = b"
proof -
  have "load (put_word base word b mem) (base + word * 4) 4 = le_bytes 4 (unat b)"
    by (rule nth_equalityI) (simp_all add: load_def put_word_def store_def)
  moreover have "unat b < 256 ^ 4" using unsigned_less [of b] by simp
  ultimately show ?thesis
    by (simp add: word_at_def read_bits_def u32_at_def slice_def le_value_le_bytes)
qed

text \<open>Copied bytes are copied words.\<close>

lemma word_at_copy:
  assumes "load m a (4 * n) = load m' b (4 * n)" "i < n"
  shows "word_at m a i = word_at m' b i"
proof -
  have "load x c 4 = take 4 (drop (i * 4) (load x (c - i * 4) (4 * n)))" if "i * 4 \<le> c" for x c
    using assms(2) that by (intro nth_equalityI) (simp_all add: load_def)
  from this [of "a + i * 4" m] this [of "b + i * 4" m'] show ?thesis
    using assms(1) by (simp add: word_at_def)
qed

section \<open>Properties\<close>

text \<open>
  C22: The primitive interface reports consistently and writes only where it may: for every operation,
  memory, pointers and request, when the result is written its status is the returned code and a
  failure has no output words; without a written result nothing changed; and a byte of memory that
  differs afterwards belongs to a request whose shape is accepted, and is one of the bytes of the
  shape's output at the start of the scratch range, which holds them all, or, only after success, at
  the start of the output range, which holds them too.
\<close>

theorem primitive_effects_confined:
  "case run_primitive (execute f table) mem request result rq of (code, r, mem') \<Rightarrow>
     (case r of
        None \<Rightarrow> code \<noteq> 0 \<and> mem' = mem
      | Some res \<Rightarrow> pr_status res = code \<and> (code = 0 \<or> pr_output_words res = 0))
     \<and> (mem' x = mem x
        \<or> (\<exists>sc. schema rq = Inr sc \<and> sc_output_words sc * 4 \<le> rq_scratch_bytes rq \<and>
             rq_scratch rq \<le> x \<and> x < rq_scratch rq + sc_output_words sc * 4)
        \<or> (\<exists>sc. schema rq = Inr sc \<and> sc_output_words sc * 4 \<le> output_bytes_declared rq \<and>
             code = 0 \<and> rq_output rq \<le> x \<and> x < rq_output rq + sc_output_words sc * 4))"
proof (cases "check_addresses request result rq")
  case (Inl status)
  then have "status \<noteq> PS_OK" by (rule check_addresses_Inl)
  with Inl show ?thesis by (simp add: run_primitive_def)
next
  case (Inr rc)
  obtain request_range checked where rc: "rc = (request_range, checked)" by (cases rc)
  show ?thesis
  proof (cases "check_request rq request_range checked")
    case fail: (Inl e)
    obtain st k i n av where e: "e = (st, k, i, n, av)" by (cases e)
    have "st \<noteq> PS_OK" using check_request_Inl fail e by simp
    then show ?thesis
      by (simp add: run_primitive_def Inr rc fail e write_failure_def failure_safe_def)
  next
    case ok: (Inr p)
    obtain sc n where p: "p = (sc, n)" by (cases p)
    note facts = check_request_Inr [OF ok [unfolded p]]
    have run: "run_primitive (execute f table) mem request result rq =
        (case run_staged (execute f table) mem rq sc n of ((code, r), mem) \<Rightarrow> (code, Some r, mem))"
      by (simp add: run_primitive_def Inr rc ok p)
    have n: "0 < n" "n \<le> rq_scratch_bytes rq" "n < u64_limit" "rq_scratch rq mod 64 = 0" "n = sc_output_words sc * 4"
      "n \<le> output_bytes_declared rq" and sc: "schema rq = Inr sc"
      using facts by (simp_all add: output_bytes_declared_def)
    let ?m = "snd (execute f table rq mem (rq_scratch rq))"
    have inside: "?m x = mem x \<or> rq_scratch rq \<le> x \<and> x < rq_scratch rq + n"
      using execute_confined [OF sc, of "rq_scratch rq" mem f table] n(5) by (auto simp: confined_def)
    show ?thesis
      unfolding run run_staged_eq [OF n(1-4)]
      using inside n(2,5,6) sc by (auto simp: Let_def write_failure_def failure_safe_def store_def)
  qed
qed

text \<open>
  C0: Success means validated and computed: if the interface returns OK, the request is of the supported
  version and without flags, its shape is accepted and its lengths are exactly those of the shape, the
  output and the scratch range are large enough and not null, every pointer is aligned as its contents
  require, input and aux included, the output overlaps none of scratch, request, input and aux, and
  scratch none of request, input and aux. Every word read as a number is finite. The output holds the
  bytes the kernel left in the staging region, with their word count in the result: the index that
  \<open>argmax\<close> selects, and otherwise finite numbers only.
\<close>

theorem primitive_success_validated:
  assumes "fst (run_primitive (execute f table) mem request result rq) = 0"
  shows "case run_primitive (execute f table) mem request result rq of (code, r, mem') \<Rightarrow>
     (case schema rq of
        Inl e \<Rightarrow> False
      | Inr sc \<Rightarrow>
          let words = sc_output_words sc; staged = snd (execute f table rq mem (rq_scratch rq)) in
          load mem' (rq_output rq) (4 * words) = load staged (rq_scratch rq) (4 * words) \<and>
          map_option pr_output_words r = Some words \<and>
          rq_abi_version rq = ABI_VERSION \<and> rq_flags rq = 0 \<and>
          rq_input_bytes rq = sc_input_bytes sc \<and> rq_aux_bytes rq = sc_aux_bytes sc \<and>
          rq_output rq \<noteq> 0 \<and> words \<le> rq_output_words rq \<and>
          rq_scratch rq \<noteq> 0 \<and> 4 * words \<le> rq_scratch_bytes rq \<and>
          (if sc_input_f32 sc then rq_input rq mod 4 = 0 else True) \<and>
          (if sc_aux_f32 sc then rq_aux rq mod 4 = 0 else True) \<and>
          rq_output rq mod 4 = 0 \<and> rq_scratch rq mod 64 = 0 \<and>
          list_all (\<lambda>i. finite_bits (word_at mem (rq_input rq) i)) [0..<finite_input_words rq] \<and>
          list_all (\<lambda>i. finite_bits (word_at mem (rq_aux rq) i)) [0..<finite_aux_words rq] \<and>
          (if rq_operation rq = 9
           then word_at mem' (rq_output rq) 0 = of_nat (argmax_word mem (rq_input rq) (unat (rq_dim0 rq)))
           else list_all (\<lambda>i. finite_bits (word_at mem' (rq_output rq) i)) [0..<words]) \<and>
          (case check_addresses request result rq of
             Inl e \<Rightarrow> False
           | Inr (request_range, checked) \<Rightarrow> \<not> forbidden_overlap request_range checked))"
proof -
  obtain request_range checked where addr:
    "check_addresses request result rq = Inr (request_range, checked)"
  proof (cases "check_addresses request result rq")
    case (Inl status)
    then have "status \<noteq> PS_OK" by (rule check_addresses_Inl)
    with Inl assms show thesis by (simp add: run_primitive_def)
  qed (use that in force)
  obtain p where ok: "check_request rq request_range checked = Inr p"
  proof (cases "check_request rq request_range checked")
    case (Inl e)
    obtain st k i n av where e: "e = (st, k, i, n, av)" by (cases e)
    have "st \<noteq> PS_OK" using check_request_Inl Inl e by simp
    with Inl e assms show thesis by (simp add: run_primitive_def addr write_failure_def)
  qed
  obtain sc n where p: "p = (sc, n)" by (cases p)
  note facts = check_request_Inr [OF ok [unfolded p]]
  have sc: "schema rq = Inr sc" and n_words: "n = 4 * sc_output_words sc" using facts by simp_all
  have n: "0 < n" "n \<le> rq_scratch_bytes rq" "n < u64_limit" "rq_scratch rq mod 64 = 0" using facts by simp_all
  let ?out = "execute f table rq mem (rq_scratch rq)" and ?words = "sc_output_words sc"
  have run: "run_primitive (execute f table) mem request result rq =
      (case run_staged (execute f table) mem rq sc n of ((code, r), mem) \<Rightarrow> (code, Some r, mem))"
    by (simp add: run_primitive_def addr ok p)
  have good: "fst (fst ?out) = PS_OK"
    using assms unfolding run run_staged_eq [OF n] by (auto simp: Let_def write_failure_def split: if_splits)
  let ?mem = "store (snd ?out) (rq_output rq) (load (snd ?out) (rq_scratch rq) n)"
  have final: "run_primitive (execute f table) mem request result rq = (0, Some (failure_safe\<lparr>
      pr_usage := staged_usage rq n, pr_output_words := ?words, pr_status := 0\<rparr>), ?mem)"
    unfolding run run_staged_eq [OF n] using good by (simp add: Let_def)
  have copied: "load ?mem (rq_output rq) (4 * ?words) = load (snd ?out) (rq_scratch rq) (4 * ?words)"
    unfolding n_words by (rule nth_equalityI) (simp_all add: load_def store_def)
  note copy = word_at_copy [OF copied]
  note checked_words = execute_ok [OF sc good]
  have "list_all (\<lambda>i. finite_bits (word_at ?mem (rq_output rq) i)) [0..<?words]" if "rq_operation rq \<noteq> 9"
    using checked_words(3) [OF that] copy by (simp add: list_all_iff)
  moreover have "word_at ?mem (rq_output rq) 0 = of_nat (argmax_word mem (rq_input rq) (unat (rq_dim0 rq)))"
    if "rq_operation rq = 9"
    using checked_words(4) [OF that] copy [of 0] n(1) n_words by (simp add: argmax_def word_at_put)
  ultimately show ?thesis
    unfolding final sc prod.case sum.case Let_def using copied facts checked_words(1,2) by (simp add: addr n_words)
qed

text \<open>The larger of two numbers: 0.0 and 1.0 at address 1024, the index of the second in the output.\<close>

definition argmax_two :: primitive_request where
  "argmax_two =
     \<lparr>rq_abi_version = 1, rq_operation = 9, rq_input = 1024, rq_input_bytes = 8, rq_aux = 0,
      rq_aux_bytes = 0, rq_output = 2048, rq_output_words = 1, rq_scratch = 4096,
      rq_scratch_bytes = 64, rq_dim0 = 2, rq_dim1 = 0, rq_dim2 = 0, rq_dim3 = 0,
      rq_position = 0, rq_flags = 0\<rparr>"

definition two_numbers :: memory where
  "two_numbers = store (\<lambda>_. 0) 1024 [0, 0, 0, 0, 0, 0, 128, 63]"

lemma two_words: "word_at two_numbers 1024 0 = 0" "word_at two_numbers 1024 1 = 0x3f800000"
proof -
  have four: "[a..<a + 4] = [a, a + 1, a + 2, a + 3]" for a :: nat by (simp add: upt_rec)
  have "load two_numbers 1024 4 = [0, 0, 0, 0]" "load two_numbers 1028 4 = [0, 0, 128, 63]"
    using four [of 1024] four [of 1028] by (simp_all add: load_def two_numbers_def store_def)
  then show "word_at two_numbers 1024 0 = 0" "word_at two_numbers 1024 1 = 0x3f800000"
    by (simp_all add: word_at_def read_bits_def u32_at_def slice_def)
qed

lemma two_places: "[0..<2] = [0, 1 :: nat]" "[1..<2] = [1 :: nat]"
  by (simp_all add: upt_rec)

definition two_schema :: primitive_schema where
  "two_schema = make_schema 8 0 1 True False"

lemma argmax_two_schema: "schema argmax_two = Inr two_schema"
  by (simp add: schema_def argmax_two_def schema_vector_def unused_zero_def f32_bytes_def
      mul_status_def ok_or_def checked_mul_def u64_limit_eq two_schema_def)

lemma argmax_two_addresses:
  "check_addresses 8192 16384 argmax_two =
     Inr (\<lparr>rn_start = 8192, rn_end = 8288\<rparr>,
       [Some \<lparr>rn_start = 1024, rn_end = 1032\<rparr>, None, Some \<lparr>rn_start = 2048, rn_end = 2052\<rparr>,
        Some \<lparr>rn_start = 4096, rn_end = 4160\<rparr>])"
  by (simp add: check_addresses_def argmax_two_def fixed_range_def declared_range_def
      checked_add_def checked_mul_def u64_limit_eq RESULT_BYTES_def REQUEST_BYTES_def
      overlaps_def Let_def)

lemma argmax_two_fields:
  "rq_abi_version argmax_two = 1" "rq_operation argmax_two = 9" "rq_input argmax_two = 1024"
  "rq_input_bytes argmax_two = 8" "rq_aux argmax_two = 0" "rq_aux_bytes argmax_two = 0"
  "rq_output argmax_two = 2048" "rq_output_words argmax_two = 1" "rq_scratch argmax_two = 4096"
  "rq_scratch_bytes argmax_two = 64" "rq_dim0 argmax_two = 2" "rq_flags argmax_two = 0"
  by (simp_all add: argmax_two_def)

lemma two_schema_fields:
  "sc_input_bytes two_schema = 8" "sc_aux_bytes two_schema = 0" "sc_output_words two_schema = 1"
  "sc_input_f32 two_schema" "\<not> sc_aux_f32 two_schema"
  by (simp_all add: two_schema_def make_schema_def)

lemma argmax_two_layout: "check_layout argmax_two two_schema 4 = None"
  by (simp add: check_layout_def first_invalid_empty_def invalid_empty_def
      output_bytes_declared_def argmax_two_fields two_schema_fields)

lemma argmax_two_ok: "fst (run_primitive (execute f table) two_numbers 8192 16384 argmax_two) = 0"
proof -
  let ?request = "\<lparr>rn_start = 8192, rn_end = 8288\<rparr>"
  let ?checked = "[Some \<lparr>rn_start = 1024, rn_end = 1032\<rparr>, None,
    Some \<lparr>rn_start = 2048, rn_end = 2052\<rparr>, Some \<lparr>rn_start = 4096, rn_end = 4160\<rparr>]"
  have apart: "\<not> forbidden_overlap ?request ?checked"
    by (simp add: forbidden_overlap_def both_overlap_def overlaps_def)
  have request: "check_request argmax_two ?request ?checked = Inr (two_schema, 4)"
    unfolding check_request_def argmax_two_schema
    by (simp add: apart argmax_two_fields two_schema_fields argmax_two_layout checked_mul_def u64_limit_eq
        u32_limit_def ABI_VERSION_def)
  have words: "finite_input_words argmax_two = 2" "finite_aux_words argmax_two = 0"
    by (simp_all add: finite_input_words_def finite_aux_words_def argmax_two_fields Let_def)
  have "check_finite two_numbers 1024 2 = Inr ()" "check_finite two_numbers 0 0 = Inr ()"
    unfolding check_finite_Inr two_places by (simp_all add: two_words two_words(2) [unfolded One_nat_def] finite_bits_def)
  then have "fst (fst (execute f table argmax_two two_numbers 4096)) = PS_OK"
    by (simp add: execute_def words argmax_two_fields numeric_operation_def)
  then have "fst (fst (run_staged (execute f table) two_numbers argmax_two two_schema 4)) = 0"
    by (subst run_staged_eq) (simp_all add: argmax_two_fields u64_limit_eq Let_def)
  then show ?thesis
    unfolding run_primitive_def argmax_two_addresses by (simp add: request split_beta)
qed

definition plain_fpu :: fpu where
  "plain_fpu =
     \<lparr>fp_add = (+), fp_sub = (-), fp_mul = (*), fp_div = (\<lambda>a b. a), fp_from_int = of_int, fp_trunc_i32 = sint,
      fp_widen = ucast, fp_narrow = ucast, fp_add64 = (+), fp_div64 = (\<lambda>a b. a), fp_sqrt = (\<lambda>a. a)\<rparr>"

theorem primitive_success_validated_witness:
  "case run_primitive (execute plain_fpu []) two_numbers 8192 16384 argmax_two of (code, r, mem') \<Rightarrow>
     map_option pr_output_words r = Some 1 \<and> word_at mem' 2048 0 = 1"
proof -
  have "argmax_word two_numbers 1024 2 = 1"
    unfolding argmax_word_def two_places by (simp add: two_words two_words(2) [unfolded One_nat_def] fp_greater_def nan_bits_def bits_key_def)
  then show ?thesis
    using primitive_success_validated [OF argmax_two_ok [of plain_fpu "[]"]]
    by (simp add: argmax_two_schema argmax_two_fields two_schema_fields Let_def split_def)
qed

end
