(* ===== verification/PB_Attention.thy ===== *)
theory PB_Attention
  imports PB_Kernels
begin

text \<open>
  What the engine relies on in the attention kernel: the AVX2 path computes word for word what the
  scalar path computes, and neither reads a position after the current one. The rows of a matrix
  product may be computed in any partition. The division loop divides.
\<close>

section \<open>Loops that write every index once\<close>

lemma fold_update_range:
  "fold (\<lambda>i xs. xs[i := g i]) [a..<b] xs =
     map (\<lambda>i. if a \<le> i \<and> i < b then g i else xs ! i) [0..<length xs]"
proof (induction "b - a" arbitrary: a xs)
  case 0
  then show ?case by (auto intro!: nth_equalityI)
next
  case (Suc n)
  then have "[a..<b] = a # [Suc a..<b]" by (simp add: upt_conv_Cons)
  then have "fold (\<lambda>i xs. xs[i := g i]) [a..<b] xs =
      map (\<lambda>i. if Suc a \<le> i \<and> i < b then g i else xs[a := g a] ! i) [0..<length xs]"
    using Suc.hyps(1) [of "Suc a" "xs[a := g a]"] Suc.hyps(2) by simp
  also have "\<dots> = map (\<lambda>i. if a \<le> i \<and> i < b then g i else xs ! i) [0..<length xs]"
    using Suc.hyps(2) by (intro map_cong refl) (auto simp: nth_list_update not_less_eq_eq dest: antisym)
  finally show ?case .
qed

lemma steps4_times: "steps4 (4 * m) = map ((*) 4) [0..<m]"
  by (simp add: steps4_def)

lemma write_block:
  assumes "off + 4 \<le> length xs"
  shows "write_at xs off (map g [0..<4]) =
    map (\<lambda>i. if off \<le> i \<and> i < off + 4 then g (i - off) else xs ! i) [0..<length xs]"
  using assms by (intro nth_equalityI) (auto simp: nth_write_at simp del: upt_rec_numeral)

lemma fold_snoc: "fold g (xs @ [x]) s = g x (fold g xs s)"
  by simp

lemma fold_write4:
  assumes "off + 4 * m \<le> length xs"
  shows "fold (\<lambda>p xs. write_at xs (off + p) (map (\<lambda>l. g (p + l)) [0..<4])) (steps4 (4 * m)) xs =
    map (\<lambda>i. if off \<le> i \<and> i < off + 4 * m then g (i - off) else xs ! i) [0..<length xs]"
  using assms
proof (induction m)
  case 0
  then show ?case by (auto simp: steps4_def intro!: nth_equalityI)
next
  case (Suc m)
  let ?ys = "map (\<lambda>i. if off \<le> i \<and> i < off + 4 * m then g (i - off) else xs ! i) [0..<length xs]"
  have "steps4 (4 * Suc m) = steps4 (4 * m) @ [4 * m]" by (simp add: steps4_times del: mult_Suc_right)
  moreover have "fold (\<lambda>p xs. write_at xs (off + p) (map (\<lambda>l. g (p + l)) [0..<4])) (steps4 (4 * m)) xs = ?ys"
    by (rule Suc.IH) (use Suc.prems in simp)
  ultimately have "fold (\<lambda>p xs. write_at xs (off + p) (map (\<lambda>l. g (p + l)) [0..<4])) (steps4 (4 * Suc m)) xs =
      write_at ?ys (off + 4 * m) (map (\<lambda>l. g (4 * m + l)) [0..<4])"
    by (simp only: fold_snoc)
  also have "\<dots> = map (\<lambda>i. if off \<le> i \<and> i < off + 4 * Suc m then g (i - off) else xs ! i) [0..<length xs]"
    using Suc.prems by (subst write_block) (auto intro!: map_cong simp: nth_append)
  finally show ?case .
qed

section \<open>Lanes\<close>

lemma lanes_of_4: "map P [0..<4] = [P 0, P 1, P 2, P (3 :: nat)]"
  by (simp add: upt_rec numeral_2_eq_2 numeral_3_eq_3)

lemma accumulate_lanes:
  "accumulate f (map P [0..<4]) ([a0, a1], [a2, a3]) =
     ([fp_add64 f a0 (fp_widen f (P 0)), fp_add64 f a1 (fp_widen f (P 1))],
      [fp_add64 f a2 (fp_widen f (P 2)), fp_add64 f a3 (fp_widen f (P 3))])"
  unfolding lanes_of_4 by (simp add: accumulate_def add_pd_def cvtps_pd_def movehl_ps_def)

definition lane_sum :: "fpu \<Rightarrow> ('a \<Rightarrow> u32) \<Rightarrow> 'a list \<Rightarrow> u64 \<Rightarrow> u64" where
  "lane_sum f P xs a = fold (\<lambda>x acc. fp_add64 f acc (fp_widen f (P x))) xs a"

lemma fold_accumulate:
  "fold (\<lambda>x acc. accumulate f (map (P x) [0..<4]) acc) xs ([a0, a1], [a2, a3]) =
     ([lane_sum f (\<lambda>x. P x 0) xs a0, lane_sum f (\<lambda>x. P x 1) xs a1],
      [lane_sum f (\<lambda>x. P x 2) xs a2, lane_sum f (\<lambda>x. P x 3) xs a3])"
  by (induction xs arbitrary: a0 a1 a2 a3) (simp_all add: lane_sum_def accumulate_lanes del: upt_rec_numeral)

lemma converted_lanes:
  "converted4 f (fold (\<lambda>x acc. accumulate f (map (P x) [0..<4]) acc) xs ([0, 0], [0, 0])) =
     map (\<lambda>l. fp_narrow f (lane_sum f (\<lambda>x. P x l) xs 0)) [0..<4]"
  by (simp only: fold_accumulate) (simp only: lanes_of_4, simp add: converted4_def cvtpd_ps_def)

lemma mul_lanes: "mul_ps f (replicate 4 q) (map k [0..<4]) = map (\<lambda>l. fp_mul f q (k l)) [0..<4]"
  unfolding lanes_of_4 by (simp add: mul_ps_def numeral_eq_Suc)

lemma mul_lanes_right: "mul_ps f (map k [0..<4]) (replicate 4 q) = map (\<lambda>l. fp_mul f (k l) q) [0..<4]"
  unfolding lanes_of_4 by (simp add: mul_ps_def numeral_eq_Suc)

section \<open>The KV layout in lanes\<close>

lemma key_lanes:
  assumes "l < 4"
  shows "kv_word layer 0 (4 * j + l) head component = kv_word layer 0 (4 * j) head component + l"
  using assms by (simp add: kv_word_def KV_TILE_def)

lemma value_lanes:
  "kv_word layer 1 position head (c + l) = kv_word layer 1 position head c + l"
  by (simp add: kv_word_def)

section \<open>AVX2 scores and values\<close>

definition masked_score ::
  "fpu \<Rightarrow> u32 list \<Rightarrow> kv_store \<Rightarrow> nat \<Rightarrow> nat \<Rightarrow> nat \<Rightarrow> nat \<Rightarrow> nat \<Rightarrow> u32" where
  "masked_score f query kv layer query_head kv_head positions position =
     fp_mul f (fp_narrow f (lane_sum f (\<lambda>component. fp_mul f (query ! (query_head * 64 + component))
         (if position < positions then kv (kv_word layer 0 position kv_head component) else 0))
       [0..<64] 0)) 0x3e000000"

lemma loaded_keys:
  "(if min (positions - 4 * j) 4 = 4 then loadu_ps kv (kv_word layer 0 (4 * j) head c)
    else attention_maskload4 kv (kv_word layer 0 (4 * j) head c) (min (positions - 4 * j) 4)) =
   map (\<lambda>l. if 4 * j + l < positions then kv (kv_word layer 0 (4 * j + l) head c) else 0) [0..<4]"
  by (auto simp: loadu_ps_def attention_maskload4_def key_lanes min_def simp del: upt_rec_numeral
      intro!: map_cong)

lemma scores_avx2:
  assumes "4 * m \<le> length scores"
  shows "attention_scores_avx2 f query kv layer qh kvh positions (4 * m) scores =
    map (\<lambda>i. if i < 4 * m then masked_score f query kv layer qh kvh positions i else scores ! i)
      [0..<length scores]"
proof -
  have "attention_scores_avx2 f query kv layer qh kvh positions (4 * m) scores =
      fold (\<lambda>p xs. write_at xs (0 + p)
          (map (\<lambda>l. masked_score f query kv layer qh kvh positions (p + l)) [0..<4]))
        (steps4 (4 * m)) scores"
    unfolding attention_scores_avx2_def Let_def
  proof (intro fold_cong refl ext)
    fix p xs assume "p \<in> set (steps4 (4 * m))"
    then obtain j where p: "p = 4 * j" by (auto simp: steps4_def)
    show "write_at xs p
        (mul_ps f (converted4 f (fold (\<lambda>component acc. accumulate f
            (mul_ps f (replicate 4 (query ! (qh * 64 + component)))
              (if min (positions - p) 4 = 4 then loadu_ps kv (kv_word layer 0 p kvh component)
               else attention_maskload4 kv (kv_word layer 0 p kvh component) (min (positions - p) 4)))
            acc) [0..<64] ([0, 0], [0, 0]))) (replicate 4 0x3e000000)) =
      write_at xs (0 + p)
        (map (\<lambda>l. masked_score f query kv layer qh kvh positions (p + l)) [0..<4])"
      unfolding p loaded_keys mul_lanes converted_lanes mul_lanes_right masked_score_def by simp
  qed
  also have "\<dots> = map (\<lambda>i. if i < 4 * m then masked_score f query kv layer qh kvh positions i else scores ! i)
      [0..<length scores]"
    by (subst fold_write4) (use assms in simp_all)
  finally show ?thesis .
qed

lemma scores_sse2:
  "attention_scores_sse2 f query kv layer qh kvh positions scores =
    map (\<lambda>i. if i < positions then masked_score f query kv layer qh kvh positions i else scores ! i)
      [0..<length scores]"
  unfolding attention_scores_sse2_def fold_update_range
  by (intro map_cong refl) (simp add: masked_score_def key_dot_def lane_sum_def)

lemma values_avx2:
  assumes "qh * 64 + 64 \<le> length out"
  shows "attention_values_avx2 f kv probabilities layer qh kvh positions out =
    attention_values_sse2 f kv probabilities layer qh kvh positions out"
proof -
  define g where "g c = fp_narrow f (lane_sum f (\<lambda>p. fp_mul f (probabilities ! p)
      (kv (kv_word layer 1 p kvh c))) [0..<positions] 0)" for c
  have "attention_values_avx2 f kv probabilities layer qh kvh positions out =
      fold (\<lambda>c xs. write_at xs (qh * 64 + c) (map (\<lambda>l. g (c + l)) [0..<4])) (steps4 (4 * 16)) out"
    unfolding attention_values_avx2_def Let_def loadu_ps_def mul_lanes converted_lanes g_def
      value_lanes by simp
  also have "\<dots> = map (\<lambda>i. if qh * 64 \<le> i \<and> i < qh * 64 + 4 * 16 then g (i - qh * 64) else out ! i)
      [0..<length out]"
    by (rule fold_write4) (use assms in simp)
  also have "\<dots> = attention_values_sse2 f kv probabilities layer qh kvh positions out"
  proof -
    have "attention_values_sse2 f kv probabilities layer qh kvh positions out =
        fold (\<lambda>c out. out[qh * 64 + c := g c]) [0..<64] out"
      unfolding attention_values_sse2_def g_def lane_sum_def ..
    also have "\<dots> = fold (\<lambda>i out. out[i := g (i - qh * 64)]) [qh * 64..<qh * 64 + 64] out"
    proof -
      have "[qh * 64..<qh * 64 + 64] = map (\<lambda>i. i + qh * 64) [0..<64]"
        unfolding map_add_upt by (simp only: add.commute)
      then show ?thesis by (simp only: fold_map o_def add_diff_cancel_right' add.commute)
    qed
    finally show ?thesis unfolding fold_update_range by simp
  qed
  finally show ?thesis .
qed


section \<open>Softmax\<close>

lemma fold_maximum_cong:
  assumes "\<And>i. i < positions \<Longrightarrow> xs ! i = ys ! i"
  shows "score_maximum xs positions = score_maximum ys positions"
  unfolding score_maximum_def by (intro fold_cong refl) (simp add: assms)

lemma softmax_cong:
  assumes "length xs = length ys"
    and "\<And>i. i < length xs \<Longrightarrow> i < positions \<or> softmax_span \<le> i \<Longrightarrow> xs ! i = ys ! i"
    and "positions \<le> length xs"
  shows "softmax_scores f positions softmax_span xs = softmax_scores f positions softmax_span ys"
proof -
  have "score_maximum xs positions = score_maximum ys positions"
    using assms by (intro fold_maximum_cong) simp
  moreover have "mask_scores positions softmax_span xs = mask_scores positions softmax_span ys"
    unfolding mask_scores_def fold_update_range using assms by (auto intro!: map_cong)
  ultimately show ?thesis unfolding softmax_scores_def Let_def by simp
qed

lemma length_exponentials: "length (fst (exponentials f maximum (4 * m) scores)) = length scores"
  if "4 * m \<le> length scores"
proof -
  have "length (fst (fold (\<lambda>position (scores, acc).
         let probabilities = map (expf4_lane f)
               (map (\<lambda>lane. fp_sub f (scores ! (position + lane)) maximum) [0..<4])
         in (write_at scores position probabilities,
             fp_add64 f acc (fp_widen f (horizontal_sum4 f probabilities))))
       ps s)) = length (fst s)"
    if "list_all (\<lambda>p. p + 4 \<le> length (fst s)) ps" for ps s
    using that by (induction ps arbitrary: s) (simp_all add: Let_def case_prod_beta)
  moreover have "list_all (\<lambda>p. p + 4 \<le> length scores) (steps4 (4 * m))"
    using that by (auto simp: steps4_def list_all_iff)
  ultimately show ?thesis unfolding exponentials_def by simp
qed

lemma length_fold_update: "length (fold (\<lambda>i xs. xs[i := g i xs]) is xs) = length xs"
  by (induction "is" arbitrary: xs) simp_all

lemma length_softmax:
  "4 * m \<le> length scores \<Longrightarrow> length (softmax_scores f positions (4 * m) scores) = length scores"
  by (simp add: softmax_scores_def Let_def case_prod_beta length_fold_update
      length_exponentials mask_scores_def)

text \<open>One head on either path.\<close>

definition span_of :: "nat \<Rightarrow> nat" where "span_of positions = 4 * ((positions + 3) div 4)"

lemma span_facts: "positions \<le> span_of positions" "positions \<le> 32768 \<Longrightarrow> span_of positions \<le> 32768"
  by (simp_all add: span_of_def) 

lemma scores_agree:
  assumes "span_of positions \<le> length scores"
  shows "softmax_scores f positions (span_of positions)
      (attention_scores f Avx2 query kv layer qh kvh positions (span_of positions) scores) =
    softmax_scores f positions (span_of positions)
      (attention_scores f Sse2 query kv layer qh kvh positions (span_of positions) scores)"
proof (rule softmax_cong)
  note le = span_facts(1) [of positions] assms
  let ?m = "(positions + 3) div 4"
  have avx: "attention_scores f Avx2 query kv layer qh kvh positions (span_of positions) scores =
    map (\<lambda>i. if i < span_of positions then masked_score f query kv layer qh kvh positions i
      else scores ! i) [0..<length scores]"
    using assms unfolding span_of_def attention_scores_def by (simp only: scores_avx2 backend.case)
  have sse: "attention_scores f Sse2 query kv layer qh kvh positions (span_of positions) scores =
    map (\<lambda>i. if i < positions then masked_score f query kv layer qh kvh positions i
      else scores ! i) [0..<length scores]"
    unfolding attention_scores_def by (simp only: scores_sse2 backend.case)
  show "length (attention_scores f Avx2 query kv layer qh kvh positions (span_of positions) scores) =
    length (attention_scores f Sse2 query kv layer qh kvh positions (span_of positions) scores)"
    unfolding avx sse by simp
  show "positions \<le> length (attention_scores f Avx2 query kv layer qh kvh positions (span_of positions) scores)"
    unfolding avx using le by simp
  show "attention_scores f Avx2 query kv layer qh kvh positions (span_of positions) scores ! i =
      attention_scores f Sse2 query kv layer qh kvh positions (span_of positions) scores ! i"
    if "i < length (attention_scores f Avx2 query kv layer qh kvh positions (span_of positions) scores)"
      "i < positions \<or> span_of positions \<le> i" for i
    using that le unfolding avx sse by auto
qed

lemma length_scores_sse2: "length (attention_scores_sse2 f q kv l qh kvh n scores) = length scores"
  by (simp add: scores_sse2)

lemma length_values_sse2: "length (attention_values_sse2 f kv ps l qh kvh n out) = length out"
proof -
  have "length (fold (\<lambda>c out. out[qh * 64 + c := g c]) cs out) = length out" for g cs
    by (induction cs arbitrary: out) simp_all
  then show ?thesis unfolding attention_values_sse2_def .
qed

lemma head_agree:
  assumes "span_of positions \<le> length scores" and "qh * 64 + 64 \<le> length out"
  shows "attention_head f Avx2 query kv layer positions (span_of positions) qh (out, scores) =
      attention_head f Sse2 query kv layer positions (span_of positions) qh (out, scores)"
    and "case attention_head f Sse2 query kv layer positions (span_of positions) qh (out, scores) of
      (out', scores') \<Rightarrow> length out' = length out \<and> length scores' = length scores"
proof -
  show "attention_head f Avx2 query kv layer positions (span_of positions) qh (out, scores) =
      attention_head f Sse2 query kv layer positions (span_of positions) qh (out, scores)"
    unfolding attention_head_def Let_def prod.case scores_agree [OF assms(1)]
    by (simp add: attention_values_def values_avx2 [OF assms(2)])
  show "case attention_head f Sse2 query kv layer positions (span_of positions) qh (out, scores) of
      (out', scores') \<Rightarrow> length out' = length out \<and> length scores' = length scores"
    using assms(1) unfolding span_of_def
    by (simp add: attention_head_def Let_def attention_values_def length_values_sse2
        attention_scores_def length_softmax length_scores_sse2)
qed

lemma attention_agree:
  assumes "span_of positions \<le> length scores" and "list_all (\<lambda>qh. qh * 64 + 64 \<le> length out) heads"
  shows "fold (attention_head f Avx2 query kv layer positions (span_of positions)) heads (out, scores) =
      fold (attention_head f Sse2 query kv layer positions (span_of positions)) heads (out, scores) \<and>
    length (fst (fold (attention_head f Sse2 query kv layer positions (span_of positions)) heads (out, scores))) = length out \<and>
    length (snd (fold (attention_head f Sse2 query kv layer positions (span_of positions)) heads (out, scores))) = length scores"
  using assms
proof (induction heads arbitrary: out scores)
  case (Cons qh heads)
  obtain out' scores' where step:
    "attention_head f Sse2 query kv layer positions (span_of positions) qh (out, scores) = (out', scores')"
    by (cases "attention_head f Sse2 query kv layer positions (span_of positions) qh (out, scores)")
  then show ?case
    using head_agree [of positions scores qh out f query kv layer] Cons by simp
qed simp


section \<open>Attention reads the past\<close>

text \<open>Two stores agree on the positions up to \<open>last_position\<close> of a layer.\<close>

definition kv_agree :: "nat \<Rightarrow> nat \<Rightarrow> kv_store \<Rightarrow> kv_store \<Rightarrow> bool" where
  "kv_agree layer positions kv kv' \<longleftrightarrow>
     (\<forall>kind < 2. \<forall>p < positions. \<forall>h < KV_HEADS. \<forall>c < HEAD_WORDS.
        kv (kv_word layer kind p h c) = kv' (kv_word layer kind p h c))"

lemma kv_agreeD:
  assumes "kv_agree layer positions kv kv'" and "p < positions" and "h < 2" and "c < 64"
  shows "kv (kv_word layer 0 p h c) = kv' (kv_word layer 0 p h c)"
    and "kv (kv_word layer 1 p h c) = kv' (kv_word layer 1 p h c)"
    and "kv (kv_word layer (Suc 0) p h c) = kv' (kv_word layer (Suc 0) p h c)"
  using assms by (simp_all add: kv_agree_def KV_HEADS_def HEAD_WORDS_def)

lemma fold_arg_cong:
  "(\<And>x. x \<in> set xs \<Longrightarrow> P x = Q x) \<Longrightarrow> fold (\<lambda>x acc. g x (P x) acc) xs s = fold (\<lambda>x acc. g x (Q x) acc) xs s"
  by (rule fold_cong) simp_all

lemma scores_past:
  assumes "kv_agree layer positions kv kv'" and "kvh < 2"
  shows "attention_scores_sse2 f query kv layer qh kvh positions scores =
    attention_scores_sse2 f query kv' layer qh kvh positions scores"
  unfolding attention_scores_sse2_def
proof (rule fold_arg_cong)
  fix p assume "p \<in> set [0..<positions]"
  then have "key_dot f query kv layer qh kvh p = key_dot f query kv' layer qh kvh p"
    unfolding key_dot_def by (intro fold_arg_cong) (use kv_agreeD [OF assms(1) _ assms(2)] in simp)
  then show "fp_mul f (fp_narrow f (key_dot f query kv layer qh kvh p)) 0x3e000000 =
    fp_mul f (fp_narrow f (key_dot f query kv' layer qh kvh p)) 0x3e000000" by (simp only:)
qed

lemma values_past:
  assumes "kv_agree layer positions kv kv'" and "kvh < 2"
  shows "attention_values_sse2 f kv ps layer qh kvh positions out =
    attention_values_sse2 f kv' ps layer qh kvh positions out"
  unfolding attention_values_sse2_def
proof (rule fold_arg_cong)
  fix c assume "c \<in> set [0..<64 :: nat]"
  then have "fold (\<lambda>p acc. fp_add64 f acc (fp_widen f (fp_mul f (ps ! p) (kv (kv_word layer 1 p kvh c)))))
      [0..<positions] 0 =
    fold (\<lambda>p acc. fp_add64 f acc (fp_widen f (fp_mul f (ps ! p) (kv' (kv_word layer 1 p kvh c)))))
      [0..<positions] 0"
    by (intro fold_arg_cong) (use kv_agreeD [OF assms(1) _ assms(2)] in simp)
  then show "fp_narrow f (fold (\<lambda>p acc. fp_add64 f acc (fp_widen f (fp_mul f (ps ! p) (kv (kv_word layer 1 p kvh c)))))
      [0..<positions] 0) =
    fp_narrow f (fold (\<lambda>p acc. fp_add64 f acc (fp_widen f (fp_mul f (ps ! p) (kv' (kv_word layer 1 p kvh c)))))
      [0..<positions] 0)" by (simp only:)
qed

section \<open>Division\<close>

lemma quotient_remainder: "(N :: nat) = q * d + r \<Longrightarrow> r < d \<Longrightarrow> N div d = q \<and> N mod d = r"
  by auto

lemma set_quotient_bit:
  fixes q :: u64
  assumes "unat q = a * 2 ^ Suc b" and "(2 * a + 1) * 2 ^ b < 2 ^ 64"
  shows "unat (q OR push_bit b 1) = (2 * a + 1) * 2 ^ b"
proof -
  have "(2 :: nat) ^ b < 2 ^ 64" using assms(2) by (simp add: distrib_right)
  then have b: "b < 64" by (rule power_less_imp_less_exp [rotated]) simp
  have "bit (unat q) b \<longleftrightarrow> bit q b" by (simp add: bit_unsigned_iff)
  moreover have "unat q div 2 ^ b = a * 2" unfolding assms(1) by simp
  ultimately have "\<not> bit q b" by (simp add: bit_iff_odd)
  then have "q OR push_bit b 1 = q + push_bit b 1"
    by (intro disjunctive_add_eq_or [symmetric] bit_word_eqI) (auto simp: bit_simps)
  moreover have "unat (push_bit b 1 :: u64) = 2 ^ b"
  proof -
    have "unat (of_nat (2 ^ b) :: u64) = 2 ^ b mod 2 ^ LENGTH(64)" by (rule unat_of_nat)
    then show ?thesis using \<open>(2 :: nat) ^ b < 2 ^ 64\<close> by (simp add: push_bit_eq_mult)
  qed
  ultimately have "unat (q OR push_bit b 1) = (unat q + 2 ^ b) mod 2 ^ LENGTH(64)"
    by (simp only: unat_word_ariths)
  also have "\<dots> = unat q + 2 ^ b" using assms by (intro mod_less) (simp add: distrib_right mult.commute)
  finally show ?thesis unfolding assms(1) by (simp add: distrib_right)
qed

lemma divide_bits_div:
  fixes n d r q :: u64
  assumes "0 < d" and "unat d \<le> 2 ^ 63" and "unat r = (unat n div 2 ^ b) mod unat d"
    and "unat q = (unat n div 2 ^ b) div unat d * 2 ^ b"
  shows "unat (divide_bits b n d r q) = unat n div unat d"
  using assms(3,4)
proof (induction b arbitrary: r q)
  case 0
  then show ?case by simp
next
  case (Suc b)
  let ?s = "push_bit 1 r OR (drop_bit b n AND 1)"
  let ?N = "unat n div 2 ^ b" and ?H = "unat n div 2 ^ Suc b"
  have pos: "0 < unat d" using assms(1) by (simp add: word_less_nat_alt)
  have r: "r < d" using Suc.prems(1) pos by (simp add: word_less_nat_alt)
  have s: "unat ?s = 2 * unat r + ?N mod 2" by (rule remainder_step [OF r assms(2)])
  have half: "?H = ?N div 2" by (simp only: power_Suc2 div_mult2_eq)
  have N: "?N = 2 * (?H div unat d) * unat d + unat ?s"
  proof -
    have "?N = 2 * ?H + ?N mod 2" unfolding half by simp
    also have "?H = ?H div unat d * unat d + unat r" unfolding Suc.prems(1) by simp
    finally show ?thesis unfolding s by (simp only: distrib_left mult.assoc add.assoc)
  qed
  have small: "unat ?s < 2 * unat d" using r s by (simp add: word_less_nat_alt)
  show ?case
  proof (cases "d \<le> ?s")
    case True
    then have le: "unat d \<le> unat ?s" by (simp only: word_le_nat_alt)
    have sub: "unat (?s - d) = unat ?s - unat d" using True by (rule unat_sub)
    have N1: "?N = (2 * (?H div unat d) + 1) * unat d + (unat ?s - unat d)"
      using N le by (simp add: algebra_simps)
    have lt: "unat ?s - unat d < unat d" using small le by simp
    have div1: "?N div unat d = 2 * (?H div unat d) + 1" and mod1: "?N mod unat d = unat ?s - unat d"
      using quotient_remainder [OF N1 lt] by simp_all
    have fits: "?N div unat d * 2 ^ b < 2 ^ 64"
    proof -
      have "?N div unat d * 2 ^ b \<le> ?N * 2 ^ b" by (intro mult_right_mono div_le_dividend) simp
      also have "\<dots> \<le> unat n" by simp
      also have "\<dots> < 2 ^ 64" using unsigned_less [of n] by simp
      finally show ?thesis .
    qed
    have q: "unat (q OR push_bit b 1) = ?N div unat d * 2 ^ b"
      using Suc.prems(2) fits unfolding div1 by (intro set_quotient_bit) simp_all
    show ?thesis
      using Suc.IH [of "?s - d" "q OR push_bit b 1"] True q sub mod1
      by (simp only: divide_bits.simps Let_def if_True)
  next
    case False
    then have lt: "unat ?s < unat d" by (simp only: word_le_nat_alt not_le)
    have div0: "?N div unat d = 2 * (?H div unat d)" and mod0: "?N mod unat d = unat ?s"
      using quotient_remainder [OF N lt] by simp_all
    have "unat q = ?N div unat d * 2 ^ b" using Suc.prems(2) div0 by simp
    then show ?thesis
      using Suc.IH [of ?s q] False mod0
      by (simp only: divide_bits.simps Let_def if_False)
  qed
qed


lemma unsigned_divide_div:
  assumes "0 < d" and "unat d \<le> 2 ^ 63"
  shows "unat (unsigned_divide n d) = unat n div unat d"
proof -
  have "unat n div 2 ^ 64 = 0" using unsigned_less [of n, where ?'a = nat] by simp
  then show ?thesis
    unfolding unsigned_divide_def using divide_bits_div [OF assms, of 0 n 64 0] by simp
qed

lemma kv_head_of:
  assumes "qh < 14"
  shows "unat (unsigned_divide (of_nat qh) 7) = qh div 7"
proof -
  have "unat (of_nat qh :: u64) = qh" using assms by (simp add: unat_of_nat)
  then show ?thesis using unsigned_divide_div [of 7 "of_nat qh"] by simp
qed

lemma attention_past:
  assumes "kv_agree layer positions kv kv'" and "list_all (\<lambda>qh. qh < 14) heads"
  shows "fold (attention_head f Sse2 query kv layer positions n) heads s =
    fold (attention_head f Sse2 query kv' layer positions n) heads s"
proof (rule fold_cong)
  fix qh assume "qh \<in> set heads"
  then have "qh < 14" using assms(2) by (simp add: list_all_iff)
  then have "unat (unsigned_divide (of_nat qh) 7) < 2" by (simp add: kv_head_of)
  note past = scores_past [OF assms(1) this] values_past [OF assms(1) this]
  show "attention_head f Sse2 query kv layer positions n qh =
    attention_head f Sse2 query kv' layer positions n qh"
    by (rule ext) (simp add: attention_head_def Let_def attention_scores_def attention_values_def
        past split: prod.splits)
qed simp_all

section \<open>Properties\<close>

definition softmax_span :: "nat \<Rightarrow> nat" where
  "softmax_span position = ((position + 1) + 3) div 4 * 4"

lemma softmax_span_eq: "softmax_span position = span_of (position + 1)"
  by (simp add: softmax_span_def span_of_def)

lemma attention_backend:
  assumes "position < 32768" and "length out = 896" and "length scores = 32768"
  shows "inference_attention f b query kv out scores layer position (softmax_span position) =
      inference_attention f Sse2 query kv out scores layer position (softmax_span position)"
    and "length (fst (inference_attention f b query kv out scores layer position (softmax_span position))) = 896"
    and "length (snd (inference_attention f b query kv out scores layer position (softmax_span position))) = 32768"
proof -
  have "span_of (position + 1) \<le> length scores" using span_facts(2) [of "position + 1"] assms by simp
  moreover have "list_all (\<lambda>qh. qh * 64 + 64 \<le> length out) [0..<14]"
    using assms by (simp add: list_all_iff del: upt_rec_numeral)
  ultimately have agree: "inference_attention f Avx2 query kv out scores layer position (softmax_span position) =
      inference_attention f Sse2 query kv out scores layer position (softmax_span position)"
    "length (fst (inference_attention f Sse2 query kv out scores layer position (softmax_span position))) = length out"
    "length (snd (inference_attention f Sse2 query kv out scores layer position (softmax_span position))) = length scores"
    using attention_agree [of "position + 1" scores out "[0..<14]" f query kv layer]
    unfolding inference_attention_def softmax_span_eq Let_def by blast+
  then show "inference_attention f b query kv out scores layer position (softmax_span position) =
      inference_attention f Sse2 query kv out scores layer position (softmax_span position)"
    by (cases b) simp_all
  then show "length (fst (inference_attention f b query kv out scores layer position (softmax_span position))) = 896"
    "length (snd (inference_attention f b query kv out scores layer position (softmax_span position))) = 32768"
    using agree assms by simp_all
qed

lemma attention_store:
  assumes "position < 32768" and "length out = 896" and "length scores = 32768"
    and "kv_agree layer (position + 1) kv kv'"
  shows "inference_attention f b query kv out scores layer position (softmax_span position) =
      inference_attention f b' query kv' out scores layer position (softmax_span position)"
proof -
  have "inference_attention f Sse2 query kv out scores layer position (softmax_span position) =
      inference_attention f Sse2 query kv' out scores layer position (softmax_span position)"
    unfolding inference_attention_def Let_def
    by (rule attention_past [OF assms(4)]) (simp add: list_all_iff del: upt_rec_numeral)
  then show ?thesis
    using attention_backend(1) [OF assms(1-3), of f b] attention_backend(1) [OF assms(1-3), of f b' query kv']
    by simp
qed

text \<open>The words of a layer that belong to a position up to the current one.\<close>

definition past_word :: "nat \<Rightarrow> nat \<Rightarrow> nat \<Rightarrow> bool" where
  "past_word layer position w \<longleftrightarrow>
     (\<exists>kind < 2. \<exists>p \<le> position. \<exists>h < KV_HEADS. \<exists>c < HEAD_WORDS. w = kv_word layer kind p h c)"

text \<open>
  C25: The two attention kernels agree. For every position of the context, with the regions of the
  engine, the AVX2 kernel (four positions or four components per register, masked loads at the end)
  leaves word for word the output and the scores of the scalar kernel, whatever the rounding
  instructions compute.
\<close>

theorem attention_backends_agree:
  "if position < CONTEXT_LIMIT \<and> length out = 896 \<and> length scores = CONTEXT_LIMIT
   then inference_attention f Avx2 query kv out scores layer position (softmax_span position) =
     inference_attention f Sse2 query kv out scores layer position (softmax_span position)
   else True"
  using attention_backend(1) [of position out scores f Avx2 query kv layer]
  by (simp add: CONTEXT_LIMIT_def)

text \<open>
  Attention reads the past only. On either processor path the kernel's result does not change
  when the words of the KV store that do not belong to a position up to the current one of this
  layer are changed arbitrarily.
\<close>

theorem attention_reads_only_past:
  "if position < CONTEXT_LIMIT \<and> length out = 896 \<and> length scores = CONTEXT_LIMIT
   then inference_attention f b query
       (\<lambda>w. if past_word layer position w then kv w else noise w)
       out scores layer position (softmax_span position) =
     inference_attention f b query kv out scores layer position (softmax_span position)
   else True"
proof -
  let ?kv = "\<lambda>w. if past_word layer position w then kv w else noise w"
  have "past_word layer position (kv_word layer kind p h c)"
    if "kind < 2" "p < position + 1" "h < 2" "c < 64" for kind p h c
    unfolding past_word_def KV_HEADS_def HEAD_WORDS_def
    by (rule exI [of _ kind], rule conjI [OF that(1)], rule exI [of _ p], rule conjI,
        use that(2) in simp, rule exI [of _ h], rule conjI [OF that(3)], rule exI [of _ c],
        rule conjI [OF that(4)], rule refl)
  then have "kv_agree layer (position + 1) ?kv kv"
    by (simp add: kv_agree_def KV_HEADS_def HEAD_WORDS_def)
  from attention_store [OF _ _ _ this] show ?thesis by (simp add: CONTEXT_LIMIT_def)
qed

end
