(* ===== verification/PB_Engine.thy ===== *)
theory PB_Engine
  imports PB_Attention PB_Tokenizer
begin

text \<open>
  The inference engine (\<open>inference.rs\<close>): its scratch layout, its state, the evaluation of one token
  through the layers, and the operations of its interface. The scratch regions are the fields of a
  record; that they are disjoint parts of one buffer is a property of the layout. A step of the
  evaluation maps an engine to a result and an engine: what an error leaves behind is the engine
  beside it. A dispatcher of the firmware is a function from the job to the processor path and the
  number of workers it ran it with, or \<open>None\<close> when it came back without having run it.
\<close>

section \<open>Scratch layout\<close>

record scratch_region =
  rg_offset :: nat
  rg_bytes :: nat

record scratch_layout =
  sl_hidden :: scratch_region
  sl_residual :: scratch_region
  sl_norm :: scratch_region
  sl_q :: scratch_region
  sl_k :: scratch_region
  sl_v :: scratch_region
  sl_attention :: scratch_region
  sl_scores :: scratch_region
  sl_gate :: scratch_region
  sl_up :: scratch_region
  sl_product :: scratch_region
  sl_q8_staging :: scratch_region
  sl_reserved :: scratch_region

definition INFERENCE_SCRATCH_LAYOUT :: scratch_layout where
  "INFERENCE_SCRATCH_LAYOUT =
     \<lparr>sl_hidden = \<lparr>rg_offset = 0, rg_bytes = 3584\<rparr>,
      sl_residual = \<lparr>rg_offset = 3584, rg_bytes = 3584\<rparr>,
      sl_norm = \<lparr>rg_offset = 7168, rg_bytes = 3584\<rparr>,
      sl_q = \<lparr>rg_offset = 10752, rg_bytes = 3584\<rparr>,
      sl_k = \<lparr>rg_offset = 14336, rg_bytes = 512\<rparr>,
      sl_v = \<lparr>rg_offset = 14848, rg_bytes = 512\<rparr>,
      sl_attention = \<lparr>rg_offset = 15360, rg_bytes = 3584\<rparr>,
      sl_scores = \<lparr>rg_offset = 18944, rg_bytes = 131072\<rparr>,
      sl_gate = \<lparr>rg_offset = 150016, rg_bytes = 19456\<rparr>,
      sl_up = \<lparr>rg_offset = 169472, rg_bytes = 19456\<rparr>,
      sl_product = \<lparr>rg_offset = 188928, rg_bytes = 19456\<rparr>,
      sl_q8_staging = \<lparr>rg_offset = 208384, rg_bytes = 5184\<rparr>,
      sl_reserved = \<lparr>rg_offset = 213568, rg_bytes = 48576\<rparr>\<rparr>"

definition HIDDEN_END :: nat where
  "HIDDEN_END = rg_offset (sl_hidden INFERENCE_SCRATCH_LAYOUT) + rg_bytes (sl_hidden INFERENCE_SCRATCH_LAYOUT)"
definition NORM_END :: nat where
  "NORM_END = rg_offset (sl_norm INFERENCE_SCRATCH_LAYOUT) + rg_bytes (sl_norm INFERENCE_SCRATCH_LAYOUT)"
definition USED_SCRATCH :: nat where
  "USED_SCRATCH = rg_offset (sl_reserved INFERENCE_SCRATCH_LAYOUT)"

definition HIDDEN_WORDS :: nat where "HIDDEN_WORDS = 896"
definition QUERY_HEADS :: nat where "QUERY_HEADS = 14"
definition FFN_WORDS :: nat where "FFN_WORDS = 4864"
definition KV_WORDS_PER_POSITION :: nat where
  "KV_WORDS_PER_POSITION = LAYERS * 2 * KV_HEADS * HEAD_WORDS"

record scratch =
  sr_hidden :: "u32 list"
  sr_residual :: "u32 list"
  sr_norm :: "u32 list"
  sr_q :: "u32 list"
  sr_k :: "u32 list"
  sr_v :: "u32 list"
  sr_attention :: "u32 list"
  sr_scores :: "u32 list"
  sr_gate :: "u32 list"
  sr_up :: "u32 list"
  sr_product :: "u32 list"
  sr_q8 :: bytes

definition region_words :: "scratch_region \<Rightarrow> nat" where "region_words r = rg_bytes r div 4"

text \<open>\<open>scratch[..SCRATCH_BYTES].fill(0)\<close>.\<close>

definition scratch_zero :: scratch where
  "scratch_zero =
    (let l = INFERENCE_SCRATCH_LAYOUT; zeros = (\<lambda>r. replicate (region_words r) 0)
     in \<lparr>sr_hidden = zeros (sl_hidden l), sr_residual = zeros (sl_residual l),
         sr_norm = zeros (sl_norm l), sr_q = zeros (sl_q l), sr_k = zeros (sl_k l),
         sr_v = zeros (sl_v l), sr_attention = zeros (sl_attention l),
         sr_scores = zeros (sl_scores l), sr_gate = zeros (sl_gate l), sr_up = zeros (sl_up l),
         sr_product = zeros (sl_product l),
         sr_q8 = replicate (rg_bytes (sl_q8_staging l)) 0\<rparr>)"

section \<open>State\<close>

record inference_step =
  is_position :: nat
  is_selected_token :: nat
  is_selected_logit_bits :: u32
  is_eos :: nat

record inference_usage =
  iu_weights :: arena_usage
  iu_kv :: arena_usage
  iu_scratch :: arena_usage
  iu_position :: nat
  iu_context_limit :: nat
  iu_generation_reserve :: nat
  iu_state :: nat

record retained_prefix =
  rp_len :: nat
  rp_tokens :: "nat list"

definition prefix_clear :: retained_prefix where
  "prefix_clear = \<lparr>rp_len = 0, rp_tokens = replicate MAX_TOKENS 0\<rparr>"

type_synonym dispatcher = "nat \<Rightarrow> nat \<Rightarrow> bool \<Rightarrow> (backend \<times> nat) option"

record engine =
  en_model :: model_view
  en_kv :: kv_store
  en_kv_len :: nat
  en_scratch :: scratch
  en_scratch_len :: nat
  en_position :: nat
  en_reserve :: nat
  en_emitted :: nat
  en_selected :: nat
  en_state :: inference_state
  en_backend :: backend
  en_dispatcher :: "dispatcher option"
  en_kv_high :: nat
  en_scratch_high :: nat
  en_prefix :: retained_prefix

text \<open>A borrowed buffer at construction: its length and its address.\<close>

definition buffer_error :: "nat \<Rightarrow> nat \<Rightarrow> nat \<Rightarrow> nat \<Rightarrow> inference_error option" where
  "buffer_error len address needed sub =
     (if len < needed
      then Some (infer_fail IS_CAPACITY ID_INIT NO_LAYER 0 NO_TENSOR needed len IK_BYTES sub)
      else if address mod 64 \<noteq> 0
      then Some (infer_fail IS_ALIGNMENT ID_INIT NO_LAYER 0 NO_TENSOR 64 (address mod 64)
        IK_ALIGNMENT sub)
      else None)"

definition engine_build ::
  "model_view \<Rightarrow> kv_store \<Rightarrow> nat \<Rightarrow> nat \<Rightarrow> nat \<Rightarrow> nat \<Rightarrow> backend \<Rightarrow> dispatcher option \<Rightarrow>
   inference_error + engine" where
  "engine_build model kv kv_len kv_address scratch_len scratch_address detected dispatcher =
     (case buffer_error kv_len kv_address KV_BYTES 0 of
        Some e \<Rightarrow> Inl e
      | None \<Rightarrow>
        (case buffer_error scratch_len scratch_address SCRATCH_BYTES 1 of
           Some e \<Rightarrow> Inl e
         | None \<Rightarrow> Inr
             \<lparr>en_model = model, en_kv = kv, en_kv_len = kv_len, en_scratch = scratch_zero,
              en_scratch_len = scratch_len, en_position = 0, en_reserve = 0, en_emitted = 0,
              en_selected = 0, en_state = ST_RESET, en_backend = detected,
              en_dispatcher = dispatcher, en_kv_high = 0, en_scratch_high = 0,
              en_prefix = prefix_clear\<rparr>))"

definition state_error :: "engine \<Rightarrow> inference_state \<Rightarrow> nat \<Rightarrow> inference_error" where
  "state_error e needed sub =
     infer_fail IS_STATE ID_PROMPT NO_LAYER (en_position e) NO_TENSOR (st_code needed)
       (st_code (en_state e)) IK_STATE sub"

section \<open>Steps of the evaluation\<close>

type_synonym 'a act = "engine \<Rightarrow> (inference_error + 'a) \<times> engine"

definition bind_act :: "'a act \<Rightarrow> ('a \<Rightarrow> 'b act) \<Rightarrow> 'b act" where
  "bind_act m k = (\<lambda>e. case m e of (Inl x, e) \<Rightarrow> (Inl x, e) | (Inr a, e) \<Rightarrow> k a e)"

definition then_act :: "'a act \<Rightarrow> 'b act \<Rightarrow> 'b act" where
  "then_act m k = bind_act m (\<lambda>_. k)"

definition upd :: "(scratch \<Rightarrow> scratch) \<Rightarrow> unit act" where
  "upd g = (\<lambda>e. (Inr (), e\<lparr>en_scratch := g (en_scratch e)\<rparr>))"

definition raise_high_water :: "nat \<Rightarrow> unit act" where
  "raise_high_water n = (\<lambda>e. (Inr (), e\<lparr>en_scratch_high := max (en_scratch_high e) n\<rparr>))"

definition engine_tensor :: "nat \<Rightarrow> inference_domain \<Rightarrow> nat \<Rightarrow> (tensor_meta \<times> bytes) act" where
  "engine_tensor tid domain layer = (\<lambda>e.
     (case view_tensor (en_model e) tid of
        Inr t \<Rightarrow> Inr t
      | Inl x \<Rightarrow> Inl (infer_fail IS_MODEL domain layer (en_position e) tid tid
          (unat (me_available x)) IK_TENSOR 0), e))"

definition layer_tensor :: "nat \<Rightarrow> nat \<Rightarrow> inference_domain \<Rightarrow> (tensor_meta \<times> bytes) act" where
  "layer_tensor layer role domain = (\<lambda>e.
     (case tensor_for (en_model e) layer role of
        Inr t \<Rightarrow> Inr t
      | Inl x \<Rightarrow> Inl (infer_fail IS_MODEL domain layer (en_position e) NO_TENSOR role
          (unat (me_available x)) IK_TENSOR 0), e))"

definition inject_and_check ::
  "engine \<Rightarrow> inference_domain \<Rightarrow> nat \<Rightarrow> nat \<Rightarrow> u32 list \<Rightarrow> nat \<Rightarrow> inference_error option" where
  "inject_and_check e domain layer tensor_id values words =
     (case find (\<lambda>index. \<not> finite_bits (values ! index)) [0..<words] of
        None \<Rightarrow> None
      | Some index \<Rightarrow> Some (infer_fail
          (if domain \<le> ID_DOWN then IS_NONFINITE_INPUT else IS_NONFINITE_OUTPUT)
          domain layer (en_position e) tensor_id 0 (unat (values ! index)) IK_FINITE index))"

definition check_act ::
  "inference_domain \<Rightarrow> nat \<Rightarrow> nat \<Rightarrow> (scratch \<Rightarrow> u32 list) \<Rightarrow> nat \<Rightarrow> unit act" where
  "check_act domain layer tensor_id sel words = (\<lambda>e.
     (case inject_and_check e domain layer tensor_id (sel (en_scratch e)) words of
        Some x \<Rightarrow> Inl x | None \<Rightarrow> Inr (), e))"

text \<open>Writing the key and value of a position: all key words, then all value words.\<close>

definition kv_rows :: "nat \<Rightarrow> nat \<Rightarrow> nat \<Rightarrow> (nat \<times> nat) list" where
  "kv_rows layer kind position =
     concat (map (\<lambda>head. map (\<lambda>component.
         (head * HEAD_WORDS + component, kv_word layer kind position head component))
       [0..<HEAD_WORDS]) [0..<KV_HEADS])"

definition store_rows :: "u32 list \<Rightarrow> (nat \<times> nat) list \<Rightarrow> kv_store \<Rightarrow> kv_store" where
  "store_rows values rows kv = fold (\<lambda>(source, word) kv. kv(word := values ! source)) rows kv"

definition write_kv :: "nat \<Rightarrow> nat \<Rightarrow> unit act" where
  "write_kv layer position = (\<lambda>e.
     let final_key = kv_word layer 0 position (KV_HEADS - 1) (HEAD_WORDS - 1);
         final_value = kv_word layer 1 position (KV_HEADS - 1) (HEAD_WORDS - 1)
     in if layer \<ge> LAYERS \<or> position \<ge> CONTEXT_LIMIT
        then (Inl (infer_fail IS_ARITHMETIC ID_KV layer position NO_TENSOR layer (KV_BYTES div 4)
          IK_USIZE 0), e)
        else if final_key \<ge> KV_BYTES div 4 \<or> final_value \<ge> KV_BYTES div 4
        then (Inl (infer_fail IS_CAPACITY ID_KV layer position NO_TENSOR
          (max final_key final_value + 1) (KV_BYTES div 4) IK_BYTES 0), e)
        else (Inr (), e\<lparr>en_kv :=
          store_rows (sr_v (en_scratch e)) (kv_rows layer 1 position)
            (store_rows (sr_k (en_scratch e)) (kv_rows layer 0 position) (en_kv e))\<rparr>))"

section \<open>Coordination\<close>

text \<open>A matrix product on one processor, or split by rows over the worker slots.\<close>

datatype coordinator = Serial backend | Parallel backend nat

definition slot_first :: "nat \<Rightarrow> nat \<Rightarrow> nat \<Rightarrow> nat" where
  "slot_first rows workers slot = rows * slot div workers"

fun coordinator_q4 ::
  "fpu \<Rightarrow> coordinator \<Rightarrow> bytes \<Rightarrow> u32 list \<Rightarrow> bytes \<Rightarrow> nat \<Rightarrow> nat \<Rightarrow> u32 list" where
  "coordinator_q4 f (Serial b) weights out staging rows columns =
     q4_matvec_rows f b weights out staging columns 0 rows"
| "coordinator_q4 f (Parallel b workers) weights out staging rows columns =
     fold (\<lambda>slot out. q4_matvec_rows f b weights out staging columns
         (slot_first rows workers slot) (slot_first rows workers (slot + 1)))
       [0..<workers] out"

fun coordinator_q8 ::
  "fpu \<Rightarrow> coordinator \<Rightarrow> bytes \<Rightarrow> u32 list \<Rightarrow> bytes \<Rightarrow> nat \<Rightarrow> nat \<Rightarrow> u32 list" where
  "coordinator_q8 f (Serial b) weights out staging rows columns =
     q8_matvec_rows f b weights out staging columns 0 rows"
| "coordinator_q8 f (Parallel b workers) weights out staging rows columns =
     fold (\<lambda>slot out. q8_matvec_rows f b weights out staging columns
         (slot_first rows workers slot) (slot_first rows workers (slot + 1)))
       [0..<workers] out"


section \<open>One layer\<close>

definition stage_q8 :: "fpu \<Rightarrow> (scratch \<Rightarrow> u32 list) \<Rightarrow> nat \<Rightarrow> unit act" where
  "stage_q8 f sel columns = upd (\<lambda>s. s\<lparr>sr_q8 := inference_prepare_q8 f (sel s) columns\<rparr>)"

definition norm_phase :: "fpu \<Rightarrow> nat \<Rightarrow> nat \<Rightarrow> inference_domain \<Rightarrow> unit act" where
  "norm_phase f layer role domain =
     bind_act (layer_tensor layer role domain) (\<lambda>(meta, data).
     then_act (if domain = ID_ATTN_NORM then raise_high_water NORM_END else upd (\<lambda>s. s))
     (then_act (upd (\<lambda>s. s\<lparr>sr_norm := inference_rmsnorm f (sr_hidden s) data HIDDEN_WORDS\<rparr>))
     (check_act domain layer (tm_id meta) sr_norm HIDDEN_WORDS)))"

definition query_phase :: "fpu \<Rightarrow> coordinator \<Rightarrow> nat \<Rightarrow> nat act" where
  "query_phase f c layer =
     bind_act (layer_tensor layer 19 ID_Q) (\<lambda>(q_weight, q_data).
     then_act (raise_high_water USED_SCRATCH)
     (then_act (stage_q8 f sr_norm HIDDEN_WORDS)
     (then_act (upd (\<lambda>s. s\<lparr>sr_q := coordinator_q4 f c q_data (sr_q s) (sr_q8 s) HIDDEN_WORDS HIDDEN_WORDS\<rparr>))
     (bind_act (layer_tensor layer 18 ID_Q) (\<lambda>(q_bias, bias).
     then_act (upd (\<lambda>s. s\<lparr>sr_q := inference_add_bias f (sr_q s) bias HIDDEN_WORDS\<rparr>))
     (then_act (check_act ID_Q layer (tm_id q_weight) sr_q HIDDEN_WORDS)
     (\<lambda>e. (Inr (tm_id q_weight), e))))))))"

definition key_phase :: "fpu \<Rightarrow> coordinator \<Rightarrow> nat \<Rightarrow> nat act" where
  "key_phase f c layer =
     bind_act (layer_tensor layer 16 ID_K) (\<lambda>(k_weight, k_data).
     then_act (upd (\<lambda>s. s\<lparr>sr_k := coordinator_q4 f c k_data (sr_k s) (sr_q8 s) 128 HIDDEN_WORDS\<rparr>))
     (bind_act (layer_tensor layer 15 ID_K) (\<lambda>(k_bias, bias).
     then_act (upd (\<lambda>s. s\<lparr>sr_k := inference_add_bias f (sr_k s) bias 128\<rparr>))
     (then_act (check_act ID_K layer (tm_id k_weight) sr_k 128)
     (\<lambda>e. (Inr (tm_id k_weight), e))))))"

definition value_phase :: "fpu \<Rightarrow> coordinator \<Rightarrow> nat \<Rightarrow> unit act" where
  "value_phase f c layer =
     bind_act (layer_tensor layer 21 ID_V) (\<lambda>(v_weight, v_data).
     then_act (upd (\<lambda>s. s\<lparr>sr_v := coordinator_q4 f c v_data (sr_v s) (sr_q8 s) 128 HIDDEN_WORDS\<rparr>))
     (bind_act (layer_tensor layer 20 ID_V) (\<lambda>(v_bias, bias).
     then_act (upd (\<lambda>s. s\<lparr>sr_v := inference_add_bias f (sr_v s) bias 128\<rparr>))
     (check_act ID_V layer (tm_id v_weight) sr_v 128))))"

definition attend :: "fpu \<Rightarrow> nat \<Rightarrow> nat \<Rightarrow> unit act" where
  "attend f layer position = (\<lambda>e.
     let s = en_scratch e
     in case inference_attention f (en_backend e) (sr_q s) (en_kv e) (sr_attention s) (sr_scores s)
              layer position (softmax_span position) of
          (out, scores) \<Rightarrow> (Inr (), e\<lparr>en_scratch := s\<lparr>sr_attention := out, sr_scores := scores\<rparr>\<rparr>))"

definition attention_phase :: "fpu \<Rightarrow> bytes \<Rightarrow> coordinator \<Rightarrow> nat \<Rightarrow> nat \<Rightarrow> nat \<Rightarrow> nat \<Rightarrow> unit act" where
  "attention_phase f table c layer position q_id k_id =
     then_act (upd (\<lambda>s. s\<lparr>sr_q := inference_rope f table (sr_q s) QUERY_HEADS position,
         sr_k := inference_rope f table (sr_k s) KV_HEADS position\<rparr>))
     (then_act (check_act ID_ROPE layer q_id sr_q HIDDEN_WORDS)
     (then_act (check_act ID_ROPE layer k_id sr_k 128)
     (then_act (check_act ID_KV layer k_id sr_k 128)
     (then_act (write_kv layer position)
     (then_act (attend f layer position)
     (then_act (check_act ID_ATTENTION layer NO_TENSOR sr_attention HIDDEN_WORDS)
     (bind_act (layer_tensor layer 17 ID_ATTN_OUTPUT) (\<lambda>(attn_output, data).
     then_act (stage_q8 f sr_attention HIDDEN_WORDS)
     (then_act (upd (\<lambda>s. s\<lparr>sr_norm := coordinator_q4 f c data (sr_norm s) (sr_q8 s) HIDDEN_WORDS HIDDEN_WORDS\<rparr>))
     (then_act (upd (\<lambda>s. s\<lparr>sr_hidden := inference_add_residual f (sr_residual s) (sr_norm s) HIDDEN_WORDS\<rparr>))
     (check_act ID_ATTN_OUTPUT layer (tm_id attn_output) sr_hidden HIDDEN_WORDS)))))))))))"

definition gate_phase :: "fpu \<Rightarrow> coordinator \<Rightarrow> nat \<Rightarrow> nat act" where
  "gate_phase f c layer =
     bind_act (layer_tensor layer 12 ID_GATE) (\<lambda>(gate_weight, data).
     then_act (stage_q8 f sr_norm HIDDEN_WORDS)
     (then_act (upd (\<lambda>s. s\<lparr>sr_gate := coordinator_q4 f c data (sr_gate s) (sr_q8 s) FFN_WORDS HIDDEN_WORDS\<rparr>))
     (then_act (check_act ID_GATE layer (tm_id gate_weight) sr_gate FFN_WORDS)
     (\<lambda>e. (Inr (tm_id gate_weight), e)))))"

definition up_phase :: "fpu \<Rightarrow> coordinator \<Rightarrow> nat \<Rightarrow> nat \<Rightarrow> unit act" where
  "up_phase f c layer gate_id =
     bind_act (layer_tensor layer 13 ID_UP) (\<lambda>(up_weight, data).
     then_act (upd (\<lambda>s. s\<lparr>sr_up := coordinator_q4 f c data (sr_up s) (sr_q8 s) FFN_WORDS HIDDEN_WORDS\<rparr>))
     (then_act (check_act ID_UP layer (tm_id up_weight) sr_up FFN_WORDS)
     (then_act (upd (\<lambda>s. s\<lparr>sr_product := inference_swiglu f (sr_gate s) (sr_up s) FFN_WORDS\<rparr>))
     (check_act ID_SWIGLU layer gate_id sr_product FFN_WORDS))))"

definition down_phase :: "fpu \<Rightarrow> coordinator \<Rightarrow> nat \<Rightarrow> unit act" where
  "down_phase f c layer =
     bind_act (layer_tensor layer 11 ID_DOWN) (\<lambda>(down_weight, data).
     then_act (stage_q8 f sr_product FFN_WORDS)
     (then_act (upd (\<lambda>s. s\<lparr>sr_norm := coordinator_q4 f c data (sr_norm s) (sr_q8 s) HIDDEN_WORDS FFN_WORDS\<rparr>))
     (then_act (upd (\<lambda>s. s\<lparr>sr_hidden := inference_add_residual f (sr_residual s) (sr_norm s) HIDDEN_WORDS\<rparr>))
     (check_act ID_DOWN layer (tm_id down_weight) sr_hidden HIDDEN_WORDS))))"

definition save_residual :: "unit act" where
  "save_residual = upd (\<lambda>s. s\<lparr>sr_residual := sr_hidden s\<rparr>)"

definition eval_layer :: "fpu \<Rightarrow> bytes \<Rightarrow> coordinator \<Rightarrow> nat \<Rightarrow> nat \<Rightarrow> unit act" where
  "eval_layer f table c position layer =
     then_act save_residual
     (then_act (norm_phase f layer 10 ID_ATTN_NORM)
     (bind_act (query_phase f c layer) (\<lambda>q_id.
     bind_act (key_phase f c layer) (\<lambda>k_id.
     then_act (value_phase f c layer)
     (then_act (attention_phase f table c layer position q_id k_id)
     (then_act save_residual
     (then_act (norm_phase f layer 14 ID_FFN_NORM)
     (bind_act (gate_phase f c layer) (\<lambda>gate_id.
     then_act (up_phase f c layer gate_id)
     (down_phase f c layer))))))))))"

fun eval_layers :: "fpu \<Rightarrow> bytes \<Rightarrow> coordinator \<Rightarrow> nat \<Rightarrow> nat list \<Rightarrow> unit act" where
  "eval_layers f table c position [] = (\<lambda>e. (Inr (), e))"
| "eval_layers f table c position (layer # rest) =
     then_act (eval_layer f table c position layer) (eval_layers f table c position rest)"

definition embed :: "fpu \<Rightarrow> nat \<Rightarrow> unit act" where
  "embed f token =
     bind_act (engine_tensor 0 ID_EMBEDDING NO_LAYER) (\<lambda>(embedding, data).
     then_act (raise_high_water HIDDEN_END)
     (then_act (upd (\<lambda>s. s\<lparr>sr_hidden := inference_q4_row f data token HIDDEN_WORDS\<rparr>))
     (check_act ID_EMBEDDING NO_LAYER 0 sr_hidden HIDDEN_WORDS)))"

section \<open>Evaluating a token\<close>

text \<open>The output norm and the logits: the words of the logits are the second component.\<close>

definition eval_logits ::
  "fpu \<Rightarrow> coordinator \<Rightarrow> engine \<times> u32 list \<Rightarrow> (inference_error + unit) \<times> engine \<times> u32 list" where
  "eval_logits f c s =
     (case s of (e, logits) \<Rightarrow>
      case bind_act (engine_tensor 289 ID_OUTPUT_NORM NO_LAYER) (\<lambda>(meta, data).
           then_act (upd (\<lambda>s. s\<lparr>sr_norm := inference_rmsnorm f (sr_hidden s) data HIDDEN_WORDS\<rparr>))
           (then_act (check_act ID_OUTPUT_NORM NO_LAYER 289 sr_norm HIDDEN_WORDS)
           (bind_act (engine_tensor 290 ID_LOGITS NO_LAYER) (\<lambda>(meta, weights).
           then_act (stage_q8 f sr_norm HIDDEN_WORDS) (\<lambda>e. (Inr weights, e)))))) e of
        (Inl x, e) \<Rightarrow> (Inl x, e, logits)
      | (Inr weights, e) \<Rightarrow>
        let logits = coordinator_q8 f c weights logits (sr_q8 (en_scratch e)) LOGIT_WORDS HIDDEN_WORDS
        in (case inject_and_check e ID_LOGITS NO_LAYER 290 logits (length logits) of
              Some x \<Rightarrow> (Inl x, e, logits)
            | None \<Rightarrow> (Inr (), e, logits)))"

definition evaluate_inner ::
  "fpu \<Rightarrow> bytes \<Rightarrow> coordinator \<Rightarrow> nat \<Rightarrow> bool \<Rightarrow> engine \<times> u32 list \<Rightarrow>
   (inference_error + unit) \<times> engine \<times> u32 list" where
  "evaluate_inner f table c token produce_logits s =
     (case s of (e, logits) \<Rightarrow>
      let position = en_position e in
      case then_act (embed f token) (eval_layers f table c position [0..<LAYERS]) e of
        (Inl x, e) \<Rightarrow> (Inl x, e, logits)
      | (Inr _, e) \<Rightarrow>
        if position + 1 \<ge> u32_limit
        then (Inl (infer_fail IS_ARITHMETIC ID_PROMPT NO_LAYER position NO_TENSOR position 1 IK_ADD 0),
              e, logits)
        else
          (case (if produce_logits then eval_logits f c (e, logits) else (Inr (), e, logits)) of
             (Inl x, e, logits) \<Rightarrow> (Inl x, e, logits)
           | (Inr _, e, logits) \<Rightarrow>
               (Inr (), e\<lparr>en_position := position + 1,
                  en_kv_high := max (en_kv_high e) ((position + 1) * KV_WORDS_PER_POSITION * 4),
                  en_scratch := scratch_zero\<rparr>, logits)))"

definition evaluate ::
  "fpu \<Rightarrow> bytes \<Rightarrow> nat \<Rightarrow> bool \<Rightarrow> engine \<times> u32 list \<Rightarrow>
   (inference_error + unit) \<times> engine \<times> u32 list" where
  "evaluate f table token produce_logits s =
     (case s of (e, logits) \<Rightarrow>
      case en_dispatcher e of
        Some dispatch \<Rightarrow>
          (case dispatch (en_position e) token produce_logits of
             Some (b, workers) \<Rightarrow>
               evaluate_inner f table (Parallel b workers) token produce_logits (e, logits)
           | None \<Rightarrow> (Inl (infer_fail IS_STATE ID_PROMPT NO_LAYER (en_position e) NO_TENSOR 1 0
               IK_STATE 6), e, logits))
      | None \<Rightarrow> evaluate_inner f table (Serial (en_backend e)) token produce_logits (e, logits))"

section \<open>Operations\<close>

definition fault :: "inference_error \<Rightarrow> engine \<times> u32 list \<Rightarrow> inference_error \<times> engine \<times> u32 list" where
  "fault x s =
     (case s of (e, logits) \<Rightarrow>
        (x, e\<lparr>en_scratch := scratch_zero, en_state := ST_FAULTED, en_prefix := prefix_clear\<rparr>,
         replicate (length logits) 0))"

type_synonym 'a reply = "(inference_error + 'a) \<times> engine \<times> u32 list"

definition fail_with :: "inference_error \<times> engine \<times> u32 list \<Rightarrow> 'a reply" where
  "fail_with r = (Inl (fst r), snd r)"

definition publish_step :: "engine \<times> u32 list \<Rightarrow> inference_step reply" where
  "publish_step s =
     (case s of (e, logits) \<Rightarrow>
      case inject_and_check e ID_ARGMAX NO_LAYER 290 logits (length logits) of
        Some x \<Rightarrow> fail_with (fault x (e, logits))
      | None \<Rightarrow>
        let selected = inference_argmax logits;
            eos = (if selected = mc_eos (mv_config (en_model e)) then 1 else 0)
        in (Inr \<lparr>is_position = en_position e, is_selected_token = selected,
                 is_selected_logit_bits = logits ! selected, is_eos = eos\<rparr>,
            e\<lparr>en_selected := selected, en_state := (if eos \<noteq> 0 then ST_EOS else ST_READY)\<rparr>, logits))"

fun eval_prompt :: "fpu \<Rightarrow> bytes \<Rightarrow> nat list \<Rightarrow> engine \<times> u32 list \<Rightarrow> unit reply" where
  "eval_prompt f table [] s = (Inr (), s)"
| "eval_prompt f table (token # rest) s =
     (case evaluate f table token (rest = []) s of
        (Inl x, s) \<Rightarrow> fail_with (fault x s)
      | (Inr _, s) \<Rightarrow> eval_prompt f table rest s)"

definition check_prompt :: "engine \<Rightarrow> nat list \<Rightarrow> nat \<Rightarrow> nat \<Rightarrow> bool \<Rightarrow> inference_error + unit" where
  "check_prompt e prompt generation_reserve logits_len appending =
     (let start = en_position e;
          needed = start + length prompt + generation_reserve;
          context_fail = infer_fail IS_CONTEXT ID_PROMPT NO_LAYER
      in bind_result (require (1 \<le> generation_reserve \<and> generation_reserve \<le> CONTEXT_LIMIT)
           (context_fail start NO_TENSOR (if generation_reserve = 0 then 1 else CONTEXT_LIMIT)
             generation_reserve IK_RESERVE 0)) (\<lambda>_.
         bind_result (require (prompt \<noteq> [])
           (context_fail start NO_TENSOR 1 0 IK_CONTEXT 0)) (\<lambda>_.
         bind_result (require (appending \<or> length prompt < CONTEXT_LIMIT)
           (context_fail 0 NO_TENSOR (CONTEXT_LIMIT - 1) (length prompt) IK_CONTEXT 0)) (\<lambda>_.
         bind_result (require (needed \<le> CONTEXT_LIMIT)
           (context_fail start NO_TENSOR CONTEXT_LIMIT needed IK_CONTEXT 1)) (\<lambda>_.
         bind_result (none_or (logits_error logits_len start)) (\<lambda>_.
         check_all (\<lambda>index. require (prompt ! index < VOCAB_COUNT)
           (infer_fail IS_TOKEN_ID ID_PROMPT NO_LAYER (start + index) NO_TENSOR VOCAB_COUNT
             (prompt ! index) IK_TOKEN 0)) [0..<length prompt]))))))"

definition prefill_inner ::
  "fpu \<Rightarrow> bytes \<Rightarrow> nat list \<Rightarrow> nat \<Rightarrow> bool \<Rightarrow> engine \<times> u32 list \<Rightarrow> inference_step reply" where
  "prefill_inner f table prompt generation_reserve appending s =
     (case s of (e, logits) \<Rightarrow>
      case check_prompt e prompt generation_reserve (length logits) appending of
        Inl x \<Rightarrow> (Inl x, e, logits)
      | Inr _ \<Rightarrow>
        (case eval_prompt f table prompt
                (e\<lparr>en_reserve := generation_reserve, en_emitted := 0\<rparr>, logits) of
           (Inl x, s) \<Rightarrow> (Inl x, s)
         | (Inr _, e, logits) \<Rightarrow> publish_step (e\<lparr>en_emitted := 1\<rparr>, logits)))"

definition prefill ::
  "fpu \<Rightarrow> bytes \<Rightarrow> nat list \<Rightarrow> nat \<Rightarrow> engine \<times> u32 list \<Rightarrow> inference_step reply" where
  "prefill f table prompt generation_reserve s =
     (if en_state (fst s) = ST_FAULTED then (Inl (state_error (fst s) ST_RESET 3), s)
      else if en_state (fst s) \<noteq> ST_RESET then (Inl (state_error (fst s) ST_RESET 1), s)
      else prefill_inner f table prompt generation_reserve False s)"

definition append_prefill ::
  "fpu \<Rightarrow> bytes \<Rightarrow> nat list \<Rightarrow> nat \<Rightarrow> engine \<times> u32 list \<Rightarrow> inference_step reply" where
  "append_prefill f table prompt generation_reserve s =
     (case en_state (fst s) of
        ST_FAULTED \<Rightarrow> (Inl (state_error (fst s) ST_RESET 3), s)
      | ST_RESET \<Rightarrow> (Inl (state_error (fst s) ST_READY 0), s)
      | _ \<Rightarrow> prefill_inner f table prompt generation_reserve True s)"

definition reset_state :: "engine \<Rightarrow> engine" where
  "reset_state e =
     e\<lparr>en_scratch := scratch_zero, en_position := 0, en_reserve := 0, en_emitted := 0,
       en_selected := 0, en_state := ST_RESET, en_prefix := prefix_clear\<rparr>"

definition prefix_matches :: "engine \<Rightarrow> nat list \<Rightarrow> nat \<Rightarrow> bool" where
  "prefix_matches e prompt prefix_tokens \<longleftrightarrow>
     en_state e = ST_RESET \<and> en_position e = rp_len (en_prefix e) \<and>
     rp_len (en_prefix e) = prefix_tokens \<and>
     take prefix_tokens (rp_tokens (en_prefix e)) = take prefix_tokens prompt"

definition retain_prefix :: "nat list \<Rightarrow> nat \<Rightarrow> retained_prefix" where
  "retain_prefix prompt prefix_tokens =
     \<lparr>rp_len = prefix_tokens,
      rp_tokens = write_at (rp_tokens prefix_clear) 0 (take prefix_tokens prompt)\<rparr>"

definition prefill_fresh ::
  "fpu \<Rightarrow> bytes \<Rightarrow> nat list \<Rightarrow> nat \<Rightarrow> nat \<Rightarrow> engine \<times> u32 list \<Rightarrow> inference_step reply" where
  "prefill_fresh f table prompt prefix_tokens generation_reserve s =
     (case prefill f table prompt generation_reserve s of
        (Inl x, s) \<Rightarrow> (Inl x, s)
      | (Inr step, e, logits) \<Rightarrow>
          (Inr step, e\<lparr>en_prefix := retain_prefix prompt prefix_tokens\<rparr>, logits))"

definition prefill_with_prefix ::
  "fpu \<Rightarrow> bytes \<Rightarrow> nat list \<Rightarrow> nat \<Rightarrow> nat \<Rightarrow> engine \<times> u32 list \<Rightarrow> inference_step reply" where
  "prefill_with_prefix f table prompt prefix_tokens generation_reserve s =
     (case s of (e, logits) \<Rightarrow>
      if prefix_tokens = 0 \<or> prefix_tokens \<ge> length prompt \<or> prefix_tokens > MAX_TOKENS
      then (Inl (infer_fail IS_CONTEXT ID_PROMPT NO_LAYER 0 NO_TENSOR 1 prefix_tokens IK_CONTEXT 3),
            reset_state e, logits)
      else if rp_len (en_prefix e) \<noteq> 0 then
        (if prefix_matches e prompt prefix_tokens
         then prefill_inner f table (drop prefix_tokens prompt) generation_reserve True s
         else if en_state e \<noteq> ST_RESET
         then (Inl (state_error e ST_RESET 4), reset_state e, logits)
         else prefill_fresh f table prompt prefix_tokens generation_reserve (reset_state e, logits))
      else prefill_fresh f table prompt prefix_tokens generation_reserve s)"

definition check_decode :: "engine \<Rightarrow> nat \<Rightarrow> nat \<Rightarrow> bool \<Rightarrow> inference_error + unit" where
  "check_decode e token logits_len require_previous_greedy =
     (if en_state e = ST_FAULTED then Inl (state_error e ST_RESET 3)
      else if en_state e = ST_EOS \<and> require_previous_greedy then Inl (state_error e ST_READY 2)
      else if en_state e = ST_RESET then Inl (state_error e ST_READY 0)
      else
        bind_result (require (token < VOCAB_COUNT)
          (infer_fail IS_TOKEN_ID ID_PROMPT NO_LAYER (en_position e) NO_TENSOR VOCAB_COUNT token
            IK_TOKEN 1)) (\<lambda>_.
        bind_result (require (\<not> (require_previous_greedy \<and> token \<noteq> en_selected e))
          (infer_fail IS_STATE ID_ARGMAX NO_LAYER (en_position e) NO_TENSOR (en_selected e) token
            IK_SELECTED 0)) (\<lambda>_.
        bind_result (require (en_emitted e < en_reserve e)
          (infer_fail IS_CONTEXT ID_PROMPT NO_LAYER (en_position e) NO_TENSOR (en_reserve e)
            (en_emitted e) IK_RESERVE 1)) (\<lambda>_.
        bind_result (require (en_position e < CONTEXT_LIMIT)
          (infer_fail IS_CONTEXT ID_KV NO_LAYER (en_position e) NO_TENSOR CONTEXT_LIMIT
            (en_position e) IK_CONTEXT 2)) (\<lambda>_.
        none_or (logits_error logits_len (en_position e)))))))"

definition decode_inner ::
  "fpu \<Rightarrow> bytes \<Rightarrow> nat \<Rightarrow> bool \<Rightarrow> engine \<times> u32 list \<Rightarrow> inference_step reply" where
  "decode_inner f table token require_previous_greedy s =
     (case s of (e, logits) \<Rightarrow>
      case check_decode e token (length logits) require_previous_greedy of
        Inl x \<Rightarrow> (Inl x, e, logits)
      | Inr _ \<Rightarrow>
        (case evaluate f table token True (e, logits) of
           (Inl x, s) \<Rightarrow> fail_with (fault x s)
         | (Inr _, e, logits) \<Rightarrow> publish_step (e\<lparr>en_emitted := en_emitted e + 1\<rparr>, logits)))"

definition decode :: "fpu \<Rightarrow> bytes \<Rightarrow> nat \<Rightarrow> engine \<times> u32 list \<Rightarrow> inference_step reply" where
  "decode f table token s = decode_inner f table token True s"

definition decode_selected ::
  "fpu \<Rightarrow> bytes \<Rightarrow> nat \<Rightarrow> engine \<times> u32 list \<Rightarrow> inference_step reply" where
  "decode_selected f table token s = decode_inner f table token False s"

definition reset_to_prefix :: "engine \<Rightarrow> nat \<times> engine" where
  "reset_to_prefix e =
     (let e = e\<lparr>en_scratch := scratch_zero\<rparr>;
          prefix = rp_len (en_prefix e);
          valid = (case en_state e of
              ST_RESET \<Rightarrow> prefix \<noteq> 0 \<and> en_position e = prefix
            | ST_FAULTED \<Rightarrow> False
            | _ \<Rightarrow> prefix \<noteq> 0 \<and> en_position e \<ge> prefix \<and> en_position e \<le> CONTEXT_LIMIT)
      in if \<not> valid then (0, reset_state e)
         else (prefix, e\<lparr>en_position := prefix, en_reserve := 0, en_emitted := 0, en_selected := 0,
           en_state := ST_RESET\<rparr>))"

definition engine_usage :: "engine \<Rightarrow> inference_usage" where
  "engine_usage e =
     \<lparr>iu_weights = \<lparr>us_capacity = IMAGE_BYTES, us_requested = IMAGE_BYTES, us_committed = IMAGE_BYTES,
        us_current = IMAGE_BYTES, us_high_water = IMAGE_BYTES\<rparr>,
      iu_kv = \<lparr>us_capacity = en_kv_len e, us_requested = KV_BYTES, us_committed = KV_BYTES,
        us_current = en_position e * KV_WORDS_PER_POSITION * 4, us_high_water = en_kv_high e\<rparr>,
      iu_scratch = \<lparr>us_capacity = en_scratch_len e, us_requested = SCRATCH_BYTES,
        us_committed = SCRATCH_BYTES, us_current = 0, us_high_water = en_scratch_high e\<rparr>,
      iu_position = en_position e, iu_context_limit = CONTEXT_LIMIT,
      iu_generation_reserve = en_reserve e, iu_state = st_code (en_state e)\<rparr>"


section \<open>What the evaluation touches\<close>

text \<open>
  The steps change the scratch, the KV store and the scratch high-water mark only; a token evaluated
  successfully also advances the position.
\<close>

definition frame :: "engine \<Rightarrow> engine \<Rightarrow> bool" where
  "frame e e' \<longleftrightarrow> e' = e\<lparr>en_scratch := en_scratch e', en_kv := en_kv e',
     en_scratch_high := en_scratch_high e'\<rparr>"

definition advanced :: "engine \<Rightarrow> engine \<Rightarrow> bool" where
  "advanced e e' \<longleftrightarrow> e' = e\<lparr>en_position := en_position e + 1, en_scratch := scratch_zero,
     en_kv := en_kv e', en_kv_high := en_kv_high e', en_scratch_high := en_scratch_high e'\<rparr>"

definition framed :: "'a act \<Rightarrow> bool" where
  "framed m \<longleftrightarrow> (\<forall>e. frame e (snd (m e)))"

named_theorems framed_intros "steps that only touch scratch, store and high-water mark"

lemma frame_refl [simp]: "frame e e"
  by (simp add: frame_def)

lemma frame_fields:
  "frame e e' \<Longrightarrow> en_model e' = en_model e \<and> en_position e' = en_position e \<and>
     en_reserve e' = en_reserve e \<and> en_emitted e' = en_emitted e \<and> en_selected e' = en_selected e \<and>
     en_state e' = en_state e \<and> en_backend e' = en_backend e \<and> en_dispatcher e' = en_dispatcher e \<and>
     en_prefix e' = en_prefix e \<and> en_kv_len e' = en_kv_len e \<and> en_scratch_len e' = en_scratch_len e"
  by (cases e; cases e') (simp add: frame_def)

lemma frame_trans: "frame e e' \<Longrightarrow> frame e' e'' \<Longrightarrow> frame e e''"
  by (cases e; cases e'; cases e'') (simp add: frame_def)

lemma framed_bind [framed_intros]:
  "framed m \<Longrightarrow> (\<And>a. framed (k a)) \<Longrightarrow> framed (bind_act m k)"
  unfolding framed_def bind_act_def
  by (auto split: prod.splits sum.splits intro: frame_trans)

lemma framed_then [framed_intros]: "framed m \<Longrightarrow> framed k \<Longrightarrow> framed (then_act m k)"
  unfolding then_act_def by (rule framed_bind)

lemma framed_upd [framed_intros]: "framed (upd g)"
  by (simp add: framed_def upd_def frame_def)

lemma framed_basic [framed_intros]:
  "framed (raise_high_water n)" "framed (engine_tensor tid domain layer)"
  "framed (layer_tensor layer role domain)" "framed (check_act domain layer tid sel words)"
  "framed (\<lambda>e. (Inr a, e))" "framed (stage_q8 f sel columns)" "framed save_residual"
  by (simp_all add: framed_def frame_def raise_high_water_def engine_tensor_def layer_tensor_def
      check_act_def stage_q8_def save_residual_def upd_def)

lemma framed_write_kv [framed_intros]: "framed (write_kv layer position)"
  by (simp add: framed_def frame_def write_kv_def Let_def)

lemma framed_attend [framed_intros]: "framed (attend f layer position)"
  by (simp add: framed_def frame_def attend_def Let_def split: prod.splits)

lemma framed_phases [framed_intros]:
  "framed (norm_phase f layer role domain)" "framed (query_phase f c layer)"
  "framed (key_phase f c layer)" "framed (value_phase f c layer)"
  "framed (attention_phase f table c layer position q_id k_id)" "framed (gate_phase f c layer)"
  "framed (up_phase f c layer gate_id)" "framed (down_phase f c layer)" "framed (embed f token)"
  by (auto simp: norm_phase_def query_phase_def key_phase_def value_phase_def attention_phase_def
      gate_phase_def up_phase_def down_phase_def embed_def intro!: framed_intros)

lemma framed_layers [framed_intros]: "framed (eval_layers f table c position layers)"
  by (induction layers) (auto simp: eval_layer_def intro!: framed_intros)

lemma length_fold_rows:
  "length (q4_matvec_rows f b w out st columns first last_row) = length out"
  "length (q8_matvec_rows f b w out st columns first last_row) = length out"
  by (simp_all add: q4_matvec_rows_def q8_matvec_rows_def fold_update_range)

lemma length_coordinator_q8: "length (coordinator_q8 f c w out st rows columns) = length out"
proof (cases c)
  case (Parallel b n)
  have "length (fold (\<lambda>slot out. q8_matvec_rows f b w out st columns (slot_first rows n slot)
      (slot_first rows n (slot + 1))) slots out) = length out" for slots
    by (induction slots arbitrary: out) (simp_all add: length_fold_rows)
  with Parallel show ?thesis by simp
qed (simp add: length_fold_rows)

lemma eval_logits_frame:
  assumes "eval_logits f c (e, logits) = (r, e', logits')"
  shows "frame e e' \<and> length logits' = length logits"
proof -
  let ?m = "bind_act (engine_tensor 289 ID_OUTPUT_NORM NO_LAYER) (\<lambda>(meta, data).
           then_act (upd (\<lambda>s. s\<lparr>sr_norm := inference_rmsnorm f (sr_hidden s) data HIDDEN_WORDS\<rparr>))
           (then_act (check_act ID_OUTPUT_NORM NO_LAYER 289 sr_norm HIDDEN_WORDS)
           (bind_act (engine_tensor 290 ID_LOGITS NO_LAYER) (\<lambda>(meta, weights).
           then_act (stage_q8 f sr_norm HIDDEN_WORDS) (\<lambda>e. (Inr weights, e))))))"
  have "framed ?m" by (auto intro!: framed_intros)
  then have "frame e (snd (?m e))" by (simp add: framed_def)
  then show ?thesis
    using assms unfolding eval_logits_def
    by (cases "?m e") (auto simp: Let_def length_coordinator_q8 split: sum.splits option.splits)
qed

lemma evaluate_inner_frame:
  assumes "evaluate_inner f table c token produce (e, logits) = (r, e', logits')"
  shows "length logits' = length logits \<and> (case r of Inl x \<Rightarrow> frame e e' | Inr u \<Rightarrow> advanced e e')"
proof -
  let ?m = "then_act (embed f token) (eval_layers f table c (en_position e) [0..<LAYERS])"
  have "framed ?m" by (intro framed_intros)
  then have m: "frame e (snd (?m e))" by (simp add: framed_def)
  obtain r1 e1 where run: "?m e = (r1, e1)" by (cases "?m e")
  obtain r2 e2 logits2 where rest: "(if produce then eval_logits f c (e1, logits) else (Inr (), e1, logits)) =
      (r2, e2, logits2)" by (cases "if produce then eval_logits f c (e1, logits) else (Inr (), e1, logits)")
  then have "frame e1 e2 \<and> length logits2 = length logits"
    using eval_logits_frame [of f c e1 logits r2 e2 logits2] by (auto split: if_splits)
  with m run have f2: "frame e e2" "length logits2 = length logits" using frame_trans by auto
  then have "advanced e (e2\<lparr>en_position := en_position e + 1,
                  en_kv_high := max (en_kv_high e2) ((en_position e + 1) * KV_WORDS_PER_POSITION * 4),
                  en_scratch := scratch_zero\<rparr>)"
    by (cases e; cases e2) (simp add: frame_def advanced_def)
  then show ?thesis
    using assms run rest f2 m unfolding evaluate_inner_def Let_def
    by (cases r1; cases r2) (auto split: if_splits)
qed

lemma evaluate_frame:
  assumes "evaluate f table token produce (e, logits) = (r, e', logits')"
  shows "length logits' = length logits \<and> (case r of Inl x \<Rightarrow> frame e e' | Inr u \<Rightarrow> advanced e e')"
  using assms evaluate_inner_frame [of f table _ token produce e logits r e' logits']
  unfolding evaluate_def by (auto split: option.splits)


lemma advanced_fields:
  "advanced e e' \<Longrightarrow> en_model e' = en_model e \<and> en_position e' = en_position e + 1 \<and>
     en_scratch e' = scratch_zero \<and>
     en_reserve e' = en_reserve e \<and> en_emitted e' = en_emitted e \<and> en_selected e' = en_selected e \<and>
     en_state e' = en_state e \<and> en_backend e' = en_backend e \<and> en_dispatcher e' = en_dispatcher e \<and>
     en_prefix e' = en_prefix e"
  by (cases e; cases e') (simp add: advanced_def)

section \<open>The interface as one operation\<close>

datatype operation =
    Prefill "nat list" nat
  | PrefillWithPrefix "nat list" nat nat
  | AppendPrefill "nat list" nat
  | Decode nat
  | DecodeSelected nat
  | Reset
  | ResetToPrefix

fun run_operation ::
  "fpu \<Rightarrow> bytes \<Rightarrow> operation \<Rightarrow> engine \<times> u32 list \<Rightarrow> inference_step reply" where
  "run_operation f table (Prefill prompt reserve) s = prefill f table prompt reserve s"
| "run_operation f table (PrefillWithPrefix prompt n reserve) s =
     prefill_with_prefix f table prompt n reserve s"
| "run_operation f table (AppendPrefill prompt reserve) s = append_prefill f table prompt reserve s"
| "run_operation f table (Decode token) s = decode f table token s"
| "run_operation f table (DecodeSelected token) s = decode_selected f table token s"
| "run_operation f table Reset s =
     (Inr \<lparr>is_position = 0, is_selected_token = 0, is_selected_logit_bits = 0, is_eos = 0\<rparr>,
      reset_state (fst s), snd s)"
| "run_operation f table ResetToPrefix s =
     (case reset_to_prefix (fst s) of (n, e) \<Rightarrow>
        (Inr \<lparr>is_position = n, is_selected_token = 0, is_selected_logit_bits = 0, is_eos = 0\<rparr>,
         e, snd s))"

text \<open>
  The engines a caller can hold: built once, then any operations, each with a logits buffer of the
  caller's choice.
\<close>

inductive reachable :: "fpu \<Rightarrow> bytes \<Rightarrow> engine \<Rightarrow> bool" for f table where
  built: "engine_build model kv kv_len kv_address scratch_len scratch_address b d = Inr e \<Longrightarrow>
     reachable f table e"
| operated: "reachable f table e \<Longrightarrow> reachable f table (fst (snd (run_operation f table oper (e, logits))))"

inductive_cases reachable_cases: "reachable f table e"

section \<open>The invariant\<close>

definition prefix_ok :: "retained_prefix \<Rightarrow> bool" where
  "prefix_ok p \<longleftrightarrow> rp_len p \<le> MAX_TOKENS \<and> length (rp_tokens p) = MAX_TOKENS"

definition engine_ok :: "engine \<Rightarrow> bool" where
  "engine_ok e \<longleftrightarrow>
     en_scratch e = scratch_zero \<and> prefix_ok (en_prefix e) \<and>
     (case en_state e of
        ST_RESET \<Rightarrow> en_position e = rp_len (en_prefix e) \<and> en_reserve e = 0 \<and> en_emitted e = 0 \<and>
          en_selected e = 0
      | ST_FAULTED \<Rightarrow> en_prefix e = prefix_clear \<and> en_position e \<le> CONTEXT_LIMIT
      | st \<Rightarrow> 0 < en_emitted e \<and> en_emitted e \<le> en_reserve e \<and> 0 < en_position e \<and>
          en_position e + (en_reserve e - en_emitted e) < CONTEXT_LIMIT \<and>
          rp_len (en_prefix e) \<le> en_position e \<and> en_selected e < VOCAB_COUNT \<and>
          (st = ST_EOS \<longleftrightarrow> en_selected e = mc_eos (mv_config (en_model e))))"

lemma prefix_clear_ok [simp]: "prefix_ok prefix_clear" "rp_len prefix_clear = 0"
  by (simp_all add: prefix_ok_def prefix_clear_def MAX_TOKENS_def)

lemma retain_prefix_ok: "n \<le> MAX_TOKENS \<Longrightarrow> prefix_ok (retain_prefix prompt n)"
  by (simp add: prefix_ok_def retain_prefix_def prefix_clear_def MAX_TOKENS_def)

lemma rp_len_retain [simp]: "rp_len (retain_prefix prompt n) = n"
  by (simp add: retain_prefix_def)

lemma engine_ok_reset: "engine_ok (reset_state e)"
  by (simp add: engine_ok_def reset_state_def)

lemma argmax_less:
  assumes "logits \<noteq> []"
  shows "inference_argmax logits < length logits"
proof -
  have "fst (fold (argmax_step logits) is s) < length logits"
    if "fst s < length logits" "list_all (\<lambda>i. i < length logits) is" for "is" s
    using that by (induction "is" arbitrary: s) (simp_all add: argmax_step_def)
  moreover have "list_all (\<lambda>i. i < length logits) [1..<length logits]" by (simp add: list_all_iff)
  ultimately show ?thesis using assms unfolding inference_argmax_def by simp
qed

text \<open>What a prompt evaluation leaves, and what publishing a step leaves.\<close>

lemma eval_prompt_cases:
  assumes "eval_prompt f table prompt (e, logits) = (r, e', logits')"
  shows "length logits' = length logits \<and> en_model e' = en_model e \<and>
    (case r of
       Inl x \<Rightarrow> en_state e' = ST_FAULTED \<and> en_scratch e' = scratch_zero \<and> en_prefix e' = prefix_clear \<and>
         logits' = replicate (length logits) 0 \<and> en_position e \<le> en_position e' \<and>
         en_position e' < en_position e + length prompt
     | Inr u \<Rightarrow> en_position e' = en_position e + length prompt \<and> en_reserve e' = en_reserve e \<and>
         en_emitted e' = en_emitted e \<and> en_state e' = en_state e \<and> en_prefix e' = en_prefix e \<and>
         (en_scratch e = scratch_zero \<longrightarrow> en_scratch e' = scratch_zero))"
  using assms
proof (induction prompt arbitrary: e logits)
  case (Cons token rest)
  obtain r1 e1 logits1 where run: "evaluate f table token (rest = []) (e, logits) = (r1, e1, logits1)"
    by (cases "evaluate f table token (rest = []) (e, logits)")
  note step = evaluate_frame [OF run]
  show ?case
  proof (cases r1)
    case (Inl x)
    then show ?thesis
      using step run Cons.prems frame_fields [of e e1] by (auto simp: fail_with_def fault_def)
  next
    case (Inr u)
    then have "eval_prompt f table rest (e1, logits1) = (r, e', logits')" using run Cons.prems by simp
    from Cons.IH [OF this] show ?thesis
      using step Inr advanced_fields [of e e1] by (cases r) auto
  qed
qed auto

lemma publish_cases:
  assumes "publish_step (e, logits) = (r, e', logits')"
  shows "case r of
      Inl x \<Rightarrow> en_state e' = ST_FAULTED \<and> en_scratch e' = scratch_zero \<and> en_prefix e' = prefix_clear \<and>
        en_model e' = en_model e \<and> logits' = replicate (length logits) 0 \<and>
        en_position e' = en_position e
    | Inr step \<Rightarrow> logits' = logits \<and> list_all finite_bits logits \<and>
        is_position step = en_position e \<and> is_selected_token step = inference_argmax logits \<and>
        is_selected_logit_bits step = logits ! inference_argmax logits \<and>
        is_eos step = (if inference_argmax logits = mc_eos (mv_config (en_model e)) then 1 else 0) \<and>
        e' = e\<lparr>en_selected := inference_argmax logits,
           en_state := (if inference_argmax logits = mc_eos (mv_config (en_model e)) then ST_EOS else ST_READY)\<rparr>"
proof (cases "inject_and_check e ID_ARGMAX NO_LAYER 290 logits (length logits)")
  case None
  then have "list_all finite_bits logits"
    by (auto simp: inject_and_check_def find_None_iff list_all_length split: option.splits)
  with None show ?thesis using assms by (auto simp: publish_step_def Let_def)
next
  case (Some x)
  then show ?thesis using assms by (auto simp: publish_step_def fail_with_def fault_def)
qed

lemma logits_error_None [simp]: "logits_error n p = None \<longleftrightarrow> n = LOGIT_WORDS"
  by (simp add: logits_error_def)

lemma check_prompt_Inr:
  "check_prompt e prompt reserve len appending = Inr u \<Longrightarrow>
     0 < reserve \<and> prompt \<noteq> [] \<and> en_position e + length prompt + reserve \<le> CONTEXT_LIMIT \<and>
     len = LOGIT_WORDS"
  by (auto simp: check_prompt_def Let_def bind_result_Inr)

lemma check_decode_Inr:
  "check_decode e token len greedy = Inr u \<Longrightarrow>
     en_state e \<in> {ST_READY, ST_EOS} \<and> en_emitted e < en_reserve e \<and> len = LOGIT_WORDS \<and>
     token < VOCAB_COUNT \<and> (greedy \<longrightarrow> token = en_selected e \<and> en_state e = ST_READY)"
  by (cases "en_state e") (auto simp: check_decode_def bind_result_Inr split: if_splits)

text \<open>A published step of an engine in the middle of its reserve leaves the invariant.\<close>

lemma engine_ok_publish:
  assumes pub: "publish_step (e, logits) = (r, e', logits')" and len: "length logits = LOGIT_WORDS"
    and zero: "en_scratch e = scratch_zero"
    and prefix: "prefix_ok (en_prefix e)" "rp_len (en_prefix e) \<le> en_position e"
    and budget: "0 < en_emitted e" "en_emitted e \<le> en_reserve e" "0 < en_position e"
      "en_position e + (en_reserve e - en_emitted e) < CONTEXT_LIMIT"
  shows "engine_ok e'"
proof -
  have "inference_argmax logits < VOCAB_COUNT"
    using argmax_less [of logits] len by (cases logits) (simp_all add: LOGIT_WORDS_def VOCAB_COUNT_def)
  then show ?thesis
    using publish_cases [OF pub] zero prefix budget
    by (cases r) (auto simp: engine_ok_def)
qed

lemma engine_ok_faulted:
  "en_state e = ST_FAULTED \<Longrightarrow> en_scratch e = scratch_zero \<Longrightarrow>
     en_prefix e = prefix_clear \<Longrightarrow> en_position e \<le> CONTEXT_LIMIT \<Longrightarrow> engine_ok e"
  by (simp add: engine_ok_def)

text \<open>What a prefill does to an engine that holds the invariant, and to its retained prefix.\<close>

lemma prefill_inner_ok:
  assumes run: "prefill_inner f table prompt reserve appending (e, logits) = (r, e', logits')"
    and ok: "engine_ok e" "en_state e \<noteq> ST_FAULTED"
  shows "engine_ok e' \<and> (case r of Inl x \<Rightarrow> True
    | Inr step \<Rightarrow> en_prefix e' = en_prefix e \<and> en_position e' = en_position e + length prompt \<and>
        en_state e' \<in> {ST_READY, ST_EOS})"
proof (cases "check_prompt e prompt reserve (length logits) appending")
  case Inl
  then show ?thesis using run ok by (auto simp: prefill_inner_def)
next
  case (Inr u)
  note checked = check_prompt_Inr [OF Inr]
  let ?e = "e\<lparr>en_reserve := reserve, en_emitted := 0\<rparr>"
  from ok have fine: "en_scratch e = scratch_zero"
    "prefix_ok (en_prefix e)" "rp_len (en_prefix e) \<le> en_position e"
    by (auto simp: engine_ok_def split: inference_state.splits)
  obtain r1 e1 logits1 where ev: "eval_prompt f table prompt (?e, logits) = (r1, e1, logits1)"
    by (cases "eval_prompt f table prompt (?e, logits)")
  note evaluated = eval_prompt_cases [OF ev]
  show ?thesis
  proof (cases r1)
    case (Inl x)
    then show ?thesis
      using run evaluated ev \<open>check_prompt _ _ _ _ _ = _\<close> fine checked
      by (auto simp: prefill_inner_def intro: engine_ok_faulted)
  next
    case (Inr v)
    let ?e1 = "e1\<lparr>en_emitted := 1\<rparr>"
    from run ev Inr have pub: "publish_step (?e1, logits1) = (r, e', logits')"
      using \<open>check_prompt _ _ _ _ _ = _\<close> by (simp add: prefill_inner_def)
    have "engine_ok e'"
      by (rule engine_ok_publish [OF pub]) (use evaluated Inr checked fine in auto)
    then show ?thesis using publish_cases [OF pub] evaluated Inr by (cases r) auto
  qed
qed

lemma prefill_ok:
  assumes "prefill f table prompt reserve (e, logits) = (r, e', logits')" "engine_ok e"
  shows "engine_ok e' \<and> (case r of Inl x \<Rightarrow> True
    | Inr step \<Rightarrow> en_position e' = en_position e + length prompt \<and> en_state e' \<in> {ST_READY, ST_EOS} \<and>
        en_prefix e' = en_prefix e)"
  using assms prefill_inner_ok [of f table prompt reserve False e logits r e' logits']
  by (cases r) (auto simp: prefill_def split: if_splits)

lemma engine_ok_prefix:
  "engine_ok e \<Longrightarrow> en_state e \<in> {ST_READY, ST_EOS} \<Longrightarrow> prefix_ok p \<Longrightarrow> rp_len p \<le> en_position e \<Longrightarrow>
     engine_ok (e\<lparr>en_prefix := p\<rparr>)"
  by (auto simp: engine_ok_def)

lemma prefill_fresh_ok:
  assumes "prefill_fresh f table prompt n reserve (e, logits) = (r, e', logits')" "engine_ok e"
    "n \<le> MAX_TOKENS" "n < length prompt"
  shows "engine_ok e'"
proof -
  obtain r1 e1 logits1 where run: "prefill f table prompt reserve (e, logits) = (r1, e1, logits1)"
    by (cases "prefill f table prompt reserve (e, logits)")
  with assms prefill_ok [OF run assms(2)] show ?thesis
    by (cases r1) (auto simp: prefill_fresh_def intro: engine_ok_prefix retain_prefix_ok)
qed

lemma prefill_with_prefix_ok:
  assumes "prefill_with_prefix f table prompt n reserve (e, logits) = (r, e', logits')" "engine_ok e"
  shows "engine_ok e'"
proof -
  note reset = engine_ok_reset [of e]
  show ?thesis
    using assms reset
      prefill_inner_ok [of f table "drop n prompt" reserve True e logits r e' logits']
      prefill_fresh_ok [of f table prompt n reserve e logits r e' logits']
      prefill_fresh_ok [of f table prompt n reserve "reset_state e" logits r e' logits']
    by (cases r) (auto simp: prefill_with_prefix_def prefix_matches_def split: if_splits)
qed

lemma decode_inner_ok:
  assumes run: "decode_inner f table token greedy (e, logits) = (r, e', logits')" and ok: "engine_ok e"
  shows "engine_ok e'"
proof (cases "check_decode e token (length logits) greedy")
  case Inl
  then show ?thesis using run ok by (auto simp: decode_inner_def)
next
  case (Inr u)
  note checked = check_decode_Inr [OF Inr]
  from ok checked have fine: "en_scratch e = scratch_zero"
    "prefix_ok (en_prefix e)" "rp_len (en_prefix e) \<le> en_position e" "0 < en_emitted e"
    "en_position e + (en_reserve e - en_emitted e) < CONTEXT_LIMIT"
    by (auto simp: engine_ok_def)
  obtain r1 e1 logits1 where ev: "evaluate f table token True (e, logits) = (r1, e1, logits1)"
    by (cases "evaluate f table token True (e, logits)")
  note evaluated = evaluate_frame [OF ev]
  show ?thesis
  proof (cases r1)
    case (Inl x)
    then show ?thesis
      using run evaluated ev \<open>check_decode _ _ _ _ = _\<close> fine frame_fields [of e e1]
      by (auto simp: decode_inner_def fail_with_def fault_def intro: engine_ok_faulted)
  next
    case (Inr v)
    from run ev Inr have pub: "publish_step (e1\<lparr>en_emitted := en_emitted e1 + 1\<rparr>, logits1) = (r, e', logits')"
      using \<open>check_decode _ _ _ _ = _\<close> by (simp add: decode_inner_def)
    show ?thesis
      by (rule engine_ok_publish [OF pub])
        (use evaluated Inr checked fine advanced_fields [of e e1] in auto)
  qed
qed

lemma engine_ok_built:
  "engine_build model kv kv_len kv_address scratch_len scratch_address b d = Inr e \<Longrightarrow>
     engine_ok e"
  by (auto simp: engine_build_def engine_ok_def split: option.splits)

lemma append_prefill_ok:
  assumes "append_prefill f table prompt reserve (e, logits) = (r, e', logits')" "engine_ok e"
  shows "engine_ok e'"
  using assms prefill_inner_ok [of f table prompt reserve True e logits r e' logits']
  by (auto simp: append_prefill_def split: inference_state.splits)

lemma reset_to_prefix_ok: "engine_ok e \<Longrightarrow> engine_ok (snd (reset_to_prefix e))"
  by (auto simp: reset_to_prefix_def engine_ok_def Let_def reset_state_def split: inference_state.splits)

lemma run_operation_ok: "engine_ok e \<Longrightarrow> engine_ok (fst (snd (run_operation f table oper (e, logits))))"
proof (cases oper)
  case Reset
  assume "engine_ok e"
  then show ?thesis using Reset engine_ok_reset [of e] by (simp add: engine_ok_def)
next
  case ResetToPrefix
  assume "engine_ok e"
  then show ?thesis using ResetToPrefix reset_to_prefix_ok [of e] by (auto split: prod.splits)
qed (use prefill_ok prefill_with_prefix_ok append_prefill_ok decode_inner_ok in
    \<open>auto simp: decode_def decode_selected_def, (metis prod.exhaust_sel)+\<close>)

lemma reachable_ok: "reachable f table e \<Longrightarrow> engine_ok e"
  by (induction rule: reachable.induct) (auto intro: engine_ok_built run_operation_ok)

section \<open>What a failing operation leaves\<close>

definition faulted :: "engine \<Rightarrow> u32 list \<Rightarrow> nat \<Rightarrow> bool" where
  "faulted e logits words \<longleftrightarrow> en_state e = ST_FAULTED \<and> en_scratch e = scratch_zero \<and>
     en_prefix e = prefix_clear \<and> logits = replicate words 0"

lemma publish_failed:
  "publish_step (e, logits) = (Inl x, e', logits') \<Longrightarrow> faulted e' logits' (length logits)"
  using publish_cases [of e logits "Inl x" e' logits'] by (simp add: faulted_def)

lemma prefill_inner_failed:
  assumes "prefill_inner f table prompt reserve appending (e, logits) = (Inl x, e', logits')"
  shows "(e' = e \<and> logits' = logits) \<or> faulted e' logits' (length logits)"
proof (cases "check_prompt e prompt reserve (length logits) appending")
  case (Inr u)
  let ?e = "e\<lparr>en_reserve := reserve, en_emitted := 0\<rparr>"
  obtain r1 e1 logits1 where ev: "eval_prompt f table prompt (?e, logits) = (r1, e1, logits1)"
    by (cases "eval_prompt f table prompt (?e, logits)")
  show ?thesis
    using assms ev Inr eval_prompt_cases [OF ev] publish_failed [of "e1\<lparr>en_emitted := 1\<rparr>" logits1 x e' logits']
    by (cases r1) (auto simp: prefill_inner_def faulted_def)
qed (use assms in \<open>auto simp: prefill_inner_def\<close>)

lemma prefill_failed:
  "prefill f table prompt reserve (e, logits) = (Inl x, e', logits') \<Longrightarrow>
     (e' = e \<and> logits' = logits) \<or> faulted e' logits' (length logits)"
  using prefill_inner_failed [of f table prompt reserve False e logits x e' logits']
  by (auto simp: prefill_def split: if_splits)

lemma prefill_fresh_failed:
  "prefill_fresh f table prompt n reserve (e, logits) = (Inl x, e', logits') \<Longrightarrow>
     (e' = e \<and> logits' = logits) \<or> faulted e' logits' (length logits)"
  using prefill_failed [of f table prompt reserve e logits x e' logits']
  by (auto simp: prefill_fresh_def split: prod.splits sum.splits)

lemma decode_failed:
  assumes "decode_inner f table token greedy (e, logits) = (Inl x, e', logits')"
  shows "(e' = e \<and> logits' = logits) \<or> faulted e' logits' (length logits)"
proof (cases "check_decode e token (length logits) greedy")
  case (Inr u)
  obtain r1 e1 logits1 where ev: "evaluate f table token True (e, logits) = (r1, e1, logits1)"
    by (cases "evaluate f table token True (e, logits)")
  show ?thesis
    using assms ev Inr evaluate_frame [OF ev]
      publish_failed [of "e1\<lparr>en_emitted := en_emitted e1 + 1\<rparr>" logits1 x e' logits']
    by (cases r1) (auto simp: decode_inner_def fail_with_def fault_def faulted_def)
qed (use assms in \<open>auto simp: decode_inner_def\<close>)

lemma operation_failed:
  assumes "run_operation f table oper (e, logits) = (Inl x, e', logits')"
  shows "(e' = e \<and> logits' = logits) \<or> faulted e' logits' (length logits) \<or>
    (e' = reset_state e \<and> logits' = logits \<and> (\<exists>prompt n reserve. oper = PrefillWithPrefix prompt n reserve))"
proof (cases oper)
  case (PrefillWithPrefix prompt n reserve)
  then show ?thesis
    using assms prefill_inner_failed [of f table "drop n prompt" reserve True e logits x e' logits']
      prefill_fresh_failed [of f table prompt n reserve e logits x e' logits']
      prefill_fresh_failed [of f table prompt n reserve "reset_state e" logits x e' logits']
    by (auto simp: prefill_with_prefix_def split: if_splits)
next
  case (AppendPrefill prompt reserve)
  then show ?thesis
    using assms prefill_inner_failed [of f table prompt reserve True e logits x e' logits']
    by (auto simp: append_prefill_def split: inference_state.splits)
qed (use assms in \<open>auto simp: decode_def decode_selected_def split: prod.splits
    dest: prefill_failed decode_failed\<close>)

text \<open>A faulted engine answers no operation but a reset.\<close>

lemma faulted_refuses:
  assumes "en_state e = ST_FAULTED" "en_prefix e = prefix_clear"
    "run_operation f table oper (e, logits) = (r, e', logits')"
  shows "logits' = logits \<and> (oper \<in> {Reset, ResetToPrefix} \<and> e' = reset_state e \<or>
     (\<exists>x. r = Inl x) \<and> e' \<in> {e, reset_state e})"
  using assms by (cases oper)
    (auto simp: prefill_def append_prefill_def decode_def decode_selected_def decode_inner_def
      check_decode_def prefill_with_prefix_def prefill_fresh_def reset_to_prefix_def reset_state_def Let_def
      split: if_splits)

section \<open>Properties\<close>

text \<open>The engine and the logits after a sequence of operations.\<close>

fun after :: "fpu \<Rightarrow> bytes \<Rightarrow> operation list \<Rightarrow> engine \<times> u32 list \<Rightarrow> engine \<times> u32 list" where
  "after f table [] s = s"
| "after f table (oper # rest) s = after f table rest (snd (run_operation f table oper s))"

lemma after_reachable:
  "reachable f table e \<Longrightarrow> reachable f table (fst (after f table opers (e, logits)))"
proof (induction opers arbitrary: e logits)
  case (Cons oper rest)
  show ?case
    using Cons.IH [OF reachable.operated [OF Cons.prems, of oper logits]]
    by (cases "snd (run_operation f table oper (e, logits))") simp
qed simp

text \<open>
  C13: The engine's bookkeeping is an invariant of its interface: after any operations, failing ones
  included, on a built engine the scratch is zero and the retained prefix fits its table; an engine
  in RESET stands at the end of its retained prefix with its counters zero; one in READY or EOS has
  emitted between one step and its whole reserve, has room in the context for the steps it still
  owes, and is in EOS exactly when the last selected token is the end of sequence; a faulted engine
  has forgotten its prefix.
\<close>

theorem engine_bookkeeping:
  "case engine_build model kv kv_len kv_address scratch_len scratch_address b d of
     Inl x \<Rightarrow> True
   | Inr e \<Rightarrow> engine_ok (fst (after f table opers (e, logits)))"
proof (cases "engine_build model kv kv_len kv_address scratch_len scratch_address b d")
  case (Inr e)
  then show ?thesis using reachable_ok [OF after_reachable [OF reachable.built [OF Inr]]] by simp
qed simp

text \<open>
  C14: A failing operation leaves nothing half done. When an operation of the interface returns an
  error, the engine and the logits are what they were; or the engine is faulted, with zero scratch,
  no retained prefix and zero logits; or, for a request with a prefix, it has been reset.
\<close>

theorem failed_operation_contained:
  "case run_operation f table oper (e, logits) of
     (Inl x, e', logits') \<Rightarrow>
       (e' = e \<and> logits' = logits) \<or> faulted e' logits' (length logits) \<or>
       (e' = reset_state e \<and> logits' = logits \<and>
          (case oper of PrefillWithPrefix prompt n reserve \<Rightarrow> True | _ \<Rightarrow> False))
   | (Inr step, e', logits') \<Rightarrow> True"
proof -
  obtain r e' l where run: "run_operation f table oper (e, logits) = (r, e', l)"
    by (cases "run_operation f table oper (e, logits)")
  show ?thesis
    using run operation_failed [of f table oper e logits _ e' l] by (cases r) (auto split: operation.split)
qed

text \<open>
  A faulted engine answers nothing but a reset: every other operation returns an error and
  leaves the engine faulted or, for a malformed request with a prefix, reset.
\<close>

theorem faulted_engine_refuses:
  "if en_state e = ST_FAULTED \<and> en_prefix e = prefix_clear
   then (case run_operation f table oper (e, logits) of
       (Inl x, e', logits') \<Rightarrow> logits' = logits \<and> e' \<in> {e, reset_state e}
     | (Inr step, e', logits') \<Rightarrow> logits' = logits \<and> oper \<in> {Reset, ResetToPrefix} \<and> e' = reset_state e)
   else True"
proof -
  obtain r e' l where run: "run_operation f table oper (e, logits) = (r, e', l)"
    by (cases "run_operation f table oper (e, logits)")
  show ?thesis using faulted_refuses [OF _ _ run] run by (cases r) auto
qed

end
