(* ===== verification/PB_Replay.thy ===== *)
theory PB_Replay
  imports PB_Engine
begin

text \<open>
  What the key-value store holds: its words are a bijective image of the cells, the words behind a
  position never matter, and an engine is determined by the tokens it has evaluated. From this: a
  prompt continued behind a retained prefix gives what the same prompt gives evaluated afresh.
\<close>

section \<open>The words of the store\<close>

type_synonym kv_cell = "nat \<times> nat \<times> nat \<times> nat \<times> nat"

definition kv_cell_ok :: "kv_cell \<Rightarrow> bool" where
  "kv_cell_ok x = (case x of (layer, kind, position, head, component) \<Rightarrow>
     layer < LAYERS \<and> kind < 2 \<and> position < CONTEXT_LIMIT \<and> head < KV_HEADS \<and> component < HEAD_WORDS)"

text \<open>The cell a word belongs to, the inverse of \<open>kv_word\<close>.\<close>

definition kv_cell_of :: "nat \<Rightarrow> kv_cell" where
  "kv_cell_of w =
     (let layer = w div KV_LAYER_WORDS; r = w mod KV_LAYER_WORDS
      in if r < KV_VALUE_WORDS
         then let lane = r mod KV_TILE; r = r div KV_TILE;
                  component = r mod HEAD_WORDS; r = r div HEAD_WORDS;
                  tile = r mod (CONTEXT_LIMIT div KV_TILE); head = r div (CONTEXT_LIMIT div KV_TILE)
              in (layer, 0, tile * KV_TILE + lane, head, component)
         else let r = r - KV_VALUE_WORDS;
                  component = r mod HEAD_WORDS; r = r div HEAD_WORDS
              in (layer, 1, r mod CONTEXT_LIMIT, r div CONTEXT_LIMIT, component))"

lemmas kv_sizes = KV_LAYER_WORDS_def KV_VALUE_WORDS_def KV_HEADS_def HEAD_WORDS_def KV_TILE_def
  CONTEXT_LIMIT_def LAYERS_def KV_BYTES_def

lemma radix:
  fixes x y b :: nat
  assumes "y < b"
  shows "(x * b + y) div b = x" "(x * b + y) mod b = y"
  using assms by simp_all

lemma radix_less:
  fixes x y a b :: nat
  assumes "x < a" "y < b"
  shows "x * b + y < a * b"
proof -
  have "x * b + y < Suc x * b" using assms(2) by simp
  also have "\<dots> \<le> a * b" using assms(1) by (intro mult_right_mono) simp_all
  finally show ?thesis .
qed

lemma kv_cell_of_word:
  assumes "layer < 24" "kind < 2" "position < 32768" "head < 2" "component < 64"
  shows "kv_cell_of (kv_word layer kind position head component) = (layer, kind, position, head, component)
    \<and> kv_word layer kind position head component < 24 * 8388608"
proof (cases "kind = 0")
  case True
  define r1 r2 r3 where "r1 = head * 8192 + position div 4" and "r2 = r1 * 64 + component"
    and "r3 = r2 * 4 + position mod 4"
  have tile: "position div 4 < 8192" using assms(3) by simp
  have r1: "r1 < 2 * 8192" unfolding r1_def by (rule radix_less [OF assms(4) tile])
  have r2: "r2 < 2 * 8192 * 64" unfolding r2_def by (rule radix_less [OF r1 assms(5)])
  have r3: "r3 < 2 * 8192 * 64 * 4" unfolding r3_def by (rule radix_less [OF r2]) simp
  have r3': "r3 < 8388608" using r3 by simp
  have word: "kv_word layer kind position head component = layer * 8388608 + r3"
    using True by (simp add: kv_word_def kv_sizes r1_def r2_def r3_def)
  have "r3 mod 4 = position mod 4" "r3 div 4 = r2" unfolding r3_def by (rule radix; simp)+
  moreover have "r2 mod 64 = component" "r2 div 64 = r1" unfolding r2_def by (rule radix, rule assms(5))+
  moreover have "r1 mod 8192 = position div 4" "r1 div 8192 = head"
    unfolding r1_def by (rule radix, rule tile)+
  ultimately show ?thesis
    using word r3 radix [OF r3', of layer] radix_less [OF assms(1) r3'] True
    by (simp add: kv_cell_of_def Let_def kv_sizes)
next
  case False
  define r1 r2 where "r1 = head * 32768 + position" and "r2 = r1 * 64 + component"
  have r1: "r1 < 2 * 32768" unfolding r1_def by (rule radix_less [OF assms(4,3)])
  have r2: "r2 < 2 * 32768 * 64" unfolding r2_def by (rule radix_less [OF r1 assms(5)])
  have r2': "4194304 + r2 < 8388608" using r2 by simp
  have word: "kv_word layer kind position head component = layer * 8388608 + (4194304 + r2)"
    using False by (simp add: kv_word_def kv_sizes r1_def r2_def)
  have "r2 mod 64 = component" "r2 div 64 = r1" unfolding r2_def by (rule radix, rule assms(5))+
  moreover have "r1 mod 32768 = position" "r1 div 32768 = head"
    unfolding r1_def by (rule radix, rule assms(3))+
  ultimately show ?thesis
    using word r2 radix [OF r2', of layer] radix_less [OF assms(1) r2'] False assms(2)
    by (simp add: kv_cell_of_def Let_def kv_sizes)
qed

lemma kv_word_of_cell:
  assumes "w < 24 * 8388608"
  shows "kv_cell_ok (kv_cell_of w) \<and>
    (case kv_cell_of w of (layer, kind, position, head, component) \<Rightarrow>
       kv_word layer kind position head component = w)"
proof -
  define r where "r = w mod 8388608"
  have w: "w = w div 8388608 * 8388608 + r" "w div 8388608 < 24" "r < 8388608"
    using assms unfolding r_def by (simp_all add: less_mult_imp_div_less)
  show ?thesis
  proof (cases "r < 4194304")
    case True
    define q where "q = r div 4"
    have q: "((q div 64 div 8192 * 8192 + q div 64 mod 8192) * 64 + q mod 64) * 4 + r mod 4 = r"
      unfolding div_mult_mod_eq unfolding q_def by simp
    have head: "q div 64 div 8192 < 2" using True by (simp add: q_def div_mult2_eq [symmetric] less_mult_imp_div_less)
    have "kv_cell_of w = (w div 8388608, 0, q div 64 mod 8192 * 4 + r mod 4, q div 64 div 8192, q mod 64)"
      using True by (simp add: kv_cell_of_def Let_def kv_sizes q_def r_def)
    moreover have "q div 64 mod 8192 * 4 + r mod 4 < 8192 * 4"
      by (rule radix_less) simp_all
    moreover have "(q div 64 mod 8192 * 4 + r mod 4) div 4 = q div 64 mod 8192"
      "(q div 64 mod 8192 * 4 + r mod 4) mod 4 = r mod 4" by (rule radix; simp)+
    moreover from this have "kv_word (w div 8388608) 0 (q div 64 mod 8192 * 4 + r mod 4) (q div 64 div 8192)
        (q mod 64) = w div 8388608 * 8388608 +
          (((q div 64 div 8192 * 8192 + q div 64 mod 8192) * 64 + q mod 64) * 4 + r mod 4)"
      by (simp add: kv_word_def kv_sizes)
    note this [unfolded q]
    ultimately show ?thesis
      using w head by (simp add: kv_cell_ok_def kv_sizes)
  next
    case False
    define q where "q = r - 4194304"
    have q: "4194304 + ((q div 64 div 32768 * 32768 + q div 64 mod 32768) * 64 + q mod 64) = r"
      unfolding div_mult_mod_eq unfolding q_def using False by simp
    have head: "q div 64 div 32768 < 2"
      using w(3) by (simp add: q_def div_mult2_eq [symmetric] less_mult_imp_div_less)
    have "kv_cell_of w = (w div 8388608, 1, q div 64 mod 32768, q div 64 div 32768, q mod 64)"
      using False by (simp add: kv_cell_of_def Let_def kv_sizes q_def r_def)
    moreover have "kv_word (w div 8388608) 1 (q div 64 mod 32768) (q div 64 div 32768) (q mod 64) =
        w div 8388608 * 8388608 +
          (4194304 + ((q div 64 div 32768 * 32768 + q div 64 mod 32768) * 64 + q mod 64))"
      by (simp add: kv_word_def kv_sizes)
    note this [unfolded q]
    ultimately show ?thesis
      using w head by (simp add: kv_cell_ok_def kv_sizes)
  qed
qed

lemma kv_word_bij:
  "bij_betw (\<lambda>(layer, kind, position, head, component). kv_word layer kind position head component)
     {x. kv_cell_ok x} {..<KV_BYTES div 4}"
proof (rule bij_betw_byWitness [where f' = kv_cell_of])
  show "\<forall>x\<in>{x. kv_cell_ok x}. kv_cell_of ((\<lambda>(layer, kind, position, head, component).
      kv_word layer kind position head component) x) = x"
    using kv_cell_of_word by (auto simp: kv_cell_ok_def kv_sizes)
  show "\<forall>w\<in>{..<KV_BYTES div 4}. (\<lambda>(layer, kind, position, head, component).
      kv_word layer kind position head component) (kv_cell_of w) = w"
    using kv_word_of_cell by (fastforce simp: kv_sizes split: prod.splits)
  show "(\<lambda>(layer, kind, position, head, component). kv_word layer kind position head component) `
      {x. kv_cell_ok x} \<subseteq> {..<KV_BYTES div 4}"
    using kv_cell_of_word by (auto simp: kv_cell_ok_def kv_sizes)
  show "kv_cell_of ` {..<KV_BYTES div 4} \<subseteq> {x. kv_cell_ok x}"
    using kv_word_of_cell by (auto simp: kv_sizes)
qed

section \<open>Two engines in step\<close>

text \<open>The regions whose length the kernels depend on.\<close>

definition wf_scratch :: "scratch \<Rightarrow> bool" where
  "wf_scratch s \<longleftrightarrow> length (sr_attention s) = HIDDEN_WORDS \<and> length (sr_scores s) = CONTEXT_LIMIT \<and>
     length (sr_q8 s) = Q8_STAGING_BYTES"

text \<open>
  Two engines with the same scratch and stores that agree on the positions before \<open>p\<close>, and on
  position \<open>p\<close> itself in the first \<open>n\<close> layers.
\<close>

definition ksim :: "model_view \<Rightarrow> nat \<Rightarrow> nat \<Rightarrow> engine \<Rightarrow> engine \<Rightarrow> bool" where
  "ksim v n p e e' \<longleftrightarrow>
     en_model e = v \<and> en_model e' = v \<and> en_scratch e' = en_scratch e \<and> en_position e' = en_position e \<and>
     wf_scratch (en_scratch e) \<and>
     list_all (\<lambda>layer. kv_agree layer (if layer < n then p + 1 else p) (en_kv e) (en_kv e')) [0..<LAYERS]"

lemma ksim_kv:
  "ksim v n p e e' \<Longrightarrow> layer < LAYERS \<Longrightarrow>
     kv_agree layer (if layer < n then p + 1 else p) (en_kv e) (en_kv e')"
  by (simp add: ksim_def list_all_iff)

definition same_outcome ::
  "model_view \<Rightarrow> nat \<Rightarrow> nat \<Rightarrow> (inference_error + 'a) \<times> engine \<Rightarrow> (inference_error + 'a) \<times> engine \<Rightarrow> bool" where
  "same_outcome v n p o1 o2 \<longleftrightarrow> fst o2 = fst o1 \<and>
     (case fst o1 of Inl x \<Rightarrow> True | Inr a \<Rightarrow> ksim v n p (snd o1) (snd o2))"

definition in_step :: "model_view \<Rightarrow> nat \<Rightarrow> nat \<Rightarrow> nat \<Rightarrow> 'a act \<Rightarrow> 'a act \<Rightarrow> bool" where
  "in_step v p n n' m m' \<longleftrightarrow> (\<forall>e e'. ksim v n p e e' \<longrightarrow> same_outcome v n' p (m e) (m' e'))"

named_theorems in_step_intros "steps that keep two engines in step"

lemma in_stepI:
  "(\<And>e e'. ksim v n p e e' \<Longrightarrow> same_outcome v n' p (m e) (m' e')) \<Longrightarrow> in_step v p n n' m m'"
  by (simp add: in_step_def)

lemma in_stepD: "in_step v p n n' m m' \<Longrightarrow> ksim v n p e e' \<Longrightarrow> same_outcome v n' p (m e) (m' e')"
  by (simp add: in_step_def)

lemma in_step_bind:
  assumes "in_step v p n k m m'" "\<And>a. in_step v p k n' (g a) (g' a)"
  shows "in_step v p n n' (bind_act m g) (bind_act m' g')"
proof (rule in_stepI)
  fix e e' assume "ksim v n p e e'"
  from in_stepD [OF assms(1) this]
  show "same_outcome v n' p (bind_act m g e) (bind_act m' g' e')"
    by (cases "m e"; cases "m' e'"; cases "fst (m e)")
      (simp_all add: bind_act_def same_outcome_def in_stepD [OF assms(2), unfolded same_outcome_def])
qed

lemma in_step_then:
  assumes "in_step v p n k m m'" "in_step v p k n' g g'"
  shows "in_step v p n n' (then_act m g) (then_act m' g')"
  unfolding then_act_def by (rule in_step_bind [OF assms])

text \<open>The two computations of a bind see the same tensor.\<close>

lemma in_step_layer_tensor:
  assumes "\<And>meta data. tensor_for v layer role = Inr (meta, data) \<Longrightarrow>
      in_step v p n n' (g (meta, data)) (g' (meta, data))"
  shows "in_step v p n n' (bind_act (layer_tensor layer role domain) g)
    (bind_act (layer_tensor layer role domain) g')"
proof (rule in_stepI)
  fix e e' assume sim: "ksim v n p e e'"
  then have "en_model e = v" "en_model e' = v" "en_position e' = en_position e"
    by (simp_all add: ksim_def)
  then show "same_outcome v n' p (bind_act (layer_tensor layer role domain) g e)
      (bind_act (layer_tensor layer role domain) g' e')"
    using in_stepD [OF assms sim]
    by (cases "tensor_for v layer role") (auto simp: bind_act_def layer_tensor_def same_outcome_def)
qed

lemma in_step_engine_tensor:
  assumes "\<And>meta data. view_tensor v tid = Inr (meta, data) \<Longrightarrow>
      in_step v p n n' (g (meta, data)) (g' (meta, data))"
  shows "in_step v p n n' (bind_act (engine_tensor tid domain layer) g)
    (bind_act (engine_tensor tid domain layer) g')"
proof (rule in_stepI)
  fix e e' assume sim: "ksim v n p e e'"
  then have "en_model e = v" "en_model e' = v" "en_position e' = en_position e"
    by (simp_all add: ksim_def)
  then show "same_outcome v n' p (bind_act (engine_tensor tid domain layer) g e)
      (bind_act (engine_tensor tid domain layer) g' e')"
    using in_stepD [OF assms sim]
    by (cases "view_tensor v tid") (auto simp: bind_act_def engine_tensor_def same_outcome_def)
qed

text \<open>A step on the scratch alone: it may use that the scratch is well formed.\<close>

lemma in_step_upd:
  assumes "\<And>s. wf_scratch s \<Longrightarrow> g' s = g s \<and> wf_scratch (g s)"
  shows "in_step v p n n (upd g) (upd g')"
  by (rule in_stepI) (use assms in \<open>auto simp: upd_def ksim_def same_outcome_def\<close>)

lemma length_prepare_q8:
  assumes "columns \<le> 4864"
  shows "length (inference_prepare_q8 f input columns) = Q8_STAGING_BYTES"
proof -
  have block: "length (prepare_block f vs) = length vs + 2" for vs
    by (simp add: prepare_block_def Let_def)
  have "length (concat (map (\<lambda>i. prepare_block f (slice input (i * 32) (i * 32 + 32))) [0..<n])) \<le> n * 34" for n
    by (induction n) (simp_all add: block length_slice_min)
  from order_trans [OF this [of "columns div 32"], of Q8_STAGING_BYTES]
  show ?thesis using assms by (simp add: inference_prepare_q8_def Q8_STAGING_BYTES_def)
qed

lemma in_step_basic [in_step_intros]:
  "in_step v p n n (raise_high_water k) (raise_high_water k)"
  "in_step v p n n (\<lambda>e. (Inr a, e)) (\<lambda>e. (Inr a, e))"
  "in_step v p n n save_residual save_residual"
  "in_step v p n n (check_act domain layer tid sel words) (check_act domain layer tid sel words)"
  "columns \<le> 4864 \<Longrightarrow> in_step v p n n (stage_q8 f sel columns) (stage_q8 f sel columns)"
proof -
  show "in_step v p n n (raise_high_water k) (raise_high_water k)"
    by (rule in_stepI) (auto simp: raise_high_water_def ksim_def same_outcome_def)
  show "in_step v p n n (\<lambda>e. (Inr a, e)) (\<lambda>e. (Inr a, e))" by (rule in_stepI) (simp add: same_outcome_def)
  show "in_step v p n n save_residual save_residual"
    unfolding save_residual_def by (rule in_step_upd) (simp add: wf_scratch_def)
  show "in_step v p n n (check_act domain layer tid sel words) (check_act domain layer tid sel words)"
    by (rule in_stepI) (auto simp: check_act_def ksim_def inject_and_check_def same_outcome_def split: option.splits)
  show "in_step v p n n (stage_q8 f sel columns) (stage_q8 f sel columns)" if "columns \<le> 4864"
    unfolding stage_q8_def by (rule in_step_upd) (simp add: wf_scratch_def length_prepare_q8 that)
qed

section \<open>Writing a position\<close>

lemma store_rows_agree:
  assumes "w \<in> snd ` set rows \<or> kv w = kv' w"
  shows "store_rows values rows kv w = store_rows values rows kv' w"
  using assms unfolding store_rows_def
  by (induction rows arbitrary: kv kv') (auto split: prod.splits)

lemma store_rows_other: "w \<notin> snd ` set rows \<Longrightarrow> store_rows values rows kv w = kv w"
  unfolding store_rows_def by (induction rows arbitrary: kv) (auto split: prod.splits)

lemma kv_rows_mem:
  "w \<in> snd ` set (kv_rows layer kind position) \<longleftrightarrow>
     (\<exists>h < KV_HEADS. \<exists>c < HEAD_WORDS. w = kv_word layer kind position h c)"
  by (force simp: kv_rows_def image_iff)

lemma in_step_write_kv:
  "in_step v p n (Suc n) (write_kv n p) (write_kv n p)"
proof (rule in_stepI)
  fix e e' assume sim: "ksim v n p e e'"
  let ?g = "\<lambda>e. store_rows (sr_v (en_scratch e)) (kv_rows n 1 p)
            (store_rows (sr_k (en_scratch e)) (kv_rows n 0 p) (en_kv e))"
  have "kv_agree layer (if layer < Suc n then p + 1 else p) (?g e) (?g e')" if "layer < LAYERS" for layer
  proof -
    have old: "kv_agree layer (if layer < n then p + 1 else p) (en_kv e) (en_kv e')"
      by (rule ksim_kv [OF sim that])
    show ?thesis
      unfolding kv_agree_def
    proof (intro allI impI)
      fix kind q h c :: nat
      assume c: "kind < 2" "q < (if layer < Suc n then p + 1 else p)" "h < KV_HEADS" "c < HEAD_WORDS"
      let ?w = "kv_word layer kind q h c"
      have scratch: "en_scratch e' = en_scratch e" using sim by (simp add: ksim_def)
      have "?w \<in> snd ` set (kv_rows n 1 p) \<or> ?w \<in> snd ` set (kv_rows n 0 p) \<or> en_kv e ?w = en_kv e' ?w"
      proof (cases "layer = n \<and> q = p")
        case True
        moreover have "kind = 0 \<or> kind = 1" using c(1) by auto
        ultimately show ?thesis using c(3,4) by (auto simp: kv_rows_mem)
      next
        case False
        then have "q < (if layer < n then p + 1 else p)" using c(2) by (auto split: if_splits)
        then show ?thesis using old c unfolding kv_agree_def by blast
      qed
      then show "?g e ?w = ?g e' ?w"
        unfolding scratch by (blast intro: store_rows_agree)
    qed
  qed
  then show "same_outcome v (Suc n) p (write_kv n p e) (write_kv n p e')"
    using sim by (auto simp: write_kv_def Let_def same_outcome_def ksim_def list_all_iff)
qed

lemma in_step_attend:
  assumes "n < LAYERS" "p < CONTEXT_LIMIT"
  shows "in_step v p (Suc n) (Suc n) (attend f n p) (attend f n p)"
proof (rule in_stepI)
  fix e e' assume sim: "ksim v (Suc n) p e e'"
  have len: "length (sr_attention (en_scratch e)) = 896" "length (sr_scores (en_scratch e)) = 32768"
    using sim by (simp_all add: ksim_def wf_scratch_def HIDDEN_WORDS_def CONTEXT_LIMIT_def)
  have p: "p < 32768" using assms(2) by (simp add: CONTEXT_LIMIT_def)
  have agree: "kv_agree n (p + 1) (en_kv e) (en_kv e')"
    using ksim_kv [OF sim assms(1)] by simp
  note same = attention_store [OF p len agree, of f "en_backend e" "sr_q (en_scratch e)" "en_backend e'"]
  note lens = attention_backend(2,3) [OF p len, of f "en_backend e'" "sr_q (en_scratch e)" "en_kv e'" n]
  show "same_outcome v (Suc n) p (attend f n p e) (attend f n p e')"
    using sim same lens
    by (cases "inference_attention f (en_backend e') (sr_q (en_scratch e)) (en_kv e')
        (sr_attention (en_scratch e)) (sr_scores (en_scratch e)) n p (softmax_span p)")
      (auto simp: attend_def Let_def same_outcome_def ksim_def wf_scratch_def HIDDEN_WORDS_def
        CONTEXT_LIMIT_def)
qed

section \<open>A token evaluated by both\<close>

text \<open>The weight matrices of a layer: role, rows and columns.\<close>

definition WEIGHTS :: "(nat \<times> nat \<times> nat) list" where
  "WEIGHTS = [(19, 896, 896), (16, 128, 896), (21, 128, 896), (17, 896, 896), (12, 4864, 896),
     (13, 4864, 896), (11, 896, 4864)]"

text \<open>Two coordinators that compute the same products with the weights of a model.\<close>

definition same_products :: "fpu \<Rightarrow> model_view \<Rightarrow> coordinator \<Rightarrow> coordinator \<Rightarrow> bool" where
  "same_products f v c c' \<longleftrightarrow>
     (\<forall>layer < LAYERS. \<forall>(role, rows, columns) \<in> set WEIGHTS. \<forall>meta data out staging.
        tensor_for v layer role = Inr (meta, data) \<longrightarrow> length staging = Q8_STAGING_BYTES \<longrightarrow>
        coordinator_q4 f c' data out staging rows columns = coordinator_q4 f c data out staging rows columns) \<and>
     (\<forall>meta data out staging.
        view_tensor v 290 = Inr (meta, data) \<longrightarrow> length staging = Q8_STAGING_BYTES \<longrightarrow>
        coordinator_q8 f c' data out staging LOGIT_WORDS HIDDEN_WORDS =
          coordinator_q8 f c data out staging LOGIT_WORDS HIDDEN_WORDS)"

lemma same_products_refl [simp]: "same_products f v c c"
  by (simp add: same_products_def)

lemma same_productsD:
  assumes "same_products f v c c'" "layer < LAYERS" "tensor_for v layer role = Inr (meta, data)"
    "length staging = Q8_STAGING_BYTES"
  shows "role = 19 \<Longrightarrow> coordinator_q4 f c' data out staging 896 896 = coordinator_q4 f c data out staging 896 896"
    "role = 17 \<Longrightarrow> coordinator_q4 f c' data out staging 896 896 = coordinator_q4 f c data out staging 896 896"
    "role = 16 \<Longrightarrow> coordinator_q4 f c' data out staging 128 896 = coordinator_q4 f c data out staging 128 896"
    "role = 21 \<Longrightarrow> coordinator_q4 f c' data out staging 128 896 = coordinator_q4 f c data out staging 128 896"
    "role = 12 \<Longrightarrow> coordinator_q4 f c' data out staging 4864 896 = coordinator_q4 f c data out staging 4864 896"
    "role = 13 \<Longrightarrow> coordinator_q4 f c' data out staging 4864 896 = coordinator_q4 f c data out staging 4864 896"
    "role = 11 \<Longrightarrow> coordinator_q4 f c' data out staging 896 4864 = coordinator_q4 f c data out staging 896 4864"
  using assms unfolding same_products_def WEIGHTS_def by simp_all

lemmas step_rules = in_step_layer_tensor in_step_then in_step_bind in_step_basic in_step_upd

lemma in_step_norm: "in_step v p n n (norm_phase f layer role domain) (norm_phase f layer role domain)"
  unfolding norm_phase_def
  by (auto intro!: step_rules simp: wf_scratch_def)

lemma in_step_products:
  assumes "same_products f v c c'" "layer < LAYERS"
  shows "in_step v p n n (query_phase f c layer) (query_phase f c' layer)"
    "in_step v p n n (key_phase f c layer) (key_phase f c' layer)"
    "in_step v p n n (value_phase f c layer) (value_phase f c' layer)"
    "in_step v p n n (gate_phase f c layer) (gate_phase f c' layer)"
    "in_step v p n n (up_phase f c layer gate_id) (up_phase f c' layer gate_id)"
    "in_step v p n n (down_phase f c layer) (down_phase f c' layer)"
  unfolding query_phase_def key_phase_def value_phase_def gate_phase_def up_phase_def down_phase_def
    HIDDEN_WORDS_def FFN_WORDS_def
  by (auto intro!: step_rules simp: wf_scratch_def same_productsD [OF assms])

lemma in_step_attention:
  assumes "same_products f v c c'" "layer < LAYERS" "p < CONTEXT_LIMIT"
  shows "in_step v p layer (Suc layer) (attention_phase f table c layer p q_id k_id)
    (attention_phase f table c' layer p q_id k_id)"
proof -
  note rest = step_rules in_step_write_kv in_step_attend [OF assms(2,3)]
  show ?thesis
    unfolding attention_phase_def HIDDEN_WORDS_def
    by (rule rest | simp add: wf_scratch_def same_productsD [OF assms(1,2)] | clarify)+
qed

lemma in_step_layer:
  assumes "same_products f v c c'" "layer < LAYERS" "p < CONTEXT_LIMIT"
  shows "in_step v p layer (Suc layer) (eval_layer f table c p layer) (eval_layer f table c' p layer)"
  unfolding eval_layer_def
  by (rule in_step_basic in_step_norm in_step_products in_step_attention assms in_step_then in_step_bind)+

lemma in_step_layers:
  assumes "same_products f v c c'" "p < CONTEXT_LIMIT" "n + k \<le> LAYERS"
  shows "in_step v p n (n + k) (eval_layers f table c p [n..<n + k]) (eval_layers f table c' p [n..<n + k])"
  using assms(3)
proof (induction k arbitrary: n)
  case 0
  then show ?case using in_step_basic(2) [of v p n "()"] by simp
next
  case (Suc k)
  then have "in_step v p (Suc n) (Suc n + k) (eval_layers f table c p [Suc n..<Suc n + k])
      (eval_layers f table c' p [Suc n..<Suc n + k])" by (intro Suc.IH) simp
  moreover have "in_step v p n (Suc n) (eval_layer f table c p n) (eval_layer f table c' p n)"
    using Suc.prems by (intro in_step_layer assms) simp
  ultimately have "in_step v p n (Suc n + k)
      (then_act (eval_layer f table c p n) (eval_layers f table c p [Suc n..<Suc n + k]))
      (then_act (eval_layer f table c' p n) (eval_layers f table c' p [Suc n..<Suc n + k]))"
    by (rule in_step_then [rotated])
  then show ?case by (simp add: upt_conv_Cons del: upt_Suc)
qed

lemma in_step_embed: "in_step v p n n (embed f token) (embed f token)"
  unfolding embed_def
  by (intro in_step_engine_tensor) (auto intro!: step_rules simp: wf_scratch_def)

lemma eval_logits_in_step:
  assumes "same_products f v c c'" "ksim v n p e e'"
    "eval_logits f c (e, logits) = (r, e1, logits1)"
  shows "\<exists>e1'. eval_logits f c' (e', logits) = (r, e1', logits1) \<and>
    (case r of Inl x \<Rightarrow> True | Inr u \<Rightarrow> ksim v n p e1 e1')"
proof -
  let ?m = "bind_act (engine_tensor 289 ID_OUTPUT_NORM NO_LAYER) (\<lambda>(meta, data).
           then_act (upd (\<lambda>s. s\<lparr>sr_norm := inference_rmsnorm f (sr_hidden s) data HIDDEN_WORDS\<rparr>))
           (then_act (check_act ID_OUTPUT_NORM NO_LAYER 289 sr_norm HIDDEN_WORDS)
           (bind_act (engine_tensor 290 ID_LOGITS NO_LAYER) (\<lambda>(meta, weights).
           then_act (stage_q8 f sr_norm HIDDEN_WORDS) (\<lambda>e. (Inr weights, e))))))"
  obtain q1 d1 where m: "?m e = (q1, d1)" by (cases "?m e")
  obtain q2 d2 where m': "?m e' = (q2, d2)" by (cases "?m e'")
  have "in_step v p n n ?m ?m"
    by (intro in_step_engine_tensor)
      (auto intro!: in_step_engine_tensor step_rules simp: wf_scratch_def HIDDEN_WORDS_def)
  from in_stepD [OF this assms(2)] m m' have same: "q2 = q1"
    "case q1 of Inl x \<Rightarrow> True | Inr a \<Rightarrow> ksim v n p d1 d2"
    by (simp_all only: same_outcome_def fst_conv snd_conv)
  have weights: "\<exists>meta. view_tensor v 290 = Inr (meta, w)" if "q1 = Inr w" for w
    using that m assms(2)
    by (auto simp: bind_act_def then_act_def engine_tensor_def stage_q8_def upd_def check_act_def ksim_def
        split: sum.splits prod.splits option.splits if_splits)
  show ?thesis
  proof (cases q1)
    case (Inr w)
    with same have sim: "ksim v n p d1 d2" by simp
    then have "length (sr_q8 (en_scratch d1)) = Q8_STAGING_BYTES" "en_scratch d2 = en_scratch d1"
      "en_position d2 = en_position d1"
      by (simp_all add: ksim_def wf_scratch_def)
    then show ?thesis
      using assms(3) m m' Inr same(1) sim weights [OF Inr] assms(1)
      unfolding eval_logits_def same_products_def
      by (auto simp: Let_def inject_and_check_def split: option.splits)
  qed (use assms(3) m m' same in \<open>auto simp: eval_logits_def\<close>)
qed

lemma wf_scratch_zero [simp]: "wf_scratch scratch_zero"
  by (simp add: wf_scratch_def scratch_zero_def Let_def region_words_def INFERENCE_SCRATCH_LAYOUT_def
      HIDDEN_WORDS_def CONTEXT_LIMIT_def Q8_STAGING_BYTES_def)

lemma evaluate_inner_in_step:
  assumes products: "same_products f v c c'" and sim: "ksim v 0 (en_position e) e e'"
    and p: "en_position e < CONTEXT_LIMIT"
    and run: "evaluate_inner f table c token produce (e, logits) = (r, e1, logits1)"
  shows "\<exists>e1'. evaluate_inner f table c' token produce (e', logits) = (r, e1', logits1) \<and>
    (case r of Inl x \<Rightarrow> True | Inr u \<Rightarrow> ksim v 0 (en_position e1) e1 e1')"
proof -
  let ?p = "en_position e"
  let ?m = "\<lambda>c. then_act (embed f token) (eval_layers f table c ?p [0..<LAYERS])"
  have "in_step v ?p 0 LAYERS (?m c) (?m c')"
    by (rule in_step_then [OF in_step_embed]) (use in_step_layers [OF products p, of 0 LAYERS table] in simp)
  from in_stepD [OF this sim] have same: "same_outcome v LAYERS ?p (?m c e) (?m c' e')" .
  have pos: "en_position e' = ?p" using sim by (simp add: ksim_def)
  obtain q1 d1 where m: "?m c e = (q1, d1)" by (cases "?m c e")
  obtain q2 d2 where m': "?m c' e' = (q2, d2)" by (cases "?m c' e'")
  show ?thesis
  proof (cases q1)
    case (Inl x)
    then show ?thesis
      using run m m' same pos by (auto simp: evaluate_inner_def Let_def same_outcome_def)
  next
    case (Inr u)
    then have q2: "q2 = Inr u" and sim1: "ksim v LAYERS ?p d1 d2"
      using same m m' by (simp_all add: same_outcome_def)
    let ?l = "\<lambda>c d. if produce then eval_logits f c (d, logits) else (Inr (), d, logits)"
    obtain q3 d3 logits3 where l: "?l c d1 = (q3, d3, logits3)" by (cases "?l c d1")
    obtain d3' where l': "?l c' d2 = (q3, d3', logits3)"
      and sim3: "case q3 of Inl x \<Rightarrow> True | Inr u \<Rightarrow> ksim v LAYERS ?p d3 d3'"
    proof (cases produce)
      case True
      with l have "eval_logits f c (d1, logits) = (q3, d3, logits3)" by simp
      from eval_logits_in_step [OF products sim1 this] show ?thesis using True that by auto
    next
      case False
      then show ?thesis using l sim1 that [of d2] by auto
    qed
    have bound: "\<not> ?p + 1 \<ge> u32_limit" using p by (simp add: CONTEXT_LIMIT_def u32_limit_def)
    have run': "evaluate_inner f table c x produce (y, logits) = (case ?l c d of (Inl x, e, logits) \<Rightarrow> (Inl x, e, logits)
           | (Inr _, e, logits) \<Rightarrow>
               (Inr (), e\<lparr>en_position := ?p + 1,
                  en_kv_high := max (en_kv_high e) ((?p + 1) * KV_WORDS_PER_POSITION * 4),
                  en_scratch := scratch_zero\<rparr>, logits))"
      if "then_act (embed f x) (eval_layers f table c ?p [0..<LAYERS]) y = (Inr u, d)" "en_position y = ?p"
      for c x y d
      unfolding evaluate_inner_def prod.case Let_def that using bound that by simp
    show ?thesis
    proof (cases q3)
      case (Inl x)
      then show ?thesis
        using run run' [of token c e d1] run' [of token c' e' d2] m m' l l' pos q2 \<open>q1 = Inr u\<close> by auto
    next
      case (Inr w)
      with sim3 have "ksim v LAYERS ?p d3 d3'" by simp
      then have "ksim v 0 (?p + 1) (d3\<lparr>en_position := ?p + 1,
                  en_kv_high := max (en_kv_high d3) ((?p + 1) * KV_WORDS_PER_POSITION * 4),
                  en_scratch := scratch_zero\<rparr>) (d3'\<lparr>en_position := ?p + 1,
                  en_kv_high := max (en_kv_high d3') ((?p + 1) * KV_WORDS_PER_POSITION * 4),
                  en_scratch := scratch_zero\<rparr>)"
        by (simp add: ksim_def list_all_iff)
      then show ?thesis
        using run run' [of token c e d1] run' [of token c' e' d2] m m' l l' pos q2 \<open>q1 = Inr u\<close> Inr by auto
    qed
  qed
qed

section \<open>Operations of two engines\<close>

text \<open>The coordinator a token is evaluated with: the dispatcher's, or none when it did not run the job.\<close>

definition coordinator_of :: "engine \<Rightarrow> nat \<Rightarrow> nat \<Rightarrow> bool \<Rightarrow> coordinator option" where
  "coordinator_of e position token produce =
     (case en_dispatcher e of
        None \<Rightarrow> Some (Serial (en_backend e))
      | Some dispatch \<Rightarrow> map_option (\<lambda>(b, workers). Parallel b workers) (dispatch position token produce))"

lemma evaluate_coordinator:
  "evaluate f table token produce (e, logits) =
     (case coordinator_of e (en_position e) token produce of
        None \<Rightarrow> (Inl (infer_fail IS_STATE ID_PROMPT NO_LAYER (en_position e) NO_TENSOR 1 0 IK_STATE 6), e, logits)
      | Some c \<Rightarrow> evaluate_inner f table c token produce (e, logits))"
  by (auto simp: evaluate_def coordinator_of_def split: option.splits)

definition matched :: "fpu \<Rightarrow> engine \<Rightarrow> engine \<Rightarrow> bool" where
  "matched f e e' \<longleftrightarrow> (\<forall>position token produce.
     rel_option (same_products f (en_model e)) (coordinator_of e position token produce)
       (coordinator_of e' position token produce))"

text \<open>
  What two engines share whatever their processors are: everything but the unwritten part of the
  store; and, for \<open>clones\<close>, the retained prefix too.
\<close>

definition twins :: "fpu \<Rightarrow> engine \<Rightarrow> engine \<Rightarrow> bool" where
  "twins f e e' \<longleftrightarrow> matched f e e' \<and> en_model e' = en_model e \<and> en_scratch e' = en_scratch e \<and>
     en_position e' = en_position e \<and> en_reserve e' = en_reserve e \<and> en_emitted e' = en_emitted e \<and>
     en_selected e' = en_selected e \<and> en_state e' = en_state e \<and>
     (if en_state e = ST_FAULTED then True else ksim (en_model e) 0 (en_position e) e e')"

definition clones :: "fpu \<Rightarrow> engine \<Rightarrow> engine \<Rightarrow> bool" where
  "clones f e e' \<longleftrightarrow> twins f e e' \<and> en_prefix e' = en_prefix e"

lemma coordinator_of_fields:
  "en_backend d = en_backend e \<Longrightarrow> en_dispatcher d = en_dispatcher e \<Longrightarrow>
     coordinator_of d = coordinator_of e"
  by (intro ext) (simp add: coordinator_of_def cong: option.case_cong)

lemma matched_fields:
  "matched f e e' \<Longrightarrow> en_model d = en_model e \<Longrightarrow> en_backend d = en_backend e \<Longrightarrow>
     en_dispatcher d = en_dispatcher e \<Longrightarrow> en_backend d' = en_backend e' \<Longrightarrow>
     en_dispatcher d' = en_dispatcher e' \<Longrightarrow> matched f d d'"
  using coordinator_of_fields [of d e] coordinator_of_fields [of d' e'] by (simp add: matched_def)

lemma matched_refl [simp]: "matched f e e"
  by (simp add: matched_def option.rel_refl)

lemma evaluate_in_step:
  assumes "matched f e e'" "ksim (en_model e) 0 (en_position e) e e'" "en_position e < CONTEXT_LIMIT"
    "evaluate f table token produce (e, logits) = (r, e1, logits1)"
  shows "\<exists>e1'. evaluate f table token produce (e', logits) = (r, e1', logits1) \<and>
    (case r of Inl x \<Rightarrow> frame e e1 \<and> frame e' e1'
     | Inr u \<Rightarrow> advanced e e1 \<and> advanced e' e1' \<and> ksim (en_model e) 0 (en_position e1) e1 e1')"
proof -
  have pos: "en_position e' = en_position e" using assms(2) by (simp add: ksim_def)
  have rel: "rel_option (same_products f (en_model e)) (coordinator_of e (en_position e) token produce)
       (coordinator_of e' (en_position e) token produce)"
    using assms(1) by (simp add: matched_def)
  have "\<exists>e1'. evaluate f table token produce (e', logits) = (r, e1', logits1) \<and>
    (case r of Inl x \<Rightarrow> True | Inr u \<Rightarrow> ksim (en_model e) 0 (en_position e1) e1 e1')"
  proof (cases "coordinator_of e (en_position e) token produce")
    case None
    then show ?thesis using rel assms(4) pos by (auto simp: evaluate_coordinator)
  next
    case (Some c)
    then obtain c' where c': "coordinator_of e' (en_position e) token produce = Some c'"
      and products: "same_products f (en_model e) c c'"
      using rel by (auto simp: option_rel_Some1)
    from Some assms(4) have "evaluate_inner f table c token produce (e, logits) = (r, e1, logits1)"
      by (simp add: evaluate_coordinator)
    from evaluate_inner_in_step [OF products assms(2,3) this] c' pos show ?thesis
      by (simp add: evaluate_coordinator)
  qed
  then obtain e1' where run': "evaluate f table token produce (e', logits) = (r, e1', logits1)"
    and "case r of Inl x \<Rightarrow> True | Inr u \<Rightarrow> ksim (en_model e) 0 (en_position e1) e1 e1'" by blast
  with evaluate_frame [OF assms(4)] evaluate_frame [OF run'] show ?thesis by (cases r) auto
qed

lemma matched_frame: "matched f e e' \<Longrightarrow> frame e d \<Longrightarrow> frame e' d' \<Longrightarrow> matched f d d'"
  by (rule matched_fields) (simp_all add: frame_fields)

lemma matched_advanced: "matched f e e' \<Longrightarrow> advanced e d \<Longrightarrow> advanced e' d' \<Longrightarrow> matched f d d'"
  by (rule matched_fields) (simp_all add: advanced_fields)

lemma ksim_fields:
  "ksim v n p e e' \<Longrightarrow> en_model d = en_model e \<Longrightarrow> en_model d' = en_model e' \<Longrightarrow>
     en_scratch d = en_scratch e \<Longrightarrow> en_scratch d' = en_scratch e' \<Longrightarrow> en_position d = en_position e \<Longrightarrow>
     en_position d' = en_position e' \<Longrightarrow> en_kv d = en_kv e \<Longrightarrow> en_kv d' = en_kv e' \<Longrightarrow> ksim v n p d d'"
  by (simp add: ksim_def)

lemma twins_fault:
  assumes "matched f e e'" "en_model e' = en_model e" "en_position e' = en_position e"
    "en_reserve e' = en_reserve e" "en_emitted e' = en_emitted e" "en_selected e' = en_selected e"
  shows "\<exists>d d' l. fault x (e, logits) = (x, d, l) \<and> fault x (e', logits) = (x, d', l) \<and> twins f d d'"
  using assms matched_fields [OF assms(1)] by (auto simp: fault_def twins_def)

text \<open>A reply of one engine, and that of the other.\<close>

definition same_reply :: "(engine \<Rightarrow> engine \<Rightarrow> bool) \<Rightarrow> 'a reply \<Rightarrow> 'a reply \<Rightarrow> bool" where
  "same_reply R x y \<longleftrightarrow> (case (x, y) of ((r, e, logits), (r', e', logits')) \<Rightarrow>
     r' = r \<and> logits' = logits \<and> R e e')"

lemma eval_prompt_twins:
  assumes "twins f e e'" "en_state e \<noteq> ST_FAULTED" "en_position e + length prompt \<le> CONTEXT_LIMIT"
  shows "same_reply (twins f) (eval_prompt f table prompt (e, logits)) (eval_prompt f table prompt (e', logits))"
  using assms
proof (induction prompt arbitrary: e e' logits)
  case Nil
  then show ?case by (simp add: same_reply_def)
next
  case (Cons token rest)
  obtain r e1 logits1 where run: "evaluate f table token (rest = []) (e, logits) = (r, e1, logits1)"
    by (cases "evaluate f table token (rest = []) (e, logits)")
  from Cons.prems have tw: "matched f e e'" "ksim (en_model e) 0 (en_position e) e e'"
    "en_position e < CONTEXT_LIMIT" by (simp_all add: twins_def)
  from evaluate_in_step [OF this run] obtain e1' where
    run': "evaluate f table token (rest = []) (e', logits) = (r, e1', logits1)"
    and sim: "case r of Inl x \<Rightarrow> frame e e1 \<and> frame e' e1'
     | Inr u \<Rightarrow> advanced e e1 \<and> advanced e' e1' \<and> ksim (en_model e) 0 (en_position e1) e1 e1'" by blast
  show ?case
  proof (cases r)
    case (Inl x)
    with sim have fr: "frame e e1" "frame e' e1'" by simp_all
    note fields = frame_fields [OF fr(1)] frame_fields [OF fr(2)]
    obtain d d' l where "fault x (e1, logits1) = (x, d, l)" "fault x (e1', logits1) = (x, d', l)" "twins f d d'"
      using twins_fault [OF matched_frame [OF tw(1) fr], of x logits1] fields Cons.prems
      by (auto simp: twins_def)
    then show ?thesis using run run' Inl by (simp add: same_reply_def fail_with_def)
  next
    case (Inr u)
    with sim have ad: "advanced e e1" "advanced e' e1'" "ksim (en_model e) 0 (en_position e1) e1 e1'"
      by simp_all
    note fields = advanced_fields [OF ad(1)] advanced_fields [OF ad(2)]
    have "twins f e1 e1'"
      using matched_advanced [OF tw(1) ad(1,2)] fields ad(3) Cons.prems by (simp add: twins_def)
    from Cons.IH [OF this] run run' Inr fields Cons.prems show ?thesis by simp
  qed
qed

lemma ksim_position:
  "ksim v n p e e' \<Longrightarrow> q \<le> p \<Longrightarrow> ksim v 0 q (e\<lparr>en_position := q\<rparr>) (e'\<lparr>en_position := q\<rparr>)"
  by (auto simp: ksim_def kv_agree_def list_all_iff)

lemma ksim_zero:
  "en_model e = v \<Longrightarrow> en_model e' = v \<Longrightarrow> en_scratch e = scratch_zero \<Longrightarrow> en_scratch e' = scratch_zero \<Longrightarrow>
     en_position e' = en_position e \<Longrightarrow> ksim v 0 0 e e'"
  by (simp add: ksim_def kv_agree_def list_all_iff)

lemma twins_refl: "en_scratch e = scratch_zero \<Longrightarrow> twins f e e"
  by (simp add: twins_def ksim_def kv_agree_def list_all_iff)

text \<open>The counters and the state of both engines set alike.\<close>

lemma twins_step:
  assumes "twins f e e'" "en_state e \<noteq> ST_FAULTED"
  shows "twins f (e\<lparr>en_reserve := a, en_emitted := b\<rparr>) (e'\<lparr>en_reserve := a, en_emitted := b\<rparr>)"
    "twins f (e\<lparr>en_emitted := b\<rparr>) (e'\<lparr>en_emitted := b\<rparr>)"
    "twins f (e\<lparr>en_selected := c, en_state := st\<rparr>) (e'\<lparr>en_selected := c, en_state := st\<rparr>)"
  using assms matched_fields [of f e e'] ksim_fields [of "en_model e" 0 "en_position e" e e']
  by (auto simp: twins_def)

lemma twins_prefix: "twins f e e' \<Longrightarrow> twins f (e\<lparr>en_prefix := prefix\<rparr>) (e'\<lparr>en_prefix := prefix\<rparr>)"
  using matched_fields [of f e e'] ksim_fields [of "en_model e" 0 "en_position e" e e']
  by (auto simp: twins_def)

lemma publish_twins:
  assumes "twins f e e'" "en_state e \<noteq> ST_FAULTED"
  shows "same_reply (twins f) (publish_step (e, logits)) (publish_step (e', logits))"
proof -
  have same: "en_position e' = en_position e" "en_model e' = en_model e" "matched f e e'"
    "en_reserve e' = en_reserve e" "en_emitted e' = en_emitted e" "en_selected e' = en_selected e"
    using assms(1) by (simp_all add: twins_def)
  then have check: "inject_and_check e' d l t vs n = inject_and_check e d l t vs n" for d l t vs n
    by (simp add: inject_and_check_def cong: option.case_cong)
  show ?thesis
  proof (cases "inject_and_check e ID_ARGMAX NO_LAYER 290 logits (length logits)")
    case None
    then show ?thesis
      using twins_step(3) [OF assms] same check by (simp add: publish_step_def Let_def same_reply_def)
  next
    case (Some x)
    then show ?thesis
      using twins_fault [OF same(3,2,1,4,5,6), of x logits] check
      by (auto simp: publish_step_def same_reply_def fail_with_def)
  qed
qed

lemma check_prompt_twins: "twins f e e' \<Longrightarrow> check_prompt e' = check_prompt e"
  by (intro ext) (simp add: twins_def check_prompt_def)

lemma check_decode_twins: "twins f e e' \<Longrightarrow> check_decode e' = check_decode e"
  by (intro ext) (simp add: twins_def check_decode_def state_error_def)

lemma prefill_inner_twins:
  assumes tw: "twins f e e'" and live: "en_state e \<noteq> ST_FAULTED"
  shows "same_reply (twins f) (prefill_inner f table prompt reserve appending (e, logits))
    (prefill_inner f table prompt reserve appending (e', logits))"
proof (cases "check_prompt e prompt reserve (length logits) appending")
  case Inl
  then show ?thesis using tw check_prompt_twins [OF tw] by (simp add: prefill_inner_def same_reply_def)
next
  case (Inr u)
  let ?i = "\<lambda>e. e\<lparr>en_reserve := reserve, en_emitted := 0\<rparr>"
  have "en_position (?i e) + length prompt \<le> CONTEXT_LIMIT" using check_prompt_Inr [OF Inr] by simp
  note run = eval_prompt_twins [OF twins_step(1) [OF tw live] _ this]
  obtain r e1 logits1 where ev: "eval_prompt f table prompt (?i e, logits) = (r, e1, logits1)"
    by (cases "eval_prompt f table prompt (?i e, logits)")
  with run [of table logits] live obtain e1' where
    ev': "eval_prompt f table prompt (?i e', logits) = (r, e1', logits1)" and tw1: "twins f e1 e1'"
    by (cases "eval_prompt f table prompt (?i e', logits)") (auto simp: same_reply_def)
  show ?thesis
  proof (cases r)
    case (Inl x)
    then show ?thesis
      using ev ev' tw1 \<open>check_prompt _ _ _ _ _ = _\<close> check_prompt_twins [OF tw]
      by (simp add: prefill_inner_def same_reply_def)
  next
    case (Inr w)
    then have live1: "en_state e1 \<noteq> ST_FAULTED" using eval_prompt_cases [OF ev] live by simp
    show ?thesis
      using publish_twins [OF twins_step(2) [OF tw1 live1], of 1 logits1] live1 ev ev' Inr
        \<open>check_prompt _ _ _ _ _ = _\<close> check_prompt_twins [OF tw]
      by (simp add: prefill_inner_def)
  qed
qed

lemma state_error_twins: "twins f e e' \<Longrightarrow> state_error e' = state_error e"
  by (intro ext) (simp add: twins_def state_error_def)

lemma clones_state: "clones f e e' \<Longrightarrow> en_state e' = en_state e \<and> en_prefix e' = en_prefix e \<and>
    en_position e' = en_position e"
  by (simp add: clones_def twins_def)

lemma clones_error: "clones f e e' \<Longrightarrow> state_error e' = state_error e"
  unfolding clones_def using state_error_twins by blast

lemma clones_reset: "clones f e e' \<Longrightarrow> clones f (reset_state e) (reset_state e')"
  using matched_fields [of f e e'] by (auto simp: clones_def twins_def reset_state_def intro!: ksim_zero)

text \<open>What becomes of the retained prefix: a fault clears it.\<close>

lemma publish_prefix:
  assumes "publish_step (e, logits) = (r, e', logits')" "en_state e \<noteq> ST_FAULTED"
  shows "en_prefix e' = (if en_state e' = ST_FAULTED then prefix_clear else en_prefix e)"
  using publish_cases [OF assms(1)] by (cases r) auto

lemma prefill_inner_prefix:
  assumes "prefill_inner f table prompt reserve appending (e, logits) = (r, e', logits')"
    "en_state e \<noteq> ST_FAULTED"
  shows "en_prefix e' = (if en_state e' = ST_FAULTED then prefix_clear else en_prefix e)"
proof (cases "check_prompt e prompt reserve (length logits) appending")
  case (Inr u)
  let ?e = "e\<lparr>en_reserve := reserve, en_emitted := 0\<rparr>"
  obtain r1 e1 logits1 where ev: "eval_prompt f table prompt (?e, logits) = (r1, e1, logits1)"
    by (cases "eval_prompt f table prompt (?e, logits)")
  show ?thesis
    using assms ev Inr eval_prompt_cases [OF ev]
      publish_prefix [of "e1\<lparr>en_emitted := 1\<rparr>" logits1 r e' logits']
    by (cases r1) (auto simp: prefill_inner_def)
qed (use assms in \<open>auto simp: prefill_inner_def\<close>)

lemma decode_prefix:
  assumes "decode_inner f table token greedy (e, logits) = (r, e', logits')"
  shows "if en_state e = ST_FAULTED then e' = e
    else en_prefix e' = (if en_state e' = ST_FAULTED then prefix_clear else en_prefix e)"
proof (cases "check_decode e token (length logits) greedy")
  case (Inr u)
  obtain r1 e1 logits1 where ev: "evaluate f table token True (e, logits) = (r1, e1, logits1)"
    by (cases "evaluate f table token True (e, logits)")
  show ?thesis
    using assms ev Inr evaluate_frame [OF ev] check_decode_Inr [OF Inr] advanced_fields [of e e1]
      publish_prefix [of "e1\<lparr>en_emitted := en_emitted e1 + 1\<rparr>" logits1 r e' logits']
    by (cases r1) (auto simp: decode_inner_def fail_with_def fault_def)
qed (use assms in \<open>auto simp: decode_inner_def\<close>)

lemma prefill_inner_clones:
  assumes cl: "clones f e e'" and live: "en_state e \<noteq> ST_FAULTED"
  shows "same_reply (clones f) (prefill_inner f table prompt reserve appending (e, logits))
    (prefill_inner f table prompt reserve appending (e', logits))"
proof -
  obtain r d l where run: "prefill_inner f table prompt reserve appending (e, logits) = (r, d, l)"
    by (cases "prefill_inner f table prompt reserve appending (e, logits)")
  have tw: "twins f e e'" using cl by (simp add: clones_def)
  from prefill_inner_twins [OF tw live, of table prompt reserve appending logits] run obtain d' where
    run': "prefill_inner f table prompt reserve appending (e', logits) = (r, d', l)" and "twins f d d'"
    by (cases "prefill_inner f table prompt reserve appending (e', logits)") (auto simp: same_reply_def)
  then show ?thesis
    using run prefill_inner_prefix [OF run live] prefill_inner_prefix [OF run'] live clones_state [OF cl]
    by (simp add: same_reply_def clones_def) (simp add: twins_def)
qed

lemma prefill_clones:
  assumes "clones f e e'"
  shows "same_reply (clones f) (prefill f table prompt reserve (e, logits))
    (prefill f table prompt reserve (e', logits))"
  using assms clones_error [OF assms] clones_state [OF assms] prefill_inner_clones [OF assms]
  by (simp add: prefill_def same_reply_def)

lemma clones_prefix: "clones f e e' \<Longrightarrow> clones f (e\<lparr>en_prefix := prefix\<rparr>) (e'\<lparr>en_prefix := prefix\<rparr>)"
  by (simp add: clones_def twins_prefix)

lemma prefill_fresh_clones:
  assumes "clones f e e'"
  shows "same_reply (clones f) (prefill_fresh f table prompt n reserve (e, logits))
    (prefill_fresh f table prompt n reserve (e', logits))"
proof -
  obtain r e1 l where run: "prefill f table prompt reserve (e, logits) = (r, e1, l)"
    by (cases "prefill f table prompt reserve (e, logits)")
  with prefill_clones [OF assms, of table prompt reserve logits] obtain e1' where
    run': "prefill f table prompt reserve (e', logits) = (r, e1', l)" and tw: "clones f e1 e1'"
    by (cases "prefill f table prompt reserve (e', logits)") (auto simp: same_reply_def)
  then show ?thesis
    using run clones_prefix [OF tw] by (cases r) (simp_all add: prefill_fresh_def same_reply_def)
qed

lemma prefill_with_prefix_clones:
  assumes cl: "clones f e e'"
  shows "same_reply (clones f) (prefill_with_prefix f table prompt n reserve (e, logits))
    (prefill_with_prefix f table prompt n reserve (e', logits))"
proof -
  have same: "prefix_matches e' = prefix_matches e"
    using clones_state [OF cl] by (intro ext) (simp add: prefix_matches_def)
  have live: "en_state e \<noteq> ST_FAULTED" if "prefix_matches e prompt n" using that by (simp add: prefix_matches_def)
  note cases = prefill_inner_clones [OF cl live] prefill_fresh_clones [OF clones_reset [OF cl]]
    prefill_fresh_clones [OF cl]
  show ?thesis
    using cases clones_reset [OF cl] clones_state [OF cl] clones_error [OF cl]
    unfolding prefill_with_prefix_def prod.case same by (simp add: same_reply_def)
qed

lemma append_prefill_clones:
  assumes cl: "clones f e e'"
  shows "same_reply (clones f) (append_prefill f table prompt reserve (e, logits))
    (append_prefill f table prompt reserve (e', logits))"
  using cl clones_error [OF cl] clones_state [OF cl] prefill_inner_clones [OF cl]
  by (auto simp: append_prefill_def same_reply_def split: inference_state.splits)

lemma decode_twins:
  assumes tw: "twins f e e'"
  shows "same_reply (twins f) (decode_inner f table token greedy (e, logits))
    (decode_inner f table token greedy (e', logits))"
proof (cases "check_decode e token (length logits) greedy")
  case Inl
  then show ?thesis using tw check_decode_twins [OF tw] by (simp add: decode_inner_def same_reply_def)
next
  case (Inr u)
  note checked = check_decode_Inr [OF Inr]
  have below: "en_position e < CONTEXT_LIMIT"
    using Inr checked by (cases "en_state e") (auto simp: check_decode_def bind_result_Inr split: if_splits)
  from tw checked have m: "matched f e e'" "ksim (en_model e) 0 (en_position e) e e'"
    by (auto simp: twins_def)
  obtain r e1 l where run: "evaluate f table token True (e, logits) = (r, e1, l)"
    by (cases "evaluate f table token True (e, logits)")
  from evaluate_in_step [OF m below run] obtain e1' where
    run': "evaluate f table token True (e', logits) = (r, e1', l)"
    and sim: "case r of Inl x \<Rightarrow> frame e e1 \<and> frame e' e1'
     | Inr u \<Rightarrow> advanced e e1 \<and> advanced e' e1' \<and> ksim (en_model e) 0 (en_position e1) e1 e1'" by blast
  show ?thesis
  proof (cases r)
    case (Inl x)
    with sim have fr: "frame e e1" "frame e' e1'" by simp_all
    note fields = frame_fields [OF fr(1)] frame_fields [OF fr(2)]
    obtain d d' l' where "fault x (e1, l) = (x, d, l')" "fault x (e1', l) = (x, d', l')" "twins f d d'"
      using twins_fault [OF matched_frame [OF m(1) fr], of x l] fields tw by (auto simp: twins_def)
    then show ?thesis
      using run run' Inl \<open>check_decode _ _ _ _ = _\<close> check_decode_twins [OF tw]
      by (simp add: decode_inner_def same_reply_def fail_with_def)
  next
    case (Inr w)
    with sim have ad: "advanced e e1" "advanced e' e1'" "ksim (en_model e) 0 (en_position e1) e1 e1'"
      by simp_all
    note fields = advanced_fields [OF ad(1)] advanced_fields [OF ad(2)]
    have tw1: "twins f e1 e1'"
      using matched_advanced [OF m(1) ad(1,2)] fields ad(3) tw checked by (auto simp: twins_def)
    have live1: "en_state e1 \<noteq> ST_FAULTED" using fields checked by auto
    have "en_emitted e1' = en_emitted e1" using tw1 by (simp add: twins_def)
    with publish_twins [OF twins_step(2) [OF tw1 live1], of "en_emitted e1 + 1" l] live1 run run' Inr
    show ?thesis
      using \<open>check_decode _ _ _ _ = _\<close> check_decode_twins [OF tw] by (simp add: decode_inner_def)
  qed
qed

lemma decode_clones:
  assumes cl: "clones f e e'"
  shows "same_reply (clones f) (decode_inner f table token greedy (e, logits))
    (decode_inner f table token greedy (e', logits))"
proof -
  obtain r d l where run: "decode_inner f table token greedy (e, logits) = (r, d, l)"
    by (cases "decode_inner f table token greedy (e, logits)")
  have tw: "twins f e e'" using cl by (simp add: clones_def)
  from decode_twins [OF tw, of table token greedy logits] run obtain d' where
    run': "decode_inner f table token greedy (e', logits) = (r, d', l)" and tw': "twins f d d'"
    by (cases "decode_inner f table token greedy (e', logits)") (auto simp: same_reply_def)
  have "en_state d' = en_state d" using tw' by (simp add: twins_def)
  then show ?thesis
    using run run' tw' decode_prefix [OF run] decode_prefix [OF run'] clones_state [OF cl] tw
    by (auto simp: same_reply_def clones_def split: if_splits)
qed

lemma reset_to_prefix_clones:
  assumes cl: "clones f e e'"
  shows "fst (reset_to_prefix e') = fst (reset_to_prefix e) \<and>
    clones f (snd (reset_to_prefix e)) (snd (reset_to_prefix e'))"
proof -
  note state = clones_state [OF cl]
  let ?set = "\<lambda>e. e\<lparr>en_scratch := scratch_zero, en_position := rp_len (en_prefix e), en_reserve := 0,
    en_emitted := 0, en_selected := 0, en_state := ST_RESET\<rparr>"
  have reset: "clones f (reset_state (e\<lparr>en_scratch := scratch_zero\<rparr>)) (reset_state (e'\<lparr>en_scratch := scratch_zero\<rparr>))"
    using clones_reset [OF cl] by (simp add: reset_state_def)
  have "clones f (?set e) (?set e')"
    if "en_state e \<noteq> ST_FAULTED" "rp_len (en_prefix e) \<le> en_position e"
  proof -
    have tw: "twins f e e'" using cl by (simp add: clones_def)
    with that have "ksim (en_model e) 0 (en_position e) e e'" by (simp add: twins_def)
    then have "ksim (en_model e) 0 (rp_len (en_prefix e)) (?set e) (?set e')"
      using that state by (auto simp: ksim_def kv_agree_def list_all_iff)
    then show ?thesis
      using tw matched_fields [of f e e' "?set e" "?set e'"] state by (simp add: twins_def clones_def)
  qed
  then show ?thesis
    using reset state by (cases "en_state e") (auto simp: reset_to_prefix_def Let_def)
qed

lemma operation_clones:
  assumes cl: "clones f e e'"
  shows "same_reply (clones f) (run_operation f table oper (e, logits)) (run_operation f table oper (e', logits))"
proof (cases oper)
  case ResetToPrefix
  then show ?thesis
    using reset_to_prefix_clones [OF cl] by (auto simp: same_reply_def split: prod.splits)
qed (simp_all add: prefill_clones prefill_with_prefix_clones append_prefill_clones decode_clones decode_def
    decode_selected_def cl clones_reset same_reply_def [of _ "(Inr _, _)"])

section \<open>Products do not depend on the processors\<close>

lemma fold_slots:
  assumes "\<And>k. bound k \<le> bound (Suc k)" "bound 0 = (0::nat)"
  shows "fold (\<lambda>slot out. fold g [bound slot..<bound (slot + 1)] out) [0..<n] out = fold g [0..<bound n] out"
proof (induction n)
  case (Suc n)
  have "[0..<bound (Suc n)] = [0..<bound n] @ [bound n..<bound (Suc n)]"
    using upt_add_eq_append [of 0 "bound n" "bound (Suc n) - bound n"] assms(1) [of n] by simp
  with Suc show ?case by simp
qed (simp add: assms)

lemma slot_first_mono: "slot_first rows workers k \<le> slot_first rows workers (Suc k)"
  by (simp add: slot_first_def div_le_mono)

lemma slot_first_ends: "slot_first rows workers 0 = 0" "0 < workers \<Longrightarrow> slot_first rows workers workers = rows"
  by (simp_all add: slot_first_def)

text \<open>A coordinator with at least one worker computes every row once, on its processor path.\<close>

fun path_of :: "coordinator \<Rightarrow> backend" where
  "path_of (Serial b) = b"
| "path_of (Parallel b n) = b"

fun has_workers :: "coordinator \<Rightarrow> bool" where
  "has_workers (Serial b) = True"
| "has_workers (Parallel b n) = (0 < n)"

lemma coordinator_rows:
  assumes "has_workers c"
  shows "coordinator_q4 f c data out staging rows columns =
      q4_matvec_rows f (path_of c) data out staging columns 0 rows"
    "coordinator_q8 f c data out staging rows columns =
      q8_matvec_rows f (path_of c) data out staging columns 0 rows"
proof -
  have slots: "fold (\<lambda>slot out. fold g [slot_first rows w slot..<slot_first rows w (slot + 1)] out) [0..<w] out =
      fold g [0..<rows] out" if "0 < w" for g :: "nat \<Rightarrow> u32 list \<Rightarrow> u32 list" and w
    using fold_slots [of "slot_first rows w" g w out, OF slot_first_mono slot_first_ends(1)]
      slot_first_ends(2) [OF that] by (simp only:)
  show "coordinator_q4 f c data out staging rows columns =
      q4_matvec_rows f (path_of c) data out staging columns 0 rows"
    using assms slots by (cases c) (simp_all add: q4_matvec_rows_def)
  show "coordinator_q8 f c data out staging rows columns =
      q8_matvec_rows f (path_of c) data out staging columns 0 rows"
    using assms slots by (cases c) (simp_all add: q8_matvec_rows_def)
qed

lemma q4_block_dot_path:
  "length w = 16 \<Longrightarrow> length a = 32 \<Longrightarrow> q4_block_dot b w a = q4_block_dot b' w a"
  using block_dots_exact [of w "replicate 32 0" a] by (cases b; cases b') simp_all

lemma q8_block_dot_path:
  "length w = 32 \<Longrightarrow> length a = 32 \<Longrightarrow> q8_block_dot b w a = q8_block_dot b' w a"
  using block_dots_exact [of "replicate 16 0" w a] by (cases b; cases b') simp_all

lemma block_inside: "row < rows \<Longrightarrow> block < n \<Longrightarrow> row * n * k + block * k + k \<le> rows * n * (k :: nat)"
proof -
  assume "row < rows" "block < n"
  then have "row * n + block < rows * n" by (rule radix_less)
  then have "(row * n + block + 1) * k \<le> rows * n * k" by (intro mult_right_mono) simp_all
  then show ?thesis by (simp add: algebra_simps)
qed

lemma staging_inside: "block < n \<Longrightarrow> n * 34 \<le> length staging \<Longrightarrow> block * 34 + 34 \<le> length staging"
proof -
  assume "block < n" "n * 34 \<le> length staging"
  then have "(block + 1) * 34 \<le> n * 34" by (intro mult_right_mono) simp_all
  then show ?thesis using \<open>n * 34 \<le> _\<close> by simp
qed

lemma matvec_path:
  assumes "columns div 32 * 34 \<le> length staging"
  shows "rows * (columns div 32) * 18 \<le> length data \<Longrightarrow>
      q4_matvec_rows f b data out staging columns 0 rows = q4_matvec_rows f b' data out staging columns 0 rows"
    "rows * (columns div 32) * 34 \<le> length data \<Longrightarrow>
      q8_matvec_rows f b data out staging columns 0 rows = q8_matvec_rows f b' data out staging columns 0 rows"
proof -
  have q4: "q4_row_dot f b data staging columns row = q4_row_dot f b' data staging columns row"
    if "row < rows" "rows * (columns div 32) * 18 \<le> length data" for row
    unfolding q4_row_dot_def Let_def
  proof (rule fold_cong [OF refl refl])
    fix block assume "block \<in> set [0..<columns div 32]"
    then have "block < columns div 32" by simp
    note inside = block_inside [OF that(1) this, of 18] staging_inside [OF this assms]
    then have "length (slice data (row * (columns div 32) * 18 + block * 18 + 2)
        (row * (columns div 32) * 18 + block * 18 + 18)) = 16"
      "length (slice staging (block * 34 + 2) (block * 34 + 34)) = 32"
      using that(2) by (simp_all add: length_slice)
    from q4_block_dot_path [OF this, of b b']
    show "(\<lambda>acc. fp_add f acc (fp_mul f (fp_mul f (fp_from_int f (sint (q4_block_dot b
            (slice data (row * (columns div 32) * 18 + block * 18 + 2)
              (row * (columns div 32) * 18 + block * 18 + 18)) (slice staging (block * 34 + 2) (block * 34 + 34)))))
                (half_to_f32_bits (read_half data (row * (columns div 32) * 18 + block * 18))))
                (half_to_f32_bits (read_half staging (block * 34))))) =
      (\<lambda>acc. fp_add f acc (fp_mul f (fp_mul f (fp_from_int f (sint (q4_block_dot b'
            (slice data (row * (columns div 32) * 18 + block * 18 + 2)
              (row * (columns div 32) * 18 + block * 18 + 18)) (slice staging (block * 34 + 2) (block * 34 + 34)))))
                (half_to_f32_bits (read_half data (row * (columns div 32) * 18 + block * 18))))
                (half_to_f32_bits (read_half staging (block * 34)))))" by simp
  qed
  have q8: "q8_row_dot f b data staging columns row = q8_row_dot f b' data staging columns row"
    if "row < rows" "rows * (columns div 32) * 34 \<le> length data" for row
    unfolding q8_row_dot_def Let_def
  proof (rule fold_cong [OF refl refl])
    fix block assume "block \<in> set [0..<columns div 32]"
    then have "block < columns div 32" by simp
    note inside = block_inside [OF that(1) this, of 34] staging_inside [OF this assms]
    then have "length (slice data (row * (columns div 32) * 34 + block * 34 + 2)
        (row * (columns div 32) * 34 + block * 34 + 34)) = 32"
      "length (slice staging (block * 34 + 2) (block * 34 + 34)) = 32"
      using that(2) by (simp_all add: length_slice)
    from q8_block_dot_path [OF this, of b b']
    show "(\<lambda>acc. fp_add f acc (fp_mul f (fp_from_int f (sint (q8_block_dot b
            (slice data (row * (columns div 32) * 34 + block * 34 + 2)
              (row * (columns div 32) * 34 + block * 34 + 34)) (slice staging (block * 34 + 2) (block * 34 + 34)))))
                (fp_mul f (half_to_f32_bits (read_half data (row * (columns div 32) * 34 + block * 34)))
                  (half_to_f32_bits (read_half staging (block * 34)))))) =
      (\<lambda>acc. fp_add f acc (fp_mul f (fp_from_int f (sint (q8_block_dot b'
            (slice data (row * (columns div 32) * 34 + block * 34 + 2)
              (row * (columns div 32) * 34 + block * 34 + 34)) (slice staging (block * 34 + 2) (block * 34 + 34)))))
                (fp_mul f (half_to_f32_bits (read_half data (row * (columns div 32) * 34 + block * 34)))
                  (half_to_f32_bits (read_half staging (block * 34))))))" by simp
  qed
  show "q4_matvec_rows f b data out staging columns 0 rows = q4_matvec_rows f b' data out staging columns 0 rows"
    if "rows * (columns div 32) * 18 \<le> length data"
    unfolding q4_matvec_rows_def by (rule fold_cong) (simp_all add: q4 that)
  show "q8_matvec_rows f b data out staging columns 0 rows = q8_matvec_rows f b' data out staging columns 0 rows"
    if "rows * (columns div 32) * 34 \<le> length data"
    unfolding q8_matvec_rows_def by (rule fold_cong) (simp_all add: q8 that)
qed

lemma open_tensor_data:
  assumes "open_authenticated c address bs = Inr v" "tid < TENSOR_COUNT"
    "expected_tensor tid = (l, r, dtype, rank, [d0, d1, d2, d3])"
  shows "view_tensor v tid = Inr (meta, data) \<Longrightarrow> length data = tensor_bytes dtype (d0 * d1 * d2 * d3)"
proof -
  assume view: "view_tensor v tid = Inr (meta, data)"
  note facts = check_tensor_Inr [OF open_tensor_facts(3) [OF assms(1,2)]]
  have "tm_elements (tensor_meta_at bs tid) = d0 * d1 * d2 * d3"
    using assms(3) by (simp add: tensor_meta_at_def Let_def)
  then show ?thesis
    using facts open_tensor_facts(1) [OF assms(1,2)] open_tensor_length [OF assms(1,2)] assms(3) view
    by simp
qed

lemma open_weights:
  assumes "open_authenticated c address bs = Inr v" "layer < LAYERS" "(role, rows, columns) \<in> set WEIGHTS"
    "tensor_for v layer role = Inr (meta, data)"
  shows "rows * (columns div 32) * 18 \<le> length data" "columns div 32 * 34 \<le> Q8_STAGING_BYTES"
proof -
  define tid where "tid = 1 + layer * 12 + (role - 10)"
  have role: "10 \<le> role" "role < 22" using assms(3) by (auto simp: WEIGHTS_def)
  have layer: "layer < 24" using assms(2) by (simp add: LAYERS_def)
  have tid: "tid < TENSOR_COUNT" using role layer by (simp add: tid_def TENSOR_COUNT_def)
  have slot: "role - 10 < 12" using role by simp
  have split: "(tid - 1) div 12 = layer" "(tid - 1) mod 12 = role - 10"
    using radix [OF slot, of layer] by (simp_all only: tid_def add.assoc diff_add_inverse)
  have other: "tid \<noteq> 0" "tid \<noteq> 289" "tid \<noteq> 290" using role layer by (simp_all add: tid_def)
  have view: "view_tensor v tid = Inr (meta, data)"
    using assms(4) role layer by (simp add: tensor_for_def tensor_id_for_def tid_def)
  have "expected_tensor tid = (layer, role, 2, 2, [columns, rows, 1, 1])"
    unfolding expected_tensor_def Let_def split if_not_P [OF other(1)] if_not_P [OF other(2)]
      if_not_P [OF other(3)]
    using assms(3) unfolding WEIGHTS_def list.set insert_iff empty_iff prod.inject by (elim disjE conjE; simp)
  then have "length data = tensor_bytes 2 (columns * rows * 1 * 1)"
    using open_tensor_data [OF assms(1) tid _ view] by blast
  then show "rows * (columns div 32) * 18 \<le> length data"
    using assms(3) by (auto simp: WEIGHTS_def tensor_bytes_def checked_mul_def u64_limit_def)
  show "columns div 32 * 34 \<le> Q8_STAGING_BYTES"
    using assms(3) by (auto simp: WEIGHTS_def Q8_STAGING_BYTES_def)
qed

lemma open_same_products:
  assumes "open_authenticated sha address bs = Inr v" "has_workers c" "has_workers c'"
  shows "same_products f v c c'"
  unfolding same_products_def
proof (intro conjI allI impI ballI)
  fix layer and x :: "nat \<times> nat \<times> nat" assume layer: "layer < LAYERS" "x \<in> set WEIGHTS"
  obtain role rows columns where x: "x = (role, rows, columns)" by (cases x)
  note weights = open_weights [OF assms(1) layer(1) layer(2) [unfolded x]]
  show "case x of (role, rows, columns) \<Rightarrow> \<forall>meta data out staging.
        tensor_for v layer role = Inr (meta, data) \<longrightarrow> length staging = Q8_STAGING_BYTES \<longrightarrow>
        coordinator_q4 f c' data out staging rows columns = coordinator_q4 f c data out staging rows columns"
    unfolding x prod.case coordinator_rows [OF assms(2)] coordinator_rows [OF assms(3)]
    using weights matvec_path(1) by metis
next
  fix meta data out and staging :: bytes
  assume view: "view_tensor v 290 = Inr (meta, data)" and staging: "length staging = Q8_STAGING_BYTES"
  have "expected_tensor 290 = (0xffff, 3, 3, 2, [896, 151936, 1, 1])" by (simp add: expected_tensor_def)
  from open_tensor_data [OF assms(1) _ this view] have "length data = tensor_bytes 3 (896 * 151936 * 1 * 1)"
    by (simp add: TENSOR_COUNT_def)
  then have "LOGIT_WORDS * (HIDDEN_WORDS div 32) * 34 \<le> length data"
    by (simp add: tensor_bytes_def checked_mul_def LOGIT_WORDS_def HIDDEN_WORDS_def u64_limit_def)
  moreover have "HIDDEN_WORDS div 32 * 34 \<le> length staging"
    by (simp add: staging HIDDEN_WORDS_def Q8_STAGING_BYTES_def)
  ultimately show "coordinator_q8 f c' data out staging LOGIT_WORDS HIDDEN_WORDS =
          coordinator_q8 f c data out staging LOGIT_WORDS HIDDEN_WORDS"
    unfolding coordinator_rows [OF assms(2)] coordinator_rows [OF assms(3)]
    by (intro matvec_path(2))
qed

text \<open>A dispatcher that always runs the job it is given, on at least one processor.\<close>

definition dispatches :: "dispatcher option \<Rightarrow> bool" where
  "dispatches d \<longleftrightarrow> (case d of None \<Rightarrow> True | Some dispatch \<Rightarrow>
     \<forall>position token produce. case dispatch position token produce of
        None \<Rightarrow> False | Some (b, workers) \<Rightarrow> 0 < workers)"

lemma dispatches_coordinator:
  assumes "dispatches (en_dispatcher e)"
  shows "\<exists>c. coordinator_of e position token produce = Some c \<and> has_workers c"
proof (cases "en_dispatcher e")
  case (Some dispatch)
  with assms obtain b w where "dispatch position token produce = Some (b, w)" "0 < w"
    by (fastforce simp: dispatches_def split: option.splits)
  with Some show ?thesis by (simp add: coordinator_of_def)
qed (simp add: coordinator_of_def)

lemma open_matched:
  assumes "open_authenticated sha address bs = Inr (en_model e)"
    "dispatches (en_dispatcher e)" "dispatches (en_dispatcher e')"
  shows "matched f e e'"
  unfolding matched_def
proof (intro allI)
  fix position token produce
  obtain c c' where "coordinator_of e position token produce = Some c" "has_workers c"
    "coordinator_of e' position token produce = Some c'" "has_workers c'"
    using dispatches_coordinator [OF assms(2)] dispatches_coordinator [OF assms(3)] by metis
  then show "rel_option (same_products f (en_model e)) (coordinator_of e position token produce)
      (coordinator_of e' position token produce)"
    using open_same_products [OF assms(1)] by simp
qed

section \<open>A session\<close>

text \<open>A sequence of operations: the reply to each, and the logits it leaves.\<close>

fun replies ::
  "fpu \<Rightarrow> bytes \<Rightarrow> operation list \<Rightarrow> engine \<times> u32 list \<Rightarrow>
   ((inference_error + inference_step) \<times> u32 list) list" where
  "replies f table [] s = []"
| "replies f table (oper # rest) s =
     (case run_operation f table oper s of (r, s) \<Rightarrow> (r, snd s) # replies f table rest s)"

lemma replies_clones: "clones f e e' \<Longrightarrow> replies f table opers (e, logits) = replies f table opers (e', logits)"
proof (induction opers arbitrary: e e' logits)
  case (Cons oper rest)
  obtain r d l where run: "run_operation f table oper (e, logits) = (r, d, l)"
    by (cases "run_operation f table oper (e, logits)")
  with operation_clones [OF Cons.prems, of table oper logits] obtain d' where
    "run_operation f table oper (e', logits) = (r, d', l)" "clones f d d'"
    by (cases "run_operation f table oper (e', logits)") (auto simp: same_reply_def)
  with run Cons.IH show ?case by simp
qed simp


section \<open>Properties\<close>

text \<open>
  C40: The layout of the key-value store is exact: the words of the cells (layer, key or value,
  position, head, component), keys in tiles of four positions, fill the store, every word belonging
  to exactly one cell.
\<close>

theorem kv_words_fill_store:
  "bij_betw (\<lambda>(layer, kind, position, head, component). kv_word layer kind position head component)
     {x. kv_cell_ok x} {..<KV_BYTES div 4}"
  by (rule kv_word_bij)

text \<open>
  C8: The processors do not show. Two engines built on the same opened image, one on the SSE2 path
  and the other on the AVX2 path, alone or with a dispatcher that splits the products over any
  number of processors, and with any bytes left in the key-value store, reply to any sequence of
  operations with the same steps, the same errors and the same logits, whatever the rounding
  instructions compute.
\<close>

theorem engine_independent_of_processors:
  "case open_authenticated sha address bs of
     Inl x \<Rightarrow> True
   | Inr v \<Rightarrow>
     (case (engine_build v kv kv_len kv_address scratch_len scratch_address b d,
            engine_build v kv' kv_len kv_address scratch_len scratch_address b' d') of
        (Inr e, Inr e') \<Rightarrow>
          (if dispatches d \<and> dispatches d'
           then replies f table opers (e, logits) = replies f table opers (e', logits) else True)
      | (Inl x, Inl x') \<Rightarrow> x' = x
      | _ \<Rightarrow> False)"
proof (cases "open_authenticated sha address bs")
  case (Inr v)
  show ?thesis
  proof (cases "engine_build v kv kv_len kv_address scratch_len scratch_address b d")
    case (Inl x)
    then show ?thesis using Inr by (auto simp: engine_build_def split: option.splits)
  next
    case built: (Inr e)
    then obtain e' where built': "engine_build v kv' kv_len kv_address scratch_len scratch_address b' d' = Inr e'"
      by (auto simp: engine_build_def split: option.splits)
    have "replies f table opers (e, logits) = replies f table opers (e', logits)"
      if "dispatches d" "dispatches d'"
    proof (rule replies_clones)
      have fields: "en_model e = v" "en_dispatcher e = d" "en_dispatcher e' = d'"
        "en_model e' = v" "en_scratch e = scratch_zero" "en_scratch e' = scratch_zero" "en_position e = 0"
        "en_position e' = 0" "en_reserve e' = en_reserve e" "en_emitted e' = en_emitted e"
        "en_selected e' = en_selected e" "en_state e' = en_state e" "en_prefix e' = en_prefix e"
        using built built' by (auto simp: engine_build_def split: option.splits)
      have "matched f e e'" using open_matched [of sha address bs e e' f] Inr that fields by simp
      moreover have "ksim v 0 0 e e'" using fields by (intro ksim_zero) simp_all
      ultimately show "clones f e e'"
        unfolding clones_def twins_def using fields by simp
    qed
    then show ?thesis using Inr built built' by simp
  qed
qed simp

end
