(* ===== verification/PB_Retained.thy ===== *)
theory PB_Retained
  imports PB_Replay
begin

text \<open>
  An engine is its history: what an engine that is not faulted holds is what the evaluation of the
  tokens it has seen leaves in a fresh engine. From this: a prompt continued behind a retained
  prefix gives what the same prompt gives evaluated afresh.
\<close>

section \<open>Histories\<close>

text \<open>
  Evaluating the tokens of a history, each with the flag whether its logits were asked for (the
  dispatcher sees it), without computing any logits.
\<close>

definition absorb_token :: "fpu \<Rightarrow> bytes \<Rightarrow> nat \<times> bool \<Rightarrow> engine \<Rightarrow> engine option" where
  "absorb_token f table entry e =
     (case entry of (token, produce) \<Rightarrow>
      case coordinator_of e (en_position e) token produce of
        None \<Rightarrow> None
      | Some c \<Rightarrow>
        (case then_act (embed f token) (eval_layers f table c (en_position e) [0..<LAYERS]) e of
           (Inl x, e) \<Rightarrow> None
         | (Inr u, e) \<Rightarrow> Some (e\<lparr>en_position := en_position e + 1, en_scratch := scratch_zero\<rparr>)))"

fun absorb :: "fpu \<Rightarrow> bytes \<Rightarrow> (nat \<times> bool) list \<Rightarrow> engine \<Rightarrow> engine option" where
  "absorb f table [] e = Some e"
| "absorb f table (entry # rest) e =
     (case absorb_token f table entry e of None \<Rightarrow> None | Some e \<Rightarrow> absorb f table rest e)"

lemma absorb_append:
  "absorb f table (xs @ ys) e = (case absorb f table xs e of None \<Rightarrow> None | Some e \<Rightarrow> absorb f table ys e)"
  by (induction xs arbitrary: e) (auto split: option.splits)

text \<open>Engines with the same processors that hold the same positions.\<close>

definition kv_same :: "nat \<Rightarrow> engine \<Rightarrow> engine \<Rightarrow> bool" where
  "kv_same p e e' \<longleftrightarrow> list_all (\<lambda>layer. kv_agree layer p (en_kv e) (en_kv e')) [0..<LAYERS]"

definition alike :: "engine \<Rightarrow> engine \<Rightarrow> bool" where
  "alike e e' \<longleftrightarrow> en_model e' = en_model e \<and> en_backend e' = en_backend e \<and>
     en_dispatcher e' = en_dispatcher e \<and> en_scratch e = scratch_zero \<and> en_scratch e' = scratch_zero \<and>
     en_position e' = en_position e \<and> kv_same (en_position e) e e'"

lemma kv_same_refl [simp]: "kv_same p e e"
  by (simp add: kv_same_def kv_agree_def list_all_iff)

lemma kv_same_sym: "kv_same p e e' \<Longrightarrow> kv_same p e' e"
  unfolding kv_same_def kv_agree_def list_all_iff by metis

lemma kv_same_trans: "kv_same p e e' \<Longrightarrow> kv_same p e' e'' \<Longrightarrow> kv_same p e e''"
  unfolding kv_same_def kv_agree_def list_all_iff by metis

lemma kv_same_less: "kv_same p e e' \<Longrightarrow> q \<le> p \<Longrightarrow> kv_same q e e'"
  unfolding kv_same_def kv_agree_def list_all_iff by (meson order_less_le_trans)

lemma kv_same_cong: "kv_same p e e' \<Longrightarrow> en_kv d = en_kv e \<Longrightarrow> en_kv d' = en_kv e' \<Longrightarrow> kv_same p d d'"
  by (simp add: kv_same_def)

lemma kv_same_zero [simp]: "kv_same 0 e e'"
  by (simp add: kv_same_def kv_agree_def list_all_iff)

lemma alike_refl: "en_scratch e = scratch_zero \<Longrightarrow> alike e e"
  by (simp add: alike_def)

lemma alike_sym: "alike e e' \<Longrightarrow> alike e' e"
  using kv_same_sym by (auto simp: alike_def)

lemma alike_trans: "alike e e' \<Longrightarrow> alike e' e'' \<Longrightarrow> alike e e''"
  unfolding alike_def by (auto intro: kv_same_trans)

lemma ksim_same:
  "ksim v 0 p e e' \<longleftrightarrow> en_model e = v \<and> en_model e' = v \<and> en_scratch e' = en_scratch e \<and>
     en_position e' = en_position e \<and> wf_scratch (en_scratch e) \<and> kv_same p e e'"
  by (simp only: ksim_def kv_same_def less_nat_zero_code if_False)

lemma alike_ksim: "alike e e' \<Longrightarrow> ksim (en_model e) 0 (en_position e) e e'"
  unfolding ksim_same alike_def by (elim conjE) (intro conjI; simp only: refl wf_scratch_zero)

lemma alike_coordinator: "alike e e' \<Longrightarrow> coordinator_of e' = coordinator_of e"
  by (rule coordinator_of_fields) (simp_all add: alike_def)

lemma framed_run: "framed m \<Longrightarrow> m e = (r, e') \<Longrightarrow> frame e e'"
  unfolding framed_def by (metis snd_conv)

lemma framed_token: "framed (then_act (embed f token) (eval_layers f table c p layers))"
  by (intro framed_intros)

lemma absorb_token_alike:
  assumes al: "alike e e'" and p: "en_position e < CONTEXT_LIMIT" and run: "absorb_token f table entry e = Some e1"
  shows "\<exists>e1'. absorb_token f table entry e' = Some e1' \<and> alike e1 e1' \<and> en_position e1 = en_position e + 1"
proof -
  let ?p = "en_position e"
  obtain token produce where entry: "entry = (token, produce)" by (cases entry)
  let ?m = "\<lambda>c. then_act (embed f token) (eval_layers f table c ?p [0..<LAYERS])"
  obtain c d where c: "coordinator_of e ?p token produce = Some c" and m: "?m c e = (Inr (), d)"
    and e1: "e1 = d\<lparr>en_position := en_position d + 1, en_scratch := scratch_zero\<rparr>"
    using run entry by (auto simp: absorb_token_def split: option.splits prod.splits sum.splits)
  have "in_step (en_model e) ?p 0 LAYERS (?m c) (?m c)"
    by (rule in_step_then [OF in_step_embed])
      (use in_step_layers [OF same_products_refl p, of 0 LAYERS] in simp)
  from in_stepD [OF this alike_ksim [OF al]] m obtain d' where m': "?m c e' = (Inr (), d')"
    and sim: "ksim (en_model e) LAYERS ?p d d'"
    by (cases "?m c e'") (auto simp: same_outcome_def)
  have "frame e d" "frame e' d'" using framed_run [OF framed_token] m m' by metis+
  note fields = frame_fields [OF this(1)] frame_fields [OF this(2)]
  have same: "en_position e' = ?p" "en_backend e' = en_backend e" "en_dispatcher e' = en_dispatcher e"
    using al by (simp_all add: alike_def)
  let ?e1' = "d'\<lparr>en_position := en_position d' + 1, en_scratch := scratch_zero\<rparr>"
  have "kv_same (?p + 1) d d'" using sim by (simp add: ksim_def kv_same_def list_all_iff)
  then have "alike e1 ?e1'"
    using fields same al e1 kv_same_cong [of "?p + 1" d d' e1 ?e1'] by (simp add: alike_def)
  moreover have "absorb_token f table entry e' = Some ?e1'"
    using entry c m' same alike_coordinator [OF al] by (simp add: absorb_token_def)
  ultimately show ?thesis using e1 fields by auto
qed

lemma absorb_alike:
  assumes "alike e e'" "en_position e + length hist \<le> CONTEXT_LIMIT" "absorb f table hist e = Some e1"
  shows "\<exists>e1'. absorb f table hist e' = Some e1' \<and> alike e1 e1'"
  using assms
proof (induction hist arbitrary: e e')
  case (Cons entry rest)
  then obtain d where d: "absorb_token f table entry e = Some d" "absorb f table rest d = Some e1"
    by (auto split: option.splits)
  from Cons.prems have "en_position e < CONTEXT_LIMIT" by simp
  from absorb_token_alike [OF Cons.prems(1) this d(1)] obtain d' where
    "absorb_token f table entry e' = Some d'" "alike d d'" "en_position d = en_position e + 1" by blast
  with Cons.IH [OF this(2)] d(2) Cons.prems(2) show ?case by simp
qed simp

section \<open>What an evaluation leaves alone\<close>

text \<open>Steps that do not change the words of a set of the store.\<close>

definition keeps :: "nat set \<Rightarrow> 'a act \<Rightarrow> bool" where
  "keeps W m \<longleftrightarrow> (\<forall>e. \<forall>w \<in> W. en_kv (snd (m e)) w = en_kv e w)"

named_theorems keeps_intros "steps that leave words of the store alone"

lemma keeps_bind [keeps_intros]: "keeps W m \<Longrightarrow> (\<And>a. keeps W (k a)) \<Longrightarrow> keeps W (bind_act m k)"
  unfolding keeps_def bind_act_def by (auto split: prod.splits sum.splits) (metis snd_conv)+

lemma keeps_then [keeps_intros]: "keeps W m \<Longrightarrow> keeps W k \<Longrightarrow> keeps W (then_act m k)"
  unfolding then_act_def by (rule keeps_bind)

lemma keeps_basic [keeps_intros]:
  "keeps W (upd g)" "keeps W (raise_high_water n)" "keeps W (engine_tensor tid domain layer)"
  "keeps W (layer_tensor layer role domain)" "keeps W (check_act domain layer tid sel words)"
  "keeps W (\<lambda>e. (Inr a, e))" "keeps W (stage_q8 f sel columns)" "keeps W save_residual"
  "keeps W (attend f layer position)"
  by (simp_all add: keeps_def raise_high_water_def engine_tensor_def layer_tensor_def check_act_def
      stage_q8_def save_residual_def upd_def attend_def Let_def split: prod.splits)

text \<open>The words of the positions before \<open>p\<close>.\<close>

definition before :: "nat \<Rightarrow> nat set" where
  "before p = {w. \<exists>layer < LAYERS. \<exists>kind < 2. \<exists>q < p. \<exists>h < KV_HEADS. \<exists>c < HEAD_WORDS.
     q < CONTEXT_LIMIT \<and> w = kv_word layer kind q h c}"

lemma before_other:
  assumes "w \<in> before p" "layer < LAYERS" "p < CONTEXT_LIMIT" "kind < 2"
  shows "w \<notin> snd ` set (kv_rows layer kind p)"
proof
  assume "w \<in> snd ` set (kv_rows layer kind p)"
  then obtain h c where w: "h < KV_HEADS" "c < HEAD_WORDS" "w = kv_word layer kind p h c"
    by (auto simp: kv_rows_mem)
  obtain l k q g d where v: "l < LAYERS" "k < 2" "q < p" "q < CONTEXT_LIMIT" "g < KV_HEADS" "d < HEAD_WORDS"
    "w = kv_word l k q g d" using assms(1) by (auto simp: before_def)
  have "kv_cell_of w = (layer, kind, p, h, c)"
    unfolding w(3) using kv_cell_of_word w assms by (simp add: kv_sizes)
  moreover have "kv_cell_of w = (l, k, q, g, d)"
    unfolding v(7) using kv_cell_of_word v by (simp add: kv_sizes)
  ultimately show False using v(3) by simp
qed

lemma keeps_write_kv [keeps_intros]: "keeps (before p) (write_kv layer p)"
proof -
  have "store_rows vs (kv_rows layer 1 p) (store_rows ks (kv_rows layer 0 p) kv) w = kv w"
    if "w \<in> before p" "layer < LAYERS" "p < CONTEXT_LIMIT" for vs ks kv w
    using before_other [OF that] by (simp add: store_rows_other)
  then show ?thesis by (simp add: keeps_def write_kv_def Let_def)
qed

lemma keeps_phases [keeps_intros]:
  "keeps W (norm_phase f layer role domain)" "keeps W (query_phase f c layer)"
  "keeps W (key_phase f c layer)" "keeps W (value_phase f c layer)" "keeps W (gate_phase f c layer)"
  "keeps W (up_phase f c layer gate_id)" "keeps W (down_phase f c layer)" "keeps W (embed f token)"
  by (auto simp: norm_phase_def query_phase_def key_phase_def value_phase_def gate_phase_def
      up_phase_def down_phase_def embed_def intro!: keeps_intros)

lemma keeps_attention [keeps_intros]: "keeps (before p) (attention_phase f table c layer p q_id k_id)"
  by (auto simp: attention_phase_def intro!: keeps_intros)

lemma keeps_layers [keeps_intros]: "keeps (before p) (eval_layers f table c p layers)"
  by (induction layers) (auto simp: eval_layer_def intro!: keeps_intros)

lemma keeps_same:
  assumes "keeps (before p) m" "m e = (r, e')" "p \<le> CONTEXT_LIMIT"
  shows "kv_same p e e'"
proof -
  have "en_kv e' w = en_kv e w" if "w \<in> before p" for w
    using assms(1,2) that unfolding keeps_def by (metis snd_conv)
  moreover have "kv_word layer kind q h c \<in> before p"
    if "layer < LAYERS" "kind < 2" "q < p" "h < KV_HEADS" "c < HEAD_WORDS" for layer kind q h c
    using that assms(3) unfolding before_def by (blast intro: order_less_le_trans)
  ultimately show ?thesis by (simp add: kv_same_def kv_agree_def list_all_iff)
qed

lemma eval_logits_kv:
  assumes "eval_logits f c (e, logits) = (r, e', logits')"
  shows "en_kv e' = en_kv e"
proof -
  let ?m = "bind_act (engine_tensor 289 ID_OUTPUT_NORM NO_LAYER) (\<lambda>(meta, data).
           then_act (upd (\<lambda>s. s\<lparr>sr_norm := inference_rmsnorm f (sr_hidden s) data HIDDEN_WORDS\<rparr>))
           (then_act (check_act ID_OUTPUT_NORM NO_LAYER 289 sr_norm HIDDEN_WORDS)
           (bind_act (engine_tensor 290 ID_LOGITS NO_LAYER) (\<lambda>(meta, weights).
           then_act (stage_q8 f sr_norm HIDDEN_WORDS) (\<lambda>e. (Inr weights, e))))))"
  have "keeps UNIV ?m" by (auto intro!: keeps_intros)
  then have "en_kv (snd (?m e)) = en_kv e" by (auto simp: keeps_def)
  then show ?thesis
    using assms unfolding eval_logits_def
    by (cases "?m e") (auto simp: Let_def split: sum.splits option.splits)
qed

text \<open>A token evaluated successfully is a token absorbed.\<close>

lemma evaluate_absorb:
  assumes "evaluate f table token produce (e, logits) = (Inr u, e', logits')"
  shows "\<exists>d. absorb_token f table (token, produce) e = Some d \<and> alike d e'"
proof -
  let ?p = "en_position e"
  obtain c where c: "coordinator_of e ?p token produce = Some c"
    and inner: "evaluate_inner f table c token produce (e, logits) = (Inr u, e', logits')"
    using assms by (auto simp: evaluate_coordinator split: option.splits)
  let ?m = "then_act (embed f token) (eval_layers f table c ?p [0..<LAYERS])"
  obtain r d where m: "?m e = (r, d)" by (cases "?m e")
  have fd: "frame e d" using framed_run [OF framed_token m] .
  note fields = frame_fields [OF fd]
  have ad: "advanced e e'" using evaluate_frame [OF assms] by simp
  note fields' = advanced_fields [OF ad]
  obtain v where r: "r = Inr v" using inner m by (cases r) (auto simp: evaluate_inner_def Let_def)
  obtain q l x where logit: "(if produce then eval_logits f c (d, logits) else (Inr (), d, logits)) = (x, q, l)"
    by (cases "if produce then eval_logits f c (d, logits) else (Inr (), d, logits)")
  then have "en_kv q = en_kv d" using eval_logits_kv [of f c d logits x q l] by (auto split: if_splits)
  then have kv: "en_kv e' = en_kv d"
    using inner m r logit by (cases x) (auto simp: evaluate_inner_def Let_def split: if_splits)
  let ?d = "d\<lparr>en_position := en_position d + 1, en_scratch := scratch_zero\<rparr>"
  have "absorb_token f table (token, produce) e = Some ?d"
    using c m r by (simp add: absorb_token_def)
  moreover have "kv_same (?p + 1) ?d e'" by (simp add: kv_same_def kv_agree_def list_all_iff kv)
  then have "alike ?d e'" using fields fields' by (simp add: alike_def)
  ultimately show ?thesis by blast
qed

text \<open>An absorbed token leaves the positions before it alone.\<close>

lemma absorb_token_fields:
  assumes "absorb_token f table entry e = Some d"
  shows "en_position d = en_position e + 1 \<and> en_scratch d = scratch_zero \<and>
    (if en_position e \<le> CONTEXT_LIMIT then kv_same (en_position e) e d else True)"
proof -
  obtain token produce where entry: "entry = (token, produce)" by (cases entry)
  obtain c q where m: "then_act (embed f token) (eval_layers f table c (en_position e) [0..<LAYERS]) e = (Inr (), q)"
    and d: "d = q\<lparr>en_position := en_position q + 1, en_scratch := scratch_zero\<rparr>"
    using assms entry by (auto simp: absorb_token_def split: option.splits prod.splits sum.splits)
  have fq: "frame e q" by (rule framed_run [OF framed_token m])
  have "keeps (before (en_position e)) (then_act (embed f token) (eval_layers f table c (en_position e) [0..<LAYERS]))"
    by (intro keeps_intros)
  from keeps_same [OF this m] show ?thesis
    using frame_fields [OF fq] d by (simp add: kv_same_def)
qed

lemma absorb_fields:
  assumes "absorb f table hist e = Some d" "en_position e + length hist \<le> CONTEXT_LIMIT"
    "en_scratch e = scratch_zero"
  shows "en_position d = en_position e + length hist \<and> en_scratch d = scratch_zero \<and>
    kv_same (en_position e) e d"
  using assms
proof (induction hist arbitrary: e)
  case (Cons entry rest)
  then obtain q where q: "absorb_token f table entry e = Some q" "absorb f table rest q = Some d"
    by (auto split: option.splits)
  have p: "en_position e \<le> CONTEXT_LIMIT" "en_position e \<le> en_position q"
    using Cons.prems absorb_token_fields [OF q(1)] by auto
  have "en_position d = en_position q + length rest \<and> en_scratch d = scratch_zero \<and> kv_same (en_position q) q d"
    by (rule Cons.IH [OF q(2)]) (use Cons.prems absorb_token_fields [OF q(1)] in auto)
  then show ?case
    using absorb_token_fields [OF q(1)] p kv_same_less [of "en_position q" q d "en_position e"]
      kv_same_trans [of "en_position e" e q d] by simp
qed simp

section \<open>The history of an engine\<close>

fun flagged :: "nat list \<Rightarrow> (nat \<times> bool) list" where
  "flagged [] = []"
| "flagged (token # rest) = (token, rest = []) # flagged rest"

lemma length_flagged [simp]: "length (flagged prompt) = length prompt"
  by (induction prompt) simp_all

lemma map_fst_flagged [simp]: "map fst (flagged prompt) = prompt"
  by (induction prompt) simp_all

lemma flagged_append: "ys \<noteq> [] \<Longrightarrow> flagged (xs @ ys) = map (\<lambda>t. (t, False)) xs @ flagged ys"
  by (induction xs) auto

text \<open>
  A fresh engine over some other key-value memory: everything the engine knows of the history has to
  be written again. An engine holds a history when its evaluation over any such memory, whatever that
  memory contains, leaves what the engine has.
\<close>

definition blank :: "kv_store \<Rightarrow> engine \<Rightarrow> engine" where
  "blank kv e = (reset_state e)\<lparr>en_kv := kv\<rparr>"

lemma blank_fields [simp]:
  "en_model (blank kv e) = en_model e" "en_backend (blank kv e) = en_backend e"
  "en_dispatcher (blank kv e) = en_dispatcher e" "en_position (blank kv e) = 0"
  "en_scratch (blank kv e) = scratch_zero" "en_kv (blank kv e) = kv"
  by (simp_all add: blank_def reset_state_def)

lemma blank_own: "blank (en_kv e) e = reset_state e"
  by (simp add: blank_def reset_state_def)

definition holds :: "fpu \<Rightarrow> bytes \<Rightarrow> (nat \<times> bool) list \<Rightarrow> engine \<Rightarrow> bool" where
  "holds f table hist e \<longleftrightarrow> length hist = en_position e \<and>
     (\<forall>kv. \<exists>d. absorb f table hist (blank kv e) = Some d \<and> alike d e)"

lemma holdsD:
  assumes "holds f table hist e"
  obtains d where "absorb f table hist (blank kv e) = Some d" "alike d e" "length hist = en_position e"
  using assms by (auto simp: holds_def)

text \<open>The retained prefix is the beginning of the history, evaluated without logits.\<close>

definition remembers :: "fpu \<Rightarrow> bytes \<Rightarrow> (nat \<times> bool) list \<Rightarrow> engine \<Rightarrow> bool" where
  "remembers f table hist e \<longleftrightarrow> holds f table hist e \<and>
     rp_len (en_prefix e) \<le> length hist \<and>
     en_prefix e = retain_prefix (map fst hist) (rp_len (en_prefix e)) \<and>
     list_all (\<lambda>(token, produce). \<not> produce \<and> token < VOCAB_COUNT) (take (rp_len (en_prefix e)) hist)"

definition tracked :: "fpu \<Rightarrow> bytes \<Rightarrow> (nat \<times> bool) list \<Rightarrow> engine \<Rightarrow> bool" where
  "tracked f table hist e \<longleftrightarrow> en_state e = ST_FAULTED \<or> remembers f table hist e"

lemma alike_cong:
  "alike d e \<Longrightarrow> en_model e' = en_model e \<Longrightarrow> en_backend e' = en_backend e \<Longrightarrow>
     en_dispatcher e' = en_dispatcher e \<Longrightarrow> en_scratch e' = en_scratch e \<Longrightarrow>
     en_position e' = en_position e \<Longrightarrow> en_kv e' = en_kv e \<Longrightarrow> alike d e'"
  by (simp add: alike_def kv_same_def)

lemma alike_blank:
  "en_model e' = en_model e \<Longrightarrow> en_backend e' = en_backend e \<Longrightarrow> en_dispatcher e' = en_dispatcher e \<Longrightarrow>
     alike (blank kv e) (blank kv' e')"
  by (simp add: alike_def)

lemma holds_append:
  assumes "holds f table hist e" "absorb f table more_hist e = Some d" "alike d e'"
    "en_model e' = en_model e" "en_backend e' = en_backend e" "en_dispatcher e' = en_dispatcher e"
    "en_position e + length more_hist \<le> CONTEXT_LIMIT" "en_scratch e = scratch_zero"
  shows "holds f table (hist @ more_hist) e'"
  unfolding holds_def
proof (intro conjI allI)
  fix kv
  obtain d0 where d0: "absorb f table hist (blank kv e) = Some d0" "alike d0 e"
    and len: "length hist = en_position e"
    by (rule holdsD [OF assms(1)])
  have bound: "en_position (blank kv e) + length hist \<le> CONTEXT_LIMIT"
    using len assms(7) by simp
  from absorb_alike [OF alike_blank [of e' e] bound d0(1)] assms(4-6) obtain d0' where
    d0': "absorb f table hist (blank kv e') = Some d0'" "alike d0 d0'" by blast
  have "alike e d0'" using alike_trans [OF alike_sym [OF d0(2)] d0'(2)] .
  from absorb_alike [OF this assms(7,2)] obtain d' where
    d': "absorb f table more_hist d0' = Some d'" "alike d d'" by auto
  have "alike d' e'" using alike_trans [OF alike_sym [OF d'(2)] assms(3)] .
  then show "\<exists>d. absorb f table (hist @ more_hist) (blank kv e') = Some d \<and> alike d e'"
    using d0'(1) d'(1) by (simp add: absorb_append)
next
  show "length (hist @ more_hist) = en_position e'"
    using absorb_fields [OF assms(2,7,8)] assms(1,3) by (simp add: alike_def holds_def)
qed

lemma holds_cong:
  "holds f table hist e \<Longrightarrow> en_model e' = en_model e \<Longrightarrow> en_backend e' = en_backend e \<Longrightarrow>
     en_dispatcher e' = en_dispatcher e \<Longrightarrow> en_scratch e' = en_scratch e \<Longrightarrow>
     en_position e' = en_position e \<Longrightarrow> en_kv e' = en_kv e \<Longrightarrow> length hist \<le> CONTEXT_LIMIT \<Longrightarrow>
     holds f table hist e'"
proof -
  assume h: "holds f table hist e" and eq: "en_model e' = en_model e" "en_backend e' = en_backend e"
    "en_dispatcher e' = en_dispatcher e" "en_scratch e' = en_scratch e" "en_position e' = en_position e"
    "en_kv e' = en_kv e" and len: "length hist \<le> CONTEXT_LIMIT"
  have "\<exists>d. absorb f table hist (blank kv e') = Some d \<and> alike d e'" for kv
  proof -
    obtain d where d: "absorb f table hist (blank kv e) = Some d" "alike d e" by (rule holdsD [OF h])
    have "en_position (blank kv e) + length hist \<le> CONTEXT_LIMIT" using len by simp
    from absorb_alike [OF alike_blank [of e' e] this d(1)] eq obtain d' where
      "absorb f table hist (blank kv e') = Some d'" "alike d d'" by blast
    then show ?thesis using alike_trans [OF alike_sym [of d d'] alike_cong [OF d(2) eq]] by blast
  qed
  then show ?thesis using h eq(5) by (simp add: holds_def)
qed

lemma absorb_fields_all:
  "absorb f table hist e = Some d \<Longrightarrow> en_model d = en_model e \<and> en_backend d = en_backend e \<and>
     en_dispatcher d = en_dispatcher e"
proof (induction hist arbitrary: e)
  case (Cons entry rest)
  then obtain q where q: "absorb_token f table entry e = Some q" "absorb f table rest q = Some d"
    by (auto split: option.splits)
  obtain c x token where "then_act (embed f token) (eval_layers f table c (en_position e) [0..<LAYERS]) e = (Inr (), x)"
    "q = x\<lparr>en_position := en_position x + 1, en_scratch := scratch_zero\<rparr>"
    using q(1) by (auto simp: absorb_token_def split: option.splits prod.splits sum.splits)
  with frame_fields [OF framed_run [OF framed_token]] Cons.IH [OF q(2)] show ?case by fastforce
qed simp

text \<open>Going back to a position of the history.\<close>

lemma holds_take:
  assumes "holds f table hist e" "n \<le> length hist" "length hist \<le> CONTEXT_LIMIT"
  shows "holds f table (take n hist) (e\<lparr>en_position := n, en_scratch := scratch_zero\<rparr>)"
  unfolding holds_def
proof (intro conjI allI)
  fix kv
  let ?e = "e\<lparr>en_position := n, en_scratch := scratch_zero\<rparr>"
  obtain d where d: "absorb f table hist (blank kv e) = Some d" "alike d e" "length hist = en_position e"
    by (rule holdsD [OF assms(1)])
  have "hist = take n hist @ drop n hist" by simp
  with d(1) obtain q where q: "absorb f table (take n hist) (blank kv e) = Some q"
    "absorb f table (drop n hist) q = Some d"
    by (metis absorb_append option.case_eq_if option.distinct(1) option.collapse)
  have fq: "en_position q = n" "en_scratch q = scratch_zero"
    using absorb_fields [OF q(1)] assms(2,3) by simp_all
  have "kv_same n q d" using absorb_fields [OF q(2)] fq assms(2,3) by simp
  moreover have "kv_same n d e"
    using d assms(2) kv_same_less [of "en_position e" d e n] by (auto simp: alike_def)
  ultimately have "kv_same n q e" by (rule kv_same_trans)
  then have "alike q ?e"
    using fq absorb_fields_all [OF q(1)] by (simp add: alike_def kv_same_def)
  moreover have "blank kv ?e = blank kv e" by (simp add: blank_def reset_state_def)
  ultimately show "\<exists>d. absorb f table (take n hist) (blank kv ?e) = Some d \<and> alike d ?e" using q(1) by simp
qed (use assms(2) in simp)

lemma eval_prompt_absorb:
  assumes "eval_prompt f table prompt (e, logits) = (Inr u, e', logits')"
    "en_position e + length prompt \<le> CONTEXT_LIMIT" "en_scratch e = scratch_zero"
  shows "(\<exists>d. absorb f table (flagged prompt) e = Some d \<and> alike d e') \<and>
    en_model e' = en_model e \<and> en_backend e' = en_backend e \<and> en_dispatcher e' = en_dispatcher e"
  using assms
proof (induction prompt arbitrary: e logits)
  case Nil
  then show ?case by (simp add: alike_refl)
next
  case (Cons token rest)
  obtain r e1 l1 where run: "evaluate f table token (rest = []) (e, logits) = (r, e1, l1)"
    by (cases "evaluate f table token (rest = []) (e, logits)")
  with Cons.prems obtain w where r: "r = Inr w" by (cases r) (auto simp: fail_with_def split: prod.splits)
  have ad: "advanced e e1" using evaluate_frame [OF run] r by simp
  note fields = advanced_fields [OF ad]
  have rest: "eval_prompt f table rest (e1, l1) = (Inr u, e', logits')" using Cons.prems(1) run r by simp
  obtain d where d: "absorb f table (flagged rest) e1 = Some d" "alike d e'"
    and same: "en_model e' = en_model e" "en_backend e' = en_backend e" "en_dispatcher e' = en_dispatcher e"
    using Cons.IH [OF rest] fields Cons.prems(2) by auto
  obtain q where q: "absorb_token f table (token, rest = []) e = Some q" "alike q e1"
    using evaluate_absorb [OF run [unfolded r]] by blast
  have "en_position e1 + length (flagged rest) \<le> CONTEXT_LIMIT" using fields Cons.prems(2) by simp
  from absorb_alike [OF alike_sym [OF q(2)] this d(1)] obtain d' where
    "absorb f table (flagged rest) q = Some d'" "alike d d'" by auto
  then show ?case using q(1) d(2) same alike_trans [OF alike_sym [of d d'] d(2)] by auto
qed

lemma prefill_inner_holds:
  assumes run: "prefill_inner f table prompt reserve appending (e, logits) = (Inr step, e', logits')"
    and holds: "holds f table hist e" and zero: "en_scratch e = scratch_zero"
  shows "holds f table (hist @ flagged prompt) e' \<and> list_all (\<lambda>token. token < VOCAB_COUNT) prompt"
proof -
  obtain u where ok: "check_prompt e prompt reserve (length logits) appending = Inr u"
    using run by (auto simp: prefill_inner_def split: sum.splits)
  have tokens: "list_all (\<lambda>token. token < VOCAB_COUNT) prompt"
    using ok by (auto simp: check_prompt_def Let_def bind_result_Inr list_all_length)
  let ?e = "e\<lparr>en_reserve := reserve, en_emitted := 0\<rparr>"
  obtain r e1 l1 where ev: "eval_prompt f table prompt (?e, logits) = (r, e1, l1)"
    by (cases "eval_prompt f table prompt (?e, logits)")
  obtain w where r: "r = Inr w" using run ev ok by (cases r) (auto simp: prefill_inner_def)
  have pub: "publish_step (e1\<lparr>en_emitted := 1\<rparr>, l1) = (Inr step, e', logits')"
    using run ev r ok by (simp add: prefill_inner_def)
  have bound: "en_position ?e + length prompt \<le> CONTEXT_LIMIT" using check_prompt_Inr [OF ok] by simp
  have len: "length hist = en_position e" using holds by (simp add: holds_def)
  obtain d where d: "absorb f table (flagged prompt) ?e = Some d" "alike d e1"
    and same: "en_model e1 = en_model e" "en_backend e1 = en_backend e" "en_dispatcher e1 = en_dispatcher e"
    using eval_prompt_absorb [OF ev [unfolded r] bound] zero by auto
  have "holds f table hist ?e" by (rule holds_cong [OF holds]) (use bound len in auto)
  from holds_append [OF this d] have "holds f table (hist @ flagged prompt) e1"
    using same bound zero by simp
  then have "holds f table (hist @ flagged prompt) e'"
    by (rule holds_cong) (use publish_cases [OF pub] bound len in auto)
  then show ?thesis using tokens by simp
qed

lemma decode_holds:
  assumes run: "decode_inner f table token greedy (e, logits) = (Inr step, e', logits')"
    and holds: "holds f table hist e" and zero: "en_scratch e = scratch_zero"
  shows "holds f table (hist @ [(token, True)]) e'"
proof -
  obtain u where ok: "check_decode e token (length logits) greedy = Inr u"
    using run by (auto simp: decode_inner_def split: sum.splits)
  have below: "en_position e < CONTEXT_LIMIT"
    using ok check_decode_Inr [OF ok]
    by (cases "en_state e") (auto simp: check_decode_def bind_result_Inr split: if_splits)
  obtain r e1 l1 where ev: "evaluate f table token True (e, logits) = (r, e1, l1)"
    by (cases "evaluate f table token True (e, logits)")
  obtain w where r: "r = Inr w"
    using run ev ok by (cases r) (auto simp: decode_inner_def fail_with_def split: prod.splits)
  have pub: "publish_step (e1\<lparr>en_emitted := en_emitted e1 + 1\<rparr>, l1) = (Inr step, e', logits')"
    using run ev r ok by (simp add: decode_inner_def)
  have ad: "advanced e e1" using evaluate_frame [OF ev] r by simp
  obtain d where "absorb_token f table (token, True) e = Some d" "alike d e1"
    using evaluate_absorb [OF ev [unfolded r]] by blast
  then have "holds f table (hist @ [(token, True)]) e1"
    using holds_append [OF holds, of "[(token, True)]" d e1] advanced_fields [OF ad] below zero by simp
  then show ?thesis
    by (rule holds_cong) (use publish_cases [OF pub] below holds in \<open>auto simp: holds_def\<close>)
qed

lemma engine_ok_zero: "engine_ok e \<Longrightarrow> en_scratch e = scratch_zero"
  by (simp add: engine_ok_def)

lemma holds_limit: "engine_ok e \<Longrightarrow> holds f table hist e \<Longrightarrow> length hist \<le> CONTEXT_LIMIT"
  by (cases "en_state e") (auto simp: engine_ok_def holds_def prefix_ok_def MAX_TOKENS_def CONTEXT_LIMIT_def)

lemma retain_prefix_take: "n \<le> length xs \<Longrightarrow> retain_prefix (xs @ ys) n = retain_prefix xs n"
  by (simp add: retain_prefix_def)

lemma remembers_append:
  "remembers f table hist e \<Longrightarrow> holds f table (hist @ more_hist) e' \<Longrightarrow> en_prefix e' = en_prefix e \<Longrightarrow>
     remembers f table (hist @ more_hist) e'"
  by (simp add: remembers_def retain_prefix_take)

lemma remembers_holds: "remembers f table hist e \<Longrightarrow> holds f table hist e"
  by (simp add: remembers_def)

lemma remembers_reset: "remembers f table [] (reset_state e)"
  by (simp add: remembers_def holds_def alike_def)
    (simp add: reset_state_def retain_prefix_def prefix_clear_def)

lemma unflagged:
  "list_all (\<lambda>(token, produce). \<not> produce \<and> P token) hist \<Longrightarrow> map (\<lambda>t. (t, False)) (map fst hist) = hist"
  by (induction hist) auto

lemma prefix_reuse_prompts:
  assumes ok: "engine_ok e" and hist: "remembers f table hist e" and match: "prefix_matches e prompt n"
    and n: "n < length prompt"
  shows "hist = map (\<lambda>t. (t, False)) (take n prompt) \<and> en_prefix e = retain_prefix prompt n \<and>
    list_all (\<lambda>token. token < VOCAB_COUNT) (take n prompt)"
proof -
  have st: "en_position e = n" "rp_len (en_prefix e) = n"
    "take n (rp_tokens (en_prefix e)) = take n prompt"
    using match by (simp_all add: prefix_matches_def)
  have len: "length hist = n" and pre: "en_prefix e = retain_prefix (map fst hist) n"
    using hist st by (simp_all add: remembers_def holds_def)
  have "list_all (\<lambda>(token, produce). \<not> produce \<and> token < VOCAB_COUNT) (take (rp_len (en_prefix e)) hist)"
    using hist by (simp add: remembers_def)
  then have flags: "list_all (\<lambda>(token, produce). \<not> produce \<and> token < VOCAB_COUNT) hist"
    using len st(2) by simp
  have "n \<le> MAX_TOKENS"
    using ok st by (cases "en_state e") (auto simp: engine_ok_def prefix_ok_def)
  then have toks: "take n prompt = map fst hist"
    using st(3) len by (simp add: pre retain_prefix_def write_at_def prefix_clear_def)
  have "hist = map (\<lambda>t. (t, False)) (take n prompt)"
    unfolding toks by (rule unflagged [OF flags, symmetric])
  moreover have "retain_prefix (map fst hist) n = retain_prefix prompt n"
    using n by (simp add: retain_prefix_def flip: toks)
  moreover have "list_all (\<lambda>token. token < VOCAB_COUNT) (take n prompt)"
    unfolding toks using flags by (auto simp: list_all_iff)
  ultimately show ?thesis using pre by simp
qed

text \<open>
  The history after an operation, computed from the operation, whether it succeeded and the position
  the engine is left at: a failing operation and a reset keep what lies before that position, a
  successful one adds what it evaluated. An engine holds the history of its operations.
\<close>

fun recalled :: "operation \<Rightarrow> bool \<Rightarrow> nat \<Rightarrow> (nat \<times> bool) list \<Rightarrow> (nat \<times> bool) list" where
  "recalled oper False p hist = take p hist"
| "recalled (Prefill prompt reserve) True p hist = hist @ flagged prompt"
| "recalled (PrefillWithPrefix prompt n reserve) True p hist = flagged prompt"
| "recalled (AppendPrefill prompt reserve) True p hist = hist @ flagged prompt"
| "recalled (Decode token) True p hist = hist @ [(token, True)]"
| "recalled (DecodeSelected token) True p hist = hist @ [(token, True)]"
| "recalled Reset True p hist = take p hist"
| "recalled ResetToPrefix True p hist = take p hist"

fun history_of ::
  "fpu \<Rightarrow> bytes \<Rightarrow> operation list \<Rightarrow> engine \<times> u32 list \<Rightarrow> (nat \<times> bool) list \<Rightarrow> (nat \<times> bool) list" where
  "history_of f table [] s hist = hist"
| "history_of f table (oper # rest) s hist =
     (case run_operation f table oper s of (r, d) \<Rightarrow>
        history_of f table rest d (recalled oper (\<not> isl r) (en_position (fst d)) hist))"

lemma tracked_same: "tracked f table hist e \<Longrightarrow> tracked f table (take (en_position e) hist) e"
  by (auto simp: tracked_def remembers_def holds_def)

lemma tracked_faulted: "faulted e logits n \<Longrightarrow> tracked f table hist e"
  by (simp add: tracked_def faulted_def)

lemma tracked_reset: "tracked f table [] (reset_state e)"
  using remembers_reset by (simp add: tracked_def)

lemma tracked_reset_take: "tracked f table (take (en_position (reset_state e)) hist) (reset_state e)"
  using tracked_reset by (simp add: reset_state_def)

lemma prefill_inner_tracked:
  assumes run: "prefill_inner f table prompt reserve appending (e, logits) = (Inr step, e', logits')"
    and ok: "engine_ok e" "en_state e \<noteq> ST_FAULTED" and hist: "remembers f table hist e"
  shows "tracked f table (hist @ flagged prompt) e'"
proof -
  have "en_prefix e' = en_prefix e" using prefill_inner_ok [OF run ok] by simp
  note holds = prefill_inner_holds [OF run remembers_holds [OF hist] engine_ok_zero [OF ok(1)]]
  have "remembers f table (hist @ flagged prompt) e'"
    by (rule remembers_append [OF hist]) (use holds \<open>en_prefix e' = en_prefix e\<close> in simp_all)
  then show ?thesis by (auto simp: tracked_def)
qed

lemma reset_starts_empty:
  "engine_ok e \<Longrightarrow> en_state e = ST_RESET \<Longrightarrow> rp_len (en_prefix e) = 0 \<Longrightarrow> remembers f table hist e \<Longrightarrow> hist = []"
  by (simp add: engine_ok_def remembers_def holds_def)

lemma prefill_fresh_tracked:
  assumes run: "prefill_fresh f table prompt n reserve (e, logits) = (Inr step, e', logits')"
    and ok: "engine_ok e" and hist: "tracked f table hist e" and n: "n < length prompt"
    and fresh: "rp_len (en_prefix e) = 0"
  shows "tracked f table (flagged prompt) e'"
proof -
  obtain e1 where e1: "prefill f table prompt reserve (e, logits) = (Inr step, e1, logits')"
    and e': "e' = e1\<lparr>en_prefix := retain_prefix prompt n\<rparr>"
    using run by (auto simp: prefill_fresh_def split: prod.splits sum.splits)
  then have inner: "prefill_inner f table prompt reserve False (e, logits) = (Inr step, e1, logits')"
    and st: "en_state e = ST_RESET" by (auto simp: prefill_def split: if_splits)
  have h: "remembers f table hist e" using hist st by (simp add: tracked_def)
  have "hist = []" by (rule reset_starts_empty [OF ok st fresh h])
  with prefill_inner_holds [OF inner remembers_holds [OF h] engine_ok_zero [OF ok]]
  have holds: "holds f table (flagged prompt) e1" and tokens: "list_all (\<lambda>token. token < VOCAB_COUNT) prompt"
    by simp_all
  have "engine_ok e1" using prefill_ok [OF e1 ok] by simp
  from holds_limit [OF this holds] have "holds f table (flagged prompt) e'"
    by (intro holds_cong [OF holds]) (simp_all add: e')
  moreover have "prompt = take n prompt @ drop n prompt" "drop n prompt \<noteq> []" using n by simp_all
  then have "flagged prompt = map (\<lambda>t. (t, False)) (take n prompt) @ flagged (drop n prompt)"
    by (metis flagged_append)
  then have "take n (flagged prompt) = map (\<lambda>t. (t, False)) (take n prompt)" using n by simp
  moreover have "list_all (\<lambda>token. token < VOCAB_COUNT) (take n prompt)"
    using tokens by (auto simp: list_all_iff dest: in_set_takeD)
  ultimately have "remembers f table (flagged prompt) e'"
    using n by (simp add: remembers_def e' list_all_iff)
  then show ?thesis by (simp add: tracked_def)
qed

lemma prefill_with_prefix_tracked:
  assumes run: "prefill_with_prefix f table prompt n reserve (e, logits) = (Inr step, e', logits')"
    and ok: "engine_ok e" and hist: "tracked f table hist e"
  shows "tracked f table (flagged prompt) e'"
proof -
  have n: "0 < n" "n < length prompt" using run by (auto simp: prefill_with_prefix_def split: if_splits)
  have clear: "rp_len (en_prefix (reset_state e)) = 0" by (simp add: reset_state_def)
  show ?thesis
  proof (cases "rp_len (en_prefix e) \<noteq> 0 \<and> prefix_matches e prompt n")
    case True
    then have inner: "prefill_inner f table (drop n prompt) reserve True (e, logits) = (Inr step, e', logits')"
      using run n by (auto simp: prefill_with_prefix_def split: if_splits)
    have live: "en_state e \<noteq> ST_FAULTED" using True by (simp add: prefix_matches_def)
    then have h: "remembers f table hist e" using hist by (simp add: tracked_def)
    have "prompt = take n prompt @ drop n prompt" "drop n prompt \<noteq> []" using n by simp_all
    then have "flagged prompt = hist @ flagged (drop n prompt)"
      using prefix_reuse_prompts [OF ok h conjunct2 [OF True] n(2)] by (metis flagged_append)
    then show ?thesis using prefill_inner_tracked [OF inner ok live h] by simp
  next
    case False
    then show ?thesis
      using run n hist clear prefill_fresh_tracked [OF _ ok hist n(2)]
        prefill_fresh_tracked [OF _ engine_ok_reset tracked_reset n(2) clear]
      by (auto simp: prefill_with_prefix_def split: if_splits)
  qed
qed

lemma decode_tracked:
  assumes run: "decode_inner f table token greedy (e, logits) = (Inr step, e', logits')"
    and ok: "engine_ok e" and hist: "tracked f table hist e"
  shows "tracked f table (hist @ [(token, True)]) e'"
proof -
  obtain u where "check_decode e token (length logits) greedy = Inr u"
    using run by (auto simp: decode_inner_def split: sum.splits)
  then have live: "en_state e \<noteq> ST_FAULTED" using check_decode_Inr by fastforce
  then have h: "remembers f table hist e" using hist by (simp add: tracked_def)
  show ?thesis
  proof (cases "en_state e' = ST_FAULTED")
    case False
    then have "en_prefix e' = en_prefix e" using decode_prefix [OF run] live by simp
    then have "remembers f table (hist @ [(token, True)]) e'"
      by (intro remembers_append [OF h] decode_holds [OF run remembers_holds [OF h]]
          engine_ok_zero [OF ok])
    then show ?thesis by (simp add: tracked_def)
  qed (simp add: tracked_def)
qed

lemma reset_to_prefix_tracked:
  assumes ok: "engine_ok e" and hist: "tracked f table hist e"
  shows "tracked f table (take (en_position (snd (reset_to_prefix e))) hist) (snd (reset_to_prefix e))"
proof -
  let ?n = "rp_len (en_prefix e)"
  let ?e = "e\<lparr>en_scratch := scratch_zero\<rparr>"
  let ?p = "?e\<lparr>en_position := ?n, en_reserve := 0, en_emitted := 0, en_selected := 0, en_state := ST_RESET\<rparr>"
  have "tracked f table (take ?n hist) ?p" if live: "en_state e \<noteq> ST_FAULTED"
  proof -
    have h: "remembers f table hist e" using live hist by (simp add: tracked_def)
    have n: "?n \<le> length hist" and holds: "holds f table hist e" using h by (simp_all add: remembers_def)
    note limit = holds_limit [OF ok holds]
    have "holds f table (take ?n hist) ?p"
      by (rule holds_cong [OF holds_take [OF holds n limit]]) (use limit in auto)
    then have "remembers f table (take ?n hist) ?p"
      using h n by (simp add: remembers_def) (simp add: retain_prefix_def take_map)
    then show ?thesis by (simp add: tracked_def)
  qed
  then show ?thesis
    using tracked_reset_take [of f table ?e hist]
    by (auto simp: reset_to_prefix_def Let_def split: inference_state.splits)
qed

lemma built_tracked:
  "engine_build model kv kv_len kv_address scratch_len scratch_address b d = Inr e \<Longrightarrow> tracked f table [] e"
proof -
  assume "engine_build model kv kv_len kv_address scratch_len scratch_address b d = Inr e"
  then have "e = reset_state e" by (auto simp: engine_build_def reset_state_def split: option.splits)
  then show ?thesis using tracked_reset [of f table e] by simp
qed

lemma operation_failure_tracked:
  assumes run: "run_operation f table oper (e, logits) = (Inl x, d, l)" and hist: "tracked f table hist e"
  shows "tracked f table (take (en_position d) hist) d"
  using operation_failed [OF run] tracked_same [OF hist] tracked_faulted tracked_reset_take by auto

lemma operation_success_tracked:
  assumes run: "run_operation f table oper (e, logits) = (Inr step, d, l)"
    and ok: "engine_ok e" and hist: "tracked f table hist e"
  shows "tracked f table (recalled oper True (en_position d) hist) d"
proof (cases oper)
  case (Prefill prompt reserve)
  then have "prefill_inner f table prompt reserve False (e, logits) = (Inr step, d, l)"
    "en_state e \<noteq> ST_FAULTED"
    using run by (auto simp: prefill_def split: if_splits)
  then show ?thesis using Prefill prefill_inner_tracked [OF _ ok] hist by (auto simp: tracked_def)
next
  case (AppendPrefill prompt reserve)
  then have "prefill_inner f table prompt reserve True (e, logits) = (Inr step, d, l)"
    "en_state e \<noteq> ST_FAULTED"
    using run by (auto simp: append_prefill_def split: inference_state.splits)
  then show ?thesis using AppendPrefill prefill_inner_tracked [OF _ ok] hist by (auto simp: tracked_def)
qed (use run ok hist in \<open>auto simp: decode_def decode_selected_def tracked_reset_take
    intro: prefill_with_prefix_tracked decode_tracked
    dest: reset_to_prefix_tracked split: prod.splits\<close>)

lemma operation_tracked:
  assumes "run_operation f table oper (e, logits) = (r, d, l)" "engine_ok e" "tracked f table hist e"
  shows "tracked f table (recalled oper (\<not> isl r) (en_position d) hist) d"
  using assms operation_failure_tracked operation_success_tracked by (cases r) auto

lemma history_tracked:
  "reachable f table e \<Longrightarrow> tracked f table hist e \<Longrightarrow>
     tracked f table (history_of f table opers (e, logits) hist) (fst (after f table opers (e, logits)))"
proof (induction opers arbitrary: e logits hist)
  case (Cons oper rest)
  obtain r d l where run: "run_operation f table oper (e, logits) = (r, d, l)"
    by (cases "run_operation f table oper (e, logits)")
  have "reachable f table d" using reachable.operated [OF Cons.prems(1), of oper logits] run by simp
  from Cons.IH [OF this operation_tracked [OF run reachable_ok [OF Cons.prems(1)] Cons.prems(2)]]
  show ?case using run by simp
qed simp

lemma reachable_tracked: "reachable f table e \<Longrightarrow> \<exists>hist. tracked f table hist e"
proof (induction rule: reachable.induct)
  case (operated e oper logits)
  then show ?case
    using operation_tracked [OF _ reachable_ok]
    by (cases "run_operation f table oper (e, logits)") fastforce
qed (auto intro: built_tracked)

section \<open>A retained prefix is a fresh one\<close>

lemma absorb_evaluate:
  assumes "absorb_token f table (token, False) e = Some d" "en_position e < CONTEXT_LIMIT"
  shows "\<exists>e'. evaluate f table token False (e, logits) = (Inr (), e', logits) \<and> alike d e'"
proof -
  obtain c q where c: "coordinator_of e (en_position e) token False = Some c"
    and m: "then_act (embed f token) (eval_layers f table c (en_position e) [0..<LAYERS]) e = (Inr (), q)"
    using assms(1) by (auto simp: absorb_token_def split: option.splits prod.splits sum.splits)
  obtain e' where run: "evaluate f table token False (e, logits) = (Inr (), e', logits)"
    using c m assms(2)
    by (auto simp: evaluate_coordinator evaluate_inner_def Let_def CONTEXT_LIMIT_def u32_limit_def)
  from evaluate_absorb [OF this] assms(1) run show ?thesis by auto
qed

lemma absorb_eval_prompt:
  assumes "absorb f table (map (\<lambda>t. (t, False)) xs) e = Some d" "ys \<noteq> []"
    "en_position e + length xs \<le> CONTEXT_LIMIT" "en_scratch e = scratch_zero"
  shows "\<exists>e'. eval_prompt f table (xs @ ys) (e, logits) = eval_prompt f table ys (e', logits) \<and> alike d e' \<and>
    en_reserve e' = en_reserve e \<and> en_emitted e' = en_emitted e \<and> en_selected e' = en_selected e \<and>
    en_state e' = en_state e"
  using assms
proof (induction xs arbitrary: e d)
  case Nil
  then show ?case by (auto intro!: exI [of _ e] alike_refl)
next
  case (Cons token rest)
  then obtain q where q: "absorb_token f table (token, False) e = Some q"
    "absorb f table (map (\<lambda>t. (t, False)) rest) q = Some d" by (auto split: option.splits)
  have below: "en_position e < CONTEXT_LIMIT" using Cons.prems(3) by simp
  obtain e1 where e1: "evaluate f table token False (e, logits) = (Inr (), e1, logits)" "alike q e1"
    using absorb_evaluate [OF q(1) below] by blast
  have "advanced e e1" using evaluate_frame [OF e1(1)] by simp
  note fields = advanced_fields [OF this]
  have "en_position q + length (map (\<lambda>t. (t, False)) rest) \<le> CONTEXT_LIMIT"
    using absorb_token_fields [OF q(1)] Cons.prems(3) by simp
  from absorb_alike [OF e1(2) this q(2)] obtain d' where
    d': "absorb f table (map (\<lambda>t. (t, False)) rest) e1 = Some d'" "alike d d'" by blast
  obtain e' where "eval_prompt f table (rest @ ys) (e1, logits) = eval_prompt f table ys (e', logits)" "alike d' e'"
    "en_reserve e' = en_reserve e1 \<and> en_emitted e' = en_emitted e1 \<and> en_selected e' = en_selected e1 \<and>
     en_state e' = en_state e1"
    using Cons.IH [OF d'(1) Cons.prems(2)] fields Cons.prems(3) by auto
  then show ?case using e1(1) Cons.prems(2) fields alike_trans [OF d'(2)] by auto
qed

lemma check_prompt_iff:
  "check_prompt e prompt reserve len ap = Inr u \<longleftrightarrow> 1 \<le> reserve \<and> reserve \<le> CONTEXT_LIMIT \<and> prompt \<noteq> [] \<and>
     (ap \<or> length prompt < CONTEXT_LIMIT) \<and> en_position e + length prompt + reserve \<le> CONTEXT_LIMIT \<and>
     len = LOGIT_WORDS \<and> list_all (\<lambda>token. token < VOCAB_COUNT) prompt"
  by (auto simp: check_prompt_def Let_def bind_result_Inr list_all_length)

lemma alike_twins:
  assumes "alike e e'" "en_reserve e' = en_reserve e" "en_emitted e' = en_emitted e"
    "en_selected e' = en_selected e" "en_state e' = en_state e"
  shows "twins f e e'"
proof -
  have "matched f e e'" using alike_coordinator [OF assms(1)] by (simp add: matched_def option.rel_refl)
  moreover have "ksim (en_model e) 0 (en_position e) e e'" by (rule alike_ksim [OF assms(1)])
  ultimately show ?thesis using assms by (simp add: twins_def alike_def)
qed

text \<open>
  The relation between the two replies: both engines refused the request as they were, or the two
  replies are the same and the engines are clones.
\<close>

definition refused_or_same ::
  "fpu \<Rightarrow> engine \<Rightarrow> engine \<Rightarrow> u32 list \<Rightarrow> inference_step reply \<Rightarrow> inference_step reply \<Rightarrow> bool" where
  "refused_or_same f e e' logits x y \<longleftrightarrow>
     (case (x, y) of ((r, d, l), (r', d', l')) \<Rightarrow>
        (isl r \<and> isl r' \<and> d = e \<and> d' = e' \<and> l = logits \<and> l' = logits) \<or>
        (r' = r \<and> l' = l \<and> clones f d d'))"

lemma twins_prefix_right: "twins f e e' \<Longrightarrow> twins f e (e'\<lparr>en_prefix := prefix\<rparr>)"
  using matched_fields [of f e e'] ksim_fields [of "en_model e" 0 "en_position e" e e']
  by (auto simp: twins_def)

lemma prefix_reuse_matched:
  assumes ok: "engine_ok e" and hist: "remembers f table hist e" and match: "prefix_matches e prompt n"
    and n: "0 < n" "n < length prompt"
  shows "refused_or_same f e (reset_state e) logits
    (prefill_inner f table (drop n prompt) reserve True (e, logits))
    (prefill_fresh f table prompt n reserve (reset_state e, logits))"
proof -
  let ?e0 = "reset_state e"
  have st: "en_state e = ST_RESET" "en_position e = n" "en_reserve e = 0" "en_emitted e = 0" "en_selected e = 0"
    using match ok by (auto simp: prefix_matches_def engine_ok_def)
  have st0: "en_state ?e0 = ST_RESET" "en_position ?e0 = 0" "en_scratch ?e0 = scratch_zero"
    by (simp_all add: reset_state_def)
  note prompts = prefix_reuse_prompts [OF ok hist match n(2)]
  have "list_all (\<lambda>token. token < VOCAB_COUNT) prompt \<longleftrightarrow>
      list_all (\<lambda>token. token < VOCAB_COUNT) (drop n prompt)"
    using prompts by (metis append_take_drop_id list_all_append)
  then have checks: "check_prompt e (drop n prompt) reserve (length logits) True = Inr () \<longleftrightarrow>
      check_prompt ?e0 prompt reserve (length logits) False = Inr ()"
    using st st0 n by (auto simp: check_prompt_iff)
  show ?thesis
  proof (cases "check_prompt e (drop n prompt) reserve (length logits) True")
    case (Inl x)
    then obtain y where "check_prompt ?e0 prompt reserve (length logits) False = Inl y"
      using checks by (cases "check_prompt ?e0 prompt reserve (length logits) False") auto
    then show ?thesis
      using Inl st0 by (simp add: prefill_inner_def prefill_fresh_def prefill_def refused_or_same_def)
  next
    case (Inr u)
    then have check0: "check_prompt ?e0 prompt reserve (length logits) False = Inr ()" using checks by simp
    let ?i = "\<lambda>e. e\<lparr>en_reserve := reserve, en_emitted := 0\<rparr>"
    have holds: "holds f table hist e" by (rule remembers_holds [OF hist])
    have bound: "en_position ?e0 + length hist \<le> CONTEXT_LIMIT"
      using holds_limit [OF ok holds] st0 by simp
    obtain d where d: "absorb f table hist ?e0 = Some d" "alike d e"
      by (rule holdsD [OF holds, where kv = "en_kv e", unfolded blank_own])
    have "alike ?e0 (?i ?e0)" by (simp add: alike_def kv_same_def kv_agree_def list_all_iff st0)
    from absorb_alike [OF this bound d(1)] obtain d' where
      d': "absorb f table hist (?i ?e0) = Some d'" "alike d d'" by blast
    have "drop n prompt \<noteq> []" "prompt = take n prompt @ drop n prompt" using n by simp_all
    then obtain q where q: "eval_prompt f table prompt (?i ?e0, logits) = eval_prompt f table (drop n prompt) (q, logits)"
      "alike d' q" "en_reserve q = reserve" "en_emitted q = 0" "en_selected q = 0" "en_state q = ST_RESET"
      using absorb_eval_prompt [of f table "take n prompt" "?i ?e0" d' "drop n prompt" logits] d'(1) prompts bound
      by (auto simp: reset_state_def)
    have "alike q (?i e)"
      using alike_trans [OF alike_sym [OF alike_trans [OF d'(2) q(2)]] d(2)]
      by (rule alike_cong) simp_all
    then have tw: "twins f (?i e) q"
      using q st by (intro alike_twins alike_sym [of q]) simp_all
    have "en_position (?i e) + length (drop n prompt) \<le> CONTEXT_LIMIT"
      using check_prompt_Inr [OF Inr] by (simp del: length_drop)
    note same = eval_prompt_twins [OF tw _ this, of table logits]
    obtain r1 e1 l1 where ev: "eval_prompt f table (drop n prompt) (?i e, logits) = (r1, e1, l1)"
      by (cases "eval_prompt f table (drop n prompt) (?i e, logits)")
    obtain e1' where ev': "eval_prompt f table prompt (?i ?e0, logits) = (r1, e1', l1)" and tw1: "twins f e1 e1'"
      using same st(1) ev q(1) by (cases "eval_prompt f table (drop n prompt) (q, logits)")
        (auto simp: same_reply_def)
    note cases = eval_prompt_cases [OF ev] eval_prompt_cases [OF ev']
    show ?thesis
    proof (cases r1)
      case (Inl x)
      then show ?thesis
        using ev ev' tw1 Inr check0 st0 cases
        by (simp add: prefill_inner_def prefill_fresh_def prefill_def refused_or_same_def clones_def)
    next
      case r1: (Inr w)
      have live: "en_state e1 = ST_RESET" using cases r1 st by simp
      obtain r2 e2 l2 where pub: "publish_step (e1\<lparr>en_emitted := 1\<rparr>, l1) = (r2, e2, l2)"
        by (cases "publish_step (e1\<lparr>en_emitted := 1\<rparr>, l1)")
      obtain e2' where pub': "publish_step (e1'\<lparr>en_emitted := 1\<rparr>, l1) = (r2, e2', l2)" and tw2: "twins f e2 e2'"
        using publish_twins [OF twins_step(2) [OF tw1], of 1 l1] live pub
        by (cases "publish_step (e1'\<lparr>en_emitted := 1\<rparr>, l1)") (auto simp: same_reply_def)
      note out = publish_cases [OF pub] publish_cases [OF pub']
      have run: "prefill_inner f table (drop n prompt) reserve True (e, logits) = (r2, e2, l2)"
        "prefill f table prompt reserve (?e0, logits) = (r2, e2', l2)"
        using Inr check0 ev ev' r1 pub pub' st0 by (simp_all add: prefill_inner_def prefill_def)
      show ?thesis
      proof (cases r2)
        case (Inl x)
        then show ?thesis
          using run out tw2 by (simp add: prefill_fresh_def refused_or_same_def clones_def)
      next
        case r2: (Inr step)
        have "en_prefix e2 = retain_prefix prompt n"
          using out r2 cases r1 prompts by simp
        moreover have "twins f e2 (e2'\<lparr>en_prefix := retain_prefix prompt n\<rparr>)"
          by (rule twins_prefix_right [OF tw2])
        ultimately show ?thesis
          using run r2 by (simp add: prefill_fresh_def refused_or_same_def clones_def)
      qed
    qed
  qed
qed

lemma prefix_reuse:
  assumes ok: "engine_ok e" and hist: "remembers f table hist e" and st: "en_state e = ST_RESET"
  shows "refused_or_same f e (reset_state e) logits
    (prefill_with_prefix f table prompt n reserve (e, logits))
    (prefill_with_prefix f table prompt n reserve (reset_state e, logits))"
proof -
  have reset: "reset_state (reset_state e) = reset_state e" by (simp add: reset_state_def)
  have refl: "clones f (reset_state e) (reset_state e)"
    by (simp add: clones_def twins_refl reset_state_def)
  have fresh: "prefill_with_prefix f table prompt n reserve (reset_state e, logits) =
      (if n = 0 \<or> n \<ge> length prompt \<or> n > MAX_TOKENS
       then (Inl (infer_fail IS_CONTEXT ID_PROMPT NO_LAYER 0 NO_TENSOR 1 n IK_CONTEXT 3), reset_state e, logits)
       else prefill_fresh f table prompt n reserve (reset_state e, logits))"
    unfolding prefill_with_prefix_def prod.case reset by (simp add: reset_state_def)
  have same: "refused_or_same f e (reset_state e) logits x y" if "same_reply (clones f) x y" for x y
    using that by (auto simp: refused_or_same_def same_reply_def)
  note again = same [OF prefill_fresh_clones [OF refl]]
  show ?thesis
  proof (cases "n = 0 \<or> n \<ge> length prompt \<or> n > MAX_TOKENS")
    case True
    then show ?thesis
      unfolding fresh using refl by (auto simp: prefill_with_prefix_def refused_or_same_def)
  next
    case valid: False
    then have n: "0 < n" "n < length prompt" by simp_all
    show ?thesis
    proof (cases "rp_len (en_prefix e) = 0")
      case True
      have "en_prefix e = prefix_clear"
        using hist True by (simp add: remembers_def retain_prefix_def prefix_clear_def)
      moreover have "alike e (reset_state e)"
        using ok st True by (simp add: alike_def reset_state_def engine_ok_def)
      ultimately have "clones f e (reset_state e)"
        using ok st by (auto simp: clones_def engine_ok_def reset_state_def intro!: alike_twins)
      then have "same_reply (clones f) (prefill_fresh f table prompt n reserve (e, logits))
          (prefill_fresh f table prompt n reserve (reset_state e, logits))"
        by (rule prefill_fresh_clones)
      then show ?thesis
        unfolding fresh using valid True by (simp add: prefill_with_prefix_def same)
    next
      case False
      then show ?thesis
        unfolding fresh using valid st again prefix_reuse_matched [OF ok hist _ n]
        by (simp add: prefill_with_prefix_def)
    qed
  qed
qed

section \<open>Properties\<close>

section \<open>The processors of an engine\<close>

text \<open>No operation changes the model, the backend or the dispatcher an engine was built with.\<close>

definition same_processors :: "engine \<Rightarrow> engine \<Rightarrow> bool" where
  "same_processors e e' \<longleftrightarrow> en_model e' = en_model e \<and> en_backend e' = en_backend e \<and>
     en_dispatcher e' = en_dispatcher e"

lemma same_processors_refl [simp]: "same_processors e e"
  by (simp add: same_processors_def)

lemma same_processors_trans: "same_processors e e' \<Longrightarrow> same_processors e' e'' \<Longrightarrow> same_processors e e''"
  by (simp add: same_processors_def)

lemma same_processors_updates [simp]:
  "same_processors (e\<lparr>en_reserve := a, en_emitted := b\<rparr>) d = same_processors e d"
  "same_processors (e\<lparr>en_emitted := b\<rparr>) d = same_processors e d"
  "same_processors (e\<lparr>en_reserve := a\<rparr>) d = same_processors e d"
  "same_processors (reset_state e) d = same_processors e d"
  "same_processors d (reset_state e) = same_processors d e"
  "same_processors d (e\<lparr>en_prefix := p\<rparr>) = same_processors d e"
  by (simp_all add: same_processors_def reset_state_def)

lemma evaluate_processors:
  "evaluate f table token produce (e, logits) = (r, e', logits') \<Longrightarrow> same_processors e e'"
  using evaluate_frame [of f table token produce e logits r e' logits'] frame_fields [of e e'] advanced_fields [of e e']
  by (cases r) (simp_all add: same_processors_def)

lemma fault_processors:
  "same_processors e (fst (snd (fault x (e, logits))))"
  "snd (fault x (e, logits)) = (e', logits') \<Longrightarrow> same_processors e e'"
  by (auto simp: fault_def same_processors_def)

lemma eval_prompt_processors:
  "eval_prompt f table prompt (e, logits) = (r, e', logits') \<Longrightarrow> same_processors e e'"
proof (induction prompt arbitrary: e logits)
  case (Cons token rest)
  obtain q e1 l1 where run: "evaluate f table token (rest = []) (e, logits) = (q, e1, l1)"
    by (cases "evaluate f table token (rest = []) (e, logits)")
  have "same_processors e1 e'"
    using Cons run by (cases q) (auto simp: fail_with_def intro: fault_processors split: prod.splits)
  then show ?case by (rule same_processors_trans [OF evaluate_processors [OF run]])
qed simp

lemma publish_processors: "publish_step (e, logits) = (r, e', logits') \<Longrightarrow> same_processors e e'"
  by (auto simp: publish_step_def fail_with_def Let_def same_processors_def fault_def
      split: option.splits prod.splits)

lemma prefill_inner_processors:
  assumes "prefill_inner f table prompt reserve appending (e, logits) = (r, e', logits')"
  shows "same_processors e e'"
proof -
  let ?e = "e\<lparr>en_reserve := reserve, en_emitted := 0\<rparr>"
  obtain r1 e1 l1 where ev: "eval_prompt f table prompt (?e, logits) = (r1, e1, l1)"
    by (cases "eval_prompt f table prompt (?e, logits)")
  show ?thesis
    using assms ev eval_prompt_processors [OF ev] publish_processors [of "e1\<lparr>en_emitted := 1\<rparr>" l1 r e' logits']
    by (auto simp: prefill_inner_def intro: same_processors_trans split: sum.splits)
qed

lemma prefill_fresh_processors:
  assumes "prefill_fresh f table prompt n reserve (e, logits) = (r, e', logits')"
  shows "same_processors e e'"
  using assms prefill_inner_processors
  by (auto simp: prefill_fresh_def prefill_def split: prod.splits sum.splits if_splits)

lemma decode_processors:
  assumes "decode_inner f table token greedy (e, logits) = (r, e', logits')"
  shows "same_processors e e'"
proof -
  obtain q e1 l1 where run: "evaluate f table token True (e, logits) = (q, e1, l1)"
    by (cases "evaluate f table token True (e, logits)")
  note first = evaluate_processors [OF run]
  show ?thesis
    using assms run first publish_processors [of "e1\<lparr>en_emitted := en_emitted e1 + 1\<rparr>" l1 r e' logits']
    by (auto simp: decode_inner_def fail_with_def intro: same_processors_trans fault_processors
        split: sum.splits prod.splits)
qed

lemma operation_processors:
  "run_operation f table oper (e, logits) = (r, e', logits') \<Longrightarrow> same_processors e e'"
  using prefill_inner_processors prefill_fresh_processors [of f table] decode_processors
  by (cases oper) (auto simp: prefill_def append_prefill_def decode_def decode_selected_def
      prefill_with_prefix_def reset_to_prefix_def Let_def same_processors_def reset_state_def
      split: if_splits inference_state.splits prod.splits)

lemma after_processors: "same_processors e (fst (after f table opers (e, logits)))"
proof (induction opers arbitrary: e logits)
  case (Cons oper rest)
  obtain r d l where run: "run_operation f table oper (e, logits) = (r, d, l)"
    by (cases "run_operation f table oper (e, logits)")
  show ?case using same_processors_trans [OF operation_processors [OF run] Cons.IH] run by simp
qed simp

lemma built_blank:
  assumes "engine_build model kv kv_len kv_address scratch_len scratch_address b d = Inr e0"
    "engine_build model kv' kv_len' kv_address' scratch_len' scratch_address' b d = Inr e1"
    "same_processors e0 e"
  shows "alike (blank kv' e) e1"
  using assms by (auto simp: engine_build_def alike_def same_processors_def split: option.splits)

section \<open>Properties\<close>

text \<open>
  C39: An engine is its history. The tokens an engine has evaluated are a function of the operations
  it was asked and their outcomes (history_of): after any operations on a built engine, unless it is
  faulted, they are as many as its position, the retained prefix is the beginning of them, evaluated
  without logits, and every engine built for the same model and processors over any other memory,
  whatever keys and values that memory contains, comes to the same position with the same keys and
  values at every position before it when it evaluates them from its start.
\<close>

theorem engine_is_its_history:
  "case (engine_build model kv kv_len kv_address scratch_len scratch_address b d,
      engine_build model kv' kv_len' kv_address' scratch_len' scratch_address' b d) of
     (Inr e0, Inr fresh) \<Rightarrow>
       (case (after f table opers (e0, logits), history_of f table opers (e0, logits) []) of
          ((e, l), hist) \<Rightarrow>
            if en_state e = ST_FAULTED then True
            else length hist = en_position e \<and>
              en_prefix e = retain_prefix (map fst hist) (rp_len (en_prefix e)) \<and>
              list_all (\<lambda>(token, produce). \<not> produce) (take (rp_len (en_prefix e)) hist) \<and>
              (case absorb f table hist fresh of
                 None \<Rightarrow> False
               | Some e1 \<Rightarrow> alike e1 e))
   | _ \<Rightarrow> True"
proof (cases "engine_build model kv kv_len kv_address scratch_len scratch_address b d")
  case e0: (Inr e0)
  show ?thesis
  proof (cases "engine_build model kv' kv_len' kv_address' scratch_len' scratch_address' b d")
    case fresh: (Inr fresh)
    obtain e l where run: "after f table opers (e0, logits) = (e, l)"
      by (cases "after f table opers (e0, logits)")
    let ?hist = "history_of f table opers (e0, logits) []"
    have reach: "reachable f table e0" by (rule reachable.built [OF e0])
    have track: "tracked f table ?hist e"
      using history_tracked [OF reach built_tracked [OF e0], of opers logits] run by simp
    have ok: "engine_ok e" using reachable_ok [OF after_reachable [OF reach, of opers logits]] run by simp
    have start: "alike (blank kv' e) fresh"
      using built_blank [OF e0 fresh] after_processors [of e0 f table opers logits] run by simp
    have "\<exists>e1. absorb f table ?hist fresh = Some e1 \<and> alike e1 e" if h: "holds f table ?hist e"
    proof -
      obtain d where d: "absorb f table ?hist (blank kv' e) = Some d" "alike d e" by (rule holdsD [OF h])
      have "en_position (blank kv' e) + length ?hist \<le> CONTEXT_LIMIT" using holds_limit [OF ok h] by simp
      from absorb_alike [OF start this d(1)] show ?thesis using alike_trans [OF alike_sym d(2)] by blast
    qed
    then show ?thesis
      using e0 fresh run track
      by (auto simp: tracked_def remembers_def holds_def list_all_iff)
  qed (use e0 in simp)
qed simp

text \<open>
  C7: A retained prefix is a fresh one. After any operations on a built engine, if it stands in
  RESET (with whatever prefix it has retained), a prompt with a prefix gives the same step, the same
  error, the same logits and the same state as on the same engine reset completely, or both refuse
  the request and change nothing.
\<close>

theorem retained_prefix_is_fresh:
  "case engine_build model kv kv_len kv_address scratch_len scratch_address b d of
     Inl x \<Rightarrow> True
   | Inr e0 \<Rightarrow> (case after f table opers (e0, logits) of (e, l) \<Rightarrow>
       if en_state e = ST_RESET
       then refused_or_same f e (reset_state e) l
         (prefill_with_prefix f table prompt n reserve (e, l))
         (prefill_with_prefix f table prompt n reserve (reset_state e, l))
       else True)"
proof (cases "engine_build model kv kv_len kv_address scratch_len scratch_address b d")
  case (Inr e0)
  obtain e l where run: "after f table opers (e0, logits) = (e, l)"
    by (cases "after f table opers (e0, logits)")
  note reach = after_reachable [OF reachable.built [OF Inr], of f table opers logits, unfolded run fst_conv]
  have "en_state e = ST_RESET \<Longrightarrow> \<exists>hist. remembers f table hist e"
    using reachable_tracked [OF reach] by (auto simp: tracked_def)
  then show ?thesis using prefix_reuse [OF reachable_ok [OF reach]] Inr run by auto
qed simp

end
