(* ===== verification/PB_Console.thy ===== *)
theory PB_Console
  imports PB_Status PB_Contract
begin

text \<open>
  The console and the event sink of \<open>src/main.rs\<close>: the status row painted over the screen, the
  content output through the scrollback, paging and redrawing, and the event records written to
  the serial port and, when the display of events is on, to the screen. The firmware's text
  output and serial port are a record of functions of the calls made so far; the state carries
  the list of those calls. A call that fails is its non-zero status. Saving and restoring the
  processor's floating point control state around the calls has no effect on this state.
\<close>

section \<open>The firmware's console\<close>

definition DEVICE_ERROR :: nat where "DEVICE_ERROR = 2 ^ 63 + 7"

datatype screen_call =
    ClearScreen
  | QueryMode nat
  | SetCursorPosition nat nat
  | SetTextAttribute nat
  | EnableCursor
  | OutputString "u16 list"
  | SerialWrite bytes

record screen_mode =
  md_mode :: "32 word"
  md_attribute :: "32 word"
  md_column :: "32 word"
  md_row :: "32 word"

text \<open>
  \<open>sc_mode\<close> is what the mode structure holds after the calls made so far, \<open>sc_geometry\<close> the columns
  and rows a mode query stores, \<open>sc_written\<close> the length a serial write stores; a function entry
  that is null is \<open>False\<close>.
\<close>

record screen =
  sc_mode_present :: bool
  sc_has_attribute :: bool
  sc_has_cursor :: bool
  sc_has_enable :: bool
  sc_mode :: "screen_call list \<Rightarrow> screen_mode"
  sc_geometry :: "screen_call list \<Rightarrow> nat \<Rightarrow> nat \<times> nat"
  sc_reply :: "screen_call list \<Rightarrow> screen_call \<Rightarrow> nat"
  sc_written :: "screen_call list \<Rightarrow> bytes \<Rightarrow> nat"

record console =
  cn_conout :: bool
  cn_serial :: bool
  cn_display :: bool
  cn_record_failed :: bool
  cn_fatal :: bool
  cn_history :: console_history
  cn_active :: bool
  cn_columns :: nat
  cn_row :: "u16 list"
  cn_calls :: "screen_call list"

text \<open>An operation of the console; \<open>;;\<close> of the code after a \<open>?\<close> is \<open>and_then\<close>.\<close>

type_synonym 'a conop = "console \<Rightarrow> (nat + 'a) \<times> console"

definition and_then :: "unit conop \<Rightarrow> 'a conop \<Rightarrow> 'a conop" where
  "and_then a b con = (case a con of (Inl status, con) \<Rightarrow> (Inl status, con) | (Inr _, con) \<Rightarrow> b con)"

fun for_each :: "('a \<Rightarrow> unit conop) \<Rightarrow> 'a list \<Rightarrow> unit conop" where
  "for_each f [] con = (Inr (), con)"
| "for_each f (x # xs) con = and_then (f x) (for_each f xs) con"

definition log_calls :: "screen_call list \<Rightarrow> console \<Rightarrow> console" where
  "log_calls cs con = con\<lparr>cn_calls := cn_calls con @ cs\<rparr>"

definition invoke :: "screen \<Rightarrow> screen_call \<Rightarrow> unit conop" where
  "invoke fw call con =
     (let status = sc_reply fw (cn_calls con) call; con = log_calls [call] con
      in if status = 0 then (Inr (), con) else (Inl status, con))"

definition status_of :: "nat + 'a \<Rightarrow> nat" where
  "status_of r = (case r of Inl status \<Rightarrow> status | Inr _ \<Rightarrow> 0)"

text \<open>
  A routine of the status bar with a callback into the console: its callback replies by making
  the calls it has asked for so far, in their order.
\<close>

definition replay :: "('c \<Rightarrow> unit conop) \<Rightarrow> 'c list \<Rightarrow> console \<Rightarrow> console" where
  "replay step cs con = fold (\<lambda>c con. snd (step c con)) cs con"

definition driven ::
  "('c \<Rightarrow> unit conop) \<Rightarrow> (('c list \<Rightarrow> 'c \<Rightarrow> nat) \<Rightarrow> (nat + 'a) \<times> 'c list) \<Rightarrow> 'a conop" where
  "driven step routine con =
     (case routine (\<lambda>h c. status_of (fst (step c (replay step h con)))) of
        (r, h) \<Rightarrow> (r, replay step h con))"

section \<open>Output to the screen\<close>

definition set_console_cursor :: "screen \<Rightarrow> nat \<Rightarrow> nat \<Rightarrow> unit conop" where
  "set_console_cursor fw col row con =
     (if \<not> cn_conout con \<or> \<not> sc_has_cursor fw then (Inl DEVICE_ERROR, con)
      else invoke fw (SetCursorPosition col row) con)"

definition enable_console_cursor :: "screen \<Rightarrow> unit conop" where
  "enable_console_cursor fw con =
     (if \<not> cn_conout con \<or> \<not> sc_has_enable fw then (Inl DEVICE_ERROR, con)
      else invoke fw EnableCursor con)"

function chunks :: "nat \<Rightarrow> 'a list \<Rightarrow> 'a list list" where
  "chunks n xs = (if xs = [] \<or> n = 0 then [] else take n xs # chunks n (drop n xs))"
  by pat_completeness auto
termination by (relation "measure (\<lambda>(_, xs). length xs)") auto

declare chunks.simps [simp del]

text \<open>A chunk is copied in front of a terminating zero; the call is logged with the chunk.\<close>

definition raw_conout_utf16 :: "screen \<Rightarrow> u16 list \<Rightarrow> unit conop" where
  "raw_conout_utf16 fw units con =
     (if \<not> cn_conout con then (Inl DEVICE_ERROR, con)
      else for_each (\<lambda>chunk. invoke fw (OutputString chunk)) (chunks 256 units) con)"

definition raw_content_utf16 :: "screen \<Rightarrow> u16 list \<Rightarrow> nat \<Rightarrow> nat \<Rightarrow> nat conop" where
  "raw_content_utf16 fw units col w =
     driven (raw_conout_utf16 fw) (\<lambda>reply. write_content_with_wrap reply units col w [])"

section \<open>The status row\<close>

fun row_call :: "screen \<Rightarrow> console_call \<Rightarrow> unit conop" where
  "row_call fw (SetCursor col row) = invoke fw (SetCursorPosition col row)"
| "row_call fw (SetAttribute attribute) = invoke fw (SetTextAttribute attribute)"
| "row_call fw (OutputUnits units) = raw_conout_utf16 fw units"

definition paint_status_row :: "screen \<Rightarrow> u16 list \<Rightarrow> unit conop" where
  "paint_status_row fw units con =
     (let mode = sc_mode fw (cn_calls con) in
      if \<not> cn_conout con \<or> \<not> sc_mode_present fw \<or> \<not> sc_has_attribute fw \<or> \<not> sc_has_cursor fw
      then (Inl DEVICE_ERROR, con)
      else if sint (md_column mode) < 0 \<or> sint (md_row mode) < 0 \<or> sint (md_attribute mode) < 0
      then (Inl DEVICE_ERROR, con)
      else driven (row_call fw)
        (\<lambda>reply. render_status_row reply (unat (md_attribute mode)) (unat (md_column mode))
           (unat (md_row mode)) 0 units []) con)"

definition status_unit :: "u8 \<Rightarrow> u16" where
  "status_unit b = (if b < 128 then ucast b else 63)"

definition render_status_ascii :: "screen \<Rightarrow> bytes \<Rightarrow> unit conop" where
  "render_status_ascii fw bs con =
     (if \<not> cn_active con then (Inl DEVICE_ERROR, con)
      else
        let safe_cells = cn_columns con - 1;
            rendered = replicate (length (cn_row con)) 32;
            rendered = write_at rendered 0 (map status_unit (take safe_cells bs));
            con = con\<lparr>cn_row := rendered\<rparr>
        in paint_status_row fw (take safe_cells rendered) con)"

definition restore_status_row :: "screen \<Rightarrow> unit conop" where
  "restore_status_row fw con =
     (if \<not> cn_active con then (Inl DEVICE_ERROR, con)
      else paint_status_row fw (take (cn_columns con - 1) (cn_row con)) con)"

section \<open>Redrawing\<close>

definition redraw_plain_row :: "screen \<Rightarrow> nat \<Rightarrow> nat \<Rightarrow> unit conop" where
  "redraw_plain_row fw lines row con =
     (case viewport_line (cn_history con) row of (line, hard_break) \<Rightarrow>
        and_then (raw_conout_utf16 fw line)
          (if hard_break \<and> row + 1 < lines then raw_conout_utf16 fw [0x000d, 0x000a]
           else (\<lambda>con. (Inr (), con))) con)"

definition redraw_row :: "screen \<Rightarrow> nat \<Rightarrow> unit conop" where
  "redraw_row fw row con =
     (case viewport_line (cn_history con) row of (line, _) \<Rightarrow>
        if line = [] then (Inr (), con)
        else and_then (set_console_cursor fw 0 (row + 1))
          (if is_serial_evidence_line line
           then and_then (raw_conout_utf16 fw (take 1 line))
                  (and_then (set_console_cursor fw 1 (row + 1)) (raw_conout_utf16 fw (drop 1 line)))
           else raw_conout_utf16 fw line) con)"

definition redraw_console_history :: "screen \<Rightarrow> unit conop" where
  "redraw_console_history fw con =
     (if \<not> cn_conout con then (Inl DEVICE_ERROR, con)
      else
        let lines = viewport_len (cn_history con); rs = [0..<lines] in
        if \<not> cn_active con
        then and_then (invoke fw ClearScreen) (for_each (redraw_plain_row fw lines) rs) con
        else and_then (invoke fw ClearScreen)
          (and_then (for_each (redraw_row fw) rs)
            (\<lambda>con. case viewport_cursor (cn_history con) of (col, row) \<Rightarrow>
               and_then (set_console_cursor fw col (row + 1)) (restore_status_row fw) con)) con)"

section \<open>Content\<close>

text \<open>The text is recorded in the scrollback and then written at the cursor the scrollback has.\<close>

definition marked_content :: "screen \<Rightarrow> u16 list \<Rightarrow> nat \<Rightarrow> nat \<Rightarrow> unit conop" where
  "marked_content fw units col w con =
     (case raw_content_utf16 fw (take 1 units) col w con of
        (Inl status, con) \<Rightarrow> (Inl status, con)
      | (Inr next_column, con) \<Rightarrow>
          let mode = sc_mode fw (cn_calls con) in
          if sint (md_column mode) < 0 \<or> sint (md_row mode) < 0 then (Inl DEVICE_ERROR, con)
          else and_then (set_console_cursor fw (unat (md_column mode)) (unat (md_row mode)))
            (\<lambda>con. case raw_content_utf16 fw (drop 1 units) next_column w con of
               (Inl status, con) \<Rightarrow> (Inl status, con) | (Inr _, con) \<Rightarrow> (Inr (), con)) con)"

definition plain_content :: "screen \<Rightarrow> u16 list \<Rightarrow> nat \<Rightarrow> nat \<Rightarrow> unit conop" where
  "plain_content fw units col w con =
     (case raw_content_utf16 fw units col w con of
        (Inl status, con) \<Rightarrow> (Inl status, con) | (Inr _, con) \<Rightarrow> (Inr (), con))"

definition write_content :: "screen \<Rightarrow> u16 list \<Rightarrow> unit conop" where
  "write_content fw units con =
     (let history = cn_history con;
          written = con\<lparr>cn_history := history_write history units\<rparr>;
          w = width history
      in if \<not> cn_active con then raw_conout_utf16 fw units written
         else case viewport_cursor history of (col, row) \<Rightarrow>
           (case native_scrolls_for_output units col row w (rows history) of
              None \<Rightarrow> (Inl DEVICE_ERROR, con)
            | Some scrolls \<Rightarrow>
                and_then (set_console_cursor fw col (row + 1))
                  (and_then
                    (if is_event_boundary_line units \<or> is_serial_evidence_line units
                     then marked_content fw units col w else plain_content fw units col w)
                    (if scrolls = 0 then (\<lambda>con. (Inr (), con)) else restore_status_row fw)) written))"

definition console_output_utf16 :: "screen \<Rightarrow> u16 list \<Rightarrow> unit conop" where
  "console_output_utf16 fw units con =
     (case return_to_bottom (cn_history con) of (returned, history) \<Rightarrow>
        and_then (if returned then redraw_console_history fw else (\<lambda>con. (Inr (), con)))
          (write_content fw units) (con\<lparr>cn_history := history\<rparr>))"

definition write_conout_utf16_checked :: "screen \<Rightarrow> u16 list \<Rightarrow> unit conop" where
  "write_conout_utf16_checked fw units con =
     (if length units > 132 \<or> list_ex (\<lambda>u. u = 0) units then (Inl DEVICE_ERROR, con)
      else console_output_utf16 fw units con)"

definition write_conout_ascii :: "screen \<Rightarrow> bytes \<Rightarrow> console \<Rightarrow> console" where
  "write_conout_ascii fw bs con =
     snd (console_output_utf16 fw (map ucast (take 1024 bs)) con)"

definition write_ascii_checked :: "screen \<Rightarrow> bytes \<Rightarrow> unit conop" where
  "write_ascii_checked fw bs con =
     (if length bs > 132 \<or> list_ex (\<lambda>b. \<not> b < 128 \<or> b = 0) bs then (Inl DEVICE_ERROR, con)
      else write_conout_utf16_checked fw (map ucast bs) con)"

definition scroll_console_page :: "screen \<Rightarrow> bool \<Rightarrow> unit conop" where
  "scroll_console_page fw up con =
     (case (if up then page_up (cn_history con) else page_down (cn_history con)) of
        (changed, history) \<Rightarrow>
          let con = con\<lparr>cn_history := history\<rparr>
          in if changed then redraw_console_history fw con else (Inr (), con))"

definition reset_console_history :: "screen \<Rightarrow> unit conop" where
  "reset_console_history fw con =
     (let con = con\<lparr>cn_history := history_reset (cn_history con)\<rparr>
      in if cn_active con then and_then (redraw_console_history fw) (enable_console_cursor fw) con
         else if \<not> cn_conout con then (Inl DEVICE_ERROR, con)
         else and_then (invoke fw ClearScreen) (enable_console_cursor fw) con)"

section \<open>Setting the console up\<close>

definition initialize_console_history :: "screen \<Rightarrow> (nat \<times> nat) conop" where
  "initialize_console_history fw con =
     (let mode = sc_mode fw (cn_calls con) in
      if \<not> sc_mode_present fw \<or> sint (md_mode mode) < 0 then (Inl DEVICE_ERROR, con)
      else
        let query = QueryMode (unat (md_mode mode));
            status = sc_reply fw (cn_calls con) query;
            (columns, rs) = sc_geometry fw (cn_calls con) (unat (md_mode mode));
            con = log_calls [query] con
        in if status \<noteq> 0 \<or> columns = 0 \<or> rs = 0
           then (Inl (if status = 0 then DEVICE_ERROR else status), con)
           else case enable_console_cursor fw
                  (con\<lparr>cn_history := configure (cn_history con) columns rs\<rparr>) of
               (Inl status, con) \<Rightarrow> (Inl status, con)
             | (Inr _, con) \<Rightarrow> (Inr (columns, rs), con))"

definition initialize_model_status :: "screen \<Rightarrow> nat \<Rightarrow> nat \<Rightarrow> console \<Rightarrow> (bytes + unit) \<times> console" where
  "initialize_model_status fw physical_columns physical_rows con =
     (if \<not> cn_conout con \<or> \<not> sc_has_attribute fw \<or> \<not> sc_has_cursor fw
      then (Inl (ascii ''STATUS_BINDING''), con)
      else case bounded_status_geometry physical_columns physical_rows of
        None \<Rightarrow> (Inl (ascii ''STATUS_GEOMETRY''), con)
      | Some (columns, rs) \<Rightarrow>
        (case invoke fw ClearScreen con of
           (Inl _, con) \<Rightarrow> (Inl (ascii ''STATUS_RENDER''), con)
         | (Inr _, con) \<Rightarrow>
             let con = con\<lparr>cn_history := configure (cn_history con) (columns - 1) (rs - 1),
                   cn_active := True, cn_columns := columns\<rparr>;
                 (len, line) = loading_line 0 (replicate (columns - 1) 0)
             in (case and_then (render_status_ascii fw (take len line)) (set_console_cursor fw 0 1) con of
                   (Inl _, con) \<Rightarrow> (Inl (ascii ''STATUS_RENDER''), con)
                 | (Inr _, con) \<Rightarrow> (Inr (), con))))"

section \<open>Event records\<close>

definition serial_write :: "screen \<Rightarrow> bytes \<Rightarrow> unit conop" where
  "serial_write fw bs con =
     (let status = sc_reply fw (cn_calls con) (SerialWrite bs);
          len = sc_written fw (cn_calls con) bs;
          con = log_calls [SerialWrite bs] con
      in if status \<noteq> 0 \<or> len \<noteq> length bs
         then (Inl (if status = 0 then DEVICE_ERROR else status), con) else (Inr (), con))"

definition write_serial_checked :: "screen \<Rightarrow> bytes \<Rightarrow> unit conop" where
  "write_serial_checked fw bs con =
     (if \<not> cn_serial con then (Inr (), con) else serial_write fw bs con)"

definition toggle_event_display :: "console \<Rightarrow> bool \<times> console" where
  "toggle_event_display con = (\<not> cn_display con, con\<lparr>cn_display := \<not> cn_display con\<rparr>)"

definition ends_crlf :: "bytes \<Rightarrow> bool" where
  "ends_crlf bs \<longleftrightarrow> length bs \<ge> 2 \<and> drop (length bs - 2) bs = [13, 10]"

definition record_fail :: "nat \<Rightarrow> unit conop" where
  "record_fail status con = (Inl status, con\<lparr>cn_record_failed := True\<rparr>)"

text \<open>The two sinks of a record: the screen when events are displayed, then the serial port.\<close>

definition record_to_serial :: "screen \<Rightarrow> bytes \<Rightarrow> bool \<Rightarrow> unit conop" where
  "record_to_serial fw bs display con =
     (if \<not> cn_serial con then (Inr (), con)
      else case and_then (serial_write fw bs)
             (if display then serial_write fw bs else (\<lambda>con. (Inr (), con))) con of
          (Inl status, con) \<Rightarrow> record_fail status con
        | (Inr _, con) \<Rightarrow> (Inr (), con))"

definition record_to_screen :: "screen \<Rightarrow> bytes \<Rightarrow> bool \<Rightarrow> unit conop" where
  "record_to_screen fw bs display con =
     (if \<not> display then (Inr (), con)
      else case console_output_utf16 fw (map ucast bs) con of
          (Inl status, con) \<Rightarrow> record_fail status con
        | (Inr _, con) \<Rightarrow> (Inr (), con))"

definition emit_record_checked :: "screen \<Rightarrow> bytes \<Rightarrow> unit conop" where
  "emit_record_checked fw bs con =
     (if cn_record_failed con then (Inl DEVICE_ERROR, con)
      else if length bs > 1023 \<or> \<not> ends_crlf bs then record_fail DEVICE_ERROR con
      else if cn_display con \<and> \<not> cn_conout con then record_fail DEVICE_ERROR con
      else if list_ex (\<lambda>b. \<not> b < 128) bs then record_fail DEVICE_ERROR con
      else let display = cn_display con
           in and_then (record_to_screen fw bs display) (record_to_serial fw bs display) con)"

definition emit_record :: "screen \<Rightarrow> bytes \<Rightarrow> console \<Rightarrow> bool \<times> console" where
  "emit_record fw bs con =
     (if cn_record_failed con then (False, con)
      else if length bs > 1023 \<or> \<not> ends_crlf bs \<or> list_ex (\<lambda>b. \<not> b < 128) bs
      then (False, con\<lparr>cn_record_failed := True\<rparr>)
      else if cn_display con \<and> \<not> cn_conout con then (False, con\<lparr>cn_record_failed := True\<rparr>)
      else let display = cn_display con
           in (case and_then (record_to_screen fw bs display) (record_to_serial fw bs display) con of
                 (Inl _, con) \<Rightarrow> (False, con)
               | (Inr _, con) \<Rightarrow>
                   if bs = MODEL_RECORD_FATAL then (False, con\<lparr>cn_record_failed := True\<rparr>)
                   else (True, con)))"

definition validated_record_bytes :: "model_record \<Rightarrow> bytes" where
  "validated_record_bytes r =
     (case record_emission r of Inr bs \<Rightarrow> bs | Inl _ \<Rightarrow> MODEL_RECORD_FATAL)"

definition write_fatal_diagnostic :: "screen \<Rightarrow> bytes \<Rightarrow> console \<Rightarrow> console" where
  "write_fatal_diagnostic fw code con =
     write_conout_ascii fw [13, 10] (write_conout_ascii fw code
       (write_conout_ascii fw (ascii ''promptboot: fatal '') con))"

text \<open>What \<open>fatal\<close> does before it halts.\<close>

definition fatal :: "screen \<Rightarrow> bytes \<Rightarrow> console \<Rightarrow> console" where
  "fatal fw code con =
     (if cn_fatal con then con
      else
        let con = write_fatal_diagnostic fw code (con\<lparr>cn_fatal := True\<rparr>);
            r = record_push record_new (ascii ''PROMPTBOOT_EVENT v=1 event=FATAL code='');
            r = record_push r code;
            r = record_push r [13, 10]
        in if cn_serial con then snd (emit_record fw (validated_record_bytes r) con) else con)"

section \<open>What the operations add\<close>

text \<open>
  Most operations only make calls: they extend the list of calls, by calls that satisfy a predicate,
  and change nothing else.
\<close>

named_theorems adds_rules "operations that only make calls"

definition made :: "(screen_call \<Rightarrow> bool) \<Rightarrow> console \<Rightarrow> console \<Rightarrow> bool" where
  "made P con con' \<longleftrightarrow> (\<exists>cs. con' = log_calls cs con \<and> list_all P cs)"

definition adds :: "(screen_call \<Rightarrow> bool) \<Rightarrow> 'a conop \<Rightarrow> bool" where
  "adds P a \<longleftrightarrow> (\<forall>con. made P con (snd (a con)))"

lemma log_calls_Nil [simp]: "log_calls [] con = con"
  by (simp add: log_calls_def)

lemma log_calls_log_calls [simp]: "log_calls ds (log_calls cs con) = log_calls (cs @ ds) con"
  by (simp add: log_calls_def)

lemma log_calls_fields [simp]:
  "cn_conout (log_calls cs con) = cn_conout con" "cn_serial (log_calls cs con) = cn_serial con"
  "cn_display (log_calls cs con) = cn_display con"
  "cn_record_failed (log_calls cs con) = cn_record_failed con"
  "cn_fatal (log_calls cs con) = cn_fatal con" "cn_history (log_calls cs con) = cn_history con"
  "cn_active (log_calls cs con) = cn_active con" "cn_columns (log_calls cs con) = cn_columns con"
  "cn_row (log_calls cs con) = cn_row con" "cn_calls (log_calls cs con) = cn_calls con @ cs"
  by (simp_all add: log_calls_def)

lemma made_refl [simp, intro]: "made P con con"
  unfolding made_def by (rule exI [of _ "[]"]) simp

lemma made_trans: "made P con con' \<Longrightarrow> made P con' con'' \<Longrightarrow> made P con con''"
  unfolding made_def by (elim exE conjE) (rule exI [of _ "_ @ _"], simp)

lemma made_log: "list_all P cs \<Longrightarrow> made P con (log_calls cs con)"
  by (auto simp: made_def)

lemma addsI: "(\<And>con. made P con (snd (a con))) \<Longrightarrow> adds P a"
  by (simp add: adds_def)

lemma addsD: "adds P a \<Longrightarrow> a con = (r, con') \<Longrightarrow> made P con con'"
  by (metis adds_def snd_conv)

lemma addsD': "adds P a \<Longrightarrow> made P con (snd (a con))"
  by (simp add: adds_def)

lemma adds_nothing [adds_rules]: "adds P (\<lambda>con. (r con, con))"
  by (simp add: adds_def)

lemma made_and_then:
  assumes "adds P a" "adds P b"
  shows "made P con (snd (and_then a b con))"
proof (cases "a con")
  case (Pair r con')
  then show ?thesis
    using addsD [OF assms(1) Pair] addsD' [OF assms(2), of con'] made_trans
    by (cases r) (auto simp: and_then_def)
qed

lemma adds_and_then [adds_rules]: "adds P a \<Longrightarrow> adds P b \<Longrightarrow> adds P (and_then a b)"
  by (rule addsI) (rule made_and_then)

lemma adds_for_each [adds_rules]: "(\<And>x. adds P (f x)) \<Longrightarrow> adds P (for_each f xs)"
proof (induction xs)
  case (Cons x xs)
  have "adds P (and_then (f x) (for_each f xs))"
    by (rule adds_and_then [OF Cons.prems Cons.IH [OF Cons.prems]])
  then show ?case by (simp add: adds_def)
qed (simp add: adds_def)

lemma adds_invoke [adds_rules]: "P call \<Longrightarrow> adds P (invoke fw call)"
  by (rule addsI) (simp add: invoke_def Let_def made_log)

lemma replay_snoc: "replay step (cs @ [c]) con = snd (step c (replay step cs con))"
  by (simp add: replay_def)

lemma made_replay: "(\<And>c. adds P (step c)) \<Longrightarrow> made P con (replay step cs con)"
proof (induction cs rule: rev_induct)
  case (snoc c cs)
  show ?case
    unfolding replay_snoc
    by (rule made_trans [OF snoc.IH [OF snoc.prems] addsD' [OF snoc.prems]])
qed (simp add: replay_def)

lemma adds_driven [adds_rules]: "(\<And>c. adds P (step c)) \<Longrightarrow> adds P (driven step routine)"
  by (rule addsI) (simp add: driven_def made_replay split: prod.split)

lemma adds_cursor [adds_rules]: "P (SetCursorPosition col row) \<Longrightarrow> adds P (set_console_cursor fw col row)"
  by (rule addsI) (simp add: set_console_cursor_def addsD' adds_invoke)

lemma adds_enable [adds_rules]: "P EnableCursor \<Longrightarrow> adds P (enable_console_cursor fw)"
  by (rule addsI) (simp add: enable_console_cursor_def addsD' adds_invoke)

lemma adds_raw [adds_rules]:
  assumes "\<And>us. P (OutputString us)"
  shows "adds P (raw_conout_utf16 fw units)"
proof -
  have "adds P (for_each (\<lambda>chunk. invoke fw (OutputString chunk)) (chunks 256 units))"
    by (intro adds_rules assms)
  then show ?thesis by (simp add: adds_def raw_conout_utf16_def)
qed

lemma adds_content [adds_rules]: "(\<And>us. P (OutputString us)) \<Longrightarrow> adds P (raw_content_utf16 fw units col w)"
  unfolding raw_content_utf16_def by (intro adds_rules)

text \<open>The calls that are not writes to the serial port.\<close>

fun to_screen :: "screen_call \<Rightarrow> bool" where
  "to_screen (SerialWrite bs) = False"
| "to_screen call = True"

lemma adds_row_call [adds_rules]: "adds to_screen (row_call fw c)"
  by (cases c) (simp_all add: adds_def addsD' [OF adds_invoke] addsD' [OF adds_raw])

lemma adds_paint [adds_rules]: "adds to_screen (paint_status_row fw units)"
  by (rule addsI) (simp add: paint_status_row_def Let_def addsD' adds_driven adds_row_call)

lemma adds_restore [adds_rules]: "adds to_screen (restore_status_row fw)"
  by (rule addsI) (simp add: restore_status_row_def addsD' adds_paint)

lemma adds_redraw_row [adds_rules]: "adds to_screen (redraw_row fw row)"
proof (rule addsI)
  fix con
  have "made to_screen con (snd (and_then (set_console_cursor fw 0 (row + 1))
      (if is_serial_evidence_line line
       then and_then (raw_conout_utf16 fw (take 1 line))
              (and_then (set_console_cursor fw 1 (row + 1)) (raw_conout_utf16 fw (drop 1 line)))
       else raw_conout_utf16 fw line) con))" for line
    by (cases "is_serial_evidence_line line") (auto intro!: made_and_then adds_rules simp del: One_nat_def)
  then show "made to_screen con (snd (redraw_row fw row con))"
    by (simp add: redraw_row_def split_def)
qed

lemma adds_redraw_plain_row [adds_rules]: "adds to_screen (redraw_plain_row fw lines row)"
proof (rule addsI)
  fix con
  show "made to_screen con (snd (redraw_plain_row fw lines row con))"
    by (auto simp: redraw_plain_row_def split_def intro!: made_and_then adds_rules)
qed

lemma adds_redraw [adds_rules]: "adds to_screen (redraw_console_history fw)"
proof (rule addsI)
  fix con
  have "adds to_screen (\<lambda>con. case viewport_cursor (cn_history con) of (col, row) \<Rightarrow>
      and_then (set_console_cursor fw col (row + 1)) (restore_status_row fw) con)"
    by (rule addsI) (auto simp: split_def intro!: made_and_then adds_rules)
  then show "made to_screen con (snd (redraw_console_history fw con))"
    by (auto simp: redraw_console_history_def Let_def intro!: made_and_then adds_rules)
qed

lemma adds_plain [adds_rules]: "adds to_screen (plain_content fw units col w)"
  by (rule addsI) (auto simp: plain_content_def split: prod.splits sum.splits
    dest!: addsD [OF adds_content, where P = to_screen, rotated])

text \<open>The content changes the scrollback too.\<close>

definition shown :: "console \<Rightarrow> console \<Rightarrow> bool" where
  "shown con con' \<longleftrightarrow> (\<exists>h. made to_screen (con\<lparr>cn_history := h\<rparr>) con')"

lemma made_shown: "made to_screen con con' \<Longrightarrow> shown con con'"
  unfolding shown_def by (rule exI [of _ "cn_history con"]) simp

lemma shown_history: "shown (con\<lparr>cn_history := h\<rparr>) con' \<longleftrightarrow> shown con con'"
  by (simp add: shown_def)

lemma log_calls_history: "(log_calls cs con)\<lparr>cn_history := h\<rparr> = log_calls cs (con\<lparr>cn_history := h\<rparr>)"
  by (simp add: log_calls_def)

lemma shown_trans:
  assumes "shown con con'" "shown con' con''"
  shows "shown con con''"
proof -
  obtain h cs h' cs' where "con' = log_calls cs (con\<lparr>cn_history := h\<rparr>)" "list_all to_screen cs"
    "con'' = log_calls cs' (con'\<lparr>cn_history := h'\<rparr>)" "list_all to_screen cs'"
    using assms by (auto simp: shown_def made_def)
  then show ?thesis
    unfolding shown_def made_def by (intro exI [of _ h'] exI [of _ "cs @ cs'"])
      (simp add: log_calls_history)
qed

lemma adds_marked [adds_rules]: "adds to_screen (marked_content fw units col w)"
proof (rule addsI)
  fix con
  have content: "adds to_screen (raw_content_utf16 fw us c w)" for us c by (intro adds_rules) simp
  have rest: "adds to_screen (\<lambda>con. case raw_content_utf16 fw us c w con of
      (Inl status, con) \<Rightarrow> (Inl status, con) | (Inr _, con) \<Rightarrow> (Inr (), con))" for us c
    by (rule addsI) (auto split: prod.splits sum.splits dest: addsD [OF content])
  show "made to_screen con (snd (marked_content fw units col w con))"
  proof (cases "raw_content_utf16 fw (take 1 units) col w con")
    case (Pair r con')
    have "made to_screen con' (snd (and_then (set_console_cursor fw c r)
        (\<lambda>con. case raw_content_utf16 fw (drop 1 units) n w con of
           (Inl status, con) \<Rightarrow> (Inl status, con) | (Inr _, con) \<Rightarrow> (Inr (), con)) con'))" for c r n
      by (intro made_and_then adds_rules rest) simp
    with Pair addsD [OF content Pair] show ?thesis
      by (auto simp: marked_content_def Let_def split: sum.split intro: made_trans)
  qed
qed

lemma shown_written: "adds to_screen a \<Longrightarrow> shown con (snd (a (con\<lparr>cn_history := h\<rparr>)))"
  by (rule iffD1 [OF shown_history [where h = h]]) (rule made_shown [OF addsD'])

lemma shown_content: "shown con (snd (write_content fw units con))"
proof -
  let ?w = "con\<lparr>cn_history := history_write (cn_history con) units\<rparr>"
  obtain col row where cursor: "viewport_cursor (cn_history con) = (col, row)" by force
  have "adds to_screen (raw_conout_utf16 fw units)" by (rule adds_raw) simp
  note plain = shown_written [OF this, where con = con and h = "history_write (cn_history con) units"]
  have "adds to_screen (and_then (set_console_cursor fw col (row + 1))
      (and_then (if b then marked_content fw units col w else plain_content fw units col w)
        (if s = (0 :: nat) then (\<lambda>con. (Inr (), con)) else restore_status_row fw)))" for b w s
    by (cases b; cases s) (auto intro!: adds_rules)
  note active = shown_written [OF this, where con = con and h = "history_write (cn_history con) units"]
  show ?thesis
  proof (cases "cn_active con")
    case True
    then show ?thesis
      using active by (cases "native_scrolls_for_output units col row (width (cn_history con)) (rows (cn_history con))")
        (simp_all only: write_content_def Let_def cursor not_True_eq_False if_False prod.case option.case
          snd_conv made_shown [OF made_refl])
  qed (use plain in \<open>simp add: write_content_def\<close>)
qed

lemma shown_output: "shown con (snd (console_output_utf16 fw units con))"
proof -
  obtain b h where ret: "return_to_bottom (cn_history con) = (b, h)" by force
  define a where "a = (if b then redraw_console_history fw else (\<lambda>con. (Inr (), con)))"
  have a: "adds to_screen a" by (auto simp: a_def intro: adds_rules)
  obtain r con' where first: "a (con\<lparr>cn_history := h\<rparr>) = (r, con')"
    by (cases "a (con\<lparr>cn_history := h\<rparr>)")
  have one: "shown con con'" using shown_written [OF a, where con = con and h = h] first by simp
  have "console_output_utf16 fw units con = and_then a (write_content fw units) (con\<lparr>cn_history := h\<rparr>)"
    by (simp only: console_output_utf16_def ret prod.case a_def)
  then show ?thesis
    using one shown_trans [OF one shown_content [of con' fw units]] first
    by (cases r) (simp_all add: and_then_def)
qed

lemma shown_checked: "shown con (snd (write_conout_utf16_checked fw units con))"
  by (simp add: write_conout_utf16_checked_def shown_output made_shown)

lemma shown_ascii_checked: "shown con (snd (write_ascii_checked fw bs con))"
  by (simp add: write_ascii_checked_def shown_checked made_shown)

section \<open>The serial port\<close>

text \<open>
  What has been written to the serial port: for each write the status the firmware answered, the
  bytes it was given and how many of them it says it has stored. The firmware answers from the calls
  made before.
\<close>

fun port_writes :: "screen \<Rightarrow> screen_call list \<Rightarrow> screen_call list \<Rightarrow> (nat \<times> bytes \<times> nat) list" where
  "port_writes fw before [] = []"
| "port_writes fw before (call # calls) =
     (case call of
        SerialWrite bs \<Rightarrow> [(sc_reply fw before call, bs, sc_written fw before bs)]
      | _ \<Rightarrow> []) @ port_writes fw (before @ [call]) calls"

definition serial_writes :: "screen \<Rightarrow> console \<Rightarrow> (nat \<times> bytes \<times> nat) list" where
  "serial_writes fw con = port_writes fw [] (cn_calls con)"

lemma port_writes_append:
  "port_writes fw before (xs @ ys) = port_writes fw before xs @ port_writes fw (before @ xs) ys"
  by (induction xs arbitrary: before) simp_all

lemma port_writes_screen: "list_all to_screen cs \<Longrightarrow> port_writes fw before cs = []"
proof (induction cs arbitrary: before)
  case (Cons c cs)
  then show ?case by (cases c) simp_all
qed simp

lemma serial_writes_calls:
  "serial_writes fw (log_calls cs con) = serial_writes fw con @ port_writes fw (cn_calls con) cs"
  by (simp add: serial_writes_def port_writes_append)

lemma serial_writes_flag [simp]: "serial_writes fw (con\<lparr>cn_record_failed := f\<rparr>) = serial_writes fw con"
  by (simp add: serial_writes_def)

lemma shown_fields:
  assumes "shown con con'"
  shows "serial_writes fw con' = serial_writes fw con" "cn_serial con' = cn_serial con"
    "cn_display con' = cn_display con" "cn_record_failed con' = cn_record_failed con"
    "cn_conout con' = cn_conout con" "cn_fatal con' = cn_fatal con" "cn_active con' = cn_active con"
    "cn_columns con' = cn_columns con" "cn_row con' = cn_row con"
  using assms by (auto simp: shown_def made_def serial_writes_def port_writes_append port_writes_screen)

text \<open>A write succeeds exactly when the firmware reports that it has stored every byte.\<close>

definition port_failure :: "bytes \<Rightarrow> nat \<Rightarrow> nat \<Rightarrow> nat \<Rightarrow> bool" where
  "port_failure bs st len status \<longleftrightarrow> \<not> (st = 0 \<and> len = length bs) \<and> status = (if st = 0 then DEVICE_ERROR else st)"

lemma serial_write_facts:
  assumes "serial_write fw bs con = (r, con')"
  shows "cn_record_failed con' = cn_record_failed con"
    "case r of
       Inr _ \<Rightarrow> serial_writes fw con' = serial_writes fw con @ [(0, bs, length bs)]
     | Inl status \<Rightarrow> (\<exists>st len. serial_writes fw con' = serial_writes fw con @ [(st, bs, len)] \<and> port_failure bs st len status)"
  using assms by (auto simp: serial_write_def Let_def serial_writes_calls port_failure_def split: if_splits)

lemma record_to_screen_facts:
  assumes "record_to_screen fw bs display con = (r, con')"
  shows "serial_writes fw con' = serial_writes fw con" "cn_serial con' = cn_serial con"
    "cn_display con' = cn_display con"
    "cn_record_failed con' = (cn_record_failed con \<or> isl r)" "isl r \<Longrightarrow> display"
  using assms shown_output [of con fw "map ucast bs"]
  by (auto simp: record_to_screen_def record_fail_def shown_fields split: if_splits prod.splits sum.splits)

text \<open>
  What an attempt to write a number of copies leaves on the port: all of them whole, or some of them
  whole, fewer than asked for, and then one the firmware refused or cut short, with its status.
\<close>

definition port_outcome :: "screen \<Rightarrow> bytes \<Rightarrow> nat \<Rightarrow> console \<Rightarrow> nat + unit \<Rightarrow> console \<Rightarrow> bool" where
  "port_outcome fw bs many con r con' \<longleftrightarrow>
     (case r of
        Inr _ \<Rightarrow> serial_writes fw con' = serial_writes fw con @ replicate many (0, bs, length bs)
      | Inl status \<Rightarrow> (\<exists>k<many. \<exists>st len. port_failure bs st len status \<and>
          serial_writes fw con' = serial_writes fw con @ replicate k (0, bs, length bs) @ [(st, bs, len)]))"

lemma port_outcome_cong:
  "serial_writes fw con1 = serial_writes fw con \<Longrightarrow> port_outcome fw bs many con1 r con' = port_outcome fw bs many con r con'"
  by (simp only: port_outcome_def)

lemma port_failedI:
  "k < many \<Longrightarrow> port_failure bs st len status \<Longrightarrow>
     serial_writes fw con' = serial_writes fw con @ replicate k (0, bs, length bs) @ [(st, bs, len)] \<Longrightarrow>
     port_outcome fw bs many con (Inl status) con'"
  by (auto simp: port_outcome_def)

text \<open>How often a record is to be written to the serial port.\<close>

definition copies :: "console \<Rightarrow> nat" where
  "copies con = (if \<not> cn_serial con then 0 else if cn_display con then 2 else 1)"

lemma record_to_serial_facts:
  assumes "record_to_serial fw bs display con = (r, con')"
  shows "cn_record_failed con' = (cn_record_failed con \<or> isl r)"
    "port_outcome fw bs (if \<not> cn_serial con then 0 else if display then 2 else 1) con r con'"
proof -
  obtain r1 con1 where one: "serial_write fw bs con = (r1, con1)" by force
  obtain r2 con2 where two: "serial_write fw bs con1 = (r2, con2)" by force
  note facts = serial_write_facts [OF one] serial_write_facts [OF two]
  show "cn_record_failed con' = (cn_record_failed con \<or> isl r)"
    using assms one two facts
    by (cases r1; cases r2; cases display; cases "cn_serial con") (auto simp: record_to_serial_def and_then_def record_fail_def)
  show "port_outcome fw bs (if \<not> cn_serial con then 0 else if display then 2 else 1) con r con'"
  proof (cases "cn_serial con")
    case serial: True
    show ?thesis
    proof (cases r1)
      case (Inl status)
      then have run: "r = Inl status" "serial_writes fw con' = serial_writes fw con1"
        using assms one serial by (auto simp: record_to_serial_def and_then_def record_fail_def)
      obtain st len where "serial_writes fw con1 = serial_writes fw con @ [(st, bs, len)]" "port_failure bs st len status"
        using facts(2) Inl by auto
      then show ?thesis using run serial port_failedI [of 0 "if display then 2 else 1" bs st len status] by simp
    next
      case (Inr u)
      then have first: "serial_writes fw con1 = serial_writes fw con @ [(0, bs, length bs)]" using facts(2) by simp
      show ?thesis
      proof (cases display)
        case False
        then show ?thesis
          using assms one serial first Inr by (auto simp: record_to_serial_def and_then_def port_outcome_def)
      next
        case True
        then have run: "serial_writes fw con' = serial_writes fw con2" "r = r2"
          using assms one two serial Inr
          by (auto simp: record_to_serial_def and_then_def record_fail_def split: sum.splits prod.splits)
        show ?thesis
        proof (cases r2)
          case (Inl status)
          then obtain st len where "serial_writes fw con2 = serial_writes fw con1 @ [(st, bs, len)]"
            "port_failure bs st len status" using facts(4) by auto
          then show ?thesis
            using run serial first True Inl port_failedI [of 1 2 bs st len status] by simp
        next
          case (Inr u2)
          then show ?thesis using run serial first True facts(4) by (simp add: port_outcome_def numeral_2_eq_2)
        qed
      qed
    qed
  qed (use assms in \<open>auto simp: record_to_serial_def port_outcome_def\<close>)
qed

lemma emitted_facts:
  assumes "and_then (record_to_screen fw bs (cn_display con)) (record_to_serial fw bs (cn_display con)) con
    = (r, con')"
  shows "cn_record_failed con' = (cn_record_failed con \<or> isl r)"
    "isl r \<and> cn_display con \<and> serial_writes fw con' = serial_writes fw con \<or> port_outcome fw bs (copies con) con r con'"
proof -
  obtain r1 con1 where one: "record_to_screen fw bs (cn_display con) con = (r1, con1)" by force
  note screen = record_to_screen_facts [OF one]
  have "cn_record_failed con' = (cn_record_failed con \<or> isl r) \<and>
    (isl r \<and> cn_display con \<and> serial_writes fw con' = serial_writes fw con \<or> port_outcome fw bs (copies con) con r con')"
  proof (cases r1)
    case (Inl status)
    then show ?thesis using assms one screen by (auto simp: and_then_def)
  next
    case (Inr u)
    then have "record_to_serial fw bs (cn_display con) con1 = (r, con')"
      using assms one by (simp add: and_then_def)
    from record_to_serial_facts [OF this] show ?thesis
      using screen Inr port_outcome_cong [OF screen(1)] unfolding copies_def by simp
  qed
  then show "cn_record_failed con' = (cn_record_failed con \<or> isl r)"
    "isl r \<and> cn_display con \<and> serial_writes fw con' = serial_writes fw con \<or> port_outcome fw bs (copies con) con r con'"
    by simp_all
qed

text \<open>A record that is not a line of ASCII of at most 1,023 bytes, or cannot be displayed, is not emitted.\<close>

definition record_refused :: "bytes \<Rightarrow> console \<Rightarrow> bool" where
  "record_refused bs con \<longleftrightarrow> 1023 < length bs \<or> \<not> ends_crlf bs \<or>
     cn_display con \<and> \<not> cn_conout con \<or> list_ex (\<lambda>b. \<not> b < 128) bs"

section \<open>Properties\<close>

text \<open>
  C16: Event records on the serial port. When there is one, a record whose emission reports success has been
  written to it once, or twice while events are displayed: the firmware answered each of these writes
  with success and the full length, and there was no other. Without a serial port success says nothing
  of it: nothing is written. An emission that fails sets the failure flag; the record was refused and
  nothing was done, or it failed on the screen and nothing was written to the port, or the firmware
  stored fewer whole copies than asked for and then refused one or cut it short, which is the status
  reported. Once the flag is set nothing is done any more.
\<close>

theorem event_record_delivery:
  "case emit_record_checked fw bs con of
     (Inr _, con') \<Rightarrow> \<not> cn_record_failed con \<and> \<not> cn_record_failed con' \<and> \<not> record_refused bs con \<and>
       serial_writes fw con' = serial_writes fw con @ replicate (copies con) (0, bs, length bs)
   | (Inl status, con') \<Rightarrow> cn_record_failed con' \<and>
       (if cn_record_failed con then con' = con
        else if record_refused bs con then con' = con\<lparr>cn_record_failed := True\<rparr>
        else cn_display con \<and> serial_writes fw con' = serial_writes fw con \<or>
          list_ex (\<lambda>k. \<exists>st len. \<not> (st = 0 \<and> len = length bs) \<and> status = (if st = 0 then DEVICE_ERROR else st) \<and>
            serial_writes fw con' = serial_writes fw con @ replicate k (0, bs, length bs) @ [(st, bs, len)])
          [0..<copies con])"
proof (cases "cn_record_failed con \<or> record_refused bs con")
  case True
  then show ?thesis by (auto simp: emit_record_checked_def record_fail_def record_refused_def)
next
  case False
  obtain r con' where run: "and_then (record_to_screen fw bs (cn_display con))
      (record_to_serial fw bs (cn_display con)) con = (r, con')" by force
  note facts = emitted_facts [OF run]
  have emit: "emit_record_checked fw bs con = (r, con')"
    using False run by (auto simp: emit_record_checked_def record_refused_def Let_def)
  show ?thesis
  proof (cases r)
    case (Inl status)
    have flag: "cn_record_failed con'" "\<not> cn_record_failed con" "\<not> record_refused bs con" using facts(1) Inl False by simp_all
    from facts(2) show ?thesis
    proof
      assume "isl r \<and> cn_display con \<and> serial_writes fw con' = serial_writes fw con"
      then show ?thesis using flag unfolding emit by (simp add: Inl)
    next
      assume "port_outcome fw bs (copies con) con r con'"
      then obtain k st len where "k < copies con" "port_failure bs st len status"
        "serial_writes fw con' = serial_writes fw con @ replicate k (0, bs, length bs) @ [(st, bs, len)]"
        unfolding port_outcome_def Inl by auto
      then show ?thesis using flag unfolding emit port_failure_def by (simp only: Inl list_ex_iff) auto
    qed
  next
    case (Inr u)
    then show ?thesis using facts False unfolding emit port_outcome_def by simp
  qed
qed

end
