(* ===== verification/PB_Turn.thy ===== *)
theory PB_Turn
  imports PB_Console PB_Retained PB_Prompt PB_Utf8 PB_Events
begin

text \<open>
  The state of the model REPL (\<open>src/model_repl.rs\<close>) and one turn of it: the decision what part of
  the conversation to keep, the prompt, the generation loop with its interrupts, and the end of a
  turn, which commits the answer to the history or drops it. The history decisions of the core crate
  (\<open>lib.rs\<close>) and the clock and the memory map it reads (\<open>model_target.rs\<close>, \<open>main.rs\<close>) are here too.

  What the turn reads from outside is an argument: the environment holds the rounding instructions,
  the table of rotary positions, the tokenizer, the firmware's console, the values of the time stamp
  counter and the memory maps by the number of the reading; the answers of the firmware to the key
  reads are a list in the state, at whose end no key is ready.
\<close>

section \<open>Errors of a turn\<close>

record turn_error =
  te_code :: bytes
  te_phase :: bytes
  te_recoverable :: bool
  te_generated :: nat
  te_partial :: bool
  te_model :: "model_error option"
  te_inference :: "inference_error option"
  te_efi :: "nat option"
  te_reported :: bool

definition turn_simple :: "bytes \<Rightarrow> bytes \<Rightarrow> bool \<Rightarrow> turn_error" where
  "turn_simple code phase recoverable =
     \<lparr>te_code = code, te_phase = phase, te_recoverable = recoverable, te_generated = 0,
      te_partial = False, te_model = None, te_inference = None, te_efi = None, te_reported = False\<rparr>"

definition turn_model :: "bytes \<Rightarrow> bytes \<Rightarrow> model_error \<Rightarrow> turn_error" where
  "turn_model code phase e = (turn_simple code phase True)\<lparr>te_model := Some e\<rparr>"

definition turn_inference :: "bytes \<Rightarrow> bytes \<Rightarrow> inference_error \<Rightarrow> turn_error" where
  "turn_inference code phase e = (turn_simple code phase True)\<lparr>te_inference := Some e\<rparr>"

definition turn_utf :: "bytes \<Rightarrow> turn_error" where
  "turn_utf code = turn_simple code (ascii ''utf8'') True"

definition turn_efi :: "bytes \<Rightarrow> bytes \<Rightarrow> nat \<Rightarrow> turn_error" where
  "turn_efi code phase status = (turn_simple code phase False)\<lparr>te_efi := Some status\<rparr>"

definition after_selected :: "nat \<Rightarrow> nat \<Rightarrow> turn_error \<Rightarrow> turn_error" where
  "after_selected completed_tokens visible_tokens e =
     (let accounting = selected_token_failure completed_tokens visible_tokens
      in e\<lparr>te_generated := selected_token_failure.generated accounting,
           te_partial := selected_token_failure.partial accounting\<rparr>)"

definition HISTORY_STATE :: bytes where "HISTORY_STATE = ascii ''HISTORY_STATE''"

definition failure_status :: "bytes \<Rightarrow> bytes \<Rightarrow> nat \<Rightarrow> failure" where
  "failure_status code phase status = failure_efi code phase (of_nat status)"

section \<open>History decisions\<close>

definition PROMPT_LIMIT :: nat where "PROMPT_LIMIT = CONTEXT_LIMIT - 1"
definition GENERATION_RESERVE :: nat where "GENERATION_RESERVE = 1024"
definition REPETITION_BITMAP_BYTES :: nat where "REPETITION_BITMAP_BYTES = (LOGIT_WORDS + 7) div 8"

datatype history_decision = UseHistory nat | RetryFresh | ResetHistory nat | RejectPrompt nat

definition decide_history :: "bool \<Rightarrow> nat \<Rightarrow> nat option \<Rightarrow> history_decision" where
  "decide_history has_history prospective_tokens fresh_prompt_tokens =
     (if prospective_tokens \<le> PROMPT_LIMIT then UseHistory prospective_tokens
      else if has_history then
        (case fresh_prompt_tokens of
           None \<Rightarrow> RetryFresh
         | Some fresh \<Rightarrow> if fresh \<le> PROMPT_LIMIT then ResetHistory fresh else RejectPrompt fresh)
      else RejectPrompt (case fresh_prompt_tokens of Some fresh \<Rightarrow> fresh | None \<Rightarrow> prospective_tokens))"

section \<open>The machine around the REPL\<close>

text \<open>One answer of the firmware to a key read; \<open>kr_shift\<close> is only there for the extended input.\<close>

record key_reply =
  kr_status :: nat
  kr_unicode :: u16
  kr_scan :: u16
  kr_shift :: u32

text \<open>
  The answers to the calls of one memory measurement: a size probe, the allocation of pages for the
  map, the map itself and the release of the pages. A firmware reports one size of its descriptors.
\<close>

record memory_replies =
  mr_probe :: nat
  mr_probe_size :: nat
  mr_descriptor :: nat
  mr_allocate :: nat
  mr_status :: nat
  mr_map :: bytes
  mr_free :: nat

definition BUFFER_TOO_SMALL :: nat where "BUFFER_TOO_SMALL = 2 ^ 63 + 5"
definition CONVENTIONAL_MEMORY :: nat where "CONVENTIONAL_MEMORY = 7"
definition MEMORY_DESCRIPTOR_BYTES :: nat where "MEMORY_DESCRIPTOR_BYTES = 40"

definition sat_mul :: "nat \<Rightarrow> nat \<Rightarrow> nat" where "sat_mul a b = min (a * b) (u64_limit - 1)"

function conventional_pages :: "bytes \<Rightarrow> nat \<Rightarrow> nat \<Rightarrow> nat \<Rightarrow> nat" where
  "conventional_pages descriptors stride offset pages =
     (if 0 < stride \<and> offset + MEMORY_DESCRIPTOR_BYTES \<le> length descriptors
      then conventional_pages descriptors stride (offset + stride)
        (if le_value (slice descriptors offset (offset + 4)) = CONVENTIONAL_MEMORY
         then sat_add pages (le_value (slice descriptors (offset + 24) (offset + 32))) else pages)
      else pages)"
  by pat_completeness auto
termination
  by (relation "measure (\<lambda>(descriptors, _, offset, _). length descriptors - offset)")
    (auto simp: MEMORY_DESCRIPTOR_BYTES_def)

declare conventional_pages.simps [simp del]

definition measure_conventional_memory :: "memory_replies \<Rightarrow> u64 option" where
  "measure_conventional_memory m =
     (if mr_probe m \<noteq> BUFFER_TOO_SMALL \<or> mr_descriptor m < MEMORY_DESCRIPTOR_BYTES then None
      else case Option.bind (checked_mul (mr_descriptor m) 8) (checked_add (mr_probe_size m)) of
        None \<Rightarrow> None
      | Some map_size \<Rightarrow>
        (case checked_add map_size 4095 of
           None \<Rightarrow> None
         | Some rounded \<Rightarrow>
             let pages = rounded div 4096 in
             if mr_allocate m \<noteq> 0 \<or> mr_status m \<noteq> 0 then None
             else
               let conventional = conventional_pages (mr_map m) (mr_descriptor m) 0 0
               in if mr_free m \<noteq> 0 then None
                  else Some (of_nat (sat_mul (sat_add conventional pages) 4096))))"

record environment =
  ev_fpu :: fpu
  ev_table :: bytes
  ev_tokenizer :: tokenizer
  ev_logits_address :: nat
  ev_screen :: screen
  ev_timed :: bool
  ev_aux :: u32
  ev_counter :: "nat \<Rightarrow> u64 \<times> u32"
  ev_memory :: "nat \<Rightarrow> memory_replies"

section \<open>State\<close>

record trace_entry =
  tr_id :: nat
  tr_kind :: nat
  tr_piece_bytes :: nat
  tr_utf16_units :: nat
  tr_infer_start :: u64
  tr_infer_end :: u64
  tr_output_start :: u64
  tr_output_end :: u64

definition TRACE_ZERO :: trace_entry where
  "TRACE_ZERO = \<lparr>tr_id = 0, tr_kind = 0, tr_piece_bytes = 0, tr_utf16_units = 0,
     tr_infer_start = 0, tr_infer_end = 0, tr_output_start = 0, tr_output_end = 0\<rparr>"

record repl =
  rl_engine :: engine
  rl_logits :: "u32 list"
  rl_console :: console
  rl_keys :: "key_reply list"
  rl_clock :: nat
  rl_measures :: nat
  rl_cpu :: cpu_topology
  rl_baseline :: u64
  rl_free :: u64
  rl_state :: runtime_state
  rl_frame :: u8
  rl_extended :: bool
  rl_committed :: "nat list"
  rl_working :: "nat list"
  rl_traces :: "trace_entry list"
  rl_bitmap :: bytes
  rl_committed_len :: nat
  rl_cached_len :: nat
  rl_turns :: nat
  rl_seed :: u64
  rl_seed_source :: bytes
  rl_sampling :: sampling_state
  rl_terminal :: "failure option"

type_synonym ('e, 'a) op = "repl \<Rightarrow> ('e + 'a) \<times> repl"

definition return :: "'a \<Rightarrow> ('e, 'a) op" where "return v r = (Inr v, r)"
definition throw :: "'e \<Rightarrow> ('e, 'a) op" where "throw e r = (Inl e, r)"

definition bind_op :: "('e, 'a) op \<Rightarrow> ('a \<Rightarrow> ('e, 'b) op) \<Rightarrow> ('e, 'b) op" where
  "bind_op a k r = (case a r of (Inl e, r) \<Rightarrow> (Inl e, r) | (Inr v, r) \<Rightarrow> k v r)"

definition on_console :: "(nat \<Rightarrow> 'e) \<Rightarrow> 'a conop \<Rightarrow> ('e, 'a) op" where
  "on_console f a r =
     (case a (rl_console r) of (res, con) \<Rightarrow> (map_sum f (\<lambda>v. v) res, r\<lparr>rl_console := con\<rparr>))"

definition clear_working :: "repl \<Rightarrow> repl" where
  "clear_working r = r\<lparr>rl_working := replicate (length (rl_working r)) 0\<rparr>"

definition clear_traces :: "repl \<Rightarrow> repl" where
  "clear_traces r = r\<lparr>rl_traces := replicate (length (rl_traces r)) TRACE_ZERO\<rparr>"

section \<open>The clock\<close>

definition timing_start :: "environment \<Rightarrow> ('e, u64) op" where
  "timing_start env r =
     (if ev_timed env
      then (Inr (fst (ev_counter env (rl_clock r))), r\<lparr>rl_clock := rl_clock r + 1\<rparr>)
      else (Inr 0, r))"

definition timing_end :: "environment \<Rightarrow> (failure, u64) op" where
  "timing_end env r =
     (if ev_timed env
      then case ev_counter env (rl_clock r) of (v, aux) \<Rightarrow>
        (if aux \<noteq> ev_aux env then Inl (failure_contract (timer_failure None)) else Inr v,
         r\<lparr>rl_clock := rl_clock r + 1\<rparr>)
      else (Inr 0, r))"

section \<open>Records and text\<close>

datatype piece = Txt bytes | Num u64 | Hex u64 nat | Opt "u32 option"

definition record_push_optional :: "model_record \<Rightarrow> u32 option \<Rightarrow> model_record" where
  "record_push_optional r v =
     (case v of Some n \<Rightarrow> record_push_decimal r (ucast n) | None \<Rightarrow> record_push r (ascii ''unknown''))"

fun push_piece :: "model_record \<Rightarrow> piece \<Rightarrow> model_record" where
  "push_piece r (Txt bs) = record_push r bs"
| "push_piece r (Num v) = record_push_decimal r v"
| "push_piece r (Hex v n) = push_hex r v n"
| "push_piece r (Opt v) = record_push_optional r v"

definition build_record :: "piece list \<Rightarrow> model_record" where
  "build_record ps = foldl push_piece record_new ps"

abbreviation txt_of :: "string \<Rightarrow> piece" where "txt_of s \<equiv> Txt (ascii s)"
abbreviation count_of :: "nat \<Rightarrow> piece" where "count_of n \<equiv> Num (of_nat n)"

definition event :: "string \<Rightarrow> piece list \<Rightarrow> piece list" where
  "event name ps = txt_of (''PROMPTBOOT_EVENT v=1 event='' @ name) # ps @ [Txt [13, 10]]"

definition emit_event ::
  "(bytes \<Rightarrow> bytes \<Rightarrow> nat \<Rightarrow> 'e) \<Rightarrow> environment \<Rightarrow> piece list \<Rightarrow> ('e, unit) op" where
  "emit_event efi env ps =
     on_console (efi (ascii ''EVIDENCE_RECORD'') (ascii ''record''))
       (emit_record_checked (ev_screen env) (record_as_bytes (build_record ps)))"

definition conout_failed :: "(bytes \<Rightarrow> bytes \<Rightarrow> nat \<Rightarrow> 'e) \<Rightarrow> nat \<Rightarrow> 'e" where
  "conout_failed efi = efi (ascii ''CONOUT_WRITE'') (ascii ''output'')"

definition say :: "(bytes \<Rightarrow> bytes \<Rightarrow> nat \<Rightarrow> 'e) \<Rightarrow> environment \<Rightarrow> bytes \<Rightarrow> ('e, unit) op" where
  "say efi env bs = on_console (conout_failed efi) (write_ascii_checked (ev_screen env) bs)"

definition print :: "environment \<Rightarrow> u16 list \<Rightarrow> (turn_error, unit) op" where
  "print env units = on_console (conout_failed turn_efi) (write_conout_utf16_checked (ev_screen env) units)"

section \<open>The status line\<close>

definition snapshot :: "repl \<Rightarrow> runtime_snapshot" where
  "snapshot r =
     (let usage = engine_usage (rl_engine r) in
      \<lparr>rt_state = rl_state r, rt_cpu = rl_cpu r, rt_memory_baseline = rl_baseline r,
       rt_memory_free = rl_free r, rt_committed_tokens = of_nat (rl_committed_len r),
       rt_engine_position = of_nat (iu_position usage),
       rt_context_limit = of_nat (iu_context_limit usage),
       rt_generation_reserve = of_nat (iu_generation_reserve usage)\<rparr>)"

definition render_status :: "environment \<Rightarrow> (nat, unit) op" where
  "render_status env r =
     (case runtime_line (snapshot r) (rl_frame r) (replicate (MAX_COLUMNS - 1) 0) of (len, line) \<Rightarrow>
        on_console (\<lambda>status. status) (render_status_ascii (ev_screen env) (take len line)) r)"

definition set_state :: "environment \<Rightarrow> runtime_state \<Rightarrow> (nat, unit) op" where
  "set_state env state r = render_status env (r\<lparr>rl_state := state\<rparr>)"

definition map_op_error :: "('d \<Rightarrow> 'e) \<Rightarrow> ('d, 'a) op \<Rightarrow> ('e, 'a) op" where
  "map_op_error f a r = (case a r of (res, r) \<Rightarrow> (map_sum f (\<lambda>v. v) res, r))"

definition inference_step_complete :: "environment \<Rightarrow> nat \<Rightarrow> (turn_error, unit) op" where
  "inference_step_complete env completed_tokens r =
     (if \<not> inference_status_due completed_tokens then (Inr (), r)
      else map_op_error (turn_efi (ascii ''STATUS_RENDER'') (ascii ''status''))
        (render_status env) (r\<lparr>rl_frame := rl_frame r + 1\<rparr>))"

section \<open>Events of a turn\<close>

definition emit_input_accepted :: "environment \<Rightarrow> nat \<Rightarrow> bytes \<Rightarrow> u64 \<Rightarrow> (turn_error, unit) op" where
  "emit_input_accepted env index line accepted_tsc =
     emit_event turn_efi env (event ''INPUT_ACCEPTED prompt_index=''
       [count_of index, txt_of '' bytes='', count_of (length line), txt_of '' accepted_tsc='',
        Hex accepted_tsc 16])"

definition emit_history_reset :: "environment \<Rightarrow> nat \<Rightarrow> (turn_error, unit) op" where
  "emit_history_reset env index r =
     emit_event turn_efi env (event ''HISTORY_RESET prompt_index=''
       [count_of index, txt_of '' prior_turns='', count_of (rl_turns r), txt_of '' prior_tokens='',
        count_of (rl_committed_len r), txt_of '' reason=prospective_context'']) r"

definition emit_context_rejected :: "environment \<Rightarrow> nat \<Rightarrow> nat \<Rightarrow> nat \<Rightarrow> (turn_error, unit) op" where
  "emit_context_rejected env index user_tokens fresh_tokens =
     emit_event turn_efi env (event ''CONTEXT_REJECTED prompt_index=''
       [count_of index, txt_of '' user_tokens='', count_of user_tokens,
        txt_of '' fresh_prompt_tokens='', count_of fresh_tokens, txt_of '' limit='',
        count_of PROMPT_LIMIT, txt_of '' reserve='', count_of GENERATION_RESERVE,
        txt_of '' code=CONTEXT_LIMIT''])"

definition flag_text :: "bool \<Rightarrow> piece" where
  "flag_text b = (if b then txt_of ''1'' else txt_of ''0'')"

definition emit_prompt_tokenized ::
  "environment \<Rightarrow> nat \<Rightarrow> nat \<Rightarrow> nat \<Rightarrow> nat \<Rightarrow> bool \<Rightarrow> (turn_error, unit) op" where
  "emit_prompt_tokenized env index user_tokens prompt_count prefix_count was_reset r =
     emit_event turn_efi env (event ''PROMPT_TOKENIZED prompt_index=''
       [count_of index, txt_of '' user_tokens='', count_of user_tokens, txt_of '' history_tokens='',
        count_of (rl_committed_len r), txt_of '' prompt_tokens='', count_of prompt_count,
        txt_of '' prefix_tokens='', count_of prefix_count, txt_of '' reserve='',
        count_of GENERATION_RESERVE, txt_of '' reset='', flag_text was_reset]) r"

definition emit_generation_started ::
  "environment \<Rightarrow> nat \<Rightarrow> u64 \<Rightarrow> nat \<Rightarrow> nat \<Rightarrow> nat \<Rightarrow> u64 \<Rightarrow> (turn_error, unit) op" where
  "emit_generation_started env index accepted_tsc prompt_count limit cached start_tsc =
     emit_event turn_efi env (event ''GENERATION_STARTED prompt_index=''
       [count_of index, txt_of '' accepted_tsc='', Hex accepted_tsc 16, txt_of '' prompt_tokens='',
        count_of prompt_count, txt_of '' limit='', count_of limit, txt_of '' cached_tokens='',
        count_of cached, txt_of '' start_tsc='', Hex start_tsc 16])"

definition kind_text :: "nat \<Rightarrow> string" where
  "kind_text kind =
     (if kind = piece_code TextPiece then ''TEXT''
      else if kind = piece_code EosPiece then ''EOS'' else ''SUPPRESSED'')"

definition emit_token :: "environment \<Rightarrow> nat \<Rightarrow> nat \<Rightarrow> trace_entry \<Rightarrow> (turn_error, unit) op" where
  "emit_token env index token_index t =
     emit_event turn_efi env (event ''TOKEN prompt_index=''
       [count_of index, txt_of '' token_index='', count_of token_index, txt_of '' id='',
        count_of (tr_id t), txt_of '' kind='', txt_of (kind_text (tr_kind t)),
        txt_of '' piece_bytes='', count_of (tr_piece_bytes t), txt_of '' utf16_units='',
        count_of (tr_utf16_units t), txt_of '' infer_start_tsc='', Hex (tr_infer_start t) 16,
        txt_of '' infer_end_tsc='', Hex (tr_infer_end t) 16, txt_of '' output_start_tsc='',
        Hex (tr_output_start t) 16, txt_of '' output_end_tsc='', Hex (tr_output_end t) 16])"

definition emit_generation_complete ::
  "environment \<Rightarrow> nat \<Rightarrow> bytes \<Rightarrow> nat \<Rightarrow> nat \<Rightarrow> nat \<Rightarrow> bool \<Rightarrow> u64 \<Rightarrow> u64 \<Rightarrow> (turn_error, unit) op" where
  "emit_generation_complete env index reason n visible units was_committed start_tsc end_tsc r =
     emit_event turn_efi env (event ''GENERATION_COMPLETE prompt_index=''
       [count_of index, txt_of '' reason='', Txt reason, txt_of '' generated='', count_of n,
        txt_of '' visible_tokens='', count_of visible, txt_of '' visible_utf16_units='',
        count_of units, txt_of '' committed='', flag_text was_committed, txt_of '' history_turns='',
        count_of (rl_turns r), txt_of '' history_tokens='', count_of (rl_committed_len r),
        txt_of '' start_tsc='', Hex start_tsc 16, txt_of '' end_tsc='', Hex end_tsc 16]) r"

definition code_text :: "u64 option \<Rightarrow> nat \<Rightarrow> piece" where
  "code_text v n = (case v of Some x \<Rightarrow> Hex x n | None \<Rightarrow> txt_of ''none'')"

definition emit_generation_failed :: "environment \<Rightarrow> nat \<Rightarrow> turn_error \<Rightarrow> (turn_error, unit) op" where
  "emit_generation_failed env index e =
     bind_op (emit_event turn_efi env (event ''GENERATION_FAILED prompt_index=''
       [count_of index, txt_of '' code='', Txt (te_code e), txt_of '' phase='', Txt (te_phase e),
        txt_of '' partial='', flag_text (te_partial e), txt_of '' recoverable='',
        flag_text (te_recoverable e), txt_of '' generated='', count_of (te_generated e),
        txt_of '' model_status='', code_text (map_option (\<lambda>x. ucast (me_status x)) (te_model e)) 8,
        txt_of '' inference_status='',
        code_text (map_option (\<lambda>x. ucast (ie_status x)) (te_inference e)) 8,
        txt_of '' efi_status='', code_text (map_option of_nat (te_efi e)) 16])) (\<lambda>_.
     bind_op (say turn_efi env (ascii ''promptboot: generation failed '')) (\<lambda>_.
     bind_op (say turn_efi env (te_code e)) (\<lambda>_.
     say turn_efi env [13, 10])))"

section \<open>The engine between turns\<close>

text \<open>Both resets of the engine always succeed, so the controller's own resets are total.\<close>

definition reset_engine :: "repl \<Rightarrow> repl" where
  "reset_engine r = r\<lparr>rl_engine := snd (reset_to_prefix (rl_engine r)), rl_cached_len := 0\<rparr>"

definition reset_engine_fresh :: "repl \<Rightarrow> repl" where
  "reset_engine_fresh r = r\<lparr>rl_engine := reset_state (rl_engine r), rl_cached_len := 0\<rparr>"

definition reset_conversation_for_fresh_prompt :: "nat \<Rightarrow> repl \<Rightarrow> nat \<times> repl" where
  "reset_conversation_for_fresh_prompt fresh r =
     (case reset_to_prefix (rl_engine r) of (kept, e) \<Rightarrow>
        let n = length (rl_working r);
            r = r\<lparr>rl_engine := e, rl_cached_len := 0, rl_committed := replicate (length (rl_committed r)) 0,
              rl_committed_len := 0, rl_turns := 0\<rparr>
        in if fresh > n
           then (0, (clear_working r)\<lparr>rl_engine := reset_state e\<rparr>)
           else
             let r = r\<lparr>rl_working := take fresh (rl_working r) @ replicate (n - fresh) 0\<rparr>
             in if kept > fresh \<or> en_position e \<noteq> kept
                then (0, r\<lparr>rl_engine := reset_state e\<rparr>)
                else (kept, r))"

section \<open>Interrupts\<close>

fun poll_keys :: "bool \<Rightarrow> key_reply list \<Rightarrow> (bytes + bool) \<times> key_reply list" where
  "poll_keys extended [] = (Inr False, [])"
| "poll_keys extended (k # ks) =
     (case read_result (kr_status k) of
        Inl e \<Rightarrow> (Inl (console_code e), ks)
      | Inr ready \<Rightarrow>
          if \<not> ready then (Inr False, ks)
          else if (if extended then is_generation_interrupt (kr_unicode k) (kr_shift k)
                   else kr_unicode k = 0x0003)
          then (Inr True, ks) else poll_keys extended ks)"

definition poll_generation_interrupt :: "(turn_error, bool) op" where
  "poll_generation_interrupt r =
     (case poll_keys (rl_extended r) (rl_keys r) of (res, ks) \<Rightarrow>
        (map_sum (\<lambda>code. turn_simple code (ascii ''repl_input'') False) (\<lambda>b. b) res,
         r\<lparr>rl_keys := ks\<rparr>))"

section \<open>The prompt of a turn\<close>

text \<open>
  The logits are not needed while a prompt is tokenized, so their memory serves as the buffers of the
  tokenizer: 599 words of staged tokens, at byte 2,432 the rendered text and at byte 3,136 the scratch.
\<close>

definition words_bytes :: "u32 list \<Rightarrow> bytes" where
  "words_bytes ws = concat (map (\<lambda>w. le_bytes 4 (unat w)) ws)"

definition bytes_words :: "bytes \<Rightarrow> u32 list" where
  "bytes_words bs = map (\<lambda>i. of_nat (le_value (slice bs (4 * i) (4 * i + 4)))) [0..<length bs div 4]"

definition turn_buffers :: "u32 list \<Rightarrow> nat list \<Rightarrow> conversation_buffers" where
  "turn_buffers logits tokens =
     \<lparr>cb_rendered = slice (words_bytes logits) 2432 3092, cb_staging = map unat (take 599 logits),
      cb_tokens = tokens, cb_scratch = slice (words_bytes logits) 3136 8256,
      cb_outcome = CONVERSATION_ZERO\<rparr>"

definition buffers_logits :: "u32 list \<Rightarrow> conversation_buffers \<Rightarrow> u32 list" where
  "buffers_logits logits b =
     bytes_words (write_at (write_at (write_at (words_bytes logits)
       0 (concat (map (le_bytes 4) (cb_staging b)))) 2432 (cb_rendered b)) 3136 (cb_scratch b))"

definition tokenize_turn ::
  "environment \<Rightarrow> nat list \<Rightarrow> bytes \<Rightarrow> repl \<Rightarrow> (model_error + conversation_usage) \<times> conversation_usage \<times> repl" where
  "tokenize_turn env history line r =
     (case render_conversation (ev_tokenizer env) history line (ev_logits_address env + 3136)
             (turn_buffers (rl_logits r) (rl_working r)) of
        (res, b) \<Rightarrow> (res, cb_outcome b,
          r\<lparr>rl_working := cb_tokens b, rl_logits := buffers_logits (rl_logits r) b\<rparr>))"

definition overflow_error :: "model_error \<Rightarrow> bool" where
  "overflow_error e \<longleftrightarrow> me_status e = of_nat (ms_code MS_OUTPUT_CAPACITY) \<and>
     me_domain e = of_nat (ed_code ED_TOKEN_OUTPUT) \<and> unat (me_available e) > CONTEXT_TOKENS"

definition history_error :: "model_error \<Rightarrow> bool" where
  "history_error e \<longleftrightarrow> me_status e = of_nat (ms_code MS_STATE) \<and>
     me_domain e = of_nat (ed_code ED_TOKEN_OUTPUT) \<and> (ucast (me_detail e) :: u32) = 11"

definition tokenize_failure :: "model_error \<Rightarrow> turn_error" where
  "tokenize_failure e =
     (if history_error e then turn_model HISTORY_STATE (ascii ''history'') e
      else turn_model (ascii ''TOKENIZE'') (ascii ''tokenize'') e)"

text \<open>The tokens the prompt would have, also when it is too long; other errors end the turn.\<close>

definition prospective_tokens :: "model_error + conversation_usage \<Rightarrow> turn_error + nat" where
  "prospective_tokens res =
     (case res of
        Inr usage \<Rightarrow> Inr (cu_prompt usage)
      | Inl e \<Rightarrow> if overflow_error e then Inr (unat (me_available e)) else Inl (tokenize_failure e))"

definition user_tokens_of :: "model_error + conversation_usage \<Rightarrow> conversation_usage \<Rightarrow> nat" where
  "user_tokens_of res outcome = (case res of Inr usage \<Rightarrow> cu_user usage | Inl _ \<Rightarrow> cu_user outcome)"

definition reject_turn :: "environment \<Rightarrow> nat \<Rightarrow> nat \<Rightarrow> nat \<Rightarrow> (turn_error, unit) op" where
  "reject_turn env index user_tokens fresh =
     bind_op (emit_context_rejected env index user_tokens (min fresh (u32_limit - 1)))
       (\<lambda>_ r. (Inr (), clear_working r))"

definition history_broken :: "(turn_error, 'a) op" where
  "history_broken r = (Inl (turn_utf HISTORY_STATE), clear_working r)"

text \<open>The second try, without the history: the conversation is dropped if the prompt then fits.\<close>

definition plan_fresh ::
  "environment \<Rightarrow> nat \<Rightarrow> bytes \<Rightarrow> nat \<Rightarrow> (turn_error, (conversation_usage \<times> nat \<times> bool) option) op" where
  "plan_fresh env index line prospective r =
     (case tokenize_turn env [] line (clear_working r) of (fresh, outcome, r) \<Rightarrow>
        case prospective_tokens fresh of
          Inl e \<Rightarrow> (Inl e, clear_working r)
        | Inr fresh_tokens \<Rightarrow>
          (case decide_history True prospective (Some fresh_tokens) of
             ResetHistory n \<Rightarrow>
               (case fresh of
                  Inl _ \<Rightarrow> history_broken r
                | Inr usage \<Rightarrow>
                    bind_op (emit_history_reset env index)
                      (\<lambda>_ r. (Inr (Some (usage, n, True)), snd (reset_conversation_for_fresh_prompt n r))) r)
           | RejectPrompt n \<Rightarrow>
               bind_op (reject_turn env index (user_tokens_of fresh outcome) n) (\<lambda>_. return None) r
           | _ \<Rightarrow> history_broken r))"

definition plan_turn ::
  "environment \<Rightarrow> nat \<Rightarrow> bytes \<Rightarrow> (turn_error, (conversation_usage \<times> nat \<times> bool) option) op" where
  "plan_turn env index line r =
     (let r = clear_working r;
          had_history = rl_committed_len r \<noteq> 0;
          history = take (rl_committed_len r) (rl_committed r)
      in case tokenize_turn env history line r of (first, outcome, r) \<Rightarrow>
        case prospective_tokens first of
          Inl e \<Rightarrow> (Inl e, r)
        | Inr prospective \<Rightarrow>
          (case decide_history had_history prospective (if had_history then None else Some prospective) of
             UseHistory n \<Rightarrow>
               (case first of Inr usage \<Rightarrow> (Inr (Some (usage, n, False)), r) | Inl _ \<Rightarrow> history_broken r)
           | RetryFresh \<Rightarrow> plan_fresh env index line prospective r
           | RejectPrompt n \<Rightarrow>
               bind_op (reject_turn env index (user_tokens_of first outcome) n) (\<lambda>_. return None) r
           | ResetHistory _ \<Rightarrow> history_broken r))"

section \<open>The generation loop\<close>

record generation =
  gn_decoder :: utf8_decoder
  gn_cr :: bool
  gn_count :: nat
  gn_visible :: nat
  gn_units :: nat
  gn_committed :: bool
  gn_reason :: bytes
  gn_previous :: nat
  gn_error :: "turn_error option"
  gn_interrupted :: bool

definition generation_new :: "nat \<Rightarrow> generation" where
  "generation_new limit =
     \<lparr>gn_decoder = utf8_new, gn_cr = False, gn_count = 0, gn_visible = 0, gn_units = 0,
      gn_committed = False,
      gn_reason = (if limit = GENERATION_RESERVE then ascii ''MAX_NEW_TOKENS'' else ascii ''CONTEXT_LIMIT''),
      gn_previous = 0, gn_error = None, gn_interrupted = False\<rparr>"

text \<open>What is fixed during the loop: the prompt, its cached part and whether it continues the cache.\<close>

record turn =
  tn_prompt :: nat
  tn_prefix :: nat
  tn_append :: bool
  tn_start :: nat
  tn_limit :: nat

text \<open>A step of the loop breaks with the generation reached, or returns from the turn.\<close>

datatype loop_exit = Break generation | Return turn_error

definition break_error :: "generation \<Rightarrow> turn_error \<Rightarrow> loop_exit" where
  "break_error g e = Break (g\<lparr>gn_error := Some e\<rparr>)"

definition check_interrupt :: "generation \<Rightarrow> (loop_exit, unit) op" where
  "check_interrupt g r =
     (case poll_generation_interrupt r of
        (Inl e, r) \<Rightarrow> (Inl (break_error g e), r)
      | (Inr interrupted, r) \<Rightarrow>
          (if interrupted
           then Inl (Break (g\<lparr>gn_reason := ascii ''INTERRUPTED'', gn_interrupted := True\<rparr>))
           else Inr (), r))"

definition engine_request :: "environment \<Rightarrow> turn \<Rightarrow> generation \<Rightarrow> repl \<Rightarrow> inference_step reply" where
  "engine_request env t g r =
     (let s = (rl_engine r, rl_logits r) in
      if gn_count g = 0 then
        (if tn_append t
         then append_prefill (ev_fpu env) (ev_table env)
                (slice (rl_working r) (tn_start t) (tn_prompt t)) (tn_limit t) s
         else prefill_with_prefix (ev_fpu env) (ev_table env) (take (tn_prompt t) (rl_working r))
                (tn_prefix t) (tn_limit t) s)
      else decode_selected (ev_fpu env) (ev_table env) (gn_previous g) s)"

definition infer_token :: "environment \<Rightarrow> turn \<Rightarrow> generation \<Rightarrow> (turn_error, nat) op" where
  "infer_token env t g r =
     (case engine_request env t g r of
        (Inl e, engine, logits) \<Rightarrow>
          (Inl (if gn_count g = 0 then turn_inference (ascii ''INFERENCE_PREFILL'') (ascii ''prefill'') e
                else turn_inference (ascii ''INFERENCE_DECODE'') (ascii ''decode'') e),
           r\<lparr>rl_engine := engine, rl_logits := logits\<rparr>)
      | (Inr _, engine, logits) \<Rightarrow>
          (case sample_token_with_repetition (ev_fpu env) logits
                  (take (tn_prompt t + gn_count g) (rl_working r)) (rl_bitmap r) (rl_sampling r) of
             (res, logits, bitmap, sampling) \<Rightarrow>
               (map_sum (turn_inference (ascii ''INFERENCE_SAMPLE'') (ascii ''sample'')) (\<lambda>v. v) res,
                r\<lparr>rl_engine := engine, rl_logits := logits, rl_bitmap := bitmap,
                  rl_sampling := sampling\<rparr>)))"

definition drop_turn :: "repl \<Rightarrow> repl" where
  "drop_turn r = clear_traces (clear_working (reset_engine r))"

definition timer_error :: "failure \<Rightarrow> nat \<Rightarrow> bool \<Rightarrow> model_error option \<Rightarrow> turn_error" where
  "timer_error f n partly model =
     \<lparr>te_code = fl_code f, te_phase = fl_phase f, te_recoverable = False, te_generated = n,
      te_partial = partly, te_model = model, te_inference = fl_inference f,
      te_efi = map_option unat (fl_efi f), te_reported = False\<rparr>"

text \<open>Selecting a token: its times, and the second look at the keys.\<close>

definition select_token :: "environment \<Rightarrow> turn \<Rightarrow> generation \<Rightarrow> (loop_exit, nat \<times> u64 \<times> u64) op" where
  "select_token env t g =
     bind_op (timing_start env) (\<lambda>infer_start r.
       case infer_token env t g r of (selected, r) \<Rightarrow>
       (case timing_end env r of
          (Inl f, r) \<Rightarrow>
            (Inl (Return (timer_error f (gn_count g) (gn_visible g \<noteq> 0) None)), drop_turn r)
        | (Inr infer_end, r) \<Rightarrow>
          (case selected of
             Inl e \<Rightarrow> (Inl (break_error g e), r)
           | Inr token \<Rightarrow>
               bind_op (check_interrupt (g\<lparr>gn_previous := token\<rparr>))
                 (\<lambda>_. return (token, infer_start, infer_end)) r)))"

text \<open>The text of a piece: decoded with what earlier pieces left, nothing for a special token.\<close>

definition piece_units :: "nat \<Rightarrow> bytes \<Rightarrow> generation \<Rightarrow> (turn_error + u16 list) \<times> utf8_decoder" where
  "piece_units kind piece g =
     (if kind = piece_code TextPiece then
        (case utf8_push (gn_decoder g) piece (replicate 132 0) of
           (Inr n, decoder, decoded) \<Rightarrow> (Inr (take n decoded), decoder)
         | (Inl Incomplete, decoder, decoded) \<Rightarrow> (Inr [], decoder)
         | (Inl _, decoder, decoded) \<Rightarrow>
             (Inl (after_selected (gn_count g) (gn_visible g) (turn_utf (ascii ''UTF8_INVALID''))), decoder))
      else (Inr [], gn_decoder g))"

definition rendered_units :: "u16 list \<Rightarrow> generation \<Rightarrow> (turn_error + u16 list) \<times> bool" where
  "rendered_units decoded g =
     (case render_console_text decoded (gn_cr g) (replicate 264 0) of
        (Inr n, cr, rendered) \<Rightarrow> (Inr (take n rendered), cr)
      | (Inl _, cr, rendered) \<Rightarrow>
          (Inl (after_selected (gn_count g) (gn_visible g)
             (turn_simple (ascii ''UTF16_CAPACITY'') (ascii ''output'') True)), cr))"

text \<open>A visible token is printed and counted.\<close>

definition print_units :: "environment \<Rightarrow> u16 list \<Rightarrow> generation \<Rightarrow> (loop_exit, generation) op" where
  "print_units env units g =
     (if units = [] then return g
      else bind_op
        (map_op_error (\<lambda>e. break_error g (after_selected (gn_count g) (gn_visible g) e)) (print env units))
        (\<lambda>_. return (g\<lparr>gn_visible := gn_visible g + 1, gn_units := gn_units g + length units\<rparr>)))"

definition output_units :: "environment \<Rightarrow> u16 list \<Rightarrow> generation \<Rightarrow> (loop_exit, generation \<times> u64 \<times> u64) op" where
  "output_units env units g =
     bind_op (timing_start env) (\<lambda>output_start.
     bind_op (print_units env units g) (\<lambda>g r.
       case timing_end env r of
         (Inl f, r) \<Rightarrow>
           (Inl (break_error g (after_selected (gn_count g) (gn_visible g)
              (timer_error f 0 False (fl_model f)))), r)
       | (Inr output_end, r) \<Rightarrow> (Inr (g, output_start, output_end), r)))"

text \<open>Decoding and showing a selected token; the results are its kind, its bytes and its times.\<close>

definition show_token ::
  "environment \<Rightarrow> nat \<Rightarrow> generation \<Rightarrow> (loop_exit, generation \<times> nat \<times> nat \<times> nat \<times> u64 \<times> u64) op" where
  "show_token env token g r =
     (case decode_piece (ev_tokenizer env) token (replicate 128 0) of
        (Inl e, _) \<Rightarrow>
          (Inl (break_error g (after_selected (gn_count g) (gn_visible g)
             (turn_model (ascii ''PIECE_DECODE'') (ascii ''piece'') e))), r)
      | (Inr (kind, n), piece) \<Rightarrow>
        (case piece_units kind (take n piece) g of
           (Inl e, decoder) \<Rightarrow> (Inl (break_error (g\<lparr>gn_decoder := decoder\<rparr>) e), r)
         | (Inr decoded, decoder) \<Rightarrow>
           (case rendered_units decoded (g\<lparr>gn_decoder := decoder\<rparr>) of
              (Inl e, cr) \<Rightarrow> (Inl (break_error (g\<lparr>gn_decoder := decoder, gn_cr := cr\<rparr>) e), r)
            | (Inr units, cr) \<Rightarrow>
                bind_op (output_units env units (g\<lparr>gn_decoder := decoder, gn_cr := cr\<rparr>))
                  (\<lambda>(g, output_start, output_end).
                     return (g, kind, n, length units, output_start, output_end)) r)))"

text \<open>A token is kept in the working history, the end of the answer as the turn's end marker.\<close>

definition store_token :: "turn \<Rightarrow> generation \<Rightarrow> nat \<Rightarrow> nat \<Rightarrow> trace_entry \<Rightarrow> repl \<Rightarrow> repl" where
  "store_token t g token kind trace r =
     r\<lparr>rl_working := (rl_working r)[tn_prompt t + gn_count g :=
         if kind = piece_code EosPiece then IM_END else token],
       rl_traces := (rl_traces r)[gn_count g := trace]\<rparr>"

text \<open>The end of the answer: the working history becomes the committed one.\<close>

definition commit_turn :: "turn \<Rightarrow> generation \<Rightarrow> repl \<Rightarrow> generation \<times> repl" where
  "commit_turn t g r =
     (let total = tn_prompt t + gn_count g in
      case utf8_finish (gn_decoder g) of
        Inl _ \<Rightarrow>
          (g\<lparr>gn_error := Some (after_selected (gn_count g - 1) (gn_visible g) (turn_utf (ascii ''UTF8_INCOMPLETE'')))\<rparr>, r)
      | Inr _ \<Rightarrow>
        (case commit_eos (rl_committed r) (rl_working r) total of
           (Inl _, committed) \<Rightarrow>
             (case validate_conversation_history (take total (rl_working r)) of
                Inl e \<Rightarrow> (g\<lparr>gn_error := Some (turn_model HISTORY_STATE (ascii ''history'') e)\<rparr>,
                  r\<lparr>rl_committed := committed\<rparr>)
              | Inr _ \<Rightarrow>
                (case validate_conversation_history [0] of
                   Inl e \<Rightarrow> (g\<lparr>gn_error := Some (turn_model HISTORY_STATE (ascii ''history'') e)\<rparr>,
                     r\<lparr>rl_committed := committed\<rparr>)
                 | Inr _ \<Rightarrow> (g\<lparr>gn_error := Some (turn_utf HISTORY_STATE)\<rparr>, r\<lparr>rl_committed := committed\<rparr>)))
         | (Inr _, committed) \<Rightarrow>
             (g\<lparr>gn_committed := True, gn_reason := ascii ''EOS''\<rparr>,
              r\<lparr>rl_committed := committed, rl_committed_len := total,
                rl_turns := sat_add32 (rl_turns r) 1\<rparr>)))"

text \<open>One iteration; it goes on with the next token unless it exits.\<close>

definition generate_token :: "environment \<Rightarrow> turn \<Rightarrow> generation \<Rightarrow> (loop_exit, generation) op" where
  "generate_token env t g =
     bind_op (check_interrupt g) (\<lambda>_.
     bind_op (select_token env t g) (\<lambda>(token, infer_start, infer_end).
     bind_op (show_token env token (g\<lparr>gn_previous := token\<rparr>))
       (\<lambda>(g, kind, n, units, output_start, output_end) r.
          let trace = \<lparr>tr_id = token, tr_kind = kind, tr_piece_bytes = n, tr_utf16_units = units,
                tr_infer_start = infer_start, tr_infer_end = infer_end,
                tr_output_start = output_start, tr_output_end = output_end\<rparr>;
              r = store_token t g token kind trace r;
              g = g\<lparr>gn_count := gn_count g + 1\<rparr>
          in bind_op (map_op_error (break_error g) (inference_step_complete env (gn_count g)))
               (\<lambda>_ r. if kind = piece_code EosPiece
                      then (case commit_turn t g r of (g, r) \<Rightarrow> (Inl (Break g), r))
                      else (Inr g, r)) r)))"

text \<open>The loop: at most as many tokens as the limit leaves.\<close>

fun generate_tokens :: "environment \<Rightarrow> turn \<Rightarrow> nat \<Rightarrow> generation \<Rightarrow> (turn_error, generation) op" where
  "generate_tokens env t 0 g r = (Inr g, r)"
| "generate_tokens env t (Suc n) g r =
     (case generate_token env t g r of
        (Inr g, r) \<Rightarrow> generate_tokens env t n g r
      | (Inl (Break g), r) \<Rightarrow> (Inr g, r)
      | (Inl (Return e), r) \<Rightarrow> (Inl e, r))"

section \<open>The end of a turn\<close>

definition first_turn_error :: "generation \<Rightarrow> turn_error \<Rightarrow> generation" where
  "first_turn_error g e = (if gn_error g = None then g\<lparr>gn_error := Some e\<rparr> else g)"

text \<open>After the loop: an answer cut inside a character fails, a committed one keeps its cache.\<close>

definition settle_turn :: "generation \<Rightarrow> repl \<Rightarrow> generation \<times> repl" where
  "settle_turn g r =
     (let g = (if gn_error g = None \<and> \<not> gn_committed g \<and> \<not> gn_interrupted g \<and>
                  utf8_finish (gn_decoder g) \<noteq> Inr ()
               then g\<lparr>gn_error := Some (after_selected (gn_count g - 1) (gn_visible g)
                       (turn_utf (ascii ''UTF8_INCOMPLETE'')))\<rparr>
               else g);
          (g, r) = (if gn_committed g \<and> gn_error g = None then
                      (let expected = rl_committed_len r - 1 in
                       if en_position (rl_engine r) = expected then (g, r\<lparr>rl_cached_len := expected\<rparr>)
                       else (g\<lparr>gn_error := Some (turn_utf HISTORY_STATE)\<rparr>, reset_engine_fresh r))
                    else (g, r))
      in (g, if \<not> gn_committed g \<or> gn_error g \<noteq> None then reset_engine r else r))"

definition noted :: "(turn_error, unit) op \<Rightarrow> generation \<times> repl \<Rightarrow> generation \<times> repl" where
  "noted a s =
     (case s of (g, r) \<Rightarrow>
        case a r of
          (Inl e, r) \<Rightarrow>
            (first_turn_error g (e\<lparr>te_generated := gn_count g, te_partial := gn_visible g \<noteq> 0\<rparr>), r)
        | (Inr _, r) \<Rightarrow> (g, r))"

definition close_line :: "environment \<Rightarrow> generation \<times> repl \<Rightarrow> generation \<times> repl" where
  "close_line env s =
     noted (print env [13, 10]) (if gn_interrupted (fst s) then noted (say turn_efi env (ascii ''^C'')) s else s)"

fun emit_tokens :: "environment \<Rightarrow> nat \<Rightarrow> nat list \<Rightarrow> (turn_error, unit) op" where
  "emit_tokens env index [] r = (Inr (), r)"
| "emit_tokens env index (n # ns) r =
     bind_op (emit_token env index n (rl_traces r ! n)) (\<lambda>_. emit_tokens env index ns) r"

definition clear_turn :: "repl \<Rightarrow> repl" where
  "clear_turn r = clear_traces (clear_working r)"

definition report_failed :: "environment \<Rightarrow> nat \<Rightarrow> generation \<Rightarrow> turn_error \<Rightarrow> (turn_error, unit) op" where
  "report_failed env index g e r =
     (let e = e\<lparr>te_generated := max (te_generated e) (gn_count g),
                te_partial := te_partial e \<or> gn_visible g \<noteq> 0\<rparr>
      in case emit_generation_failed env index e (clear_turn r) of
           (Inl _, r) \<Rightarrow> (Inl e, r)
         | (Inr _, r) \<Rightarrow> if te_recoverable e then (Inr (), r) else (Inl (e\<lparr>te_reported := True\<rparr>), r))"

definition finish_turn :: "environment \<Rightarrow> nat \<Rightarrow> u64 \<Rightarrow> generation \<Rightarrow> (turn_error, unit) op" where
  "finish_turn env index generation_start g r =
     (case close_line env (settle_turn g r) of (g, r) \<Rightarrow>
       (case emit_tokens env index [0..<gn_count g] r of
          (Inl record_error, r) \<Rightarrow>
            (Inl (case gn_error g of Some e \<Rightarrow> e | None \<Rightarrow> record_error), clear_turn r)
        | (Inr _, r) \<Rightarrow>
          (case gn_error g of
             Some e \<Rightarrow> report_failed env index g e r
           | None \<Rightarrow>
               bind_op (timing_start env) (\<lambda>end_tsc.
               bind_op (emit_generation_complete env index (gn_reason g) (gn_count g) (gn_visible g)
                 (gn_units g) (gn_committed g) generation_start end_tsc)
                 (\<lambda>_ r. (Inr (), clear_turn r))) r)))"

section \<open>A turn\<close>

text \<open>Where the evaluation starts: behind the cache, behind the retained prefix or at the beginning.\<close>

definition append_start :: "nat \<Rightarrow> nat \<Rightarrow> repl \<Rightarrow> nat option" where
  "append_start prompt_count prefix_count r =
     (let cached = rl_cached_len r; position = en_position (rl_engine r) in
      if cached \<noteq> 0 \<and> cached + 1 = rl_committed_len r \<and> cached < prompt_count \<and> position = cached \<and>
         take cached (rl_working r) = take cached (rl_committed r)
      then Some cached
      else if cached = 0 \<and> position = prefix_count \<and> prefix_count < prompt_count then Some prefix_count
      else if cached = 0 \<and> position = 0 then Some 0
      else None)"

definition generation_limit :: "nat \<Rightarrow> nat" where
  "generation_limit prompt_count = min GENERATION_RESERVE (CONTEXT_TOKENS - prompt_count)"

definition generate :: "environment \<Rightarrow> nat \<Rightarrow> u64 \<Rightarrow> nat \<Rightarrow> nat \<Rightarrow> (turn_error, unit) op" where
  "generate env index accepted_tsc prompt_count prefix_count r =
     (case append_start prompt_count prefix_count r of
        None \<Rightarrow> (Inl (turn_utf HISTORY_STATE), reset_engine_fresh r)
      | Some start \<Rightarrow>
          let limit = generation_limit prompt_count;
              t = \<lparr>tn_prompt = prompt_count, tn_prefix = prefix_count, tn_append = rl_cached_len r \<noteq> 0,
                   tn_start = start, tn_limit = limit\<rparr>
          in bind_op (timing_start env) (\<lambda>generation_start r.
             case emit_generation_started env index accepted_tsc prompt_count limit start generation_start r of
               (Inl e, r) \<Rightarrow> (Inl e, drop_turn r)
             | (Inr _, r) \<Rightarrow>
                 bind_op (generate_tokens env t limit (generation_new limit))
                   (finish_turn env index generation_start) (clear_traces r)) r)"

definition accepted_turn :: "environment \<Rightarrow> nat \<Rightarrow> bytes \<Rightarrow> (turn_error, unit) op" where
  "accepted_turn env index line =
     bind_op (print env [13, 10]) (\<lambda>_.
     bind_op (timing_start env) (\<lambda>accepted_tsc.
     bind_op (emit_input_accepted env index line accepted_tsc) (\<lambda>_.
     bind_op (plan_turn env index line) (\<lambda>plan.
       case plan of
         None \<Rightarrow> return ()
       | Some (usage, prompt_count, was_reset) \<Rightarrow>
           bind_op (emit_prompt_tokenized env index (cu_user usage) prompt_count (cu_prefix usage) was_reset)
             (\<lambda>_. generate env index accepted_tsc prompt_count (cu_prefix usage))))))"

end
