(* ===== verification/PB_Frame.thy ===== *)
theory PB_Frame
  imports PB_Turn
begin

text \<open>
  What the steps of a turn (\<open>PB_Turn\<close>) leave alone. \<open>harmless\<close> relates states that differ only in
  the console, the clock, the status line and the keys still to come: every event, text and look at
  the keys is such a step. The locale \<open>frame\<close> is the interface of a relation between states that
  composed operations respect; its instances are \<open>harmless\<close> itself and the weaker \<open>fewer\<close>, that no
  operation adds keys, which the key loop terminates by.
\<close>

section \<open>Harmless steps\<close>

definition fewer :: "repl \<Rightarrow> repl \<Rightarrow> bool" where
  "fewer r r' \<longleftrightarrow> length (rl_keys r') \<le> length (rl_keys r)"

definition harmless :: "repl \<Rightarrow> repl \<Rightarrow> bool" where
  "harmless r r' \<longleftrightarrow> fewer r r' \<and> rl_engine r' = rl_engine r \<and> rl_logits r' = rl_logits r \<and>
     rl_extended r' = rl_extended r \<and> rl_committed r' = rl_committed r \<and> rl_working r' = rl_working r \<and>
     rl_traces r' = rl_traces r \<and> rl_bitmap r' = rl_bitmap r \<and>
     rl_committed_len r' = rl_committed_len r \<and> rl_cached_len r' = rl_cached_len r \<and>
     rl_turns r' = rl_turns r \<and> rl_seed r' = rl_seed r \<and> rl_seed_source r' = rl_seed_source r \<and>
     rl_sampling r' = rl_sampling r"

lemma harmless_refl [simp, intro]: "harmless r r"
  by (simp add: harmless_def fewer_def)

lemma harmless_trans: "harmless r r' \<Longrightarrow> harmless r' r'' \<Longrightarrow> harmless r r''"
  by (auto simp: harmless_def fewer_def)

lemma harmless_updates [simp]:
  "harmless r (r\<lparr>rl_console := con\<rparr>)" "harmless r (r\<lparr>rl_clock := n\<rparr>)"
  "harmless r (r\<lparr>rl_frame := v\<rparr>)" "harmless r (r\<lparr>rl_state := st\<rparr>)" "harmless r (r\<lparr>rl_free := w\<rparr>)"
  "harmless r (r\<lparr>rl_measures := n\<rparr>)" "harmless r (r\<lparr>rl_terminal := f\<rparr>)"
  by (simp_all add: harmless_def fewer_def)

lemma poll_keys_fewer: "length (snd (poll_keys extended ks)) \<le> length ks"
proof (induction ks)
  case (Cons k ks)
  then show ?case by (auto split: sum.split intro: le_SucI)
qed simp

section \<open>Relations that operations respect\<close>

named_theorems moves_rules "operations whose steps are in the relation"

locale frame =
  fixes R :: "repl \<Rightarrow> repl \<Rightarrow> bool"
  assumes base: "harmless r r' \<Longrightarrow> R r r'"
    and trans: "R r r' \<Longrightarrow> R r' r'' \<Longrightarrow> R r r''"
begin

definition moves :: "('e, 'a) op \<Rightarrow> bool" where
  "moves a \<longleftrightarrow> (\<forall>r. R r (snd (a r)))"

lemma movesI: "(\<And>r. R r (snd (a r))) \<Longrightarrow> moves a"
  by (simp add: moves_def)

lemma movesD: "moves a \<Longrightarrow> R r (snd (a r))"
  by (simp add: moves_def)

lemma moved: "moves a \<Longrightarrow> a r = (res, r') \<Longrightarrow> R r r'"
  by (metis moves_def snd_conv)

lemma refl: "R r r"
  by (rule base) simp

lemma moves_return: "moves (return v)"
  by (simp add: moves_def return_def refl)

lemma moves_throw: "moves (throw e)"
  by (simp add: moves_def throw_def refl)

lemma moves_pure: "(\<And>r. R r (f r)) \<Longrightarrow> moves (\<lambda>r. (v r, f r))"
  by (simp add: moves_def)

lemma bind_step: "moves a \<Longrightarrow> (\<And>v. moves (k v)) \<Longrightarrow> R r (snd (bind_op a k r))"
  by (auto simp: bind_op_def split: prod.split sum.split intro: trans moved movesD)

lemma moves_bind: "moves a \<Longrightarrow> (\<And>v. moves (k v)) \<Longrightarrow> moves (bind_op a k)"
  by (rule movesI) (rule bind_step)

lemma moves_console: "moves (on_console f a)"
  by (auto simp: moves_def on_console_def base split: prod.split)

lemma moves_error: "moves a \<Longrightarrow> moves (map_op_error f a)"
  by (rule movesI) (auto simp: map_op_error_def split: prod.split dest: moved)

lemma moves_poll: "moves poll_generation_interrupt"
proof (rule movesI)
  fix r
  have "harmless r (snd (poll_generation_interrupt r))"
    using poll_keys_fewer [of "rl_extended r" "rl_keys r"]
    by (auto simp: poll_generation_interrupt_def harmless_def fewer_def split: prod.split)
  then show "R r (snd (poll_generation_interrupt r))" by (rule base)
qed

lemma moves_timing: "moves (timing_start env)" "moves (timing_end env)"
  by (auto simp: moves_def timing_start_def timing_end_def base split: prod.split)

lemmas moves_basic = moves_return moves_throw moves_bind moves_console moves_error moves_poll moves_timing

lemma moves_emit: "moves (emit_event efi env ps)" "moves (say efi env bs)" "moves (print env units)"
  by (simp_all add: emit_event_def say_def print_def moves_console)

lemma moves_status: "moves (render_status env)" "moves (set_state env st)"
proof -
  show *: "moves (render_status env)"
    using movesD [OF moves_console] by (auto simp: moves_def render_status_def split: prod.split)
  show "moves (set_state env st)"
    by (rule movesI) (simp add: set_state_def trans [OF base movesD [OF *]])
qed

lemma moves_step_complete: "moves (inference_step_complete env n)"
  by (rule movesI) (simp add: inference_step_complete_def refl
    trans [OF base movesD [OF moves_error [OF moves_status(1)]]])

lemma moves_events:
  "moves (emit_input_accepted env index line tsc)" "moves (emit_history_reset env index)"
  "moves (emit_context_rejected env index m n)" "moves (emit_prompt_tokenized env index m n k b)"
  "moves (emit_generation_started env index tsc n l c s)" "moves (emit_token env index n t)"
  "moves (emit_generation_complete env index reason n v u b s e)"
  by (simp_all add: moves_def emit_input_accepted_def emit_history_reset_def
    emit_context_rejected_def emit_prompt_tokenized_def emit_generation_started_def emit_token_def
    emit_generation_complete_def movesD [OF moves_emit(1)])

lemma moves_failed: "moves (emit_generation_failed env index err)"
  unfolding emit_generation_failed_def by (intro moves_bind moves_emit)

lemma moves_interrupt: "moves (check_interrupt g)"
  by (auto simp: moves_def check_interrupt_def split: prod.split sum.split dest: moved [OF moves_poll])

lemma moves_print_units: "moves (print_units env units g)"
  by (simp add: print_units_def moves_basic moves_emit)

lemma moves_output_units: "moves (output_units env units g)"
  unfolding output_units_def
  by (intro moves_bind moves_timing(1) moves_print_units movesI)
    (auto split: prod.split sum.split dest: moved [OF moves_timing(2)])

lemma moves_show: "moves (show_token env token g)"
  by (rule movesI) (auto simp: show_token_def refl split: prod.split sum.split
    intro!: bind_step moves_output_units moves_return)

lemma moves_emit_tokens: "moves (emit_tokens env index ns)"
proof (induction ns)
  case (Cons n ns)
  then show ?case
    by (intro movesI) (simp add: bind_step [OF moves_events(6)])
qed (simp add: moves_def refl)

lemma noted_moves: "moves a \<Longrightarrow> R r (snd (noted a (g, r)))"
  by (auto simp: noted_def split: prod.split sum.split dest: moved)

lemma close_line_moves: "R r (snd (close_line env (g, r)))"
proof -
  obtain g' r' where s: "(if gn_interrupted g then noted (say turn_efi env (ascii ''^C'')) (g, r) else (g, r))
      = (g', r')" by fastforce
  have "R r r'" using s noted_moves [OF moves_emit(2), of r turn_efi env "ascii ''^C''" g]
    by (auto simp: refl split: if_splits)
  then show ?thesis
    using noted_moves [OF moves_emit(3), of r' env "[13, 10]" g'] s
    by (auto simp: close_line_def intro: trans)
qed

end

interpretation harmless_frame: frame harmless
  by unfold_locales (auto intro: harmless_trans)

interpretation fewer_frame: frame fewer
  by unfold_locales (auto simp: fewer_def harmless_def)

end
