(* ===== verification/PB_Repl.thy ===== *)
theory PB_Repl
  imports PB_Frame PB_Editor PB_Session
begin

text \<open>
  The controller of the model REPL (\<open>src/model_repl.rs\<close>) around the turns of \<open>PB_Turn\<close>: what it does
  for each output of the editor (echo, commands, a turn, a rejected line, the prompt), the reading of
  keys and of timer ticks, the periodic timer, and the start of the REPL. The result of a wait on the
  two events is an input of the loop; the loop of the program runs as long as there are any.
\<close>

section \<open>Failures that end the REPL\<close>

definition trap :: "(failure, unit) op \<Rightarrow> repl \<Rightarrow> repl" where
  "trap a r = (case a r of (Inl f, r) \<Rightarrow> r\<lparr>rl_terminal := Some f\<rparr> | (Inr _, r) \<Rightarrow> r)"

definition status_failed :: "nat \<Rightarrow> failure" where
  "status_failed = failure_status (ascii ''STATUS_RENDER'') (ascii ''status'')"

definition say_failure :: "environment \<Rightarrow> bytes \<Rightarrow> (failure, unit) op" where
  "say_failure = say failure_status"

fun say_all :: "environment \<Rightarrow> bytes list \<Rightarrow> (failure, unit) op" where
  "say_all env [] r = (Inr (), r)"
| "say_all env (bs # rest) r = bind_op (say_failure env bs) (\<lambda>_. say_all env rest) r"

definition waiting_tick :: "environment \<Rightarrow> (failure, unit) op" where
  "waiting_tick env r =
     (if rl_state r = Waiting
      then map_op_error status_failed (render_status env) (r\<lparr>rl_frame := rl_frame r + 1\<rparr>)
      else (Inr (), r))"

section \<open>Events\<close>

definition emit_prompt_ready :: "environment \<Rightarrow> nat \<Rightarrow> (failure, unit) op" where
  "emit_prompt_ready env num r =
     bind_op (emit_event failure_status env (event ''PROMPT_READY prompt_index=''
       [count_of num, txt_of '' input_limit=512 history_turns='', count_of (rl_turns r),
        txt_of '' history_tokens='', count_of (rl_committed_len r), txt_of '' reserve='',
        count_of GENERATION_RESERVE, txt_of '' sampling_draws='', Num (ss_draws (rl_sampling r))]))
       (\<lambda>_. say_failure env (ascii ''promptboot> '')) r"

definition TOKENIZER_INDEX_SHA256_HEX :: bytes where
  "TOKENIZER_INDEX_SHA256_HEX =
     ascii ''393d697ecc53a12cb4ea6940f08bfbe8ba4f56bc0809a68fb28af3cbc87cc32a''"

definition SAMPLING_POLICY :: bytes where
  "SAMPLING_POLICY = ascii ''temperature_0p7_top_k_20_top_p_0p8_repetition_penalty_1p1''"

definition emit_repl_ready :: "environment \<Rightarrow> bytes \<Rightarrow> (failure, unit) op" where
  "emit_repl_ready env model_sha r =
     emit_event failure_status env (event ''MODEL_REPL_READY mode=model_repl model_sha256=''
       [Txt model_sha, txt_of '' index_sha256='', Txt TOKENIZER_INDEX_SHA256_HEX, txt_of '' context='',
        count_of CONTEXT_TOKENS, txt_of '' max_new_tokens='', count_of GENERATION_RESERVE,
        txt_of '' prompt_bytes='', count_of SESSION_BYTES, txt_of '' history=whole_turn timing_class='',
        txt_of (if ev_timed env then ''timed_invariant_tsc'' else ''untimed_noninvariant_tsc''),
        txt_of '' sampling='', Txt SAMPLING_POLICY, txt_of '' sampling_seed='', Hex (rl_seed r) 16,
        txt_of '' sampling_seed_source='', Txt (rl_seed_source r), txt_of '' interrupt_input='',
        txt_of (if rl_extended r then ''uefi_simple_text_input_ex'' else ''uefi_simple_text_input'')]) r"

section \<open>Commands\<close>

text \<open>A line of the status command is refused if it does not fit a record.\<close>

definition write_status_text :: "environment \<Rightarrow> piece list \<Rightarrow> (failure, unit) op" where
  "write_status_text env ps =
     (let text_record = build_record ps in
      if rec_overflow text_record
      then throw (failure_simple (ascii ''STATUS_RECORD'') (ascii ''status''))
      else say_failure env (record_as_bytes text_record))"

definition status_record :: "runtime_snapshot \<Rightarrow> piece list" where
  "status_record s = event ''RUNTIME_STATUS state=''
     [Txt (state_label (rt_state s)), txt_of '' cpu_mode='', Txt (cpu_label (ct_mode (rt_cpu s))),
      txt_of '' cpu_active='', Num (ucast (ct_active (rt_cpu s))), txt_of '' cpu_workers='',
      Num (ucast (ct_workers (rt_cpu s))), txt_of '' cpu_enabled='', Opt (ct_enabled (rt_cpu s)),
      txt_of '' cpu_total='', Opt (ct_processors (rt_cpu s)), txt_of '' memory_baseline='',
      Num (rt_memory_baseline s), txt_of '' memory_free='', Num (rt_memory_free s),
      txt_of '' memory_consumed_since_boot='', Num (consumed_since_boot s),
      txt_of '' committed_tokens='', Num (ucast (rt_committed_tokens s)), txt_of '' engine_position='',
      Num (ucast (rt_engine_position s)), txt_of '' context_limit='',
      Num (ucast (rt_context_limit s)), txt_of '' generation_reserve='',
      Num (ucast (rt_generation_reserve s))]"

definition report_status :: "environment \<Rightarrow> runtime_snapshot \<Rightarrow> (failure, unit) op" where
  "report_status env s =
     bind_op (say_failure env ([13, 10] @ ascii ''status:'' @ [13, 10])) (\<lambda>_.
     bind_op (write_status_text env
       [txt_of ''  state: '', Txt (state_label (rt_state s)), Txt [13, 10]]) (\<lambda>_.
     bind_op (write_status_text env
       [txt_of ''  cpu: mode='', Txt (cpu_label (ct_mode (rt_cpu s))), txt_of '' active='',
        Num (ucast (ct_active (rt_cpu s))), txt_of '' workers='', Num (ucast (ct_workers (rt_cpu s))),
        txt_of '' enabled='', Opt (ct_enabled (rt_cpu s)), txt_of '' total='',
        Opt (ct_processors (rt_cpu s)), Txt [13, 10]]) (\<lambda>_.
     bind_op (write_status_text env
       [txt_of ''  memory: baseline='', Num (rt_memory_baseline s), txt_of '' free='',
        Num (rt_memory_free s), txt_of '' consumed-since-boot='', Num (consumed_since_boot s),
        Txt [13, 10]]) (\<lambda>_.
     bind_op (write_status_text env
       [txt_of ''  context: committed='', Num (ucast (rt_committed_tokens s)), txt_of '' engine='',
        Num (ucast (rt_engine_position s)), txt_of '' limit='', Num (ucast (rt_context_limit s)),
        txt_of '' reserve='', Num (ucast (rt_generation_reserve s)), Txt [13, 10]]) (\<lambda>_.
     (let full = build_record (status_record s) in
      if rec_overflow full then throw (failure_simple (ascii ''STATUS_RECORD'') (ascii ''status''))
      else emit_event failure_status env (status_record s)))))))"

definition emit_runtime_status :: "environment \<Rightarrow> (failure, unit) op" where
  "emit_runtime_status env r =
     (let measured = measure_conventional_memory (ev_memory env (rl_measures r));
          s = snapshot r;
          r = r\<lparr>rl_measures := rl_measures r + 1\<rparr>
      in case measure_status_memory measured of
           Inl _ \<Rightarrow> (Inl (failure_simple (ascii ''STATUS_MEMORY'') (ascii ''status'')), r)
         | Inr free \<Rightarrow>
             bind_op (report_status env (s\<lparr>rt_memory_free := free\<rparr>))
               (\<lambda>_ r. map_op_error status_failed (render_status env) (r\<lparr>rl_free := free\<rparr>)) r)"

definition EVENT_DISPLAY_ON_FRAME :: bytes where
  "EVENT_DISPLAY_ON_FRAME = [0] @ ascii ''PROMPTBOOT_EVENTS_ON'' @ [0]"
definition EVENT_DISPLAY_OFF_FRAME :: bytes where
  "EVENT_DISPLAY_OFF_FRAME = [0] @ ascii ''PROMPTBOOT_EVENTS_OFF'' @ [0]"

definition events_command :: "environment \<Rightarrow> (failure, unit) op" where
  "events_command env =
     bind_op (say_failure env [13, 10]) (\<lambda>_ r.
       case toggle_event_display (rl_console r) of (enabled, con) \<Rightarrow>
         bind_op (say_failure env (ascii (if enabled then ''events: on'' else ''events: off'') @ [13, 10]))
           (\<lambda>_. on_console (conout_failed failure_status)
             (write_serial_checked (ev_screen env)
               (if enabled then EVENT_DISPLAY_ON_FRAME else EVENT_DISPLAY_OFF_FRAME)))
           (r\<lparr>rl_console := con\<rparr>))"

definition HELP_LINES :: "string list" where
  "HELP_LINES =
     [''commands:'', ''/events - toggle structured event display'', ''/help - show this help'',
      ''/new - clear the session and scrollback'', ''/status - show runtime statistics'',
      ''Ctrl-C - stop generation'', ''Page Up/Page Down - scroll output'']"

definition help_command :: "environment \<Rightarrow> (failure, unit) op" where
  "help_command env =
     say_all env ([13, 10] # map (\<lambda>line. ascii line @ [13, 10]) HELP_LINES)"

definition forget_conversation :: "repl \<Rightarrow> repl" where
  "forget_conversation r =
     (clear_turn (reset_engine_fresh r))
       \<lparr>rl_committed := replicate (length (rl_committed r)) 0, rl_committed_len := 0, rl_turns := 0\<rparr>"

definition new_command :: "environment \<Rightarrow> (failure, unit) op" where
  "new_command env r =
     bind_op (on_console (failure_status (ascii ''CONOUT_CLEAR'') (ascii ''output''))
       (reset_console_history (ev_screen env))) (\<lambda>_.
     bind_op (say_failure env (ascii ''new session'' @ [13, 10])) (\<lambda>_.
     map_op_error status_failed (set_state env Waiting))) (forget_conversation r)"

section \<open>A line of input\<close>

definition completion_of :: "turn_error + unit \<Rightarrow> turn_completion" where
  "completion_of turn =
     (case turn of Inr _ \<Rightarrow> TurnSuccess
      | Inl e \<Rightarrow> if te_recoverable e then RecoverableFailure else FatalFailure)"

definition turn_failure :: "turn_error \<Rightarrow> failure" where
  "turn_failure e =
     (case te_efi e of Some status \<Rightarrow> failure_status (te_code e) (te_phase e) status
      | None \<Rightarrow> (case te_model e of Some x \<Rightarrow> failure_model (te_code e) (te_phase e) x
      | None \<Rightarrow> (case te_inference e of Some x \<Rightarrow> failure_inference (te_code e) (te_phase e) x
      | None \<Rightarrow> failure_simple (te_code e) (te_phase e))))"

definition record_lost :: turn_error where
  "record_lost = turn_efi (ascii ''EVIDENCE_RECORD'') (ascii ''record'') DEVICE_ERROR"

text \<open>How the controller takes the outcome of a turn.\<close>

definition end_turn :: "environment \<Rightarrow> nat \<Rightarrow> turn_error + unit \<Rightarrow> repl \<Rightarrow> repl" where
  "end_turn env num turn r =
     (case turn of
        Inr _ \<Rightarrow> r
      | Inl e \<Rightarrow>
          let r = clear_working r in
          if te_recoverable e then
            (if te_reported e then r
             else case emit_generation_failed env num e r of
               (Inl _, r) \<Rightarrow>
                 r\<lparr>rl_terminal := Some (failure_simple (ascii ''EVIDENCE_RECORD'') (ascii ''record''))\<rparr>
             | (Inr _, r) \<Rightarrow> r)
          else if te_reported e \<or> te_code e = ascii ''EVIDENCE_RECORD'' \<or> te_code e = ascii ''MODEL_TIMER''
          then r\<lparr>rl_terminal := Some (turn_failure e)\<rparr>
          else case emit_generation_failed env num e r of
              (Inl _, r) \<Rightarrow> r\<lparr>rl_terminal := Some (turn_failure record_lost)\<rparr>
            | (Inr _, r) \<Rightarrow> r\<lparr>rl_terminal := Some (turn_failure e)\<rparr>)"

definition prompt_line :: "environment \<Rightarrow> nat \<Rightarrow> bytes \<Rightarrow> repl \<Rightarrow> repl" where
  "prompt_line env num line r =
     (case set_state env Inferring r of
        (Inl status, r) \<Rightarrow> r\<lparr>rl_terminal := Some (status_failed status)\<rparr>
      | (Inr _, r) \<Rightarrow>
        (case accepted_turn env num line r of (turn, r) \<Rightarrow>
         case set_state env Waiting r of
           (Inl status, r) \<Rightarrow>
             if waiting_render_failure_is_terminal (completion_of turn)
             then r\<lparr>rl_terminal := Some (status_failed status)\<rparr> else end_turn env num turn r
         | (Inr _, r) \<Rightarrow> end_turn env num turn r))"

definition accepted_line :: "environment \<Rightarrow> nat \<Rightarrow> bytes \<Rightarrow> repl \<Rightarrow> repl" where
  "accepted_line env num line r =
     (if is_event_toggle_command line then trap (events_command env) r
      else if is_help_command line then trap (help_command env) r
      else if is_status_command line then trap (emit_runtime_status env) r
      else if is_new_command line then trap (new_command env) r
      else prompt_line env num line r)"

definition rejected_line :: "environment \<Rightarrow> nat \<Rightarrow> (failure, unit) op" where
  "rejected_line env num =
     bind_op (say_failure env [13, 10]) (\<lambda>_.
     emit_event failure_status env (event ''INPUT_REJECTED prompt_index=''
       [count_of num, txt_of '' code=TOO_LONG limit=512'']))"

fun react :: "environment \<Rightarrow> editor_output \<Rightarrow> repl \<Rightarrow> repl" where
  "react env (LiveAscii b) r = trap (say_failure env [b]) r"
| "react env EraseLast r = trap (say_failure env [8, 32, 8]) r"
| "react env (Accepted num line) r = accepted_line env num line r"
| "react env (Rejected num) r = trap (rejected_line env num) r"
| "react env (Prompt num) r = trap (emit_prompt_ready env num) r"

text \<open>Nothing is done after a failure.\<close>

definition deliver :: "environment \<Rightarrow> editor_output \<Rightarrow> repl \<Rightarrow> repl" where
  "deliver env out r = (if rl_terminal r \<noteq> None then r else react env out r)"

section \<open>No operation adds keys\<close>

lemma fewer_trans: "fewer r r' \<Longrightarrow> fewer r' r'' \<Longrightarrow> fewer r r''"
  by (simp add: fewer_def)

lemma fewer_updates [simp]:
  "fewer r (clear_working r)" "fewer r (clear_traces r)" "fewer r (clear_turn r)"
  "fewer r (reset_engine r)" "fewer r (reset_engine_fresh r)" "fewer r (drop_turn r)"
  "fewer r (store_token t g token kind trace r)" "fewer r (forget_conversation r)"
  "fewer r (r\<lparr>rl_terminal := f\<rparr>)" "fewer r (r\<lparr>rl_console := con\<rparr>)" "fewer r (r\<lparr>rl_free := w\<rparr>)"
  "fewer r (r\<lparr>rl_measures := n\<rparr>)" "fewer r (r\<lparr>rl_frame := v\<rparr>)" "fewer r r"
  by (simp_all add: fewer_def clear_working_def clear_traces_def clear_turn_def reset_engine_def
    reset_engine_fresh_def drop_turn_def store_token_def forget_conversation_def)

lemma fewer_infer: "fewer r (snd (infer_token env t g r))"
  by (auto simp: infer_token_def fewer_def split: prod.split sum.split)

lemma fewer_commit: "fewer r (snd (commit_turn t g r))"
  by (auto simp: commit_turn_def Let_def fewer_def split: prod.split sum.split)

lemma fewer_settle: "fewer r (snd (settle_turn g r))"
  by (auto simp: settle_turn_def Let_def fewer_def reset_engine_def reset_engine_fresh_def)

lemma fewer_tokenize: "fewer r (snd (snd (tokenize_turn env history line r)))"
  by (auto simp: tokenize_turn_def fewer_def split: prod.split)

lemma fewer_reset_conversation: "fewer r (snd (reset_conversation_for_fresh_prompt n r))"
  by (auto simp: reset_conversation_for_fresh_prompt_def Let_def fewer_def clear_working_def split: prod.split)


lemma fewer_select: "fewer_frame.moves (select_token env t g)"
proof (unfold select_token_def, intro fewer_frame.moves_bind fewer_frame.moves_timing fewer_frame.movesI)
  fix start r
  obtain sel r1 where infer: "infer_token env t g r = (sel, r1)" by fastforce
  obtain e r2 where end_time: "timing_end env r1 = (e, r2)" by fastforce
  have "fewer r r1" using fewer_infer [of r env t g] infer by simp
  moreover have "fewer r1 r2" using fewer_frame.moved [OF fewer_frame.moves_timing(2) end_time] .
  ultimately have two: "fewer r r2" by (rule fewer_trans)
  have check: "fewer r (snd (bind_op (check_interrupt g') (\<lambda>_. return v) r2))" for g' and v :: "'v"
    by (rule fewer_trans [OF two])
      (intro fewer_frame.bind_step fewer_frame.moves_interrupt fewer_frame.moves_return)
  show "fewer r (snd (case infer_token env t g r of (selected, r) \<Rightarrow>
      (case timing_end env r of
         (Inl f, r) \<Rightarrow> (Inl (Return (timer_error f (gn_count g) (gn_visible g \<noteq> 0) None)), drop_turn r)
       | (Inr infer_end, r) \<Rightarrow>
         (case selected of Inl e \<Rightarrow> (Inl (break_error g e), r)
          | Inr token \<Rightarrow> bind_op (check_interrupt (g\<lparr>gn_previous := token\<rparr>))
              (\<lambda>_. return (token, start, infer_end)) r))))"
    using two fewer_trans [OF two fewer_updates(6)] infer end_time
    by (cases e; cases sel) (simp_all add: check)
qed

lemma fewer_generate_token: "fewer_frame.moves (generate_token env t g)"
proof (unfold generate_token_def, intro fewer_frame.moves_bind fewer_frame.moves_interrupt fewer_select)
  fix v show "fewer_frame.moves (case v of (token, infer_start, infer_end) \<Rightarrow>
     bind_op (show_token env token (g\<lparr>gn_previous := token\<rparr>))
       (\<lambda>(g, kind, n, units, output_start, output_end) r.
          let trace = \<lparr>tr_id = token, tr_kind = kind, tr_piece_bytes = n, tr_utf16_units = units,
                tr_infer_start = infer_start, tr_infer_end = infer_end,
                tr_output_start = output_start, tr_output_end = output_end\<rparr>;
              r = store_token t g token kind trace r;
              g = g\<lparr>gn_count := gn_count g + 1\<rparr>
          in bind_op (map_op_error (break_error g) (inference_step_complete env (gn_count g)))
               (\<lambda>_ r. if kind = piece_code EosPiece
                      then (case commit_turn t g r of (g, r) \<Rightarrow> (Inl (Break g), r))
                      else (Inr g, r)) r))"
    apply (simp only: split_def)
    apply (rule fewer_frame.moves_bind [OF fewer_frame.moves_show])
    apply (rule fewer_frame.movesI)
    apply (simp only: Let_def)
    apply (rule fewer_trans [OF fewer_updates(7)])
    apply (rule fewer_frame.bind_step [OF fewer_frame.moves_error [OF fewer_frame.moves_step_complete]])
    apply (rule fewer_frame.movesI)
    apply (simp add: fewer_commit)
    done
qed

lemma fewer_generate_tokens: "fewer r (snd (generate_tokens env t n g r))"
proof (induction n arbitrary: g r)
  case (Suc n)
  then show ?case
    using fewer_frame.movesD [OF fewer_generate_token, of r env t g]
    by (auto split: prod.split sum.split loop_exit.split intro: fewer_trans)
qed simp

lemma fewer_report: "fewer r (snd (report_failed env num g e r))"
proof -
  let ?e = "e\<lparr>te_generated := max (te_generated e) (gn_count g), te_partial := te_partial e \<or> gn_visible g \<noteq> 0\<rparr>"
  obtain res r1 where emit: "emit_generation_failed env num ?e (clear_turn r) = (res, r1)" by fastforce
  have "fewer r r1"
    by (rule fewer_trans [OF fewer_updates(3) fewer_frame.moved [OF fewer_frame.moves_failed emit]])
  then show ?thesis
    unfolding report_failed_def Let_def emit by (simp split: sum.split)
qed

lemma fewer_finish: "fewer r (snd (finish_turn env num start g r))"
proof -
  obtain g1 r1 where settle: "settle_turn g r = (g1, r1)" by fastforce
  obtain g2 r2 where closed: "close_line env (g1, r1) = (g2, r2)" by fastforce
  obtain res r3 where tokens: "emit_tokens env num [0..<gn_count g2] r2 = (res, r3)" by fastforce
  have "fewer r r1" "fewer r1 r2" "fewer r2 r3"
    using fewer_settle [of r g] settle fewer_frame.close_line_moves [of r1 env g1] closed
      fewer_frame.moved [OF fewer_frame.moves_emit_tokens tokens] by simp_all
  then have r3: "fewer r r3" by (blast intro: fewer_trans)
  have "fewer_frame.moves (bind_op (timing_start env) (\<lambda>end_tsc.
      bind_op (emit_generation_complete env num reason n v u b s end_tsc) (\<lambda>_ r. (Inr (), clear_turn r))))"
    for reason n v u b s
    by (intro fewer_frame.moves_bind fewer_frame.moves_timing fewer_frame.moves_events fewer_frame.movesI) simp
  note complete = fewer_trans [OF r3 fewer_frame.movesD [OF this]]
  show ?thesis
    using settle closed tokens complete fewer_trans [OF r3 fewer_report] fewer_trans [OF r3 fewer_updates(3)]
    by (auto simp: finish_turn_def split: sum.split option.split)
qed

lemma fewer_generate: "fewer r (snd (generate env num tsc n prefix r))"
proof -
  have "fewer_frame.moves (\<lambda>r. case emit_generation_started env num tsc n limit s start r of
      (Inl e, r) \<Rightarrow> (Inl e, drop_turn r)
    | (Inr _, r) \<Rightarrow> bind_op (generate_tokens env t limit (generation_new limit))
        (finish_turn env num start) (clear_traces r))" for limit s start t
  proof (rule fewer_frame.movesI)
    fix r
    obtain res r1 where start: "emit_generation_started env num tsc n limit s start r = (res, r1)" by fastforce
    have r1: "fewer r r1" by (rule fewer_frame.moved [OF fewer_frame.moves_events(5) start])
    have "fewer r1 (snd (bind_op (generate_tokens env t limit (generation_new limit))
        (finish_turn env num start) (clear_traces r1)))"
      by (rule fewer_trans [OF fewer_updates(2)], rule fewer_frame.bind_step)
        (auto intro!: fewer_frame.movesI fewer_generate_tokens fewer_finish)
    then show "fewer r (snd (case emit_generation_started env num tsc n limit s start r of
      (Inl e, r) \<Rightarrow> (Inl e, drop_turn r)
    | (Inr _, r) \<Rightarrow> bind_op (generate_tokens env t limit (generation_new limit))
        (finish_turn env num start) (clear_traces r)))"
      using r1 start fewer_trans [OF r1] by (auto split: sum.split)
  qed
  then show ?thesis
    by (auto simp: generate_def Let_def split: option.split
      intro!: fewer_frame.bind_step fewer_frame.moves_timing)
qed

lemma fewer_reject: "fewer_frame.moves (reject_turn env num m n)"
  unfolding reject_turn_def
  by (intro fewer_frame.moves_bind fewer_frame.moves_events fewer_frame.movesI) simp

lemma fewer_broken: "fewer r (snd (history_broken r))"
  by (simp add: history_broken_def)

lemma fewer_plan: "fewer r (snd (plan_turn env num line r))"
proof -
  have reject: "fewer r (snd (bind_op (reject_turn env num m n) (\<lambda>_. return None) r))" for r m n
    by (intro fewer_frame.bind_step fewer_reject fewer_frame.moves_return)
  have reset: "fewer r (snd (bind_op (emit_history_reset env num)
      (\<lambda>_ r. (Inr (f n), snd (reset_conversation_for_fresh_prompt n r))) r))" for r n and f :: "nat \<Rightarrow> 'a"
    by (intro fewer_frame.bind_step fewer_frame.moves_events fewer_frame.movesI)
      (simp add: fewer_reset_conversation)
  have fresh: "fewer r (snd (plan_fresh env num line p r))" for p r
  proof -
    obtain f out r1 where tok: "tokenize_turn env [] line (clear_working r) = (f, out, r1)"
      by (metis prod_cases3)
    have r1: "fewer r r1"
      using fewer_trans [OF fewer_updates(1) fewer_tokenize, of r env "[]" line] tok by simp
    show ?thesis
      using tok fewer_trans [OF r1 reject] fewer_trans [OF r1 reset] fewer_trans [OF r1 fewer_broken]
        fewer_trans [OF r1 fewer_updates(1)]
      by (auto simp: plan_fresh_def split: sum.split history_decision.split)
  qed
  obtain f out r1 where tok: "tokenize_turn env (take (rl_committed_len (clear_working r))
      (rl_committed (clear_working r))) line (clear_working r) = (f, out, r1)"
    by (metis prod_cases3)
  have r1: "fewer r r1"
    using fewer_trans [OF fewer_updates(1) fewer_tokenize, of r env _ line] tok by (metis snd_conv)
  show ?thesis
    using tok r1 fewer_trans [OF r1 reject] fewer_trans [OF r1 fresh] fewer_trans [OF r1 fewer_broken]
    by (auto simp: plan_turn_def Let_def split: sum.split history_decision.split)
qed

lemma fewer_turn: "fewer_frame.moves (accepted_turn env num line)"
  unfolding accepted_turn_def
  by (intro fewer_frame.moves_bind fewer_frame.moves_emit fewer_frame.moves_timing fewer_frame.moves_events)
    (auto intro!: fewer_frame.moves_bind fewer_frame.moves_return fewer_frame.moves_events
      intro: fewer_frame.movesI simp: fewer_plan fewer_generate split: option.split)


lemma fewer_terminal [simp]: "fewer r (r'\<lparr>rl_terminal := f\<rparr>) = fewer r r'"
  by (simp add: fewer_def)

context frame
begin

lemma trap_moves: "moves a \<Longrightarrow> R r (trap a r)"
proof -
  assume a: "moves a"
  obtain res r1 where run: "a r = (res, r1)" by fastforce
  have "R r r1" by (rule moved [OF a run])
  then show ?thesis
    using run trans [OF _ base [OF harmless_updates(7)]] by (auto simp: trap_def split: sum.split)
qed

lemma moves_say: "moves (say_failure env bs)"
  unfolding say_failure_def by (rule moves_emit)

lemma moves_say_all: "moves (say_all env lines)"
proof (induction lines)
  case (Cons bs lines)
  then show ?case
    by (intro movesI) (simp add: bind_step [OF moves_say])
qed (simp add: moves_def refl)

lemma moves_text: "moves (write_status_text env ps)"
  by (simp add: write_status_text_def Let_def moves_say moves_throw)

lemma moves_report: "moves (report_status env s)"
  unfolding report_status_def Let_def
  by (auto intro!: moves_bind moves_say moves_text moves_throw moves_emit)

lemma moves_runtime_status: "moves (emit_runtime_status env)"
proof (rule movesI)
  fix r
  have render: "moves (\<lambda>r. map_op_error status_failed (render_status env) (r\<lparr>rl_free := w\<rparr>))" for w
    by (rule movesI, rule trans [OF base [OF harmless_updates(5)]])
      (rule movesD [OF moves_error [OF moves_status(1)]])
  have measured: "R r (r\<lparr>rl_measures := n\<rparr>)" for n by (simp add: base)
  have "R r (snd (bind_op (report_status env s)
      (\<lambda>_ r. map_op_error status_failed (render_status env) (r\<lparr>rl_free := w\<rparr>)) (r\<lparr>rl_measures := n\<rparr>)))"
    for s w n
    by (rule trans [OF measured bind_step [OF moves_report render]])
  then show "R r (snd (emit_runtime_status env r))"
    unfolding emit_runtime_status_def Let_def using measured by (simp split: sum.split)
qed

lemma moves_events_command: "moves (events_command env)"
proof (unfold events_command_def, intro moves_bind moves_say movesI)
  fix r
  have "R r (snd (bind_op (say_failure env bs) (\<lambda>_. on_console f a) (r\<lparr>rl_console := con\<rparr>)))"
    for con bs f and a :: "unit conop"
    by (rule trans [OF base [OF harmless_updates(1)] bind_step [OF moves_say moves_console]])
  then show "R r (snd (case toggle_event_display (rl_console r) of (enabled, con) \<Rightarrow>
         bind_op (say_failure env (ascii (if enabled then ''events: on'' else ''events: off'') @ [13, 10]))
           (\<lambda>_. on_console (conout_failed failure_status)
             (write_serial_checked (ev_screen env)
               (if enabled then EVENT_DISPLAY_ON_FRAME else EVENT_DISPLAY_OFF_FRAME)))
           (r\<lparr>rl_console := con\<rparr>)))"
    unfolding split_def by simp
qed

lemma moves_lines:
  "moves (help_command env)" "moves (rejected_line env num)" "moves (emit_prompt_ready env num)"
  by (auto simp: help_command_def rejected_line_def emit_prompt_ready_def
    intro!: moves_say_all moves_bind moves_say moves_emit movesI bind_step)

lemma moves_greeting:
  "moves (emit_repl_ready env sha)" "moves (waiting_tick env)"
proof -
  show "moves (emit_repl_ready env sha)"
    by (rule movesI) (simp add: emit_repl_ready_def movesD [OF moves_emit(1)])
  have "R r (snd (map_op_error status_failed (render_status env) (r\<lparr>rl_frame := n\<rparr>)))" for r n
    by (rule trans [OF base [OF harmless_updates(3)] movesD [OF moves_error [OF moves_status(1)]]])
  then show "moves (waiting_tick env)" by (auto simp: moves_def waiting_tick_def refl)
qed

end

lemma fewer_new: "fewer_frame.moves (new_command env)"
  by (rule fewer_frame.movesI, unfold new_command_def, rule fewer_trans [OF fewer_updates(8)])
    (intro fewer_frame.bind_step fewer_frame.moves_bind fewer_frame.moves_console fewer_frame.moves_say
      fewer_frame.moves_error fewer_frame.moves_status)

lemma fewer_end_turn: "fewer r (end_turn env num turn r)"
proof (cases turn)
  case (Inl e)
  obtain res r1 where emit: "emit_generation_failed env num e (clear_working r) = (res, r1)" by fastforce
  have "fewer r r1"
    by (rule fewer_trans [OF fewer_updates(1) fewer_frame.moved [OF fewer_frame.moves_failed emit]])
  moreover have "fewer r (clear_working r)" by simp
  ultimately show ?thesis
    using emit Inl by (auto simp: end_turn_def Let_def fewer_def split: sum.split)
qed (simp add: end_turn_def)

lemma fewer_prompt_line: "fewer r (prompt_line env num line r)"
proof -
  obtain res1 r1 where inferring: "set_state env Inferring r = (res1, r1)" by fastforce
  obtain res2 r2 where turn: "accepted_turn env num line r1 = (res2, r2)" by fastforce
  obtain res3 r3 where waiting: "set_state env Waiting r2 = (res3, r3)" by fastforce
  have "fewer r r1" "fewer r1 r2" "fewer r2 r3"
    using fewer_frame.moved [OF fewer_frame.moves_status(2) inferring] fewer_frame.moved [OF fewer_turn turn]
      fewer_frame.moved [OF fewer_frame.moves_status(2) waiting] by simp_all
  then have "fewer r r1" "fewer r r3" by (blast intro: fewer_trans)+
  then show ?thesis
    using inferring turn waiting fewer_trans [OF _ fewer_end_turn, of r r3 env num res2]
      fewer_trans [OF _ fewer_updates(9)]
    by (auto simp: prompt_line_def split: sum.split)
qed

lemma fewer_deliver: "fewer r (deliver env out r)"
  by (cases out)
    (simp_all add: deliver_def accepted_line_def fewer_frame.trap_moves fewer_frame.moves_say
      fewer_frame.moves_events_command fewer_frame.moves_runtime_status fewer_frame.moves_lines
      fewer_new fewer_prompt_line)

lemma fewer_delivered: "fewer r (fold (deliver env) outs r)"
  by (induction outs arbitrary: r) (auto intro: fewer_trans fewer_deliver)

section \<open>Keys and timer ticks\<close>

definition SCAN_PAGE_UP :: u16 where "SCAN_PAGE_UP = 9"
definition SCAN_PAGE_DOWN :: u16 where "SCAN_PAGE_DOWN = 10"

definition input_failure :: "bytes \<Rightarrow> failure" where
  "input_failure code = failure_simple code (ascii ''repl_input'')"

definition scroll_key :: "environment \<Rightarrow> bool \<Rightarrow> (failure, unit) op" where
  "scroll_key env up =
     on_console (\<lambda>_. failure_simple (ascii ''CONOUT_SCROLL'') (ascii ''output''))
       (scroll_console_page (ev_screen env) up)"

text \<open>A key handed to the editor, its outputs taken in their order; a failure is taken out.\<close>

definition edit_key :: "environment \<Rightarrow> u16 \<Rightarrow> editor \<Rightarrow> (failure, editor) op" where
  "edit_key env unicode ed r =
     (case process_key ed unicode of (flow, ed, outs) \<Rightarrow>
        let r = fold (deliver env) outs r in
        if flow = PromptIndexOverflow then (Inl (input_failure (ascii ''PROMPT_INDEX'')), r)
        else case rl_terminal r of
          Some f \<Rightarrow> (Inl f, r\<lparr>rl_terminal := None\<rparr>)
        | None \<Rightarrow> (Inr ed, r))"

definition handle_key :: "environment \<Rightarrow> key_reply \<Rightarrow> editor \<Rightarrow> (failure, editor) op" where
  "handle_key env k ed =
     (if kr_unicode k = 0 \<and> (kr_scan k = SCAN_PAGE_UP \<or> kr_scan k = SCAN_PAGE_DOWN)
      then bind_op (scroll_key env (kr_scan k = SCAN_PAGE_UP)) (\<lambda>_. return ed)
      else edit_key env (kr_unicode k) ed)"

lemma fewer_handle: "fewer_frame.moves (handle_key env k ed)"
proof -
  have "fewer_frame.moves (edit_key env unicode ed)" for unicode
    using fewer_delivered
    by (auto simp: edit_key_def Let_def split: prod.split option.split
      intro!: fewer_frame.movesI)
  then show ?thesis
    unfolding handle_key_def scroll_key_def
    by (auto intro!: fewer_frame.moves_bind fewer_frame.moves_console fewer_frame.moves_return)
qed

text \<open>All keys that are ready are read before the next wait.\<close>

function read_keys :: "environment \<Rightarrow> editor \<Rightarrow> (failure, editor) op" where
  "read_keys env ed r =
     (case rl_keys r of
        [] \<Rightarrow> (Inr ed, r)
      | k # ks \<Rightarrow>
        (case read_result (kr_status k) of
           Inl e \<Rightarrow> (Inl (input_failure (console_code e)), r\<lparr>rl_keys := ks\<rparr>)
         | Inr ready \<Rightarrow>
             if \<not> ready then (Inr ed, r\<lparr>rl_keys := ks\<rparr>)
             else case handle_key env k ed (r\<lparr>rl_keys := ks\<rparr>) of
               (Inl f, r) \<Rightarrow> (Inl f, r)
             | (Inr ed, r) \<Rightarrow> read_keys env ed r))"
  by pat_completeness auto
termination
proof (relation "measure (\<lambda>(_, _, r). length (rl_keys r))", goal_cases)
  case (2 env ed r k ks ready res r' ed')
  have "fewer (r\<lparr>rl_keys := ks\<rparr>) r'"
    using fewer_frame.moved [OF fewer_handle, of env k ed "r\<lparr>rl_keys := ks\<rparr>"] 2 by metis
  then show ?case using 2 by (simp add: fewer_def)
qed simp

declare read_keys.simps [simp del]

definition wait_failure :: "nat \<Rightarrow> failure" where
  "wait_failure status =
     failure_status (ascii ''CONSOLE_WAIT'') (ascii ''repl_input'')
       (if status = USIZE_MAX then DEVICE_ERROR else status)"

text \<open>
  The loop over the results of the waits, each a status and the index of the event that fired (0 for
  a key, 1 for the timer); \<open>None\<close> is the REPL still waiting.
\<close>

fun input_loop :: "environment \<Rightarrow> (nat \<times> nat) list \<Rightarrow> editor \<Rightarrow> repl \<Rightarrow> failure option \<times> editor \<times> repl" where
  "input_loop env [] ed r = (None, ed, r)"
| "input_loop env (w # ws) ed r =
     (case wait_key_first (0 :: nat) 1 (\<lambda>_ _. w) of
        Inl status \<Rightarrow> (Some (wait_failure status), ed, r)
      | Inr Timer \<Rightarrow>
          (case waiting_tick env r of
             (Inl f, r) \<Rightarrow> (Some f, ed, r) | (Inr _, r) \<Rightarrow> input_loop env ws ed r)
      | Inr Key \<Rightarrow>
          (case read_keys env ed r of
             (Inl f, r) \<Rightarrow> (Some f, ed, r) | (Inr ed, r) \<Rightarrow> input_loop env ws ed r))"

section \<open>The periodic timer\<close>

fun repl_timer_failure :: "timer_failure_kind \<Rightarrow> failure" where
  "repl_timer_failure (CreateFailed status) =
     failure_status (ascii ''STATUS_TIMER_CREATE'') (ascii ''status'') status"
| "repl_timer_failure (SetFailed status) =
     failure_status (ascii ''STATUS_TIMER_SET'') (ascii ''status'') status"
| "repl_timer_failure (CancelFailed status) =
     failure_status (ascii ''STATUS_TIMER_CANCEL'') (ascii ''status'') status"
| "repl_timer_failure (CloseFailed status) =
     failure_status (ascii ''STATUS_TIMER_CLOSE'') (ascii ''status'') status"

text \<open>
  The firmware's timer services: whether each is there, the status and the event of a creation, and
  the statuses of the other calls. A created event that is null is a device error.
\<close>

record timer_services =
  tm_create_event :: bool
  tm_set_timer :: bool
  tm_close_event :: bool
  tm_create :: "nat timer_call list \<Rightarrow> nat \<times> nat"
  tm_reply :: "nat timer_call list \<Rightarrow> nat timer_call \<Rightarrow> nat"

definition create_reply :: "timer_services \<Rightarrow> nat timer_call list \<Rightarrow> nat + nat" where
  "create_reply tm h =
     (case tm_create tm h of (status, e) \<Rightarrow>
        if status \<noteq> 0 then Inl status else if e = 0 then Inl DEVICE_ERROR else Inr e)"

definition repl_timer_create :: "timer_services \<Rightarrow> (failure + nat) \<times> nat timer_call list" where
  "repl_timer_create tm =
     (if \<not> tm_create_event tm \<or> \<not> tm_set_timer tm \<or> \<not> tm_close_event tm
      then (Inl (failure_simple (ascii ''STATUS_TIMER_BINDING'') (ascii ''status'')), [])
      else case start_periodic_timer (create_reply tm) (tm_reply tm) [] of
        (res, h) \<Rightarrow> (map_sum repl_timer_failure (\<lambda>e. e) res, h))"

definition repl_timer_cleanup ::
  "timer_services \<Rightarrow> nat \<Rightarrow> nat timer_call list \<Rightarrow> (failure + unit) \<times> nat timer_call list" where
  "repl_timer_cleanup tm e h =
     (case cleanup_periodic_timer (tm_reply tm) e h of
        (res, h) \<Rightarrow> (map_sum repl_timer_failure (\<lambda>u. u) res, h))"

section \<open>The start of the REPL\<close>

definition FALLBACK_SAMPLING_SEED :: u64 where "FALLBACK_SAMPLING_SEED = 0x6d6f64656c2d6f73"

text \<open>The random instruction of the processor, when it has one: values and carry flags, in order.\<close>

definition sampling_seed :: "bool \<Rightarrow> (u64 \<times> bool) list \<Rightarrow> u64 \<times> bytes" where
  "sampling_seed has_rdrand tries =
     (if has_rdrand
      then case find snd (take 8 tries) of
             Some (v, _) \<Rightarrow> (v, ascii ''rdrand'')
           | None \<Rightarrow> (FALLBACK_SAMPLING_SEED, ascii ''fixed_fallback'')
      else (FALLBACK_SAMPLING_SEED, ascii ''fixed_fallback''))"

text \<open>
  What the REPL is started with: the firmware's input interfaces, the buffers and the processors of
  the engine, the random numbers, and the values of the previous stages. The dispatcher and the
  topology come from the multiprocessor adapter.
\<close>

record startup =
  su_con_in :: nat
  su_reset_entry :: nat
  su_read_entry :: nat
  su_wait_for_key :: nat
  su_wait_for_event :: nat
  su_reset_status :: nat
  su_extended_status :: nat
  su_extended_interface :: nat
  su_extended_entry :: nat
  su_model :: model_view
  su_kv :: kv_store
  su_kv_address :: nat
  su_scratch_address :: nat
  su_backend :: backend
  su_dispatcher :: "dispatcher option"
  su_cpu :: cpu_topology
  su_logits :: "u32 list"
  su_console :: console
  su_keys :: "key_reply list"
  su_clock :: nat
  su_has_rdrand :: bool
  su_draws :: "(u64 \<times> bool) list"
  su_model_sha :: bytes
  su_baseline :: u64
  su_timer :: timer_services

definition opened_extended :: "startup \<Rightarrow> bool" where
  "opened_extended su \<longleftrightarrow>
     su_extended_status su = 0 \<and> su_extended_interface su \<noteq> 0 \<and> su_extended_entry su \<noteq> 0"

definition controller :: "startup \<Rightarrow> engine \<Rightarrow> u64 \<Rightarrow> repl" where
  "controller su e memory_free =
     (let (seed, seed_source) = sampling_seed (su_has_rdrand su) (su_draws su); sampling = sampling_new seed in
      \<lparr>rl_engine = e, rl_logits = su_logits su, rl_console = su_console su, rl_keys = su_keys su,
       rl_clock = su_clock su, rl_measures = 1, rl_cpu = su_cpu su, rl_baseline = su_baseline su,
       rl_free = memory_free, rl_state = Waiting, rl_frame = 0, rl_extended = opened_extended su,
       rl_committed = replicate CONTEXT_TOKENS 0, rl_working = replicate CONTEXT_TOKENS 0,
       rl_traces = replicate GENERATION_RESERVE TRACE_ZERO,
       rl_bitmap = replicate REPETITION_BITMAP_BYTES 0, rl_committed_len = 0, rl_cached_len = 0,
       rl_turns = 0, rl_seed = ss_state sampling, rl_seed_source = seed_source, rl_sampling = sampling,
       rl_terminal = None\<rparr>)"

definition build_controller :: "environment \<Rightarrow> startup \<Rightarrow> failure + repl" where
  "build_controller env su =
     (case engine_build (su_model su) (su_kv su) KV_BYTES (su_kv_address su) SCRATCH_BYTES
             (su_scratch_address su) (su_backend su) (su_dispatcher su) of
        Inl e \<Rightarrow> Inl (failure_inference (ascii ''ENGINE_BUILD'') (ascii ''engine'') e)
      | Inr engine \<Rightarrow>
        (case measure_status_memory (measure_conventional_memory (ev_memory env 0)) of
           Inl _ \<Rightarrow> Inl (failure_simple (ascii ''STATUS_MEMORY'') (ascii ''status''))
         | Inr free \<Rightarrow> Inr (controller su engine free)))"

definition open_input :: "startup \<Rightarrow> failure + unit" where
  "open_input su =
     map_sum (\<lambda>e. input_failure (console_code e)) (\<lambda>u. u)
       (bind_result (validate_bindings (su_con_in su) (su_reset_entry su) (su_read_entry su)
          (su_wait_for_key su) (su_wait_for_event su)) (\<lambda>_. reset_result (su_reset_status su)))"

text \<open>The first prompt, numbered as the editor numbers it.\<close>

definition greet :: "environment \<Rightarrow> bytes \<Rightarrow> (failure, unit) op" where
  "greet env model_sha =
     bind_op (emit_repl_ready env model_sha) (\<lambda>_.
     bind_op (say_failure env (ascii ''Ctrl-C stops generation; /help lists commands.'' @ [13, 10])) (\<lambda>_.
     bind_op (map_op_error status_failed (render_status env)) (\<lambda>_ r.
       let r = deliver env (Prompt (prompt_index editor_new)) r
       in case rl_terminal r of
            Some f \<Rightarrow> (Inl f, r\<lparr>rl_terminal := None\<rparr>)
          | None \<Rightarrow> (Inr (), r))))"

text \<open>
  The REPL from its start: it returns the failure that ended it, or none while it is still waiting;
  the timer is released on every way out of the loop.
\<close>

definition run_repl ::
  "environment \<Rightarrow> startup \<Rightarrow> (nat \<times> nat) list \<Rightarrow> failure option \<times> nat timer_call list" where
  "run_repl env su waits =
     (case open_input su of
        Inl f \<Rightarrow> (Some f, [])
      | Inr _ \<Rightarrow>
        (case build_controller env su of
           Inl f \<Rightarrow> (Some f, [])
         | Inr r \<Rightarrow>
           (case greet env (su_model_sha su) r of
              (Inl f, r) \<Rightarrow> (Some f, [])
            | (Inr _, r) \<Rightarrow>
              (case repl_timer_create (su_timer su) of
                 (Inl f, h) \<Rightarrow> (Some f, h)
               | (Inr e, h) \<Rightarrow>
                 (case input_loop env waits editor_new r of
                    (None, _, _) \<Rightarrow> (None, h)
                  | (Some f, _, _) \<Rightarrow>
                    (case repl_timer_cleanup (su_timer su) e h of
                       (closed_timer, h) \<Rightarrow>
                         (case primary_or_cleanup (Inl f) closed_timer of
                            Inl f \<Rightarrow> (Some f, h) | Inr (_ :: unit) \<Rightarrow> (None, h))))))))"

end
