(* ===== verification/PB_Cache.thy ===== *)
theory PB_Cache
  imports PB_Frame
begin

text \<open>
  The key-value cache across the turns of the model REPL (\<open>PB_Turn\<close>): the theories of the engine say
  what it holds after each of its operations (\<open>PB_Retained\<close>); here the generation loop is shown to
  keep the controller's own bookkeeping in step with that. \<open>conversation_ok\<close> is the invariant between
  two inputs, \<open>loop_ok\<close> the invariant of the loop and \<open>ended\<close> what the loop leaves, in every way it
  can end.
\<close>

section \<open>What the engine holds\<close>

definition live :: "engine \<Rightarrow> bool" where
  "live e \<longleftrightarrow> en_state e = ST_READY \<or> en_state e = ST_EOS"

definition cached :: "fpu \<Rightarrow> bytes \<Rightarrow> nat list \<Rightarrow> engine \<Rightarrow> bool" where
  "cached f table tokens e \<longleftrightarrow> (\<exists>hist. holds f table hist e \<and> map fst hist = tokens)"

lemma cached_position: "cached f table tokens e \<Longrightarrow> en_position e = length tokens"
  by (auto simp: cached_def holds_def)

lemma prefill_inner_live:
  assumes run: "prefill_inner f table prompt reserve appending (e, logits) = (Inr step, e', logits')"
  shows "live e' \<and> en_prefix e' = en_prefix e"
proof -
  obtain u where ok: "check_prompt e prompt reserve (length logits) appending = Inr u"
    using run by (auto simp: prefill_inner_def split: sum.splits)
  let ?e = "e\<lparr>en_reserve := reserve, en_emitted := 0\<rparr>"
  obtain r e1 l1 where ev: "eval_prompt f table prompt (?e, logits) = (r, e1, l1)"
    by (cases "eval_prompt f table prompt (?e, logits)")
  obtain w where r: "r = Inr w" using run ev ok by (cases r) (auto simp: prefill_inner_def)
  have pub: "publish_step (e1\<lparr>en_emitted := 1\<rparr>, l1) = (Inr step, e', logits')"
    using run ev r ok by (simp add: prefill_inner_def)
  show ?thesis using publish_cases [OF pub] eval_prompt_cases [OF ev] r by (simp add: live_def)
qed

lemma decode_live:
  assumes run: "decode_inner f table token greedy (e, logits) = (Inr step, e', logits')"
  shows "live e' \<and> en_prefix e' = en_prefix e"
proof -
  obtain u where ok: "check_decode e token (length logits) greedy = Inr u"
    using run by (auto simp: decode_inner_def split: sum.splits)
  obtain r e1 l1 where ev: "evaluate f table token True (e, logits) = (r, e1, l1)"
    by (cases "evaluate f table token True (e, logits)")
  obtain w where r: "r = Inr w"
    using run ev ok by (cases r) (auto simp: decode_inner_def fail_with_def split: prod.splits)
  have pub: "publish_step (e1\<lparr>en_emitted := en_emitted e1 + 1\<rparr>, l1) = (Inr step, e', logits')"
    using run ev r ok by (simp add: decode_inner_def)
  have "advanced e e1" using evaluate_frame [OF ev] r by simp
  then show ?thesis using publish_cases [OF pub] advanced_fields [of e e1] by (simp add: live_def)
qed

lemma append_prefill_answer:
  assumes run: "append_prefill f table prompt reserve (e, logits) = (Inr step, e', logits')"
    and e: "reachable f table e" and held: "cached f table tokens e"
  shows "live e' \<and> cached f table (tokens @ prompt) e' \<and> en_prefix e' = en_prefix e"
proof -
  have inner: "prefill_inner f table prompt reserve True (e, logits) = (Inr step, e', logits')"
    using run by (auto simp: append_prefill_def split: inference_state.splits)
  obtain hist where hist: "holds f table hist e" "map fst hist = tokens"
    using held by (auto simp: cached_def)
  have "holds f table (hist @ flagged prompt) e'"
    using prefill_inner_holds [OF inner hist(1) engine_ok_zero [OF reachable_ok [OF e]]] by simp
  then show ?thesis
    using prefill_inner_live [OF inner] hist(2) by (auto simp: cached_def intro!: exI [of _ "hist @ flagged prompt"])
qed

lemma decode_answer:
  assumes run: "decode_selected f table token (e, logits) = (Inr step, e', logits')"
    and e: "reachable f table e" and held: "cached f table tokens e"
  shows "live e' \<and> cached f table (tokens @ [token]) e' \<and> en_prefix e' = en_prefix e"
proof -
  have inner: "decode_inner f table token False (e, logits) = (Inr step, e', logits')"
    using run by (simp add: decode_selected_def)
  obtain hist where hist: "holds f table hist e" "map fst hist = tokens"
    using held by (auto simp: cached_def)
  have "holds f table (hist @ [(token, True)]) e'"
    by (rule decode_holds [OF inner hist(1) engine_ok_zero [OF reachable_ok [OF e]]])
  then show ?thesis
    using decode_live [OF inner] hist(2)
    by (auto simp: cached_def intro!: exI [of _ "hist @ [(token, True)]"])
qed

lemma prefill_fresh_answer:
  assumes run: "prefill_fresh f table prompt n reserve (e, logits) = (Inr step, e', logits')"
    and ok: "engine_ok e" and hist: "holds f table [] e"
  shows "live e' \<and> cached f table prompt e' \<and> rp_len (en_prefix e') = n"
proof -
  obtain e1 where e1: "prefill f table prompt reserve (e, logits) = (Inr step, e1, logits')"
    and e': "e' = e1\<lparr>en_prefix := retain_prefix prompt n\<rparr>"
    using run by (auto simp: prefill_fresh_def split: prod.splits sum.splits)
  then have inner: "prefill_inner f table prompt reserve False (e, logits) = (Inr step, e1, logits')"
    by (auto simp: prefill_def split: if_splits)
  have holds: "holds f table (flagged prompt) e1"
    using prefill_inner_holds [OF inner hist engine_ok_zero [OF ok]] by simp
  have "engine_ok e1" using prefill_ok [OF e1 ok] by simp
  from holds_limit [OF this holds] have "holds f table (flagged prompt) e'"
    by (intro holds_cong [OF holds]) (simp_all add: e')
  then show ?thesis
    using prefill_inner_live [OF inner] by (auto simp: e' live_def cached_def intro!: exI [of _ "flagged prompt"])
qed

lemma prefill_with_prefix_answer:
  assumes run: "prefill_with_prefix f table prompt n reserve (e, logits) = (Inr step, e', logits')"
    and e: "reachable f table e" and st: "en_state e = ST_RESET"
  shows "live e' \<and> cached f table prompt e' \<and> rp_len (en_prefix e') = n"
proof -
  have ok: "engine_ok e" by (rule reachable_ok [OF e])
  obtain hist where hist: "remembers f table hist e"
    using reachable_tracked [OF e] st by (auto simp: tracked_def)
  have n: "0 < n" "n < length prompt" using run by (auto simp: prefill_with_prefix_def split: if_splits)
  have reset: "holds f table [] (reset_state e)" by (rule remembers_holds [OF remembers_reset])
  show ?thesis
  proof (cases "rp_len (en_prefix e) \<noteq> 0 \<and> prefix_matches e prompt n")
    case True
    then have inner: "prefill_inner f table (drop n prompt) reserve True (e, logits) = (Inr step, e', logits')"
      using run n by (auto simp: prefill_with_prefix_def split: if_splits)
    note match = prefix_reuse_prompts [OF ok hist conjunct2 [OF True] n(2)]
    have "map fst (map (\<lambda>t. (t, False)) (take n prompt)) = take n prompt" by (simp add: comp_def)
    then have "map fst (hist @ flagged (drop n prompt)) = prompt" using match by simp
    moreover have "holds f table (hist @ flagged (drop n prompt)) e'"
      using prefill_inner_holds [OF inner remembers_holds [OF hist] engine_ok_zero [OF ok]] by simp
    ultimately show ?thesis
      using prefill_inner_live [OF inner] match by (auto simp: cached_def)
  next
    case False
    show ?thesis
    proof (cases "rp_len (en_prefix e) = 0")
      case True
      then have "hist = []" using hist ok st by (simp add: remembers_def holds_def engine_ok_def)
      with hist have empty: "holds f table [] e" using remembers_holds by simp
      have "prefill_fresh f table prompt n reserve (e, logits) = (Inr step, e', logits')"
        using run True by (auto simp: prefill_with_prefix_def split: if_splits)
      from prefill_fresh_answer [OF this ok empty] show ?thesis .
    next
      case nonzero: False
      then have "prefill_fresh f table prompt n reserve (reset_state e, logits) = (Inr step, e', logits')"
        using run False st by (auto simp: prefill_with_prefix_def split: if_splits)
      from prefill_fresh_answer [OF this engine_ok_reset reset] show ?thesis .
    qed
  qed
qed

text \<open>The operations keep the engine reachable; the retained prefix stays, is lost or is the new one.\<close>

lemma reachable_operation:
  "reachable f table e \<Longrightarrow> run_operation f table oper (e, logits) = (r, e', logits') \<Longrightarrow> reachable f table e'"
  using reachable.operated [of f table e oper logits] by simp

lemma failed_prefix:
  assumes "run_operation f table oper (e, logits) = (Inl x, e', logits')"
  shows "rp_len (en_prefix e') \<in> {0, rp_len (en_prefix e)}"
  using operation_failed [OF assms] by (auto simp: faulted_def reset_state_def)

lemma reset_to_prefix_facts:
  "reset_to_prefix e = (n, e') \<Longrightarrow> en_state e' = ST_RESET \<and> rp_len (en_prefix e') \<in> {0, rp_len (en_prefix e)} \<and>
     en_position e' = n \<and> (n = 0 \<or> n = rp_len (en_prefix e))"
  by (auto simp: reset_to_prefix_def Let_def reset_state_def split: if_splits)

lemma reachable_resets:
  assumes "reachable f table e"
  shows "reachable f table (snd (reset_to_prefix e))" "reachable f table (reset_state e)"
  using reachable.operated [OF assms, of ResetToPrefix "[]"] reachable.operated [OF assms, of Reset "[]"]
  by (simp_all split: prod.splits)

section \<open>The invariant of the controller\<close>

definition prefix_count :: "environment \<Rightarrow> nat" where
  "prefix_count env = length (prefix_tokens (tk_index (ev_tokenizer env)))"

definition engine_inv :: "environment \<Rightarrow> engine \<Rightarrow> bool" where
  "engine_inv env e \<longleftrightarrow> reachable (ev_fpu env) (ev_table env) e \<and> rp_len (en_prefix e) \<in> {0, prefix_count env}"

definition holds_tokens :: "environment \<Rightarrow> nat list \<Rightarrow> engine \<Rightarrow> bool" where
  "holds_tokens env tokens e \<longleftrightarrow> cached (ev_fpu env) (ev_table env) tokens e"

text \<open>The committed conversation: a list of whole turns, which ends with the end marker of a turn.\<close>

definition conversation :: "repl \<Rightarrow> nat list" where
  "conversation r = take (rl_committed_len r) (rl_committed r)"

definition history_ok :: "environment \<Rightarrow> nat list \<Rightarrow> nat \<Rightarrow> bool" where
  "history_ok env tokens n \<longleftrightarrow> length tokens = CONTEXT_TOKENS \<and> n \<le> CONTEXT_TOKENS \<and>
     (n = 0 \<or> prefix_count env \<le> n \<and> tokens ! (n - 1) = IM_END)"

text \<open>The cache: unused, or the conversation up to its last token, with the engine ready to go on.\<close>

definition cache_coherent :: "environment \<Rightarrow> repl \<Rightarrow> bool" where
  "cache_coherent env r \<longleftrightarrow>
     (if rl_cached_len r = 0 then en_state (rl_engine r) = ST_RESET
      else rl_cached_len r + 1 = rl_committed_len r \<and> live (rl_engine r) \<and>
        holds_tokens env (take (rl_cached_len r) (rl_committed r)) (rl_engine r))"

definition conversation_ok :: "environment \<Rightarrow> repl \<Rightarrow> bool" where
  "conversation_ok env r \<longleftrightarrow> engine_inv env (rl_engine r) \<and>
     length (rl_working r) = CONTEXT_TOKENS \<and> history_ok env (rl_committed r) (rl_committed_len r) \<and>
     cache_coherent env r"

lemma cache_coherent_cong:
  "rl_engine r' = rl_engine r \<Longrightarrow> rl_committed r' = rl_committed r \<Longrightarrow> rl_committed_len r' = rl_committed_len r \<Longrightarrow>
     rl_cached_len r' = rl_cached_len r \<Longrightarrow> cache_coherent env r' = cache_coherent env r"
  by (simp only: cache_coherent_def)

lemma conversation_ok_cong:
  "conversation_ok env r \<Longrightarrow> rl_engine r' = rl_engine r \<Longrightarrow> length (rl_working r') = length (rl_working r) \<Longrightarrow>
     rl_committed r' = rl_committed r \<Longrightarrow> rl_committed_len r' = rl_committed_len r \<Longrightarrow>
     rl_cached_len r' = rl_cached_len r \<Longrightarrow> conversation_ok env r'"
  using cache_coherent_cong [of r' r env] by (simp add: conversation_ok_def)

lemma conversation_ok_harmless: "conversation_ok env r \<Longrightarrow> harmless r r' \<Longrightarrow> conversation_ok env r'"
  by (erule conversation_ok_cong) (simp_all add: harmless_def)

lemma conversation_harmless: "harmless r r' \<Longrightarrow> conversation r' = conversation r"
  by (simp add: conversation_def harmless_def)

lemma engine_inv_reset:
  assumes "engine_inv env e"
  shows "engine_inv env (snd (reset_to_prefix e))" "en_state (snd (reset_to_prefix e)) = ST_RESET"
    "engine_inv env (reset_state e)" "en_state (reset_state e) = ST_RESET"
proof -
  obtain n e' where run: "reset_to_prefix e = (n, e')" by (cases "reset_to_prefix e")
  show "engine_inv env (snd (reset_to_prefix e))" "en_state (snd (reset_to_prefix e)) = ST_RESET"
    "engine_inv env (reset_state e)" "en_state (reset_state e) = ST_RESET"
    using assms reachable_resets [of "ev_fpu env" "ev_table env" e] reset_to_prefix_facts [OF run]
    by (auto simp: engine_inv_def run reset_state_def)
qed

text \<open>A reset engine leaves the committed conversation, without a cache.\<close>

lemma reset_engine_ok:
  assumes "engine_inv env (rl_engine r)" "length (rl_working r) = CONTEXT_TOKENS"
    "history_ok env (rl_committed r) (rl_committed_len r)"
  shows "conversation_ok env (reset_engine r)" "conversation_ok env (reset_engine_fresh r)"
    "conversation_ok env (drop_turn r)"
  using assms engine_inv_reset [OF assms(1)]
  by (simp_all add: conversation_ok_def cache_coherent_def reset_engine_def reset_engine_fresh_def
    drop_turn_def clear_traces_def clear_working_def)

lemma conversation_kept [simp]:
  "conversation (reset_engine r) = conversation r" "conversation (reset_engine_fresh r) = conversation r"
  "conversation (clear_working r) = conversation r" "conversation (clear_traces r) = conversation r"
  "conversation (clear_turn r) = conversation r" "conversation (drop_turn r) = conversation r"
  "conversation (r\<lparr>rl_terminal := f\<rparr>) = conversation r"
  by (simp_all add: conversation_def reset_engine_def reset_engine_fresh_def clear_working_def
    clear_traces_def clear_turn_def drop_turn_def)

lemma conversation_ok_clear [simp]:
  "conversation_ok env (clear_working r) = conversation_ok env r"
  "conversation_ok env (clear_traces r) = conversation_ok env r"
  "conversation_ok env (clear_turn r) = conversation_ok env r"
  "conversation_ok env (r\<lparr>rl_terminal := f\<rparr>) = conversation_ok env r"
  by (auto simp: clear_working_def clear_traces_def clear_turn_def conversation_ok_def cache_coherent_def)

section \<open>The generation loop\<close>

text \<open>
  What the loop is started with, its invariant, and what it leaves: an answer that has been committed
  together with the engine that has evaluated it up to its last token, or the conversation as it was.
\<close>

record kept =
  kp_committed :: "nat list"
  kp_len :: nat
  kp_turns :: nat

definition retains :: "kept \<Rightarrow> repl \<Rightarrow> bool" where
  "retains k r \<longleftrightarrow> rl_committed r = kp_committed k \<and> rl_committed_len r = kp_len k \<and> rl_turns r = kp_turns k"

definition turn_ok :: "environment \<Rightarrow> turn \<Rightarrow> kept \<Rightarrow> bool" where
  "turn_ok env t k \<longleftrightarrow> tn_prefix t = prefix_count env \<and> prefix_count env < tn_prompt t \<and>
     tn_prompt t + tn_limit t \<le> CONTEXT_TOKENS \<and> history_ok env (kp_committed k) (kp_len k)"

definition starting :: "environment \<Rightarrow> turn \<Rightarrow> repl \<Rightarrow> bool" where
  "starting env t r \<longleftrightarrow>
     (if tn_append t
      then live (rl_engine r) \<and> tn_start t < tn_prompt t \<and>
        holds_tokens env (take (tn_start t) (rl_working r)) (rl_engine r)
      else en_state (rl_engine r) = ST_RESET)"

definition running :: "environment \<Rightarrow> turn \<Rightarrow> nat list \<Rightarrow> kept \<Rightarrow> generation \<Rightarrow> repl \<Rightarrow> bool" where
  "running env t prompt k g r \<longleftrightarrow>
     engine_inv env (rl_engine r) \<and> retains k r \<and> length (rl_working r) = CONTEXT_TOKENS \<and>
     take (tn_prompt t) (rl_working r) = prompt \<and>
     gn_error g = None \<and> \<not> gn_committed g \<and> \<not> gn_interrupted g \<and> gn_count g \<le> tn_limit t"

definition loop_ok :: "environment \<Rightarrow> turn \<Rightarrow> nat list \<Rightarrow> kept \<Rightarrow> generation \<Rightarrow> repl \<Rightarrow> bool" where
  "loop_ok env t prompt k g r \<longleftrightarrow> running env t prompt k g r \<and>
     (if gn_count g = 0 then starting env t r
      else live (rl_engine r) \<and>
        holds_tokens env (take (tn_prompt t + gn_count g - 1) (rl_working r)) (rl_engine r) \<and>
        rl_working r ! (tn_prompt t + gn_count g - 1) = gn_previous g)"

definition selected_ok :: "environment \<Rightarrow> turn \<Rightarrow> nat list \<Rightarrow> kept \<Rightarrow> generation \<Rightarrow> repl \<Rightarrow> bool" where
  "selected_ok env t prompt k g r \<longleftrightarrow> running env t prompt k g r \<and> live (rl_engine r) \<and>
     holds_tokens env (take (tn_prompt t + gn_count g) (rl_working r)) (rl_engine r)"

definition answered :: "environment \<Rightarrow> turn \<Rightarrow> nat list \<Rightarrow> kept \<Rightarrow> generation \<Rightarrow> repl \<Rightarrow> bool" where
  "answered env t prompt k g r \<longleftrightarrow>
     (let total = tn_prompt t + gn_count g in
      0 < gn_count g \<and> rl_committed_len r = total \<and> history_ok env (rl_committed r) total \<and>
      take (tn_prompt t) (rl_committed r) = prompt \<and> rl_turns r = sat_add32 (kp_turns k) 1 \<and>
      live (rl_engine r) \<and> holds_tokens env (take (total - 1) (rl_committed r)) (rl_engine r))"

definition ended :: "environment \<Rightarrow> turn \<Rightarrow> nat list \<Rightarrow> kept \<Rightarrow> generation \<Rightarrow> repl \<Rightarrow> bool" where
  "ended env t prompt k g r \<longleftrightarrow>
     engine_inv env (rl_engine r) \<and> length (rl_working r) = CONTEXT_TOKENS \<and> gn_count g \<le> tn_limit t \<and>
     (if gn_committed g then gn_error g = None \<and> answered env t prompt k g r else retains k r)"

lemma running_ended:
  "running env t prompt k g r \<Longrightarrow> gn_count g' \<le> tn_limit t \<Longrightarrow> \<not> gn_committed g' \<Longrightarrow> ended env t prompt k g' r"
  by (simp add: running_def ended_def)

lemma running_harmless: "running env t prompt k g r \<Longrightarrow> harmless r r' \<Longrightarrow> running env t prompt k g r'"
  by (simp add: running_def retains_def harmless_def)

lemma loop_ok_harmless: "loop_ok env t prompt k g r \<Longrightarrow> harmless r r' \<Longrightarrow> loop_ok env t prompt k g r'"
  using running_harmless by (auto simp: loop_ok_def starting_def harmless_def)

lemma selected_ok_harmless:
  "selected_ok env t prompt k g r \<Longrightarrow> harmless r r' \<Longrightarrow> selected_ok env t prompt k g r'"
  using running_harmless by (auto simp: selected_ok_def harmless_def)

text \<open>Asking the engine for the next token, whatever it is and whether it comes.\<close>

definition requested :: "turn \<Rightarrow> generation \<Rightarrow> repl \<Rightarrow> operation" where
  "requested t g r =
     (if gn_count g = 0 then
        (if tn_append t then AppendPrefill (slice (rl_working r) (tn_start t) (tn_prompt t)) (tn_limit t)
         else PrefillWithPrefix (take (tn_prompt t) (rl_working r)) (tn_prefix t) (tn_limit t))
      else DecodeSelected (gn_previous g))"

lemma engine_request_run:
  "engine_request env t g r =
     run_operation (ev_fpu env) (ev_table env) (requested t g r) (rl_engine r, rl_logits r)"
  by (simp add: engine_request_def requested_def Let_def)

lemma take_slice: "a \<le> b \<Longrightarrow> take a xs @ slice xs a b = take b xs"
  unfolding slice_def by (metis le_add_diff_inverse take_add)

lemma engine_request_answer:
  assumes run: "engine_request env t g r = (Inr step, e', logits')"
    and ok: "loop_ok env t prompt k g r" and t: "turn_ok env t k"
  shows "live e'" "holds_tokens env (take (tn_prompt t + gn_count g) (rl_working r)) e'"
    "rp_len (en_prefix e') \<in> {0, prefix_count env}"
proof -
  note facts = ok [unfolded loop_ok_def running_def engine_inv_def]
  have e: "reachable (ev_fpu env) (ev_table env) (rl_engine r)"
    and prefix: "rp_len (en_prefix (rl_engine r)) \<in> {0, prefix_count env}" using facts by simp_all
  have "live e' \<and> holds_tokens env (take (tn_prompt t + gn_count g) (rl_working r)) e' \<and>
    rp_len (en_prefix e') \<in> {0, prefix_count env}"
  proof (cases "gn_count g = 0")
    case first: True
    show ?thesis
    proof (cases "tn_append t")
      case True
      then have "append_prefill (ev_fpu env) (ev_table env) (slice (rl_working r) (tn_start t) (tn_prompt t))
          (tn_limit t) (rl_engine r, rl_logits r) = (Inr step, e', logits')"
        using run first by (simp add: engine_request_def)
      moreover have "cached (ev_fpu env) (ev_table env) (take (tn_start t) (rl_working r)) (rl_engine r)"
        and start: "tn_start t < tn_prompt t"
        using facts first True by (simp_all add: starting_def holds_tokens_def)
      ultimately show ?thesis
        using append_prefill_answer [OF _ e, of "slice (rl_working r) (tn_start t) (tn_prompt t)" "tn_limit t"
          "rl_logits r" step e' logits' "take (tn_start t) (rl_working r)"] prefix first
        by (simp add: holds_tokens_def take_slice)
    next
      case False
      then have "prefill_with_prefix (ev_fpu env) (ev_table env) (take (tn_prompt t) (rl_working r))
          (tn_prefix t) (tn_limit t) (rl_engine r, rl_logits r) = (Inr step, e', logits')"
        using run first by (simp add: engine_request_def)
      moreover have "en_state (rl_engine r) = ST_RESET" using facts first False by (simp add: starting_def)
      ultimately show ?thesis
        using prefill_with_prefix_answer [OF _ e] t first by (simp add: holds_tokens_def turn_ok_def)
    qed
  next
    case False
    let ?n = "tn_prompt t + gn_count g - 1"
    have "decode_selected (ev_fpu env) (ev_table env) (gn_previous g) (rl_engine r, rl_logits r)
        = (Inr step, e', logits')"
      using run False by (simp add: engine_request_def)
    moreover have "cached (ev_fpu env) (ev_table env) (take ?n (rl_working r)) (rl_engine r)"
      and last: "rl_working r ! ?n = gn_previous g"
      using facts False by (simp_all add: holds_tokens_def)
    moreover have "?n < length (rl_working r)" using facts t False by (auto simp: turn_ok_def)
    then have "take ?n (rl_working r) @ [gn_previous g] = take (tn_prompt t + gn_count g) (rl_working r)"
      using False last by (metis One_nat_def Suc_pred add_gr_0 not_gr_zero take_Suc_conv_app_nth)
    ultimately show ?thesis
      using decode_answer [OF _ e, of "gn_previous g" "rl_logits r" step e' logits' "take ?n (rl_working r)"] prefix
      by (simp add: holds_tokens_def)
  qed
  then show "live e'" "holds_tokens env (take (tn_prompt t + gn_count g) (rl_working r)) e'"
    "rp_len (en_prefix e') \<in> {0, prefix_count env}" by simp_all
qed

lemma engine_request_inv:
  assumes run: "engine_request env t g r = (res, e', logits')"
    and ok: "loop_ok env t prompt k g r" and t: "turn_ok env t k"
  shows "engine_inv env e'"
proof -
  note op = run [unfolded engine_request_run]
  have e: "engine_inv env (rl_engine r)" using ok by (simp add: loop_ok_def running_def)
  then have "reachable (ev_fpu env) (ev_table env) e'"
    using reachable_operation [OF _ op] by (simp add: engine_inv_def)
  moreover have "rp_len (en_prefix e') \<in> {0, prefix_count env}"
    using failed_prefix [of "ev_fpu env" "ev_table env" "requested t g r" "rl_engine r" "rl_logits r"] op e
      engine_request_answer(3) [OF _ ok t] run
    by (cases res) (auto simp: engine_inv_def)
  ultimately show ?thesis by (simp add: engine_inv_def)
qed

lemma infer_token_facts:
  assumes run: "infer_token env t g r = (res, r')"
    and ok: "loop_ok env t prompt k g r" and t: "turn_ok env t k"
  shows "running env t prompt k g r'" "res = Inr token \<Longrightarrow> selected_ok env t prompt k g r'"
proof -
  obtain reply e' logits' where req: "engine_request env t g r = (reply, e', logits')" by (metis prod_cases3)
  note inv = engine_request_inv [OF req ok t]
  note base = ok [unfolded loop_ok_def running_def retains_def]
  show "running env t prompt k g r'"
    using run req inv base
    by (auto simp: infer_token_def running_def retains_def split: sum.splits prod.splits)
  show "res = Inr token \<Longrightarrow> selected_ok env t prompt k g r'"
    using run req inv base engine_request_answer [OF _ ok t]
    by (auto simp: infer_token_def selected_ok_def running_def retains_def split: sum.splits prod.splits)
qed

text \<open>A step of the loop: how it exits, or the invariant for the next one.\<close>

definition exit_ok :: "environment \<Rightarrow> turn \<Rightarrow> nat list \<Rightarrow> kept \<Rightarrow> loop_exit \<Rightarrow> repl \<Rightarrow> bool" where
  "exit_ok env t prompt k x r \<longleftrightarrow>
     (case x of Break g \<Rightarrow> ended env t prompt k g r | Return e \<Rightarrow> conversation_ok env r \<and> retains k r)"

lemma check_interrupt_facts:
  assumes "check_interrupt g r = (res, r')"
  shows "harmless r r'"
    "res = Inl x \<Longrightarrow> \<exists>g'. x = Break g' \<and> gn_count g' = gn_count g \<and> gn_committed g' = gn_committed g"
  using harmless_frame.moved [OF harmless_frame.moves_interrupt assms] assms
  by (auto simp: check_interrupt_def break_error_def split: prod.splits sum.splits if_splits)

lemma interrupted_exit:
  assumes "check_interrupt g' r = (res, r')" "running env t prompt k g r"
    "gn_count g' = gn_count g" "gn_committed g' = gn_committed g"
  shows "running env t prompt k g r'" "res = Inl x \<Longrightarrow> exit_ok env t prompt k x r'"
proof -
  note facts = check_interrupt_facts [OF assms(1)]
  show run: "running env t prompt k g r'" by (rule running_harmless [OF assms(2) facts(1)])
  show "res = Inl x \<Longrightarrow> exit_ok env t prompt k x r'"
    using facts(2) [of x] running_ended [OF run] run assms(3,4) by (auto simp: exit_ok_def running_def)
qed

lemma dropped_turn:
  assumes "running env t prompt k g r" "turn_ok env t k"
  shows "conversation_ok env (drop_turn r)" "retains k (drop_turn r)"
  using assms reset_engine_ok [of env r]
  by (auto simp: running_def turn_ok_def retains_def drop_turn_def clear_traces_def clear_working_def
    reset_engine_def)

lemma timing_started: "\<exists>v r1. timing_start env r = (Inr v, r1)"
  by (simp add: timing_start_def)

lemma select_token_facts:
  assumes run: "select_token env t g r = (res, r')"
    and ok: "loop_ok env t prompt k g r" and t: "turn_ok env t k"
  shows "res = Inl x \<Longrightarrow> exit_ok env t prompt k x r'"
    "res = Inr (token, ts) \<Longrightarrow> selected_ok env t prompt k g r'"
proof -
  obtain start r1 where start: "timing_start env r = (Inr start :: loop_exit + u64, r1)"
    using timing_started by blast
  have ok1: "loop_ok env t prompt k g r1"
    by (rule loop_ok_harmless [OF ok harmless_frame.moved [OF harmless_frame.moves_timing(1) start]])
  obtain sel r2 where sel: "infer_token env t g r1 = (sel, r2)" by fastforce
  note infer = infer_token_facts [OF sel ok1 t]
  obtain e r3 where end_time: "timing_end env r2 = (e, r3)" by fastforce
  have still: "harmless r2 r3" by (rule harmless_frame.moved [OF harmless_frame.moves_timing(2) end_time])
  have run3: "running env t prompt k g r3" by (rule running_harmless [OF infer(1) still])
  have "(res = Inl x \<longrightarrow> exit_ok env t prompt k x r') \<and>
      (res = Inr (token, ts) \<longrightarrow> selected_ok env t prompt k g r')"
  proof (cases e)
    case (Inl f)
    then show ?thesis
      using run start sel end_time dropped_turn [OF run3 t]
      by (auto simp: select_token_def bind_op_def exit_ok_def)
  next
    case e: (Inr v)
    show ?thesis
    proof (cases sel)
      case (Inl err)
      then show ?thesis
        using run start sel end_time e running_ended [OF run3] run3
        by (auto simp: select_token_def bind_op_def exit_ok_def break_error_def running_def)
    next
      case (Inr tok)
      obtain c r4 where check: "check_interrupt (g\<lparr>gn_previous := tok\<rparr>) r3 = (c, r4)" by fastforce
      note inter = interrupted_exit [OF check run3]
      have "selected_ok env t prompt k g r4"
        by (rule selected_ok_harmless [OF selected_ok_harmless [OF infer(2) [OF Inr] still]
          check_interrupt_facts(1) [OF check]])
      then show ?thesis
        using run start sel end_time e Inr check inter
        by (auto simp: select_token_def bind_op_def return_def split: sum.splits)
    qed
  qed
  then show "res = Inl x \<Longrightarrow> exit_ok env t prompt k x r'"
    "res = Inr (token, ts) \<Longrightarrow> selected_ok env t prompt k g r'" by blast+
qed

text \<open>Showing a token changes only the text state of the generation.\<close>

definition same_turn :: "generation \<Rightarrow> generation \<Rightarrow> bool" where
  "same_turn g g' \<longleftrightarrow> gn_count g' = gn_count g \<and> gn_committed g' = gn_committed g"

definition same_loop :: "generation \<Rightarrow> generation \<Rightarrow> bool" where
  "same_loop g g' \<longleftrightarrow> same_turn g g' \<and> gn_error g' = gn_error g \<and> gn_interrupted g' = gn_interrupted g \<and>
     gn_previous g' = gn_previous g"

lemma print_units_facts:
  assumes "print_units env units g r = (res, r')"
  shows "case res of Inl x \<Rightarrow> (case x of Break g' \<Rightarrow> same_turn g g' | Return e \<Rightarrow> False) | Inr g' \<Rightarrow> same_loop g g'"
proof -
  obtain p r1 where "print env units r = (p, r1)" by fastforce
  then show ?thesis
    using assms by (cases p)
      (auto simp: print_units_def bind_op_def map_op_error_def break_error_def return_def same_turn_def
        same_loop_def split: if_splits)
qed

lemma output_units_facts:
  assumes "output_units env units g r = (res, r')"
  shows "case res of Inl x \<Rightarrow> (case x of Break g' \<Rightarrow> same_turn g g' | Return e \<Rightarrow> False)
    | Inr (g', ts) \<Rightarrow> same_loop g g'"
proof -
  obtain start r1 where start: "timing_start env r = (Inr start :: loop_exit + u64, r1)"
    using timing_started by blast
  obtain p r2 where p: "print_units env units g r1 = (p, r2)" by fastforce
  note facts = print_units_facts [OF p]
  show ?thesis
  proof (cases p)
    case (Inl x)
    then show ?thesis using assms start p facts by (auto simp: output_units_def bind_op_def split: loop_exit.splits)
  next
    case (Inr g1)
    obtain e r3 where "timing_end env r2 = (e, r3)" by fastforce
    then show ?thesis
      using assms start p facts Inr
      by (cases e) (auto simp: output_units_def bind_op_def break_error_def same_loop_def same_turn_def)
  qed
qed

lemma show_token_facts:
  assumes "show_token env token g r = (res, r')"
  shows "case res of Inl x \<Rightarrow> (case x of Break g' \<Rightarrow> same_turn g g' | Return e \<Rightarrow> False)
    | Inr (g', kind, numbers) \<Rightarrow> same_loop g g'"
proof -
  obtain d piece where d: "decode_piece (ev_tokenizer env) token (replicate 128 0) = (d, piece)" by fastforce
  show ?thesis
  proof (cases d)
    case (Inl e)
    then show ?thesis using assms d by (auto simp: show_token_def break_error_def same_turn_def)
  next
    case (Inr pair)
    obtain kind n where pair: "pair = (kind, n)" by fastforce
    obtain u decoder where u: "piece_units kind (take n piece) g = (u, decoder)" by fastforce
    show ?thesis
    proof (cases u)
      case (Inl e)
      then show ?thesis using assms d Inr pair u by (auto simp: show_token_def break_error_def same_turn_def)
    next
      case u2: (Inr decoded)
      let ?g = "g\<lparr>gn_decoder := decoder\<rparr>"
      obtain v cr where v: "rendered_units decoded ?g = (v, cr)" by fastforce
      show ?thesis
      proof (cases v)
        case (Inl e)
        then show ?thesis
          using assms d Inr pair u u2 v by (auto simp: show_token_def break_error_def same_turn_def)
      next
        case v2: (Inr units)
        obtain w r1 where w: "output_units env units (?g\<lparr>gn_cr := cr\<rparr>) r = (w, r1)" by fastforce
        show ?thesis
          using assms d Inr pair u u2 v v2 w output_units_facts [OF w]
          by (auto simp: show_token_def bind_op_def return_def same_turn_def same_loop_def
            split: sum.splits loop_exit.splits)
      qed
    qed
  qed
qed

text \<open>The end of an answer: what is committed.\<close>

lemma commit_turn_facts:
  assumes run: "commit_turn t g r = (g', r')" and t: "turn_ok env t k"
    and ok: "running env t prompt k g r" "live (rl_engine r)"
      "holds_tokens env (take (tn_prompt t + gn_count g - 1) (rl_working r)) (rl_engine r)"
    and count: "0 < gn_count g" and marker: "rl_working r ! (tn_prompt t + gn_count g - 1) = IM_END"
  shows "ended env t prompt k g' r'"
proof -
  let ?total = "tn_prompt t + gn_count g"
  note base = ok(1) [unfolded running_def retains_def] t [unfolded turn_ok_def history_ok_def]
  have total: "0 < ?total" "?total \<le> CONTEXT_TOKENS" "tn_prompt t \<le> ?total - 1" using base count by auto
  let ?committed = "write_at (replicate CONTEXT_TOKENS 0) 0 (take ?total (rl_working r))"
  have written: "?committed = take ?total (rl_working r) @ replicate (CONTEXT_TOKENS - ?total) 0"
    using total base by (simp add: write_at_def)
  have commit: "commit_eos (rl_committed r) (rl_working r) ?total = (Inr ?total, ?committed)"
    using total marker base by (simp add: commit_eos_def)
  have "take n ?committed = take n (rl_working r)" if "n \<le> ?total" for n
    using that total base by (simp add: written min_absorb1)
  then have takes: "take (tn_prompt t) ?committed = prompt"
    "take (?total - 1) ?committed = take (?total - 1) (rl_working r)" using base by auto
  have "?committed ! (?total - 1) = IM_END"
    using marker total base by (simp add: written nth_append)
  then have history: "history_ok env ?committed ?total"
    using total base by (auto simp: history_ok_def written)
  show ?thesis
  proof (cases "utf8_finish (gn_decoder g)")
    case (Inl e)
    then show ?thesis using run running_ended [OF ok(1), of g'] base by (auto simp: commit_turn_def Let_def)
  next
    case (Inr u)
    then have "g' = g\<lparr>gn_committed := True, gn_reason := ascii ''EOS''\<rparr>"
      "r' = r\<lparr>rl_committed := ?committed, rl_committed_len := ?total, rl_turns := sat_add32 (rl_turns r) 1\<rparr>"
      using run commit by (simp_all add: commit_turn_def Let_def)
    then show ?thesis
      using base ok(2,3) count history takes by (auto simp: ended_def answered_def Let_def)
  qed
qed

text \<open>Storing the selected token gives the state of the next iteration, or of the end of the answer.\<close>

lemma store_token_facts:
  assumes sel: "selected_ok env t prompt k g r" and t: "turn_ok env t k" and below: "gn_count g < tn_limit t"
    and g': "gn_count g' = gn_count g + 1" "\<not> gn_committed g'" "gn_error g' = None" "\<not> gn_interrupted g'"
  shows "running env t prompt k g' (store_token t g token kind trace r)"
    "live (rl_engine (store_token t g token kind trace r))"
    "holds_tokens env (take (tn_prompt t + gn_count g' - 1) (rl_working (store_token t g token kind trace r)))
       (rl_engine (store_token t g token kind trace r))"
    "rl_working (store_token t g token kind trace r) ! (tn_prompt t + gn_count g' - 1) =
       (if kind = piece_code EosPiece then IM_END else token)"
proof -
  note base = sel [unfolded selected_ok_def running_def] t [unfolded turn_ok_def]
  have index: "tn_prompt t + gn_count g < length (rl_working r)" using base below by auto
  show "running env t prompt k g' (store_token t g token kind trace r)"
    "live (rl_engine (store_token t g token kind trace r))"
    "holds_tokens env (take (tn_prompt t + gn_count g' - 1) (rl_working (store_token t g token kind trace r)))
       (rl_engine (store_token t g token kind trace r))"
    "rl_working (store_token t g token kind trace r) ! (tn_prompt t + gn_count g' - 1) =
       (if kind = piece_code EosPiece then IM_END else token)"
    using base below index g'
    by (auto simp: store_token_def running_def retains_def take_update_cancel)
qed

lemma generate_token_facts:
  assumes run: "generate_token env t g r = (res, r')"
    and ok: "loop_ok env t prompt k g r" and t: "turn_ok env t k" and below: "gn_count g < tn_limit t"
  shows "case res of Inl x \<Rightarrow> exit_ok env t prompt k x r'
    | Inr g' \<Rightarrow> loop_ok env t prompt k g' r' \<and> gn_count g' = gn_count g + 1"
proof -
  have running: "running env t prompt k g r" using ok by (simp add: loop_ok_def)
  obtain c r1 where check: "check_interrupt g r = (c, r1)" by fastforce
  show ?thesis
  proof (cases c)
    case (Inl x)
    then show ?thesis
      using run check interrupted_exit(2) [OF check running _ _ Inl] by (auto simp: generate_token_def bind_op_def)
  next
    case (Inr u)
    have ok1: "loop_ok env t prompt k g r1" by (rule loop_ok_harmless [OF ok check_interrupt_facts(1) [OF check]])
    obtain s r2 where select: "select_token env t g r1 = (s, r2)" by fastforce
    show ?thesis
    proof (cases s)
      case (Inl x)
      then show ?thesis
        using run check Inr select select_token_facts(1) [OF select ok1 t Inl]
        by (auto simp: generate_token_def bind_op_def)
    next
      case s: (Inr choice)
      obtain token infer_start infer_end where choice: "choice = (token, infer_start, infer_end)"
        by (cases choice) auto
      have sel: "selected_ok env t prompt k g r2"
        by (rule select_token_facts(2) [OF select ok1 t]) (use s choice in simp)
      let ?g = "g\<lparr>gn_previous := token\<rparr>"
      obtain w r3 where display: "show_token env token ?g r2 = (w, r3)" by fastforce
      have sel3: "selected_ok env t prompt k g r3"
        by (rule selected_ok_harmless [OF sel harmless_frame.moved [OF harmless_frame.moves_show display]])
      then have run3: "running env t prompt k g r3" by (simp add: selected_ok_def)
      note display_facts = show_token_facts [OF display]
      show ?thesis
      proof (cases w)
        case (Inl x)
        then show ?thesis
          using run check Inr select s choice display display_facts running_ended [OF run3] run3
          by (auto simp: generate_token_def bind_op_def exit_ok_def same_turn_def running_def split: loop_exit.splits)
      next
        case w: (Inr parts)
        obtain g1 kind n units output_start output_end where
          parts: "parts = (g1, kind, n, units, output_start, output_end)" by (cases parts) auto
        let ?trace = "\<lparr>tr_id = token, tr_kind = kind, tr_piece_bytes = n, tr_utf16_units = units,
          tr_infer_start = infer_start, tr_infer_end = infer_end,
          tr_output_start = output_start, tr_output_end = output_end\<rparr>"
        let ?g2 = "g1\<lparr>gn_count := gn_count g1 + 1\<rparr>"
        have g1: "gn_count g1 = gn_count g" "\<not> gn_committed g1" "gn_error g1 = None" "\<not> gn_interrupted g1"
          "gn_previous g1 = token"
          using display_facts w parts run3 by (simp_all add: same_loop_def same_turn_def running_def)
        let ?r4 = "store_token t g1 token kind ?trace r3"
        have r4: "?r4 = store_token t g token kind ?trace r3" by (simp add: store_token_def g1)
        note stored = store_token_facts [OF sel3 t below, of ?g2 token kind ?trace, folded r4]
        obtain z r5 where step: "inference_step_complete env (gn_count ?g2) ?r4 = (z, r5)" by fastforce
        have still: "harmless ?r4 r5" by (rule harmless_frame.moved [OF harmless_frame.moves_step_complete step])
        have run5: "running env t prompt k ?g2 r5"
          by (rule running_harmless [OF stored(1) still]) (use g1 in simp_all)
        have fields: "rl_engine r5 = rl_engine ?r4" "rl_working r5 = rl_working ?r4"
          using still by (simp_all add: harmless_def)
        have last: "live (rl_engine r5)"
          "holds_tokens env (take (tn_prompt t + gn_count ?g2 - 1) (rl_working r5)) (rl_engine r5)"
          "rl_working r5 ! (tn_prompt t + gn_count ?g2 - 1) = (if kind = piece_code EosPiece then IM_END else token)"
          unfolding fields using stored(2-4) g1 by simp_all
        have go: "generate_token env t g r = (case z of
            Inl e \<Rightarrow> (Inl (break_error ?g2 e), r5)
          | Inr _ \<Rightarrow> if kind = piece_code EosPiece then (case commit_turn t ?g2 r5 of (g, r) \<Rightarrow> (Inl (Break g), r))
              else (Inr ?g2, r5))"
          using check Inr select s choice display w parts step
          by (simp add: generate_token_def bind_op_def map_op_error_def Let_def split: sum.split)
        show ?thesis
        proof (cases z)
          case (Inl e)
          then show ?thesis
            using run go running_ended [OF run5] run5
            by (auto simp: exit_ok_def break_error_def running_def)
        next
          case z: (Inr v)
          show ?thesis
          proof (cases "kind = piece_code EosPiece")
            case True
            obtain g6 r6 where commit: "commit_turn t ?g2 r5 = (g6, r6)" by fastforce
            have "ended env t prompt k g6 r6"
              by (rule commit_turn_facts [OF commit t run5 last(1,2)]) (use last(3) True in simp_all)
            then show ?thesis using run go z True commit by (auto simp: exit_ok_def)
          next
            case False
            then have "loop_ok env t prompt k ?g2 r5"
              using run5 last g1 by (simp add: loop_ok_def)
            then show ?thesis using run go z False g1 by auto
          qed
        qed
      qed
    qed
  qed
qed

lemma generate_tokens_facts:
  assumes "generate_tokens env t n g r = (res, r')" "loop_ok env t prompt k g r" "turn_ok env t k"
    "gn_count g + n = tn_limit t"
  shows "case res of Inl e \<Rightarrow> conversation_ok env r' \<and> retains k r' | Inr g' \<Rightarrow> ended env t prompt k g' r'"
  using assms
proof (induction n arbitrary: g r)
  case 0
  then show ?case using running_ended [of env t prompt k g r g] by (auto simp: loop_ok_def running_def)
next
  case (Suc n)
  obtain s r1 where step: "generate_token env t g r = (s, r1)" by fastforce
  have "gn_count g < tn_limit t" using Suc.prems(4) by simp
  note facts = generate_token_facts [OF step Suc.prems(2,3) this]
  show ?case
  proof (cases s)
    case (Inl x)
    then show ?thesis using Suc.prems(1) step facts by (cases x) (auto simp: exit_ok_def)
  next
    case (Inr g1)
    then show ?thesis using Suc step facts by auto
  qed
qed

end
