(* ===== verification/PB_Conversation.thy ===== *)
theory PB_Conversation
  imports PB_Cache PB_Repl
begin

text \<open>
  The conversation of the model REPL (\<open>PB_Turn\<close>, \<open>PB_Repl\<close>) from its start on: every turn, command
  and failure keeps the invariant of \<open>PB_Cache\<close>, that between two inputs the key-value cache of the
  engine is either unused or holds exactly the committed conversation without its last token, and a
  turn either leaves the conversation, drops it, or extends it by the tokens of the turn and an answer.
\<close>

section \<open>The end of a turn\<close>

text \<open>
  The outcome of a turn: an invariant controller, and either the conversation it started with or a
  longer one that begins with the prompt of the turn and ends with the answer.
\<close>

definition answer_to :: "nat list \<Rightarrow> nat \<Rightarrow> nat list \<Rightarrow> bool" where
  "answer_to prompt limit tokens \<longleftrightarrow> length prompt < length tokens \<and> length tokens \<le> length prompt + limit \<and>
     take (length prompt) tokens = prompt \<and> last tokens = IM_END"

definition turn_done :: "environment \<Rightarrow> turn \<Rightarrow> nat list \<Rightarrow> kept \<Rightarrow> repl \<Rightarrow> bool" where
  "turn_done env t prompt k r \<longleftrightarrow> conversation_ok env r \<and>
     (retains k r \<or> answer_to prompt (tn_limit t) (conversation r) \<and> rl_turns r = sat_add32 (kp_turns k) 1)"

lemma turn_done_cong:
  "turn_done env t prompt k r \<Longrightarrow> rl_engine r' = rl_engine r \<Longrightarrow> length (rl_working r') = length (rl_working r) \<Longrightarrow>
     rl_committed r' = rl_committed r \<Longrightarrow> rl_committed_len r' = rl_committed_len r \<Longrightarrow>
     rl_cached_len r' = rl_cached_len r \<Longrightarrow> rl_turns r' = rl_turns r \<Longrightarrow> turn_done env t prompt k r'"
  using conversation_ok_cong [of env r r'] by (simp add: turn_done_def retains_def conversation_def)

lemma turn_done_harmless: "turn_done env t prompt k r \<Longrightarrow> harmless r r' \<Longrightarrow> turn_done env t prompt k r'"
  by (erule turn_done_cong) (simp_all add: harmless_def)

lemma turn_done_clear: "turn_done env t prompt k r \<Longrightarrow> turn_done env t prompt k (clear_turn r)"
  by (erule turn_done_cong) (simp_all add: clear_turn_def clear_traces_def clear_working_def)

lemma answered_conversation:
  assumes a: "answered env t prompt k g r" and t: "turn_ok env t k" and count: "gn_count g \<le> tn_limit t"
  shows "answer_to prompt (tn_limit t) (conversation r)"
proof -
  note facts = a [unfolded answered_def Let_def history_ok_def] t [unfolded turn_ok_def]
  let ?total = "tn_prompt t + gn_count g"
  have conv: "conversation r = take ?total (rl_committed r)" using facts by (simp add: conversation_def)
  have len: "length (conversation r) = ?total" using facts by (auto simp: conv)
  have prompt: "length prompt = tn_prompt t" using facts by auto
  have "conversation r \<noteq> []" using len facts by auto
  from last_conv_nth [OF this] have "last (conversation r) = rl_committed r ! (?total - 1)"
    using len facts by (simp add: conv)
  then show ?thesis
    using facts count len prompt unfolding answer_to_def by (auto simp: conv)
qed

lemma settle_turn_facts:
  assumes fin: "ended env t prompt k g r" and t: "turn_ok env t k" and run: "settle_turn g r = (g', r')"
  shows "turn_done env t prompt k r'"
proof (cases "gn_committed g")
  case False
  then have "r' = reset_engine r" using run by (auto simp: settle_turn_def Let_def split: if_splits)
  then show ?thesis
    using fin t False reset_engine_ok(1) [of env r]
    by (auto simp: turn_done_def ended_def turn_ok_def retains_def reset_engine_def)
next
  case True
  note facts = fin [unfolded ended_def]
  have err: "gn_error g = None" and a: "answered env t prompt k g r" using facts True by simp_all
  let ?n = "rl_committed_len r - 1"
  note parts = a [unfolded answered_def Let_def] t [unfolded turn_ok_def]
  have n: "rl_committed_len r = tn_prompt t + gn_count g" "0 < ?n" "?n + 1 = rl_committed_len r"
    using parts by auto
  have held: "holds_tokens env (take ?n (rl_committed r)) (rl_engine r)" using parts by simp
  then have "en_position (rl_engine r) = length (take ?n (rl_committed r))"
    unfolding holds_tokens_def by (rule cached_position)
  also have "\<dots> = ?n" using parts n by (auto simp: history_ok_def)
  finally have "r' = r\<lparr>rl_cached_len := ?n\<rparr>"
    using run True err by (simp add: settle_turn_def Let_def)
  moreover have "conversation_ok env (r\<lparr>rl_cached_len := ?n\<rparr>)"
    using facts parts n held True by (simp add: conversation_ok_def cache_coherent_def)
  ultimately show ?thesis
    using answered_conversation [OF a t] facts parts by (simp add: turn_done_def conversation_def)
qed

lemma finish_turn_facts:
  assumes fin: "ended env t prompt k g r" and t: "turn_ok env t k"
  shows "turn_done env t prompt k (snd (finish_turn env num start g r))"
proof -
  obtain g1 r1 where settle: "settle_turn g r = (g1, r1)" by fastforce
  obtain g2 r2 where close: "close_line env (g1, r1) = (g2, r2)" by fastforce
  obtain res r3 where tokens: "emit_tokens env num [0..<gn_count g2] r2 = (res, r3)" by fastforce
  have "turn_done env t prompt k r1" by (rule settle_turn_facts [OF fin t settle])
  then have "turn_done env t prompt k r2"
    by (rule turn_done_harmless) (use harmless_frame.close_line_moves [of r1 env g1] close in simp)
  then have r3: "turn_done env t prompt k r3"
    by (rule turn_done_harmless [OF _ harmless_frame.moved [OF harmless_frame.moves_emit_tokens tokens]])
  have report: "turn_done env t prompt k (snd (report_failed env num g2 e r3))" for e
  proof -
    let ?e = "e\<lparr>te_generated := max (te_generated e) (gn_count g2), te_partial := te_partial e \<or> gn_visible g2 \<noteq> 0\<rparr>"
    obtain z r4 where emit: "emit_generation_failed env num ?e (clear_turn r3) = (z, r4)" by fastforce
    have "turn_done env t prompt k r4"
      by (rule turn_done_harmless [OF turn_done_clear [OF r3] harmless_frame.moved [OF harmless_frame.moves_failed emit]])
    then show ?thesis unfolding report_failed_def Let_def emit by (simp split: sum.split)
  qed
  have complete: "turn_done env t prompt k (snd (bind_op (timing_start env) (\<lambda>end_tsc.
      bind_op (emit_generation_complete env num reason n v u b s end_tsc) (\<lambda>_ r. (Inr (), clear_turn r))) r3))"
    for reason n v u b s
  proof -
    have step: "harmless r3 (snd (bind_op (timing_start env) (\<lambda>end_tsc.
        emit_generation_complete env num reason n v u b s end_tsc) r3))"
      by (rule harmless_frame.movesD, intro harmless_frame.moves_bind harmless_frame.moves_timing harmless_frame.moves_events)
    show ?thesis
      using turn_done_harmless [OF r3 step] turn_done_clear
      by (auto simp: bind_op_def split: prod.splits sum.splits)
  qed
  show ?thesis
  proof (cases res)
    case (Inl e)
    then show ?thesis
      using settle close tokens turn_done_clear [OF r3] by (simp add: finish_turn_def)
  next
    case (Inr u)
    then show ?thesis
      using settle close tokens report complete
      by (cases "gn_error g2") (simp_all add: finish_turn_def)
  qed
qed

section \<open>The prompt of a turn\<close>

text \<open>What a turn leaves of the conversation and of the engine as long as nothing is evaluated.\<close>

definition undisturbed :: "repl \<Rightarrow> repl \<Rightarrow> bool" where
  "undisturbed r r' \<longleftrightarrow> rl_engine r' = rl_engine r \<and> length (rl_working r') = length (rl_working r) \<and>
     rl_committed r' = rl_committed r \<and> rl_committed_len r' = rl_committed_len r \<and>
     rl_cached_len r' = rl_cached_len r \<and> rl_turns r' = rl_turns r"

interpretation undisturbed_frame: frame undisturbed
  by unfold_locales (auto simp: undisturbed_def harmless_def)

lemma undisturbed_clear [simp]:
  "undisturbed r (clear_working r)" "undisturbed r (clear_traces r)" "undisturbed r (clear_turn r)"
  by (simp_all add: undisturbed_def clear_turn_def clear_traces_def clear_working_def)

lemma undisturbed_conversation:
  assumes "undisturbed r r'"
  shows "conversation r' = conversation r" "conversation_ok env r \<Longrightarrow> conversation_ok env r'"
  using assms conversation_ok_cong [of env r r'] by (auto simp: undisturbed_def conversation_def)

definition fits :: "environment \<Rightarrow> bytes \<Rightarrow> nat \<Rightarrow> repl \<Rightarrow> bool" where
  "fits env line n r \<longleftrightarrow> prefix_count env < n \<and> n \<le> PROMPT_LIMIT \<and> rl_committed_len r < n \<and>
     (\<exists>start. let fresh = prompt_tokens (tk_index (ev_tokenizer env)) line in
        turn_from (conversation r) fresh start \<and>
        take n (rl_working r) = conversation r @ drop start fresh)"

lemma prompt_longer: "length (prefix_tokens idx) < length (prompt_tokens idx user)"
  by (simp add: prompt_tokens_def assistant_tokens_def)

lemma tokenize_turn_facts:
  assumes run: "tokenize_turn env history line r = (res, outcome, r')"
    and len: "length (rl_working r) = CONTEXT_TOKENS"
  shows "undisturbed r r'"
    "res = Inr u \<Longrightarrow> cu_prefix u = prefix_count env \<and> length history < cu_prompt u \<and>
       (history = [] \<longrightarrow> prefix_count env < cu_prompt u) \<and>
       (\<exists>start. let fresh = prompt_tokens (tk_index (ev_tokenizer env)) line in turn_from history fresh start \<and>
          take (cu_prompt u) (rl_working r') = history @ drop start fresh)"
proof -
  let ?b = "turn_buffers (rl_logits r) (rl_working r)"
  obtain b' where render: "render_conversation (ev_tokenizer env) history line (ev_logits_address env + 3136) ?b
      = (res, b')"
    and r': "r' = r\<lparr>rl_working := cb_tokens b', rl_logits := buffers_logits (rl_logits r) b'\<rparr>"
    using run by (auto simp: tokenize_turn_def split: prod.splits)
  have tokens: "cb_tokens ?b = rl_working r" by (simp add: turn_buffers_def)
  note facts = conversation_published [where tok = "ev_tokenizer env" and history = history and user = line
    and address = "ev_logits_address env + 3136" and b = ?b, unfolded render prod.case tokens]
  have "length (cb_tokens b') = length (rl_working r)"
    using facts len by (cases res) (auto simp: Let_def IMAGE_CONTEXT_def CONTEXT_TOKENS_def)
  then show "undisturbed r r'" by (simp add: undisturbed_def r')
  assume u: "res = Inr u"
  let ?fresh = "prompt_tokens (tk_index (ev_tokenizer env)) line"
  obtain start where start: "turn_from history ?fresh start"
    "cu_prompt u = length history + length (drop start ?fresh)" "cu_prefix u = prefix_count env"
    "rl_working r' = history @ drop start ?fresh @ drop (cu_prompt u) (rl_working r)"
    using facts u by (auto simp: Let_def r' prefix_count_def)
  have "start < length ?fresh"
    using start(1) prompt_longer [of "tk_index (ev_tokenizer env)" line] by (auto simp: turn_from_def split: if_splits)
  moreover have "prefix_count env < cu_prompt u" if "history = []"
    using start(1,2) that prompt_longer [of "tk_index (ev_tokenizer env)" line]
    by (simp add: turn_from_def prefix_count_def)
  ultimately show "cu_prefix u = prefix_count env \<and> length history < cu_prompt u \<and>
       (history = [] \<longrightarrow> prefix_count env < cu_prompt u) \<and>
       (\<exists>start. let fresh = prompt_tokens (tk_index (ev_tokenizer env)) line in turn_from history fresh start \<and>
          take (cu_prompt u) (rl_working r') = history @ drop start fresh)"
    using start by (auto simp: Let_def intro!: exI [of _ start])
qed

text \<open>Dropping the conversation for a fresh prompt.\<close>

lemma reset_conversation_facts:
  assumes ok: "conversation_ok env r" and n: "n \<le> CONTEXT_TOKENS"
    and run: "reset_conversation_for_fresh_prompt n r = (kept, r')"
  shows "conversation_ok env r'" "conversation r' = []" "rl_committed_len r' = 0"
    "take n (rl_working r') = take n (rl_working r)"
proof -
  note base = ok [unfolded conversation_ok_def history_ok_def]
  obtain m e where reset: "reset_to_prefix (rl_engine r) = (m, e)" by fastforce
  have e: "engine_inv env e" "en_state e = ST_RESET" "engine_inv env (reset_state e)" "en_state (reset_state e) = ST_RESET"
    using engine_inv_reset [of env "rl_engine r"] base reset engine_inv_reset(3,4) [of env e] by auto
  let ?working = "take n (rl_working r) @ replicate (CONTEXT_TOKENS - n) 0"
  have r': "r' = r\<lparr>rl_engine := rl_engine r', rl_cached_len := 0, rl_committed := replicate CONTEXT_TOKENS 0,
      rl_committed_len := 0, rl_turns := 0, rl_working := ?working\<rparr>" "rl_engine r' \<in> {e, reset_state e}"
    using run base n reset by (auto simp: reset_conversation_for_fresh_prompt_def Let_def split: if_splits)
  have fields: "rl_cached_len r' = 0" "rl_committed r' = replicate CONTEXT_TOKENS 0" "rl_committed_len r' = 0"
    "rl_working r' = ?working"
    by (subst r'(1), simp)+
  show "conversation r' = []" "rl_committed_len r' = 0" by (simp_all add: conversation_def fields)
  show "take n (rl_working r') = take n (rl_working r)" using n base by (simp add: fields)
  show "conversation_ok env r'"
    using e r'(2) n base by (auto simp: conversation_ok_def history_ok_def cache_coherent_def fields)
qed

text \<open>The plan of a turn.\<close>

definition plan_ok :: "environment \<Rightarrow> bytes \<Rightarrow> repl \<Rightarrow> (conversation_usage \<times> nat \<times> bool) option \<Rightarrow> repl \<Rightarrow> bool" where
  "plan_ok env line r plan r' \<longleftrightarrow>
     (case plan of
        None \<Rightarrow> undisturbed r r'
      | Some (u, n, was_reset) \<Rightarrow> cu_prefix u = prefix_count env \<and> conversation_ok env r' \<and> fits env line n r' \<and>
          conversation r' = (if was_reset then [] else conversation r))"

lemma length_conversation: "conversation_ok env r \<Longrightarrow> length (conversation r) = rl_committed_len r"
  by (auto simp: conversation_ok_def history_ok_def conversation_def)

lemma plan_rejected:
  "undisturbed r (snd (bind_op (reject_turn env num m n) (\<lambda>_. return None) r))"
  "fst (bind_op (reject_turn env num m n) (\<lambda>_. return None) r) \<noteq> Inr (Some x)"
proof -
  have "undisturbed_frame.moves (reject_turn env num m n)"
    unfolding reject_turn_def
    by (intro undisturbed_frame.moves_bind undisturbed_frame.moves_events undisturbed_frame.movesI) simp
  then show "undisturbed r (snd (bind_op (reject_turn env num m n) (\<lambda>_. return None) r))"
    by (rule undisturbed_frame.bind_step) (rule undisturbed_frame.moves_return)
  show "fst (bind_op (reject_turn env num m n) (\<lambda>_. return None) r) \<noteq> Inr (Some x)"
    by (auto simp: bind_op_def return_def split: prod.splits sum.splits)
qed

lemma rejected_plan:
  assumes "bind_op (reject_turn env num m n) (\<lambda>_. return None) r = (res, r')"
  shows "undisturbed r r' \<and> (\<exists>e. res = Inl e) \<or> undisturbed r r' \<and> res = Inr None"
proof -
  have "res \<noteq> Inr (Some x)" for x using plan_rejected(2) [of env num m n r x] assms by simp
  then have "(\<exists>e. res = Inl e) \<or> res = Inr None" by (cases res) (auto simp: option.split_sel)
  moreover have "undisturbed r r'" using assms plan_rejected(1) by (metis snd_conv)
  ultimately show ?thesis by blast
qed

lemma undisturbed_trans: "undisturbed r r' \<Longrightarrow> undisturbed r' r'' \<Longrightarrow> undisturbed r r''"
  by (simp add: undisturbed_def)

lemma prospective_Inr:
  "prospective_tokens (Inr u) = Inr n \<longleftrightarrow> n = cu_prompt u"
  by (auto simp: prospective_tokens_def)

lemma plan_fresh_facts:
  assumes ok: "conversation_ok env r" and run: "plan_fresh env num line prospective r = (res, r')"
  shows "case res of Inl e \<Rightarrow> undisturbed r r' | Inr plan \<Rightarrow> plan_ok env line r plan r'"
proof -
  let ?r0 = "clear_working r"
  obtain fresh outcome r1 where tok: "tokenize_turn env [] line ?r0 = (fresh, outcome, r1)" by (metis prod_cases3)
  have "length (rl_working ?r0) = CONTEXT_TOKENS" using ok by (simp add: conversation_ok_def clear_working_def)
  note facts = tokenize_turn_facts [OF tok this]
  have r1: "undisturbed r r1" by (rule undisturbed_trans [OF _ facts(1)]) simp
  have clear: "undisturbed r (clear_working r1)" by (rule undisturbed_trans [OF r1]) simp
  have broken: "history_broken r1 = (res, r') \<Longrightarrow> ?thesis"
    using clear by (auto simp: history_broken_def)
  show ?thesis
  proof (cases "prospective_tokens fresh")
    case (Inl e)
    then show ?thesis using run tok clear by (auto simp: plan_fresh_def)
  next
    case (Inr m)
    show ?thesis
    proof (cases "decide_history True prospective (Some m)")
      case (RejectPrompt n)
      then have "bind_op (reject_turn env num (user_tokens_of fresh outcome) n) (\<lambda>_. return None) r1 = (res, r')"
        using run tok Inr by (simp add: plan_fresh_def)
      from rejected_plan [OF this] show ?thesis
        using undisturbed_trans [OF r1, of r'] by (auto simp: plan_ok_def)
    next
      case (ResetHistory n)
      then have n: "n = m" "n \<le> PROMPT_LIMIT" by (auto simp: decide_history_def split: if_splits)
      show ?thesis
      proof (cases fresh)
        case (Inl e)
        then show ?thesis using run tok Inr ResetHistory broken by (simp add: plan_fresh_def)
      next
        case u: (Inr u)
        obtain ev r2 where emit: "emit_history_reset env num r1 = (ev, r2)" by fastforce
        have "undisturbed r1 r2" by (rule undisturbed_frame.moved [OF undisturbed_frame.moves_events(2) emit])
        then have r2: "undisturbed r r2" by (rule undisturbed_trans [OF r1])
        have working: "rl_working r2 = rl_working r1"
          using harmless_frame.moved [OF harmless_frame.moves_events(2) emit] by (simp add: harmless_def)
        show ?thesis
        proof (cases ev)
          case (Inl e)
          then show ?thesis
            using run tok Inr ResetHistory u emit r2 by (auto simp: plan_fresh_def bind_op_def)
        next
          case ev: (Inr v)
          obtain m' r3 where reset: "reset_conversation_for_fresh_prompt n r2 = (m', r3)" by fastforce
          have r': "res = Inr (Some (u, n, True))" "r' = r3"
            using run tok Inr ResetHistory u emit ev reset by (auto simp: plan_fresh_def bind_op_def)
          have "n \<le> CONTEXT_TOKENS" using n by (simp add: PROMPT_LIMIT_def CONTEXT_LIMIT_def CONTEXT_TOKENS_def)
          note after_reset = reset_conversation_facts [OF undisturbed_conversation(2) [OF r2 ok] this reset]
          have count: "n = cu_prompt u" using Inr u n by (simp add: prospective_Inr)
          obtain start where start: "turn_from [] (prompt_tokens (tk_index (ev_tokenizer env)) line) start"
            "take n (rl_working r1) = drop start (prompt_tokens (tk_index (ev_tokenizer env)) line)"
            and usage: "cu_prefix u = prefix_count env" "prefix_count env < n"
            using facts(2) [OF u] count by (auto simp: Let_def)
          have "fits env line n r3"
            using after_reset n(2) start usage working by (auto simp: fits_def Let_def)
          then show ?thesis using r' after_reset usage by (simp add: plan_ok_def)
        qed
      qed
    next
      case UseHistory
      then show ?thesis using run tok Inr broken by (simp add: plan_fresh_def)
    next
      case RetryFresh
      then show ?thesis using run tok Inr broken by (simp add: plan_fresh_def)
    qed
  qed
qed

lemma plan_ok_undisturbed:
  "plan_ok env line r1 plan r' \<Longrightarrow> undisturbed r r1 \<Longrightarrow> plan_ok env line r plan r'"
  using undisturbed_conversation(1) [of r r1] undisturbed_trans [of r r1 r']
  by (auto simp: plan_ok_def split: option.splits)

lemma plan_turn_facts:
  assumes ok: "conversation_ok env r" and run: "plan_turn env num line r = (res, r')"
  shows "case res of Inl e \<Rightarrow> undisturbed r r' | Inr plan \<Rightarrow> plan_ok env line r plan r'"
proof -
  let ?r0 = "clear_working r"
  have history: "take (rl_committed_len ?r0) (rl_committed ?r0) = conversation r"
    by (simp add: conversation_def clear_working_def)
  obtain first outcome r1 where tok: "tokenize_turn env (conversation r) line ?r0 = (first, outcome, r1)"
    by (metis prod_cases3)
  have "length (rl_working ?r0) = CONTEXT_TOKENS" using ok by (simp add: conversation_ok_def clear_working_def)
  note facts = tokenize_turn_facts [OF tok this]
  have r1: "undisturbed r r1" by (rule undisturbed_trans [OF _ facts(1)]) simp
  have ok1: "conversation_ok env r1" by (rule undisturbed_conversation(2) [OF r1 ok])
  let ?had = "rl_committed_len ?r0 \<noteq> 0"
  have broken: "history_broken r1 = (res, r') \<Longrightarrow> ?thesis"
    using undisturbed_trans [OF r1, of "clear_working r1"] by (auto simp: history_broken_def)
  note go = run [unfolded plan_turn_def Let_def history tok prod.case]
  show ?thesis
  proof (cases "prospective_tokens first")
    case (Inl e)
    then show ?thesis using go r1 by auto
  next
    case (Inr m)
    note go = go [unfolded Inr sum.case]
    show ?thesis
    proof (cases "decide_history ?had m (if ?had then None else Some m)")
      case (RejectPrompt n)
      then have "bind_op (reject_turn env num (user_tokens_of first outcome) n) (\<lambda>_. return None) r1 = (res, r')"
        using go by simp
      from rejected_plan [OF this] show ?thesis
        using undisturbed_trans [OF r1, of r'] by (auto simp: plan_ok_def)
    next
      case RetryFresh
      then have "plan_fresh env num line m r1 = (res, r')" using go by simp
      from plan_fresh_facts [OF ok1 this] show ?thesis
        using plan_ok_undisturbed [OF _ r1] undisturbed_trans [OF r1] by (auto split: sum.splits)
    next
      case (ResetHistory n)
      then show ?thesis using go broken by simp
    next
      case (UseHistory n)
      then have n: "n = m" "n \<le> PROMPT_LIMIT" by (auto simp: decide_history_def split: if_splits option.splits)
      show ?thesis
      proof (cases first)
        case (Inl e)
        then show ?thesis using go UseHistory broken by simp
      next
        case u: (Inr u)
        then have r': "res = Inr (Some (u, n, False))" "r' = r1" using go UseHistory by simp_all
        have count: "n = cu_prompt u" using Inr u n by (simp add: prospective_Inr)
        have conv: "conversation r1 = conversation r" "rl_committed_len r1 = rl_committed_len r"
          using undisturbed_conversation(1) [OF r1] r1 by (simp_all add: undisturbed_def)
        have long: "rl_committed_len r \<noteq> 0 \<Longrightarrow> prefix_count env \<le> rl_committed_len r"
          using ok by (auto simp: conversation_ok_def history_ok_def)
        obtain start where start: "turn_from (conversation r) (prompt_tokens (tk_index (ev_tokenizer env)) line) start"
          "take n (rl_working r1) = conversation r @ drop start (prompt_tokens (tk_index (ev_tokenizer env)) line)"
          and usage: "cu_prefix u = prefix_count env" "rl_committed_len r < n"
            "conversation r = [] \<longrightarrow> prefix_count env < n"
          using facts(2) [OF u] count length_conversation [OF ok] by (auto simp: Let_def)
        have "prefix_count env < n"
        proof (cases "conversation r = []")
          case False
          then have "rl_committed_len r \<noteq> 0" using length_conversation [OF ok] by (metis length_0_conv)
          then show ?thesis using long usage by simp
        qed (use usage in simp)
        then have "fits env line n r1"
          using n(2) start usage conv by (auto simp: fits_def Let_def)
        then show ?thesis using r' ok1 usage conv by (simp add: plan_ok_def)
      qed
    qed
  qed
qed

section \<open>A turn\<close>

text \<open>Behind a plan there is always a place to start the evaluation.\<close>

lemma fits_facts:
  assumes ok: "conversation_ok env r" and fit: "fits env line n r"
  shows "take (rl_committed_len r) (rl_working r) = conversation r"
    "n \<le> CONTEXT_TOKENS" "0 < generation_limit n" "n + generation_limit n \<le> CONTEXT_TOKENS" "generation_limit n \<le> 1024"
proof -
  note len = length_conversation [OF ok]
  obtain ts where ts: "take n (rl_working r) = conversation r @ ts" and below: "rl_committed_len r < n" "n \<le> PROMPT_LIMIT"
    using fit by (auto simp: fits_def Let_def)
  from arg_cong [OF ts, of "take (rl_committed_len r)"]
  show "take (rl_committed_len r) (rl_working r) = conversation r" using len below by (simp add: min_absorb1)
  show "n \<le> CONTEXT_TOKENS" "0 < generation_limit n" "n + generation_limit n \<le> CONTEXT_TOKENS" "generation_limit n \<le> 1024"
    using below by (auto simp: generation_limit_def PROMPT_LIMIT_def CONTEXT_LIMIT_def CONTEXT_TOKENS_def
      GENERATION_RESERVE_def)
qed

lemma append_start_facts:
  assumes ok: "conversation_ok env r" and fit: "fits env line n r"
  shows "\<exists>start. append_start n (prefix_count env) r = Some start \<and>
    starting env \<lparr>tn_prompt = n, tn_prefix = prefix_count env, tn_append = rl_cached_len r \<noteq> 0,
      tn_start = start, tn_limit = limit\<rparr> r"
proof -
  note base = ok [unfolded conversation_ok_def history_ok_def engine_inv_def] and same = fits_facts(1) [OF ok fit]
  have below: "prefix_count env < n" "rl_committed_len r < n" using fit by (simp_all add: fits_def Let_def)
  show ?thesis
  proof (cases "rl_cached_len r = 0")
    case True
    then have st: "en_state (rl_engine r) = ST_RESET" using base by (simp add: cache_coherent_def)
    moreover have "engine_ok (rl_engine r)" using base reachable_ok by blast
    ultimately have "en_position (rl_engine r) = rp_len (en_prefix (rl_engine r))" by (simp add: engine_ok_def)
    then show ?thesis
      using True st base below by (auto simp: append_start_def Let_def starting_def)
  next
    case False
    let ?n = "rl_cached_len r"
    have cache: "?n + 1 = rl_committed_len r" "live (rl_engine r)" "holds_tokens env (take ?n (rl_committed r)) (rl_engine r)"
      using base False by (simp_all add: cache_coherent_def)
    have "en_position (rl_engine r) = length (take ?n (rl_committed r))"
      using cache(3) unfolding holds_tokens_def by (rule cached_position)
    then have position: "en_position (rl_engine r) = ?n" using base cache(1) by simp
    from arg_cong [OF same, of "take ?n"] cache(1)
    have tokens: "take ?n (rl_working r) = take ?n (rl_committed r)" by (simp add: conversation_def min_absorb1)
    have "append_start n (prefix_count env) r = Some ?n"
      using False cache(1) position tokens below by (simp add: append_start_def Let_def)
    then show ?thesis using False cache tokens below by (simp add: starting_def)
  qed
qed

text \<open>The outcome of a turn for the conversation.\<close>

definition turn_answer :: "environment \<Rightarrow> bytes \<Rightarrow> nat list \<Rightarrow> nat list \<Rightarrow> bool" where
  "turn_answer env line history tokens \<longleftrightarrow>
     (\<exists>start. let fresh = prompt_tokens (tk_index (ev_tokenizer env)) line in
        turn_from history fresh start \<and> answer_to (history @ drop start fresh) GENERATION_RESERVE tokens)"

text \<open>A conversation of whole turns: nothing, or whole turns and one more.\<close>

inductive whole_turns :: "environment \<Rightarrow> nat list \<Rightarrow> bool" for env :: environment where
  no_turn: "whole_turns env []"
| one_more: "whole_turns env history \<Longrightarrow> turn_answer env line history tokens \<Longrightarrow> whole_turns env tokens"

lemma whole_turns_turn:
  "new = old \<or> new = [] \<or> turn_answer env line old new \<or> turn_answer env line [] new \<Longrightarrow>
     whole_turns env old \<Longrightarrow> whole_turns env new"
  by (auto intro: whole_turns.intros)

lemma generate_facts:
  assumes ok: "conversation_ok env r" and fit: "fits env line n r"
  shows "conversation_ok env (snd (generate env num tsc n (prefix_count env) r)) \<and>
    (conversation (snd (generate env num tsc n (prefix_count env) r)) = conversation r \<or>
     turn_answer env line (conversation r) (conversation (snd (generate env num tsc n (prefix_count env) r))))"
proof -
  note base = ok [unfolded conversation_ok_def]
  let ?limit = "generation_limit n"
  obtain start where append: "append_start n (prefix_count env) r = Some start"
    and starts: "starting env \<lparr>tn_prompt = n, tn_prefix = prefix_count env, tn_append = rl_cached_len r \<noteq> 0,
      tn_start = start, tn_limit = ?limit\<rparr> r" using append_start_facts [OF ok fit] by blast
  let ?t = "\<lparr>tn_prompt = n, tn_prefix = prefix_count env, tn_append = rl_cached_len r \<noteq> 0,
      tn_start = start, tn_limit = ?limit\<rparr>"
  let ?k = "\<lparr>kp_committed = rl_committed r, kp_len = rl_committed_len r, kp_turns = rl_turns r\<rparr>"
  let ?prompt = "take n (rl_working r)"
  note bounds = fits_facts [OF ok fit]
  have t: "turn_ok env ?t ?k" using bounds base fit by (simp add: turn_ok_def fits_def Let_def)
  have conclude: "turn_done env ?t ?prompt ?k r' \<Longrightarrow> conversation_ok env r' \<and>
      (conversation r' = conversation r \<or> turn_answer env line (conversation r) (conversation r'))" for r'
  proof -
    assume d: "turn_done env ?t ?prompt ?k r'"
    obtain s where start: "turn_from (conversation r) (prompt_tokens (tk_index (ev_tokenizer env)) line) s"
      "?prompt = conversation r @ drop s (prompt_tokens (tk_index (ev_tokenizer env)) line)"
      using fit by (auto simp: fits_def Let_def)
    have more: "answer_to ?prompt ?limit (conversation r') \<Longrightarrow> answer_to ?prompt GENERATION_RESERVE (conversation r')"
      using bounds(5) by (auto simp: answer_to_def GENERATION_RESERVE_def)
    have "retains ?k r' \<Longrightarrow> conversation r' = conversation r" by (simp add: retains_def conversation_def)
    moreover have "answer_to ?prompt ?limit (conversation r') \<Longrightarrow> turn_answer env line (conversation r) (conversation r')"
      using more start by (auto simp: turn_answer_def Let_def)
    ultimately show "conversation_ok env r' \<and>
      (conversation r' = conversation r \<or> turn_answer env line (conversation r) (conversation r'))"
      using d by (auto simp: turn_done_def)
  qed
  obtain v r1 where time: "timing_start env r = (Inr v :: turn_error + u64, r1)" using timing_started by blast
  obtain z r2 where emit: "emit_generation_started env num tsc n ?limit start v r1 = (z, r2)" by fastforce
  have still: "harmless r r2"
    by (rule harmless_trans [OF harmless_frame.moved [OF harmless_frame.moves_timing(1) time]
      harmless_frame.moved [OF harmless_frame.moves_events(5) emit]])
  show ?thesis
  proof (cases z)
    case (Inl e)
    have ok2: "conversation_ok env r2" by (rule conversation_ok_harmless [OF ok still])
    have "turn_done env ?t ?prompt ?k (drop_turn r2)"
      using reset_engine_ok(3) [of env r2] ok2 still
      by (simp add: turn_done_def conversation_ok_def retains_def drop_turn_def clear_traces_def
        clear_working_def reset_engine_def harmless_def)
    note this [THEN conclude]
    moreover have "snd (generate env num tsc n (prefix_count env) r) = drop_turn r2"
      using append time emit Inl by (simp add: generate_def Let_def bind_op_def)
    ultimately show ?thesis by (simp only:)
  next
    case (Inr u)
    obtain y r3 where gen: "generate_tokens env ?t ?limit (generation_new ?limit) (clear_traces r2) = (y, r3)"
      by fastforce
    have "loop_ok env ?t ?prompt ?k (generation_new ?limit) (clear_traces r2)"
      using still base starts bounds(2)
      by (auto simp: loop_ok_def running_def retains_def starting_def generation_new_def clear_traces_def
        harmless_def)
    note facts = generate_tokens_facts [OF gen this t]
    have go: "snd (generate env num tsc n (prefix_count env) r) =
        (case y of Inl e \<Rightarrow> r3 | Inr g \<Rightarrow> snd (finish_turn env num v g r3))"
      using append time emit Inr gen by (simp add: generate_def Let_def bind_op_def split: sum.split)
    have "turn_done env ?t ?prompt ?k (case y of Inl e \<Rightarrow> r3 | Inr g \<Rightarrow> snd (finish_turn env num v g r3))"
      using facts finish_turn_facts [OF _ t]
      by (cases y) (simp_all add: generation_new_def turn_done_def)
    then show ?thesis unfolding go by (rule conclude)
  qed
qed

lemma accepted_turn_facts:
  assumes ok: "conversation_ok env r"
  shows "conversation_ok env (snd (accepted_turn env num line r)) \<and>
    (let old = conversation r; new = conversation (snd (accepted_turn env num line r))
     in new = old \<or> new = [] \<or> turn_answer env line old new \<or> turn_answer env line [] new)"
proof -
  let ?goal = "\<lambda>r'. conversation_ok env r' \<and>
    (conversation r' = conversation r \<or> conversation r' = [] \<or>
     turn_answer env line (conversation r) (conversation r') \<or> turn_answer env line [] (conversation r'))"
  have same: "undisturbed r r' \<Longrightarrow> ?goal r'" for r'
    using undisturbed_conversation [of r r'] ok by simp
  let ?start = "bind_op (print env [13, 10]) (\<lambda>_. bind_op (timing_start env) (\<lambda>accepted_tsc.
    bind_op (emit_input_accepted env num line accepted_tsc) (\<lambda>_. return accepted_tsc)))"
  obtain a r1 where start: "?start r = (a, r1)" by fastforce
  have r1: "undisturbed r r1"
  proof -
    have "undisturbed_frame.moves ?start"
      by (intro undisturbed_frame.moves_bind undisturbed_frame.moves_emit undisturbed_frame.moves_timing
        undisturbed_frame.moves_events undisturbed_frame.moves_return)
    from undisturbed_frame.movesD [OF this, of r] start show ?thesis by simp
  qed
  let ?rest = "\<lambda>accepted_tsc. bind_op (plan_turn env num line) (\<lambda>plan.
       case plan of
         None \<Rightarrow> return ()
       | Some (usage, prompt_count, was_reset) \<Rightarrow>
           bind_op (emit_prompt_tokenized env num (cu_user usage) prompt_count (cu_prefix usage) was_reset)
             (\<lambda>_. generate env num accepted_tsc prompt_count (cu_prefix usage)))"
  have split: "accepted_turn env num line r = (case a of Inl e \<Rightarrow> (Inl e, r1) | Inr tsc \<Rightarrow> ?rest tsc r1)"
    using start by (auto simp: accepted_turn_def bind_op_def return_def split: prod.splits sum.splits)
  have "?goal (snd (accepted_turn env num line r))"
  proof (cases a)
    case (Inl e)
    then show ?thesis using split same [OF r1] by simp
  next
    case (Inr tsc)
    have ok1: "conversation_ok env r1" by (rule undisturbed_conversation(2) [OF r1 ok])
    have conv1: "conversation r1 = conversation r" by (rule undisturbed_conversation(1) [OF r1])
    obtain p r2 where plan: "plan_turn env num line r1 = (p, r2)" by fastforce
    note facts = plan_turn_facts [OF ok1 plan]
    show ?thesis
    proof (cases p)
      case (Inl e)
      then show ?thesis
        using split Inr plan facts same undisturbed_trans [OF r1] by (simp add: bind_op_def)
    next
      case p: (Inr choice)
      show ?thesis
      proof (cases choice)
        case None
        then show ?thesis
          using split Inr plan facts p same undisturbed_trans [OF r1]
          by (simp add: bind_op_def plan_ok_def return_def)
      next
        case (Some triple)
        obtain u n was_reset where triple: "triple = (u, n, was_reset)" by (cases triple) auto
        have planned: "cu_prefix u = prefix_count env" "conversation_ok env r2" "fits env line n r2"
          "conversation r2 = (if was_reset then [] else conversation r)"
          using facts p Some triple conv1 by (simp_all add: plan_ok_def)
        obtain z r3 where emit: "emit_prompt_tokenized env num (cu_user u) n (cu_prefix u) was_reset r2 = (z, r3)"
          by fastforce
        have still: "harmless r2 r3" by (rule harmless_frame.moved [OF harmless_frame.moves_events(4) emit])
        have ok3: "conversation_ok env r3" by (rule conversation_ok_harmless [OF planned(2) still])
        have conv3: "conversation r3 = conversation r2" by (rule conversation_harmless [OF still])
        have fit3: "fits env line n r3"
          using planned(3) still conv3 by (simp add: fits_def harmless_def)
        show ?thesis
        proof (cases z)
          case (Inl e)
          then show ?thesis
            using split Inr plan p Some triple emit ok3 conv3 planned(4) by (simp add: bind_op_def)
        next
          case z: (Inr v)
          have "snd (accepted_turn env num line r) = snd (generate env num tsc n (prefix_count env) r3)"
            using split Inr plan p Some triple emit z planned(1) by (simp add: bind_op_def)
          then show ?thesis
            using generate_facts [OF ok3 fit3, of num tsc] conv3 planned(4) by (cases was_reset) auto
        qed
      qed
    qed
  qed
  then show ?thesis by (simp add: Let_def)
qed

section \<open>The controller\<close>

text \<open>Steps that keep the invariant; a frame in the sense of \<open>PB_Frame\<close>.\<close>

definition steady :: "environment \<Rightarrow> repl \<Rightarrow> repl \<Rightarrow> bool" where
  "steady env r r' \<longleftrightarrow> (if conversation_ok env r
     then conversation_ok env r' \<and> (whole_turns env (conversation r) \<longrightarrow> whole_turns env (conversation r'))
     else True)"

interpretation steady_frame: frame "steady env" for env
  by unfold_locales
    (auto simp: steady_def conversation_harmless intro: conversation_ok_harmless split: if_splits)

lemma steady_undisturbed: "undisturbed r r' \<Longrightarrow> steady env r r'"
  using undisturbed_conversation [of r r'] by (simp add: steady_def)

lemma undisturbed_updates [simp]:
  "undisturbed r (r\<lparr>rl_terminal := f\<rparr>)" "undisturbed r (r\<lparr>rl_keys := ks\<rparr>)"
  by (simp_all add: undisturbed_def)

lemma steady_forget: "steady env r (forget_conversation r)"
proof -
  have "conversation_ok env (forget_conversation r)" if "conversation_ok env r"
    using that reset_engine_ok(2) [of env r]
    by (auto simp: conversation_ok_def forget_conversation_def clear_turn_def clear_traces_def clear_working_def
      reset_engine_fresh_def history_ok_def cache_coherent_def)
  moreover have "conversation (forget_conversation r) = []"
    by (simp add: conversation_def forget_conversation_def clear_turn_def clear_traces_def clear_working_def
      reset_engine_fresh_def)
  ultimately show ?thesis by (simp add: steady_def whole_turns.no_turn)
qed

lemma steady_new: "steady_frame.moves env (new_command env')"
  by (rule steady_frame.movesI, unfold new_command_def, rule steady_frame.trans [OF steady_forget])
    (intro steady_frame.bind_step steady_frame.moves_bind steady_frame.moves_console steady_frame.moves_say
      steady_frame.moves_error steady_frame.moves_status)

lemma undisturbed_end_turn: "undisturbed r (end_turn env num turn r)"
proof (cases turn)
  case (Inl e)
  obtain res r1 where emit: "emit_generation_failed env num e (clear_working r) = (res, r1)" by fastforce
  have "undisturbed r r1"
    by (rule undisturbed_trans [OF undisturbed_clear(1) undisturbed_frame.moved [OF undisturbed_frame.moves_failed emit]])
  moreover have "undisturbed r (clear_working r)" by simp
  ultimately show ?thesis
    using emit Inl undisturbed_trans [OF _ undisturbed_updates(1)] by (auto simp: end_turn_def Let_def split: sum.split)
qed (simp add: end_turn_def undisturbed_frame.refl)

lemma steady_turn: "steady_frame.moves env (accepted_turn env num line)"
proof (rule steady_frame.movesI)
  fix r
  show "steady env r (snd (accepted_turn env num line r))"
    using accepted_turn_facts [of env r num line] whole_turns_turn
    unfolding steady_def Let_def by (simp split: if_splits) blast
qed

lemma steady_prompt_line: "steady env r (prompt_line env num line r)"
proof -
  obtain res1 r1 where inferring: "set_state env Inferring r = (res1, r1)" by fastforce
  obtain res2 r2 where turn: "accepted_turn env num line r1 = (res2, r2)" by fastforce
  obtain res3 r3 where waiting: "set_state env Waiting r2 = (res3, r3)" by fastforce
  have r1: "steady env r r1" by (rule steady_frame.moved [OF steady_frame.moves_status(2) inferring])
  then have "steady env r r2" by (rule steady_frame.trans [OF _ steady_frame.moved [OF steady_turn turn]])
  then have r3: "steady env r r3"
    by (rule steady_frame.trans [OF _ steady_frame.moved [OF steady_frame.moves_status(2) waiting]])
  have ends: "steady env r (end_turn env num turn r3)" for turn
    by (rule steady_frame.trans [OF r3 steady_undisturbed [OF undisturbed_end_turn]])
  have fails: "steady env r s \<Longrightarrow> steady env r (s\<lparr>rl_terminal := f\<rparr>)" for s f
    by (rule steady_frame.trans [OF _ steady_undisturbed [OF undisturbed_updates(1)]])
  show ?thesis
    using inferring turn waiting ends fails [OF r1] fails [OF r3] by (auto simp: prompt_line_def split: sum.split)
qed

lemma steady_deliver: "steady env r (deliver env out r)"
  by (cases out)
    (simp_all add: deliver_def accepted_line_def steady_frame.trap_moves steady_frame.moves_say
      steady_frame.moves_events_command steady_frame.moves_runtime_status steady_frame.moves_lines
      steady_frame.refl steady_new steady_prompt_line)

lemma steady_delivered: "steady env r (fold (deliver env) outs r)"
  by (induction outs arbitrary: r) (auto intro: steady_frame.trans steady_deliver steady_frame.refl)

lemma steady_handle: "steady_frame.moves env (handle_key env k ed)"
proof -
  have fails: "steady env r s \<Longrightarrow> steady env r (s\<lparr>rl_terminal := f\<rparr>)" for r s f
    by (rule steady_frame.trans [OF _ steady_undisturbed [OF undisturbed_updates(1)]])
  have "steady_frame.moves env (edit_key env unicode ed)" for unicode
    using steady_delivered fails [OF steady_delivered]
    by (auto simp: edit_key_def Let_def split: prod.split option.split intro!: steady_frame.movesI)
  then show ?thesis
    unfolding handle_key_def scroll_key_def
    by (auto intro!: steady_frame.moves_bind steady_frame.moves_console steady_frame.moves_return)
qed

lemma steady_read_keys: "steady env r (snd (read_keys env ed r))"
proof (induction env ed r rule: read_keys.induct)
  case (1 env ed r)
  show ?case
  proof (cases "rl_keys r")
    case Nil
    then show ?thesis by (simp add: read_keys.simps [of env ed r] steady_frame.refl)
  next
    case (Cons k ks)
    let ?r = "r\<lparr>rl_keys := ks\<rparr>"
    have taken: "steady env r ?r" by (rule steady_undisturbed) simp
    obtain res r1 where handle: "handle_key env k ed ?r = (res, r1)" by fastforce
    have r1: "steady env r r1" by (rule steady_frame.trans [OF taken steady_frame.moved [OF steady_handle handle]])
    show ?thesis
      using taken r1 handle 1 [OF Cons _ _ handle [symmetric]] steady_frame.trans [OF r1]
      by (auto simp: read_keys.simps [of env ed r] Cons split: sum.split)
  qed
qed

lemma steady_input_loop: "steady env r (snd (snd (input_loop env ws ed r)))"
proof (induction ws arbitrary: ed r)
  case (Cons w ws)
  obtain a r1 where tick: "waiting_tick env r = (a, r1)" by fastforce
  obtain b r2 where keys: "read_keys env ed r = (b, r2)" by fastforce
  have r1: "steady env r r1" by (rule steady_frame.moved [OF steady_frame.moves_greeting(2) tick])
  have r2: "steady env r r2" using steady_read_keys [of env r ed] keys by simp
  show ?case
    using tick keys r1 r2 Cons steady_frame.trans [OF r1] steady_frame.trans [OF r2]
    by (auto simp: steady_frame.refl split: sum.split wait_source.split)
qed (simp add: steady_frame.refl)

lemma steady_greet: "steady_frame.moves env (greet env sha)"
proof -
  have fails: "steady env r s \<Longrightarrow> steady env r (s\<lparr>rl_terminal := f\<rparr>)" for r s f
    by (rule steady_frame.trans [OF _ steady_undisturbed [OF undisturbed_updates(1)]])
  have "steady_frame.moves env (\<lambda>r. let r = deliver env (Prompt (prompt_index editor_new)) r
       in case rl_terminal r of Some f \<Rightarrow> (Inl f, r\<lparr>rl_terminal := None\<rparr>) | None \<Rightarrow> (Inr (), r))"
    using steady_deliver fails [OF steady_deliver]
    by (auto simp: Let_def split: option.split intro!: steady_frame.movesI)
  then show ?thesis
    unfolding greet_def
    by (intro steady_frame.moves_bind steady_frame.moves_greeting steady_frame.moves_say steady_frame.moves_error
      steady_frame.moves_status) simp
qed

text \<open>The start: an engine just built and an empty conversation.\<close>

lemma built_engine:
  assumes "engine_build model kv kv_len kv_address scratch_len scratch_address b d = Inr e"
  shows "engine_inv env e" "en_state e = ST_RESET"
  using reachable.built [OF assms] assms
  by (auto simp: engine_inv_def engine_build_def prefix_clear_def split: option.splits)

lemma build_controller_ok:
  assumes "build_controller env su = Inr r"
  shows "conversation_ok env r" "conversation r = []"
proof -
  obtain e free where e: "engine_build (su_model su) (su_kv su) KV_BYTES (su_kv_address su) SCRATCH_BYTES
      (su_scratch_address su) (su_backend su) (su_dispatcher su) = Inr e" and r: "r = controller su e free"
    using assms by (auto simp: build_controller_def split: sum.splits)
  show "conversation_ok env r"
    using built_engine(1) [OF e, of env] built_engine(2) [OF e]
    by (simp add: r controller_def Let_def conversation_ok_def history_ok_def cache_coherent_def split: prod.split)
  show "conversation r = []" by (simp add: r controller_def Let_def conversation_def split: prod.split)
qed

section \<open>Properties\<close>

text \<open>
  C1: The cache is coherent with the conversation at every wait of the REPL. Whatever keys, timer ticks,
  firmware statuses, interrupts, failures and times of the clock come: after the greeting, and after
  any number of waits, the committed conversation consists of whole turns - each of them the tokens
  the chat template gives a line, the prefix left out after the first, and an answer that ends with
  the end marker - and the engine either holds nothing beyond its retained prefix, or has evaluated
  exactly the committed tokens but the last.
\<close>

theorem repl_cache_coherent:
  "case build_controller env su of
     Inl f \<Rightarrow> True
   | Inr r0 \<Rightarrow>
       (case greet env sha r0 of
          (_, r1) \<Rightarrow> conversation_ok env r1 \<and> whole_turns env (conversation r1) \<and>
            (case input_loop env waits ed r1 of
               (_, _, r) \<Rightarrow> conversation_ok env r \<and> whole_turns env (conversation r)))"
proof (cases "build_controller env su")
  case (Inr r0)
  obtain res r1 where greet: "greet env sha r0 = (res, r1)" by fastforce
  note start = build_controller_ok [OF Inr]
  have one: "conversation_ok env r1" "whole_turns env (conversation r1)"
    using steady_frame.moved [OF steady_greet greet] start by (simp_all add: steady_def whole_turns.no_turn)
  let ?r = "snd (snd (input_loop env waits ed r1))"
  have "conversation_ok env ?r" "whole_turns env (conversation ?r)"
    using steady_input_loop [of env r1 waits ed] one by (simp_all add: steady_def)
  then show ?thesis using Inr greet one by (simp add: split_def)
qed simp

text \<open>
  C2: A turn is a transaction on the conversation. On every controller that editor outputs lead to, a turn
  leaves the conversation as it was, or drops it, or extends it: then it is the old conversation (or
  none, when it was dropped for room) followed by exactly the tokens the chat template gives the
  line, and by an answer of 1 to 1,024 tokens that ends with the end marker. No partial answer, no
  interrupted one and no tokens of an earlier attempt are ever kept.
\<close>

theorem turn_is_transaction:
  "case build_controller env su of
     Inl f \<Rightarrow> True
   | Inr r0 \<Rightarrow>
       let r = fold (deliver env) outs r0; old = conversation r;
           new = conversation (snd (accepted_turn env num line r))
       in new = old \<or> new = [] \<or> turn_answer env line old new \<or> turn_answer env line [] new"
proof (cases "build_controller env su")
  case (Inr r0)
  have "conversation_ok env (fold (deliver env) outs r0)"
    using steady_delivered [of env r0 outs] build_controller_ok [OF Inr] by (simp add: steady_def)
  then show ?thesis using Inr accepted_turn_facts [of env _ num line] by (simp add: Let_def)
qed simp

text \<open>
  C15: A planned turn always starts. On every controller that editor outputs lead to, a turn whose prompt
  has been planned finds where its evaluation starts, strictly inside the prompt, and its prompt and
  its answer fit the context together: the error for a history out of step with the engine is never
  raised there.
\<close>

theorem planned_turn_starts:
  "case build_controller env su of
     Inl f \<Rightarrow> True
   | Inr r0 \<Rightarrow>
       (case plan_turn env num line (fold (deliver env) outs r0) of
          (Inr (Some (usage, n, was_reset)), r) \<Rightarrow>
            (case append_start n (cu_prefix usage) r of
               None \<Rightarrow> False
             | Some start \<Rightarrow> start < n \<and> start = en_position (rl_engine r) \<and> 0 < generation_limit n \<and>
                 n + generation_limit n \<le> CONTEXT_TOKENS)
        | _ \<Rightarrow> True)"
proof (cases "build_controller env su")
  case (Inr r0)
  let ?r = "fold (deliver env) outs r0"
  have ok: "conversation_ok env ?r"
    using steady_delivered [of env r0 outs] build_controller_ok [OF Inr] by (simp add: steady_def)
  obtain res r where plan: "plan_turn env num line ?r = (res, r)" by fastforce
  show ?thesis
  proof (cases res)
    case (Inl e)
    then show ?thesis using Inr plan by simp
  next
    case res: (Inr choice)
    show ?thesis
    proof (cases choice)
      case None
      then show ?thesis using Inr plan res by simp
    next
      case (Some triple)
      obtain usage n was_reset where triple: "triple = (usage, n, was_reset)" by (cases triple) auto
      have planned: "cu_prefix usage = prefix_count env" "conversation_ok env r" "fits env line n r"
        using plan_turn_facts [OF ok plan] res Some triple by (simp_all add: plan_ok_def)
      obtain start where start: "append_start n (prefix_count env) r = Some start"
        using append_start_facts [OF planned(2,3)] by blast
      have "start < n \<and> start = en_position (rl_engine r)"
        using start planned(3) by (auto simp: append_start_def Let_def fits_def split: if_splits)
      then show ?thesis
        using Inr plan res Some triple planned(1) start fits_facts(3,4) [OF planned(2,3)] by simp
    qed
  qed
qed simp

end
