(* ===== verification/PB_Barrier.thy ===== *)
theory PB_Barrier
  imports PB_Prelude
begin

text \<open>
  The barrier the processors meet at (\<open>CompletionBarrier\<close> of \<open>inference.rs\<close> and \<open>EntryBarrier\<close> of
  \<open>mp_inference.rs\<close>, the same code): a counter of arrivals and a generation. Every atomic operation of
  \<open>wait\<close> is a step of its own, so that the steps of the participants can interleave in any order;
  the atomics are sequentially consistent here, and the generation, a machine word in the code, does
  not wrap.
\<close>

section \<open>The operation\<close>

record barrier =
  br_arrivals :: nat
  br_generation :: nat

definition barrier_new :: barrier where
  "barrier_new = \<lparr>br_arrivals = 0, br_generation = 0\<rparr>"

text \<open>
  Where a participant is: before the load of the generation, before its arrival is counted, then as
  the last one before the counter is cleared and before the generation is raised, or waiting for a
  new generation, and behind the barrier.
\<close>

datatype wait_pc = Load | Arrive nat | Clear | Open | Spin nat | Through

fun barrier_wait :: "nat \<Rightarrow> wait_pc \<Rightarrow> barrier \<Rightarrow> wait_pc \<times> barrier" where
  "barrier_wait workers Load b = (Arrive (br_generation b), b)"
| "barrier_wait workers (Arrive g) b =
     (if br_arrivals b + 1 = workers then Clear else Spin g, b\<lparr>br_arrivals := br_arrivals b + 1\<rparr>)"
| "barrier_wait workers Clear b = (Open, b\<lparr>br_arrivals := 0\<rparr>)"
| "barrier_wait workers Open b = (Through, b\<lparr>br_generation := br_generation b + 1\<rparr>)"
| "barrier_wait workers (Spin g) b = (if br_generation b \<noteq> g then Through else Spin g, b)"
| "barrier_wait workers Through b = (Through, b)"

section \<open>The invariant\<close>

text \<open>
  A place is the number of barriers a participant has passed and where it is in the next one; a
  participant outside the barrier is before its load.
\<close>

type_synonym place = "nat \<times> wait_pc"

definition here :: "nat \<Rightarrow> place \<Rightarrow> bool" where
  "here g x \<longleftrightarrow> x \<in> {(g, Clear), (g, Open), (g, Spin g)}"

definition last_one :: "place \<Rightarrow> bool" where
  "last_one x \<longleftrightarrow> snd x = Clear \<or> snd x = Open"

definition place_ok :: "nat \<Rightarrow> place \<Rightarrow> bool" where
  "place_ok g x \<longleftrightarrow> x \<in> {(g, Load), (g, Arrive g)} \<or> here g x \<or> (0 < g \<and> x = (g - 1, Spin (g - 1)))"

definition barrier_inv :: "nat \<Rightarrow> (nat \<Rightarrow> place) \<Rightarrow> barrier \<Rightarrow> bool" where
  "barrier_inv n place b \<longleftrightarrow>
     (\<forall>p<n. place_ok (br_generation b) (place p)) \<and>
     (if \<exists>p<n. last_one (place p)
      then (\<forall>p<n. here (br_generation b) (place p)) \<and>
        (\<forall>p<n. \<forall>q<n. last_one (place p) \<longrightarrow> last_one (place q) \<longrightarrow> p = q) \<and>
        (\<forall>p<n. (snd (place p) = Clear \<longrightarrow> br_arrivals b = n) \<and> (snd (place p) = Open \<longrightarrow> br_arrivals b = 0))
      else br_arrivals b = card {p. p < n \<and> here (br_generation b) (place p)} \<and> br_arrivals b < n)"

lemma places [simp]:
  "place_ok g (g, Load)" "place_ok g (g, Arrive g)" "place_ok g (g, Clear)" "place_ok g (g, Open)"
  "place_ok g (g, Spin g)" "place_ok (Suc g) (g, Spin g)"
  "here g (g, Clear)" "here g (g, Open)" "here g (g, Spin g)" "\<not> here g (k, Load)" "\<not> here g (k, Arrive h)"
  "\<not> here (Suc g) (g, w)" "\<not> last_one (k, Load)" "\<not> last_one (k, Arrive h)" "\<not> last_one (k, Spin h)"
  by (simp_all add: place_ok_def here_def last_one_def)

lemma barrier_inv_start: "0 < n \<Longrightarrow> (\<And>p. p < n \<Longrightarrow> place p = (0, Load)) \<Longrightarrow> barrier_inv n place barrier_new"
  by (auto simp: barrier_inv_def barrier_new_def place_ok_def here_def last_one_def)

lemma barrier_inv_place: "barrier_inv n place b \<Longrightarrow> p < n \<Longrightarrow> place_ok (br_generation b) (place p)"
  by (simp add: barrier_inv_def)

text \<open>The place of a participant that has passed counts the barrier.\<close>

fun after_wait :: "nat \<Rightarrow> wait_pc \<Rightarrow> place" where
  "after_wait k Through = (Suc k, Load)"
| "after_wait k w = (k, w)"

lemma barrier_inv_alone:
  assumes "barrier_inv n place b" "p < n" "\<not> here (br_generation b) (place p)"
  shows "q < n \<Longrightarrow> \<not> last_one (place q)"
    "br_arrivals b = card {p. p < n \<and> here (br_generation b) (place p)}" "br_arrivals b < n"
  using assms by (auto simp: barrier_inv_def split: if_splits)

lemma barrier_invI:
  assumes "\<And>p. p < n \<Longrightarrow> place_ok (br_generation b) (place p)" "\<And>p. p < n \<Longrightarrow> \<not> last_one (place p)"
    "br_arrivals b = card {p. p < n \<and> here (br_generation b) (place p)}" "br_arrivals b < n"
  shows "barrier_inv n place b"
  using assms by (auto simp: barrier_inv_def)

text \<open>With a last one, all others wait for the next generation.\<close>

lemma barrier_inv_lastI:
  assumes p: "p < n" "place p = (br_generation b, w)" "w = Clear \<and> br_arrivals b = n \<or> w = Open \<and> br_arrivals b = 0"
    and others: "\<And>q. q < n \<Longrightarrow> q \<noteq> p \<Longrightarrow> place q = (br_generation b, Spin (br_generation b))"
  shows "barrier_inv n place b"
proof -
  have last: "last_one (place q) \<longleftrightarrow> q = p" if "q < n" for q
    using p others [OF that] by (cases "q = p") (auto simp: last_one_def)
  have everyone: "here (br_generation b) (place q)" if "q < n" for q
    using p others [OF that] by (cases "q = p") (auto simp: here_def)
  have arrivals: "(snd (place q) = Clear \<longrightarrow> br_arrivals b = n) \<and> (snd (place q) = Open \<longrightarrow> br_arrivals b = 0)"
    if "q < n" for q
    using p others [OF that] by (cases "q = p") auto
  have exists: "\<exists>q<n. last_one (place q)" using p(1) last by blast
  show ?thesis
    unfolding barrier_inv_def using last everyone arrivals exists by (simp add: place_ok_def)
qed

lemma barrier_inv_last:
  assumes inv: "barrier_inv n place b" and p: "p < n" "place p = (k, w)" "w = Clear \<or> w = Open"
  shows "k = br_generation b" "w = Open \<Longrightarrow> br_arrivals b = 0"
    "q < n \<Longrightarrow> q \<noteq> p \<Longrightarrow> place q = (br_generation b, Spin (br_generation b))"
proof -
  have last: "last_one (place p)" using p by (auto simp: last_one_def)
  then have facts: "\<forall>p<n. here (br_generation b) (place p)"
    "\<forall>p<n. \<forall>q<n. last_one (place p) \<longrightarrow> last_one (place q) \<longrightarrow> p = q"
    "\<forall>p<n. (snd (place p) = Clear \<longrightarrow> br_arrivals b = n) \<and> (snd (place p) = Open \<longrightarrow> br_arrivals b = 0)"
    using inv p(1) unfolding barrier_inv_def by (auto split: if_splits)
  show "k = br_generation b" "w = Open \<Longrightarrow> br_arrivals b = 0" using facts(1,3) p by (auto simp: here_def)
  show "place q = (br_generation b, Spin (br_generation b))" if "q < n" "q \<noteq> p"
    using facts(1,2) that p(1) last by (auto simp: here_def last_one_def)
qed

text \<open>Moving a participant that is not counted, neither before nor after.\<close>

lemma barrier_inv_uncounted:
  assumes inv: "barrier_inv n place b" and p: "p < n" "\<not> here (br_generation b) (place p)"
    and x: "place_ok (br_generation b) x" "\<not> here (br_generation b) x" "\<not> last_one x"
  shows "barrier_inv n (place(p := x)) b"
proof (rule barrier_invI)
  note alone = barrier_inv_alone [OF inv p]
  have same: "{q. q < n \<and> here (br_generation b) ((place(p := x)) q)} = {q. q < n \<and> here (br_generation b) (place q)}"
    using p x by auto
  show "br_arrivals b = card {q. q < n \<and> here (br_generation b) ((place(p := x)) q)}" "br_arrivals b < n"
    using alone unfolding same by simp_all
  show "\<not> last_one ((place(p := x)) q)" if "q < n" for q using alone(1) [OF that] x by auto
  show "place_ok (br_generation b) ((place(p := x)) q)" if "q < n" for q
    using barrier_inv_place [OF inv that] x by auto
qed

lemma barrier_inv_wait:
  assumes inv: "barrier_inv n place b" and p: "p < n" "place p = (k, w)"
    and run: "barrier_wait n w b = (w', b')"
  shows "barrier_inv n (place(p := after_wait k w')) b'"
proof -
  let ?g = "br_generation b"
  have ok: "place_ok ?g (k, w)" using barrier_inv_place [OF inv p(1)] p(2) by simp
  show ?thesis
  proof (cases w)
    case Load
    then have "k = ?g" using ok by (auto simp: place_ok_def here_def)
    then show ?thesis
      using run Load p barrier_inv_uncounted [OF inv p(1), of "(k, Arrive ?g)"]
      by (auto simp: place_ok_def here_def last_one_def)
  next
    case (Arrive g)
    then have k: "k = ?g" "g = ?g" using ok by (auto simp: place_ok_def here_def)
    have out: "\<not> here ?g (place p)" using p(2) Arrive by (auto simp: here_def)
    note alone = barrier_inv_alone [OF inv p(1) out]
    let ?A = "{q. q < n \<and> here ?g (place q)}"
    have card: "card (insert p ?A) = br_arrivals b + 1" "insert p ?A \<subseteq> {..<n}" using alone(2) out p(1) by auto
    show ?thesis
    proof (cases "br_arrivals b + 1 = n")
      case True
      then have "insert p ?A = {..<n}" using card by (intro card_subset_eq) simp_all
      then have counted: "here ?g (place q)" if "q < n" "q \<noteq> p" for q using that by blast
      have others: "place q = (?g, Spin ?g)" if "q < n" "q \<noteq> p" for q
        using counted [OF that] alone(1) [OF that(1)] by (auto simp: here_def last_one_def)
      show ?thesis
        using run Arrive True k others p(1) by (intro barrier_inv_lastI [of p]) auto
    next
      case False
      have new: "{q. q < n \<and> here ?g ((place(p := (?g, Spin ?g))) q)} = insert p ?A"
        using p(1) by (auto simp: here_def)
      have b': "b' = b\<lparr>br_arrivals := br_arrivals b + 1\<rparr>" "after_wait k w' = (?g, Spin ?g)"
        using run Arrive False k by auto
      show ?thesis
      proof (rule barrier_invI)
        show "br_arrivals b' = card {q. q < n \<and> here (br_generation b') ((place(p := after_wait k w')) q)}"
          using card(1) new by (simp add: b')
        show "br_arrivals b' < n" using alone(3) False by (simp add: b')
        show "\<not> last_one ((place(p := after_wait k w')) q)" if "q < n" for q using alone(1) [OF that] by (simp add: b')
        show "place_ok (br_generation b') ((place(p := after_wait k w')) q)" if "q < n" for q
          using barrier_inv_place [OF inv that] by (simp add: b')
      qed
    qed
  next
    case Clear
    note last = barrier_inv_last [OF inv p]
    show ?thesis using run Clear last p(1) by (intro barrier_inv_lastI [of p]) auto
  next
    case Open
    note last = barrier_inv_last [OF inv p]
    have b': "b' = b\<lparr>br_generation := ?g + 1\<rparr>" "w' = Through" using run Open by auto
    have "{q. q < n \<and> here (?g + 1) ((place(p := (Suc ?g, Load))) q)} = {}"
      using last Open by (auto simp: here_def)
    then show ?thesis
      using b' last Open p(1)
      by (intro barrier_invI) (auto simp: place_ok_def here_def last_one_def)
  next
    case (Spin g)
    show ?thesis
    proof (cases "here ?g (place p)")
      case True
      then have "place p = (?g, Spin ?g)" using p Spin by (auto simp: here_def)
      then have "k = ?g" "g = ?g" "place(p := (k, w)) = place" using p Spin by auto
      then show ?thesis using run Spin inv by auto
    next
      case False
      then have "0 < ?g" "k = ?g - 1" "g = ?g - 1" using ok p Spin by (auto simp: place_ok_def here_def)
      then show ?thesis
        using run Spin barrier_inv_uncounted [OF inv p(1) False, of "(?g, Load)"]
        by (auto simp: place_ok_def here_def last_one_def)
    qed
  next
    case Through
    then show ?thesis using ok by (auto simp: place_ok_def here_def)
  qed
qed

text \<open>What a participant knows: it has passed all generations or waits for the last of them.\<close>

lemma place_round:
  assumes "barrier_inv n place b" "p < n" "place p = (k, w)"
  shows "w \<in> {Load, Arrive k, Clear, Open} \<Longrightarrow> k = br_generation b"
    "k = br_generation b \<or> Suc k = br_generation b \<and> w = Spin k"
  using barrier_inv_place [OF assms(1,2)] assms(3) by (auto simp: place_ok_def here_def)

text \<open>A barrier is never stuck: while all wait for a generation, one of them is about to raise it.\<close>

lemma barrier_not_stuck:
  assumes inv: "barrier_inv n place b" and n: "0 < n"
  shows "\<exists>p<n. place p \<noteq> (br_generation b, Spin (br_generation b))"
proof (rule ccontr)
  assume "\<not> ?thesis"
  then have all: "p < n \<Longrightarrow> place p = (br_generation b, Spin (br_generation b))" for p by blast
  then have "{p. p < n \<and> here (br_generation b) (place p)} = {..<n}" by (auto simp: here_def)
  moreover have "\<not> last_one (place p)" if "p < n" for p using all [OF that] by (simp add: last_one_def)
  ultimately show False using inv by (auto simp: barrier_inv_def split: if_splits)
qed

end
