(* ===== verification/PB_Workers.thy ===== *)
theory PB_Workers
  imports PB_Replay PB_Barrier
begin

text \<open>
  The job that several processors run for one token (\<open>InferenceWorkerJob\<close> of \<open>inference.rs\<close>): slot 0
  coordinates, publishing one matrix product after the other, and every slot computes its share of
  the rows of each product. The shared job is a record, the program of a slot a datatype of places
  between its atomic operations, and a step is one operation of one slot, so that a list of slots is
  an interleaving. The atomics are sequentially consistent. What the coordinator does between its
  products, the evaluation of the layers (\<open>PB_Engine\<close>), is the list of the products it asks for and
  the way it ends.
\<close>

section \<open>The job\<close>

record matvec_job =
  mj_weights :: nat
  mj_output :: nat
  mj_prepared :: nat
  mj_rows :: nat
  mj_columns :: nat
  mj_q8 :: bool

definition MATVEC_EMPTY :: matvec_job where
  "MATVEC_EMPTY = \<lparr>mj_weights = 0, mj_output = 0, mj_prepared = 0, mj_rows = 0, mj_columns = 0, mj_q8 = False\<rparr>"

text \<open>One row of a product: the epoch it was computed in, the product, the processor path, the row.\<close>

type_synonym row_product = "nat \<times> matvec_job \<times> nat \<times> nat"

record worker_job =
  wj_workers :: nat
  wj_backend :: nat
  wj_rejection :: nat
  wj_epoch :: nat
  wj_terminal :: nat
  wj_row_hits :: nat
  wj_descriptor :: matvec_job
  wj_completion :: barrier
  wj_expected :: nat
  wj_rows :: "row_product list"

definition NO_BACKEND :: nat where "NO_BACKEND = u32_limit - 1"

definition worker_job_new :: "bool \<Rightarrow> worker_job" where
  "worker_job_new produce_logits =
     \<lparr>wj_workers = 0, wj_backend = NO_BACKEND, wj_rejection = 0, wj_epoch = 0, wj_terminal = 0,
      wj_row_hits = 0, wj_descriptor = MATVEC_EMPTY, wj_completion = barrier_new,
      wj_expected = (if produce_logits then 169 else 168), wj_rows = []\<rparr>"

text \<open>The coordinator's token: the products in their order, and 1 for success or 2 for an error.\<close>

record coordination =
  cd_products :: "matvec_job list"
  cd_terminal :: nat

section \<open>The products of a token\<close>

text \<open>
  What \<open>evaluate_inner\<close> asks of its coordinator, in its order: the addresses of the weights by layer
  and role, of the scratch memory and of the logits are those of the running engine.
\<close>

record token_memory =
  tk_weights :: "nat \<Rightarrow> nat \<Rightarrow> nat"
  tk_output :: nat
  tk_scratch :: nat
  tk_logits :: nat

definition product_of ::
  "token_memory \<Rightarrow> nat \<Rightarrow> (scratch_layout \<Rightarrow> scratch_region) \<Rightarrow> nat \<Rightarrow> nat \<Rightarrow> matvec_job" where
  "product_of t weights region rows columns =
     \<lparr>mj_weights = weights, mj_output = tk_scratch t + rg_offset (region INFERENCE_SCRATCH_LAYOUT),
      mj_prepared = tk_scratch t + rg_offset (sl_q8_staging INFERENCE_SCRATCH_LAYOUT),
      mj_rows = rows, mj_columns = columns, mj_q8 = False\<rparr>"

definition layer_products :: "token_memory \<Rightarrow> nat \<Rightarrow> matvec_job list" where
  "layer_products t layer =
     [product_of t (tk_weights t layer 19) sl_q HIDDEN_WORDS HIDDEN_WORDS,
      product_of t (tk_weights t layer 16) sl_k 128 HIDDEN_WORDS,
      product_of t (tk_weights t layer 21) sl_v 128 HIDDEN_WORDS,
      product_of t (tk_weights t layer 17) sl_norm HIDDEN_WORDS HIDDEN_WORDS,
      product_of t (tk_weights t layer 12) sl_gate FFN_WORDS HIDDEN_WORDS,
      product_of t (tk_weights t layer 13) sl_up FFN_WORDS HIDDEN_WORDS,
      product_of t (tk_weights t layer 11) sl_norm HIDDEN_WORDS FFN_WORDS]"

definition logits_product :: "token_memory \<Rightarrow> matvec_job" where
  "logits_product t =
     \<lparr>mj_weights = tk_output t, mj_output = tk_logits t,
      mj_prepared = tk_scratch t + rg_offset (sl_q8_staging INFERENCE_SCRATCH_LAYOUT),
      mj_rows = LOGIT_WORDS, mj_columns = HIDDEN_WORDS, mj_q8 = True\<rparr>"

definition token_products :: "token_memory \<Rightarrow> bool \<Rightarrow> matvec_job list" where
  "token_products t produce_logits =
     concat (map (layer_products t) [0..<LAYERS]) @ (if produce_logits then [logits_product t] else [])"

text \<open>An evaluation that succeeds runs all of them; one that fails stops after the first few.\<close>

definition token_coordination :: "token_memory \<Rightarrow> bool \<Rightarrow> nat option \<Rightarrow> coordination" where
  "token_coordination t produce_logits failed =
     (case failed of
        None \<Rightarrow> \<lparr>cd_products = token_products t produce_logits, cd_terminal = 1\<rparr>
      | Some k \<Rightarrow> \<lparr>cd_products = take k (token_products t produce_logits), cd_terminal = 2\<rparr>)"

section \<open>The status of the protocol\<close>

definition protocol_status :: "worker_job \<Rightarrow> nat" where
  "protocol_status j =
     (if wj_rejection j \<noteq> 0 then wj_rejection j
      else if wj_terminal j = 0 then 10
      else if wj_terminal j = 1 \<and> wj_epoch j \<noteq> wj_expected j \<or>
              wj_terminal j = 2 \<and> wj_epoch j > wj_expected j then 11
      else if br_arrivals (wj_completion j) \<noteq> 0 \<or> br_generation (wj_completion j) \<noteq> wj_epoch j then 12
      else 0)"

text \<open>The same, load by load, as a slot that returns runs it.\<close>

datatype status_pc = LoadRejection | LoadTerminal | LoadEpoch nat | LoadArrivals nat | LoadGeneration nat

fun status_step :: "status_pc \<Rightarrow> worker_job \<Rightarrow> status_pc + nat" where
  "status_step LoadRejection j = (if wj_rejection j \<noteq> 0 then Inr (wj_rejection j) else Inl LoadTerminal)"
| "status_step LoadTerminal j = (if wj_terminal j = 0 then Inr 10 else Inl (LoadEpoch (wj_terminal j)))"
| "status_step (LoadEpoch terminal) j =
     (if terminal = 1 \<and> wj_epoch j \<noteq> wj_expected j \<or> terminal = 2 \<and> wj_epoch j > wj_expected j
      then Inr 11 else Inl (LoadArrivals (wj_epoch j)))"
| "status_step (LoadArrivals epoch) j =
     (if br_arrivals (wj_completion j) \<noteq> 0 then Inr 12 else Inl (LoadGeneration epoch))"
| "status_step (LoadGeneration epoch) j =
     (if br_generation (wj_completion j) \<noteq> epoch then Inr 12 else Inr 0)"

section \<open>The program of a slot\<close>

text \<open>
  The places: the two registrations of \<open>run\<close>; \<open>publish\<close> at the coordinator (the descriptor, the
  cleared row count, the new epoch, its rows, the barrier, the check); the loop of a worker (the
  epoch, the terminal flag, the descriptor, its rows, the barrier), each with the epoch observed; the
  coordinator's terminal flag; the status and the return. The rows carry the product, the number of
  rows of the share, the next row and the end.
\<close>

datatype job_pc =
    RegisterWorkers | RegisterBackend
  | Describe nat | ClearHits nat | Announce nat
  | Poll nat | Ended nat | Fetch nat
  | Rows nat matvec_job nat nat nat
  | Meet nat matvec_job wait_pc
  | Check nat matvec_job
  | Finish
  | Status status_pc
  | Returned nat

definition next_product :: "coordination \<Rightarrow> nat \<Rightarrow> job_pc" where
  "next_product c k = (if k < length (cd_products c) then Describe k else Finish)"

fun job_action ::
  "coordination \<Rightarrow> nat \<Rightarrow> nat \<Rightarrow> nat \<Rightarrow> job_pc \<Rightarrow> worker_job \<Rightarrow> job_pc \<times> worker_job" where
  "job_action c workers backend slot RegisterWorkers j =
     (if workers < 2 \<or> slot \<ge> workers \<or> backend > 1 then (Returned 1, j\<lparr>wj_rejection := 1\<rparr>)
      else if wj_workers j = 0 then (RegisterBackend, j\<lparr>wj_workers := workers\<rparr>)
      else if wj_workers j = workers then (RegisterBackend, j)
      else (Returned 2, j\<lparr>wj_rejection := 2\<rparr>))"
| "job_action c workers backend slot RegisterBackend j =
     (let pc = (if slot = 0 then next_product c 0 else Poll 0)
      in if wj_backend j = NO_BACKEND then (pc, j\<lparr>wj_backend := backend\<rparr>)
         else if wj_backend j = backend then (pc, j)
         else (Returned 3, j\<lparr>wj_rejection := 3\<rparr>))"
| "job_action c workers backend slot (Describe k) j = (ClearHits k, j\<lparr>wj_descriptor := cd_products c ! k\<rparr>)"
| "job_action c workers backend slot (ClearHits k) j = (Announce k, j\<lparr>wj_row_hits := 0\<rparr>)"
| "job_action c workers backend slot (Announce k) j =
     (let d = cd_products c ! k; end_row = mj_rows d div wj_workers j
      in (Rows (wj_epoch j + 1) d end_row 0 end_row, j\<lparr>wj_epoch := wj_epoch j + 1\<rparr>))"
| "job_action c workers backend slot (Poll observed) j =
     (if wj_epoch j \<noteq> observed then Fetch (wj_epoch j) else Ended observed, j)"
| "job_action c workers backend slot (Ended observed) j =
     (if wj_terminal j \<noteq> 0 then Status LoadRejection else Poll observed, j)"
| "job_action c workers backend slot (Fetch epoch) j =
     (let d = wj_descriptor j; first = slot_first (mj_rows d) workers slot;
          end_row = slot_first (mj_rows d) workers (slot + 1)
      in (Rows epoch d (end_row - first) first end_row, j))"
| "job_action c workers backend slot (Rows epoch d n row end_row) j =
     (if row < end_row
      then (Rows epoch d n (row + 1) end_row,
            j\<lparr>wj_rows := wj_rows j @ [(epoch, d, if slot = 0 then wj_backend j else backend, row)]\<rparr>)
      else (Meet epoch d Load, j\<lparr>wj_row_hits := wj_row_hits j + n\<rparr>))"
| "job_action c workers backend slot (Meet epoch d w) j =
     (case barrier_wait (if slot = 0 then wj_workers j else workers) w (wj_completion j) of (w, b) \<Rightarrow>
        (if w = Through then if slot = 0 then Check epoch d else Poll epoch else Meet epoch d w,
         j\<lparr>wj_completion := b\<rparr>))"
| "job_action c workers backend slot (Check epoch d) j =
     (next_product c epoch, if wj_row_hits j \<noteq> mj_rows d then j\<lparr>wj_rejection := 4\<rparr> else j)"
| "job_action c workers backend slot Finish j = (Status LoadRejection, j\<lparr>wj_terminal := cd_terminal c\<rparr>)"
| "job_action c workers backend slot (Status s) j =
     (case status_step s j of Inl s \<Rightarrow> Status s | Inr v \<Rightarrow> Returned v, j)"
| "job_action c workers backend slot (Returned v) j = (Returned v, j)"

section \<open>Interleavings\<close>

record job_system =
  sy_job :: worker_job
  sy_pc :: "nat \<Rightarrow> job_pc"

definition job_start :: "bool \<Rightarrow> job_system" where
  "job_start produce_logits = \<lparr>sy_job = worker_job_new produce_logits, sy_pc = (\<lambda>_. RegisterWorkers)\<rparr>"

definition job_step :: "coordination \<Rightarrow> nat \<Rightarrow> nat \<Rightarrow> nat \<Rightarrow> job_system \<Rightarrow> job_system" where
  "job_step c workers backend slot s =
     (case job_action c workers backend slot (sy_pc s slot) (sy_job s) of
        (pc, j) \<Rightarrow> \<lparr>sy_job = j, sy_pc = (sy_pc s)(slot := pc)\<rparr>)"

definition run_slots :: "coordination \<Rightarrow> nat \<Rightarrow> nat \<Rightarrow> nat list \<Rightarrow> job_system \<Rightarrow> job_system" where
  "run_slots c workers backend slots s = fold (job_step c workers backend) slots s"

section \<open>The invariant\<close>

text \<open>What the coordination promises: its products are as many as the job expects.\<close>

definition coordination_ok :: "coordination \<Rightarrow> bool \<Rightarrow> bool" where
  "coordination_ok c produce_logits \<longleftrightarrow>
     (let expected = (if produce_logits then 169 else 168) in
      cd_terminal c = 1 \<and> length (cd_products c) = expected \<or>
      cd_terminal c = 2 \<and> length (cd_products c) \<le> expected)"

lemma length_token_products: "length (token_products t produce_logits) = (if produce_logits then 169 else 168)"
proof -
  have "length (concat (map (layer_products t) xs)) = 7 * length xs" for xs
    by (induction xs) (simp_all add: layer_products_def)
  then show ?thesis by (simp add: token_products_def LAYERS_def)
qed

lemma token_coordination_ok: "coordination_ok (token_coordination t produce_logits failed) produce_logits"
  by (cases failed) (simp_all add: coordination_ok_def token_coordination_def length_token_products Let_def)

definition product_at :: "coordination \<Rightarrow> nat \<Rightarrow> matvec_job" where
  "product_at c epoch = cd_products c ! (epoch - 1)"

definition share_rows :: "nat \<Rightarrow> matvec_job \<Rightarrow> nat \<Rightarrow> nat list" where
  "share_rows n d slot = [slot_first (mj_rows d) n slot..<slot_first (mj_rows d) n (slot + 1)]"

text \<open>The epoch the coordinator has announced, and where a slot is in the barriers.\<close>

fun coord_epoch :: "coordination \<Rightarrow> job_pc \<Rightarrow> nat" where
  "coord_epoch c RegisterWorkers = 0"
| "coord_epoch c RegisterBackend = 0"
| "coord_epoch c (Describe k) = k"
| "coord_epoch c (ClearHits k) = k"
| "coord_epoch c (Announce k) = k"
| "coord_epoch c (Rows e d m row stop) = e"
| "coord_epoch c (Meet e d w) = e"
| "coord_epoch c (Check e d) = e"
| "coord_epoch c pc = length (cd_products c)"

fun slot_place :: "coordination \<Rightarrow> job_pc \<Rightarrow> place" where
  "slot_place c RegisterWorkers = (0, Load)"
| "slot_place c RegisterBackend = (0, Load)"
| "slot_place c (Describe k) = (k, Load)"
| "slot_place c (ClearHits k) = (k, Load)"
| "slot_place c (Announce k) = (k, Load)"
| "slot_place c (Poll k) = (k, Load)"
| "slot_place c (Ended k) = (k, Load)"
| "slot_place c (Fetch e) = (e - 1, Load)"
| "slot_place c (Rows e d m row stop) = (e - 1, Load)"
| "slot_place c (Meet e d w) = (e - 1, w)"
| "slot_place c (Check e d) = (e, Load)"
| "slot_place c pc = (length (cd_products c), Load)"

text \<open>The rows of a product that a slot has computed, and those it has counted.\<close>

fun computed :: "nat \<Rightarrow> matvec_job \<Rightarrow> nat \<Rightarrow> nat \<Rightarrow> job_pc \<Rightarrow> nat list" where
  "computed n d epoch slot (Rows e d' m row stop) =
     (if e = epoch then [slot_first (mj_rows d) n slot..<row] else [])"
| "computed n d epoch slot (Meet e d' w) = (if e = epoch then share_rows n d slot else [])"
| "computed n d epoch slot (Poll e) = (if e = epoch then share_rows n d slot else [])"
| "computed n d epoch slot (Ended e) = (if e = epoch then share_rows n d slot else [])"
| "computed n d epoch slot (Check e d') = (if e = epoch then share_rows n d slot else [])"
| "computed n d epoch slot pc = []"

fun counted :: "nat \<Rightarrow> matvec_job \<Rightarrow> nat \<Rightarrow> nat \<Rightarrow> job_pc \<Rightarrow> nat" where
  "counted n d epoch slot (Rows e d' m row stop) = 0"
| "counted n d epoch slot pc = length (computed n d epoch slot pc)"

fun in_product :: "job_pc \<Rightarrow> bool" where
  "in_product (Rows e d m row stop) = True"
| "in_product (Meet e d w) = True"
| "in_product (Check e d) = True"
| "in_product pc = False"

fun coord_terminal :: "coordination \<Rightarrow> job_pc \<Rightarrow> nat" where
  "coord_terminal c (Status s) = cd_terminal c"
| "coord_terminal c (Returned v) = cd_terminal c"
| "coord_terminal c pc = 0"

fun status_ok :: "coordination \<Rightarrow> status_pc \<Rightarrow> bool" where
  "status_ok c (LoadEpoch t) \<longleftrightarrow> t = cd_terminal c"
| "status_ok c (LoadArrivals e) \<longleftrightarrow> e = length (cd_products c)"
| "status_ok c (LoadGeneration e) \<longleftrightarrow> e = length (cd_products c)"
| "status_ok c s \<longleftrightarrow> True"

definition rows_ok :: "coordination \<Rightarrow> nat \<Rightarrow> nat \<Rightarrow> nat \<Rightarrow> matvec_job \<Rightarrow> nat \<Rightarrow> nat \<Rightarrow> nat \<Rightarrow> bool" where
  "rows_ok c n slot e d m row stop \<longleftrightarrow> 0 < e \<and> e \<le> length (cd_products c) \<and> d = product_at c e \<and>
     m = length (share_rows n d slot) \<and> stop = slot_first (mj_rows d) n (slot + 1) \<and>
     slot_first (mj_rows d) n slot \<le> row \<and> row \<le> stop"

fun coord_ok :: "coordination \<Rightarrow> nat \<Rightarrow> worker_job \<Rightarrow> job_pc \<Rightarrow> bool" where
  "coord_ok c n j (Describe k) \<longleftrightarrow> k < length (cd_products c)"
| "coord_ok c n j (ClearHits k) \<longleftrightarrow> k < length (cd_products c) \<and> wj_descriptor j = cd_products c ! k"
| "coord_ok c n j (Announce k) \<longleftrightarrow> k < length (cd_products c) \<and> wj_descriptor j = cd_products c ! k \<and> wj_row_hits j = 0"
| "coord_ok c n j (Rows e d m row stop) \<longleftrightarrow> rows_ok c n 0 e d m row stop \<and> wj_descriptor j = d"
| "coord_ok c n j (Meet e d w) \<longleftrightarrow> 0 < e \<and> e \<le> length (cd_products c) \<and> d = product_at c e \<and> wj_descriptor j = d"
| "coord_ok c n j (Check e d) \<longleftrightarrow> 0 < e \<and> e \<le> length (cd_products c) \<and> d = product_at c e \<and> wj_descriptor j = d"
| "coord_ok c n j (Status s) \<longleftrightarrow> status_ok c s"
| "coord_ok c n j (Returned v) \<longleftrightarrow> v = 0"
| "coord_ok c n j (Poll k) \<longleftrightarrow> False"
| "coord_ok c n j (Ended k) \<longleftrightarrow> False"
| "coord_ok c n j (Fetch k) \<longleftrightarrow> False"
| "coord_ok c n j pc \<longleftrightarrow> True"

fun worker_ok :: "coordination \<Rightarrow> nat \<Rightarrow> nat \<Rightarrow> nat \<Rightarrow> nat \<Rightarrow> job_pc \<Rightarrow> bool" where
  "worker_ok c n epoch terminal slot (Fetch e) \<longleftrightarrow> 0 < e \<and> e = epoch"
| "worker_ok c n epoch terminal slot (Rows e d m row stop) \<longleftrightarrow> e = epoch \<and> rows_ok c n slot e d m row stop"
| "worker_ok c n epoch terminal slot (Meet e d w) \<longleftrightarrow> 0 < e \<and> e \<le> epoch \<and> w \<noteq> Through"
| "worker_ok c n epoch terminal slot (Status s) \<longleftrightarrow> terminal \<noteq> 0 \<and> status_ok c s"
| "worker_ok c n epoch terminal slot (Returned v) \<longleftrightarrow> terminal \<noteq> 0 \<and> v = 0"
| "worker_ok c n epoch terminal slot (Describe k) \<longleftrightarrow> False"
| "worker_ok c n epoch terminal slot (ClearHits k) \<longleftrightarrow> False"
| "worker_ok c n epoch terminal slot (Announce k) \<longleftrightarrow> False"
| "worker_ok c n epoch terminal slot (Check e d) \<longleftrightarrow> False"
| "worker_ok c n epoch terminal slot Finish \<longleftrightarrow> False"
| "worker_ok c n epoch terminal slot pc \<longleftrightarrow> True"

definition registered :: "nat \<Rightarrow> nat \<Rightarrow> worker_job \<Rightarrow> job_pc \<Rightarrow> bool" where
  "registered n b j pc \<longleftrightarrow> (pc \<noteq> RegisterWorkers \<longrightarrow> wj_workers j = n) \<and>
     (pc \<noteq> RegisterWorkers \<and> pc \<noteq> RegisterBackend \<longrightarrow> wj_backend j = b)"

lemma registered_update [simp]:
  "registered n b (j\<lparr>wj_rows := rs\<rparr>) pc = registered n b j pc"
  "registered n b (j\<lparr>wj_row_hits := m\<rparr>) pc = registered n b j pc"
  "registered n b (j\<lparr>wj_completion := v\<rparr>) pc = registered n b j pc"
  "registered n b (j\<lparr>wj_epoch := m\<rparr>) pc = registered n b j pc"
  "registered n b (j\<lparr>wj_descriptor := d\<rparr>) pc = registered n b j pc"
  "registered n b (j\<lparr>wj_terminal := m\<rparr>) pc = registered n b j pc"
  by (simp_all add: registered_def)

text \<open>All rows of a product, and the rows computed so far as a multiset.\<close>

definition tagged :: "coordination \<Rightarrow> nat \<Rightarrow> nat \<Rightarrow> nat list \<Rightarrow> row_product multiset" where
  "tagged c b epoch rs = image_mset (\<lambda>row. (epoch, product_at c epoch, b, row)) (mset rs)"

definition all_rows :: "coordination \<Rightarrow> nat \<Rightarrow> nat \<Rightarrow> row_product multiset" where
  "all_rows c b epoch = tagged c b epoch [0..<mj_rows (product_at c epoch)]"

definition rows_inv :: "coordination \<Rightarrow> nat \<Rightarrow> nat \<Rightarrow> job_system \<Rightarrow> bool" where
  "rows_inv c n b s \<longleftrightarrow>
     (let j = sy_job s; epoch = wj_epoch j; d = product_at c epoch in
      sorted (map fst (wj_rows j)) \<and> (\<forall>x\<in>set (wj_rows j). fst x \<le> epoch) \<and>
      (if in_product (sy_pc s 0)
       then mset (wj_rows j) = (\<Sum>e<epoch - 1. all_rows c b (Suc e)) +
              (\<Sum>p<n. tagged c b epoch (computed n d epoch p (sy_pc s p))) \<and>
            wj_row_hits j = (\<Sum>p<n. counted n d epoch p (sy_pc s p))
       else mset (wj_rows j) = (\<Sum>e<epoch. all_rows c b (Suc e))))"

definition job_inv :: "coordination \<Rightarrow> bool \<Rightarrow> nat \<Rightarrow> nat \<Rightarrow> job_system \<Rightarrow> bool" where
  "job_inv c produce_logits n b s \<longleftrightarrow>
     (let j = sy_job s; pc = sy_pc s in
      wj_workers j \<in> {0, n} \<and> wj_backend j \<in> {NO_BACKEND, b} \<and> (\<forall>p<n. registered n b j (pc p)) \<and>
      coord_ok c n j (pc 0) \<and> wj_epoch j = coord_epoch c (pc 0) \<and>
      (\<forall>p<n. p \<noteq> 0 \<longrightarrow> worker_ok c n (wj_epoch j) (wj_terminal j) p (pc p)) \<and>
      barrier_inv n (\<lambda>p. slot_place c (pc p)) (wj_completion j) \<and>
      wj_terminal j = coord_terminal c (pc 0) \<and> wj_rejection j = 0 \<and>
      wj_expected j = (if produce_logits then 169 else 168) \<and> rows_inv c n b s)"

lemma job_inv_start: "2 \<le> n \<Longrightarrow> job_inv c produce_logits n b (job_start produce_logits)"
  by (simp add: job_inv_def job_start_def worker_job_new_def registered_def rows_inv_def barrier_inv_start)

section \<open>Shares\<close>

lemma share_bounds: "slot_first rows n slot \<le> slot_first rows n (slot + 1)"
  using slot_first_mono [of rows n slot] by simp

lemma mset_upt_split: "a \<le> b \<Longrightarrow> b \<le> c \<Longrightarrow> mset [a..<c] = mset [a..<b] + mset [b..<(c::nat)]"
  using upt_add_eq_append [of a b "c - b"] by (metis le_add_diff_inverse mset_append)

lemma shares_cover:
  assumes "0 < n"
  shows "(\<Sum>p<n. mset (share_rows n d p)) = mset [0..<mj_rows d]" "(\<Sum>p<n. length (share_rows n d p)) = mj_rows d"
proof -
  have up: "(\<Sum>p<k. mset (share_rows n d p)) = mset [0..<slot_first (mj_rows d) n k]" for k
  proof (induction k)
    case (Suc k)
    then show ?case
      using mset_upt_split [of 0 "slot_first (mj_rows d) n k" "slot_first (mj_rows d) n (Suc k)"] slot_first_mono
      by (simp add: share_rows_def)
  qed (simp add: slot_first_ends)
  show *: "(\<Sum>p<n. mset (share_rows n d p)) = mset [0..<mj_rows d]"
    using up [of n] slot_first_ends(2) [OF assms] by simp
  have "(\<Sum>p<n. length (share_rows n d p)) = size (\<Sum>p<n. mset (share_rows n d p))"
    by (simp add: size_multiset_sum)
  then show "(\<Sum>p<n. length (share_rows n d p)) = mj_rows d" unfolding * by simp
qed

lemma image_mset_sum_less: "image_mset h (\<Sum>p<(n::nat). f p) = (\<Sum>p<n. image_mset h (f p))"
  by (induction n) simp_all

lemma sum_moved:
  fixes f :: "nat \<Rightarrow> job_pc \<Rightarrow> 'a::comm_monoid_add"
  assumes "p < n" "f p x = f p (pc p) + a"
  shows "(\<Sum>q<n. f q ((pc(p := x)) q)) = (\<Sum>q<n. f q (pc q)) + a"
proof -
  have "(\<Sum>q<n. f q ((pc(p := x)) q)) = f p x + (\<Sum>q\<in>{..<n} - {p}. f q (pc q))"
    using assms(1) by (subst sum.remove [of _ p]) (auto intro!: sum.cong arg_cong2 [where f = "(+)"])
  also have "\<dots> = (f p (pc p) + (\<Sum>q\<in>{..<n} - {p}. f q (pc q))) + a" using assms(2) by (simp add: ac_simps)
  also have "f p (pc p) + (\<Sum>q\<in>{..<n} - {p}. f q (pc q)) = (\<Sum>q<n. f q (pc q))"
    using assms(1) by (subst sum.remove [of "{..<n}" p]) auto
  finally show ?thesis .
qed

section \<open>Where the slots are\<close>

lemma job_inv_coord:
  assumes "job_inv c x n b s" "2 \<le> n"
  shows "coord_ok c n (sy_job s) (sy_pc s 0)" "wj_epoch (sy_job s) = coord_epoch c (sy_pc s 0)"
    "wj_terminal (sy_job s) = coord_terminal c (sy_pc s 0)" "wj_rejection (sy_job s) = 0"
    "wj_expected (sy_job s) = (if x then 169 else 168)"
    "place_ok (br_generation (wj_completion (sy_job s))) (slot_place c (sy_pc s 0))"
  using assms barrier_inv_place [of n "\<lambda>p. slot_place c (sy_pc s p)" "wj_completion (sy_job s)" 0]
  by (simp_all add: job_inv_def Let_def)

lemma job_inv_slot:
  assumes "job_inv c x n b s" "p < n"
  shows "registered n b (sy_job s) (sy_pc s p)"
    "place_ok (br_generation (wj_completion (sy_job s))) (slot_place c (sy_pc s p))"
    "0 < p \<Longrightarrow> worker_ok c n (wj_epoch (sy_job s)) (wj_terminal (sy_job s)) p (sy_pc s p)"
  using assms barrier_inv_place [of n "\<lambda>p. slot_place c (sy_pc s p)" "wj_completion (sy_job s)" p]
  by (auto simp: job_inv_def Let_def)

text \<open>The announced epoch is at most one ahead of the barrier, and then there is a product.\<close>

lemma place_ok_Load: "place_ok g (k, Load) \<longleftrightarrow> k = g"
  by (auto simp: place_ok_def here_def)

lemma place_ok_round: "place_ok g (k, w) \<Longrightarrow> k = g \<or> Suc k = g \<and> w = Spin k"
  by (auto simp: place_ok_def here_def)

lemma epoch_generation:
  assumes inv: "job_inv c x n b s" "2 \<le> n"
  shows "wj_epoch (sy_job s) = br_generation (wj_completion (sy_job s)) \<or>
    wj_epoch (sy_job s) = Suc (br_generation (wj_completion (sy_job s))) \<and> in_product (sy_pc s 0) \<and>
      wj_epoch (sy_job s) \<le> length (cd_products c) \<and>
      wj_descriptor (sy_job s) = product_at c (wj_epoch (sy_job s))"
  using job_inv_coord [OF inv] place_ok_round
  by (cases "sy_pc s 0") (auto simp: place_ok_Load rows_ok_def dest!: place_ok_round)

lemma coord_outside:
  assumes inv: "job_inv c x n b s" "2 \<le> n" and out: "\<not> in_product (sy_pc s 0)"
  shows "br_generation (wj_completion (sy_job s)) = wj_epoch (sy_job s)"
  using epoch_generation [OF inv] out by auto

text \<open>A finished coordinator: every other slot has passed all barriers.\<close>

lemma terminal_facts:
  assumes inv: "job_inv c x n b s" "2 \<le> n" and "wj_terminal (sy_job s) \<noteq> 0"
  shows "wj_epoch (sy_job s) = length (cd_products c)"
    "br_generation (wj_completion (sy_job s)) = length (cd_products c)"
    "br_arrivals (wj_completion (sy_job s)) = 0" "wj_terminal (sy_job s) = cd_terminal c" "\<not> in_product (sy_pc s 0)"
proof -
  note coord = job_inv_coord [OF inv]
  let ?b = "wj_completion (sy_job s)"
  show out: "\<not> in_product (sy_pc s 0)" and epoch: "wj_epoch (sy_job s) = length (cd_products c)"
    and "wj_terminal (sy_job s) = cd_terminal c"
    using coord assms(3) by (cases "sy_pc s 0"; simp)+
  show gen: "br_generation ?b = length (cd_products c)" using coord_outside [OF inv out] epoch by simp
  have place: "slot_place c (sy_pc s 0) = (br_generation ?b, Load)"
    using coord assms(3) gen by (cases "sy_pc s 0") simp_all
  have none: "\<not> here (br_generation ?b) (slot_place c (sy_pc s p))" if "p < n" for p
  proof (cases "p = 0")
    case True
    then show ?thesis using place by simp
  next
    case False
    then show ?thesis
      using job_inv_slot(3) [OF inv(1) that] epoch gen
      by (cases "sy_pc s p") (auto simp: here_def)
  qed
  have "barrier_inv n (\<lambda>p. slot_place c (sy_pc s p)) ?b" using inv(1) by (simp add: job_inv_def Let_def)
  from barrier_inv_alone(2) [OF this, of 0] none inv(2)
  have "br_arrivals ?b = card {p. p < n \<and> here (br_generation ?b) (slot_place c (sy_pc s p))}" by simp
  also have "{p. p < n \<and> here (br_generation ?b) (slot_place c (sy_pc s p))} = {}" using none by blast
  finally show "br_arrivals ?b = 0" by simp
qed

lemma status_zero:
  assumes inv: "job_inv c x n b s" "2 \<le> n" and c: "coordination_ok c x" and t: "wj_terminal (sy_job s) \<noteq> 0"
    and st: "status_ok c st"
  shows "case status_step st (sy_job s) of Inl st \<Rightarrow> status_ok c st | Inr v \<Rightarrow> v = 0" "protocol_status (sy_job s) = 0"
proof -
  note facts = terminal_facts [OF inv t] job_inv_coord(4,5) [OF inv]
  show "case status_step st (sy_job s) of Inl st \<Rightarrow> status_ok c st | Inr v \<Rightarrow> v = 0"
    using facts st t c by (cases st) (auto simp: coordination_ok_def Let_def)
  show "protocol_status (sy_job s) = 0"
    using facts t c by (auto simp: protocol_status_def coordination_ok_def Let_def)
qed

section \<open>Steps of a worker\<close>

lemma job_inv_worker:
  assumes inv: "job_inv c x n b s" and p: "0 < p" "p < n"
    and same: "wj_epoch j = wj_epoch (sy_job s)" "wj_terminal j = wj_terminal (sy_job s)"
      "wj_rejection j = wj_rejection (sy_job s)" "wj_expected j = wj_expected (sy_job s)"
      "wj_descriptor j = wj_descriptor (sy_job s)"
    and reg: "wj_workers j \<in> {wj_workers (sy_job s), n}" "wj_backend j \<in> {wj_backend (sy_job s), b}"
      "registered n b j pc"
    and ok: "worker_ok c n (wj_epoch (sy_job s)) (wj_terminal (sy_job s)) p pc"
    and place: "barrier_inv n ((\<lambda>q. slot_place c (sy_pc s q))(p := slot_place c pc)) (wj_completion j)"
    and rows: "wj_rows j = wj_rows (sy_job s) @ new" "\<forall>y\<in>set new. fst y = wj_epoch (sy_job s)"
    and sums: "if in_product (sy_pc s 0)
      then tagged c b (wj_epoch (sy_job s)) (computed n (product_at c (wj_epoch (sy_job s))) (wj_epoch (sy_job s)) p pc) =
          tagged c b (wj_epoch (sy_job s))
            (computed n (product_at c (wj_epoch (sy_job s))) (wj_epoch (sy_job s)) p (sy_pc s p)) + mset new \<and>
        counted n (product_at c (wj_epoch (sy_job s))) (wj_epoch (sy_job s)) p pc =
          counted n (product_at c (wj_epoch (sy_job s))) (wj_epoch (sy_job s)) p (sy_pc s p) + h \<and>
        wj_row_hits j = wj_row_hits (sy_job s) + h
      else new = [] \<and> wj_row_hits j = wj_row_hits (sy_job s)"
  shows "job_inv c x n b \<lparr>sy_job = j, sy_pc = (sy_pc s)(p := pc)\<rparr>"
proof -
  let ?j = "sy_job s" let ?e = "wj_epoch (sy_job s)" let ?d = "product_at c ?e"
  note base = inv [unfolded job_inv_def Let_def]
  have old_rows: "rows_inv c n b s" using base by blast
  have registered: "registered n b j (((sy_pc s)(p := pc)) q)" if "q < n" for q
    using base reg that by (cases "q = p") (auto simp: registered_def)
  have coord_ok: "coord_ok c n j (sy_pc s 0)"
    using base same sums by (cases "sy_pc s 0") auto
  have "(\<lambda>q. slot_place c (sy_pc s q))(p := slot_place c pc) = (\<lambda>q. slot_place c (if q = p then pc else sy_pc s q))"
    by auto
  then have place': "barrier_inv n (\<lambda>q. slot_place c (if q = p then pc else sy_pc s q)) (wj_completion j)"
    using place by simp
  have sorted: "sorted (map fst (wj_rows j))" "\<forall>y\<in>set (wj_rows j). fst y \<le> ?e"
  proof -
    have old: "sorted (map fst (wj_rows ?j))" "\<forall>y\<in>set (wj_rows ?j). fst y \<le> ?e"
      using base unfolding rows_inv_def Let_def by blast+
    have "map fst new = replicate (length new) ?e" using rows(2) by (induction new) auto
    then show "sorted (map fst (wj_rows j))" "\<forall>y\<in>set (wj_rows j). fst y \<le> ?e"
      using old rows by (auto simp: sorted_append)
  qed
  have "rows_inv c n b \<lparr>sy_job = j, sy_pc = (sy_pc s)(p := pc)\<rparr>"
  proof (cases "in_product (sy_pc s 0)")
    case True
    have "tagged c b ?e (computed n ?d ?e p pc) = tagged c b ?e (computed n ?d ?e p (sy_pc s p)) + mset new"
      using sums True by simp
    note moved = sum_moved [where f = "\<lambda>q x. tagged c b ?e (computed n ?d ?e q x)" and pc = "sy_pc s" and x = pc
      and a = "mset new", OF p(2) this]
    have "counted n ?d ?e p pc = counted n ?d ?e p (sy_pc s p) + h" using sums True by simp
    note moved' = sum_moved [where f = "\<lambda>q x. counted n ?d ?e q x" and pc = "sy_pc s" and x = pc and a = h,
      OF p(2) this]
    show ?thesis
      using old_rows sums True rows(1) sorted same moved moved' p
      by (simp add: rows_inv_def Let_def add.assoc)
  next
    case False
    then show ?thesis using old_rows sums rows sorted same p by (simp add: rows_inv_def Let_def)
  qed
  then show ?thesis
    using base same reg p ok place' registered coord_ok
    unfolding job_inv_def Let_def by auto
qed

text \<open>A step that leaves the barrier and computes and counts nothing.\<close>

lemma job_inv_quiet:
  assumes inv: "job_inv c x n b s" and p: "0 < p" "p < n"
    and j: "j = (sy_job s)\<lparr>wj_workers := w, wj_backend := v\<rparr>"
      "w \<in> {wj_workers (sy_job s), n}" "v \<in> {wj_backend (sy_job s), b}" "registered n b j pc"
    and ok: "worker_ok c n (wj_epoch (sy_job s)) (wj_terminal (sy_job s)) p pc"
    and place: "slot_place c pc = slot_place c (sy_pc s p)"
    and same: "if in_product (sy_pc s 0)
      then computed n (product_at c (wj_epoch (sy_job s))) (wj_epoch (sy_job s)) p pc =
          computed n (product_at c (wj_epoch (sy_job s))) (wj_epoch (sy_job s)) p (sy_pc s p) \<and>
        counted n (product_at c (wj_epoch (sy_job s))) (wj_epoch (sy_job s)) p pc =
          counted n (product_at c (wj_epoch (sy_job s))) (wj_epoch (sy_job s)) p (sy_pc s p)
      else True"
  shows "job_inv c x n b \<lparr>sy_job = j, sy_pc = (sy_pc s)(p := pc)\<rparr>"
proof (rule job_inv_worker [OF inv p, where new = "[]" and h = 0])
  have "(\<lambda>q. slot_place c (sy_pc s q))(p := slot_place c pc) = (\<lambda>q. slot_place c (sy_pc s q))"
    using place by auto
  then show "barrier_inv n ((\<lambda>q. slot_place c (sy_pc s q))(p := slot_place c pc)) (wj_completion j)"
    using inv by (simp add: job_inv_def Let_def j(1))
qed (use j ok same in \<open>auto split: if_splits\<close>)

lemma worker_step_inv:
  assumes inv: "job_inv c x n b s" and n: "2 \<le> n" and b: "b \<le> 1" and c: "coordination_ok c x"
    and p: "0 < p" "p < n"
  shows "job_inv c x n b (job_step c n b p s)"
proof -
  let ?j = "sy_job s" let ?e = "wj_epoch (sy_job s)" let ?g = "br_generation (wj_completion (sy_job s))"
  note slot = job_inv_slot(1,2) [OF inv p(2)] job_inv_slot(3) [OF inv p(2,1)]
  note epoch = epoch_generation [OF inv n]
  have reg: "wj_workers ?j \<in> {0, n}" "wj_backend ?j \<in> {NO_BACKEND, b}" "b \<noteq> NO_BACKEND"
    using inv b by (auto simp: job_inv_def Let_def NO_BACKEND_def u32_limit_def)
  have over: "wj_terminal ?j \<noteq> 0 \<Longrightarrow> \<not> in_product (sy_pc s 0) \<and> ?e = length (cd_products c) \<and> ?g = length (cd_products c)"
    using terminal_facts [OF inv n] by blast
  have positive: "in_product (sy_pc s 0) \<Longrightarrow> 0 < ?e"
    using job_inv_coord(1,2) [OF inv n] by (cases "sy_pc s 0") (auto simp: rows_ok_def)
  note quiet = job_inv_quiet [OF inv p, where j = "?j\<lparr>wj_workers := wj_workers ?j, wj_backend := wj_backend ?j\<rparr>"
    and w = "wj_workers ?j" and v = "wj_backend ?j", simplified]
  have registered: "registered n b ?j pc" if "sy_pc s p \<noteq> RegisterWorkers" "sy_pc s p \<noteq> RegisterBackend" for pc
    using slot(1) that by (simp add: registered_def)
  show ?thesis
  proof (cases "sy_pc s p")
    case RegisterWorkers
    have "job_step c n b p s =
        \<lparr>sy_job = ?j\<lparr>wj_workers := n, wj_backend := wj_backend ?j\<rparr>, sy_pc = (sy_pc s)(p := RegisterBackend)\<rparr>"
      using RegisterWorkers n b p reg(1) by (auto simp: job_step_def)
    then show ?thesis
      using RegisterWorkers job_inv_quiet [OF inv p refl, of n "wj_backend ?j" RegisterBackend]
      by (simp add: registered_def)
  next
    case RegisterBackend
    have workers: "wj_workers ?j = n" using slot(1) RegisterBackend by (simp add: registered_def)
    have "job_step c n b p s =
        \<lparr>sy_job = ?j\<lparr>wj_workers := wj_workers ?j, wj_backend := b\<rparr>, sy_pc = (sy_pc s)(p := Poll 0)\<rparr>"
      using RegisterBackend p reg(2,3) by (auto simp: job_step_def)
    then show ?thesis
      using RegisterBackend workers positive job_inv_quiet [OF inv p refl, of "wj_workers ?j" b "Poll 0"]
      by (cases "in_product (sy_pc s 0)") (simp_all add: registered_def)
  next
    case (Poll k)
    then have "k = ?g" using slot(2) by (simp add: place_ok_Load)
    then show ?thesis
      using Poll registered epoch quiet [of "Fetch ?e"] quiet [of "Ended k"]
      by (auto simp: job_step_def split: if_splits)
  next
    case (Ended k)
    then have k: "k = ?g" using slot(2) by (simp add: place_ok_Load)
    show ?thesis
      using Ended registered k over quiet [of "Status LoadRejection"] quiet [of "Poll k"]
      by (auto simp: job_step_def split: if_splits)
  next
    case (Fetch e)
    then have e: "e = ?e" "0 < e" using slot(3) by simp_all
    have "e - 1 = ?g" using slot(2) Fetch by (simp add: place_ok_Load)
    then have product: "in_product (sy_pc s 0)" "?e \<le> length (cd_products c)" "wj_descriptor ?j = product_at c ?e"
      using epoch e by auto
    then show ?thesis
      using Fetch registered e share_bounds
        quiet [of "Rows e (wj_descriptor ?j) (slot_first (mj_rows (wj_descriptor ?j)) n (p + 1) -
          slot_first (mj_rows (wj_descriptor ?j)) n p) (slot_first (mj_rows (wj_descriptor ?j)) n p)
          (slot_first (mj_rows (wj_descriptor ?j)) n (p + 1))"]
      by (simp add: job_step_def Let_def rows_ok_def share_rows_def)
  next
    case (Rows e d m row stop)
    then have e: "e = ?e" "0 < e" and ok: "rows_ok c n p e d m row stop" using slot(3) by (auto simp: rows_ok_def)
    have "e - 1 = ?g" using slot(2) Rows by (simp add: place_ok_Load)
    then have product: "in_product (sy_pc s 0)" using epoch e by auto
    have d: "d = product_at c ?e" using ok e by (simp add: rows_ok_def)
    have places: "(\<lambda>q. slot_place c (sy_pc s q))(p := (e - 1, Load)) = (\<lambda>q. slot_place c (sy_pc s q))"
      using Rows by auto
    have barrier: "barrier_inv n (\<lambda>q. slot_place c (sy_pc s q)) (wj_completion ?j)"
      using inv by (simp add: job_inv_def Let_def)
    show ?thesis
    proof (cases "row < stop")
      case True
      let ?new = "[(e, d, b, row)]"
      have "job_step c n b p s = \<lparr>sy_job = ?j\<lparr>wj_rows := wj_rows ?j @ ?new\<rparr>,
          sy_pc = (sy_pc s)(p := Rows e d m (row + 1) stop)\<rparr>"
        using Rows True p by (simp add: job_step_def)
      then show ?thesis
        using product registered Rows ok e d True places barrier
        by (auto intro!: job_inv_worker [OF inv p, where new = ?new and h = 0]
          simp: rows_ok_def tagged_def)
    next
      case False
      then have stop: "row = stop" using ok by (simp add: rows_ok_def)
      have "job_step c n b p s = \<lparr>sy_job = ?j\<lparr>wj_row_hits := wj_row_hits ?j + m\<rparr>,
          sy_pc = (sy_pc s)(p := Meet e d Load)\<rparr>"
        using Rows False by (simp add: job_step_def)
      then show ?thesis
        using product registered Rows ok e d stop places barrier
        by (auto intro!: job_inv_worker [OF inv p, where new = "[]" and h = m]
          simp: rows_ok_def tagged_def share_rows_def)
    qed
  next
    case (Meet e d w)
    then have e: "0 < e" "e \<le> ?e" using slot(3) by simp_all
    obtain w' b' where run: "barrier_wait n w (wj_completion ?j) = (w', b')" by fastforce
    let ?pc = "if w' = Through then Poll e else Meet e d w'"
    have "barrier_inv n (\<lambda>q. slot_place c (sy_pc s q)) (wj_completion ?j)"
      using inv by (simp add: job_inv_def Let_def)
    from barrier_inv_wait [OF this p(2) _ run, of "e - 1"]
    have barrier: "barrier_inv n ((\<lambda>q. slot_place c (sy_pc s q))(p := after_wait (e - 1) w')) b'"
      using Meet by simp
    have place: "slot_place c ?pc = after_wait (e - 1) w'" using e by (cases w') simp_all
    have "job_step c n b p s = \<lparr>sy_job = ?j\<lparr>wj_completion := b'\<rparr>, sy_pc = (sy_pc s)(p := ?pc)\<rparr>"
      using Meet run p by (simp add: job_step_def)
    then show ?thesis
      using registered Meet e barrier place
      by (auto intro!: job_inv_worker [OF inv p, where new = "[]" and h = 0])
  next
    case (Status st)
    then have st: "wj_terminal ?j \<noteq> 0" "status_ok c st" using slot(3) by simp_all
    show ?thesis
      using Status registered st status_zero(1) [OF inv n c st] quiet [of "Returned 0"] over
      by (auto simp: job_step_def split: sum.splits intro!: quiet)
  next
    case (Returned v)
    then have "job_step c n b p s = s" by (simp add: job_step_def fun_upd_idem)
    then show ?thesis using inv by simp
  qed (use slot(3) in simp_all)
qed

section \<open>Steps of the coordinator\<close>

lemma job_inv_coordinator:
  assumes inv: "job_inv c x n b s"
    and same: "wj_rejection j = 0" "wj_expected j = wj_expected (sy_job s)"
    and reg: "wj_workers j \<in> {wj_workers (sy_job s), n}" "wj_backend j \<in> {wj_backend (sy_job s), b}"
      "registered n b j pc"
    and ok: "coord_ok c n j pc" "wj_epoch j = coord_epoch c pc" "wj_terminal j = coord_terminal c pc"
    and workers: "\<And>p. 0 < p \<Longrightarrow> p < n \<Longrightarrow> worker_ok c n (wj_epoch j) (wj_terminal j) p (sy_pc s p)"
    and place: "barrier_inv n ((\<lambda>q. slot_place c (sy_pc s q))(0 := slot_place c pc)) (wj_completion j)"
    and rows: "rows_inv c n b \<lparr>sy_job = j, sy_pc = (sy_pc s)(0 := pc)\<rparr>"
  shows "job_inv c x n b \<lparr>sy_job = j, sy_pc = (sy_pc s)(0 := pc)\<rparr>"
proof -
  note base = inv [unfolded job_inv_def Let_def]
  have registered: "registered n b j (if q = 0 then pc else sy_pc s q)" if "q < n" for q
    using base reg that by (cases "q = 0") (auto simp: registered_def)
  have "(\<lambda>q. slot_place c (sy_pc s q))(0 := slot_place c pc) = (\<lambda>q. slot_place c (if q = 0 then pc else sy_pc s q))"
    by auto
  then have place': "barrier_inv n (\<lambda>q. slot_place c (if q = 0 then pc else sy_pc s q)) (wj_completion j)"
    using place by simp
  show ?thesis
    using base same reg ok workers place' registered rows
    unfolding job_inv_def Let_def by auto
qed

lemma rows_inv_coordinator:
  assumes old: "rows_inv c n b s" and n: "2 \<le> n"
    and same: "wj_epoch j = wj_epoch (sy_job s)" "in_product pc = in_product (sy_pc s 0)"
    and rows: "wj_rows j = wj_rows (sy_job s) @ new" "\<forall>y\<in>set new. fst y = wj_epoch (sy_job s)"
    and sums: "if in_product (sy_pc s 0)
      then tagged c b (wj_epoch (sy_job s)) (computed n (product_at c (wj_epoch (sy_job s))) (wj_epoch (sy_job s)) 0 pc) =
          tagged c b (wj_epoch (sy_job s))
            (computed n (product_at c (wj_epoch (sy_job s))) (wj_epoch (sy_job s)) 0 (sy_pc s 0)) + mset new \<and>
        counted n (product_at c (wj_epoch (sy_job s))) (wj_epoch (sy_job s)) 0 pc =
          counted n (product_at c (wj_epoch (sy_job s))) (wj_epoch (sy_job s)) 0 (sy_pc s 0) + h \<and>
        wj_row_hits j = wj_row_hits (sy_job s) + h
      else new = []"
  shows "rows_inv c n b \<lparr>sy_job = j, sy_pc = (sy_pc s)(0 := pc)\<rparr>"
proof -
  let ?e = "wj_epoch (sy_job s)" let ?d = "product_at c ?e"
  have zero: "0 < n" using n by simp
  have before: "sorted (map fst (wj_rows (sy_job s)))" "\<forall>y\<in>set (wj_rows (sy_job s)). fst y \<le> ?e"
    using old unfolding rows_inv_def Let_def by blast+
  have "map fst new = replicate (length new) ?e" using rows(2) by (induction new) auto
  then have sorted: "sorted (map fst (wj_rows j))" "\<forall>y\<in>set (wj_rows j). fst y \<le> ?e"
    using before rows by (auto simp: sorted_append)
  show ?thesis
  proof (cases "in_product (sy_pc s 0)")
    case True
    have "tagged c b ?e (computed n ?d ?e 0 pc) = tagged c b ?e (computed n ?d ?e 0 (sy_pc s 0)) + mset new"
      using sums True by simp
    note moved = sum_moved [where f = "\<lambda>q x. tagged c b ?e (computed n ?d ?e q x)" and pc = "sy_pc s" and x = pc
      and a = "mset new", OF zero this]
    have "counted n ?d ?e 0 pc = counted n ?d ?e 0 (sy_pc s 0) + h" using sums True by simp
    note moved' = sum_moved [where f = "\<lambda>q x. counted n ?d ?e q x" and pc = "sy_pc s" and x = pc and a = h,
      OF zero this]
    show ?thesis
      using old sums True rows(1) sorted same moved moved' by (simp add: rows_inv_def Let_def add.assoc)
  next
    case False
    then show ?thesis using old sums rows sorted same by (simp add: rows_inv_def Let_def)
  qed
qed

text \<open>When all slots stand behind a barrier, the product before it is complete.\<close>

lemma product_complete:
  assumes inv: "job_inv c x n b s" and n: "2 \<le> n" and at: "sy_pc s 0 = Check e d"
  shows "wj_row_hits (sy_job s) = mj_rows d" "mset (wj_rows (sy_job s)) = (\<Sum>k<e. all_rows c b (Suc k))"
proof -
  let ?j = "sy_job s"
  note coord = job_inv_coord [OF inv n, unfolded at]
  have e: "0 < e" "d = product_at c e" "wj_epoch ?j = e" "br_generation (wj_completion ?j) = e"
    "wj_terminal ?j = 0" using coord by (auto simp: place_ok_Load)
  have full: "computed n d e p (sy_pc s p) = share_rows n d p \<and> counted n d e p (sy_pc s p) = length (share_rows n d p)"
    if "p < n" for p
  proof (cases "p = 0")
    case False
    note slot = job_inv_slot [OF inv that]
    show ?thesis
    proof (cases "sy_pc s p")
      case (Meet e' d' w)
      then have "0 < e'" "e' \<le> e" "place_ok e (e' - 1, w)" using slot(2,3) False e by auto
      then have "e' = e" by (auto dest!: place_ok_round)
      then show ?thesis using Meet by simp
    qed (use slot False e in \<open>auto simp: place_ok_Load rows_ok_def\<close>)
  qed (use at in simp)
  have rows: "mset (wj_rows ?j) = (\<Sum>k<e - 1. all_rows c b (Suc k)) + (\<Sum>p<n. tagged c b e (computed n d e p (sy_pc s p)))"
    and hits: "wj_row_hits ?j = (\<Sum>p<n. counted n d e p (sy_pc s p))"
    using inv e at by (simp_all add: job_inv_def rows_inv_def Let_def)
  have n0: "0 < n" using n by simp
  have "(\<Sum>p<n. tagged c b e (computed n d e p (sy_pc s p))) = (\<Sum>p<n. tagged c b e (share_rows n d p))"
    by (rule sum.cong) (simp_all add: full)
  also have "\<dots> = image_mset (\<lambda>row. (e, product_at c e, b, row)) (\<Sum>p<n. mset (share_rows n d p))"
    by (simp add: tagged_def image_mset_sum_less)
  finally have "(\<Sum>p<n. tagged c b e (computed n d e p (sy_pc s p))) = all_rows c b e"
    using shares_cover(1) [OF n0, of d] e(2) by (simp add: all_rows_def tagged_def)
  moreover have "(\<Sum>k<e. all_rows c b (Suc k)) = (\<Sum>k<e - 1. all_rows c b (Suc k)) + all_rows c b e"
    using e(1) by (cases e) simp_all
  ultimately show "mset (wj_rows ?j) = (\<Sum>k<e. all_rows c b (Suc k))" using rows by simp
  have "wj_row_hits ?j = (\<Sum>p<n. length (share_rows n d p))"
    unfolding hits by (rule sum.cong) (simp_all add: full)
  then show "wj_row_hits ?j = mj_rows d" using shares_cover(2) [OF n0] by simp
qed

lemma coordinator_step_inv:
  assumes inv: "job_inv c x n b s" and n: "2 \<le> n" and b: "b \<le> 1" and c: "coordination_ok c x"
  shows "job_inv c x n b (job_step c n b 0 s)"
proof -
  let ?j = "sy_job s" let ?e = "wj_epoch (sy_job s)" let ?g = "br_generation (wj_completion (sy_job s))"
  note coord = job_inv_coord [OF inv n]
  have n0: "0 < n" using n by simp
  have reg: "wj_workers ?j \<in> {0, n}" "wj_backend ?j \<in> {NO_BACKEND, b}" "b \<noteq> NO_BACKEND"
    using inv b by (auto simp: job_inv_def Let_def NO_BACKEND_def u32_limit_def)
  have slot: "registered n b ?j (sy_pc s 0)" by (rule job_inv_slot(1) [OF inv n0])
  have registered: "registered n b ?j pc" if "sy_pc s 0 \<noteq> RegisterWorkers" "sy_pc s 0 \<noteq> RegisterBackend" for pc
    using slot that by (simp add: registered_def)
  have rows: "rows_inv c n b s" and barrier: "barrier_inv n (\<lambda>q. slot_place c (sy_pc s q)) (wj_completion ?j)"
    using inv by (simp_all add: job_inv_def Let_def)
  have workers: "worker_ok c n ?e (wj_terminal ?j) p (sy_pc s p)" if "0 < p" "p < n" for p
    by (rule job_inv_slot(3) [OF inv that(2,1)])
  have stay: "barrier_inv n ((\<lambda>q. slot_place c (sy_pc s q))(0 := x)) (wj_completion ?j)"
    if "x = slot_place c (sy_pc s 0)" for x
  proof -
    have "(\<lambda>q. slot_place c (sy_pc s q))(0 := x) = (\<lambda>q. slot_place c (sy_pc s q))" using that by auto
    then show ?thesis using barrier by simp
  qed
  note go = job_inv_coordinator [OF inv]
  note same_rows = rows_inv_coordinator [OF rows n, where new = "[]" and h = 0]
  show ?thesis
  proof (cases "sy_pc s 0")
    case RegisterWorkers
    have "job_step c n b 0 s = \<lparr>sy_job = ?j\<lparr>wj_workers := n\<rparr>, sy_pc = (sy_pc s)(0 := RegisterBackend)\<rparr>"
      using RegisterWorkers n b reg(1) by (auto simp: job_step_def)
    then show ?thesis
      using RegisterWorkers coord workers
      by (auto intro!: go same_rows stay simp: registered_def)
  next
    case RegisterBackend
    have registered: "registered n b (?j\<lparr>wj_backend := b\<rparr>) pc" for pc
      using slot RegisterBackend by (simp add: registered_def)
    have "job_step c n b 0 s = \<lparr>sy_job = ?j\<lparr>wj_backend := b\<rparr>, sy_pc = (sy_pc s)(0 := next_product c 0)\<rparr>"
      using RegisterBackend reg(2,3) by (auto simp: job_step_def)
    then show ?thesis
      using RegisterBackend coord workers registered
      by (auto intro!: go same_rows stay simp: next_product_def)
  next
    case (Describe k)
    then show ?thesis
      using coord workers registered
      by (auto intro!: go same_rows stay simp: job_step_def)
  next
    case (ClearHits k)
    then show ?thesis
      using coord workers registered
      by (auto intro!: go same_rows stay simp: job_step_def)
  next
    case (Announce k)
    then have k: "k = ?e" "?g = k" "wj_terminal ?j = 0" "k < length (cd_products c)"
      "wj_descriptor ?j = cd_products c ! k" "wj_row_hits ?j = 0"
      using coord by (auto simp: place_ok_Load)
    have w: "wj_workers ?j = n" "wj_backend ?j = b" using slot Announce by (simp_all add: registered_def)
    let ?d = "product_at c (Suc k)"
    have d: "?d = cd_products c ! k" by (simp add: product_at_def)
    let ?stop = "mj_rows ?d div n"
    let ?pc = "Rows (Suc k) ?d ?stop 0 ?stop"
    have idle: "worker_ok c n (Suc k) 0 p (sy_pc s p) \<and> computed n ?d (Suc k) p (sy_pc s p) = [] \<and>
        counted n ?d (Suc k) p (sy_pc s p) = 0" if "0 < p" "p < n" for p
    proof -
      note ok = workers [OF that] job_inv_slot(2) [OF inv that(2)]
      show ?thesis using ok k by (cases "sy_pc s p") (auto simp: place_ok_Load rows_ok_def)
    qed
    let ?s = "\<lparr>sy_job = ?j\<lparr>wj_epoch := Suc k\<rparr>, sy_pc = (sy_pc s)(0 := ?pc)\<rparr>"
    have none: "(\<Sum>p<n. tagged c b (Suc k) (computed n ?d (Suc k) p (sy_pc ?s p))) = {#}"
      "(\<Sum>p<n. counted n ?d (Suc k) p (sy_pc ?s p)) = 0"
      using idle by (auto simp: tagged_def slot_first_ends intro!: sum.neutral)
    have "sorted (map fst (wj_rows ?j)) \<and> (\<forall>y\<in>set (wj_rows ?j). fst y \<le> k)"
      "mset (wj_rows ?j) = (\<Sum>e<k. all_rows c b (Suc e))"
      using rows k(1) Announce unfolding rows_inv_def Let_def by (simp_all)
    then have rows': "rows_inv c n b ?s"
      using none k by (auto simp: rows_inv_def Let_def)
    have "job_step c n b 0 s = ?s" using Announce k w d by (simp add: job_step_def Let_def)
    moreover have "coord_ok c n (?j\<lparr>wj_epoch := Suc k\<rparr>) ?pc"
      using k(4,5) d by (simp add: rows_ok_def share_rows_def slot_first_def)
    moreover have "registered n b ?j ?pc" by (rule registered) (simp_all add: Announce)
    moreover have "barrier_inv n ((\<lambda>q. slot_place c (sy_pc s q))(0 := slot_place c ?pc)) (wj_completion ?j)"
      by (rule stay) (simp add: Announce)
    ultimately show ?thesis
      using go [of "?j\<lparr>wj_epoch := Suc k\<rparr>" ?pc, OF _ _ _ _ _ _ _ _ _ _ rows'] idle k(3) coord(4) by simp
  next
    case (Rows e d m row stop)
    have ok: "rows_ok c n 0 e d m row stop" "wj_descriptor ?j = d" "?e = e" using coord(1,2) Rows by simp_all
    have d: "d = product_at c e" "0 < e" using ok(1) by (simp_all add: rows_ok_def)
    have w: "wj_workers ?j = n" "wj_backend ?j = b" using slot Rows by (simp_all add: registered_def)
    show ?thesis
    proof (cases "row < stop")
      case True
      let ?new = "[(e, d, b, row)]"
      let ?s = "\<lparr>sy_job = ?j\<lparr>wj_rows := wj_rows ?j @ ?new\<rparr>, sy_pc = (sy_pc s)(0 := Rows e d m (row + 1) stop)\<rparr>"
      have "job_step c n b 0 s = ?s" using Rows True w by (simp add: job_step_def)
      moreover have "rows_inv c n b ?s"
        by (rule rows_inv_coordinator [OF rows n, where new = ?new and h = 0])
          (use Rows ok d True in \<open>auto simp: rows_ok_def tagged_def slot_first_ends\<close>)
      ultimately show ?thesis
        using Rows ok True coord workers registered by (auto intro!: go stay simp: rows_ok_def)
    next
      case False
      let ?s = "\<lparr>sy_job = ?j\<lparr>wj_row_hits := wj_row_hits ?j + m\<rparr>, sy_pc = (sy_pc s)(0 := Meet e d Load)\<rparr>"
      have "job_step c n b 0 s = ?s" using Rows False by (simp add: job_step_def)
      moreover have "row = stop" using False ok(1) by (simp add: rows_ok_def)
      then have "rows_inv c n b ?s"
        by (intro rows_inv_coordinator [OF rows n, where new = "[]" and h = m])
          (use Rows ok d in \<open>auto simp: rows_ok_def tagged_def share_rows_def\<close>)
      ultimately show ?thesis
        using Rows ok coord workers registered by (auto intro!: go stay simp: rows_ok_def)
    qed
  next
    case (Meet e d w)
    obtain w' b' where run: "barrier_wait n w (wj_completion ?j) = (w', b')" by fastforce
    have ok: "0 < e" "e \<le> length (cd_products c)" "d = product_at c e" "wj_descriptor ?j = d" "?e = e"
      using coord(1,2) Meet by simp_all
    have reg': "wj_workers ?j = n" "wj_backend ?j = b" using slot Meet by (simp_all add: registered_def)
    let ?pc = "if w' = Through then Check e d else Meet e d w'"
    let ?s = "\<lparr>sy_job = ?j\<lparr>wj_completion := b'\<rparr>, sy_pc = (sy_pc s)(0 := ?pc)\<rparr>"
    have step: "job_step c n b 0 s = ?s" using Meet run reg' by (simp add: job_step_def)
    have "barrier_inv n ((\<lambda>q. slot_place c (sy_pc s q))(0 := after_wait (e - 1) w')) b'"
      using barrier_inv_wait [OF barrier n0 _ run, of "e - 1"] Meet by simp
    moreover have "slot_place c ?pc = after_wait (e - 1) w'" using ok(1) by (cases w') simp_all
    ultimately have place: "barrier_inv n ((\<lambda>q. slot_place c (sy_pc s q))(0 := slot_place c ?pc)) b'" by simp
    have "rows_inv c n b ?s" by (rule same_rows) (use Meet in auto)
    then show ?thesis
      unfolding step using Meet ok registered coord workers place by (intro go) auto
  next
    case (Check e d)
    have ok: "0 < e" "e \<le> length (cd_products c)" "d = product_at c e" "?e = e" "wj_terminal ?j = 0"
      using coord Check by simp_all
    note complete = product_complete [OF inv n Check]
    have step: "job_step c n b 0 s = \<lparr>sy_job = ?j, sy_pc = (sy_pc s)(0 := next_product c e)\<rparr>"
      using Check complete(1) by (simp add: job_step_def)
    have "rows_inv c n b \<lparr>sy_job = ?j, sy_pc = (sy_pc s)(0 := next_product c e)\<rparr>"
      using rows Check ok complete(2) by (auto simp: rows_inv_def Let_def next_product_def)
    then show ?thesis
      unfolding step using Check ok coord workers registered by (intro go stay) (auto simp: next_product_def)
  next
    case Finish
    let ?s = "\<lparr>sy_job = ?j\<lparr>wj_terminal := cd_terminal c\<rparr>, sy_pc = (sy_pc s)(0 := Status LoadRejection)\<rparr>"
    have "worker_ok c n ?e (cd_terminal c) p (sy_pc s p)" if "0 < p" "p < n" for p
      using workers [OF that] coord(3) Finish by (cases "sy_pc s p") simp_all
    moreover have "rows_inv c n b ?s" by (rule same_rows) (use Finish in auto)
    moreover have "job_step c n b 0 s = ?s" using Finish by (simp add: job_step_def)
    ultimately show ?thesis
      using Finish coord registered by (auto intro!: go stay)
  next
    case (Status st)
    have t: "wj_terminal ?j \<noteq> 0" using coord(3) Status c by (auto simp: coordination_ok_def Let_def)
    have st: "status_ok c st" using coord(1) Status by simp
    have quiet: "job_inv c x n b \<lparr>sy_job = ?j, sy_pc = (sy_pc s)(0 := pc)\<rparr>"
      if "pc = Returned 0 \<or> (\<exists>st. pc = Status st \<and> status_ok c st)" for pc
    proof -
      have "rows_inv c n b \<lparr>sy_job = ?j, sy_pc = (sy_pc s)(0 := pc)\<rparr>"
        by (rule same_rows) (use that Status in auto)
      then show ?thesis
        using that Status coord workers registered by (intro go stay) auto
    qed
    show ?thesis
      using Status status_zero(1) [OF inv n c t st] quiet by (auto simp: job_step_def split: sum.splits)
  next
    case (Returned v)
    then have "job_step c n b 0 s = s" by (simp add: job_step_def fun_upd_idem)
    then show ?thesis using inv by simp
  qed (use coord(1) in simp_all)
qed

text \<open>The invariant holds after every interleaving.\<close>

lemma job_inv_step:
  assumes "job_inv c x n b s" "2 \<le> n" "b \<le> 1" "coordination_ok c x" "p < n"
  shows "job_inv c x n b (job_step c n b p s)"
  using coordinator_step_inv [OF assms(1-4)] worker_step_inv [OF assms(1-4), of p] assms(5) by (cases "p = 0") auto

lemma job_inv_slots:
  assumes "2 \<le> n" "b \<le> 1" "coordination_ok c x" "list_all (\<lambda>p. p < n) slots" "job_inv c x n b s"
  shows "job_inv c x n b (run_slots c n b slots s)"
  using assms(4,5)
proof (induction slots arbitrary: s)
  case (Cons p slots)
  then show ?case using job_inv_step [OF Cons.prems(2) assms(1-3), of p] by (simp add: run_slots_def)
qed (simp add: run_slots_def)

lemma job_inv_run:
  assumes "2 \<le> n" "b \<le> 1" "coordination_ok c x" "list_all (\<lambda>p. p < n) slots"
  shows "job_inv c x n b (run_slots c n b slots (job_start x))"
  by (rule job_inv_slots [OF assms job_inv_start [OF assms(1)]])

section \<open>Complete products\<close>

text \<open>The rows of one epoch, in the order they were computed.\<close>

definition epoch_products :: "nat \<Rightarrow> worker_job \<Rightarrow> row_product list" where
  "epoch_products epoch j = filter (\<lambda>x. fst x = epoch) (wj_rows j)"

definition epoch_rows :: "nat \<Rightarrow> worker_job \<Rightarrow> nat list" where
  "epoch_rows epoch j = map (\<lambda>(e, d, b, row). row) (epoch_products epoch j)"

lemma filter_all_rows: "filter_mset (\<lambda>x. fst x = e) (all_rows c b e') = (if e' = e then all_rows c b e else {#})"
proof -
  have all: "x \<in># all_rows c b e' \<Longrightarrow> fst x = e'" for x by (auto simp: all_rows_def tagged_def)
  show ?thesis
  proof (cases "e' = e")
    case True
    then show ?thesis using all by (simp add: filter_mset_eq_conv)
  next
    case False
    have "filter_mset (\<lambda>x. fst x = e) (all_rows c b e') = filter_mset (\<lambda>x. False) (all_rows c b e')"
      using all False by (intro filter_mset_cong) auto
    then show ?thesis using False by simp
  qed
qed

lemma epoch_complete:
  assumes rows: "mset (wj_rows j) = (\<Sum>k<m. all_rows c b (Suc k))" and e: "0 < e" "e \<le> m"
  shows "mset (epoch_products e j) = all_rows c b e"
    "mset (epoch_rows e j) = mset [0..<mj_rows (product_at c e)]"
proof -
  have sum: "filter_mset (\<lambda>x. fst x = e) (\<Sum>k<m. all_rows c b (Suc k)) =
      (\<Sum>k<m. filter_mset (\<lambda>x. fst x = e) (all_rows c b (Suc k)))" for m
    by (induction m) simp_all
  obtain i where i: "e = Suc i" using e(1) by (cases e) auto
  have "mset (epoch_products e j) = (\<Sum>k<m. if k = i then all_rows c b (Suc k) else {#})"
    unfolding epoch_products_def mset_filter rows sum filter_all_rows by (auto simp: i intro!: sum.cong)
  also have "\<dots> = all_rows c b e" using e i by (simp add: sum.delta)
  finally show *: "mset (epoch_products e j) = all_rows c b e" .
  show "mset (epoch_rows e j) = mset [0..<mj_rows (product_at c e)]"
    unfolding epoch_rows_def mset_map * all_rows_def tagged_def multiset.map_comp comp_def by simp
qed

text \<open>Rows written once each: the order does not matter.\<close>

lemma fold_row_updates:
  "distinct rs \<Longrightarrow> fold (\<lambda>row out. out[row := v row]) rs out =
     map (\<lambda>i. if i \<in> set rs then v i else out ! i) [0..<length out]"
proof (induction rs arbitrary: out)
  case (Cons r rs)
  then show ?case by (auto intro!: nth_equalityI simp: nth_list_update)
qed (simp add: map_nth)

lemma row_order:
  assumes "mset rs = mset [0..<n]"
  shows "fold (\<lambda>row out. out[row := v row]) rs out = fold (\<lambda>row out. out[row := v row]) [0..<n] out"
proof -
  have "distinct rs" "set rs = set [0..<n]"
    using mset_eq_imp_distinct_iff [OF assms] mset_eq_setD [OF assms] by auto
  then show ?thesis by (simp add: fold_row_updates)
qed

text \<open>
  C0: A product is complete when the coordinator goes on. Whatever the interleaving of the processors
  during a token, nothing is ever rejected, and when the coordinator has passed the barrier of a
  product, every row of it has been computed exactly once, from its descriptor and on the common
  processor path; the output is the one of the serial product, whatever the value \<open>v row\<close> of a row is.
\<close>

theorem products_computed_once:
  assumes "2 \<le> n" and "b \<le> 1" and "list_all (\<lambda>p. p < n) slots"
  shows "let c = token_coordination t produce_logits failed;
      s = run_slots c n b slots (job_start produce_logits); j = sy_job s in
    wj_rejection j = 0 \<and>
    (case sy_pc s 0 of
       Check epoch d \<Rightarrow>
         d = token_products t produce_logits ! (epoch - 1) \<and> wj_row_hits j = mj_rows d \<and>
         mset (epoch_products epoch j) = mset (map (\<lambda>row. (epoch, d, b, row)) [0..<mj_rows d]) \<and>
         fold (\<lambda>row out. out[row := v row]) (epoch_rows epoch j) out =
           fold (\<lambda>row out. out[row := v row]) [0..<mj_rows d] out
     | _ \<Rightarrow> True)"
proof -
  let ?c = "token_coordination t produce_logits failed"
  let ?s = "run_slots ?c n b slots (job_start produce_logits)"
  have inv: "job_inv ?c produce_logits n b ?s" by (rule job_inv_run [OF assms(1,2) token_coordination_ok assms(3)])
  note coord = job_inv_coord [OF inv assms(1)]
  show ?thesis
  proof (cases "sy_pc ?s 0")
    case (Check e d)
    have e: "0 < e" "e \<le> length (cd_products ?c)" "d = product_at ?c e" using coord(1) Check by simp_all
    then have product: "d = token_products t produce_logits ! (e - 1)"
      by (cases failed) (auto simp: product_at_def token_coordination_def)
    note complete = product_complete [OF inv assms(1) Check]
    note rows = epoch_complete [OF complete(2) e(1) order_refl]
    show ?thesis
      using Check coord(4) complete(1) rows(1) row_order [OF rows(2)] e product
      by (simp add: Let_def all_rows_def tagged_def)
  qed (use coord(4) in \<open>simp_all add: Let_def\<close>)
qed

theorem products_computed_once_witness:
  "let t = \<lparr>tk_weights = (\<lambda>layer role. 0), tk_output = 0, tk_scratch = 0, tk_logits = 0\<rparr>;
       s = run_slots (token_coordination t True None) 2 1 [1, 0, 1, 0, 0, 0, 0, 1, 1] (job_start True)
   in wj_rejection (sy_job s) = 0"
  using products_computed_once [of 2 1 "[1, 0, 1, 0, 0, 0, 0, 1, 1]"
    "\<lparr>tk_weights = (\<lambda>layer role. 0), tk_output = 0, tk_scratch = 0, tk_logits = 0\<rparr>" True None "\<lambda>_. 0 :: nat" "[]"]
  by (simp add: Let_def)

end
