(* ===== verification/PB_Fair.thy ===== *)
theory PB_Fair
  imports PB_Prelude
begin

text \<open>
  Participants that take their turns in any order: each turn brings its participant nearer to its
  end, except when it waits, and a participant that waits changes nothing for the others. The locale
  holds the argument that such a system ends under every schedule that is fair. A schedule is an
  infinite sequence of participants, and fair when each of them comes again after every turn.
\<close>

definition fair_schedule :: "nat \<Rightarrow> (nat \<Rightarrow> nat) \<Rightarrow> bool" where
  "fair_schedule n turn_of \<longleftrightarrow> (\<forall>i. turn_of i < n) \<and> (\<forall>p<n. \<forall>i. \<exists>j\<ge>i. turn_of j = p)"

definition prefix_of :: "(nat \<Rightarrow> nat) \<Rightarrow> nat \<Rightarrow> nat list" where
  "prefix_of turn_of m = map turn_of [0..<m]"

lemma prefix_of_valid: "fair_schedule n turn_of \<Longrightarrow> list_all (\<lambda>p. p < n) (prefix_of turn_of m)"
  by (simp add: fair_schedule_def prefix_of_def list_all_iff)

lemma upt_split: "i \<le> j \<Longrightarrow> j \<le> k \<Longrightarrow> [i..<k] = [i..<j] @ [j..<k]"
  using upt_add_eq_append [of i j "k - j"] by simp

lemma prefix_of_later: "i \<le> m \<Longrightarrow> prefix_of turn_of m = prefix_of turn_of i @ map turn_of [i..<m]"
  using upt_split [of 0 i m] by (simp add: prefix_of_def)

text \<open>The next turn of a participant in a fair schedule, with the turns of the others before it.\<close>

lemma next_turn:
  assumes "fair_schedule n turn_of" "p < n"
  obtains j where "i \<le> j" "turn_of j = p" "p \<notin> set (map turn_of [i..<j])"
proof -
  let ?j = "LEAST j. i \<le> j \<and> turn_of j = p"
  have "\<exists>j. i \<le> j \<and> turn_of j = p" using assms by (auto simp: fair_schedule_def)
  then have "i \<le> ?j \<and> turn_of ?j = p" by (rule LeastI_ex)
  moreover have "p \<notin> set (map turn_of [i..<?j])" by (auto dest: not_less_Least)
  ultimately show thesis using that by blast
qed

text \<open>Taking turns in the order of the numbers is fair, and so is giving one of them twice as many.\<close>

lemma cyclic_fair: "0 < n \<Longrightarrow> fair_schedule n (\<lambda>i. i mod n)"
  unfolding fair_schedule_def
proof (intro conjI allI impI)
  fix p i
  assume "p < n"
  moreover have "i \<le> i * n" using \<open>p < n\<close> by (cases n) simp_all
  ultimately have "i \<le> i * n + p \<and> (i * n + p) mod n = p" by (simp add: trans_le_add1 del: mult_le_cancel1)
  then show "\<exists>j\<ge>i. j mod n = p" by blast
qed simp

lemma uneven_fair: "fair_schedule 2 (\<lambda>i. if i mod 3 = 2 then 0 else 1)"
proof -
  have "\<exists>j\<ge>i. (if j mod 3 = 2 then 0 else 1) = p" if "p < 2" for i p :: nat
  proof -
    have "(3 * i + 2) mod 3 = 2" "(3 * i) mod 3 = 0" by presburger+
    then have "(if (3 * i + 2) mod 3 = 2 then 0 else 1) = (0 :: nat)" "(if (3 * i) mod 3 = 2 then 0 else 1) = (1 :: nat)"
      by simp_all
    moreover have "p = 0 \<or> p = 1" using that by auto
    moreover have "i \<le> 3 * i + 2" "i \<le> 3 * i" by simp_all
    ultimately show ?thesis by metis
  qed
  then show ?thesis by (simp add: fair_schedule_def)
qed

text \<open>
  What a participant sees is its own place and the shared state. It \<open>waits\<close> when its turn changes at
  most its place, to \<open>look\<close>; somebody who has not ended goes on now, or after one more look.
\<close>

locale fair_turns =
  fixes n :: nat
    and ok :: "'s \<Rightarrow> bool"
    and turn :: "nat \<Rightarrow> 's \<Rightarrow> 's"
    and view :: "nat \<Rightarrow> 's \<Rightarrow> 'v"
    and rank :: "'v \<Rightarrow> nat"
    and waits :: "'v \<Rightarrow> bool"
    and look :: "'v \<Rightarrow> 'v"
  assumes turn_ok: "ok s \<Longrightarrow> p < n \<Longrightarrow> ok (turn p s)"
    and turn_others: "ok s \<Longrightarrow> p < n \<Longrightarrow> q < n \<Longrightarrow> q \<noteq> p \<Longrightarrow> rank (view q (turn p s)) = rank (view q s)"
    and turn_goes: "ok s \<Longrightarrow> p < n \<Longrightarrow> \<not> waits (view p s) \<Longrightarrow> rank (view p (turn p s)) < rank (view p s)"
    and turn_waits: "ok s \<Longrightarrow> p < n \<Longrightarrow> waits (view p s) \<Longrightarrow> view p (turn p s) = look (view p s)"
    and look_rank: "waits v \<Longrightarrow> rank (look v) = rank v"
    and waits_others: "ok s \<Longrightarrow> p < n \<Longrightarrow> q < n \<Longrightarrow> q \<noteq> p \<Longrightarrow> waits (view p s) \<Longrightarrow> view q (turn p s) = view q s"
    and somebody: "ok s \<Longrightarrow> p < n \<Longrightarrow> 0 < rank (view p s) \<Longrightarrow>
      \<exists>q<n. \<not> waits (view q s) \<or> \<not> waits (look (view q s))"
begin

definition left :: "'s \<Rightarrow> nat" where
  "left s = (\<Sum>p<n. rank (view p s))"

definition turns :: "nat list \<Rightarrow> 's \<Rightarrow> 's" where
  "turns ps s = fold turn ps s"

lemma turns_simps [simp]:
  "turns [] s = s" "turns (p # ps) s = turns ps (turn p s)" "turns (ps @ qs) s = turns qs (turns ps s)"
  by (simp_all add: turns_def)

lemma turns_ok: "list_all (\<lambda>p. p < n) ps \<Longrightarrow> ok s \<Longrightarrow> ok (turns ps s)"
  by (induction ps arbitrary: s) (simp_all add: turn_ok)

lemma left_turn:
  assumes "ok s" "p < n"
  shows "left (turn p s) + rank (view p s) = left s + rank (view p (turn p s))"
proof -
  have "left s' = rank (view p s') + (\<Sum>q\<in>{..<n} - {p}. rank (view q s'))" for s'
    unfolding left_def using assms(2) by (subst sum.remove [of _ p]) auto
  moreover have "(\<Sum>q\<in>{..<n} - {p}. rank (view q (turn p s))) = (\<Sum>q\<in>{..<n} - {p}. rank (view q s))"
    by (rule sum.cong) (auto simp: turn_others [OF assms])
  ultimately show ?thesis by simp
qed

lemma left_goes: "ok s \<Longrightarrow> p < n \<Longrightarrow> \<not> waits (view p s) \<Longrightarrow> left (turn p s) < left s"
  using left_turn [of s p] turn_goes [of s p] by simp

lemma left_waits: "ok s \<Longrightarrow> p < n \<Longrightarrow> waits (view p s) \<Longrightarrow> left (turn p s) = left s"
  using left_turn [of s p] turn_waits [of s p] look_rank [of "view p s"] by simp

lemma left_turn_le: "ok s \<Longrightarrow> p < n \<Longrightarrow> left (turn p s) \<le> left s"
  using left_goes [of s p] left_waits [of s p] by fastforce

lemma left_turns: "list_all (\<lambda>p. p < n) ps \<Longrightarrow> ok s \<Longrightarrow> left (turns ps s) \<le> left s"
proof (induction ps arbitrary: s)
  case (Cons p ps)
  then have "left (turns ps (turn p s)) \<le> left (turn p s)" by (simp add: turn_ok)
  also have "\<dots> \<le> left s" using Cons.prems by (simp add: left_turn_le)
  finally show ?case by simp
qed simp

text \<open>Turns of the others that bring nothing nearer have changed nothing for \<open>p\<close>.\<close>

lemma idle_turns:
  assumes "list_all (\<lambda>q. q < n) ps" "p \<notin> set ps" "p < n" "ok s" "left (turns ps s) = left s"
  shows "view p (turns ps s) = view p s"
  using assms
proof (induction ps arbitrary: s)
  case (Cons q ps)
  have q: "q < n" "q \<noteq> p" "list_all (\<lambda>q. q < n) ps" using Cons.prems by auto
  have ok: "ok (turn q s)" by (rule turn_ok [OF Cons.prems(4) q(1)])
  have level: "left (turn q s) = left s" "left (turns ps (turn q s)) = left (turn q s)"
    using Cons.prems(5) left_turns [OF q(3) ok] left_turn_le [OF Cons.prems(4) q(1)] by simp_all
  have "waits (view q s)" using left_goes [OF Cons.prems(4) q(1)] level(1) by fastforce
  then have "view p (turn q s) = view p s" using waits_others [OF Cons.prems(4) q(1) Cons.prems(3)] q(2) by simp
  then show ?case using Cons.IH [OF q(3) _ Cons.prems(3) ok level(2)] Cons.prems(2) by simp
qed simp

text \<open>The next two turns of somebody who can go on bring the system nearer to its end.\<close>

lemma two_turns_progress:
  assumes ok: "ok s" and p: "p < n" and willing: "\<not> waits (view p s) \<or> \<not> waits (look (view p s))"
    and valid: "list_all (\<lambda>q. q < n) xs" "list_all (\<lambda>q. q < n) ys" "p \<notin> set xs" "p \<notin> set ys"
  shows "left (turns (xs @ p # ys @ [p]) s) < left s"
proof -
  define s1 where "s1 = turns xs s"
  define s2 where "s2 = turn p s1"
  define s3 where "s3 = turns ys s2"
  define s4 where "s4 = turn p s3"
  have oks: "ok s1" "ok s2" "ok s3" "ok s4"
    using turns_ok [OF valid(1) ok] turns_ok [OF valid(2)] turn_ok [OF _ p] by (simp_all add: s1_def s2_def s3_def s4_def)
  have steps: "left s1 \<le> left s" "left s2 \<le> left s1" "left s3 \<le> left s2" "left s4 \<le> left s3"
    using left_turns [OF valid(1) ok] left_turn_le [OF oks(1) p] left_turns [OF valid(2) oks(2)] left_turn_le [OF oks(3) p]
    by (simp_all add: s1_def s2_def s3_def s4_def)
  have "left s4 < left s"
  proof (rule ccontr)
    assume "\<not> left s4 < left s"
    then have level: "left s1 = left s" "left s2 = left s1" "left s3 = left s2" "left s4 = left s3"
      using steps by simp_all
    have same: "view p s1 = view p s" "view p s3 = view p s2"
      using idle_turns [OF valid(1,3) p ok] idle_turns [OF valid(2,4) p oks(2)] level by (simp_all add: s1_def s3_def)
    have waits: "waits (view p s1)" "waits (view p s3)"
      using left_goes [OF oks(1) p] left_goes [OF oks(3) p] level by (fastforce simp: s2_def s4_def)+
    then show False using turn_waits [OF oks(1) p waits(1)] same willing by (simp add: s2_def)
  qed
  moreover have "turns (xs @ p # ys @ [p]) s = s4" by (simp add: s1_def s2_def s3_def s4_def)
  ultimately show ?thesis by simp
qed

text \<open>Under a fair schedule the system comes nearer to its end as long as it has not ended.\<close>

lemma fair_progress:
  assumes fair: "fair_schedule n turn_of" and ok: "ok s" and more: "0 < left (turns (prefix_of turn_of i) s)"
  shows "\<exists>m\<ge>i. left (turns (prefix_of turn_of m) s) < left (turns (prefix_of turn_of i) s)"
proof -
  let ?s = "turns (prefix_of turn_of i) s"
  have oks: "ok ?s" by (rule turns_ok [OF prefix_of_valid [OF fair] ok])
  have "\<exists>p<n. 0 < rank (view p ?s)"
  proof (rule ccontr)
    assume "\<not> ?thesis"
    then have "left ?s = 0" by (simp add: left_def)
    then show False using more by simp
  qed
  then obtain p where p: "p < n" and willing: "\<not> waits (view p ?s) \<or> \<not> waits (look (view p ?s))"
    using somebody [OF oks] by blast
  obtain j where j: "i \<le> j" "turn_of j = p" "p \<notin> set (map turn_of [i..<j])" by (rule next_turn [OF fair p])
  obtain k where k: "Suc j \<le> k" "turn_of k = p" "p \<notin> set (map turn_of [Suc j..<k])" by (rule next_turn [OF fair p])
  have valid: "list_all (\<lambda>q. q < n) (map turn_of [a..<b])" for a b
    using fair by (simp add: fair_schedule_def list_all_iff)
  have "[i..<Suc k] = [i..<j] @ j # [Suc j..<k] @ [k]"
    using upt_split [of i j "Suc k"] upt_split [of "Suc j" k "Suc k"] j(1) k(1) by (simp add: upt_conv_Cons)
  then have "prefix_of turn_of (Suc k) = prefix_of turn_of i @ map turn_of [i..<j] @ p # map turn_of [Suc j..<k] @ [p]"
    using prefix_of_later [of i "Suc k" turn_of] j(1,2) k(1,2) by simp
  then have "turns (prefix_of turn_of (Suc k)) s = turns (map turn_of [i..<j] @ p # map turn_of [Suc j..<k] @ [p]) ?s"
    by (simp add: turns_def)
  then have "left (turns (prefix_of turn_of (Suc k)) s) < left ?s"
    using two_turns_progress [OF oks p willing valid valid j(3) k(3)] by simp
  moreover have "i \<le> Suc k" using j(1) k(1) by simp
  ultimately show ?thesis by blast
qed

lemma fair_end:
  assumes fair: "fair_schedule n turn_of" and ok: "ok s"
  shows "\<exists>k. left (turns (prefix_of turn_of k) s) = 0"
proof -
  have "\<exists>k. left (turns (prefix_of turn_of k) s) = 0" if "left (turns (prefix_of turn_of i) s) = d" for i d
    using that
  proof (induction d arbitrary: i rule: less_induct)
    case (less d)
    show ?case
    proof (cases "d = 0")
      case False
      then obtain m where "left (turns (prefix_of turn_of m) s) < d"
        using fair_progress [OF fair ok, of i] less.prems by auto
      then show ?thesis using less.IH by blast
    qed (use less.prems in blast)
  qed
  then show ?thesis by blast
qed

text \<open>So everybody comes to the end, and stays there.\<close>

lemma turns_end:
  assumes fair: "fair_schedule n turn_of" and ok: "ok s"
  obtains k where "\<And>m. k \<le> m \<Longrightarrow> ok (turns (prefix_of turn_of m) s)"
    "\<And>m p. k \<le> m \<Longrightarrow> p < n \<Longrightarrow> rank (view p (turns (prefix_of turn_of m) s)) = 0"
proof -
  obtain k where k: "left (turns (prefix_of turn_of k) s) = 0" using fair_end [OF fair ok] by blast
  have oks: "ok (turns (prefix_of turn_of m) s)" for m by (rule turns_ok [OF prefix_of_valid [OF fair] ok])
  have "rank (view p (turns (prefix_of turn_of m) s)) = 0" if m: "k \<le> m" and p: "p < n" for m p
  proof -
    have "list_all (\<lambda>q. q < n) (map turn_of [k..<m])" using fair by (simp add: fair_schedule_def list_all_iff)
    then have "left (turns (prefix_of turn_of m) s) \<le> left (turns (prefix_of turn_of k) s)"
      using left_turns [OF _ oks [of k]] prefix_of_later [OF m, of turn_of] by (simp add: turns_def)
    then have "left (turns (prefix_of turn_of m) s) = 0" using k by simp
    then show ?thesis using p by (simp add: left_def)
  qed
  then show thesis using that [of k] oks by blast
qed

end

end
