(* ===== verification/PB_Progress.thy ===== *)
theory PB_Progress
  imports PB_Workers PB_Fair
begin

text \<open>
  The job of a token ends (\<open>PB_Workers\<close>): every atomic operation of a slot brings it nearer to its
  return, except those that wait, and as long as some slot has not returned there is one that does
  not wait in vain. So any schedule that keeps giving every processor its turn ends the job.
\<close>

section \<open>A measure\<close>

definition later :: "coordination \<Rightarrow> nat \<Rightarrow> nat" where
  "later c k = 10 + (\<Sum>m\<in>{k..<length (cd_products c)}. mj_rows (cd_products c ! m) + 16)"

fun wait_rank :: "wait_pc \<Rightarrow> nat" where
  "wait_rank Load = 9"
| "wait_rank (Arrive g) = 8"
| "wait_rank Clear = 7"
| "wait_rank Open = 6"
| "wait_rank (Spin g) = 6"
| "wait_rank Through = 0"

fun status_rank :: "status_pc \<Rightarrow> nat" where
  "status_rank LoadRejection = 5"
| "status_rank LoadTerminal = 4"
| "status_rank (LoadEpoch t) = 3"
| "status_rank (LoadArrivals e) = 2"
| "status_rank (LoadGeneration e) = 1"

fun rank :: "coordination \<Rightarrow> job_pc \<Rightarrow> nat" where
  "rank c RegisterWorkers = later c 0 + 30"
| "rank c RegisterBackend = later c 0 + 25"
| "rank c (Describe k) = later c k + 4"
| "rank c (ClearHits k) = later c k + 3"
| "rank c (Announce k) = later c k + 2"
| "rank c (Poll k) = later c k + 4"
| "rank c (Ended k) = later c k + 4"
| "rank c (Fetch e) = later c e + mj_rows (product_at c e) + 15"
| "rank c (Rows e d m row stop) = later c e + (stop - row) + 10"
| "rank c (Meet e d w) = later c e + wait_rank w"
| "rank c (Check e d) = later c e + 5"
| "rank c Finish = 9"
| "rank c (Status s) = status_rank s"
| "rank c (Returned v) = 0"

lemma later_step: "k < length (cd_products c) \<Longrightarrow> later c k = later c (Suc k) + mj_rows (cd_products c ! k) + 16"
  by (simp add: later_def sum.atLeast_Suc_lessThan)

lemma later_bounds: "10 \<le> later c k" "later c (length (cd_products c)) = 10"
  by (simp_all add: later_def)

lemma slot_first_le: "slot \<le> n \<Longrightarrow> slot_first rows n slot \<le> rows"
proof (cases "n = 0")
  case False
  assume "slot \<le> n"
  then have "rows * slot div n \<le> rows * n div n" by (intro div_le_mono mult_le_mono2)
  then show ?thesis using False by (simp add: slot_first_def)
qed (simp add: slot_first_def)

text \<open>The steps that wait: a worker that sees nothing new, a slot at a closed barrier, a returned slot.\<close>

fun waits_at :: "worker_job \<Rightarrow> job_pc \<Rightarrow> bool" where
  "waits_at j (Poll k) \<longleftrightarrow> wj_epoch j = k"
| "waits_at j (Ended k) \<longleftrightarrow> wj_terminal j = 0"
| "waits_at j (Meet e d (Spin g)) \<longleftrightarrow> br_generation (wj_completion j) = g"
| "waits_at j (Returned v) \<longleftrightarrow> True"
| "waits_at j pc \<longleftrightarrow> False"

fun after_waiting :: "job_pc \<Rightarrow> job_pc" where
  "after_waiting (Poll k) = Ended k"
| "after_waiting (Ended k) = Poll k"
| "after_waiting pc = pc"

lemma waiting_step:
  assumes "waits_at (sy_job s) (sy_pc s p)"
  shows "job_step c n b p s = s\<lparr>sy_pc := (sy_pc s)(p := after_waiting (sy_pc s p))\<rparr>"
    "rank c (after_waiting (sy_pc s p)) = rank c (sy_pc s p)"
  using assms by (cases "(sy_job s, sy_pc s p)" rule: waits_at.cases; simp add: job_step_def)+

lemma barrier_rank:
  assumes "barrier_wait n w b = (w', b')" "w \<noteq> Through" "\<And>g. w = Spin g \<Longrightarrow> br_generation b \<noteq> g"
  shows "w' = Through \<and> wait_rank w = 6 \<or> w' \<noteq> Through \<and> wait_rank w' < wait_rank w"
  using assms by (cases w) (auto split: if_splits)

lemma rank_step:
  assumes inv: "job_inv c x n b s" and n: "2 \<le> n" and b: "b \<le> 1" and p: "p < n"
    and go: "\<not> waits_at (sy_job s) (sy_pc s p)"
  shows "rank c (sy_pc (job_step c n b p s) p) < rank c (sy_pc s p)"
proof -
  let ?j = "sy_job s"
  note coord = job_inv_coord [OF inv n] and slot = job_inv_slot [OF inv p] and epoch = epoch_generation [OF inv n]
  have reg: "wj_workers ?j \<in> {0, n}" "wj_backend ?j \<in> {NO_BACKEND, b}"
    using inv by (auto simp: job_inv_def Let_def)
  have first: "p = 0 \<or> worker_ok c n (wj_epoch ?j) (wj_terminal ?j) p (sy_pc s p)" using slot(3) by auto
  have coordinator: "sy_pc s p = pc \<Longrightarrow> p = 0 \<Longrightarrow> coord_ok c n ?j pc \<and> wj_epoch ?j = coord_epoch c pc" for pc
    using coord by auto
  have last: "10 \<le> later c k" "later c (length (cd_products c)) = 10" for k by (rule later_bounds)+
  show ?thesis
  proof (cases "sy_pc s p")
    case RegisterWorkers
    then show ?thesis using n b p reg(1) by (auto simp: job_step_def)
  next
    case RegisterBackend
    then show ?thesis using reg(2) last(1) [of 0] by (auto simp: job_step_def Let_def next_product_def)
  next
    case (Describe k)
    then show ?thesis by (simp add: job_step_def)
  next
    case (ClearHits k)
    then show ?thesis by (simp add: job_step_def)
  next
    case (Announce k)
    then have k: "k < length (cd_products c)" "wj_epoch ?j = k" "wj_workers ?j = n"
      using first coordinator slot(1) by (auto simp: registered_def)
    have "mj_rows (cd_products c ! k) div n < 8 + mj_rows (cd_products c ! k)"
      by (rule le_less_trans [OF div_le_dividend]) simp
    then show ?thesis using Announce k later_step [OF k(1)] by (simp add: job_step_def Let_def)
  next
    case (Poll k)
    then have "k = br_generation (wj_completion ?j)" using slot(2) by (simp add: place_ok_Load)
    then have e: "wj_epoch ?j = Suc k" "k < length (cd_products c)" using epoch go Poll by auto
    then show ?thesis using Poll later_step [OF e(2)] by (simp add: job_step_def product_at_def)
  next
    case (Ended k)
    then show ?thesis using go last(1) [of k] by (simp add: job_step_def)
  next
    case (Fetch e)
    then have worker: "0 < e" "e = wj_epoch ?j" using first coordinator by auto
    moreover have "e - 1 = br_generation (wj_completion ?j)" using slot(2) Fetch by (simp add: place_ok_Load)
    ultimately have "wj_descriptor ?j = product_at c e" using epoch by auto
    moreover have "slot_first (mj_rows (product_at c e)) n (p + 1) \<le> mj_rows (product_at c e)"
      using p by (intro slot_first_le) simp
    ultimately show ?thesis using Fetch by (simp add: job_step_def Let_def)
  next
    case (Rows e d m row stop)
    then have "row \<le> stop" using first coordinator by (auto simp: rows_ok_def)
    then show ?thesis using Rows by (auto simp: job_step_def)
  next
    case (Meet e d w)
    obtain w' b' where run: "barrier_wait (if p = 0 then wj_workers ?j else n) w (wj_completion ?j) = (w', b')"
      by fastforce
    have "w \<noteq> Through" using slot(2) Meet by (auto simp: place_ok_def here_def)
    then have "w' = Through \<and> wait_rank w = 6 \<or> w' \<noteq> Through \<and> wait_rank w' < wait_rank w"
      by (rule barrier_rank [OF run]) (use go Meet in auto)
    then show ?thesis using Meet run by (auto simp: job_step_def)
  next
    case (Check e d)
    then have "e \<le> length (cd_products c)" using first coordinator by auto
    then show ?thesis using Check last(1) [of e] last(2) by (auto simp: job_step_def next_product_def)
  next
    case Finish
    then show ?thesis by (simp add: job_step_def)
  next
    case (Status st)
    then show ?thesis by (cases st) (auto simp: job_step_def)
  next
    case (Returned v)
    then show ?thesis using go by simp
  qed
qed

section \<open>Somebody can go on\<close>

definition all_returned :: "nat \<Rightarrow> job_system \<Rightarrow> bool" where
  "all_returned n s \<longleftrightarrow> (\<forall>p<n. \<exists>v. sy_pc s p = Returned v)"

text \<open>A slot that goes on now, or after one more look.\<close>

definition willing :: "worker_job \<Rightarrow> job_pc \<Rightarrow> bool" where
  "willing j pc \<longleftrightarrow> \<not> waits_at j pc \<or> \<not> waits_at j (after_waiting pc)"

lemma willing_exists:
  assumes inv: "job_inv c x n b s" and n: "2 \<le> n" and c: "coordination_ok c x" and working: "\<not> all_returned n s"
  shows "\<exists>p<n. willing (sy_job s) (sy_pc s p)"
proof (rule ccontr)
  assume none: "\<not> ?thesis"
  let ?j = "sy_job s" let ?b = "wj_completion (sy_job s)"
  have n0: "0 < n" using n by simp
  have idle: "waits_at ?j (sy_pc s p)" "waits_at ?j (after_waiting (sy_pc s p))" if "p < n" for p
    using none that by (auto simp: willing_def)
  have barrier: "barrier_inv n (\<lambda>q. slot_place c (sy_pc s q)) ?b" using inv by (simp add: job_inv_def Let_def)
  note coord = job_inv_coord [OF inv n]
  show False
  proof (cases "sy_pc s 0")
    case (Meet e d w)
    then obtain g where w: "w = Spin g" "br_generation ?b = g" using idle(1) [OF n0] by (cases w) auto
    have e: "0 < e" "wj_epoch ?j = e" "wj_terminal ?j = 0" using coord Meet by simp_all
    have "place_ok g (e - 1, Spin g)" using coord(6) Meet w by simp
    then have g: "e = Suc g" using e(1) by (auto simp: place_ok_def here_def)
    have "slot_place c (sy_pc s p) = (g, Spin g)" if p: "p < n" for p
    proof (cases "p = 0")
      case True
      then show ?thesis using Meet w g by simp
    next
      case False
      note slot = job_inv_slot [OF inv p]
      note idle = idle [OF p]
      show ?thesis
      proof (cases "sy_pc s p")
        case (Meet e' d' w')
        then obtain g' where w': "w' = Spin g'" "g' = g" using idle(1) w by (cases w') auto
        then have "place_ok g (e' - 1, Spin g)" using slot(2) Meet w by simp
        then have "e' - 1 = g" by (auto simp: place_ok_def here_def)
        then show ?thesis using Meet w' by simp
      qed (use idle slot(2,3) False w e g in \<open>auto simp: place_ok_Load\<close>)
    qed
    then show False using barrier_not_stuck [OF barrier n0] w by auto
  next
    case (Returned v)
    have t: "wj_terminal ?j \<noteq> 0" using coord(3) Returned c by (auto simp: coordination_ok_def Let_def)
    note over = terminal_facts [OF inv n t]
    have "\<exists>v. sy_pc s p = Returned v" if p: "p < n" for p
    proof (cases "p = 0")
      case False
      note slot = job_inv_slot [OF inv p]
      show ?thesis
      proof (cases "sy_pc s p")
        case (Meet e d w)
        then have "e \<le> length (cd_products c)" "0 < e" "place_ok (length (cd_products c)) (e - 1, w)"
          using slot(2,3) False over by simp_all
        then have last: "w = Spin (e - 1)" "e = length (cd_products c)" "0 < e" by (auto simp: place_ok_def here_def)
        then have "br_generation ?b = e - 1" using idle(1) [OF p] Meet by simp
        then show ?thesis using over(2) last by arith
      qed (use idle [OF p] t in auto)
    qed (use Returned in auto)
    then show False using working by (auto simp: all_returned_def)
  qed (use idle [OF n0] coord(1) in auto)
qed

section \<open>Every schedule that is fair ends the job\<close>

lemma job_step_others: "q \<noteq> p \<Longrightarrow> sy_pc (job_step c n b p s) q = sy_pc s q"
  by (simp add: job_step_def split_def)

lemma status_rank_pos: "0 < status_rank st"
  by (cases st) simp_all

lemma rank_zero: "rank c pc = 0 \<longleftrightarrow> (\<exists>v. pc = Returned v)"
  using status_rank_pos by (cases pc) (auto simp: later_def)

lemma someone_goes_on:
  assumes "job_inv c x n b s" "2 \<le> n" "coordination_ok c x" "p < n" "0 < rank c (sy_pc s p)"
  shows "\<exists>q<n. \<not> waits_at (sy_job s) (sy_pc s q) \<or> \<not> waits_at (sy_job s) (after_waiting (sy_pc s q))"
proof -
  have "rank c (sy_pc s p) \<noteq> 0" using assms(5) by simp
  then have "\<not> all_returned n s" using assms(4) by (auto simp: all_returned_def rank_zero)
  then show ?thesis using willing_exists [OF assms(1-3)] by (simp add: willing_def)
qed

interpretation job_turns: fair_turns n
  "\<lambda>s. job_inv c x n b s \<and> 2 \<le> n \<and> b \<le> 1 \<and> coordination_ok c x"
  "job_step c n b" "\<lambda>p s. (sy_job s, sy_pc s p)"
  "\<lambda>(j, pc). rank c pc" "\<lambda>(j, pc). waits_at j pc" "\<lambda>(j, pc). (j, after_waiting pc)"
  for n c x b
proof (unfold_locales, goal_cases)
  case (1 s p)
  then show ?case using job_inv_step by blast
next
  case (2 s p q)
  then show ?case by (simp add: job_step_others)
next
  case (3 s p)
  then show ?case using rank_step [of c x n b s p] by auto
next
  case (4 s p)
  then show ?case using waiting_step(1) [of s p c n b] by simp
next
  case (5 v)
  then show ?case
    using waiting_step(2) [of "\<lparr>sy_job = fst v, sy_pc = \<lambda>_. snd v\<rparr>" 0 c] by (simp add: split_def)
next
  case (6 s p q)
  then show ?case using waiting_step(1) [of s p c n b] by simp
next
  case (7 s p)
  then show ?case using someone_goes_on [of c x n b s p] by auto
qed

lemma run_slots_turns: "run_slots c n b slots s = job_turns.turns c n b slots s"
  by (simp add: run_slots_def job_turns.turns_def)

section \<open>The job ends\<close>

text \<open>What the invariant says once every slot has returned.\<close>

lemma returned_facts:
  assumes inv: "job_inv c x n b s" and n: "2 \<le> n" and c: "coordination_ok c x" and over: "all_returned n s"
  shows "p < n \<Longrightarrow> sy_pc s p = Returned 0" "wj_terminal (sy_job s) = cd_terminal c"
    "wj_epoch (sy_job s) = length (cd_products c)" "protocol_status (sy_job s) = 0"
    "sorted (map fst (wj_rows (sy_job s)))"
    "mset (wj_rows (sy_job s)) = (\<Sum>k<length (cd_products c). all_rows c b (Suc k))"
proof -
  note coord = job_inv_coord [OF inv n]
  have n0: "0 < n" using n by simp
  obtain v where zero: "sy_pc s 0 = Returned v" using over n0 by (auto simp: all_returned_def)
  have t: "wj_terminal (sy_job s) \<noteq> 0" using coord(3) zero c by (auto simp: coordination_ok_def Let_def)
  show "sy_pc s p = Returned 0" if p: "p < n"
  proof -
    obtain v where v: "sy_pc s p = Returned v" using over p by (auto simp: all_returned_def)
    then have "v = 0" using coord(1) job_inv_slot(3) [OF inv p] by (cases "p = 0") auto
    then show ?thesis using v by simp
  qed
  show "wj_terminal (sy_job s) = cd_terminal c" using coord(3) zero by simp
  show epoch: "wj_epoch (sy_job s) = length (cd_products c)" using coord(2) zero by simp
  show "protocol_status (sy_job s) = 0" by (rule status_zero(2) [OF inv n c t, of LoadRejection]) simp
  have rows: "rows_inv c n b s" using inv by (simp add: job_inv_def Let_def)
  then show "sorted (map fst (wj_rows (sy_job s)))" unfolding rows_inv_def Let_def by blast
  show "mset (wj_rows (sy_job s)) = (\<Sum>k<length (cd_products c). all_rows c b (Suc k))"
    using rows zero epoch by (simp add: rows_inv_def Let_def)
qed

lemma job_returns:
  assumes n: "2 \<le> n" and b: "b \<le> 1" and c: "coordination_ok c x" and fair: "fair_schedule n turn_of"
  shows "\<exists>k. \<forall>m\<ge>k. let s = run_slots c n b (prefix_of turn_of m) (job_start x) in
    job_inv c x n b s \<and> all_returned n s"
proof -
  have start: "job_inv c x n b (job_start x) \<and> 2 \<le> n \<and> b \<le> 1 \<and> coordination_ok c x"
    using n b c job_inv_start by blast
  have zero: "0 < n" using n by simp
  obtain k where k: "\<And>m. k \<le> m \<Longrightarrow> job_inv c x n b (job_turns.turns c n b (prefix_of turn_of m) (job_start x)) \<and>
      2 \<le> n \<and> b \<le> 1 \<and> coordination_ok c x"
    "\<And>m p. k \<le> m \<Longrightarrow> p < n \<Longrightarrow>
      (case (sy_job (job_turns.turns c n b (prefix_of turn_of m) (job_start x)),
        sy_pc (job_turns.turns c n b (prefix_of turn_of m) (job_start x)) p) of (j, pc) \<Rightarrow> rank c pc) = 0"
    using job_turns.turns_end [OF fair start] by blast
  have "let s = run_slots c n b (prefix_of turn_of m) (job_start x) in job_inv c x n b s \<and> all_returned n s" if "k \<le> m" for m
    using k(1) [OF that] k(2) [OF that] by (simp add: Let_def all_returned_def run_slots_turns rank_zero)
  then show ?thesis by blast
qed

text \<open>What a coordination of a token leaves behind once every slot has returned.\<close>

lemma job_left_behind:
  assumes inv: "job_inv (token_coordination t x failed) x n b s" and n: "2 \<le> n" and over: "all_returned n s"
  shows "let c = token_coordination t x failed; j = sy_job s in
    list_all (\<lambda>p. sy_pc s p = Returned 0) [0..<n] \<and> protocol_status j = 0 \<and>
    wj_terminal j = (if failed = None then 1 else 2) \<and>
    wj_epoch j = length (cd_products c) \<and> sorted (map fst (wj_rows j)) \<and>
    list_all (\<lambda>k. mset (epoch_products (k + 1) j) =
        mset (map (\<lambda>row. (k + 1, cd_products c ! k, b, row)) [0..<mj_rows (cd_products c ! k)]))
      [0..<length (cd_products c)]"
proof -
  let ?c = "token_coordination t x failed"
  note facts = returned_facts [OF inv n token_coordination_ok over]
  have rows: "mset (epoch_products (k + 1) (sy_job s)) =
      mset (map (\<lambda>row. (k + 1, cd_products ?c ! k, b, row)) [0..<mj_rows (cd_products ?c ! k)])"
    if "k < length (cd_products ?c)" for k
    using epoch_complete(1) [OF facts(6), of "k + 1"] that by (simp add: all_rows_def tagged_def product_at_def)
  have "cd_terminal ?c = (if failed = None then 1 else 2)" by (cases failed) (simp_all add: token_coordination_def)
  then show ?thesis
    unfolding Let_def using facts(1-5) rows by (simp add: list_all_iff del: set_upt) auto
qed

text \<open>
  C6: The job of a token ends under every schedule that is fair, an infinite sequence of slots in which
  each slot comes again after every turn: from some turn on every slot has returned with status 0.
  Nobody is left at a barrier or polling for an epoch, the status of the protocol is 0, the terminal
  flag says whether the evaluation failed, and the rows of every product of the token have been
  computed exactly once, one product after the other.
\<close>

theorem job_terminates:
  assumes "2 \<le> n" and "b \<le> 1" and "fair_schedule n turn_of"
  shows "\<exists>k. \<forall>m\<ge>k. let c = token_coordination t produce_logits failed;
      s = run_slots c n b (prefix_of turn_of m) (job_start produce_logits);
      j = sy_job s in
    list_all (\<lambda>p. sy_pc s p = Returned 0) [0..<n] \<and> protocol_status j = 0 \<and>
    wj_terminal j = (if failed = None then 1 else 2) \<and>
    wj_epoch j = length (cd_products c) \<and> sorted (map fst (wj_rows j)) \<and>
    list_all (\<lambda>k. mset (epoch_products (k + 1) j) =
        mset (map (\<lambda>row. (k + 1, cd_products c ! k, b, row)) [0..<mj_rows (cd_products c ! k)]))
      [0..<length (cd_products c)]"
proof -
  let ?c = "token_coordination t produce_logits failed"
  obtain k where k: "\<And>m. k \<le> m \<Longrightarrow> let s = run_slots ?c n b (prefix_of turn_of m) (job_start produce_logits) in
      job_inv ?c produce_logits n b s \<and> all_returned n s"
    using job_returns [OF assms(1,2) token_coordination_ok [of t produce_logits failed] assms(3)] by blast
  show ?thesis
  proof (intro exI allI impI)
    fix m
    assume "k \<le> m"
    note ends = k [OF this, unfolded Let_def]
    show "let c = ?c; s = run_slots c n b (prefix_of turn_of m) (job_start produce_logits); j = sy_job s in
      list_all (\<lambda>p. sy_pc s p = Returned 0) [0..<n] \<and> protocol_status j = 0 \<and>
      wj_terminal j = (if failed = None then 1 else 2) \<and>
      wj_epoch j = length (cd_products c) \<and> sorted (map fst (wj_rows j)) \<and>
      list_all (\<lambda>k. mset (epoch_products (k + 1) j) =
          mset (map (\<lambda>row. (k + 1, cd_products c ! k, b, row)) [0..<mj_rows (cd_products c ! k)]))
        [0..<length (cd_products c)]"
      using job_left_behind [OF conjunct1 [OF ends] assms(1) conjunct2 [OF ends]] unfolding Let_def .
  qed
qed

text \<open>The coordinator gets only every third turn: two slots, the schedule 1, 1, 0, 1, 1, 0 and so on.\<close>

theorem job_terminates_witness:
  "\<exists>k. \<forall>m\<ge>k. let c = token_coordination \<lparr>tk_weights = (\<lambda>layer role. 0), tk_output = 0, tk_scratch = 0, tk_logits = 0\<rparr> False (Some 1);
       s = run_slots c 2 1 (prefix_of (\<lambda>i. if i mod 3 = 2 then 0 else 1) m) (job_start False)
   in list_all (\<lambda>p. sy_pc s p = Returned 0) [0..<2] \<and> protocol_status (sy_job s) = 0"
proof -
  note ends = job_terminates [of 2 1 "\<lambda>i. if i mod 3 = 2 then 0 else 1"
    "\<lparr>tk_weights = (\<lambda>layer role. 0), tk_output = 0, tk_scratch = 0, tk_logits = 0\<rparr>" False "Some 1",
    OF _ _ uneven_fair]
  then show ?thesis unfolding Let_def by fastforce
qed

end
