(* ===== verification/PB_Processor.thy ===== *)
theory PB_Processor
  imports PB_Prelude
begin

unbundle bit_operations_syntax

text \<open>
  The control state of an application processor (\<open>mp_inference.rs\<close>): what the firmware left in its
  control registers, its x87 control word and its MXCSR, what the inference needs there, and the
  restoration on return. The instructions that read and write the registers are the fields of a
  record; the leaves of \<open>cpuid\<close> are fixed for a processor.
\<close>

section \<open>Registers\<close>

record processor =
  pr_cr0 :: "64 word"
  pr_cr4 :: "64 word"
  pr_xcr0 :: "64 word"
  pr_x87 :: "16 word"
  pr_mxcsr :: "32 word"
  pr_leaf0_eax :: "32 word"
  pr_leaf1_ecx :: "32 word"
  pr_leaf7_ebx :: "32 word"

record cpu_state =
  cs_cr0 :: "64 word"
  cs_cr4 :: "64 word"
  cs_xcr0 :: "64 word"
  cs_x87 :: "16 word"
  cs_mxcsr :: "32 word"

definition CPU_STATE_ZERO :: cpu_state where
  "CPU_STATE_ZERO = \<lparr>cs_cr0 = 0, cs_cr4 = 0, cs_xcr0 = 0, cs_x87 = 0, cs_mxcsr = 0\<rparr>"

text \<open>The masks of the code, each a constant expression there.\<close>

abbreviation CR0_SET :: "64 word" where "CR0_SET \<equiv> push_bit 1 1 OR push_bit 5 1"
abbreviation CR0_CLEAR :: "64 word" where "CR0_CLEAR \<equiv> push_bit 2 1 OR push_bit 3 1"
abbreviation CR4_SET :: "64 word" where "CR4_SET \<equiv> push_bit 9 1 OR push_bit 10 1"
abbreviation CR4_OSXSAVE :: "64 word" where "CR4_OSXSAVE \<equiv> push_bit 18 1"

definition capture_cpu_state :: "processor \<Rightarrow> cpu_state" where
  "capture_cpu_state p =
     \<lparr>cs_cr0 = pr_cr0 p, cs_cr4 = pr_cr4 p,
      cs_xcr0 = (if pr_cr4 p AND CR4_OSXSAVE \<noteq> 0 \<and> pr_leaf1_ecx p AND push_bit 27 1 \<noteq> 0 then pr_xcr0 p else 0),
      cs_x87 = pr_x87 p, cs_mxcsr = pr_mxcsr p\<rparr>"

definition establish_ap_state :: "processor \<Rightarrow> processor" where
  "establish_ap_state p =
     p\<lparr>pr_cr0 := (pr_cr0 p OR CR0_SET) AND NOT CR0_CLEAR,
       pr_cr4 := pr_cr4 p OR CR4_SET, pr_x87 := 0x37f, pr_mxcsr := 0x1f80\<rparr>"

definition restore_cpu_state :: "cpu_state \<Rightarrow> processor \<Rightarrow> processor" where
  "restore_cpu_state state p =
     p\<lparr>pr_x87 := cs_x87 state, pr_mxcsr := cs_mxcsr state, pr_cr4 := cs_cr4 state, pr_cr0 := cs_cr0 state\<rparr>"

definition cpu_state_equal :: "cpu_state \<Rightarrow> cpu_state \<Rightarrow> bool" where
  "cpu_state_equal l r \<longleftrightarrow>
     cs_cr0 l = cs_cr0 r \<and> cs_cr4 l = cs_cr4 r \<and> cs_xcr0 l = cs_xcr0 r \<and> cs_x87 l = cs_x87 r \<and>
     cs_mxcsr l = cs_mxcsr r"

definition cpu_state_ready :: "processor \<Rightarrow> bool" where
  "cpu_state_ready p \<longleftrightarrow>
     (let state = capture_cpu_state p in
      cs_cr0 state AND CR0_SET = CR0_SET \<and> cs_cr0 state AND CR0_CLEAR = 0 \<and>
      cs_cr4 state AND CR4_SET = CR4_SET \<and> cs_x87 state = 0x37f \<and> cs_mxcsr state = 0x1f80)"

definition avx2_capable :: "processor \<Rightarrow> bool" where
  "avx2_capable p \<longleftrightarrow>
     (if pr_leaf0_eax p < 7 then False
      else let required = push_bit 26 1 OR push_bit 27 1 OR push_bit 28 1; state = capture_cpu_state p in
        cs_cr4 state AND CR4_OSXSAVE \<noteq> 0 \<and> pr_leaf1_ecx p AND required = required \<and>
        pr_xcr0 p AND 6 = 6 \<and> pr_leaf7_ebx p AND push_bit 5 1 \<noteq> 0)"

section \<open>Established and restored\<close>

lemma masked_set: "m AND k = 0 \<Longrightarrow> ((x OR m) AND NOT k) AND m = m" for x m k :: "'a::len word"
proof (rule bit_eqI)
  fix i
  assume "m AND k = 0"
  then have "\<not> (bit m i \<and> bit k i)" by (metis bit_and_iff bit_0_eq bot_apply bot_bool_def)
  then show "bit (((x OR m) AND NOT k) AND m) i = bit m i"
    using bit_imp_le_length [of m i] by (auto simp: bit_and_iff bit_or_iff bit_not_iff possible_bit_word)
qed

lemma masked_clear: "(x AND NOT k) AND k = 0" for x k :: "'a::len word"
  by (rule bit_eqI) (simp add: bit_and_iff bit_not_iff)

text \<open>Whatever the firmware left, an established processor is ready.\<close>

lemma establish_ready: "cpu_state_ready (establish_ap_state p)"
proof -
  have "(CR0_SET :: 64 word) AND CR0_CLEAR = 0" by simp
  then have "((pr_cr0 p OR CR0_SET) AND NOT CR0_CLEAR) AND CR0_SET = CR0_SET" by (rule masked_set)
  moreover have "((pr_cr0 p OR CR0_SET) AND NOT CR0_CLEAR) AND CR0_CLEAR = 0" by (rule masked_clear)
  moreover have "(pr_cr4 p OR CR4_SET) AND CR4_SET = CR4_SET" by (rule bit_eqI) (auto simp: bit_and_iff bit_or_iff)
  ultimately show ?thesis
    unfolding cpu_state_ready_def capture_cpu_state_def establish_ap_state_def Let_def by simp
qed

text \<open>Restoration undoes it, whatever the work in between left in MXCSR and in the x87 control word.\<close>

lemma restore_established:
  "restore_cpu_state (capture_cpu_state p) ((establish_ap_state p)\<lparr>pr_x87 := x, pr_mxcsr := m\<rparr>) = p"
  by (simp add: restore_cpu_state_def capture_cpu_state_def establish_ap_state_def)

lemma cpu_state_equal_refl: "cpu_state_equal s s"
  by (simp add: cpu_state_equal_def)

lemma capability_unchanged: "avx2_capable (establish_ap_state p) = avx2_capable p"
proof -
  have "(CR4_SET :: 64 word) AND CR4_OSXSAVE = 0" by simp
  then have "(pr_cr4 p OR CR4_SET) AND CR4_OSXSAVE = pr_cr4 p AND CR4_OSXSAVE"
    by (simp only: bit.conj_disj_distrib2) simp
  then show ?thesis
    unfolding avx2_capable_def capture_cpu_state_def establish_ap_state_def Let_def by simp
qed

end
