(* ===== verification/PB_Dispatch.thy ===== *)
theory PB_Dispatch
  imports PB_Progress PB_Processor
begin

text \<open>
  The dispatch of a token to the application processors (\<open>mp_inference.rs\<close>): the firmware calls
  \<open>ap_entry\<close> on every enabled application processor, in any interleaving. A processor takes a slot,
  saves and establishes its control state, meets the others at the entry barrier, agrees with them
  on the processor path, runs its slot of the job (\<open>PB_Workers\<close>), and restores its state. The boot
  processor then checks what they left behind.
\<close>

section \<open>The shared call\<close>

definition NOT_SET :: nat where "NOT_SET = u32_limit - 1"

record ap_record =
  ar_ready :: nat
  ar_backend :: nat
  ar_worker_status :: nat
  ar_restored :: nat
  ar_saved :: cpu_state

definition ap_record_new :: ap_record where
  "ap_record_new =
     \<lparr>ar_ready = 0, ar_backend = NOT_SET, ar_worker_status = NOT_SET, ar_restored = 0, ar_saved = CPU_STATE_ZERO\<rparr>"

record mp_call =
  mc_records :: "ap_record list"
  mc_slot_masks :: "64 word list"
  mc_workers :: nat
  mc_next_slot :: nat
  mc_returned :: nat
  mc_rejection :: nat
  mc_entry :: barrier

definition mp_call_new :: "nat \<Rightarrow> mp_call" where
  "mp_call_new workers =
     \<lparr>mc_records = replicate workers ap_record_new, mc_slot_masks = replicate ((workers + 63) div 64) 0,
      mc_workers = workers, mc_next_slot = 0, mc_returned = 0, mc_rejection = 0, mc_entry = barrier_new\<rparr>"

section \<open>The program of an application processor\<close>

text \<open>
  The places between the atomic operations: the slot, with the refusal of one too many; the bit of
  the slot, with the refusal of a second one; the record of a ready processor; the entry barrier; the
  look at the records of the peers, with the refusal when one is not ready; the backend; the
  admission; the job; the status, the restored state and the count of the returned.
\<close>

datatype ap_pc =
    TakeSlot | Excess nat
  | MarkSlot nat | Doubled nat
  | Prepare nat
  | Enter nat cpu_state wait_pc
  | Peers nat cpu_state nat bool bool
  | Unready nat cpu_state bool
  | ChooseBackend nat cpu_state bool bool
  | Admit nat cpu_state bool nat
  | Inside nat cpu_state nat job_pc
  | Report nat cpu_state nat
  | Restore nat cpu_state
  | CountReturn nat
  | Left nat

definition upd_record :: "nat \<Rightarrow> (ap_record \<Rightarrow> ap_record) \<Rightarrow> mp_call \<Rightarrow> mp_call" where
  "upd_record slot f call = call\<lparr>mc_records := (mc_records call)[slot := f (mc_records call ! slot)]\<rparr>"

definition ready_bits :: "bool \<Rightarrow> bool \<Rightarrow> nat" where
  "ready_bits ready capable = of_bool ready + 2 * of_bool capable"

text \<open>
  What the job of a slot leaves in the x87 control word and in MXCSR is \<open>work slot\<close>: its arithmetic
  sets the exception flags of MXCSR.
\<close>

fun ap_action ::
  "coordination \<Rightarrow> (nat \<Rightarrow> 16 word \<times> 32 word) \<Rightarrow> ap_pc \<Rightarrow> processor \<times> mp_call \<times> worker_job \<Rightarrow>
   ap_pc \<times> processor \<times> mp_call \<times> worker_job" where
  "ap_action c work TakeSlot (q, call, j) =
     (let slot = mc_next_slot call
      in (if slot \<ge> mc_workers call then Excess slot else MarkSlot slot, q, call\<lparr>mc_next_slot := slot + 1\<rparr>, j))"
| "ap_action c work (Excess slot) (q, call, j) = (Left slot, q, call\<lparr>mc_rejection := 40\<rparr>, j)"
| "ap_action c work (MarkSlot slot) (q, call, j) =
     (let mask_word = slot div 64; slot_bit = push_bit (slot mod 64) 1; old = mc_slot_masks call ! mask_word
      in (if old AND slot_bit \<noteq> 0 then Doubled slot else Prepare slot, q,
          call\<lparr>mc_slot_masks := (mc_slot_masks call)[mask_word := old OR slot_bit]\<rparr>, j))"
| "ap_action c work (Doubled slot) (q, call, j) = (Prepare slot, q, call\<lparr>mc_rejection := 41\<rparr>, j)"
| "ap_action c work (Prepare slot) (q, call, j) =
     (let saved = capture_cpu_state q; q = establish_ap_state q;
          ready = cpu_state_ready q; capable = ready \<and> avx2_capable q
      in (Enter slot saved Load, q,
          upd_record slot (\<lambda>r. r\<lparr>ar_saved := saved, ar_ready := ready_bits ready capable\<rparr>) call, j))"
| "ap_action c work (Enter slot saved w) (q, call, j) =
     (case barrier_wait (mc_workers call) w (mc_entry call) of (w, b) \<Rightarrow>
        (if w = Through then Peers slot saved 0 True True else Enter slot saved w, q, call\<lparr>mc_entry := b\<rparr>, j))"
| "ap_action c work (Peers slot saved peer all_ready common_avx2) (q, call, j) =
     (if peer < mc_workers call
      then let state = ar_ready (mc_records call ! peer)
           in (Peers slot saved (peer + 1) (all_ready \<and> state AND 1 \<noteq> 0) (common_avx2 \<and> state AND 2 \<noteq> 0), q, call, j)
      else if \<not> all_ready then (Unready slot saved common_avx2, q, call, j)
      else (ChooseBackend slot saved all_ready common_avx2, q, call, j))"
| "ap_action c work (Unready slot saved common_avx2) (q, call, j) =
     (ChooseBackend slot saved False common_avx2, q, call\<lparr>mc_rejection := 42\<rparr>, j)"
| "ap_action c work (ChooseBackend slot saved all_ready common_avx2) (q, call, j) =
     (let backend = of_bool common_avx2
      in (Admit slot saved all_ready backend, q, upd_record slot (\<lambda>r. r\<lparr>ar_backend := backend\<rparr>) call, j))"
| "ap_action c work (Admit slot saved all_ready backend) (q, call, j) =
     (if all_ready \<and> mc_rejection call = 0 then Inside slot saved backend RegisterWorkers
      else Report slot saved 42, q, call, j)"
| "ap_action c work (Inside slot saved backend pc) (q, call, j) =
     (case job_action c (mc_workers call) backend slot pc j of (pc, j) \<Rightarrow>
        (case pc of
           Returned v \<Rightarrow> (Report slot saved v, q\<lparr>pr_x87 := fst (work slot), pr_mxcsr := snd (work slot)\<rparr>, call, j)
         | _ \<Rightarrow> (Inside slot saved backend pc, q, call, j)))"
| "ap_action c work (Report slot saved status) (q, call, j) =
     (Restore slot saved, q, upd_record slot (\<lambda>r. r\<lparr>ar_worker_status := status\<rparr>) call, j)"
| "ap_action c work (Restore slot saved) (q, call, j) =
     (let q = restore_cpu_state saved q
      in (CountReturn slot, q,
          upd_record slot (\<lambda>r. r\<lparr>ar_restored := of_bool (cpu_state_equal saved (capture_cpu_state q))\<rparr>) call, j))"
| "ap_action c work (CountReturn slot) (q, call, j) = (Left slot, q, call\<lparr>mc_returned := mc_returned call + 1\<rparr>, j)"
| "ap_action c work (Left slot) s = (Left slot, s)"

record mp_system =
  ms_call :: mp_call
  ms_job :: worker_job
  ms_cpu :: "nat \<Rightarrow> processor"
  ms_pc :: "nat \<Rightarrow> ap_pc"

definition dispatch_start :: "nat \<Rightarrow> bool \<Rightarrow> (nat \<Rightarrow> processor) \<Rightarrow> mp_system" where
  "dispatch_start workers produce_logits cpus =
     \<lparr>ms_call = mp_call_new workers, ms_job = worker_job_new produce_logits, ms_cpu = cpus, ms_pc = (\<lambda>_. TakeSlot)\<rparr>"

definition ap_step :: "coordination \<Rightarrow> (nat \<Rightarrow> 16 word \<times> 32 word) \<Rightarrow> nat \<Rightarrow> mp_system \<Rightarrow> mp_system" where
  "ap_step c work p s =
     (case ap_action c work (ms_pc s p) (ms_cpu s p, ms_call s, ms_job s) of (pc, q, call, j) \<Rightarrow>
        \<lparr>ms_call = call, ms_job = j, ms_cpu = (ms_cpu s)(p := q), ms_pc = (ms_pc s)(p := pc)\<rparr>)"

definition run_aps :: "coordination \<Rightarrow> (nat \<Rightarrow> 16 word \<times> 32 word) \<Rightarrow> nat list \<Rightarrow> mp_system \<Rightarrow> mp_system" where
  "run_aps c work ps s = fold (ap_step c work) ps s"

section \<open>The checks of the boot processor\<close>

definition reject :: "nat \<Rightarrow> nat \<Rightarrow> nat" where
  "reject shared status = (if shared = 0 \<and> status \<noteq> 0 then status else shared)"

definition expected_mask :: "nat \<Rightarrow> nat \<Rightarrow> 64 word" where
  "expected_mask workers word_index =
     (let remaining = workers - word_index * 64 in if remaining \<ge> 64 then - 1 else push_bit remaining 1 - 1)"

definition check_counters :: "nat \<Rightarrow> mp_call \<Rightarrow> nat \<Rightarrow> nat" where
  "check_counters workers call shared =
     (if mc_next_slot call \<noteq> workers \<or> mc_returned call \<noteq> workers \<or>
         br_arrivals (mc_entry call) \<noteq> 0 \<or> br_generation (mc_entry call) \<noteq> 1
      then reject shared 30 else shared)"

definition check_masks :: "nat \<Rightarrow> mp_call \<Rightarrow> nat \<Rightarrow> nat" where
  "check_masks workers call shared =
     fold (\<lambda>w shared. if mc_slot_masks call ! w \<noteq> expected_mask workers w then reject shared 30 else shared)
       [0..<length (mc_slot_masks call)] shared"

definition check_record :: "ap_record \<Rightarrow> nat option \<times> nat \<Rightarrow> nat option \<times> nat" where
  "check_record r s =
     (case s of (backend, shared) \<Rightarrow>
      let shared = (if ar_restored r \<noteq> 1 then reject shared 31 else shared);
          shared = (if ar_worker_status r \<noteq> 0 then reject shared (ar_worker_status r) else shared);
          shared = (case backend of Some b \<Rightarrow> if b \<noteq> ar_backend r then reject shared 32 else shared | None \<Rightarrow> shared)
      in (Some (ar_backend r), shared))"

definition dispatch_status :: "nat \<Rightarrow> mp_call \<Rightarrow> worker_job \<Rightarrow> nat" where
  "dispatch_status workers call job =
     (let shared = check_masks workers call (check_counters workers call (mc_rejection call));
          shared = snd (fold (\<lambda>slot. check_record (mc_records call ! slot)) [0..<workers] (None, shared))
      in reject shared (protocol_status job))"

text \<open>The end of \<open>dispatch_token\<close>: a fatal error carries the firmware's status and the shared one.\<close>

definition dispatch_result :: "nat \<Rightarrow> nat \<Rightarrow> mp_system \<Rightarrow> (nat \<times> nat) + unit" where
  "dispatch_result workers startup s =
     (if startup \<noteq> 0 then Inl (startup, 0)
      else let shared = dispatch_status workers (ms_call s) (ms_job s) in if shared \<noteq> 0 then Inl (0, shared) else Inr ())"

end
