(* ===== verification/PB_Agreement.thy ===== *)
theory PB_Agreement
  imports PB_Dispatch
begin

text \<open>
  What holds in every interleaving of the application processors (\<open>PB_Dispatch\<close>): the slots are
  distinct, nobody is refused, all processors inside the job use the same path, and the job itself
  keeps its invariant (\<open>PB_Workers\<close>). The processors are looked at in the order in which they took
  their slots.
\<close>

section \<open>Slots\<close>

definition slot_pc :: "nat list \<Rightarrow> mp_system \<Rightarrow> nat \<Rightarrow> ap_pc" where
  "slot_pc order s k = (if k < length order then ms_pc s (order ! k) else TakeSlot)"

text \<open>A slot as the job and as the entry barrier see it.\<close>

fun core_pc :: "ap_pc \<Rightarrow> job_pc" where
  "core_pc (Inside k saved b pc) = pc"
| "core_pc (Report k saved v) = Returned v"
| "core_pc (Restore k saved) = Returned 0"
| "core_pc (CountReturn k) = Returned 0"
| "core_pc (Left k) = Returned 0"
| "core_pc pc = RegisterWorkers"

fun entry_place :: "ap_pc \<Rightarrow> place" where
  "entry_place (Enter k saved w) = (0, w)"
| "entry_place TakeSlot = (0, Load)"
| "entry_place (Excess k) = (0, Load)"
| "entry_place (MarkSlot k) = (0, Load)"
| "entry_place (Doubled k) = (0, Load)"
| "entry_place (Prepare k) = (0, Load)"
| "entry_place pc = (1, Load)"

fun marked :: "ap_pc \<Rightarrow> bool" where
  "marked TakeSlot = False"
| "marked (MarkSlot k) = False"
| "marked pc = True"

fun has_left :: "ap_pc \<Rightarrow> bool" where
  "has_left (Left k) = True"
| "has_left pc = False"

definition common_path :: "nat \<Rightarrow> (nat \<Rightarrow> processor) \<Rightarrow> bool" where
  "common_path n cpus \<longleftrightarrow> (\<forall>p<n. avx2_capable (cpus p))"

text \<open>What a processor in slot \<open>k\<close> knows, with the state it had before the call and its record.\<close>

definition prepared :: "processor \<Rightarrow> cpu_state \<Rightarrow> processor \<Rightarrow> ap_record \<Rightarrow> bool" where
  "prepared old saved q r \<longleftrightarrow> saved = capture_cpu_state old \<and> q = establish_ap_state old \<and>
     ar_ready r = ready_bits True (avx2_capable old)"

definition reported :: "processor \<Rightarrow> bool \<Rightarrow> ap_record \<Rightarrow> bool" where
  "reported old path r \<longleftrightarrow> ar_ready r = ready_bits True (avx2_capable old) \<and> ar_backend r = of_bool path"

fun ap_ok :: "nat list \<Rightarrow> (nat \<Rightarrow> processor) \<Rightarrow> bool \<Rightarrow> nat \<Rightarrow> ap_pc \<Rightarrow> processor \<Rightarrow> ap_record \<Rightarrow> bool" where
  "ap_ok order cpus path k (MarkSlot k') q r \<longleftrightarrow> k' = k \<and> q = cpus (order ! k)"
| "ap_ok order cpus path k (Prepare k') q r \<longleftrightarrow> k' = k \<and> q = cpus (order ! k)"
| "ap_ok order cpus path k (Enter k' saved w) q r \<longleftrightarrow> k' = k \<and> prepared (cpus (order ! k)) saved q r \<and> w \<noteq> Through"
| "ap_ok order cpus path k (Peers k' saved peer all common) q r \<longleftrightarrow> k' = k \<and> prepared (cpus (order ! k)) saved q r \<and>
     all \<and> peer \<le> length order \<and> common = (\<forall>i<peer. avx2_capable (cpus (order ! i)))"
| "ap_ok order cpus path k (ChooseBackend k' saved all common) q r \<longleftrightarrow> k' = k \<and>
     prepared (cpus (order ! k)) saved q r \<and> all \<and> common = path"
| "ap_ok order cpus path k (Admit k' saved all b) q r \<longleftrightarrow> k' = k \<and> prepared (cpus (order ! k)) saved q r \<and>
     reported (cpus (order ! k)) path r \<and> all \<and> b = of_bool path"
| "ap_ok order cpus path k (Inside k' saved b pc) q r \<longleftrightarrow> k' = k \<and> prepared (cpus (order ! k)) saved q r \<and>
     reported (cpus (order ! k)) path r \<and> b = of_bool path \<and> (\<forall>v. pc \<noteq> Returned v)"
| "ap_ok order cpus path k (Report k' saved v) q r \<longleftrightarrow> k' = k \<and> reported (cpus (order ! k)) path r \<and> v = 0 \<and>
     saved = capture_cpu_state (cpus (order ! k)) \<and> restore_cpu_state (capture_cpu_state (cpus (order ! k))) q = cpus (order ! k)"
| "ap_ok order cpus path k (Restore k' saved) q r \<longleftrightarrow> k' = k \<and> reported (cpus (order ! k)) path r \<and>
     ar_worker_status r = 0 \<and>
     saved = capture_cpu_state (cpus (order ! k)) \<and> restore_cpu_state (capture_cpu_state (cpus (order ! k))) q = cpus (order ! k)"
| "ap_ok order cpus path k (CountReturn k') q r \<longleftrightarrow> k' = k \<and> reported (cpus (order ! k)) path r \<and>
     ar_worker_status r = 0 \<and> ar_restored r = 1 \<and> q = cpus (order ! k)"
| "ap_ok order cpus path k (Left k') q r \<longleftrightarrow> k' = k \<and> reported (cpus (order ! k)) path r \<and>
     ar_worker_status r = 0 \<and> ar_restored r = 1 \<and> q = cpus (order ! k)"
| "ap_ok order cpus path k pc q r \<longleftrightarrow> False"

section \<open>The invariant\<close>

definition job_part :: "nat list \<Rightarrow> mp_system \<Rightarrow> job_system" where
  "job_part order s = \<lparr>sy_job = ms_job s, sy_pc = (\<lambda>k. core_pc (slot_pc order s k))\<rparr>"

definition slots_inv :: "nat \<Rightarrow> (nat \<Rightarrow> processor) \<Rightarrow> nat list \<Rightarrow> mp_system \<Rightarrow> bool" where
  "slots_inv n cpus order s \<longleftrightarrow> distinct order \<and> set order \<subseteq> {..<n} \<and> mc_next_slot (ms_call s) = length order \<and>
     (\<forall>p<n. p \<notin> set order \<longrightarrow> ms_pc s p = TakeSlot \<and> ms_cpu s p = cpus p) \<and>
     (\<forall>k<length order. ap_ok order cpus (common_path n cpus) k (ms_pc s (order ! k)) (ms_cpu s (order ! k))
        (mc_records (ms_call s) ! k))"

definition call_inv :: "nat \<Rightarrow> nat list \<Rightarrow> mp_system \<Rightarrow> bool" where
  "call_inv n order s \<longleftrightarrow>
     (let call = ms_call s in
      length (mc_records call) = n \<and> mc_workers call = n \<and> mc_rejection call = 0 \<and>
      length (mc_slot_masks call) = (n + 63) div 64 \<and>
      (\<forall>w<(n + 63) div 64. \<forall>i<64. bit (mc_slot_masks call ! w) i = marked (slot_pc order s (w * 64 + i))) \<and>
      mc_returned call = card {k. k < n \<and> has_left (slot_pc order s k)} \<and>
      barrier_inv n (\<lambda>k. entry_place (slot_pc order s k)) (mc_entry call))"

definition mp_inv :: "coordination \<Rightarrow> bool \<Rightarrow> nat \<Rightarrow> (nat \<Rightarrow> processor) \<Rightarrow> nat list \<Rightarrow> mp_system \<Rightarrow> bool" where
  "mp_inv c x n cpus order s \<longleftrightarrow> slots_inv n cpus order s \<and> call_inv n order s \<and>
     job_inv c x n (of_bool (common_path n cpus)) (job_part order s)"

lemma slot_pc_Nil [simp]: "slot_pc [] s = (\<lambda>k. TakeSlot)"
  by (simp add: slot_pc_def fun_eq_iff)

lemma mp_inv_start:
  assumes "2 \<le> n"
  shows "mp_inv c x n cpus [] (dispatch_start n x cpus)"
proof -
  have "barrier_inv n (\<lambda>k. (0, Load)) barrier_new" by (rule barrier_inv_start) (use assms in auto)
  moreover have "job_part [] (dispatch_start n x cpus) = job_start x"
    by (simp add: job_part_def dispatch_start_def job_start_def)
  moreover have "w < (n + 63) div 64 \<Longrightarrow> replicate ((n + 63) div 64) (0 :: 64 word) ! w = 0" for w by simp
  ultimately show ?thesis
    using job_inv_start [OF assms]
    by (simp add: mp_inv_def slots_inv_def call_inv_def Let_def) (simp add: dispatch_start_def mp_call_new_def)
qed

lemma order_facts:
  assumes "slots_inv n cpus order s"
  shows "length order \<le> n" "p < n \<Longrightarrow> p \<notin> set order \<Longrightarrow> length order < n" "k < length order \<Longrightarrow> order ! k < n"
    "length order = n \<Longrightarrow> set order = {..<n}"
proof -
  have d: "distinct order" "set order \<subseteq> {..<n}" using assms by (auto simp: slots_inv_def)
  then have card: "card (set order) = length order" "card (set order) \<le> n"
    using card_mono [of "{..<n}" "set order"] by (simp_all add: distinct_card)
  then show "length order \<le> n" by simp
  show "k < length order \<Longrightarrow> order ! k < n" using d(2) nth_mem by blast
  show "length order = n \<Longrightarrow> set order = {..<n}" using d card by (intro card_subset_eq) auto
  show "length order < n" if "p < n" "p \<notin> set order"
  proof (rule ccontr)
    assume "\<not> ?thesis"
    then have "set order = {..<n}" using d card by (intro card_subset_eq) auto
    then show False using that by blast
  qed
qed

lemma common_path_order:
  assumes "slots_inv n cpus order s" "length order = n"
  shows "(\<forall>i<n. avx2_capable (cpus (order ! i))) = common_path n cpus"
proof -
  have "set order = {..<n}" using order_facts(4) [OF assms] .
  then show ?thesis unfolding common_path_def using assms(2) by (metis in_set_conv_nth lessThan_iff)
qed

text \<open>Once a slot is behind the entry barrier, all slots are taken and prepared.\<close>

lemma behind_entry:
  assumes "call_inv n order s" and k: "k < n" "entry_place (slot_pc order s k) = (1, Load)" and i: "i < n"
  shows "br_generation (mc_entry (ms_call s)) = 1"
    "entry_place (slot_pc order s i) = (1, Load) \<or> (\<exists>i' saved. slot_pc order s i = Enter i' saved (Spin 0))"
    "i < length order"
proof -
  have barrier: "barrier_inv n (\<lambda>k. entry_place (slot_pc order s k)) (mc_entry (ms_call s))"
    using assms(1) by (simp add: call_inv_def Let_def)
  show g: "br_generation (mc_entry (ms_call s)) = 1"
    using barrier_inv_place [OF barrier k(1)] k(2) by (simp add: place_ok_Load)
  have place: "place_ok 1 (entry_place (slot_pc order s i))" using barrier_inv_place [OF barrier i] g by simp
  show *: "entry_place (slot_pc order s i) = (1, Load) \<or> (\<exists>i' saved. slot_pc order s i = Enter i' saved (Spin 0))"
    using place by (cases "slot_pc order s i") (auto simp: place_ok_Load dest!: place_ok_round)
  then show "i < length order" by (auto simp: slot_pc_def split: if_splits)
qed

section \<open>Steps\<close>

lemma slot_pc_move:
  assumes "distinct order" "k < length order" "ms_pc s' = (ms_pc s)(order ! k := pc)"
  shows "slot_pc order s' = (slot_pc order s)(k := pc)"
  using assms by (auto simp: slot_pc_def fun_eq_iff nth_eq_iff_index_eq)

text \<open>A move of the processor in slot \<open>k\<close>.\<close>

lemma mp_inv_move:
  assumes inv: "mp_inv c x n cpus order s" and k: "k < length order" and p: "p = order ! k"
    and s': "s' = \<lparr>ms_call = call, ms_job = j, ms_cpu = (ms_cpu s)(p := q), ms_pc = (ms_pc s)(p := pc)\<rparr>"
    and same: "mc_workers call = n" "mc_next_slot call = mc_next_slot (ms_call s)" "mc_rejection call = 0"
      "mc_records call = (mc_records (ms_call s))[k := r]"
    and ok: "ap_ok order cpus (common_path n cpus) k pc q r"
    and masks: "length (mc_slot_masks call) = (n + 63) div 64"
      "\<And>w i. w < (n + 63) div 64 \<Longrightarrow> i < 64 \<Longrightarrow>
        bit (mc_slot_masks call ! w) i = (if w * 64 + i = k then marked pc else bit (mc_slot_masks (ms_call s) ! w) i)"
    and returned: "\<not> has_left (ms_pc s p)" "mc_returned call = mc_returned (ms_call s) + of_bool (has_left pc)"
    and entry: "barrier_inv n ((\<lambda>k. entry_place (slot_pc order s k))(k := entry_place pc)) (mc_entry call)"
    and job: "job_inv c x n (of_bool (common_path n cpus))
      \<lparr>sy_job = j, sy_pc = (\<lambda>k. core_pc (slot_pc order s k))(k := core_pc pc)\<rparr>"
  shows "mp_inv c x n cpus order s'"
proof -
  have slots: "slots_inv n cpus order s" and call: "call_inv n order s" using inv by (simp_all add: mp_inv_def)
  have d: "distinct order" "k < n" using slots order_facts [OF slots] k by (auto simp: slots_inv_def)
  have view: "slot_pc order s' = (slot_pc order s)(k := pc)"
    using slot_pc_move [OF d(1) k, of s' s pc] by (simp add: s' p)
  have len: "length (mc_records (ms_call s)) = n" using call by (simp add: call_inv_def Let_def)
  have others: "i < length order \<Longrightarrow> order ! i = p \<longleftrightarrow> i = k" for i using d(1) k p by (auto simp: nth_eq_iff_index_eq)
  have "slots_inv n cpus order s'"
    using slots ok same len d(2) others k p unfolding slots_inv_def s'
    by (auto simp: nth_list_update)
  moreover have "call_inv n order s'"
  proof -
    let ?A = "{i. i < n \<and> has_left (slot_pc order s i)}"
    have "{i. i < n \<and> has_left (slot_pc order s' i)} = (if has_left pc then insert k ?A else ?A)" "k \<notin> ?A"
      using returned(1) d(2) k p by (auto simp: view slot_pc_def)
    then have "mc_returned call = card {i. i < n \<and> has_left (slot_pc order s' i)}"
      using returned(2) call by (simp add: call_inv_def Let_def)
    moreover have "(\<lambda>i. entry_place (slot_pc order s' i)) = (\<lambda>i. entry_place (slot_pc order s i))(k := entry_place pc)"
      by (simp add: view fun_eq_iff)
    ultimately show ?thesis
      using call same masks entry len unfolding call_inv_def Let_def s' by (simp add: view [unfolded s'])
  qed
  moreover have "job_part order s' = \<lparr>sy_job = j, sy_pc = (\<lambda>k. core_pc (slot_pc order s k))(k := core_pc pc)\<rparr>"
    unfolding job_part_def view by (simp add: s' fun_eq_iff)
  ultimately show ?thesis using job by (simp add: mp_inv_def)
qed

text \<open>The same where the masks stay, and where the entry barrier and the job stay as well.\<close>

lemma mp_inv_beside_masks:
  assumes inv: "mp_inv c x n cpus order s" and k: "k < length order" "p = order ! k"
    and s': "s' = \<lparr>ms_call = call, ms_job = j, ms_cpu = (ms_cpu s)(p := q), ms_pc = (ms_pc s)(p := pc)\<rparr>"
    and same: "mc_workers call = n" "mc_next_slot call = mc_next_slot (ms_call s)" "mc_rejection call = 0"
      "mc_records call = (mc_records (ms_call s))[k := r]" "mc_slot_masks call = mc_slot_masks (ms_call s)"
      "marked pc" "marked (ms_pc s p)"
    and ok: "ap_ok order cpus (common_path n cpus) k pc q r"
    and returned: "\<not> has_left (ms_pc s p)" "mc_returned call = mc_returned (ms_call s) + of_bool (has_left pc)"
    and entry: "barrier_inv n ((\<lambda>k. entry_place (slot_pc order s k))(k := entry_place pc)) (mc_entry call)"
    and job: "job_inv c x n (of_bool (common_path n cpus))
      \<lparr>sy_job = j, sy_pc = (\<lambda>k. core_pc (slot_pc order s k))(k := core_pc pc)\<rparr>"
  shows "mp_inv c x n cpus order s'"
proof (rule mp_inv_move [OF inv k s' same(1-4) ok _ _ returned entry job])
  have call: "call_inv n order s" using inv by (simp add: mp_inv_def)
  show "length (mc_slot_masks call) = (n + 63) div 64" using call same by (simp add: call_inv_def Let_def)
  show "bit (mc_slot_masks call ! w) i = (if w * 64 + i = k then marked pc else bit (mc_slot_masks (ms_call s) ! w) i)"
    if "w < (n + 63) div 64" "i < 64" for w i
    using call same that k by (auto simp: call_inv_def Let_def slot_pc_def)
qed

lemma mp_inv_quiet:
  assumes inv: "mp_inv c x n cpus order s" and k: "k < length order" "p = order ! k"
    and s': "s' = \<lparr>ms_call = call, ms_job = ms_job s, ms_cpu = (ms_cpu s)(p := q), ms_pc = (ms_pc s)(p := pc)\<rparr>"
    and call: "call = (ms_call s)\<lparr>mc_records := (mc_records (ms_call s))[k := r], mc_returned := m\<rparr>"
      "m = mc_returned (ms_call s) + of_bool (has_left pc)"
      "marked pc" "marked (ms_pc s p)"
    and ok: "ap_ok order cpus (common_path n cpus) k pc q r" and stays: "\<not> has_left (ms_pc s p)"
    and same: "entry_place pc = entry_place (ms_pc s p)" "core_pc pc = core_pc (ms_pc s p)"
  shows "mp_inv c x n cpus order s'"
proof (rule mp_inv_beside_masks [OF inv k s' _ _ _ _ _ call(3,4) ok stays])
  have at: "slot_pc order s k = ms_pc s p" using k by (simp add: slot_pc_def)
  have places: "(\<lambda>k. entry_place (slot_pc order s k))(k := entry_place pc) = (\<lambda>k. entry_place (slot_pc order s k))"
    "(\<lambda>k. core_pc (slot_pc order s k))(k := core_pc pc) = (\<lambda>k. core_pc (slot_pc order s k))"
    using at same by (auto simp: fun_eq_iff)
  show "barrier_inv n ((\<lambda>k. entry_place (slot_pc order s k))(k := entry_place pc)) (mc_entry call)"
    using inv unfolding places by (simp add: mp_inv_def call_inv_def Let_def call)
  show "job_inv c x n (of_bool (common_path n cpus))
      \<lparr>sy_job = ms_job s, sy_pc = (\<lambda>k. core_pc (slot_pc order s k))(k := core_pc pc)\<rparr>"
    using inv unfolding places by (simp add: mp_inv_def job_part_def)
qed (use inv in \<open>simp_all add: call mp_inv_def call_inv_def Let_def\<close>)

text \<open>A processor that takes the next slot.\<close>

lemma mp_inv_take:
  assumes inv: "mp_inv c x n cpus order s" and p: "p < n" "ms_pc s p = TakeSlot"
  shows "mp_inv c x n cpus (order @ [p]) (ap_step c work p s)"
proof -
  have slots: "slots_inv n cpus order s" and call: "call_inv n order s" using inv by (simp_all add: mp_inv_def)
  have new: "p \<notin> set order"
  proof
    assume "p \<in> set order"
    then obtain k where "k < length order" "p = order ! k" by (auto simp: in_set_conv_nth)
    then show False using slots p by (auto simp: slots_inv_def)
  qed
  have room: "length order < n" by (rule order_facts(2) [OF slots p(1) new])
  let ?k = "length order"
  let ?s = "\<lparr>ms_call = (ms_call s)\<lparr>mc_next_slot := ?k + 1\<rparr>, ms_job = ms_job s, ms_cpu = ms_cpu s,
    ms_pc = (ms_pc s)(p := MarkSlot ?k)\<rparr>"
  have facts: "mc_next_slot (ms_call s) = ?k" "mc_workers (ms_call s) = n" "ms_cpu s p = cpus p"
    using slots call new p by (auto simp: slots_inv_def call_inv_def Let_def)
  then have step: "ap_step c work p s = ?s" using p room by (simp add: ap_step_def Let_def fun_upd_idem)
  have "slot_pc (order @ [p]) ?s i = ((slot_pc order s)(?k := MarkSlot ?k)) i" for i
    using nth_mem [of i order] new by (auto simp: slot_pc_def nth_append)
  then have view: "slot_pc (order @ [p]) ?s = (slot_pc order s)(?k := MarkSlot ?k)" by blast
  have free: "slot_pc order s ?k = TakeSlot" by (simp add: slot_pc_def)
  let ?v = "(slot_pc order s)(?k := MarkSlot ?k)"
  have same: "marked (?v i) = marked (slot_pc order s i)" "has_left (?v i) = has_left (slot_pc order s i)"
    "entry_place (?v i) = entry_place (slot_pc order s i)" "core_pc (?v i) = core_pc (slot_pc order s i)" for i
    using free by simp_all
  have "ap_ok (order @ [p]) cpus path k pc q r" if "ap_ok order cpus path k pc q r" "k < ?k" for path k pc q r
    using that by (cases "(order, cpus, path, k, pc, q, r)" rule: ap_ok.cases) (auto simp: nth_append)
  then have "slots_inv n cpus (order @ [p]) ?s"
    using slots new p facts nth_mem [of _ order] unfolding slots_inv_def
    by (auto simp: less_Suc_eq nth_append)
  moreover have "call_inv n (order @ [p]) ?s"
    using call unfolding call_inv_def Let_def view same by simp
  moreover have "job_part (order @ [p]) ?s = job_part order s"
    unfolding job_part_def view same by simp
  ultimately show ?thesis using inv step by (simp add: mp_inv_def)
qed

text \<open>What the invariant says of the processor in a slot.\<close>

lemma mp_inv_slot:
  assumes "mp_inv c x n cpus order s" "k < length order"
  shows "ap_ok order cpus (common_path n cpus) k (ms_pc s (order ! k)) (ms_cpu s (order ! k)) (mc_records (ms_call s) ! k)"
    "mc_workers (ms_call s) = n" "mc_rejection (ms_call s) = 0" "length (mc_records (ms_call s)) = n" "k < n"
    "slot_pc order s k = ms_pc s (order ! k)" "mc_next_slot (ms_call s) = length order"
    "barrier_inv n (\<lambda>k. entry_place (slot_pc order s k)) (mc_entry (ms_call s))"
    "job_inv c x n (of_bool (common_path n cpus)) (job_part order s)"
  using assms order_facts(1) [of n cpus order s]
  by (auto simp: mp_inv_def slots_inv_def call_inv_def Let_def slot_pc_def)

lemma ready_bits_first: "ready_bits True capable mod 2 = Suc 0"
  by (cases capable) (simp_all add: ready_bits_def)

lemma ready_bits_second: "ready_bits True capable AND 2 > 0 \<longleftrightarrow> capable"
proof -
  have "ready_bits True True = 3" "ready_bits True False = 1" by (simp_all add: ready_bits_def)
  then show ?thesis by (cases capable) simp_all
qed

lemma bit_set_bit: "bit (push_bit m 1 :: 64 word) i \<longleftrightarrow> i = m \<and> i < 64"
  by (auto simp: bit_push_bit_iff bit_1_iff simp del: push_bit_of_1)

lemma mark_step:
  assumes inv: "mp_inv c x n cpus order s" and k: "k < length order" "p = order ! k" and pc: "ms_pc s p = MarkSlot k"
  shows "mp_inv c x n cpus order (ap_step c work p s)"
proof -
  note slot = mp_inv_slot [OF inv k(1), folded k(2)]
  let ?masks = "mc_slot_masks (ms_call s)" let ?w = "k div 64" let ?i = "k mod 64"
  have call: "call_inv n order s" using inv by (simp add: mp_inv_def)
  have w: "?w < (n + 63) div 64" using slot(5) by simp
  have bits: "bit (?masks ! w) i = marked (slot_pc order s (w * 64 + i))" if "w < (n + 63) div 64" "i < 64" for w i
    using call that by (simp add: call_inv_def Let_def)
  have len: "length ?masks = (n + 63) div 64" using call by (simp add: call_inv_def Let_def)
  have "\<not> bit (?masks ! ?w) ?i" using bits [OF w, of ?i] slot(6) pc by simp
  then have fresh: "(?masks ! ?w) AND push_bit ?i 1 = 0"
    by (intro bit_eqI) (auto simp: bit_and_iff bit_set_bit simp del: push_bit_of_1)
  let ?masks' = "?masks[?w := (?masks ! ?w) OR push_bit ?i 1]"
  have step: "ap_step c work p s = \<lparr>ms_call = (ms_call s)\<lparr>mc_slot_masks := ?masks'\<rparr>, ms_job = ms_job s,
      ms_cpu = (ms_cpu s)(p := ms_cpu s p), ms_pc = (ms_pc s)(p := Prepare k)\<rparr>"
    using pc fresh by (simp add: ap_step_def Let_def)
  show ?thesis
  proof (rule mp_inv_move [OF inv k step])
    show "bit (mc_slot_masks ((ms_call s)\<lparr>mc_slot_masks := ?masks'\<rparr>) ! w) i =
        (if w * 64 + i = k then marked (Prepare k) else bit (?masks ! w) i)"
      if "w < (n + 63) div 64" "i < 64" for w i
    proof -
      have "w * 64 + i = k \<longleftrightarrow> w = ?w \<and> i = ?i" using that(2) by auto
      then show ?thesis
        using that len by (cases "w = ?w") (auto simp: bit_or_iff bit_set_bit simp del: push_bit_of_1)
    qed
    show "ap_ok order cpus (common_path n cpus) k (Prepare k) (ms_cpu s p) (mc_records (ms_call s) ! k)"
      using slot(1) pc k by simp
    have places: "(\<lambda>k. entry_place (slot_pc order s k))(k := entry_place (Prepare k)) = (\<lambda>k. entry_place (slot_pc order s k))"
      "(\<lambda>k. core_pc (slot_pc order s k))(k := core_pc (Prepare k)) = (\<lambda>k. core_pc (slot_pc order s k))"
      using slot(6) pc by (auto simp: fun_eq_iff)
    show "barrier_inv n ((\<lambda>k. entry_place (slot_pc order s k))(k := entry_place (Prepare k)))
        (mc_entry ((ms_call s)\<lparr>mc_slot_masks := ?masks'\<rparr>))"
      using slot(8) unfolding places by simp
    show "job_inv c x n (of_bool (common_path n cpus))
        \<lparr>sy_job = ms_job s, sy_pc = (\<lambda>k. core_pc (slot_pc order s k))(k := core_pc (Prepare k))\<rparr>"
      using slot(9) unfolding places by (simp add: job_part_def)
  qed (use slot pc k len in simp_all)
qed

lemma enter_step:
  assumes inv: "mp_inv c x n cpus order s" and k: "k < length order" "p = order ! k"
    and pc: "ms_pc s p = Enter k saved w"
  shows "mp_inv c x n cpus order (ap_step c work p s)"
proof -
  note slot = mp_inv_slot [OF inv k(1), folded k(2)]
  obtain w' b' where run: "barrier_wait n w (mc_entry (ms_call s)) = (w', b')" by fastforce
  let ?pc = "if w' = Through then Peers k saved 0 True True else Enter k saved w'"
  have step: "ap_step c work p s = \<lparr>ms_call = (ms_call s)\<lparr>mc_entry := b'\<rparr>, ms_job = ms_job s,
      ms_cpu = (ms_cpu s)(p := ms_cpu s p), ms_pc = (ms_pc s)(p := ?pc)\<rparr>"
    using pc run slot(2) by (simp add: ap_step_def)
  have "barrier_inv n ((\<lambda>k. entry_place (slot_pc order s k))(k := after_wait 0 w')) b'"
    by (rule barrier_inv_wait [OF slot(8) slot(5) _ run]) (use slot(6) pc in simp)
  moreover have "entry_place ?pc = after_wait 0 w'" by (cases w') simp_all
  ultimately have entry: "barrier_inv n ((\<lambda>k. entry_place (slot_pc order s k))(k := entry_place ?pc)) b'" by simp
  have places: "(\<lambda>k. core_pc (slot_pc order s k))(k := core_pc ?pc) = (\<lambda>k. core_pc (slot_pc order s k))"
    using slot(6) pc by (auto simp: fun_eq_iff)
  show ?thesis
  proof (rule mp_inv_beside_masks [OF inv k step])
    show "job_inv c x n (of_bool (common_path n cpus))
        \<lparr>sy_job = ms_job s, sy_pc = (\<lambda>k. core_pc (slot_pc order s k))(k := core_pc ?pc)\<rparr>"
      using slot(9) unfolding places by (simp add: job_part_def)
    show "ap_ok order cpus (common_path n cpus) k ?pc (ms_cpu s p) (mc_records (ms_call s) ! k)"
      using slot(1) pc k by simp
  qed (use slot pc k entry in simp_all)
qed

text \<open>The steps of the job itself: they are the steps of \<open>PB_Workers\<close>.\<close>

lemma job_part_step:
  assumes inv: "mp_inv c x n cpus order s" and k: "k < length order" "p = order ! k"
    and pc: "ms_pc s p = Inside k saved b jpc" and run: "job_action c n b k jpc (ms_job s) = (jpc', j')"
  shows "job_step c n (of_bool (common_path n cpus)) k (job_part order s) =
      \<lparr>sy_job = j', sy_pc = (\<lambda>k. core_pc (slot_pc order s k))(k := jpc')\<rparr>"
proof -
  note slot = mp_inv_slot [OF inv k(1), folded k(2)]
  have "b = of_bool (common_path n cpus)" using slot(1) pc by simp
  then show ?thesis using slot(6) pc run by (simp add: job_step_def job_part_def)
qed

lemma inside_step:
  assumes inv: "mp_inv c x n cpus order s" and n: "2 \<le> n" and c: "coordination_ok c x"
    and k: "k < length order" "p = order ! k" and pc: "ms_pc s p = Inside k saved b jpc"
  shows "mp_inv c x n cpus order (ap_step c work p s)"
proof -
  note slot = mp_inv_slot [OF inv k(1), folded k(2)]
  obtain jpc' j' where run: "job_action c n b k jpc (ms_job s) = (jpc', j')" by fastforce
  let ?part = "\<lparr>sy_job = j', sy_pc = (\<lambda>k. core_pc (slot_pc order s k))(k := jpc')\<rparr>"
  have job: "job_inv c x n (of_bool (common_path n cpus)) ?part"
    using job_inv_step [OF slot(9) n _ c slot(5)] unfolding job_part_step [OF inv k pc run] by simp
  have place: "(\<lambda>k. entry_place (slot_pc order s k))(k := (1, Load)) = (\<lambda>k. entry_place (slot_pc order s k))"
    using slot(6) pc by (auto simp: fun_eq_iff)
  have entry: "barrier_inv n ((\<lambda>k. entry_place (slot_pc order s k))(k := (1, Load))) (mc_entry (ms_call s))"
    using slot(8) unfolding place .
  show ?thesis
  proof (cases "\<exists>v. jpc' = Returned v")
    case False
    then have step: "ap_step c work p s = \<lparr>ms_call = ms_call s, ms_job = j',
        ms_cpu = (ms_cpu s)(p := ms_cpu s p), ms_pc = (ms_pc s)(p := Inside k saved b jpc')\<rparr>"
      using pc run slot(2) by (simp add: ap_step_def split: job_pc.splits)
    show ?thesis
      by (rule mp_inv_beside_masks [OF inv k step, where r = "mc_records (ms_call s) ! k"])
        (use slot pc k entry job False in simp_all)
  next
    case True
    then obtain v where v: "jpc' = Returned v" by blast
    have "v = 0"
      using job_inv_coord(1) [OF job n] job_inv_slot(3) [OF job slot(5)] v by (cases "k = 0") simp_all
    moreover have "restore_cpu_state saved ((ms_cpu s p)\<lparr>pr_x87 := fst (work k), pr_mxcsr := snd (work k)\<rparr>) = cpus p"
      using slot(1) pc k restore_established [of "cpus p"] by (simp add: prepared_def)
    moreover have step: "ap_step c work p s = \<lparr>ms_call = ms_call s, ms_job = j',
        ms_cpu = (ms_cpu s)(p := (ms_cpu s p)\<lparr>pr_x87 := fst (work k), pr_mxcsr := snd (work k)\<rparr>),
        ms_pc = (ms_pc s)(p := Report k saved v)\<rparr>"
      using pc run slot(2) v by (simp add: ap_step_def)
    ultimately show ?thesis
      by (intro mp_inv_beside_masks [OF inv k step, where r = "mc_records (ms_call s) ! k"])
        (use slot pc k entry job v in \<open>simp_all add: prepared_def\<close>)
  qed
qed

text \<open>The other steps touch only the processor, its record and the count of the returned.\<close>

lemma record_step:
  assumes inv: "mp_inv c x n cpus order s" and k: "k < length order" "p = order ! k"
    and pc: "case ms_pc s p of
        TakeSlot \<Rightarrow> False | MarkSlot i \<Rightarrow> False | Enter i saved w \<Rightarrow> False | Inside i saved b jpc \<Rightarrow> False | _ \<Rightarrow> True"
  shows "mp_inv c x n cpus order (ap_step c work p s)"
proof -
  note slot = mp_inv_slot [OF inv k(1), folded k(2)]
  have slots: "slots_inv n cpus order s" and call: "call_inv n order s" using inv by (simp_all add: mp_inv_def)
  note quiet = mp_inv_quiet [OF inv k]
  show ?thesis
  proof (cases "ms_pc s p")
    case (Prepare k')
    let ?r = "(mc_records (ms_call s) ! k)\<lparr>ar_saved := capture_cpu_state (ms_cpu s p),
      ar_ready := ready_bits True (avx2_capable (ms_cpu s p))\<rparr>"
    have "ap_step c work p s = \<lparr>ms_call = (ms_call s)\<lparr>mc_records := (mc_records (ms_call s))[k := ?r]\<rparr>, ms_job = ms_job s,
        ms_cpu = (ms_cpu s)(p := establish_ap_state (ms_cpu s p)),
        ms_pc = (ms_pc s)(p := Enter k (capture_cpu_state (ms_cpu s p)) Load)\<rparr>"
      using Prepare slot(1)
      by (simp add: ap_step_def Let_def upd_record_def establish_ready capability_unchanged)
    then show ?thesis
      by (rule quiet [where r = ?r]) (use Prepare slot(1) k in \<open>simp_all add: prepared_def\<close>)
  next
    case (Peers k' saved peer all common)
    have behind: "entry_place (slot_pc order s k) = (1, Load)" using slot(6) Peers by simp
    have full: "i < n \<Longrightarrow> i < length order" for i by (rule behind_entry(3) [OF call slot(5) behind])
    then have order: "length order = n" using order_facts(1) [OF slots] by (meson leD leI nat_less_le order_antisym)
    have ok: "k' = k" "prepared (cpus p) saved (ms_cpu s p) (mc_records (ms_call s) ! k)" "all" "peer \<le> n"
      "common = (\<forall>i<peer. avx2_capable (cpus (order ! i)))"
      using slot(1) Peers k order by simp_all
    show ?thesis
    proof (cases "peer < n")
      case True
      have "ar_ready (mc_records (ms_call s) ! peer) = ready_bits True (avx2_capable (cpus (order ! peer)))"
        using behind_entry(2) [OF call slot(5) behind True] mp_inv_slot(1,6) [OF inv full [OF True]]
        by (cases "ms_pc s (order ! peer)") (auto simp: prepared_def reported_def)
      then have "ap_step c work p s = \<lparr>ms_call = ms_call s, ms_job = ms_job s, ms_cpu = (ms_cpu s)(p := ms_cpu s p),
          ms_pc = (ms_pc s)(p := Peers k saved (peer + 1) True (common \<and> avx2_capable (cpus (order ! peer))))\<rparr>"
        using Peers True slot(2) ok by (simp add: ap_step_def Let_def ready_bits_first ready_bits_second)
      then show ?thesis
        by (rule quiet [where r = "mc_records (ms_call s) ! k"])
          (use Peers ok k order True in \<open>auto simp: less_Suc_eq\<close>)
    next
      case False
      then have common: "common = common_path n cpus" using ok common_path_order [OF slots order] by simp
      have step: "ap_step c work p s = \<lparr>ms_call = ms_call s, ms_job = ms_job s, ms_cpu = (ms_cpu s)(p := ms_cpu s p),
          ms_pc = (ms_pc s)(p := ChooseBackend k saved True common)\<rparr>"
        using Peers False slot(2) ok by (simp add: ap_step_def Let_def)
      show ?thesis
        by (rule quiet [OF step, where r = "mc_records (ms_call s) ! k"]) (use Peers ok common k in simp_all)
    qed
  next
    case (ChooseBackend k' saved all common)
    let ?r = "(mc_records (ms_call s) ! k)\<lparr>ar_backend := of_bool common\<rparr>"
    have "ap_step c work p s = \<lparr>ms_call = (ms_call s)\<lparr>mc_records := (mc_records (ms_call s))[k := ?r]\<rparr>, ms_job = ms_job s,
        ms_cpu = (ms_cpu s)(p := ms_cpu s p), ms_pc = (ms_pc s)(p := Admit k saved all (of_bool common))\<rparr>"
      using ChooseBackend slot(1) by (simp add: ap_step_def Let_def upd_record_def)
    then show ?thesis
      by (rule quiet [where r = ?r])
        (use ChooseBackend slot(1) k in \<open>simp_all add: prepared_def reported_def\<close>)
  next
    case (Admit k' saved all b)
    have "ap_step c work p s = \<lparr>ms_call = ms_call s, ms_job = ms_job s, ms_cpu = (ms_cpu s)(p := ms_cpu s p),
        ms_pc = (ms_pc s)(p := Inside k saved b RegisterWorkers)\<rparr>"
      using Admit slot(1,3) by (simp add: ap_step_def)
    then show ?thesis
      by (rule quiet [where r = "mc_records (ms_call s) ! k"]) (use Admit slot(1) k in simp_all)
  next
    case (Report k' saved v)
    let ?r = "(mc_records (ms_call s) ! k)\<lparr>ar_worker_status := v\<rparr>"
    have "ap_step c work p s = \<lparr>ms_call = (ms_call s)\<lparr>mc_records := (mc_records (ms_call s))[k := ?r]\<rparr>, ms_job = ms_job s,
        ms_cpu = (ms_cpu s)(p := ms_cpu s p), ms_pc = (ms_pc s)(p := Restore k saved)\<rparr>"
      using Report slot(1) by (simp add: ap_step_def upd_record_def)
    then show ?thesis
      by (rule quiet [where r = ?r]) (use Report slot(1) k in \<open>auto simp: reported_def\<close>)
  next
    case (Restore k' saved)
    let ?r = "(mc_records (ms_call s) ! k)\<lparr>ar_restored := 1\<rparr>"
    have "ap_step c work p s = \<lparr>ms_call = (ms_call s)\<lparr>mc_records := (mc_records (ms_call s))[k := ?r]\<rparr>, ms_job = ms_job s,
        ms_cpu = (ms_cpu s)(p := cpus p), ms_pc = (ms_pc s)(p := CountReturn k)\<rparr>"
      using Restore slot(1) k by (simp add: ap_step_def Let_def upd_record_def cpu_state_equal_refl)
    then show ?thesis
      by (rule quiet [where r = ?r]) (use Restore slot(1) k in \<open>simp_all add: reported_def\<close>)
  next
    case (CountReturn k')
    have "ap_step c work p s = \<lparr>ms_call = (ms_call s)\<lparr>mc_returned := mc_returned (ms_call s) + 1\<rparr>, ms_job = ms_job s,
        ms_cpu = (ms_cpu s)(p := ms_cpu s p), ms_pc = (ms_pc s)(p := Left k)\<rparr>"
      using CountReturn slot(1) by (simp add: ap_step_def)
    then show ?thesis
      by (rule quiet [where r = "mc_records (ms_call s) ! k"]) (use CountReturn slot(1) k in simp_all)
  next
    case (Left k')
    then have "ap_step c work p s = s" by (simp add: ap_step_def fun_upd_idem)
    then show ?thesis using inv by simp
  qed (use slot(1) pc in auto)
qed

section \<open>The invariant after every interleaving\<close>

lemma ap_step_inv:
  assumes inv: "mp_inv c x n cpus order s" and n: "2 \<le> n" and c: "coordination_ok c x" and p: "p < n"
  shows "\<exists>order. mp_inv c x n cpus order (ap_step c work p s)"
proof (cases "p \<in> set order")
  case False
  then have "ms_pc s p = TakeSlot" using inv p by (auto simp: mp_inv_def slots_inv_def)
  then show ?thesis using mp_inv_take [OF inv p] by blast
next
  case True
  then obtain k where k: "k < length order" "p = order ! k" by (auto simp: in_set_conv_nth)
  note ok = mp_inv_slot(1) [OF inv k(1), folded k(2)]
  have "mp_inv c x n cpus order (ap_step c work p s)"
    using mark_step [OF inv k] enter_step [OF inv k] inside_step [OF inv n c k] record_step [OF inv k] ok
    by (cases "ms_pc s p") auto
  then show ?thesis by blast
qed

lemma run_aps_inv:
  assumes "2 \<le> n" "coordination_ok c x" "list_all (\<lambda>p. p < n) ps" "\<exists>order. mp_inv c x n cpus order s"
  shows "\<exists>order. mp_inv c x n cpus order (run_aps c work ps s)"
  using assms(3,4)
proof (induction ps arbitrary: s)
  case (Cons p ps)
  then obtain order where inv: "mp_inv c x n cpus order s" by blast
  have "\<exists>order. mp_inv c x n cpus order (ap_step c work p s)"
    by (rule ap_step_inv [OF inv assms(1,2)]) (use Cons.prems in simp)
  then show ?case using Cons by (simp add: run_aps_def)
qed (simp add: run_aps_def)

end
