(* ===== verification/PB_Completion.thy ===== *)
theory PB_Completion
  imports PB_Agreement
begin

text \<open>
  The end of a dispatch (\<open>mp_inference.rs\<close>): every application processor leaves the call, the boot
  processor finds everything as it expects, and the processors have their state back.
\<close>

section \<open>A measure\<close>

fun ap_rank :: "coordination \<Rightarrow> nat \<Rightarrow> ap_pc \<Rightarrow> nat" where
  "ap_rank c n TakeSlot = later c 0 + n + 53"
| "ap_rank c n (Excess k) = 1"
| "ap_rank c n (MarkSlot k) = later c 0 + n + 52"
| "ap_rank c n (Doubled k) = later c 0 + n + 51"
| "ap_rank c n (Prepare k) = later c 0 + n + 50"
| "ap_rank c n (Enter k saved w) = later c 0 + n + 39 + wait_rank w"
| "ap_rank c n (Peers k saved peer all common) = later c 0 + 38 + (n - peer)"
| "ap_rank c n (Unready k saved common) = later c 0 + 37"
| "ap_rank c n (ChooseBackend k saved all common) = later c 0 + 36"
| "ap_rank c n (Admit k saved all b) = later c 0 + 35"
| "ap_rank c n (Inside k saved b pc) = rank c pc + 4"
| "ap_rank c n (Report k saved v) = 3"
| "ap_rank c n (Restore k saved) = 2"
| "ap_rank c n (CountReturn k) = 1"
| "ap_rank c n (Left k) = 0"

fun ap_waits :: "mp_call \<Rightarrow> worker_job \<Rightarrow> ap_pc \<Rightarrow> bool" where
  "ap_waits call j (Enter k saved (Spin g)) \<longleftrightarrow> br_generation (mc_entry call) = g"
| "ap_waits call j (Inside k saved b pc) \<longleftrightarrow> waits_at j pc"
| "ap_waits call j (Left k) \<longleftrightarrow> True"
| "ap_waits call j pc \<longleftrightarrow> False"

fun after_look :: "ap_pc \<Rightarrow> ap_pc" where
  "after_look (Inside k saved b pc) = Inside k saved b (after_waiting pc)"
| "after_look pc = pc"

lemma ap_rank_zero: "ap_rank c n pc = 0 \<longleftrightarrow> has_left pc"
  by (cases pc) simp_all

lemma look_same_rank:
  assumes "ap_waits call j pc"
  shows "ap_rank c n (after_look pc) = ap_rank c n pc"
proof (cases pc)
  case (Inside k saved b jpc)
  then show ?thesis
    using assms waiting_step(2) [of "\<lparr>sy_job = j, sy_pc = \<lambda>_. jpc\<rparr>" 0 c] by simp
qed simp_all

text \<open>A processor is in the order of the slots, or it has not taken one.\<close>

lemma in_order:
  assumes "mp_inv c x n cpus order s" "p < n"
  obtains "p \<notin> set order" "ms_pc s p = TakeSlot" | k where "k < length order" "p = order ! k"
proof (cases "p \<in> set order")
  case False
  then show ?thesis using that(1) assms by (auto simp: mp_inv_def slots_inv_def)
qed (use that(2) in \<open>auto simp: in_set_conv_nth\<close>)

lemma waiting_look:
  assumes inv: "mp_inv c x n cpus order s" and p: "p < n" and waits: "ap_waits (ms_call s) (ms_job s) (ms_pc s p)"
  shows "ap_step c work p s = s\<lparr>ms_pc := (ms_pc s)(p := after_look (ms_pc s p))\<rparr>"
  using inv p
proof (rule in_order)
  fix k
  assume k: "k < length order" "p = order ! k"
  note slot = mp_inv_slot [OF inv k(1), folded k(2)]
  show ?thesis
  proof (cases "ms_pc s p")
    case (Enter k' saved w)
    then obtain g where "w = Spin g" "br_generation (mc_entry (ms_call s)) = g" using waits by (cases w) auto
    then show ?thesis using Enter by (simp add: ap_step_def fun_upd_idem)
  next
    case (Inside k' saved b pc)
    then have ok: "k' = k" "\<forall>v. pc \<noteq> Returned v" and w: "waits_at (ms_job s) pc" using slot(1) waits by simp_all
    from w have "job_action c n b k pc (ms_job s) = (after_waiting pc, ms_job s)"
      using ok(2) by (cases "(ms_job s, pc)" rule: waits_at.cases) simp_all
    moreover have "\<forall>v. after_waiting pc \<noteq> Returned v" using ok(2) by (cases pc) simp_all
    ultimately show ?thesis
      using Inside ok slot(2) by (cases "after_waiting pc") (simp_all add: ap_step_def fun_upd_idem)
  qed (use waits in \<open>simp_all add: ap_step_def fun_upd_idem\<close>)
qed (use waits in simp)

lemma ap_rank_step:
  assumes inv: "mp_inv c x n cpus order s" and n: "2 \<le> n" and c: "coordination_ok c x" and p: "p < n"
    and go: "\<not> ap_waits (ms_call s) (ms_job s) (ms_pc s p)"
  shows "ap_rank c n (ms_pc (ap_step c work p s) p) < ap_rank c n (ms_pc s p)"
  using inv p
proof (rule in_order)
  fix k
  assume k: "k < length order" "p = order ! k"
  note slot = mp_inv_slot [OF inv k(1), folded k(2)]
  show ?thesis
  proof (cases "ms_pc s p")
    case (Enter k' saved w)
    obtain w' b' where run: "barrier_wait n w (mc_entry (ms_call s)) = (w', b')" by fastforce
    have "w \<noteq> Through" using slot(1) Enter by simp
    then have "w' = Through \<and> wait_rank w = 6 \<or> w' \<noteq> Through \<and> wait_rank w' < wait_rank w"
      by (rule barrier_rank [OF run]) (use go Enter in auto)
    then show ?thesis using Enter run slot(2) by (auto simp: ap_step_def)
  next
    case (Inside k' saved b pc)
    obtain pc' j' where run: "job_action c n b k pc (ms_job s) = (pc', j')" by fastforce
    have ok: "k' = k" using slot(1) Inside by simp
    have at: "ms_pc s p = Inside k saved b pc" using Inside ok by simp
    let ?part = "job_part order s"
    have "\<not> waits_at (sy_job ?part) (sy_pc ?part k)" using go Inside slot(6) by (simp add: job_part_def)
    from rank_step [OF slot(9) n _ slot(5) this]
    have less: "rank c pc' < rank c pc"
      unfolding job_part_step [OF inv k at run] using slot(6) Inside by (simp add: job_part_def)
    show ?thesis
      using at run slot(2) less by (cases pc') (simp_all add: ap_step_def)
  qed (use go slot(1,2,3) in \<open>auto simp: ap_step_def Let_def\<close>)
qed (simp add: ap_step_def Let_def)

section \<open>Somebody goes on\<close>

lemma some_processor_goes_on:
  assumes inv: "mp_inv c x n cpus order s" and n: "2 \<le> n" and c: "coordination_ok c x"
    and p: "p < n" "\<not> has_left (ms_pc s p)"
  shows "\<exists>q<n. \<not> ap_waits (ms_call s) (ms_job s) (ms_pc s q) \<or>
    \<not> ap_waits (ms_call s) (ms_job s) (after_look (ms_pc s q))"
proof (rule ccontr)
  assume "\<not> ?thesis"
  then have idle: "ap_waits (ms_call s) (ms_job s) (ms_pc s q)" "ap_waits (ms_call s) (ms_job s) (after_look (ms_pc s q))"
    if "q < n" for q using that by blast+
  let ?b = "mc_entry (ms_call s)" let ?V = "slot_pc order s"
  have slots: "slots_inv n cpus order s" using inv by (simp add: mp_inv_def)
  have n0: "0 < n" using n by simp
  have all: "q \<in> set order" if "q < n" for q
    using inv that by (rule in_order) (use idle(1) [OF that] in auto)
  then have "set order = {..<n}" using slots by (auto simp: slots_inv_def)
  then have order: "length order = n" using slots distinct_card [of order] by (simp add: slots_inv_def)
  note slot = mp_inv_slot [OF inv, unfolded order]
  have at: "order ! k < n" if "k < n" for k using order_facts(3) [OF slots] that order by simp
  have barrier: "barrier_inv n (\<lambda>k. entry_place (?V k)) ?b" using slot(8) [OF n0] .
  have kinds: "(\<exists>saved. ?V k = Enter k saved (Spin (br_generation ?b))) \<or>
      (\<exists>saved b pc. ?V k = Inside k saved b pc \<and> waits_at (ms_job s) pc \<and> waits_at (ms_job s) (after_waiting pc) \<and>
        (\<forall>v. pc \<noteq> Returned v)) \<or> ?V k = Left k" if "k < n" for k
  proof (cases "ms_pc s (order ! k)")
    case (Enter k' saved w)
    then show ?thesis using idle(1) [OF at [OF that]] slot(1,6) [OF that] by (cases w) auto
  qed (use idle [OF at [OF that]] slot(1,6) [OF that] in auto)
  show False
  proof (cases "br_generation ?b = 0")
    case True
    have "entry_place (?V k) = (0, Spin 0)" if k: "k < n" for k
      using kinds [OF k] barrier_inv_place [OF barrier k] True by (auto simp: place_ok_Load)
    then show False using barrier_not_stuck [OF barrier n0] True by auto
  next
    case False
    have inside: "(\<exists>saved b pc. ?V k = Inside k saved b pc \<and> waits_at (ms_job s) pc \<and>
        waits_at (ms_job s) (after_waiting pc) \<and> (\<forall>v. pc \<noteq> Returned v)) \<or> ?V k = Left k" if k: "k < n" for k
      using kinds [OF k] barrier_inv_place [OF barrier k] False by (auto dest!: place_ok_round)
    let ?part = "job_part order s"
    have "\<not> willing (sy_job ?part) (sy_pc ?part k)" if "k < n" for k
      using inside [OF that] by (auto simp: job_part_def willing_def)
    then have returned: "all_returned n ?part"
      using willing_exists [OF slot(9) [OF n0] n c] by blast
    have "?V k = Left k" if "k < n" for k
      using returned that inside [OF that] by (auto simp: all_returned_def job_part_def)
    then have "ms_pc s q = Left k" if "k < n" "q = order ! k" for k q using slot(6) that by simp
    moreover obtain k where "k < n" "p = order ! k" using all [OF p(1)] order by (auto simp: in_set_conv_nth)
    ultimately show False using p(2) by simp
  qed
qed

section \<open>Every processor leaves\<close>

definition mp_ok :: "coordination \<Rightarrow> bool \<Rightarrow> nat \<Rightarrow> (nat \<Rightarrow> processor) \<Rightarrow> mp_system \<Rightarrow> bool" where
  "mp_ok c x n cpus s \<longleftrightarrow> 2 \<le> n \<and> coordination_ok c x \<and> (\<exists>order. mp_inv c x n cpus order s)"

lemma ap_step_others: "q \<noteq> p \<Longrightarrow> ms_pc (ap_step c work p s) q = ms_pc s q"
  by (simp add: ap_step_def split_def)

interpretation ap_turns: fair_turns n "mp_ok c x n cpus" "ap_step c work" "\<lambda>p s. (ms_call s, ms_job s, ms_pc s p)"
  "\<lambda>(call, j, pc). ap_rank c n pc" "\<lambda>(call, j, pc). ap_waits call j pc" "\<lambda>(call, j, pc). (call, j, after_look pc)"
  for n c x cpus work
proof (unfold_locales, goal_cases)
  case (1 s p)
  then show ?case using ap_step_inv by (fastforce simp: mp_ok_def)
next
  case (2 s p q)
  then show ?case by (simp add: ap_step_others)
next
  case (3 s p)
  then show ?case using ap_rank_step by (fastforce simp: mp_ok_def)
next
  case (4 s p)
  then obtain order where "mp_inv c x n cpus order s" by (auto simp: mp_ok_def)
  from waiting_look [OF this, of p work] 4 show ?case by simp
next
  case (5 v)
  then show ?case using look_same_rank by (cases v) auto
next
  case (6 s p q)
  then obtain order where "mp_inv c x n cpus order s" by (auto simp: mp_ok_def)
  from waiting_look [OF this, of p work] 6 show ?case by simp
next
  case (7 s p)
  then obtain order where "mp_inv c x n cpus order s" "2 \<le> n" "coordination_ok c x" by (auto simp: mp_ok_def)
  from some_processor_goes_on [OF this, of p] 7 ap_rank_zero [of c n "ms_pc s p"] show ?case by auto
qed

section \<open>The boot processor accepts\<close>

lemma expected_mask_bit:
  assumes "i < 64"
  shows "bit (expected_mask n w) i \<longleftrightarrow> w * 64 + i < n"
proof (cases "n - w * 64 \<ge> 64")
  case True
  then show ?thesis using assms by (auto simp: expected_mask_def Let_def)
next
  case False
  have "push_bit (n - w * 64) 1 - 1 = (mask (n - w * 64) :: 64 word)"
    by (simp add: mask_eq_exp_minus_1 push_bit_eq_mult)
  then have "expected_mask n w = mask (n - w * 64)" unfolding expected_mask_def Let_def using False by simp
  then show ?thesis using assms by (auto simp: bit_mask_iff)
qed

lemma check_masks_pass:
  "(\<And>w. w < length (mc_slot_masks call) \<Longrightarrow> mc_slot_masks call ! w = expected_mask n w) \<Longrightarrow> check_masks n call shared = shared"
proof -
  assume ok: "\<And>w. w < length (mc_slot_masks call) \<Longrightarrow> mc_slot_masks call ! w = expected_mask n w"
  have "fold (\<lambda>w shared. if mc_slot_masks call ! w \<noteq> expected_mask n w then reject shared 30 else shared) ws shared = shared"
    if "set ws \<subseteq> {..<length (mc_slot_masks call)}" for ws
    using that by (induction ws) (simp_all add: ok)
  then show ?thesis by (simp add: check_masks_def atLeast0LessThan)
qed

lemma check_records_pass:
  assumes "\<And>k. k \<in> set ks \<Longrightarrow> ar_restored (f k) = 1 \<and> ar_worker_status (f k) = 0 \<and> ar_backend (f k) = b"
    and "backend = None \<or> backend = Some b"
  shows "snd (fold (\<lambda>k. check_record (f k)) ks (backend, shared)) = shared"
  using assms
proof (induction ks arbitrary: backend)
  case (Cons k ks)
  have "check_record (f k) (backend, shared) = (Some b, shared)" using Cons.prems by (auto simp: check_record_def)
  then show ?case using Cons by simp
qed simp

lemma dispatch_accepts:
  assumes inv: "mp_inv c x n cpus order s" and n: "2 \<le> n" and c: "coordination_ok c x"
    and all: "\<And>p. p < n \<Longrightarrow> has_left (ms_pc s p)"
  shows "dispatch_result n 0 s = Inr ()" "p < n \<Longrightarrow> ms_cpu s p = cpus p"
    "k < n \<Longrightarrow> ar_backend (mc_records (ms_call s) ! k) = of_bool (common_path n cpus)"
    "all_returned n (job_part order s)" "length (mc_records (ms_call s)) = n"
proof -
  let ?call = "ms_call s" let ?V = "slot_pc order s"
  have slots: "slots_inv n cpus order s" and call: "call_inv n order s" using inv by (simp_all add: mp_inv_def)
  have n0: "0 < n" using n by simp
  have taken: "p \<in> set order" if "p < n" for p
    using inv that by (rule in_order) (use all [OF that] in auto)
  then have "set order = {..<n}" using slots by (auto simp: slots_inv_def)
  then have order: "length order = n" using slots distinct_card [of order] by (simp add: slots_inv_def)
  note slot = mp_inv_slot [OF inv, unfolded order]
  have gone: "?V k = Left k" "ms_pc s (order ! k) = Left k" if "k < n" for k
  proof -
    have "has_left (ms_pc s (order ! k))" using all order_facts(3) [OF slots, of k] order that by simp
    then show "?V k = Left k" "ms_pc s (order ! k) = Left k"
      using slot(1,6) [OF that] by (cases "ms_pc s (order ! k)"; simp)+
  qed
  show backends: "ar_backend (mc_records ?call ! k) = of_bool (common_path n cpus)" if "k < n" for k
    using slot(1) [OF that] gone [OF that] by (simp add: reported_def)
  show "length (mc_records ?call) = n" by (rule slot(4) [OF n0])
  show "ms_cpu s p = cpus p" if p: "p < n"
  proof -
    obtain k where "k < n" "p = order ! k" using taken [OF p] order by (auto simp: in_set_conv_nth)
    then show ?thesis using slot(1) [of k] gone [of k] by simp
  qed
  show returned: "all_returned n (job_part order s)" using gone by (simp add: all_returned_def job_part_def)
  have status: "protocol_status (ms_job s) = 0"
    using returned_facts(4) [OF slot(9) [OF n0] n c returned] by (simp add: job_part_def)
  have behind: "entry_place (?V k) = (1, Load)" if "k < n" for k using gone [OF that] by simp
  have generation: "br_generation (mc_entry ?call) = 1" by (rule behind_entry(1) [OF call n0 behind [OF n0] n0])
  have "{k. k < n \<and> here 1 (entry_place (?V k))} = {}" using behind by auto
  then have arrivals: "br_arrivals (mc_entry ?call) = 0"
    using barrier_inv_alone(2) [OF slot(8) [OF n0] n0] behind [OF n0] generation by simp
  have "{k. k < n \<and> has_left (?V k)} = {..<n}" using gone by auto
  then have counted: "mc_returned ?call = n" using call by (simp add: call_inv_def Let_def)
  have masks: "check_masks n ?call shared = shared" for shared
  proof (rule check_masks_pass)
    fix w
    assume "w < length (mc_slot_masks ?call)"
    then have "w < (n + 63) div 64" using call by (simp add: call_inv_def Let_def)
    then have "bit (mc_slot_masks ?call ! w) i = marked (?V (w * 64 + i))" if "i < 64" for i
      using call that by (simp add: call_inv_def Let_def)
    moreover have "marked (?V k) \<longleftrightarrow> k < n" for k using gone [of k] order by (cases "k < n") (simp_all add: slot_pc_def)
    ultimately show "mc_slot_masks ?call ! w = expected_mask n w"
      by (intro bit_eqI) (simp add: expected_mask_bit)
  qed
  have records: "snd (fold (\<lambda>k. check_record (mc_records ?call ! k)) [0..<n] (None, shared)) = shared" for shared
    by (rule check_records_pass [where b = "of_bool (common_path n cpus)"])
      (use slot(1) gone backends in auto)
  have "check_counters n ?call 0 = 0" unfolding check_counters_def using order slot(7) [OF n0] counted arrivals generation by simp
  then have "dispatch_status n ?call (ms_job s) = 0"
    unfolding dispatch_status_def Let_def masks records slot(3) [OF n0] status by (simp add: reject_def)
  then show "dispatch_result n 0 s = Inr ()" by (simp add: dispatch_result_def)
qed

section \<open>The properties of a dispatch\<close>

lemma run_aps_turns: "run_aps c work ps s = ap_turns.turns c work ps s"
  by (simp add: run_aps_def ap_turns.turns_def)

lemma dispatch_ends:
  fixes work :: "nat \<Rightarrow> 16 word \<times> 32 word" and cpus :: "nat \<Rightarrow> processor"
  assumes n: "2 \<le> n" and c: "coordination_ok c x" and fair: "fair_schedule n turn_of"
  shows "\<exists>k. \<forall>m\<ge>k. let s = run_aps c work (prefix_of turn_of m) (dispatch_start n x cpus) in
    (\<exists>order. mp_inv c x n cpus order s) \<and> (\<forall>p<n. has_left (ms_pc s p))"
proof -
  let ?s = "dispatch_start n x cpus"
  have start: "mp_ok c x n cpus ?s" using mp_inv_start [OF n] n c by (auto simp: mp_ok_def)
  obtain k where k: "\<And>m. k \<le> m \<Longrightarrow> mp_ok c x n cpus (ap_turns.turns c work (prefix_of turn_of m) ?s)"
    "\<And>m p. k \<le> m \<Longrightarrow> p < n \<Longrightarrow>
      (case (ms_call (ap_turns.turns c work (prefix_of turn_of m) ?s), ms_job (ap_turns.turns c work (prefix_of turn_of m) ?s),
        ms_pc (ap_turns.turns c work (prefix_of turn_of m) ?s) p) of (call, j, pc) \<Rightarrow> ap_rank c n pc) = 0"
    using ap_turns.turns_end [OF fair start, where work = work] by blast
  have "let s = run_aps c work (prefix_of turn_of m) ?s in
      (\<exists>order. mp_inv c x n cpus order s) \<and> (\<forall>p<n. has_left (ms_pc s p))" if "k \<le> m" for m
    using k(1) [OF that] k(2) [OF that] by (simp add: Let_def run_aps_turns mp_ok_def ap_rank_zero)
  then show ?thesis by blast
qed

fun ap_slot :: "ap_pc \<Rightarrow> nat option" where
  "ap_slot TakeSlot = None"
| "ap_slot (Excess k) = Some k"
| "ap_slot (MarkSlot k) = Some k"
| "ap_slot (Doubled k) = Some k"
| "ap_slot (Prepare k) = Some k"
| "ap_slot (Enter k saved w) = Some k"
| "ap_slot (Peers k saved peer all common) = Some k"
| "ap_slot (Unready k saved common) = Some k"
| "ap_slot (ChooseBackend k saved all common) = Some k"
| "ap_slot (Admit k saved all b) = Some k"
| "ap_slot (Inside k saved b pc) = Some k"
| "ap_slot (Report k saved v) = Some k"
| "ap_slot (Restore k saved) = Some k"
| "ap_slot (CountReturn k) = Some k"
| "ap_slot (Left k) = Some k"

lemma slot_owner:
  assumes inv: "mp_inv c x n cpus order s" and p: "p < n" "ms_pc s p \<noteq> TakeSlot"
  obtains k where "k < length order" "p = order ! k" "ap_slot (ms_pc s p) = Some k"
  using inv p(1)
proof (rule in_order)
  fix k
  assume k: "k < length order" "p = order ! k"
  have "ap_slot (ms_pc s p) = Some k" using mp_inv_slot(1) [OF inv k(1)] k(2) by (cases "ms_pc s p") simp_all
  then show thesis using that k by blast
qed (use p(2) in simp)

lemma slots_distinct:
  assumes inv: "mp_inv c x n cpus order s"
  shows "inj_on (\<lambda>p. ap_slot (ms_pc s p)) {p. p < n \<and> ms_pc s p \<noteq> TakeSlot}"
proof (rule inj_onI)
  fix p q
  assume "p \<in> {p. p < n \<and> ms_pc s p \<noteq> TakeSlot}" "q \<in> {p. p < n \<and> ms_pc s p \<noteq> TakeSlot}"
    and same: "ap_slot (ms_pc s p) = ap_slot (ms_pc s q)"
  then have p: "p < n" "ms_pc s p \<noteq> TakeSlot" and q: "q < n" "ms_pc s q \<noteq> TakeSlot" by simp_all
  obtain k where k: "k < length order" "p = order ! k" "ap_slot (ms_pc s p) = Some k" by (rule slot_owner [OF inv p])
  obtain l where l: "l < length order" "q = order ! l" "ap_slot (ms_pc s q) = Some l" by (rule slot_owner [OF inv q])
  show "p = q" using same k l by simp
qed

text \<open>
  C5: Agreement in every interleaving of the application processors: no two of them have the same slot
  and none is refused; whoever is inside the job has an established control state and the same
  processor path, AVX2 exactly if every processor of the call is capable of it; whoever has left has
  the control state it had before the call.
\<close>

theorem processors_agree:
  assumes "2 \<le> n" and "list_all (\<lambda>p. p < n) ps"
  shows "let s = run_aps (token_coordination t produce_logits failed) work ps (dispatch_start n produce_logits cpus) in
    mc_rejection (ms_call s) = 0 \<and> wj_rejection (ms_job s) = 0 \<and>
    inj_on (\<lambda>p. ap_slot (ms_pc s p)) {p. p < n \<and> ms_pc s p \<noteq> TakeSlot} \<and>
    list_all (\<lambda>p. case ms_pc s p of
        Inside slot saved backend pc \<Rightarrow>
          slot < n \<and> backend = of_bool (list_all (\<lambda>p. avx2_capable (cpus p)) [0..<n]) \<and> cpu_state_ready (ms_cpu s p)
      | Left slot \<Rightarrow> ms_cpu s p = cpus p
      | _ \<Rightarrow> True) [0..<n]"
proof -
  let ?c = "token_coordination t produce_logits failed"
  let ?s = "run_aps ?c work ps (dispatch_start n produce_logits cpus)"
  have "\<exists>order. mp_inv ?c produce_logits n cpus order (dispatch_start n produce_logits cpus)"
    using mp_inv_start [OF assms(1)] by blast
  then obtain order where inv: "mp_inv ?c produce_logits n cpus order ?s"
    using run_aps_inv [OF assms(1) token_coordination_ok assms(2)] by blast
  have path: "common_path n cpus = list_all (\<lambda>p. avx2_capable (cpus p)) [0..<n]"
    by (auto simp: common_path_def list_all_iff)
  have "mc_rejection (ms_call ?s) = 0" "wj_rejection (ms_job ?s) = 0"
    using inv job_inv_coord(4) [of ?c produce_logits n _ "job_part order ?s"] assms(1)
    by (auto simp: mp_inv_def call_inv_def Let_def job_part_def)
  moreover note slots_distinct [OF inv]
  moreover have "case ms_pc ?s p of
      Inside slot saved backend pc \<Rightarrow>
        slot < n \<and> backend = of_bool (list_all (\<lambda>p. avx2_capable (cpus p)) [0..<n]) \<and> cpu_state_ready (ms_cpu ?s p)
    | Left slot \<Rightarrow> ms_cpu ?s p = cpus p
    | _ \<Rightarrow> True" if p: "p < n" for p
    using inv p
  proof (rule in_order)
    fix k
    assume k: "k < length order" "p = order ! k"
    show ?thesis
      using mp_inv_slot(1,5) [OF inv k(1)] k(2) establish_ready [of "cpus p"] path
      by (cases "ms_pc ?s p") (simp_all add: prepared_def)
  qed simp
  ultimately show ?thesis unfolding Let_def by (simp add: list_all_iff)
qed

theorem processors_agree_witness:
  "let s = run_aps (token_coordination \<lparr>tk_weights = (\<lambda>layer role. 0), tk_output = 0, tk_scratch = 0, tk_logits = 0\<rparr> True None)
        (\<lambda>_. (0, 0)) [1, 0, 1, 0, 1] (dispatch_start 2 True
          (\<lambda>_. \<lparr>pr_cr0 = 0, pr_cr4 = 0, pr_xcr0 = 0, pr_x87 = 0, pr_mxcsr = 0, pr_leaf0_eax = 0, pr_leaf1_ecx = 0, pr_leaf7_ebx = 0\<rparr>))
   in mc_rejection (ms_call s) = 0"
  using processors_agree [of 2 "[1, 0, 1, 0, 1]"
    "\<lparr>tk_weights = (\<lambda>layer role. 0), tk_output = 0, tk_scratch = 0, tk_logits = 0\<rparr>" True None "\<lambda>_. (0, 0)"
    "\<lambda>_. \<lparr>pr_cr0 = 0, pr_cr4 = 0, pr_xcr0 = 0, pr_x87 = 0, pr_mxcsr = 0, pr_leaf0_eax = 0, pr_leaf1_ecx = 0, pr_leaf7_ebx = 0\<rparr>"]
  unfolding Let_def by simp

text \<open>What the boot processor finds when every processor has left the call.\<close>

lemma dispatch_left_behind:
  assumes inv: "mp_inv (token_coordination t x failed) x n cpus order s" and n: "2 \<le> n"
    and over: "\<And>p. p < n \<Longrightarrow> has_left (ms_pc s p)"
  shows "let c = token_coordination t x failed; path = of_bool (list_all (\<lambda>p. avx2_capable (cpus p)) [0..<n]) in
    dispatch_result n 0 s = Inr () \<and>
    list_all (\<lambda>p. has_left (ms_pc s p) \<and> ms_cpu s p = cpus p) [0..<n] \<and>
    list_all (\<lambda>r. ar_backend r = path) (mc_records (ms_call s)) \<and>
    wj_terminal (ms_job s) = (if failed = None then 1 else 2) \<and>
    list_all (\<lambda>k. mset (epoch_products (k + 1) (ms_job s)) =
        mset (map (\<lambda>row. (k + 1, cd_products c ! k, path, row)) [0..<mj_rows (cd_products c ! k)]))
      [0..<length (cd_products c)]"
proof -
  let ?c = "token_coordination t x failed"
  note ok = token_coordination_ok [of t x failed]
  note accepts = dispatch_accepts [OF inv n ok over]
  have "0 < n" using n by simp
  then have job: "job_inv ?c x n (of_bool (common_path n cpus)) (job_part order s)"
    using inv by (simp add: mp_inv_def)
  note facts = returned_facts [OF job n ok accepts(4), unfolded job_part_def, simplified]
  have path: "common_path n cpus = list_all (\<lambda>p. avx2_capable (cpus p)) [0..<n]"
    by (auto simp: common_path_def list_all_iff)
  have rows: "mset (epoch_products (k + 1) (ms_job s)) =
      mset (map (\<lambda>row. (k + 1, cd_products ?c ! k, of_bool (list_all (\<lambda>p. avx2_capable (cpus p)) [0..<n]), row))
        [0..<mj_rows (cd_products ?c ! k)])"
    if "k < length (cd_products ?c)" for k
    using epoch_complete(1) [OF facts(6), of "k + 1"] that unfolding path
    by (simp add: all_rows_def tagged_def product_at_def)
  have terminal: "cd_terminal ?c = (if failed = None then 1 else 2)"
    by (cases failed) (simp_all add: token_coordination_def)
  have records: "list_all (\<lambda>r. ar_backend r = of_bool (list_all (\<lambda>p. avx2_capable (cpus p)) [0..<n])) (mc_records (ms_call s))"
    using accepts(3,5) unfolding path by (simp add: list_all_length)
  have "list_all (\<lambda>p. has_left (ms_pc s p) \<and> ms_cpu s p = cpus p) [0..<n]"
    using over accepts(2) by (simp add: list_all_iff)
  then show ?thesis
    unfolding Let_def using accepts(1) records rows facts(2) terminal by (simp add: list_all_iff)
qed

text \<open>
  C0: A dispatch succeeds under every schedule that is fair, an infinite sequence of processors in which
  each of them comes again after every turn: from some turn on all of them have left the call, and the
  boot processor, after the firmware's success, finds no fault: every check of \<open>dispatch_token\<close> passes.
  The control state of every processor is the one it had before, the terminal flag of the job says
  whether the evaluation failed, and every row of every product of the token has been computed exactly
  once, on the path that all processors are capable of.
\<close>

theorem dispatch_completes:
  assumes "2 \<le> n" and "fair_schedule n turn_of"
  shows "\<exists>k. \<forall>m\<ge>k. let c = token_coordination t produce_logits failed;
      s = run_aps c work (prefix_of turn_of m) (dispatch_start n produce_logits cpus);
      path = of_bool (list_all (\<lambda>p. avx2_capable (cpus p)) [0..<n]) in
    dispatch_result n 0 s = Inr () \<and>
    list_all (\<lambda>p. has_left (ms_pc s p) \<and> ms_cpu s p = cpus p) [0..<n] \<and>
    list_all (\<lambda>r. ar_backend r = path) (mc_records (ms_call s)) \<and>
    wj_terminal (ms_job s) = (if failed = None then 1 else 2) \<and>
    list_all (\<lambda>k. mset (epoch_products (k + 1) (ms_job s)) =
        mset (map (\<lambda>row. (k + 1, cd_products c ! k, path, row)) [0..<mj_rows (cd_products c ! k)]))
      [0..<length (cd_products c)]"
proof -
  let ?c = "token_coordination t produce_logits failed"
  obtain k where k: "\<And>m. k \<le> m \<Longrightarrow> let s = run_aps ?c work (prefix_of turn_of m) (dispatch_start n produce_logits cpus) in
      (\<exists>order. mp_inv ?c produce_logits n cpus order s) \<and> (\<forall>p<n. has_left (ms_pc s p))"
    using dispatch_ends [OF assms(1) token_coordination_ok [of t produce_logits failed] assms(2)] by blast
  show ?thesis
  proof (intro exI allI impI)
    fix m
    assume "k \<le> m"
    let ?s = "run_aps ?c work (prefix_of turn_of m) (dispatch_start n produce_logits cpus)"
    note ends = k [OF \<open>k \<le> m\<close>, unfolded Let_def]
    obtain order where "mp_inv ?c produce_logits n cpus order ?s" using ends by blast
    from dispatch_left_behind [OF this assms(1)] ends
    show "let c = ?c; s = run_aps c work (prefix_of turn_of m) (dispatch_start n produce_logits cpus);
        path = of_bool (list_all (\<lambda>p. avx2_capable (cpus p)) [0..<n]) in
      dispatch_result n 0 s = Inr () \<and>
      list_all (\<lambda>p. has_left (ms_pc s p) \<and> ms_cpu s p = cpus p) [0..<n] \<and>
      list_all (\<lambda>r. ar_backend r = path) (mc_records (ms_call s)) \<and>
      wj_terminal (ms_job s) = (if failed = None then 1 else 2) \<and>
      list_all (\<lambda>k. mset (epoch_products (k + 1) (ms_job s)) =
          mset (map (\<lambda>row. (k + 1, cd_products c ! k, path, row)) [0..<mj_rows (cd_products c ! k)]))
        [0..<length (cd_products c)]"
      unfolding Let_def by blast
  qed
qed

text \<open>Two processors, the first of which gets only every third turn.\<close>

theorem dispatch_completes_witness:
  "\<exists>k. \<forall>m\<ge>k. let c = token_coordination \<lparr>tk_weights = (\<lambda>layer role. 0), tk_output = 0, tk_scratch = 0, tk_logits = 0\<rparr> False (Some 2);
       s = run_aps c (\<lambda>_. (0x37f, 0x1fa0)) (prefix_of (\<lambda>i. if i mod 3 = 2 then 0 else 1) m) (dispatch_start 2 False
          (\<lambda>_. \<lparr>pr_cr0 = 0, pr_cr4 = 0, pr_xcr0 = 0, pr_x87 = 0, pr_mxcsr = 0, pr_leaf0_eax = 0, pr_leaf1_ecx = 0, pr_leaf7_ebx = 0\<rparr>))
   in dispatch_result 2 0 s = Inr ()"
proof -
  note ends = dispatch_completes [of 2 "\<lambda>i. if i mod 3 = 2 then 0 else 1"
    "\<lparr>tk_weights = (\<lambda>layer role. 0), tk_output = 0, tk_scratch = 0, tk_logits = 0\<rparr>" False "Some 2" "\<lambda>_. (0x37f, 0x1fa0)"
    "\<lambda>_. \<lparr>pr_cr0 = 0, pr_cr4 = 0, pr_xcr0 = 0, pr_x87 = 0, pr_mxcsr = 0, pr_leaf0_eax = 0, pr_leaf1_ecx = 0, pr_leaf7_ebx = 0\<rparr>",
    OF _ uneven_fair]
  then show ?thesis unfolding Let_def by fastforce
qed

end
