(* ===== verification/PB_Adapter.thy ===== *)
theory PB_Adapter
  imports PB_Completion PB_Console
begin

text \<open>
  The choice between one processor and several (\<open>MpInferenceAdapter::prepare\<close> of
  \<open>mp_inference.rs\<close>): what the firmware answers about its processors decides the topology and, with
  at least two application processors, the memory for their records and slot bits.
\<close>

section \<open>Records\<close>

definition mp_dispatch_fatal :: "screen \<Rightarrow> nat \<Rightarrow> nat \<Rightarrow> console \<Rightarrow> console" where
  "mp_dispatch_fatal fw status shared con =
     (let r = record_push record_new (ascii ''PROMPTBOOT_EVENT v=1 event=FATAL code=MP_DISPATCH_FATAL efi_status='');
          r = record_push_decimal r (of_nat status);
          r = record_push r (ascii '' shared_status='');
          r = record_push_decimal r (of_nat shared);
          r = record_push r (ascii '' output_inspected='');
          r = record_push r (ascii ''0'');
          r = record_push r (ascii '' retry=0'' @ [13, 10])
      in write_fatal_diagnostic fw (ascii ''MP_DISPATCH_FATAL'') (snd (emit_record fw (record_as_bytes r) con)))"

definition emit_mode :: "screen \<Rightarrow> bytes \<Rightarrow> bytes \<Rightarrow> nat \<Rightarrow> nat \<Rightarrow> console \<Rightarrow> console" where
  "emit_mode fw mode reason all enabled con =
     (let r = record_push record_new (ascii ''PROMPTBOOT_EVENT v=1 event=MP_INFERENCE_MODE mode='');
          r = record_push r mode;
          r = record_push r (ascii '' reason='');
          r = record_push r reason;
          r = record_push r (ascii '' total='');
          r = record_push_decimal r (of_nat all);
          r = record_push r (ascii '' enabled='');
          r = record_push_decimal r (of_nat enabled);
          r = record_push r [13, 10]
      in snd (emit_record fw (record_as_bytes r) con))"

section \<open>Preparation\<close>

text \<open>What the firmware answers: the protocol, the numbers of processors, the pages.\<close>

record mp_services =
  sv_locate_status :: nat
  sv_interface :: nat
  sv_count_status :: nat
  sv_processors :: nat
  sv_enabled :: nat
  sv_pages_status :: nat
  sv_pages_address :: nat

record mp_adapter =
  ad_records :: nat
  ad_slot_masks :: nat
  ad_slot_mask_words :: nat
  ad_workers :: nat

definition AP_RECORD_BYTES :: nat where "AP_RECORD_BYTES = 48"

definition adapter_bytes :: "nat \<Rightarrow> nat option" where
  "adapter_bytes workers =
     (case checked_mul workers AP_RECORD_BYTES of
        None \<Rightarrow> None
      | Some record_bytes \<Rightarrow>
          (case checked_mul ((workers + 63) div 64) 8 of
             None \<Rightarrow> None
           | Some mask_bytes \<Rightarrow> checked_add record_bytes mask_bytes))"

definition serial_topology :: "mp_services \<Rightarrow> cpu_topology" where
  "serial_topology sv =
     \<lparr>ct_mode = Serial, ct_active = 1, ct_workers = 0, ct_enabled = Some (of_nat (sv_enabled sv)),
      ct_processors = Some (of_nat (sv_processors sv))\<rparr>"

definition mp_topology :: "mp_services \<Rightarrow> cpu_topology" where
  "mp_topology sv =
     \<lparr>ct_mode = Mp, ct_active = of_nat (sv_enabled sv), ct_workers = of_nat (sv_enabled sv - 1),
      ct_enabled = Some (of_nat (sv_enabled sv)), ct_processors = Some (of_nat (sv_processors sv))\<rparr>"

text \<open>A fatal error carries the firmware's status and the shared one; it does not return.\<close>

definition prepare_adapter ::
  "screen \<Rightarrow> mp_services \<Rightarrow> console \<Rightarrow> ((nat \<times> nat) + mp_adapter option \<times> cpu_topology) \<times> console" where
  "prepare_adapter fw sv con =
     (if sv_locate_status sv \<noteq> 0 \<or> sv_interface sv = 0
      then (Inr (None, UNKNOWN_SERIAL), emit_mode fw (ascii ''serial'') (ascii ''protocol_absent'') 0 0 con)
      else if sv_count_status sv \<noteq> 0
      then (Inl (sv_count_status sv, 0), mp_dispatch_fatal fw (sv_count_status sv) 0 con)
      else if sv_enabled sv < 3
      then (Inr (None, serial_topology sv),
            emit_mode fw (ascii ''serial'') (ascii ''fewer_than_two_aps'') (sv_processors sv) (sv_enabled sv) con)
      else
        let workers = sv_enabled sv - 1
        in case adapter_bytes workers of
             None \<Rightarrow> (Inl (0, 20), mp_dispatch_fatal fw 0 20 con)
           | Some n \<Rightarrow>
               if sv_pages_status sv \<noteq> 0 \<or> sv_pages_address sv = 0
               then (Inl (sv_pages_status sv, 21), mp_dispatch_fatal fw (sv_pages_status sv) 21 con)
               else
                 (Inr (Some \<lparr>ad_records = sv_pages_address sv,
                         ad_slot_masks = sv_pages_address sv + workers * AP_RECORD_BYTES,
                         ad_slot_mask_words = (workers + 63) div 64, ad_workers = workers\<rparr>, mp_topology sv),
                  emit_mode fw (ascii ''mp'') (ascii ''mp_services'') (sv_processors sv) (sv_enabled sv) con))"

definition adapter_pages :: "nat \<Rightarrow> nat" where
  "adapter_pages n = (n + 4095) div 4096"

section \<open>An adapter fits its pages and its dispatches succeed\<close>

lemma adapter_bytes_Some: "adapter_bytes workers = Some n \<Longrightarrow> n = workers * 48 + (workers + 63) div 64 * 8"
  by (auto simp: adapter_bytes_def AP_RECORD_BYTES_def checked_mul_def checked_add_def split: option.splits if_splits)

lemma prepared_adapter:
  assumes "prepare_adapter fw sv con = (Inr (Some a, topology), con')"
  shows "2 \<le> ad_workers a" "ad_workers a = sv_enabled sv - 1" "topology = mp_topology sv"
    "ad_slot_mask_words a = length (mc_slot_masks (mp_call_new (ad_workers a)))"
    "ad_slot_masks a = ad_records a + AP_RECORD_BYTES * ad_workers a"
    "\<exists>n. adapter_bytes (ad_workers a) = Some n \<and> ad_slot_masks a + 8 * ad_slot_mask_words a \<le> ad_records a + 4096 * adapter_pages n"
proof -
  obtain n where n: "adapter_bytes (sv_enabled sv - 1) = Some n" and size: "\<not> sv_enabled sv < 3"
    and a: "a = \<lparr>ad_records = sv_pages_address sv,
        ad_slot_masks = sv_pages_address sv + (sv_enabled sv - 1) * AP_RECORD_BYTES,
        ad_slot_mask_words = (sv_enabled sv - 1 + 63) div 64, ad_workers = sv_enabled sv - 1\<rparr>"
    and t: "topology = mp_topology sv"
    using assms by (auto simp: prepare_adapter_def Let_def split: if_splits option.splits)
  show "2 \<le> ad_workers a" "ad_workers a = sv_enabled sv - 1" "topology = mp_topology sv"
    "ad_slot_mask_words a = length (mc_slot_masks (mp_call_new (ad_workers a)))"
    "ad_slot_masks a = ad_records a + AP_RECORD_BYTES * ad_workers a"
    using a t size by (simp_all add: mp_call_new_def)
  have "n \<le> 4096 * adapter_pages n" unfolding adapter_pages_def
    using div_mult_mod_eq [of "n + 4095" 4096] mod_less_divisor [of 4096 "n + 4095"] by linarith
  then have "ad_slot_masks a + 8 * ad_slot_mask_words a \<le> ad_records a + 4096 * adapter_pages n"
    using adapter_bytes_Some [OF n] by (simp add: a AP_RECORD_BYTES_def)
  then show "\<exists>n. adapter_bytes (ad_workers a) = Some n \<and>
      ad_slot_masks a + 8 * ad_slot_mask_words a \<le> ad_records a + 4096 * adapter_pages n"
    using n by (auto simp: a)
qed

end
