(* ===== verification/Spec2Isabelle.thy ===== *)
theory Spec2Isabelle
  imports PB_Prelude PB_Editor PB_History PB_Utf8 PB_Sink PB_Contract PB_Errors PB_Events
    PB_Session PB_Lifecycle PB_Status PB_Arena PB_Primitive PB_Sha256
    PB_Model PB_Index PB_Tokenizer PB_Prompt PB_Spelling PB_Sampling
    PB_BlockDot PB_Kernels PB_Reference PB_Attention PB_Engine PB_Replay PB_Retained PB_Console
    PB_Turn PB_Frame PB_Repl PB_Cache PB_Conversation PB_Barrier PB_Workers PB_Progress PB_Processor PB_Dispatch PB_Agreement PB_Completion PB_Adapter
begin

text \<open>
  A verification library for promptboot, a UEFI application in Rust that loads a frozen language
  model from its boot volume and runs it without an operating system.

  \<^bold>\<open>The program.\<close> The boot program (\<open>src/src\<close>) acquires the model file and six memory
  regions from the firmware (\<open>model_target.rs\<close>), authenticates the file, builds the tokenizer and
  the engine inside the regions, and then runs one prompt or a console REPL. Every failure ends in
  one cleanup that releases what was acquired, and in event records on the serial line
  (\<open>model_contract.rs\<close>). The REPL reads keys (\<open>editor.rs\<close>, \<open>console_contract.rs\<close>), keeps a
  scrollback (\<open>console_history.rs\<close>), decodes the tokens of the model incrementally
  (\<open>repl_contract.rs\<close>) and shows a status line (\<open>status_bar.rs\<close>). With more than two processors, every
  token is dispatched to the application processors through the firmware (\<open>mp_inference.rs\<close>). The core crate
  (\<open>src/crates/promptboot-core\<close>) holds the model image format (\<open>model.rs\<close>), the digest
  (\<open>sha256.rs\<close>), the tokenizer (\<open>tokenizer.rs\<close>), the inference engine (\<open>inference.rs\<close>) over its
  floating point kernels (\<open>fp32_sse2.rs\<close>), the scratch arena (\<open>arena.rs\<close>) and a checked primitive
  interface (\<open>lib.rs\<close>).

  \<^bold>\<open>Theories and code.\<close>
  \<^item> \<open>PB_Prelude\<close>: bytes, little-endian words, error results (\<open>require\<close>, \<open>bind_result\<close>,
    \<open>check_all\<close>), lists and words used everywhere.
  \<^item> \<open>PB_Editor\<close> (\<open>editor.rs\<close>): the line editor, refined to an abstract editor.
  \<^item> \<open>PB_History\<close> (\<open>console_history.rs\<close>): the ring of 2,048 lines, refined to the newest lines of an
    unbounded transcript; paging.
  \<^item> \<open>PB_Utf8\<close> (\<open>repl_contract.rs\<close>): the incremental UTF-8 decoder, shown to accept exactly encoded
    text, and the CR LF rendering, the REPL commands and the history commit.
  \<^item> \<open>PB_Sink\<close>: the locale of bounded byte records, interpreted for event records (\<open>PB_Contract\<close>) and
    status lines (\<open>PB_Status\<close>).
  \<^item> \<open>PB_Contract\<close> (\<open>model_contract.rs\<close>): error tuples, cleanup masks, records, read progress.
  \<^item> \<open>PB_Errors\<close> (\<open>model.rs\<close>, \<open>inference.rs\<close>): statuses, domains and field kinds with their
    discriminants, and the error values.
  \<^item> \<open>PB_Events\<close>, \<open>PB_Session\<close>, \<open>PB_Lifecycle\<close> (\<open>model_target.rs\<close>): event records, the session with
    its cleanup, acquisition, the overlap check, the read loop and the end of a run. The pages that a
    cleanup does not hand back are counted: in \<open>model_repl\<close> mode the prompt region has 81 pages and the
    release names one, so 80 stay allocated.
  \<^item> \<open>PB_Status\<close> (\<open>status_bar.rs\<close>, \<open>console_contract.rs\<close>): the status row, the timer, wrapping, the
    status line and the console results.
  \<^item> \<open>PB_Arena\<close> (\<open>arena.rs\<close>): the bump allocator, through the locale of region allocators.
  \<^item> \<open>PB_Primitive\<close> (\<open>lib.rs\<close>): the checks of \<open>promptboot_run_primitive\<close>, its staging in the scratch
    range and its copy to the output. The numeric kernel gets the whole memory and an address, as it
    gets a raw pointer in the code.
  \<^item> \<open>PB_Reference\<close> (\<open>fp32_sse2.rs\<close>): the nine reference kernels and their dispatcher \<open>execute\<close>, as
    stores at addresses; that they stay inside the staging region of an accepted shape, and with it
    the effects of the interface and what its success means.
  \<^item> \<open>PB_Sha256\<close> (\<open>sha256.rs\<close>): the streaming digest equals the digest of the whole message.
  \<^item> \<open>PB_Model\<close> (\<open>model.rs\<close>): opening an image with every check in its order, the sections, tensors,
    tokens and merges of an opened image.
  \<^item> \<open>PB_Index\<close>, \<open>PB_Tokenizer\<close>, \<open>PB_Prompt\<close>, \<open>PB_Spelling\<close> (\<open>tokenizer.rs\<close>): the merge index as a map,
    pre-tokens, byte pair merging, prompts and conversations, and the round trip of a text through
    its tokens.
  \<^item> \<open>PB_Sampling\<close> (\<open>inference.rs\<close>, \<open>fp32_sse2.rs\<close>): the largest logits, the greedy token, the random
    generator, sampling and the repetition penalty.
  \<^item> \<open>PB_BlockDot\<close>, \<open>PB_Kernels\<close>, \<open>PB_Attention\<close> (\<open>fp32_sse2.rs\<close>): the integer products of quantised
    blocks as their SSE2 and AVX2 instructions, the floating point kernels of a layer, and attention,
    whose two implementations agree word for word.
  \<^item> \<open>PB_Engine\<close> (\<open>inference.rs\<close>): the engine with its key-value store, scratch memory, states and
    operations; the invariant of its bookkeeping and the containment of failures.
  \<^item> \<open>PB_Replay\<close>, \<open>PB_Retained\<close>: no reply depends on the processors or on stale memory; what an engine
    holds is what evaluating the tokens of its operations (\<open>history_of\<close>) leaves in a fresh engine over
    any other memory, and a retained prefix gives what a fresh evaluation gives.
  \<^item> \<open>PB_Console\<close> (\<open>main.rs\<close>): the console with its scrollback and status row, and the event records on
    the screen and the serial port.
  \<^item> \<open>PB_Turn\<close>, \<open>PB_Repl\<close> (\<open>model_repl.rs\<close>): the state of the model REPL and one turn (plan, prompt,
    generation loop with interrupts, settlement), then the controller: commands, keys, timer, start and
    end of the REPL.
  \<^item> \<open>PB_Frame\<close>: the locale of relations that composed operations respect, proved once for every event,
    text and look at the keys; its instances are that no key is added (the key loop terminates), that
    only console and clock change, and in \<open>PB_Conversation\<close> that the invariant is kept.
  \<^item> \<open>PB_Cache\<close>, \<open>PB_Conversation\<close>: the invariant that joins the controller to the engine. Between two
    inputs the key-value cache is unused or holds exactly the committed conversation without its last
    token, and the conversation is whole turns (\<open>whole_turns\<close>): tokens of the template for one user
    text each, closed by an answer and its end marker; a turn leaves, drops or extends it.
  \<^item> \<open>PB_Barrier\<close>, \<open>PB_Workers\<close> (\<open>inference.rs\<close>): the job that several processors run for one token,
    with every atomic operation a step of its own. In every interleaving each row of each product is
    computed exactly once before the coordinator goes on.
  \<^item> \<open>PB_Fair\<close>: the locale of participants that take turns in any order. A schedule is an infinite
    sequence of turns; it is fair when each participant gets a turn again and again
    (\<open>fair_schedule\<close>). Every fair schedule ends; its instances are the job (\<open>PB_Progress\<close>) and the whole dispatch
    (\<open>PB_Completion\<close>).
  \<^item> \<open>PB_Processor\<close>, \<open>PB_Dispatch\<close>, \<open>PB_Agreement\<close>, \<open>PB_Completion\<close>, \<open>PB_Adapter\<close>
    (\<open>mp_inference.rs\<close>): the control state of an application processor, its entry with slot, entry
    barrier and agreement on the processor path, and the checks of the boot processor. The dispatch
    contains the job: an invariant over the processors in the order of their slots projects to the
    invariant of \<open>PB_Workers\<close>. All checks pass, and every processor has its state back.

  \<^bold>\<open>How state and effects are written.\<close> A struct is a record, an enum a datatype, machine integers
  are words where wrap-around matters and \<open>nat\<close> where the code has checked the range. Failing
  operations return \<open>error + 'a\<close>. Output parameters are returned beside the result, so that a theorem
  can say that a failure leaves them as they were. Firmware services are functions of the calls made
  so far, arguments of the definitions that use them: no assumption is made on what they answer.

  \<^bold>\<open>Parameters.\<close> The SHA instructions of the processor, the firmware answers, and the rounding
  instructions for floating point numbers (\<open>fpu\<close>: addition, multiplication, division, square root and
  conversions) are parameters; comparison of floating point numbers is written out on their bits. The
  table of rotary positions is a byte string, the dispatcher of rows to processors a function. For the
  REPL, the firmware's console is a record of functions of the calls made so far (\<open>screen\<close>), the
  \<open>environment\<close> holds the values of the time stamp counter and of the memory maps by the number of the
  reading, the answers to the key reads are a list at whose end no key is ready, and the results of
  the waits are a list at whose end the REPL is still waiting. An interleaving is a finite prefix of a schedule of
  slots or processors, chosen by the firmware and the hardware; atomics are sequentially consistent.
  What the arithmetic of a job leaves in MXCSR and in the x87 control word is a function of the slot.

  \<^bold>\<open>Bounds.\<close> Loops are structural recursions or folds; where a loop is only bounded by a counter
  (the read loop, the merge loop, the probe of the merge index) the model runs with fuel, and the
  theorem that uses it shows that the fuel is never exhausted. The generation loop recurs on the
  number of tokens its limit leaves, the key loop on the keys still to come.
  The loops of the processors need no fuel: they are steps, and a measure that every pair of turns of
  a waiting participant or any turn of another lowers shows that every fair schedule ends.

  \<^bold>\<open>Not modelled.\<close> The UEFI entry point with its firmware table, its load options, the echo-only REPL,
  the serial device search and the control registers (\<open>main.rs\<close>); the switch of the boot processor to
  its own floating point state around firmware calls; memory orders weaker than sequential
  consistency; the result record of the primitive interface as bytes of the memory (it is a value of
  its own); the pages of the processor adapter (\<open>mp_inference.rs\<close>), which are never freed and are not
  part of the session whose pages are counted; and the host
  tools (\<open>promptboot-tools\<close>), which read and write files with third-party crates and external
  programs.
\<close>

end
